(* ===== verification/KasPrelude.thy ===== *)
theory KasPrelude
  imports Main "HOL-Library.Word"
begin

text \<open>
  Shared vocabulary of the development: machine integers and byte strings of the
  firmware (\<open>u8\<close> .. \<open>u64\<close>, \<open>[u8]\<close>), little-endian conversion as done by Rust's
  \<open>to_le_bytes\<close>/\<open>from_le_bytes\<close>, in-place slice copies, and the step combinators in which
  every fallible, state-changing routine is written: a step takes the state and returns
  either an error or a value together with the state it leaves behind, so what Rust's
  \<open>?\<close> leaves half-done on an error return is visible in the model.
\<close>

unbundle bit_operations_syntax

type_synonym u8 = "8 word"
type_synonym u16 = "16 word"
type_synonym u32 = "32 word"
type_synonym u64 = "64 word"
type_synonym bytes = "u8 list"

named_theorems reads_intros \<open>how a reader program consumes the bytes of one field\<close>
named_theorems writes_intros \<open>how a writer program emits the bytes of one field\<close>
named_theorems step_simps \<open>evaluation of step combinators\<close>

section \<open>Ranges of the machine integers\<close>

lemma unat_u8_less: "unat (w :: u8) < 256"
  using unsigned_less [of w, where 'a = nat] by simp

lemma unat_u16_less: "unat (w :: u16) < 65536"
  using unsigned_less [of w, where 'a = nat] by simp

lemma unat_u32_less: "unat (w :: u32) < 2 ^ 32"
  using unsigned_less [of w, where 'a = nat] by simp

lemma unat_u64_less: "unat (w :: u64) < 2 ^ 64"
  using unsigned_less [of w, where 'a = nat] by simp

section \<open>Little-endian integers\<close>

fun le_bytes :: "nat \<Rightarrow> nat \<Rightarrow> bytes" where
  "le_bytes 0 v = []"
| "le_bytes (Suc k) v = of_nat (v mod 256) # le_bytes k (v div 256)"

fun le_value :: "bytes \<Rightarrow> nat" where
  "le_value [] = 0"
| "le_value (b # bs) = unat b + 256 * le_value bs"

definition to_le :: "nat \<Rightarrow> 'a::len word \<Rightarrow> bytes" where
  "to_le k w = le_bytes k (unat w)"

definition from_le :: "bytes \<Rightarrow> 'a::len word" where
  "from_le bs = of_nat (le_value bs)"

lemma length_le_bytes [simp]: "length (le_bytes k v) = k"
  by (induction k arbitrary: v) auto

lemma length_to_le [simp]: "length (to_le k w) = k"
  by (simp add: to_le_def)

lemma le_value_le_bytes: "le_value (le_bytes k v) = v mod 256 ^ k"
proof (induction k arbitrary: v)
  case 0
  then show ?case by simp
next
  case (Suc k)
  have "v mod 256 + 256 * (v div 256 mod 256 ^ k) = v mod (256 * 256 ^ k)"
    by (simp add: mod_mult2_eq)
  moreover have "unat (of_nat (v mod 256) :: u8) = v mod 256"
    by (simp add: unat_of_nat)
  ultimately show ?case by (simp add: Suc.IH)
qed

lemma le_value_bound: "le_value bs < 256 ^ length bs"
proof (induction bs)
  case Nil
  then show ?case by simp
next
  case (Cons b bs)
  have b: "unat b < 256"
    using unsigned_less [of b] by simp
  have "Suc (le_value bs) \<le> 256 ^ length bs"
    using Cons.IH by simp
  then have "256 * Suc (le_value bs) \<le> 256 * 256 ^ length bs"
    by simp
  with b show ?case by simp
qed

lemma le_bytes_le_value: "le_bytes (length bs) (le_value bs) = bs"
proof (induction bs)
  case Nil
  then show ?case by simp
next
  case (Cons b bs)
  have "unat b < 256"
    using unsigned_less [of b] by simp
  then show ?case using Cons.IH by simp
qed

lemma from_le_to_le:
  fixes w :: "'a::len word"
  assumes "LENGTH('a) = 8 * k"
  shows "from_le (to_le k w) = w"
proof -
  have "unat w < 2 ^ LENGTH('a)" by simp
  also have "2 ^ LENGTH('a) = (256 :: nat) ^ k"
    by (simp add: assms power_mult)
  finally have "unat w mod 256 ^ k = unat w" by simp
  then show ?thesis
    by (simp add: from_le_def to_le_def le_value_le_bytes)
qed

lemma from_le_to_le_16 [simp]: "from_le (to_le 2 w) = (w :: u16)"
  by (rule from_le_to_le) simp

lemma from_le_to_le_32 [simp]: "from_le (to_le 4 w) = (w :: u32)"
  by (rule from_le_to_le) simp

lemma from_le_to_le_64 [simp]: "from_le (to_le 8 w) = (w :: u64)"
  by (rule from_le_to_le) simp

section \<open>Slices of fixed arrays\<close>

text \<open>\<open>&xs[off..off + n]\<close> and \<open>dst[off..off + src.len()].copy_from_slice(src)\<close>.\<close>

definition slice :: "nat \<Rightarrow> nat \<Rightarrow> 'a list \<Rightarrow> 'a list" where
  "slice off n xs = take n (drop off xs)"

definition blit :: "'a list \<Rightarrow> nat \<Rightarrow> 'a list \<Rightarrow> 'a list" where
  "blit src off dst = take off dst @ src @ drop (off + length src) dst"

lemma length_slice [simp]: "length (slice off n xs) = min n (length xs - off)"
  by (simp add: slice_def)

lemma length_blit [simp]:
  "off + length src \<le> length dst \<Longrightarrow> length (blit src off dst) = length dst"
  by (simp add: blit_def)

lemma slice_blit [simp]:
  "off + length src \<le> length dst \<Longrightarrow> n = length src \<Longrightarrow> slice off n (blit src off dst) = src"
  by (simp add: slice_def blit_def)

lemma blit_Nil [simp]: "blit [] off dst = dst"
  by (simp add: blit_def)

lemma take_blit_0 [simp]: "take (length src) (blit src 0 dst) = src"
  by (simp add: blit_def)

lemma blit_append:
  assumes "off + length a + length b \<le> length dst"
  shows "blit b (off + length a) (blit a off dst) = blit (a @ b) off dst"
  using assms by (cases a) (auto simp: blit_def min_def ac_simps)

lemma take_blit_prefix:
  "off \<le> length dst \<Longrightarrow> take off (blit src off dst) = take off dst"
  by (simp add: blit_def)

lemma map_take_upd:
  "k < length xs \<Longrightarrow> length ys = n \<Longrightarrow> k < n \<Longrightarrow>
   (map f (take k xs) @ drop k ys)[k := f (xs ! k)] = map f (take (Suc k) xs) @ drop (Suc k) ys"
  by (simp add: list_update_append take_Suc_conv_app_nth Cons_nth_drop_Suc [symmetric])

section \<open>Steps: state, error, value\<close>

type_synonym ('s, 'e, 'a) step = "'s \<Rightarrow> ('e + 'a) \<times> 's"

definition ret :: "'a \<Rightarrow> ('s, 'e, 'a) step" where
  "ret x = (\<lambda>s. (Inr x, s))"

definition fail :: "'e \<Rightarrow> ('s, 'e, 'a) step" where
  "fail e = (\<lambda>s. (Inl e, s))"

definition bindE :: "('s, 'e, 'a) step \<Rightarrow> ('a \<Rightarrow> ('s, 'e, 'b) step) \<Rightarrow> ('s, 'e, 'b) step" where
  "bindE m f = (\<lambda>s. case m s of (Inl e, s') \<Rightarrow> (Inl e, s') | (Inr x, s') \<Rightarrow> f x s')"

definition thenE :: "('s, 'e, unit) step \<Rightarrow> ('s, 'e, 'b) step \<Rightarrow> ('s, 'e, 'b) step" where
  "thenE m n = bindE m (\<lambda>_. n)"

text \<open>\<open>if c { return Err(e); }\<close>\<close>

definition fail_if :: "bool \<Rightarrow> 'e \<Rightarrow> ('s, 'e, unit) step" where
  "fail_if c e = (if c then fail e else ret ())"

text \<open>\<open>if c { m }\<close>\<close>

definition whenE :: "bool \<Rightarrow> ('s, 'e, unit) step \<Rightarrow> ('s, 'e, unit) step" where
  "whenE c m = (if c then m else ret ())"

text \<open>\<open>for i in is { f(i)?; }\<close>, and the same with a local variable carried along.\<close>

fun forE :: "nat list \<Rightarrow> (nat \<Rightarrow> ('s, 'e, unit) step) \<Rightarrow> ('s, 'e, unit) step" where
  "forE [] f = ret ()"
| "forE (i # is) f = thenE (f i) (forE is f)"

fun foldE :: "nat list \<Rightarrow> (nat \<Rightarrow> 'c \<Rightarrow> ('s, 'e, 'c) step) \<Rightarrow> 'c \<Rightarrow> ('s, 'e, 'c) step" where
  "foldE [] f c = ret c"
| "foldE (i # is) f c = bindE (f i c) (foldE is f)"

lemma ret_apply [step_simps]: "ret x s = (Inr x, s)"
  by (simp add: ret_def)

lemma fail_apply [step_simps]: "fail e s = (Inl e, s)"
  by (simp add: fail_def)

lemma bindE_Inr [step_simps]: "m s = (Inr x, s') \<Longrightarrow> bindE m f s = f x s'"
  by (simp add: bindE_def)

lemma bindE_Inl [step_simps]: "m s = (Inl e, s') \<Longrightarrow> bindE m f s = (Inl e, s')"
  by (simp add: bindE_def)

lemma bindE_ret [simp]: "bindE (ret x) f = f x"
  by (simp add: bindE_def ret_def fun_eq_iff)

lemma bindE_eq_Inr:
  "bindE m f s = (Inr y, t) \<longleftrightarrow> (\<exists>x s'. m s = (Inr x, s') \<and> f x s' = (Inr y, t))"
  by (auto simp: bindE_def split: prod.splits sum.splits)

lemma thenE_eq_Inr:
  "thenE m n s = (Inr y, t) \<longleftrightarrow> (\<exists>s'. m s = (Inr (), s') \<and> n s' = (Inr y, t))"
  by (simp add: thenE_def bindE_eq_Inr)

lemma fail_if_False [simp]: "fail_if False e = ret ()"
  by (simp add: fail_if_def)

lemma fail_if_True [simp]: "fail_if True e = fail e"
  by (simp add: fail_if_def)

lemma fail_if_eq_Inr: "fail_if c e s = (Inr u, t) \<longleftrightarrow> \<not> c \<and> t = s"
  by (auto simp: fail_if_def ret_def fail_def)

subsection \<open>Invariants of steps\<close>

text \<open>
  \<open>keeps P m\<close>: the step leaves a state satisfying \<open>P\<close> whenever it starts in one, on
  success and on every error return alike.
\<close>

definition keeps :: "('s \<Rightarrow> bool) \<Rightarrow> ('s, 'e, 'a) step \<Rightarrow> bool" where
  "keeps P m \<longleftrightarrow> (\<forall>s. P s \<longrightarrow> P (snd (m s)))"

lemma keepsD: "keeps P m \<Longrightarrow> P s \<Longrightarrow> P (snd (m s))"
  by (simp add: keeps_def)

lemma keeps_ret [intro, simp]: "keeps P (ret x)"
  by (simp add: keeps_def ret_def)

lemma keeps_fail [intro, simp]: "keeps P (fail e)"
  by (simp add: keeps_def fail_def)

lemma keeps_fail_if [intro, simp]: "keeps P (fail_if c e)"
  by (simp add: fail_if_def)

lemma keeps_bindE [intro]: "keeps P m \<Longrightarrow> (\<And>x. keeps P (f x)) \<Longrightarrow> keeps P (bindE m f)"
  unfolding keeps_def bindE_def
  by (auto split: prod.splits sum.splits)

lemma keeps_thenE [intro]: "keeps P m \<Longrightarrow> keeps P n \<Longrightarrow> keeps P (thenE m n)"
  unfolding thenE_def by (rule keeps_bindE)

lemma keeps_whenE [intro]: "keeps P m \<Longrightarrow> keeps P (whenE c m)"
  by (simp add: whenE_def)

lemma keeps_forE [intro]: "(\<And>i. i \<in> set is \<Longrightarrow> keeps P (f i)) \<Longrightarrow> keeps P (forE is f)"
  by (induction "is") auto

lemma keeps_foldE [intro]: "(\<And>i c. i \<in> set is \<Longrightarrow> keeps P (f i c)) \<Longrightarrow> keeps P (foldE is f c)"
  by (induction "is" arbitrary: c) auto

lemma keeps_guard [intro]: "(\<not> c \<Longrightarrow> keeps P n) \<Longrightarrow> keeps P (thenE (fail_if c e) n)"
  by (cases c) (auto simp: thenE_def keeps_def bindE_def fail_def ret_def)

subsection \<open>What a successful step establishes\<close>

definition yields :: "('s \<Rightarrow> bool) \<Rightarrow> ('s, 'e, 'a) step \<Rightarrow> ('a \<Rightarrow> 's \<Rightarrow> bool) \<Rightarrow> bool" where
  "yields P m Q \<longleftrightarrow> (\<forall>s x s'. P s \<longrightarrow> m s = (Inr x, s') \<longrightarrow> Q x s')"

lemma yieldsD: "yields P m Q \<Longrightarrow> P s \<Longrightarrow> m s = (Inr x, s') \<Longrightarrow> Q x s'"
  by (simp add: yields_def)

lemma yields_ret: "(\<And>s. P s \<Longrightarrow> Q x s) \<Longrightarrow> yields P (ret x) Q"
  by (simp add: yields_def ret_def)

lemma yields_bindE: "yields P m R \<Longrightarrow> (\<And>x. yields (R x) (f x) Q) \<Longrightarrow> yields P (bindE m f) Q"
  unfolding yields_def bindE_eq_Inr by blast

lemma yields_thenE: "yields P m (\<lambda>_. R) \<Longrightarrow> yields R n Q \<Longrightarrow> yields P (thenE m n) Q"
  unfolding thenE_def by (rule yields_bindE)

lemma yields_keeps: "keeps P m \<Longrightarrow> yields P m (\<lambda>_. P)"
  unfolding keeps_def yields_def by (metis snd_conv)

lemma yields_guard: "(\<not> c \<Longrightarrow> yields P n Q) \<Longrightarrow> yields P (thenE (fail_if c e) n) Q"
  by (cases c) (auto simp: thenE_def yields_def bindE_def fail_def ret_def)

lemma yields_forE:
  assumes "\<And>k. i \<le> k \<Longrightarrow> k < j \<Longrightarrow> yields (I k) (f k) (\<lambda>_. I (Suc k))" and "i \<le> j"
  shows "yields (I i) (forE [i..<j] f) (\<lambda>_. I j)"
  using assms(2,1)
proof (induction i rule: inc_induct)
  case base
  then show ?case by (simp add: yields_ret)
next
  case (step n)
  have "yields (I n) (thenE (f n) (forE [Suc n..<j] f)) (\<lambda>_. I j)"
    using step by (intro yields_thenE) auto
  then show ?case using step by (simp add: upt_conv_Cons)
qed

lemma yields_foldE:
  assumes "\<And>k c. i \<le> k \<Longrightarrow> k < j \<Longrightarrow> yields (I k c) (f k c) (I (Suc k))" and "i \<le> j"
  shows "yields (I i c) (foldE [i..<j] f c) (I j)"
  using assms(2,1)
proof (induction i arbitrary: c rule: inc_induct)
  case base
  then show ?case by (simp add: yields_ret)
next
  case (step n)
  have "yields (I n c) (bindE (f n c) (foldE [Suc n..<j] f)) (I j)"
    using step by (intro yields_bindE) auto
  then show ?case using step by (simp add: upt_conv_Cons)
qed

lemma yields_weaken: "yields P m Q \<Longrightarrow> (\<And>s. P' s \<Longrightarrow> P s) \<Longrightarrow> (\<And>x s. Q x s \<Longrightarrow> Q' x s) \<Longrightarrow> yields P' m Q'"
  unfolding yields_def by blast

end
