(* ===== verification/KasWire.thy ===== *)
theory KasWire
  imports KasPrelude
begin

text \<open>
  The byte cursor of the compact transport format (core/src/wallet/pskt.rs): the error
  type, \<open>ByteReader\<close> over a received buffer and \<open>ByteWriter\<close> over an output buffer, every
  operation with its bounds check. The locale \<open>wire_codec\<close> is the contract between the two
  sides: what the writer emits for a value, the reader consumes exactly and gives back, and
  a reader that meets only a proper prefix of it reports \<open>BufferTooShort\<close>.
\<close>

datatype pskt_error =
    BufferTooShort
  | InvalidMagic
  | UnsupportedVersion
  | TooManyInputs
  | TooManyOutputs
  | ScriptTooLong
  | PayloadTooLong
  | InvalidSigHashType
  | OutputBufferTooSmall
  | NoInputs
  | NoOutputs
  | InvalidCovenantBinding
  | TrailingData
  | ValueOutOfRange

section \<open>ByteReader\<close>

record byte_reader =
  br_data :: bytes
  br_pos :: nat

type_synonym 'a reader = "(byte_reader, pskt_error, 'a) step"

definition reader_new :: "bytes \<Rightarrow> byte_reader" where
  "reader_new data = \<lparr>br_data = data, br_pos = 0\<rparr>"

definition reader_remaining :: "byte_reader \<Rightarrow> nat" where
  "reader_remaining r = length (br_data r) - br_pos r"

definition peek_u8 :: "byte_reader \<Rightarrow> u8 option" where
  "peek_u8 r = (if br_pos r < length (br_data r) then Some (br_data r ! br_pos r) else None)"

definition advance :: "nat \<Rightarrow> byte_reader \<Rightarrow> byte_reader" where
  "advance n r = r\<lparr>br_pos := br_pos r + n\<rparr>"

definition read_u8 :: "u8 reader" where
  "read_u8 r =
     (if br_pos r \<ge> length (br_data r) then (Inl BufferTooShort, r)
      else (Inr (br_data r ! br_pos r), advance 1 r))"

definition read_bytes :: "nat \<Rightarrow> bytes reader" where
  "read_bytes n r =
     (if reader_remaining r < n then (Inl BufferTooShort, r)
      else (Inr (slice (br_pos r) n (br_data r)), advance n r))"

definition read_u16_le :: "u16 reader" where
  "read_u16_le r =
     (if reader_remaining r < 2 then (Inl BufferTooShort, r)
      else (Inr (from_le [br_data r ! br_pos r, br_data r ! (br_pos r + 1)]), advance 2 r))"

definition read_u32_le :: "u32 reader" where
  "read_u32_le r =
     (if reader_remaining r < 4 then (Inl BufferTooShort, r)
      else (Inr (from_le (slice (br_pos r) 4 (br_data r))), advance 4 r))"

definition read_u64_le :: "u64 reader" where
  "read_u64_le r =
     (if reader_remaining r < 8 then (Inl BufferTooShort, r)
      else (Inr (from_le (slice (br_pos r) 8 (br_data r))), advance 8 r))"

definition read_hash256 :: "bytes reader" where
  "read_hash256 = bindE (read_bytes 32) (\<lambda>b. ret b)"

text \<open>One length byte, or the sentinel 0xFF followed by a u16.\<close>

definition read_spk_len :: "nat reader" where
  "read_spk_len =
     bindE read_u8 (\<lambda>b. if b = 0xFF then bindE read_u16_le (\<lambda>w. ret (unat w))
                        else ret (unat b))"

subsection \<open>The unread suffix\<close>

definition unread :: "byte_reader \<Rightarrow> bytes" where
  "unread r = drop (br_pos r) (br_data r)"

lemma length_unread [simp]: "length (unread r) = reader_remaining r"
  by (simp add: unread_def reader_remaining_def)

lemma unread_new [simp]: "unread (reader_new data) = data"
  by (simp add: unread_def reader_new_def)

lemma unread_advance [simp]: "unread (advance n r) = drop n (unread r)"
  by (simp add: unread_def advance_def add.commute)

lemma reader_remaining_advance [simp]: "reader_remaining (advance n r) = reader_remaining r - n"
  by (simp add: reader_remaining_def advance_def)

lemma advance_advance [simp]: "advance m (advance n r) = advance (n + m) r"
  by (simp add: advance_def add.assoc)

lemma advance_0 [simp]: "advance 0 r = r"
  by (simp add: advance_def)

lemma nth_unread: "i < reader_remaining r \<Longrightarrow> br_data r ! (br_pos r + i) = unread r ! i"
  by (simp add: unread_def reader_remaining_def)

lemma peek_u8_unread: "peek_u8 r = (case unread r of [] \<Rightarrow> None | b # _ \<Rightarrow> Some b)"
proof (cases "br_pos r < length (br_data r)")
  case True
  then have "unread r = br_data r ! br_pos r # drop (Suc (br_pos r)) (br_data r)"
    by (simp add: unread_def Cons_nth_drop_Suc)
  with True show ?thesis by (simp add: peek_u8_def)
next
  case False
  then show ?thesis by (simp add: peek_u8_def unread_def)
qed

lemma read_bytes_unread:
  "read_bytes n r = (if length (unread r) < n then (Inl BufferTooShort, r)
                     else (Inr (take n (unread r)), advance n r))"
  by (simp add: read_bytes_def slice_def unread_def reader_remaining_def)

lemma read_u8_unread:
  "read_u8 r = (case unread r of [] \<Rightarrow> (Inl BufferTooShort, r) | b # _ \<Rightarrow> (Inr b, advance 1 r))"
proof (cases "br_pos r < length (br_data r)")
  case True
  then have "unread r = br_data r ! br_pos r # drop (Suc (br_pos r)) (br_data r)"
    by (simp add: unread_def Cons_nth_drop_Suc)
  with True show ?thesis by (simp add: read_u8_def)
next
  case False
  then show ?thesis by (simp add: read_u8_def unread_def)
qed

lemma read_u16_le_unread:
  "read_u16_le r = (if length (unread r) < 2 then (Inl BufferTooShort, r)
                    else (Inr (from_le (take 2 (unread r))), advance 2 r))"
proof (cases "reader_remaining r < 2")
  case True
  then show ?thesis by (simp add: read_u16_le_def)
next
  case False
  have "take 2 (unread r) = [unread r ! 0, unread r ! 1]"
    using False by (intro nth_equalityI) (auto simp: less_Suc_eq numeral_2_eq_2)
  then show ?thesis
    using False nth_unread [of 0 r] nth_unread [of 1 r]
    by (simp add: read_u16_le_def)
qed

lemma read_u32_le_unread:
  "read_u32_le r = (if length (unread r) < 4 then (Inl BufferTooShort, r)
                    else (Inr (from_le (take 4 (unread r))), advance 4 r))"
  by (simp add: read_u32_le_def slice_def unread_def reader_remaining_def)

lemma read_u64_le_unread:
  "read_u64_le r = (if length (unread r) < 8 then (Inl BufferTooShort, r)
                    else (Inr (from_le (take 8 (unread r))), advance 8 r))"
  by (simp add: read_u64_le_def slice_def unread_def reader_remaining_def)

lemmas reader_unread =
  read_bytes_unread read_u8_unread read_u16_le_unread read_u32_le_unread read_u64_le_unread

section \<open>Parsers: a reader and the object being filled\<close>

type_synonym ('t, 'a) parser = "(byte_reader \<times> 't, pskt_error, 'a) step"

definition rd :: "'a reader \<Rightarrow> ('t, 'a) parser" where
  "rd m = (\<lambda>(r, t). case m r of (x, r') \<Rightarrow> (x, (r', t)))"

definition upd :: "('t \<Rightarrow> 't) \<Rightarrow> ('t, unit) parser" where
  "upd f = (\<lambda>(r, t). (Inr (), (r, f t)))"

definition get :: "('t \<Rightarrow> 'a) \<Rightarrow> ('t, 'a) parser" where
  "get f = (\<lambda>(r, t). (Inr (f t), (r, t)))"

definition remaining :: "('t, nat) parser" where
  "remaining = (\<lambda>(r, t). (Inr (reader_remaining r), (r, t)))"

lemma rd_apply: "rd m (r, t) = (fst (m r), (snd (m r), t))"
  by (simp add: rd_def split: prod.splits)

lemma upd_apply [simp]: "upd f (r, t) = (Inr (), (r, f t))"
  by (simp add: upd_def)

lemma get_apply [simp]: "get f (r, t) = (Inr (f t), (r, t))"
  by (simp add: get_def)

lemma remaining_apply [simp]: "remaining (r, t) = (Inr (reader_remaining r), (r, t))"
  by (simp add: remaining_def)

text \<open>\<open>keeps\<close> for parsers: reading never touches the object, an update does what it says.\<close>

definition holds :: "('t \<Rightarrow> bool) \<Rightarrow> byte_reader \<times> 't \<Rightarrow> bool" where
  "holds P = (\<lambda>(r, t). P t)"

lemma holds_pair [simp]: "holds P (r, t) = P t"
  by (simp add: holds_def)

lemma keeps_rd [intro, simp]: "keeps (holds P) (rd m)"
  by (auto simp: keeps_def rd_apply)

lemma keeps_upd [intro]: "(\<And>t. P t \<Longrightarrow> P (f t)) \<Longrightarrow> keeps (holds P) (upd f)"
  by (auto simp: keeps_def)

lemma keeps_get [intro, simp]: "keeps (holds P) (get f)"
  by (auto simp: keeps_def)

lemma keeps_remaining [intro, simp]: "keeps (holds P) remaining"
  by (auto simp: keeps_def)

subsection \<open>Reading exactly one encoding\<close>

text \<open>
  \<open>reads m bs t x t'\<close>: with \<open>bs\<close> at the cursor the parser consumes exactly \<open>bs\<close>, returns
  \<open>x\<close> and turns \<open>t\<close> into \<open>t'\<close>; with only a proper prefix of \<open>bs\<close> left it fails with
  \<open>BufferTooShort\<close>.
\<close>

definition proper_prefix :: "bytes \<Rightarrow> bytes \<Rightarrow> bool" where
  "proper_prefix p bs \<longleftrightarrow> length p < length bs \<and> take (length p) bs = p"

definition reads :: "('t, 'a) parser \<Rightarrow> bytes \<Rightarrow> 't \<Rightarrow> 'a \<Rightarrow> 't \<Rightarrow> bool" where
  "reads m bs t x t' \<longleftrightarrow>
     (\<forall>r rest. unread r = bs @ rest \<longrightarrow> m (r, t) = (Inr x, (advance (length bs) r, t'))) \<and>
     (\<forall>r. proper_prefix (unread r) bs \<longrightarrow> fst (m (r, t)) = Inl BufferTooShort)"

lemma reads_full:
  "reads m bs t x t' \<Longrightarrow> unread r = bs @ rest \<Longrightarrow> m (r, t) = (Inr x, (advance (length bs) r, t'))"
  by (simp add: reads_def)

lemma reads_short:
  "reads m bs t x t' \<Longrightarrow> proper_prefix (unread r) bs \<Longrightarrow> fst (m (r, t)) = Inl BufferTooShort"
  by (simp add: reads_def)

lemma proper_prefix_Nil [simp]: "\<not> proper_prefix p []"
  by (simp add: proper_prefix_def)

lemma proper_prefix_append:
  assumes "proper_prefix p (as @ bs)"
  obtains "proper_prefix p as" | q where "p = as @ q" "proper_prefix q bs"
proof (cases "length p < length as")
  case True
  with assms have "proper_prefix p as" by (simp add: proper_prefix_def)
  then show ?thesis by (rule that(1))
next
  case False
  with assms have p: "p = as @ take (length p - length as) bs"
    by (simp add: proper_prefix_def)
  have "proper_prefix (take (length p - length as) bs) bs"
    using assms False by (auto simp: proper_prefix_def min_def)
  with p show ?thesis by (rule that(2))
qed

lemma reads_ret: "reads (ret x) [] t x t"
  by (simp add: reads_def ret_def)

lemma bindE_fst_Inl: "fst (m s) = Inl e \<Longrightarrow> fst (bindE m f s) = Inl e"
  by (auto simp: bindE_def split: prod.splits sum.splits)

lemma reads_bindE:
  assumes m: "reads m bs t x t'" and f: "reads (f x) cs t' y t''"
  shows "reads (bindE m f) (bs @ cs) t y t''"
  unfolding reads_def
proof (intro conjI allI impI)
  fix r rest assume u: "unread r = (bs @ cs) @ rest"
  then have "m (r, t) = (Inr x, (advance (length bs) r, t'))"
    by (intro reads_full [OF m]) simp
  moreover have "f x (advance (length bs) r, t') = (Inr y, (advance (length cs) (advance (length bs) r), t''))"
    using u by (intro reads_full [OF f]) simp
  ultimately show "bindE m f (r, t) = (Inr y, (advance (length (bs @ cs)) r, t''))"
    by (simp add: bindE_def)
next
  fix r assume "proper_prefix (unread r) (bs @ cs)"
  then show "fst (bindE m f (r, t)) = Inl BufferTooShort"
  proof (rule proper_prefix_append)
    assume "proper_prefix (unread r) bs"
    then have "fst (m (r, t)) = Inl BufferTooShort" by (rule reads_short [OF m])
    then show ?thesis by (rule bindE_fst_Inl)
  next
    fix q assume q: "unread r = bs @ q" "proper_prefix q cs"
    then have "m (r, t) = (Inr x, (advance (length bs) r, t'))"
      by (intro reads_full [OF m]) simp
    moreover have "fst (f x (advance (length bs) r, t')) = Inl BufferTooShort"
      using q by (intro reads_short [OF f]) simp
    ultimately show ?thesis by (simp add: bindE_def)
  qed
qed

lemma reads_bindE_silent:
  assumes "\<And>r. m (r, t) = (Inr x, (r, t'))" and "reads (f x) cs t' y t''"
  shows "reads (bindE m f) cs t y t''"
  using assms by (simp add: reads_def bindE_def)

lemma reads_thenE: "reads m bs t () t' \<Longrightarrow> reads n cs t' y t'' \<Longrightarrow> reads (thenE m n) (bs @ cs) t y t''"
  unfolding thenE_def by (rule reads_bindE)

lemma reads_then_fail_if: "\<not> c \<Longrightarrow> reads n cs t y t'' \<Longrightarrow> reads (thenE (fail_if c e) n) cs t y t''"
  unfolding thenE_def by (rule reads_bindE_silent) (auto simp: ret_def)

lemma reads_then_upd: "reads n cs (f t) y t'' \<Longrightarrow> reads (thenE (upd f) n) cs t y t''"
  unfolding thenE_def by (rule reads_bindE_silent) auto

lemma reads_bind_get: "reads (g (f t)) cs t y t'' \<Longrightarrow> reads (bindE (get f) g) cs t y t''"
  by (rule reads_bindE_silent) auto

lemma reads_upd: "reads (upd f) [] t () (f t)"
  by (simp add: reads_def)

lemma reads_forE:
  assumes "\<And>k. i \<le> k \<Longrightarrow> k < j \<Longrightarrow> reads (f k) (enc k) (st k) () (st (Suc k))" and "i \<le> j"
  shows "reads (forE [i..<j] f) (concat (map enc [i..<j])) (st i) () (st j)"
  using assms(2,1)
proof (induction i rule: inc_induct)
  case base
  then show ?case by (simp add: reads_ret)
next
  case (step n)
  have "reads (thenE (f n) (forE [Suc n..<j] f)) (enc n @ concat (map enc [Suc n..<j])) (st n) () (st j)"
    using step by (intro reads_thenE) auto
  then show ?case using step by (simp add: upt_conv_Cons)
qed

lemma reads_foldE:
  assumes "\<And>k. i \<le> k \<Longrightarrow> k < j \<Longrightarrow> reads (f k (ac k)) (enc k) (st k) (ac (Suc k)) (st (Suc k))"
    and "i \<le> j"
  shows "reads (foldE [i..<j] f (ac i)) (concat (map enc [i..<j])) (st i) (ac j) (st j)"
  using assms(2,1)
proof (induction i rule: inc_induct)
  case base
  then show ?case by (simp add: reads_ret)
next
  case (step n)
  have "reads (bindE (f n (ac n)) (foldE [Suc n..<j] f)) (enc n @ concat (map enc [Suc n..<j]))
          (st n) (ac j) (st j)"
    using step by (intro reads_bindE) auto
  then show ?case using step by (simp add: upt_conv_Cons)
qed

section \<open>The contract between writer and reader\<close>

locale wire_codec =
  fixes enc :: "'a \<Rightarrow> bytes"
    and dec :: "'a reader"
    and dom :: "'a \<Rightarrow> bool"
  assumes dec_full:
      "dom x \<Longrightarrow> unread r = enc x @ rest \<Longrightarrow> dec r = (Inr x, advance (length (enc x)) r)"
    and dec_short:
      "dom x \<Longrightarrow> proper_prefix (unread r) (enc x) \<Longrightarrow> fst (dec r) = Inl BufferTooShort"
begin

lemma reads_dec: "dom x \<Longrightarrow> reads (rd dec) (enc x) t x t"
  by (auto simp: reads_def rd_apply dec_full dec_short)

lemma bind_dec:
  "dom x \<Longrightarrow> reads (f x) cs t y t'' \<Longrightarrow> reads (bindE (rd dec) f) (enc x @ cs) t y t''"
  by (rule reads_bindE [OF reads_dec])

lemma prefix_free:
  assumes "dom x" "dom y" "enc x @ a = enc y @ b"
  shows "x = y \<and> a = b"
proof -
  have x: "dec (reader_new (enc x @ a)) = (Inr x, advance (length (enc x)) (reader_new (enc x @ a)))"
    using assms(1) by (rule dec_full) simp
  have "dec (reader_new (enc x @ a)) = (Inr y, advance (length (enc y)) (reader_new (enc x @ a)))"
    using assms(2) by (rule dec_full) (simp add: assms(3))
  with x have "x = y" by simp
  with assms(3) show ?thesis by simp
qed

lemma enc_inject: "dom x \<Longrightarrow> dom y \<Longrightarrow> enc x = enc y \<Longrightarrow> x = y"
  using prefix_free [of x y "[]" "[]"] by simp

end

definition spk_len_bytes :: "nat \<Rightarrow> bytes" where
  "spk_len_bytes n = (if n \<le> 254 then [of_nat n] else 0xFF # to_le 2 (of_nat n :: u16))"

interpretation u8_codec: wire_codec "\<lambda>b. [b]" read_u8 "\<lambda>_. True"
  by unfold_locales (auto simp: read_u8_unread proper_prefix_def)

interpretation u16_codec: wire_codec "to_le 2" read_u16_le "\<lambda>_. True"
  by unfold_locales (auto simp: read_u16_le_unread proper_prefix_def simp del: length_unread)

interpretation u32_codec: wire_codec "to_le 4" read_u32_le "\<lambda>_. True"
  by unfold_locales (auto simp: read_u32_le_unread proper_prefix_def simp del: length_unread)

interpretation u64_codec: wire_codec "to_le 8" read_u64_le "\<lambda>_. True"
  by unfold_locales (auto simp: read_u64_le_unread proper_prefix_def simp del: length_unread)

interpretation bytes_codec: wire_codec "\<lambda>b. b" "read_bytes n" "\<lambda>b. length b = n" for n
  by unfold_locales (auto simp: read_bytes_unread proper_prefix_def simp del: length_unread)

interpretation hash_codec: wire_codec "\<lambda>b. b" read_hash256 "\<lambda>b. length b = 32"
  by unfold_locales
    (auto simp: read_hash256_def bindE_def ret_def read_bytes_unread proper_prefix_def
      simp del: length_unread)

lemma read_spk_len_short_form:
  "n \<le> 254 \<Longrightarrow> unread r = of_nat n # rest \<Longrightarrow> read_spk_len r = (Inr n, advance 1 r)"
  by (auto simp: read_spk_len_def bindE_def ret_def read_u8_unread unat_of_nat
      dest!: arg_cong [where f = unat])

lemma read_spk_len_long_form:
  assumes "n < 65536" "unread r = 0xFF # to_le 2 (of_nat n :: u16) @ rest"
  shows "read_spk_len r = (Inr n, advance 3 r)"
proof -
  have u: "unread (advance 1 r) = to_le 2 (of_nat n :: u16) @ rest"
    using assms(2) by simp
  have "read_u16_le (advance 1 r) = (Inr (of_nat n), advance 2 (advance 1 r))"
    using u16_codec.dec_full [OF TrueI u] by simp
  moreover have "read_u8 r = (Inr 0xFF, advance 1 r)"
    using assms(2) by (simp add: read_u8_unread)
  ultimately show ?thesis
    using assms(1) by (simp add: read_spk_len_def bindE_def ret_def unat_of_nat numeral_3_eq_3)
qed

interpretation spk_len_codec: wire_codec spk_len_bytes read_spk_len "\<lambda>n. n < 65536"
proof unfold_locales
  fix n r rest assume "n < 65536" "unread r = spk_len_bytes n @ rest"
  then show "read_spk_len r = (Inr n, advance (length (spk_len_bytes n)) r)"
    using read_spk_len_short_form [of n r rest] read_spk_len_long_form [of n r rest]
    by (auto simp: spk_len_bytes_def split: if_splits)
next
  fix n r assume n: "n < 65536" and p: "proper_prefix (unread r) (spk_len_bytes n)"
  show "fst (read_spk_len r) = Inl BufferTooShort"
  proof (cases "unread r")
    case Nil
    then show ?thesis by (simp add: read_spk_len_def bindE_def read_u8_unread)
  next
    case (Cons b bs)
    with p have long: "b = 0xFF" "length bs < 2"
      by (auto simp: proper_prefix_def spk_len_bytes_def simp del: length_unread split: if_splits)
    then have "fst (read_u16_le (advance 1 r)) = Inl BufferTooShort"
      using Cons by (simp add: read_u16_le_unread del: length_unread)
    then show ?thesis using Cons long
      by (simp add: read_spk_len_def bindE_Inr [of read_u8] read_u8_unread bindE_fst_Inl)
  qed
qed

lemmas bind_dec_intros =
  u8_codec.bind_dec [OF TrueI, unfolded append_Cons append_Nil]
  u16_codec.bind_dec [OF TrueI] u32_codec.bind_dec [OF TrueI] u64_codec.bind_dec [OF TrueI]
  bytes_codec.bind_dec hash_codec.bind_dec spk_len_codec.bind_dec

section \<open>ByteWriter\<close>

record byte_writer =
  bw_buf :: bytes
  bw_pos :: nat

type_synonym writer = "(byte_writer, pskt_error, unit) step"

definition writer_new :: "bytes \<Rightarrow> byte_writer" where
  "writer_new buf = \<lparr>bw_buf = buf, bw_pos = 0\<rparr>"

definition writer_remaining :: "byte_writer \<Rightarrow> nat" where
  "writer_remaining w = length (bw_buf w) - bw_pos w"

definition put :: "bytes \<Rightarrow> byte_writer \<Rightarrow> byte_writer" where
  "put data w = w\<lparr>bw_buf := blit data (bw_pos w) (bw_buf w), bw_pos := bw_pos w + length data\<rparr>"

definition write_bytes :: "bytes \<Rightarrow> writer" where
  "write_bytes data w =
     (if writer_remaining w < length data then (Inl OutputBufferTooSmall, w)
      else (Inr (), put data w))"

definition write_u8 :: "u8 \<Rightarrow> writer" where
  "write_u8 v = write_bytes [v]"

definition write_u16_le :: "u16 \<Rightarrow> writer" where
  "write_u16_le v = write_bytes (to_le 2 v)"

definition write_u32_le :: "u32 \<Rightarrow> writer" where
  "write_u32_le v = write_bytes (to_le 4 v)"

definition write_u64_le :: "u64 \<Rightarrow> writer" where
  "write_u64_le v = write_bytes (to_le 8 v)"

definition write_spk_len :: "nat \<Rightarrow> writer" where
  "write_spk_len n =
     (if n \<le> 254 then write_u8 (of_nat n)
      else thenE (write_u8 0xFF) (write_u16_le (of_nat n)))"

text \<open>What a serializer returns to its caller: \<open>Ok(w.written())\<close> or the error, and the buffer.\<close>

definition run_writer :: "writer \<Rightarrow> bytes \<Rightarrow> (pskt_error + nat) \<times> bytes" where
  "run_writer m out =
     (case m (writer_new out) of
        (Inl e, w) \<Rightarrow> (Inl e, bw_buf w)
      | (Inr _, w) \<Rightarrow> (Inr (bw_pos w), bw_buf w))"

definition writes :: "writer \<Rightarrow> bytes \<Rightarrow> bool" where
  "writes m bs \<longleftrightarrow>
     (\<forall>w. (length bs \<le> writer_remaining w \<longrightarrow> m w = (Inr (), put bs w)) \<and>
          (writer_remaining w < length bs \<longrightarrow> fst (m w) = Inl OutputBufferTooSmall))"

lemma put_Nil [simp]: "put [] w = w"
  by (simp add: put_def)

lemma put_put:
  assumes "length a + length b \<le> writer_remaining w"
  shows "put b (put a w) = put (a @ b) w"
proof (cases "a = [] \<and> b = []")
  case True
  then show ?thesis by simp
next
  case False
  with assms have "bw_pos w + length a + length b \<le> length (bw_buf w)"
    by (auto simp: writer_remaining_def neq_Nil_conv)
  then show ?thesis
    by (simp add: put_def add.assoc blit_append)
qed

lemma writer_remaining_put:
  "length a \<le> writer_remaining w \<Longrightarrow> writer_remaining (put a w) = writer_remaining w - length a"
  by (cases a) (auto simp: put_def writer_remaining_def)

lemma writes_ret [writes_intros]: "writes (ret ()) []"
  by (simp add: writes_def ret_def)

lemma writes_bytes [writes_intros]: "writes (write_bytes bs) bs"
  by (simp add: writes_def write_bytes_def)

lemma writes_thenE [writes_intros]: "writes m bs \<Longrightarrow> writes n cs \<Longrightarrow> writes (thenE m n) (bs @ cs)"
  unfolding writes_def
proof (intro allI conjI impI)
  fix w
  assume m: "\<forall>w. (length bs \<le> writer_remaining w \<longrightarrow> m w = (Inr (), put bs w)) \<and>
               (writer_remaining w < length bs \<longrightarrow> fst (m w) = Inl OutputBufferTooSmall)"
    and n: "\<forall>w. (length cs \<le> writer_remaining w \<longrightarrow> n w = (Inr (), put cs w)) \<and>
               (writer_remaining w < length cs \<longrightarrow> fst (n w) = Inl OutputBufferTooSmall)"
  show "thenE m n w = (Inr (), put (bs @ cs) w)" if "length (bs @ cs) \<le> writer_remaining w"
    using that m n by (simp add: thenE_def bindE_def put_put writer_remaining_put)
  show "fst (thenE m n w) = Inl OutputBufferTooSmall" if "writer_remaining w < length (bs @ cs)"
  proof (cases "length bs \<le> writer_remaining w")
    case True
    with that m n show ?thesis
      by (simp add: thenE_def bindE_def writer_remaining_put)
  next
    case False
    with m show ?thesis by (simp add: thenE_def bindE_fst_Inl)
  qed
qed

lemma writes_u8 [writes_intros]: "writes (write_u8 v) [v]"
  unfolding write_u8_def by (rule writes_bytes)

lemma writes_u16 [writes_intros]: "writes (write_u16_le v) (to_le 2 v)"
  unfolding write_u16_le_def by (rule writes_bytes)

lemma writes_u32 [writes_intros]: "writes (write_u32_le v) (to_le 4 v)"
  unfolding write_u32_le_def by (rule writes_bytes)

lemma writes_u64 [writes_intros]: "writes (write_u64_le v) (to_le 8 v)"
  unfolding write_u64_le_def by (rule writes_bytes)

lemma writes_spk_len [writes_intros]: "writes (write_spk_len n) (spk_len_bytes n)"
  using writes_thenE [OF writes_u8 writes_u16, of "0xFF" "of_nat n"] writes_u8 [of "of_nat n"]
  by (simp add: write_spk_len_def spk_len_bytes_def)

lemma writes_whenE [writes_intros]: "writes m bs \<Longrightarrow> writes (whenE c m) (if c then bs else [])"
  by (simp add: whenE_def writes_ret)

lemma writes_forE [writes_intros]:
  "(\<And>i. i \<in> set is \<Longrightarrow> writes (f i) (enc i)) \<Longrightarrow> writes (forE is f) (concat (map enc is))"
  by (induction "is") (auto intro: writes_intros)

lemma run_writer_fits:
  assumes "writes m bs" "length bs \<le> length out"
  shows "run_writer m out = (Inr (length bs), bs @ drop (length bs) out)"
  using assms by (simp add: run_writer_def writes_def writer_new_def writer_remaining_def put_def blit_def)

lemma run_writer_small:
  assumes "writes m bs" "length out < length bs"
  shows "fst (run_writer m out) = Inl OutputBufferTooSmall"
proof -
  have "fst (m (writer_new out)) = Inl OutputBufferTooSmall"
    using assms by (simp add: writes_def writer_new_def writer_remaining_def)
  then show ?thesis
    by (cases "m (writer_new out)") (auto simp: run_writer_def)
qed

end
