(* ===== verification/KasTransaction.thy ===== *)
theory KasTransaction
  imports KasWire
begin

text \<open>
  The transaction model of core/src/wallet/transaction.rs: sighash types, scripts and their
  classification, inputs, outputs, the shared pool of long redeem scripts, the amount
  arithmetic of the review screen and the decimal rendering of amounts. Fixed arrays are
  lists whose length the well-formedness predicate fixes; a length field next to an array is
  kept as the code keeps it. Sums that the release build traps on are \<open>None\<close> on overflow.
\<close>

definition MAX_INPUTS :: nat where "MAX_INPUTS = 32"
definition MAX_OUTPUTS :: nat where "MAX_OUTPUTS = 8"
definition MAX_SCRIPT_SIZE :: nat where "MAX_SCRIPT_SIZE = 512"
definition MAX_REDEEM_SIZE :: nat where "MAX_REDEEM_SIZE = 1024"
definition MAX_PAYLOAD_SIZE :: nat where "MAX_PAYLOAD_SIZE = 768"
definition MAX_SIGS_PER_INPUT :: nat where "MAX_SIGS_PER_INPUT = 5"
definition MAX_MULTISIG_KEYS :: nat where "MAX_MULTISIG_KEYS = 5"
definition REDEEM_POOL_SIZE :: nat where "REDEEM_POOL_SIZE = 4096"

lemmas size_limits = MAX_INPUTS_def MAX_OUTPUTS_def MAX_SCRIPT_SIZE_def MAX_REDEEM_SIZE_def
  MAX_PAYLOAD_SIZE_def MAX_SIGS_PER_INPUT_def MAX_MULTISIG_KEYS_def REDEEM_POOL_SIZE_def

abbreviation zeros :: "nat \<Rightarrow> bytes" where
  "zeros n \<equiv> replicate n 0"

section \<open>Sighash types\<close>

datatype sighash_type =
    ShAll | ShNone | ShSingle | ShAnyOneCanPay
  | ShAllAnyOneCanPay | ShNoneAnyOneCanPay | ShSingleAnyOneCanPay

definition sighash_from_byte :: "u8 \<Rightarrow> sighash_type option" where
  "sighash_from_byte b =
     (if b = 0x01 then Some ShAll
      else if b = 0x02 then Some ShNone
      else if b = 0x04 then Some ShSingle
      else if b = 0x81 then Some ShAllAnyOneCanPay
      else if b = 0x82 then Some ShNoneAnyOneCanPay
      else if b = 0x84 then Some ShSingleAnyOneCanPay
      else None)"

fun sighash_to_byte :: "sighash_type \<Rightarrow> u8" where
  "sighash_to_byte ShAll = 0x01"
| "sighash_to_byte ShNone = 0x02"
| "sighash_to_byte ShSingle = 0x04"
| "sighash_to_byte ShAnyOneCanPay = 0x80"
| "sighash_to_byte ShAllAnyOneCanPay = 0x81"
| "sighash_to_byte ShNoneAnyOneCanPay = 0x82"
| "sighash_to_byte ShSingleAnyOneCanPay = 0x84"

definition is_anyone_can_pay :: "sighash_type \<Rightarrow> bool" where
  "is_anyone_can_pay t \<longleftrightarrow> sighash_to_byte t AND 0x80 \<noteq> 0"

definition is_sighash_none :: "sighash_type \<Rightarrow> bool" where
  "is_sighash_none t \<longleftrightarrow> sighash_to_byte t AND 0x02 \<noteq> 0"

definition is_sighash_single :: "sighash_type \<Rightarrow> bool" where
  "is_sighash_single t \<longleftrightarrow> sighash_to_byte t AND 0x04 \<noteq> 0"

lemma sighash_flags [simp]:
  "is_anyone_can_pay t \<longleftrightarrow>
     t \<in> {ShAnyOneCanPay, ShAllAnyOneCanPay, ShNoneAnyOneCanPay, ShSingleAnyOneCanPay}"
  "is_sighash_none t \<longleftrightarrow> t \<in> {ShNone, ShNoneAnyOneCanPay}"
  "is_sighash_single t \<longleftrightarrow> t \<in> {ShSingle, ShSingleAnyOneCanPay}"
  by (cases t; simp add: is_anyone_can_pay_def is_sighash_none_def is_sighash_single_def)+

section \<open>Scripts\<close>

record outpoint =
  op_transaction_id :: bytes
  op_index :: u32

record script_public_key =
  spk_version :: u16
  spk_script :: bytes
  spk_script_len :: nat

definition spk_new :: script_public_key where
  "spk_new = \<lparr>spk_version = 0, spk_script = zeros MAX_SCRIPT_SIZE, spk_script_len = 0\<rparr>"

definition script_bytes :: "script_public_key \<Rightarrow> bytes" where
  "script_bytes spk = take (spk_script_len spk) (spk_script spk)"

record utxo_entry =
  utxo_amount :: u64
  utxo_spk :: script_public_key
  utxo_has_covenant :: bool
  utxo_covenant_id :: bytes

definition OP_DATA_32 :: u8 where "OP_DATA_32 = 0x20"
definition OP_1 :: u8 where "OP_1 = 0x51"
definition OP_5 :: u8 where "OP_5 = 0x55"
definition OP_CHECKSIG :: u8 where "OP_CHECKSIG = 0xAC"
definition OP_CHECKMULTISIG :: u8 where "OP_CHECKMULTISIG = 0xAE"
definition OP_BLAKE2B :: u8 where "OP_BLAKE2B = 0xAA"
definition OP_EQUAL :: u8 where "OP_EQUAL = 0x87"

lemmas opcodes = OP_DATA_32_def OP_1_def OP_5_def OP_CHECKSIG_def OP_CHECKMULTISIG_def
  OP_BLAKE2B_def OP_EQUAL_def

record multisig_info =
  ms_m :: u8
  ms_n :: u8
  ms_pubkeys :: "bytes list"

datatype script_type = P2PK | P2SH | Multisig | UnknownScript

definition is_displayable_output_script :: "bytes \<Rightarrow> nat \<Rightarrow> bool" where
  "is_displayable_output_script script len =
     (if len = 34 \<and> script ! 0 = OP_DATA_32 \<and> script ! 33 = OP_CHECKSIG then True
      else if len = 35 \<and> script ! 0 = OP_BLAKE2B \<and> script ! 1 = OP_DATA_32
              \<and> script ! 34 = OP_EQUAL then True
      else False)"

definition op_in_1_5 :: "u8 \<Rightarrow> bool" where
  "op_in_1_5 b \<longleftrightarrow> OP_1 \<le> b \<and> b \<le> OP_5"

definition detect_script_type :: "bytes \<Rightarrow> nat \<Rightarrow> script_type" where
  "detect_script_type script len =
     (if len = 34 \<and> script ! 0 = OP_DATA_32 \<and> script ! 33 = OP_CHECKSIG then P2PK
      else if len = 35 \<and> script ! 0 = OP_BLAKE2B \<and> script ! 1 = OP_DATA_32
              \<and> script ! 34 = OP_EQUAL then P2SH
      else if len \<ge> 36 \<and> script ! (len - 1) = OP_CHECKMULTISIG then
        (let n_byte = script ! (len - 2); m_byte = script ! 0
         in if op_in_1_5 m_byte \<and> op_in_1_5 n_byte then
              (let m = unat (m_byte - OP_1 + 1); n = unat (n_byte - OP_1 + 1)
               in if m \<le> n \<and> n \<le> MAX_MULTISIG_KEYS then
                    (let expected_len = 1 + n * 33 + 1 + 1
                     in if len = expected_len \<and>
                           list_all (\<lambda>i. script ! (1 + i * 33) = OP_DATA_32) [0..<n]
                        then Multisig else UnknownScript)
                  else UnknownScript)
            else UnknownScript)
      else UnknownScript)"

definition parse_multisig_script :: "bytes \<Rightarrow> nat \<Rightarrow> multisig_info option" where
  "parse_multisig_script script len =
     (if detect_script_type script len \<noteq> Multisig then None
      else
        (let m = script ! 0 - OP_1 + 1; n = script ! (len - 2) - OP_1 + 1
         in Some \<lparr>ms_m = m, ms_n = n,
                  ms_pubkeys = map (\<lambda>i. slice (1 + i * 33 + 1) 32 script) [0..<unat n]
                    @ replicate (MAX_MULTISIG_KEYS - unat n) (zeros 32)\<rparr>))"

section \<open>Inputs, outputs, transaction\<close>

record input_sig =
  sig_signature :: bytes
  sig_sighash_type :: u8
  sig_pubkey_pos :: u8
  sig_present :: bool
  sig_pubkey_compressed :: bytes

definition input_sig_empty :: input_sig where
  "input_sig_empty = \<lparr>sig_signature = zeros 64, sig_sighash_type = 0, sig_pubkey_pos = 0,
     sig_present = False, sig_pubkey_compressed = zeros 33\<rparr>"

record incoming_partial_sig =
  ips_pubkey :: bytes
  ips_signature :: bytes
  ips_present :: bool

definition incoming_partial_sig_empty :: incoming_partial_sig where
  "incoming_partial_sig_empty = \<lparr>ips_pubkey = zeros 33, ips_signature = zeros 64, ips_present = False\<rparr>"

record ms45_hint =
  hint_present :: bool
  hint_cosigner :: u32
  hint_chain :: u32
  hint_index :: u32

definition ms45_hint_none :: ms45_hint where
  "ms45_hint_none = \<lparr>hint_present = False, hint_cosigner = 0, hint_chain = 0, hint_index = 0\<rparr>"

record transaction_input =
  in_outpoint :: outpoint
  in_sequence :: u64
  in_sig_op_count :: u8
  in_utxo :: utxo_entry
  in_sigs :: "input_sig list"
  in_sig_count :: u8
  in_signature :: bytes
  in_sig_len :: u8
  in_sighash_type :: u8
  in_redeem_script :: bytes
  in_redeem_script_len :: nat
  in_redeem_in_pool :: bool
  in_redeem_script_offset :: u16
  in_partial_sigs :: "incoming_partial_sig list"
  in_partial_sigs_count :: u8
  in_ms45_hint :: ms45_hint

record transaction_output =
  out_value :: u64
  out_spk :: script_public_key
  out_has_covenant :: bool
  out_covenant_auth_input :: u16
  out_covenant_id :: bytes
  out_ms45_hint :: ms45_hint

record transaction =
  tx_version :: u16
  tx_inputs :: "transaction_input list"
  tx_num_inputs :: nat
  tx_outputs :: "transaction_output list"
  tx_num_outputs :: nat
  tx_locktime :: u64
  tx_subnetwork_id :: bytes
  tx_gas :: u64
  tx_payload :: bytes
  tx_payload_len :: nat
  tx_stealth_tweak :: bytes
  tx_has_stealth_tweak :: bool
  tx_redeem_pool :: bytes
  tx_redeem_pool_used :: nat

definition input_zero :: transaction_input where
  "input_zero =
     \<lparr>in_outpoint = \<lparr>op_transaction_id = zeros 32, op_index = 0\<rparr>,
      in_sequence = 0, in_sig_op_count = 0,
      in_utxo = \<lparr>utxo_amount = 0, utxo_spk = spk_new, utxo_has_covenant = False,
                 utxo_covenant_id = zeros 32\<rparr>,
      in_sigs = replicate MAX_SIGS_PER_INPUT input_sig_empty, in_sig_count = 0,
      in_signature = zeros 64, in_sig_len = 0, in_sighash_type = 0,
      in_redeem_script = zeros MAX_SCRIPT_SIZE, in_redeem_script_len = 0,
      in_redeem_in_pool = False, in_redeem_script_offset = 0,
      in_partial_sigs = replicate MAX_SIGS_PER_INPUT incoming_partial_sig_empty,
      in_partial_sigs_count = 0, in_ms45_hint = ms45_hint_none\<rparr>"

definition input_default :: transaction_input where
  "input_default = input_zero\<lparr>in_sig_op_count := 1\<rparr>"

definition output_default :: transaction_output where
  "output_default =
     \<lparr>out_value = 0, out_spk = spk_new, out_has_covenant = False,
      out_covenant_auth_input = 0, out_covenant_id = zeros 32, out_ms45_hint = ms45_hint_none\<rparr>"

text \<open>All-zero memory, then \<open>sig_op_count = 1\<close> in every input slot.\<close>

definition transaction_new :: transaction where
  "transaction_new =
     \<lparr>tx_version = 0, tx_inputs = replicate MAX_INPUTS input_default, tx_num_inputs = 0,
      tx_outputs = replicate MAX_OUTPUTS output_default, tx_num_outputs = 0,
      tx_locktime = 0, tx_subnetwork_id = zeros 20, tx_gas = 0,
      tx_payload = zeros MAX_PAYLOAD_SIZE, tx_payload_len = 0,
      tx_stealth_tweak = zeros 32, tx_has_stealth_tweak = False,
      tx_redeem_pool = zeros REDEEM_POOL_SIZE, tx_redeem_pool_used = 0\<rparr>"

text \<open>\<open>clear(&mut self)\<close> writes the same contents over whatever was there.\<close>

definition tx_clear :: "transaction \<Rightarrow> transaction" where
  "tx_clear tx = transaction_new"

definition upd_in :: "nat \<Rightarrow> (transaction_input \<Rightarrow> transaction_input) \<Rightarrow> transaction \<Rightarrow> transaction" where
  "upd_in i f tx = tx\<lparr>tx_inputs := (tx_inputs tx)[i := f (tx_inputs tx ! i)]\<rparr>"

definition upd_out :: "nat \<Rightarrow> (transaction_output \<Rightarrow> transaction_output) \<Rightarrow> transaction \<Rightarrow> transaction" where
  "upd_out i f tx = tx\<lparr>tx_outputs := (tx_outputs tx)[i := f (tx_outputs tx ! i)]\<rparr>"

definition inputs :: "transaction \<Rightarrow> transaction_input list" where
  "inputs tx = take (tx_num_inputs tx) (tx_inputs tx)"

definition outputs :: "transaction \<Rightarrow> transaction_output list" where
  "outputs tx = take (tx_num_outputs tx) (tx_outputs tx)"

definition is_native :: "transaction \<Rightarrow> bool" where
  "is_native tx \<longleftrightarrow> tx_subnetwork_id tx = zeros 20"

section \<open>Redeem scripts: inline or in the shared pool\<close>

datatype redeem_too_long = RedeemTooLong

definition redeem_bytes :: "transaction \<Rightarrow> nat \<Rightarrow> bytes" where
  "redeem_bytes tx idx =
     (let inp = tx_inputs tx ! idx
      in if in_redeem_script_len inp = 0 then []
         else if in_redeem_in_pool inp then
           (let off = unat (in_redeem_script_offset inp);
                stop = off + in_redeem_script_len inp
            in if stop > REDEEM_POOL_SIZE then []
               else slice off (in_redeem_script_len inp) (tx_redeem_pool tx))
         else take (in_redeem_script_len inp) (in_redeem_script inp))"

definition store_redeem :: "nat \<Rightarrow> bytes \<Rightarrow> (transaction, redeem_too_long, unit) step" where
  "store_redeem idx data tx =
     (let len = length data
      in if len = 0 then
           (Inr (), upd_in idx (in_redeem_in_pool_update (\<lambda>_. False)
                              \<circ> in_redeem_script_len_update (\<lambda>_. 0)) tx)
         else if len \<le> MAX_SCRIPT_SIZE then
           (Inr (), upd_in idx (in_redeem_in_pool_update (\<lambda>_. False)
                              \<circ> in_redeem_script_len_update (\<lambda>_. len)
                              \<circ> in_redeem_script_update (blit data 0)) tx)
         else if len > MAX_REDEEM_SIZE then (Inl RedeemTooLong, tx)
         else
           (let off = tx_redeem_pool_used tx
            in if off + len > REDEEM_POOL_SIZE then (Inl RedeemTooLong, tx)
               else
                 (Inr (), (upd_in idx (in_redeem_in_pool_update (\<lambda>_. True)
                              \<circ> in_redeem_script_len_update (\<lambda>_. len)
                              \<circ> in_redeem_script_offset_update (\<lambda>_. of_nat off))
                     (tx\<lparr>tx_redeem_pool := blit data off (tx_redeem_pool tx)\<rparr>))
                   \<lparr>tx_redeem_pool_used := off + len\<rparr>)))"

section \<open>Amounts\<close>

text \<open>Rust's \<open>u64::checked_add\<close>; the same test decides the overflow trap of \<open>+\<close>.\<close>

definition checked_add :: "u64 \<Rightarrow> u64 \<Rightarrow> u64 option" where
  "checked_add a b = (if unat a + unat b < 2 ^ 64 then Some (a + b) else None)"

text \<open>
  \<open>iter().sum()\<close> in a build with overflow checks (bootloader/Cargo.toml sets
  \<open>overflow-checks = true\<close>): \<open>None\<close> is the panic.
\<close>

fun trap_sum :: "u64 \<Rightarrow> u64 list \<Rightarrow> u64 option" where
  "trap_sum acc [] = Some acc"
| "trap_sum acc (x # xs) = (case checked_add acc x of None \<Rightarrow> None | Some s \<Rightarrow> trap_sum s xs)"

definition total_input_value :: "transaction \<Rightarrow> u64 option" where
  "total_input_value tx = trap_sum 0 (map (\<lambda>i. utxo_amount (in_utxo i)) (inputs tx))"

definition total_output_value :: "transaction \<Rightarrow> u64 option" where
  "total_output_value tx = trap_sum 0 (map out_value (outputs tx))"

definition saturating_sub :: "u64 \<Rightarrow> u64 \<Rightarrow> u64" where
  "saturating_sub a b = (if a < b then 0 else a - b)"

definition fee :: "transaction \<Rightarrow> u64 option" where
  "fee tx = (case total_input_value tx of None \<Rightarrow> None
             | Some i \<Rightarrow> (case total_output_value tx of None \<Rightarrow> None
                          | Some out \<Rightarrow> Some (saturating_sub i out)))"

subsection \<open>Decimal rendering\<close>

definition ascii_digit :: "nat \<Rightarrow> u8" where
  "ascii_digit d = 48 + of_nat d"

text \<open>The digits of a positive value, least significant first.\<close>

fun digits_rev :: "nat \<Rightarrow> bytes" where
  "digits_rev v = (if v = 0 then [] else ascii_digit (v mod 10) # digits_rev (v div 10))"

declare digits_rev.simps [simp del]

definition kas_write_u64 :: "nat \<Rightarrow> bytes \<Rightarrow> nat \<times> bytes" where
  "kas_write_u64 val buf =
     (if val = 0 then (1, if buf = [] then buf else buf[0 := 48])
      else
        (let digits = digits_rev val;
             written = min (length digits) (length buf)
         in (written, blit (take written (rev digits)) 0 buf)))"

definition push_checked :: "u8 \<Rightarrow> nat \<times> bytes \<Rightarrow> nat \<times> bytes" where
  "push_checked b = (\<lambda>(pos, buf). if pos < length buf then (pos + 1, buf[pos := b]) else (pos, buf))"

text \<open>Eight fraction digits, most significant first.\<close>

definition frac_buf :: "nat \<Rightarrow> bytes" where
  "frac_buf frac = map (\<lambda>i. ascii_digit (frac div 10 ^ (7 - i) mod 10)) [0..<8]"

definition last_nonzero :: "bytes \<Rightarrow> nat" where
  "last_nonzero fb = fold (\<lambda>i acc. if fb ! i \<noteq> 48 then i else acc) [0..<8] 0"

definition format_kas :: "u64 \<Rightarrow> bytes \<Rightarrow> nat \<times> bytes" where
  "format_kas sompi buf =
     (let kas = unat sompi div 100000000;
          frac = unat sompi mod 100000000;
          st = push_checked 46 (kas_write_u64 kas buf);
          fb = frac_buf frac;
          frac_digits = (if frac = 0 then 2 else last_nonzero fb + 1)
      in fold push_checked (take frac_digits fb) st)"

section \<open>Classification of scripts against their grammar\<close>

definition multisig_script :: "nat \<Rightarrow> bytes list \<Rightarrow> bytes" where
  "multisig_script m pks =
     (OP_1 + of_nat m - 1) # concat (map (\<lambda>pk. OP_DATA_32 # pk) pks)
       @ [OP_1 + of_nat (length pks) - 1, OP_CHECKMULTISIG]"

definition multisig_ok :: "nat \<Rightarrow> bytes list \<Rightarrow> bool" where
  "multisig_ok m pks \<longleftrightarrow> 1 \<le> m \<and> m \<le> length pks \<and> length pks \<le> MAX_MULTISIG_KEYS
     \<and> (\<forall>pk \<in> set pks. length pk = 32)"

lemma op_in_1_5_cases:
  assumes "op_in_1_5 b"
  shows "b = OP_1 + of_nat (unat (b - OP_1 + 1)) - 1"
    and "1 \<le> unat (b - OP_1 + 1)" and "unat (b - OP_1 + 1) \<le> 5"
proof -
  have "unat b \<in> {81..85}"
    using assms by (auto simp: op_in_1_5_def opcodes word_le_nat_alt)
  then have "unat b = 81 \<or> unat b = 82 \<or> unat b = 83 \<or> unat b = 84 \<or> unat b = 85"
    by auto
  then have "b = 81 \<or> b = 82 \<or> b = 83 \<or> b = 84 \<or> b = 85"
    by (auto simp: word_unat_eq_iff)
  then show "1 \<le> unat (b - OP_1 + 1)" "unat (b - OP_1 + 1) \<le> 5"
      "b = OP_1 + of_nat (unat (b - OP_1 + 1)) - 1"
    by (auto simp: opcodes)
qed

lemma op_in_1_5_intro:
  assumes "1 \<le> m" "m \<le> (5::nat)"
  shows "op_in_1_5 (OP_1 + of_nat m - 1)" "unat (OP_1 + of_nat m - 1 - OP_1 + 1) = m"
    "unat ((OP_1 + of_nat m - 1 :: u8) - OP_1 + 1) = m"
proof -
  have "m = 1 \<or> m = 2 \<or> m = 3 \<or> m = 4 \<or> m = 5" using assms by arith
  then show "op_in_1_5 (OP_1 + of_nat m - 1)" "unat (OP_1 + of_nat m - 1 - OP_1 + 1) = m"
    "unat ((OP_1 + of_nat m - 1 :: u8) - OP_1 + 1) = m"
    by (auto simp: op_in_1_5_def opcodes unat_of_nat)
qed

lemma length_multisig_keys:
  "(\<forall>pk \<in> set pks. length pk = 32) \<Longrightarrow>
   length (concat (map (\<lambda>pk. c # pk) pks)) = length pks * 33"
  by (induction pks) auto

lemma multisig_key_at:
  assumes "\<forall>pk \<in> set pks. length pk = 32" "i < length pks"
  shows "concat (map (\<lambda>pk. c # pk) pks) ! (i * 33) = c"
    and "slice (i * 33 + 1) 32 (concat (map (\<lambda>pk. c # pk) pks)) = pks ! i"
  using assms
proof (induction pks arbitrary: i)
  case (Cons pk pks)
  {
    case 1
    then show ?case using Cons.IH(1) by (cases i) (auto simp: nth_append)
  next
    case 2
    have "slice (Suc k * 33 + 1) 32 (concat (map (\<lambda>pk. c # pk) (pk # pks)))
        = slice (k * 33 + 1) 32 (concat (map (\<lambda>pk. c # pk) pks))" for k
      using 2 by (simp add: slice_def drop_Cons' flip: drop_drop)
    with 2 show ?case using Cons.IH(2) by (cases i) (auto simp: slice_def)
  }
qed simp_all

lemma chunks_of_33:
  assumes "length xs = n * 33" "\<forall>i < n. xs ! (i * 33) = c"
  shows "xs = concat (map (\<lambda>pk. c # pk) (map (\<lambda>i. slice (i * 33 + 1) 32 xs) [0..<n]))"
  using assms
proof (induction n arbitrary: xs)
  case 0
  then show ?case by simp
next
  case (Suc n)
  let ?ys = "drop 33 xs"
  obtain x ys' where xs: "xs = x # ys'" using Suc.prems(1) by (cases xs) auto
  have x: "x = c" using Suc.prems(2) xs by force
  have "\<forall>i<n. ?ys ! (i * 33) = c"
  proof (intro allI impI)
    fix i assume "i < n"
    then have "xs ! (Suc i * 33) = c" using Suc.prems(2) by blast
    moreover have "33 \<le> length xs" using Suc.prems(1) by simp
    ultimately show "?ys ! (i * 33) = c" by (simp add: add.commute)
  qed
  then have IH: "?ys = concat (map (\<lambda>pk. c # pk) (map (\<lambda>i. slice (i * 33 + 1) 32 ?ys) [0..<n]))"
    using Suc.prems(1) by (intro Suc.IH) auto
  have sl: "slice (Suc i * 33 + 1) 32 xs = slice (i * 33 + 1) 32 ?ys" for i
    by (simp add: slice_def add.commute)
  have sl': "map (\<lambda>i. slice (i * 33 + 1) 32 ?ys) [0..<n] = map (\<lambda>i. slice (Suc i * 33 + 1) 32 xs) [0..<n]"
    by (simp only: sl)
  have "xs = c # slice 1 32 xs @ ?ys"
    using xs x by (simp add: slice_def)
  also have "\<dots> = (c # slice 1 32 xs) @ concat (map (\<lambda>pk. c # pk) (map (\<lambda>i. slice (Suc i * 33 + 1) 32 xs) [0..<n]))"
    using IH unfolding sl' by (metis append_Cons)
  also have "\<dots> = concat (map (\<lambda>pk. c # pk) (map (\<lambda>i. slice (i * 33 + 1) 32 xs) [0..<Suc n]))"
    by (simp add: upt_conv_Cons map_Suc_upt [symmetric] comp_def del: upt_Suc)
  finally show ?case .
qed


lemma multisig_script_nth:
  assumes "multisig_ok m pks"
  defines "s \<equiv> multisig_script m pks" and "n \<equiv> length pks"
  shows "length s = 3 + n * 33" "s ! 0 = OP_1 + of_nat m - 1"
    "s ! (1 + n * 33) = OP_1 + of_nat n - 1" "s ! (2 + n * 33) = OP_CHECKMULTISIG"
    "i < n \<Longrightarrow> s ! (1 + i * 33) = OP_DATA_32"
    "i < n \<Longrightarrow> slice (1 + i * 33 + 1) 32 s = pks ! i"
proof -
  let ?b = "concat (map (\<lambda>pk. OP_DATA_32 # pk) pks)"
  have keys: "\<forall>pk \<in> set pks. length pk = 32" using assms(1) by (simp add: multisig_ok_def)
  then have len: "length ?b = n * 33" by (simp add: length_multisig_keys n_def)
  have s: "s = (OP_1 + of_nat m - 1) # ?b @ [OP_1 + of_nat n - 1, OP_CHECKMULTISIG]"
    by (simp add: s_def multisig_script_def n_def)
  show "length s = 3 + n * 33" "s ! 0 = OP_1 + of_nat m - 1"
    "s ! (1 + n * 33) = OP_1 + of_nat n - 1" "s ! (2 + n * 33) = OP_CHECKMULTISIG"
    by (simp_all add: s len nth_append)
  assume i: "i < n"
  then have "i * 33 + 33 \<le> n * 33" by linarith
  then have "i * 33 < length ?b" "i * 33 + 1 + 32 \<le> length ?b" using len by simp_all
  moreover have "?b ! (i * 33) = OP_DATA_32" "slice (i * 33 + 1) 32 ?b = pks ! i"
    using multisig_key_at [OF keys] i by (simp_all add: n_def)
  ultimately show "s ! (1 + i * 33) = OP_DATA_32" "slice (1 + i * 33 + 1) 32 s = pks ! i"
    by (simp_all add: s nth_append slice_def)
qed

lemma detect_multisigI:
  assumes "multisig_ok m pks" "len \<le> length script" "take len script = multisig_script m pks"
  shows "parse_multisig_script script len =
           Some \<lparr>ms_m = of_nat m, ms_n = of_nat (length pks),
                 ms_pubkeys = pks @ replicate (MAX_MULTISIG_KEYS - length pks) (zeros 32)\<rparr>"
proof -
  let ?n = "length pks"
  note ms = multisig_script_nth [OF assms(1)]
  have m: "1 \<le> m" "m \<le> 5" and n: "1 \<le> ?n" "?n \<le> 5" and mn: "m \<le> ?n"
    using assms(1) by (auto simp: multisig_ok_def size_limits)
  have len: "len = 3 + ?n * 33"
    using arg_cong [OF assms(3), of length] assms(2) ms(1) by simp
  have at: "script ! j = multisig_script m pks ! j" if "j < len" for j
    using that nth_take [of j len script] assms(3) by simp
  have key: "slice (1 + i * 33 + 1) 32 script = pks ! i" if "i < ?n" for i
  proof -
    have "1 + i * 33 + 1 + 32 \<le> len" using that len by linarith
    then have "slice (1 + i * 33 + 1) 32 script = slice (1 + i * 33 + 1) 32 (take len script)"
      by (simp add: slice_def take_drop min_def)
    then show ?thesis using ms(6) [OF that] assms(3) by simp
  qed
  have bytes: "script ! 0 = OP_1 + of_nat m - 1" "script ! (len - 2) = OP_1 + of_nat ?n - 1"
      "script ! (len - 1) = OP_CHECKMULTISIG"
    using ms(2,3,4) at len by simp_all
  have pushes: "list_all (\<lambda>i. script ! (1 + i * 33) = OP_DATA_32) [0..<?n]"
  proof (simp only: list_all_iff, intro ballI)
    fix i assume "i \<in> set [0..<?n]"
    then have i: "i < ?n" by simp
    then have "1 + i * 33 < len" using len by linarith
    then show "script ! (1 + i * 33) = OP_DATA_32" using at ms(5) [OF i] by simp
  qed
  note om = op_in_1_5_intro [OF m] and on = op_in_1_5_intro [OF n]
  have "detect_script_type script len = Multisig"
    unfolding detect_script_type_def Let_def
    using len n mn bytes pushes om on by (auto simp: size_limits)
  moreover have "map (\<lambda>i. slice (1 + i * 33 + 1) 32 script) [0..<?n] = pks"
    using key by (intro nth_equalityI) simp_all
  ultimately show ?thesis
    using om on by (simp add: parse_multisig_script_def Let_def bytes)
qed

lemma detect_multisigD:
  assumes "parse_multisig_script script len = Some info" "len \<le> length script"
  obtains m pks where "multisig_ok m pks" "take len script = multisig_script m pks"
proof -
  define n where "n = unat (script ! (len - 2) - OP_1 + 1)"
  define m where "m = unat (script ! 0 - OP_1 + 1)"
  define pks where "pks = map (\<lambda>i. slice (i * 33 + 1) 32 (slice 1 (n * 33) script)) [0..<n]"
  have d: "detect_script_type script len = Multisig"
    using assms(1) by (auto simp: parse_multisig_script_def split: if_splits)
  then have ops: "op_in_1_5 (script ! 0)" "op_in_1_5 (script ! (len - 2))"
      "script ! (len - 1) = OP_CHECKMULTISIG"
    and mn: "m \<le> n" "n \<le> 5" and len: "len = 3 + n * 33"
    and keys: "\<forall>i < n. script ! (1 + i * 33) = OP_DATA_32"
    by (auto simp: detect_script_type_def Let_def m_def n_def size_limits list_all_iff split: if_splits)
  have lk: "length (slice 1 (n * 33) script) = n * 33"
    using len assms(2) by simp
  have kb: "\<forall>i < n. slice 1 (n * 33) script ! (i * 33) = OP_DATA_32"
    using keys len assms(2) by (simp add: slice_def)
  have body: "slice 1 (n * 33) script = concat (map (\<lambda>pk. OP_DATA_32 # pk) pks)"
    unfolding pks_def by (rule chunks_of_33 [OF lk kb])
  have "\<forall>pk \<in> set pks. length pk = 32"
    using lk by (auto simp: pks_def)
  moreover have "1 \<le> m" using op_in_1_5_cases(2) [OF ops(1)] by (simp add: m_def)
  ultimately have ok: "multisig_ok m pks"
    using mn by (simp add: multisig_ok_def pks_def size_limits)
  have "take len script = script ! 0 # slice 1 (n * 33) script @ [script ! (len - 2), script ! (len - 1)]"
  proof (rule nth_equalityI)
    show "length (take len script) = length (script ! 0 # slice 1 (n * 33) script @ [script ! (len - 2), script ! (len - 1)])"
      using len assms(2) by simp
    fix i assume "i < length (take len script)"
    then have "i < len" by simp
    then consider "i = 0" | j where "i = Suc j" "j < n * 33" | "i = Suc (n * 33)" | "i = Suc (Suc (n * 33))"
      using len by (cases i) force+
    then show "take len script ! i =
        (script ! 0 # slice 1 (n * 33) script @ [script ! (len - 2), script ! (len - 1)]) ! i"
      using len assms(2) lk by cases (simp_all add: nth_append slice_def)
  qed
  then have "take len script = multisig_script m pks"
    using op_in_1_5_cases(1) [OF ops(1)] op_in_1_5_cases(1) [OF ops(2)] ops(3)
    unfolding multisig_script_def body [symmetric] m_def [symmetric] n_def [symmetric]
    by (simp add: pks_def)
  with ok show ?thesis by (rule that)
qed

lemma parse_multisig_script_grammar:
  assumes "len \<le> length script"
  shows "parse_multisig_script script len = Some info \<longleftrightarrow>
    (\<exists>m pks. multisig_ok m pks \<and> take len script = multisig_script m pks \<and>
       info = \<lparr>ms_m = of_nat m, ms_n = of_nat (length pks),
               ms_pubkeys = pks @ replicate (MAX_MULTISIG_KEYS - length pks) (zeros 32)\<rparr>)"
proof
  assume p: "parse_multisig_script script len = Some info"
  then obtain m pks where "multisig_ok m pks" "take len script = multisig_script m pks"
    using assms by (rule detect_multisigD)
  with p detect_multisigI [OF this(1) assms this(2)] show "\<exists>m pks. multisig_ok m pks \<and> take len script = multisig_script m pks \<and>
       info = \<lparr>ms_m = of_nat m, ms_n = of_nat (length pks),
               ms_pubkeys = pks @ replicate (MAX_MULTISIG_KEYS - length pks) (zeros 32)\<rparr>"
    by auto
qed (use assms detect_multisigI in blast)

subsection \<open>Output scripts the screen can display\<close>

lemma script_34: "length xs = 34 \<Longrightarrow> xs = xs ! 0 # slice 1 32 xs @ [xs ! 33]"
proof -
  assume len: "length xs = 34"
  have last: "i < 33 \<Longrightarrow> \<not> i < 32 \<Longrightarrow> i = 32" for i :: nat by arith
  show ?thesis using len
    by (intro nth_equalityI) (auto simp: slice_def nth_Cons nth_append dest!: last split: nat.split)
qed

lemma script_35: "length xs = 35 \<Longrightarrow> xs = xs ! 0 # xs ! 1 # slice 2 32 xs @ [xs ! 34]"
proof -
  assume len: "length xs = 35"
  have last: "i < 33 \<Longrightarrow> \<not> i < 32 \<Longrightarrow> i = 32" for i :: nat by arith
  show ?thesis using len
    by (intro nth_equalityI)
      (auto simp: slice_def nth_Cons nth_append numeral_2_eq_2 dest!: last split: nat.split)
qed

definition p2pk_script :: "bytes \<Rightarrow> bytes" where
  "p2pk_script key = OP_DATA_32 # key @ [OP_CHECKSIG]"

definition p2sh_script :: "bytes \<Rightarrow> bytes" where
  "p2sh_script hash = OP_BLAKE2B # OP_DATA_32 # hash @ [OP_EQUAL]"

lemma is_displayable_grammar:
  assumes "len \<le> length script"
  shows "is_displayable_output_script script len \<longleftrightarrow>
    (\<exists>h. length h = 32 \<and> take len script \<in> {p2pk_script h, p2sh_script h})"
proof -
  define s where "s = take len script"
  have s: "length s = len" "\<And>i. i < len \<Longrightarrow> script ! i = s ! i"
    using assms by (auto simp: s_def)
  have pk: "len = 34 \<and> script ! 0 = OP_DATA_32 \<and> script ! 33 = OP_CHECKSIG \<longleftrightarrow>
      (\<exists>h. length h = 32 \<and> s = p2pk_script h)"
  proof
    assume "len = 34 \<and> script ! 0 = OP_DATA_32 \<and> script ! 33 = OP_CHECKSIG"
    then have "s = p2pk_script (slice 1 32 s)" "length (slice 1 32 s) = 32"
      using script_34 [of s] s by (auto simp: p2pk_script_def)
    then show "\<exists>h. length h = 32 \<and> s = p2pk_script h" by blast
  next
    assume "\<exists>h. length h = 32 \<and> s = p2pk_script h"
    then show "len = 34 \<and> script ! 0 = OP_DATA_32 \<and> script ! 33 = OP_CHECKSIG"
      using s by (auto simp: p2pk_script_def nth_append)
  qed
  have sh: "len = 35 \<and> script ! 0 = OP_BLAKE2B \<and> script ! 1 = OP_DATA_32 \<and> script ! 34 = OP_EQUAL \<longleftrightarrow>
      (\<exists>h. length h = 32 \<and> s = p2sh_script h)"
  proof
    assume "len = 35 \<and> script ! 0 = OP_BLAKE2B \<and> script ! 1 = OP_DATA_32 \<and> script ! 34 = OP_EQUAL"
    then have "s = p2sh_script (slice 2 32 s)" "length (slice 2 32 s) = 32"
      using script_35 [of s] s by (auto simp: p2sh_script_def)
    then show "\<exists>h. length h = 32 \<and> s = p2sh_script h" by blast
  next
    assume "\<exists>h. length h = 32 \<and> s = p2sh_script h"
    then show "len = 35 \<and> script ! 0 = OP_BLAKE2B \<and> script ! 1 = OP_DATA_32 \<and> script ! 34 = OP_EQUAL"
      using s by (auto simp: p2sh_script_def nth_append)
  qed
  show ?thesis
    unfolding is_displayable_output_script_def s_def [symmetric] using pk sh by auto
qed

lemma is_displayable_iff_detect:
  "is_displayable_output_script script len \<longleftrightarrow> detect_script_type script len \<in> {P2PK, P2SH}"
  by (auto simp: is_displayable_output_script_def detect_script_type_def Let_def)

section \<open>Sighash bytes\<close>

lemma sighash_from_to_byte: "sighash_from_byte (sighash_to_byte t) = (if t = ShAnyOneCanPay then None else Some t)"
  by (cases t) (simp_all add: sighash_from_byte_def)

lemma sighash_to_from_byte: "sighash_from_byte b = Some t \<Longrightarrow> sighash_to_byte t = b"
  by (auto simp: sighash_from_byte_def split: if_splits)

section \<open>Well-formed transactions\<close>

text \<open>What the fixed array types and the length fields next to them promise.\<close>

definition wf_spk :: "script_public_key \<Rightarrow> bool" where
  "wf_spk s \<longleftrightarrow> length (spk_script s) = MAX_SCRIPT_SIZE \<and> spk_script_len s \<le> MAX_SCRIPT_SIZE"

definition wf_sig :: "input_sig \<Rightarrow> bool" where
  "wf_sig s \<longleftrightarrow> length (sig_signature s) = 64 \<and> length (sig_pubkey_compressed s) = 33"

definition wf_input :: "transaction_input \<Rightarrow> bool" where
  "wf_input i \<longleftrightarrow>
     length (op_transaction_id (in_outpoint i)) = 32 \<and> wf_spk (utxo_spk (in_utxo i)) \<and>
     length (utxo_covenant_id (in_utxo i)) = 32 \<and>
     length (in_sigs i) = MAX_SIGS_PER_INPUT \<and> list_all wf_sig (in_sigs i) \<and>
     length (in_signature i) = 64 \<and>
     length (in_redeem_script i) = MAX_SCRIPT_SIZE \<and>
     length (in_partial_sigs i) = MAX_SIGS_PER_INPUT \<and>
     in_redeem_script_len i \<le> (if in_redeem_in_pool i then MAX_REDEEM_SIZE else MAX_SCRIPT_SIZE)"

definition wf_output :: "transaction_output \<Rightarrow> bool" where
  "wf_output out \<longleftrightarrow> wf_spk (out_spk out) \<and> length (out_covenant_id out) = 32"

definition pool_ok :: "nat \<Rightarrow> transaction_input \<Rightarrow> bool" where
  "pool_ok used i \<longleftrightarrow> in_redeem_in_pool i \<longrightarrow>
     unat (in_redeem_script_offset i) + in_redeem_script_len i \<le> used"

definition wf_transaction :: "transaction \<Rightarrow> bool" where
  "wf_transaction tx \<longleftrightarrow>
     length (tx_inputs tx) = MAX_INPUTS \<and> tx_num_inputs tx \<le> MAX_INPUTS \<and>
     list_all wf_input (tx_inputs tx) \<and>
     length (tx_outputs tx) = MAX_OUTPUTS \<and> tx_num_outputs tx \<le> MAX_OUTPUTS \<and>
     list_all wf_output (tx_outputs tx) \<and>
     length (tx_subnetwork_id tx) = 20 \<and>
     length (tx_payload tx) = MAX_PAYLOAD_SIZE \<and> tx_payload_len tx \<le> MAX_PAYLOAD_SIZE \<and>
     length (tx_stealth_tweak tx) = 32 \<and>
     length (tx_redeem_pool tx) = REDEEM_POOL_SIZE \<and> tx_redeem_pool_used tx \<le> REDEEM_POOL_SIZE \<and>
     list_all (pool_ok (tx_redeem_pool_used tx)) (tx_inputs tx)"

lemma wf_spk_new [simp]: "wf_spk spk_new"
  by (simp add: wf_spk_def spk_new_def)

lemma wf_input_default [simp]: "wf_input input_default"
  by (simp add: wf_input_def input_default_def input_zero_def size_limits wf_sig_def
      input_sig_empty_def wf_spk_def spk_new_def eval_nat_numeral)

lemma wf_transaction_new [simp]: "wf_transaction transaction_new"
proof -
  have "wf_output output_default" by (simp add: wf_output_def output_default_def)
  moreover have "pool_ok 0 input_default" by (simp add: pool_ok_def input_default_def input_zero_def)
  ultimately show ?thesis
    by (simp add: wf_transaction_def transaction_new_def list_all_length size_limits)
qed

lemma list_all_update: "list_all P xs \<Longrightarrow> (i < length xs \<Longrightarrow> P x) \<Longrightarrow> list_all P (xs[i := x])"
  by (cases "i < length xs") (auto simp: list_all_iff list_update_beyond
      dest!: subsetD [OF set_update_subset_insert])

lemma wf_upd_in:
  assumes "wf_transaction tx"
    and "i < length (tx_inputs tx) \<Longrightarrow> wf_input (f (tx_inputs tx ! i)) \<and>
         pool_ok (tx_redeem_pool_used tx) (f (tx_inputs tx ! i))"
  shows "wf_transaction (upd_in i f tx)"
  using assms by (auto simp: wf_transaction_def upd_in_def intro!: list_all_update)

lemma wf_upd_out:
  assumes "wf_transaction tx" "i < length (tx_outputs tx) \<Longrightarrow> wf_output (f (tx_outputs tx ! i))"
  shows "wf_transaction (upd_out i f tx)"
  using assms by (auto simp: wf_transaction_def upd_out_def intro!: list_all_update)

lemma wf_transaction_nth:
  "wf_transaction tx \<Longrightarrow> i < MAX_INPUTS \<Longrightarrow> wf_input (tx_inputs tx ! i) \<and> pool_ok (tx_redeem_pool_used tx) (tx_inputs tx ! i)"
  by (simp add: wf_transaction_def list_all_length)

lemma wf_transaction_nth_out:
  "wf_transaction tx \<Longrightarrow> i < MAX_OUTPUTS \<Longrightarrow> wf_output (tx_outputs tx ! i)"
  by (simp add: wf_transaction_def list_all_length)


section \<open>Storing and reading redeem scripts\<close>

lemma store_redeem_error:
  "fst (store_redeem idx data tx) = Inl RedeemTooLong \<longleftrightarrow>
     length data > MAX_REDEEM_SIZE \<or>
     (length data > MAX_SCRIPT_SIZE \<and> tx_redeem_pool_used tx + length data > REDEEM_POOL_SIZE)"
  "fst (store_redeem idx data tx) = Inl e \<Longrightarrow> snd (store_redeem idx data tx) = tx"
  by (auto simp: store_redeem_def Let_def size_limits)

lemma nth_upd_in: "j < length (tx_inputs tx) \<Longrightarrow>
    tx_inputs (upd_in i f tx) ! j = (if i = j then f (tx_inputs tx ! i) else tx_inputs tx ! j)"
  by (auto simp: upd_in_def)

lemma upd_in_fields [simp]:
  "tx_redeem_pool (upd_in i f tx) = tx_redeem_pool tx"
  "tx_redeem_pool_used (upd_in i f tx) = tx_redeem_pool_used tx"
  "tx_num_inputs (upd_in i f tx) = tx_num_inputs tx"
  "tx_outputs (upd_in i f tx) = tx_outputs tx"
  "tx_num_outputs (upd_in i f tx) = tx_num_outputs tx"
  "length (tx_inputs (upd_in i f tx)) = length (tx_inputs tx)"
  by (simp_all add: upd_in_def)

lemma slice_blit_before: "off + n \<le> p \<Longrightarrow> p \<le> length dst \<Longrightarrow> slice off n (blit src p dst) = slice off n dst"
proof -
  assume a: "off + n \<le> p" "p \<le> length dst"
  have "slice off n xs = take n (drop off (take p xs))" if "p \<le> length xs" for xs :: "'a list"
    using a(1) that by (simp add: slice_def take_drop min_def)
  from this [of "blit src p dst"] this [of dst] show ?thesis
    using a by (simp add: take_blit_prefix) (simp add: blit_def)
qed

definition inline_redeem :: "bytes \<Rightarrow> transaction_input \<Rightarrow> transaction_input" where
  "inline_redeem data i = i\<lparr>in_redeem_in_pool := False, in_redeem_script_len := length data,
     in_redeem_script := blit data 0 (in_redeem_script i)\<rparr>"

definition pool_redeem :: "nat \<Rightarrow> nat \<Rightarrow> transaction_input \<Rightarrow> transaction_input" where
  "pool_redeem off len i = i\<lparr>in_redeem_in_pool := True, in_redeem_script_len := len,
     in_redeem_script_offset := of_nat off\<rparr>"

lemma store_redeem_inline:
  "length data \<le> MAX_SCRIPT_SIZE \<Longrightarrow>
   store_redeem idx data tx = (Inr (), upd_in idx (inline_redeem data) tx)"
  by (cases "tx_inputs tx ! idx") (simp add: store_redeem_def Let_def upd_in_def inline_redeem_def)

lemma store_redeem_pool:
  "MAX_SCRIPT_SIZE < length data \<Longrightarrow>
   store_redeem idx data tx =
     (if length data \<le> MAX_REDEEM_SIZE \<and> tx_redeem_pool_used tx + length data \<le> REDEEM_POOL_SIZE
      then (Inr (), (upd_in idx (pool_redeem (tx_redeem_pool_used tx) (length data))
                (tx\<lparr>tx_redeem_pool := blit data (tx_redeem_pool_used tx) (tx_redeem_pool tx)\<rparr>))
               \<lparr>tx_redeem_pool_used := tx_redeem_pool_used tx + length data\<rparr>)
      else (Inl RedeemTooLong, tx))"
  by (cases "tx_inputs tx ! idx")
    (auto simp: store_redeem_def Let_def upd_in_def pool_redeem_def size_limits)

lemmas redeem_updates = inline_redeem_def pool_redeem_def

lemma store_redeem_ok:
  assumes wf: "wf_transaction tx" and idx: "idx < MAX_INPUTS"
    and run: "store_redeem idx data tx = (Inr (), tx')"
  shows "redeem_bytes tx' idx = data"
    and "\<And>j. j < MAX_INPUTS \<Longrightarrow> j \<noteq> idx \<Longrightarrow> redeem_bytes tx' j = redeem_bytes tx j"
    and "wf_transaction tx'"
proof -
  have len: "length (tx_inputs tx) = MAX_INPUTS" "length (tx_redeem_pool tx) = REDEEM_POOL_SIZE"
    using wf by (simp_all add: wf_transaction_def)
  have inp: "wf_input (tx_inputs tx ! idx)" "length (in_redeem_script (tx_inputs tx ! idx)) = MAX_SCRIPT_SIZE"
    using wf_transaction_nth [OF wf idx] by (simp_all add: wf_input_def)
  have pooled: "pool_ok (tx_redeem_pool_used tx) (tx_inputs tx ! j)" if "j < MAX_INPUTS" for j
    using wf_transaction_nth [OF wf that] by simp
  consider (inline) "length data \<le> MAX_SCRIPT_SIZE"
      "tx' = upd_in idx (inline_redeem data) tx"
  | (pool) "MAX_SCRIPT_SIZE < length data" "length data \<le> MAX_REDEEM_SIZE"
      "tx_redeem_pool_used tx + length data \<le> REDEEM_POOL_SIZE"
      "tx' = (upd_in idx (pool_redeem (tx_redeem_pool_used tx) (length data))
                (tx\<lparr>tx_redeem_pool := blit data (tx_redeem_pool_used tx) (tx_redeem_pool tx)\<rparr>))
               \<lparr>tx_redeem_pool_used := tx_redeem_pool_used tx + length data\<rparr>"
    using run store_redeem_inline [of data idx tx] store_redeem_pool [of data idx tx]
    by (cases "length data \<le> MAX_SCRIPT_SIZE") (auto split: if_splits)
  then have "redeem_bytes tx' idx = data \<and>
      (\<forall>j < MAX_INPUTS. j \<noteq> idx \<longrightarrow> redeem_bytes tx' j = redeem_bytes tx j) \<and> wf_transaction tx'"
  proof cases
    case inline
    then have "wf_transaction tx'"
      using wf inp by (auto intro!: wf_upd_in simp: redeem_updates wf_input_def pool_ok_def size_limits)
    moreover have "redeem_bytes tx' idx = data"
      using inline idx len inp by (simp add: redeem_updates redeem_bytes_def Let_def nth_upd_in)
    moreover have "redeem_bytes tx' j = redeem_bytes tx j" if "j < MAX_INPUTS" "j \<noteq> idx" for j
      using inline that len by (simp add: redeem_bytes_def Let_def nth_upd_in)
    ultimately show ?thesis by blast
  next
    case pool
    have off: "unat (of_nat (tx_redeem_pool_used tx) :: u16) = tx_redeem_pool_used tx"
      using pool(3) by (simp add: unat_of_nat size_limits)
    have "wf_transaction tx'"
      using wf pool off inp(1) idx
      unfolding wf_transaction_def
      by (auto simp: redeem_updates upd_in_def wf_input_def pool_ok_def size_limits list_all_length nth_list_update)
    moreover have "redeem_bytes tx' idx = data"
      using pool idx len off by (simp add: redeem_updates redeem_bytes_def Let_def nth_upd_in)
    moreover have "redeem_bytes tx' j = redeem_bytes tx j" if "j < MAX_INPUTS" "j \<noteq> idx" for j
    proof -
      have "in_redeem_in_pool (tx_inputs tx ! j) \<Longrightarrow>
          slice (unat (in_redeem_script_offset (tx_inputs tx ! j))) (in_redeem_script_len (tx_inputs tx ! j))
            (blit data (tx_redeem_pool_used tx) (tx_redeem_pool tx)) =
          slice (unat (in_redeem_script_offset (tx_inputs tx ! j))) (in_redeem_script_len (tx_inputs tx ! j))
            (tx_redeem_pool tx)"
        using pool(3) pooled [OF that(1)] len
        by (intro slice_blit_before) (auto simp: pool_ok_def)
      then show ?thesis
        using pool that len by (simp add: redeem_bytes_def Let_def nth_upd_in)
    qed
    ultimately show ?thesis by blast
  qed
  then show "redeem_bytes tx' idx = data"
    "\<And>j. j < MAX_INPUTS \<Longrightarrow> j \<noteq> idx \<Longrightarrow> redeem_bytes tx' j = redeem_bytes tx j" "wf_transaction tx'"
    by blast+
qed

section \<open>Totals and fee\<close>

lemma checked_add_eq:
  "checked_add a b = Some c \<longleftrightarrow> unat c = unat a + unat b"
proof
  assume "checked_add a b = Some c"
  then have "unat a + unat b < 2 ^ LENGTH(64)" "c = a + b"
    by (auto simp: checked_add_def split: if_splits)
  then show "unat c = unat a + unat b" by (simp add: unat_word_ariths)
next
  assume c: "unat c = unat a + unat b"
  then have "unat a + unat b < 2 ^ 64" using unat_u64_less [of c] by simp
  moreover from this have "c = a + b" using c
    by (simp add: word_unat_eq_iff unat_word_ariths)
  ultimately show "checked_add a b = Some c" by (simp add: checked_add_def)
qed

lemma checked_add_None: "checked_add a b = None \<longleftrightarrow> 2 ^ 64 \<le> unat a + unat b"
  by (auto simp: checked_add_def)

lemma trap_sum_eq: "trap_sum acc xs = Some s \<longleftrightarrow> unat s = unat acc + sum_list (map unat xs)"
proof (induction xs arbitrary: acc)
  case Nil
  then show ?case by (auto simp: word_unat_eq_iff)
next
  case (Cons x xs)
  show ?case
  proof (cases "checked_add acc x")
    case None
    then have "2 ^ 64 \<le> unat acc + unat x" by (simp add: checked_add_None)
    then have "unat s \<noteq> unat acc + (unat x + sum_list (map unat xs))"
      using unat_u64_less [of s] by simp
    then show ?thesis using None by simp
  next
    case (Some c)
    then have "unat c = unat acc + unat x" by (simp add: checked_add_eq)
    then show ?thesis using Some by (simp add: Cons.IH add.assoc)
  qed
qed

lemma trap_sum_None: "trap_sum acc xs = None \<longleftrightarrow> 2 ^ 64 \<le> unat acc + sum_list (map unat xs)"
proof (cases "trap_sum acc xs")
  case (Some s)
  then show ?thesis using unat_u64_less [of s] by (simp add: trap_sum_eq [THEN iffD1])
next
  case None
  have "\<exists>s. trap_sum acc xs = Some s" if "unat acc + sum_list (map unat xs) < 2 ^ 64"
    using that by (intro exI [of _ "of_nat (unat acc + sum_list (map unat xs))"])
      (simp add: trap_sum_eq unat_of_nat del: of_nat_add)
  with None show ?thesis by (metis not_le option.distinct(1))
qed

definition input_sompi :: "transaction \<Rightarrow> nat" where
  "input_sompi tx = (\<Sum>i\<leftarrow>inputs tx. unat (utxo_amount (in_utxo i)))"

definition output_sompi :: "transaction \<Rightarrow> nat" where
  "output_sompi tx = (\<Sum>out\<leftarrow>outputs tx. unat (out_value out))"

lemma unat_saturating_sub: "unat (saturating_sub a b) = unat a - unat b"
  by (auto simp: saturating_sub_def word_less_nat_alt unat_sub word_le_nat_alt)

lemma fee_eq:
  "fee tx = (if input_sompi tx < 2 ^ 64 \<and> output_sompi tx < 2 ^ 64
             then Some (of_nat (input_sompi tx - output_sompi tx)) else None)"
proof -
  have i: "total_input_value tx = None \<longleftrightarrow> 2 ^ 64 \<le> input_sompi tx"
      "total_input_value tx = Some v \<longleftrightarrow> unat v = input_sompi tx" for v
    by (simp_all add: total_input_value_def trap_sum_eq trap_sum_None input_sompi_def comp_def)
  have out: "total_output_value tx = None \<longleftrightarrow> 2 ^ 64 \<le> output_sompi tx"
      "total_output_value tx = Some v \<longleftrightarrow> unat v = output_sompi tx" for v
    by (simp_all add: total_output_value_def trap_sum_eq trap_sum_None output_sompi_def comp_def)
  show ?thesis
  proof (cases "total_input_value tx")
    case None
    then show ?thesis using i(1) by (auto simp: fee_def)
  next
    case iv: (Some iv)
    show ?thesis
    proof (cases "total_output_value tx")
      case None
      then show ?thesis using out(1) iv by (auto simp: fee_def)
    next
      case (Some ov)
      have e: "unat iv = input_sompi tx" "unat ov = output_sompi tx"
        using i(2) [of iv] out(2) [of ov] iv Some by simp_all
      then have "input_sompi tx < 2 ^ 64" "output_sompi tx < 2 ^ 64"
        using unat_u64_less [of iv] unat_u64_less [of ov] by simp_all
      moreover have "saturating_sub iv ov = of_nat (input_sompi tx - output_sompi tx)"
        using arg_cong [OF unat_saturating_sub [of iv ov], of "of_nat :: nat \<Rightarrow> u64"] by (simp add: e)
      ultimately show ?thesis using iv Some by (simp add: fee_def)
    qed
  qed
qed

section \<open>Decimal rendering is exact\<close>

definition dec_value :: "bytes \<Rightarrow> nat" where
  "dec_value ds = foldl (\<lambda>v d. 10 * v + unat (d - 48)) 0 ds"

definition is_digit :: "u8 \<Rightarrow> bool" where
  "is_digit b \<longleftrightarrow> 48 \<le> unat b \<and> unat b \<le> 57"

lemma unat_ascii_digit: "d < 10 \<Longrightarrow> unat (ascii_digit d - 48) = d" "d < 10 \<Longrightarrow> is_digit (ascii_digit d)"
  by (auto simp: ascii_digit_def is_digit_def unat_of_nat unat_word_ariths)

lemma dec_value_snoc [simp]: "dec_value (ds @ [d]) = 10 * dec_value ds + unat (d - 48)"
  by (simp add: dec_value_def)

lemma dec_value_Nil [simp]: "dec_value [] = 0"
  by (simp add: dec_value_def)

lemma dec_value_append_zeros:
  "\<forall>z \<in> set zs. z = 48 \<Longrightarrow> dec_value (ds @ zs) = dec_value ds * 10 ^ length zs"
  by (induction zs rule: rev_induct) (auto simp flip: append_assoc)

lemma digits_rev_value: "dec_value (rev (digits_rev v)) = v \<and> list_all is_digit (digits_rev v)"
proof (induction v rule: digits_rev.induct)
  case (1 v)
  then show ?case
    by (subst (1 2) digits_rev.simps) (auto simp: unat_ascii_digit)
qed

lemma length_digits_rev: "v < 10 ^ k \<Longrightarrow> length (digits_rev v) \<le> k"
proof (induction k arbitrary: v)
  case 0
  then show ?case by (simp add: digits_rev.simps)
next
  case (Suc k)
  have "v div 10 < 10 ^ k" using Suc.prems by (simp add: less_mult_imp_div_less mult.commute)
  then show ?case using Suc.IH by (subst digits_rev.simps) simp
qed

lemma digits_rev_last: "v \<noteq> 0 \<Longrightarrow> digits_rev v \<noteq> [] \<and> last (digits_rev v) \<noteq> 48"
proof (induction v rule: digits_rev.induct)
  case (1 v)
  show ?case
  proof (cases "v div 10 = 0")
    case True
    then have "digits_rev v = [ascii_digit v]" "v < 10"
      using 1(2) by (simp_all add: digits_rev.simps)
    moreover from this have "unat (ascii_digit v - 48) \<noteq> 0" using 1(2) by (simp add: unat_ascii_digit)
    ultimately show ?thesis by auto
  next
    case False
    then show ?thesis using 1 by (subst (1 2) digits_rev.simps) simp
  qed
qed

lemma frac_digits_value:
  "dec_value (map (\<lambda>i. ascii_digit (v div 10 ^ (n - Suc i) mod 10)) [0..<n]) = v mod 10 ^ n"
proof (induction n arbitrary: v)
  case 0
  then show ?case by simp
next
  case (Suc n)
  have "map (\<lambda>i. ascii_digit (v div 10 ^ (Suc n - Suc i) mod 10)) [0..<n] =
        map (\<lambda>i. ascii_digit (v div 10 div 10 ^ (n - Suc i) mod 10)) [0..<n]"
  proof (rule map_cong [OF refl])
    fix i assume "i \<in> set [0..<n]"
    then have "n - i = Suc (n - Suc i)" by simp
    then show "ascii_digit (v div 10 ^ (Suc n - Suc i) mod 10) =
        ascii_digit (v div 10 div 10 ^ (n - Suc i) mod 10)"
      by (simp add: div_mult2_eq)
  qed
  then have "dec_value (map (\<lambda>i. ascii_digit (v div 10 ^ (Suc n - Suc i) mod 10)) [0..<Suc n])
      = 10 * (v div 10 mod 10 ^ n) + v mod 10"
    using Suc.IH [of "v div 10"] by (simp add: unat_ascii_digit del: map_eq_conv)
  also have "\<dots> = v mod 10 ^ Suc n"
    by (simp add: mod_mult2_eq)
  finally show ?case .
qed


lemma frac_buf_value: "frac < 100000000 \<Longrightarrow> dec_value (frac_buf frac) = frac"
  using frac_digits_value [of frac 8] by (simp add: frac_buf_def)

lemma length_frac_buf [simp]: "length (frac_buf frac) = 8"
  by (simp add: frac_buf_def)

lemma frac_buf_digits: "list_all is_digit (frac_buf frac)"
  by (auto simp: frac_buf_def list_all_iff unat_ascii_digit)

lemma fold_last_index:
  "n > 0 \<Longrightarrow> fold (\<lambda>i acc. if P i then i else acc) [0..<n] 0 < n \<and>
     (\<forall>i < n. fold (\<lambda>i acc. if P i then i else acc) [0..<n] 0 < i \<longrightarrow> \<not> P i)"
proof (induction n)
  case (Suc n)
  then show ?case by (cases "n = 0") (auto simp: less_Suc_eq)
qed simp

lemma last_nonzero_bounds:
  "last_nonzero fb < 8" "i < 8 \<Longrightarrow> last_nonzero fb < i \<Longrightarrow> fb ! i = 48"
  using fold_last_index [of 8 "\<lambda>i. fb ! i \<noteq> 48"] unfolding last_nonzero_def by auto

lemma frac_prefix_value:
  assumes "frac < 100000000" and k: "k = (if frac = 0 then 2 else last_nonzero (frac_buf frac) + 1)"
  shows "dec_value (take k (frac_buf frac)) * 10 ^ (8 - k) = frac"
proof -
  have k8: "k \<le> 8" using last_nonzero_bounds(1) [of "frac_buf frac"] by (simp add: k)
  have "\<forall>z \<in> set (drop k (frac_buf frac)). z = 48"
  proof
    fix z assume "z \<in> set (drop k (frac_buf frac))"
    then obtain j where j: "j < 8 - k" "z = frac_buf frac ! (k + j)"
      by (auto simp: in_set_conv_nth)
    show "z = 48"
    proof (cases "frac = 0")
      case True
      then show ?thesis using j by (simp add: frac_buf_def ascii_digit_def)
    next
      case False
      then show ?thesis using j by (simp add: k last_nonzero_bounds(2))
    qed
  qed
  then have "dec_value (take k (frac_buf frac) @ drop k (frac_buf frac)) =
      dec_value (take k (frac_buf frac)) * 10 ^ length (drop k (frac_buf frac))"
    by (rule dec_value_append_zeros)
  then show ?thesis using frac_buf_value [OF assms(1)] k8 by simp
qed

lemma fold_push_checked:
  "pos + length xs \<le> length buf \<Longrightarrow> fold push_checked xs (pos, buf) = (pos + length xs, blit xs pos buf)"
proof (induction xs arbitrary: pos buf)
  case Nil
  then show ?case by simp
next
  case (Cons x xs)
  have one: "buf[pos := x] = blit [x] pos buf"
    using Cons.prems by (simp add: blit_def upd_conv_take_nth_drop)
  have "blit xs (pos + length [x]) (blit [x] pos buf) = blit ([x] @ xs) pos buf"
    using Cons.prems by (intro blit_append) simp
  then show ?case using Cons by (simp add: push_checked_def one)
qed

definition kas_digits :: "nat \<Rightarrow> bytes" where
  "kas_digits v = (if v = 0 then [48] else rev (digits_rev v))"

lemma kas_digits:
  "dec_value (kas_digits v) = v" "list_all is_digit (kas_digits v)" "kas_digits v \<noteq> []"
  "v < 10 ^ k \<Longrightarrow> 0 < k \<Longrightarrow> length (kas_digits v) \<le> k"
  "hd (kas_digits v) = 48 \<longleftrightarrow> v = 0"
  using digits_rev_value [of v] length_digits_rev [of v k] digits_rev_last [of v]
  by (auto simp: kas_digits_def hd_rev dec_value_def is_digit_def)

lemma kas_write_u64_eq:
  "length (kas_digits v) \<le> length buf \<Longrightarrow>
   kas_write_u64 v buf = (length (kas_digits v), blit (kas_digits v) 0 buf)"
  using kas_digits(3) [of v]
  by (cases buf) (auto simp: kas_write_u64_def kas_digits_def Let_def blit_def split: if_splits)

lemma format_kas_text:
  fixes sompi :: u64
  assumes "21 \<le> length buf"
  defines "fb \<equiv> frac_buf (unat sompi mod 100000000)"
  defines "k \<equiv> (if unat sompi mod 100000000 = 0 then 2 else last_nonzero fb + 1)"
  defines "text \<equiv> kas_digits (unat sompi div 100000000) @ [46] @ take k fb"
  shows "format_kas sompi buf = (length text, blit text 0 buf)" "length text \<le> 21" "1 \<le> k" "k \<le> 8"
proof -
  let ?ip = "kas_digits (unat sompi div 100000000)"
  have "unat sompi div 100000000 < 10 ^ 12" using unat_u64_less [of sompi] by simp
  then have ip: "length ?ip \<le> 12" by (rule kas_digits(4)) simp
  show k: "k \<le> 8" "1 \<le> k"
    using last_nonzero_bounds(1) [of fb] by (simp_all add: k_def)
  show len: "length text \<le> 21" using ip k by (simp add: text_def fb_def)
  have "format_kas sompi buf = fold push_checked ([46] @ take k fb) (kas_write_u64 (unat sompi div 100000000) buf)"
    by (simp add: format_kas_def Let_def k_def fb_def)
  also have "\<dots> = (length ?ip + length ([46] @ take k fb), blit ([46] @ take k fb) (length ?ip) (blit ?ip 0 buf))"
    using ip len assms(1) by (simp only: kas_write_u64_eq) (rule fold_push_checked, simp add: text_def)
  also have "\<dots> = (length text, blit text 0 buf)"
    using blit_append [of 0 ?ip "[46] @ take k fb" buf] len assms(1) by (simp add: text_def)
  finally show "format_kas sompi buf = (length text, blit text 0 buf)" .
qed

lemma format_kas_exact:
  assumes "21 \<le> length buf" "format_kas sompi buf = (pos, buf')"
  obtains ip fp where "take pos buf' = ip @ [46] @ fp" "length buf' = length buf" "pos \<le> 21"
    "list_all is_digit (ip @ fp)" "ip \<noteq> []" "hd ip = 48 \<longleftrightarrow> unat sompi < 100000000"
    "1 \<le> length fp" "length fp \<le> 8"
    "dec_value ip * 100000000 + dec_value fp * 10 ^ (8 - length fp) = unat sompi"
proof -
  define fb where "fb = frac_buf (unat sompi mod 100000000)"
  define k where "k = (if unat sompi mod 100000000 = 0 then 2 else last_nonzero fb + 1)"
  let ?ip = "kas_digits (unat sompi div 100000000)"
  note t = format_kas_text [OF assms(1), of sompi, folded fb_def, folded k_def]
  show ?thesis
  proof (rule that [of ?ip "take k fb"])
    show "take pos buf' = ?ip @ [46] @ take k fb"
      using t assms(2) take_blit_0 [of "?ip @ [46] @ take k fb" buf] by simp
    show "length buf' = length buf" "pos \<le> 21" using t assms by auto
    show "list_all is_digit (?ip @ take k fb)"
      using kas_digits(2) frac_buf_digits [of "unat sompi mod 100000000"]
      by (auto simp: fb_def list_all_iff dest: in_set_takeD)
    show "?ip \<noteq> []" "hd ?ip = 48 \<longleftrightarrow> unat sompi < 100000000"
      by (simp_all add: kas_digits div_eq_0_iff)
    show "1 \<le> length (take k fb)" "length (take k fb) \<le> 8" using t by (simp_all add: fb_def)
    have "dec_value (take k fb) * 10 ^ (8 - k) = unat sompi mod 100000000"
      unfolding fb_def by (rule frac_prefix_value) (simp_all add: k_def fb_def)
    moreover have "length (take k fb) = k" using t(4) by (simp add: fb_def)
    ultimately show "dec_value ?ip * 100000000 + dec_value (take k fb) * 10 ^ (8 - length (take k fb)) = unat sompi"
      by (simp add: kas_digits(1))
  qed
qed

section \<open>Properties\<close>

text \<open>
  The multisig classifier accepts exactly the scripts of the grammar
  \<open>OP_m (OP_DATA_32 key)^n OP_n OP_CHECKMULTISIG\<close> with \<open>1 \<le> m \<le> n \<le> 5\<close> and 32-byte keys, and
  returns that \<open>m\<close>, that \<open>n\<close> and the keys in script order (the rest of the key array zero).
\<close>

theorem parse_multisig_script_spec:
  assumes "len \<le> length script"
  shows "parse_multisig_script script len = Some info \<longleftrightarrow>
    (\<exists>m pks. multisig_ok m pks \<and> take len script = multisig_script m pks \<and>
       info = \<lparr>ms_m = of_nat m, ms_n = of_nat (length pks),
               ms_pubkeys = pks @ replicate (MAX_MULTISIG_KEYS - length pks) (zeros 32)\<rparr>)"
  by (rule parse_multisig_script_grammar [OF assms])

theorem parse_multisig_script_spec_witness:
  "parse_multisig_script (multisig_script 1 [replicate 32 7, replicate 32 9] @ [0]) 69 =
     Some \<lparr>ms_m = 1, ms_n = 2, ms_pubkeys = [replicate 32 7, replicate 32 9, zeros 32, zeros 32, zeros 32]\<rparr>"
proof (rule parse_multisig_script_spec [THEN iffD2])
  let ?pks = "[replicate 32 7, replicate 32 9] :: bytes list"
  have len: "length (multisig_script 1 ?pks) = 69"
    by (simp add: multisig_script_def)
  then show "69 \<le> length (multisig_script 1 ?pks @ [0])" by simp
  have "multisig_ok 1 ?pks" by (simp add: multisig_ok_def size_limits)
  moreover have "take 69 (multisig_script 1 ?pks @ [0]) = multisig_script 1 ?pks" using len by simp
  moreover have "\<lparr>ms_m = 1, ms_n = 2, ms_pubkeys = [replicate 32 7, replicate 32 9, zeros 32, zeros 32, zeros 32]\<rparr>
      = \<lparr>ms_m = of_nat 1, ms_n = of_nat (length ?pks),
         ms_pubkeys = ?pks @ replicate (MAX_MULTISIG_KEYS - length ?pks) (zeros 32)\<rparr>"
    by (simp add: size_limits numeral_3_eq_3)
  ultimately show "\<exists>m pks. multisig_ok m pks \<and>
      take 69 (multisig_script 1 ?pks @ [0]) = multisig_script m pks \<and>
      \<lparr>ms_m = 1, ms_n = 2, ms_pubkeys = [replicate 32 7, replicate 32 9, zeros 32, zeros 32, zeros 32]\<rparr>
      = \<lparr>ms_m = of_nat m, ms_n = of_nat (length pks),
         ms_pubkeys = pks @ replicate (MAX_MULTISIG_KEYS - length pks) (zeros 32)\<rparr>"
    by blast
qed

text \<open>
  An output script counts as displayable exactly when it is a pay-to-public-key or a
  pay-to-script-hash script, and exactly when the classifier says P2PK or P2SH.
\<close>

theorem displayable_output_spec:
  assumes "len \<le> length script"
  shows "(is_displayable_output_script script len \<longleftrightarrow>
      (\<exists>h. length h = 32 \<and> take len script \<in> {p2pk_script h, p2sh_script h})) \<and>
    (is_displayable_output_script script len \<longleftrightarrow> detect_script_type script len \<in> {P2PK, P2SH})"
  using is_displayable_grammar [OF assms] is_displayable_iff_detect by blast

theorem displayable_output_spec_witness:
  "is_displayable_output_script (p2sh_script (replicate 32 5) @ zeros 477) 35"
proof -
  let ?s = "p2sh_script (replicate 32 5)"
  have len: "length ?s = 35" by (simp add: p2sh_script_def)
  then have "take 35 (?s @ zeros 477) = ?s" by simp
  with displayable_output_spec [of 35 "?s @ zeros 477"] len show ?thesis
    by (simp del: take_append) (metis length_replicate)
qed

text \<open>
  Storing a redeem script for one input makes exactly those bytes readable for it, whether
  they go into the inline array or into the shared pool, changes what no other input reads, and
  keeps the transaction well formed.
\<close>

theorem store_redeem_spec:
  assumes "wf_transaction tx" "idx < MAX_INPUTS" "store_redeem idx data tx = (Inr (), tx')"
  shows "redeem_bytes tx' idx = data \<and> wf_transaction tx' \<and>
    (\<forall>j < MAX_INPUTS. j \<noteq> idx \<longrightarrow> redeem_bytes tx' j = redeem_bytes tx j)"
  using store_redeem_ok [OF assms] by blast

theorem store_redeem_spec_witness:
  "redeem_bytes (snd (store_redeem 3 (replicate 600 7) transaction_new)) 3 = replicate 600 7"
proof -
  have "fst (store_redeem 3 (replicate 600 7) transaction_new) \<noteq> Inl RedeemTooLong"
    by (simp add: store_redeem_error size_limits) (simp add: transaction_new_def)
  then have "store_redeem 3 (replicate 600 7) transaction_new =
      (Inr (), snd (store_redeem 3 (replicate 600 7) transaction_new))"
    by (cases "store_redeem 3 (replicate 600 7) transaction_new"; cases "fst (store_redeem 3 (replicate 600 7) transaction_new)")
      (auto intro: redeem_too_long.exhaust)
  from store_redeem_spec [OF _ _ this] show ?thesis by (simp add: size_limits)
qed

text \<open>
  \<open>store_redeem\<close> refuses a script exactly when it is longer than 1024 bytes, or longer than the
  inline array while the pool has no room left for it; a refusal changes nothing.
\<close>

theorem store_redeem_refuses:
  "if length data > MAX_REDEEM_SIZE \<or>
      (length data > MAX_SCRIPT_SIZE \<and> tx_redeem_pool_used tx + length data > REDEEM_POOL_SIZE)
   then store_redeem idx data tx = (Inl RedeemTooLong, tx)
   else fst (store_redeem idx data tx) = Inr ()"
  by (auto simp: store_redeem_def Let_def size_limits)

text \<open>
  \<open>fee\<close> is the exact difference of the totals, zero when outputs exceed inputs, and traps exactly
  when one of the two totals does not fit into 64 bits.
\<close>

theorem fee_spec:
  "fee tx = (if input_sompi tx < 2 ^ 64 \<and> output_sompi tx < 2 ^ 64
             then Some (of_nat (input_sompi tx - output_sompi tx)) else None)"
  by (rule fee_eq)

text \<open>
  The amount shown on the screen is exact: an integer part without leading zeros, a point and
  one to eight fraction digits whose decimal value is the amount in sompi divided by 10^8, never
  longer than 21 bytes.
\<close>

theorem format_kas_spec:
  assumes "21 \<le> length buf"
  shows "\<exists>pos buf' ip fp. format_kas sompi buf = (pos, buf') \<and> take pos buf' = ip @ [46] @ fp \<and>
    length buf' = length buf \<and> pos \<le> 21 \<and> list_all is_digit (ip @ fp) \<and> ip \<noteq> [] \<and>
    (hd ip = 48 \<longleftrightarrow> unat sompi < 100000000) \<and> 1 \<le> length fp \<and> length fp \<le> 8 \<and>
    dec_value ip * 100000000 + dec_value fp * 10 ^ (8 - length fp) = unat sompi"
proof -
  obtain pos buf' where run: "format_kas sompi buf = (pos, buf')" by (cases "format_kas sompi buf")
  show ?thesis using format_kas_exact [OF assms run] run by metis
qed

theorem format_kas_spec_witness:
  "\<exists>pos buf' ip fp. format_kas 123450000 (zeros 24) = (pos, buf') \<and> take pos buf' = ip @ [46] @ fp \<and>
    dec_value ip * 100000000 + dec_value fp * 10 ^ (8 - length fp) = 123450000"
  using format_kas_spec [of "zeros 24" 123450000] by auto

text \<open>
  Sighash bytes and sighash types correspond one to one, except that the bare
  \<open>AnyOneCanPay\<close> flag is a type no byte parses to.
\<close>

theorem sighash_byte_roundtrip:
  "sighash_from_byte (sighash_to_byte t) = (if t = ShAnyOneCanPay then None else Some t) \<and>
   (sighash_from_byte b = Some t' \<longrightarrow> sighash_to_byte t' = b)"
  using sighash_from_to_byte sighash_to_from_byte by blast

theorem sighash_byte_roundtrip_witness: "sighash_to_byte ShNoneAnyOneCanPay = 0x82"
  using sighash_byte_roundtrip [of ShAll "0x82" ShNoneAnyOneCanPay] by (simp add: sighash_from_byte_def)

end
