(* ===== verification/KasKspt.thy ===== *)
theory KasKspt
  imports KasTransaction
begin

text \<open>
  The compact transaction format KSPT (core/src/wallet/pskt.rs, versions 1 and 4):
  \<open>parse_pskt\<close> fills a cleared transaction field by field, so an error leaves the part read so
  far in it; \<open>serialize_pskt\<close> writes the same fields. The pieces that the signed format
  (theory KasKsptSigned) repeats are definitions of their own here. The second half gives the
  byte grammar of the format, relates writer and reader to it, and bounds what an accepted
  payload can contain.
\<close>

definition PSKT_MAGIC :: bytes where "PSKT_MAGIC = [0x4B, 0x53, 0x50, 0x54]"
definition SIGNED_MAGIC :: bytes where "SIGNED_MAGIC = [0x4B, 0x53, 0x53, 0x4E]"
definition FORMAT_VERSION :: u8 where "FORMAT_VERSION = 0x01"
definition FORMAT_VERSION_V3 :: u8 where "FORMAT_VERSION_V3 = 0x03"
definition FORMAT_VERSION_V4 :: u8 where "FORMAT_VERSION_V4 = 0x04"
definition FORMAT_VERSION_SIGNED_V4 :: u8 where "FORMAT_VERSION_SIGNED_V4 = 0x05"
definition TRAILER_MS45_IN :: u8 where "TRAILER_MS45_IN = 0x44"
definition TRAILER_MS45_OUT :: u8 where "TRAILER_MS45_OUT = 0x45"
definition MS45_HINT_BODY :: nat where "MS45_HINT_BODY = 1 + 4 + 4 + 4"
definition MAX_SIGNATURES :: nat where "MAX_SIGNATURES = MAX_INPUTS"
definition MAX_SOMPI :: u64 where "MAX_SOMPI = 29000000000 * 100000000"

lemmas kspt_consts = PSKT_MAGIC_def FORMAT_VERSION_def FORMAT_VERSION_V3_def FORMAT_VERSION_V4_def
  FORMAT_VERSION_SIGNED_V4_def TRAILER_MS45_IN_def TRAILER_MS45_OUT_def MS45_HINT_BODY_def

type_synonym 'a tx_parser = "(transaction, 'a) parser"

section \<open>parse\_pskt\<close>

text \<open>A transaction operation inside the parser, its error mapped.\<close>

definition act :: "('e \<Rightarrow> pskt_error) \<Rightarrow> (transaction, 'e, unit) step \<Rightarrow> unit tx_parser" where
  "act err m = (\<lambda>(r, t). case m t of (Inl e, t') \<Rightarrow> (Inl (err e), (r, t'))
                                    | (Inr x, t') \<Rightarrow> (Inr x, (r, t')))"

definition parse_header :: "(bool \<times> bool \<times> bool) tx_parser" where
  "parse_header =
     bindE (rd (read_bytes 4)) (\<lambda>magic.
     thenE (fail_if (magic \<noteq> PSKT_MAGIC) InvalidMagic)
    (bindE (rd read_u8) (\<lambda>version.
     thenE (fail_if (version \<noteq> FORMAT_VERSION \<and> version \<noteq> FORMAT_VERSION_V4) UnsupportedVersion)
    (bindE (rd read_u8) (\<lambda>flags.
     ret (version = FORMAT_VERSION_V4, flags AND 0x02 \<noteq> 0, flags AND 0x04 \<noteq> 0))))))"

text \<open>Lock time, subnetwork, gas, payload.\<close>

definition parse_tx_fields :: "unit tx_parser" where
  "parse_tx_fields =
     bindE (rd read_u64_le) (\<lambda>lock.
     thenE (upd (tx_locktime_update (\<lambda>_. lock)))
    (bindE (rd (read_bytes 20)) (\<lambda>subnet.
     thenE (upd (tx_subnetwork_id_update (\<lambda>_. subnet)))
    (bindE (rd read_u64_le) (\<lambda>gas.
     thenE (upd (tx_gas_update (\<lambda>_. gas)))
    (bindE (rd read_u16_le) (\<lambda>pl. let payload_len = unat pl in
     thenE (fail_if (payload_len > MAX_PAYLOAD_SIZE) PayloadTooLong)
    (thenE (upd (tx_payload_len_update (\<lambda>_. payload_len)))
    (if payload_len > 0
     then bindE (rd (read_bytes payload_len)) (\<lambda>pb. upd (tx_payload_update (blit pb 0)))
     else ret ())))))))))"

definition parse_global :: "(nat \<times> nat) tx_parser" where
  "parse_global =
     bindE (rd read_u16_le) (\<lambda>version.
     thenE (upd (tx_version_update (\<lambda>_. version)))
    (bindE (rd read_u8) (\<lambda>ni. bindE (rd read_u8) (\<lambda>no.
     let num_inputs = unat ni; num_outputs = unat no in
     thenE (fail_if (num_inputs = 0) NoInputs)
    (thenE (fail_if (num_inputs > MAX_INPUTS) TooManyInputs)
    (thenE (fail_if (num_outputs = 0) NoOutputs)
    (thenE (fail_if (num_outputs > MAX_OUTPUTS) TooManyOutputs)
    (thenE (upd (tx_num_inputs_update (\<lambda>_. num_inputs)))
    (thenE (upd (tx_num_outputs_update (\<lambda>_. num_outputs)))
    (thenE parse_tx_fields (ret (num_inputs, num_outputs))))))))))))"

text \<open>Outpoint, amount, sequence, signature operation count of input \<open>i\<close>.\<close>

definition parse_input_base :: "nat \<Rightarrow> unit tx_parser" where
  "parse_input_base i =
     bindE (rd read_hash256) (\<lambda>txid.
     thenE (upd (upd_in i (in_outpoint_update (op_transaction_id_update (\<lambda>_. txid)))))
    (bindE (rd read_u32_le) (\<lambda>index.
     thenE (upd (upd_in i (in_outpoint_update (op_index_update (\<lambda>_. index)))))
    (bindE (rd read_u64_le) (\<lambda>amount.
     thenE (fail_if (amount > MAX_SOMPI) ValueOutOfRange)
    (thenE (upd (upd_in i (in_utxo_update (utxo_amount_update (\<lambda>_. amount)))))
    (bindE (rd read_u64_le) (\<lambda>seq.
     thenE (upd (upd_in i (in_sequence_update (\<lambda>_. seq))))
    (bindE (rd read_u8) (\<lambda>ops.
     upd (upd_in i (in_sig_op_count_update (\<lambda>_. ops)))))))))))))"

text \<open>A script public key: \<open>up\<close> updates the record it goes to.\<close>

definition parse_script ::
  "((script_public_key \<Rightarrow> script_public_key) \<Rightarrow> transaction \<Rightarrow> transaction) \<Rightarrow> nat \<Rightarrow> unit tx_parser"
where
  "parse_script up len =
     thenE (upd (up (spk_script_len_update (\<lambda>_. len))))
    (bindE (rd (read_bytes len)) (\<lambda>bs. upd (up (spk_script_update (blit bs 0)))))"

definition parse_spk ::
  "((script_public_key \<Rightarrow> script_public_key) \<Rightarrow> transaction \<Rightarrow> transaction) \<Rightarrow> unit tx_parser"
where
  "parse_spk up =
     bindE (rd read_u16_le) (\<lambda>spk_version.
     bindE (rd read_spk_len) (\<lambda>len.
     thenE (fail_if (len > MAX_SCRIPT_SIZE) ScriptTooLong)
    (thenE (upd (up (spk_version_update (\<lambda>_. spk_version))))
    (parse_script up len))))"

definition upd_in_spk :: "nat \<Rightarrow> (script_public_key \<Rightarrow> script_public_key) \<Rightarrow> transaction \<Rightarrow> transaction" where
  "upd_in_spk i f = upd_in i (in_utxo_update (utxo_spk_update f))"

definition upd_out_spk :: "nat \<Rightarrow> (script_public_key \<Rightarrow> script_public_key) \<Rightarrow> transaction \<Rightarrow> transaction" where
  "upd_out_spk i f = upd_out i (out_spk_update f)"

definition parse_redeem :: "nat \<Rightarrow> nat \<Rightarrow> unit tx_parser" where
  "parse_redeem i rs_len =
     (if rs_len > 0
      then thenE (fail_if (rs_len > MAX_REDEEM_SIZE) ScriptTooLong)
          (bindE (rd (read_bytes rs_len)) (\<lambda>rs. act (\<lambda>_. ScriptTooLong) (store_redeem i rs)))
      else ret ())"

definition parse_input :: "bool \<Rightarrow> nat \<Rightarrow> unit tx_parser" where
  "parse_input has_redeem i =
     thenE (parse_input_base i)
    (thenE (parse_spk (upd_in_spk i))
    (thenE (upd (upd_in i (in_redeem_script_len_update (\<lambda>_. 0))))
    (if has_redeem
     then bindE (rd read_u8) (\<lambda>rs_len. parse_redeem i (unat rs_len))
     else ret ())))"

text \<open>The value of output \<open>i\<close> with the per-value and running-total checks.\<close>

definition parse_value :: "nat \<Rightarrow> u64 \<Rightarrow> u64 tx_parser" where
  "parse_value i out_total =
     bindE (rd read_u64_le) (\<lambda>value.
     thenE (fail_if (value > MAX_SOMPI) ValueOutOfRange)
    (case checked_add out_total value of
       Some t \<Rightarrow>
         if t \<le> MAX_SOMPI
         then thenE (upd (upd_out i (out_value_update (\<lambda>_. value)))) (ret t)
         else fail ValueOutOfRange
     | None \<Rightarrow> fail ValueOutOfRange))"

definition parse_binding :: "nat \<Rightarrow> unit tx_parser" where
  "parse_binding i =
     bindE (rd read_u8) (\<lambda>has_cov.
       if has_cov = 0 then upd (upd_out i (out_has_covenant_update (\<lambda>_. False)))
       else if has_cov = 1 then
         thenE (upd (upd_out i (out_has_covenant_update (\<lambda>_. True))))
        (bindE (rd read_u16_le) (\<lambda>auth.
         thenE (upd (upd_out i (out_covenant_auth_input_update (\<lambda>_. auth))))
        (bindE (rd (read_bytes 32)) (\<lambda>cov_id.
         upd (upd_out i (out_covenant_id_update (\<lambda>_. cov_id)))))))
       else fail InvalidCovenantBinding)"

definition parse_output :: "bool \<Rightarrow> nat \<Rightarrow> u64 \<Rightarrow> u64 tx_parser" where
  "parse_output has_covenant_data i out_total =
     bindE (parse_value i out_total) (\<lambda>t.
     thenE (parse_spk (upd_out_spk i))
    (thenE (if has_covenant_data then parse_binding i else ret ())
    (ret t)))"

definition check_bindings :: "nat \<Rightarrow> nat \<Rightarrow> unit tx_parser" where
  "check_bindings num_inputs num_outputs =
     forE [0..<num_outputs] (\<lambda>i.
       bindE (get (\<lambda>t. tx_outputs t ! i)) (\<lambda>out.
       fail_if (out_has_covenant out \<and> unat (out_covenant_auth_input out) \<ge> num_inputs)
         InvalidCovenantBinding))"

subsection \<open>The hint trailer\<close>

definition apply_hint :: "nat \<Rightarrow> nat \<Rightarrow> u8 \<Rightarrow> nat \<Rightarrow> ms45_hint \<Rightarrow> unit tx_parser" where
  "apply_hint ni no marker idx h =
     (if marker = TRAILER_MS45_IN then
        thenE (fail_if (idx \<ge> ni) TrailingData)
       (bindE (get (\<lambda>t. hint_present (in_ms45_hint (tx_inputs t ! idx)))) (\<lambda>dup.
        thenE (fail_if dup TrailingData)
       (upd (upd_in idx (in_ms45_hint_update (\<lambda>_. h))))))
      else
        thenE (fail_if (idx \<ge> no) TrailingData)
       (bindE (get (\<lambda>t. hint_present (out_ms45_hint (tx_outputs t ! idx)))) (\<lambda>dup.
        thenE (fail_if dup TrailingData)
       (upd (upd_out idx (out_ms45_hint_update (\<lambda>_. h)))))))"

definition parse_hint_body :: "nat \<Rightarrow> nat \<Rightarrow> u8 \<Rightarrow> unit tx_parser" where
  "parse_hint_body ni no marker =
     bindE (rd read_u8) (\<lambda>idx.
     bindE (rd read_u32_le) (\<lambda>cosigner.
     bindE (rd read_u32_le) (\<lambda>chain.
     bindE (rd read_u32_le) (\<lambda>addr_index.
     apply_hint ni no marker (unat idx)
       \<lparr>hint_present = True, hint_cosigner = cosigner, hint_chain = chain, hint_index = addr_index\<rparr>))))"

definition parse_hint_record :: "nat \<Rightarrow> nat \<Rightarrow> unit tx_parser" where
  "parse_hint_record ni no =
     bindE (rd read_u8) (\<lambda>marker.
       if marker = TRAILER_MS45_IN \<or> marker = TRAILER_MS45_OUT then
         bindE remaining (\<lambda>left.
         thenE (fail_if (left < MS45_HINT_BODY) TrailingData)
        (parse_hint_body ni no marker))
       else fail TrailingData)"

text \<open>Reading only moves forward, which is why the trailer loop ends.\<close>

definition forward :: "('t, 'a) parser \<Rightarrow> bool" where
  "forward m \<longleftrightarrow> (\<forall>r t. reader_remaining (fst (snd (m (r, t)))) \<le> reader_remaining r)"

lemma forward_rd:
  "forward (rd read_u8)" "forward (rd read_u16_le)" "forward (rd read_u32_le)"
  "forward (rd read_u64_le)" "forward (rd (read_bytes n))"
  by (auto simp: forward_def rd_apply reader_unread simp del: length_unread split: list.split)

lemma forward_silent: "forward (upd f)" "forward (get g)" "forward remaining" "forward (ret x)"
    "forward (fail e)" "forward (fail_if c e)"
  by (auto simp: forward_def ret_def fail_def fail_if_def)

lemma forward_bindE: "forward m \<Longrightarrow> (\<And>x. forward (f x)) \<Longrightarrow> forward (bindE m f)"
  unfolding forward_def bindE_def
  by (auto split: prod.splits sum.splits) (metis fst_conv le_trans snd_conv)+

lemma forward_thenE: "forward m \<Longrightarrow> forward n \<Longrightarrow> forward (thenE m n)"
  unfolding thenE_def by (rule forward_bindE)

lemmas forward_intros = forward_rd forward_silent forward_bindE forward_thenE

lemma forward_hint_body: "forward (parse_hint_body ni no marker)"
  unfolding parse_hint_body_def apply_hint_def by (auto intro!: forward_intros)

lemma hint_record_progress:
  assumes "parse_hint_record ni no (r, t) = (Inr u, (r', t'))"
  shows "reader_remaining r' < reader_remaining r"
proof (cases "unread r")
  case Nil
  then show ?thesis using assms
    by (simp add: parse_hint_record_def bindE_def rd_apply read_u8_unread)
next
  case (Cons b bs)
  let ?rest = "\<lambda>marker. if marker = TRAILER_MS45_IN \<or> marker = TRAILER_MS45_OUT then
         bindE remaining (\<lambda>left. thenE (fail_if (left < MS45_HINT_BODY) TrailingData)
        (parse_hint_body ni no marker)) else fail TrailingData"
  have "forward (?rest b)"
    by (auto intro!: forward_intros forward_hint_body)
  moreover have "?rest b (advance 1 r, t) = (Inr u, (r', t'))"
    using assms Cons by (simp add: parse_hint_record_def bindE_Inr [of "rd read_u8" _ b] rd_apply read_u8_unread)
  ultimately have "reader_remaining r' \<le> reader_remaining (advance 1 r)"
    unfolding forward_def by (metis fst_conv snd_conv)
  moreover have "reader_remaining r = Suc (length bs)"
    using Cons length_unread [of r] by simp
  ultimately show ?thesis by simp
qed

function parse_hints :: "nat \<Rightarrow> nat \<Rightarrow> byte_reader \<times> transaction \<Rightarrow> (pskt_error + unit) \<times> (byte_reader \<times> transaction)" where
  "parse_hints ni no (r, t) =
     (if reader_remaining r = 0 then (Inr (), (r, t))
      else (case parse_hint_record ni no (r, t) of
              (Inl e, s) \<Rightarrow> (Inl e, s)
            | (Inr _, (r', t')) \<Rightarrow> parse_hints ni no (r', t')))"
  by pat_completeness auto

termination
  by (relation "measure (\<lambda>(ni, no, r, t). reader_remaining r)")
    (auto dest!: sym [of "(_, _)" "parse_hint_record _ _ _"] hint_record_progress)

declare parse_hints.simps [simp del]

definition parse_pskt_front :: "(bool \<times> nat \<times> nat) tx_parser" where
  "parse_pskt_front =
     bindE parse_header (\<lambda>(has_hint_trailer, has_redeem, has_covenant_data).
     bindE parse_global (\<lambda>(num_inputs, num_outputs).
     thenE (forE [0..<num_inputs] (parse_input has_redeem))
    (bindE (foldE [0..<num_outputs] (parse_output has_covenant_data) 0) (\<lambda>_.
     thenE (check_bindings num_inputs num_outputs)
    (ret (has_hint_trailer, num_inputs, num_outputs))))))"

definition parse_pskt_tail :: "bool \<times> nat \<times> nat \<Rightarrow> unit tx_parser" where
  "parse_pskt_tail = (\<lambda>(has_hint_trailer, num_inputs, num_outputs).
     thenE (if has_hint_trailer then parse_hints num_inputs num_outputs else ret ())
    (bindE remaining (\<lambda>left. fail_if (left \<noteq> 0) TrailingData)))"

definition parse_pskt_body :: "unit tx_parser" where
  "parse_pskt_body = bindE parse_pskt_front parse_pskt_tail"

definition parse_pskt :: "bytes \<Rightarrow> transaction \<Rightarrow> (pskt_error + unit) \<times> transaction" where
  "parse_pskt data tx =
     (case parse_pskt_body (reader_new data, tx_clear tx) of (res, (_, tx')) \<Rightarrow> (res, tx'))"

section \<open>serialize\_pskt\<close>

definition write_global :: "transaction \<Rightarrow> writer" where
  "write_global tx =
     thenE (write_u16_le (tx_version tx))
    (thenE (write_u8 (of_nat (tx_num_inputs tx)))
    (thenE (write_u8 (of_nat (tx_num_outputs tx)))
    (thenE (write_u64_le (tx_locktime tx))
    (thenE (write_bytes (tx_subnetwork_id tx))
    (thenE (write_u64_le (tx_gas tx))
    (thenE (write_u16_le (of_nat (tx_payload_len tx)))
    (whenE (tx_payload_len tx > 0) (write_bytes (take (tx_payload_len tx) (tx_payload tx))))))))))"

definition write_spk :: "script_public_key \<Rightarrow> writer" where
  "write_spk spk =
     thenE (write_u16_le (spk_version spk))
    (thenE (write_spk_len (spk_script_len spk))
    (write_bytes (script_bytes spk)))"

definition write_input :: "transaction_input \<Rightarrow> writer" where
  "write_input input =
     thenE (write_bytes (op_transaction_id (in_outpoint input)))
    (thenE (write_bytes (to_le 4 (op_index (in_outpoint input))))
    (thenE (write_u64_le (utxo_amount (in_utxo input)))
    (thenE (write_u64_le (in_sequence input))
    (thenE (write_u8 (in_sig_op_count input))
    (write_spk (utxo_spk (in_utxo input)))))))"

definition write_output :: "transaction_output \<Rightarrow> writer" where
  "write_output out = thenE (write_u64_le (out_value out)) (write_spk (out_spk out))"

definition write_binding :: "bool \<Rightarrow> transaction_output \<Rightarrow> writer" where
  "write_binding has_covenant_data out =
     whenE has_covenant_data
       (if out_has_covenant out
        then thenE (write_u8 1)
            (thenE (write_u16_le (out_covenant_auth_input out))
            (write_bytes (out_covenant_id out)))
        else write_u8 0)"

definition write_hint :: "u8 \<Rightarrow> nat \<Rightarrow> ms45_hint \<Rightarrow> writer" where
  "write_hint marker i h =
     whenE (hint_present h)
      (thenE (write_u8 marker)
      (thenE (write_u8 (of_nat i))
      (thenE (write_u32_le (hint_cosigner h))
      (thenE (write_u32_le (hint_chain h))
      (write_u32_le (hint_index h))))))"

definition write_hints :: "transaction \<Rightarrow> writer" where
  "write_hints tx =
     thenE (forE [0..<tx_num_inputs tx] (\<lambda>i. write_hint TRAILER_MS45_IN i (in_ms45_hint (tx_inputs tx ! i))))
    (forE [0..<tx_num_outputs tx] (\<lambda>i. write_hint TRAILER_MS45_OUT i (out_ms45_hint (tx_outputs tx ! i))))"

definition has_covenant_data :: "transaction \<Rightarrow> bool" where
  "has_covenant_data tx \<longleftrightarrow> list_ex (\<lambda>i. out_has_covenant (tx_outputs tx ! i)) [0..<tx_num_outputs tx]"

definition has_hints :: "transaction \<Rightarrow> bool" where
  "has_hints tx \<longleftrightarrow>
     list_ex (\<lambda>i. hint_present (in_ms45_hint (tx_inputs tx ! i))) [0..<tx_num_inputs tx] \<or>
     list_ex (\<lambda>i. hint_present (out_ms45_hint (tx_outputs tx ! i))) [0..<tx_num_outputs tx]"

definition write_pskt :: "transaction \<Rightarrow> writer" where
  "write_pskt tx =
     (let cov = has_covenant_data tx; hints = has_hints tx in
     thenE (write_bytes PSKT_MAGIC)
    (thenE (write_u8 (if hints then FORMAT_VERSION_V4 else FORMAT_VERSION))
    (thenE (write_u8 (if cov then 0x04 else 0x00))
    (thenE (write_global tx)
    (thenE (forE [0..<tx_num_inputs tx] (\<lambda>i. write_input (tx_inputs tx ! i)))
    (thenE (forE [0..<tx_num_outputs tx] (\<lambda>i.
        thenE (write_output (tx_outputs tx ! i)) (write_binding cov (tx_outputs tx ! i))))
    (whenE hints (write_hints tx))))))))"

definition serialize_pskt :: "transaction \<Rightarrow> bytes \<Rightarrow> (pskt_error + nat) \<times> bytes" where
  "serialize_pskt tx = run_writer (write_pskt tx)"

text \<open>The v1 signed form: the legacy single signature follows each input.\<close>

definition write_signed_input :: "transaction_input \<Rightarrow> writer" where
  "write_signed_input input =
     thenE (write_input input)
    (thenE (write_u8 (in_sig_len input))
    (whenE (in_sig_len input > 0)
      (thenE (write_bytes (take (unat (in_sig_len input)) (in_signature input)))
      (write_u8 (in_sighash_type input)))))"

definition write_signed_pskt :: "transaction \<Rightarrow> writer" where
  "write_signed_pskt tx =
     (let cov = has_covenant_data tx in
     thenE (write_bytes PSKT_MAGIC)
    (thenE (write_u8 FORMAT_VERSION)
    (thenE (write_u8 (0x01 OR (if cov then 0x04 else 0x00)))
    (thenE (write_global tx)
    (thenE (forE [0..<tx_num_inputs tx] (\<lambda>i. write_signed_input (tx_inputs tx ! i)))
    (forE [0..<tx_num_outputs tx] (\<lambda>i.
        thenE (write_output (tx_outputs tx ! i)) (write_binding cov (tx_outputs tx ! i)))))))))"

definition serialize_signed_pskt :: "transaction \<Rightarrow> bytes \<Rightarrow> (pskt_error + nat) \<times> bytes" where
  "serialize_signed_pskt tx = run_writer (write_signed_pskt tx)"

section \<open>Signature responses\<close>

record input_signature =
  isig_input_index :: u8
  isig_sighash_type :: sighash_type
  isig_signature :: bytes

record signed_response =
  sr_signatures :: "input_signature list"
  sr_num_signatures :: nat

definition signed_response_new :: signed_response where
  "signed_response_new =
     \<lparr>sr_signatures = replicate MAX_SIGNATURES
        \<lparr>isig_input_index = 0, isig_sighash_type = ShAll, isig_signature = zeros 64\<rparr>,
      sr_num_signatures = 0\<rparr>"

definition add_signature :: "u8 \<Rightarrow> sighash_type \<Rightarrow> bytes \<Rightarrow> (signed_response, pskt_error, unit) step" where
  "add_signature input_index sht sig sr =
     (if sr_num_signatures sr \<ge> MAX_SIGNATURES then (Inl TooManyInputs, sr)
      else (Inr (), sr\<lparr>sr_signatures := (sr_signatures sr)[sr_num_signatures sr :=
                 \<lparr>isig_input_index = input_index, isig_sighash_type = sht, isig_signature = sig\<rparr>],
               sr_num_signatures := sr_num_signatures sr + 1\<rparr>))"

definition write_response :: "signed_response \<Rightarrow> writer" where
  "write_response sr =
     thenE (write_bytes SIGNED_MAGIC)
    (thenE (write_u8 FORMAT_VERSION)
    (thenE (write_u8 (of_nat (sr_num_signatures sr)))
    (forE [0..<sr_num_signatures sr] (\<lambda>i. let sig = sr_signatures sr ! i in
       thenE (write_u8 (isig_input_index sig))
      (thenE (write_u8 (sighash_to_byte (isig_sighash_type sig)))
      (write_bytes (isig_signature sig)))))))"

definition serialize_response :: "signed_response \<Rightarrow> bytes \<Rightarrow> (pskt_error + nat) \<times> bytes" where
  "serialize_response sr = run_writer (write_response sr)"

definition upd_isig :: "nat \<Rightarrow> (input_signature \<Rightarrow> input_signature) \<Rightarrow> signed_response \<Rightarrow> signed_response" where
  "upd_isig i f sr = sr\<lparr>sr_signatures := (sr_signatures sr)[i := f (sr_signatures sr ! i)]\<rparr>"

definition parse_response_sig :: "nat \<Rightarrow> (signed_response, unit) parser" where
  "parse_response_sig i =
     bindE (rd read_u8) (\<lambda>idx.
     thenE (upd (upd_isig i (isig_input_index_update (\<lambda>_. idx))))
    (bindE (rd read_u8) (\<lambda>sht.
     thenE (case sighash_from_byte sht of
              None \<Rightarrow> fail InvalidSigHashType
            | Some t \<Rightarrow> upd (upd_isig i (isig_sighash_type_update (\<lambda>_. t))))
    (bindE (rd (read_bytes 64)) (\<lambda>sig.
     upd (upd_isig i (isig_signature_update (\<lambda>_. sig))))))))"

definition parse_response :: "bytes \<Rightarrow> pskt_error + signed_response" where
  "parse_response data =
     (case (bindE (rd (read_bytes 4)) (\<lambda>magic.
            thenE (fail_if (magic \<noteq> SIGNED_MAGIC) InvalidMagic)
           (bindE (rd read_u8) (\<lambda>version.
            thenE (fail_if (version \<noteq> FORMAT_VERSION) UnsupportedVersion)
           (bindE (rd read_u8) (\<lambda>n.
            thenE (fail_if (unat n > MAX_SIGNATURES) TooManyInputs)
           (thenE (upd (sr_num_signatures_update (\<lambda>_. unat n)))
           (forE [0..<unat n] parse_response_sig))))))))
          (reader_new data, signed_response_new) of
        (Inl e, _) \<Rightarrow> Inl e
      | (Inr _, (_, sr)) \<Rightarrow> Inr sr)"

section \<open>The byte grammar\<close>

definition spk_wire :: "script_public_key \<Rightarrow> bytes" where
  "spk_wire spk = to_le 2 (spk_version spk) @ spk_len_bytes (spk_script_len spk) @ script_bytes spk"

definition input_wire :: "transaction_input \<Rightarrow> bytes" where
  "input_wire i =
     op_transaction_id (in_outpoint i) @ to_le 4 (op_index (in_outpoint i)) @
     to_le 8 (utxo_amount (in_utxo i)) @ to_le 8 (in_sequence i) @ [in_sig_op_count i] @
     spk_wire (utxo_spk (in_utxo i))"

definition output_wire :: "transaction_output \<Rightarrow> bytes" where
  "output_wire out = to_le 8 (out_value out) @ spk_wire (out_spk out)"

definition binding_wire :: "transaction_output \<Rightarrow> bytes" where
  "binding_wire out =
     (if out_has_covenant out then [1] @ to_le 2 (out_covenant_auth_input out) @ out_covenant_id out
      else [0])"

definition hint_wire :: "u8 \<Rightarrow> nat \<Rightarrow> ms45_hint \<Rightarrow> bytes" where
  "hint_wire marker i h =
     [marker] @ [of_nat i] @ to_le 4 (hint_cosigner h) @ to_le 4 (hint_chain h) @ to_le 4 (hint_index h)"

definition tx_fields_wire :: "transaction \<Rightarrow> bytes" where
  "tx_fields_wire tx =
     to_le 8 (tx_locktime tx) @ tx_subnetwork_id tx @ to_le 8 (tx_gas tx) @
     to_le 2 (of_nat (tx_payload_len tx) :: u16) @ take (tx_payload_len tx) (tx_payload tx)"

definition global_wire :: "transaction \<Rightarrow> bytes" where
  "global_wire tx =
     to_le 2 (tx_version tx) @ [of_nat (tx_num_inputs tx)] @ [of_nat (tx_num_outputs tx)] @
     tx_fields_wire tx"

definition hint_records :: "transaction \<Rightarrow> (u8 \<times> nat \<times> ms45_hint) list" where
  "hint_records tx =
     [(TRAILER_MS45_IN, i, in_ms45_hint (tx_inputs tx ! i)).
        i \<leftarrow> [0..<tx_num_inputs tx], hint_present (in_ms45_hint (tx_inputs tx ! i))] @
     [(TRAILER_MS45_OUT, i, out_ms45_hint (tx_outputs tx ! i)).
        i \<leftarrow> [0..<tx_num_outputs tx], hint_present (out_ms45_hint (tx_outputs tx ! i))]"

definition hints_wire :: "(u8 \<times> nat \<times> ms45_hint) list \<Rightarrow> bytes" where
  "hints_wire rs = concat (map (\<lambda>(marker, i, h). hint_wire marker i h) rs)"

text \<open>
  Header, globals, inputs, outputs: everything before the hint trailer. The redeem scripts are
  a separate argument, since only other producers of the format write them (flag 0x02).
\<close>

fun redeem_wire :: "(nat \<Rightarrow> bytes) option \<Rightarrow> nat \<Rightarrow> bytes" where
  "redeem_wire None i = []"
| "redeem_wire (Some rs) i = [of_nat (length (rs i))] @ rs i"

definition kspt_flags :: "(nat \<Rightarrow> bytes) option \<Rightarrow> transaction \<Rightarrow> u8" where
  "kspt_flags rs tx = (if rs = None then 0x00 else 0x02) OR (if has_covenant_data tx then 0x04 else 0x00)"

definition kspt_body_wire :: "u8 \<Rightarrow> (nat \<Rightarrow> bytes) option \<Rightarrow> transaction \<Rightarrow> bytes" where
  "kspt_body_wire version rs tx =
     PSKT_MAGIC @ [version] @ [kspt_flags rs tx] @ global_wire tx @
     concat (map (\<lambda>i. input_wire (tx_inputs tx ! i) @ redeem_wire rs i) [0..<tx_num_inputs tx]) @
     concat (map (\<lambda>i. output_wire (tx_outputs tx ! i) @
        (if has_covenant_data tx then binding_wire (tx_outputs tx ! i) else [])) [0..<tx_num_outputs tx])"

definition kspt_wire :: "transaction \<Rightarrow> bytes" where
  "kspt_wire tx =
     kspt_body_wire (if has_hints tx then FORMAT_VERSION_V4 else FORMAT_VERSION) None tx @
     hints_wire (hint_records tx)"

lemma has_hints_records: "has_hints tx \<longleftrightarrow> hint_records tx \<noteq> []"
  by (auto simp: has_hints_def hint_records_def list_ex_iff)

subsection \<open>The writer emits it\<close>

lemma writes_global: "writes (write_global tx) (global_wire tx)"
proof -
  have "writes (whenE (tx_payload_len tx > 0) (write_bytes (take (tx_payload_len tx) (tx_payload tx))))
     (take (tx_payload_len tx) (tx_payload tx))"
    by (cases "tx_payload_len tx") (auto simp: whenE_def intro: writes_intros)
  then show ?thesis
    unfolding write_global_def global_wire_def tx_fields_wire_def
    by (intro writes_intros)
qed

lemma writes_spk: "writes (write_spk spk) (spk_wire spk)"
  unfolding write_spk_def spk_wire_def by (intro writes_intros)

lemma writes_input: "writes (write_input i) (input_wire i)"
  unfolding write_input_def input_wire_def by (intro writes_intros writes_spk)

lemma writes_output: "writes (write_output out) (output_wire out)"
  unfolding write_output_def output_wire_def by (intro writes_intros writes_spk)

lemma writes_binding: "writes (write_binding c out) (if c then binding_wire out else [])"
proof -
  have "writes (thenE (write_u8 1) (thenE (write_u16_le (out_covenant_auth_input out))
      (write_bytes (out_covenant_id out)))) ([1] @ to_le 2 (out_covenant_auth_input out) @ out_covenant_id out)"
    by (intro writes_intros)
  then show ?thesis
    by (auto simp: write_binding_def binding_wire_def whenE_def intro: writes_intros)
qed

lemma writes_hint: "writes (write_hint m i h) (if hint_present h then hint_wire m i h else [])"
  unfolding write_hint_def hint_wire_def by (intro writes_intros)

lemma concat_filter_records:
  "hints_wire (concat (map (\<lambda>i. if P i then [(m, i, f i)] else []) is)) =
   concat (map (\<lambda>i. if P i then hint_wire m i (f i) else []) is)"
  by (induction "is") (auto simp: hints_wire_def)

lemma writes_hints: "writes (write_hints tx) (hints_wire (hint_records tx))"
proof -
  have "hints_wire (xs @ ys) = hints_wire xs @ hints_wire ys" for xs ys
    by (simp add: hints_wire_def)
  then show ?thesis
    unfolding write_hints_def hint_records_def
    by (simp only: concat_filter_records) (intro writes_intros writes_hint)
qed

lemma writes_pskt: "writes (write_pskt tx) (kspt_wire tx)"
proof -
  have h: "writes (whenE (has_hints tx) (write_hints tx)) (hints_wire (hint_records tx))"
    using writes_hints [of tx]
    by (auto simp: whenE_def has_hints_records hints_wire_def writes_ret)
  show ?thesis
    unfolding write_pskt_def kspt_wire_def kspt_body_wire_def kspt_flags_def Let_def append_assoc
      redeem_wire.simps append_Nil2 simp_thms if_True or.left_neutral
    by (intro writes_thenE writes_forE writes_bytes writes_u8 writes_global writes_input
        writes_output writes_binding h)
qed

lemma serialize_pskt_bytes:
  "if length (kspt_wire tx) \<le> length out
   then serialize_pskt tx out =
     (Inr (length (kspt_wire tx)), kspt_wire tx @ drop (length (kspt_wire tx)) out)
   else fst (serialize_pskt tx out) = Inl OutputBufferTooSmall"
  using run_writer_fits [OF writes_pskt, of tx out] run_writer_small [OF writes_pskt, of out tx]
  by (auto simp: serialize_pskt_def)

section \<open>What the parser makes of it\<close>

definition load_spk :: "script_public_key \<Rightarrow> script_public_key \<Rightarrow> script_public_key" where
  "load_spk spk s = s\<lparr>spk_version := spk_version spk, spk_script_len := spk_script_len spk,
     spk_script := blit (script_bytes spk) 0 (spk_script s)\<rparr>"

definition load_input :: "transaction_input \<Rightarrow> transaction_input \<Rightarrow> transaction_input" where
  "load_input i t = t\<lparr>in_outpoint := in_outpoint i,
     in_utxo := (in_utxo t)\<lparr>utxo_amount := utxo_amount (in_utxo i),
        utxo_spk := load_spk (utxo_spk (in_utxo i)) (utxo_spk (in_utxo t))\<rparr>,
     in_sequence := in_sequence i, in_sig_op_count := in_sig_op_count i\<rparr>"

definition load_output :: "transaction_output \<Rightarrow> transaction_output \<Rightarrow> transaction_output" where
  "load_output out t = t\<lparr>out_value := out_value out, out_spk := load_spk (out_spk out) (out_spk t)\<rparr>"

definition load_binding :: "transaction_output \<Rightarrow> transaction_output \<Rightarrow> transaction_output" where
  "load_binding out t =
     (if out_has_covenant out
      then t\<lparr>out_has_covenant := True, out_covenant_auth_input := out_covenant_auth_input out,
             out_covenant_id := out_covenant_id out\<rparr>
      else t\<lparr>out_has_covenant := False\<rparr>)"

definition load_tx_fields :: "transaction \<Rightarrow> transaction \<Rightarrow> transaction" where
  "load_tx_fields tx t = t\<lparr>tx_locktime := tx_locktime tx, tx_subnetwork_id := tx_subnetwork_id tx,
     tx_gas := tx_gas tx, tx_payload_len := tx_payload_len tx,
     tx_payload := blit (take (tx_payload_len tx) (tx_payload tx)) 0 (tx_payload t)\<rparr>"

lemma upd_in_upd_in [simp]: "upd_in i f (upd_in i g t) = upd_in i (f \<circ> g) t"
  by (cases "i < length (tx_inputs t)") (auto simp: upd_in_def list_update_beyond)

lemma upd_out_upd_out [simp]: "upd_out i f (upd_out i g t) = upd_out i (f \<circ> g) t"
  by (cases "i < length (tx_outputs t)") (auto simp: upd_out_def list_update_beyond)

lemma upd_in_spk_comp: "upd_in_spk i f (upd_in_spk i g t) = upd_in_spk i (f \<circ> g) t"
  by (simp add: upd_in_spk_def comp_def)

lemma upd_out_spk_comp: "upd_out_spk i f (upd_out_spk i g t) = upd_out_spk i (f \<circ> g) t"
  by (simp add: upd_out_spk_def comp_def)

lemma script_bytes_length: "wf_spk s \<Longrightarrow> length (script_bytes s) = spk_script_len s"
  by (simp add: wf_spk_def script_bytes_def)

lemma wf_spk_len: "wf_spk s \<Longrightarrow> spk_script_len s < 65536" "wf_spk s \<Longrightarrow> \<not> spk_script_len s > MAX_SCRIPT_SIZE"
  by (auto simp: wf_spk_def size_limits)

lemmas reads_last_upd = reads_bindE [OF _ reads_upd, unfolded append_Nil2]

lemma reads_parse_spk:
  assumes wf: "wf_spk spk"
    and comp: "\<And>f g t. up f (up g t) = up (f \<circ> g) t"
  shows "reads (parse_spk up) (spk_wire spk) t () (up (load_spk spk) t)"
proof -
  have "up (spk_script_update (blit (script_bytes spk) 0))
          (up (spk_script_len_update (\<lambda>_. spk_script_len spk))
            (up (spk_version_update (\<lambda>_. spk_version spk)) t)) = up (load_spk spk) t"
    by (simp add: comp) (rule arg_cong [where f = "\<lambda>f. up f t"], simp add: fun_eq_iff load_spk_def)
  moreover have "reads (parse_spk up) (spk_wire spk) t ()
     (up (spk_script_update (blit (script_bytes spk) 0))
          (up (spk_script_len_update (\<lambda>_. spk_script_len spk))
            (up (spk_version_update (\<lambda>_. spk_version spk)) t)))"
    unfolding parse_spk_def parse_script_def spk_wire_def
    by (intro bind_dec_intros reads_then_fail_if reads_then_upd
        reads_last_upd [OF bytes_codec.reads_dec])
      (use wf in \<open>simp_all add: wf_spk_len script_bytes_length\<close>)
  ultimately show ?thesis by simp
qed

lemma reads_parse_input_base:
  assumes "length (op_transaction_id (in_outpoint i)) = 32" "utxo_amount (in_utxo i) \<le> MAX_SOMPI"
  shows "reads (parse_input_base k)
     (op_transaction_id (in_outpoint i) @ to_le 4 (op_index (in_outpoint i)) @
      to_le 8 (utxo_amount (in_utxo i)) @ to_le 8 (in_sequence i) @ [in_sig_op_count i]) t ()
     (upd_in k (\<lambda>s. s\<lparr>in_outpoint := in_outpoint i,
        in_utxo := (in_utxo s)\<lparr>utxo_amount := utxo_amount (in_utxo i)\<rparr>,
        in_sequence := in_sequence i, in_sig_op_count := in_sig_op_count i\<rparr>) t)"
proof -
  have "upd_in k (in_sig_op_count_update (\<lambda>_. in_sig_op_count i))
         (upd_in k (in_sequence_update (\<lambda>_. in_sequence i))
         (upd_in k (in_utxo_update (utxo_amount_update (\<lambda>_. utxo_amount (in_utxo i))))
         (upd_in k (in_outpoint_update (op_index_update (\<lambda>_. op_index (in_outpoint i))))
         (upd_in k (in_outpoint_update (op_transaction_id_update (\<lambda>_. op_transaction_id (in_outpoint i)))) t)))) =
        upd_in k (\<lambda>s. s\<lparr>in_outpoint := in_outpoint i,
        in_utxo := (in_utxo s)\<lparr>utxo_amount := utxo_amount (in_utxo i)\<rparr>,
        in_sequence := in_sequence i, in_sig_op_count := in_sig_op_count i\<rparr>) t"
    by simp (rule arg_cong [where f = "\<lambda>f. upd_in k f t"], simp add: fun_eq_iff)
  moreover have "reads (parse_input_base k)
     (op_transaction_id (in_outpoint i) @ to_le 4 (op_index (in_outpoint i)) @
      to_le 8 (utxo_amount (in_utxo i)) @ to_le 8 (in_sequence i) @ [in_sig_op_count i]) t ()
        (upd_in k (in_sig_op_count_update (\<lambda>_. in_sig_op_count i))
         (upd_in k (in_sequence_update (\<lambda>_. in_sequence i))
         (upd_in k (in_utxo_update (utxo_amount_update (\<lambda>_. utxo_amount (in_utxo i))))
         (upd_in k (in_outpoint_update (op_index_update (\<lambda>_. op_index (in_outpoint i))))
         (upd_in k (in_outpoint_update (op_transaction_id_update (\<lambda>_. op_transaction_id (in_outpoint i)))) t)))))"
    unfolding parse_input_base_def
    by (intro bind_dec_intros reads_then_fail_if reads_then_upd
        reads_last_upd [OF u8_codec.reads_dec])
      (use assms in simp_all)
  ultimately show ?thesis by simp
qed

lemma upd_in_spk_load: "upd_in_spk k (load_spk s) (upd_in k f t) = upd_in k (in_utxo_update (utxo_spk_update (load_spk s)) \<circ> f) t"
  by (simp add: upd_in_spk_def)

lemma reads_input:
  assumes "wf_input i" "utxo_amount (in_utxo i) \<le> MAX_SOMPI"
  shows "reads (thenE (parse_input_base k) (parse_spk (upd_in_spk k))) (input_wire i) t () (upd_in k (load_input i) t)"
proof -
  have "reads (thenE (parse_input_base k) (parse_spk (upd_in_spk k)))
     ((op_transaction_id (in_outpoint i) @ to_le 4 (op_index (in_outpoint i)) @
      to_le 8 (utxo_amount (in_utxo i)) @ to_le 8 (in_sequence i) @ [in_sig_op_count i]) @ spk_wire (utxo_spk (in_utxo i))) t ()
     (upd_in_spk k (load_spk (utxo_spk (in_utxo i))) (upd_in k (\<lambda>s. s\<lparr>in_outpoint := in_outpoint i,
        in_utxo := (in_utxo s)\<lparr>utxo_amount := utxo_amount (in_utxo i)\<rparr>,
        in_sequence := in_sequence i, in_sig_op_count := in_sig_op_count i\<rparr>) t))"
    using assms by (intro reads_thenE [OF reads_parse_input_base reads_parse_spk] upd_in_spk_comp)
      (simp_all add: wf_input_def)
  moreover have "upd_in_spk k (load_spk (utxo_spk (in_utxo i))) (upd_in k (\<lambda>s. s\<lparr>in_outpoint := in_outpoint i,
        in_utxo := (in_utxo s)\<lparr>utxo_amount := utxo_amount (in_utxo i)\<rparr>,
        in_sequence := in_sequence i, in_sig_op_count := in_sig_op_count i\<rparr>) t) = upd_in k (load_input i) t"
    unfolding upd_in_spk_load by (rule arg_cong [where f = "\<lambda>f. upd_in k f t"]) (simp add: fun_eq_iff load_input_def)
  ultimately show ?thesis by (simp add: input_wire_def)
qed

lemma thenE_assoc: "thenE (thenE a b) c = thenE a (thenE b c)"
  by (auto simp: thenE_def bindE_def fun_eq_iff split: prod.splits sum.splits)

lemma bindE_assoc: "bindE (bindE m f) g = bindE m (\<lambda>x. bindE (f x) g)"
  by (auto simp: bindE_def fun_eq_iff split: prod.splits sum.splits)

lemma act_store_inline:
  "length rs \<le> MAX_SCRIPT_SIZE \<Longrightarrow> act e (store_redeem k rs) = upd (upd_in k (inline_redeem rs))"
  by (auto simp: act_def store_redeem_inline fun_eq_iff)

definition redeem_of :: "(nat \<Rightarrow> bytes) option \<Rightarrow> nat \<Rightarrow> bytes" where
  "redeem_of rs i = (case rs of None \<Rightarrow> [] | Some f \<Rightarrow> f i)"

lemma reads_parse_redeem:
  assumes "length rs \<le> MAX_SCRIPT_SIZE"
  shows "reads (parse_redeem k (length rs)) rs t () (if rs = [] then t else upd_in k (inline_redeem rs) t)"
proof (cases "rs = []")
  case True
  then show ?thesis by (simp add: parse_redeem_def reads_ret)
next
  case False
  have "reads (thenE (fail_if (length rs > MAX_REDEEM_SIZE) ScriptTooLong)
          (bindE (rd (read_bytes (length rs))) (\<lambda>rs. act (\<lambda>_. ScriptTooLong) (store_redeem k rs))))
        (rs @ []) t () (upd_in k (inline_redeem rs) t)"
    using assms
    by (intro reads_then_fail_if bytes_codec.bind_dec)
      (auto simp: size_limits act_store_inline reads_upd)
  with False show ?thesis by (simp add: parse_redeem_def)
qed

text \<open>Loaded into an empty slot, input \<open>k\<close> is this.\<close>

definition loaded_input :: "(nat \<Rightarrow> bytes) option \<Rightarrow> transaction \<Rightarrow> nat \<Rightarrow> transaction_input" where
  "loaded_input rs tx k = inline_redeem (redeem_of rs k) (load_input (tx_inputs tx ! k) input_default)"

lemma load_input_default [simp]:
  "in_redeem_in_pool (load_input i input_default) = False"
  "in_redeem_script_len (load_input i input_default) = 0"
  by (simp_all add: load_input_def input_default_def input_zero_def)

lemma inline_redeem_Nil [simp]: "in_redeem_in_pool t = False \<Longrightarrow> in_redeem_script_len t = 0 \<Longrightarrow> inline_redeem [] t = t"
  by (cases t) (simp add: inline_redeem_def)

lemma inline_redeem_reset [simp]:
  "inline_redeem rs (t\<lparr>in_redeem_script_len := n\<rparr>) = inline_redeem rs t"
  by (simp add: inline_redeem_def)

lemma upd_in_slot:
  assumes "tx_inputs t ! k = d" "f d = g d"
  shows "upd_in k f t = upd_in k g t"
  using assms by (simp add: upd_in_def)

lemma reads_parse_input:
  assumes i: "wf_input (tx_inputs tx ! k)" "utxo_amount (in_utxo (tx_inputs tx ! k)) \<le> MAX_SOMPI"
    and rs: "\<And>f. rs = Some f \<Longrightarrow> length (f k) \<le> 255"
    and slot: "tx_inputs t ! k = input_default" and k: "k < length (tx_inputs t)"
  shows "reads (parse_input (rs \<noteq> None) k) (input_wire (tx_inputs tx ! k) @ redeem_wire rs k) t ()
     (upd_in k (\<lambda>_. loaded_input rs tx k) t)"
proof -
  let ?t = "upd_in k (in_redeem_script_len_update (\<lambda>_. 0)) (upd_in k (load_input (tx_inputs tx ! k)) t)"
  let ?more = "if rs \<noteq> None then bindE (rd read_u8) (\<lambda>rs_len. parse_redeem k (unat rs_len)) else ret ()"
  have res: "(if redeem_of rs k = [] then ?t else upd_in k (inline_redeem (redeem_of rs k)) ?t)
      = upd_in k (\<lambda>_. loaded_input rs tx k) t"
    using slot k by (auto simp: loaded_input_def intro!: upd_in_slot)
  have "reads ?more (redeem_wire rs k) ?t () (upd_in k (\<lambda>_. loaded_input rs tx k) t)"
  proof (cases rs)
    case None
    then show ?thesis using res by (simp add: redeem_of_def reads_ret)
  next
    case (Some f)
    have "unat (of_nat (length (f k)) :: u8) = length (f k)"
      using rs [OF Some] by (simp add: unat_of_nat)
    moreover have "length (f k) \<le> MAX_SCRIPT_SIZE" using rs [OF Some] by (simp add: size_limits)
    ultimately have "reads (bindE (rd read_u8) (\<lambda>rs_len. parse_redeem k (unat rs_len)))
       ([of_nat (length (f k))] @ f k) ?t () (if f k = [] then ?t else upd_in k (inline_redeem (f k)) ?t)"
      using reads_parse_redeem [of "f k" k ?t] by (intro u8_codec.bind_dec) simp_all
    moreover have "redeem_of rs k = f k" by (simp add: Some redeem_of_def)
    ultimately show ?thesis unfolding res [symmetric] by (simp only: Some redeem_wire.simps) simp
  qed
  then have "reads (thenE (thenE (parse_input_base k) (parse_spk (upd_in_spk k)))
      (thenE (upd (upd_in k (in_redeem_script_len_update (\<lambda>_. 0)))) ?more))
     (input_wire (tx_inputs tx ! k) @ redeem_wire rs k) t () (upd_in k (\<lambda>_. loaded_input rs tx k) t)"
    by (rule reads_thenE [OF reads_input [OF i] reads_then_upd])
  then show ?thesis by (simp only: parse_input_def thenE_assoc)
qed

subsection \<open>Outputs\<close>

definition loaded_output :: "transaction \<Rightarrow> nat \<Rightarrow> transaction_output" where
  "loaded_output tx k = load_binding (tx_outputs tx ! k) (load_output (tx_outputs tx ! k) output_default)"

definition output_total :: "transaction \<Rightarrow> nat \<Rightarrow> nat" where
  "output_total tx k = (\<Sum>i\<leftarrow>[0..<k]. unat (out_value (tx_outputs tx ! i)))"

lemma output_total_Suc [simp]:
  "output_total tx (Suc k) = output_total tx k + unat (out_value (tx_outputs tx ! k))"
  by (simp add: output_total_def)

lemma output_total_mono: "k \<le> n \<Longrightarrow> output_total tx k \<le> output_total tx n"
  by (induction rule: dec_induct) auto

lemma unat_MAX_SOMPI [simp]: "unat MAX_SOMPI = 2900000000000000000"
  by (simp add: MAX_SOMPI_def)

lemma reads_parse_value:
  assumes "output_total tx (Suc k) \<le> unat MAX_SOMPI"
  shows "reads (parse_value k (of_nat (output_total tx k))) (to_le 8 (out_value (tx_outputs tx ! k))) t
     (of_nat (output_total tx (Suc k))) (upd_out k (out_value_update (\<lambda>_. out_value (tx_outputs tx ! k))) t)"
proof -
  let ?v = "out_value (tx_outputs tx ! k)" and ?s = "of_nat (output_total tx (Suc k)) :: u64"
  have u: "unat (of_nat (output_total tx k) :: u64) = output_total tx k" "unat ?s = output_total tx (Suc k)"
    using assms by (simp_all add: unat_of_nat del: of_nat_add)
  have add: "checked_add (of_nat (output_total tx k)) ?v = Some ?s"
    unfolding checked_add_eq u by simp
  have le: "?v \<le> MAX_SOMPI" "?s \<le> MAX_SOMPI"
    using assms u by (simp_all add: word_le_nat_alt del: of_nat_add unat_MAX_SOMPI)
  have "reads (parse_value k (of_nat (output_total tx k))) (to_le 8 ?v @ []) t ?s
      (upd_out k (out_value_update (\<lambda>_. ?v)) t)"
    unfolding parse_value_def
  proof (intro u64_codec.bind_dec reads_then_fail_if TrueI)
    show "\<not> MAX_SOMPI < ?v" using le by simp
    show "reads (case checked_add (of_nat (output_total tx k)) ?v of None \<Rightarrow> fail ValueOutOfRange
       | Some t \<Rightarrow> if t \<le> MAX_SOMPI then thenE (upd (upd_out k (out_value_update (\<lambda>_. ?v)))) (ret t)
           else fail ValueOutOfRange) [] t ?s (upd_out k (out_value_update (\<lambda>_. ?v)) t)"
      unfolding add option.case if_P [OF le(2)] by (intro reads_then_upd reads_ret)
  qed
  then show ?thesis by simp
qed

lemma upd_out_slot:
  assumes "tx_outputs t ! k = d" "f d = g d"
  shows "upd_out k f t = upd_out k g t"
  using assms by (simp add: upd_out_def)

lemma reads_parse_binding:
  assumes "length (out_covenant_id out) = 32"
  shows "reads (parse_binding k) (binding_wire out) t () (upd_out k (load_binding out) t)"
proof (cases "out_has_covenant out")
  case True
  have "upd_out k (out_covenant_id_update (\<lambda>_. out_covenant_id out))
      (upd_out k (out_covenant_auth_input_update (\<lambda>_. out_covenant_auth_input out))
      (upd_out k (out_has_covenant_update (\<lambda>_. True)) t)) = upd_out k (load_binding out) t"
    using True by simp (rule arg_cong [where f = "\<lambda>f. upd_out k f t"], simp add: fun_eq_iff load_binding_def)
  moreover have "reads (parse_binding k) (binding_wire out) t ()
      (upd_out k (out_covenant_id_update (\<lambda>_. out_covenant_id out))
      (upd_out k (out_covenant_auth_input_update (\<lambda>_. out_covenant_auth_input out))
      (upd_out k (out_has_covenant_update (\<lambda>_. True)) t)))"
    unfolding parse_binding_def binding_wire_def if_P [OF True]
    by (intro u8_codec.bind_dec [OF TrueI], simp del: upd_out_upd_out)
      (intro bind_dec_intros reads_then_upd reads_last_upd [OF bytes_codec.reads_dec], simp add: assms)
  ultimately show ?thesis by simp
next
  case False
  have "reads (parse_binding k) ([0] @ []) t () (upd_out k (out_has_covenant_update (\<lambda>_. False)) t)"
    unfolding parse_binding_def by (intro u8_codec.bind_dec [OF TrueI]) (simp add: reads_upd)
  moreover have "out_has_covenant_update (\<lambda>_. False) = load_binding out"
    using False by (simp add: fun_eq_iff load_binding_def)
  ultimately show ?thesis using False by (simp add: binding_wire_def)
qed

subsection \<open>The whole body\<close>

definition load_global :: "transaction \<Rightarrow> transaction \<Rightarrow> transaction" where
  "load_global tx t = load_tx_fields tx (t\<lparr>tx_version := tx_version tx,
     tx_num_inputs := tx_num_inputs tx, tx_num_outputs := tx_num_outputs tx\<rparr>)"

definition fill_inputs :: "(nat \<Rightarrow> transaction_input) \<Rightarrow> nat \<Rightarrow> transaction \<Rightarrow> transaction" where
  "fill_inputs f k t = t\<lparr>tx_inputs := map f [0..<k] @ replicate (MAX_INPUTS - k) input_default\<rparr>"

definition fill_outputs :: "(nat \<Rightarrow> transaction_output) \<Rightarrow> nat \<Rightarrow> transaction \<Rightarrow> transaction" where
  "fill_outputs f k t = t\<lparr>tx_outputs := map f [0..<k] @ replicate (MAX_OUTPUTS - k) output_default\<rparr>"

lemma fill_slot: "k < n \<Longrightarrow>
    (map f [0..<k] @ replicate (n - k) d)[k := f k] = map f [0..<Suc k] @ replicate (n - Suc k) d"
  by (simp add: list_update_append Suc_diff_Suc [symmetric] del: upt_Suc)
    (simp add: upt_Suc_append)

lemma fill_inputs_Suc: "k < MAX_INPUTS \<Longrightarrow> upd_in k (\<lambda>_. f k) (fill_inputs f k t) = fill_inputs f (Suc k) t"
  by (simp add: upd_in_def fill_inputs_def fill_slot del: upt_Suc)

lemma fill_outputs_Suc: "k < MAX_OUTPUTS \<Longrightarrow> upd_out k (\<lambda>_. f k) (fill_outputs f k t) = fill_outputs f (Suc k) t"
  by (simp add: upd_out_def fill_outputs_def fill_slot del: upt_Suc)

lemma fill_inputs_slot: "k < MAX_INPUTS \<Longrightarrow>
    tx_inputs (fill_inputs f k t) ! k = input_default \<and> k < length (tx_inputs (fill_inputs f k t))"
  by (simp add: fill_inputs_def nth_append)

lemma fill_outputs_slot: "k < MAX_OUTPUTS \<Longrightarrow> tx_outputs (fill_outputs f k t) ! k = output_default"
  by (simp add: fill_outputs_def nth_append)

definition kspt_ok :: "transaction \<Rightarrow> bool" where
  "kspt_ok tx \<longleftrightarrow> wf_transaction tx \<and> 1 \<le> tx_num_inputs tx \<and> 1 \<le> tx_num_outputs tx \<and>
     list_all (\<lambda>i. utxo_amount (in_utxo (tx_inputs tx ! i)) \<le> MAX_SOMPI) [0..<tx_num_inputs tx] \<and>
     output_total tx (tx_num_outputs tx) \<le> unat MAX_SOMPI"

definition bindings_ok :: "transaction \<Rightarrow> bool" where
  "bindings_ok tx \<longleftrightarrow>
     list_all (\<lambda>i. out_has_covenant (tx_outputs tx ! i) \<longrightarrow>
        unat (out_covenant_auth_input (tx_outputs tx ! i)) < tx_num_inputs tx) [0..<tx_num_outputs tx]"

definition redeems_short :: "(nat \<Rightarrow> bytes) option \<Rightarrow> nat \<Rightarrow> bool" where
  "redeems_short rs n \<longleftrightarrow> (case rs of None \<Rightarrow> True | Some f \<Rightarrow> list_all (\<lambda>i. length (f i) \<le> 255) [0..<n])"

lemma kspt_okD:
  assumes "kspt_ok tx"
  shows "wf_transaction tx" "tx_num_inputs tx \<le> MAX_INPUTS" "tx_num_outputs tx \<le> MAX_OUTPUTS"
    "k < tx_num_inputs tx \<Longrightarrow> wf_input (tx_inputs tx ! k) \<and> utxo_amount (in_utxo (tx_inputs tx ! k)) \<le> MAX_SOMPI"
    "k < tx_num_outputs tx \<Longrightarrow> wf_output (tx_outputs tx ! k) \<and> output_total tx (Suc k) \<le> unat MAX_SOMPI"
proof -
  show wf: "wf_transaction tx" "tx_num_inputs tx \<le> MAX_INPUTS" "tx_num_outputs tx \<le> MAX_OUTPUTS"
    using assms by (auto simp: kspt_ok_def wf_transaction_def)
  show "k < tx_num_inputs tx \<Longrightarrow> wf_input (tx_inputs tx ! k) \<and> utxo_amount (in_utxo (tx_inputs tx ! k)) \<le> MAX_SOMPI"
    using wf wf_transaction_nth [of tx k] assms by (auto simp: kspt_ok_def list_all_iff)
  assume k: "k < tx_num_outputs tx"
  then have "output_total tx (Suc k) \<le> output_total tx (tx_num_outputs tx)"
    by (intro output_total_mono) simp
  then show "wf_output (tx_outputs tx ! k) \<and> output_total tx (Suc k) \<le> unat MAX_SOMPI"
    using wf k wf_transaction_nth_out [of tx k] assms unfolding kspt_ok_def by auto
qed

lemma reads_parse_header:
  assumes "v = FORMAT_VERSION \<or> v = FORMAT_VERSION_V4"
  shows "reads parse_header (PSKT_MAGIC @ [v] @ [flags]) t
     (v = FORMAT_VERSION_V4, flags AND 0x02 \<noteq> 0, flags AND 0x04 \<noteq> 0) t"
proof -
  have "reads parse_header (PSKT_MAGIC @ [v] @ [flags] @ []) t
     (v = FORMAT_VERSION_V4, flags AND 0x02 \<noteq> 0, flags AND 0x04 \<noteq> 0) t"
    unfolding parse_header_def
    by (intro bytes_codec.bind_dec u8_codec.bind_dec reads_then_fail_if reads_ret TrueI)
      (use assms in \<open>auto simp: PSKT_MAGIC_def\<close>)
  then show ?thesis by simp
qed

lemma reads_parse_tx_fields:
  assumes "wf_transaction tx"
  shows "reads parse_tx_fields (tx_fields_wire tx) t () (load_tx_fields tx t)"
proof -
  let ?n = "tx_payload_len tx"
  let ?t = "t\<lparr>tx_locktime := tx_locktime tx, tx_subnetwork_id := tx_subnetwork_id tx,
     tx_gas := tx_gas tx, tx_payload_len := ?n\<rparr>"
  have wf: "?n \<le> MAX_PAYLOAD_SIZE" "length (tx_payload tx) = MAX_PAYLOAD_SIZE" "length (tx_subnetwork_id tx) = 20"
    using assms by (simp_all add: wf_transaction_def)
  then have u: "unat (of_nat ?n :: u16) = ?n" by (simp add: unat_of_nat size_limits)
  have "reads (if 0 < ?n then bindE (rd (read_bytes ?n)) (\<lambda>pb. upd (tx_payload_update (blit pb 0))) else ret ())
     (take ?n (tx_payload tx)) ?t () (load_tx_fields tx t)"
  proof (cases "?n = 0")
    case True
    then show ?thesis by (simp add: load_tx_fields_def reads_ret)
  next
    case False
    have "reads (bindE (rd (read_bytes ?n)) (\<lambda>pb. upd (tx_payload_update (blit pb 0))))
       (take ?n (tx_payload tx)) ?t () (tx_payload_update (blit (take ?n (tx_payload tx)) 0) ?t)"
      by (intro reads_last_upd [OF bytes_codec.reads_dec]) (use wf in simp)
    moreover have "tx_payload_update (blit (take ?n (tx_payload tx)) 0) ?t = load_tx_fields tx t"
      by (cases t) (simp add: load_tx_fields_def)
    ultimately show ?thesis using False by simp
  qed
  then show ?thesis
    unfolding parse_tx_fields_def tx_fields_wire_def Let_def
    using wf by (intro bind_dec_intros reads_then_upd reads_then_fail_if, unfold u) (assumption | simp add: u)+
qed

lemma reads_parse_global:
  assumes "kspt_ok tx"
  shows "reads parse_global (global_wire tx) t (tx_num_inputs tx, tx_num_outputs tx) (load_global tx t)"
proof -
  have n: "1 \<le> tx_num_inputs tx" "tx_num_inputs tx \<le> MAX_INPUTS" "1 \<le> tx_num_outputs tx" "tx_num_outputs tx \<le> MAX_OUTPUTS"
    and wf: "wf_transaction tx"
    using assms by (auto simp: kspt_ok_def wf_transaction_def)
  then have u: "unat (of_nat (tx_num_inputs tx) :: u8) = tx_num_inputs tx"
      "unat (of_nat (tx_num_outputs tx) :: u8) = tx_num_outputs tx"
    by (simp_all add: unat_of_nat size_limits)
  have "reads parse_global (to_le 2 (tx_version tx) @ [of_nat (tx_num_inputs tx)] @
      [of_nat (tx_num_outputs tx)] @ (tx_fields_wire tx @ [])) t (tx_num_inputs tx, tx_num_outputs tx)
      (load_tx_fields tx (tx_num_outputs_update (\<lambda>_. tx_num_outputs tx)
        (tx_num_inputs_update (\<lambda>_. tx_num_inputs tx) (tx_version_update (\<lambda>_. tx_version tx) t))))"
    unfolding parse_global_def Let_def
    by (intro u8_codec.bind_dec u16_codec.bind_dec reads_then_upd reads_then_fail_if TrueI, unfold u)
      (use n in \<open>auto simp del: append_Nil2 intro!: reads_then_upd reads_thenE [OF reads_parse_tx_fields [OF wf]] reads_ret\<close>)
  then show ?thesis by (simp add: global_wire_def load_global_def)
qed

lemma reads_parse_output:
  assumes ok: "kspt_ok tx" and k: "k < tx_num_outputs tx" and slot: "tx_outputs t ! k = output_default"
  shows "reads (parse_output (has_covenant_data tx) k (of_nat (output_total tx k)))
     (output_wire (tx_outputs tx ! k) @ (if has_covenant_data tx then binding_wire (tx_outputs tx ! k) else []))
     t (of_nat (output_total tx (Suc k))) (upd_out k (\<lambda>_. loaded_output tx k) t)"
proof -
  let ?out = "tx_outputs tx ! k"
  have wf: "wf_spk (out_spk ?out)" "length (out_covenant_id ?out) = 32"
    and total: "output_total tx (Suc k) \<le> unat MAX_SOMPI"
    using kspt_okD(5) [OF ok k] by (auto simp: wf_output_def)
  let ?t = "upd_out_spk k (load_spk (out_spk ?out)) (upd_out k (out_value_update (\<lambda>_. out_value ?out)) t)"
  have t: "?t = upd_out k (load_output ?out) t"
    by (simp add: upd_out_spk_def, rule arg_cong [where f = "\<lambda>f. upd_out k f t"])
      (simp add: fun_eq_iff load_output_def)
  have bind: "reads (if has_covenant_data tx then parse_binding k else ret ())
      (if has_covenant_data tx then binding_wire ?out else []) ?t () (upd_out k (\<lambda>_. loaded_output tx k) t)"
  proof (cases "has_covenant_data tx")
    case True
    have "upd_out k (load_binding ?out) ?t = upd_out k (\<lambda>_. loaded_output tx k) t"
      unfolding t using slot by (auto simp: loaded_output_def intro!: upd_out_slot)
    with True reads_parse_binding [OF wf(2), of k ?t] show ?thesis by (simp only: if_True)
  next
    case False
    then have "\<not> out_has_covenant ?out"
      using k by (auto simp: has_covenant_data_def list_ex_iff)
    then have "?t = upd_out k (\<lambda>_. loaded_output tx k) t"
      unfolding t using slot
      by (auto simp: loaded_output_def load_binding_def load_output_def output_default_def intro!: upd_out_slot)
    with False show ?thesis by (simp only: if_False reads_ret)
  qed
  have "reads (parse_output (has_covenant_data tx) k (of_nat (output_total tx k)))
     (to_le 8 (out_value ?out) @ spk_wire (out_spk ?out) @
        (if has_covenant_data tx then binding_wire ?out else []) @ [])
     t (of_nat (output_total tx (Suc k))) (upd_out k (\<lambda>_. loaded_output tx k) t)"
    unfolding parse_output_def
    by (rule reads_bindE [OF reads_parse_value [OF total]],
        rule reads_thenE [OF reads_parse_spk [OF wf(1) upd_out_spk_comp]],
        rule reads_thenE [OF bind reads_ret])
  then show ?thesis by (simp add: output_wire_def)
qed

lemma reads_check_bindings:
  assumes "\<And>i. i < no \<Longrightarrow> out_has_covenant (tx_outputs t ! i) \<Longrightarrow>
      unat (out_covenant_auth_input (tx_outputs t ! i)) < ni"
  shows "reads (check_bindings ni no) [] t () t"
proof -
  have "reads (check_bindings ni no) (concat (map (\<lambda>_. []) [0..<no])) t () t"
    unfolding check_bindings_def
    using assms by (intro reads_forE [where st = "\<lambda>_. t"] reads_bind_get)
      (auto simp: fail_if_def not_less intro!: reads_ret dest: leD)
  then show ?thesis by (simp add: concat_eq_Nil_conv [THEN iffD2])
qed

definition kspt_mid :: "(nat \<Rightarrow> bytes) option \<Rightarrow> transaction \<Rightarrow> transaction" where
  "kspt_mid rs tx =
     fill_outputs (loaded_output tx) (tx_num_outputs tx)
       (fill_inputs (loaded_input rs tx) (tx_num_inputs tx) (load_global tx transaction_new))"

lemma load_global_fields [simp]:
  "tx_inputs (load_global tx t) = tx_inputs t" "tx_outputs (load_global tx t) = tx_outputs t"
  "tx_num_inputs (load_global tx t) = tx_num_inputs tx" "tx_num_outputs (load_global tx t) = tx_num_outputs tx"
  by (simp_all add: load_global_def load_tx_fields_def)

lemma fill_0:
  "tx_inputs t = replicate MAX_INPUTS input_default \<Longrightarrow> fill_inputs f 0 t = t"
  "tx_outputs t = replicate MAX_OUTPUTS output_default \<Longrightarrow> fill_outputs g 0 t = t"
  by (simp_all add: fill_inputs_def fill_outputs_def)

lemma reads_front:
  assumes ok: "kspt_ok tx" and cov: "bindings_ok tx" and short: "redeems_short rs (tx_num_inputs tx)"
    and v: "v = FORMAT_VERSION \<or> v = FORMAT_VERSION_V4"
  shows "reads parse_pskt_front (kspt_body_wire v rs tx) transaction_new
     (v = FORMAT_VERSION_V4, tx_num_inputs tx, tx_num_outputs tx) (kspt_mid rs tx)"
proof -
  let ?ni = "tx_num_inputs tx" and ?no = "tx_num_outputs tx"
  let ?t0 = "load_global tx transaction_new"
  let ?in = "\<lambda>k. fill_inputs (loaded_input rs tx) k ?t0"
  let ?out = "\<lambda>k. fill_outputs (loaded_output tx) k (?in ?ni)"
  have flags: "(kspt_flags rs tx AND 0x02 \<noteq> 0) = (rs \<noteq> None)" "(kspt_flags rs tx AND 0x04 \<noteq> 0) = has_covenant_data tx"
    by (auto simp: kspt_flags_def)
  have "reads (parse_input (rs \<noteq> None) k) (input_wire (tx_inputs tx ! k) @ redeem_wire rs k) (?in k) () (?in (Suc k))"
    if "k < ?ni" for k
  proof -
    have k: "k < MAX_INPUTS" using that kspt_okD(2) [OF ok] by simp
    have "length (f k) \<le> 255" if "rs = Some f" for f
      using short \<open>k < ?ni\<close> that by (auto simp: redeems_short_def list_all_iff)
    then show ?thesis
      using kspt_okD(4) [OF ok that] fill_inputs_slot [OF k, of "loaded_input rs tx" ?t0]
      unfolding fill_inputs_Suc [OF k, symmetric] by (intro reads_parse_input) auto
  qed
  then have ins: "reads (forE [0..<?ni] (parse_input (rs \<noteq> None)))
      (concat (map (\<lambda>i. input_wire (tx_inputs tx ! i) @ redeem_wire rs i) [0..<?ni])) (?in 0) () (?in ?ni)"
    by (intro reads_forE) auto
  have "reads (parse_output (has_covenant_data tx) k (of_nat (output_total tx k)))
      (output_wire (tx_outputs tx ! k) @ (if has_covenant_data tx then binding_wire (tx_outputs tx ! k) else []))
      (?out k) (of_nat (output_total tx (Suc k))) (?out (Suc k))" if "k < ?no" for k
  proof -
    have k: "k < MAX_OUTPUTS" using that kspt_okD(3) [OF ok] by simp
    show ?thesis
      using reads_parse_output [OF ok that fill_outputs_slot [OF k]]
      by (simp only: fill_outputs_Suc [OF k, symmetric])
  qed
  then have outs: "reads (foldE [0..<?no] (parse_output (has_covenant_data tx)) (of_nat (output_total tx 0)))
      (concat (map (\<lambda>i. output_wire (tx_outputs tx ! i) @
         (if has_covenant_data tx then binding_wire (tx_outputs tx ! i) else [])) [0..<?no]))
      (?out 0) (of_nat (output_total tx ?no)) (?out ?no)"
    by (intro reads_foldE [where ac = "\<lambda>k. of_nat (output_total tx k)"]) auto
  have start: "?in 0 = ?t0" "?out 0 = ?in ?ni" "output_total tx 0 = 0"
    by (simp_all add: fill_0 transaction_new_def fill_inputs_def output_total_def)
  have ins': "reads (forE [0..<?ni] (parse_input (rs \<noteq> None)))
      (concat (map (\<lambda>i. input_wire (tx_inputs tx ! i) @ redeem_wire rs i) [0..<?ni])) ?t0 () (?in ?ni)"
    using ins unfolding start(1) .
  have outs': "reads (foldE [0..<?no] (parse_output (has_covenant_data tx)) 0)
      (concat (map (\<lambda>i. output_wire (tx_outputs tx ! i) @
         (if has_covenant_data tx then binding_wire (tx_outputs tx ! i) else [])) [0..<?no]))
      (?in ?ni) (of_nat (output_total tx ?no)) (?out ?no)"
    using outs unfolding start(2,3) by (simp only: semiring_1_class.of_nat_0)
  have chk: "reads (check_bindings ?ni ?no) [] (?out ?no) () (?out ?no)"
  proof (rule reads_check_bindings)
    fix i assume i: "i < ?no"
    then have "tx_outputs (?out ?no) ! i = loaded_output tx i"
      by (simp add: fill_outputs_def nth_append)
    moreover assume "out_has_covenant (tx_outputs (?out ?no) ! i)"
    ultimately show "unat (out_covenant_auth_input (tx_outputs (?out ?no) ! i)) < ?ni"
      using cov i by (auto simp: loaded_output_def load_binding_def load_output_def output_default_def
          bindings_ok_def list_all_iff split: if_splits)
  qed
  have "reads parse_pskt_front ((PSKT_MAGIC @ [v] @ [kspt_flags rs tx]) @ global_wire tx @
      concat (map (\<lambda>i. input_wire (tx_inputs tx ! i) @ redeem_wire rs i) [0..<?ni]) @
      concat (map (\<lambda>i. output_wire (tx_outputs tx ! i) @
         (if has_covenant_data tx then binding_wire (tx_outputs tx ! i) else [])) [0..<?no]) @ [] @ [])
      transaction_new (v = FORMAT_VERSION_V4, ?ni, ?no) (kspt_mid rs tx)"
    unfolding parse_pskt_front_def kspt_mid_def
    by (rule reads_bindE [OF reads_parse_header [OF v]], unfold prod.case flags,
        rule reads_bindE [OF reads_parse_global [OF ok]], unfold prod.case,
        rule reads_thenE [OF ins'], rule reads_bindE [OF outs'], rule reads_thenE [OF chk reads_ret])
  then show ?thesis by (simp add: kspt_body_wire_def)
qed

subsection \<open>Hint records\<close>

type_synonym hint_record = "u8 \<times> nat \<times> ms45_hint"

fun put_hint :: "hint_record \<Rightarrow> transaction \<Rightarrow> transaction" where
  "put_hint (marker, i, h) =
     (if marker = TRAILER_MS45_IN then upd_in i (in_ms45_hint_update (\<lambda>_. h))
      else upd_out i (out_ms45_hint_update (\<lambda>_. h)))"

definition hint_at :: "u8 \<Rightarrow> nat \<Rightarrow> transaction \<Rightarrow> ms45_hint" where
  "hint_at marker i t =
     (if marker = TRAILER_MS45_IN then in_ms45_hint (tx_inputs t ! i)
      else out_ms45_hint (tx_outputs t ! i))"

fun hint_ok :: "nat \<Rightarrow> nat \<Rightarrow> hint_record \<Rightarrow> bool" where
  "hint_ok ni no (marker, i, h) \<longleftrightarrow> hint_present h \<and>
     (marker = TRAILER_MS45_IN \<and> i < ni \<or> marker = TRAILER_MS45_OUT \<and> i < no)"

fun hint_key :: "hint_record \<Rightarrow> u8 \<times> nat" where
  "hint_key (marker, i, h) = (marker, i)"

definition hints_ok :: "nat \<Rightarrow> nat \<Rightarrow> hint_record list \<Rightarrow> bool" where
  "hints_ok ni no hs \<longleftrightarrow> list_all (hint_ok ni no) hs \<and> distinct (map hint_key hs)"

definition room :: "nat \<Rightarrow> nat \<Rightarrow> transaction \<Rightarrow> bool" where
  "room ni no t \<longleftrightarrow> ni \<le> length (tx_inputs t) \<and> no \<le> length (tx_outputs t)"

lemma marker_neq [simp]: "TRAILER_MS45_IN \<noteq> TRAILER_MS45_OUT" "TRAILER_MS45_OUT \<noteq> TRAILER_MS45_IN"
  by (simp_all add: kspt_consts)

lemma room_put_hint [simp]: "room ni no (put_hint rec t) = room ni no t"
  by (cases rec) (simp add: room_def upd_out_def upd_in_def)

lemma hint_at_put:
  assumes "hint_ok ni no (m, i, h)" "room ni no t" "m' \<in> {TRAILER_MS45_IN, TRAILER_MS45_OUT}"
  shows "hint_at m' j (put_hint (m, i, h) t) = (if (m', j) = (m, i) then h else hint_at m' j t)"
  using assms by (auto simp: hint_at_def room_def upd_in_def upd_out_def nth_list_update)

lemma hint_at_fold:
  assumes "m \<in> {TRAILER_MS45_IN, TRAILER_MS45_OUT}" "hints_ok ni no hs" "room ni no t"
  shows "((m, i, h) \<in> set hs \<longrightarrow> hint_at m i (fold put_hint hs t) = h) \<and>
    ((m, i) \<notin> hint_key ` set hs \<longrightarrow> hint_at m i (fold put_hint hs t) = hint_at m i t)"
  using assms(2,3)
proof (induction hs arbitrary: t)
  case Nil
  then show ?case by simp
next
  case (Cons rec hs)
  obtain m' i' h' where rec: "rec = (m', i', h')" by (cases rec)
  have ok: "hint_ok ni no (m', i', h')" "hints_ok ni no hs"
    and fresh: "(m', i') \<notin> hint_key ` set hs"
    using Cons.prems(1) rec by (auto simp: hints_ok_def)
  have put: "hint_at m i (put_hint rec t) = (if (m, i) = (m', i') then h' else hint_at m i t)"
    unfolding rec by (rule hint_at_put [OF ok(1) Cons.prems(2) assms(1)])
  have IH: "((m, i, h) \<in> set hs \<longrightarrow> hint_at m i (fold put_hint hs (put_hint rec t)) = h) \<and>
    ((m, i) \<notin> hint_key ` set hs \<longrightarrow> hint_at m i (fold put_hint hs (put_hint rec t)) = hint_at m i (put_hint rec t))"
    using ok(2) Cons.prems(2) by (intro Cons.IH) simp_all
  show ?case
    using IH put fresh rec by (auto simp del: put_hint.simps)
qed

lemma reads_hint_body:
  assumes ok: "hint_ok ni no (m, i, h)" and free: "\<not> hint_present (hint_at m i t)"
    and n: "ni \<le> 255" "no \<le> 255"
  shows "reads (parse_hint_body ni no m)
     ([of_nat i] @ to_le 4 (hint_cosigner h) @ to_le 4 (hint_chain h) @ to_le 4 (hint_index h)) t ()
     (put_hint (m, i, h) t)"
proof -
  have i: "unat (of_nat i :: u8) = i" using ok n by (auto simp: unat_of_nat)
  have h: "\<lparr>hint_present = True, hint_cosigner = hint_cosigner h, hint_chain = hint_chain h,
      hint_index = hint_index h\<rparr> = h"
    using ok by (cases h) auto
  have "reads (apply_hint ni no m i h) [] t () (put_hint (m, i, h) t)"
    using ok free
    by (auto simp: apply_hint_def hint_at_def intro!: reads_then_fail_if reads_bind_get reads_upd)
  then have "reads (parse_hint_body ni no m)
     ([of_nat i] @ to_le 4 (hint_cosigner h) @ to_le 4 (hint_chain h) @ to_le 4 (hint_index h) @ []) t ()
     (put_hint (m, i, h) t)"
    unfolding parse_hint_body_def
    by (intro u8_codec.bind_dec u32_codec.bind_dec TrueI) (simp only: i h)
  then show ?thesis by simp
qed

lemma length_hint_wire [simp]: "length (hint_wire m i h) = 14"
  by (simp add: hint_wire_def)

lemma parse_hint_record_reads:
  assumes "hint_ok ni no (m, i, h)" "\<not> hint_present (hint_at m i t)" "ni \<le> 255" "no \<le> 255"
    and u: "unread r = hint_wire m i h @ rest"
  shows "parse_hint_record ni no (r, t) = (Inr (), (advance 14 r, put_hint (m, i, h) t))"
proof -
  let ?body = "[of_nat i] @ to_le 4 (hint_cosigner h) @ to_le 4 (hint_chain h) @ to_le 4 (hint_index h)"
  have u': "unread (advance 1 r) = ?body @ rest" and first: "rd read_u8 (r, t) = (Inr m, (advance 1 r, t))"
    using u by (simp_all add: hint_wire_def rd_apply read_u8_unread)
  have m: "m = TRAILER_MS45_IN \<or> m = TRAILER_MS45_OUT" using assms(1) by auto
  have "\<not> reader_remaining (advance 1 r) < MS45_HINT_BODY"
    using arg_cong [OF u', of length] by (simp add: MS45_HINT_BODY_def)
  moreover have "parse_hint_body ni no m (advance 1 r, t) =
      (Inr (), (advance 13 (advance 1 r), put_hint (m, i, h) t))"
    using reads_full [OF reads_hint_body [OF assms(1-4)] u'] by simp
  ultimately show ?thesis
    using m first by (simp add: parse_hint_record_def bindE_def thenE_def ret_def)
qed

lemma unread_Nil: "reader_remaining r = 0 \<longleftrightarrow> unread r = []"
  by (simp add: reader_remaining_def unread_def)

lemma reader_remaining_new [simp]: "reader_remaining (reader_new data) = length data"
  by (simp add: reader_remaining_def reader_new_def)

lemma parse_hints_records:
  assumes "hints_ok ni no hs" "room ni no t" "ni \<le> 255" "no \<le> 255"
    and "\<forall>(m, i, h) \<in> set hs. \<not> hint_present (hint_at m i t)"
    and "unread r = hints_wire hs"
  shows "parse_hints ni no (r, t) = (Inr (), (advance (length (hints_wire hs)) r, fold put_hint hs t))"
  using assms(1,2,5,6)
proof (induction hs arbitrary: r t)
  case Nil
  then show ?case by (simp add: parse_hints.simps hints_wire_def unread_Nil)
next
  case (Cons rec hs)
  obtain m i h where rec: "rec = (m, i, h)" by (cases rec)
  have ok: "hint_ok ni no (m, i, h)" "hints_ok ni no hs" and fresh: "(m, i) \<notin> hint_key ` set hs"
    using Cons.prems(1) rec by (auto simp: hints_ok_def)
  have u: "unread r = hint_wire m i h @ hints_wire hs"
    using Cons.prems(4) rec by (simp add: hints_wire_def)
  have free: "\<not> hint_present (hint_at m i t)" using Cons.prems(3) rec by auto
  have one: "parse_hint_record ni no (r, t) = (Inr (), (advance 14 r, put_hint (m, i, h) t))"
    using ok(1) free assms(3,4) u by (rule parse_hint_record_reads)
  have "\<not> hint_present (hint_at m' i' (put_hint (m, i, h) t))" if "(m', i', h') \<in> set hs" for m' i' h'
  proof -
    have "hint_ok ni no (m', i', h')" using ok(2) that by (auto simp: hints_ok_def list_all_iff)
    then have "m' \<in> {TRAILER_MS45_IN, TRAILER_MS45_OUT}" by auto
    moreover have "(m', i') \<noteq> (m, i)" using fresh that by force
    ultimately show ?thesis
      using hint_at_put [OF ok(1) Cons.prems(2), of m' i'] Cons.prems(3) that by auto
  qed
  moreover have "unread (advance 14 r) = hints_wire hs" using u by simp
  ultimately have "parse_hints ni no (advance 14 r, put_hint (m, i, h) t) =
      (Inr (), (advance (length (hints_wire hs)) (advance 14 r), fold put_hint hs (put_hint (m, i, h) t)))"
    using ok(2) Cons.prems(2) by (intro Cons.IH) (auto simp del: put_hint.simps)
  moreover have "reader_remaining r \<noteq> 0" using arg_cong [OF u, of length] by simp
  ultimately show ?case
    by (subst parse_hints.simps) (simp add: one rec hints_wire_def del: put_hint.simps)
qed

section \<open>Round trip\<close>

lemma kspt_mid_facts:
  assumes "tx_num_inputs tx \<le> MAX_INPUTS" "tx_num_outputs tx \<le> MAX_OUTPUTS"
  shows "room (tx_num_inputs tx) (tx_num_outputs tx) (kspt_mid rs tx)"
    "hint_ok (tx_num_inputs tx) (tx_num_outputs tx) (m, i, h) \<Longrightarrow> hint_at m i (kspt_mid rs tx) = ms45_hint_none"
proof -
  show "room (tx_num_inputs tx) (tx_num_outputs tx) (kspt_mid rs tx)"
    using assms by (simp add: room_def kspt_mid_def fill_inputs_def fill_outputs_def)
  show "hint_at m i (kspt_mid rs tx) = ms45_hint_none" if "hint_ok (tx_num_inputs tx) (tx_num_outputs tx) (m, i, h)"
    using that
    by (auto simp: hint_at_def kspt_mid_def fill_inputs_def fill_outputs_def nth_append loaded_input_def
        loaded_output_def load_binding_def load_output_def load_input_def inline_redeem_def
        input_default_def input_zero_def output_default_def)
qed

lemma tx_clear_new [simp]: "tx_clear t = transaction_new"
  by (simp add: tx_clear_def)

lemma bindE_reads: "reads m bs t x t' \<Longrightarrow> unread r = bs @ rest \<Longrightarrow> bindE m f (r, t) = f x (advance (length bs) r, t')"
  by (simp add: bindE_def reads_full)

lemma parse_pskt_wire:
  assumes ok: "kspt_ok tx" and cov: "bindings_ok tx" and short: "redeems_short rs (tx_num_inputs tx)"
    and v: "v = FORMAT_VERSION_V4 \<or> v = FORMAT_VERSION \<and> hs = []"
    and hs: "hints_ok (tx_num_inputs tx) (tx_num_outputs tx) hs"
  shows "parse_pskt (kspt_body_wire v rs tx @ hints_wire hs) t0 = (Inr (), fold put_hint hs (kspt_mid rs tx))"
proof -
  let ?ni = "tx_num_inputs tx" and ?no = "tx_num_outputs tx"
  let ?r = "reader_new (kspt_body_wire v rs tx @ hints_wire hs)"
  let ?r' = "advance (length (kspt_body_wire v rs tx)) ?r"
  have n: "?ni \<le> MAX_INPUTS" "?no \<le> MAX_OUTPUTS" using kspt_okD [OF ok] by simp_all
  have v': "v = FORMAT_VERSION \<or> v = FORMAT_VERSION_V4" using v by blast
  have u: "unread ?r' = hints_wire hs" by simp
  have front: "parse_pskt_body (?r, transaction_new) =
      parse_pskt_tail (v = FORMAT_VERSION_V4, ?ni, ?no) (?r', kspt_mid rs tx)"
    unfolding parse_pskt_body_def by (rule bindE_reads [OF reads_front [OF ok cov short v']]) simp
  have end': "reader_remaining (advance (length (hints_wire hs)) ?r') = 0"
    by simp
  have "(if v = FORMAT_VERSION_V4 then parse_hints ?ni ?no else ret ()) (?r', kspt_mid rs tx) =
      (Inr (), (advance (length (hints_wire hs)) ?r', fold put_hint hs (kspt_mid rs tx)))"
  proof (cases "v = FORMAT_VERSION_V4")
    case True
    have "\<forall>(m, i, h) \<in> set hs. \<not> hint_present (hint_at m i (kspt_mid rs tx))"
      using hs kspt_mid_facts(2) [OF n] by (auto simp: hints_ok_def list_all_iff ms45_hint_none_def simp del: hint_ok.simps)
    then have "parse_hints ?ni ?no (?r', kspt_mid rs tx) =
      (Inr (), (advance (length (hints_wire hs)) ?r', fold put_hint hs (kspt_mid rs tx)))"
      using n u by (intro parse_hints_records hs kspt_mid_facts(1)) (auto simp: size_limits)
    with True show ?thesis by simp
  next
    case False
    with v show ?thesis by (simp add: hints_wire_def ret_def)
  qed
  then have "parse_pskt_body (?r, transaction_new) =
      (Inr (), (advance (length (hints_wire hs)) ?r', fold put_hint hs (kspt_mid rs tx)))"
    using end' unfolding front parse_pskt_tail_def prod.case
    by (simp add: thenE_def bindE_def ret_def del: unread_advance advance_advance reader_remaining_advance)
  then show ?thesis by (simp add: parse_pskt_def)
qed

subsection \<open>What a transaction says, apart from signatures and array padding\<close>

record tx_view =
  view_globals :: "u16 \<times> u64 \<times> bytes \<times> u64 \<times> bytes"
  view_inputs :: "(outpoint \<times> u64 \<times> u64 \<times> u8 \<times> u16 \<times> bytes) list"
  view_outputs :: "(u64 \<times> u16 \<times> bytes \<times> (u16 \<times> bytes) option) list"

definition input_view :: "transaction_input \<Rightarrow> outpoint \<times> u64 \<times> u64 \<times> u8 \<times> u16 \<times> bytes" where
  "input_view i = (in_outpoint i, utxo_amount (in_utxo i), in_sequence i, in_sig_op_count i,
     spk_version (utxo_spk (in_utxo i)), script_bytes (utxo_spk (in_utxo i)))"

definition output_view :: "transaction_output \<Rightarrow> u64 \<times> u16 \<times> bytes \<times> (u16 \<times> bytes) option" where
  "output_view out = (out_value out, spk_version (out_spk out), script_bytes (out_spk out),
     if out_has_covenant out then Some (out_covenant_auth_input out, out_covenant_id out) else None)"

definition view :: "transaction \<Rightarrow> tx_view" where
  "view tx =
     \<lparr>view_globals = (tx_version tx, tx_locktime tx, tx_subnetwork_id tx, tx_gas tx,
        take (tx_payload_len tx) (tx_payload tx)),
      view_inputs = map input_view (inputs tx), view_outputs = map output_view (outputs tx)\<rparr>"

lemma view_put_hint: "view (put_hint rec t) = view t"
proof -
  have keep: "map f (take n (xs[i := g (xs ! i)])) = map f (take n xs)" if "\<And>x. f (g x) = f x"
    for f :: "'c \<Rightarrow> 'd" and g xs n i
  proof -
    have "map f (xs[i := g (xs ! i)]) = map f xs"
      by (cases "i < length xs"; intro nth_equalityI) (auto simp: nth_list_update that list_update_beyond)
    then show ?thesis by (metis take_map)
  qed
  have "input_view (in_ms45_hint_update (\<lambda>_. h) x) = input_view x"
    "output_view (out_ms45_hint_update (\<lambda>_. h) y) = output_view y" for h x y
    by (simp_all add: input_view_def output_view_def)
  then show ?thesis
    by (cases rec) (auto simp: view_def inputs_def outputs_def upd_in_def upd_out_def intro!: keep)
qed

lemma view_fold_put_hint: "view (fold put_hint hs t) = view t"
  by (induction hs arbitrary: t) (simp_all add: view_put_hint del: put_hint.simps)

lemma script_bytes_load [simp]:
  "wf_spk s \<Longrightarrow> script_bytes (load_spk s t) = script_bytes s"
  "spk_version (load_spk s t) = spk_version s"
  using take_blit_0 [of "script_bytes s" "spk_script t"]
  by (simp_all add: load_spk_def script_bytes_def wf_spk_def)

lemma inputs_nth: "tx_num_inputs tx \<le> length (tx_inputs tx) \<Longrightarrow> inputs tx = map (\<lambda>i. tx_inputs tx ! i) [0..<tx_num_inputs tx]"
  by (simp add: inputs_def list_eq_iff_nth_eq)

lemma outputs_nth: "tx_num_outputs tx \<le> length (tx_outputs tx) \<Longrightarrow> outputs tx = map (\<lambda>i. tx_outputs tx ! i) [0..<tx_num_outputs tx]"
  by (simp add: outputs_def list_eq_iff_nth_eq)

lemma view_kspt_mid:
  assumes ok: "kspt_ok tx"
  shows "view (kspt_mid rs tx) = view tx"
proof -
  have wf: "wf_transaction tx" and n: "tx_num_inputs tx \<le> MAX_INPUTS" "tx_num_outputs tx \<le> MAX_OUTPUTS"
    using kspt_okD [OF ok] by simp_all
  have l: "length (tx_inputs tx) = MAX_INPUTS" "length (tx_outputs tx) = MAX_OUTPUTS"
    "tx_payload_len tx \<le> length (tx_payload tx)"
    using wf by (simp_all add: wf_transaction_def)
  have "input_view (loaded_input rs tx i) = input_view (tx_inputs tx ! i)" if "i < tx_num_inputs tx" for i
    using kspt_okD(4) [OF ok that]
    by (simp add: input_view_def loaded_input_def inline_redeem_def load_input_def wf_input_def)
  moreover have "output_view (loaded_output tx i) = output_view (tx_outputs tx ! i)" if "i < tx_num_outputs tx" for i
    using kspt_okD(5) [OF ok that]
    by (auto simp: output_view_def loaded_output_def load_binding_def load_output_def wf_output_def)
  moreover have "take (tx_payload_len tx) (blit (take (tx_payload_len tx) (tx_payload tx)) 0 ys) =
      take (tx_payload_len tx) (tx_payload tx)" for ys
    using take_blit_0 [of "take (tx_payload_len tx) (tx_payload tx)" ys] l by simp
  ultimately show ?thesis
    using n l unfolding inputs_nth [OF n(1) [folded l(1)]] outputs_nth [OF n(2) [folded l(2)]] view_def
    by (simp add: kspt_mid_def fill_inputs_def fill_outputs_def inputs_def outputs_def load_global_def
        load_tx_fields_def)
qed

lemma hint_records_ok:
  assumes "tx_num_inputs tx \<le> MAX_INPUTS" "tx_num_outputs tx \<le> MAX_OUTPUTS"
  shows "hints_ok (tx_num_inputs tx) (tx_num_outputs tx) (hint_records tx)"
proof -
  have keys: "map hint_key (concat (map (\<lambda>i. if P i then [(m, i, f i)] else []) is)) = map (Pair m) (filter P is)"
    for P m f "is" by (induction "is") auto
  have "list_all (hint_ok (tx_num_inputs tx) (tx_num_outputs tx)) (hint_records tx)"
    by (auto simp: hint_records_def list_all_iff)
  moreover have "distinct (map hint_key (hint_records tx))"
    by (auto simp: hint_records_def keys distinct_map inj_on_def)
  ultimately show ?thesis by (simp add: hints_ok_def)
qed

lemma hint_records_cong:
  assumes "tx_num_inputs t = tx_num_inputs tx" "tx_num_outputs t = tx_num_outputs tx"
    and "\<And>i. i < tx_num_inputs tx \<Longrightarrow> hint_at TRAILER_MS45_IN i t = hint_at TRAILER_MS45_IN i tx \<or>
       \<not> hint_present (hint_at TRAILER_MS45_IN i t) \<and> \<not> hint_present (hint_at TRAILER_MS45_IN i tx)"
    and "\<And>i. i < tx_num_outputs tx \<Longrightarrow> hint_at TRAILER_MS45_OUT i t = hint_at TRAILER_MS45_OUT i tx \<or>
       \<not> hint_present (hint_at TRAILER_MS45_OUT i t) \<and> \<not> hint_present (hint_at TRAILER_MS45_OUT i tx)"
  shows "hint_records t = hint_records tx"
proof -
  have "(if hint_present (in_ms45_hint (tx_inputs t ! i)) then [(TRAILER_MS45_IN, i, in_ms45_hint (tx_inputs t ! i))] else []) =
     (if hint_present (in_ms45_hint (tx_inputs tx ! i)) then [(TRAILER_MS45_IN, i, in_ms45_hint (tx_inputs tx ! i))] else [])"
    if "i < tx_num_inputs tx" for i
    using assms(3) [OF that] by (auto simp: hint_at_def)
  moreover have "(if hint_present (out_ms45_hint (tx_outputs t ! i)) then [(TRAILER_MS45_OUT, i, out_ms45_hint (tx_outputs t ! i))] else []) =
     (if hint_present (out_ms45_hint (tx_outputs tx ! i)) then [(TRAILER_MS45_OUT, i, out_ms45_hint (tx_outputs tx ! i))] else [])"
    if "i < tx_num_outputs tx" for i
    using assms(4) [OF that] by (auto simp: hint_at_def)
  ultimately show ?thesis
    unfolding hint_records_def assms(1,2) by (intro arg_cong2 [of _ _ _ _ append] arg_cong [of _ _ concat] map_cong) auto
qed

lemma fold_put_hint_nums [simp]:
  "tx_num_inputs (fold put_hint hs t) = tx_num_inputs t"
  "tx_num_outputs (fold put_hint hs t) = tx_num_outputs t"
proof -
  have "tx_num_inputs (put_hint rec t) = tx_num_inputs t \<and> tx_num_outputs (put_hint rec t) = tx_num_outputs t" for rec t
    by (cases rec) (simp add: upd_in_def upd_out_def)
  then show "tx_num_inputs (fold put_hint hs t) = tx_num_inputs t"
    "tx_num_outputs (fold put_hint hs t) = tx_num_outputs t"
    by (induction hs arbitrary: t) simp_all
qed

lemma kspt_mid_nums [simp]:
  "tx_num_inputs (kspt_mid rs tx) = tx_num_inputs tx" "tx_num_outputs (kspt_mid rs tx) = tx_num_outputs tx"
  by (simp_all add: kspt_mid_def fill_inputs_def fill_outputs_def)

lemma mem_hint_records:
  "(m, i, h) \<in> set (hint_records tx) \<longleftrightarrow>
     hint_ok (tx_num_inputs tx) (tx_num_outputs tx) (m, i, h) \<and> hint_at m i tx = h"
  by (auto simp: hint_records_def hint_at_def)

lemma hint_records_loaded:
  assumes "tx_num_inputs tx \<le> MAX_INPUTS" "tx_num_outputs tx \<le> MAX_OUTPUTS"
  shows "hint_records (fold put_hint (hint_records tx) (kspt_mid rs tx)) = hint_records tx"
proof -
  let ?t = "fold put_hint (hint_records tx) (kspt_mid rs tx)"
  note ok = hint_records_ok [OF assms] and room = kspt_mid_facts(1) [OF assms, of rs]
  have at: "hint_at m i ?t = hint_at m i tx \<or> \<not> hint_present (hint_at m i ?t) \<and> \<not> hint_present (hint_at m i tx)"
    if m: "m \<in> {TRAILER_MS45_IN, TRAILER_MS45_OUT}"
      and i: "\<And>h. hint_present h \<Longrightarrow> hint_ok (tx_num_inputs tx) (tx_num_outputs tx) (m, i, h)" for m i
  proof (cases "hint_present (hint_at m i tx)")
    case True
    then have "(m, i, hint_at m i tx) \<in> set (hint_records tx)"
      unfolding mem_hint_records using i by simp
    then show ?thesis using hint_at_fold [OF m ok room] by blast
  next
    case False
    then have "(m, i) \<notin> hint_key ` set (hint_records tx)"
      by (force simp: mem_hint_records)
    then have "hint_at m i ?t = hint_at m i (kspt_mid rs tx)"
      using hint_at_fold [OF m ok room] by blast
    also have "\<dots> = ms45_hint_none"
      using kspt_mid_facts(2) [OF assms, OF i [of "\<lparr>hint_present = True, hint_cosigner = 0, hint_chain = 0, hint_index = 0\<rparr>"]] by simp
    finally show ?thesis using False by (simp add: ms45_hint_none_def)
  qed
  show ?thesis
    by (rule hint_records_cong) (simp_all add: at)
qed

lemma kspt_roundtrip:
  assumes "kspt_ok tx" "bindings_ok tx"
  obtains tx' where "parse_pskt (kspt_wire tx) t0 = (Inr (), tx')" "view tx' = view tx"
    "hint_records tx' = hint_records tx"
proof
  have n: "tx_num_inputs tx \<le> MAX_INPUTS" "tx_num_outputs tx \<le> MAX_OUTPUTS" using kspt_okD [OF assms(1)] by simp_all
  let ?t = "fold put_hint (hint_records tx) (kspt_mid None tx)"
  show "parse_pskt (kspt_wire tx) t0 = (Inr (), ?t)"
    unfolding kspt_wire_def using has_hints_records [of tx]
    by (intro parse_pskt_wire assms hint_records_ok n) (auto simp: redeems_short_def)
  show "view ?t = view tx" by (simp add: view_fold_put_hint view_kspt_mid assms(1))
  show "hint_records ?t = hint_records tx" by (rule hint_records_loaded [OF n])
qed

section \<open>What an accepted payload can contain\<close>

lemma keeps_read_bytes [intro]:
  "(\<And>b. length b = n \<Longrightarrow> keeps (holds P) (f b)) \<Longrightarrow> keeps (holds P) (bindE (rd (read_bytes n)) f)"
  by (auto simp: keeps_def bindE_def rd_apply read_bytes_unread simp del: length_unread)

lemma keeps_read_hash [intro]:
  "(\<And>b. length b = 32 \<Longrightarrow> keeps (holds P) (f b)) \<Longrightarrow> keeps (holds P) (bindE (rd read_hash256) f)"
  by (auto simp: keeps_def bindE_def rd_apply read_hash256_def ret_def read_bytes_unread simp del: length_unread)

text \<open>The invariant of the parser, with the record counts fixed by the header.\<close>

definition kspt_inv :: "nat \<Rightarrow> nat \<Rightarrow> transaction \<Rightarrow> bool" where
  "kspt_inv ni no t \<longleftrightarrow> wf_transaction t \<and> tx_num_inputs t = ni \<and> tx_num_outputs t = no \<and>
     list_all (\<lambda>v. v \<le> MAX_SOMPI) (map (\<lambda>i. utxo_amount (in_utxo i)) (tx_inputs t))"

lemma kspt_inv_upd_in:
  assumes "kspt_inv ni no t"
    and "\<And>x. wf_input x \<Longrightarrow> wf_input (f x)"
    and "\<And>u x. pool_ok u x \<Longrightarrow> pool_ok u (f x)"
    and "\<And>x. utxo_amount (in_utxo x) \<le> MAX_SOMPI \<Longrightarrow> utxo_amount (in_utxo (f x)) \<le> MAX_SOMPI"
  shows "kspt_inv ni no (upd_in i f t)"
proof -
  have wf: "wf_transaction t" using assms(1) by (simp add: kspt_inv_def)
  then have "wf_transaction (upd_in i f t)"
    using wf_transaction_nth [OF wf, of i] assms(2,3)
    by (intro wf_upd_in) (auto simp: wf_transaction_def)
  moreover have "list_all (\<lambda>v. v \<le> MAX_SOMPI) (map (\<lambda>i. utxo_amount (in_utxo i)) (tx_inputs (upd_in i f t)))"
  proof -
    have amounts: "list_all (\<lambda>v. v \<le> MAX_SOMPI) (map (\<lambda>i. utxo_amount (in_utxo i)) (tx_inputs t))"
      using assms(1) by (simp add: kspt_inv_def)
    then have "utxo_amount (in_utxo (f (tx_inputs t ! i))) \<le> MAX_SOMPI" if "i < length (tx_inputs t)"
      using that assms(4) by (simp add: list_all_length)
    then have "list_all (\<lambda>v. v \<le> MAX_SOMPI) ((map (\<lambda>i. utxo_amount (in_utxo i)) (tx_inputs t))
        [i := utxo_amount (in_utxo (f (tx_inputs t ! i)))])"
      by (intro list_all_update amounts) simp
    then show ?thesis by (simp add: upd_in_def map_update)
  qed
  ultimately show ?thesis using assms(1) by (simp add: kspt_inv_def)
qed

lemma upd_out_fields [simp]:
  "tx_inputs (upd_out i f t) = tx_inputs t" "tx_num_inputs (upd_out i f t) = tx_num_inputs t"
  "tx_num_outputs (upd_out i f t) = tx_num_outputs t"
  by (simp_all add: upd_out_def)

lemma kspt_inv_upd_out:
  assumes "kspt_inv ni no t" "\<And>x. wf_output x \<Longrightarrow> wf_output (f x)"
  shows "kspt_inv ni no (upd_out i f t)"
proof -
  have wf: "wf_transaction t" using assms(1) by (simp add: kspt_inv_def)
  then have "wf_transaction (upd_out i f t)"
    using wf_transaction_nth_out [OF wf, of i] assms(2)
    by (intro wf_upd_out) (auto simp: wf_transaction_def)
  then show ?thesis using assms(1) by (simp add: kspt_inv_def)
qed

lemma keeps_parse_spk:
  assumes "\<And>f t. P t \<Longrightarrow> (\<And>s. wf_spk s \<Longrightarrow> wf_spk (f s)) \<Longrightarrow> P (up f t)"
  shows "keeps (holds P) (parse_spk up)"
  unfolding parse_spk_def parse_script_def
  by (intro keeps_bindE keeps_rd keeps_guard keeps_thenE keeps_upd keeps_read_bytes assms)
    (auto simp: wf_spk_def)

lemmas step_invariants = keeps_thenE keeps_upd keeps_read_bytes keeps_read_hash keeps_guard
  keeps_bindE keeps_rd keeps_get keeps_remaining keeps_ret keeps_fail

lemma wf_input_script: "wf_input x \<Longrightarrow> (\<And>s. wf_spk s \<Longrightarrow> wf_spk (f s)) \<Longrightarrow>
    wf_input (in_utxo_update (utxo_spk_update f) x)"
  by (simp add: wf_input_def)

lemma keeps_act:
  "(\<And>t. P t \<Longrightarrow> P (snd (m t))) \<Longrightarrow> keeps (holds P) (act e m)"
  by (auto simp: keeps_def act_def split: prod.splits sum.splits) (metis snd_conv)+

lemma store_redeem_inv:
  assumes "kspt_inv ni no t" "idx < MAX_INPUTS"
  shows "kspt_inv ni no (snd (store_redeem idx data t))"
proof (cases "fst (store_redeem idx data t)")
  case (Inl e)
  then show ?thesis using store_redeem_error(2) [OF Inl] assms by simp
next
  case (Inr u)
  then have run: "store_redeem idx data t = (Inr (), snd (store_redeem idx data t))"
    by (simp add: prod_eq_iff)
  have wf: "wf_transaction t" using assms(1) by (simp add: kspt_inv_def)
  have "map (\<lambda>i. utxo_amount (in_utxo i)) (tx_inputs (snd (store_redeem idx data t))) =
        map (\<lambda>i. utxo_amount (in_utxo i)) (tx_inputs t) \<and>
        tx_num_inputs (snd (store_redeem idx data t)) = tx_num_inputs t \<and>
        tx_num_outputs (snd (store_redeem idx data t)) = tx_num_outputs t"
    by (cases "idx < length (tx_inputs t)")
      (auto simp: store_redeem_def Let_def upd_in_def map_update list_update_beyond
        intro!: list_update_same_conv [THEN iffD2])
  then show ?thesis
    using assms(1) store_redeem_ok(3) [OF wf assms(2) run] unfolding kspt_inv_def by simp
qed


lemma keeps_parse_input:
  assumes "i < MAX_INPUTS"
  shows "keeps (holds (kspt_inv ni no)) (parse_input has_redeem i)"
proof -
  have base: "keeps (holds (kspt_inv ni no)) (parse_input_base i)"
    unfolding parse_input_base_def
    by (intro step_invariants kspt_inv_upd_in) (auto simp: wf_input_def pool_ok_def)
  have spk: "keeps (holds (kspt_inv ni no)) (parse_spk (upd_in_spk i))"
    unfolding upd_in_spk_def
    by (intro keeps_parse_spk kspt_inv_upd_in wf_input_script) (auto simp: pool_ok_def)
  have redeem: "keeps (holds (kspt_inv ni no)) (parse_redeem i n)" for n
    unfolding parse_redeem_def
    by (auto intro!: step_invariants keeps_act store_redeem_inv assms)
  show ?thesis
    unfolding parse_input_def
    by (intro keeps_thenE base spk keeps_upd kspt_inv_upd_in)
      (auto intro!: step_invariants redeem simp: wf_input_def pool_ok_def)
qed

lemma kspt_inv_globals:
  "kspt_inv ni no t \<Longrightarrow> length subnet = 20 \<Longrightarrow> kspt_inv ni no (tx_subnetwork_id_update (\<lambda>_. subnet) t)"
  "kspt_inv ni no t \<Longrightarrow> kspt_inv ni no (tx_locktime_update (\<lambda>_. l) t)"
  "kspt_inv ni no t \<Longrightarrow> kspt_inv ni no (tx_gas_update (\<lambda>_. g) t)"
  "kspt_inv ni no t \<Longrightarrow> kspt_inv ni no (tx_version_update (\<lambda>_. v) t)"
  "kspt_inv ni no t \<Longrightarrow> n \<le> MAX_PAYLOAD_SIZE \<Longrightarrow> kspt_inv ni no (tx_payload_len_update (\<lambda>_. n) t)"
  "kspt_inv ni no t \<Longrightarrow> length pb \<le> MAX_PAYLOAD_SIZE \<Longrightarrow> kspt_inv ni no (tx_payload_update (blit pb 0) t)"
  "kspt_inv ni no t \<Longrightarrow> n \<le> MAX_INPUTS \<Longrightarrow> kspt_inv n no (tx_num_inputs_update (\<lambda>_. n) t)"
  "kspt_inv ni no t \<Longrightarrow> n \<le> MAX_OUTPUTS \<Longrightarrow> kspt_inv ni n (tx_num_outputs_update (\<lambda>_. n) t)"
  by (simp_all add: kspt_inv_def wf_transaction_def)

lemma keeps_parse_tx_fields: "keeps (holds (kspt_inv ni no)) parse_tx_fields"
  unfolding parse_tx_fields_def Let_def
  by (auto intro!: step_invariants kspt_inv_globals)

definition some_inv :: "transaction \<Rightarrow> bool" where
  "some_inv t \<longleftrightarrow> (\<exists>ni no. kspt_inv ni no t)"

lemma some_invI: "kspt_inv ni no t \<Longrightarrow> some_inv t"
  by (auto simp: some_inv_def)

lemma keeps_some_inv: "(\<And>ni no. keeps (holds (kspt_inv ni no)) m) \<Longrightarrow> keeps (holds some_inv) m"
proof -
  assume m: "\<And>ni no. keeps (holds (kspt_inv ni no)) m"
  have "holds some_inv (snd (m (r, t)))" if "kspt_inv ni no t" for r t ni no
  proof -
    have "holds (kspt_inv ni no) (snd (m (r, t)))"
      using m [of ni no] that by (simp add: keeps_def)
    then show ?thesis by (auto simp: holds_def intro: some_invI)
  qed
  then show ?thesis by (auto simp: keeps_def some_inv_def)
qed

lemma some_inv_new [simp]: "kspt_inv 0 0 transaction_new" "some_inv transaction_new"
proof -
  show "kspt_inv 0 0 transaction_new"
    by (simp add: kspt_inv_def) (simp add: transaction_new_def input_default_def input_zero_def list_all_iff)
  then show "some_inv transaction_new" by (rule some_invI)
qed

lemma keeps_parse_header: "keeps (holds P) parse_header"
  unfolding parse_header_def by (intro step_invariants)

lemma keeps_parse_global: "keeps (holds some_inv) parse_global"
proof -
  have "some_inv (tx_version_update (\<lambda>_. v) t)" "n \<le> MAX_INPUTS \<Longrightarrow> some_inv (tx_num_inputs_update (\<lambda>_. n) t)"
    "m \<le> MAX_OUTPUTS \<Longrightarrow> some_inv (tx_num_outputs_update (\<lambda>_. m) t)" if "some_inv t" for v n m t
    using that unfolding some_inv_def by (blast intro: kspt_inv_globals)+
  then show ?thesis
    unfolding parse_global_def Let_def
    by (intro step_invariants keeps_some_inv [OF keeps_parse_tx_fields]) auto
qed

definition counts_ok :: "nat \<times> nat \<Rightarrow> byte_reader \<times> transaction \<Rightarrow> bool" where
  "counts_ok = (\<lambda>(ni, no). holds (\<lambda>t. 1 \<le> ni \<and> ni \<le> MAX_INPUTS \<and> 1 \<le> no \<and> no \<le> MAX_OUTPUTS \<and> kspt_inv ni no t))"

lemma yields_keeps_rd: "yields (holds P) (rd m) (\<lambda>_. holds P)"
  by (rule yields_keeps) simp

lemma yields_upd: "(\<And>t. P t \<Longrightarrow> Q (f t)) \<Longrightarrow> yields (holds P) (upd f) (\<lambda>_. holds Q)"
  by (auto simp: yields_def)

lemma yields_parse_global: "yields (holds some_inv) parse_global counts_ok"
proof -
  have counts: "kspt_inv ni no (tx_num_outputs_update (\<lambda>_. no) (tx_num_inputs_update (\<lambda>_. ni) t))"
    if "some_inv t" "ni \<le> MAX_INPUTS" "no \<le> MAX_OUTPUTS" for ni no t
    using that unfolding some_inv_def by (blast intro: kspt_inv_globals)
  have v: "yields (holds some_inv) (upd (tx_version_update (\<lambda>_. v))) (\<lambda>_. holds some_inv)" for v
    by (intro yields_upd) (auto simp: some_inv_def intro: kspt_inv_globals)
  have set: "yields (holds some_inv) (thenE (upd (tx_num_inputs_update (\<lambda>_. ni)))
      (thenE (upd (tx_num_outputs_update (\<lambda>_. no))) (thenE parse_tx_fields (ret (ni, no))))) counts_ok"
    if "ni \<noteq> 0" "\<not> ni > MAX_INPUTS" "no \<noteq> 0" "\<not> no > MAX_OUTPUTS" for ni no
  proof -
    let ?P = "\<lambda>t. \<exists>u. some_inv u \<and> t = tx_num_inputs_update (\<lambda>_. ni) u"
    have "yields (holds some_inv) (upd (tx_num_inputs_update (\<lambda>_. ni))) (\<lambda>_. holds ?P)"
      by (intro yields_upd) blast
    moreover have "yields (holds ?P) (upd (tx_num_outputs_update (\<lambda>_. no))) (\<lambda>_. holds (kspt_inv ni no))"
      using counts that by (intro yields_upd) (force simp: not_less)
    moreover have "yields (holds (kspt_inv ni no)) (thenE parse_tx_fields (ret (ni, no))) counts_ok"
      using that
      by (intro yields_thenE [OF yields_keeps [OF keeps_parse_tx_fields]] yields_ret) (auto simp: counts_ok_def)
    ultimately show ?thesis by (rule yields_thenE [OF _ yields_thenE])
  qed
  show ?thesis
    unfolding parse_global_def Let_def
    by (intro yields_bindE [OF yields_keeps_rd] yields_thenE [OF v] yields_guard set)
qed


lemma keeps_parse_binding: "keeps (holds (kspt_inv ni no)) (parse_binding i)"
  unfolding parse_binding_def
  by (auto intro!: step_invariants kspt_inv_upd_out simp: wf_output_def)

lemma output_total_upd_out:
  assumes "\<And>x. out_value (f x) = out_value x"
  shows "output_total (upd_out i f t) k = output_total t k"
proof -
  have "out_value ((tx_outputs t)[i := f (tx_outputs t ! i)] ! j) = out_value (tx_outputs t ! j)" for j
    using assms by (cases "i = j"; cases "i < length (tx_outputs t)") (auto simp: list_update_beyond)
  then show ?thesis by (simp add: output_total_def upd_out_def)
qed

text \<open>After \<open>k\<close> outputs: the running total is the exact sum and within the supply.\<close>

definition outputs_upto :: "nat \<Rightarrow> nat \<Rightarrow> nat \<Rightarrow> u64 \<Rightarrow> transaction \<Rightarrow> bool" where
  "outputs_upto ni no k tot t \<longleftrightarrow>
     kspt_inv ni no t \<and> output_total t k = unat tot \<and> tot \<le> MAX_SOMPI"

lemma outputs_upto_upd_out:
  assumes "outputs_upto ni no k tot t" "\<And>x. wf_output x \<Longrightarrow> wf_output (f x)"
    and "\<And>x. out_value (f x) = out_value x"
  shows "outputs_upto ni no k tot (upd_out i f t)"
  using assms by (simp add: outputs_upto_def kspt_inv_upd_out output_total_upd_out)

lemma yields_parse_value:
  assumes "k < no" "no \<le> MAX_OUTPUTS"
  shows "yields (holds (outputs_upto ni no k tot)) (parse_value k tot)
     (\<lambda>c. holds (outputs_upto ni no (Suc k) c))"
proof -
  have "outputs_upto ni no (Suc k) c (upd_out k (out_value_update (\<lambda>_. v)) t)"
    if add: "checked_add tot v = Some c" and c: "c \<le> MAX_SOMPI" and t: "outputs_upto ni no k tot t" for v c t
  proof -
    have inv: "kspt_inv ni no t" using t by (simp add: outputs_upto_def)
    then have len: "length (tx_outputs t) = MAX_OUTPUTS" by (simp add: kspt_inv_def wf_transaction_def)
    have "output_total (upd_out k (out_value_update (\<lambda>_. v)) t) k = output_total t k"
      unfolding output_total_def
      by (rule arg_cong [where f = sum_list]) (simp add: upd_out_def)
    then have "output_total (upd_out k (out_value_update (\<lambda>_. v)) t) (Suc k) = unat c"
      using t add assms len by (simp add: outputs_upto_def checked_add_eq) (simp add: upd_out_def)
    moreover have "kspt_inv ni no (upd_out k (out_value_update (\<lambda>_. v)) t)"
      using inv by (rule kspt_inv_upd_out) (simp add: wf_output_def)
    ultimately show ?thesis using c by (simp add: outputs_upto_def)
  qed
  then have step: "yields (holds (outputs_upto ni no k tot))
     (thenE (upd (upd_out k (out_value_update (\<lambda>_. v)))) (ret c)) (\<lambda>c. holds (outputs_upto ni no (Suc k) c))"
    if "checked_add tot v = Some c" "c \<le> MAX_SOMPI" for v c
    using that by (intro yields_thenE [where R = "holds (outputs_upto ni no (Suc k) c)"] yields_upd yields_ret) auto
  have fails: "yields P (fail e) Q" for P Q and e :: pskt_error
    by (simp add: yields_def fail_def)
  show ?thesis
    unfolding parse_value_def
    by (intro yields_bindE [OF yields_keeps_rd] yields_guard)
      (auto intro: step fails split: option.split)
qed

lemma yields_parse_output:
  assumes "k < no" "no \<le> MAX_OUTPUTS"
  shows "yields (holds (outputs_upto ni no k tot)) (parse_output cov k tot)
     (\<lambda>c. holds (outputs_upto ni no (Suc k) c))"
proof -
  have spk: "keeps (holds (outputs_upto ni no j c)) (parse_spk (upd_out_spk i))" for j c i
    unfolding upd_out_spk_def
    by (intro keeps_parse_spk outputs_upto_upd_out) (auto simp: wf_output_def)
  have bind: "keeps (holds (outputs_upto ni no j c)) (parse_binding i)" for j c i
    unfolding parse_binding_def
    by (auto intro!: step_invariants outputs_upto_upd_out simp: wf_output_def)
  show ?thesis
    unfolding parse_output_def
    by (rule yields_bindE [OF yields_parse_value [OF assms]],
        rule yields_thenE [OF yields_keeps [OF spk]],
        rule yields_thenE [OF yields_keeps [where P = "holds (outputs_upto ni no (Suc k) _)"]])
      (auto intro: bind yields_ret)
qed

definition bound_upto :: "nat \<Rightarrow> nat \<Rightarrow> transaction \<Rightarrow> bool" where
  "bound_upto ni k t \<longleftrightarrow> (\<forall>i < k. out_has_covenant (tx_outputs t ! i) \<longrightarrow>
     unat (out_covenant_auth_input (tx_outputs t ! i)) < ni)"

lemma yields_check_bindings:
  "yields (holds P) (check_bindings ni no) (\<lambda>_. holds (\<lambda>t. P t \<and> bound_upto ni no t))"
proof -
  have "yields (holds (\<lambda>t. P t \<and> bound_upto ni 0 t)) (check_bindings ni no)
      (\<lambda>_. holds (\<lambda>t. P t \<and> bound_upto ni no t))"
    unfolding check_bindings_def
  proof (rule yields_forE [where I = "\<lambda>k. holds (\<lambda>t. P t \<and> bound_upto ni k t)"])
    fix k
    show "yields (holds (\<lambda>t. P t \<and> bound_upto ni k t))
        (bindE (get (\<lambda>t. tx_outputs t ! k)) (\<lambda>out. fail_if (out_has_covenant out \<and>
           unat (out_covenant_auth_input out) \<ge> ni) InvalidCovenantBinding))
        (\<lambda>_. holds (\<lambda>t. P t \<and> bound_upto ni (Suc k) t))"
      by (auto simp: yields_def bindE_def fail_if_eq_Inr bound_upto_def less_Suc_eq not_le)
  qed simp
  then show ?thesis
    by (rule yields_weaken) (auto simp: bound_upto_def holds_def)
qed

lemma keeps_hint_record:
  assumes "\<And>m i h t. P t \<Longrightarrow> P (put_hint (m, i, h) t)"
  shows "keeps (holds P) (parse_hint_record ni no)"
  unfolding parse_hint_record_def parse_hint_body_def apply_hint_def
  using assms [of _ TRAILER_MS45_IN] assms [of _ TRAILER_MS45_OUT]
  by (auto intro!: step_invariants)

lemma keeps_parse_hints:
  assumes "\<And>m i h t. P t \<Longrightarrow> P (put_hint (m, i, h) t)"
  shows "keeps (holds P) (parse_hints ni no)"
proof -
  have "holds P (snd (parse_hints ni no (r, t)))" if "P t" for r t
    using that
  proof (induction ni no "(r, t)" arbitrary: r t rule: parse_hints.induct)
    case (1 ni no r t)
    have one: "holds P (snd (parse_hint_record ni no (r, t)))"
      using keeps_hint_record [of P ni no] assms 1(2) by (simp add: keeps_def del: put_hint.simps)
    show ?case
    proof (cases "reader_remaining r = 0")
      case True
      then show ?thesis using 1(2) by (simp add: parse_hints.simps)
    next
      case False
      show ?thesis
        using one False 1
        by (subst parse_hints.simps) (auto split: prod.splits sum.splits)
    qed
  qed
  then show ?thesis by (auto simp: keeps_def)
qed

lemma kspt_inv_put_hint: "kspt_inv ni no t \<Longrightarrow> kspt_inv ni no (put_hint (m, i, h) t)"
  by (auto intro!: kspt_inv_upd_in kspt_inv_upd_out simp: wf_input_def wf_output_def pool_ok_def)

lemma bound_upto_put_hint: "bound_upto ni no t \<Longrightarrow> bound_upto ni no (put_hint (m, i, h) t)"
proof -
  have "out_has_covenant ((tx_outputs t)[i := (tx_outputs t ! i)\<lparr>out_ms45_hint := h\<rparr>] ! j) = out_has_covenant (tx_outputs t ! j)
    \<and> out_covenant_auth_input ((tx_outputs t)[i := (tx_outputs t ! i)\<lparr>out_ms45_hint := h\<rparr>] ! j) = out_covenant_auth_input (tx_outputs t ! j)" for j
    by (cases "i = j"; cases "i < length (tx_outputs t)") (auto simp: list_update_beyond)
  then show "bound_upto ni no t \<Longrightarrow> bound_upto ni no (put_hint (m, i, h) t)"
    by (simp add: bound_upto_def upd_out_def upd_in_def)
qed

definition accepted :: "nat \<Rightarrow> nat \<Rightarrow> transaction \<Rightarrow> bool" where
  "accepted ni no t \<longleftrightarrow> kspt_inv ni no t \<and> output_total t no \<le> unat MAX_SOMPI \<and> bound_upto ni no t"

lemma accepted_put_hint: "accepted ni no t \<Longrightarrow> accepted ni no (put_hint (m, i, h) t)"
  using kspt_inv_put_hint [of ni no t m i h] bound_upto_put_hint [of ni no t m i h]
    output_total_upd_out [of "out_ms45_hint_update (\<lambda>_. h)" i t no]
  by (auto simp: accepted_def output_total_def upd_in_def)

lemma counts_ok_prefix: "counts_ok (ni, no) s \<Longrightarrow> holds (kspt_inv ni no) s \<and>
    1 \<le> ni \<and> ni \<le> MAX_INPUTS \<and> 1 \<le> no \<and> no \<le> MAX_OUTPUTS"
  by (auto simp: counts_ok_def holds_def split: prod.splits)

lemma yields_front:
  "yields (holds some_inv) parse_pskt_front
     (\<lambda>(h, ni, no) s. 1 \<le> ni \<and> 1 \<le> no \<and> holds (accepted ni no) s)"
proof -
  have loops: "yields (holds (kspt_inv ni no))
      (thenE (forE [0..<ni] (parse_input has_redeem))
      (bindE (foldE [0..<no] (parse_output has_covenant_data) 0) (\<lambda>_.
       thenE (check_bindings ni no) (ret (h, ni, no)))))
      (\<lambda>(h, ni, no) s. 1 \<le> ni \<and> 1 \<le> no \<and> holds (accepted ni no) s)"
    if n: "1 \<le> ni" "ni \<le> MAX_INPUTS" "1 \<le> no" "no \<le> MAX_OUTPUTS" for ni no h has_redeem has_covenant_data
  proof (rule yields_thenE)
    show "yields (holds (kspt_inv ni no)) (forE [0..<ni] (parse_input has_redeem)) (\<lambda>_. holds (outputs_upto ni no 0 0))"
    proof (rule yields_weaken [OF yields_keeps])
      show "keeps (holds (kspt_inv ni no)) (forE [0..<ni] (parse_input has_redeem))"
        using n by (intro keeps_forE keeps_parse_input) auto
    qed (auto simp: holds_def outputs_upto_def output_total_def)
    have outs: "yields (holds (outputs_upto ni no 0 0)) (foldE [0..<no] (parse_output has_covenant_data) 0)
        (\<lambda>c. holds (outputs_upto ni no no c))"
      by (rule yields_foldE [where I = "\<lambda>k c. holds (outputs_upto ni no k c)"])
        (use n in \<open>auto intro: yields_parse_output\<close>)
    show "yields (holds (outputs_upto ni no 0 0)) (bindE (foldE [0..<no] (parse_output has_covenant_data) 0)
        (\<lambda>_. thenE (check_bindings ni no) (ret (h, ni, no))))
       (\<lambda>(h, ni, no) s. 1 \<le> ni \<and> 1 \<le> no \<and> holds (accepted ni no) s)"
      by (rule yields_bindE [OF outs], rule yields_thenE [OF yields_check_bindings], rule yields_ret)
        (use n in \<open>auto simp: holds_def accepted_def outputs_upto_def word_le_nat_alt\<close>)
  qed
  show ?thesis
    unfolding parse_pskt_front_def
  proof (rule yields_bindE [OF yields_keeps [OF keeps_parse_header]], clarify,
      rule yields_bindE [OF yields_parse_global], clarify)
    fix h has_redeem has_covenant_data ni no
    show "yields (counts_ok (ni, no)) (thenE (forE [0..<ni] (parse_input has_redeem))
      (bindE (foldE [0..<no] (parse_output has_covenant_data) 0) (\<lambda>_.
       thenE (check_bindings ni no) (ret (h, ni, no)))))
      (\<lambda>(h, ni, no) s. 1 \<le> ni \<and> 1 \<le> no \<and> holds (accepted ni no) s)"
    proof (cases "1 \<le> ni \<and> ni \<le> MAX_INPUTS \<and> 1 \<le> no \<and> no \<le> MAX_OUTPUTS")
      case True
      then show ?thesis
        by (intro yields_weaken [OF loops]) (auto dest: counts_ok_prefix)
    next
      case False
      then show ?thesis unfolding yields_def by (blast dest: counts_ok_prefix)
    qed
  qed
qed

lemma keeps_tail: "(\<And>m i h t. P t \<Longrightarrow> P (put_hint (m, i, h) t)) \<Longrightarrow> keeps (holds P) (parse_pskt_tail x)"
  unfolding parse_pskt_tail_def
  by (cases x) (auto intro!: step_invariants keeps_parse_hints simp del: put_hint.simps)

lemma accepted_ok:
  assumes "accepted ni no t" "1 \<le> ni" "1 \<le> no"
  shows "kspt_ok t" "bindings_ok t"
  using assms
  by (auto simp: accepted_def kspt_ok_def bindings_ok_def kspt_inv_def bound_upto_def list_all_iff
      wf_transaction_def)

lemma parse_pskt_accepts:
  assumes "parse_pskt data t0 = (Inr (), tx)"
  shows "kspt_ok tx" "bindings_ok tx"
proof -
  obtain r where run: "parse_pskt_body (reader_new data, transaction_new) = (Inr (), (r, tx))"
    using assms by (auto simp: parse_pskt_def split: prod.splits)
  then obtain h ni no s where front: "parse_pskt_front (reader_new data, transaction_new) = (Inr (h, ni, no), s)"
    and tail: "parse_pskt_tail (h, ni, no) s = (Inr (), (r, tx))"
    by (auto simp: parse_pskt_body_def bindE_eq_Inr)
  have "1 \<le> ni \<and> 1 \<le> no \<and> holds (accepted ni no) s"
    using yieldsD [OF yields_front _ front] by simp
  moreover from this have "holds (accepted ni no) (snd (parse_pskt_tail (h, ni, no) s))"
    using keeps_tail [of "accepted ni no" "(h, ni, no)", OF accepted_put_hint] by (blast dest: keepsD)
  ultimately show "kspt_ok tx" "bindings_ok tx"
    using tail accepted_ok by (auto simp del: put_hint.simps)
qed

lemma some_inv_put_hint: "some_inv t \<Longrightarrow> some_inv (put_hint (m, i, h) t)"
  using kspt_inv_put_hint [of _ _ t m i h] unfolding some_inv_def by blast

lemma keeps_front: "keeps (holds some_inv) parse_pskt_front"
proof -
  have loops: "keeps (holds some_inv) (thenE (forE [0..<ni] (parse_input has_redeem))
      (bindE (foldE [0..<no] (parse_output has_covenant_data) 0) (\<lambda>_.
       thenE (check_bindings ni no) (ret (h, ni, no)))))"
    if "ni \<le> MAX_INPUTS" "no \<le> MAX_OUTPUTS" for ni no h has_redeem has_covenant_data
  proof -
    have out: "keeps (holds (kspt_inv a b)) (parse_output has_covenant_data k c)" for a b k c
      unfolding parse_output_def parse_value_def upd_out_spk_def
      by (intro step_invariants keeps_parse_spk kspt_inv_upd_out)
        (auto intro!: step_invariants keeps_parse_binding kspt_inv_upd_out split: option.split simp: wf_output_def)
    show ?thesis
      using that
      by (intro keeps_some_inv keeps_thenE keeps_bindE keeps_forE keeps_foldE out keeps_parse_input)
        (auto simp: check_bindings_def intro!: step_invariants keeps_forE keeps_fail_if)
  qed
  have global: "holds some_inv (snd (parse_global s))" if "holds some_inv s" for s
    using keepsD [OF keeps_parse_global that] .
  have rest: "keeps (holds some_inv) (bindE parse_global (\<lambda>(ni, no).
      thenE (forE [0..<ni] (parse_input has_redeem))
      (bindE (foldE [0..<no] (parse_output has_covenant_data) 0) (\<lambda>_.
       thenE (check_bindings ni no) (ret (h, ni, no))))))" for h has_redeem has_covenant_data
    unfolding keeps_def
  proof (intro allI impI)
    fix s assume s: "holds some_inv s"
    show "holds some_inv (snd (bindE parse_global (\<lambda>(ni, no).
      thenE (forE [0..<ni] (parse_input has_redeem))
      (bindE (foldE [0..<no] (parse_output has_covenant_data) 0) (\<lambda>_.
       thenE (check_bindings ni no) (ret (h, ni, no))))) s))"
    proof (cases "fst (parse_global s)")
      case (Inl e)
      then show ?thesis using global [OF s] by (cases "parse_global s") (simp add: bindE_def)
    next
      case (Inr c)
      then obtain ni no s' where run: "parse_global s = (Inr (ni, no), s')"
        by (cases "parse_global s"; cases c) auto
      then have "counts_ok (ni, no) s'" using yieldsD [OF yields_parse_global s] by simp
      then have "ni \<le> MAX_INPUTS" "no \<le> MAX_OUTPUTS" by (auto dest: counts_ok_prefix)
      then show ?thesis
        using keepsD [OF loops] global [OF s] run
        by (simp add: bindE_Inr [where m = parse_global, OF run])
    qed
  qed
  show ?thesis
    unfolding parse_pskt_front_def
    by (intro keeps_bindE [OF keeps_parse_header]) (clarsimp simp only: rest prod.case split_paired_all)
qed

lemma parse_pskt_wf: "wf_transaction (snd (parse_pskt data t0))"
proof -
  have "keeps (holds some_inv) parse_pskt_body"
    unfolding parse_pskt_body_def
    by (intro keeps_bindE keeps_front keeps_tail some_inv_put_hint)
  then have "holds some_inv (snd (parse_pskt_body (reader_new data, transaction_new)))"
    by (simp add: keeps_def)
  then show ?thesis
    by (auto simp: parse_pskt_def holds_def some_inv_def kspt_inv_def split: prod.splits)
qed

section \<open>Lengths\<close>

lemma parse_pskt_short:
  assumes "kspt_ok tx" "bindings_ok tx" "redeems_short rs (tx_num_inputs tx)"
    and "v = FORMAT_VERSION \<or> v = FORMAT_VERSION_V4" "k < length (kspt_body_wire v rs tx)"
  shows "fst (parse_pskt (take k (kspt_body_wire v rs tx)) t0) = Inl BufferTooShort"
proof -
  have "proper_prefix (unread (reader_new (take k (kspt_body_wire v rs tx)))) (kspt_body_wire v rs tx)"
    using assms(5) by (simp add: proper_prefix_def)
  then have "fst (parse_pskt_front (reader_new (take k (kspt_body_wire v rs tx)), transaction_new)) = Inl BufferTooShort"
    by (rule reads_short [OF reads_front [OF assms(1-4)]])
  then have "fst (parse_pskt_body (reader_new (take k (kspt_body_wire v rs tx)), transaction_new)) = Inl BufferTooShort"
    unfolding parse_pskt_body_def by (rule bindE_fst_Inl)
  then show ?thesis by (auto simp: parse_pskt_def split: prod.splits)
qed

lemma parse_pskt_trailing:
  assumes "kspt_ok tx" "bindings_ok tx" "redeems_short rs (tx_num_inputs tx)" "junk \<noteq> []"
  shows "fst (parse_pskt (kspt_body_wire FORMAT_VERSION rs tx @ junk) t0) = Inl TrailingData"
proof -
  let ?r = "reader_new (kspt_body_wire FORMAT_VERSION rs tx @ junk)"
  have "parse_pskt_body (?r, transaction_new) =
      parse_pskt_tail (FORMAT_VERSION = FORMAT_VERSION_V4, tx_num_inputs tx, tx_num_outputs tx)
        (advance (length (kspt_body_wire FORMAT_VERSION rs tx)) ?r, kspt_mid rs tx)"
    unfolding parse_pskt_body_def by (rule bindE_reads [OF reads_front [OF assms(1-3)]]) simp_all
  then have "fst (parse_pskt_body (?r, transaction_new)) = Inl TrailingData"
    using assms(4) by (simp add: parse_pskt_tail_def kspt_consts thenE_def bindE_def ret_def fail_def)
  then show ?thesis by (auto simp: parse_pskt_def split: prod.splits)
qed

section \<open>Totals of an accepted payload\<close>

lemma input_sompi_view: "input_sompi tx = sum_list (map (\<lambda>i. unat (fst (snd i))) (view_inputs (view tx)))"
  by (simp add: input_sompi_def view_def input_view_def comp_def)

lemma output_sompi_view: "output_sompi tx = sum_list (map (\<lambda>out. unat (fst out)) (view_outputs (view tx)))"
  by (simp add: output_sompi_def view_def output_view_def comp_def)

lemma output_sompi_total:
  "wf_transaction tx \<Longrightarrow> output_sompi tx = output_total tx (tx_num_outputs tx)"
  by (simp add: output_sompi_def output_total_def outputs_nth wf_transaction_def comp_def)

lemma input_sompi_bound:
  assumes "kspt_ok tx"
  shows "input_sompi tx \<le> tx_num_inputs tx * unat MAX_SOMPI"
proof -
  have "length (tx_inputs tx) = MAX_INPUTS" using kspt_okD(1) [OF assms] by (simp add: wf_transaction_def)
  then have ins: "inputs tx = map (\<lambda>i. tx_inputs tx ! i) [0..<tx_num_inputs tx]"
    using kspt_okD(2) [OF assms] by (simp add: inputs_nth)
  have "sum_list (map f xs) \<le> length xs * b" if "\<And>x. x \<in> set xs \<Longrightarrow> f x \<le> b" for f :: "nat \<Rightarrow> nat" and xs b
    using that by (induction xs) (auto simp: add_mono)
  from this [of "[0..<tx_num_inputs tx]" "\<lambda>i. unat (utxo_amount (in_utxo (tx_inputs tx ! i)))" "unat MAX_SOMPI"]
  show ?thesis
    using kspt_okD(4) [OF assms] by (simp add: input_sompi_def ins comp_def word_le_nat_alt del: unat_MAX_SOMPI)
qed

section \<open>Sample transactions\<close>

definition sample_input :: "u64 \<Rightarrow> transaction_input" where
  "sample_input amount = input_default\<lparr>in_utxo := (in_utxo input_default)\<lparr>utxo_amount := amount\<rparr>\<rparr>"

definition sample_tx :: "nat \<Rightarrow> u64 \<Rightarrow> transaction" where
  "sample_tx n amount = transaction_new\<lparr>
     tx_inputs := replicate n (sample_input amount) @ replicate (MAX_INPUTS - n) input_default,
     tx_num_inputs := n, tx_num_outputs := 1\<rparr>"

lemma sample_tx_ok:
  assumes "1 \<le> n" "n \<le> MAX_INPUTS" "amount \<le> MAX_SOMPI"
  shows "kspt_ok (sample_tx n amount)" "bindings_ok (sample_tx n amount)" "\<not> has_hints (sample_tx n amount)"
    "input_sompi (sample_tx n amount) = n * unat amount"
proof -
  have "wf_input (sample_input amount)"
    using wf_input_default by (simp add: sample_input_def wf_input_def)
  moreover have "pool_ok 0 (sample_input amount)" "pool_ok 0 input_default"
    by (simp_all add: pool_ok_def sample_input_def input_default_def input_zero_def)
  ultimately have "wf_transaction (sample_tx n amount)"
    using wf_transaction_new assms(2)
    by (auto simp: wf_transaction_def sample_tx_def list_all_iff)
      (auto simp: transaction_new_def size_limits)
  then show "kspt_ok (sample_tx n amount)" "bindings_ok (sample_tx n amount)" "\<not> has_hints (sample_tx n amount)"
    "input_sompi (sample_tx n amount) = n * unat amount"
    using assms
    by (auto simp: kspt_ok_def bindings_ok_def has_hints_def list_all_iff list_ex_iff output_total_def
        sample_tx_def nth_append transaction_new_def sample_input_def input_default_def input_zero_def
        output_default_def size_limits input_sompi_def inputs_def sum_list_replicate ms45_hint_none_def)
qed

definition hinted_tx :: transaction where
  "hinted_tx = put_hint (TRAILER_MS45_IN, 0,
     \<lparr>hint_present = True, hint_cosigner = 1, hint_chain = 0, hint_index = 7\<rparr>) (sample_tx 1 5)"


lemma hinted_tx_ok:
  "kspt_ok hinted_tx" "bindings_ok hinted_tx" "length (hint_records hinted_tx) = 1"
proof -
  have "kspt_ok (sample_tx 1 5)" "bindings_ok (sample_tx 1 5)"
    by (simp_all add: sample_tx_ok size_limits word_le_nat_alt)
  then have "accepted 1 1 (sample_tx 1 5)"
    by (auto simp: accepted_def kspt_ok_def bindings_ok_def kspt_inv_def bound_upto_def list_all_iff
        sample_tx_def sample_input_def transaction_new_def input_default_def input_zero_def word_le_nat_alt)
  then have "accepted 1 1 hinted_tx" unfolding hinted_tx_def by (rule accepted_put_hint)
  then show "kspt_ok hinted_tx" "bindings_ok hinted_tx" by (auto intro: accepted_ok)
  show "length (hint_records hinted_tx) = 1"
    by (simp add: hint_records_def hinted_tx_def sample_tx_def upd_in_def transaction_new_def
        output_default_def ms45_hint_none_def size_limits)
qed

section \<open>Properties\<close>

text \<open>
  C24: Whatever bytes arrive and however parsing ends, the transaction that \<open>parse_pskt\<close> leaves
  behind is well formed: array lengths, counts within the arrays, script, payload and redeem
  lengths within their buffers, every pooled redeem script inside the used part of the pool.
\<close>

theorem parse_pskt_leaves_wf: "wf_transaction (snd (parse_pskt data t0))"
  by (rule parse_pskt_wf)

text \<open>
  C7: An accepted payload has between 1 and 32 inputs and 1 and 8 outputs, every input amount and
  the exact (not wrapped) sum of the output values are within the coin supply, every covenant
  binding names an existing input, and so the output total of the review screen cannot trap.
\<close>

theorem parse_pskt_accepted_bounds:
  assumes "parse_pskt data t0 = (Inr (), tx)"
  shows "wf_transaction tx \<and> tx_num_inputs tx \<in> {1..MAX_INPUTS} \<and> tx_num_outputs tx \<in> {1..MAX_OUTPUTS} \<and>
    list_all (\<lambda>i. utxo_amount (in_utxo i) \<le> MAX_SOMPI) (inputs tx) \<and>
    output_sompi tx \<le> 2900000000000000000 \<and> total_output_value tx \<noteq> None \<and>
    list_all (\<lambda>out. out_has_covenant out \<longrightarrow> unat (out_covenant_auth_input out) < tx_num_inputs tx) (outputs tx)"
proof -
  note ok = parse_pskt_accepts [OF assms]
  note wf = kspt_okD(1) [OF ok(1)]
  have len: "tx_num_inputs tx \<le> length (tx_inputs tx)" "tx_num_outputs tx \<le> length (tx_outputs tx)"
    using wf by (auto simp: wf_transaction_def)
  have out: "output_sompi tx \<le> 2900000000000000000"
    using ok(1) output_sompi_total [OF wf] by (simp add: kspt_ok_def)
  then have "total_output_value tx \<noteq> None"
    by (simp add: total_output_value_def trap_sum_None output_sompi_def comp_def)
  then show ?thesis
    using ok wf out kspt_okD(2,3) [OF ok(1)]
    by (auto simp: inputs_nth [OF len(1)] outputs_nth [OF len(2)] kspt_ok_def bindings_ok_def list_all_iff)
qed

theorem parse_pskt_accepted_bounds_witness:
  "\<exists>tx. parse_pskt (kspt_wire (sample_tx 1 5)) transaction_new = (Inr (), tx) \<and> total_output_value tx \<noteq> None"
proof -
  have ok: "kspt_ok (sample_tx 1 5)" "bindings_ok (sample_tx 1 5)"
    by (simp_all add: sample_tx_ok size_limits word_le_nat_alt)
  obtain tx where run: "parse_pskt (kspt_wire (sample_tx 1 5)) transaction_new = (Inr (), tx)"
    using kspt_roundtrip [OF ok] by metis
  then show ?thesis using parse_pskt_accepted_bounds [OF run] by blast
qed

text \<open>
  For a well-formed transaction (the arrays have their lengths, so no index traps)
  \<open>serialize_pskt\<close> writes exactly the bytes of the format's grammar: it succeeds precisely when
  they fit into the output buffer, reports their number, and leaves the rest of the buffer alone;
  otherwise it fails with \<open>OutputBufferTooSmall\<close>.
\<close>

theorem serialize_pskt_grammar:
  assumes "wf_transaction tx"
  shows "if length (kspt_wire tx) \<le> length out
   then serialize_pskt tx out =
     (Inr (length (kspt_wire tx)), kspt_wire tx @ drop (length (kspt_wire tx)) out)
   else fst (serialize_pskt tx out) = Inl OutputBufferTooSmall"
  by (rule serialize_pskt_bytes)

theorem serialize_pskt_grammar_witness:
  "fst (serialize_pskt (sample_tx 1 5) []) = Inl OutputBufferTooSmall"
proof -
  have "kspt_ok (sample_tx 1 5)" by (simp add: sample_tx_ok size_limits word_le_nat_alt)
  then have "wf_transaction (sample_tx 1 5)" by (rule kspt_okD(1))
  from serialize_pskt_grammar [OF this, of "[]"] show ?thesis
    by (simp add: kspt_wire_def kspt_body_wire_def kspt_consts)
qed

text \<open>
  C8: Round trip. Parsing what the serializer wrote gives back everything the transaction says
  (globals, payload, outpoints, amounts, scripts, covenant bindings) and exactly its derivation
  hints, whatever the receiving transaction held before.
\<close>

theorem kspt_parse_serialize:
  assumes "kspt_ok tx" "bindings_ok tx" "serialize_pskt tx out = (Inr n, out')"
  shows "\<exists>tx'. parse_pskt (take n out') t0 = (Inr (), tx') \<and> view tx' = view tx \<and> hint_records tx' = hint_records tx"
proof -
  have "take n out' = kspt_wire tx"
    using assms(3) serialize_pskt_bytes [of tx out] by (auto split: if_splits)
  then show ?thesis using kspt_roundtrip [OF assms(1,2), of t0] by metis
qed

theorem kspt_parse_serialize_witness:
  "\<exists>tx'. parse_pskt (kspt_wire (sample_tx 2 5)) transaction_new = (Inr (), tx') \<and> view tx' = view (sample_tx 2 5)"
proof -
  have ok: "kspt_ok (sample_tx 2 5)" "bindings_ok (sample_tx 2 5)"
    by (simp_all add: sample_tx_ok size_limits word_le_nat_alt)
  have "serialize_pskt (sample_tx 2 5) (kspt_wire (sample_tx 2 5)) =
      (Inr (length (kspt_wire (sample_tx 2 5))), kspt_wire (sample_tx 2 5))"
    using serialize_pskt_bytes [of "sample_tx 2 5" "kspt_wire (sample_tx 2 5)"] by simp
  from kspt_parse_serialize [OF ok this, of transaction_new] show ?thesis by auto
qed

text \<open>
  The lengths account for every byte: cutting a version-1 payload short anywhere is reported
  as \<open>BufferTooShort\<close>, and appending anything to it as \<open>TrailingData\<close>.
\<close>

theorem kspt_v1_exact_length:
  assumes "kspt_ok tx" "bindings_ok tx" "redeems_short rs (tx_num_inputs tx)"
  shows "(\<forall>k < length (kspt_body_wire FORMAT_VERSION rs tx).
      fst (parse_pskt (take k (kspt_body_wire FORMAT_VERSION rs tx)) t0) = Inl BufferTooShort) \<and>
    fst (parse_pskt (kspt_body_wire FORMAT_VERSION rs tx) t0) = Inr () \<and>
    (\<forall>junk. junk \<noteq> [] \<longrightarrow>
      fst (parse_pskt (kspt_body_wire FORMAT_VERSION rs tx @ junk) t0) = Inl TrailingData)"
  using parse_pskt_short [OF assms, of FORMAT_VERSION] parse_pskt_trailing [OF assms]
    parse_pskt_wire [OF assms, of FORMAT_VERSION "[]" t0]
  by (simp add: hints_ok_def hints_wire_def)

theorem kspt_v1_exact_length_witness:
  "fst (parse_pskt (kspt_body_wire FORMAT_VERSION (Some (\<lambda>_. [0x51])) (sample_tx 1 5)) transaction_new) = Inr ()"
proof -
  have ok: "kspt_ok (sample_tx 1 5)" "bindings_ok (sample_tx 1 5)"
    by (simp_all add: sample_tx_ok size_limits word_le_nat_alt)
  have "redeems_short (Some (\<lambda>_. [0x51])) (tx_num_inputs (sample_tx 1 5))"
    by (simp add: redeems_short_def list_all_iff)
  from kspt_v1_exact_length [OF ok this, of transaction_new] show ?thesis by blast
qed

text \<open>
  The hint trailer carries no count: for every \<open>k\<close>, a version-4 payload cut after its first \<open>k\<close>
  hint records is accepted and simply lacks the others.
\<close>

theorem kspt_v4_hint_cut_accepted:
  assumes "kspt_ok tx" "bindings_ok tx"
  shows "\<exists>tx'. parse_pskt (kspt_body_wire FORMAT_VERSION_V4 None tx @ hints_wire (take k (hint_records tx))) t0 =
      (Inr (), tx') \<and> view tx' = view tx \<and> tx' = fold put_hint (take k (hint_records tx)) (kspt_mid None tx)"
proof -
  have "hints_ok (tx_num_inputs tx) (tx_num_outputs tx) (take k (hint_records tx))"
    using hint_records_ok [OF kspt_okD(2,3) [OF assms(1)]]
    unfolding hints_ok_def list_all_iff by (simp only: take_map [symmetric]) (blast dest: in_set_takeD intro: distinct_take)
  then show ?thesis
    using parse_pskt_wire [OF assms, of None FORMAT_VERSION_V4] assms(1)
    by (simp add: redeems_short_def view_fold_put_hint view_kspt_mid)
qed

theorem kspt_v4_hint_cut_accepted_witness:
  "length (hint_records hinted_tx) = 1 \<and>
   (\<exists>tx'. parse_pskt (kspt_body_wire FORMAT_VERSION_V4 None hinted_tx) transaction_new = (Inr (), tx') \<and>
      view tx' = view hinted_tx \<and> tx' = kspt_mid None hinted_tx)"
  using kspt_v4_hint_cut_accepted [OF hinted_tx_ok(1,2), of 0 transaction_new] hinted_tx_ok(3)
  by (auto simp: hints_wire_def)

text \<open>
  C26: Input totals are not bounded by the parser: there is a payload it accepts for which the fee
  computation of the review screen overflows 64 bits (the firmware builds with overflow checks, so
  this is a panic). Up to six inputs that cannot happen.
\<close>

theorem accepted_fee_can_overflow:
  "(\<exists>data tx. parse_pskt data t0 = (Inr (), tx) \<and> fee tx = None) \<and>
   (\<forall>data tx. parse_pskt data t0 = (Inr (), tx) \<and> tx_num_inputs tx \<le> 6 \<longrightarrow>
      fee tx = Some (of_nat (input_sompi tx - output_sompi tx)))"
proof (intro conjI allI impI)
  have ok: "kspt_ok (sample_tx 7 MAX_SOMPI)" "bindings_ok (sample_tx 7 MAX_SOMPI)"
      "input_sompi (sample_tx 7 MAX_SOMPI) = 20300000000000000000"
    by (simp_all add: sample_tx_ok size_limits)
  obtain tx where tx: "parse_pskt (kspt_wire (sample_tx 7 MAX_SOMPI)) t0 = (Inr (), tx)"
      "view tx = view (sample_tx 7 MAX_SOMPI)"
    using kspt_roundtrip [OF ok(1,2)] by metis
  then have "input_sompi tx = 20300000000000000000"
    using ok(3) by (simp add: input_sompi_view)
  then have "fee tx = None" by (simp add: fee_eq)
  with tx show "\<exists>data tx. parse_pskt data t0 = (Inr (), tx) \<and> fee tx = None" by blast
next
  fix data tx assume run: "parse_pskt data t0 = (Inr (), tx) \<and> tx_num_inputs tx \<le> 6"
  then have ok: "kspt_ok tx" using parse_pskt_accepts by blast
  have "input_sompi tx \<le> 6 * unat MAX_SOMPI"
    using input_sompi_bound [OF ok] run by (meson le_trans mult_le_mono1)
  moreover have "output_sompi tx \<le> unat MAX_SOMPI"
    using output_sompi_total [OF kspt_okD(1) [OF ok]] ok by (simp add: kspt_ok_def)
  ultimately show "fee tx = Some (of_nat (input_sompi tx - output_sompi tx))"
    by (simp add: fee_eq)
qed

theorem accepted_fee_can_overflow_witness:
  "fee (snd (parse_pskt (kspt_wire (sample_tx 1 5)) transaction_new)) = Some 5"
proof -
  have ok: "kspt_ok (sample_tx 1 5)" "bindings_ok (sample_tx 1 5)" "input_sompi (sample_tx 1 5) = 5"
    by (simp_all add: sample_tx_ok size_limits word_le_nat_alt)
  obtain tx where tx: "parse_pskt (kspt_wire (sample_tx 1 5)) transaction_new = (Inr (), tx)"
      "view tx = view (sample_tx 1 5)"
    using kspt_roundtrip [OF ok(1,2)] by metis
  have "view_outputs (view (sample_tx 1 5)) = [output_view output_default]"
    by (simp add: view_def outputs_def sample_tx_def transaction_new_def size_limits)
  then have "output_sompi tx = 0"
    by (simp add: output_sompi_view tx(2) output_view_def output_default_def)
  moreover have "input_sompi tx = 5" using ok(3) tx(2) by (simp add: input_sompi_view)
  moreover have "tx_num_inputs tx = 1"
  proof -
    have "length (inputs tx) = length (inputs (sample_tx 1 5))"
      using arg_cong [OF tx(2), of "\<lambda>v. length (view_inputs v)"] by (simp add: view_def)
    moreover have "length (inputs t) = tx_num_inputs t" if "kspt_ok t" for t
      using kspt_okD(1,2) [OF that] by (simp add: inputs_def wf_transaction_def)
    ultimately show ?thesis
      using parse_pskt_accepts(1) [OF tx(1)] ok(1) by (simp add: sample_tx_def)
  qed
  ultimately show ?thesis
    using accepted_fee_can_overflow [of transaction_new] tx(1) by auto
qed

end
