(* ===== verification/KasStatus.thy ===== *)
theory KasStatus
  imports KasTransaction
begin

text \<open>
  How far a transaction is signed (core/src/wallet/pskt.rs): \<open>analyze_input_script\<close> looks through a
  pay-to-script-hash input into the redeem script it commits to, \<open>is_fully_signed\<close> and
  \<open>signature_status\<close> count signatures against what the scripts require. The unkeyed BLAKE2b-256
  of the blake2b\_simd crate is the parameter \<open>hash\<close>. The counters are the code's \<open>u8\<close>; the
  lemmas show that their additions cannot overflow.
\<close>

definition analyze_input_script ::
  "(bytes \<Rightarrow> bytes) \<Rightarrow> transaction \<Rightarrow> nat \<Rightarrow> script_type \<times> multisig_info option"
where
  "analyze_input_script hash tx input_idx =
     (let script = utxo_spk (in_utxo (tx_inputs tx ! input_idx));
          st = detect_script_type (spk_script script) (spk_script_len script)
      in if st = P2SH \<and> in_redeem_script_len (tx_inputs tx ! input_idx) > 0 then
           (let rs = redeem_bytes tx input_idx; rs_len = length rs
            in if spk_script_len script \<noteq> 35 then (UnknownScript, None)
               else if hash rs \<noteq> slice 2 32 (spk_script script) then (UnknownScript, None)
               else (P2SH, if detect_script_type rs rs_len = Multisig
                           then parse_multisig_script rs rs_len else None))
         else
           (st, if st = Multisig
                then parse_multisig_script (spk_script script) (spk_script_len script) else None))"

definition input_signed :: "(bytes \<Rightarrow> bytes) \<Rightarrow> transaction \<Rightarrow> nat \<Rightarrow> bool" where
  "input_signed hash tx i =
     (case analyze_input_script hash tx i of
        (P2PK, _) \<Rightarrow> in_sig_len (tx_inputs tx ! i) \<noteq> 0
      | (UnknownScript, _) \<Rightarrow> False
      | (_, Some ms) \<Rightarrow> \<not> in_sig_count (tx_inputs tx ! i) < ms_m ms
      | (_, None) \<Rightarrow> in_sig_count (tx_inputs tx ! i) \<noteq> 0)"

definition is_fully_signed :: "(bytes \<Rightarrow> bytes) \<Rightarrow> transaction \<Rightarrow> bool" where
  "is_fully_signed hash tx = list_all (input_signed hash tx) [0..<tx_num_inputs tx]"

text \<open>What one input adds to (present, required).\<close>

definition input_status :: "(bytes \<Rightarrow> bytes) \<Rightarrow> transaction \<Rightarrow> nat \<Rightarrow> u8 \<times> u8" where
  "input_status hash tx i =
     (let inp = tx_inputs tx ! i
      in case analyze_input_script hash tx i of
           (P2PK, _) \<Rightarrow> (if in_sig_len inp > 0 then 1 else 0, 1)
         | (UnknownScript, _) \<Rightarrow> (0, 1)
         | (_, Some ms) \<Rightarrow> (min (in_sig_count inp) (ms_m ms), ms_m ms)
         | (_, None) \<Rightarrow> (if in_sig_count inp > 0 then 1 else 0, 1))"

definition signature_status :: "(bytes \<Rightarrow> bytes) \<Rightarrow> transaction \<Rightarrow> u8 \<times> u8" where
  "signature_status hash tx =
     fold (\<lambda>i (present, required). case input_status hash tx i of
             (p, r) \<Rightarrow> (present + p, required + r))
       [0..<tx_num_inputs tx] (0, 0)"

section \<open>What the analysis can report\<close>

lemma multisig_info_bounds:
  assumes "parse_multisig_script script len = Some info" "len \<le> length script"
  shows "1 \<le> unat (ms_m info) \<and> unat (ms_m info) \<le> unat (ms_n info) \<and> unat (ms_n info) \<le> 5"
proof -
  obtain m pks where "multisig_ok m pks" "info = \<lparr>ms_m = of_nat m, ms_n = of_nat (length pks),
      ms_pubkeys = pks @ replicate (MAX_MULTISIG_KEYS - length pks) (zeros 32)\<rparr>"
    using assms parse_multisig_script_grammar by blast
  then show ?thesis by (simp add: multisig_ok_def size_limits unat_of_nat)
qed

lemma analyze_multisig:
  assumes "analyze_input_script hash tx i = (st, Some info)"
  shows "\<exists>script len. parse_multisig_script script len = Some info \<and>
     (st = P2SH \<and> script = redeem_bytes tx i \<and> len = length script \<and>
        hash script = slice 2 32 (spk_script (utxo_spk (in_utxo (tx_inputs tx ! i)))) \<and>
        detect_script_type (spk_script (utxo_spk (in_utxo (tx_inputs tx ! i))))
          (spk_script_len (utxo_spk (in_utxo (tx_inputs tx ! i)))) = P2SH
      \<or> st = Multisig \<and> script = spk_script (utxo_spk (in_utxo (tx_inputs tx ! i))) \<and>
        len = spk_script_len (utxo_spk (in_utxo (tx_inputs tx ! i))))"
  using assms by (auto simp: analyze_input_script_def Let_def split: if_splits)

lemma analyze_info_bounds:
  assumes "wf_transaction tx" "i < MAX_INPUTS" "analyze_input_script hash tx i = (st, Some info)"
  shows "1 \<le> unat (ms_m info) \<and> unat (ms_m info) \<le> unat (ms_n info) \<and> unat (ms_n info) \<le> 5"
proof -
  have "wf_spk (utxo_spk (in_utxo (tx_inputs tx ! i)))"
    using wf_transaction_nth [OF assms(1,2)] by (simp add: wf_input_def)
  then show ?thesis
    using analyze_multisig [OF assms(3)] multisig_info_bounds by (fastforce simp: wf_spk_def)
qed

section \<open>The counters are exact\<close>

lemma input_status_bounds:
  assumes "wf_transaction tx" "i < MAX_INPUTS" "input_status hash tx i = (p, r)"
  shows "unat p \<le> unat r \<and> unat r \<le> 5 \<and> 1 \<le> unat r \<and> (input_signed hash tx i \<longleftrightarrow> p = r)"
proof (cases "analyze_input_script hash tx i")
  case (Pair st ms)
  show ?thesis
  proof (cases ms)
    case None
    then show ?thesis
      using assms(3) Pair
      by (cases st) (auto simp: input_status_def input_signed_def Let_def word_gt_0)
  next
    case (Some info)
    note b = analyze_info_bounds [OF assms(1,2) Pair [unfolded Some]]
    have "min c (ms_m info) = ms_m info \<longleftrightarrow> \<not> c < ms_m info" for c by (auto simp: min_def)
    then show ?thesis
      using assms(3) Pair Some b
      by (cases st) (auto simp: input_status_def input_signed_def Let_def word_gt_0 min_def word_le_nat_alt)
  qed
qed

definition status_sum :: "(bytes \<Rightarrow> bytes) \<Rightarrow> transaction \<Rightarrow> nat \<Rightarrow> nat \<times> nat" where
  "status_sum hash tx n =
     (\<Sum>i<n. unat (fst (input_status hash tx i)), \<Sum>i<n. unat (snd (input_status hash tx i)))"

lemma status_sum_bounds:
  assumes "wf_transaction tx" "n \<le> MAX_INPUTS"
  shows "fst (status_sum hash tx n) \<le> snd (status_sum hash tx n)" "snd (status_sum hash tx n) \<le> 5 * n"
    "fst (status_sum hash tx n) = snd (status_sum hash tx n) \<longleftrightarrow> (\<forall>i<n. input_signed hash tx i)"
proof -
  have one: "unat (fst (input_status hash tx i)) \<le> unat (snd (input_status hash tx i)) \<and>
      unat (snd (input_status hash tx i)) \<le> 5 \<and>
      (input_signed hash tx i \<longleftrightarrow> unat (fst (input_status hash tx i)) = unat (snd (input_status hash tx i)))"
    if "i < MAX_INPUTS" for i
    using input_status_bounds [OF assms(1) that, of hash "fst (input_status hash tx i)" "snd (input_status hash tx i)"]
    by (simp add: word_unat_eq_iff)
  show "fst (status_sum hash tx n) \<le> snd (status_sum hash tx n)" "snd (status_sum hash tx n) \<le> 5 * n"
    "fst (status_sum hash tx n) = snd (status_sum hash tx n) \<longleftrightarrow> (\<forall>i<n. input_signed hash tx i)"
    using assms(2)
  proof (induction n)
    case (Suc n)
    {
      case 1
      then show ?case using Suc.IH(1) one [of n] by (simp add: status_sum_def)
    next
      case 2
      then show ?case using Suc.IH(2) one [of n] by (simp add: status_sum_def)
    next
      case 3
      then have "fst (status_sum hash tx n) \<le> snd (status_sum hash tx n)"
        "(fst (status_sum hash tx n) = snd (status_sum hash tx n)) = (\<forall>i<n. input_signed hash tx i)"
        using Suc.IH(1,3) by simp_all
      then show ?case using one [of n] 3 by (auto simp: status_sum_def less_Suc_eq)
    }
  qed (simp_all add: status_sum_def)
qed

lemma signature_status_sum:
  assumes "wf_transaction tx"
  shows "unat (fst (signature_status hash tx)) = fst (status_sum hash tx (tx_num_inputs tx)) \<and>
         unat (snd (signature_status hash tx)) = snd (status_sum hash tx (tx_num_inputs tx))"
proof -
  let ?f = "\<lambda>n. fold (\<lambda>i (present, required). case input_status hash tx i of
             (p, r) \<Rightarrow> (present + p, required + r)) [0..<n] (0 :: u8, 0 :: u8)"
  have "unat (fst (?f n)) = fst (status_sum hash tx n) \<and> unat (snd (?f n)) = snd (status_sum hash tx n)"
    if "n \<le> MAX_INPUTS" for n
    using that
  proof (induction n)
    case 0
    then show ?case by (simp add: status_sum_def)
  next
    case (Suc n)
    let ?s = "input_status hash tx n"
    obtain a b where f: "?f n = (a, b)" by (cases "?f n")
    have IH: "unat a = fst (status_sum hash tx n)" "unat b = snd (status_sum hash tx n)"
      using Suc by (simp_all add: f)
    have "snd (status_sum hash tx (Suc n)) \<le> 5 * Suc n" "fst (status_sum hash tx (Suc n)) \<le> snd (status_sum hash tx (Suc n))"
      using status_sum_bounds [OF assms Suc.prems] by simp_all
    then have "unat a + unat (fst ?s) < 256" "unat b + unat (snd ?s) < 256"
      using Suc.prems by (simp_all add: IH status_sum_def size_limits)
    moreover have "?f (Suc n) = (a + fst ?s, b + snd ?s)"
      using f by (simp add: split_beta)
    ultimately show ?case by (simp add: IH unat_word_ariths status_sum_def)
  qed
  then show ?thesis
    using assms by (simp add: signature_status_def wf_transaction_def)
qed

section \<open>Properties\<close>

text \<open>
  C21: The device never reports multisig details that the spent output does not commit to: if a
  pay-to-script-hash input is analysed as multisig, the redeem script hashes to the 32 bytes of
  the output script, is of the form \<open>OP_m keys OP_n OP_CHECKMULTISIG\<close>, and the details are its own.
\<close>

theorem analyze_commits_to_redeem:
  assumes "analyze_input_script hash tx i = (P2SH, Some info)"
  shows "hash (redeem_bytes tx i) = slice 2 32 (spk_script (utxo_spk (in_utxo (tx_inputs tx ! i)))) \<and>
    (\<exists>m pks. multisig_ok m pks \<and> redeem_bytes tx i = multisig_script m pks \<and>
       info = \<lparr>ms_m = of_nat m, ms_n = of_nat (length pks),
               ms_pubkeys = pks @ replicate (MAX_MULTISIG_KEYS - length pks) (zeros 32)\<rparr>)"
  using analyze_multisig [OF assms] parse_multisig_script_grammar [of "length (redeem_bytes tx i)" "redeem_bytes tx i" info]
  by auto

definition sample_p2sh_tx :: transaction where
  "sample_p2sh_tx = transaction_new\<lparr>tx_num_inputs := 1, tx_inputs := (tx_inputs transaction_new)[0 :=
     input_default\<lparr>in_utxo := (in_utxo input_default)\<lparr>utxo_spk :=
         \<lparr>spk_version = 0, spk_script = blit (p2sh_script (replicate 32 7)) 0 (zeros 512), spk_script_len = 35\<rparr>\<rparr>,
       in_redeem_script := blit (multisig_script 1 [replicate 32 9]) 0 (zeros 512),
       in_redeem_script_len := 36\<rparr>]\<rparr>"

lemma sample_p2sh_analyzed:
  "analyze_input_script (\<lambda>_. replicate 32 7) sample_p2sh_tx 0 = (P2SH, Some
     \<lparr>ms_m = 1, ms_n = 1, ms_pubkeys = [replicate 32 9, zeros 32, zeros 32, zeros 32, zeros 32]\<rparr>)"
proof -
  define ms where "ms = multisig_script 1 [replicate 32 9]"
  have ok: "multisig_ok 1 [replicate 32 9]" by (simp add: multisig_ok_def size_limits)
  have len: "length ms = 36" by (simp add: ms_def multisig_script_def)
  have rs: "redeem_bytes sample_p2sh_tx 0 = ms"
    using take_blit_0 [of ms "zeros 512"] len
    unfolding sample_p2sh_tx_def ms_def [symmetric]
    by (simp add: redeem_bytes_def transaction_new_def input_default_def input_zero_def size_limits)
  have parse: "parse_multisig_script ms 36 = Some
     \<lparr>ms_m = 1, ms_n = 1, ms_pubkeys = [replicate 32 9, zeros 32, zeros 32, zeros 32, zeros 32]\<rparr>"
  proof -
    have "take 36 ms = multisig_script 1 [replicate 32 9]" "36 \<le> length ms"
      using len by (simp_all add: ms_def)
    note detect_multisigI [OF ok this(2,1)]
    moreover have "replicate (MAX_MULTISIG_KEYS - length [replicate 32 (9 :: u8)]) (zeros 32) =
        [zeros 32, zeros 32, zeros 32, zeros 32]"
      by (simp add: size_limits eval_nat_numeral)
    ultimately show ?thesis by simp
  qed
  then have type: "detect_script_type ms 36 = Multisig"
    by (auto simp: parse_multisig_script_def split: if_splits)
  define spk where "spk = blit (p2sh_script (replicate 32 7)) 0 (zeros 512)"
  have spk: "detect_script_type spk 35 = P2SH" "slice 2 32 spk = replicate 32 7"
    by (simp_all add: spk_def detect_script_type_def p2sh_script_def blit_def slice_def nth_append opcodes)
  have "utxo_spk (in_utxo (tx_inputs sample_p2sh_tx ! 0)) = \<lparr>spk_version = 0, spk_script = spk, spk_script_len = 35\<rparr>"
    "in_redeem_script_len (tx_inputs sample_p2sh_tx ! 0) = 36"
    by (simp_all add: sample_p2sh_tx_def transaction_new_def size_limits spk_def)
  then show ?thesis
    unfolding analyze_input_script_def Let_def rs by (simp add: spk len type parse)
qed

theorem analyze_commits_to_redeem_witness:
  "redeem_bytes sample_p2sh_tx 0 = multisig_script 1 [replicate 32 9]"
proof -
  obtain m pks where ok: "multisig_ok m pks" "redeem_bytes sample_p2sh_tx 0 = multisig_script m pks"
    and eq: "(1 :: u8) = of_nat m" "(1 :: u8) = of_nat (length pks)"
      "[replicate 32 9, zeros 32, zeros 32, zeros 32, zeros 32] = pks @ replicate (MAX_MULTISIG_KEYS - length pks) (zeros 32)"
    using analyze_commits_to_redeem [OF sample_p2sh_analyzed] by auto
  have small: "unat (of_nat n :: u8) = n" if "n \<le> 5" for n using that by (simp add: unat_of_nat)
  have "m = 1" "length pks = 1"
    using ok(1) small [of m] small [of "length pks"] eq(1,2) by (auto simp: multisig_ok_def size_limits)
  moreover from this obtain pk where "pks = [pk]" by (cases pks) auto
  ultimately show ?thesis using ok(2) eq(3) by simp
qed

text \<open>
  The signature counters are exact sums over the inputs (no \<open>u8\<close> wrap-around), never show more
  present than required, and show all signatures present exactly when the transaction is fully
  signed.
\<close>

theorem signature_status_spec:
  assumes "wf_transaction tx" "signature_status hash tx = (present, required)"
  shows "unat present = (\<Sum>i<tx_num_inputs tx. unat (fst (input_status hash tx i))) \<and>
    unat required = (\<Sum>i<tx_num_inputs tx. unat (snd (input_status hash tx i))) \<and>
    unat present \<le> unat required \<and> unat required \<le> 160 \<and>
    (is_fully_signed hash tx \<longleftrightarrow> present = required)"
proof -
  have n: "tx_num_inputs tx \<le> MAX_INPUTS" using assms(1) by (simp add: wf_transaction_def)
  have u: "unat present = fst (status_sum hash tx (tx_num_inputs tx))"
      "unat required = snd (status_sum hash tx (tx_num_inputs tx))"
    using signature_status_sum [OF assms(1), of hash] assms(2) by simp_all
  note b = status_sum_bounds [OF assms(1) n, of hash]
  have "is_fully_signed hash tx \<longleftrightarrow> unat present = unat required"
    using b(3) by (auto simp: is_fully_signed_def list_all_iff u)
  moreover have "unat required \<le> 160" using b(2) n by (simp add: u size_limits)
  ultimately show ?thesis
    using b(1) u by (simp add: status_sum_def word_unat_eq_iff)
qed

theorem signature_status_spec_witness:
  "signature_status (\<lambda>_. replicate 32 7) transaction_new = (0, 0) \<and> is_fully_signed (\<lambda>_. replicate 32 7) transaction_new"
proof -
  have s: "signature_status (\<lambda>_. replicate 32 7) transaction_new = (0, 0)"
    by (simp add: signature_status_def transaction_new_def)
  with signature_status_spec [OF wf_transaction_new s] show ?thesis by simp
qed

end
