(* ===== verification/KasKsptSigned.thy ===== *)
theory KasKsptSigned
  imports KasKspt KasStatus
begin

text \<open>
  The signed transport format (core/src/wallet/pskt.rs, versions 2, 3 and 5): partial signatures
  and redeem scripts per input, then the trailers, a stealth tweak (0x53), covenant bindings
  (0x43) and derivation hints (0x44, 0x45). \<open>serialize_signed_pskt_v2\<close> and
  \<open>parse_signed_pskt_v2\<close>, the byte grammar that connects them, and the round trip between two
  signers.
\<close>

section \<open>serialize\_signed\_pskt\_v2\<close>

definition write_sig :: "input_sig \<Rightarrow> writer" where
  "write_sig s =
     whenE (sig_present s)
      (thenE (write_u8 (sig_pubkey_pos s))
      (thenE (write_u8 (sig_sighash_type s))
      (write_bytes (sig_signature s))))"

definition write_input_v2 :: "transaction \<Rightarrow> nat \<Rightarrow> writer" where
  "write_input_v2 tx i =
     (let input = tx_inputs tx ! i in
     thenE (write_input input)
    (thenE (write_u8 (in_sig_count input))
    (thenE (forE [0..<unat (in_sig_count input)] (\<lambda>s. write_sig (in_sigs input ! s)))
    (thenE (write_u16_le (of_nat (in_redeem_script_len input)))
    (whenE (in_redeem_script_len input > 0) (write_bytes (redeem_bytes tx i)))))))"

definition write_covenant_record :: "transaction \<Rightarrow> nat \<Rightarrow> writer" where
  "write_covenant_record tx i =
     (let out = tx_outputs tx ! i in
     whenE (out_has_covenant out)
      (thenE (write_u8 0x43)
      (thenE (write_u8 (of_nat i))
      (thenE (write_u16_le (out_covenant_auth_input out))
      (write_bytes (out_covenant_id out))))))"

definition write_signed_v2 :: "(bytes \<Rightarrow> bytes) \<Rightarrow> transaction \<Rightarrow> writer" where
  "write_signed_v2 hash tx =
     (let hints = has_hints tx in
     thenE (write_bytes PSKT_MAGIC)
    (thenE (write_u8 (if hints then FORMAT_VERSION_SIGNED_V4 else FORMAT_VERSION_V3))
    (thenE (write_u8 (if is_fully_signed hash tx then 0x01 else 0x00))
    (thenE (write_global tx)
    (thenE (forE [0..<tx_num_inputs tx] (write_input_v2 tx))
    (thenE (forE [0..<tx_num_outputs tx] (\<lambda>i. write_output (tx_outputs tx ! i)))
    (thenE (whenE (tx_has_stealth_tweak tx)
       (thenE (write_u8 0x53) (write_bytes (tx_stealth_tweak tx))))
    (thenE (forE [0..<tx_num_outputs tx] (write_covenant_record tx))
    (whenE hints (write_hints tx))))))))))"

definition serialize_signed_pskt_v2 ::
  "(bytes \<Rightarrow> bytes) \<Rightarrow> transaction \<Rightarrow> bytes \<Rightarrow> (pskt_error + nat) \<times> bytes"
where
  "serialize_signed_pskt_v2 hash tx = run_writer (write_signed_v2 hash tx)"

section \<open>parse\_signed\_pskt\_v2\<close>

definition parse_signed_header :: "u8 tx_parser" where
  "parse_signed_header =
     bindE (rd (read_bytes 4)) (\<lambda>magic.
     thenE (fail_if (magic \<noteq> PSKT_MAGIC) InvalidMagic)
    (bindE (rd read_u8) (\<lambda>version.
     thenE (fail_if (version \<noteq> 0x02 \<and> version \<noteq> FORMAT_VERSION_V3 \<and>
        version \<noteq> FORMAT_VERSION_SIGNED_V4) UnsupportedVersion)
    (bindE (rd read_u8) (\<lambda>flags. ret version)))))"

definition parse_signed_global :: "(nat \<times> nat) tx_parser" where
  "parse_signed_global =
     bindE (rd read_u16_le) (\<lambda>version.
     thenE (upd (tx_version_update (\<lambda>_. version)))
    (bindE (rd read_u8) (\<lambda>ni. bindE (rd read_u8) (\<lambda>no.
     thenE (fail_if (unat ni = 0 \<or> unat ni > MAX_INPUTS) TooManyInputs)
    (thenE (fail_if (unat no = 0 \<or> unat no > MAX_OUTPUTS) TooManyOutputs)
    (thenE (upd (tx_num_inputs_update (\<lambda>_. unat ni)))
    (thenE (upd (tx_num_outputs_update (\<lambda>_. unat no)))
    (thenE parse_tx_fields (ret (unat ni, unat no))))))))))"

text \<open>Here the script version is stored before the length is checked.\<close>

definition parse_signed_spk ::
  "((script_public_key \<Rightarrow> script_public_key) \<Rightarrow> transaction \<Rightarrow> transaction) \<Rightarrow> unit tx_parser"
where
  "parse_signed_spk up =
     bindE (rd read_u16_le) (\<lambda>spk_version.
     thenE (upd (up (spk_version_update (\<lambda>_. spk_version))))
    (bindE (rd read_spk_len) (\<lambda>len.
     thenE (fail_if (len > MAX_SCRIPT_SIZE) ScriptTooLong) (parse_script up len))))"

definition upd_sig :: "nat \<Rightarrow> nat \<Rightarrow> (input_sig \<Rightarrow> input_sig) \<Rightarrow> transaction \<Rightarrow> transaction" where
  "upd_sig i s f = upd_in i (\<lambda>inp. inp\<lparr>in_sigs := (in_sigs inp)[s := f (in_sigs inp ! s)]\<rparr>)"

definition parse_sig :: "nat \<Rightarrow> nat \<Rightarrow> unit tx_parser" where
  "parse_sig i s =
     thenE (fail_if (s \<ge> MAX_SIGS_PER_INPUT) TooManyInputs)
    (bindE (rd read_u8) (\<lambda>pos.
     thenE (upd (upd_sig i s (sig_pubkey_pos_update (\<lambda>_. pos))))
    (bindE (rd read_u8) (\<lambda>sht.
     thenE (upd (upd_sig i s (sig_sighash_type_update (\<lambda>_. sht))))
    (bindE (rd (read_bytes 64)) (\<lambda>sig.
     thenE (upd (upd_sig i s (sig_signature_update (\<lambda>_. sig))))
    (upd (upd_sig i s (sig_present_update (\<lambda>_. True))))))))))"

text \<open>The legacy single-signature fields follow the first signature.\<close>

definition sync_legacy :: "nat \<Rightarrow> transaction \<Rightarrow> transaction" where
  "sync_legacy i = upd_in i (\<lambda>inp. inp\<lparr>in_signature := sig_signature (in_sigs inp ! 0),
     in_sig_len := 64, in_sighash_type := sig_sighash_type (in_sigs inp ! 0)\<rparr>)"

definition parse_sigs :: "nat \<Rightarrow> unit tx_parser" where
  "parse_sigs i =
     bindE (rd read_u8) (\<lambda>sig_count.
     thenE (upd (upd_in i (in_sig_count_update (\<lambda>_. sig_count))))
    (thenE (forE [0..<unat sig_count] (parse_sig i))
    (if sig_count > 0 then upd (sync_legacy i) else ret ())))"

definition parse_signed_input :: "u8 \<Rightarrow> nat \<Rightarrow> unit tx_parser" where
  "parse_signed_input version i =
     thenE (parse_input_base i)
    (thenE (parse_signed_spk (upd_in_spk i))
    (thenE (parse_sigs i)
    (bindE (if version = FORMAT_VERSION_V3 \<or> version = FORMAT_VERSION_SIGNED_V4
            then bindE (rd read_u16_le) (\<lambda>w. ret (unat w))
            else bindE (rd read_u8) (\<lambda>b. ret (unat b)))
      (parse_redeem i))))"

definition parse_signed_output :: "nat \<Rightarrow> u64 \<Rightarrow> u64 tx_parser" where
  "parse_signed_output i out_total =
     bindE (parse_value i out_total) (\<lambda>t.
     thenE (parse_signed_spk (upd_out_spk i)) (ret t))"

subsection \<open>Trailers\<close>

definition peek :: "(transaction, u8 option) parser" where
  "peek = (\<lambda>(r, t). (Inr (peek_u8 r), (r, t)))"

definition parse_stealth :: "unit tx_parser" where
  "parse_stealth =
     bindE remaining (\<lambda>left. bindE peek (\<lambda>next.
       if left \<ge> 33 \<and> next = Some 0x53 then
         bindE (rd read_u8) (\<lambda>_. bindE (rd (read_bytes 32)) (\<lambda>tweak.
         thenE (upd (tx_stealth_tweak_update (\<lambda>_. tweak)))
        (upd (tx_has_stealth_tweak_update (\<lambda>_. True)))))
       else ret ()))"

definition parse_covenant_record :: "unit tx_parser" where
  "parse_covenant_record =
     bindE (rd read_u8) (\<lambda>_.
     bindE (rd read_u8) (\<lambda>out_idx.
     bindE (rd read_u16_le) (\<lambda>auth_input.
     bindE (rd (read_bytes 32)) (\<lambda>cov_id.
     bindE (get tx_num_outputs) (\<lambda>n.
       if unat out_idx < n then
         upd (upd_out (unat out_idx) (\<lambda>out. out\<lparr>out_has_covenant := True,
                out_covenant_auth_input := auth_input, out_covenant_id := cov_id\<rparr>))
       else ret ())))))"

text \<open>
  A trailer loop: as long as at least \<open>len\<close> bytes remain and the next one is among the markers, read
  a record. Records start by reading a byte, so the loop ends.
\<close>

definition trailer_next :: "nat \<Rightarrow> u8 list \<Rightarrow> byte_reader \<Rightarrow> bool" where
  "trailer_next len markers r \<longleftrightarrow>
     len \<le> reader_remaining r \<and> peek_u8 r \<in> Some ` set markers"

lemma forward_covenant_record: "forward parse_covenant_record"
  unfolding parse_covenant_record_def by (auto intro!: forward_intros)

lemma forward_hint_body_rest:
  "forward (bindE (rd read_u8) (parse_hint_body ni no))"
  by (intro forward_intros forward_hint_body)

lemma read_u8_step:
  assumes "bindE (rd read_u8) f (r, t) = (Inr u, (r', t'))" "\<And>b. forward (f b)"
  shows "reader_remaining r' < reader_remaining r"
proof (cases "unread r")
  case Nil
  then show ?thesis using assms(1) by (simp add: bindE_def rd_apply read_u8_unread)
next
  case (Cons b bs)
  then have "f b (advance 1 r, t) = (Inr u, (r', t'))"
    using assms(1) by (simp add: bindE_Inr [of "rd read_u8" _ b] rd_apply read_u8_unread)
  then have "reader_remaining r' \<le> reader_remaining (advance 1 r)"
    using assms(2) [of b] unfolding forward_def by (metis fst_conv snd_conv)
  moreover have "reader_remaining r = Suc (length bs)" using Cons length_unread [of r] by simp
  ultimately show ?thesis by simp
qed

lemma covenant_record_progress:
  "parse_covenant_record (r, t) = (Inr u, (r', t')) \<Longrightarrow> reader_remaining r' < reader_remaining r"
  unfolding parse_covenant_record_def by (erule read_u8_step) (auto intro!: forward_intros)

function parse_covenants ::
  "byte_reader \<times> transaction \<Rightarrow> (pskt_error + unit) \<times> (byte_reader \<times> transaction)"
where
  "parse_covenants (r, t) =
     (if trailer_next 36 [0x43] r
      then (case parse_covenant_record (r, t) of
              (Inl e, s) \<Rightarrow> (Inl e, s)
            | (Inr _, (r', t')) \<Rightarrow> parse_covenants (r', t'))
      else (Inr (), (r, t)))"
  by pat_completeness auto

termination
  by (relation "measure (\<lambda>(r, t). reader_remaining r)")
    (auto dest!: sym [of "(_, _)" "parse_covenant_record _"] covenant_record_progress)

declare parse_covenants.simps [simp del]

text \<open>A record body is read without the length check of the unsigned parser; the loop made it.\<close>

function parse_signed_hints ::
  "nat \<Rightarrow> nat \<Rightarrow> byte_reader \<times> transaction \<Rightarrow> (pskt_error + unit) \<times> (byte_reader \<times> transaction)"
where
  "parse_signed_hints ni no (r, t) =
     (if trailer_next (MS45_HINT_BODY + 1) [TRAILER_MS45_IN, TRAILER_MS45_OUT] r
      then (case bindE (rd read_u8) (parse_hint_body ni no) (r, t) of
              (Inl e, s) \<Rightarrow> (Inl e, s)
            | (Inr _, (r', t')) \<Rightarrow> parse_signed_hints ni no (r', t'))
      else (Inr (), (r, t)))"
  by pat_completeness auto

termination
  by (relation "measure (\<lambda>(ni, no, r, t). reader_remaining r)")
    (auto dest!: sym [of "(_, _)" "bindE _ _ _"] read_u8_step intro: forward_hint_body)

declare parse_signed_hints.simps [simp del]

definition parse_signed_front :: "(nat \<times> nat) tx_parser" where
  "parse_signed_front =
     bindE parse_signed_header (\<lambda>version.
     bindE parse_signed_global (\<lambda>(ni, no).
     thenE (forE [0..<ni] (parse_signed_input version))
    (bindE (foldE [0..<no] parse_signed_output 0) (\<lambda>_. ret (ni, no)))))"

definition parse_signed_tail :: "nat \<times> nat \<Rightarrow> unit tx_parser" where
  "parse_signed_tail = (\<lambda>(ni, no).
     thenE parse_stealth
    (thenE parse_covenants
    (thenE (parse_signed_hints ni no)
    (bindE remaining (\<lambda>left. fail_if (left \<noteq> 0) TrailingData)))))"

definition parse_signed_pskt_v2 :: "bytes \<Rightarrow> transaction \<Rightarrow> (pskt_error + unit) \<times> transaction" where
  "parse_signed_pskt_v2 data tx =
     (case bindE parse_signed_front parse_signed_tail (reader_new data, tx_clear tx) of
        (res, (_, tx')) \<Rightarrow> (res, tx'))"

section \<open>The byte grammar\<close>

definition sig_wire :: "input_sig \<Rightarrow> bytes" where
  "sig_wire s = [sig_pubkey_pos s] @ [sig_sighash_type s] @ sig_signature s"

definition sigs_wire :: "transaction_input \<Rightarrow> bytes" where
  "sigs_wire i = [in_sig_count i] @
     concat (map (\<lambda>s. if sig_present (in_sigs i ! s) then sig_wire (in_sigs i ! s) else [])
       [0..<unat (in_sig_count i)])"

definition redeem_v3_wire :: "transaction \<Rightarrow> nat \<Rightarrow> bytes" where
  "redeem_v3_wire tx i =
     to_le 2 (of_nat (in_redeem_script_len (tx_inputs tx ! i)) :: u16) @
     (if in_redeem_script_len (tx_inputs tx ! i) > 0 then redeem_bytes tx i else [])"

definition input_v2_wire :: "transaction \<Rightarrow> nat \<Rightarrow> bytes" where
  "input_v2_wire tx i = input_wire (tx_inputs tx ! i) @ sigs_wire (tx_inputs tx ! i) @ redeem_v3_wire tx i"

definition covenant_wire :: "transaction \<Rightarrow> nat \<Rightarrow> bytes" where
  "covenant_wire tx i = [0x43] @ [of_nat i] @ to_le 2 (out_covenant_auth_input (tx_outputs tx ! i)) @
     out_covenant_id (tx_outputs tx ! i)"

definition covenant_indices :: "transaction \<Rightarrow> nat list" where
  "covenant_indices tx = filter (\<lambda>i. out_has_covenant (tx_outputs tx ! i)) [0..<tx_num_outputs tx]"

definition signed_front_wire :: "u8 \<Rightarrow> u8 \<Rightarrow> transaction \<Rightarrow> bytes" where
  "signed_front_wire version flags tx =
     PSKT_MAGIC @ [version] @ [flags] @ global_wire tx @
     concat (map (input_v2_wire tx) [0..<tx_num_inputs tx]) @
     concat (map (\<lambda>i. output_wire (tx_outputs tx ! i)) [0..<tx_num_outputs tx])"

definition trailer_wire :: "transaction \<Rightarrow> bytes" where
  "trailer_wire tx =
     (if tx_has_stealth_tweak tx then [0x53] @ tx_stealth_tweak tx else []) @
     concat (map (covenant_wire tx) (covenant_indices tx)) @
     hints_wire (hint_records tx)"

definition signed_wire :: "(bytes \<Rightarrow> bytes) \<Rightarrow> transaction \<Rightarrow> bytes" where
  "signed_wire hash tx =
     signed_front_wire (if has_hints tx then FORMAT_VERSION_SIGNED_V4 else FORMAT_VERSION_V3)
       (if is_fully_signed hash tx then 0x01 else 0x00) tx @ trailer_wire tx"

lemma writes_input_v2: "writes (write_input_v2 tx i) (input_v2_wire tx i)"
proof -
  have sig: "writes (write_sig s) (if sig_present s then sig_wire s else [])" for s
    unfolding write_sig_def sig_wire_def by (intro writes_intros)
  show ?thesis
    unfolding write_input_v2_def input_v2_wire_def Let_def sigs_wire_def redeem_v3_wire_def append_assoc
    by (intro writes_intros writes_input sig)
qed

lemma concat_if_filter: "concat (map (\<lambda>i. if P i then f i else []) is) = concat (map f (filter P is))"
  by (induction "is") auto

lemma writes_signed_v2: "writes (write_signed_v2 hash tx) (signed_wire hash tx)"
proof -
  have cov: "writes (write_covenant_record tx i)
      (if out_has_covenant (tx_outputs tx ! i) then covenant_wire tx i else [])" for i
    unfolding write_covenant_record_def covenant_wire_def Let_def by (intro writes_intros)
  have h: "writes (whenE (has_hints tx) (write_hints tx)) (hints_wire (hint_records tx))"
    using writes_hints [of tx]
    by (auto simp: whenE_def has_hints_records hints_wire_def writes_ret)
  have "writes (write_signed_v2 hash tx)
     (PSKT_MAGIC @ [if has_hints tx then FORMAT_VERSION_SIGNED_V4 else FORMAT_VERSION_V3] @
      [if is_fully_signed hash tx then 0x01 else 0x00] @ global_wire tx @
      concat (map (input_v2_wire tx) [0..<tx_num_inputs tx]) @
      concat (map (\<lambda>i. output_wire (tx_outputs tx ! i)) [0..<tx_num_outputs tx]) @
      (if tx_has_stealth_tweak tx then [0x53] @ tx_stealth_tweak tx else []) @
      concat (map (\<lambda>i. if out_has_covenant (tx_outputs tx ! i) then covenant_wire tx i else []) [0..<tx_num_outputs tx]) @
      hints_wire (hint_records tx))"
    unfolding write_signed_v2_def Let_def
    by (intro writes_thenE writes_forE writes_bytes writes_u8 writes_global writes_input_v2
        writes_output writes_whenE cov h)
  then show ?thesis
    by (simp add: signed_wire_def signed_front_wire_def trailer_wire_def covenant_indices_def concat_if_filter)
qed

section \<open>Reading it back\<close>

lemma reads_parse_signed_spk:
  assumes wf: "wf_spk spk"
    and comp: "\<And>f g t. up f (up g t) = up (f \<circ> g) t"
  shows "reads (parse_signed_spk up) (spk_wire spk) t () (up (load_spk spk) t)"
proof -
  have "up (spk_script_update (blit (script_bytes spk) 0))
          (up (spk_script_len_update (\<lambda>_. spk_script_len spk))
            (up (spk_version_update (\<lambda>_. spk_version spk)) t)) = up (load_spk spk) t"
    by (simp add: comp) (rule arg_cong [where f = "\<lambda>f. up f t"], simp add: fun_eq_iff load_spk_def)
  moreover have "reads (parse_signed_spk up) (spk_wire spk) t ()
     (up (spk_script_update (blit (script_bytes spk) 0))
          (up (spk_script_len_update (\<lambda>_. spk_script_len spk))
            (up (spk_version_update (\<lambda>_. spk_version spk)) t)))"
    unfolding parse_signed_spk_def parse_script_def spk_wire_def
    by (intro bind_dec_intros reads_then_fail_if reads_then_upd
        reads_last_upd [OF bytes_codec.reads_dec])
      (use wf in \<open>simp_all add: wf_spk_len script_bytes_length\<close>)
  ultimately show ?thesis by simp
qed

subsection \<open>Signatures of one input\<close>

definition loaded_sig :: "input_sig \<Rightarrow> input_sig" where
  "loaded_sig s = s\<lparr>sig_present := True, sig_pubkey_compressed := zeros 33\<rparr>"

definition load_sigs :: "transaction_input \<Rightarrow> nat \<Rightarrow> transaction_input \<Rightarrow> transaction_input" where
  "load_sigs src n x = x\<lparr>in_sigs := map loaded_sig (take n (in_sigs src)) @ drop n (in_sigs x)\<rparr>"

lemma upd_sig_upd_sig [simp]: "upd_sig i s f (upd_sig i s g t) = upd_sig i s (f \<circ> g) t"
proof -
  have "xs[s := g (xs ! s), s := f (xs[s := g (xs ! s)] ! s)] = xs[s := f (g (xs ! s))]" for xs
    by (cases "s < length xs") (simp_all add: list_update_beyond)
  then show ?thesis by (simp add: upd_sig_def comp_def)
qed

lemma upd_sig_slot:
  "in_sigs (tx_inputs t ! i) ! s = d \<Longrightarrow> f d = g d \<Longrightarrow> upd_sig i s f t = upd_sig i s g t"
  by (simp add: upd_sig_def upd_in_def)

lemma upd_in_cong: "(\<And>x. f x = g x) \<Longrightarrow> upd_in i f t = upd_in i g t"
  by (simp add: upd_in_def)

lemma reads_parse_sig:
  assumes sig: "length (sig_signature sig) = 64" and s: "s < MAX_SIGS_PER_INPUT"
    and slot: "in_sigs (tx_inputs t ! i) ! s = input_sig_empty"
  shows "reads (parse_sig i s) (sig_wire sig) t () (upd_sig i s (\<lambda>_. loaded_sig sig) t)"
proof -
  let ?t = "upd_sig i s (sig_present_update (\<lambda>_. True)) (upd_sig i s (sig_signature_update (\<lambda>_. sig_signature sig))
     (upd_sig i s (sig_sighash_type_update (\<lambda>_. sig_sighash_type sig))
     (upd_sig i s (sig_pubkey_pos_update (\<lambda>_. sig_pubkey_pos sig)) t)))"
  have "reads (parse_sig i s) ([sig_pubkey_pos sig] @ [sig_sighash_type sig] @ sig_signature sig @ []) t () ?t"
    unfolding parse_sig_def
    by (intro reads_then_fail_if bind_dec_intros u8_codec.bind_dec reads_then_upd reads_upd TrueI)
      (use sig s in simp_all)
  moreover have "?t = upd_sig i s (\<lambda>_. loaded_sig sig) t"
    unfolding upd_sig_upd_sig
    by (rule upd_sig_slot [OF slot]) (simp add: loaded_sig_def input_sig_empty_def)
  ultimately show ?thesis by (simp add: sig_wire_def)
qed

lemma load_sigs_Suc:
  assumes "n < length (in_sigs src)" "length (in_sigs (tx_inputs t ! i)) = length (in_sigs src)" "i < length (tx_inputs t)"
  shows "upd_sig i n (\<lambda>_. loaded_sig (in_sigs src ! n)) (upd_in i (load_sigs src n) t) = upd_in i (load_sigs src (Suc n)) t"
proof -
  have "(map loaded_sig (take n (in_sigs src)) @ drop n (in_sigs (tx_inputs t ! i)))[n := loaded_sig (in_sigs src ! n)] =
      map loaded_sig (take (Suc n) (in_sigs src)) @ drop (Suc n) (in_sigs (tx_inputs t ! i))"
    using assms by (intro map_take_upd) auto
  then show ?thesis
    using assms(3) by (simp add: upd_sig_def) (simp add: upd_in_def load_sigs_def)
qed

definition sigs_ok :: "transaction_input \<Rightarrow> bool" where
  "sigs_ok i \<longleftrightarrow> unat (in_sig_count i) \<le> MAX_SIGS_PER_INPUT \<and>
     list_all (\<lambda>s. sig_present (in_sigs i ! s)) [0..<unat (in_sig_count i)]"

definition load_all_sigs :: "transaction_input \<Rightarrow> transaction_input \<Rightarrow> transaction_input" where
  "load_all_sigs src x =
     (let y = load_sigs src (unat (in_sig_count src)) (x\<lparr>in_sig_count := in_sig_count src\<rparr>)
      in if in_sig_count src > 0
         then y\<lparr>in_signature := sig_signature (in_sigs y ! 0), in_sig_len := 64,
                in_sighash_type := sig_sighash_type (in_sigs y ! 0)\<rparr>
         else y)"

lemma reads_parse_sigs:
  assumes wf: "wf_input src" and ok: "sigs_ok src" and i: "i < length (tx_inputs t)"
    and slot: "in_sigs (tx_inputs t ! i) = replicate MAX_SIGS_PER_INPUT input_sig_empty"
  shows "reads (parse_sigs i) (sigs_wire src) t () (upd_in i (load_all_sigs src) t)"
proof -
  let ?n = "unat (in_sig_count src)"
  let ?t = "upd_in i (in_sig_count_update (\<lambda>_. in_sig_count src)) t"
  let ?st = "\<lambda>k. upd_in i (load_sigs src k) ?t"
  have n: "?n \<le> MAX_SIGS_PER_INPUT" and len: "length (in_sigs src) = MAX_SIGS_PER_INPUT"
    using ok wf by (simp_all add: sigs_ok_def wf_input_def)
  have empty: "in_sigs (tx_inputs ?t ! i) = replicate MAX_SIGS_PER_INPUT input_sig_empty" "i < length (tx_inputs ?t)"
    using slot i by (simp_all add: nth_upd_in)
  have "reads (parse_sig i k) (if sig_present (in_sigs src ! k) then sig_wire (in_sigs src ! k) else [])
      (?st k) () (?st (Suc k))" if k: "k < ?n" for k
  proof -
    have "sig_present (in_sigs src ! k)" "length (sig_signature (in_sigs src ! k)) = 64"
      using ok wf k n len by (auto simp: sigs_ok_def wf_input_def list_all_length wf_sig_def)
    moreover have "in_sigs (tx_inputs (?st k) ! i) ! k = input_sig_empty"
      using i empty k n len by (simp add: nth_upd_in load_sigs_def nth_append del: upd_in_upd_in)
    moreover have "upd_sig i k (\<lambda>_. loaded_sig (in_sigs src ! k)) (?st k) = ?st (Suc k)"
      using empty len k n by (intro load_sigs_Suc) simp_all
    ultimately show ?thesis
      using reads_parse_sig [of "in_sigs src ! k" k "?st k" i] k n by simp
  qed
  then have loop: "reads (forE [0..<?n] (parse_sig i))
      (concat (map (\<lambda>s. if sig_present (in_sigs src ! s) then sig_wire (in_sigs src ! s) else []) [0..<?n]))
      (?st 0) () (?st ?n)"
    by (intro reads_forE) auto
  have st0: "?st 0 = ?t" by (simp add: upd_in_def load_sigs_def)
  have last: "reads (if in_sig_count src > 0 then upd (sync_legacy i) else ret ()) [] (?st ?n) ()
      (upd_in i (load_all_sigs src) t)"
  proof -
    have "sync_legacy i (?st ?n) = upd_in i (load_all_sigs src) t" if "in_sig_count src > 0"
      using that unfolding sync_legacy_def upd_in_upd_in
      by (intro upd_in_cong) (simp add: load_all_sigs_def Let_def)
    moreover have "?st ?n = upd_in i (load_all_sigs src) t" if "\<not> in_sig_count src > 0"
      using that unfolding upd_in_upd_in
      by (intro upd_in_cong) (simp add: load_all_sigs_def Let_def)
    ultimately show ?thesis
      using reads_upd [of "sync_legacy i" "?st ?n"] reads_ret [of "()" "?st ?n"]
      by (cases "in_sig_count src > 0") (simp_all only: if_True if_False simp_thms)
  qed
  have "reads (parse_sigs i) ([in_sig_count src] @
      concat (map (\<lambda>s. if sig_present (in_sigs src ! s) then sig_wire (in_sigs src ! s) else []) [0..<?n]) @ [])
      t () (upd_in i (load_all_sigs src) t)"
    unfolding parse_sigs_def
    by (intro u8_codec.bind_dec TrueI reads_then_upd reads_thenE [OF loop [unfolded st0] last])
  then show ?thesis by (simp add: sigs_wire_def)
qed

subsection \<open>One input\<close>

definition signed_slot :: "transaction_input \<Rightarrow> transaction_input" where
  "signed_slot src = load_all_sigs src (load_input src input_default)"

definition load_redeem :: "nat \<Rightarrow> bytes \<Rightarrow> transaction \<Rightarrow> transaction" where
  "load_redeem i rs t = (if rs = [] then t else snd (store_redeem i rs t))"

definition load_signed :: "transaction \<Rightarrow> nat \<Rightarrow> transaction \<Rightarrow> transaction" where
  "load_signed tx i t =
     load_redeem i (redeem_bytes tx i) (upd_in i (\<lambda>_. signed_slot (tx_inputs tx ! i)) t)"

lemma length_redeem_bytes:
  assumes "wf_transaction tx" "i < MAX_INPUTS"
  shows "length (redeem_bytes tx i) = in_redeem_script_len (tx_inputs tx ! i)"
    "in_redeem_script_len (tx_inputs tx ! i) \<le> MAX_REDEEM_SIZE"
proof -
  let ?i = "tx_inputs tx ! i"
  have i: "wf_input ?i" "pool_ok (tx_redeem_pool_used tx) ?i"
    using wf_transaction_nth [OF assms] by simp_all
  have pool: "tx_redeem_pool_used tx \<le> REDEEM_POOL_SIZE" "length (tx_redeem_pool tx) = REDEEM_POOL_SIZE"
    using assms(1) by (simp_all add: wf_transaction_def)
  show "in_redeem_script_len ?i \<le> MAX_REDEEM_SIZE"
    using i(1) by (auto simp: wf_input_def size_limits split: if_splits)
  show "length (redeem_bytes tx i) = in_redeem_script_len ?i"
    using i pool by (auto simp: redeem_bytes_def Let_def wf_input_def pool_ok_def split: if_splits)
qed

lemma reads_parse_redeem_stored:
  assumes ok: "fst (store_redeem i rs t) = Inr ()" and len: "length rs \<le> MAX_REDEEM_SIZE"
  shows "reads (parse_redeem i (length rs)) rs t () (load_redeem i rs t)"
proof (cases "rs = []")
  case True
  then show ?thesis by (simp add: parse_redeem_def load_redeem_def reads_ret)
next
  case False
  have "store_redeem i rs t = (Inr (), load_redeem i rs t)"
    using ok False by (simp add: prod_eq_iff load_redeem_def)
  then have "reads (act (\<lambda>_. ScriptTooLong) (store_redeem i rs)) [] t () (load_redeem i rs t)"
    by (simp add: reads_def act_def)
  then have "reads (thenE (fail_if (length rs > MAX_REDEEM_SIZE) ScriptTooLong)
          (bindE (rd (read_bytes (length rs))) (\<lambda>rs. act (\<lambda>_. ScriptTooLong) (store_redeem i rs))))
        (rs @ []) t () (load_redeem i rs t)"
    using len by (intro reads_then_fail_if bytes_codec.bind_dec) auto
  with False show ?thesis by (simp add: parse_redeem_def)
qed

lemma reads_redeem_v3:
  assumes wf: "wf_transaction tx" "i < MAX_INPUTS" and v: "v = FORMAT_VERSION_V3 \<or> v = FORMAT_VERSION_SIGNED_V4"
    and ok: "fst (store_redeem i (redeem_bytes tx i) t) = Inr ()"
  shows "reads (bindE (if v = FORMAT_VERSION_V3 \<or> v = FORMAT_VERSION_SIGNED_V4
            then bindE (rd read_u16_le) (\<lambda>w. ret (unat w)) else bindE (rd read_u8) (\<lambda>b. ret (unat b)))
      (parse_redeem i)) (redeem_v3_wire tx i) t () (load_redeem i (redeem_bytes tx i) t)"
proof -
  let ?rs = "redeem_bytes tx i"
  note len = length_redeem_bytes [OF wf]
  have w: "redeem_v3_wire tx i = (to_le 2 (of_nat (length ?rs) :: u16) @ []) @ ?rs"
    using len by (simp add: redeem_v3_wire_def) (metis length_0_conv)
  have u: "unat (of_nat (length ?rs) :: u16) = length ?rs"
    using len by (simp add: unat_of_nat size_limits)
  have "reads (bindE (rd read_u16_le) (\<lambda>w. ret (unat w))) (to_le 2 (of_nat (length ?rs) :: u16) @ []) t
      (unat (of_nat (length ?rs) :: u16)) t"
    by (intro bind_dec_intros reads_ret)
  then have R: "reads (bindE (rd read_u16_le) (\<lambda>w. ret (unat w))) (to_le 2 (of_nat (length ?rs) :: u16) @ []) t
      (length ?rs) t"
    unfolding u .
  have P: "reads (parse_redeem i (length ?rs)) ?rs t () (load_redeem i ?rs t)"
    using len by (intro reads_parse_redeem_stored ok) simp
  have "reads (bindE (bindE (rd read_u16_le) (\<lambda>w. ret (unat w))) (parse_redeem i))
      ((to_le 2 (of_nat (length ?rs) :: u16) @ []) @ ?rs) t () (load_redeem i ?rs t)"
    by (rule reads_bindE [OF R]) (rule P)
  then show ?thesis unfolding w if_P [OF v] .
qed

lemma reads_signed_input:
  assumes ok: "kspt_ok tx" "sigs_ok (tx_inputs tx ! i)" and i: "i < tx_num_inputs tx" "i < length (tx_inputs t)"
    and slot: "tx_inputs t ! i = input_default"
    and v: "v = FORMAT_VERSION_V3 \<or> v = FORMAT_VERSION_SIGNED_V4"
    and fits: "fst (store_redeem i (redeem_bytes tx i)
       (upd_in i (\<lambda>_. signed_slot (tx_inputs tx ! i)) t)) = Inr ()"
  shows "reads (parse_signed_input v i) (input_v2_wire tx i) t () (load_signed tx i t)"
proof -
  let ?src = "tx_inputs tx ! i"
  have src: "wf_input ?src" "utxo_amount (in_utxo ?src) \<le> MAX_SOMPI" using kspt_okD(4) [OF ok(1) i(1)] by simp_all
  have wf: "wf_transaction tx" "i < MAX_INPUTS" using kspt_okD [OF ok(1)] i by simp_all
  let ?t1 = "upd_in i (\<lambda>s. s\<lparr>in_outpoint := in_outpoint ?src,
        in_utxo := (in_utxo s)\<lparr>utxo_amount := utxo_amount (in_utxo ?src)\<rparr>,
        in_sequence := in_sequence ?src, in_sig_op_count := in_sig_op_count ?src\<rparr>) t"
  let ?t2 = "upd_in_spk i (load_spk (utxo_spk (in_utxo ?src))) ?t1"
  have t2: "?t2 = upd_in i (load_input ?src) t"
    unfolding upd_in_spk_load by (rule upd_in_cong) (simp add: load_input_def)
  have base: "reads (parse_input_base i) (op_transaction_id (in_outpoint ?src) @ to_le 4 (op_index (in_outpoint ?src)) @
      to_le 8 (utxo_amount (in_utxo ?src)) @ to_le 8 (in_sequence ?src) @ [in_sig_op_count ?src]) t () ?t1"
    using src by (intro reads_parse_input_base) (simp_all add: wf_input_def)
  have spk: "reads (parse_signed_spk (upd_in_spk i)) (spk_wire (utxo_spk (in_utxo ?src))) ?t1 () ?t2"
    using src by (intro reads_parse_signed_spk upd_in_spk_comp) (simp add: wf_input_def)
  have sigs: "reads (parse_sigs i) (sigs_wire ?src) ?t2 () (upd_in i (load_all_sigs ?src) ?t2)"
    unfolding t2 using slot i
    by (intro reads_parse_sigs src ok)
      (simp_all add: nth_upd_in load_input_def input_default_def input_zero_def)
  have t3: "upd_in i (load_all_sigs ?src) ?t2 = upd_in i (\<lambda>_. signed_slot ?src) t"
    unfolding t2 upd_in_upd_in using slot by (auto simp: signed_slot_def intro!: upd_in_slot)
  have redeem: "reads (bindE (if v = FORMAT_VERSION_V3 \<or> v = FORMAT_VERSION_SIGNED_V4
            then bindE (rd read_u16_le) (\<lambda>w. ret (unat w)) else bindE (rd read_u8) (\<lambda>b. ret (unat b)))
      (parse_redeem i)) (redeem_v3_wire tx i) (upd_in i (\<lambda>_. signed_slot ?src) t) () (load_signed tx i t)"
    unfolding load_signed_def by (rule reads_redeem_v3 [OF wf v fits])
  have "reads (parse_signed_input v i)
     ((op_transaction_id (in_outpoint ?src) @ to_le 4 (op_index (in_outpoint ?src)) @
      to_le 8 (utxo_amount (in_utxo ?src)) @ to_le 8 (in_sequence ?src) @ [in_sig_op_count ?src]) @
      spk_wire (utxo_spk (in_utxo ?src)) @ sigs_wire ?src @ redeem_v3_wire tx i) t () (load_signed tx i t)"
    unfolding parse_signed_input_def
    by (rule reads_thenE [OF base reads_thenE [OF spk reads_thenE [OF sigs [unfolded t3] redeem]]])
  then show ?thesis by (simp add: input_v2_wire_def input_wire_def)
qed

subsection \<open>The pool while loading\<close>

definition strip :: "transaction_input \<Rightarrow> transaction_input" where
  "strip i = i\<lparr>in_redeem_script := [], in_redeem_script_len := 0, in_redeem_in_pool := False,
     in_redeem_script_offset := 0\<rparr>"

definition pool_need :: "transaction \<Rightarrow> nat \<Rightarrow> nat" where
  "pool_need tx k = (\<Sum>i<k. if length (redeem_bytes tx i) > MAX_SCRIPT_SIZE then length (redeem_bytes tx i) else 0)"

lemma pool_need_mono: "k \<le> n \<Longrightarrow> pool_need tx k \<le> pool_need tx n"
  by (induction rule: dec_induct) (auto simp: pool_need_def)

lemma store_redeem_frame:
  assumes "fst (store_redeem i rs t) = Inr ()" and i: "i < length (tx_inputs t)"
  defines "t' \<equiv> snd (store_redeem i rs t)"
  shows "tx_redeem_pool_used t' = tx_redeem_pool_used t + (if length rs > MAX_SCRIPT_SIZE then length rs else 0)"
    "strip (tx_inputs t' ! i) = strip (tx_inputs t ! i)"
    "j \<noteq> i \<Longrightarrow> tx_inputs t' ! j = tx_inputs t ! j"
    "length (tx_inputs t') = length (tx_inputs t)"
    "t'\<lparr>tx_inputs := [], tx_redeem_pool := [], tx_redeem_pool_used := 0\<rparr> =
     t\<lparr>tx_inputs := [], tx_redeem_pool := [], tx_redeem_pool_used := 0\<rparr>"
proof -
  have "fst (store_redeem i rs t) \<noteq> Inl RedeemTooLong" using assms(1) by simp
  then have fits: "length rs \<le> MAX_REDEEM_SIZE"
      "length rs > MAX_SCRIPT_SIZE \<Longrightarrow> tx_redeem_pool_used t + length rs \<le> REDEEM_POOL_SIZE"
    unfolding store_redeem_error(1) by auto
  show "tx_redeem_pool_used t' = tx_redeem_pool_used t + (if length rs > MAX_SCRIPT_SIZE then length rs else 0)"
    "strip (tx_inputs t' ! i) = strip (tx_inputs t ! i)"
    "j \<noteq> i \<Longrightarrow> tx_inputs t' ! j = tx_inputs t ! j"
    "length (tx_inputs t') = length (tx_inputs t)"
    "t'\<lparr>tx_inputs := [], tx_redeem_pool := [], tx_redeem_pool_used := 0\<rparr> =
     t\<lparr>tx_inputs := [], tx_redeem_pool := [], tx_redeem_pool_used := 0\<rparr>"
    using i fits unfolding t'_def
    by (cases "length rs \<le> MAX_SCRIPT_SIZE";
        simp add: store_redeem_inline store_redeem_pool upd_in_def redeem_updates strip_def)+
qed

definition frame :: "transaction \<Rightarrow> transaction" where
  "frame t = t\<lparr>tx_inputs := [], tx_redeem_pool := [], tx_redeem_pool_used := 0\<rparr>"

definition loading :: "transaction \<Rightarrow> nat \<Rightarrow> transaction \<Rightarrow> bool" where
  "loading tx k t \<longleftrightarrow> wf_transaction t \<and> tx_redeem_pool_used t = pool_need tx k \<and>
     (\<forall>j < MAX_INPUTS. if j < k
        then strip (tx_inputs t ! j) = strip (signed_slot (tx_inputs tx ! j)) \<and> redeem_bytes t j = redeem_bytes tx j
        else tx_inputs t ! j = input_default)"

lemma wf_signed_slot: "wf_input src \<Longrightarrow> wf_input (signed_slot src)"
proof -
  assume src: "wf_input src"
  have sig: "wf_sig input_sig_empty" "\<And>s. wf_sig s \<Longrightarrow> wf_sig (loaded_sig s)"
    by (simp_all add: wf_sig_def input_sig_empty_def loaded_sig_def)
  have base: "wf_input (load_input src input_default)"
    using src wf_input_default by (simp add: wf_input_def load_input_def wf_spk_def load_spk_def
        script_bytes_length [unfolded wf_spk_def] length_blit script_bytes_def)
  have "wf_input (load_sigs src n x)" if "wf_input x" for n x
    using that src sig(2) by (auto simp: wf_input_def load_sigs_def list_all_iff
        dest: in_set_takeD in_set_dropD)
  moreover have "wf_input (x\<lparr>in_signature := sig_signature (in_sigs x ! 0), in_sig_len := a, in_sighash_type := b\<rparr>)"
    if "wf_input x" for x a b
    using that by (auto simp: wf_input_def list_all_length wf_sig_def size_limits)
  moreover have "wf_input (x\<lparr>in_sig_count := c\<rparr>)" if "wf_input x" for x c
    using that by (simp add: wf_input_def)
  ultimately show "wf_input (signed_slot src)"
    using base by (simp add: signed_slot_def load_all_sigs_def Let_def)
qed

lemma signed_slot_redeem:
  "in_redeem_script_len (signed_slot src) = 0" "in_redeem_in_pool (signed_slot src) = False"
  by (simp_all add: signed_slot_def load_all_sigs_def Let_def load_sigs_def load_input_default)

lemma load_signed_step:
  assumes ok: "kspt_ok tx" and k: "k < tx_num_inputs tx" and t: "loading tx k t"
    and room: "pool_need tx (tx_num_inputs tx) \<le> REDEEM_POOL_SIZE"
  shows "fst (store_redeem k (redeem_bytes tx k) (upd_in k (\<lambda>_. signed_slot (tx_inputs tx ! k)) t)) = Inr ()"
    "loading tx (Suc k) (load_signed tx k t)" "frame (load_signed tx k t) = frame t"
proof -
  let ?slot = "signed_slot (tx_inputs tx ! k)" and ?rs = "redeem_bytes tx k"
  let ?t1 = "upd_in k (\<lambda>_. ?slot) t"
  have kM: "k < MAX_INPUTS" and wf: "wf_transaction tx" using k kspt_okD [OF ok] by simp_all
  have src: "wf_input (tx_inputs tx ! k)" using kspt_okD(4) [OF ok k] by simp
  have wft: "wf_transaction t" and len: "length (tx_inputs t) = MAX_INPUTS"
    and used: "tx_redeem_pool_used t = pool_need tx k"
    using t by (auto simp: loading_def wf_transaction_def)
  have wf1: "wf_transaction ?t1"
    using wft wf_signed_slot [OF src] by (intro wf_upd_in) (auto simp: pool_ok_def signed_slot_redeem)
  have need: "pool_need tx (Suc k) \<le> REDEEM_POOL_SIZE"
    using pool_need_mono [of "Suc k" "tx_num_inputs tx" tx] k room by simp
  have "fst (store_redeem k ?rs ?t1) \<noteq> Inl RedeemTooLong"
    unfolding store_redeem_error(1)
    using length_redeem_bytes [OF wf kM] used need by (auto simp: pool_need_def split: if_splits)
  then show store: "fst (store_redeem k ?rs ?t1) = Inr ()"
    by (metis (full_types) obj_sumE old.unit.exhaust redeem_too_long.exhaust)
  define t2 where "t2 = load_signed tx k t"
  have t2: "t2 = (if ?rs = [] then ?t1 else snd (store_redeem k ?rs ?t1))"
    by (simp add: t2_def load_signed_def load_redeem_def)
  have run: "store_redeem k ?rs ?t1 = (Inr (), snd (store_redeem k ?rs ?t1))"
    using store by (simp add: prod_eq_iff)
  note st = store_redeem_ok [OF wf1 kM run] and fr = store_redeem_frame [OF store, unfolded upd_in_fields]
  have i1: "tx_inputs ?t1 ! j = (if j = k then ?slot else tx_inputs t ! j)" if "j < MAX_INPUTS" for j
    using that len by (simp add: nth_upd_in)
  have rb1: "redeem_bytes ?t1 j = (if j = k then [] else redeem_bytes t j)" if "j < MAX_INPUTS" for j
    using i1 [OF that] by (simp add: redeem_bytes_def signed_slot_redeem Let_def)
  have f1: "frame ?t1 = frame t" by (simp add: frame_def upd_in_def)
  have in2: "strip (tx_inputs t2 ! k) = strip ?slot" "redeem_bytes t2 k = ?rs"
    "\<And>j. j < MAX_INPUTS \<Longrightarrow> j \<noteq> k \<Longrightarrow> tx_inputs t2 ! j = tx_inputs t ! j \<and> redeem_bytes t2 j = redeem_bytes t j"
    "wf_transaction t2" "tx_redeem_pool_used t2 = pool_need tx (Suc k)" "frame t2 = frame t"
    using st fr kM len i1 rb1 f1 wf1 used
    by (auto simp: t2 frame_def pool_need_def size_limits)
  show "loading tx (Suc k) (load_signed tx k t)"
    unfolding t2_def [symmetric] loading_def
  proof (intro conjI allI impI in2(4,5))
    fix j assume j: "j < MAX_INPUTS"
    show "if j < Suc k then strip (tx_inputs t2 ! j) = strip (signed_slot (tx_inputs tx ! j)) \<and>
           redeem_bytes t2 j = redeem_bytes tx j else tx_inputs t2 ! j = input_default"
    proof (cases "j = k")
      case True
      then show ?thesis using in2(1,2) by simp
    next
      case False
      then show ?thesis using in2(3) [OF j False] t j by (auto simp: loading_def split: if_splits)
    qed
  qed
  show "frame (load_signed tx k t) = frame t" using in2(6) by (simp add: t2_def)
qed

subsection \<open>Everything before the trailers\<close>

definition signed_ok :: "transaction \<Rightarrow> bool" where
  "signed_ok tx \<longleftrightarrow> kspt_ok tx \<and> list_all sigs_ok (inputs tx) \<and>
     pool_need tx (tx_num_inputs tx) \<le> REDEEM_POOL_SIZE"

lemma signed_okD:
  assumes "signed_ok tx"
  shows "kspt_ok tx" "i < tx_num_inputs tx \<Longrightarrow> sigs_ok (tx_inputs tx ! i)"
    "pool_need tx (tx_num_inputs tx) \<le> REDEEM_POOL_SIZE"
proof -
  show ok: "kspt_ok tx" "pool_need tx (tx_num_inputs tx) \<le> REDEEM_POOL_SIZE"
    using assms by (simp_all add: signed_ok_def)
  have "tx_num_inputs tx \<le> length (tx_inputs tx)" using kspt_okD(1) [OF ok(1)] by (simp add: wf_transaction_def)
  then show "i < tx_num_inputs tx \<Longrightarrow> sigs_ok (tx_inputs tx ! i)"
    using assms by (simp add: signed_ok_def inputs_nth list_all_iff)
qed

definition loaded_signed :: "transaction \<Rightarrow> nat \<Rightarrow> transaction" where
  "loaded_signed tx k = fold (load_signed tx) [0..<k] (load_global tx transaction_new)"

lemma loaded_signed_Suc [simp]: "loaded_signed tx (Suc k) = load_signed tx k (loaded_signed tx k)"
  by (simp add: loaded_signed_def)

lemma loading_loaded:
  assumes ok: "signed_ok tx" and k: "k \<le> tx_num_inputs tx"
  shows "loading tx k (loaded_signed tx k) \<and> frame (loaded_signed tx k) = frame (load_global tx transaction_new)"
  using k
proof (induction k)
  case 0
  have wf: "wf_transaction tx" using kspt_okD [OF signed_okD(1) [OF ok]] by simp
  have "wf_transaction (load_global tx transaction_new)"
    using wf wf_transaction_new
    by (simp add: wf_transaction_def load_global_def load_tx_fields_def length_blit)
  then show ?case
    by (simp add: loaded_signed_def loading_def pool_need_def)
      (simp add: load_global_def load_tx_fields_def transaction_new_def)
next
  case (Suc k)
  then show ?case
    using load_signed_step [OF signed_okD(1) [OF ok] _ _ signed_okD(3) [OF ok], of k "loaded_signed tx k"] by simp
qed

lemma frame_fields:
  assumes "frame t = frame u"
  shows "tx_outputs t = tx_outputs u" "tx_num_inputs t = tx_num_inputs u" "tx_num_outputs t = tx_num_outputs u"
    "tx_version t = tx_version u" "tx_locktime t = tx_locktime u" "tx_subnetwork_id t = tx_subnetwork_id u"
    "tx_gas t = tx_gas u" "tx_payload t = tx_payload u" "tx_payload_len t = tx_payload_len u"
    "tx_stealth_tweak t = tx_stealth_tweak u" "tx_has_stealth_tweak t = tx_has_stealth_tweak u"
  using assms by (cases t; cases u; simp add: frame_def)+

definition plain_output :: "transaction \<Rightarrow> nat \<Rightarrow> transaction_output" where
  "plain_output tx k = load_output (tx_outputs tx ! k) output_default"

lemma reads_signed_output:
  assumes ok: "kspt_ok tx" and k: "k < tx_num_outputs tx" and slot: "tx_outputs t ! k = output_default"
  shows "reads (parse_signed_output k (of_nat (output_total tx k))) (output_wire (tx_outputs tx ! k))
     t (of_nat (output_total tx (Suc k))) (upd_out k (\<lambda>_. plain_output tx k) t)"
proof -
  let ?out = "tx_outputs tx ! k"
  have wf: "wf_spk (out_spk ?out)" and tot: "output_total tx (Suc k) \<le> unat MAX_SOMPI"
    using kspt_okD(5) [OF ok k] by (auto simp: wf_output_def)
  let ?t1 = "upd_out k (out_value_update (\<lambda>_. out_value ?out)) t"
  have "upd_out_spk k (load_spk (out_spk ?out)) ?t1 = upd_out k (load_output ?out) t"
    by (simp add: upd_out_spk_def, rule arg_cong [where f = "\<lambda>f. upd_out k f t"])
      (simp add: fun_eq_iff load_output_def)
  also have "\<dots> = upd_out k (\<lambda>_. plain_output tx k) t"
    using slot by (auto simp: plain_output_def intro!: upd_out_slot)
  finally have t: "upd_out_spk k (load_spk (out_spk ?out)) ?t1 = upd_out k (\<lambda>_. plain_output tx k) t" .
  have spk: "reads (parse_signed_spk (upd_out_spk k)) (spk_wire (out_spk ?out)) ?t1 ()
      (upd_out k (\<lambda>_. plain_output tx k) t)"
    using reads_parse_signed_spk [OF wf, of "upd_out_spk k" ?t1, OF upd_out_spk_comp] unfolding t .
  have "reads (parse_signed_output k (of_nat (output_total tx k)))
     (to_le 8 (out_value ?out) @ spk_wire (out_spk ?out) @ [])
     t (of_nat (output_total tx (Suc k))) (upd_out k (\<lambda>_. plain_output tx k) t)"
    unfolding parse_signed_output_def
    by (rule reads_bindE [OF reads_parse_value [OF tot]], rule reads_thenE [OF spk reads_ret])
  then show ?thesis by (simp add: output_wire_def)
qed

definition signed_mid :: "transaction \<Rightarrow> transaction" where
  "signed_mid tx = fill_outputs (plain_output tx) (tx_num_outputs tx) (loaded_signed tx (tx_num_inputs tx))"

lemma reads_signed_header:
  assumes "v = FORMAT_VERSION_V3 \<or> v = FORMAT_VERSION_SIGNED_V4"
  shows "reads parse_signed_header (PSKT_MAGIC @ [v] @ [flags]) t v t"
proof -
  have "reads parse_signed_header (PSKT_MAGIC @ [v] @ [flags] @ []) t v t"
    unfolding parse_signed_header_def
    by (intro bytes_codec.bind_dec u8_codec.bind_dec reads_then_fail_if reads_ret TrueI)
      (use assms in \<open>auto simp: PSKT_MAGIC_def\<close>)
  then show ?thesis by simp
qed

lemma reads_signed_global:
  assumes "kspt_ok tx"
  shows "reads parse_signed_global (global_wire tx) t (tx_num_inputs tx, tx_num_outputs tx) (load_global tx t)"
proof -
  have n: "1 \<le> tx_num_inputs tx" "tx_num_inputs tx \<le> MAX_INPUTS" "1 \<le> tx_num_outputs tx" "tx_num_outputs tx \<le> MAX_OUTPUTS"
    and wf: "wf_transaction tx"
    using assms by (auto simp: kspt_ok_def wf_transaction_def)
  then have u: "unat (of_nat (tx_num_inputs tx) :: u8) = tx_num_inputs tx"
      "unat (of_nat (tx_num_outputs tx) :: u8) = tx_num_outputs tx"
    by (simp_all add: unat_of_nat size_limits)
  have "reads parse_signed_global (to_le 2 (tx_version tx) @ [of_nat (tx_num_inputs tx)] @
      [of_nat (tx_num_outputs tx)] @ (tx_fields_wire tx @ [])) t (tx_num_inputs tx, tx_num_outputs tx)
      (load_tx_fields tx (tx_num_outputs_update (\<lambda>_. tx_num_outputs tx)
        (tx_num_inputs_update (\<lambda>_. tx_num_inputs tx) (tx_version_update (\<lambda>_. tx_version tx) t))))"
    unfolding parse_signed_global_def
    by (intro u8_codec.bind_dec u16_codec.bind_dec reads_then_upd reads_then_fail_if TrueI, unfold u)
      (use n in \<open>auto simp del: append_Nil2 intro!: reads_then_upd reads_thenE [OF reads_parse_tx_fields [OF wf]] reads_ret\<close>)
  then show ?thesis by (simp add: global_wire_def load_global_def)
qed

lemma reads_signed_front:
  assumes ok: "signed_ok tx" and v: "v = FORMAT_VERSION_V3 \<or> v = FORMAT_VERSION_SIGNED_V4"
  shows "reads parse_signed_front (signed_front_wire v flags tx) transaction_new
     (tx_num_inputs tx, tx_num_outputs tx) (signed_mid tx)"
proof -
  let ?ni = "tx_num_inputs tx" and ?no = "tx_num_outputs tx"
  let ?out = "\<lambda>k. fill_outputs (plain_output tx) k (loaded_signed tx ?ni)"
  note kok = signed_okD(1) [OF ok]
  have "reads (parse_signed_input v k) (input_v2_wire tx k) (loaded_signed tx k) () (loaded_signed tx (Suc k))"
    if k: "k < ?ni" for k
  proof -
    have l: "loading tx k (loaded_signed tx k)" using loading_loaded [OF ok, of k] k by simp
    have kM: "k < MAX_INPUTS" using k kspt_okD(2) [OF kok] by simp
    show ?thesis
      unfolding loaded_signed_Suc
      using l kM load_signed_step(1) [OF kok k l signed_okD(3) [OF ok]]
      by (intro reads_signed_input kok signed_okD(2) [OF ok] k v) (auto simp: loading_def wf_transaction_def)
  qed
  then have ins: "reads (forE [0..<?ni] (parse_signed_input v)) (concat (map (input_v2_wire tx) [0..<?ni]))
      (loaded_signed tx 0) () (loaded_signed tx ?ni)"
    by (intro reads_forE) (auto simp del: loaded_signed_Suc)
  have "reads (parse_signed_output k (of_nat (output_total tx k))) (output_wire (tx_outputs tx ! k))
      (?out k) (of_nat (output_total tx (Suc k))) (?out (Suc k))" if "k < ?no" for k
  proof -
    have k: "k < MAX_OUTPUTS" using that kspt_okD(3) [OF kok] by simp
    show ?thesis
      using reads_signed_output [OF kok that fill_outputs_slot [OF k]]
      by (simp only: fill_outputs_Suc [OF k, symmetric])
  qed
  then have outs: "reads (foldE [0..<?no] parse_signed_output (of_nat (output_total tx 0)))
      (concat (map (\<lambda>i. output_wire (tx_outputs tx ! i)) [0..<?no])) (?out 0) (of_nat (output_total tx ?no)) (?out ?no)"
    by (intro reads_foldE [where ac = "\<lambda>k. of_nat (output_total tx k)"]) auto
  have "frame (loaded_signed tx ?ni) = frame (load_global tx transaction_new)"
    using loading_loaded [OF ok] by blast
  from frame_fields(1) [OF this] have out0: "?out 0 = loaded_signed tx ?ni"
    by (intro fill_0) (simp add: transaction_new_def)
  have outs': "reads (foldE [0..<?no] parse_signed_output 0)
      (concat (map (\<lambda>i. output_wire (tx_outputs tx ! i)) [0..<?no])) (loaded_signed tx ?ni)
      (of_nat (output_total tx ?no)) (?out ?no)"
    using outs unfolding out0 by (simp add: output_total_def)
  have ins': "reads (forE [0..<?ni] (parse_signed_input v)) (concat (map (input_v2_wire tx) [0..<?ni]))
      (load_global tx transaction_new) () (loaded_signed tx ?ni)"
    using ins by (simp add: loaded_signed_def)
  have "reads parse_signed_front ((PSKT_MAGIC @ [v] @ [flags]) @ global_wire tx @
      concat (map (input_v2_wire tx) [0..<?ni]) @
      concat (map (\<lambda>i. output_wire (tx_outputs tx ! i)) [0..<?no]) @ []) transaction_new (?ni, ?no) (signed_mid tx)"
    unfolding parse_signed_front_def signed_mid_def
    by (rule reads_bindE [OF reads_signed_header [OF v]],
        rule reads_bindE [OF reads_signed_global [OF kok]], unfold prod.case,
        rule reads_thenE [OF ins'], rule reads_bindE [OF outs' reads_ret])
  then show ?thesis by (simp add: signed_front_wire_def)
qed

subsection \<open>Trailers\<close>

definition put_stealth :: "transaction \<Rightarrow> transaction \<Rightarrow> transaction" where
  "put_stealth tx t =
     (if tx_has_stealth_tweak tx
      then t\<lparr>tx_stealth_tweak := tx_stealth_tweak tx, tx_has_stealth_tweak := True\<rparr> else t)"

definition bind_output :: "transaction \<Rightarrow> nat \<Rightarrow> transaction_output \<Rightarrow> transaction_output" where
  "bind_output tx i out = out\<lparr>out_has_covenant := True,
     out_covenant_auth_input := out_covenant_auth_input (tx_outputs tx ! i),
     out_covenant_id := out_covenant_id (tx_outputs tx ! i)\<rparr>"

definition put_binding :: "transaction \<Rightarrow> nat \<Rightarrow> transaction \<Rightarrow> transaction" where
  "put_binding tx i = upd_out i (bind_output tx i)"

lemma parse_stealth_reads:
  assumes "length (tx_stealth_tweak tx) = 32"
    and u: "unread r = (if tx_has_stealth_tweak tx then [0x53] @ tx_stealth_tweak tx else []) @ rest"
    and rest: "rest = [] \<or> hd rest \<noteq> 0x53"
  shows "parse_stealth (r, t) =
    (Inr (), (advance (if tx_has_stealth_tweak tx then 33 else 0) r, put_stealth tx t))"
proof (cases "tx_has_stealth_tweak tx")
  case True
  have "reads (bindE (rd read_u8) (\<lambda>_. bindE (rd (read_bytes 32)) (\<lambda>tweak.
         thenE (upd (tx_stealth_tweak_update (\<lambda>_. tweak)))
        (upd (tx_has_stealth_tweak_update (\<lambda>_. True))))))
      ([0x53] @ tx_stealth_tweak tx @ []) t () (put_stealth tx t)"
    using True assms(1) reads_upd [of "tx_has_stealth_tweak_update (\<lambda>_. True)" "tx_stealth_tweak_update (\<lambda>_. tx_stealth_tweak tx) t"]
    by (intro u8_codec.bind_dec bytes_codec.bind_dec TrueI reads_then_upd) (simp_all add: put_stealth_def)
  from reads_full [OF this, of r rest] u True assms(1)
  have "bindE (rd read_u8) (\<lambda>_. bindE (rd (read_bytes 32)) (\<lambda>tweak.
         thenE (upd (tx_stealth_tweak_update (\<lambda>_. tweak)))
        (upd (tx_has_stealth_tweak_update (\<lambda>_. True))))) (r, t) = (Inr (), (advance 33 r, put_stealth tx t))"
    by simp
  moreover have "33 \<le> reader_remaining r" using arg_cong [OF u, of length] True assms(1) by simp
  moreover have "peek_u8 r = Some 0x53" using u True by (simp add: peek_u8_unread)
  ultimately show ?thesis using True by (simp add: parse_stealth_def bindE_def peek_def)
next
  case False
  have "peek_u8 r \<noteq> Some 0x53" using u False rest by (auto simp: peek_u8_unread split: list.splits)
  then show ?thesis
    using False by (simp add: parse_stealth_def bindE_def peek_def put_stealth_def ret_def)
qed

lemma reads_covenant_record:
  assumes "i < tx_num_outputs t" "i < 256" "length (out_covenant_id (tx_outputs tx ! i)) = 32"
  shows "reads parse_covenant_record (covenant_wire tx i) t () (put_binding tx i t)"
proof -
  have i: "unat (of_nat i :: u8) = i" using assms(2) by (simp add: unat_of_nat)
  have "reads parse_covenant_record ([0x43] @ [of_nat i] @ to_le 2 (out_covenant_auth_input (tx_outputs tx ! i)) @
      out_covenant_id (tx_outputs tx ! i) @ []) t () (put_binding tx i t)"
    unfolding parse_covenant_record_def
    by (intro u8_codec.bind_dec u16_codec.bind_dec bytes_codec.bind_dec TrueI reads_bind_get, rule assms(3))
      (use assms(1) reads_upd [of "put_binding tx i" t] in \<open>simp add: i put_binding_def bind_output_def [abs_def]\<close>)
  then show ?thesis by (simp add: covenant_wire_def)
qed

lemma put_binding_nums [simp]:
  "tx_num_outputs (put_binding tx i t) = tx_num_outputs t" "tx_num_inputs (put_binding tx i t) = tx_num_inputs t"
  "tx_inputs (put_binding tx i t) = tx_inputs t" "tx_redeem_pool (put_binding tx i t) = tx_redeem_pool t"
  by (simp_all add: put_binding_def upd_out_def)

lemma parse_covenants_reads:
  assumes "\<forall>i \<in> set is. i < tx_num_outputs t \<and> i < 256 \<and> length (out_covenant_id (tx_outputs tx ! i)) = 32"
    and "unread r = concat (map (covenant_wire tx) is) @ rest" "rest = [] \<or> hd rest \<noteq> 0x43"
  shows "parse_covenants (r, t) =
    (Inr (), (advance (length (concat (map (covenant_wire tx) is))) r, fold (put_binding tx) is t))"
  using assms
proof (induction "is" arbitrary: r t)
  case Nil
  then have "\<not> trailer_next 36 [0x43] r"
    by (auto simp: trailer_next_def peek_u8_unread split: list.splits)
  then show ?case by (simp add: parse_covenants.simps)
next
  case (Cons i "is")
  have len: "length (covenant_wire tx i) = 36" using Cons.prems(1) by (simp add: covenant_wire_def)
  have u: "unread r = covenant_wire tx i @ (concat (map (covenant_wire tx) is) @ rest)"
    using Cons.prems(2) by simp
  have "parse_covenant_record (r, t) = (Inr (), (advance 36 r, put_binding tx i t))"
    using reads_full [OF reads_covenant_record [of i t tx] u] Cons.prems(1) len by simp
  moreover have "trailer_next 36 [0x43] r"
  proof -
    have "36 \<le> reader_remaining r" using arg_cong [OF u, of length] len by simp
    moreover have "peek_u8 r = Some 0x43" using u by (simp add: peek_u8_unread covenant_wire_def)
    ultimately show ?thesis by (simp add: trailer_next_def)
  qed
  moreover have "parse_covenants (advance 36 r, put_binding tx i t) =
     (Inr (), (advance (length (concat (map (covenant_wire tx) is))) (advance 36 r), fold (put_binding tx) is (put_binding tx i t)))"
    using Cons.prems u len by (intro Cons.IH) auto
  ultimately show ?case by (subst parse_covenants.simps) (simp add: len)
qed

lemma parse_signed_hints_records:
  assumes "hints_ok ni no hs" "room ni no t" "ni \<le> 255" "no \<le> 255"
    and "\<forall>(m, i, h) \<in> set hs. \<not> hint_present (hint_at m i t)"
    and "unread r = hints_wire hs"
  shows "parse_signed_hints ni no (r, t) = (Inr (), (advance (length (hints_wire hs)) r, fold put_hint hs t))"
  using assms(1,2,5,6)
proof (induction hs arbitrary: r t)
  case Nil
  then have "\<not> trailer_next (MS45_HINT_BODY + 1) [TRAILER_MS45_IN, TRAILER_MS45_OUT] r"
    by (simp add: trailer_next_def hints_wire_def peek_u8_unread)
  then show ?case by (simp add: parse_signed_hints.simps hints_wire_def)
next
  case (Cons rec hs)
  obtain m i h where rec: "rec = (m, i, h)" by (cases rec)
  have ok: "hint_ok ni no (m, i, h)" "hints_ok ni no hs" and fresh: "(m, i) \<notin> hint_key ` set hs"
    using Cons.prems(1) rec by (auto simp: hints_ok_def)
  have u: "unread r = hint_wire m i h @ hints_wire hs"
    using Cons.prems(4) rec by (simp add: hints_wire_def)
  have free: "\<not> hint_present (hint_at m i t)" using Cons.prems(3) rec by auto
  have "reads (bindE (rd read_u8) (parse_hint_body ni no)) (hint_wire m i h) t () (put_hint (m, i, h) t)"
    unfolding hint_wire_def
    using ok(1) free assms(3,4) by (intro u8_codec.bind_dec TrueI reads_hint_body)
  from reads_full [OF this u] have one: "bindE (rd read_u8) (parse_hint_body ni no) (r, t) =
      (Inr (), (advance 14 r, put_hint (m, i, h) t))" by simp
  have "\<not> hint_present (hint_at m' i' (put_hint (m, i, h) t))" if "(m', i', h') \<in> set hs" for m' i' h'
  proof -
    have "hint_ok ni no (m', i', h')" using ok(2) that by (auto simp: hints_ok_def list_all_iff)
    then have "m' \<in> {TRAILER_MS45_IN, TRAILER_MS45_OUT}" by auto
    moreover have "(m', i') \<noteq> (m, i)" using fresh that by force
    ultimately show ?thesis
      using hint_at_put [OF ok(1) Cons.prems(2), of m' i'] Cons.prems(3) that by auto
  qed
  moreover have "unread (advance 14 r) = hints_wire hs" using u by simp
  ultimately have "parse_signed_hints ni no (advance 14 r, put_hint (m, i, h) t) =
      (Inr (), (advance (length (hints_wire hs)) (advance 14 r), fold put_hint hs (put_hint (m, i, h) t)))"
    using ok(2) Cons.prems(2) by (intro Cons.IH) (auto simp del: put_hint.simps)
  moreover have "trailer_next (MS45_HINT_BODY + 1) [TRAILER_MS45_IN, TRAILER_MS45_OUT] r"
  proof -
    have "14 \<le> reader_remaining r" using arg_cong [OF u, of length] by simp
    moreover have "peek_u8 r = Some m" using u by (simp add: peek_u8_unread hint_wire_def)
    ultimately show ?thesis using ok(1) by (auto simp: trailer_next_def MS45_HINT_BODY_def)
  qed
  ultimately show ?case
    by (subst parse_signed_hints.simps) (simp add: one rec hints_wire_def del: put_hint.simps)
qed

lemma hints_wire_head: "hints_ok ni no hs \<Longrightarrow> hints_wire hs = [] \<or> hd (hints_wire hs) \<in> {TRAILER_MS45_IN, TRAILER_MS45_OUT}"
  by (cases hs) (auto simp: hints_ok_def hints_wire_def hint_wire_def)

lemma fold_put_binding_fields:
  "tx_num_outputs (fold (put_binding tx) is t) = tx_num_outputs t"
  "tx_num_inputs (fold (put_binding tx) is t) = tx_num_inputs t"
  "tx_inputs (fold (put_binding tx) is t) = tx_inputs t"
  "tx_redeem_pool (fold (put_binding tx) is t) = tx_redeem_pool t"
  "length (tx_outputs (fold (put_binding tx) is t)) = length (tx_outputs t)"
  "tx_stealth_tweak (fold (put_binding tx) is t) = tx_stealth_tweak t"
  "tx_has_stealth_tweak (fold (put_binding tx) is t) = tx_has_stealth_tweak t"
  "tx_version (fold (put_binding tx) is t) = tx_version t"
  "tx_locktime (fold (put_binding tx) is t) = tx_locktime t"
  "tx_subnetwork_id (fold (put_binding tx) is t) = tx_subnetwork_id t"
  "tx_gas (fold (put_binding tx) is t) = tx_gas t"
  "tx_payload (fold (put_binding tx) is t) = tx_payload t"
  "tx_payload_len (fold (put_binding tx) is t) = tx_payload_len t"
  by (induction "is" arbitrary: t) (simp_all add: put_binding_def upd_out_def)

lemma fold_put_binding_nth:
  "j < length (tx_outputs t) \<Longrightarrow> tx_outputs (fold (put_binding tx) is t) ! j =
     (if j \<in> set is then bind_output tx j (tx_outputs t ! j) else tx_outputs t ! j)"
proof (induction "is" arbitrary: t)
  case (Cons i "is")
  have "tx_outputs (put_binding tx i t) ! j = (if i = j then bind_output tx j (tx_outputs t ! j) else tx_outputs t ! j)"
    using Cons.prems by (auto simp: put_binding_def upd_out_def)
  moreover have "length (tx_outputs (put_binding tx i t)) = length (tx_outputs t)"
    by (simp add: put_binding_def upd_out_def)
  ultimately show ?case using Cons by (auto simp: bind_output_def)
qed simp

definition signed_final :: "transaction \<Rightarrow> transaction" where
  "signed_final tx = fold put_hint (hint_records tx)
     (fold (put_binding tx) (covenant_indices tx) (put_stealth tx (signed_mid tx)))"

lemma parse_signed_wire:
  assumes ok: "signed_ok tx"
  shows "parse_signed_pskt_v2 (signed_wire hash tx) t0 = (Inr (), signed_final tx)"
proof -
  let ?ni = "tx_num_inputs tx" and ?no = "tx_num_outputs tx"
  let ?v = "if has_hints tx then FORMAT_VERSION_SIGNED_V4 else FORMAT_VERSION_V3"
  let ?f = "if is_fully_signed hash tx then 0x01 else 0x00 :: u8"
  let ?front = "signed_front_wire ?v ?f tx"
  let ?r0 = "reader_new (signed_wire hash tx)"
  let ?cov = "concat (map (covenant_wire tx) (covenant_indices tx))"
  let ?hw = "hints_wire (hint_records tx)"
  note kok = signed_okD(1) [OF ok]
  have wf: "wf_transaction tx" and n: "?ni \<le> MAX_INPUTS" "?no \<le> MAX_OUTPUTS" using kspt_okD [OF kok] by simp_all
  note hok = hint_records_ok [OF n]
  define r1 where "r1 = advance (length ?front) ?r0"
  define r2 where "r2 = advance (if tx_has_stealth_tweak tx then 33 else 0) r1"
  define r3 where "r3 = advance (length ?cov) r2"
  define t2 where "t2 = put_stealth tx (signed_mid tx)"
  define t3 where "t3 = fold (put_binding tx) (covenant_indices tx) t2"
  have u1: "unread r1 = (if tx_has_stealth_tweak tx then [0x53] @ tx_stealth_tweak tx else []) @ ?cov @ ?hw"
    by (simp add: r1_def signed_wire_def trailer_wire_def)
  have tweak: "length (tx_stealth_tweak tx) = 32" using wf by (simp add: wf_transaction_def)
  have u2: "unread r2 = ?cov @ ?hw" using u1 tweak by (simp add: r2_def)
  have u3: "unread r3 = ?hw" using u2 by (simp add: r3_def)
  have cov_head: "?cov = [] \<or> hd ?cov = 0x43"
    by (cases "covenant_indices tx") (simp_all add: covenant_wire_def)
  have "?hw = [] \<or> hd ?hw \<noteq> 0x43 \<and> hd ?hw \<noteq> 0x53"
    using hints_wire_head [OF hok] by (auto simp: kspt_consts)
  then have heads: "?cov @ ?hw = [] \<or> hd (?cov @ ?hw) \<noteq> 0x53" "?hw = [] \<or> hd ?hw \<noteq> 0x43"
    using cov_head by (auto simp: hd_append)
  have stealth: "parse_stealth (r1, signed_mid tx) = (Inr (), (r2, t2))"
    unfolding r2_def t2_def by (rule parse_stealth_reads [OF tweak u1 heads(1)])
  have frame: "frame (loaded_signed tx ?ni) = frame (load_global tx transaction_new)"
    using loading_loaded [OF ok] by blast
  have nums: "tx_num_outputs t2 = ?no" "tx_num_inputs t2 = ?ni"
    using frame_fields [OF frame] by (simp_all add: t2_def put_stealth_def signed_mid_def fill_outputs_def)
  have "\<forall>i \<in> set (covenant_indices tx). i < tx_num_outputs t2 \<and> i < 256 \<and>
      length (out_covenant_id (tx_outputs tx ! i)) = 32"
    using nums n kspt_okD(5) [OF kok] by (auto simp: covenant_indices_def wf_output_def size_limits)
  then have covs: "parse_covenants (r2, t2) = (Inr (), (r3, t3))"
    unfolding r3_def t3_def by (rule parse_covenants_reads [OF _ u2 heads(2)])
  have load: "loading tx ?ni (loaded_signed tx ?ni)" using loading_loaded [OF ok] by blast
  have ins: "tx_inputs t3 = tx_inputs (loaded_signed tx ?ni)"
    by (simp add: t3_def fold_put_binding_fields t2_def put_stealth_def signed_mid_def fill_outputs_def)
  have in_hint: "in_ms45_hint (tx_inputs t3 ! i) = ms45_hint_none" if "i < ?ni" for i
  proof -
    have "strip (tx_inputs t3 ! i) = strip (signed_slot (tx_inputs tx ! i))"
      using load that n by (simp add: ins loading_def)
    then have "in_ms45_hint (strip (tx_inputs t3 ! i)) = in_ms45_hint (strip (signed_slot (tx_inputs tx ! i)))" by simp
    then show ?thesis
      by (simp add: strip_def signed_slot_def load_all_sigs_def Let_def load_sigs_def load_input_def
          input_default_def input_zero_def)
  qed
  have len_out: "length (tx_outputs t2) = MAX_OUTPUTS"
    using n by (simp add: t2_def put_stealth_def signed_mid_def fill_outputs_def)
  have out2: "tx_outputs t2 ! i = plain_output tx i" if "i < ?no" for i
    using that by (simp add: t2_def put_stealth_def signed_mid_def fill_outputs_def nth_append)
  have out_hint: "out_ms45_hint (tx_outputs t3 ! i) = ms45_hint_none" if "i < ?no" for i
    using that n len_out out2 [OF that]
    by (simp add: t3_def fold_put_binding_nth bind_output_def plain_output_def load_output_def output_default_def)
  have "room ?ni ?no t3"
    using n load len_out
    by (simp add: room_def ins loading_def wf_transaction_def) (simp add: t3_def fold_put_binding_fields)
  moreover have "\<forall>(m, i, h) \<in> set (hint_records tx). \<not> hint_present (hint_at m i t3)"
  proof clarify
    fix m i h assume mem: "(m, i, h) \<in> set (hint_records tx)" and p: "hint_present (hint_at m i t3)"
    from mem have "hint_ok ?ni ?no (m, i, h)" unfolding mem_hint_records by blast
    then have "hint_at m i t3 = ms45_hint_none" using in_hint out_hint by (auto simp: hint_at_def)
    with p show False by (simp add: ms45_hint_none_def)
  qed
  ultimately have hints: "parse_signed_hints ?ni ?no (r3, t3) = (Inr (), (advance (length ?hw) r3, signed_final tx))"
    using n parse_signed_hints_records [OF hok _ _ _ _ u3]
    by (simp add: signed_final_def t2_def t3_def size_limits)
  have end': "reader_remaining (advance (length ?hw) r3) = 0"
    using arg_cong [OF u3, of length] by simp
  have "bindE parse_signed_front parse_signed_tail (?r0, transaction_new) = parse_signed_tail (?ni, ?no) (r1, signed_mid tx)"
    unfolding r1_def by (rule bindE_reads [OF reads_signed_front [OF ok]]) (auto simp: signed_wire_def)
  also have "\<dots> = (Inr (), (advance (length ?hw) r3, signed_final tx))"
    unfolding parse_signed_tail_def prod.case
    using stealth covs hints end' by (simp add: thenE_def bindE_def ret_def del: reader_remaining_advance)
  finally show ?thesis by (simp add: parse_signed_pskt_v2_def)
qed

section \<open>Round trip between two signers\<close>

definition sigs_view :: "transaction_input \<Rightarrow> (u8 \<times> u8 \<times> bytes) list" where
  "sigs_view i = map (\<lambda>s. (sig_pubkey_pos s, sig_sighash_type s, sig_signature s))
     (take (unat (in_sig_count i)) (in_sigs i))"

definition signed_view :: "transaction \<Rightarrow> (u8 \<times> u8 \<times> bytes) list list \<times> bytes list \<times> bytes option" where
  "signed_view tx = (map sigs_view (inputs tx), map (redeem_bytes tx) [0..<tx_num_inputs tx],
     if tx_has_stealth_tweak tx then Some (tx_stealth_tweak tx) else None)"

lemma strip_views:
  assumes "strip x = strip y"
  shows "input_view x = input_view y" "sigs_view x = sigs_view y"
proof -
  have "input_view (strip x) = input_view (strip y)" "sigs_view (strip x) = sigs_view (strip y)"
    using assms by simp_all
  then show "input_view x = input_view y" "sigs_view x = sigs_view y"
    by (simp_all add: strip_def input_view_def sigs_view_def)
qed

lemma signed_slot_views:
  assumes "wf_input src" "sigs_ok src"
  shows "input_view (signed_slot src) = input_view src" "sigs_view (signed_slot src) = sigs_view src"
proof -
  have len: "length (in_sigs src) = MAX_SIGS_PER_INPUT" "unat (in_sig_count src) \<le> MAX_SIGS_PER_INPUT"
    "wf_spk (utxo_spk (in_utxo src))"
    using assms by (simp_all add: wf_input_def sigs_ok_def)
  show "input_view (signed_slot src) = input_view src"
    using len(3) by (simp add: input_view_def signed_slot_def load_all_sigs_def Let_def load_sigs_def load_input_def)
  show "sigs_view (signed_slot src) = sigs_view src"
    using len by (simp add: sigs_view_def signed_slot_def load_all_sigs_def Let_def load_sigs_def loaded_sig_def
        comp_def min_def)
qed

lemma map_take_update_same:
  assumes "\<And>x. f (g x) = f x"
  shows "map f (take n (xs[i := g (xs ! i)])) = map f (take n xs)"
proof -
  have "map f (xs[i := g (xs ! i)]) = map f xs"
    by (cases "i < length xs"; intro nth_equalityI) (auto simp: nth_list_update assms list_update_beyond)
  then show ?thesis by (metis take_map)
qed

lemma signed_view_put_hint: "signed_view (put_hint rec t) = signed_view t"
proof -
  obtain m i h where rec: "rec = (m, i, h)" by (cases rec)
  have sv: "sigs_view (in_ms45_hint_update (\<lambda>_. h) x) = sigs_view x" for x
    by (simp add: sigs_view_def)
  have rb: "redeem_bytes (put_hint rec t) j = redeem_bytes t j" for j
  proof -
    have "tx_redeem_pool (put_hint rec t) = tx_redeem_pool t"
      by (simp add: rec upd_in_def upd_out_def)
    moreover have "\<exists>h'. tx_inputs (put_hint rec t) ! j = (tx_inputs t ! j)\<lparr>in_ms45_hint := h'\<rparr>"
    proof (cases "m = TRAILER_MS45_IN \<and> i = j \<and> i < length (tx_inputs t)")
      case True
      then show ?thesis by (auto simp: rec upd_in_def)
    next
      case False
      then have "tx_inputs (put_hint rec t) ! j = tx_inputs t ! j"
        by (cases "i = j") (auto simp: rec upd_in_def upd_out_def list_update_beyond)
      then show ?thesis by (intro exI [of _ "in_ms45_hint (tx_inputs t ! j)"]) simp
    qed
    ultimately show ?thesis
      unfolding redeem_bytes_def Let_def by auto
  qed
  show ?thesis
  proof -
    have fields: "tx_num_inputs (put_hint rec t) = tx_num_inputs t"
      "tx_stealth_tweak (put_hint rec t) = tx_stealth_tweak t"
      "tx_has_stealth_tweak (put_hint rec t) = tx_has_stealth_tweak t"
      by (simp_all add: rec upd_in_def upd_out_def)
    have "map sigs_view (inputs (put_hint rec t)) = map sigs_view (inputs t)"
      by (simp add: inputs_def rec upd_in_def upd_out_def map_take_update_same sv)
    then show ?thesis using rb fields by (simp add: signed_view_def)
  qed
qed

lemma signed_view_fold_put_hint: "signed_view (fold put_hint hs t) = signed_view t"
  by (induction hs arbitrary: t) (simp_all add: signed_view_put_hint del: put_hint.simps)

lemma signed_final_views:
  assumes ok: "signed_ok tx"
  shows "view (signed_final tx) = view tx" "signed_view (signed_final tx) = signed_view tx"
    "hint_records (signed_final tx) = hint_records tx"
proof -
  let ?ni = "tx_num_inputs tx" and ?no = "tx_num_outputs tx" and ?l = "loaded_signed tx (tx_num_inputs tx)"
  define t3 where "t3 = fold (put_binding tx) (covenant_indices tx) (put_stealth tx (signed_mid tx))"
  note kok = signed_okD(1) [OF ok]
  have wf: "wf_transaction tx" and n: "?ni \<le> MAX_INPUTS" "?no \<le> MAX_OUTPUTS" using kspt_okD [OF kok] by simp_all
  have lens: "length (tx_inputs tx) = MAX_INPUTS" "length (tx_outputs tx) = MAX_OUTPUTS"
    "tx_payload_len tx \<le> length (tx_payload tx)"
    using wf by (simp_all add: wf_transaction_def)
  have load: "loading tx ?ni ?l" and frame: "frame ?l = frame (load_global tx transaction_new)"
    using loading_loaded [OF ok] by blast+
  note ff = frame_fields [OF frame]
  have ins: "tx_inputs t3 = tx_inputs ?l" "tx_redeem_pool t3 = tx_redeem_pool ?l"
      "tx_num_inputs t3 = ?ni" "tx_num_outputs t3 = ?no"
    using ff by (simp_all add: t3_def fold_put_binding_fields put_stealth_def signed_mid_def fill_outputs_def)
  have len3: "length (tx_inputs t3) = MAX_INPUTS" "length (tx_outputs t3) = MAX_OUTPUTS"
    using load n by (simp_all add: ins loading_def wf_transaction_def)
      (simp add: t3_def fold_put_binding_fields put_stealth_def signed_mid_def fill_outputs_def)
  have slot: "strip (tx_inputs t3 ! i) = strip (signed_slot (tx_inputs tx ! i)) \<and> redeem_bytes t3 i = redeem_bytes tx i"
    if "i < ?ni" for i
  proof -
    have "redeem_bytes t3 i = redeem_bytes ?l i" by (simp only: redeem_bytes_def ins)
    then show ?thesis using load that n ins by (simp add: loading_def)
  qed
  have iv: "input_view (tx_inputs t3 ! i) = input_view (tx_inputs tx ! i)"
    "sigs_view (tx_inputs t3 ! i) = sigs_view (tx_inputs tx ! i)" if "i < ?ni" for i
    using slot [OF that] strip_views signed_slot_views kspt_okD(4) [OF kok that] signed_okD(2) [OF ok that]
    by metis+
  have out: "tx_outputs t3 ! i = (if out_has_covenant (tx_outputs tx ! i) then bind_output tx i (plain_output tx i)
      else plain_output tx i)" if "i < ?no" for i
    using that n len3
    by (simp add: t3_def fold_put_binding_nth fold_put_binding_fields)
      (simp add: covenant_indices_def put_stealth_def signed_mid_def fill_outputs_def nth_append)
  have ov: "output_view (tx_outputs t3 ! i) = output_view (tx_outputs tx ! i)" if "i < ?no" for i
    using kspt_okD(5) [OF kok that]
    by (auto simp: out [OF that] output_view_def bind_output_def plain_output_def load_output_def
        output_default_def wf_output_def)
  have pay: "take (tx_payload_len tx) (blit (take (tx_payload_len tx) (tx_payload tx)) 0 ys) =
      take (tx_payload_len tx) (tx_payload tx)" for ys
    using take_blit_0 [of "take (tx_payload_len tx) (tx_payload tx)" ys] lens by simp
  have glob: "tx_version t3 = tx_version tx" "tx_locktime t3 = tx_locktime tx"
    "tx_subnetwork_id t3 = tx_subnetwork_id tx" "tx_gas t3 = tx_gas tx" "tx_payload_len t3 = tx_payload_len tx"
    "take (tx_payload_len tx) (tx_payload t3) = take (tx_payload_len tx) (tx_payload tx)"
    using ff pay
    by (simp_all add: t3_def fold_put_binding_fields put_stealth_def signed_mid_def fill_outputs_def
        load_global_def load_tx_fields_def)
  have steal: "(if tx_has_stealth_tweak t3 then Some (tx_stealth_tweak t3) else None) =
      (if tx_has_stealth_tweak tx then Some (tx_stealth_tweak tx) else None)"
    using ff by (auto simp: t3_def fold_put_binding_fields put_stealth_def signed_mid_def fill_outputs_def
        load_global_def load_tx_fields_def transaction_new_def)
  have "view t3 = view tx"
    using n lens len3 iv(1) ov glob ins by (simp add: view_def inputs_nth outputs_nth)
  then show "view (signed_final tx) = view tx"
    by (simp add: signed_final_def view_fold_put_hint t3_def)
  have "signed_view t3 = signed_view tx"
    using n lens len3 iv(2) slot steal ins by (simp add: signed_view_def inputs_nth)
  then show "signed_view (signed_final tx) = signed_view tx"
    by (simp add: signed_final_def signed_view_fold_put_hint t3_def)
  have none: "hint_at m i t3 = ms45_hint_none" if "hint_ok ?ni ?no (m, i, h)" for m i h
  proof (cases "m = TRAILER_MS45_IN")
    case True
    then have "in_ms45_hint (strip (tx_inputs t3 ! i)) = in_ms45_hint (strip (signed_slot (tx_inputs tx ! i)))"
      using slot [of i] that by simp
    then show ?thesis
      using True by (simp add: hint_at_def strip_def signed_slot_def load_all_sigs_def Let_def load_sigs_def
          load_input_def input_default_def input_zero_def)
  next
    case False
    then show ?thesis
      using that out [of i] by (auto simp: hint_at_def bind_output_def plain_output_def load_output_def output_default_def)
  qed
  have room: "room ?ni ?no t3" using n len3 by (simp add: room_def)
  note hok = hint_records_ok [OF n]
  have at: "hint_at m i (fold put_hint (hint_records tx) t3) = hint_at m i tx \<or>
      \<not> hint_present (hint_at m i (fold put_hint (hint_records tx) t3)) \<and> \<not> hint_present (hint_at m i tx)"
    if m: "m \<in> {TRAILER_MS45_IN, TRAILER_MS45_OUT}"
      and i: "\<And>h. hint_present h \<Longrightarrow> hint_ok ?ni ?no (m, i, h)" for m i
  proof (cases "hint_present (hint_at m i tx)")
    case True
    then have "(m, i, hint_at m i tx) \<in> set (hint_records tx)" unfolding mem_hint_records using i by simp
    then show ?thesis using hint_at_fold [OF m hok room] by blast
  next
    case False
    then have "(m, i) \<notin> hint_key ` set (hint_records tx)" by (force simp: mem_hint_records)
    then have "hint_at m i (fold put_hint (hint_records tx) t3) = hint_at m i t3"
      using hint_at_fold [OF m hok room] by blast
    also have "\<dots> = ms45_hint_none"
      using none [OF i [of "\<lparr>hint_present = True, hint_cosigner = 0, hint_chain = 0, hint_index = 0\<rparr>"]] by simp
    finally show ?thesis using False by (simp add: ms45_hint_none_def)
  qed
  have "hint_records (fold put_hint (hint_records tx) t3) = hint_records tx"
    by (rule hint_records_cong) (simp_all add: at ins)
  then show "hint_records (signed_final tx) = hint_records tx" by (simp add: signed_final_def t3_def)
qed

section \<open>What an accepted signed payload can contain\<close>

lemma keeps_signed_spk:
  assumes "\<And>f t. P t \<Longrightarrow> (\<And>s. wf_spk s \<Longrightarrow> wf_spk (f s)) \<Longrightarrow> P (up f t)"
  shows "keeps (holds P) (parse_signed_spk up)"
  unfolding parse_signed_spk_def parse_script_def
  by (intro keeps_bindE keeps_rd keeps_guard keeps_thenE keeps_upd keeps_read_bytes assms)
    (auto simp: wf_spk_def)

lemma kspt_inv_upd_sig:
  assumes "kspt_inv ni no t" "\<And>s. wf_sig s \<Longrightarrow> wf_sig (f s)"
  shows "kspt_inv ni no (upd_sig i s f t)"
  unfolding upd_sig_def
  using assms(1)
  by (rule kspt_inv_upd_in)
    (auto simp: wf_input_def pool_ok_def intro!: list_all_update assms(2) dest: list_all_length [THEN iffD1])

lemma keeps_parse_sig: "keeps (holds (kspt_inv ni no)) (parse_sig i s)"
  unfolding parse_sig_def
  by (intro step_invariants kspt_inv_upd_sig) (auto simp: wf_sig_def)

lemma keeps_parse_sigs: "keeps (holds (kspt_inv ni no)) (parse_sigs i)"
proof -
  have "kspt_inv ni no (sync_legacy i t)" if "kspt_inv ni no t" for t
    unfolding sync_legacy_def using that
    by (rule kspt_inv_upd_in) (auto simp: wf_input_def pool_ok_def list_all_length wf_sig_def size_limits)
  then show ?thesis
    unfolding parse_sigs_def
    by (intro step_invariants keeps_forE keeps_parse_sig kspt_inv_upd_in)
      (auto simp: wf_input_def pool_ok_def intro!: step_invariants)
qed

lemma keeps_signed_input:
  assumes "i < MAX_INPUTS"
  shows "keeps (holds (kspt_inv ni no)) (parse_signed_input v i)"
proof -
  have base: "keeps (holds (kspt_inv ni no)) (parse_input_base i)"
    unfolding parse_input_base_def
    by (intro step_invariants kspt_inv_upd_in) (auto simp: wf_input_def pool_ok_def)
  have spk: "keeps (holds (kspt_inv ni no)) (parse_signed_spk (upd_in_spk i))"
    unfolding upd_in_spk_def
    by (intro keeps_signed_spk kspt_inv_upd_in wf_input_script) (auto simp: pool_ok_def)
  have redeem: "keeps (holds (kspt_inv ni no)) (parse_redeem i n)" for n
    unfolding parse_redeem_def
    by (auto intro!: step_invariants keeps_act store_redeem_inv assms)
  show ?thesis
    unfolding parse_signed_input_def
    by (intro keeps_thenE base spk keeps_parse_sigs keeps_bindE redeem) (auto intro!: step_invariants)
qed

text \<open>A signature count above five cannot get through the signature loop.\<close>

lemma forE_guard_bound:
  assumes "\<And>k s x s'. m \<le> k \<Longrightarrow> f k s \<noteq> (Inr x, s')" "forE [i..<n] f s = (Inr u, s')" "i \<le> n"
  shows "n \<le> m \<or> i = n"
proof (rule ccontr)
  assume "\<not> (n \<le> m \<or> i = n)"
  then have n: "m < n" "i < n" using assms(3) by auto
  obtain k where k: "n = Suc k" using n by (cases n) auto
  have "forE (xs @ ys) f = thenE (forE xs f) (forE ys f)" for xs ys
    by (induction xs) (auto simp: thenE_def bindE_def fun_eq_iff ret_def split: prod.splits sum.splits)
  then have "forE [i..<n] f = thenE (forE [i..<k] f) (forE [k] f)"
    using n k by (simp add: upt_Suc)
  then obtain s1 s2 where "f k s1 = (Inr (), s2)"
    using assms(2) by (auto simp: thenE_eq_Inr)
  then show False using assms(1) [of k] n k by auto
qed

definition count_ok :: "nat \<Rightarrow> transaction \<Rightarrow> bool" where
  "count_ok i t \<longleftrightarrow> unat (in_sig_count (tx_inputs t ! i)) \<le> MAX_SIGS_PER_INPUT"

lemma keeps_count:
  assumes "\<And>x. in_sig_count (f x) = in_sig_count x" "count_ok j t"
  shows "count_ok j (upd_in i f t)"
  using assms by (cases "i = j"; cases "i < length (tx_inputs t)") (auto simp: count_ok_def upd_in_def list_update_beyond)

lemma parse_sig_limit: "MAX_SIGS_PER_INPUT \<le> s \<Longrightarrow> parse_sig i s st \<noteq> (Inr x, st')"
  by (simp add: parse_sig_def thenE_def bindE_def fail_def)

lemma count_upd_sig: "count_ok j t \<Longrightarrow> count_ok j (upd_sig i s f t)"
  unfolding upd_sig_def by (rule keeps_count) simp_all

lemma keeps_count_sigs: "i \<noteq> j \<Longrightarrow> keeps (holds (count_ok j)) (parse_sigs i)"
proof -
  assume ij: "i \<noteq> j"
  have sig: "keeps (holds (count_ok j)) (parse_sig i s)" for s
    unfolding parse_sig_def by (intro step_invariants count_upd_sig)
  have other: "count_ok j (upd_in i f t)" if "count_ok j t" for f t
    using that ij by (simp add: count_ok_def upd_in_def)
  show ?thesis
    unfolding parse_sigs_def sync_legacy_def
    by (intro step_invariants keeps_forE sig other) (auto intro!: step_invariants other)
qed

lemma yields_count_sigs:
  "yields (holds (\<lambda>t. i < length (tx_inputs t))) (parse_sigs i) (\<lambda>_. holds (count_ok i))"
  unfolding yields_def
proof (intro allI impI)
  fix st x st'
  assume len: "holds (\<lambda>t. i < length (tx_inputs t)) st" and run: "parse_sigs i st = (Inr x, st')"
  obtain r t where st: "st = (r, t)" by (cases st)
  obtain c r' where c: "read_u8 r = (Inr c, r')"
    and loop: "thenE (upd (upd_in i (in_sig_count_update (\<lambda>_. c)))) (thenE (forE [0..<unat c] (parse_sig i))
       (if c > 0 then upd (sync_legacy i) else ret ())) (r', t) = (Inr x, st')"
    using run unfolding parse_sigs_def st bindE_eq_Inr by (auto simp: rd_apply prod_eq_iff)
  define t1 where "t1 = upd_in i (in_sig_count_update (\<lambda>_. c)) t"
  obtain s1 where for1: "forE [0..<unat c] (parse_sig i) (r', t1) = (Inr (), s1)"
    and last: "(if c > 0 then upd (sync_legacy i) else ret ()) s1 = (Inr x, st')"
    using loop unfolding thenE_eq_Inr t1_def by auto
  have "unat c \<le> MAX_SIGS_PER_INPUT"
    using forE_guard_bound [of MAX_SIGS_PER_INPUT, OF parse_sig_limit for1] by auto
  then have "count_ok i t1"
    using len by (simp add: count_ok_def t1_def nth_upd_in st)
  moreover have "keeps (holds (count_ok i)) (forE [0..<unat c] (parse_sig i))"
    unfolding parse_sig_def by (intro step_invariants keeps_forE count_upd_sig)
  ultimately have "holds (count_ok i) s1" using keepsD [of "holds (count_ok i)" _ "(r', t1)"] for1 by fastforce
  moreover have "keeps (holds (count_ok i)) (if c > 0 then upd (sync_legacy i) else ret ())"
    unfolding sync_legacy_def by (auto intro!: step_invariants keeps_count)
  ultimately show "holds (count_ok i) st'" using keepsD [of "holds (count_ok i)" _ s1] last by fastforce
qed


definition counts_upto :: "nat \<Rightarrow> transaction \<Rightarrow> bool" where
  "counts_upto k t \<longleftrightarrow> (\<forall>j < k. count_ok j t)"

lemma keeps_counts_other:
  assumes "\<And>j. j \<noteq> i \<Longrightarrow> keeps (holds (count_ok j)) m" "k \<le> i"
  shows "keeps (holds (counts_upto k)) m"
proof -
  have "holds (counts_upto k) (snd (m (r, t)))" if t: "counts_upto k t" for r t
  proof -
    have "holds (count_ok j) (snd (m (r, t)))" if "j < k" for j
      using that t assms keepsD [of "holds (count_ok j)" m "(r, t)"] by (auto simp: counts_upto_def)
    then show ?thesis by (auto simp: counts_upto_def holds_def split: prod.splits)
  qed
  then show ?thesis by (auto simp: keeps_def)
qed

lemma count_in_spk: "count_ok j t \<Longrightarrow> count_ok j (upd_in_spk i f t)"
  unfolding upd_in_spk_def by (rule keeps_count) simp_all

lemma count_store_redeem: "count_ok j t \<Longrightarrow> count_ok j (snd (store_redeem i rs t))"
  by (cases "i = j"; cases "i < length (tx_inputs t)")
    (auto simp: count_ok_def store_redeem_def Let_def upd_in_def list_update_beyond)

lemma keeps_count_rest:
  "keeps (holds (count_ok j)) (parse_input_base i)"
  "keeps (holds (count_ok j)) (parse_signed_spk (upd_in_spk i))"
  "keeps (holds (count_ok j)) (parse_redeem i n)"
  unfolding parse_input_base_def parse_redeem_def
  by (intro step_invariants keeps_count keeps_signed_spk count_in_spk; simp)+
    (auto intro!: step_invariants keeps_act count_store_redeem)

lemma yields_signed_input:
  assumes k: "k < ni" "ni \<le> MAX_INPUTS"
  shows "yields (holds (\<lambda>t. kspt_inv ni no t \<and> counts_upto k t)) (parse_signed_input v k)
     (\<lambda>_. holds (\<lambda>t. kspt_inv ni no t \<and> counts_upto (Suc k) t))"
proof -
  let ?rs = "bindE (if v = FORMAT_VERSION_V3 \<or> v = FORMAT_VERSION_SIGNED_V4
            then bindE (rd read_u16_le) (\<lambda>w. ret (unat w)) else bindE (rd read_u8) (\<lambda>b. ret (unat b)))
      (parse_redeem k)"
  have rs: "keeps (holds (count_ok j)) ?rs" for j
    by (auto intro!: step_invariants keeps_count_rest)
  have others: "keeps (holds (count_ok j)) (parse_signed_input v k)" if "j \<noteq> k" for j
    unfolding parse_signed_input_def
    using that by (intro keeps_thenE keeps_count_rest(1,2) keeps_count_sigs rs) auto
  have inv: "keeps (holds (kspt_inv ni no)) (parse_signed_input v k)"
    using k by (intro keeps_signed_input) simp
  let ?L = "\<lambda>t. k < length (tx_inputs t)"
  have len_upd: "?L (upd_in k f t)" if "?L t" for f t using that by simp
  have lens1: "keeps (holds ?L) (parse_input_base k)"
    unfolding parse_input_base_def by (intro step_invariants len_upd) auto
  have lens2: "keeps (holds ?L) (parse_signed_spk (upd_in_spk k))"
    unfolding upd_in_spk_def by (rule keeps_signed_spk) (rule len_upd)
  have mine: "yields (holds ?L) (parse_signed_input v k) (\<lambda>_. holds (count_ok k))"
    unfolding parse_signed_input_def
    by (rule yields_thenE [OF yields_keeps [OF lens1]], rule yields_thenE [OF yields_keeps [OF lens2]],
        rule yields_thenE [OF yields_count_sigs yields_keeps [OF rs]])
  show ?thesis
    unfolding yields_def
  proof (intro allI impI)
    fix st x st'
    assume st: "holds (\<lambda>t. kspt_inv ni no t \<and> counts_upto k t) st" and run: "parse_signed_input v k st = (Inr x, st')"
    have h: "holds (kspt_inv ni no) st" "holds (counts_upto k) st" "holds ?L st"
      using st k by (auto simp: holds_def kspt_inv_def wf_transaction_def split: prod.splits)
    have "holds (kspt_inv ni no) st'" using keepsD [OF inv h(1)] run by simp
    moreover have "holds (counts_upto k) st'"
      using keepsD [OF keeps_counts_other [OF others, of k k] h(2)] run by simp
    moreover have "holds (count_ok k) st'" using yieldsD [OF mine h(3) run] .
    ultimately show "holds (\<lambda>t. kspt_inv ni no t \<and> counts_upto (Suc k) t) st'"
      by (auto simp: holds_def counts_upto_def less_Suc_eq split: prod.splits)
  qed
qed

lemma keeps_signed_header: "keeps (holds P) parse_signed_header"
  unfolding parse_signed_header_def by (intro step_invariants)

lemma keeps_signed_global: "keeps (holds some_inv) parse_signed_global"
proof -
  have "some_inv (tx_version_update (\<lambda>_. v) t)" "n \<le> MAX_INPUTS \<Longrightarrow> some_inv (tx_num_inputs_update (\<lambda>_. n) t)"
    "m \<le> MAX_OUTPUTS \<Longrightarrow> some_inv (tx_num_outputs_update (\<lambda>_. m) t)" if "some_inv t" for v n m t
    using that unfolding some_inv_def by (blast intro: kspt_inv_globals)+
  then show ?thesis
    unfolding parse_signed_global_def
    by (intro step_invariants keeps_some_inv [OF keeps_parse_tx_fields]) auto
qed

lemma yields_set_counts:
  assumes "ni \<noteq> 0" "\<not> ni > MAX_INPUTS" "no \<noteq> 0" "\<not> no > MAX_OUTPUTS"
  shows "yields (holds some_inv) (thenE (upd (tx_num_inputs_update (\<lambda>_. ni)))
      (thenE (upd (tx_num_outputs_update (\<lambda>_. no))) (thenE parse_tx_fields (ret (ni, no))))) counts_ok"
proof -
  let ?P = "\<lambda>t. \<exists>u. some_inv u \<and> t = tx_num_inputs_update (\<lambda>_. ni) u"
  have "yields (holds some_inv) (upd (tx_num_inputs_update (\<lambda>_. ni))) (\<lambda>_. holds ?P)"
    by (intro yields_upd) blast
  moreover have "yields (holds ?P) (upd (tx_num_outputs_update (\<lambda>_. no))) (\<lambda>_. holds (kspt_inv ni no))"
    using assms by (intro yields_upd) (auto simp: some_inv_def intro!: kspt_inv_globals)
  moreover have "yields (holds (kspt_inv ni no)) (thenE parse_tx_fields (ret (ni, no))) counts_ok"
    using assms
    by (intro yields_thenE [OF yields_keeps [OF keeps_parse_tx_fields]] yields_ret) (auto simp: counts_ok_def)
  ultimately show ?thesis by (rule yields_thenE [OF _ yields_thenE])
qed

lemma yields_signed_global: "yields (holds some_inv) parse_signed_global counts_ok"
proof -
  have v: "yields (holds some_inv) (upd (tx_version_update (\<lambda>_. v))) (\<lambda>_. holds some_inv)" for v
    by (intro yields_upd) (auto simp: some_inv_def intro: kspt_inv_globals)
  show ?thesis
    unfolding parse_signed_global_def
    by (intro yields_bindE [OF yields_keeps_rd] yields_thenE [OF v] yields_guard)
      (intro yields_set_counts; simp)
qed

lemma yields_signed_output:
  assumes "k < no" "no \<le> MAX_OUTPUTS"
  shows "yields (holds (\<lambda>t. outputs_upto ni no k tot t \<and> counts_upto ni t)) (parse_signed_output k tot)
     (\<lambda>c. holds (\<lambda>t. outputs_upto ni no (Suc k) c t \<and> counts_upto ni t))"
proof -
  have spk: "keeps (holds (outputs_upto ni no j c)) (parse_signed_spk (upd_out_spk i))" for j c i
    unfolding upd_out_spk_def
    by (intro keeps_signed_spk outputs_upto_upd_out) (auto simp: wf_output_def)
  have yields: "yields (holds (outputs_upto ni no k tot)) (parse_signed_output k tot)
     (\<lambda>c. holds (outputs_upto ni no (Suc k) c))"
    unfolding parse_signed_output_def
    by (rule yields_bindE [OF yields_parse_value [OF assms]], rule yields_thenE [OF yields_keeps [OF spk]])
      (auto intro: yields_ret)
  have counts: "counts_upto ni (upd_out i f t) \<longleftrightarrow> counts_upto ni t" for i f t
    by (simp add: counts_upto_def count_ok_def upd_out_def)
  have keeps: "keeps (holds (counts_upto ni)) (parse_signed_output k tot)"
    unfolding parse_signed_output_def parse_value_def upd_out_spk_def
    by (intro step_invariants keeps_signed_spk) (auto simp: counts intro!: step_invariants split: option.split)
  show ?thesis
    unfolding yields_def
  proof (intro allI impI)
    fix st x st'
    assume st: "holds (\<lambda>t. outputs_upto ni no k tot t \<and> counts_upto ni t) st"
      and run: "parse_signed_output k tot st = (Inr x, st')"
    have "holds (outputs_upto ni no k tot) st" "holds (counts_upto ni) st"
      using st by (auto simp: holds_def split: prod.splits)
    then show "holds (\<lambda>t. outputs_upto ni no (Suc k) x t \<and> counts_upto ni t) st'"
      using yieldsD [OF yields _ run] keepsD [OF keeps, of st] run
      by (auto simp: holds_def split: prod.splits)
  qed
qed

text \<open>What a successful front guarantees, and what the trailers leave alone.\<close>

definition signed_accepted :: "nat \<Rightarrow> nat \<Rightarrow> transaction \<Rightarrow> bool" where
  "signed_accepted ni no t \<longleftrightarrow>
     kspt_inv ni no t \<and> output_total t no \<le> unat MAX_SOMPI \<and> counts_upto ni t"

lemma yields_signed_front:
  "yields (holds some_inv) parse_signed_front
     (\<lambda>(ni, no) s. 1 \<le> ni \<and> 1 \<le> no \<and> holds (signed_accepted ni no) s)"
proof -
  have loops: "yields (holds (kspt_inv ni no))
      (thenE (forE [0..<ni] (parse_signed_input v))
      (bindE (foldE [0..<no] parse_signed_output 0) (\<lambda>_. ret (ni, no))))
      (\<lambda>(ni, no) s. 1 \<le> ni \<and> 1 \<le> no \<and> holds (signed_accepted ni no) s)"
    if n: "1 \<le> ni" "ni \<le> MAX_INPUTS" "1 \<le> no" "no \<le> MAX_OUTPUTS" for ni no v
  proof (rule yields_thenE)
    have ins: "yields (holds (\<lambda>t. kspt_inv ni no t \<and> counts_upto 0 t)) (forE [0..<ni] (parse_signed_input v))
        (\<lambda>_. holds (\<lambda>t. kspt_inv ni no t \<and> counts_upto ni t))"
      by (rule yields_forE [where I = "\<lambda>k. holds (\<lambda>t. kspt_inv ni no t \<and> counts_upto k t)"])
        (use n in \<open>auto intro: yields_signed_input\<close>)
    show "yields (holds (kspt_inv ni no)) (forE [0..<ni] (parse_signed_input v))
        (\<lambda>_. holds (\<lambda>t. outputs_upto ni no 0 0 t \<and> counts_upto ni t))"
      by (rule yields_weaken [OF ins])
        (auto simp: holds_def outputs_upto_def output_total_def counts_upto_def split: prod.splits)
    have outs: "yields (holds (\<lambda>t. outputs_upto ni no 0 0 t \<and> counts_upto ni t))
        (foldE [0..<no] parse_signed_output 0)
        (\<lambda>c. holds (\<lambda>t. outputs_upto ni no no c t \<and> counts_upto ni t))"
      by (rule yields_foldE [where I = "\<lambda>k c. holds (\<lambda>t. outputs_upto ni no k c t \<and> counts_upto ni t)"])
        (use n in \<open>auto intro: yields_signed_output\<close>)
    show "yields (holds (\<lambda>t. outputs_upto ni no 0 0 t \<and> counts_upto ni t))
        (bindE (foldE [0..<no] parse_signed_output 0) (\<lambda>_. ret (ni, no)))
       (\<lambda>(ni, no) s. 1 \<le> ni \<and> 1 \<le> no \<and> holds (signed_accepted ni no) s)"
      by (rule yields_bindE [OF outs], rule yields_ret)
        (use n in \<open>auto simp: holds_def signed_accepted_def outputs_upto_def word_le_nat_alt split: prod.splits\<close>)
  qed
  show ?thesis
    unfolding parse_signed_front_def
  proof (rule yields_bindE [OF yields_keeps [OF keeps_signed_header]],
      rule yields_bindE [OF yields_signed_global], clarify)
    fix v ni no
    show "yields (counts_ok (ni, no)) (thenE (forE [0..<ni] (parse_signed_input v))
      (bindE (foldE [0..<no] parse_signed_output 0) (\<lambda>_. ret (ni, no))))
      (\<lambda>(ni, no) s. 1 \<le> ni \<and> 1 \<le> no \<and> holds (signed_accepted ni no) s)"
    proof (cases "1 \<le> ni \<and> ni \<le> MAX_INPUTS \<and> 1 \<le> no \<and> no \<le> MAX_OUTPUTS")
      case True
      then show ?thesis
        by (intro yields_weaken [OF loops]) (auto dest: counts_ok_prefix)
    next
      case False
      then show ?thesis unfolding yields_def by (blast dest: counts_ok_prefix)
    qed
  qed
qed

lemma keeps_loops:
  assumes "keeps (holds P) parse_covenant_record" "keeps (holds P) (bindE (rd read_u8) (parse_hint_body ni no))"
  shows "keeps (holds P) parse_covenants" "keeps (holds P) (parse_signed_hints ni no)"
proof -
  have "holds P (snd (parse_covenants (r, t)))" if "P t" for r t
    using that
  proof (induction "(r, t)" arbitrary: r t rule: parse_covenants.induct)
    case (1 r t)
    have one: "holds P (snd (parse_covenant_record (r, t)))" using keepsD [OF assms(1)] 1(2) by simp
    show ?case
      using one 1 by (subst parse_covenants.simps) (auto split: prod.splits sum.splits)
  qed
  then show "keeps (holds P) parse_covenants" by (auto simp: keeps_def)
  have "holds P (snd (parse_signed_hints ni no (r, t)))" if "P t" for r t
    using that assms(2)
  proof (induction ni no "(r, t)" arbitrary: r t rule: parse_signed_hints.induct)
    case (1 ni no r t)
    have one: "holds P (snd (bindE (rd read_u8) (parse_hint_body ni no) (r, t)))" using keepsD [OF 1(3)] 1(2) by simp
    show ?case
      using one 1 by (subst parse_signed_hints.simps) (auto split: prod.splits sum.splits)
  qed
  then show "keeps (holds P) (parse_signed_hints ni no)" by (auto simp: keeps_def)
qed

definition trailer_proof :: "(transaction \<Rightarrow> bool) \<Rightarrow> bool" where
  "trailer_proof P \<longleftrightarrow>
     (\<forall>t w. P t \<longrightarrow> length w = 32 \<longrightarrow> P (tx_stealth_tweak_update (\<lambda>_. w) t)) \<and>
     (\<forall>t. P t \<longrightarrow> P (tx_has_stealth_tweak_update (\<lambda>_. True) t)) \<and>
     (\<forall>t i a c. P t \<longrightarrow> length c = 32 \<longrightarrow> P (upd_out i (\<lambda>out. out\<lparr>out_has_covenant := True,
                out_covenant_auth_input := a, out_covenant_id := c\<rparr>) t)) \<and>
     (\<forall>t m i h. P t \<longrightarrow> P (put_hint (m, i, h) t))"

lemma keeps_peek: "keeps P peek"
  by (auto simp: keeps_def peek_def)

lemma keeps_signed_tail:
  assumes "trailer_proof P"
  shows "keeps (holds P) (parse_signed_tail x)"
proof -
  note closed = assms [unfolded trailer_proof_def]
  have cov: "keeps (holds P) parse_covenant_record"
    unfolding parse_covenant_record_def using closed by (auto intro!: step_invariants)
  have hint: "keeps (holds P) (bindE (rd read_u8) (parse_hint_body ni no))" for ni no
    unfolding parse_hint_body_def apply_hint_def
    using closed [THEN conjunct2, THEN conjunct2, THEN conjunct2, rule_format, of _ TRAILER_MS45_IN]
      closed [THEN conjunct2, THEN conjunct2, THEN conjunct2, rule_format, of _ TRAILER_MS45_OUT]
    by (auto intro!: step_invariants)
  have stealth: "keeps (holds P) parse_stealth"
    unfolding parse_stealth_def using closed by (auto intro!: step_invariants keeps_peek)
  show ?thesis
    unfolding parse_signed_tail_def
    by (cases x) (auto intro!: step_invariants stealth keeps_loops cov hint)
qed

lemma put_hint_other:
  "output_total (put_hint (m, i, h) t) k = output_total t k" "count_ok j t \<Longrightarrow> count_ok j (put_hint (m, i, h) t)"
proof -
  show "output_total (put_hint (m, i, h) t) k = output_total t k"
    using output_total_upd_out [of "out_ms45_hint_update (\<lambda>_. h)" i t k]
    by (auto simp: output_total_def upd_in_def)
  show "count_ok j t \<Longrightarrow> count_ok j (put_hint (m, i, h) t)"
    using keeps_count [of "in_ms45_hint_update (\<lambda>_. h)" j t i] by (auto simp: count_ok_def upd_out_def)
qed

lemma trailer_proof_inv: "trailer_proof (kspt_inv ni no)"
proof -
  have "kspt_inv ni no (tx_stealth_tweak_update (\<lambda>_. w) t)" if "kspt_inv ni no t" "length w = 32" for t w
    using that by (simp add: kspt_inv_def wf_transaction_def)
  moreover have "kspt_inv ni no (tx_has_stealth_tweak_update (\<lambda>_. True) t)" if "kspt_inv ni no t" for t
    using that by (simp add: kspt_inv_def wf_transaction_def)
  moreover have "kspt_inv ni no (upd_out i (\<lambda>out. out\<lparr>out_has_covenant := True,
      out_covenant_auth_input := a, out_covenant_id := c\<rparr>) t)" if "kspt_inv ni no t" "length c = 32" for t i a c
    using that(1) by (rule kspt_inv_upd_out) (simp add: wf_output_def that(2))
  ultimately show ?thesis unfolding trailer_proof_def by (blast intro: kspt_inv_put_hint)
qed

lemma trailer_proofI:
  assumes "\<And>t w. P t \<Longrightarrow> length w = 32 \<Longrightarrow> P (tx_stealth_tweak_update (\<lambda>_. w) t)"
    "\<And>t. P t \<Longrightarrow> P (tx_has_stealth_tweak_update (\<lambda>_. True) t)"
    "\<And>t i a c. P t \<Longrightarrow> length c = 32 \<Longrightarrow> P (upd_out i (\<lambda>out. out\<lparr>out_has_covenant := True,
                out_covenant_auth_input := a, out_covenant_id := c\<rparr>) t)"
    "\<And>t m i h. P t \<Longrightarrow> P (put_hint (m, i, h) t)"
  shows "trailer_proof P"
  unfolding trailer_proof_def by (intro conjI allI impI assms; assumption)

lemma trailer_proof_conj: "trailer_proof P \<Longrightarrow> trailer_proof Q \<Longrightarrow> trailer_proof (\<lambda>t. P t \<and> Q t)"
  unfolding trailer_proof_def by (elim conjE) (intro conjI allI impI; elim conjE; simp only:)

lemma trailer_proof_some: "trailer_proof some_inv"
proof (rule trailer_proofI)
  note inv = trailer_proof_inv [unfolded trailer_proof_def]
  show "some_inv (tx_stealth_tweak_update (\<lambda>_. w) t)" if "some_inv t" "length w = 32" for t w
    using that inv unfolding some_inv_def by meson
  show "some_inv (tx_has_stealth_tweak_update (\<lambda>_. True) t)" if "some_inv t" for t
    using that inv unfolding some_inv_def by meson
  show "some_inv (upd_out i (\<lambda>out. out\<lparr>out_has_covenant := True,
                out_covenant_auth_input := a, out_covenant_id := c\<rparr>) t)" if "some_inv t" "length c = 32" for t i a c
    using that inv unfolding some_inv_def by meson
qed (rule some_inv_put_hint)

lemma trailer_proof_total: "trailer_proof (\<lambda>t. output_total t no \<le> b)"
proof (rule trailer_proofI)
  fix t i a c assume "output_total t no \<le> b"
  then show "output_total (upd_out i (\<lambda>out. out\<lparr>out_has_covenant := True,
                out_covenant_auth_input := a, out_covenant_id := c\<rparr>) t) no \<le> b"
    by (subst output_total_upd_out) simp_all
next
  fix t m i h assume "output_total t no \<le> b"
  then show "output_total (put_hint (m, i, h) t) no \<le> b" by (simp only: put_hint_other)
qed (simp_all add: output_total_def)

lemma trailer_proof_counts: "trailer_proof (counts_upto ni)"
proof (rule trailer_proofI)
  fix t m i h assume "counts_upto ni t"
  then show "counts_upto ni (put_hint (m, i, h) t)"
    unfolding counts_upto_def using put_hint_other(2) by blast
qed (simp_all add: counts_upto_def count_ok_def upd_out_def)

lemma trailer_proof_accepted: "trailer_proof (signed_accepted ni no)"
  unfolding signed_accepted_def
  by (intro trailer_proof_conj trailer_proof_inv trailer_proof_total trailer_proof_counts)

lemma keeps_signed_front: "keeps (holds some_inv) parse_signed_front"
proof -
  have out: "keeps (holds (kspt_inv a b)) (parse_signed_output k c)" for a b k c
    unfolding parse_signed_output_def parse_value_def upd_out_spk_def
    by (intro step_invariants keeps_signed_spk kspt_inv_upd_out)
      (auto intro!: step_invariants kspt_inv_upd_out split: option.split simp: wf_output_def)
  have loops: "keeps (holds some_inv) (thenE (forE [0..<ni] (parse_signed_input v))
      (bindE (foldE [0..<no] parse_signed_output 0) (\<lambda>_. ret (ni, no))))"
    if "ni \<le> MAX_INPUTS" for ni no v
    using that
    by (intro keeps_some_inv keeps_thenE keeps_bindE keeps_forE keeps_foldE out keeps_signed_input) auto
  have rest: "keeps (holds some_inv) (bindE parse_signed_global (\<lambda>(ni, no).
      thenE (forE [0..<ni] (parse_signed_input v))
      (bindE (foldE [0..<no] parse_signed_output 0) (\<lambda>_. ret (ni, no)))))" for v
    unfolding keeps_def
  proof (intro allI impI)
    fix s assume s: "holds some_inv s"
    note global = keepsD [OF keeps_signed_global s]
    show "holds some_inv (snd (bindE parse_signed_global (\<lambda>(ni, no).
      thenE (forE [0..<ni] (parse_signed_input v))
      (bindE (foldE [0..<no] parse_signed_output 0) (\<lambda>_. ret (ni, no)))) s))"
    proof (cases "fst (parse_signed_global s)")
      case (Inl e)
      then show ?thesis using global by (cases "parse_signed_global s") (simp add: bindE_def)
    next
      case (Inr c)
      then obtain ni no s' where run: "parse_signed_global s = (Inr (ni, no), s')"
        by (cases "parse_signed_global s"; cases c) auto
      then have "counts_ok (ni, no) s'" using yieldsD [OF yields_signed_global s] by simp
      then have "ni \<le> MAX_INPUTS" by (auto dest: counts_ok_prefix)
      then show ?thesis
        using keepsD [OF loops] global run by (simp add: bindE_Inr [where m = parse_signed_global, OF run])
    qed
  qed
  show ?thesis
    unfolding parse_signed_front_def by (intro keeps_bindE keeps_signed_header rest)
qed

lemma parse_signed_wf: "wf_transaction (snd (parse_signed_pskt_v2 data t0))"
proof -
  have "keeps (holds some_inv) (bindE parse_signed_front parse_signed_tail)"
    by (intro keeps_bindE keeps_signed_front keeps_signed_tail trailer_proof_some)
  then have "holds some_inv (snd (bindE parse_signed_front parse_signed_tail (reader_new data, transaction_new)))"
    by (simp add: keeps_def)
  then show ?thesis
    by (auto simp: parse_signed_pskt_v2_def holds_def some_inv_def kspt_inv_def split: prod.splits)
qed

lemma parse_signed_accepts:
  assumes "parse_signed_pskt_v2 data t0 = (Inr (), tx)"
  shows "kspt_ok tx" "counts_upto (tx_num_inputs tx) tx"
proof -
  obtain r where run: "bindE parse_signed_front parse_signed_tail (reader_new data, transaction_new) = (Inr (), (r, tx))"
    using assms by (auto simp: parse_signed_pskt_v2_def split: prod.splits)
  then obtain ni no s where front: "parse_signed_front (reader_new data, transaction_new) = (Inr (ni, no), s)"
    and tail: "parse_signed_tail (ni, no) s = (Inr (), (r, tx))"
    by (auto simp: bindE_eq_Inr)
  have f: "1 \<le> ni \<and> 1 \<le> no \<and> holds (signed_accepted ni no) s"
    using yieldsD [OF yields_signed_front _ front] by simp
  then have "holds (signed_accepted ni no) (snd (parse_signed_tail (ni, no) s))"
    using keepsD [OF keeps_signed_tail [OF trailer_proof_accepted]] by blast
  then have acc: "signed_accepted ni no tx" using tail by (simp add: holds_def)
  with f show "kspt_ok tx"
    by (auto simp: signed_accepted_def kspt_ok_def kspt_inv_def list_all_iff wf_transaction_def)
  show "counts_upto (tx_num_inputs tx) tx"
    using acc by (simp add: signed_accepted_def kspt_inv_def)
qed

lemma serialize_signed_bytes:
  "if length (signed_wire hash tx) \<le> length out
   then serialize_signed_pskt_v2 hash tx out =
     (Inr (length (signed_wire hash tx)), signed_wire hash tx @ drop (length (signed_wire hash tx)) out)
   else fst (serialize_signed_pskt_v2 hash tx out) = Inl OutputBufferTooSmall"
  using run_writer_fits [OF writes_signed_v2, of hash tx out] run_writer_small [OF writes_signed_v2, of out hash tx]
  by (auto simp: serialize_signed_pskt_v2_def)

section \<open>Sample transactions\<close>

text \<open>One signed input, a stealth tweak, and a covenant binding to input 9.\<close>

definition sample_sig :: input_sig where
  "sample_sig = \<lparr>sig_signature = replicate 64 7, sig_sighash_type = 1, sig_pubkey_pos = 2,
     sig_present = True, sig_pubkey_compressed = replicate 33 0\<rparr>"

definition signed_sample :: transaction where
  "signed_sample =
     (upd_out 0 (\<lambda>out. out\<lparr>out_has_covenant := True, out_covenant_auth_input := 9,
        out_covenant_id := replicate 32 3\<rparr>)
     (tx_has_stealth_tweak_update (\<lambda>_. True) (tx_stealth_tweak_update (\<lambda>_. replicate 32 8)
     (upd_in 0 (\<lambda>i. i\<lparr>in_sig_count := 1, in_sigs := (in_sigs i)[0 := sample_sig]\<rparr>) (sample_tx 1 5)))))"

lemma signed_sample_ok:
  "signed_ok signed_sample" "tx_num_inputs signed_sample = 1"
  "out_has_covenant (outputs signed_sample ! 0)" "out_covenant_auth_input (outputs signed_sample ! 0) = 9"
proof -
  define t0 where "t0 = sample_tx 1 5"
  define t1 where "t1 = upd_in 0 (\<lambda>i. i\<lparr>in_sig_count := 1, in_sigs := (in_sigs i)[0 := sample_sig]\<rparr>) t0"
  have "kspt_ok t0" by (simp add: t0_def sample_tx_ok size_limits word_le_nat_alt)
  then have inv0: "kspt_inv 1 1 t0"
    by (auto simp: t0_def kspt_ok_def kspt_inv_def list_all_iff
        sample_tx_def sample_input_def transaction_new_def input_default_def input_zero_def word_le_nat_alt)
  have inv1: "kspt_inv 1 1 t1"
    unfolding t1_def using inv0
    by (rule kspt_inv_upd_in)
      (auto simp: wf_input_def wf_sig_def sample_sig_def pool_ok_def intro!: list_all_update)
  have total0: "output_total t1 1 \<le> unat MAX_SOMPI"
    by (simp add: t1_def t0_def output_total_def upd_in_def sample_tx_def transaction_new_def
        output_default_def size_limits)
  have sig1: "in_sig_count (tx_inputs t1 ! 0) = 1" "sig_present (in_sigs (tx_inputs t1 ! 0) ! 0)"
    "in_redeem_script_len (tx_inputs t1 ! 0) = 0"
    by (simp_all add: t1_def t0_def upd_in_def sample_tx_def transaction_new_def sample_input_def
        input_default_def input_zero_def sample_sig_def size_limits)
  then have "signed_accepted 1 1 t1"
    using inv1 total0 by (simp add: signed_accepted_def counts_upto_def count_ok_def size_limits)
  then have acc: "signed_accepted 1 1 signed_sample"
    using trailer_proof_accepted [of 1 1]
    unfolding trailer_proof_def signed_sample_def t1_def t0_def
    by (elim conjE) (simp only: length_replicate)
  have ins: "tx_inputs signed_sample = tx_inputs t1" "tx_num_inputs signed_sample = 1"
    "tx_num_outputs signed_sample = 1"
    by (simp_all add: signed_sample_def t1_def t0_def upd_out_def upd_in_def sample_tx_def)
  have k: "kspt_ok signed_sample"
    using acc ins by (auto simp: signed_accepted_def kspt_ok_def kspt_inv_def list_all_iff wf_transaction_def)
  have "tx_inputs t1 \<noteq> []" using inv1 by (auto simp: kspt_inv_def wf_transaction_def)
  then have "inputs signed_sample = [tx_inputs t1 ! 0]"
    using ins by (cases "tx_inputs t1") (auto simp: inputs_def)
  then show "signed_ok signed_sample"
    using k sig1 ins by (simp add: signed_ok_def sigs_ok_def pool_need_def redeem_bytes_def size_limits)
  show "tx_num_inputs signed_sample = 1" by (rule ins)
  show "out_has_covenant (outputs signed_sample ! 0)" "out_covenant_auth_input (outputs signed_sample ! 0) = 9"
    by (simp_all add: signed_sample_def outputs_def upd_out_def upd_in_def sample_tx_def transaction_new_def size_limits)
qed

section \<open>Properties\<close>

text \<open>
  C9: Between two signers nothing is lost. Parsing what \<open>serialize_signed_pskt_v2\<close> wrote gives back
  the transaction (globals, payload, outpoints, amounts, scripts, covenant bindings), every partial
  signature with its key position and type, every redeem script, whether inline or pooled, the
  stealth tweak and the derivation hints, whatever the receiving transaction held before.
\<close>

theorem signed_parse_serialize:
  assumes "signed_ok tx" "serialize_signed_pskt_v2 hash tx out = (Inr n, out')"
  shows "\<exists>tx'. parse_signed_pskt_v2 (take n out') t0 = (Inr (), tx') \<and> view tx' = view tx \<and>
    signed_view tx' = signed_view tx \<and> hint_records tx' = hint_records tx"
proof -
  have "take n out' = signed_wire hash tx"
    using assms(2) serialize_signed_bytes [of hash tx out] by (auto split: if_splits)
  then show ?thesis using parse_signed_wire [OF assms(1)] signed_final_views [OF assms(1)] by simp
qed

theorem signed_parse_serialize_witness:
  "\<exists>tx'. parse_signed_pskt_v2 (signed_wire id signed_sample) transaction_new = (Inr (), tx') \<and>
     signed_view tx' = signed_view signed_sample"
proof -
  have "serialize_signed_pskt_v2 id signed_sample (signed_wire id signed_sample) =
      (Inr (length (signed_wire id signed_sample)), signed_wire id signed_sample)"
    using serialize_signed_bytes [of id signed_sample "signed_wire id signed_sample"] by simp
  from signed_parse_serialize [OF signed_sample_ok(1) this, of transaction_new] show ?thesis by auto
qed

text \<open>
  For a well-formed transaction with at most five signatures per input (so no index traps)
  \<open>serialize_signed_pskt_v2\<close> writes exactly the bytes of the signed grammar: header with the
  completeness flag, globals, inputs with their signatures and redeem scripts, outputs, trailers. It
  succeeds precisely when they fit, reports their number and leaves the rest of the buffer alone.
\<close>

theorem serialize_signed_grammar:
  assumes "wf_transaction tx" "counts_upto (tx_num_inputs tx) tx"
  shows "if length (signed_wire hash tx) \<le> length out
   then serialize_signed_pskt_v2 hash tx out =
     (Inr (length (signed_wire hash tx)), signed_wire hash tx @ drop (length (signed_wire hash tx)) out)
   else fst (serialize_signed_pskt_v2 hash tx out) = Inl OutputBufferTooSmall"
  by (rule serialize_signed_bytes)

theorem serialize_signed_grammar_witness:
  "fst (serialize_signed_pskt_v2 id signed_sample []) = Inl OutputBufferTooSmall"
proof -
  have "wf_transaction signed_sample" "counts_upto (tx_num_inputs signed_sample) signed_sample"
    using kspt_okD(1) [OF signed_okD(1) [OF signed_sample_ok(1)]] signed_okD(2) [OF signed_sample_ok(1)]
    by (auto simp: counts_upto_def count_ok_def sigs_ok_def)
  from serialize_signed_grammar [OF this, of id "[]"] show ?thesis
    by (simp add: signed_wire_def signed_front_wire_def kspt_consts)
qed

text \<open>
  An accepted signed payload has counts, amounts and output total within the limits, and no
  input claims more than five signatures, so the loops over \<open>sigs\<close> stay inside the array.
\<close>

theorem parse_signed_accepted_bounds:
  assumes "parse_signed_pskt_v2 data t0 = (Inr (), tx)"
  shows "tx_num_inputs tx \<in> {1..MAX_INPUTS} \<and> tx_num_outputs tx \<in> {1..MAX_OUTPUTS} \<and>
    list_all (\<lambda>i. utxo_amount (in_utxo i) \<le> MAX_SOMPI \<and> unat (in_sig_count i) \<le> length (in_sigs i)) (inputs tx) \<and>
    output_sompi tx \<le> 2900000000000000000 \<and> total_output_value tx \<noteq> None"
proof -
  note ok = parse_signed_accepts [OF assms]
  note wf = kspt_okD(1) [OF ok(1)]
  have len: "tx_num_inputs tx \<le> length (tx_inputs tx)" using wf by (auto simp: wf_transaction_def)
  have sigs: "length (in_sigs (tx_inputs tx ! i)) = MAX_SIGS_PER_INPUT" if "i < tx_num_inputs tx" for i
    using kspt_okD(4) [OF ok(1) that] by (simp add: wf_input_def)
  have out: "output_sompi tx \<le> 2900000000000000000"
    using ok(1) output_sompi_total [OF wf] by (simp add: kspt_ok_def)
  then have "total_output_value tx \<noteq> None"
    by (simp add: total_output_value_def trap_sum_None output_sompi_def comp_def)
  then show ?thesis
    using ok out sigs kspt_okD(2,3) [OF ok(1)]
    by (auto simp: inputs_nth [OF len] kspt_ok_def list_all_iff counts_upto_def count_ok_def)
qed

theorem parse_signed_accepted_bounds_witness:
  "\<exists>tx. parse_signed_pskt_v2 (signed_wire id signed_sample) transaction_new = (Inr (), tx) \<and>
     total_output_value tx \<noteq> None"
  using parse_signed_accepted_bounds [OF parse_signed_wire [OF signed_sample_ok(1), of id transaction_new]]
    parse_signed_wire [OF signed_sample_ok(1), of id transaction_new] by blast

text \<open>
  Whatever bytes arrive and however parsing ends, \<open>parse_signed_pskt_v2\<close> leaves a well-formed
  transaction: counts, script, redeem and payload lengths within their arrays, every pooled redeem
  script inside the used part of the pool.
\<close>

theorem parse_signed_leaves_wf: "wf_transaction (snd (parse_signed_pskt_v2 data t0))"
  by (rule parse_signed_wf)

text \<open>
  The signed format does not check what the unsigned one refuses: there is an accepted signed
  payload whose covenant binding names an input that does not exist, while no payload accepted by
  \<open>parse_pskt\<close> has one.
\<close>

theorem signed_binding_unchecked:
  "(\<exists>data tx. parse_signed_pskt_v2 data t0 = (Inr (), tx) \<and>
      list_ex (\<lambda>out. out_has_covenant out \<and> tx_num_inputs tx \<le> unat (out_covenant_auth_input out)) (outputs tx)) \<and>
   \<not> (\<exists>data tx. parse_pskt data t0 = (Inr (), tx) \<and>
      list_ex (\<lambda>out. out_has_covenant out \<and> tx_num_inputs tx \<le> unat (out_covenant_auth_input out)) (outputs tx))"
proof (intro conjI notI)
  let ?t = "signed_final signed_sample"
  have run: "parse_signed_pskt_v2 (signed_wire id signed_sample) t0 = (Inr (), ?t)"
    by (rule parse_signed_wire [OF signed_sample_ok(1)])
  have v: "view ?t = view signed_sample" by (rule signed_final_views [OF signed_sample_ok(1)])
  have k: "kspt_ok ?t" using parse_signed_accepts(1) [OF run] .
  have "length (inputs t) = tx_num_inputs t \<and> 0 < length (outputs t)" if "kspt_ok t" for t
    using kspt_okD(1,2,3) [OF that] that by (auto simp: inputs_def outputs_def wf_transaction_def kspt_ok_def)
  then have n: "tx_num_inputs ?t = 1" "0 < length (outputs ?t)"
    using arg_cong [OF v, of "\<lambda>v. length (view_inputs v)"] k signed_okD(1) [OF signed_sample_ok(1)]
      signed_sample_ok(2) by (simp_all add: view_def)
  have "map output_view (outputs ?t) = map output_view (outputs signed_sample)"
    using arg_cong [OF v, of view_outputs] by (simp add: view_def)
  then have "output_view (outputs ?t ! 0) = output_view (outputs signed_sample ! 0)"
    using n(2) by (metis map_eq_imp_length_eq nth_map)
  then have "out_has_covenant (outputs ?t ! 0) \<and> out_covenant_auth_input (outputs ?t ! 0) = 9"
    using signed_sample_ok(3,4) by (simp add: output_view_def split: if_splits)
  then have "list_ex (\<lambda>out. out_has_covenant out \<and> tx_num_inputs ?t \<le> unat (out_covenant_auth_input out)) (outputs ?t)"
    using n by (auto simp: list_ex_length intro!: exI [of _ 0])
  with run show "\<exists>data tx. parse_signed_pskt_v2 data t0 = (Inr (), tx) \<and>
      list_ex (\<lambda>out. out_has_covenant out \<and> tx_num_inputs tx \<le> unat (out_covenant_auth_input out)) (outputs tx)"
    by blast
next
  assume "\<exists>data tx. parse_pskt data t0 = (Inr (), tx) \<and>
      list_ex (\<lambda>out. out_has_covenant out \<and> tx_num_inputs tx \<le> unat (out_covenant_auth_input out)) (outputs tx)"
  then obtain data tx where run: "parse_pskt data t0 = (Inr (), tx)"
    and bad: "list_ex (\<lambda>out. out_has_covenant out \<and> tx_num_inputs tx \<le> unat (out_covenant_auth_input out)) (outputs tx)"
    by blast
  note ok = parse_pskt_accepts [OF run]
  have "tx_num_outputs tx \<le> length (tx_outputs tx)"
    using kspt_okD(1) [OF ok(1)] by (auto simp: wf_transaction_def)
  then show False
    using ok(2) bad by (force simp: outputs_nth bindings_ok_def list_all_iff list_ex_iff)
qed

end
