(* ===== verification/KasBlakeSpec.thy ===== *)
theory KasBlakeSpec
  imports KasPrelude
begin

text \<open>
  BLAKE2b as RFC 7693 states it, without reference to the code: the initial value from the square roots of the first
  eight primes, the message schedule as the ten rows of the RFC's table, the mixing of a round as a column step and a
  diagonal step on a four by four matrix, the parameter block as eight bytes, the message as a list of padded blocks.
\<close>

section \<open>Constants\<close>

text \<open>The integer square root, bit by bit.\<close>

fun root_bits :: "nat \<Rightarrow> nat \<Rightarrow> nat \<Rightarrow> nat" where
  "root_bits 0 n r = r"
| "root_bits (Suc k) n r = root_bits k n (if (r + 2 ^ k) * (r + 2 ^ k) \<le> n then r + 2 ^ k else r)"

lemma root_bits_bounds:
  "r * r \<le> n \<Longrightarrow> n < (r + 2 ^ k) * (r + 2 ^ k) \<Longrightarrow>
    root_bits k n r * root_bits k n r \<le> n \<and> n < (root_bits k n r + 1) * (root_bits k n r + 1)"
proof (induction k n r rule: root_bits.induct)
  case (2 k n r)
  then show ?case by (simp add: algebra_simps)
qed simp

text \<open>The first 64 fractional bits of the square root of \<open>p\<close>.\<close>

definition rfc_root :: "nat \<Rightarrow> u64" where
  "rfc_root p = of_nat (root_bits 67 (p * 2 ^ 128) 0)"

lemma rfc_root_is_root:
  assumes "p < 64"
  obtains r where "rfc_root p = of_nat r" "r * r \<le> p * 2 ^ 128" "p * 2 ^ 128 < (r + 1) * (r + 1)"
  using root_bits_bounds [of 0 "p * 2 ^ 128" 67] assms by (auto simp: rfc_root_def)

lemma root_unique:
  fixes r s :: nat
  assumes "r * r \<le> n" "n < (r + 1) * (r + 1)" "s * s \<le> n" "n < (s + 1) * (s + 1)"
  shows "r = s"
proof -
  have "r < s + 1" "s < r + 1" using assms by (meson leD le_less_trans mult_le_mono not_less)+
  then show ?thesis by simp
qed

lemma rfc_root_eq: "p < 64 \<Longrightarrow> r * r \<le> p * 2 ^ 128 \<Longrightarrow> p * 2 ^ 128 < (r + 1) * (r + 1) \<Longrightarrow> of_nat r = w \<Longrightarrow> rfc_root p = w"
  by (metis rfc_root_is_root root_unique)

definition RFC_IV :: "u64 list" where
  "RFC_IV = map rfc_root [2, 3, 5, 7, 11, 13, 17, 19]"

lemma RFC_IV_words: "RFC_IV = [0x6a09e667f3bcc908, 0xbb67ae8584caa73b, 0x3c6ef372fe94f82b, 0xa54ff53a5f1d36f1,
     0x510e527fade682d1, 0x9b05688c2b3e6c1f, 0x1f83d9abfb41bd6b, 0x5be0cd19137e2179]"
proof -
  have "rfc_root 2 = 0x6a09e667f3bcc908"
    by (rule rfc_root_eq [of _ 26087635650665564424]) simp_all
  moreover have "rfc_root 3 = 0xbb67ae8584caa73b"
    by (rule rfc_root_eq [of _ 31950697969885030203]) simp_all
  moreover have "rfc_root 5 = 0x3c6ef372fe94f82b"
    by (rule rfc_root_eq [of _ 41248173712355948587]) simp_all
  moreover have "rfc_root 7 = 0xa54ff53a5f1d36f1"
    by (rule rfc_root_eq [of _ 48805497317890012913]) simp_all
  moreover have "rfc_root 11 = 0x510e527fade682d1"
    by (rule rfc_root_eq [of _ 61180928696206656209]) simp_all
  moreover have "rfc_root 13 = 0x9b05688c2b3e6c1f"
    by (rule rfc_root_eq [of _ 66510681623121259551]) simp_all
  moreover have "rfc_root 17 = 0x1f83d9abfb41bd6b"
    by (rule rfc_root_eq [of _ 76057874264641092971]) simp_all
  moreover have "rfc_root 19 = 0x5be0cd19137e2179"
    by (rule rfc_root_eq [of _ 80407493254657745273]) simp_all
  ultimately show ?thesis by (simp add: RFC_IV_def)
qed

definition hex_digit :: "char \<Rightarrow> nat" where
  "hex_digit c = (let k = of_char c in if k < 58 then k - 48 else k - 87)"

definition RFC_SIGMA :: "nat list list" where
  "RFC_SIGMA = map (map hex_digit)
     [''0123456789abcdef'', ''ea489fd61c02b753'', ''b8c052fdae367194'', ''7931dcbe265a40f8'', ''905724afe1bc683d'',
      ''2c6a0b834d75fe19'', ''c51fed4a0763928b'', ''db7ec13950f4862a'', ''6fe9b308c2d714a5'', ''a2847615fb9e3cd0'']"

section \<open>Compression\<close>

definition ror :: "nat \<Rightarrow> u64 \<Rightarrow> u64" where
  "ror n w = drop_bit n w OR push_bit (64 - n) w"

type_synonym quad = "u64 \<times> u64 \<times> u64 \<times> u64"

definition rfc_G :: "u64 \<times> u64 \<Rightarrow> quad \<Rightarrow> quad" where
  "rfc_G = (\<lambda>(x, y) (a, b, c, d).
     (let a = a + b + x; d = ror 32 (d XOR a); c = c + d; b = ror 24 (b XOR c);
          a = a + b + y; d = ror 16 (d XOR a); c = c + d; b = ror 63 (b XOR c)
      in (a, b, c, d)))"

text \<open>The state is a matrix of four rows; its columns are mixed one by one with pairs of message words.\<close>

type_synonym matrix = "u64 list \<times> u64 list \<times> u64 list \<times> u64 list"

definition mix_columns :: "(u64 \<times> u64) list \<Rightarrow> matrix \<Rightarrow> matrix" where
  "mix_columns ms = (\<lambda>(r0, r1, r2, r3).
     (let qs = map2 rfc_G ms (zip r0 (zip r1 (zip r2 r3)))
      in (map (\<lambda>(a, b, c, d). a) qs, map (\<lambda>(a, b, c, d). b) qs, map (\<lambda>(a, b, c, d). c) qs, map (\<lambda>(a, b, c, d). d) qs)))"

text \<open>The diagonals become columns by turning each row by its number, and back.\<close>

definition turn_left :: "matrix \<Rightarrow> matrix" where
  "turn_left = (\<lambda>(r0, r1, r2, r3). (r0, rotate 1 r1, rotate 2 r2, rotate 3 r3))"

definition turn_right :: "matrix \<Rightarrow> matrix" where
  "turn_right = (\<lambda>(r0, r1, r2, r3). (r0, rotate 3 r1, rotate 2 r2, rotate 1 r3))"

fun pairs :: "'a list \<Rightarrow> ('a \<times> 'a) list" where
  "pairs (x # y # zs) = (x, y) # pairs zs"
| "pairs _ = []"

definition rfc_round :: "u64 list \<Rightarrow> nat \<Rightarrow> matrix \<Rightarrow> matrix" where
  "rfc_round m i v =
     (let ms = pairs (map (\<lambda>k. m ! k) (RFC_SIGMA ! (i mod 10)))
      in turn_right (mix_columns (drop 4 ms) (turn_left (mix_columns (take 4 ms) v))))"

definition rfc_words :: "bytes \<Rightarrow> u64 list" where
  "rfc_words block = map (\<lambda>i. of_nat (\<Sum>j < 8. unat (block ! (8 * i + j)) * 256 ^ j)) [0..<16]"

text \<open>\<open>F(h, m, t, f)\<close>: \<open>t\<close> counts the bytes fed so far, \<open>f\<close> marks the final block.\<close>

definition rfc_F :: "u64 list \<Rightarrow> bytes \<Rightarrow> nat \<Rightarrow> bool \<Rightarrow> u64 list" where
  "rfc_F h block t f =
     (let last_row = map2 (XOR) (drop 4 RFC_IV) [of_nat (t mod 2 ^ 64), of_nat (t div 2 ^ 64), if f then 0xFFFFFFFFFFFFFFFF else 0, 0];
          (r0, r1, r2, r3) = fold (rfc_round (rfc_words block)) [0..<12] (take 4 h, drop 4 h, take 4 RFC_IV, last_row)
      in map2 (XOR) h (map2 (XOR) (r0 @ r1) (r2 @ r3)))"

section \<open>The hash\<close>

definition zero_pad :: "bytes \<Rightarrow> bytes" where
  "zero_pad bs = bs @ replicate (128 - length bs) 0"

definition rfc_blake2b :: "nat \<Rightarrow> bytes \<Rightarrow> bytes \<Rightarrow> bytes" where
  "rfc_blake2b nn key msg =
     (let data = (if key = [] then [] else zero_pad key) @ msg;
          dd = max 1 ((length data + 127) div 128);
          params = [of_nat nn, of_nat (length key), 1, 1, 0, 0, 0, 0];
          h = RFC_IV[0 := RFC_IV ! 0 XOR from_le params];
          h = fold (\<lambda>i h. rfc_F h (slice (128 * i) 128 data) (128 * (i + 1)) False) [0..<dd - 1] h;
          h = rfc_F h (zero_pad (drop (128 * (dd - 1)) data)) (length data) True
      in take nn (concat (map (to_le 8) h)))"

text \<open>The instance that signature hashes use: 32 bytes of output, with a key.\<close>

definition blake2b_keyed :: "bytes \<Rightarrow> bytes \<Rightarrow> bytes" where
  "blake2b_keyed key msg = rfc_blake2b 32 key msg"

end
