(* ===== verification/KasBlake2b.thy ===== *)
theory KasBlake2b
  imports KasBlakeSpec
begin

text \<open>
  The keyed BLAKE2b-256 of core/src/wallet/sighash.rs: tables, mixing and compression function,
  and the streaming hasher \<open>KaspaBlake2b\<close> (\<open>new\<close>, \<open>update\<close>, \<open>finalize\<close>). The lemmas show, in this order, that tables and
  compression are those of the independent specification in KasBlakeSpec, that compressing block by block is its hash,
  and that the buffered hasher absorbs its message block by block whatever way it is cut into updates; the
  locale states the resulting law for the clients.
\<close>

section \<open>Compression\<close>

definition BLAKE_IV :: "u64 list" where
  "BLAKE_IV = [0x6a09e667f3bcc908, 0xbb67ae8584caa73b, 0x3c6ef372fe94f82b, 0xa54ff53a5f1d36f1,
     0x510e527fade682d1, 0x9b05688c2b3e6c1f, 0x1f83d9abfb41bd6b, 0x5be0cd19137e2179]"

definition BLAKE_SIGMA :: "nat list list" where
  "BLAKE_SIGMA = [
     [0, 1, 2, 3, 4, 5, 6, 7, 8, 9, 10, 11, 12, 13, 14, 15],
     [14, 10, 4, 8, 9, 15, 13, 6, 1, 12, 0, 2, 11, 7, 5, 3],
     [11, 8, 12, 0, 5, 2, 15, 13, 10, 14, 3, 6, 7, 1, 9, 4],
     [7, 9, 3, 1, 13, 12, 11, 14, 2, 6, 5, 10, 4, 0, 15, 8],
     [9, 0, 5, 7, 2, 4, 10, 15, 14, 1, 11, 12, 6, 8, 3, 13],
     [2, 12, 6, 10, 0, 11, 8, 3, 4, 13, 7, 5, 15, 14, 1, 9],
     [12, 5, 1, 15, 14, 13, 4, 10, 0, 7, 6, 3, 9, 2, 8, 11],
     [13, 11, 7, 14, 12, 1, 3, 9, 5, 0, 15, 4, 8, 6, 2, 10],
     [6, 15, 14, 9, 11, 3, 0, 8, 12, 2, 13, 7, 1, 4, 10, 5],
     [10, 2, 8, 4, 7, 6, 1, 5, 15, 11, 9, 14, 3, 12, 13, 0],
     [0, 1, 2, 3, 4, 5, 6, 7, 8, 9, 10, 11, 12, 13, 14, 15],
     [14, 10, 4, 8, 9, 15, 13, 6, 1, 12, 0, 2, 11, 7, 5, 3]]"

text \<open>\<open>g(v, a, b, c, d, x, y)\<close>, the array \<open>v\<close> updated in place.\<close>

definition blake_g :: "nat \<Rightarrow> nat \<Rightarrow> nat \<Rightarrow> nat \<Rightarrow> u64 \<Rightarrow> u64 \<Rightarrow> u64 list \<Rightarrow> u64 list" where
  "blake_g a b c d x y v =
     (let v = v[a := v ! a + v ! b + x];
          v = v[d := word_rotr 32 (v ! d XOR v ! a)];
          v = v[c := v ! c + v ! d];
          v = v[b := word_rotr 24 (v ! b XOR v ! c)];
          v = v[a := v ! a + v ! b + y];
          v = v[d := word_rotr 16 (v ! d XOR v ! a)];
          v = v[c := v ! c + v ! d]
      in v[b := word_rotr 63 (v ! b XOR v ! c)])"

definition blake_round :: "u64 list \<Rightarrow> nat list \<Rightarrow> u64 list \<Rightarrow> u64 list" where
  "blake_round m s v =
     (let v = blake_g 0 4 8 12 (m ! (s ! 0)) (m ! (s ! 1)) v;
          v = blake_g 1 5 9 13 (m ! (s ! 2)) (m ! (s ! 3)) v;
          v = blake_g 2 6 10 14 (m ! (s ! 4)) (m ! (s ! 5)) v;
          v = blake_g 3 7 11 15 (m ! (s ! 6)) (m ! (s ! 7)) v;
          v = blake_g 0 5 10 15 (m ! (s ! 8)) (m ! (s ! 9)) v;
          v = blake_g 1 6 11 12 (m ! (s ! 10)) (m ! (s ! 11)) v;
          v = blake_g 2 7 8 13 (m ! (s ! 12)) (m ! (s ! 13)) v
      in blake_g 3 4 9 14 (m ! (s ! 14)) (m ! (s ! 15)) v)"

definition blake_block_words :: "bytes \<Rightarrow> u64 list" where
  "blake_block_words block = map (\<lambda>i. from_le (slice (i * 8) 8 block)) [0..<16]"

text \<open>The byte counter \<open>t\<close> is the code's \<open>u128\<close>.\<close>

definition blake_compress :: "u64 list \<Rightarrow> bytes \<Rightarrow> 128 word \<Rightarrow> bool \<Rightarrow> u64 list" where
  "blake_compress h block t is_last =
     (let v = h @ BLAKE_IV;
          v = v[12 := v ! 12 XOR ucast t];
          v = v[13 := v ! 13 XOR ucast (drop_bit 64 t)];
          v = (if is_last then v[14 := NOT (v ! 14)] else v);
          m = blake_block_words block;
          v = fold (\<lambda>i. blake_round m (BLAKE_SIGMA ! i)) [0..<12] v
      in map (\<lambda>i. h ! i XOR (v ! i XOR v ! (i + 8))) [0..<8])"

section \<open>The streaming hasher\<close>

record blake =
  bl_h :: "u64 list"
  bl_buf :: bytes
  bl_len :: nat
  bl_total :: "128 word"

definition blake_new :: "bytes \<Rightarrow> blake" where
  "blake_new key =
     \<lparr>bl_h = BLAKE_IV[0 := BLAKE_IV ! 0 XOR
        (0x20 OR push_bit 8 (of_nat (length key)) OR push_bit 16 1 OR push_bit 24 1)],
      bl_buf = blit key 0 (replicate 128 0), bl_len = 128, bl_total = 0\<rparr>"

text \<open>\<open>self.total += 128; compress(..., false); self.buf_len = 0\<close> when the buffer is full.\<close>

definition blake_flush :: "blake \<Rightarrow> blake" where
  "blake_flush s =
     (if bl_len s = 128
      then s\<lparr>bl_total := bl_total s + 128,
             bl_h := blake_compress (bl_h s) (bl_buf s) (bl_total s + 128) False, bl_len := 0\<rparr>
      else s)"

text \<open>Copy as much of the data as there is room for; the rest is returned.\<close>

definition blake_put :: "bytes \<Rightarrow> blake \<Rightarrow> blake \<times> bytes" where
  "blake_put data s =
     (let space = 128 - bl_len s;
          n = (if length data < space then length data else space)
      in (s\<lparr>bl_buf := blit (take n data) (bl_len s) (bl_buf s), bl_len := bl_len s + n\<rparr>, drop n data))"

text \<open>
  The main loop. \<open>buf_len\<close> never exceeds 128 (lemma \<open>blake_ok_update\<close>); beyond it the code's
  subtraction \<open>128 - buf_len\<close> would underflow, and the model stops.
\<close>

lemma blake_put_shorter:
  "bl_len s < 128 \<Longrightarrow> data \<noteq> [] \<Longrightarrow> length (snd (blake_put data s)) < length data"
  by (cases data) (auto simp: blake_put_def Let_def)

lemma blake_flush_len: "bl_len s \<le> 128 \<Longrightarrow> bl_len (blake_flush s) < 128"
  by (auto simp: blake_flush_def)

lemma blake_put_flush:
  "\<not> 128 < bl_len s \<Longrightarrow> data \<noteq> [] \<Longrightarrow> (s', rest) = blake_put data (blake_flush s) \<Longrightarrow> length rest < length data"
  using blake_put_shorter [OF blake_flush_len, of s data] by (simp add: prod_eq_iff)

function blake_fill :: "bytes \<Rightarrow> blake \<Rightarrow> blake" where
  "blake_fill data s =
     (if data = [] \<or> bl_len s > 128 then s
      else case blake_put data (blake_flush s) of (s', rest) \<Rightarrow> blake_fill rest s')"
  by pat_completeness auto

termination
  by (relation "measure (\<lambda>(data, s). length data)") (auto simp: blake_put_flush)

declare blake_fill.simps [simp del]

definition blake_update :: "bytes \<Rightarrow> blake \<Rightarrow> blake" where
  "blake_update data s =
     (if data = [] then s
      else (let s1 = blake_flush s
            in case (if bl_len s1 > 0 then blake_put data s1 else (s1, data)) of
                 (s2, rest) \<Rightarrow> blake_fill rest s2))"

definition blake_finalize :: "blake \<Rightarrow> bytes" where
  "blake_finalize s =
     (let total = bl_total s + of_nat (bl_len s);
          block = take (bl_len s) (bl_buf s) @ replicate (128 - bl_len s) 0;
          h = blake_compress (bl_h s) block total True
      in concat (map (\<lambda>i. to_le 8 (h ! i)) [0..<4]))"

section \<open>Absorbing a message block by block\<close>

text \<open>
  What is left of the hasher without its buffer: every full block that is not the last is compressed with the running
  byte count; what remains is the last block, padded with zeros and flagged.
\<close>

function blake_absorb ::
  "u64 list \<Rightarrow> 128 word \<Rightarrow> bytes \<Rightarrow> u64 list \<times> 128 word \<times> bytes"
where
  "blake_absorb h t bs =
     (if length bs > 128
      then blake_absorb (blake_compress h (take 128 bs) (t + 128) False) (t + 128) (drop 128 bs)
      else (h, t, bs))"
  by pat_completeness auto

termination by (relation "measure (\<lambda>(h, t, bs). length bs)") auto

declare blake_absorb.simps [simp del]

definition blake_last :: "u64 list \<times> 128 word \<times> bytes \<Rightarrow> bytes" where
  "blake_last = (\<lambda>(h, t, bs).
     concat (map (to_le 8) (take 4 (blake_compress h (zero_pad bs) (t + of_nat (length bs)) True))))"

lemma blake_absorb_short: "length bs \<le> 128 \<Longrightarrow> blake_absorb h t bs = (h, t, bs)"
  by (subst blake_absorb.simps) simp

lemma blake_absorb_append:
  "(case blake_absorb h t a of (h', t', r) \<Rightarrow> blake_absorb h' t' (r @ b)) = blake_absorb h t (a @ b)"
proof (induction h t a rule: blake_absorb.induct)
  case (1 h t a)
  show ?case
  proof (cases "length a > 128")
    case True
    then show ?thesis
      using 1 by (subst (1 3) blake_absorb.simps) simp
  next
    case False
    then show ?thesis by (simp add: blake_absorb_short)
  qed
qed

section \<open>The compression function is the RFC's\<close>

lemma BLAKE_IV_rfc: "BLAKE_IV = RFC_IV"
  by (simp add: BLAKE_IV_def RFC_IV_words)

lemma BLAKE_SIGMA_rfc: "i < 12 \<Longrightarrow> BLAKE_SIGMA ! i = RFC_SIGMA ! (i mod 10)"
proof -
  have "list_all (\<lambda>i. BLAKE_SIGMA ! i = RFC_SIGMA ! (i mod 10)) [0..<12]" by code_simp
  then show "i < 12 \<Longrightarrow> BLAKE_SIGMA ! i = RFC_SIGMA ! (i mod 10)" by (simp add: list_all_iff)
qed

lemma RFC_SIGMA_rows: "i < 10 \<Longrightarrow> length (RFC_SIGMA ! i) = 16"
proof -
  have "list_all (\<lambda>i. length (RFC_SIGMA ! i) = 16) [0..<10]" by code_simp
  then show "i < 10 \<Longrightarrow> length (RFC_SIGMA ! i) = 16" by (simp add: list_all_iff)
qed

lemma rotr_ror:
  fixes w :: u64
  assumes "n < 64"
  shows "word_rotr n w = ror n w"
proof (rule bit_word_eqI)
  fix k assume k: "k < LENGTH(64)"
  show "bit (word_rotr n w) k = bit (ror n w) k"
  proof (cases "k + n < 64")
    case True
    then show ?thesis using k assms by (auto simp: ror_def bit_simps add.commute)
  next
    case False
    then have "(k + n) mod 64 = k + n - 64" using k assms by (simp add: mod_if)
    with False show ?thesis using k assms by (auto simp: ror_def bit_simps add.commute not_less dest: bit_imp_le_length)
  qed
qed

lemma four_cells:
  "distinct [a, b, c, d] \<Longrightarrow> {a, b, c, d} \<subseteq> {..<length v} \<Longrightarrow>
    v[a := p1, d := p2, c := p3, b := p4, a := q1, d := q2, c := q3, b := q4] = v[a := q1, b := q4, c := q3, d := q2]"
  by (rule nth_equalityI) (auto simp: nth_list_update)

lemma blake_g_rfc:
  assumes "distinct [a, b, c, d]" "{a, b, c, d} \<subseteq> {..<length v}"
  shows "blake_g a b c d x y v = (case rfc_G (x, y) (v ! a, v ! b, v ! c, v ! d) of (a', b', c', d') \<Rightarrow> v[a := a', b := b', c := c', d := d'])"
  using assms by (simp add: blake_g_def rfc_G_def rotr_ror Let_def four_cells)

definition rows :: "u64 list \<Rightarrow> matrix" where
  "rows v = (take 4 v, take 4 (drop 4 v), take 4 (drop 8 v), drop 12 v)"

lemma list16: "length v = 16 \<Longrightarrow> \<exists>a b c d e f g h i j k l m n p q. v = [a, b, c, d, e, f, g, h, i, j, k, l, m, n, p, q]"
  by (auto simp: length_Suc_conv eval_nat_numeral)

lemma blake_round_rfc:
  assumes "length v = 16" "length s = 16"
  shows "rows (blake_round m s v) = 
     (let ms = pairs (map (\<lambda>k. m ! k) s)
      in turn_right (mix_columns (drop 4 ms) (turn_left (mix_columns (take 4 ms) (rows v)))))"
proof -
  obtain a b c d e f g h i j k l m' n p q where v: "v = [a, b, c, d, e, f, g, h, i, j, k, l, m', n, p, q]" using list16 [OF assms(1)] by blast
  obtain s0 s1 s2 s3 s4 s5 s6 s7 s8 s9 s10 s11 s12 s13 s14 s15 where s: "s = [s0, s1, s2, s3, s4, s5, s6, s7, s8, s9, s10, s11, s12, s13, s14, s15]"
    using assms(2) by (auto simp: length_Suc_conv eval_nat_numeral)
  let ?x = "\<lambda>i j. (m ! i, m ! j)"
  obtain a1 e1 i1 m1 where g0: "rfc_G (?x s0 s1) (a, e, i, m') = (a1, e1, i1, m1)" by (metis prod_cases4)
  obtain b1 f1 j1 n1 where g1: "rfc_G (?x s2 s3) (b, f, j, n) = (b1, f1, j1, n1)" by (metis prod_cases4)
  obtain c1 h1 k1 p1 where g2: "rfc_G (?x s4 s5) (c, g, k, p) = (c1, h1, k1, p1)" by (metis prod_cases4)
  obtain d1 o1 l1 q1 where g3: "rfc_G (?x s6 s7) (d, h, l, q) = (d1, o1, l1, q1)" by (metis prod_cases4)
  obtain a2 f2 k2 q2 where h0: "rfc_G (?x s8 s9) (a1, f1, k1, q1) = (a2, f2, k2, q2)" by (metis prod_cases4)
  obtain b2 h2 l2 m2 where h1': "rfc_G (?x s10 s11) (b1, h1, l1, m1) = (b2, h2, l2, m2)" by (metis prod_cases4)
  obtain c2 o2 i2 n2 where h2': "rfc_G (?x s12 s13) (c1, o1, i1, n1) = (c2, o2, i2, n2)" by (metis prod_cases4)
  obtain d2 e2 j2 p2 where h3: "rfc_G (?x s14 s15) (d1, e1, j1, p1) = (d2, e2, j2, p2)" by (metis prod_cases4)
  have "blake_round m s v = [a2, b2, c2, d2, e2, f2, h2, o2, i2, j2, k2, l2, m2, n2, p2, q2]"
    unfolding v s by (simp add: blake_round_def blake_g_rfc g0 g1 g2 g3 h0 h1' h2' h3)
  moreover have "mix_columns (take 4 (pairs (map ((!) m) s))) (rows v) = ([a1, b1, c1, d1], [e1, f1, h1, o1], [i1, j1, k1, l1], [m1, n1, p1, q1])"
    unfolding v s by (simp add: rows_def mix_columns_def g0 g1 g2 g3)
  moreover have "mix_columns (drop 4 (pairs (map ((!) m) s))) ([a1, b1, c1, d1], [f1, h1, o1, e1], [k1, l1, i1, j1], [q1, m1, n1, p1])
     = ([a2, b2, c2, d2], [f2, h2, o2, e2], [k2, l2, i2, j2], [q2, m2, n2, p2])"
    unfolding s by (simp add: mix_columns_def h0 h1' h2' h3)
  ultimately show ?thesis
    by (simp add: rows_def turn_left_def turn_right_def eval_nat_numeral)
qed

lemma length_blake_g [simp]: "length (blake_g a b c d x y v) = length v"
  by (simp add: blake_g_def Let_def)

lemma length_blake_round [simp]: "length (blake_round m s v) = length v"
  by (simp add: blake_round_def)

lemma blake_rounds_rfc:
  "list_all (\<lambda>i. i < 12) is \<Longrightarrow> length v = 16 \<Longrightarrow>
    length (fold (\<lambda>i. blake_round m (BLAKE_SIGMA ! i)) is v) = 16 \<and>
    rows (fold (\<lambda>i. blake_round m (BLAKE_SIGMA ! i)) is v) = fold (rfc_round m) is (rows v)"
proof (induction "is" arbitrary: v)
  case (Cons i "is")
  have s: "BLAKE_SIGMA ! i = RFC_SIGMA ! (i mod 10)" using Cons.prems(1) by (simp add: BLAKE_SIGMA_rfc)
  have l: "length (RFC_SIGMA ! (i mod 10)) = 16" by (simp add: RFC_SIGMA_rows)
  have "rows (blake_round m (BLAKE_SIGMA ! i) v) = rfc_round m i (rows v)"
    unfolding s rfc_round_def by (rule blake_round_rfc [OF Cons.prems(2) l])
  then show ?case using Cons.IH [of "blake_round m (BLAKE_SIGMA ! i) v"] Cons.prems by simp
qed simp

lemma le_value_sum: "le_value bs = (\<Sum>j < length bs. unat (bs ! j) * 256 ^ j)"
  by (induction bs) (simp_all add: sum.lessThan_Suc_shift sum_distrib_left algebra_simps del: sum.lessThan_Suc)

lemma blake_words_rfc: "length block = 128 \<Longrightarrow> blake_block_words block = rfc_words block"
  by (auto simp: blake_block_words_def rfc_words_def from_le_def le_value_sum slice_def algebra_simps intro!: arg_cong [where f = of_nat] sum.cong)

lemma of_nat_high: "ucast (drop_bit 64 (of_nat t :: 128 word)) = (of_nat (t div 2 ^ 64) :: u64)"
proof (rule bit_word_eqI)
  fix k assume "k < LENGTH(64)"
  then show "bit (ucast (drop_bit 64 (of_nat t :: 128 word)) :: u64) k = bit (of_nat (t div 2 ^ 64) :: u64) k"
    unfolding drop_bit_eq_div [symmetric] by (simp add: bit_simps)
qed

lemma of_nat_low: "ucast (of_nat t :: 128 word) = (of_nat t :: u64)" "of_nat (t mod 2 ^ 64) = (of_nat t :: u64)"
proof -
  show "ucast (of_nat t :: 128 word) = (of_nat t :: u64)" by (rule bit_word_eqI) (simp add: bit_simps)
  show "of_nat (t mod 2 ^ 64) = (of_nat t :: u64)"
    unfolding take_bit_eq_mod [symmetric] by (rule bit_word_eqI) (simp add: bit_simps)
qed

lemma all_ones: "x XOR 0xFFFFFFFFFFFFFFFF = NOT x" for x :: u64
proof -
  have "(0xFFFFFFFFFFFFFFFF :: u64) = - 1" by simp
  show ?thesis by (subst \<open>0xFFFFFFFFFFFFFFFF = - 1\<close>) (rule bit_word_eqI, simp add: bit_simps)
qed

text \<open>The start of the working array.\<close>

lemma rows_start:
  assumes "length h = 8"
  shows "rows (let v = h @ RFC_IV; v = v[12 := v ! 12 XOR lo]; v = v[13 := v ! 13 XOR hi] in if f then v[14 := NOT (v ! 14)] else v)
    = (take 4 h, drop 4 h, take 4 RFC_IV, map2 (XOR) (drop 4 RFC_IV) [lo, hi, if f then 0xFFFFFFFFFFFFFFFF else 0, 0])"
proof -
  obtain a b c d e i j k where h: "h = [a, b, c, d, e, i, j, k]" using assms by (auto simp: length_Suc_conv eval_nat_numeral)
  obtain p q r s t u v w where iv: "RFC_IV = [p, q, r, s, t, u, v, w]" by (simp add: RFC_IV_def)
  show ?thesis unfolding iv h by (cases f) (simp_all add: rows_def all_ones)
qed

lemma blake_compress_rfc:
  assumes "length h = 8" "length block = 128"
  shows "blake_compress h block (of_nat t) f = rfc_F h block t f"
proof -
  define v0 where "v0 = (let v = h @ RFC_IV; v = v[12 := v ! 12 XOR of_nat t]; v = v[13 := v ! 13 XOR of_nat (t div 2 ^ 64)]
      in if f then v[14 := NOT (v ! 14)] else v)"
  define v where "v = fold (\<lambda>i. blake_round (blake_block_words block) (BLAKE_SIGMA ! i)) [0..<12] v0"
  have l: "length v0 = 16" using assms(1) by (simp add: v0_def Let_def RFC_IV_def)
  have v: "length v = 16" "rows v = fold (rfc_round (rfc_words block)) [0..<12] (rows v0)"
    using blake_rounds_rfc [OF _ l, of "[0..<12]" "rfc_words block"] assms(2) by (simp_all only: v_def blake_words_rfc) (simp_all add: list_all_iff)
  have c: "blake_compress h block (of_nat t) f = map (\<lambda>i. h ! i XOR (v ! i XOR v ! (i + 8))) [0..<8]"
    unfolding blake_compress_def v_def v0_def Let_def of_nat_high of_nat_low BLAKE_IV_rfc ..
  have r0: "rows v0 = (take 4 h, drop 4 h, take 4 RFC_IV, map2 (XOR) (drop 4 RFC_IV) [of_nat t, of_nat (t div 2 ^ 64), if f then 0xFFFFFFFFFFFFFFFF else 0, 0])"
    unfolding v0_def by (rule rows_start [OF assms(1)])
  have "rfc_F h block t f = (case rows v of (r0, r1, r2, r3) \<Rightarrow> map2 (XOR) h (map2 (XOR) (r0 @ r1) (r2 @ r3)))"
    by (simp only: rfc_F_def Let_def v(2) r0 of_nat_low)
  also have "\<dots> = map2 (XOR) h (map2 (XOR) (take 8 v) (drop 8 v))"
  proof -
    have "take 4 v @ take 4 (drop 4 v) = take 8 v" "take 4 (drop 8 v) @ drop 12 v = drop 8 v"
      using take_add [of 4 4 v] append_take_drop_id [of 4 "drop 8 v"] by simp_all
    then show ?thesis by (simp only: rows_def prod.case)
  qed
  finally have "rfc_F h block t f = map2 (XOR) h (map2 (XOR) (take 8 v) (drop 8 v))" .
  then show ?thesis unfolding c using assms(1) v(1) by (intro nth_equalityI) (simp_all add: add.commute)
qed

lemma length_blake_compress [simp]: "length (blake_compress h block t l) = 8"
  by (simp add: blake_compress_def Let_def)

section \<open>The hash is the RFC's\<close>

lemma blake_new_rfc:
  assumes "length key \<le> 64"
  shows "bl_h (blake_new key) = RFC_IV[0 := RFC_IV ! 0 XOR from_le [of_nat 32, of_nat (length key), 1, 1, 0, 0, 0, 0]]"
proof -
  let ?k = "of_nat (length key) :: u64"
  have k: "unat (of_nat (length key) :: u8) = length key" using assms by (simp add: unat_of_nat)
  have small: "bit ?k n \<Longrightarrow> n < 7" for n
  proof -
    assume "bit ?k n"
    then have "bit (length key) n" by (simp add: bit_simps)
    then have "odd (length key div 2 ^ n)" by (rule iffD1 [OF bit_iff_odd])
    then have "0 < length key div 2 ^ n" by (rule odd_pos)
    then have "2 ^ n \<le> length key" by (simp add: div_greater_zero_iff)
    then have "2 ^ n < (2 ^ 7 :: nat)" using assms by simp
    then show "n < 7" by (rule power_less_imp_less_exp [rotated]) simp
  qed
  have "(0x20 :: u64) OR push_bit 8 ?k OR push_bit 16 1 OR push_bit 24 1 = 0x20 + push_bit 8 ?k + push_bit 16 1 + push_bit 24 1"
  proof -
    define p where "p i = push_bit i (1 :: u64)" for i
    have p: "bit (p i) n \<longleftrightarrow> n = i" if "i < 64" for i n using that unfolding p_def by (simp only: bit_push_bit_iff bit_1_iff) (auto simp: possible_bit_def exp_eq_zero_iff)
    have "(0x20 :: u64) = p 5" "push_bit 16 1 = p 16" "push_bit 24 1 = p 24" by (simp_all add: p_def)
    moreover have "p 5 AND push_bit 8 ?k = 0" "(p 5 OR push_bit 8 ?k) AND p 16 = 0" "((p 5 OR push_bit 8 ?k) OR p 16) AND p 24 = 0"
      using small [of 8] small [of 16] small by (auto intro!: bit_word_eqI simp: bit_push_bit_iff bit_and_iff bit_or_iff p)
    ultimately show ?thesis by (simp only: disjunctive_add_eq_or) (simp only: or.assoc)
  qed
  also have "\<dots> = from_le [of_nat 32, of_nat (length key), 1, 1, 0, 0, 0, 0]"
    using k by (simp add: from_le_def push_bit_eq_mult)
  finally show ?thesis by (simp add: blake_new_def BLAKE_IV_rfc)
qed

lemma blake_absorb_rfc:
  assumes "data \<noteq> []" "j \<le> (length data - 1) div 128" "length h = 8"
  shows "blake_absorb h (of_nat (128 * j)) (drop (128 * j) data) =
    (fold (\<lambda>i h. rfc_F h (slice (128 * i) 128 data) (128 * (i + 1)) False) [j..<(length data - 1) div 128] h,
     of_nat (128 * ((length data - 1) div 128)), drop (128 * ((length data - 1) div 128)) data)"
  using assms(2,3)
proof (induction "(length data - 1) div 128 - j" arbitrary: j h)
  case 0
  then have j: "j = (length data - 1) div 128" by simp
  then have "length (drop (128 * j) data) \<le> 128" by simp
  then show ?case by (simp add: blake_absorb_short j)
next
  case (Suc m)
  define q where "q = (length data - 1) div 128"
  have j: "j < q" "m = q - Suc j" using Suc.hyps(2) by (simp_all add: q_def)
  have "128 * q \<le> length data - 1" by (simp add: q_def)
  then have l: "128 * j + 128 < length data" using j(1) assms(1) by (cases data) simp_all
  have c: "blake_compress h (take 128 (drop (128 * j) data)) (of_nat (128 * j) + 128) False
      = rfc_F h (slice (128 * j) 128 data) (128 * (j + 1)) False"
    using blake_compress_rfc [OF Suc.prems(2), of "slice (128 * j) 128 data" "128 * (j + 1)" False] l by (simp add: slice_def algebra_simps)
  have l2: "128 < length (drop (128 * j) data)" using l by simp
  have n: "of_nat (128 * j) + 128 = (of_nat (128 * Suc j) :: 128 word)" "drop 128 (drop (128 * j) data) = drop (128 * Suc j) data"
    by (simp_all add: add.commute)
  have "blake_absorb h (of_nat (128 * j)) (drop (128 * j) data) =
      blake_absorb (rfc_F h (slice (128 * j) 128 data) (128 * (j + 1)) False) (of_nat (128 * Suc j)) (drop (128 * Suc j) data)"
    by (subst blake_absorb.simps) (simp only: l2 if_True c n(2), simp only: n(1))
  also have "\<dots> = (fold (\<lambda>i h. rfc_F h (slice (128 * i) 128 data) (128 * (i + 1)) False) [Suc j..<q] (rfc_F h (slice (128 * j) 128 data) (128 * (j + 1)) False),
     of_nat (128 * q), drop (128 * q) data)"
    unfolding q_def by (rule Suc.hyps(1)) (use j Suc.prems(2) c [symmetric] in \<open>simp_all add: q_def\<close>)
  finally show ?case using j(1) by (simp add: q_def upt_conv_Cons)
qed

lemma length_blake_absorb: "length h = 8 \<Longrightarrow> length (fst (blake_absorb h t bs)) = 8"
  by (induction h t bs rule: blake_absorb.induct) (subst blake_absorb.simps, simp)

theorem blake_last_rfc:
  assumes "key \<noteq> []" "length key \<le> 64"
  shows "blake_last (blake_absorb (bl_h (blake_new key)) 0 (zero_pad key @ msg)) = rfc_blake2b 32 key msg"
proof -
  define data where "data = zero_pad key @ msg"
  have d: "data \<noteq> []" "length data \<ge> 128" "zero_pad key @ msg = data" using assms by (auto simp: data_def zero_pad_def)
  define q where "q = (length data - 1) div 128"
  have q: "max 1 ((length data + 127) div 128) = Suc q" using d(2) unfolding q_def by simp
  let ?h0 = "RFC_IV[0 := RFC_IV ! 0 XOR from_le [of_nat 32, of_nat (length key), 1, 1, 0, 0, 0, 0]]"
  define h where "h = fold (\<lambda>i h. rfc_F h (slice (128 * i) 128 data) (128 * (i + 1)) False) [0..<q] ?h0"
  have a: "blake_absorb (bl_h (blake_new key)) 0 data = (h, of_nat (128 * q), drop (128 * q) data)"
    using blake_absorb_rfc [OF d(1), of 0 ?h0] by (simp add: blake_new_rfc [OF assms(2)] h_def q_def RFC_IV_def)
  have h: "length h = 8" using length_blake_absorb [of ?h0 0 data] a by (simp add: blake_new_rfc [OF assms(2)] RFC_IV_def)
  have l: "length (drop (128 * q) data) \<le> 128" "128 * q \<le> length data" using d(2) by (simp_all add: q_def)
  then have t: "of_nat (128 * q) + of_nat (length (drop (128 * q) data)) = (of_nat (length data) :: 128 word)"
    by (simp flip: of_nat_add)
  have c: "blake_compress h (zero_pad (drop (128 * q) data)) (of_nat (length data)) True = rfc_F h (zero_pad (drop (128 * q) data)) (length data) True"
    by (rule blake_compress_rfc [OF h]) (use l in \<open>simp add: zero_pad_def\<close>)
  have f: "length (rfc_F h (zero_pad (drop (128 * q) data)) (length data) True) = 8" unfolding c [symmetric] by simp
  have "take 32 (concat (map (to_le 8) ws)) = concat (map (to_le 8) (take 4 ws))" if "length ws = 8" for ws :: "u64 list"
    using that by (auto simp: length_Suc_conv eval_nat_numeral)
  then have "take 32 (concat (map (to_le 8) (rfc_F h (zero_pad (drop (128 * q) data)) (length data) True)))
      = concat (map (to_le 8) (take 4 (rfc_F h (zero_pad (drop (128 * q) data)) (length data) True)))" using f .
  moreover have "rfc_blake2b 32 key msg = take 32 (concat (map (to_le 8) (rfc_F h (zero_pad (drop (128 * q) data)) (length data) True)))"
    using assms(1) unfolding rfc_blake2b_def Let_def h_def by (simp only: if_False data_def [symmetric] q diff_Suc_1)
  moreover have "blake_last (blake_absorb (bl_h (blake_new key)) 0 (zero_pad key @ msg))
      = concat (map (to_le 8) (take 4 (rfc_F h (zero_pad (drop (128 * q) data)) (length data) True)))"
    by (simp only: d(3) a blake_last_def prod.case t c)
  ultimately show ?thesis by simp
qed

section \<open>The hasher absorbs its message\<close>

definition blake_ok :: "blake \<Rightarrow> bool" where
  "blake_ok s \<longleftrightarrow> bl_len s \<le> 128 \<and> length (bl_buf s) = 128"

definition blake_abs :: "blake \<Rightarrow> u64 list \<times> 128 word \<times> bytes" where
  "blake_abs s = (bl_h s, bl_total s, take (bl_len s) (bl_buf s))"

definition absorbs :: "bytes \<Rightarrow> blake \<Rightarrow> u64 list \<times> 128 word \<times> bytes" where
  "absorbs data s = blake_absorb (bl_h s) (bl_total s) (take (bl_len s) (bl_buf s) @ data)"

lemma absorbs_Nil: "blake_ok s \<Longrightarrow> absorbs [] s = blake_abs s"
  by (simp add: absorbs_def blake_abs_def blake_ok_def blake_absorb_short)

lemma blake_flush_absorbs:
  assumes "blake_ok s" "data \<noteq> []"
  shows "absorbs data (blake_flush s) = absorbs data s" "blake_ok (blake_flush s)" "bl_len (blake_flush s) < 128"
proof -
  show "absorbs data (blake_flush s) = absorbs data s"
  proof (cases "bl_len s = 128")
    case True
    have "blake_absorb (bl_h s) (bl_total s) (bl_buf s @ data) =
        blake_absorb (blake_compress (bl_h s) (bl_buf s) (bl_total s + 128) False) (bl_total s + 128) data"
      using assms by (subst blake_absorb.simps) (simp add: blake_ok_def)
    then show ?thesis using True assms(1) by (simp add: absorbs_def blake_flush_def blake_ok_def)
  qed (simp add: blake_flush_def)
  show "blake_ok (blake_flush s)" "bl_len (blake_flush s) < 128"
    using assms(1) by (auto simp: blake_ok_def blake_flush_def)
qed

lemma blake_put_absorbs:
  assumes "blake_ok s" "blake_put data s = (s', rest)"
  shows "absorbs rest s' = absorbs data s" "blake_ok s'"
proof -
  define n where "n = min (length data) (128 - bl_len s)"
  have s': "s' = s\<lparr>bl_buf := blit (take n data) (bl_len s) (bl_buf s), bl_len := bl_len s + n\<rparr>" "rest = drop n data"
    using assms(2) by (auto simp: blake_put_def Let_def n_def min_def split: if_splits)
  have len: "bl_len s + length (take n data) \<le> length (bl_buf s)" "length (take n data) = n"
    using assms(1) by (auto simp: blake_ok_def n_def)
  have "take (bl_len s + n) (blit (take n data) (bl_len s) (bl_buf s)) = take (bl_len s) (bl_buf s) @ take n data"
    using len by (simp add: blit_def)
  then show "absorbs rest s' = absorbs data s" by (simp add: s' absorbs_def)
  show "blake_ok s'" using len assms(1) by (simp add: s' blake_ok_def)
qed

lemma blake_fill_absorbs:
  "blake_ok s \<Longrightarrow> blake_ok (blake_fill data s) \<and> blake_abs (blake_fill data s) = absorbs data s"
proof (induction data s rule: blake_fill.induct)
  case (1 data s)
  show ?case
  proof (cases "data = []")
    case True
    then show ?thesis
      using 1(2) by (subst (1 2) blake_fill.simps) (simp add: absorbs_Nil)
  next
    case False
    note flush = blake_flush_absorbs [OF 1(2) False]
    obtain s' rest where put: "blake_put data (blake_flush s) = (s', rest)" by fastforce
    note p = blake_put_absorbs [OF flush(2) put]
    have "blake_fill data s = blake_fill rest s'"
      using False 1(2) put by (subst blake_fill.simps) (simp add: blake_ok_def)
    moreover have "blake_ok (blake_fill rest s') \<and> blake_abs (blake_fill rest s') = absorbs rest s'"
      using 1(1) [OF _ put [symmetric] p(2)] False 1(2) by (simp add: blake_ok_def)
    ultimately show ?thesis using p(1) flush(1) by simp
  qed
qed

lemma blake_update_absorbs:
  assumes "blake_ok s"
  shows "blake_ok (blake_update data s)" "blake_abs (blake_update data s) = absorbs data s"
proof -
  have "blake_ok (blake_update data s) \<and> blake_abs (blake_update data s) = absorbs data s"
  proof (cases "data = []")
    case True
    then show ?thesis
      using assms by (simp add: blake_update_def absorbs_Nil)
  next
    case False
    note flush = blake_flush_absorbs [OF assms False]
    obtain s' rest where put: "(if bl_len (blake_flush s) > 0 then blake_put data (blake_flush s)
        else (blake_flush s, data)) = (s', rest)" by fastforce
    then have "absorbs rest s' = absorbs data (blake_flush s)" "blake_ok s'"
      using blake_put_absorbs [OF flush(2), of data s' rest] flush(2) by (auto split: if_splits)
    then show ?thesis
      using False put flush blake_fill_absorbs [of s' rest] by (simp add: blake_update_def Let_def)
  qed
  then show "blake_ok (blake_update data s)" "blake_abs (blake_update data s) = absorbs data s" by simp_all
qed

text \<open>The keys for which the hasher is specified, by the doc of \<open>KaspaBlake2b::new\<close>: 1 to 64 bytes.\<close>

definition blake_key :: "bytes \<Rightarrow> bool" where
  "blake_key key \<longleftrightarrow> key \<noteq> [] \<and> length key \<le> 64"

definition blake_absorbed :: "bytes \<Rightarrow> bytes \<Rightarrow> blake \<Rightarrow> bool" where
  "blake_absorbed key msg s \<longleftrightarrow> blake_key key \<and> blake_ok s \<and>
     blake_abs s = blake_absorb (bl_h (blake_new key)) 0 (zero_pad key @ msg)"

lemma blake_absorbed_new:
  assumes "blake_key key"
  shows "blake_absorbed key [] (blake_new key)"
proof -
  have "bl_buf (blake_new key) = zero_pad key" "length (zero_pad key) = 128"
    using assms by (simp_all add: blake_new_def blit_def zero_pad_def blake_key_def)
  then show ?thesis
    using assms by (simp add: blake_absorbed_def blake_ok_def blake_abs_def blake_absorb_short blake_new_def)
qed

lemma blake_absorbed_update:
  assumes "blake_absorbed key msg s"
  shows "blake_absorbed key (msg @ data) (blake_update data s)"
proof -
  have ok: "blake_ok s" and abs: "blake_absorb (bl_h (blake_new key)) 0 (zero_pad key @ msg) =
      (bl_h s, bl_total s, take (bl_len s) (bl_buf s))"
    using assms unfolding blake_absorbed_def blake_abs_def by simp_all
  have "absorbs data s = blake_absorb (bl_h (blake_new key)) 0 (zero_pad key @ msg @ data)"
    using blake_absorb_append [where h = "bl_h (blake_new key)" and t = 0 and a = "zero_pad key @ msg" and b = data]
    by (simp only: abs absorbs_def prod.case append_assoc)
  then show ?thesis using assms blake_update_absorbs [OF ok] by (simp add: blake_absorbed_def)
qed

lemma blake_absorbed_finalize:
  assumes "blake_absorbed key msg s"
  shows "blake_finalize s = blake2b_keyed key msg"
proof -
  have ok: "blake_ok s" and abs: "blake_absorb (bl_h (blake_new key)) 0 (zero_pad key @ msg) =
      (bl_h s, bl_total s, take (bl_len s) (bl_buf s))" and key: "key \<noteq> []" "length key \<le> 64"
    using assms by (simp_all add: blake_absorbed_def blake_abs_def blake_key_def)
  have "map (to_le 8) (take 4 hs) = map (\<lambda>i. to_le 8 (hs ! i)) [0..<4]" if "length hs = 8" for hs :: "u64 list"
    using that by (intro nth_equalityI) auto
  then show ?thesis
    using ok unfolding blake2b_keyed_def blake_last_rfc [OF key, symmetric] abs blake_last_def blake_finalize_def Let_def prod.case
    by (cases "bl_len s = 128") (auto simp: blake_ok_def zero_pad_def min_def)
qed

section \<open>The interface for clients\<close>

text \<open>
  A hasher that is fed piecewise: what it returns depends on the concatenation of the pieces only.
\<close>

locale stream_hasher =
  fixes init :: "'k \<Rightarrow> 's" and feed :: "bytes \<Rightarrow> 's \<Rightarrow> 's" and finish :: "'s \<Rightarrow> bytes"
    and digest :: "'k \<Rightarrow> bytes \<Rightarrow> bytes"
    and valid :: "'k \<Rightarrow> bool" and absorbed :: "'k \<Rightarrow> bytes \<Rightarrow> 's \<Rightarrow> bool"
  assumes absorbed_init: "valid k \<Longrightarrow> absorbed k [] (init k)"
    and absorbed_feed: "absorbed k m s \<Longrightarrow> absorbed k (m @ d) (feed d s)"
    and finish_digest: "absorbed k m s \<Longrightarrow> finish s = digest k m"
begin

lemma absorbed_fold: "absorbed k m s \<Longrightarrow> absorbed k (m @ concat ds) (fold feed ds s)"
proof (induction ds arbitrary: m s)
  case (Cons d ds)
  from Cons.IH [OF absorbed_feed [OF Cons.prems, of d]] show ?case by simp
qed simp

lemma finish_fold: "absorbed k m s \<Longrightarrow> finish (fold feed ds s) = digest k (m @ concat ds)"
  by (rule finish_digest [OF absorbed_fold])

lemma digest_pieces: "valid k \<Longrightarrow> finish (fold feed ds (init k)) = digest k (concat ds)"
  using finish_fold [OF absorbed_init, of k ds] by simp

lemma chunking: "valid k \<Longrightarrow> concat ds = concat es \<Longrightarrow> finish (fold feed ds (init k)) = finish (fold feed es (init k))"
  by (simp add: digest_pieces)

end

interpretation kb: stream_hasher blake_new blake_update blake_finalize blake2b_keyed blake_key blake_absorbed
  by unfold_locales
    (auto intro: blake_absorbed_new blake_absorbed_update blake_absorbed_finalize)

lemma length_concat_to_le: "length (concat (map (to_le 8) ws)) = 8 * length ws"
  by (induction ws) auto

lemma length_blake2b: "blake_key key \<Longrightarrow> length (blake2b_keyed key msg) = 32"
  unfolding blake2b_keyed_def blake_key_def
  by (elim conjE) (simp add: blake_last_rfc [symmetric] blake_last_def length_concat_to_le split: prod.split)

section \<open>Properties\<close>

text \<open>
  C22: The streaming hasher computes keyed BLAKE2b-256 as RFC 7693 defines it (theory KasBlakeSpec: initial value from
  the square roots of primes, rounds on a matrix, parameter block and block list, none of it taken from the code's
  tables or its compression function): for every key of 1 to 64 bytes, the lengths that the doc of \<open>new\<close> admits, and
  however the message is cut into updates (empty ones included), the result is the digest of the concatenation, 32
  bytes long.
\<close>

theorem blake_stream_digest:
  assumes "key \<noteq> []" "length key \<le> 64"
  shows "blake_finalize (fold blake_update chunks (blake_new key)) = rfc_blake2b 32 key (concat chunks) \<and>
    length (blake_finalize (fold blake_update chunks (blake_new key))) = 32"
  using kb.digest_pieces [of key chunks] length_blake2b [of key "concat chunks"] assms by (simp add: blake_key_def blake2b_keyed_def)

theorem blake_stream_digest_witness:
  "blake_finalize (blake_update [3] (blake_update [] (blake_update [1, 2] (blake_new [7])))) = rfc_blake2b 32 [7] [1, 2, 3]"
  using blake_stream_digest [of "[7]" "[[1, 2], [], [3]]"] by simp

end
