(* ===== verification/KasSighash.thy ===== *)
theory KasSighash
  imports KasTransaction KasBlake2b
begin

text \<open>
  Signature hashes (core/src/wallet/sighash.rs): the sub-hashes over outpoints, sequences,
  signature-operation counts, outputs and payload, the cache \<open>SighashReuse\<close> and the final digest.
  The specification is the list of bytes that the consensus rules feed to the keyed hash; the
  lemmas show that the code computes it and that the byte layout is unambiguous, so that equal
  signature hashes mean equal signed contents unless the hash function itself collides.
\<close>

definition KEY_SIGNING_HASH :: bytes where
  "KEY_SIGNING_HASH = [84, 114, 97, 110, 115, 97, 99, 116, 105, 111, 110,
     83, 105, 103, 110, 105, 110, 103, 72, 97, 115, 104]"

abbreviation hash_start :: blake where
  "hash_start \<equiv> blake_new KEY_SIGNING_HASH"

definition previous_outputs_hash :: "transaction \<Rightarrow> sighash_type \<Rightarrow> bytes" where
  "previous_outputs_hash tx ty =
     (if is_anyone_can_pay ty then zeros 32
      else blake_finalize
        (fold (\<lambda>input h. blake_update (to_le 4 (op_index (in_outpoint input)))
                (blake_update (op_transaction_id (in_outpoint input)) h))
          (inputs tx) hash_start))"

definition sequences_hash :: "transaction \<Rightarrow> sighash_type \<Rightarrow> bytes" where
  "sequences_hash tx ty =
     (if is_anyone_can_pay ty \<or> is_sighash_single ty \<or> is_sighash_none ty then zeros 32
      else blake_finalize
        (fold (\<lambda>input. blake_update (to_le 8 (in_sequence input))) (inputs tx) hash_start))"

definition sig_op_counts_hash :: "transaction \<Rightarrow> sighash_type \<Rightarrow> bytes" where
  "sig_op_counts_hash tx ty =
     (if is_anyone_can_pay ty then zeros 32
      else blake_finalize (fold (\<lambda>input. blake_update [in_sig_op_count input]) (inputs tx) hash_start))"

definition hash_output :: "transaction_output \<Rightarrow> u16 \<Rightarrow> blake \<Rightarrow> blake" where
  "hash_output out txv h =
     (let h = blake_update (to_le 8 (out_value out)) h;
          h = blake_update (to_le 2 (spk_version (out_spk out))) h;
          h = blake_update (to_le 8 (of_nat (spk_script_len (out_spk out)) :: u64)) h;
          h = blake_update (script_bytes (out_spk out)) h
      in if txv \<ge> 1 then
           (if out_has_covenant out then
              blake_update (out_covenant_id out)
               (blake_update (to_le 2 (out_covenant_auth_input out)) (blake_update [1] h))
            else blake_update [0] h)
         else h)"

definition outputs_hash :: "transaction \<Rightarrow> sighash_type \<Rightarrow> nat \<Rightarrow> bytes" where
  "outputs_hash tx ty input_index =
     (if is_sighash_none ty then zeros 32
      else if is_sighash_single ty then
        (if input_index \<ge> tx_num_outputs tx then zeros 32
         else blake_finalize (hash_output (tx_outputs tx ! input_index) (tx_version tx) hash_start))
      else blake_finalize (fold (\<lambda>out. hash_output out (tx_version tx)) (outputs tx) hash_start))"

definition payload_hash :: "transaction \<Rightarrow> bytes" where
  "payload_hash tx =
     (if is_native tx \<and> tx_payload_len tx = 0 then zeros 32
      else blake_finalize (blake_update (take (tx_payload_len tx) (tx_payload tx))
             (blake_update (to_le 8 (of_nat (tx_payload_len tx) :: u64)) hash_start)))"

record sighash_reuse =
  ru_prev_outputs :: bytes
  ru_sequences :: bytes
  ru_sig_op_counts :: bytes
  ru_outputs_all :: bytes
  ru_payload :: bytes
  ru_single :: bool

definition sighash_reuse_compute :: "transaction \<Rightarrow> sighash_type \<Rightarrow> sighash_reuse" where
  "sighash_reuse_compute tx ty =
     (let single = is_sighash_single ty
      in \<lparr>ru_prev_outputs = previous_outputs_hash tx ty,
          ru_sequences = sequences_hash tx ty,
          ru_sig_op_counts = (if tx_version tx < 1 then sig_op_counts_hash tx ty else zeros 32),
          ru_outputs_all = (if single then zeros 32 else outputs_hash tx ty 0),
          ru_payload = payload_hash tx,
          ru_single = single\<rparr>)"

text \<open>The \<open>SigHasher\<close> wrapper only names the widths; its calls are the updates below, in order.\<close>

definition calculate_sighash_cached ::
  "transaction \<Rightarrow> nat \<Rightarrow> sighash_type \<Rightarrow> sighash_reuse \<Rightarrow> bytes"
where
  "calculate_sighash_cached tx input_index ty reuse =
     (let input = tx_inputs tx ! input_index;
          outs = (if ru_single reuse then outputs_hash tx ty input_index else ru_outputs_all reuse);
          h = blake_update (to_le 2 (tx_version tx)) hash_start;
          h = blake_update (ru_prev_outputs reuse) h;
          h = blake_update (ru_sequences reuse) h;
          h = (if tx_version tx < 1 then blake_update (ru_sig_op_counts reuse) h else h);
          h = blake_update (op_transaction_id (in_outpoint input)) h;
          h = blake_update (to_le 4 (op_index (in_outpoint input))) h;
          h = blake_update (to_le 2 (spk_version (utxo_spk (in_utxo input)))) h;
          h = blake_update (to_le 8 (of_nat (spk_script_len (utxo_spk (in_utxo input))) :: u64)) h;
          h = blake_update (script_bytes (utxo_spk (in_utxo input))) h;
          h = blake_update (to_le 8 (utxo_amount (in_utxo input))) h;
          h = blake_update (to_le 8 (in_sequence input)) h;
          h = (if tx_version tx < 1 then blake_update [in_sig_op_count input] h else h);
          h = blake_update outs h;
          h = blake_update (to_le 8 (tx_locktime tx)) h;
          h = blake_update (tx_subnetwork_id tx) h;
          h = blake_update (to_le 8 (tx_gas tx)) h;
          h = blake_update (ru_payload reuse) h;
          h = blake_update [sighash_to_byte ty] h
      in blake_finalize h)"

definition calculate_sighash :: "transaction \<Rightarrow> nat \<Rightarrow> sighash_type \<Rightarrow> bytes" where
  "calculate_sighash tx input_index ty =
     calculate_sighash_cached tx input_index ty (sighash_reuse_compute tx ty)"

text \<open>
  \<open>tx.inputs[input_index]\<close> panics for an index past the array (\<open>None\<close>). The callers stay below \<open>num_inputs\<close>, so the other
  definitions use \<open>calculate_sighash\<close> directly.
\<close>

definition sighash_or_panic :: "transaction \<Rightarrow> nat \<Rightarrow> sighash_type \<Rightarrow> bytes option" where
  "sighash_or_panic tx input_index ty =
     (if input_index < length (tx_inputs tx) then Some (calculate_sighash tx input_index ty) else None)"

section \<open>The bytes that are hashed\<close>

abbreviation D :: "bytes \<Rightarrow> bytes" where
  "D \<equiv> blake2b_keyed KEY_SIGNING_HASH"

definition outpoint_bytes :: "transaction_input \<Rightarrow> bytes" where
  "outpoint_bytes i = op_transaction_id (in_outpoint i) @ to_le 4 (op_index (in_outpoint i))"

definition spk_bytes :: "script_public_key \<Rightarrow> bytes" where
  "spk_bytes s = to_le 2 (spk_version s) @ to_le 8 (of_nat (spk_script_len s) :: u64) @ script_bytes s"

definition output_bytes :: "u16 \<Rightarrow> transaction_output \<Rightarrow> bytes" where
  "output_bytes v out = to_le 8 (out_value out) @ spk_bytes (out_spk out) @
     (if v \<ge> 1 then
        (if out_has_covenant out then [1] @ to_le 2 (out_covenant_auth_input out) @ out_covenant_id out
         else [0])
      else [])"

text \<open>Each sub-hash: \<open>None\<close> where the rules put 32 zero bytes, else the message hashed.\<close>

definition prev_msg :: "transaction \<Rightarrow> sighash_type \<Rightarrow> bytes option" where
  "prev_msg tx ty = (if is_anyone_can_pay ty then None else Some (concat (map outpoint_bytes (inputs tx))))"

definition seq_msg :: "transaction \<Rightarrow> sighash_type \<Rightarrow> bytes option" where
  "seq_msg tx ty = (if is_anyone_can_pay ty \<or> is_sighash_single ty \<or> is_sighash_none ty then None
     else Some (concat (map (\<lambda>i. to_le 8 (in_sequence i)) (inputs tx))))"

definition sigops_msg :: "transaction \<Rightarrow> sighash_type \<Rightarrow> bytes option" where
  "sigops_msg tx ty = (if is_anyone_can_pay ty then None else Some (map in_sig_op_count (inputs tx)))"

definition outs_msg :: "transaction \<Rightarrow> sighash_type \<Rightarrow> nat \<Rightarrow> bytes option" where
  "outs_msg tx ty i =
     (if is_sighash_none ty then None
      else if is_sighash_single ty then
        (if i \<ge> tx_num_outputs tx then None else Some (output_bytes (tx_version tx) (tx_outputs tx ! i)))
      else Some (concat (map (output_bytes (tx_version tx)) (outputs tx))))"

definition payload_msg :: "transaction \<Rightarrow> bytes option" where
  "payload_msg tx =
     (if is_native tx \<and> tx_payload_len tx = 0 then None
      else Some (to_le 8 (of_nat (tx_payload_len tx) :: u64) @ take (tx_payload_len tx) (tx_payload tx)))"

definition sub_digest :: "bytes option \<Rightarrow> bytes" where
  "sub_digest m = (case m of None \<Rightarrow> zeros 32 | Some b \<Rightarrow> D b)"

definition sighash_preimage :: "transaction \<Rightarrow> nat \<Rightarrow> sighash_type \<Rightarrow> bytes" where
  "sighash_preimage tx i ty =
     (let input = tx_inputs tx ! i
      in to_le 2 (tx_version tx) @ sub_digest (prev_msg tx ty) @ sub_digest (seq_msg tx ty) @
         (if tx_version tx < 1 then sub_digest (sigops_msg tx ty) else []) @
         outpoint_bytes input @ spk_bytes (utxo_spk (in_utxo input)) @
         to_le 8 (utxo_amount (in_utxo input)) @ to_le 8 (in_sequence input) @
         (if tx_version tx < 1 then [in_sig_op_count input] else []) @
         sub_digest (outs_msg tx ty i) @ to_le 8 (tx_locktime tx) @ tx_subnetwork_id tx @
         to_le 8 (tx_gas tx) @ sub_digest (payload_msg tx) @ [sighash_to_byte ty])"

lemma length_D [simp]: "length (D m) = 32"
  by (rule length_blake2b) (simp add: KEY_SIGNING_HASH_def blake_key_def)

lemma length_sub_digest [simp]: "length (sub_digest m) = 32"
  by (simp add: sub_digest_def split: option.split)

section \<open>The code hashes them\<close>

abbreviation fed :: "bytes \<Rightarrow> blake \<Rightarrow> bool" where
  "fed \<equiv> blake_absorbed KEY_SIGNING_HASH"

lemma fed_start: "fed [] hash_start"
  by (rule kb.absorbed_init) (simp add: KEY_SIGNING_HASH_def blake_key_def)

lemma fed_update: "fed m h \<Longrightarrow> fed (m @ d) (blake_update d h)"
  by (rule kb.absorbed_feed)

lemma fed_finalize: "fed m h \<Longrightarrow> blake_finalize h = D m"
  by (rule kb.finish_digest)

lemma fed_fold:
  assumes "\<And>x m h. fed m h \<Longrightarrow> fed (m @ f x) (g x h)"
  shows "fed m h \<Longrightarrow> fed (m @ concat (map f xs)) (fold g xs h)"
proof (induction xs arbitrary: m h)
  case (Cons x xs)
  from Cons.IH [OF assms [OF Cons.prems, of x]] show ?case by simp
qed simp

lemma fed_fold_start:
  assumes "\<And>x m h. fed m h \<Longrightarrow> fed (m @ f x) (g x h)"
  shows "blake_finalize (fold g xs hash_start) = D (concat (map f xs))"
  using fed_finalize [OF fed_fold [where f = f and g = g, OF assms fed_start]] by simp

lemma fed_fold_update: "blake_finalize (fold (\<lambda>x. blake_update (f x)) xs hash_start) = D (concat (map f xs))"
  by (rule fed_fold_start) (rule fed_update)

lemma fed_hash_output: "fed m h \<Longrightarrow> fed (m @ output_bytes v out) (hash_output out v h)"
proof -
  assume h: "fed m h"
  define h4 where "h4 = blake_update (script_bytes (out_spk out))
    (blake_update (to_le 8 (of_nat (spk_script_len (out_spk out)) :: u64))
    (blake_update (to_le 2 (spk_version (out_spk out))) (blake_update (to_le 8 (out_value out)) h)))"
  have h4: "fed (m @ to_le 8 (out_value out) @ spk_bytes (out_spk out)) h4"
    using fed_update [OF fed_update [OF fed_update [OF fed_update [OF h]]]]
    by (simp add: h4_def spk_bytes_def)
  have "fed (m @ to_le 8 (out_value out) @ spk_bytes (out_spk out) @ [1] @ to_le 2 (out_covenant_auth_input out) @ out_covenant_id out)
      (blake_update (out_covenant_id out) (blake_update (to_le 2 (out_covenant_auth_input out)) (blake_update [1] h4)))"
    using fed_update [OF fed_update [OF fed_update [OF h4, of "[1]"]]] by simp
  moreover have "fed (m @ to_le 8 (out_value out) @ spk_bytes (out_spk out) @ [0]) (blake_update [0] h4)"
    using fed_update [OF h4, of "[0]"] by simp
  ultimately show ?thesis
    using h4 by (simp add: hash_output_def output_bytes_def Let_def flip: h4_def)
qed

lemma previous_outputs_hash_eq: "previous_outputs_hash tx ty = sub_digest (prev_msg tx ty)"
proof -
  have "fed (m @ outpoint_bytes x) (blake_update (to_le 4 (op_index (in_outpoint x)))
      (blake_update (op_transaction_id (in_outpoint x)) h))" if "fed m h" for x m h
    using fed_update [OF fed_update [OF that]] by (simp add: outpoint_bytes_def)
  from fed_fold_start [where f = outpoint_bytes, OF this] show ?thesis
    by (simp add: previous_outputs_hash_def prev_msg_def sub_digest_def)
qed

lemma sequences_hash_eq: "sequences_hash tx ty = sub_digest (seq_msg tx ty)"
  using fed_fold_update [of "\<lambda>i. to_le 8 (in_sequence i)" "inputs tx"]
  by (simp add: sequences_hash_def seq_msg_def sub_digest_def)

lemma sig_op_counts_hash_eq: "sig_op_counts_hash tx ty = sub_digest (sigops_msg tx ty)"
proof -
  have "concat (map (\<lambda>i. [f i]) xs) = map f xs" for f :: "'x \<Rightarrow> u8" and xs
    by (induction xs) auto
  then show ?thesis
    using fed_fold_update [of "\<lambda>i. [in_sig_op_count i]" "inputs tx"]
    by (simp add: sig_op_counts_hash_def sigops_msg_def sub_digest_def)
qed

lemma outputs_hash_eq: "outputs_hash tx ty i = sub_digest (outs_msg tx ty i)"
  using fed_fold_start [where f = "output_bytes (tx_version tx)" and xs = "outputs tx", OF fed_hash_output]
    fed_finalize [OF fed_hash_output [OF fed_start]]
  by (simp add: outputs_hash_def outs_msg_def sub_digest_def)

lemma payload_hash_eq: "payload_hash tx = sub_digest (payload_msg tx)"
  using fed_finalize [OF fed_update [OF fed_update [OF fed_start]]]
  by (simp add: payload_hash_def payload_msg_def sub_digest_def)

lemma cached_digest:
  "calculate_sighash_cached tx i ty ru =
   D (let input = tx_inputs tx ! i
      in to_le 2 (tx_version tx) @ ru_prev_outputs ru @ ru_sequences ru @
         (if tx_version tx < 1 then ru_sig_op_counts ru else []) @
         outpoint_bytes input @ spk_bytes (utxo_spk (in_utxo input)) @
         to_le 8 (utxo_amount (in_utxo input)) @ to_le 8 (in_sequence input) @
         (if tx_version tx < 1 then [in_sig_op_count input] else []) @
         (if ru_single ru then outputs_hash tx ty i else ru_outputs_all ru) @
         to_le 8 (tx_locktime tx) @ tx_subnetwork_id tx @
         to_le 8 (tx_gas tx) @ ru_payload ru @ [sighash_to_byte ty])"
proof -
  have "blake_finalize (fold blake_update ds hash_start) = D (concat ds)" for ds
    by (rule kb.digest_pieces) (simp add: KEY_SIGNING_HASH_def blake_key_def)
  from this [of "[to_le 2 (tx_version tx), ru_prev_outputs ru, ru_sequences ru] @
      (if tx_version tx < 1 then [ru_sig_op_counts ru] else []) @
      [op_transaction_id (in_outpoint (tx_inputs tx ! i)), to_le 4 (op_index (in_outpoint (tx_inputs tx ! i))),
       to_le 2 (spk_version (utxo_spk (in_utxo (tx_inputs tx ! i)))),
       to_le 8 (of_nat (spk_script_len (utxo_spk (in_utxo (tx_inputs tx ! i)))) :: u64),
       script_bytes (utxo_spk (in_utxo (tx_inputs tx ! i))), to_le 8 (utxo_amount (in_utxo (tx_inputs tx ! i))),
       to_le 8 (in_sequence (tx_inputs tx ! i))] @
      (if tx_version tx < 1 then [[in_sig_op_count (tx_inputs tx ! i)]] else []) @
      [if ru_single ru then outputs_hash tx ty i else ru_outputs_all ru, to_le 8 (tx_locktime tx),
       tx_subnetwork_id tx, to_le 8 (tx_gas tx), ru_payload ru, [sighash_to_byte ty]]"]
  show ?thesis
    by (simp add: calculate_sighash_cached_def Let_def outpoint_bytes_def spk_bytes_def split: if_splits)
qed

lemma calculate_sighash_eq: "calculate_sighash tx i ty = D (sighash_preimage tx i ty)"
proof -
  have "outs_msg tx ty 0 = outs_msg tx ty i" if "\<not> is_sighash_single ty"
    using that by (simp only: outs_msg_def if_False)
  then show ?thesis
    unfolding calculate_sighash_def cached_digest sighash_preimage_def sighash_reuse_compute_def Let_def
      previous_outputs_hash_eq sequences_hash_eq sig_op_counts_hash_eq outputs_hash_eq payload_hash_eq
    by (cases "is_sighash_single ty") (simp_all only: sighash_reuse.simps if_True if_False cong: if_cong)
qed

section \<open>The layout is unambiguous\<close>

lemma append_cut: "length a = length b \<Longrightarrow> a @ x = b @ y \<Longrightarrow> a = b \<and> x = y"
  by simp

lemma to_le_inj:
  fixes v w :: "'a::len word"
  assumes "LENGTH('a) = 8 * k" "to_le k v = to_le k w"
  shows "v = w"
  using assms from_le_to_le by metis

lemma to_le_cut:
  "to_le 2 (v :: u16) @ x = to_le 2 w @ y \<Longrightarrow> v = w \<and> x = y"
  "to_le 4 (v4 :: u32) @ x = to_le 4 w4 @ y \<Longrightarrow> v4 = w4 \<and> x = y"
  "to_le 8 (v8 :: u64) @ x = to_le 8 w8 @ y \<Longrightarrow> v8 = w8 \<and> x = y"
  using to_le_inj [of 2 v w] to_le_inj [of 4 v4 w4] to_le_inj [of 8 v8 w8] by simp_all

lemma concat_decode:
  assumes "concat (map f xs) = concat (map f ys)"
    and "\<And>x y r r'. x \<in> set xs \<Longrightarrow> y \<in> set ys \<Longrightarrow> f x @ r = f y @ r' \<Longrightarrow> g x = g y \<and> r = r'"
    and "\<And>x. f x \<noteq> []"
  shows "map g xs = map g ys"
  using assms(1,2)
proof (induction xs arbitrary: ys)
  case Nil
  then show ?case using assms(3) by (cases ys) auto
next
  case (Cons x xs)
  then obtain y ys' where ys: "ys = y # ys'" using assms(3) by (cases ys) auto
  then have "g x = g y \<and> concat (map f xs) = concat (map f ys')"
    using Cons.prems(1) by (intro Cons.prems(2)) simp_all
  moreover have "map g xs = map g ys'"
  proof (rule Cons.IH)
    show "concat (map f xs) = concat (map f ys')" using calculation by simp
    show "g u = g w \<and> r = r'" if "u \<in> set xs" "w \<in> set ys'" "f u @ r = f w @ r'" for u w r r'
      using that by (intro Cons.prems(2)) (simp_all add: ys)
  qed
  ultimately show ?case by (simp add: ys)
qed

lemma spk_bytes_cut:
  assumes "wf_spk s" "wf_spk s'" "spk_bytes s @ x = spk_bytes s' @ y"
  shows "spk_version s = spk_version s' \<and> script_bytes s = script_bytes s' \<and> x = y"
proof -
  have len: "length (script_bytes t) = unat (of_nat (spk_script_len t) :: u64)" if "wf_spk t" for t
    using that by (simp add: wf_spk_def script_bytes_def size_limits unat_of_nat)
  have v: "spk_version s = spk_version s'"
    and r: "to_le 8 (of_nat (spk_script_len s) :: u64) @ script_bytes s @ x =
      to_le 8 (of_nat (spk_script_len s') :: u64) @ script_bytes s' @ y"
    using to_le_cut(1) assms(3) unfolding spk_bytes_def append_assoc by blast+
  have n: "(of_nat (spk_script_len s) :: u64) = of_nat (spk_script_len s')"
    and b: "script_bytes s @ x = script_bytes s' @ y"
    using to_le_cut(3) [OF r] by simp_all
  show ?thesis using v append_cut [OF _ b] len assms(1,2) n by simp
qed

text \<open>What one output contributes; the covenant binding counts from version 1 on.\<close>

definition output_content ::
  "u16 \<Rightarrow> transaction_output \<Rightarrow> u64 \<times> u16 \<times> bytes \<times> (u16 \<times> bytes) option option"
where
  "output_content v out = (out_value out, spk_version (out_spk out), script_bytes (out_spk out),
     if v \<ge> 1 then Some (if out_has_covenant out
        then Some (out_covenant_auth_input out, out_covenant_id out) else None) else None)"

lemma output_bytes_cut:
  assumes "wf_output a" "wf_output b" "output_bytes v a @ x = output_bytes v b @ y"
  shows "output_content v a = output_content v b \<and> x = y"
proof -
  define cov where "cov out = (if v \<ge> 1 then
        (if out_has_covenant out then [1] @ to_le 2 (out_covenant_auth_input out) @ out_covenant_id out
         else [0 :: u8]) else [])" for out :: transaction_output
  have e: "to_le 8 (out_value a) @ spk_bytes (out_spk a) @ cov a @ x =
      to_le 8 (out_value b) @ spk_bytes (out_spk b) @ cov b @ y"
    using assms(3) by (simp only: output_bytes_def cov_def append_assoc)
  have s: "out_value a = out_value b" "spk_bytes (out_spk a) @ cov a @ x = spk_bytes (out_spk b) @ cov b @ y"
    using to_le_cut(3) [OF e] by simp_all
  have c: "spk_version (out_spk a) = spk_version (out_spk b)" "script_bytes (out_spk a) = script_bytes (out_spk b)"
    "cov a @ x = cov b @ y"
    using spk_bytes_cut [OF _ _ s(2)] assms(1,2) by (simp_all add: wf_output_def)
  have id: "length (out_covenant_id a) = length (out_covenant_id b)" using assms by (simp add: wf_output_def)
  have auth: "(out_covenant_auth_input a, out_covenant_id a, x) = (out_covenant_auth_input b, out_covenant_id b, y)"
    if "to_le 2 (out_covenant_auth_input a) @ out_covenant_id a @ x = to_le 2 (out_covenant_auth_input b) @ out_covenant_id b @ y"
    using to_le_cut(1) [OF that] append_cut [OF id, of x y] by simp
  show ?thesis
    using s(1) c auth by (auto simp: cov_def output_content_def split: if_splits)
qed

lemma outpoint_bytes_cut:
  assumes "wf_input a" "wf_input b" "outpoint_bytes a @ x = outpoint_bytes b @ y"
  shows "in_outpoint a = in_outpoint b \<and> x = y"
proof -
  have e: "op_transaction_id (in_outpoint a) @ to_le 4 (op_index (in_outpoint a)) @ x =
      op_transaction_id (in_outpoint b) @ to_le 4 (op_index (in_outpoint b)) @ y"
    using assms(3) by (simp add: outpoint_bytes_def)
  have "op_transaction_id (in_outpoint a) = op_transaction_id (in_outpoint b)"
    and r: "to_le 4 (op_index (in_outpoint a)) @ x = to_le 4 (op_index (in_outpoint b)) @ y"
    using append_cut [OF _ e] assms(1,2) by (simp_all add: wf_input_def)
  then show ?thesis using to_le_cut(2) [OF r] by (simp add: outpoint.equality)
qed

section \<open>What a signature hash commits to\<close>

record signed_content =
  sc_type :: sighash_type
  sc_version :: u16
  sc_outpoints :: "outpoint list option"
  sc_sequences :: "u64 list option"
  sc_sig_ops :: "u8 list option"
  sc_input :: "outpoint \<times> u16 \<times> bytes \<times> u64 \<times> u64 \<times> u8 option"
  sc_outputs :: "(u64 \<times> u16 \<times> bytes \<times> (u16 \<times> bytes) option option) list option"
  sc_locktime :: u64
  sc_subnetwork :: bytes
  sc_gas :: u64
  sc_payload :: bytes

text \<open>The contents that signature type \<open>ty\<close> on input \<open>i\<close> covers, as the consensus rules state them.\<close>

definition signed_content :: "transaction \<Rightarrow> nat \<Rightarrow> sighash_type \<Rightarrow> signed_content" where
  "signed_content tx i ty =
     (let input = tx_inputs tx ! i; spk = utxo_spk (in_utxo input); old = tx_version tx < 1;
          acp = is_anyone_can_pay ty
      in \<lparr>sc_type = ty, sc_version = tx_version tx,
          sc_outpoints = (if acp then None else Some (map in_outpoint (inputs tx))),
          sc_sequences = (if acp \<or> is_sighash_single ty \<or> is_sighash_none ty then None
             else Some (map in_sequence (inputs tx))),
          sc_sig_ops = (if acp \<or> \<not> old then None else Some (map in_sig_op_count (inputs tx))),
          sc_input = (in_outpoint input, spk_version spk, script_bytes spk, utxo_amount (in_utxo input),
             in_sequence input, if old then Some (in_sig_op_count input) else None),
          sc_outputs = (if is_sighash_none ty then None
             else if is_sighash_single ty then
               (if i \<ge> tx_num_outputs tx then None else Some [output_content (tx_version tx) (tx_outputs tx ! i)])
             else Some (map (output_content (tx_version tx)) (outputs tx))),
          sc_locktime = tx_locktime tx, sc_subnetwork = tx_subnetwork_id tx, sc_gas = tx_gas tx,
          sc_payload = take (tx_payload_len tx) (tx_payload tx)\<rparr>)"

text \<open>All messages hashed for one signature hash.\<close>

definition hashed :: "transaction \<Rightarrow> nat \<Rightarrow> sighash_type \<Rightarrow> bytes list" where
  "hashed tx i ty = sighash_preimage tx i ty #
     List.map_filter id [prev_msg tx ty, seq_msg tx ty, if tx_version tx < 1 then sigops_msg tx ty else None,
       outs_msg tx ty i, payload_msg tx]"

definition hash_clash :: "bytes list \<Rightarrow> bytes list \<Rightarrow> bool" where
  "hash_clash xs ys \<longleftrightarrow> list_ex (\<lambda>a. list_ex (\<lambda>b. a \<noteq> b \<and> D a = D b) ys) xs \<or>
     list_ex (\<lambda>a. D a = zeros 32) (xs @ ys)"

lemma sub_digest_eq:
  assumes "\<not> hash_clash xs ys" "sub_digest m = sub_digest m'"
    and "\<And>a. m = Some a \<Longrightarrow> a \<in> set xs" "\<And>b. m' = Some b \<Longrightarrow> b \<in> set ys"
  shows "m = m'"
proof -
  have clash: "a = b" if "a \<in> set xs" "b \<in> set ys" "D a = D b" for a b
    using assms(1) that by (auto simp: hash_clash_def list_ex_iff)
  have zero: "D a \<noteq> zeros 32" if "a \<in> set xs \<union> set ys" for a
    using assms(1) that by (auto simp: hash_clash_def list_ex_iff)
  show ?thesis
  proof (cases m)
    case None
    have False if "m' = Some b" for b
      using that None assms(2) zero [of b] assms(4) [OF that] by (simp add: sub_digest_def)
    then show ?thesis using None by (cases m') blast+
  next
    case (Some a)
    note a = assms(3) [OF Some]
    show ?thesis
    proof (cases m')
      case None
      then show ?thesis using Some assms(2) zero [of a] a by (simp add: sub_digest_def)
    next
      case (Some b)
      then show ?thesis
        using \<open>m = Some a\<close> assms(2) clash [OF a assms(4) [OF Some]] by (simp add: sub_digest_def)
    qed
  qed
qed

lemma map_determined:
  "map g xs = map g ys \<Longrightarrow> (\<And>x y. x \<in> set xs \<Longrightarrow> y \<in> set ys \<Longrightarrow> g x = g y \<Longrightarrow> f x = f y) \<Longrightarrow> map f xs = map f ys"
proof (induction xs arbitrary: ys)
  case (Cons x xs)
  then obtain y ys' where ys: "ys = y # ys'" by (cases ys) auto
  have "f x = f y" using Cons.prems(1) ys by (intro Cons.prems(2)) simp_all
  moreover have "map f xs = map f ys'"
    using Cons.prems ys by (intro Cons.IH) simp_all
  ultimately show ?case by (simp add: ys)
qed simp

lemma wf_members:
  assumes "wf_transaction tx"
  shows "x \<in> set (inputs tx) \<Longrightarrow> wf_input x" "out \<in> set (outputs tx) \<Longrightarrow> wf_output out"
  using assms by (auto simp: wf_transaction_def list_all_iff inputs_def outputs_def dest: in_set_takeD)

lemma spk_bytes_determined:
  assumes "wf_spk s" "wf_spk s'" "spk_version s = spk_version s'" "script_bytes s = script_bytes s'"
  shows "spk_bytes s = spk_bytes s'"
proof -
  have "length (script_bytes t) = spk_script_len t" if "wf_spk t" for t
    using that by (simp add: wf_spk_def script_bytes_def)
  then show ?thesis using assms by (metis spk_bytes_def)
qed

lemma output_bytes_determined:
  assumes "wf_output a" "wf_output b" "output_content v a = output_content v b"
  shows "output_bytes v a = output_bytes v b"
  using assms spk_bytes_determined [of "out_spk a" "out_spk b"]
  by (auto simp: output_content_def output_bytes_def wf_output_def split: if_splits)

lemma preimage_determined:
  assumes wf: "wf_transaction tx" "wf_transaction tx'" and i: "i < tx_num_inputs tx" "i' < tx_num_inputs tx'"
    and same: "signed_content tx i ty = signed_content tx' i' ty'"
  shows "sighash_preimage tx i ty = sighash_preimage tx' i' ty'"
proof -
  let ?in = "tx_inputs tx ! i" and ?in' = "tx_inputs tx' ! i'"
  note c = same [unfolded signed_content_def Let_def signed_content.ext_inject]
  have ty: "ty = ty'" and v: "tx_version tx = tx_version tx'" using c by - (elim conjE, assumption)+
  have c_out: "(if is_anyone_can_pay ty then None else Some (map in_outpoint (inputs tx))) =
      (if is_anyone_can_pay ty' then None else Some (map in_outpoint (inputs tx')))"
    and c_seq: "(if is_anyone_can_pay ty \<or> is_sighash_single ty \<or> is_sighash_none ty then None
             else Some (map in_sequence (inputs tx))) =
      (if is_anyone_can_pay ty' \<or> is_sighash_single ty' \<or> is_sighash_none ty' then None
             else Some (map in_sequence (inputs tx')))"
    and c_ops: "(if is_anyone_can_pay ty \<or> \<not> tx_version tx < 1 then None else Some (map in_sig_op_count (inputs tx))) =
      (if is_anyone_can_pay ty' \<or> \<not> tx_version tx' < 1 then None else Some (map in_sig_op_count (inputs tx')))"
    using c by - (elim conjE, assumption)+
  have c_in: "(in_outpoint ?in, spk_version (utxo_spk (in_utxo ?in)), script_bytes (utxo_spk (in_utxo ?in)),
       utxo_amount (in_utxo ?in), in_sequence ?in, if tx_version tx < 1 then Some (in_sig_op_count ?in) else None) =
     (in_outpoint ?in', spk_version (utxo_spk (in_utxo ?in')), script_bytes (utxo_spk (in_utxo ?in')),
       utxo_amount (in_utxo ?in'), in_sequence ?in', if tx_version tx' < 1 then Some (in_sig_op_count ?in') else None)"
    and c_outs: "(if is_sighash_none ty then None
             else if is_sighash_single ty then
               (if i \<ge> tx_num_outputs tx then None else Some [output_content (tx_version tx) (tx_outputs tx ! i)])
             else Some (map (output_content (tx_version tx)) (outputs tx))) =
        (if is_sighash_none ty' then None
             else if is_sighash_single ty' then
               (if i' \<ge> tx_num_outputs tx' then None else Some [output_content (tx_version tx') (tx_outputs tx' ! i')])
             else Some (map (output_content (tx_version tx')) (outputs tx')))"
    using c by - (elim conjE, assumption)+
  have c_rest: "tx_locktime tx = tx_locktime tx'" "tx_subnetwork_id tx = tx_subnetwork_id tx'" "tx_gas tx = tx_gas tx'"
    "take (tx_payload_len tx) (tx_payload tx) = take (tx_payload_len tx') (tx_payload tx')"
    using c by - (elim conjE, assumption)+
  have wi: "wf_spk (utxo_spk (in_utxo ?in))" "wf_spk (utxo_spk (in_utxo ?in'))"
    using wf_transaction_nth [OF wf(1), of i] wf_transaction_nth [OF wf(2), of i'] wf i
    by (simp_all add: wf_input_def wf_transaction_def)
  have op: "outpoint_bytes ?in = outpoint_bytes ?in'" using c_in by (simp add: outpoint_bytes_def)
  have spk: "spk_bytes (utxo_spk (in_utxo ?in)) = spk_bytes (utxo_spk (in_utxo ?in'))"
    using wi c_in by (intro spk_bytes_determined) simp_all
  have prev: "prev_msg tx ty = prev_msg tx' ty"
  proof (cases "is_anyone_can_pay ty")
    case False
    then have "map in_outpoint (inputs tx) = map in_outpoint (inputs tx')"
      using c_out ty by (simp only: if_False option.inject)
    then have "map outpoint_bytes (inputs tx) = map outpoint_bytes (inputs tx')"
      by (rule map_determined) (simp add: outpoint_bytes_def)
    then show ?thesis by (simp only: prev_msg_def)
  qed (simp only: prev_msg_def if_True)
  have seq: "seq_msg tx ty = seq_msg tx' ty"
  proof (cases "is_anyone_can_pay ty \<or> is_sighash_single ty \<or> is_sighash_none ty")
    case False
    then have "map in_sequence (inputs tx) = map in_sequence (inputs tx')"
      using c_seq ty by (simp only: if_False option.inject)
    then have "map (\<lambda>i. to_le 8 (in_sequence i)) (inputs tx) = map (\<lambda>i. to_le 8 (in_sequence i)) (inputs tx')"
      by (rule map_determined) simp
    then show ?thesis by (simp only: seq_msg_def)
  qed (simp only: seq_msg_def if_True)
  have ops: "sigops_msg tx ty = sigops_msg tx' ty" if "tx_version tx < 1"
    using c_ops ty v that by (cases "is_anyone_can_pay ty") (simp_all only: sigops_msg_def if_True if_False option.inject simp_thms)
  have outs: "outs_msg tx ty i = outs_msg tx' ty i'"
  proof (cases "is_sighash_none ty")
    case none: False
    show ?thesis
    proof (cases "is_sighash_single ty")
      case True
      have "wf_output (tx_outputs tx ! i)" if "\<not> i \<ge> tx_num_outputs tx"
        using that wf(1) wf_transaction_nth_out [OF wf(1), of i] by (simp add: wf_transaction_def)
      moreover have "wf_output (tx_outputs tx' ! i')" if "\<not> i' \<ge> tx_num_outputs tx'"
        using that wf(2) wf_transaction_nth_out [OF wf(2), of i'] by (simp add: wf_transaction_def)
      ultimately show ?thesis
        using c_outs ty v none True output_bytes_determined [of "tx_outputs tx ! i" "tx_outputs tx' ! i'" "tx_version tx'"]
        by (cases "i \<ge> tx_num_outputs tx"; cases "i' \<ge> tx_num_outputs tx'")
          (simp_all only: outs_msg_def if_True if_False option.inject list.inject simp_thms option.distinct)
    next
      case False
      have "map (output_content (tx_version tx)) (outputs tx) = map (output_content (tx_version tx)) (outputs tx')"
        using c_outs ty v none False by (simp only: if_False option.inject)
      then have "map (output_bytes (tx_version tx)) (outputs tx) = map (output_bytes (tx_version tx)) (outputs tx')"
        by (rule map_determined)
          (use output_bytes_determined wf_members(2) [OF wf(1)] wf_members(2) [OF wf(2)] in blast)
      then show ?thesis using none False v by (simp only: outs_msg_def if_False)
    qed
  qed (simp only: outs_msg_def if_True)
  have pay: "payload_msg tx = payload_msg tx'"
  proof -
    have "length (take (tx_payload_len t) (tx_payload t)) = tx_payload_len t" if "wf_transaction t" for t
      using that by (simp add: wf_transaction_def)
    then have "tx_payload_len tx = tx_payload_len tx'" using c_rest wf by metis
    then show ?thesis using c_rest by (simp add: payload_msg_def is_native_def)
  qed
  show ?thesis
    using c_in c_rest prev seq ops outs pay ty v op spk
    by (cases "tx_version tx < 1") (simp_all only: sighash_preimage_def Let_def if_True if_False prod.inject option.inject simp_thms)
qed


lemma prev_msg_decode:
  assumes "wf_transaction tx" "wf_transaction tx'" "prev_msg tx ty = prev_msg tx' ty"
  shows "is_anyone_can_pay ty \<or> map in_outpoint (inputs tx) = map in_outpoint (inputs tx')"
proof (cases "is_anyone_can_pay ty")
  case False
  then have "concat (map outpoint_bytes (inputs tx)) = concat (map outpoint_bytes (inputs tx'))"
    using assms(3) by (simp only: prev_msg_def if_False option.inject)
  then have "map in_outpoint (inputs tx) = map in_outpoint (inputs tx')"
  proof (rule concat_decode)
    show "in_outpoint x = in_outpoint y \<and> r = r'"
      if "x \<in> set (inputs tx)" "y \<in> set (inputs tx')" "outpoint_bytes x @ r = outpoint_bytes y @ r'" for x y r r'
      using outpoint_bytes_cut [OF _ _ that(3)] wf_members(1) assms(1,2) that(1,2) by blast
    have "length (outpoint_bytes x) \<noteq> 0" for x by (simp add: outpoint_bytes_def)
    then show "outpoint_bytes x \<noteq> []" for x by auto
  qed
  then show ?thesis ..
qed simp

lemma seq_msg_decode:
  assumes "seq_msg tx ty = seq_msg tx' ty"
  shows "is_anyone_can_pay ty \<or> is_sighash_single ty \<or> is_sighash_none ty \<or>
    map in_sequence (inputs tx) = map in_sequence (inputs tx')"
proof (cases "is_anyone_can_pay ty \<or> is_sighash_single ty \<or> is_sighash_none ty")
  case False
  then have "concat (map (\<lambda>i. to_le 8 (in_sequence i)) (inputs tx)) = concat (map (\<lambda>i. to_le 8 (in_sequence i)) (inputs tx'))"
    using assms by (simp only: seq_msg_def if_False option.inject)
  then have "map in_sequence (inputs tx) = map in_sequence (inputs tx')"
  proof (rule concat_decode)
    show "in_sequence x = in_sequence y \<and> r = r'"
      if "to_le 8 (in_sequence x) @ r = to_le 8 (in_sequence y) @ r'" for x y r r'
      using to_le_cut(3) [OF that] .
    have "length (to_le 8 (in_sequence x)) \<noteq> 0" for x :: transaction_input by simp
    then show "to_le 8 (in_sequence x) \<noteq> []" for x :: transaction_input by (metis list.size(3))
  qed
  then show ?thesis by blast
qed blast

lemma outs_msg_decode:
  assumes "wf_transaction tx" "wf_transaction tx'" "tx_version tx = tx_version tx'"
    and "outs_msg tx ty i = outs_msg tx' ty i'"
  shows "sc_outputs (signed_content tx i ty) = sc_outputs (signed_content tx' i' ty)"
proof -
  let ?v = "tx_version tx'"
  have out: "wf_output (tx_outputs t ! j)" if "wf_transaction t" "\<not> j \<ge> tx_num_outputs t" for t j
    using that wf_transaction_nth_out [OF that(1), of j] by (simp add: wf_transaction_def)
  have cut: "output_content ?v a = output_content ?v b" if "wf_output a" "wf_output b" "output_bytes ?v a = output_bytes ?v b" for a b
    using output_bytes_cut [of a b ?v "[]" "[]"] that by simp
  have all: "map (output_content ?v) (outputs tx) = map (output_content ?v) (outputs tx')"
    if "concat (map (output_bytes ?v) (outputs tx)) = concat (map (output_bytes ?v) (outputs tx'))"
    using that
  proof (rule concat_decode)
    show "output_content ?v x = output_content ?v y \<and> r = r'"
      if "x \<in> set (outputs tx)" "y \<in> set (outputs tx')" "output_bytes ?v x @ r = output_bytes ?v y @ r'" for x y r r'
      using output_bytes_cut [OF _ _ that(3)] wf_members(2) assms(1,2) that(1,2) by blast
    have "length (output_bytes ?v x) \<noteq> 0" for x by (simp add: output_bytes_def)
    then show "output_bytes ?v x \<noteq> []" for x by (metis list.size(3))
  qed
  show ?thesis
  proof (cases "is_sighash_none ty")
    case none: False
    show ?thesis
    proof (cases "is_sighash_single ty")
      case True
      then show ?thesis
        using assms(3,4) none cut [of "tx_outputs tx ! i" "tx_outputs tx' ! i'"]
          out [OF assms(1), of i] out [OF assms(2), of i']
        by (cases "i \<ge> tx_num_outputs tx"; cases "i' \<ge> tx_num_outputs tx'")
          (simp_all only: outs_msg_def signed_content_def Let_def signed_content.simps if_True if_False
            option.inject list.inject simp_thms option.distinct)
    next
      case False
      then show ?thesis
        using assms(3,4) none all False
        by (simp only: outs_msg_def signed_content_def Let_def signed_content.simps if_False option.inject)
    qed
  qed (simp only: signed_content_def Let_def signed_content.simps if_True)
qed

lemma payload_msg_decode:
  assumes "wf_transaction tx" "wf_transaction tx'" "payload_msg tx = payload_msg tx'"
    and "tx_subnetwork_id tx = tx_subnetwork_id tx'"
  shows "take (tx_payload_len tx) (tx_payload tx) = take (tx_payload_len tx') (tx_payload tx')"
proof -
  have drop: "x = y" if "to_le 8 (a :: u64) @ x = to_le 8 b @ y" for a b :: u64 and x y
    using to_le_cut(3) [OF that] by simp
  show ?thesis
  proof (cases "payload_msg tx")
    case None
    moreover from this have "payload_msg tx' = None" using assms(3) by simp
    ultimately show ?thesis unfolding payload_msg_def by (simp split: if_splits)
  next
    case (Some m)
    moreover from this have "payload_msg tx' = Some m" using assms(3) by simp
    ultimately have "to_le 8 (of_nat (tx_payload_len tx) :: u64) @ take (tx_payload_len tx) (tx_payload tx) = m"
      "to_le 8 (of_nat (tx_payload_len tx') :: u64) @ take (tx_payload_len tx') (tx_payload tx') = m"
      unfolding payload_msg_def by (metis option.distinct(1) option.inject)+
    then have "to_le 8 (of_nat (tx_payload_len tx) :: u64) @ take (tx_payload_len tx) (tx_payload tx) =
        to_le 8 (of_nat (tx_payload_len tx') :: u64) @ take (tx_payload_len tx') (tx_payload tx')" by (rule trans [OF _ sym])
    then show ?thesis by (rule drop)
  qed
qed


lemma sighash_to_byte_inj: "sighash_to_byte a = sighash_to_byte b \<Longrightarrow> a = b"
  by (cases a; cases b) simp_all

lemma hashed_members:
  "sighash_preimage tx i ty \<in> set (hashed tx i ty)"
  "prev_msg tx ty = Some m \<Longrightarrow> m \<in> set (hashed tx i ty)" "seq_msg tx ty = Some m \<Longrightarrow> m \<in> set (hashed tx i ty)"
  "tx_version tx < 1 \<Longrightarrow> sigops_msg tx ty = Some m \<Longrightarrow> m \<in> set (hashed tx i ty)"
  "outs_msg tx ty i = Some m \<Longrightarrow> m \<in> set (hashed tx i ty)" "payload_msg tx = Some m \<Longrightarrow> m \<in> set (hashed tx i ty)"
  by (simp_all add: hashed_def List.map_filter_simps split: option.split)

lemma preimage_cut:
  assumes wf: "wf_transaction tx" "wf_transaction tx'" and i: "i < tx_num_inputs tx" "i' < tx_num_inputs tx'"
    and eq: "sighash_preimage tx i ty = sighash_preimage tx' i' ty'"
  shows "tx_version tx = tx_version tx'" "ty = ty'"
    "sub_digest (prev_msg tx ty) = sub_digest (prev_msg tx' ty')"
    "sub_digest (seq_msg tx ty) = sub_digest (seq_msg tx' ty')"
    "tx_version tx < 1 \<Longrightarrow> sub_digest (sigops_msg tx ty) = sub_digest (sigops_msg tx' ty')"
    "sc_input (signed_content tx i ty) = sc_input (signed_content tx' i' ty')"
    "sub_digest (outs_msg tx ty i) = sub_digest (outs_msg tx' ty' i')"
    "tx_locktime tx = tx_locktime tx'" "tx_subnetwork_id tx = tx_subnetwork_id tx'" "tx_gas tx = tx_gas tx'"
    "sub_digest (payload_msg tx) = sub_digest (payload_msg tx')"
proof -
  let ?in = "tx_inputs tx ! i" and ?in' = "tx_inputs tx' ! i'"
  define o1 where "o1 t y = (if tx_version t < 1 then sub_digest (sigops_msg t y) else [])" for t y
  define o2 where "o2 t x = (if tx_version t < 1 then [in_sig_op_count x] else [])" for t :: transaction and x :: transaction_input
  have wi: "wf_input ?in" "wf_input ?in'" "wf_spk (utxo_spk (in_utxo ?in))" "wf_spk (utxo_spk (in_utxo ?in'))"
    using wf_transaction_nth [OF wf(1), of i] wf_transaction_nth [OF wf(2), of i'] wf i
    by (simp_all add: wf_input_def wf_transaction_def)
  have sub: "length (tx_subnetwork_id tx) = length (tx_subnetwork_id tx')"
    using wf by (simp add: wf_transaction_def)
  note e0 = eq [unfolded sighash_preimage_def Let_def, folded o1_def o2_def]
  show v: "tx_version tx = tx_version tx'" using to_le_cut(1) [OF e0] by simp
  have l1: "length (o1 tx ty) = length (o1 tx' ty')" and l2: "length (o2 tx ?in) = length (o2 tx' ?in')"
    using v by (simp_all add: o1_def o2_def)
  note e1 = to_le_cut(1) [OF e0, THEN conjunct2]
  note e2 = append_cut [OF _ e1, simplified length_sub_digest, OF refl]
  note e3 = append_cut [OF _ e2 [THEN conjunct2], simplified length_sub_digest, OF refl]
  note e4 = append_cut [OF l1 e3 [THEN conjunct2]]
  note e5 = outpoint_bytes_cut [OF wi(1,2) e4 [THEN conjunct2]]
  note e6 = spk_bytes_cut [OF wi(3,4) e5 [THEN conjunct2]]
  note e7 = to_le_cut(3) [OF e6 [THEN conjunct2, THEN conjunct2]]
  note e8 = to_le_cut(3) [OF e7 [THEN conjunct2]]
  note e9 = append_cut [OF l2 e8 [THEN conjunct2]]
  note e10 = append_cut [OF _ e9 [THEN conjunct2], simplified length_sub_digest, OF refl]
  note e11 = to_le_cut(3) [OF e10 [THEN conjunct2]]
  note e12 = append_cut [OF sub e11 [THEN conjunct2]]
  note e13 = to_le_cut(3) [OF e12 [THEN conjunct2]]
  note e14 = append_cut [OF _ e13 [THEN conjunct2], simplified length_sub_digest, OF refl]
  show "ty = ty'" using e14 sighash_to_byte_inj by simp
  show "sub_digest (prev_msg tx ty) = sub_digest (prev_msg tx' ty')"
    "sub_digest (seq_msg tx ty) = sub_digest (seq_msg tx' ty')"
    "sub_digest (outs_msg tx ty i) = sub_digest (outs_msg tx' ty' i')"
    "sub_digest (payload_msg tx) = sub_digest (payload_msg tx')"
    using e2 e3 e10 e14 by simp_all
  show "sub_digest (sigops_msg tx ty) = sub_digest (sigops_msg tx' ty')" if "tx_version tx < 1"
    using e4 v that by (simp add: o1_def)
  show "tx_locktime tx = tx_locktime tx'" "tx_subnetwork_id tx = tx_subnetwork_id tx'" "tx_gas tx = tx_gas tx'"
    using e11 e12 e13 by simp_all
  show "sc_input (signed_content tx i ty) = sc_input (signed_content tx' i' ty')"
    using e5 e6 e7 e8 e9 v
    by (cases "tx_version tx < 1") (simp_all add: signed_content_def Let_def o2_def)
qed

lemma content_bound:
  assumes wf: "wf_transaction tx" "wf_transaction tx'" and i: "i < tx_num_inputs tx" "i' < tx_num_inputs tx'"
    and eq: "calculate_sighash tx i ty = calculate_sighash tx' i' ty'"
    and no: "\<not> hash_clash (hashed tx i ty) (hashed tx' i' ty')"
  shows "signed_content tx i ty = signed_content tx' i' ty'"
proof -
  have "sighash_preimage tx i ty = sighash_preimage tx' i' ty'"
    using eq no hashed_members(1) [of tx i ty] hashed_members(1) [of tx' i' ty']
    by (auto simp: calculate_sighash_eq hash_clash_def list_ex_iff)
  note cut = preimage_cut [OF wf i this]
  note m = hashed_members [where tx = tx and i = i and ty = ty]
    and m' = hashed_members [where tx = tx' and i = i' and ty = ty']
  have prev: "prev_msg tx ty = prev_msg tx' ty'" using sub_digest_eq [OF no cut(3)] m(2) m'(2) by blast
  have seq: "seq_msg tx ty = seq_msg tx' ty'" using sub_digest_eq [OF no cut(4)] m(3) m'(3) by blast
  have ops: "sigops_msg tx ty = sigops_msg tx' ty'" if "tx_version tx < 1"
    using sub_digest_eq [OF no cut(5) [OF that]] m(4) [OF that] m'(4) that cut(1) by simp
  have outs: "outs_msg tx ty i = outs_msg tx' ty' i'" using sub_digest_eq [OF no cut(7)] m(5) m'(5) by blast
  have pay: "payload_msg tx = payload_msg tx'" using sub_digest_eq [OF no cut(11)] m(6) m'(6) by blast
  have ty: "ty' = ty" using cut(2) by simp
  show ?thesis
  proof (rule signed_content.equality)
    show "sc_outpoints (signed_content tx i ty) = sc_outpoints (signed_content tx' i' ty')"
      using prev_msg_decode [OF wf prev [unfolded ty]]
      by (cases "is_anyone_can_pay ty") (simp_all only: ty signed_content_def Let_def signed_content.simps if_True if_False simp_thms)
    show "sc_sequences (signed_content tx i ty) = sc_sequences (signed_content tx' i' ty')"
      using seq_msg_decode [OF seq [unfolded ty]]
      by (cases "is_anyone_can_pay ty \<or> is_sighash_single ty \<or> is_sighash_none ty")
        (simp_all only: ty signed_content_def Let_def signed_content.simps if_True if_False simp_thms de_Morgan_disj)
    show "sc_sig_ops (signed_content tx i ty) = sc_sig_ops (signed_content tx' i' ty')"
    proof (cases "is_anyone_can_pay ty \<or> \<not> tx_version tx < 1")
      case False
      then have "map in_sig_op_count (inputs tx) = map in_sig_op_count (inputs tx')"
        using ops ty by (simp only: sigops_msg_def if_False option.inject simp_thms de_Morgan_disj not_not)
      then show ?thesis
        by (simp only: ty cut(1) signed_content_def Let_def signed_content.simps)
    qed (simp only: ty cut(1) signed_content_def Let_def signed_content.simps if_True)
    show "sc_outputs (signed_content tx i ty) = sc_outputs (signed_content tx' i' ty')"
      unfolding ty by (rule outs_msg_decode [OF wf cut(1) outs [unfolded ty]])
    show "sc_payload (signed_content tx i ty) = sc_payload (signed_content tx' i' ty')"
      using payload_msg_decode [OF wf pay cut(9)] by (simp only: signed_content_def Let_def signed_content.simps)
    show "sc_input (signed_content tx i ty) = sc_input (signed_content tx' i' ty')" by (rule cut(6))
  qed (simp_all add: signed_content_def Let_def cut(1,8,9,10) ty)
qed


section \<open>Signing does not change what is signed\<close>

definition strip_sigs :: "transaction_input \<Rightarrow> transaction_input" where
  "strip_sigs i = i\<lparr>in_sigs := [], in_sig_count := 0, in_signature := [], in_sig_len := 0, in_sighash_type := 0\<rparr>"

definition unsigned_part :: "transaction \<Rightarrow> transaction" where
  "unsigned_part tx = tx\<lparr>tx_inputs := map strip_sigs (tx_inputs tx)\<rparr>"

lemma strip_sigs_fields [simp]:
  "in_outpoint (strip_sigs i) = in_outpoint i" "in_sequence (strip_sigs i) = in_sequence i"
  "in_sig_op_count (strip_sigs i) = in_sig_op_count i" "in_utxo (strip_sigs i) = in_utxo i"
  by (simp_all add: strip_sigs_def)

lemma unsigned_part_fields:
  "inputs (unsigned_part tx) = map strip_sigs (inputs tx)" "outputs (unsigned_part tx) = outputs tx"
  "is_native (unsigned_part tx) = is_native tx"
  by (simp_all add: unsigned_part_def inputs_def outputs_def is_native_def take_map)

lemma unsigned_part_msgs:
  "prev_msg (unsigned_part tx) ty = prev_msg tx ty" "seq_msg (unsigned_part tx) ty = seq_msg tx ty"
  "sigops_msg (unsigned_part tx) ty = sigops_msg tx ty" "outs_msg (unsigned_part tx) ty i = outs_msg tx ty i"
  "payload_msg (unsigned_part tx) = payload_msg tx"
proof -
  have "outpoint_bytes \<circ> strip_sigs = outpoint_bytes" by (simp add: fun_eq_iff outpoint_bytes_def)
  then show "prev_msg (unsigned_part tx) ty = prev_msg tx ty"
    by (simp only: prev_msg_def unsigned_part_fields list.map_comp)
  have "(\<lambda>i. to_le 8 (in_sequence i)) \<circ> strip_sigs = (\<lambda>i. to_le 8 (in_sequence i))" by (simp add: fun_eq_iff)
  then show "seq_msg (unsigned_part tx) ty = seq_msg tx ty"
    by (simp only: seq_msg_def unsigned_part_fields list.map_comp)
  have "in_sig_op_count \<circ> strip_sigs = in_sig_op_count" by (simp add: fun_eq_iff)
  then show "sigops_msg (unsigned_part tx) ty = sigops_msg tx ty"
    by (simp only: sigops_msg_def unsigned_part_fields list.map_comp)
  have f: "tx_num_outputs (unsigned_part tx) = tx_num_outputs tx" "tx_outputs (unsigned_part tx) = tx_outputs tx"
    "tx_version (unsigned_part tx) = tx_version tx" "tx_payload (unsigned_part tx) = tx_payload tx"
    "tx_payload_len (unsigned_part tx) = tx_payload_len tx"
    by (simp_all add: unsigned_part_def)
  show "outs_msg (unsigned_part tx) ty i = outs_msg tx ty i" "payload_msg (unsigned_part tx) = payload_msg tx"
    by (simp_all only: outs_msg_def payload_msg_def unsigned_part_fields f)
qed

lemma reuse_unsigned: "sighash_reuse_compute (unsigned_part tx) ty = sighash_reuse_compute tx ty"
proof -
  have "tx_version (unsigned_part tx) = tx_version tx" by (simp add: unsigned_part_def)
  then show ?thesis
    by (simp only: sighash_reuse_compute_def previous_outputs_hash_eq sequences_hash_eq sig_op_counts_hash_eq
        outputs_hash_eq payload_hash_eq unsigned_part_msgs)
qed

lemma sighash_unsigned:
  assumes "i < length (tx_inputs tx)"
  shows "calculate_sighash (unsigned_part tx) i ty = calculate_sighash tx i ty"
proof -
  have f: "tx_inputs (unsigned_part tx) ! i = strip_sigs (tx_inputs tx ! i)"
    "tx_version (unsigned_part tx) = tx_version tx" "tx_locktime (unsigned_part tx) = tx_locktime tx"
    "tx_subnetwork_id (unsigned_part tx) = tx_subnetwork_id tx" "tx_gas (unsigned_part tx) = tx_gas tx"
    using assms by (simp_all add: unsigned_part_def)
  have "outpoint_bytes (strip_sigs x) = outpoint_bytes x" for x by (simp add: outpoint_bytes_def)
  then show ?thesis
    by (simp only: calculate_sighash_eq sighash_preimage_def Let_def f unsigned_part_msgs strip_sigs_fields)
qed

lemma unsigned_upd_in:
  assumes "\<And>x. strip_sigs (f x) = strip_sigs x"
  shows "unsigned_part (upd_in i f tx) = unsigned_part tx"
  using assms by (simp add: unsigned_part_def upd_in_def map_update) (metis list_update_id map_update)

section \<open>Properties\<close>

text \<open>
  C20: The signature hash of an input slot is the keyed BLAKE2b-256 of RFC 7693 (the specification of KasBlakeSpec) over
  exactly the bytes the consensus rules list, for every signature type: version, sub-hashes (zero where the type leaves
  the part open, and with the signature-operation counts only up to version 0), the input's outpoint, script, amount and
  sequence, lock time, subnetwork, gas, payload hash and type byte; for an index past the array there is no hash, the
  code panics. All sub-hashes and the final digest use the one key \<open>TransactionSigningHash\<close>, as the comment at that
  constant says; the file header and the comments at the sub-hashes name a key of their own for each, which the code
  does not use.
\<close>

theorem calculate_sighash_spec:
  assumes "wf_transaction tx"
  shows "sighash_or_panic tx i ty =
      (if i < MAX_INPUTS then Some (rfc_blake2b 32 (map of_char ''TransactionSigningHash'') (sighash_preimage tx i ty)) else None) \<and>
    (i < MAX_INPUTS \<longrightarrow> length (calculate_sighash tx i ty) = 32)"
proof -
  have key: "map of_char ''TransactionSigningHash'' = KEY_SIGNING_HASH" by (simp add: KEY_SIGNING_HASH_def)
  show ?thesis
    using assms unfolding key blake2b_keyed_def [symmetric] by (simp add: sighash_or_panic_def calculate_sighash_eq wf_transaction_def)
qed

theorem calculate_sighash_spec_witness:
  "sighash_or_panic transaction_new 0 ShAll =
      Some (rfc_blake2b 32 (map of_char ''TransactionSigningHash'') (sighash_preimage transaction_new 0 ShAll)) \<and>
    sighash_or_panic transaction_new 32 ShAll = None"
  using calculate_sighash_spec [OF wf_transaction_new, of 0 ShAll] calculate_sighash_spec [OF wf_transaction_new, of 32 ShAll]
  by (simp add: size_limits)

text \<open>
  C4: A signature hash commits to what the user saw. If two transactions give the same signature hash,
  then they agree on everything the signature type covers (and on the type): version, outpoints,
  sequences, the signed input's script and amount, outputs with their covenant bindings, lock time,
  subnetwork, gas and payload. The only way out is a collision of the keyed hash, or an all-zero
  digest, among the messages hashed for these two signature hashes. No two fields run into each other.
\<close>

theorem sighash_commits:
  assumes "wf_transaction tx" "wf_transaction tx'" "i < tx_num_inputs tx" "i' < tx_num_inputs tx'"
    and "calculate_sighash tx i ty = calculate_sighash tx' i' ty'"
  shows "signed_content tx i ty = signed_content tx' i' ty' \<or>
    hash_clash (hashed tx i ty) (hashed tx' i' ty')"
  using content_bound [OF assms] by blast

theorem sighash_commits_witness:
  "signed_content (transaction_new\<lparr>tx_num_inputs := 2\<rparr>) 0 ShAll = signed_content (transaction_new\<lparr>tx_num_inputs := 2\<rparr>) 1 ShAll \<or>
   hash_clash (hashed (transaction_new\<lparr>tx_num_inputs := 2\<rparr>) 0 ShAll) (hashed (transaction_new\<lparr>tx_num_inputs := 2\<rparr>) 1 ShAll)"
proof (rule sighash_commits)
  let ?t = "transaction_new\<lparr>tx_num_inputs := 2\<rparr>"
  have "wf_transaction transaction_new" by simp
  then show wf: "wf_transaction ?t" "wf_transaction ?t" by (simp_all add: wf_transaction_def size_limits)
  have "tx_inputs ?t ! 0 = tx_inputs ?t ! 1" by (simp add: transaction_new_def size_limits)
  then show "calculate_sighash ?t 0 ShAll = calculate_sighash ?t 1 ShAll"
    by (simp add: calculate_sighash_eq sighash_preimage_def outs_msg_def is_sighash_none_def is_sighash_single_def)
qed simp_all

text \<open>
  And it commits to nothing else: transactions and inputs that agree on the contents the signature
  type covers have the same signature hash, whatever else they differ in (for instance the other
  inputs under AnyOneCanPay, the outputs under None, the other outputs under Single).
\<close>

theorem sighash_depends_only:
  assumes "wf_transaction tx" "wf_transaction tx'" "i < tx_num_inputs tx" "i' < tx_num_inputs tx'"
    and "signed_content tx i ty = signed_content tx' i' ty'"
  shows "calculate_sighash tx i ty = calculate_sighash tx' i' ty'"
  using preimage_determined [OF assms] by (simp add: calculate_sighash_eq)

theorem sighash_depends_only_witness:
  "calculate_sighash (transaction_new\<lparr>tx_num_inputs := 1\<rparr>) 0 ShNone =
   calculate_sighash (transaction_new\<lparr>tx_num_inputs := 1, tx_num_outputs := 5\<rparr>) 0 ShNone"
proof (rule sighash_depends_only)
  have "wf_transaction transaction_new" by simp
  then show "wf_transaction (transaction_new\<lparr>tx_num_inputs := 1\<rparr>)"
    "wf_transaction (transaction_new\<lparr>tx_num_inputs := 1, tx_num_outputs := 5\<rparr>)"
    by (simp_all add: wf_transaction_def size_limits)
  show "signed_content (transaction_new\<lparr>tx_num_inputs := 1\<rparr>) 0 ShNone =
      signed_content (transaction_new\<lparr>tx_num_inputs := 1, tx_num_outputs := 5\<rparr>) 0 ShNone"
    by (simp add: signed_content_def Let_def inputs_def is_sighash_none_def)
qed simp_all

text \<open>
  The cached sub-hashes stay valid while signatures are stored: a cache computed before signing
  gives, on a transaction that differs only in its signature fields, the hash computed from scratch,
  which is also the hash of the unsigned transaction.
\<close>

theorem cached_sighash_valid:
  assumes "unsigned_part tx = unsigned_part tx'" "i < length (tx_inputs tx)"
  shows "calculate_sighash_cached tx' i ty (sighash_reuse_compute tx ty) = calculate_sighash tx' i ty \<and>
    calculate_sighash tx' i ty = calculate_sighash tx i ty"
proof -
  have "length (tx_inputs tx') = length (tx_inputs tx)"
    using arg_cong [OF assms(1), of "\<lambda>t. length (tx_inputs t)"] by (simp add: unsigned_part_def)
  moreover have "sighash_reuse_compute tx ty = sighash_reuse_compute tx' ty"
    using reuse_unsigned [of tx ty] reuse_unsigned [of tx' ty] assms(1) by simp
  ultimately show ?thesis
    using sighash_unsigned [of i tx ty] sighash_unsigned [of i tx' ty] assms
    by (simp add: calculate_sighash_def)
qed

theorem cached_sighash_valid_witness:
  "calculate_sighash_cached (upd_in 0 (in_sig_count_update (\<lambda>_. 1)) transaction_new) 3 ShAll
     (sighash_reuse_compute transaction_new ShAll) = calculate_sighash transaction_new 3 ShAll"
proof -
  have "unsigned_part transaction_new = unsigned_part (upd_in 0 (in_sig_count_update (\<lambda>_. 1)) transaction_new)"
    by (rule unsigned_upd_in [symmetric]) (simp add: strip_sigs_def)
  from cached_sighash_valid [OF this, of 3 ShAll] show ?thesis by (simp add: transaction_new_def size_limits)
qed

end
