(* ===== verification/KasBip32.thy ===== *)
theory KasBip32
  imports KasPrelude
begin

text \<open>
  Hierarchical key derivation (core/src/wallet/bip32.rs, hmac.rs): the constant-time 256-bit
  arithmetic modulo the group order, HMAC-SHA512, master and child keys, public derivation, the
  chain-parent cache and the address scans. The sha2 and k256 crates are parameters, the fields of
  \<open>crypto\<close>; \<open>crypto_ok\<close> states what the code relies on of them (documented behaviour of k256:
  which scalars it accepts, that public keys are the multiples of the generator, that compressed
  points decode to themselves). Wiping of secrets is not modelled.
\<close>

section \<open>Results\<close>

datatype bip32_error = InvalidKey | InvalidChainCode | CurveError | EmptyPath

text \<open>Rust's \<open>?\<close> on a pure result.\<close>

definition tryR :: "'e + 'a \<Rightarrow> ('a \<Rightarrow> 'e + 'b) \<Rightarrow> 'e + 'b" where
  "tryR m f = (case m of Inl e \<Rightarrow> Inl e | Inr x \<Rightarrow> f x)"

lemma tryR_simps [simp]: "tryR (Inl e) f = Inl e" "tryR (Inr x) f = f x"
  by (simp_all add: tryR_def)

lemma tryR_eq_Inr: "tryR m f = Inr y \<longleftrightarrow> (\<exists>x. m = Inr x \<and> f x = Inr y)"
  by (simp add: tryR_def split: sum.split)

section \<open>Big-endian integers\<close>

definition be_value :: "bytes \<Rightarrow> nat" where
  "be_value bs = le_value (rev bs)"

definition to_be :: "nat \<Rightarrow> 'a::len word \<Rightarrow> bytes" where
  "to_be k w = rev (to_le k w)"

lemma be_value_Nil [simp]: "be_value [] = 0"
  by (simp add: be_value_def)

lemma le_value_append: "le_value (xs @ ys) = le_value xs + 256 ^ length xs * le_value ys"
  by (induction xs) (simp_all add: algebra_simps)

lemma be_value_small [simp]: "be_value (replicate n 0 @ [k]) = unat k"
proof -
  have "le_value (replicate n 0) = 0" by (induction n) simp_all
  then show ?thesis by (simp add: be_value_def)
qed

lemma be_value_Cons: "be_value (b # bs) = unat b * 256 ^ length bs + be_value bs"
  by (simp add: be_value_def le_value_append)

lemma be_value_bound: "be_value bs < 256 ^ length bs"
  using le_value_bound [of "rev bs"] by (simp add: be_value_def)

lemma be_value_inj: "length as = length bs \<Longrightarrow> be_value as = be_value bs \<Longrightarrow> as = bs"
  using le_bytes_le_value [of "rev as"] le_bytes_le_value [of "rev bs"]
  by (simp add: be_value_def)

lemma length_to_be [simp]: "length (to_be k w) = k"
  by (simp add: to_be_def)

section \<open>Arithmetic modulo the group order\<close>

definition SECP256K1_ORDER :: bytes where
  "SECP256K1_ORDER =
     [0xFF, 0xFF, 0xFF, 0xFF, 0xFF, 0xFF, 0xFF, 0xFF, 0xFF, 0xFF, 0xFF, 0xFF, 0xFF, 0xFF, 0xFF, 0xFE,
      0xBA, 0xAE, 0xDC, 0xE6, 0xAF, 0x48, 0xA0, 0x3B, 0xBF, 0xD2, 0x5E, 0x8C, 0xD0, 0x36, 0x41, 0x41]"

definition is_zero :: "bytes \<Rightarrow> bool" where
  "is_zero a \<longleftrightarrow> fold (\<lambda>b acc. acc OR b) a 0 = 0"

text \<open>\<open>for i in (0..32).rev()\<close>: from the least significant byte up, with the borrow carried along.\<close>

definition sub_limb :: "u8 \<Rightarrow> u8 \<Rightarrow> u16 \<Rightarrow> u16" where
  "sub_limb x y borrow = ucast x - ucast y - borrow"

definition ct_less_than :: "bytes \<Rightarrow> bytes \<Rightarrow> bool" where
  "ct_less_than a b =
     (fold (\<lambda>i borrow. drop_bit 8 (sub_limb (a ! i) (b ! i) borrow) AND 1) (rev [0..<32]) 0 = 1)"

definition is_less_than_order :: "bytes \<Rightarrow> bool" where
  "is_less_than_order a = ct_less_than a SECP256K1_ORDER"

definition ct_sub_order :: "bytes \<Rightarrow> bytes" where
  "ct_sub_order a =
     fst (fold (\<lambda>i (out, borrow). let d = sub_limb (a ! i) (SECP256K1_ORDER ! i) borrow
                                 in (out[i := ucast (d AND 0xFF)], drop_bit 8 d AND 1))
       (rev [0..<32]) (replicate 32 0, 0))"

definition add_limbs :: "bytes \<Rightarrow> bytes \<Rightarrow> bytes \<times> u16" where
  "add_limbs a b =
     fold (\<lambda>i (result, carry). let sum = ucast (a ! i) + ucast (b ! i) + carry
                              in (result[i := ucast (sum AND 0xFF)], drop_bit 8 sum))
       (rev [0..<32]) (replicate 32 0, 0)"

definition scalar_add_mod_n :: "bytes \<Rightarrow> bytes \<Rightarrow> bytes" where
  "scalar_add_mod_n a b =
     (case add_limbs a b of (result, carry) \<Rightarrow>
        let reduced = ct_sub_order result;
            needs_reduce = (carry > 0 \<or> \<not> ct_less_than result SECP256K1_ORDER)
        in map (\<lambda>i. if needs_reduce then reduced ! i else result ! i) [0..<32])"

subsection \<open>It is arithmetic\<close>

definition secp_order :: nat where
  "secp_order = 0xFFFFFFFFFFFFFFFFFFFFFFFFFFFFFFFEBAAEDCE6AF48A03BBFD25E8CD0364141"

lemma secp_order_bytes: "be_value SECP256K1_ORDER = secp_order" "length SECP256K1_ORDER = 32"
  by (simp_all add: be_value_def SECP256K1_ORDER_def secp_order_def)

lemma rev_upt_Suc: "n > 0 \<Longrightarrow> rev [0..<n] = (n - 1) # rev [0..<n - 1]"
  by (cases n) simp_all

lemma fold_rev_upt_induct:
  assumes "P n s" "\<And>k s. k < n \<Longrightarrow> P (Suc k) s \<Longrightarrow> P k (f k s)"
  shows "P 0 (fold f (rev [0..<n]) s)"
  using assms
proof (induction n arbitrary: s)
  case (Suc n)
  have "P n (f n s)" using Suc.prems by simp
  then have "P 0 (fold f (rev [0..<n]) (f n s))" using Suc.prems(2) by (intro Suc.IH) auto
  then show ?case by simp
qed simp

lemma sub_limb_value:
  assumes "borrow = 0 \<or> borrow = 1"
  shows "unat (sub_limb x y borrow) =
    (if unat x < unat y + unat borrow then 65536 + unat x - unat y - unat borrow else unat x - unat y - unat borrow)"
proof -
  have b: "unat x < 256" "unat y < 256" by (rule unat_u8_less)+
  have u: "unat (ucast x :: u16) = unat x" "unat (ucast y :: u16) = unat y"
    using b by (simp_all add: unsigned_ucast_eq take_bit_eq_mod)
  have d: "unat (ucast x - ucast y :: u16) = (if unat x < unat y then 65536 + unat x - unat y else unat x - unat y)"
    using b by (auto simp: unat_sub_if' u)
  show ?thesis
    unfolding sub_limb_def using assms b
    by (auto simp: unat_sub_if' d u)
qed

lemma low_byte: "unat (ucast (d AND 0xFF) :: u8) = unat d mod 256" for d :: u16
proof -
  have "unat (d AND 0xFF) = take_bit 8 (unat d)"
    by (simp add: unsigned_and_eq take_bit_eq_mask mask_numeral)
  then show ?thesis by (simp add: unsigned_ucast_eq take_bit_eq_mod)
qed

lemma high_byte: "unat (drop_bit 8 d) = unat d div 256" for d :: u16
  using unat_u16_less [of d] by (simp only: unsigned_drop_bit_eq) (simp add: drop_bit_eq_div take_bit_eq_mod)

lemma sub_limb_cases:
  assumes "borrow = 0 \<or> borrow = 1"
  shows "drop_bit 8 (sub_limb x y borrow) AND 1 = (if unat x < unat y + unat borrow then 1 else 0)"
    "unat (ucast (sub_limb x y borrow AND 0xFF) :: u8) + unat y + unat borrow =
       unat x + (if unat x < unat y + unat borrow then 256 else 0)"
proof -
  have b: "unat x < 256" "unat y < 256" "unat borrow \<le> 1" using assms by (auto intro: unat_u8_less)
  have "unat (drop_bit 8 (sub_limb x y borrow) AND 1) = unat (sub_limb x y borrow) div 256 mod 2"
    unfolding high_byte [symmetric] by (simp only: unsigned_and_eq) (simp add: and_one_eq)
  moreover have "unat (sub_limb x y borrow) div 256 mod 2 = (if unat x < unat y + unat borrow then 1 else 0)"
  proof (cases "unat x < unat y + unat borrow")
    case True
    then have "unat (sub_limb x y borrow) div 256 = 255"
      using b by (intro div_nat_eqI) (simp_all add: sub_limb_value [OF assms])
    then show ?thesis using True by simp
  qed (use b in \<open>simp add: sub_limb_value [OF assms]\<close>)
  ultimately show "drop_bit 8 (sub_limb x y borrow) AND 1 = (if unat x < unat y + unat borrow then 1 else 0)"
    by (simp add: word_unat_eq_iff)
  show "unat (ucast (sub_limb x y borrow AND 0xFF) :: u8) + unat y + unat borrow =
       unat x + (if unat x < unat y + unat borrow then 256 else 0)"
  proof (cases "unat x < unat y + unat borrow")
    case True
    then have "unat (sub_limb x y borrow) = 255 * 256 + (256 + unat x - unat y - unat borrow)"
      using b by (simp add: sub_limb_value [OF assms])
    then have "unat (sub_limb x y borrow) mod 256 = 256 + unat x - unat y - unat borrow"
      using True b by (simp only: mod_mult_self3) simp
    then show ?thesis using True b by (simp add: low_byte)
  qed (use b in \<open>simp add: low_byte sub_limb_value [OF assms]\<close>)
qed

lemma be_value_drop:
  "k < length a \<Longrightarrow> be_value (drop k a) = unat (a ! k) * 256 ^ (length a - Suc k) + be_value (drop (Suc k) a)"
  by (simp add: Cons_nth_drop_Suc [symmetric] be_value_Cons)

lemma limb_less:
  fixes x y A C B :: nat
  assumes "A < B" "C < B"
  shows "x * B + A < y * B + C \<longleftrightarrow> x < y + (if A < C then 1 else 0)"
proof (cases x y rule: linorder_cases)
  case less
  then have "Suc x * B \<le> y * B" by (intro mult_le_mono1) simp
  then show ?thesis using assms less by simp
next
  case greater
  then have "Suc y * B \<le> x * B" by (intro mult_le_mono1) simp
  then show ?thesis using assms greater by simp
qed simp

lemma ct_less_than_correct:
  assumes "length a = 32" "length b = 32"
  shows "ct_less_than a b \<longleftrightarrow> be_value a < be_value b"
proof -
  let ?P = "\<lambda>k borrow :: u16. borrow = (if be_value (drop k a) < be_value (drop k b) then 1 else 0)"
  have "?P 0 (fold (\<lambda>i borrow. drop_bit 8 (sub_limb (a ! i) (b ! i) borrow) AND 1) (rev [0..<32]) 0)"
  proof (rule fold_rev_upt_induct [where P = ?P])
    show "?P 32 0" using assms by simp
    fix k borrow assume k: "k < 32" and p: "?P (Suc k) borrow"
    have bound: "be_value (drop (Suc k) xs) < 256 ^ (32 - Suc k)" if "length xs = 32" for xs
      using be_value_bound [of "drop (Suc k) xs"] that by simp
    have "unat borrow = (if be_value (drop (Suc k) a) < be_value (drop (Suc k) b) then 1 else 0)"
      using p by simp
    then show "?P k (drop_bit 8 (sub_limb (a ! k) (b ! k) borrow) AND 1)"
      using assms k p limb_less [OF bound [OF assms(1)] bound [OF assms(2)], of "unat (a ! k)" "unat (b ! k)"]
      by (simp add: sub_limb_cases be_value_drop)
  qed
  then show ?thesis by (simp add: ct_less_than_def)
qed

lemma ct_sub_order_correct:
  assumes "length a = 32"
  shows "length (ct_sub_order a) = 32"
    "\<exists>w. be_value (ct_sub_order a) + secp_order = be_value a + w * 256 ^ 32"
proof -
  define f where "f = (\<lambda>i (out :: bytes, borrow). let d = sub_limb (a ! i) (SECP256K1_ORDER ! i) borrow
      in (out[i := (ucast (d AND 0xFF) :: u8)], drop_bit 8 d AND 1))"
  let ?N = SECP256K1_ORDER
  let ?P = "\<lambda>k (out :: bytes, borrow :: u16). length out = 32 \<and> (borrow = 0 \<or> borrow = 1) \<and>
    be_value (drop k out) + be_value (drop k ?N) = be_value (drop k a) + unat borrow * 256 ^ (32 - k)"
  have "?P 0 (fold f (rev [0..<32]) (replicate 32 0, 0))"
  proof (rule fold_rev_upt_induct [where P = ?P])
    show "?P 32 (replicate 32 0, 0)" using assms by (simp add: secp_order_bytes)
    fix k s assume k: "k < 32" and p: "?P (Suc k) s"
    obtain out borrow where s: "s = (out, borrow)" by (cases s)
    define d where "d = sub_limb (a ! k) (?N ! k) borrow"
    define B where "B = (256 :: nat) ^ (31 - k)"
    define w :: nat where "w = (if unat (a ! k) < unat (?N ! k) + unat borrow then 1 else 0)"
    have b: "borrow = 0 \<or> borrow = 1" "length out = 32"
      and rec: "be_value (drop (Suc k) out) + be_value (drop (Suc k) ?N) = be_value (drop (Suc k) a) + unat borrow * B"
      using p by (simp_all add: s B_def)
    have limb: "unat (ucast (d AND 0xFF) :: u8) + unat (?N ! k) + unat borrow = unat (a ! k) + 256 * w"
      and next': "drop_bit 8 d AND 1 = of_nat w"
      using sub_limb_cases [OF b(1), of "a ! k" "?N ! k"] by (simp_all add: d_def w_def)
    have "(unat (ucast (d AND 0xFF) :: u8) + unat (?N ! k) + unat borrow) * B = (unat (a ! k) + 256 * w) * B"
      by (simp only: limb)
    then have "be_value (drop k (out[k := ucast (d AND 0xFF)])) + be_value (drop k ?N) = be_value (drop k a) + w * (256 * B)"
      using k b rec assms by (simp add: be_value_drop secp_order_bytes B_def algebra_simps)
    moreover have "256 * B = 256 ^ (32 - k)"
      using k unfolding B_def by (simp add: Suc_diff_le flip: power_Suc)
    moreover have "w = 0 \<or> w = 1" by (simp add: w_def)
    ultimately show "?P k (f k s)"
      using b(2) by (auto simp: f_def s Let_def next' simp flip: d_def)
  qed
  then obtain out borrow where r: "fold f (rev [0..<32]) (replicate 32 0, 0) = (out, borrow)" "?P 0 (out, borrow)"
    by (cases "fold f (rev [0..<32]) (replicate 32 0, 0)") auto
  then have "ct_sub_order a = out" unfolding ct_sub_order_def f_def [symmetric] by simp
  with r(2) show "length (ct_sub_order a) = 32"
    "\<exists>w. be_value (ct_sub_order a) + secp_order = be_value a + w * 256 ^ 32"
    by (auto simp: secp_order_bytes)
qed

lemma add_limbs_correct:
  assumes "length a = 32" "length b = 32" "add_limbs a b = (r, c)"
  shows "length r = 32" "unat c \<le> 1" "be_value r + unat c * 256 ^ 32 = be_value a + be_value b"
proof -
  define f where "f = (\<lambda>i (result :: bytes, carry). let sum = ucast (a ! i) + ucast (b ! i) + carry :: u16
      in (result[i := (ucast (sum AND 0xFF) :: u8)], drop_bit 8 sum))"
  let ?P = "\<lambda>k (out :: bytes, carry :: u16). length out = 32 \<and> unat carry \<le> 1 \<and>
    be_value (drop k out) + unat carry * 256 ^ (32 - k) = be_value (drop k a) + be_value (drop k b)"
  have "?P 0 (fold f (rev [0..<32]) (replicate 32 0, 0))"
  proof (rule fold_rev_upt_induct [where P = ?P])
    show "?P 32 (replicate 32 0, 0)" using assms by simp
    fix k s assume k: "k < 32" and p: "?P (Suc k) s"
    obtain out carry where s: "s = (out, carry)" by (cases s)
    define d where "d = ucast (a ! k) + ucast (b ! k) + carry"
    define B where "B = (256 :: nat) ^ (31 - k)"
    have c: "unat carry \<le> 1" "length out = 32"
      and rec: "be_value (drop (Suc k) out) + unat carry * B = be_value (drop (Suc k) a) + be_value (drop (Suc k) b)"
      using p by (simp_all add: s B_def)
    have u: "unat (ucast x :: u16) = unat x" for x :: u8
      using unat_u8_less [of x] by (simp add: unsigned_ucast_eq take_bit_eq_mod)
    have d: "unat d = unat (a ! k) + unat (b ! k) + unat carry"
      using c(1) unat_u8_less [of "a ! k"] unat_u8_less [of "b ! k"]
      by (simp add: d_def unat_word_ariths u)
    define m q where "m = unat d mod 256" and "q = unat d div 256"
    have "m + q * 256 = unat (a ! k) + unat (b ! k) + unat carry"
      unfolding m_def q_def d [symmetric] by (rule mod_div_mult_eq)
    then have "(m + q * 256) * B = (unat (a ! k) + unat (b ! k) + unat carry) * B" by simp
    then have "be_value (drop k (out[k := ucast (d AND 0xFF)])) + unat (drop_bit 8 d) * (256 * B) = be_value (drop k a) + be_value (drop k b)"
      using k c rec assms
      by (simp add: be_value_drop low_byte high_byte B_def algebra_simps flip: m_def q_def)
    moreover have "256 * B = 256 ^ (32 - k)"
      using k unfolding B_def by (simp add: Suc_diff_le flip: power_Suc)
    moreover have "unat (drop_bit 8 d) \<le> 1"
      using d c(1) unat_u8_less [of "a ! k"] unat_u8_less [of "b ! k"] by (simp add: high_byte)
    ultimately show "?P k (f k s)"
      using c(2) by (simp add: f_def s Let_def flip: d_def)
  qed
  then have "?P 0 (r, c)" using assms(3) unfolding add_limbs_def f_def by simp
  then show "length r = 32" "unat c \<le> 1" "be_value r + unat c * 256 ^ 32 = be_value a + be_value b" by simp_all
qed

lemma reduce_once:
  fixes r red S N M w c :: nat
  assumes "red + N = r + w * M" "r + c * M = S" "c \<le> 1" "S < 2 * N" "N < M" "M < 2 * N" "red < M" "r < M"
    and need: "0 < c \<or> N \<le> r"
  shows "red = S - N \<and> N \<le> S"
proof (cases "c = 0")
  case True
  then have r: "r = S" "N \<le> r" using assms(2) need by simp_all
  have "w = 0"
  proof (rule ccontr)
    assume "w \<noteq> 0"
    then have "1 * M \<le> w * M" by (intro mult_le_mono1) simp
    then show False using assms(1,7) r(2) by linarith
  qed
  then show ?thesis using assms(1) r by simp
next
  case False
  then have c: "c = 1" using assms(3) by simp
  then have r: "r + M = S" using assms(2) by simp
  then have "r < N" using assms(4,5) by linarith
  then have "w \<noteq> 0" using assms(1) by (cases w) auto
  moreover have "w < 2"
  proof (rule ccontr)
    assume "\<not> w < 2"
    then have "2 * M \<le> w * M" by (intro mult_le_mono1) simp
    then show False using assms(1,5,7) by linarith
  qed
  ultimately have "w = 1" by simp
  then show ?thesis using assms(1,5) r by simp
qed

lemma scalar_add_mod_n_correct:
  assumes len: "length a = 32" "length b = 32" and lt: "be_value a < secp_order" "be_value b < secp_order"
  shows "length (scalar_add_mod_n a b) = 32"
    "be_value (scalar_add_mod_n a b) = (be_value a + be_value b) mod secp_order"
proof -
  obtain r c where rc: "add_limbs a b = (r, c)" by (cases "add_limbs a b")
  note add = add_limbs_correct [OF len rc]
  note sub = ct_sub_order_correct [OF add(1)]
  obtain w where w: "be_value (ct_sub_order r) + secp_order = be_value r + w * 256 ^ 32" using sub(2) by blast
  define need where "need \<longleftrightarrow> c > 0 \<or> \<not> be_value r < secp_order"
  have pick: "scalar_add_mod_n a b = (if need then ct_sub_order r else r)"
    using add(1) sub(1)
    by (auto simp: scalar_add_mod_n_def rc Let_def need_def ct_less_than_correct secp_order_bytes
        intro!: nth_equalityI)
  show "length (scalar_add_mod_n a b) = 32" using pick add(1) sub(1) by simp
  have c0: "c > 0 \<longleftrightarrow> 0 < unat c" by (simp add: word_gt_0 unat_gt_0)
  have b32: "be_value (ct_sub_order r) < 256 ^ 32" "be_value r < 256 ^ 32"
    using be_value_bound [of "ct_sub_order r"] be_value_bound [of r] sub(1) add(1) by simp_all
  have order: "secp_order < 256 ^ 32" "256 ^ 32 < 2 * secp_order" by (simp_all add: secp_order_def)
  have s: "be_value a + be_value b < 2 * secp_order" using lt by simp
  show "be_value (scalar_add_mod_n a b) = (be_value a + be_value b) mod secp_order"
  proof (cases need)
    case False
    then have "be_value a + be_value b = be_value r" "be_value r < secp_order"
      using add(3) by (auto simp: need_def c0)
    then show ?thesis using False pick by simp
  next
    case True
    then have "0 < unat c \<or> secp_order \<le> be_value r" by (simp add: need_def c0 not_less)
    from reduce_once [OF w add(3,2) s order b32 this]
    show ?thesis using True pick s by (simp add: le_mod_geq)
  qed
qed

section \<open>The crates and HMAC\<close>

record 'pt crypto =
  cr_sha512 :: "bytes \<Rightarrow> bytes"
  cr_sk_ok :: "bytes \<Rightarrow> bool"            \<comment> \<open>\<open>SecretKey::from_slice\<close> succeeds\<close>
  cr_pubkey :: "bytes \<Rightarrow> bytes"           \<comment> \<open>compressed public key of an accepted key\<close>
  cr_scalar_ok :: "bytes \<Rightarrow> bool"        \<comment> \<open>\<open>ScalarPrimitive::from_slice\<close> succeeds\<close>
  cr_encoded_ok :: "bytes \<Rightarrow> bool"       \<comment> \<open>\<open>EncodedPoint::from_bytes\<close> succeeds\<close>
  cr_decode :: "bytes \<Rightarrow> 'pt option"     \<comment> \<open>\<open>AffinePoint::from_encoded_point\<close>\<close>
  cr_mul_add :: "bytes \<Rightarrow> 'pt \<Rightarrow> 'pt"     \<comment> \<open>\<open>GENERATOR * s + point\<close>\<close>
  cr_is_identity :: "'pt \<Rightarrow> bool"
  cr_encode :: "'pt \<Rightarrow> bytes"

definition HMAC_BLOCK_SIZE :: nat where "HMAC_BLOCK_SIZE = 128"

definition hmac_sha512 :: "(bytes \<Rightarrow> bytes) \<Rightarrow> bytes \<Rightarrow> bytes \<Rightarrow> bytes" where
  "hmac_sha512 sha512 key message =
     (let k_prime = (if length key > HMAC_BLOCK_SIZE then blit (sha512 key) 0 (replicate HMAC_BLOCK_SIZE 0)
                     else blit key 0 (replicate HMAC_BLOCK_SIZE 0));
          inner = sha512 (map (\<lambda>b. b XOR 0x36) k_prime @ message)
      in sha512 (map (\<lambda>b. b XOR 0x5C) k_prime @ inner))"

section \<open>Extended keys\<close>

record xprv =
  xk_key :: bytes
  xk_chain :: bytes
  xk_depth :: u8

record xpub =
  xp_pubkey :: bytes
  xp_chain :: bytes
  xp_depth :: u8

definition HARDENED_BIT :: u32 where "HARDENED_BIT = 0x80000000"

definition is_hardened :: "u32 \<Rightarrow> bool" where
  "is_hardened index \<longleftrightarrow> index AND HARDENED_BIT \<noteq> 0"

definition saturating_incr :: "u8 \<Rightarrow> u8" where
  "saturating_incr d = (if d = 255 then 255 else d + 1)"

definition xprv_to_raw :: "xprv \<Rightarrow> bytes" where
  "xprv_to_raw k = xk_key k @ xk_chain k @ [xk_depth k]"

definition xprv_from_raw :: "bytes \<Rightarrow> xprv" where
  "xprv_from_raw raw = \<lparr>xk_key = take 32 raw, xk_chain = slice 32 32 raw, xk_depth = raw ! 64\<rparr>"

definition public_key_compressed :: "'pt crypto \<Rightarrow> xprv \<Rightarrow> bip32_error + bytes" where
  "public_key_compressed cr k =
     (if cr_sk_ok cr (xk_key k) then Inr (cr_pubkey cr (xk_key k)) else Inl CurveError)"

definition public_key_x_only :: "'pt crypto \<Rightarrow> xprv \<Rightarrow> bip32_error + bytes" where
  "public_key_x_only cr k = tryR (public_key_compressed cr k) (\<lambda>c. Inr (slice 1 32 c))"

definition pubkey_from_raw_key :: "'pt crypto \<Rightarrow> bytes \<Rightarrow> bip32_error + bytes" where
  "pubkey_from_raw_key cr privkey =
     (if cr_sk_ok cr privkey then Inr (slice 1 32 (cr_pubkey cr privkey)) else Inl CurveError)"

definition xpub_x_only :: "xpub \<Rightarrow> bytes" where
  "xpub_x_only k = slice 1 32 (xp_pubkey k)"

definition to_xpub :: "'pt crypto \<Rightarrow> xprv \<Rightarrow> bip32_error + xpub" where
  "to_xpub cr k = tryR (public_key_compressed cr k) (\<lambda>pubkey.
     Inr \<lparr>xp_pubkey = pubkey, xp_chain = xk_chain k, xp_depth = xk_depth k\<rparr>)"

definition BITCOIN_SEED :: bytes where
  "BITCOIN_SEED = [66, 105, 116, 99, 111, 105, 110, 32, 115, 101, 101, 100]"

definition master_key_from_seed :: "'pt crypto \<Rightarrow> bytes \<Rightarrow> bip32_error + xprv" where
  "master_key_from_seed cr seed =
     (let i = hmac_sha512 (cr_sha512 cr) BITCOIN_SEED seed; key = take 32 i; chain = drop 32 i
      in if is_zero key \<or> \<not> is_less_than_order key then Inl InvalidKey
         else if \<not> cr_sk_ok cr key then Inl CurveError
         else Inr \<lparr>xk_key = key, xk_chain = chain, xk_depth = 0\<rparr>)"

section \<open>Child keys\<close>

text \<open>From the HMAC on; the same lines stand in \<open>derive_child\<close> and in \<open>ChainParent::derive\<close>.\<close>

definition child_from_data :: "'pt crypto \<Rightarrow> xprv \<Rightarrow> bytes \<Rightarrow> bip32_error + xprv" where
  "child_from_data cr parent data =
     (let i = hmac_sha512 (cr_sha512 cr) (xk_chain parent) data; il = take 32 i; child_chain = drop 32 i
      in if \<not> is_less_than_order il then Inl InvalidKey
         else (let child_key = scalar_add_mod_n il (xk_key parent)
               in if is_zero child_key then Inl InvalidKey
                  else if \<not> cr_sk_ok cr child_key then Inl CurveError
                  else Inr \<lparr>xk_key = child_key, xk_chain = child_chain,
                             xk_depth = saturating_incr (xk_depth parent)\<rparr>))"

definition derive_child :: "'pt crypto \<Rightarrow> xprv \<Rightarrow> u32 \<Rightarrow> bip32_error + xprv" where
  "derive_child cr parent index =
     tryR (if is_hardened index then Inr ([0x00] @ xk_key parent) else public_key_compressed cr parent)
       (\<lambda>head. child_from_data cr parent (head @ to_be 4 index))"

record chain_parent =
  cp_key :: xprv
  cp_pubkey :: bytes

definition chain_parent_new :: "'pt crypto \<Rightarrow> xprv \<Rightarrow> u32 \<Rightarrow> bip32_error + chain_parent" where
  "chain_parent_new cr account_key index =
     (if is_hardened index then Inl InvalidKey
      else tryR (derive_child cr account_key index) (\<lambda>key.
           tryR (public_key_compressed cr key) (\<lambda>pubkey. Inr \<lparr>cp_key = key, cp_pubkey = pubkey\<rparr>)))"

definition chain_parent_derive :: "'pt crypto \<Rightarrow> chain_parent \<Rightarrow> u32 \<Rightarrow> bip32_error + xprv" where
  "chain_parent_derive cr cp index =
     (if is_hardened index then Inl InvalidKey
      else child_from_data cr (cp_key cp) (cp_pubkey cp @ to_be 4 index))"

record chain_cache =
  cc_acct_src :: bytes
  cc_recv :: chain_parent
  cc_chg :: chain_parent

definition chain_cache_build :: "'pt crypto \<Rightarrow> bytes \<Rightarrow> bip32_error + chain_cache" where
  "chain_cache_build cr acct_raw =
     (let acct = xprv_from_raw acct_raw
      in tryR (chain_parent_new cr acct 0) (\<lambda>recv. tryR (chain_parent_new cr acct 1) (\<lambda>chg.
           Inr \<lparr>cc_acct_src = acct_raw, cc_recv = recv, cc_chg = chg\<rparr>)))"

definition chain_cache_matches :: "chain_cache \<Rightarrow> bytes \<Rightarrow> bool" where
  "chain_cache_matches c acct_raw \<longleftrightarrow> cc_acct_src c = acct_raw"

text \<open>Public derivation: \<open>IL * G + parent\<close>.\<close>

definition derive_child_pub :: "'pt crypto \<Rightarrow> xpub \<Rightarrow> u32 \<Rightarrow> bip32_error + xpub" where
  "derive_child_pub cr parent index =
     (if is_hardened index then Inl InvalidKey
      else (let i = hmac_sha512 (cr_sha512 cr) (xp_chain parent) (xp_pubkey parent @ to_be 4 index);
                il = take 32 i; child_chain = drop 32 i
            in if \<not> is_less_than_order il then Inl InvalidKey
               else if \<not> cr_scalar_ok cr il then Inl InvalidKey
               else if \<not> cr_encoded_ok cr (xp_pubkey parent) then Inl CurveError
               else (case cr_decode cr (xp_pubkey parent) of
                  None \<Rightarrow> Inl CurveError
                | Some parent_point \<Rightarrow>
                    let child = cr_mul_add cr il parent_point
                    in if cr_is_identity cr child then Inl InvalidKey
                       else if length (cr_encode cr child) \<noteq> 33 then Inl CurveError
                       else Inr \<lparr>xp_pubkey = cr_encode cr child, xp_chain = child_chain,
                                  xp_depth = saturating_incr (xp_depth parent)\<rparr>)))"

section \<open>Paths and addresses\<close>

fun derive_steps :: "'pt crypto \<Rightarrow> xprv \<Rightarrow> u32 list \<Rightarrow> bip32_error + xprv" where
  "derive_steps cr current [] = Inr current"
| "derive_steps cr current (index # path) =
     tryR (derive_child cr current index) (\<lambda>child. derive_steps cr child path)"

definition derive_path :: "'pt crypto \<Rightarrow> bytes \<Rightarrow> u32 list \<Rightarrow> bip32_error + xprv" where
  "derive_path cr seed path =
     (if path = [] then Inl EmptyPath
      else tryR (master_key_from_seed cr seed) (\<lambda>current. derive_steps cr current path))"

definition KASPA_ACCOUNT_PATH :: "u32 list" where
  "KASPA_ACCOUNT_PATH = [44 OR HARDENED_BIT, 111111 OR HARDENED_BIT, 0 OR HARDENED_BIT]"

definition KASPA_MULTISIG_ACCOUNT_PATH :: "u32 list" where
  "KASPA_MULTISIG_ACCOUNT_PATH = [45 OR HARDENED_BIT, 111111 OR HARDENED_BIT, 0 OR HARDENED_BIT]"

definition derive_multisig_account_key :: "'pt crypto \<Rightarrow> bytes \<Rightarrow> u32 \<Rightarrow> bip32_error + xprv" where
  "derive_multisig_account_key cr seed account =
     derive_path cr seed (KASPA_MULTISIG_ACCOUNT_PATH[2 := account OR HARDENED_BIT])"

definition resolve_cosigner_index :: "'pt crypto \<Rightarrow> xprv \<Rightarrow> bytes list \<Rightarrow> nat \<Rightarrow> u8 option" where
  "resolve_cosigner_index cr ms_account_key cosigner_pubkeys n =
     (case public_key_compressed cr ms_account_key of
        Inl _ \<Rightarrow> None
      | Inr ours \<Rightarrow> map_option of_nat
          (List.find (\<lambda>i. cosigner_pubkeys ! i = ours) [0..<min n (length cosigner_pubkeys)]))"

definition derive_account_key :: "'pt crypto \<Rightarrow> bytes \<Rightarrow> bip32_error + xprv" where
  "derive_account_key cr seed = derive_path cr seed KASPA_ACCOUNT_PATH"

definition derive_address_key :: "'pt crypto \<Rightarrow> xprv \<Rightarrow> u16 \<Rightarrow> bip32_error + xprv" where
  "derive_address_key cr account_key index =
     tryR (derive_child cr account_key 0) (\<lambda>change_key. derive_child cr change_key (ucast index))"

definition derive_change_key :: "'pt crypto \<Rightarrow> xprv \<Rightarrow> u16 \<Rightarrow> bip32_error + xprv" where
  "derive_change_key cr account_key index =
     tryR (derive_child cr account_key 1) (\<lambda>internal_key. derive_child cr internal_key (ucast index))"

definition derive_path_for_index :: "'pt crypto \<Rightarrow> bytes \<Rightarrow> u16 \<Rightarrow> bip32_error + xprv" where
  "derive_path_for_index cr seed index =
     derive_path cr seed [44 OR HARDENED_BIT, 111111 OR HARDENED_BIT, 0 OR HARDENED_BIT, 0, ucast index]"

definition ADDR_SCAN_DEPTH :: nat where "ADDR_SCAN_DEPTH = 20"
definition SIGN_MATCH_DEPTH :: nat where "SIGN_MATCH_DEPTH = 100"

text \<open>\<open>if let Ok(key) = .. \{ if let Ok(pk) = key.public_key_x_only() \{ .. \} \}\<close>\<close>

definition x_only_of :: "'pt crypto \<Rightarrow> bip32_error + xprv \<Rightarrow> bytes option" where
  "x_only_of cr r = (case tryR r (public_key_x_only cr) of Inl _ \<Rightarrow> None | Inr pk \<Rightarrow> Some pk)"

definition find_address_index_for_pubkey :: "'pt crypto \<Rightarrow> xprv \<Rightarrow> bytes \<Rightarrow> (u16 \<times> bool) option" where
  "find_address_index_for_pubkey cr account_key target =
     (case List.find (\<lambda>idx. x_only_of cr (derive_address_key cr account_key (of_nat idx)) = Some target)
             [0..<SIGN_MATCH_DEPTH] of
        Some idx \<Rightarrow> Some (of_nat idx, False)
      | None \<Rightarrow>
          (case List.find (\<lambda>idx. x_only_of cr (derive_change_key cr account_key (of_nat idx)) = Some target)
                  [0..<SIGN_MATCH_DEPTH] of
             Some idx \<Rightarrow> Some (of_nat idx, True)
           | None \<Rightarrow> None))"

subsection \<open>The precomputed table\<close>

record addr_table =
  at_entries :: "(bool \<times> u16 \<times> bytes) list"
  at_filled :: nat

definition table_push :: "bool \<times> u16 \<times> bytes \<Rightarrow> addr_table \<Rightarrow> addr_table" where
  "table_push e tbl = tbl\<lparr>at_entries := (at_entries tbl)[at_filled tbl := e], at_filled := at_filled tbl + 1\<rparr>"

definition table_chain :: "'pt crypto \<Rightarrow> xprv \<Rightarrow> bool \<Rightarrow> addr_table \<Rightarrow> addr_table" where
  "table_chain cr account_key is_change tbl =
     (case chain_parent_new cr account_key (if is_change then 1 else 0) of
        Inl _ \<Rightarrow> tbl
      | Inr chain \<Rightarrow>
          fold (\<lambda>idx tbl. case x_only_of cr (chain_parent_derive cr chain (ucast (of_nat idx :: u16))) of
                  None \<Rightarrow> tbl | Some pk \<Rightarrow> table_push (is_change, of_nat idx, pk) tbl)
            [0..<ADDR_SCAN_DEPTH] tbl)"

definition table_build :: "'pt crypto \<Rightarrow> xprv \<Rightarrow> addr_table" where
  "table_build cr account_key =
     table_chain cr account_key True
      (table_chain cr account_key False
        \<lparr>at_entries = replicate (ADDR_SCAN_DEPTH * 2) (False, 0, replicate 32 0), at_filled = 0\<rparr>)"

definition find_by_pubkey :: "addr_table \<Rightarrow> bytes \<Rightarrow> (u16 \<times> bool) option" where
  "find_by_pubkey tbl target =
     map_option (\<lambda>(c, i, pk). (i, c))
       (List.find (\<lambda>(c, i, pk). pk = target) (take (at_filled tbl) (at_entries tbl)))"

section \<open>What the crates promise\<close>

text \<open>
  \<open>mul x\<close> stands for \<open>x\<close> times the generator: k256 accepts exactly the scalars below the group order
  (nonzero for secret keys), encodes points other than the identity in 33 bytes that decode to them,
  and adds points like multiples.
\<close>

definition multiples_ok :: "'pt crypto \<Rightarrow> (nat \<Rightarrow> 'pt) \<Rightarrow> bool" where
  "multiples_ok cr mul \<longleftrightarrow>
     (\<forall>x. cr_is_identity cr (mul x) \<longleftrightarrow> x mod secp_order = 0) \<and>
     (\<forall>k. cr_sk_ok cr k \<longrightarrow> cr_pubkey cr k = cr_encode cr (mul (be_value k))) \<and>
     (\<forall>s x. cr_scalar_ok cr s \<longrightarrow> cr_mul_add cr s (mul x) = mul ((be_value s + x) mod secp_order)) \<and>
     (\<forall>x. x mod secp_order \<noteq> 0 \<longrightarrow> length (cr_encode cr (mul x)) = 33 \<and>
        cr_encoded_ok cr (cr_encode cr (mul x)) \<and> cr_decode cr (cr_encode cr (mul x)) = Some (mul x))"

definition crypto_ok :: "'pt crypto \<Rightarrow> bool" where
  "crypto_ok cr \<longleftrightarrow> (\<forall>x. length (cr_sha512 cr x) = 64) \<and>
     (\<forall>k. cr_sk_ok cr k \<longleftrightarrow> length k = 32 \<and> 0 < be_value k \<and> be_value k < secp_order) \<and>
     (\<forall>k. cr_scalar_ok cr k \<longleftrightarrow> length k = 32 \<and> be_value k < secp_order) \<and>
     (\<exists>mul. multiples_ok cr mul)"

text \<open>An instance: the integers modulo the order, encoded as a prefix byte and 32 bytes.\<close>

definition sample_crypto :: "nat crypto" where
  "sample_crypto = \<lparr>cr_sha512 = (\<lambda>x. replicate 64 (of_nat (length x))),
     cr_sk_ok = (\<lambda>k. length k = 32 \<and> 0 < be_value k \<and> be_value k < secp_order),
     cr_pubkey = (\<lambda>k. 2 # rev (le_bytes 32 (be_value k))),
     cr_scalar_ok = (\<lambda>k. length k = 32 \<and> be_value k < secp_order),
     cr_encoded_ok = (\<lambda>b. length b = 33),
     cr_decode = (\<lambda>b. Some (be_value (tl b))),
     cr_mul_add = (\<lambda>s p. (be_value s + p) mod secp_order),
     cr_is_identity = (\<lambda>p. p = 0),
     cr_encode = (\<lambda>p. 2 # rev (le_bytes 32 p))\<rparr>"

lemma sample_crypto_ok: "crypto_ok sample_crypto"
proof -
  have order: "secp_order < 256 ^ 32" by (simp add: secp_order_def)
  have dec: "be_value (rev (le_bytes 32 x)) = x" if "x < secp_order" for x
    using that order by (simp add: be_value_def le_value_le_bytes)
  have lt: "x mod secp_order < secp_order" for x by (simp add: secp_order_def)
  have "multiples_ok sample_crypto (\<lambda>x. x mod secp_order)"
    unfolding multiples_ok_def sample_crypto_def
    by (simp add: dec [OF lt] mod_add_right_eq)
  then show ?thesis unfolding crypto_ok_def by (auto simp: sample_crypto_def)
qed

lemma is_zero_iff: "is_zero a \<longleftrightarrow> be_value a = 0"
proof -
  have "fold (\<lambda>b acc. acc OR b) a c = 0 \<longleftrightarrow> c = 0 \<and> (\<forall>b \<in> set a. b = 0)" for c
    by (induction a arbitrary: c) (auto simp: or_eq_0_iff)
  moreover have "be_value a = 0 \<longleftrightarrow> (\<forall>b \<in> set a. b = 0)"
    by (induction a) (auto simp: be_value_Cons unat_eq_zero)
  ultimately show ?thesis by (simp add: is_zero_def)
qed

lemma length_hmac: "crypto_ok cr \<Longrightarrow> length (hmac_sha512 (cr_sha512 cr) k m) = 64"
  by (simp add: hmac_sha512_def Let_def crypto_ok_def)

lemma is_less_than_order_iff: "length a = 32 \<Longrightarrow> is_less_than_order a \<longleftrightarrow> be_value a < secp_order"
  by (simp add: is_less_than_order_def ct_less_than_correct secp_order_bytes)

text \<open>A usable extended key.\<close>

definition xprv_ok :: "'pt crypto \<Rightarrow> xprv \<Rightarrow> bool" where
  "xprv_ok cr k \<longleftrightarrow> cr_sk_ok cr (xk_key k) \<and> length (xk_chain k) = 32"

lemma child_from_data_cases:
  fixes cr :: "'pt crypto" and data :: bytes
  assumes "crypto_ok cr" "xprv_ok cr parent"
  defines "i \<equiv> hmac_sha512 (cr_sha512 cr) (xk_chain parent) data"
  defines "s \<equiv> (be_value (take 32 i) + be_value (xk_key parent)) mod secp_order"
  shows "child_from_data cr parent data =
    (if be_value (take 32 i) < secp_order \<and> s \<noteq> 0
     then Inr \<lparr>xk_key = scalar_add_mod_n (take 32 i) (xk_key parent), xk_chain = drop 32 i,
               xk_depth = saturating_incr (xk_depth parent)\<rparr>
     else Inl InvalidKey)"
    "be_value (take 32 i) < secp_order \<Longrightarrow> be_value (scalar_add_mod_n (take 32 i) (xk_key parent)) = s"
    "be_value (take 32 i) < secp_order \<Longrightarrow> length (scalar_add_mod_n (take 32 i) (xk_key parent)) = 32"
    "length (take 32 i) = 32" "length (drop 32 i) = 32"
proof -
  have len: "length i = 64" unfolding i_def by (rule length_hmac [OF assms(1)])
  then show l: "length (take 32 i) = 32" "length (drop 32 i) = 32" by simp_all
  have k: "length (xk_key parent) = 32" "be_value (xk_key parent) < secp_order"
    using assms(1,2) by (simp_all add: xprv_ok_def crypto_ok_def)
  show a: "be_value (scalar_add_mod_n (take 32 i) (xk_key parent)) = s"
    "length (scalar_add_mod_n (take 32 i) (xk_key parent)) = 32" if "be_value (take 32 i) < secp_order"
    using scalar_add_mod_n_correct [OF l(1) k(1) that k(2)] by (simp_all add: s_def)
  have "s < secp_order" by (simp add: s_def secp_order_def)
  then have "cr_sk_ok cr (scalar_add_mod_n (take 32 i) (xk_key parent))"
    if "be_value (take 32 i) < secp_order" "s \<noteq> 0"
    using assms(1) a [OF that(1)] that by (simp add: crypto_ok_def)
  then show "child_from_data cr parent data =
    (if be_value (take 32 i) < secp_order \<and> s \<noteq> 0
     then Inr \<lparr>xk_key = scalar_add_mod_n (take 32 i) (xk_key parent), xk_chain = drop 32 i,
               xk_depth = saturating_incr (xk_depth parent)\<rparr>
     else Inl InvalidKey)"
    using a l(1)
    by (auto simp: child_from_data_def Let_def is_less_than_order_iff is_zero_iff simp flip: i_def)
qed

lemma child_ok:
  assumes "crypto_ok cr" "xprv_ok cr parent" "child_from_data cr parent data = Inr child"
  shows "xprv_ok cr child"
proof -
  define i where "i = hmac_sha512 (cr_sha512 cr) (xk_chain parent) data"
  define s where "s = (be_value (take 32 i) + be_value (xk_key parent)) mod secp_order"
  note c = child_from_data_cases [OF assms(1,2), of data, folded i_def, folded s_def]
  have "s < secp_order" by (simp add: s_def secp_order_def)
  then show ?thesis
    using c(1-3,5) assms(1,3) by (auto simp: xprv_ok_def crypto_ok_def split: if_splits)
qed

lemma derive_child_ok:
  "crypto_ok cr \<Longrightarrow> xprv_ok cr parent \<Longrightarrow> derive_child cr parent index = Inr child \<Longrightarrow> xprv_ok cr child"
  by (auto simp: derive_child_def tryR_eq_Inr intro: child_ok)

lemma xprv_pubkey: "xprv_ok cr k \<Longrightarrow> public_key_compressed cr k = Inr (cr_pubkey cr (xk_key k))"
  by (simp add: xprv_ok_def public_key_compressed_def)

lemma derive_pub_consistent:
  assumes ok: "crypto_ok cr" "xprv_ok cr parent" and index: "\<not> is_hardened index"
  shows "tryR (to_xpub cr parent) (\<lambda>p. derive_child_pub cr p index) = tryR (derive_child cr parent index) (to_xpub cr)"
proof -
  obtain mul where mul: "multiples_ok cr mul" using ok(1) by (auto simp: crypto_ok_def)
  define pk where "pk = cr_pubkey cr (xk_key parent)"
  define i where "i = hmac_sha512 (cr_sha512 cr) (xk_chain parent) (pk @ to_be 4 index)"
  define x where "x = be_value (xk_key parent)"
  define s where "s = (be_value (take 32 i) + x) mod secp_order"
  note c = child_from_data_cases [OF ok, of "pk @ to_be 4 index", folded i_def x_def, folded s_def]
  have sk: "cr_sk_ok cr (xk_key parent)" using ok(2) by (simp add: xprv_ok_def)
  have x: "x mod secp_order \<noteq> 0" and pkx: "pk = cr_encode cr (mul x)"
    using sk ok(1) mul by (simp_all add: crypto_ok_def multiples_ok_def x_def pk_def)
  have dec: "cr_encoded_ok cr pk" "cr_decode cr pk = Some (mul x)"
    using mul x by (simp_all add: multiples_ok_def pkx)
  have lhs: "tryR (to_xpub cr parent) (\<lambda>p. derive_child_pub cr p index) =
      derive_child_pub cr \<lparr>xp_pubkey = pk, xp_chain = xk_chain parent, xp_depth = xk_depth parent\<rparr> index"
    using sk by (simp add: to_xpub_def public_key_compressed_def pk_def)
  have rhs: "derive_child cr parent index = child_from_data cr parent (pk @ to_be 4 index)"
    using index sk by (simp add: derive_child_def public_key_compressed_def pk_def)
  show ?thesis
  proof (cases "be_value (take 32 i) < secp_order")
    case False
    then show ?thesis
      unfolding lhs rhs using c(1,4) index
      by (simp add: derive_child_pub_def Let_def is_less_than_order_iff flip: i_def)
  next
    case True
    then have sc: "cr_scalar_ok cr (take 32 i)" "is_less_than_order (take 32 i)"
      using c(4) ok(1) by (simp_all add: crypto_ok_def is_less_than_order_iff)
    then have child: "cr_mul_add cr (take 32 i) (mul x) = mul s" using mul by (simp add: multiples_ok_def s_def)
    have s: "s mod secp_order = s" "s < secp_order" by (simp_all add: s_def secp_order_def)
    then have ident: "cr_is_identity cr (mul s) \<longleftrightarrow> s = 0" and enc: "s \<noteq> 0 \<Longrightarrow> length (cr_encode cr (mul s)) = 33"
      using mul by (simp_all add: multiples_ok_def)
    have key: "cr_sk_ok cr (scalar_add_mod_n (take 32 i) (xk_key parent))" if "s \<noteq> 0"
      using c(2,3) [OF True] that s ok(1) by (simp add: crypto_ok_def)
    then have pub: "cr_pubkey cr (scalar_add_mod_n (take 32 i) (xk_key parent)) = cr_encode cr (mul s)" if "s \<noteq> 0"
      using c(2) [OF True] mul that by (simp add: multiples_ok_def)
    show ?thesis
      unfolding lhs rhs using True c(1) index sc dec child ident enc key pub
      by (auto simp: derive_child_pub_def Let_def to_xpub_def public_key_compressed_def simp flip: i_def)
  qed
qed

section \<open>Chain parents and the address table\<close>

lemma not_hardened [simp]: "\<not> is_hardened (ucast (w :: u16))" "\<not> is_hardened 0" "\<not> is_hardened 1"
proof -
  have "(ucast w :: u32) AND 2 ^ 31 = 0"
  proof (rule bit_eqI)
    fix n
    have "bit w n \<Longrightarrow> n < 16" by (drule bit_imp_le_length) simp
    then have "\<not> (bit (ucast w :: u32) n \<and> bit (2 ^ 31 :: u32) n)"
      unfolding bit_exp_iff by (auto simp: bit_ucast_iff)
    then show "bit ((ucast w :: u32) AND 2 ^ 31) n \<longleftrightarrow> bit (0 :: u32) n"
      unfolding bit_and_iff by simp
  qed
  then show "\<not> is_hardened (ucast w)" by (simp add: is_hardened_def HARDENED_BIT_def)
  show "\<not> is_hardened 0" "\<not> is_hardened 1" by (simp_all add: is_hardened_def HARDENED_BIT_def)
qed

lemma chain_parent_equiv:
  assumes "\<not> is_hardened c" "\<not> is_hardened j"
  shows "tryR (chain_parent_new cr acct c) (\<lambda>cp. chain_parent_derive cr cp j) =
    tryR (derive_child cr acct c) (\<lambda>k. derive_child cr k j)"
proof (cases "derive_child cr acct c")
  case (Inl e)
  then show ?thesis using assms by (simp add: chain_parent_new_def)
next
  case (Inr k)
  then show ?thesis
    using assms
    by (cases "public_key_compressed cr k")
      (simp_all add: chain_parent_new_def chain_parent_derive_def derive_child_def)
qed

lemma address_key_chain:
  "derive_address_key cr acct i = tryR (chain_parent_new cr acct 0) (\<lambda>cp. chain_parent_derive cr cp (ucast i))"
  "derive_change_key cr acct i = tryR (chain_parent_new cr acct 1) (\<lambda>cp. chain_parent_derive cr cp (ucast i))"
  by (simp_all add: chain_parent_equiv derive_address_key_def derive_change_key_def)

text \<open>The key of a chain position, and the first position of a key within a depth.\<close>

definition chain_key :: "'pt crypto \<Rightarrow> xprv \<Rightarrow> bool \<Rightarrow> nat \<Rightarrow> bytes option" where
  "chain_key cr acct is_change idx =
     x_only_of cr (if is_change then derive_change_key cr acct (of_nat idx) else derive_address_key cr acct (of_nat idx))"

definition scan_chains :: "'pt crypto \<Rightarrow> xprv \<Rightarrow> nat \<Rightarrow> bytes \<Rightarrow> (u16 \<times> bool) option" where
  "scan_chains cr acct depth target =
     (case List.find (\<lambda>idx. chain_key cr acct False idx = Some target) [0..<depth] of
        Some idx \<Rightarrow> Some (of_nat idx, False)
      | None \<Rightarrow> map_option (\<lambda>idx. (of_nat idx, True))
          (List.find (\<lambda>idx. chain_key cr acct True idx = Some target) [0..<depth]))"

lemma find_address_scan: "find_address_index_for_pubkey cr acct target = scan_chains cr acct SIGN_MATCH_DEPTH target"
  by (auto simp: find_address_index_for_pubkey_def scan_chains_def chain_key_def split: option.split)

lemma scan_chains_sound:
  assumes "scan_chains cr acct depth target = Some (i, c)" "depth \<le> 65536"
  shows "unat i < depth \<and> chain_key cr acct c (unat i) = Some target"
proof -
  have "unat (of_nat idx :: u16) = idx" if "idx < depth" for idx
    using that assms(2) by (simp add: unat_of_nat)
  then show ?thesis
    using assms(1) by (auto simp: scan_chains_def find_Some_iff split: option.splits)
qed

lemma scan_chains_complete:
  assumes "scan_chains cr acct depth target = None" "idx < depth"
  shows "chain_key cr acct c idx \<noteq> Some target"
  using assms by (cases c) (auto simp: scan_chains_def find_None_iff split: option.splits)

definition chain_entries :: "'pt crypto \<Rightarrow> xprv \<Rightarrow> bool \<Rightarrow> nat list \<Rightarrow> (bool \<times> u16 \<times> bytes) list" where
  "chain_entries cr acct c is = List.map_filter (\<lambda>idx. map_option (\<lambda>pk. (c, of_nat idx, pk)) (chain_key cr acct c idx)) is"

lemma find_append: "List.find P (xs @ ys) = (case List.find P xs of None \<Rightarrow> List.find P ys | Some x \<Rightarrow> Some x)"
  by (induction xs) auto

lemma find_chain_entries:
  "List.find (\<lambda>(c, i, pk). pk = t) (chain_entries cr acct c is) =
     map_option (\<lambda>idx. (c, of_nat idx, t)) (List.find (\<lambda>idx. chain_key cr acct c idx = Some t) is)"
  by (induction "is") (auto simp: chain_entries_def List.map_filter_simps split: option.split)

definition table_list :: "addr_table \<Rightarrow> (bool \<times> u16 \<times> bytes) list" where
  "table_list tbl = take (at_filled tbl) (at_entries tbl)"

lemma table_push_list:
  assumes "at_filled tbl < length (at_entries tbl)"
  shows "table_list (table_push e tbl) = table_list tbl @ [e]"
    "at_filled (table_push e tbl) = Suc (at_filled tbl)"
    "length (at_entries (table_push e tbl)) = length (at_entries tbl)"
  using assms by (simp_all add: table_push_def table_list_def take_Suc_conv_app_nth)

lemma fold_table_push:
  fixes g :: "nat \<Rightarrow> bytes option" and c :: bool
  assumes "at_filled tbl + length is \<le> length (at_entries tbl)"
  defines "t' \<equiv> fold (\<lambda>idx tbl. case g idx of None \<Rightarrow> tbl | Some pk \<Rightarrow> table_push (c, of_nat idx, pk) tbl) is tbl"
  defines "es \<equiv> List.map_filter (\<lambda>idx. map_option (\<lambda>pk. (c, of_nat idx, pk)) (g idx)) is"
  shows "at_filled t' = at_filled tbl + length es \<and> length (at_entries t') = length (at_entries tbl) \<and>
    table_list t' = table_list tbl @ es"
  using assms(1) unfolding t'_def es_def
proof (induction "is" arbitrary: tbl)
  case (Cons idx "is")
  show ?case
  proof (cases "g idx")
    case None
    have "at_filled tbl + length is \<le> length (at_entries tbl)" using Cons.prems by simp
    from Cons.IH [OF this] show ?thesis using None by (simp add: List.map_filter_simps)
  next
    case (Some pk)
    let ?t = "table_push (c, of_nat idx, pk) tbl"
    have room: "at_filled tbl < length (at_entries tbl)" "at_filled ?t + length is \<le> length (at_entries ?t)"
      using Cons.prems by (simp_all add: table_push_def)
    show ?thesis
      using Cons.IH [OF room(2)] Some table_push_list [OF room(1), of "(c, of_nat idx, pk)"]
      by (simp add: List.map_filter_simps)
  qed
qed (simp add: List.map_filter_simps)

lemma table_chain_entries:
  fixes cr :: "'pt crypto" and acct :: xprv and c :: bool
  assumes "at_filled tbl + ADDR_SCAN_DEPTH \<le> length (at_entries tbl)"
  defines "t' \<equiv> table_chain cr acct c tbl"
  shows "at_filled t' = at_filled tbl + length (chain_entries cr acct c [0..<ADDR_SCAN_DEPTH]) \<and>
    length (at_entries t') = length (at_entries tbl) \<and>
    table_list t' = table_list tbl @ chain_entries cr acct c [0..<ADDR_SCAN_DEPTH]"
proof (cases "chain_parent_new cr acct (if c then 1 else 0)")
  case (Inl e)
  then have "chain_key cr acct c idx = None" for idx
    by (cases c) (simp_all add: chain_key_def address_key_chain x_only_of_def)
  then have "chain_entries cr acct c is = []" for "is"
    by (induction "is") (simp_all add: chain_entries_def List.map_filter_simps)
  then show ?thesis using Inl by (simp add: t'_def table_chain_def)
next
  case (Inr cp)
  then have "x_only_of cr (chain_parent_derive cr cp (ucast (of_nat idx :: u16))) = chain_key cr acct c idx" for idx
    by (cases c) (simp_all add: chain_key_def address_key_chain)
  then show ?thesis
    using fold_table_push [of tbl "[0..<ADDR_SCAN_DEPTH]" c "chain_key cr acct c"] assms(1) Inr
    by (simp add: t'_def table_chain_def chain_entries_def)
qed

lemma length_chain_entries: "length (chain_entries cr acct c is) \<le> length is"
  by (induction "is") (auto simp: chain_entries_def List.map_filter_simps split: option.split)

lemma table_lookup: "find_by_pubkey (table_build cr acct) target = scan_chains cr acct ADDR_SCAN_DEPTH target"
proof -
  let ?t0 = "\<lparr>at_entries = replicate (ADDR_SCAN_DEPTH * 2) (False, 0, replicate 32 0), at_filled = 0\<rparr>"
  let ?e = "\<lambda>c. chain_entries cr acct c [0..<ADDR_SCAN_DEPTH]"
  define t1 where "t1 = table_chain cr acct False ?t0"
  have t1: "at_filled t1 = length (?e False)" "length (at_entries t1) = ADDR_SCAN_DEPTH * 2"
    "table_list t1 = ?e False"
    using table_chain_entries [of ?t0 cr acct False] by (simp_all add: t1_def table_list_def [of ?t0])
  have "at_filled t1 + ADDR_SCAN_DEPTH \<le> length (at_entries t1)"
    using t1 length_chain_entries [of cr acct False "[0..<ADDR_SCAN_DEPTH]"] by simp
  from table_chain_entries [OF this, of cr acct True]
  have "table_list (table_build cr acct) = ?e False @ ?e True"
    by (simp add: table_build_def t1 flip: t1_def)
  then show ?thesis
    by (simp add: find_by_pubkey_def scan_chains_def find_append find_chain_entries flip: table_list_def,
        simp add: find_append find_chain_entries option.map_comp comp_def split: option.split)
qed

section \<open>What derivation yields\<close>

lemma saturating_incr_value: "unat (saturating_incr d) = min 255 (Suc (unat d))"
proof (cases "d = 255")
  case False
  then have "unat d \<noteq> 255" by (simp add: word_unat_eq_iff)
  then have "unat d < 255" using unat_u8_less [of d] by linarith
  then show ?thesis using False by (simp add: saturating_incr_def unat_word_ariths)
qed (simp add: saturating_incr_def)

lemma child_depth: "child_from_data cr parent data = Inr k \<Longrightarrow> xk_depth k = saturating_incr (xk_depth parent)"
  by (auto simp: child_from_data_def Let_def split: if_splits)

lemma derive_child_error: "derive_child cr parent index = Inl e \<Longrightarrow> e \<noteq> EmptyPath"
  by (auto simp: derive_child_def tryR_def child_from_data_def public_key_compressed_def Let_def
      split: sum.splits if_splits)

lemma derive_steps_yields:
  assumes "crypto_ok cr"
  shows "xprv_ok cr k \<Longrightarrow> case derive_steps cr k path of
      Inr k' \<Rightarrow> xprv_ok cr k' \<and> unat (xk_depth k') = min 255 (unat (xk_depth k) + length path)
    | Inl e \<Rightarrow> e \<noteq> EmptyPath"
proof (induction path arbitrary: k)
  case Nil
  then show ?case using unat_u8_less [of "xk_depth k"] by simp
next
  case (Cons index path)
  show ?case
  proof (cases "derive_child cr k index")
    case (Inl e)
    then show ?thesis using derive_child_error by simp
  next
    case (Inr c)
    then have ok: "xprv_ok cr c" by (rule derive_child_ok [OF assms Cons.prems])
    have "xk_depth c = saturating_incr (xk_depth k)"
      using Inr by (auto simp: derive_child_def tryR_eq_Inr intro: child_depth)
    then have "min 255 (unat (xk_depth c) + length path) = min 255 (unat (xk_depth k) + length (index # path))"
      by (simp add: saturating_incr_value)
    then show ?thesis using Cons.IH [OF ok] Inr by (simp split: sum.splits)
  qed
qed

lemma master_key_yields:
  assumes "crypto_ok cr"
  shows "case master_key_from_seed cr seed of Inr k \<Rightarrow> xprv_ok cr k \<and> xk_depth k = 0 | Inl e \<Rightarrow> e \<noteq> EmptyPath"
  using length_hmac [OF assms] by (simp add: master_key_from_seed_def Let_def xprv_ok_def)

section \<open>A sample key\<close>

lemma xprv_raw_roundtrip:
  "length (xk_key k) = 32 \<Longrightarrow> length (xk_chain k) = 32 \<Longrightarrow> xprv_from_raw (xprv_to_raw k) = k"
  by (simp add: xprv_from_raw_def xprv_to_raw_def slice_def nth_append)

definition sample_xprv :: xprv where
  "sample_xprv = \<lparr>xk_key = replicate 31 0 @ [1], xk_chain = replicate 32 2, xk_depth = 3\<rparr>"

lemma sample_xprv_ok: "xprv_ok sample_crypto sample_xprv"
  by (simp add: xprv_ok_def sample_crypto_def sample_xprv_def secp_order_def)

lemma sample_child: "\<exists>c. child_from_data sample_crypto sample_xprv data = Inr c"
proof -
  have hmac: "hmac_sha512 (cr_sha512 sample_crypto) (xk_chain sample_xprv) data = replicate 64 192"
    by (simp add: hmac_sha512_def Let_def sample_crypto_def sample_xprv_def HMAC_BLOCK_SIZE_def)
  have "replicate 32 192 = 192 # replicate 31 (192 :: u8)" by (simp flip: replicate_Suc)
  then have "be_value (replicate 32 192) < 192 * 256 ^ 31 + 256 ^ 31"
    using be_value_bound [of "replicate 31 192"] by (simp add: be_value_Cons)
  then have "be_value (replicate 32 192) + 1 < secp_order" by (simp add: secp_order_def)
  moreover have "be_value (xk_key sample_xprv) = 1" by (simp add: sample_xprv_def)
  ultimately show ?thesis
    using child_from_data_cases(1) [OF sample_crypto_ok sample_xprv_ok, of data]
    by (simp add: hmac)
qed

lemma sample_cache: "\<exists>cache. chain_cache_build sample_crypto (xprv_to_raw sample_xprv) = Inr cache"
proof -
  have new: "\<exists>cp. chain_parent_new sample_crypto sample_xprv c = Inr cp" if nh: "\<not> is_hardened c" for c
  proof -
    obtain k where k: "derive_child sample_crypto sample_xprv c = Inr k"
      using sample_child [of "cr_pubkey sample_crypto (xk_key sample_xprv) @ to_be 4 c"] nh xprv_pubkey [OF sample_xprv_ok]
      by (auto simp: derive_child_def)
    then show ?thesis
      using nh xprv_pubkey [OF derive_child_ok [OF sample_crypto_ok sample_xprv_ok k]]
      by (simp add: chain_parent_new_def)
  qed
  have "xprv_from_raw (xprv_to_raw sample_xprv) = sample_xprv"
    by (rule xprv_raw_roundtrip) (simp_all add: sample_xprv_def)
  then show ?thesis
    using new [of 0] new [of 1] by (auto simp: chain_cache_build_def Let_def)
qed

lemma be_value_replicate: "255 * be_value (replicate n b) + unat b = unat b * 256 ^ n"
  by (induction n) (simp_all add: be_value_Cons algebra_simps)

lemma sample_path: "\<exists>k. derive_path sample_crypto (replicate 64 7) [HARDENED_BIT] = Inr k"
proof -
  let ?key = "replicate 32 (192 :: u8)"
  have hmac: "hmac_sha512 (cr_sha512 sample_crypto) k data = replicate 64 192" if "length k \<le> 128" for k data
    using that by (simp add: hmac_sha512_def Let_def sample_crypto_def HMAC_BLOCK_SIZE_def)
  have v: "be_value ?key = 0xC0C0C0C0C0C0C0C0C0C0C0C0C0C0C0C0C0C0C0C0C0C0C0C0C0C0C0C0C0C0C0C0"
    using be_value_replicate [of 32 192] by simp
  have order: "be_value ?key < secp_order" "(be_value ?key + be_value ?key) mod secp_order \<noteq> 0"
    by (simp_all add: v secp_order_def)
  define m where "m = \<lparr>xk_key = ?key, xk_chain = ?key, xk_depth = (0 :: u8)\<rparr>"
  have ok: "xprv_ok sample_crypto m"
    using order(1) by (simp add: m_def xprv_ok_def sample_crypto_def v)
  have "master_key_from_seed sample_crypto (replicate 64 7) = Inr m"
    using order(1) ok
    by (simp add: master_key_from_seed_def hmac BITCOIN_SEED_def is_zero_iff is_less_than_order_iff v m_def xprv_ok_def Let_def)
  moreover obtain k where "child_from_data sample_crypto m ([0] @ ?key @ to_be 4 HARDENED_BIT) = Inr k"
    using child_from_data_cases(1) [OF sample_crypto_ok ok, of "[0] @ ?key @ to_be 4 HARDENED_BIT"] order
    by (simp add: hmac m_def)
  then have "derive_child sample_crypto m HARDENED_BIT = Inr k"
    by (simp add: derive_child_def is_hardened_def HARDENED_BIT_def m_def)
  ultimately show ?thesis by (simp add: derive_path_def)
qed

text \<open>An instance whose hardened derivations all succeed: every HMAC adds one to the key.\<close>

definition counting_crypto :: "nat crypto" where
  "counting_crypto = sample_crypto\<lparr>cr_sha512 := \<lambda>_. replicate 31 0 @ [1] @ replicate 32 0\<rparr>"

lemma counting_crypto_ok: "crypto_ok counting_crypto"
proof -
  have "multiples_ok counting_crypto mul = multiples_ok sample_crypto mul" for mul
    by (simp add: counting_crypto_def multiples_ok_def)
  then show ?thesis using sample_crypto_ok by (simp add: crypto_ok_def) (simp add: counting_crypto_def)
qed

lemma counting_hmac: "hmac_sha512 (cr_sha512 counting_crypto) k x = replicate 31 0 @ [1] @ replicate 32 0"
  by (simp add: hmac_sha512_def Let_def counting_crypto_def)

lemma counting_steps:
  assumes "list_all is_hardened path" "xprv_ok counting_crypto k" "be_value (xk_key k) + length path < secp_order"
  shows "\<exists>k'. derive_steps counting_crypto k path = Inr k'"
  using assms
proof (induction path arbitrary: k)
  case (Cons i path)
  have one: "be_value (replicate 31 0 @ [1 :: u8]) = 1" by simp
  obtain c where c: "child_from_data counting_crypto k (([0x00] @ xk_key k) @ to_be 4 i) = Inr c"
     "be_value (xk_key c) = be_value (xk_key k) + 1"
    using child_from_data_cases(1,2) [OF counting_crypto_ok Cons.prems(2), of "([0x00] @ xk_key k) @ to_be 4 i"] Cons.prems(3) one
    by (auto simp: counting_hmac)
  have "derive_child counting_crypto k i = Inr c" using c(1) Cons.prems(1) by (simp add: derive_child_def)
  then show ?case
    using Cons.IH [of c] Cons.prems c(2) derive_child_ok [OF counting_crypto_ok Cons.prems(2)] by simp
qed simp

lemma counting_path:
  assumes "list_all is_hardened path" "path \<noteq> []" "length path < 100"
  shows "\<exists>k. derive_path counting_crypto seed path = Inr k"
proof -
  define m where "m = \<lparr>xk_key = replicate 31 0 @ [1 :: u8], xk_chain = replicate 32 (0 :: u8), xk_depth = (0 :: u8)\<rparr>"
  have ok: "xprv_ok counting_crypto m"
    by (simp add: m_def xprv_ok_def counting_crypto_def sample_crypto_def secp_order_def)
  have "master_key_from_seed counting_crypto seed = Inr m"
    using ok by (simp add: master_key_from_seed_def counting_hmac is_zero_iff is_less_than_order_iff m_def xprv_ok_def Let_def secp_order_def)
  moreover have "be_value (xk_key m) + length path < secp_order" using assms(3) by (simp add: m_def secp_order_def)
  ultimately show ?thesis using counting_steps [OF assms(1) ok] assms(2) by (simp add: derive_path_def)
qed

section \<open>Properties\<close>

text \<open>
  C18: Watching and signing agree. For every usable account key and every non-hardened index, deriving
  the public child from the public key gives exactly the public key of the private child, with the
  same chain code and depth, and fails with the same error when the private derivation fails.
\<close>

theorem derive_child_pub_consistent:
  assumes "crypto_ok cr" "xprv_ok cr parent" "\<not> is_hardened index"
  shows "tryR (to_xpub cr parent) (\<lambda>p. derive_child_pub cr p index) =
    tryR (derive_child cr parent index) (to_xpub cr)"
  by (rule derive_pub_consistent [OF assms])

theorem derive_child_pub_consistent_witness:
  "tryR (to_xpub sample_crypto \<lparr>xk_key = replicate 31 0 @ [1], xk_chain = replicate 32 2, xk_depth = 3\<rparr>)
     (\<lambda>p. derive_child_pub sample_crypto p 0) =
   tryR (derive_child sample_crypto \<lparr>xk_key = replicate 31 0 @ [1], xk_chain = replicate 32 2, xk_depth = 3\<rparr> 0)
     (to_xpub sample_crypto)"
proof (rule derive_child_pub_consistent)
  show "xprv_ok sample_crypto \<lparr>xk_key = replicate 31 0 @ [1], xk_chain = replicate 32 2, xk_depth = 3\<rparr>"
    by (simp add: xprv_ok_def sample_crypto_def secp_order_def)
qed (simp_all add: sample_crypto_ok)

text \<open>
  C23: The constant-time key arithmetic is arithmetic: \<open>ct_less_than\<close> compares the 256-bit values,
  and \<open>scalar_add_mod_n\<close> adds two scalars below the group order modulo the order.
\<close>

theorem scalar_arithmetic_spec:
  assumes "length a = 32" "length b = 32"
  shows "(ct_less_than a b \<longleftrightarrow> be_value a < be_value b) \<and>
    (be_value a < secp_order \<and> be_value b < secp_order \<longrightarrow>
       length (scalar_add_mod_n a b) = 32 \<and>
       be_value (scalar_add_mod_n a b) = (be_value a + be_value b) mod secp_order)"
  using ct_less_than_correct [OF assms] scalar_add_mod_n_correct [OF assms] by blast

theorem scalar_arithmetic_spec_witness:
  "ct_less_than (replicate 31 0 @ [5]) (replicate 31 0 @ [7]) \<and>
   be_value (scalar_add_mod_n (replicate 31 0 @ [5]) (replicate 31 0 @ [7])) = 12"
  using scalar_arithmetic_spec [of "replicate 31 0 @ [5]" "replicate 31 0 @ [7]"]
  by (simp add: secp_order_def)

text \<open>
  The shortcuts give the keys of the plain derivation: the cached chain parents of an account key,
  which are used only while they match the raw key they came from, derive exactly the receive and
  change keys, and the precomputed table finds exactly the first chain position, receive chain first,
  within its depth.
\<close>

theorem chain_shortcuts_agree:
  "(chain_cache_build cr acct_raw = Inr cache \<and> chain_cache_matches cache raw \<longrightarrow>
      chain_parent_derive cr (cc_recv cache) (ucast i) = derive_address_key cr (xprv_from_raw raw) i \<and>
      chain_parent_derive cr (cc_chg cache) (ucast i) = derive_change_key cr (xprv_from_raw raw) i) \<and>
   find_by_pubkey (table_build cr acct) target = scan_chains cr acct ADDR_SCAN_DEPTH target"
  using table_lookup [of cr acct target]
  by (auto simp: chain_cache_build_def Let_def chain_cache_matches_def tryR_eq_Inr address_key_chain)

theorem chain_shortcuts_agree_witness:
  "\<exists>cache. chain_cache_build sample_crypto (xprv_to_raw sample_xprv) = Inr cache \<and>
     chain_parent_derive sample_crypto (cc_recv cache) (ucast (5 :: u16)) = derive_address_key sample_crypto sample_xprv 5"
proof -
  obtain cache where "chain_cache_build sample_crypto (xprv_to_raw sample_xprv) = Inr cache"
    using sample_cache by blast
  moreover from this have "chain_cache_matches cache (xprv_to_raw sample_xprv)"
    by (auto simp: chain_cache_build_def chain_cache_matches_def Let_def tryR_eq_Inr)
  ultimately show ?thesis
    using chain_shortcuts_agree [of sample_crypto "xprv_to_raw sample_xprv" cache "xprv_to_raw sample_xprv" 5]
      xprv_raw_roundtrip [of sample_xprv] by (auto simp: sample_xprv_def)
qed

text \<open>
  The search for the address index of a public key misses nothing within its depth and returns no
  wrong position: a result is a position below 100 whose key is the one asked for, and without a
  result no receive or change position below 100 has it.
\<close>

theorem find_address_index_spec:
  "case find_address_index_for_pubkey cr acct target of
     Some (i, c) \<Rightarrow> unat i < 100 \<and> chain_key cr acct c (unat i) = Some target
   | None \<Rightarrow> list_all (\<lambda>idx. chain_key cr acct False idx \<noteq> Some target \<and> chain_key cr acct True idx \<noteq> Some target) [0..<100]"
  using scan_chains_sound [of cr acct SIGN_MATCH_DEPTH target] scan_chains_complete [of cr acct SIGN_MATCH_DEPTH target]
  by (auto simp: find_address_scan SIGN_MATCH_DEPTH_def list_all_iff split: option.split)

text \<open>
  C27: Key derivation yields keys only: whatever the seed and the path, a derived key is a nonzero
  scalar below the group order with a 32-byte chain code, and its depth is the length of the path
  (saturating at 255). An empty path is refused.
\<close>

theorem derive_path_yields_keys:
  assumes "crypto_ok cr"
  shows "case derive_path cr seed path of
      Inr k \<Rightarrow> path \<noteq> [] \<and> xprv_ok cr k \<and> unat (xk_depth k) = min 255 (length path)
    | Inl e \<Rightarrow> path = [] \<and> e = EmptyPath \<or> path \<noteq> [] \<and> e \<noteq> EmptyPath"
proof (cases "path = []")
  case True
  then show ?thesis by (simp add: derive_path_def)
next
  case False
  show ?thesis
  proof (cases "master_key_from_seed cr seed")
    case (Inl e)
    then show ?thesis using False master_key_yields [OF assms, of seed] by (simp add: derive_path_def)
  next
    case (Inr k)
    then show ?thesis
      using False master_key_yields [OF assms, of seed] derive_steps_yields [OF assms, of k path]
      by (simp add: derive_path_def split: sum.splits)
  qed
qed

theorem derive_path_yields_keys_witness:
  "\<exists>k. derive_path sample_crypto (replicate 64 7) [HARDENED_BIT] = Inr k \<and>
       xprv_ok sample_crypto k \<and> unat (xk_depth k) = 1"
proof -
  obtain k where "derive_path sample_crypto (replicate 64 7) [HARDENED_BIT] = Inr k"
    using sample_path by blast
  then show ?thesis
    using derive_path_yields_keys [OF sample_crypto_ok, where seed = "replicate 64 7" and path = "[HARDENED_BIT]"] by simp
qed

end
