(* ===== verification/KasMultisig.thy ===== *)
theory KasMultisig
  imports KasTransaction KasBip32 "HOL-Library.List_Lexorder" "HOL-Library.Multiset"
begin

text \<open>
  Multisig wallet descriptors (core/src/wallet/transaction.rs, \<open>MultisigConfig\<close>): building the redeem
  script of an address from the cosigners' account keys in both schemes (44': the derived keys are
  sorted, 45': the account keys are), recognising a script hash as the wallet's own, and the check for
  outputs that falsely claim to be change. \<open>hash\<close> is \<open>blake2b_hash\<close>, a call of the blake2 crate.
\<close>

section \<open>Insertion sort by swaps\<close>

text \<open>
  The two sorting loops of the file have the same shape: \<open>for i in 1..n \{ let mut j = i; while j > 0
  \{ if entry j-1 > entry j \{ swap; j -= 1 \} else \{ break \} \} \}\<close>, over whatever array holds the entries.
\<close>

fun sift :: "(nat \<Rightarrow> 's \<Rightarrow> bool) \<Rightarrow> (nat \<Rightarrow> 's \<Rightarrow> 's) \<Rightarrow> nat \<Rightarrow> 's \<Rightarrow> 's" where
  "sift out_of_order swap 0 s = s"
| "sift out_of_order swap (Suc j) s =
     (if out_of_order (Suc j) s then sift out_of_order swap j (swap (Suc j) s) else s)"

definition insertion_sort :: "(nat \<Rightarrow> 's \<Rightarrow> bool) \<Rightarrow> (nat \<Rightarrow> 's \<Rightarrow> 's) \<Rightarrow> nat \<Rightarrow> 's \<Rightarrow> 's" where
  "insertion_sort out_of_order swap n s = fold (sift out_of_order swap) [1..<n] s"

text \<open>\<open>xs.swap(j - 1, j)\<close>\<close>

definition swap_prev :: "nat \<Rightarrow> 'a list \<Rightarrow> 'a list" where
  "swap_prev j xs = xs[j - 1 := xs ! j, j := xs ! (j - 1)]"

lemma swap_prev_split: "swap_prev (Suc (length xs)) (xs @ y # x # zs) = xs @ x # y # zs"
  by (simp add: swap_prev_def nth_append list_update_append)

lemma length_swap_prev [simp]: "length (swap_prev j xs) = length xs"
  by (simp add: swap_prev_def)

lemma insort_snoc_greater: "x < y \<Longrightarrow> insort x (ys @ [y]) = insort x ys @ [y]"
  by (induction ys) auto

lemma insort_snoc_le:
  assumes "sorted xs" "\<forall>y \<in> set xs. y \<le> x"
  shows "insort x xs = xs @ [x]"
proof -
  have "sort (insort x xs) = xs @ [x]"
    using assms by (intro properties_for_sort) (simp_all add: sorted_append)
  then show ?thesis using assms(1) by (simp add: sorted_insort sorted_sort_id)
qed

lemma sort_snoc: "insort x (sort xs) = sort (xs @ [x])"
  by (rule properties_for_sort [symmetric]) (simp_all add: sorted_insort)

locale insertion_loop =
  fixes view :: "'s \<Rightarrow> 'k::linorder list"
    and out_of_order :: "nat \<Rightarrow> 's \<Rightarrow> bool"
    and swap :: "nat \<Rightarrow> 's \<Rightarrow> 's"
    and ok :: "'s \<Rightarrow> bool"
  assumes compares: "ok s \<Longrightarrow> Suc j < length (view s) \<Longrightarrow> out_of_order (Suc j) s \<longleftrightarrow> view s ! j > view s ! Suc j"
    and swaps: "ok s \<Longrightarrow> Suc j < length (view s) \<Longrightarrow> ok (swap (Suc j) s) \<and> view (swap (Suc j) s) = swap_prev (Suc j) (view s)"
begin

lemma sift_inserts:
  assumes "ok s" "view s = xs @ x # zs" "sorted xs"
  shows "ok (sift out_of_order swap (length xs) s) \<and>
    view (sift out_of_order swap (length xs) s) = insort x xs @ zs"
  using assms
proof (induction xs arbitrary: s zs rule: rev_induct)
  case (snoc y ys)
  have gt: "out_of_order (Suc (length ys)) s \<longleftrightarrow> x < y"
    using compares [OF snoc.prems(1), of "length ys"] by (simp add: snoc.prems(2) nth_append)
  show ?case
  proof (cases "x < y")
    case True
    have "ok (swap (Suc (length ys)) s)" "view (swap (Suc (length ys)) s) = ys @ x # y # zs"
      using swaps [OF snoc.prems(1), of "length ys"] by (simp_all add: snoc.prems(2) swap_prev_split)
    then show ?thesis
      using snoc.IH [of "swap (Suc (length ys)) s" "y # zs"] snoc.prems(3) gt True
      by (simp add: sorted_append insort_snoc_greater)
  next
    case False
    then have "\<forall>z \<in> set (ys @ [y]). z \<le> x" using snoc.prems(3) by (auto simp: sorted_append)
    then show ?thesis
      using insort_snoc_le [OF snoc.prems(3)] snoc.prems(1,2) gt False by simp
  qed
qed simp

lemma insertion_prefix:
  assumes "ok s" "n \<le> length (view s)"
  shows "ok (insertion_sort out_of_order swap n s) \<and>
    view (insertion_sort out_of_order swap n s) = sort (take n (view s)) @ drop n (view s)"
  using assms(2)
proof (induction n)
  case (Suc n)
  show ?case
  proof (cases "n = 0")
    case True
    then show ?thesis using assms(1) Suc.prems by (cases "view s") (simp_all add: insertion_sort_def)
  next
    case False
    let ?t = "insertion_sort out_of_order swap n s"
    have t: "ok ?t" "view ?t = sort (take n (view s)) @ view s ! n # drop (Suc n) (view s)"
      using Suc by (simp_all add: Cons_nth_drop_Suc)
    have "insertion_sort out_of_order swap (Suc n) s = sift out_of_order swap n ?t"
      using False by (simp add: insertion_sort_def)
    then show ?thesis
      using sift_inserts [OF t(1,2)] Suc.prems by (simp add: sort_snoc take_Suc_conv_app_nth min_def)
  qed
qed (simp add: insertion_sort_def assms(1))

lemma insertion_sorts:
  assumes "ok s" "n = length (view s)"
  shows "ok (insertion_sort out_of_order swap n s)" "view (insertion_sort out_of_order swap n s) = sort (view s)"
  using insertion_prefix [OF assms(1), of n] assms(2) by simp_all

end


section \<open>Configurations\<close>

record kpub_parts =
  kp_depth :: u8
  kp_parent_fp :: bytes
  kp_child_num :: bytes
  kp_chain_code :: bytes
  kp_pubkey :: bytes

record multisig_config =
  mc_m :: u8
  mc_n :: u8
  mc_pubkeys :: "bytes list"
  mc_chain_codes :: "bytes list"
  mc_addr_index :: u32
  mc_v45 :: bool
  mc_cosigner_index :: u8
  mc_chain :: u8
  mc_depth :: bytes
  mc_parent_fp :: "bytes list"
  mc_child_num :: "bytes list"
  mc_script :: bytes
  mc_script_len :: nat
  mc_active :: bool

definition multisig_config_new :: multisig_config where
  "multisig_config_new =
     \<lparr>mc_m = 0, mc_n = 0, mc_pubkeys = replicate MAX_MULTISIG_KEYS (zeros 33),
      mc_chain_codes = replicate MAX_MULTISIG_KEYS (zeros 32), mc_addr_index = 0, mc_v45 = False,
      mc_cosigner_index = 0, mc_chain = 0, mc_depth = zeros MAX_MULTISIG_KEYS,
      mc_parent_fp = replicate MAX_MULTISIG_KEYS (zeros 4),
      mc_child_num = replicate MAX_MULTISIG_KEYS (zeros 4),
      mc_script = zeros MAX_SCRIPT_SIZE, mc_script_len = 0, mc_active = False\<rparr>"

definition set_cosigner :: "nat \<Rightarrow> kpub_parts \<Rightarrow> multisig_config \<Rightarrow> bool \<times> multisig_config" where
  "set_cosigner i parts cfg =
     (if i \<ge> MAX_MULTISIG_KEYS then (False, cfg)
      else (True, cfg\<lparr>mc_pubkeys := (mc_pubkeys cfg)[i := kp_pubkey parts],
                      mc_chain_codes := (mc_chain_codes cfg)[i := kp_chain_code parts],
                      mc_depth := (mc_depth cfg)[i := kp_depth parts],
                      mc_parent_fp := (mc_parent_fp cfg)[i := kp_parent_fp parts],
                      mc_child_num := (mc_child_num cfg)[i := kp_child_num parts]\<rparr>))"

definition slot_empty :: "multisig_config \<Rightarrow> nat \<Rightarrow> bool" where
  "slot_empty cfg i \<longleftrightarrow> i < MAX_MULTISIG_KEYS \<and> mc_pubkeys cfg ! i = zeros 33"

definition has_cosigner :: "multisig_config \<Rightarrow> bytes \<Rightarrow> bytes \<Rightarrow> bool" where
  "has_cosigner cfg pubkey chain_code =
     list_ex (\<lambda>i. \<not> slot_empty cfg i \<and> mc_pubkeys cfg ! i = pubkey \<and> mc_chain_codes cfg ! i = chain_code)
       [0..<MAX_MULTISIG_KEYS]"

definition same_wallet_as :: "multisig_config \<Rightarrow> multisig_config \<Rightarrow> bool" where
  "same_wallet_as a b \<longleftrightarrow>
     mc_v45 a = mc_v45 b \<and> mc_m a = mc_m b \<and> mc_n a = mc_n b \<and> mc_pubkeys a = mc_pubkeys b"

definition label :: "multisig_config \<Rightarrow> bytes \<Rightarrow> nat \<times> bytes" where
  "label cfg buf =
     fold push_checked
       ([48 + mc_m cfg] @ [45, 111, 102, 45] @ [48 + mc_n cfg] @
        (if mc_v45 cfg
         then [32, 52, 53, 39, 32, 83] @ [48 + mc_cosigner_index cfg] @ [47, 67] @ [48 + mc_chain cfg]
         else []))
       (0, buf)"

section \<open>Building the script\<close>

text \<open>\<open>for i in .. \{ match f(i) \{ Ok(x) => out[i] = x, Err(_) => return .. \} \}\<close>\<close>

fun collectR :: "(nat \<Rightarrow> 'e + 'a) \<Rightarrow> nat list \<Rightarrow> 'e + 'a list" where
  "collectR f [] = Inr []"
| "collectR f (i # is) = tryR (f i) (\<lambda>x. tryR (collectR f is) (\<lambda>xs. Inr (x # xs)))"

definition cosigner_child :: "'pt crypto \<Rightarrow> multisig_config \<Rightarrow> nat \<Rightarrow> bip32_error + bytes" where
  "cosigner_child cr cfg i =
     (let parent = \<lparr>xp_pubkey = mc_pubkeys cfg ! i, xp_chain = mc_chain_codes cfg ! i, xp_depth = 3\<rparr>
      in tryR (if mc_v45 cfg then derive_child_pub cr parent (ucast (mc_cosigner_index cfg)) else Inr parent)
           (\<lambda>base. tryR (derive_child_pub cr base (if mc_v45 cfg then ucast (mc_chain cfg) else 0))
           (\<lambda>receive_chain. tryR (derive_child_pub cr receive_chain (mc_addr_index cfg))
           (\<lambda>addr_xpub. Inr (xpub_x_only addr_xpub)))))"

definition repeats :: "nat \<Rightarrow> bytes list \<Rightarrow> bool" where
  "repeats n xs = list_ex (\<lambda>i. list_ex (\<lambda>j. xs ! i = xs ! j) [Suc i..<n]) [0..<n]"

text \<open>The comparison of step 2: the first of the 32 bytes that differs decides.\<close>

definition child_greater :: "bytes \<Rightarrow> bytes \<Rightarrow> bool" where
  "child_greater a b =
     (case List.find (\<lambda>k. a ! k \<noteq> b ! k) [0..<32] of None \<Rightarrow> False | Some k \<Rightarrow> a ! k > b ! k)"

definition sort_children :: "nat \<Rightarrow> bytes list \<Rightarrow> bytes list" where
  "sort_children n xs = insertion_sort (\<lambda>j xs. child_greater (xs ! (j - 1)) (xs ! j)) swap_prev n xs"

definition script_of_keys :: "u8 \<Rightarrow> u8 \<Rightarrow> bytes list \<Rightarrow> bytes" where
  "script_of_keys m_op n_op keys = [m_op] @ concat (map (\<lambda>pk. OP_DATA_32 # pk) keys) @ [n_op, OP_CHECKMULTISIG]"

definition build_script :: "'pt crypto \<Rightarrow> multisig_config \<Rightarrow> nat \<times> multisig_config" where
  "build_script cr cfg =
     (let n = unat (mc_n cfg)
      in if mc_m cfg = 0 \<or> mc_n cfg = 0 \<or> mc_m cfg > mc_n cfg \<or> n > MAX_MULTISIG_KEYS then (0, cfg)
         else (case collectR (cosigner_child cr cfg) [0..<n] of
            Inl _ \<Rightarrow> (0, cfg)
          | Inr child_xonly \<Rightarrow>
              if repeats n child_xonly then (0, cfg)
              else
                (let keys = (if mc_v45 cfg then child_xonly else sort_children n child_xonly);
                     len = 1 + n * 33 + 1 + 1
                 in if len > MAX_SCRIPT_SIZE then (0, cfg)
                    else
                      (let out = script_of_keys (OP_1 + mc_m cfg - 1) (OP_1 + mc_n cfg - 1) keys
                       in (length out, cfg\<lparr>mc_script := blit out 0 (mc_script cfg), mc_script_len := length out\<rparr>)))))"

text \<open>
  \<open>0x50 + self.m\<close> is written with wrap-around; with overflow checks it panics for \<open>m \<ge> 0xB0\<close>, which no
  configuration of at most five cosigners has.
\<close>

definition hinted_child :: "'pt crypto \<Rightarrow> multisig_config \<Rightarrow> ms45_hint \<Rightarrow> nat \<Rightarrow> bip32_error + bytes" where
  "hinted_child cr cfg hint i =
     tryR (derive_child_pub cr \<lparr>xp_pubkey = mc_pubkeys cfg ! i, xp_chain = mc_chain_codes cfg ! i,
                               xp_depth = mc_depth cfg ! i\<rparr> (hint_cosigner hint))
       (\<lambda>a. tryR (derive_child_pub cr a (hint_chain hint))
       (\<lambda>b. tryR (derive_child_pub cr b (hint_index hint))
       (\<lambda>c. Inr (slice 1 32 (xp_pubkey c)))))"

definition matches_at :: "'pt crypto \<Rightarrow> (bytes \<Rightarrow> bytes) \<Rightarrow> multisig_config \<Rightarrow> ms45_hint \<Rightarrow> bytes \<Rightarrow> bool" where
  "matches_at cr hash cfg hint script_hash =
     (if \<not> mc_v45 cfg \<or> \<not> hint_present hint then False
      else
        (let n = unat (mc_n cfg)
         in if n = 0 \<or> n > MAX_MULTISIG_KEYS then False
            else (case collectR (hinted_child cr cfg hint) [0..<n] of
               Inl _ \<Rightarrow> False
             | Inr keys \<Rightarrow> hash (script_of_keys (0x50 + mc_m cfg) (0x50 + mc_n cfg) keys) = script_hash)))"

section \<open>Canonical order of the cosigners\<close>

definition serialized_entry :: "multisig_config \<Rightarrow> nat \<Rightarrow> bytes" where
  "serialized_entry cfg i =
     [mc_depth cfg ! i] @ mc_parent_fp cfg ! i @ mc_child_num cfg ! i @ mc_chain_codes cfg ! i @ mc_pubkeys cfg ! i"

definition swap_entries :: "nat \<Rightarrow> multisig_config \<Rightarrow> multisig_config" where
  "swap_entries j cfg =
     cfg\<lparr>mc_pubkeys := swap_prev j (mc_pubkeys cfg), mc_chain_codes := swap_prev j (mc_chain_codes cfg),
         mc_depth := swap_prev j (mc_depth cfg), mc_parent_fp := swap_prev j (mc_parent_fp cfg),
         mc_child_num := swap_prev j (mc_child_num cfg)\<rparr>"

definition sort_cosigners :: "multisig_config \<Rightarrow> multisig_config" where
  "sort_cosigners cfg =
     (if \<not> mc_v45 cfg then cfg
      else insertion_sort (\<lambda>j cfg. serialized_entry cfg (j - 1) > serialized_entry cfg j) swap_entries
             (unat (mc_n cfg)) cfg)"

section \<open>False change claims\<close>

definition reproduces_input :: "'pt crypto \<Rightarrow> (bytes \<Rightarrow> bytes) \<Rightarrow> transaction \<Rightarrow> multisig_config \<Rightarrow> bool" where
  "reproduces_input cr hash tx c =
     list_ex (\<lambda>i. let ispk = utxo_spk (in_utxo (tx_inputs tx ! i))
                  in spk_script_len ispk = 35 \<and>
                     matches_at cr hash c (in_ms45_hint (tx_inputs tx ! i)) (slice 2 32 (spk_script ispk)))
       [0..<tx_num_inputs tx]"

definition same_as_input :: "transaction \<Rightarrow> script_public_key \<Rightarrow> bool" where
  "same_as_input tx spk =
     list_ex (\<lambda>i. let ispk = utxo_spk (in_utxo (tx_inputs tx ! i))
                  in spk_script_len ispk = spk_script_len spk \<and> script_bytes ispk = script_bytes spk)
       [0..<tx_num_inputs tx]"

definition forged_claim :: "'pt crypto \<Rightarrow> (bytes \<Rightarrow> bytes) \<Rightarrow> transaction \<Rightarrow> multisig_config \<Rightarrow> nat \<Rightarrow> bool" where
  "forged_claim cr hash tx c j =
     (let out = tx_outputs tx ! j; spk = out_spk out
      in if \<not> hint_present (out_ms45_hint out) then False
         else if spk_script_len spk \<noteq> 35 \<or> spk_script spk ! 0 \<noteq> 0xAA \<or> spk_script spk ! 34 \<noteq> 0x87 then False
         else if same_as_input tx spk then False
         else \<not> matches_at cr hash c (out_ms45_hint out) (slice 2 32 (spk_script spk)))"

definition find_forged_change :: "'pt crypto \<Rightarrow> (bytes \<Rightarrow> bytes) \<Rightarrow> transaction \<Rightarrow> multisig_config list \<Rightarrow> nat option" where
  "find_forged_change cr hash tx configs =
     (case List.find (\<lambda>c. mc_active c \<and> reproduces_input cr hash tx c) configs of
        None \<Rightarrow> None
      | Some c \<Rightarrow> List.find (forged_claim cr hash tx c) [0..<tx_num_outputs tx])"


section \<open>The cosigners' keys on a path\<close>

fun pub_path :: "'pt crypto \<Rightarrow> xpub \<Rightarrow> u32 list \<Rightarrow> bip32_error + xpub" where
  "pub_path cr p [] = Inr p"
| "pub_path cr p (index # path) = tryR (derive_child_pub cr p index) (\<lambda>c. pub_path cr c path)"

definition ok_value :: "'e + 'a \<Rightarrow> 'a option" where
  "ok_value r = (case r of Inl _ \<Rightarrow> None | Inr x \<Rightarrow> Some x)"

lemma ok_value_simps [simp]: "ok_value (Inl e) = None" "ok_value (Inr x) = Some x"
  by (simp_all add: ok_value_def)

text \<open>The x-only key at a path below an account key; its depth does not matter.\<close>

definition key_at :: "'pt crypto \<Rightarrow> u32 list \<Rightarrow> bytes \<times> bytes \<Rightarrow> bytes option" where
  "key_at cr path parent =
     map_option xpub_x_only (ok_value (pub_path cr \<lparr>xp_pubkey = fst parent, xp_chain = snd parent, xp_depth = 0\<rparr> path))"

definition keys_at :: "'pt crypto \<Rightarrow> multisig_config \<Rightarrow> u32 list \<Rightarrow> bytes list option" where
  "keys_at cr cfg path =
     those (map (\<lambda>i. key_at cr path (mc_pubkeys cfg ! i, mc_chain_codes cfg ! i)) [0..<unat (mc_n cfg)])"

definition address_path :: "multisig_config \<Rightarrow> u32 list" where
  "address_path cfg =
     (if mc_v45 cfg then [ucast (mc_cosigner_index cfg), ucast (mc_chain cfg), mc_addr_index cfg]
      else [0, mc_addr_index cfg])"

definition hint_path :: "ms45_hint \<Rightarrow> u32 list" where
  "hint_path hint = [hint_cosigner hint, hint_chain hint, hint_index hint]"

definition same_key :: "bip32_error + xpub \<Rightarrow> bip32_error + xpub \<Rightarrow> bool" where
  "same_key p q \<longleftrightarrow>
     map_option (\<lambda>x. (xp_pubkey x, xp_chain x)) (ok_value p) = map_option (\<lambda>x. (xp_pubkey x, xp_chain x)) (ok_value q)"

lemma same_key_child:
  "xp_pubkey p = xp_pubkey q \<Longrightarrow> xp_chain p = xp_chain q \<Longrightarrow> same_key (derive_child_pub cr p i) (derive_child_pub cr q i)"
  by (simp add: derive_child_pub_def same_key_def Let_def split: option.split)

lemma same_key_cases:
  assumes "same_key p q"
  obtains e e' where "p = Inl e" "q = Inl e'"
    | x y where "p = Inr x" "q = Inr y" "xp_pubkey x = xp_pubkey y" "xp_chain x = xp_chain y"
  using assms by (cases p; cases q) (auto simp: same_key_def)

lemma same_key_path:
  "xp_pubkey p = xp_pubkey q \<Longrightarrow> xp_chain p = xp_chain q \<Longrightarrow> same_key (pub_path cr p path) (pub_path cr q path)"
proof (induction path arbitrary: p q)
  case (Cons index path)
  from same_key_child [OF Cons.prems, of cr index] show ?case
  proof (cases rule: same_key_cases)
    case (2 x y)
    then show ?thesis using Cons.IH [of x y] by simp
  qed (simp add: same_key_def)
qed (simp add: same_key_def)

lemma key_at_any_depth:
  "key_at cr path (xp_pubkey p, xp_chain p) = map_option xpub_x_only (ok_value (pub_path cr p path))"
proof -
  define q where "q = \<lparr>xp_pubkey = xp_pubkey p, xp_chain = xp_chain p, xp_depth = 0\<rparr>"
  have "same_key (pub_path cr q path) (pub_path cr p path)"
    by (rule same_key_path) (simp_all add: q_def)
  then show ?thesis
    unfolding key_at_def fst_conv snd_conv q_def [symmetric]
    by (rule same_key_cases) (simp_all add: xpub_x_only_def)
qed

lemma ok_value_tryR: "ok_value (tryR r f) = Option.bind (ok_value r) (\<lambda>x. ok_value (f x))"
  by (cases r) simp_all

lemma cosigner_child_key:
  "ok_value (cosigner_child cr cfg i) = key_at cr (address_path cfg) (mc_pubkeys cfg ! i, mc_chain_codes cfg ! i)"
  using key_at_any_depth [of cr "address_path cfg" "\<lparr>xp_pubkey = mc_pubkeys cfg ! i, xp_chain = mc_chain_codes cfg ! i, xp_depth = 3\<rparr>"]
  by (simp add: cosigner_child_def address_path_def Let_def tryR_def split: sum.split)

lemma hinted_child_key:
  "ok_value (hinted_child cr cfg hint i) = key_at cr (hint_path hint) (mc_pubkeys cfg ! i, mc_chain_codes cfg ! i)"
  using key_at_any_depth [of cr "hint_path hint" "\<lparr>xp_pubkey = mc_pubkeys cfg ! i, xp_chain = mc_chain_codes cfg ! i, xp_depth = mc_depth cfg ! i\<rparr>"]
  by (simp add: hinted_child_def hint_path_def xpub_x_only_def tryR_def split: sum.split)

lemma ok_value_collect: "ok_value (collectR f is) = those (map (\<lambda>i. ok_value (f i)) is)"
proof (induction "is")
  case (Cons i "is")
  show ?case by (cases "f i"; cases "collectR f is") (simp_all flip: Cons.IH)
qed simp

lemma collect_cosigners: "ok_value (collectR (cosigner_child cr cfg) [0..<unat (mc_n cfg)]) = keys_at cr cfg (address_path cfg)"
  by (simp add: ok_value_collect keys_at_def cosigner_child_key)

lemma collect_hinted: "ok_value (collectR (hinted_child cr cfg hint) [0..<unat (mc_n cfg)]) = keys_at cr cfg (hint_path hint)"
  by (simp add: ok_value_collect keys_at_def hinted_child_key)

lemma those_map: "those (map f xs) = (if \<exists>x \<in> set xs. f x = None then None else Some (map (\<lambda>x. the (f x)) xs))"
  by (induction xs) (auto split: option.split)

lemma pub_path_length:
  "path \<noteq> [] \<Longrightarrow> pub_path cr p path = Inr c \<Longrightarrow> length (xp_pubkey c) = 33"
proof (induction path arbitrary: p)
  case (Cons index path)
  obtain d where d: "derive_child_pub cr p index = Inr d" "pub_path cr d path = Inr c"
    using Cons.prems(2) by (auto simp: tryR_eq_Inr)
  from d(1) have "length (xp_pubkey d) = 33"
    by (auto simp: derive_child_pub_def Let_def split: if_splits option.splits)
  then show ?case using d(2) Cons.IH [of d] by (cases "path = []") simp_all
qed simp

lemma keys_at_length:
  assumes "keys_at cr cfg path = Some keys" "path \<noteq> []"
  shows "length keys = unat (mc_n cfg)" "\<forall>k \<in> set keys. length k = 32"
proof -
  have "length k = 32" if "key_at cr path parent = Some k" for parent k
    using that
    by (auto simp: key_at_def xpub_x_only_def ok_value_def split: sum.splits dest!: pub_path_length [OF assms(2)])
  then show "length keys = unat (mc_n cfg)" "\<forall>k \<in> set keys. length k = 32"
    using assms(1) by (auto simp: keys_at_def those_map split: if_splits)
qed

lemma address_path_nonempty [simp]: "address_path cfg \<noteq> []" "hint_path hint \<noteq> []"
  by (simp_all add: address_path_def hint_path_def)

section \<open>The two sorts\<close>

lemma find_upt_Suc: "List.find P [0..<Suc n] = (if P 0 then Some 0 else map_option Suc (List.find (\<lambda>k. P (Suc k)) [0..<n]))"
proof -
  have m: "List.find P (map Suc xs) = map_option Suc (List.find (\<lambda>k. P (Suc k)) xs)" for xs
    by (induction xs) auto
  show ?thesis unfolding upt_conv_Cons [OF zero_less_Suc] map_Suc_upt [symmetric] by (simp add: m)
qed

lemma first_difference:
  fixes a b :: "'k :: linorder list"
  assumes "length a = length b"
  shows "(case List.find (\<lambda>k. a ! k \<noteq> b ! k) [0..<length b] of None \<Rightarrow> False | Some k \<Rightarrow> a ! k > b ! k) \<longleftrightarrow> a > b"
  using assms
proof (induction a b rule: list_induct2)
  case (Cons x xs y ys)
  then show ?case
    unfolding length_Cons find_upt_Suc by (auto split: option.split)
qed simp

lemma child_greater_lex: "length a = 32 \<Longrightarrow> length b = 32 \<Longrightarrow> child_greater a b \<longleftrightarrow> a > b"
  using first_difference [of a b] by (simp add: child_greater_def)

interpretation child_loop: insertion_loop "\<lambda>xs. xs" "\<lambda>j xs. child_greater (xs ! (j - 1)) (xs ! j)" swap_prev
  "\<lambda>xs. \<forall>x \<in> set xs. length x = 32"
proof unfold_locales
  fix s :: "bytes list" and j
  assume "\<forall>x \<in> set s. length x = 32" "Suc j < length s"
  then show "(\<forall>x \<in> set (swap_prev (Suc j) s). length x = 32) \<and> swap_prev (Suc j) s = swap_prev (Suc j) s"
    by (auto simp: swap_prev_def dest!: set_update_subset_insert [THEN subsetD])
qed (simp add: child_greater_lex)

lemma sort_children_sorts:
  "\<forall>x \<in> set xs. length x = 32 \<Longrightarrow> n = length xs \<Longrightarrow> sort_children n xs = sort xs"
  using child_loop.insertion_sorts [of xs n] by (simp add: sort_children_def)

text \<open>The fixed array types of a configuration, and a cosigner count within them.\<close>

definition wf_config :: "multisig_config \<Rightarrow> bool" where
  "wf_config cfg \<longleftrightarrow>
     unat (mc_n cfg) \<le> MAX_MULTISIG_KEYS \<and> length (mc_script cfg) = MAX_SCRIPT_SIZE \<and>
     length (mc_pubkeys cfg) = MAX_MULTISIG_KEYS \<and> (\<forall>x \<in> set (mc_pubkeys cfg). length x = 33) \<and>
     length (mc_chain_codes cfg) = MAX_MULTISIG_KEYS \<and> (\<forall>x \<in> set (mc_chain_codes cfg). length x = 32) \<and>
     length (mc_depth cfg) = MAX_MULTISIG_KEYS \<and>
     length (mc_parent_fp cfg) = MAX_MULTISIG_KEYS \<and> (\<forall>x \<in> set (mc_parent_fp cfg). length x = 4) \<and>
     length (mc_child_num cfg) = MAX_MULTISIG_KEYS \<and> (\<forall>x \<in> set (mc_child_num cfg). length x = 4)"

definition cosigners :: "multisig_config \<Rightarrow> bytes list" where
  "cosigners cfg = map (serialized_entry cfg) [0..<unat (mc_n cfg)]"

lemma set_swap_prev: "Suc j < length xs \<Longrightarrow> set (swap_prev (Suc j) xs) \<subseteq> set xs"
  by (auto simp: swap_prev_def dest!: set_update_subset_insert [THEN subsetD])

lemma swap_prev_nth:
  "Suc j < length xs \<Longrightarrow> i < length xs \<Longrightarrow>
   swap_prev (Suc j) xs ! i = (if i = j then xs ! Suc j else if i = Suc j then xs ! j else xs ! i)"
  by (simp add: swap_prev_def nth_list_update)

interpretation entry_loop: insertion_loop cosigners
  "\<lambda>j cfg. serialized_entry cfg (j - 1) > serialized_entry cfg j" swap_entries wf_config
proof unfold_locales
  fix cfg j assume wf: "wf_config cfg" and j: "Suc j < length (cosigners cfg)"
  then have b: "Suc j < MAX_MULTISIG_KEYS" by (simp add: wf_config_def cosigners_def)
  have "wf_config (swap_entries (Suc j) cfg)"
    using wf b set_swap_prev [of j "mc_pubkeys cfg"] set_swap_prev [of j "mc_chain_codes cfg"]
      set_swap_prev [of j "mc_parent_fp cfg"] set_swap_prev [of j "mc_child_num cfg"]
    by (simp add: wf_config_def swap_entries_def subset_iff)
  moreover have "cosigners (swap_entries (Suc j) cfg) = swap_prev (Suc j) (cosigners cfg)"
    using wf b j
    by (intro nth_equalityI)
      (simp_all add: cosigners_def swap_prev_nth, simp_all add: wf_config_def swap_entries_def serialized_entry_def swap_prev_nth)
  ultimately show "wf_config (swap_entries (Suc j) cfg) \<and> cosigners (swap_entries (Suc j) cfg) = swap_prev (Suc j) (cosigners cfg)"
    by simp
qed (simp add: cosigners_def)


lemma sort_cosigners_sorts:
  assumes "wf_config cfg"
  shows "wf_config (sort_cosigners cfg)"
    "cosigners (sort_cosigners cfg) = (if mc_v45 cfg then sort (cosigners cfg) else cosigners cfg)"
  using assms entry_loop.insertion_sorts [of cfg "unat (mc_n cfg)"]
  by (simp_all add: sort_cosigners_def cosigners_def)

text \<open>What sorting leaves alone.\<close>

definition wallet_fields :: "multisig_config \<Rightarrow> u8 \<times> u8 \<times> bool \<times> u8 \<times> u8 \<times> u32" where
  "wallet_fields c = (mc_m c, mc_n c, mc_v45 c, mc_cosigner_index c, mc_chain c, mc_addr_index c)"

lemma sift_preserves: "(\<And>j s. g (sw j s) = g s) \<Longrightarrow> g (sift gt sw j s) = g s"
  by (induction j arbitrary: s) simp_all

lemma insertion_sort_preserves:
  assumes "\<And>j s. g (sw j s) = g s"
  shows "g (insertion_sort gt sw n s) = g s"
proof -
  have "g (fold (sift gt sw) js s) = g s" for js
    by (induction js arbitrary: s) (simp_all add: sift_preserves [of g, OF assms])
  then show ?thesis by (simp add: insertion_sort_def)
qed

lemma sort_cosigners_fields: "wallet_fields (sort_cosigners cfg) = wallet_fields cfg"
proof -
  have "wallet_fields (swap_entries j s) = wallet_fields s" for j s
    by (simp add: wallet_fields_def swap_entries_def)
  then show ?thesis by (simp add: sort_cosigners_def insertion_sort_preserves)
qed

section \<open>The address of a configuration\<close>

definition address_script :: "'pt crypto \<Rightarrow> multisig_config \<Rightarrow> bytes option" where
  "address_script cr cfg =
     (let r = build_script cr cfg in if fst r = 0 then None else Some (take (fst r) (mc_script (snd r))))"

lemma repeats_distinct:
  assumes "n = length xs"
  shows "repeats n xs \<longleftrightarrow> \<not> distinct xs"
proof
  assume "repeats n xs"
  then obtain i j where "i < j" "j < length xs" "xs ! i = xs ! j"
    using assms by (auto simp: repeats_def list_ex_iff Suc_le_eq)
  then show "\<not> distinct xs" using nth_eq_iff_index_eq [of xs i j] by auto
next
  assume "\<not> distinct xs"
  then obtain i j where ij: "i < n" "j < n" "i \<noteq> j" "xs ! i = xs ! j"
    using assms by (auto simp: distinct_conv_nth)
  have "repeats n xs" if "k < l" "l < n" "xs ! k = xs ! l" for k l
  proof -
    have "\<exists>l \<in> set [Suc k..<n]. xs ! k = xs ! l" using that by (intro bexI [of _ l]) simp_all
    then show ?thesis
      unfolding repeats_def list_ex_iff by (rule bexI) (use that(1,2) in simp)
  qed
  then show "repeats n xs" using ij by (cases i j rule: linorder_cases) auto
qed

lemma script_of_keys_multisig:
  "unat n = length keys \<Longrightarrow> script_of_keys (OP_1 + m - 1) (OP_1 + n - 1) keys = multisig_script (unat m) keys"
  by (simp add: script_of_keys_def multisig_script_def)
     (metis of_nat_unat ucast_id)

lemma length_multisig_script:
  "\<forall>k \<in> set keys. length k = 32 \<Longrightarrow> length (multisig_script m keys) = 3 + 33 * length keys"
  by (induction keys) (simp_all add: multisig_script_def)

text \<open>What \<open>build_script\<close> is for.\<close>

definition address_spec :: "'pt crypto \<Rightarrow> multisig_config \<Rightarrow> bytes option" where
  "address_spec cr cfg =
     (if 1 \<le> mc_m cfg \<and> mc_m cfg \<le> mc_n cfg
      then Option.bind (keys_at cr cfg (address_path cfg)) (\<lambda>keys.
             if distinct keys then Some (multisig_script (unat (mc_m cfg)) (if mc_v45 cfg then keys else sort keys)) else None)
      else None)"

lemma one_le_word: "1 \<le> w \<longleftrightarrow> w \<noteq> 0" for w :: u8
  by (simp add: word_le_nat_alt Suc_le_eq unat_gt_0)

lemma if_not_swap: "(if \<not> b then x else y) = (if b then y else x)"
  by simp

lemma build_script_result:
  assumes "wf_config cfg"
  shows "build_script cr cfg =
    (case address_spec cr cfg of None \<Rightarrow> (0, cfg)
     | Some s \<Rightarrow> (length s, cfg\<lparr>mc_script := blit s 0 (mc_script cfg), mc_script_len := length s\<rparr>))"
proof (cases "1 \<le> mc_m cfg \<and> mc_m cfg \<le> mc_n cfg")
  case False
  then have "mc_m cfg = 0 \<or> mc_m cfg > mc_n cfg" by (auto simp: one_le_word not_le)
  then have "build_script cr cfg = (0, cfg)" by (auto simp: build_script_def Let_def)
  moreover have "address_spec cr cfg = None" using False by (simp only: address_spec_def if_False)
  ultimately show ?thesis by simp
next
  case True
  define n where "n = unat (mc_n cfg)"
  have range: "mc_m cfg \<noteq> 0" "mc_n cfg \<noteq> 0" "\<not> mc_m cfg > mc_n cfg" "n \<le> MAX_MULTISIG_KEYS"
    using True assms by (auto simp: wf_config_def n_def)
  show ?thesis
  proof (cases "collectR (cosigner_child cr cfg) [0..<n]")
    case (Inl e)
    then have "keys_at cr cfg (address_path cfg) = None"
      using collect_cosigners [of cr cfg] by (simp add: n_def)
    then show ?thesis using range Inl by (simp add: build_script_def address_spec_def n_def Let_def)
  next
    case (Inr keys)
    then have keys: "keys_at cr cfg (address_path cfg) = Some keys"
      using collect_cosigners [of cr cfg] by (simp add: n_def)
    note len = keys_at_length [OF keys address_path_nonempty(1), folded n_def]
    define out where "out = (if mc_v45 cfg then keys else sort keys)"
    have out: "length out = n" "\<forall>k \<in> set out. length k = 32" using len by (auto simp: out_def)
    define redeem where "redeem = multisig_script (unat (mc_m cfg)) out"
    have redeem: "script_of_keys (OP_1 + mc_m cfg - 1) (OP_1 + mc_n cfg - 1) out = redeem"
      unfolding redeem_def by (rule script_of_keys_multisig) (simp add: out n_def)
    have order: "(if mc_v45 cfg then keys else sort_children n keys) = out"
      using len by (simp add: out_def sort_children_sorts)
    have bad: "\<not> (mc_m cfg = 0 \<or> mc_n cfg = 0 \<or> mc_m cfg > mc_n cfg \<or> n > MAX_MULTISIG_KEYS)"
      using range by (simp only: not_less de_Morgan_disj simp_thms)
    have fits: "\<not> 1 + n * 33 + 1 + 1 > MAX_SCRIPT_SIZE" using range(4) by (simp add: size_limits)
    have b: "build_script cr cfg =
        (if distinct keys then (length redeem, cfg\<lparr>mc_script := blit redeem 0 (mc_script cfg), mc_script_len := length redeem\<rparr>)
         else (0, cfg))"
      unfolding build_script_def n_def [symmetric] Let_def Inr sum.case order redeem
        repeats_distinct [OF len(1) [symmetric]] if_not_P [OF bad] if_not_P [OF fits]
      by (rule if_not_swap)
    have "address_spec cr cfg = (if distinct keys then Some redeem else None)"
      using True by (simp only: address_spec_def keys Option.bind.simps simp_thms if_True redeem_def out_def)
    with b show ?thesis by simp
  qed
qed

lemma address_spec_length: "address_spec cr cfg = Some s \<Longrightarrow> length s = 3 + 33 * unat (mc_n cfg)"
  by (auto simp: address_spec_def bind_eq_Some_conv length_multisig_script keys_at_length split: if_splits)

lemma address_spec_multisig:
  assumes "wf_config cfg" "address_spec cr cfg = Some s"
  obtains keys where "multisig_ok (unat (mc_m cfg)) keys" "s = multisig_script (unat (mc_m cfg)) keys"
    "length keys = unat (mc_n cfg)"
proof -
  obtain keys where k: "keys_at cr cfg (address_path cfg) = Some keys" and m: "1 \<le> mc_m cfg" "mc_m cfg \<le> mc_n cfg"
    and s: "s = multisig_script (unat (mc_m cfg)) (if mc_v45 cfg then keys else sort keys)"
    using assms(2) by (auto simp: address_spec_def bind_eq_Some_conv split: if_splits)
  note len = keys_at_length [OF k address_path_nonempty(1)]
  have "multisig_ok (unat (mc_m cfg)) (if mc_v45 cfg then keys else sort keys)"
    using m len assms(1) by (simp add: multisig_ok_def wf_config_def word_le_nat_alt)
  then show ?thesis using that [OF _ s] len(1) by simp
qed

lemma address_script_spec: "wf_config cfg \<Longrightarrow> address_script cr cfg = address_spec cr cfg"
  by (auto simp: address_script_def build_script_result Let_def blit_def dest: address_spec_length split: option.split)


lemma keys_at_cosigners:
  assumes "wf_config cfg"
  shows "keys_at cr cfg path = those (map (\<lambda>e. key_at cr path (drop 41 e, slice 9 32 e)) (cosigners cfg))"
proof -
  have parts: "drop 41 (serialized_entry cfg i) = mc_pubkeys cfg ! i" "slice 9 32 (serialized_entry cfg i) = mc_chain_codes cfg ! i"
    if "i < unat (mc_n cfg)" for i
    using assms that by (simp_all add: wf_config_def serialized_entry_def slice_def)
  show ?thesis
    by (auto simp: keys_at_def cosigners_def parts intro!: arg_cong [where f = those])
qed

lemma those_mset:
  assumes "mset xs = mset ys"
  shows "rel_option (\<lambda>as bs. mset as = mset bs) (those (map f xs)) (those (map f ys))"
proof -
  have "set xs = set ys" using assms by (rule mset_eq_setD)
  then show ?thesis using assms by (simp add: those_map flip: mset_map) (simp add: assms)
qed

lemma address_spec_order:
  assumes "wf_config a" "wf_config b" "wallet_fields a = wallet_fields b"
    and "if mc_v45 a then cosigners a = cosigners b else mset (cosigners a) = mset (cosigners b)"
  shows "address_spec cr a = address_spec cr b"
proof -
  have f: "mc_m a = mc_m b" "mc_n a = mc_n b" "mc_v45 a = mc_v45 b" "address_path a = address_path b"
    using assms(3) by (simp_all add: wallet_fields_def address_path_def)
  show ?thesis
  proof (cases "mc_v45 a")
    case True
    then have "keys_at cr a (address_path a) = keys_at cr b (address_path b)"
      using assms f by (simp add: keys_at_cosigners)
    then show ?thesis unfolding address_spec_def f by simp
  next
    case False
    have "rel_option (\<lambda>as bs. mset as = mset bs) (keys_at cr a (address_path a)) (keys_at cr b (address_path b))"
      using assms False f by (simp add: keys_at_cosigners those_mset)
    then show ?thesis
    proof (cases rule: option.rel_cases)
      case (Some as bs)
      have "distinct as \<longleftrightarrow> distinct bs" "sort as = sort bs"
        using mset_eq_imp_distinct_iff [OF Some(3)] properties_for_sort [of "sort bs" as] Some(3) by simp_all
      then show ?thesis using Some False unfolding address_spec_def f by simp
    qed (simp add: address_spec_def)
  qed
qed

text \<open>The script hash of the wallet's own address at a hinted path.\<close>

definition own_hash :: "'pt crypto \<Rightarrow> (bytes \<Rightarrow> bytes) \<Rightarrow> multisig_config \<Rightarrow> ms45_hint \<Rightarrow> bytes option" where
  "own_hash cr hash cfg hint =
     (if mc_v45 cfg \<and> hint_present hint \<and> mc_n cfg \<noteq> 0
      then map_option (\<lambda>keys. hash (multisig_script (unat (mc_m cfg)) keys)) (keys_at cr cfg (hint_path hint))
      else None)"

lemma matches_at_own:
  assumes "wf_config cfg"
  shows "matches_at cr hash cfg hint h \<longleftrightarrow> own_hash cr hash cfg hint = Some h"
proof -
  have op: "0x50 + w = OP_1 + w - 1" for w :: u8 by (simp add: OP_1_def)
  have e: "hash (script_of_keys (0x50 + mc_m cfg) (0x50 + mc_n cfg) keys) = hash (multisig_script (unat (mc_m cfg)) keys)"
    if "collectR (hinted_child cr cfg hint) [0..<unat (mc_n cfg)] = Inr keys" for keys
  proof -
    have "keys_at cr cfg (hint_path hint) = Some keys" using collect_hinted [of cr cfg hint] that by simp
    note len = keys_at_length(1) [OF this address_path_nonempty(2)]
    show ?thesis unfolding op script_of_keys_multisig [OF len [symmetric]] ..
  qed
  show ?thesis
    unfolding own_hash_def collect_hinted [symmetric]
    using assms e
    by (cases "collectR (hinted_child cr cfg hint) [0..<unat (mc_n cfg)]")
      (auto simp: matches_at_def Let_def wf_config_def unat_eq_zero)
qed

subsection \<open>Claims of a transaction\<close>

definition claims_change :: "transaction \<Rightarrow> nat \<Rightarrow> bool" where
  "claims_change tx j \<longleftrightarrow> (let out = tx_outputs tx ! j; spk = out_spk out
     in hint_present (out_ms45_hint out) \<and> spk_script_len spk = 35 \<and> spk_script spk ! 0 = 0xAA \<and> spk_script spk ! 34 = 0x87)"

definition pays_input_script :: "transaction \<Rightarrow> nat \<Rightarrow> bool" where
  "pays_input_script tx j \<longleftrightarrow>
     list_ex (\<lambda>i. script_bytes (utxo_spk (in_utxo i)) = script_bytes (out_spk (tx_outputs tx ! j))) (inputs tx)"

definition own_output :: "'pt crypto \<Rightarrow> (bytes \<Rightarrow> bytes) \<Rightarrow> transaction \<Rightarrow> multisig_config \<Rightarrow> nat \<Rightarrow> bool" where
  "own_output cr hash tx c j \<longleftrightarrow>
     own_hash cr hash c (out_ms45_hint (tx_outputs tx ! j)) = Some (slice 2 32 (spk_script (out_spk (tx_outputs tx ! j))))"

definition vouches :: "'pt crypto \<Rightarrow> (bytes \<Rightarrow> bytes) \<Rightarrow> transaction \<Rightarrow> multisig_config \<Rightarrow> bool" where
  "vouches cr hash tx c \<longleftrightarrow> mc_active c \<and>
     list_ex (\<lambda>i. spk_script_len (utxo_spk (in_utxo i)) = 35 \<and>
         own_hash cr hash c (in_ms45_hint i) = Some (slice 2 32 (spk_script (utxo_spk (in_utxo i))))) (inputs tx)"

lemma list_ex_inputs: "wf_transaction tx \<Longrightarrow> list_ex (\<lambda>i. P (tx_inputs tx ! i)) [0..<tx_num_inputs tx] = list_ex P (inputs tx)"
proof -
  assume "wf_transaction tx"
  then have "inputs tx = map ((!) (tx_inputs tx)) [0..<tx_num_inputs tx]"
    by (intro nth_equalityI) (simp_all add: inputs_def wf_transaction_def)
  then show ?thesis by (simp add: list_ex_iff)
qed

lemma reproduces_input_iff:
  "wf_transaction tx \<Longrightarrow> wf_config c \<Longrightarrow> mc_active c \<and> reproduces_input cr hash tx c \<longleftrightarrow> vouches cr hash tx c"
  by (simp add: reproduces_input_def vouches_def Let_def matches_at_own flip: list_ex_inputs)

lemma same_as_input_iff:
  assumes "wf_transaction tx" "j < tx_num_outputs tx"
  shows "same_as_input tx (out_spk (tx_outputs tx ! j)) \<longleftrightarrow> pays_input_script tx j"
proof -
  have len: "length (script_bytes s) = spk_script_len s" if "wf_spk s" for s
    using that by (simp add: wf_spk_def script_bytes_def)
  have wf: "wf_spk (out_spk (tx_outputs tx ! j))"
    using assms wf_transaction_nth_out [OF assms(1), of j] by (simp add: wf_transaction_def wf_output_def)
  have "wf_spk (utxo_spk (in_utxo (tx_inputs tx ! i)))" if "i < tx_num_inputs tx" for i
    using that wf_transaction_nth [OF assms(1), of i] assms(1) by (simp add: wf_transaction_def wf_input_def)
  then have same: "spk_script_len (utxo_spk (in_utxo (tx_inputs tx ! i))) = spk_script_len (out_spk (tx_outputs tx ! j)) \<and>
      script_bytes (utxo_spk (in_utxo (tx_inputs tx ! i))) = script_bytes (out_spk (tx_outputs tx ! j)) \<longleftrightarrow>
    script_bytes (utxo_spk (in_utxo (tx_inputs tx ! i))) = script_bytes (out_spk (tx_outputs tx ! j))"
    if "i < tx_num_inputs tx" for i
    using that len wf by metis
  then show ?thesis
    unfolding same_as_input_def Let_def pays_input_script_def list_ex_inputs [OF assms(1), symmetric]
    by (intro list_ex_cong) simp_all
qed

lemma forged_claim_iff:
  assumes "wf_transaction tx" "wf_config c" "j < tx_num_outputs tx"
  shows "forged_claim cr hash tx c j \<longleftrightarrow> claims_change tx j \<and> \<not> pays_input_script tx j \<and> \<not> own_output cr hash tx c j"
  using same_as_input_iff [OF assms(1,3)]
  by (auto simp: forged_claim_def claims_change_def Let_def matches_at_own [OF assms(2)] own_output_def)

section \<open>A sample wallet\<close>

definition sample_pub :: "nat \<Rightarrow> bytes" where
  "sample_pub k = 2 # rev (le_bytes 32 k)"

definition sample_config :: "nat \<Rightarrow> nat \<Rightarrow> multisig_config" where
  "sample_config a b = multisig_config_new\<lparr>mc_m := 2, mc_n := 2, mc_v45 := True, mc_active := True,
     mc_pubkeys := [sample_pub a, sample_pub b, zeros 33, zeros 33, zeros 33]\<rparr>"

lemma upt_two: "[0..<2] = [0, Suc 0]"
  by (simp add: numeral_2_eq_2)

lemma sample_config_wf: "wf_config (sample_config a b)"
  by (simp add: wf_config_def sample_config_def multisig_config_new_def sample_pub_def size_limits)

lemma sample_cosigners: "mset (cosigners (sample_config a b)) = mset (cosigners (sample_config b a))"
  by (simp add: cosigners_def sample_config_def multisig_config_new_def serialized_entry_def size_limits upt_two)

lemma sample_child_pub:
  assumes "k < secp_order" "length ch \<le> 128" "\<not> is_hardened i"
    and "(be_value (replicate 32 192) + k) mod secp_order \<noteq> 0"
  shows "\<exists>d'. derive_child_pub sample_crypto \<lparr>xp_pubkey = sample_pub k, xp_chain = ch, xp_depth = d\<rparr> i =
    Inr \<lparr>xp_pubkey = sample_pub ((be_value (replicate 32 192) + k) mod secp_order), xp_chain = replicate 32 192, xp_depth = d'\<rparr>"
proof -
  have hmac: "hmac_sha512 (cr_sha512 sample_crypto) ch (sample_pub k @ to_be 4 i) = replicate 64 192"
    using assms(2) by (simp add: hmac_sha512_def Let_def sample_crypto_def HMAC_BLOCK_SIZE_def)
  have order: "secp_order < 256 ^ 32" by (simp add: secp_order_def)
  have dec: "be_value (rev (le_bytes 32 k)) = k"
    using assms(1) order by (simp add: be_value_def le_value_le_bytes)
  have x: "be_value (replicate 32 192) < secp_order"
    using be_value_replicate [of 32 192] by (simp add: secp_order_def)
  have "length (sample_pub k) = 33" by (simp add: sample_pub_def)
  then show ?thesis
    unfolding derive_child_pub_def Let_def xpub.select_convs hmac
    using assms(3,4) x dec
    by (simp add: is_less_than_order_iff) (simp add: sample_crypto_def sample_pub_def)
qed
lemma sample_scalar:
  "be_value (replicate 32 192) = 87184631896332194201276976947717954148344459042364659982650416194193415258304"
  using be_value_replicate [of 32 192] by simp

lemma sample_key:
  fixes k :: nat
  assumes "k = 2 \<or> k = 3"
  defines "x \<equiv> be_value (replicate 32 192)"
  shows "key_at sample_crypto [0, 0, 0] (sample_pub k, zeros 32) = Some (rev (le_bytes 32 ((3 * x + k) mod secp_order)))"
proof -
  have step: "\<exists>d'. derive_child_pub sample_crypto \<lparr>xp_pubkey = sample_pub (j mod secp_order), xp_chain = ch, xp_depth = d\<rparr> 0 =
      Inr \<lparr>xp_pubkey = sample_pub ((x + j) mod secp_order), xp_chain = replicate 32 192, xp_depth = d'\<rparr>"
    if "(x + j) mod secp_order \<noteq> 0" "length ch \<le> 128" for j ch d
    using that sample_child_pub [of "j mod secp_order" ch 0 d] by (simp add: x_def mod_add_right_eq secp_order_def)
  have nz: "(x + k) mod secp_order \<noteq> 0" "(x + (x + k)) mod secp_order \<noteq> 0" "(x + (x + (x + k))) mod secp_order \<noteq> 0"
    using assms(1) by (auto simp: x_def sample_scalar secp_order_def)
  have k: "k = k mod secp_order" using assms(1) by (auto simp: secp_order_def)
  obtain d1 where d1: "derive_child_pub sample_crypto \<lparr>xp_pubkey = sample_pub k, xp_chain = zeros 32, xp_depth = 0\<rparr> 0 =
      Inr \<lparr>xp_pubkey = sample_pub ((x + k) mod secp_order), xp_chain = replicate 32 192, xp_depth = d1\<rparr>"
    using step [OF nz(1), of "zeros 32" 0] k by auto
  obtain d2 where d2: "derive_child_pub sample_crypto \<lparr>xp_pubkey = sample_pub ((x + k) mod secp_order), xp_chain = replicate 32 192, xp_depth = d1\<rparr> 0 =
      Inr \<lparr>xp_pubkey = sample_pub ((x + (x + k)) mod secp_order), xp_chain = replicate 32 192, xp_depth = d2\<rparr>"
    using step [OF nz(2), of "replicate 32 192" d1] by auto
  obtain d3 where d3: "derive_child_pub sample_crypto \<lparr>xp_pubkey = sample_pub ((x + (x + k)) mod secp_order), xp_chain = replicate 32 192, xp_depth = d2\<rparr> 0 =
      Inr \<lparr>xp_pubkey = sample_pub ((x + (x + (x + k))) mod secp_order), xp_chain = replicate 32 192, xp_depth = d3\<rparr>"
    using step [OF nz(3), of "replicate 32 192" d2] by auto
  have sum: "3 * x + k = x + (x + (x + k))" by simp
  show ?thesis
    unfolding sum by (simp add: key_at_def d1 d2 d3 xpub_x_only_def) (simp add: sample_pub_def slice_def)
qed

definition sample_hint :: ms45_hint where
  "sample_hint = \<lparr>hint_present = True, hint_cosigner = 0, hint_chain = 0, hint_index = 0\<rparr>"

lemma sample_keys:
  "\<exists>keys. keys_at sample_crypto (sample_config 2 3) (address_path (sample_config 2 3)) = Some keys \<and> distinct keys"
proof -
  have path: "address_path (sample_config 2 3) = [0, 0, 0]"
    by (simp add: address_path_def sample_config_def multisig_config_new_def)
  have "le_bytes 32 (m mod secp_order) \<noteq> le_bytes 32 (n mod secp_order)" if "m mod secp_order \<noteq> n mod secp_order" for m n
  proof
    assume "le_bytes 32 (m mod secp_order) = le_bytes 32 (n mod secp_order)"
    then have "le_value (le_bytes 32 (m mod secp_order)) = le_value (le_bytes 32 (n mod secp_order))" by simp
    then have "(m mod secp_order) mod 256 ^ 32 = (n mod secp_order) mod 256 ^ 32" by (simp only: le_value_le_bytes)
    moreover have "j mod secp_order < 256 ^ 32" for j
      by (rule less_trans [of _ secp_order]) (simp_all add: secp_order_def)
    ultimately show False using that by simp
  qed
  moreover have "(3 * be_value (replicate 32 192) + 2) mod secp_order \<noteq> (3 * be_value (replicate 32 192) + 3) mod secp_order"
    by (simp add: sample_scalar secp_order_def)
  ultimately show ?thesis
    unfolding keys_at_def path using sample_key [of 2] sample_key [of 3]
    by (simp add: sample_config_def multisig_config_new_def size_limits upt_two)
qed

lemma sample_address:
  obtains redeem where "address_script sample_crypto (sample_config 2 3) = Some redeem" "length redeem = 69"
proof -
  obtain keys where "keys_at sample_crypto (sample_config 2 3) (address_path (sample_config 2 3)) = Some keys" "distinct keys"
    using sample_keys by blast
  then obtain redeem where r: "address_spec sample_crypto (sample_config 2 3) = Some redeem"
    by (simp add: address_spec_def) (simp add: sample_config_def)
  moreover have "length redeem = 69" using address_spec_length [OF r] by (simp add: sample_config_def)
  ultimately show ?thesis by (intro that) (simp_all add: address_script_spec [OF sample_config_wf])
qed

text \<open>A transaction that spends from the sample wallet and claims a stranger's script as its change.\<close>

definition sample_claim_tx :: "bytes \<Rightarrow> transaction" where
  "sample_claim_tx h = upd_out 0
     (\<lambda>out. out\<lparr>out_spk := \<lparr>spk_version = 0, spk_script = blit (p2sh_script (replicate 32 9)) 0 (zeros 512), spk_script_len = 35\<rparr>,
                out_ms45_hint := sample_hint\<rparr>)
     (upd_in 0
       (\<lambda>i. i\<lparr>in_utxo := (in_utxo i)\<lparr>utxo_spk :=
                \<lparr>spk_version = 0, spk_script = blit (p2sh_script h) 0 (zeros 512), spk_script_len = 35\<rparr>\<rparr>,
              in_ms45_hint := sample_hint\<rparr>)
       (transaction_new\<lparr>tx_num_inputs := 1, tx_num_outputs := 1\<rparr>))"

lemma sample_claim_wf:
  assumes "length h = 32"
  shows "wf_transaction (sample_claim_tx h)"
proof -
  have new: "wf_transaction (transaction_new\<lparr>tx_num_inputs := 1, tx_num_outputs := 1\<rparr>)"
    using wf_transaction_new by (simp add: wf_transaction_def size_limits)
  have len: "length (blit (p2sh_script b) 0 (zeros 512)) = 512" if "length b = 32" for b
    using that by (simp add: p2sh_script_def)
  have slots: "wf_input (tx_inputs transaction_new ! 0) \<and> pool_ok 0 (tx_inputs transaction_new ! 0)"
    "wf_output (tx_outputs transaction_new ! 0)"
    using wf_transaction_nth [OF wf_transaction_new, of 0] wf_transaction_nth_out [OF wf_transaction_new, of 0]
    by (simp_all add: size_limits transaction_new_def)
  have pool: "tx_redeem_pool_used transaction_new = 0" by (simp add: transaction_new_def)
  show ?thesis
    unfolding sample_claim_tx_def
    by (rule wf_upd_out, rule wf_upd_in, rule new)
      (use slots len [OF assms] len [of "replicate 32 9"] in
        \<open>simp_all add: wf_input_def pool_ok_def wf_output_def wf_spk_def size_limits upd_in_def pool\<close>)
qed

lemma sample_claim_fields:
  "inputs (sample_claim_tx h) = [(tx_inputs transaction_new ! 0)\<lparr>in_utxo := (in_utxo (tx_inputs transaction_new ! 0))\<lparr>utxo_spk :=
      \<lparr>spk_version = 0, spk_script = blit (p2sh_script h) 0 (zeros 512), spk_script_len = 35\<rparr>\<rparr>, in_ms45_hint := sample_hint\<rparr>]"
  "tx_num_outputs (sample_claim_tx h) = 1"
  "out_spk (tx_outputs (sample_claim_tx h) ! 0) =
     \<lparr>spk_version = 0, spk_script = blit (p2sh_script (replicate 32 9)) 0 (zeros 512), spk_script_len = 35\<rparr>"
  "out_ms45_hint (tx_outputs (sample_claim_tx h) ! 0) = sample_hint"
  by (simp_all add: sample_claim_tx_def inputs_def upd_in_def upd_out_def transaction_new_def size_limits take_Suc_conv_app_nth)

lemma sample_own_hash:
  assumes "address_script sample_crypto (sample_config 2 3) = Some redeem"
  shows "own_hash sample_crypto hash (sample_config 2 3) sample_hint = Some (hash redeem)"
proof -
  have "hint_path sample_hint = address_path (sample_config 2 3)"
    by (simp add: hint_path_def sample_hint_def address_path_def sample_config_def multisig_config_new_def)
  then show ?thesis
    using assms by (auto simp: own_hash_def address_script_spec [OF sample_config_wf] address_spec_def bind_eq_Some_conv split: if_splits)
      (simp_all add: sample_config_def sample_hint_def)
qed

lemma sample_address_head: "address_script sample_crypto (sample_config 2 3) = Some redeem \<Longrightarrow> redeem ! 0 = 82"
  by (auto simp: address_script_spec [OF sample_config_wf] address_spec_def bind_eq_Some_conv multisig_script_def OP_1_def
      split: if_splits) (simp_all add: sample_config_def)

section \<open>Properties\<close>

text \<open>
  C12: The redeem script of an address: for a legal threshold, with all keys derivable and pairwise
  distinct, \<open>build_script\<close> writes \<open>OP_m <keys> OP_n OP_CHECKMULTISIG\<close> over exactly the cosigners' keys at
  the address path, in sorted order for 44' and in the order of the configuration for 45'; the script
  classifier reads the same threshold and keys back. In every other case, a repeated key included, it
  returns 0 and changes nothing. The path is \<open>/0/addr_index\<close> for 44', whatever chain and cosigner index
  the configuration holds, and \<open>/cosigner_index/chain/addr_index\<close> for 45' with the chain of the
  configuration. (The comment at the chain step says so; the doc of the function says that the chain is 0
  in both schemes and that chain 1 is never built.)
\<close>

theorem build_script_spec:
  assumes "wf_config cfg"
  shows "(case address_spec cr cfg of
      None \<Rightarrow> build_script cr cfg = (0, cfg)
    | Some s \<Rightarrow> build_script cr cfg =
          (length s, cfg\<lparr>mc_script := blit s 0 (mc_script cfg), mc_script_len := length s\<rparr>) \<and>
        (\<exists>info. parse_multisig_script s (length s) = Some info \<and> ms_m info = mc_m cfg \<and> ms_n info = mc_n cfg)) \<and>
    address_spec cr cfg =
      (if 1 \<le> mc_m cfg \<and> mc_m cfg \<le> mc_n cfg then
         (case keys_at cr cfg (if mc_v45 cfg then [ucast (mc_cosigner_index cfg), ucast (mc_chain cfg), mc_addr_index cfg]
                               else [0, mc_addr_index cfg]) of
            None \<Rightarrow> None
          | Some keys \<Rightarrow>
              if distinct keys then Some (multisig_script (unat (mc_m cfg)) (if mc_v45 cfg then keys else sort keys)) else None)
       else None)"
proof
  show "case address_spec cr cfg of
      None \<Rightarrow> build_script cr cfg = (0, cfg)
    | Some s \<Rightarrow> build_script cr cfg =
          (length s, cfg\<lparr>mc_script := blit s 0 (mc_script cfg), mc_script_len := length s\<rparr>) \<and>
        (\<exists>info. parse_multisig_script s (length s) = Some info \<and> ms_m info = mc_m cfg \<and> ms_n info = mc_n cfg)"
  proof (cases "address_spec cr cfg")
    case (Some s)
    obtain keys where keys: "multisig_ok (unat (mc_m cfg)) keys" "s = multisig_script (unat (mc_m cfg)) keys"
      "length keys = unat (mc_n cfg)"
      using address_spec_multisig [OF assms Some] by blast
    then have "\<exists>info. parse_multisig_script s (length s) = Some info \<and> ms_m info = mc_m cfg \<and> ms_n info = mc_n cfg"
      by (simp add: parse_multisig_script_grammar) (metis multisig_info.select_convs(1,2) of_nat_unat ucast_id)
    then show ?thesis using Some assms by (simp add: build_script_result)
  qed (simp add: build_script_result assms)
qed (simp add: address_spec_def address_path_def split: option.split)

theorem build_script_spec_witness:
  "\<exists>s info. build_script sample_crypto (sample_config 2 3) =
      (69, (sample_config 2 3)\<lparr>mc_script := blit s 0 (mc_script (sample_config 2 3)), mc_script_len := 69\<rparr>) \<and>
    parse_multisig_script s 69 = Some info \<and> ms_m info = 2 \<and> ms_n info = 2"
proof -
  obtain s where s: "address_script sample_crypto (sample_config 2 3) = Some s" "length s = 69"
    by (rule sample_address)
  then have "address_spec sample_crypto (sample_config 2 3) = Some s"
    by (simp add: address_script_spec [OF sample_config_wf])
  moreover have "mc_m (sample_config 2 3) = 2" "mc_n (sample_config 2 3) = 2" by (simp_all add: sample_config_def)
  ultimately show ?thesis
    using build_script_spec [OF sample_config_wf, of sample_crypto 2 3] s(2) by auto
qed

text \<open>
  C25: The order in which the cosigners were scanned does not matter: two configurations of the same
  wallet with the same cosigners, in any order, have the same redeem script at every address, in both
  schemes.
\<close>

theorem address_independent_of_scan_order:
  assumes "wf_config a" "wf_config b" "wallet_fields a = wallet_fields b"
    and "mset (cosigners a) = mset (cosigners b)"
  shows "address_script cr (sort_cosigners a) = address_script cr (sort_cosigners b)"
proof -
  note wf = sort_cosigners_sorts(1) [OF assms(1)] sort_cosigners_sorts(1) [OF assms(2)]
  have v: "mc_v45 a = mc_v45 b" "mc_v45 (sort_cosigners a) = mc_v45 a"
    using assms(3) sort_cosigners_fields [of a] by (simp_all add: wallet_fields_def)
  have "sort (cosigners a) = sort (cosigners b)"
    using properties_for_sort [of "sort (cosigners b)" "cosigners a"] assms(4) by simp
  then have "address_spec cr (sort_cosigners a) = address_spec cr (sort_cosigners b)"
    using assms(3,4) v
    by (intro address_spec_order wf) (simp_all add: sort_cosigners_fields sort_cosigners_sorts(2) assms(1,2))
  then show ?thesis by (simp add: address_script_spec wf)
qed

theorem address_independent_of_scan_order_witness:
  "address_script sample_crypto (sort_cosigners (sample_config 2 3)) =
   address_script sample_crypto (sort_cosigners (sample_config 3 2))"
proof (rule address_independent_of_scan_order)
  show "wallet_fields (sample_config 2 3) = wallet_fields (sample_config 3 2)"
    by (simp add: wallet_fields_def sample_config_def)
qed (simp_all add: sample_config_wf sample_cosigners)

text \<open>
  Recognition agrees with construction: where a 45' configuration has an address at a hinted path,
  \<open>matches_at\<close> accepts a script hash there exactly when it is the hash of the redeem script that
  \<open>build_script\<close> would write.
\<close>

theorem matches_at_agrees:
  assumes "wf_config cfg" "mc_v45 cfg" "hint_present hint"
    and "hint_path hint = address_path cfg" "address_script cr cfg = Some redeem"
  shows "matches_at cr hash cfg hint h \<longleftrightarrow> hash redeem = h"
proof -
  have "mc_n cfg \<noteq> 0" using assms(1,5) by (auto simp: address_script_spec address_spec_def one_le_word split: if_splits)
  then show ?thesis
    using assms by (auto simp: matches_at_own own_hash_def address_script_spec address_spec_def bind_eq_Some_conv split: if_splits)
qed



theorem matches_at_agrees_witness:
  "\<exists>redeem. address_script sample_crypto (sample_config 2 3) = Some redeem \<and>
     matches_at sample_crypto (take 32) (sample_config 2 3) sample_hint (take 32 redeem)"
proof -
  obtain redeem where r: "address_script sample_crypto (sample_config 2 3) = Some redeem"
    using sample_address by blast
  have "hint_path sample_hint = address_path (sample_config 2 3)" "mc_v45 (sample_config 2 3)" "hint_present sample_hint"
    by (simp_all add: hint_path_def sample_hint_def address_path_def sample_config_def multisig_config_new_def)
  with matches_at_agrees [OF sample_config_wf _ _ _ r] r show ?thesis by blast
qed

text \<open>
  C11: False change claims are caught and nothing else is: where a loaded descriptor vouches for the
  transaction by reproducing one of its inputs, an output is reported only if it claims to be change,
  pays to no input's script and is not that wallet's address at the claimed path; and when no output is
  reported, every claim pays to an input's script or is that wallet's address. Without a vouching
  descriptor nothing is reported.
\<close>

theorem find_forged_change_spec:
  assumes "wf_transaction tx" "\<forall>c \<in> set configs. wf_config c"
  shows "case find_forged_change cr hash tx configs of
      Some j \<Rightarrow> j < tx_num_outputs tx \<and> claims_change tx j \<and> \<not> pays_input_script tx j \<and>
        (\<exists>c \<in> set configs. vouches cr hash tx c \<and> \<not> own_output cr hash tx c j)
    | None \<Rightarrow> (\<forall>c \<in> set configs. \<not> vouches cr hash tx c) \<or>
        (\<exists>c \<in> set configs. vouches cr hash tx c \<and>
          (\<forall>j < tx_num_outputs tx. claims_change tx j \<longrightarrow> pays_input_script tx j \<or> own_output cr hash tx c j))"
proof -
  have find: "List.find (\<lambda>c. mc_active c \<and> reproduces_input cr hash tx c) configs = List.find (vouches cr hash tx) configs"
    by (rule find_cong) (simp_all add: reproduces_input_iff assms)
  show ?thesis
  proof (cases "List.find (vouches cr hash tx) configs")
    case None
    then have "\<forall>c \<in> set configs. \<not> vouches cr hash tx c" by (auto simp: find_None_iff)
    then show ?thesis using None by (simp add: find_forged_change_def find)
  next
    case (Some c)
    then have c: "c \<in> set configs" "vouches cr hash tx c" by (auto simp: find_Some_iff)
    then have "wf_config c" using assms(2) by blast
    note claim = forged_claim_iff [OF assms(1) this]
    show ?thesis
    proof (cases "List.find (forged_claim cr hash tx c) [0..<tx_num_outputs tx]")
      case None
      then have "\<forall>j < tx_num_outputs tx. \<not> forged_claim cr hash tx c j" by (simp add: find_None_iff)
      then have "\<forall>j < tx_num_outputs tx. claims_change tx j \<longrightarrow> pays_input_script tx j \<or> own_output cr hash tx c j"
        using claim by blast
      moreover have "find_forged_change cr hash tx configs = None"
        using Some None by (simp add: find_forged_change_def find)
      ultimately show ?thesis using c by auto
    next
      case (Some j)
      then have "j < tx_num_outputs tx" "forged_claim cr hash tx c j" by (auto simp: find_Some_iff)
      then show ?thesis using c claim Some \<open>List.find (vouches cr hash tx) configs = Some c\<close>
        by (auto simp: find_forged_change_def find)
    qed
  qed
qed


theorem find_forged_change_spec_witness:
  "\<exists>h. find_forged_change sample_crypto (take 32) (sample_claim_tx h) [sample_config 2 3] = Some 0 \<and>
     \<not> own_output sample_crypto (take 32) (sample_claim_tx h) (sample_config 2 3) 0"
proof -
  obtain redeem where r: "address_script sample_crypto (sample_config 2 3) = Some redeem" "length redeem = 69"
    by (rule sample_address)
  define h where "h = take 32 redeem"
  have h: "length h = 32" "h ! 0 = 82" using r(2) sample_address_head [OF r(1)] by (simp_all add: h_def)
  have payload: "slice 2 32 (blit (p2sh_script b) 0 (zeros 512)) = b" if "length b = 32" for b
    using that by (simp add: p2sh_script_def blit_def slice_def)
  have own: "own_hash sample_crypto (take 32) (sample_config 2 3) sample_hint = Some h"
    unfolding h_def by (rule sample_own_hash [OF r(1)])
  have ne: "h \<noteq> replicate 32 9" using h by auto
  have script: "take 35 (blit (p2sh_script b) 0 (zeros 512)) = p2sh_script b" if "length b = 32" for b
    using that by (simp add: p2sh_script_def blit_def)
  have voucher: "vouches sample_crypto (take 32) (sample_claim_tx h) (sample_config 2 3)"
    by (simp add: vouches_def sample_claim_fields own payload h) (simp add: sample_config_def)
  have claim: "claims_change (sample_claim_tx h) 0"
    by (simp add: claims_change_def sample_claim_fields sample_hint_def p2sh_script_def blit_def nth_append opcodes)
  have not_own: "\<not> own_output sample_crypto (take 32) (sample_claim_tx h) (sample_config 2 3) 0"
    using ne by (simp add: own_output_def sample_claim_fields own payload)
  have not_input: "\<not> pays_input_script (sample_claim_tx h) 0"
    using ne by (simp add: pays_input_script_def sample_claim_fields script_bytes_def script h) (simp add: p2sh_script_def)
  have "find_forged_change sample_crypto (take 32) (sample_claim_tx h) [sample_config 2 3] = Some j \<Longrightarrow> j = 0" for j
    using find_forged_change_spec [OF sample_claim_wf [OF h(1)], of "[sample_config 2 3]" sample_crypto "take 32"]
    by (simp add: sample_config_wf sample_claim_fields)
  moreover have "find_forged_change sample_crypto (take 32) (sample_claim_tx h) [sample_config 2 3] \<noteq> None"
  proof
    assume "find_forged_change sample_crypto (take 32) (sample_claim_tx h) [sample_config 2 3] = None"
    then show False
      using find_forged_change_spec [OF sample_claim_wf [OF h(1)], of "[sample_config 2 3]" sample_crypto "take 32"]
        voucher claim not_own not_input
      by (simp add: sample_config_wf sample_claim_fields) auto
  qed
  ultimately show ?thesis using not_own by blast
qed

end
