(* ===== verification/KasSchnorr.thy ===== *)
theory KasSchnorr
  imports KasBip32
begin

text \<open>
  Schnorr signatures (core/src/wallet/schnorr.rs): the hedged nonce, signing with the check before
  release, verification. The k256 and sha2 crates are parameters: scalars and points are abstract, and
  \<open>curve_ok\<close> states their documented behaviour (scalars are the integers modulo the group order, points
  the multiples of the generator, negation flips the parity of y and keeps x, the even prefix decodes
  to the point with even y). The entropy source is an argument: \<open>None\<close> is its failure.
\<close>

section \<open>What k256 provides\<close>

record ('pt, 'sc) curve =
  cv_sha256 :: "bytes \<Rightarrow> bytes"
  cv_scalar :: "bytes \<Rightarrow> 'sc"            \<comment> \<open>the scalar of accepted bytes\<close>
  cv_reduce :: "bytes \<Rightarrow> 'sc"            \<comment> \<open>\<open>Reduce<U256>\<close>\<close>
  cv_to_bytes :: "'sc \<Rightarrow> bytes"
  cv_is_zero :: "'sc \<Rightarrow> bool"
  cv_neg :: "'sc \<Rightarrow> 'sc"
  cv_add :: "'sc \<Rightarrow> 'sc \<Rightarrow> 'sc"
  cv_mul :: "'sc \<Rightarrow> 'sc \<Rightarrow> 'sc"
  cv_gen :: "'sc \<Rightarrow> 'pt"                 \<comment> \<open>\<open>GENERATOR * s\<close>\<close>
  cv_times :: "'pt \<Rightarrow> 'sc \<Rightarrow> 'pt"
  cv_minus :: "'pt \<Rightarrow> 'pt \<Rightarrow> 'pt"
  cv_y :: "'pt \<Rightarrow> bytes option"          \<comment> \<open>\<open>to_encoded_point(false).y()\<close>\<close>

section \<open>Helpers\<close>

datatype schnorr_error = InvalidPrivateKey | InvalidNonce | SchnorrCurveError | InvalidSignature | EntropyUnavailable

definition has_even_y :: "('pt, 'sc) curve \<Rightarrow> 'pt \<Rightarrow> bool option" where
  "has_even_y cv p = map_option (\<lambda>y. y ! 31 AND 1 = 0) (cv_y cv p)"

definition x_bytes :: "'pt crypto \<Rightarrow> 'pt \<Rightarrow> bytes" where
  "x_bytes cr p = slice 1 32 (cr_encode cr p)"

definition CHALLENGE_TAG :: bytes where
  "CHALLENGE_TAG =
     [0x7b, 0xb5, 0x2d, 0x7a, 0x9f, 0xef, 0x58, 0x32, 0x3e, 0xb1, 0xbf, 0x7a, 0x40, 0x7d, 0xb3, 0x82,
      0xd2, 0xf3, 0xf2, 0xd8, 0x1b, 0xb1, 0x22, 0x4f, 0x49, 0xfe, 0x51, 0x8f, 0x6d, 0x48, 0xd3, 0x7c]"

definition compute_challenge :: "('pt, 'sc) curve \<Rightarrow> bytes \<Rightarrow> bytes \<Rightarrow> bytes \<Rightarrow> 'sc" where
  "compute_challenge cv rx px message =
     cv_reduce cv (cv_sha256 cv (CHALLENGE_TAG @ CHALLENGE_TAG @ rx @ px @ message))"

definition bytes_to_scalar :: "'pt crypto \<Rightarrow> ('pt, 'sc) curve \<Rightarrow> bytes \<Rightarrow> 'sc option" where
  "bytes_to_scalar cr cv b = (if cr_scalar_ok cr b then Some (cv_scalar cv b) else None)"

definition lift_x :: "'pt crypto \<Rightarrow> bytes \<Rightarrow> 'pt option" where
  "lift_x cr x = (let compressed = [0x02] @ x
                  in if cr_encoded_ok cr compressed then cr_decode cr compressed else None)"

definition NONCE_TAG :: bytes where
  "NONCE_TAG = [75, 97, 115, 83, 105, 103, 110, 101, 114, 47, 115, 99, 104, 110, 111, 114, 114, 45,
     110, 111, 110, 99, 101, 47, 118, 50, 95, 95, 95, 95, 95, 95]"

definition generate_rfc6979_nonce ::
  "'pt crypto \<Rightarrow> ('pt, 'sc) curve \<Rightarrow> bytes option \<Rightarrow> bytes \<Rightarrow> bytes \<Rightarrow> schnorr_error + 'sc"
where
  "generate_rfc6979_nonce cr cv entropy private_key message =
     (case entropy of
        None \<Rightarrow> Inl EntropyUnavailable
      | Some aux \<Rightarrow>
          let hmac_out = hmac_sha512 (cr_sha512 cr) private_key (NONCE_TAG @ message @ aux);
              k = cv_reduce cv (take 32 hmac_out)
          in if cv_is_zero cv k then Inl InvalidNonce else Inr k)"

section \<open>Verification and signing\<close>

definition schnorr_verify ::
  "'pt crypto \<Rightarrow> ('pt, 'sc) curve \<Rightarrow> bytes \<Rightarrow> bytes \<Rightarrow> bytes \<Rightarrow> schnorr_error + unit"
where
  "schnorr_verify cr cv pubkey_x message signature =
     (let rx = take 32 signature; s_bytes = drop 32 signature
      in case bytes_to_scalar cr cv s_bytes of
           None \<Rightarrow> Inl InvalidSignature
         | Some s \<Rightarrow>
             (case lift_x cr pubkey_x of
                None \<Rightarrow> Inl InvalidSignature
              | Some pubkey_point \<Rightarrow>
                  let e = compute_challenge cv rx pubkey_x message;
                      r = cv_minus cv (cv_gen cv s) (cv_times cv pubkey_point e)
                  in case has_even_y cv r of
                       None \<Rightarrow> Inl InvalidSignature
                     | Some is_even \<Rightarrow>
                         if \<not> is_even then Inl InvalidSignature
                         else if x_bytes cr r \<noteq> rx then Inl InvalidSignature
                         else Inr ()))"

definition schnorr_sign ::
  "'pt crypto \<Rightarrow> ('pt, 'sc) curve \<Rightarrow> bytes option \<Rightarrow> bytes \<Rightarrow> bytes \<Rightarrow> schnorr_error + bytes"
where
  "schnorr_sign cr cv entropy private_key message =
     (if \<not> cr_sk_ok cr private_key then Inl InvalidPrivateKey
      else
        let d_scalar = cv_scalar cv private_key; pubkey = cv_gen cv d_scalar
        in case has_even_y cv pubkey of
             None \<Rightarrow> Inl SchnorrCurveError
           | Some is_even \<Rightarrow>
               let d = (if is_even then d_scalar else cv_neg cv d_scalar); px = x_bytes cr pubkey
               in tryR (generate_rfc6979_nonce cr cv entropy private_key message) (\<lambda>k_scalar.
                  let r_point = cv_gen cv k_scalar
                  in case has_even_y cv r_point of
                       None \<Rightarrow> Inl SchnorrCurveError
                     | Some even_r \<Rightarrow>
                         let k = (if even_r then k_scalar else cv_neg cv k_scalar);
                             rx = x_bytes cr r_point;
                             e = compute_challenge cv rx px message;
                             s = cv_add cv k (cv_mul cv e d);
                             sig = rx @ cv_to_bytes cv s
                         in case schnorr_verify cr cv px message sig of
                              Inl _ \<Rightarrow> Inl SchnorrCurveError
                            | Inr _ \<Rightarrow> Inr sig))"

section \<open>What the code relies on\<close>

definition scalars_ok :: "'pt crypto \<Rightarrow> ('pt, 'sc) curve \<Rightarrow> ('sc \<Rightarrow> nat) \<Rightarrow> bool" where
  "scalars_ok cr cv val \<longleftrightarrow>
     (\<forall>s. val s < secp_order) \<and> (\<forall>s. cv_is_zero cv s \<longleftrightarrow> val s = 0) \<and>
     (\<forall>b. cr_scalar_ok cr b \<longrightarrow> val (cv_scalar cv b) = be_value b) \<and>
     (\<forall>b. cr_sk_ok cr b \<longrightarrow> val (cv_scalar cv b) = be_value b) \<and>
     (\<forall>s. val (cv_neg cv s) = (secp_order - val s) mod secp_order) \<and>
     (\<forall>s t. val (cv_add cv s t) = (val s + val t) mod secp_order) \<and>
     (\<forall>s t. val (cv_mul cv s t) = (val s * val t) mod secp_order) \<and>
     (\<forall>s. length (cv_to_bytes cv s) = 32 \<and> be_value (cv_to_bytes cv s) = val s)"

text \<open>\<open>mul x\<close> is \<open>x\<close> times the generator, \<open>ev x\<close> that its y is even.\<close>

definition points_ok :: "'pt crypto \<Rightarrow> ('pt, 'sc) curve \<Rightarrow> ('sc \<Rightarrow> nat) \<Rightarrow> (nat \<Rightarrow> 'pt) \<Rightarrow> (nat \<Rightarrow> bool) \<Rightarrow> bool" where
  "points_ok cr cv val mul ev \<longleftrightarrow>
     (\<forall>s. cv_gen cv s = mul (val s)) \<and>
     (\<forall>x s. cv_times cv (mul x) s = mul ((x * val s) mod secp_order)) \<and>
     (\<forall>x y. y < secp_order \<longrightarrow> cv_minus cv (mul x) (mul y) = mul ((x + (secp_order - y)) mod secp_order)) \<and>
     (\<forall>x. x \<noteq> 0 \<and> x < secp_order \<longrightarrow>
        (\<exists>y. cv_y cv (mul x) = Some y \<and> (y ! 31 AND 1 = 0 \<longleftrightarrow> ev x)) \<and>
        ev (secp_order - x) = (\<not> ev x) \<and>
        length (cr_encode cr (mul x)) = 33 \<and>
        slice 1 32 (cr_encode cr (mul (secp_order - x))) = slice 1 32 (cr_encode cr (mul x)) \<and>
        cr_encoded_ok cr ([0x02] @ slice 1 32 (cr_encode cr (mul x))) \<and>
        cr_decode cr ([0x02] @ slice 1 32 (cr_encode cr (mul x))) = Some (mul (if ev x then x else secp_order - x)))"

definition curve_ok :: "'pt crypto \<Rightarrow> ('pt, 'sc) curve \<Rightarrow> bool" where
  "curve_ok cr cv \<longleftrightarrow>
     (\<forall>x. length (cr_sha512 cr x) = 64) \<and>
     (\<forall>k. cr_sk_ok cr k \<longleftrightarrow> length k = 32 \<and> 0 < be_value k \<and> be_value k < secp_order) \<and>
     (\<forall>k. cr_scalar_ok cr k \<longleftrightarrow> length k = 32 \<and> be_value k < secp_order) \<and>
     (\<forall>k. cr_sk_ok cr k \<longrightarrow> cr_pubkey cr k = cr_encode cr (cv_gen cv (cv_scalar cv k))) \<and>
     (\<exists>val mul ev. scalars_ok cr cv val \<and> points_ok cr cv val mul ev)"

section \<open>Signing succeeds\<close>

lemma sub_mod_cancel:
  fixes a b n :: nat
  assumes "b < n"
  shows "((a + b) mod n + (n - b)) mod n = a mod n"
proof -
  have "((a + b) mod n + (n - b)) mod n = (a + b + (n - b)) mod n" by (simp only: mod_add_left_eq)
  also have "a + b + (n - b) = a + n" using assms by simp
  finally show ?thesis by simp
qed

definition even_scalar :: "(nat \<Rightarrow> bool) \<Rightarrow> nat \<Rightarrow> nat" where
  "even_scalar ev x = (if ev x then x else secp_order - x)"

lemma signature_verifies:
  assumes sc: "scalars_ok cr cv val" and pt: "points_ok cr cv val mul ev"
    and ok: "\<forall>k. cr_scalar_ok cr k \<longleftrightarrow> length k = 32 \<and> be_value k < secp_order"
    and d: "0 < val d0" and k: "0 < val k0"
    and dv: "val d = even_scalar ev (val d0)" and kv: "val k = even_scalar ev (val k0)"
  shows "schnorr_verify cr cv (x_bytes cr (mul (val d0))) m
    (x_bytes cr (mul (val k0)) @ cv_to_bytes cv (cv_add cv k (cv_mul cv (compute_challenge cv (x_bytes cr (mul (val k0))) (x_bytes cr (mul (val d0))) m) d)))
    = Inr ()"
proof -
  let ?px = "x_bytes cr (mul (val d0))" and ?rx = "x_bytes cr (mul (val k0))"
  define e where "e = compute_challenge cv ?rx ?px m"
  define s where "s = cv_add cv k (cv_mul cv e d)"
  have lt: "val x < secp_order" for x using sc by (simp add: scalars_ok_def)
  have pts: "length (cr_encode cr (mul x)) = 33" "lift_x cr (x_bytes cr (mul x)) = Some (mul (even_scalar ev x))"
    "x_bytes cr (mul (even_scalar ev x)) = x_bytes cr (mul x)" "has_even_y cv (mul (even_scalar ev x)) = Some True"
    if "0 < x" "x < secp_order" for x
  proof -
    have nx: "secp_order - x \<noteq> 0" "secp_order - x < secp_order" "secp_order - (secp_order - x) = x" using that by auto
    note p = pt [unfolded points_ok_def, THEN conjunct2, THEN conjunct2, THEN conjunct2, rule_format]
    have x: "x \<noteq> 0 \<and> x < secp_order" using that by simp
    note px = p [OF x] and pn = p [of "secp_order - x"]
    show "length (cr_encode cr (mul x)) = 33" using px by blast
    show "lift_x cr (x_bytes cr (mul x)) = Some (mul (even_scalar ev x))"
      using px by (simp add: lift_x_def x_bytes_def even_scalar_def)
    show "x_bytes cr (mul (even_scalar ev x)) = x_bytes cr (mul x)"
      using px by (simp add: x_bytes_def even_scalar_def)
    show "has_even_y cv (mul (even_scalar ev x)) = Some True"
    proof (cases "ev x")
      case True
      then show ?thesis using px by (auto simp: has_even_y_def even_scalar_def)
    next
      case False
      then show ?thesis using px pn nx by (auto simp: has_even_y_def even_scalar_def)
    qed
  qed
  note pd = pts [OF d lt] and pk = pts [OF k lt]
  have rx: "length ?rx = 32" using pk(1) by (simp add: x_bytes_def)
  have sb: "length (cv_to_bytes cv s) = 32" "be_value (cv_to_bytes cv s) = val s"
    using sc by (simp_all add: scalars_ok_def)
  then have s_ok: "cr_scalar_ok cr (cv_to_bytes cv s)" using ok lt by simp
  have "val (cv_scalar cv (cv_to_bytes cv s)) = val s" using sc s_ok sb by (simp add: scalars_ok_def)
  then have gen: "cv_gen cv (cv_scalar cv (cv_to_bytes cv s)) = mul (val s)" using pt by (simp add: points_ok_def)
  have vs: "val s = (val k + (val d * val e) mod secp_order) mod secp_order"
    using sc by (simp add: s_def scalars_ok_def mult.commute)
  have r: "cv_minus cv (mul (val s)) (cv_times cv (mul (val d)) e) = mul (val k)"
  proof -
    define p where "p = (val d * val e) mod secp_order"
    have "p < secp_order" by (simp add: p_def secp_order_def)
    then have "cv_minus cv (mul (val s)) (mul p) = mul ((val s + (secp_order - p)) mod secp_order)"
      using pt by (simp add: points_ok_def)
    also have "(val s + (secp_order - p)) mod secp_order = val k"
      using sub_mod_cancel [OF \<open>p < secp_order\<close>, of "val k"] lt [of k] by (simp add: vs p_def)
    finally show ?thesis using pt by (simp add: points_ok_def p_def)
  qed
  show ?thesis
    unfolding e_def [symmetric] s_def [symmetric]
    using rx s_ok pd(2) pk(3,4) gen r
    by (simp add: schnorr_verify_def bytes_to_scalar_def Let_def dv kv flip: e_def)
qed


lemma nonce_cases:
  assumes "generate_rfc6979_nonce cr cv entropy key m = r"
  shows "entropy = None \<and> r = Inl EntropyUnavailable \<or>
    (\<exists>aux. entropy = Some aux \<and>
       (let k = cv_reduce cv (take 32 (hmac_sha512 (cr_sha512 cr) key (NONCE_TAG @ m @ aux)))
        in r = (if cv_is_zero cv k then Inl InvalidNonce else Inr k)))"
  using assms by (auto simp: generate_rfc6979_nonce_def Let_def split: option.splits)

lemma sign_steps:
  assumes "curve_ok cr cv" "cr_sk_ok cr key"
  shows "(\<forall>e. generate_rfc6979_nonce cr cv entropy key m = Inl e \<longrightarrow> schnorr_sign cr cv entropy key m = Inl e) \<and>
    (\<forall>k0. generate_rfc6979_nonce cr cv entropy key m = Inr k0 \<longrightarrow>
       (\<exists>sig. schnorr_sign cr cv entropy key m = Inr sig \<and> length sig = 64 \<and>
          schnorr_verify cr cv (slice 1 32 (cr_pubkey cr key)) m sig = Inr ()))"
proof -
  obtain val mul ev where sc: "scalars_ok cr cv val" and pt: "points_ok cr cv val mul ev"
    and ok: "\<forall>k. cr_scalar_ok cr k \<longleftrightarrow> length k = 32 \<and> be_value k < secp_order"
    and sk: "\<forall>k. cr_sk_ok cr k \<longleftrightarrow> length k = 32 \<and> 0 < be_value k \<and> be_value k < secp_order"
    and pub: "cr_pubkey cr key = cr_encode cr (cv_gen cv (cv_scalar cv key))"
    using assms unfolding curve_ok_def by blast
  define d0 where "d0 = cv_scalar cv key"
  have vd: "val d0 = be_value key" using sc assms(2) by (simp add: d0_def scalars_ok_def)
  have d0: "0 < val d0" using vd assms(2) sk by simp
  have lt: "val x < secp_order" for x using sc by (simp add: scalars_ok_def)
  have gen: "cv_gen cv x = mul (val x)" for x using pt by (simp add: points_ok_def)
  have even_y: "has_even_y cv (mul x) = Some (ev x)" and enc: "length (cr_encode cr (mul x)) = 33"
    if "0 < x" "x < secp_order" for x
    using pt [unfolded points_ok_def, THEN conjunct2, THEN conjunct2, THEN conjunct2, rule_format, of x] that
    by (auto simp: has_even_y_def)
  have px: "slice 1 32 (cr_pubkey cr key) = x_bytes cr (mul (val d0))"
    by (simp add: pub x_bytes_def gen d0_def)
  have neg: "val (if ev (val x) then x else cv_neg cv x) = even_scalar ev (val x)" if "0 < val x" for x
  proof -
    have "secp_order - val x < secp_order" using that lt [of x] by simp
    then show ?thesis using sc by (simp add: even_scalar_def scalars_ok_def)
  qed
  have good: "\<exists>sig. schnorr_sign cr cv entropy key m = Inr sig \<and> length sig = 64 \<and>
          schnorr_verify cr cv (slice 1 32 (cr_pubkey cr key)) m sig = Inr ()"
    if n: "generate_rfc6979_nonce cr cv entropy key m = Inr k0" for k0
  proof -
    have "\<not> cv_is_zero cv k0" using nonce_cases [OF n] by (auto simp: Let_def split: if_splits)
    then have k0: "0 < val k0" using sc by (simp add: scalars_ok_def)
    define d k where "d = (if ev (val d0) then d0 else cv_neg cv d0)"
      and "k = (if ev (val k0) then k0 else cv_neg cv k0)"
    have dk: "val d = even_scalar ev (val d0)" "val k = even_scalar ev (val k0)"
      unfolding d_def k_def by (rule neg [OF d0], rule neg [OF k0])
    define sig where "sig = x_bytes cr (mul (val k0)) @ cv_to_bytes cv (cv_add cv k
      (cv_mul cv (compute_challenge cv (x_bytes cr (mul (val k0))) (x_bytes cr (mul (val d0))) m) d))"
    have v: "schnorr_verify cr cv (x_bytes cr (mul (val d0))) m sig = Inr ()"
      unfolding sig_def by (rule signature_verifies [OF sc pt ok d0 k0 dk])
    have "length sig = 64" using enc [OF k0 lt] sc by (simp add: sig_def x_bytes_def scalars_ok_def)
    moreover have "schnorr_sign cr cv entropy key m = Inr sig"
      unfolding schnorr_sign_def Let_def d0_def [symmetric] gen even_y [OF d0 lt] even_y [OF k0 lt] n tryR_simps option.case
        d_def [symmetric] k_def [symmetric] sig_def [symmetric] v
      using assms(2) by simp
    ultimately show ?thesis using v px by simp
  qed
  moreover have "schnorr_sign cr cv entropy key m = Inl e" if n: "generate_rfc6979_nonce cr cv entropy key m = Inl e" for e
    unfolding schnorr_sign_def Let_def d0_def [symmetric] gen even_y [OF d0 lt] n tryR_simps option.case
    using assms(2) by simp
  ultimately show ?thesis by blast
qed

section \<open>A sample curve\<close>

text \<open>The integers modulo the order; the x coordinate of \<open>p\<close> is the smaller of \<open>p\<close> and \<open>n - p\<close>.\<close>

definition sample_encode :: "nat \<Rightarrow> bytes" where
  "sample_encode p = (if 2 * p < secp_order then 2 else 3) # rev (le_bytes 32 (min p (secp_order - p)))"

definition sample_curve_crypto :: "nat crypto" where
  "sample_curve_crypto = sample_crypto\<lparr>cr_pubkey := (\<lambda>k. sample_encode (be_value k)), cr_encode := sample_encode,
     cr_decode := (\<lambda>b. Some (if b ! 0 = 2 then be_value (tl b) else secp_order - be_value (tl b)))\<rparr>"

definition sample_curve :: "(nat, nat) curve" where
  "sample_curve = \<lparr>cv_sha256 = (\<lambda>x. replicate 32 (of_nat (length x))),
     cv_scalar = be_value, cv_reduce = be_value, cv_to_bytes = (\<lambda>s. rev (le_bytes 32 (s mod secp_order))),
     cv_is_zero = (\<lambda>s. s mod secp_order = 0), cv_neg = (\<lambda>s. secp_order - s mod secp_order),
     cv_add = (+), cv_mul = (*), cv_gen = (\<lambda>s. s mod secp_order),
     cv_times = (\<lambda>p s. (p * s) mod secp_order), cv_minus = (\<lambda>p q. (p + (secp_order - q)) mod secp_order),
     cv_y = (\<lambda>p. if p = 0 then None else Some (replicate 31 0 @ [if 2 * p < secp_order then 0 else 1]))\<rparr>"

lemma sample_curve_ok: "curve_ok sample_curve_crypto sample_curve"
proof -
  have order: "secp_order < 256 ^ 32" "2 * x \<noteq> secp_order" for x
    by (simp add: secp_order_def) (simp add: secp_order_def, presburger)
  have dec: "be_value (rev (le_bytes 32 x)) = x" if "x < secp_order" for x
    using that order by (simp add: be_value_def le_value_le_bytes)
  have lt: "x mod secp_order < secp_order" for x by (simp add: secp_order_def)
  have sc: "scalars_ok sample_curve_crypto sample_curve (\<lambda>s. s mod secp_order)"
    unfolding scalars_ok_def sample_curve_def
    by (simp add: lt dec [OF lt] mod_add_eq mod_mult_eq) (simp add: sample_curve_crypto_def sample_crypto_def)
  have pt: "points_ok sample_curve_crypto sample_curve (\<lambda>s. s mod secp_order) (\<lambda>x. x mod secp_order) (\<lambda>x. 2 * x < secp_order)"
    unfolding points_ok_def
  proof (intro conjI allI impI; (elim conjE)?)
    fix x :: nat assume x: "x \<noteq> 0" "x < secp_order"
    then have n: "secp_order - x < secp_order" "min x (secp_order - x) < secp_order" "min (secp_order - x) (secp_order - (secp_order - x)) = min x (secp_order - x)"
      by auto
    show "2 * (secp_order - x) < secp_order \<longleftrightarrow> \<not> 2 * x < secp_order" using x order(2) [of x] by auto
    show "\<exists>y. cv_y sample_curve (x mod secp_order) = Some y \<and> (y ! 31 AND 1 = 0 \<longleftrightarrow> 2 * x < secp_order)"
      using x by (simp add: sample_curve_def nth_append)
    show "length (cr_encode sample_curve_crypto (x mod secp_order)) = 33"
      by (simp add: sample_curve_crypto_def sample_encode_def)
    show "slice 1 32 (cr_encode sample_curve_crypto ((secp_order - x) mod secp_order)) =
        slice 1 32 (cr_encode sample_curve_crypto (x mod secp_order))"
      using x n by (simp add: sample_curve_crypto_def sample_encode_def slice_def)
    show "cr_encoded_ok sample_curve_crypto ([0x02] @ slice 1 32 (cr_encode sample_curve_crypto (x mod secp_order)))"
      by (simp add: sample_curve_crypto_def sample_crypto_def sample_encode_def)
    show "cr_decode sample_curve_crypto ([0x02] @ slice 1 32 (cr_encode sample_curve_crypto (x mod secp_order))) =
        Some ((if 2 * x < secp_order then x else secp_order - x) mod secp_order)"
      using x n dec [OF n(2)] by (auto simp: sample_curve_crypto_def sample_encode_def slice_def min_def)
  qed (simp_all add: sample_curve_def mod_mult_left_eq mod_mult_right_eq mod_add_left_eq)
  have "(\<forall>k. cr_sk_ok sample_curve_crypto k \<longrightarrow>
      cr_pubkey sample_curve_crypto k = cr_encode sample_curve_crypto (cv_gen sample_curve (cv_scalar sample_curve k)))"
    by (simp add: sample_curve_crypto_def sample_curve_def sample_crypto_def)
  then show ?thesis
    unfolding curve_ok_def using sc pt by (auto simp: sample_curve_crypto_def sample_crypto_def)
qed


lemma sample_curve_crypto_ok: "crypto_ok sample_curve_crypto"
proof -
  have order: "secp_order < 256 ^ 32" by (simp add: secp_order_def)
  have dec: "be_value (rev (le_bytes 32 x)) = x" if "x < secp_order" for x
    using that order by (simp add: be_value_def le_value_le_bytes)
  have lt: "x mod secp_order < secp_order" for x by (simp add: secp_order_def)
  have round: "cr_decode sample_curve_crypto (sample_encode x) = Some x" if "x < secp_order" for x
    using that dec [of "min x (secp_order - x)"] by (auto simp: sample_curve_crypto_def sample_encode_def min_def)
  have "multiples_ok sample_curve_crypto (\<lambda>x. x mod secp_order)"
    unfolding multiples_ok_def using round [OF lt]
    by (simp add: sample_curve_crypto_def sample_crypto_def mod_add_right_eq) (simp add: sample_encode_def)
  then show ?thesis unfolding crypto_ok_def by (auto simp: sample_curve_crypto_def sample_crypto_def)
qed

lemma sign_verifies:
  assumes "curve_ok cr cv" "schnorr_sign cr cv entropy key m = Inr sig"
  shows "cr_sk_ok cr key" "length sig = 64" "schnorr_verify cr cv (slice 1 32 (cr_pubkey cr key)) m sig = Inr ()"
proof -
  show sk: "cr_sk_ok cr key" using assms(2) by (auto simp: schnorr_sign_def split: if_splits)
  show "length sig = 64" "schnorr_verify cr cv (slice 1 32 (cr_pubkey cr key)) m sig = Inr ()"
    using sign_steps [OF assms(1) sk, of entropy m] assms(2)
    by (cases "generate_rfc6979_nonce cr cv entropy key m"; auto)+
qed

section \<open>Properties\<close>

text \<open>
  C3: Signing with a valid key yields a signature that verifies, or says why there is none: the key is
  out of range, the entropy source failed, or the nonce came out as zero. The check before release
  never refuses a correctly computed signature.
\<close>

theorem schnorr_sign_spec:
  assumes "curve_ok cr cv"
  shows "case schnorr_sign cr cv entropy key m of
      Inr sig \<Rightarrow> cr_sk_ok cr key \<and> length sig = 64 \<and>
        schnorr_verify cr cv (slice 1 32 (cr_pubkey cr key)) m sig = Inr ()
    | Inl InvalidPrivateKey \<Rightarrow> \<not> cr_sk_ok cr key
    | Inl e \<Rightarrow> cr_sk_ok cr key \<and> generate_rfc6979_nonce cr cv entropy key m = Inl e \<and>
        (e = EntropyUnavailable \<and> entropy = None \<or> e = InvalidNonce \<and> entropy \<noteq> None)"
proof (cases "cr_sk_ok cr key")
  case False
  then show ?thesis by (simp add: schnorr_sign_def)
next
  case True
  note steps = sign_steps [OF assms True, of entropy m]
  show ?thesis
  proof (cases "generate_rfc6979_nonce cr cv entropy key m")
    case (Inl e)
    then show ?thesis using steps True nonce_cases [OF Inl] by (auto simp: Let_def split: if_splits)
  next
    case (Inr k0)
    then show ?thesis using steps True by auto
  qed
qed

theorem schnorr_sign_spec_witness:
  "\<exists>sig. schnorr_sign sample_curve_crypto sample_curve (Some (replicate 32 1)) (replicate 31 0 @ [5]) (replicate 32 3) = Inr sig \<and>
     schnorr_verify sample_curve_crypto sample_curve (slice 1 32 (cr_pubkey sample_curve_crypto (replicate 31 0 @ [5]))) (replicate 32 3) sig = Inr ()"
proof -
  let ?r = "schnorr_sign sample_curve_crypto sample_curve (Some (replicate 32 1)) (replicate 31 0 @ [5]) (replicate 32 3)"
  have key: "cr_sk_ok sample_curve_crypto (replicate 31 0 @ [5])"
    by (simp add: sample_curve_crypto_def sample_crypto_def secp_order_def)
  have nonce: "\<exists>k. generate_rfc6979_nonce sample_curve_crypto sample_curve (Some (replicate 32 1)) (replicate 31 0 @ [5]) (replicate 32 3) = Inr k"
    using be_value_replicate [of 32 192]
    by (simp add: generate_rfc6979_nonce_def hmac_sha512_def Let_def HMAC_BLOCK_SIZE_def sample_curve_crypto_def
        sample_crypto_def sample_curve_def secp_order_def)
  show ?thesis
  proof (cases ?r)
    case (Inl e)
    then show ?thesis
      using schnorr_sign_spec [OF sample_curve_ok, where entropy = "Some (replicate 32 1)" and key = "replicate 31 0 @ [5]" and m = "replicate 32 3"] key nonce
      by (cases e) auto
  next
    case (Inr sig)
    then show ?thesis
      using schnorr_sign_spec [OF sample_curve_ok, where entropy = "Some (replicate 32 1)" and key = "replicate 31 0 @ [5]" and m = "replicate 32 3"] by auto
  qed
qed

end
