(* ===== verification/KasExtBanks.thy ===== *)
theory KasExtBanks
  imports KasBip32
begin

text \<open>
  The extended public-key banks (core/src/ext.rs): per chain an array of derived keys with a fill front,
  searched first and then extended while searching. The search loop is a partial function, so that
  its termination is a theorem. The theorem asks for banks of at most 65535 slots (the firmware has
  1000), because the 16-bit fronts wrap around beyond.
\<close>

record ext_banks =
  eb_recv :: "bytes list"
  eb_recv_n :: u16
  eb_chg :: "bytes list"
  eb_chg_n :: u16

definition ext_find_pubkey :: "ext_banks \<Rightarrow> bytes \<Rightarrow> (u16 \<times> bool) option" where
  "ext_find_pubkey eb target =
     (case List.find (\<lambda>i. eb_recv eb ! i = target) [0..<unat (eb_recv_n eb)] of
        Some i \<Rightarrow> Some (of_nat i, False)
      | None \<Rightarrow> (case List.find (\<lambda>i. eb_chg eb ! i = target) [0..<unat (eb_chg_n eb)] of
          Some i \<Rightarrow> Some (of_nat i, True)
        | None \<Rightarrow> None))"

text \<open>One round of the loop on the chain that was chosen.\<close>

definition scan_recv :: "'pt crypto \<Rightarrow> chain_parent \<Rightarrow> bytes \<Rightarrow> ext_banks \<Rightarrow> (u16 \<times> bool) option \<times> ext_banks" where
  "scan_recv cr chain target eb =
     (let r = unat (eb_recv_n eb); eb = eb\<lparr>eb_recv_n := of_nat (r + 1)\<rparr>
      in case x_only_of cr (chain_parent_derive cr chain (of_nat r)) of
           None \<Rightarrow> (None, eb)
         | Some pk \<Rightarrow> (if pk = target then Some (of_nat r, False) else None, eb\<lparr>eb_recv := (eb_recv eb)[r := pk]\<rparr>))"

definition scan_chg :: "'pt crypto \<Rightarrow> chain_parent \<Rightarrow> bytes \<Rightarrow> ext_banks \<Rightarrow> (u16 \<times> bool) option \<times> ext_banks" where
  "scan_chg cr chain target eb =
     (let c = unat (eb_chg_n eb); eb = eb\<lparr>eb_chg_n := of_nat (c + 1)\<rparr>
      in case x_only_of cr (chain_parent_derive cr chain (of_nat c)) of
           None \<Rightarrow> (None, eb)
         | Some pk \<Rightarrow> (if pk = target then Some (of_nat c, True) else None, eb\<lparr>eb_chg := (eb_chg eb)[c := pk]\<rparr>))"

partial_function (option) ext_scan_loop ::
  "'pt crypto \<Rightarrow> chain_parent \<Rightarrow> chain_parent \<Rightarrow> bytes \<Rightarrow> ext_banks \<Rightarrow> ((u16 \<times> bool) option \<times> ext_banks) option"
where
  "ext_scan_loop cr chain_recv chain_chg target eb =
     (let r = unat (eb_recv_n eb); c = unat (eb_chg_n eb)
      in if r \<ge> length (eb_recv eb) \<and> c \<ge> length (eb_chg eb) then Some (None, eb)
         else
           (let take_recv = (r < length (eb_recv eb) \<and> (r \<le> c \<or> c \<ge> length (eb_chg eb)));
                step = (if take_recv then scan_recv cr chain_recv target eb else scan_chg cr chain_chg target eb)
            in case fst step of
                 Some hit \<Rightarrow> Some (Some hit, snd step)
               | None \<Rightarrow> ext_scan_loop cr chain_recv chain_chg target (snd step)))"

definition ext_scan_find ::
  "'pt crypto \<Rightarrow> xprv \<Rightarrow> ext_banks \<Rightarrow> bytes \<Rightarrow> ((u16 \<times> bool) option \<times> ext_banks) option"
where
  "ext_scan_find cr acct eb target =
     (case ext_find_pubkey eb target of
        Some hit \<Rightarrow> Some (Some hit, eb)
      | None \<Rightarrow>
          (case chain_parent_new cr acct 0 of
             Inl _ \<Rightarrow> Some (None, eb)
           | Inr chain_recv \<Rightarrow>
               (case chain_parent_new cr acct 1 of
                  Inl _ \<Rightarrow> Some (None, eb)
                | Inr chain_chg \<Rightarrow> ext_scan_loop cr chain_recv chain_chg target eb)))"

section \<open>The banks hold chain keys\<close>

text \<open>
  Below the front a slot holds the key of its position; where the derivation failed it holds whatever
  was there before (the firmware resets the fronts, not the slots, when another wallet is selected).
\<close>

definition bank_ok :: "(nat \<Rightarrow> bytes option) \<Rightarrow> bytes list \<Rightarrow> u16 \<Rightarrow> bool" where
  "bank_ok key bank n \<longleftrightarrow> length bank \<le> 65535 \<and> unat n \<le> length bank \<and>
     (\<forall>i < unat n. key i = Some (bank ! i) \<or> key i = None)"

definition banks_ok :: "'pt crypto \<Rightarrow> xprv \<Rightarrow> ext_banks \<Rightarrow> bool" where
  "banks_ok cr acct eb \<longleftrightarrow>
     bank_ok (chain_key cr acct False) (eb_recv eb) (eb_recv_n eb) \<and>
     bank_ok (chain_key cr acct True) (eb_chg eb) (eb_chg_n eb)"

definition bank_size :: "ext_banks \<Rightarrow> bool \<Rightarrow> nat" where
  "bank_size eb c = (if c then length (eb_chg eb) else length (eb_recv eb))"

text \<open>A result is a position of the key, or one whose own derivation fails.\<close>

definition hit_ok :: "'pt crypto \<Rightarrow> xprv \<Rightarrow> bytes \<Rightarrow> ext_banks \<Rightarrow> u16 \<times> bool \<Rightarrow> bool" where
  "hit_ok cr acct target eb = (\<lambda>(i, c). unat i < bank_size eb c \<and>
     (chain_key cr acct c (unat i) = Some target \<or> chain_key cr acct c (unat i) = None))"

lemma bank_ok_front:
  assumes "bank_ok key bank n" "unat n < length bank"
  shows "bank_ok key (case key (unat n) of None \<Rightarrow> bank | Some pk \<Rightarrow> bank[unat n := pk]) (of_nat (unat n + 1))"
    "unat (of_nat (unat n + 1) :: u16) = unat n + 1"
proof -
  have small: "unat (of_nat m :: u16) = m" if "m \<le> 65535" for m using that by (simp add: unat_of_nat)
  show n: "unat (of_nat (unat n + 1) :: u16) = unat n + 1"
    by (rule small) (use assms in \<open>simp add: bank_ok_def\<close>)
  show "bank_ok key (case key (unat n) of None \<Rightarrow> bank | Some pk \<Rightarrow> bank[unat n := pk]) (of_nat (unat n + 1))"
    using assms unfolding bank_ok_def n by (auto simp: nth_list_update less_Suc_eq split: option.split)
qed

lemma bank_ok_hit:
  assumes "bank_ok (chain_key cr acct c) bank n" "i < unat n" "bank ! i = target" "length bank = bank_size eb c"
  shows "hit_ok cr acct target eb (of_nat i, c)"
proof -
  have "unat (of_nat i :: u16) = i" using assms(1,2) by (simp add: bank_ok_def unat_of_nat)
  then show ?thesis using assms by (auto simp: bank_ok_def hit_ok_def)
qed

text \<open>How much the search may still extend, and what it has ruled out.\<close>

definition unfilled :: "ext_banks \<Rightarrow> nat" where
  "unfilled eb = (length (eb_recv eb) - unat (eb_recv_n eb)) + (length (eb_chg eb) - unat (eb_chg_n eb))"

definition ruled_out :: "'pt crypto \<Rightarrow> xprv \<Rightarrow> bytes \<Rightarrow> ext_banks \<Rightarrow> bool" where
  "ruled_out cr acct target eb \<longleftrightarrow>
     (\<forall>i < unat (eb_recv_n eb). chain_key cr acct False i \<noteq> Some target) \<and>
     (\<forall>i < unat (eb_chg_n eb). chain_key cr acct True i \<noteq> Some target)"

definition same_size :: "ext_banks \<Rightarrow> ext_banks \<Rightarrow> bool" where
  "same_size a b \<longleftrightarrow> length (eb_recv a) = length (eb_recv b) \<and> length (eb_chg a) = length (eb_chg b)"

lemma chain_key_parent:
  assumes "i < 65536"
  shows "chain_parent_new cr acct 0 = Inr cp \<Longrightarrow> x_only_of cr (chain_parent_derive cr cp (of_nat i)) = chain_key cr acct False i"
    "chain_parent_new cr acct 1 = Inr cp \<Longrightarrow> x_only_of cr (chain_parent_derive cr cp (of_nat i)) = chain_key cr acct True i"
proof -
  have "(ucast (of_nat i :: u16) :: u32) = of_nat i"
    using assms by (simp add: word_unat_eq_iff unsigned_ucast_eq unat_of_nat take_bit_nat_eq_self)
  then show "chain_parent_new cr acct 0 = Inr cp \<Longrightarrow> x_only_of cr (chain_parent_derive cr cp (of_nat i)) = chain_key cr acct False i"
    "chain_parent_new cr acct 1 = Inr cp \<Longrightarrow> x_only_of cr (chain_parent_derive cr cp (of_nat i)) = chain_key cr acct True i"
    by (simp_all add: chain_key_def address_key_chain)
qed

definition advances :: "'pt crypto \<Rightarrow> xprv \<Rightarrow> bytes \<Rightarrow> ext_banks \<Rightarrow> (u16 \<times> bool) option \<times> ext_banks \<Rightarrow> bool" where
  "advances cr acct target eb step \<longleftrightarrow>
     banks_ok cr acct (snd step) \<and> same_size (snd step) eb \<and> unfilled (snd step) < unfilled eb \<and>
     (case fst step of Some hit \<Rightarrow> hit_ok cr acct target eb hit | None \<Rightarrow> ruled_out cr acct target (snd step))"

lemma scan_step:
  assumes ok: "banks_ok cr acct eb" "ruled_out cr acct target eb"
  shows "chain_parent_new cr acct 0 = Inr cp \<Longrightarrow> unat (eb_recv_n eb) < length (eb_recv eb) \<Longrightarrow>
      advances cr acct target eb (scan_recv cr cp target eb)"
    "chain_parent_new cr acct 1 = Inr cp \<Longrightarrow> unat (eb_chg_n eb) < length (eb_chg eb) \<Longrightarrow>
      advances cr acct target eb (scan_chg cr cp target eb)"
proof -
  have le: "length (eb_recv eb) \<le> 65535" "length (eb_chg eb) \<le> 65535"
    using ok by (simp_all add: banks_ok_def bank_ok_def)
  have conv: "unat (of_nat (unat w) :: u16) = unat w" for w :: u16
    by simp
  {
    assume cp: "chain_parent_new cr acct 0 = Inr cp" and n: "unat (eb_recv_n eb) < length (eb_recv eb)"
    note front = bank_ok_front [OF _ n, where key = "chain_key cr acct False"]
    have key: "x_only_of cr (chain_parent_derive cr cp (of_nat (unat (eb_recv_n eb)))) = chain_key cr acct False (unat (eb_recv_n eb))"
      by (rule chain_key_parent(1) [OF _ cp]) (use n le in simp)
    show "advances cr acct target eb (scan_recv cr cp target eb)"
      using front ok n unfolding scan_recv_def Let_def key
      by (cases "chain_key cr acct False (unat (eb_recv_n eb))")
        (simp_all only: advances_def banks_ok_def fst_conv snd_conv option.case ext_banks.simps same_size_def unfilled_def
          ruled_out_def hit_ok_def bank_size_def if_True if_False case_prod_conv conv split: if_split, auto simp: less_Suc_eq)
  next
    assume cp: "chain_parent_new cr acct 1 = Inr cp" and n: "unat (eb_chg_n eb) < length (eb_chg eb)"
    note front = bank_ok_front [OF _ n, where key = "chain_key cr acct True"]
    have key: "x_only_of cr (chain_parent_derive cr cp (of_nat (unat (eb_chg_n eb)))) = chain_key cr acct True (unat (eb_chg_n eb))"
      by (rule chain_key_parent(2) [OF _ cp]) (use n le in simp)
    show "advances cr acct target eb (scan_chg cr cp target eb)"
      using front ok n unfolding scan_chg_def Let_def key
      by (cases "chain_key cr acct True (unat (eb_chg_n eb))")
        (simp_all only: advances_def banks_ok_def fst_conv snd_conv option.case ext_banks.simps same_size_def unfilled_def
          ruled_out_def hit_ok_def bank_size_def if_True if_False case_prod_conv conv split: if_split, auto simp: less_Suc_eq)
  }
qed


text \<open>What a search does: it ends, keeps the banks valid, and its answer is right.\<close>

definition search_ok :: "'pt crypto \<Rightarrow> xprv \<Rightarrow> bytes \<Rightarrow> ext_banks \<Rightarrow> (u16 \<times> bool) option \<times> ext_banks \<Rightarrow> bool" where
  "search_ok cr acct target eb r \<longleftrightarrow>
     banks_ok cr acct (snd r) \<and> same_size (snd r) eb \<and>
     (case fst r of
        Some hit \<Rightarrow> hit_ok cr acct target eb hit
      | None \<Rightarrow> ruled_out cr acct target (snd r) \<and> unfilled (snd r) = 0)"

lemma scan_loop_ends:
  assumes cp: "chain_parent_new cr acct 0 = Inr chain_recv" "chain_parent_new cr acct 1 = Inr chain_chg"
  shows "banks_ok cr acct eb \<Longrightarrow> ruled_out cr acct target eb \<Longrightarrow>
    \<exists>r. ext_scan_loop cr chain_recv chain_chg target eb = Some r \<and> search_ok cr acct target eb r"
proof (induction "unfilled eb" arbitrary: eb rule: less_induct)
  case less
  let ?full = "unat (eb_recv_n eb) \<ge> length (eb_recv eb) \<and> unat (eb_chg_n eb) \<ge> length (eb_chg eb)"
  let ?take = "unat (eb_recv_n eb) < length (eb_recv eb) \<and>
    (unat (eb_recv_n eb) \<le> unat (eb_chg_n eb) \<or> unat (eb_chg_n eb) \<ge> length (eb_chg eb))"
  define step where "step = (if ?take then scan_recv cr chain_recv target eb else scan_chg cr chain_chg target eb)"
  show ?case
  proof (cases ?full)
    case True
    then have "ext_scan_loop cr chain_recv chain_chg target eb = Some (None, eb)"
      by (subst ext_scan_loop.simps) (simp add: Let_def)
    moreover have "search_ok cr acct target eb (None, eb)"
      using True less.prems by (simp add: search_ok_def same_size_def unfilled_def)
    ultimately show ?thesis by blast
  next
    case False
    have unfold: "ext_scan_loop cr chain_recv chain_chg target eb =
        (case fst step of Some hit \<Rightarrow> Some (Some hit, snd step) | None \<Rightarrow> ext_scan_loop cr chain_recv chain_chg target (snd step))"
      by (subst ext_scan_loop.simps) (simp only: Let_def if_not_P [OF False] step_def)
    have adv: "advances cr acct target eb step"
    proof (cases ?take)
      case True
      then show ?thesis using scan_step(1) [OF less.prems cp(1)] by (simp add: step_def)
    next
      case no: False
      then have "unat (eb_chg_n eb) < length (eb_chg eb)" using False by auto
      then show ?thesis using scan_step(2) [OF less.prems cp(2)] no by (simp only: step_def if_False)
    qed
    show ?thesis
    proof (cases "fst step")
      case (Some hit)
      then show ?thesis using adv unfolding unfold by (simp add: advances_def search_ok_def)
    next
      case None
      have n: "unfilled (snd step) < unfilled eb" "banks_ok cr acct (snd step)" "ruled_out cr acct target (snd step)"
        "same_size (snd step) eb"
        using adv None by (simp_all add: advances_def)
      obtain r where "ext_scan_loop cr chain_recv chain_chg target (snd step) = Some r" "search_ok cr acct target (snd step) r"
        using less.hyps [OF n(1-3)] by blast
      then show ?thesis using None n(4) unfolding unfold by (auto simp: search_ok_def hit_ok_def bank_size_def same_size_def split: option.splits)
    qed
  qed
qed

lemma ext_find_none:
  assumes "banks_ok cr acct eb" "ext_find_pubkey eb target = None"
  shows "ruled_out cr acct target eb"
  using assms
  by (auto simp: ext_find_pubkey_def ruled_out_def banks_ok_def bank_ok_def find_None_iff split: option.splits)

lemma ext_find_some:
  assumes "banks_ok cr acct eb" "ext_find_pubkey eb target = Some hit"
  shows "hit_ok cr acct target eb hit"
  using assms bank_ok_hit [of cr acct False "eb_recv eb" "eb_recv_n eb" _ target eb] bank_ok_hit [of cr acct True "eb_chg eb" "eb_chg_n eb" _ target eb]
  by (auto simp: ext_find_pubkey_def banks_ok_def bank_size_def find_Some_iff split: option.splits)

section \<open>Finding the position of a key\<close>

text \<open>
  What the signing code asks of a search: with the banks (\<open>ext_scan_find\<close>) or, where there are none,
  with the scan of fixed depth. \<open>chains_ok\<close>: both chain keys of the account can be derived. Signing
  relies on every position within reach having a key (a derivation fails with probability 2^-127).
\<close>

definition chains_ok :: "'pt crypto \<Rightarrow> xprv \<Rightarrow> bool" where
  "chains_ok cr acct \<longleftrightarrow>
     (case chain_parent_new cr acct 0 of Inl _ \<Rightarrow> False | Inr _ \<Rightarrow> True) \<and>
     (case chain_parent_new cr acct 1 of Inl _ \<Rightarrow> False | Inr _ \<Rightarrow> True)"

definition find_key ::
  "'pt crypto \<Rightarrow> xprv \<Rightarrow> ext_banks option \<Rightarrow> bytes \<Rightarrow> ((u16 \<times> bool) option \<times> ext_banks option) option"
where
  "find_key cr acct ext target =
     (case ext of
        Some eb \<Rightarrow> map_option (\<lambda>(found, eb). (found, Some eb)) (ext_scan_find cr acct eb target)
      | None \<Rightarrow> Some (find_address_index_for_pubkey cr acct target, None))"

definition reach :: "ext_banks option \<Rightarrow> bool \<Rightarrow> nat" where
  "reach ext c = (case ext of None \<Rightarrow> SIGN_MATCH_DEPTH | Some eb \<Rightarrow> bank_size eb c)"

definition ext_ok :: "'pt crypto \<Rightarrow> xprv \<Rightarrow> ext_banks option \<Rightarrow> bool" where
  "ext_ok cr acct ext \<longleftrightarrow> chains_ok cr acct \<and> (case ext of None \<Rightarrow> True | Some eb \<Rightarrow> banks_ok cr acct eb) \<and>
     (\<forall>c. \<forall>i < reach ext c. chain_key cr acct c i \<noteq> None)"

lemma ext_scan_search:
  assumes "chains_ok cr acct" "banks_ok cr acct eb"
  shows "\<exists>found eb'. ext_scan_find cr acct eb target = Some (found, eb') \<and> search_ok cr acct target eb (found, eb')"
proof (cases "ext_find_pubkey eb target")
  case (Some hit)
  then show ?thesis
    using assms ext_find_some [OF assms(2) Some] by (simp add: ext_scan_find_def same_size_def search_ok_def)
next
  case None
  obtain r c where "chain_parent_new cr acct 0 = Inr r" "chain_parent_new cr acct 1 = Inr c"
    using assms(1) by (auto simp: chains_ok_def split: sum.splits)
  then show ?thesis
    using None scan_loop_ends [of cr acct r c, OF _ _ assms(2) ext_find_none [OF assms(2) None]]
    by (auto simp: ext_scan_find_def)
qed

locale key_finder =
  fixes find :: "'e \<Rightarrow> bytes \<Rightarrow> ((u16 \<times> bool) option \<times> 'e) option"
    and inv :: "'e \<Rightarrow> bool"
    and key :: "bool \<Rightarrow> nat \<Rightarrow> bytes option"
    and depth :: "'e \<Rightarrow> bool \<Rightarrow> nat"
  assumes finds: "inv e \<Longrightarrow> \<exists>found e'. find e t = Some (found, e') \<and> inv e' \<and> depth e' = depth e \<and>
    (case found of
       Some (i, c) \<Rightarrow> unat i < depth e c \<and> key c (unat i) = Some t
     | None \<Rightarrow> \<forall>c. \<forall>i < depth e c. key c i \<noteq> Some t)"

interpretation finder: key_finder "find_key cr acct" "ext_ok cr acct" "chain_key cr acct" reach for cr acct
proof unfold_locales
  fix ext t assume ok: "ext_ok cr acct ext"
  show "\<exists>found e'. find_key cr acct ext t = Some (found, e') \<and> ext_ok cr acct e' \<and> reach e' = reach ext \<and>
    (case found of
       Some (i, c) \<Rightarrow> unat i < reach ext c \<and> chain_key cr acct c (unat i) = Some t
     | None \<Rightarrow> \<forall>c. \<forall>i < reach ext c. chain_key cr acct c i \<noteq> Some t)"
  proof (cases ext)
    case None
    then show ?thesis
      using ok scan_chains_sound [of cr acct SIGN_MATCH_DEPTH t] scan_chains_complete [of cr acct SIGN_MATCH_DEPTH t]
      by (auto simp: find_key_def find_address_scan reach_def SIGN_MATCH_DEPTH_def split: option.split)
  next
    case (Some eb)
    then obtain found eb' where r: "ext_scan_find cr acct eb t = Some (found, eb')" "banks_ok cr acct eb'" "same_size eb' eb"
        and res: "search_ok cr acct t eb (found, eb')"
      using ok ext_scan_search [of cr acct eb t] by (auto simp: ext_ok_def search_ok_def)
    have miss: "\<forall>c. \<forall>i < reach ext c. chain_key cr acct c i \<noteq> Some t" if "found = None"
    proof -
      have "length (eb_recv eb) \<le> unat (eb_recv_n eb')" "length (eb_chg eb) \<le> unat (eb_chg_n eb')"
        using that res r(3) by (auto simp: unfilled_def same_size_def search_ok_def)
      then show ?thesis
        using that res Some by (auto simp: ruled_out_def reach_def bank_size_def search_ok_def dest: less_le_trans split: if_splits)
    qed
    have hit: "unat i < reach ext c \<and> chain_key cr acct c (unat i) = Some t" if "found = Some (i, c)" for i c
    proof -
      have "unat i < reach ext c" "chain_key cr acct c (unat i) = Some t \<or> chain_key cr acct c (unat i) = None"
        using that res Some by (simp_all add: search_ok_def hit_ok_def reach_def)
      then show ?thesis using ok unfolding ext_ok_def by blast
    qed
    have "reach (Some eb') = reach ext" using r(3) Some by (simp add: reach_def fun_eq_iff same_size_def bank_size_def)
    then show ?thesis
      using r miss hit ok Some by (cases found) (auto simp: find_key_def ext_ok_def)
  qed
qed

section \<open>Properties\<close>

text \<open>
  C19: The search that extends the banks always ends, for banks of at most 65535 slots, whatever key is
  asked for: the banks stay valid (below the front, every slot whose position has a key holds it) and
  keep their sizes; a result is a position of the key or, for a stale slot, one whose own derivation
  fails; and without a result no position of either bank has the key.
\<close>

theorem ext_scan_find_ends:
  assumes "chains_ok cr acct" "banks_ok cr acct eb"
  shows "\<exists>found eb'. ext_scan_find cr acct eb target = Some (found, eb') \<and>
    banks_ok cr acct eb' \<and> length (eb_recv eb') = length (eb_recv eb) \<and> length (eb_chg eb') = length (eb_chg eb) \<and>
    (case found of
       Some (i, c) \<Rightarrow> unat i < bank_size eb c \<and>
         (chain_key cr acct c (unat i) = Some target \<or> chain_key cr acct c (unat i) = None)
     | None \<Rightarrow> (\<forall>i < length (eb_recv eb). chain_key cr acct False i \<noteq> Some target) \<and>
               (\<forall>i < length (eb_chg eb). chain_key cr acct True i \<noteq> Some target))"
proof -
  obtain found eb' where r: "ext_scan_find cr acct eb target = Some (found, eb')" "search_ok cr acct target eb (found, eb')"
    using ext_scan_search [OF assms] by blast
  show ?thesis
  proof (intro exI conjI)
    show "ext_scan_find cr acct eb target = Some (found, eb')" by (rule r(1))
  qed (use r(2) in \<open>auto simp: search_ok_def same_size_def hit_ok_def ruled_out_def unfilled_def dest: less_le_trans split: option.splits\<close>)
qed

definition sample_banks :: ext_banks where
  "sample_banks = \<lparr>eb_recv = replicate 3 (replicate 32 0), eb_recv_n = 0, eb_chg = replicate 2 (replicate 32 0), eb_chg_n = 0\<rparr>"

lemma sample_banks_ok: "banks_ok cr acct sample_banks"
  by (simp add: banks_ok_def bank_ok_def sample_banks_def)

theorem ext_scan_find_ends_witness:
  "\<exists>found eb. ext_scan_find sample_crypto sample_xprv sample_banks (replicate 32 9) = Some (found, eb) \<and>
     banks_ok sample_crypto sample_xprv eb \<and> length (eb_recv eb) = 3"
proof -
  obtain cache where "chain_cache_build sample_crypto (xprv_to_raw sample_xprv) = Inr cache"
    using sample_cache by blast
  moreover have "xprv_from_raw (xprv_to_raw sample_xprv) = sample_xprv"
    by (rule xprv_raw_roundtrip) (simp_all add: sample_xprv_def)
  ultimately have "chains_ok sample_crypto sample_xprv"
    by (auto simp: chain_cache_build_def Let_def tryR_eq_Inr chains_ok_def)
  from ext_scan_find_ends [OF this sample_banks_ok, of "replicate 32 9"] show ?thesis
    by (auto simp: sample_banks_def)
qed

end
