(* ===== verification/KasSigning.thy ===== *)
theory KasSigning
  imports KasSighash KasSchnorr KasExtBanks KasKspt
begin

text \<open>
  Signing with one key and with the keys of one account (core/src/wallet/pskt.rs, \<open>sign_transaction\<close>,
  \<open>sign_transaction_in_place\<close>, \<open>sign_transaction_multi_addr\<close>; sighash.rs, \<open>sign_input\<close>). The entropy source
  is a parameter: \<open>rng k\<close> is what it delivers to the \<open>k\<close>-th signature of a pass (\<open>None\<close>: it fails).
\<close>

section \<open>One input\<close>

definition sign_input ::
  "'pt crypto \<Rightarrow> ('pt, 'sc) curve \<Rightarrow> bytes option \<Rightarrow> transaction \<Rightarrow> nat \<Rightarrow> bytes \<Rightarrow> sighash_type \<Rightarrow> schnorr_error + bytes"
where
  "sign_input cr cv entropy tx i private_key ty =
     schnorr_sign cr cv entropy private_key (calculate_sighash tx i ty)"

definition sign_input_cached ::
  "'pt crypto \<Rightarrow> ('pt, 'sc) curve \<Rightarrow> bytes option \<Rightarrow> transaction \<Rightarrow> nat \<Rightarrow> bytes \<Rightarrow> sighash_type \<Rightarrow> sighash_reuse \<Rightarrow> schnorr_error + bytes"
where
  "sign_input_cached cr cv entropy tx i private_key ty reuse =
     schnorr_sign cr cv entropy private_key (calculate_sighash_cached tx i ty reuse)"

section \<open>One key for all inputs\<close>

definition sign_transaction ::
  "'pt crypto \<Rightarrow> ('pt, 'sc) curve \<Rightarrow> (nat \<Rightarrow> bytes option) \<Rightarrow> transaction \<Rightarrow> bytes \<Rightarrow> sighash_type \<Rightarrow> pskt_error + signed_response"
where
  "sign_transaction cr cv rng tx private_key ty =
     (case forE [0..<tx_num_inputs tx] (\<lambda>i.
             (case sign_input cr cv (rng i) tx i private_key ty of
                Inl _ \<Rightarrow> fail NoInputs
              | Inr sig \<Rightarrow> add_signature (of_nat i) ty sig)) signed_response_new of
        (Inl e, _) \<Rightarrow> Inl e
      | (Inr _, response) \<Rightarrow> Inr response)"

definition store_legacy_sig :: "nat \<Rightarrow> bytes \<Rightarrow> sighash_type \<Rightarrow> transaction \<Rightarrow> transaction" where
  "store_legacy_sig i sig ty =
     upd_in i (in_signature_update (\<lambda>_. sig) \<circ> in_sig_len_update (\<lambda>_. 64) \<circ> in_sighash_type_update (\<lambda>_. sighash_to_byte ty))"

definition sign_transaction_in_place ::
  "'pt crypto \<Rightarrow> ('pt, 'sc) curve \<Rightarrow> (nat \<Rightarrow> bytes option) \<Rightarrow> bytes \<Rightarrow> sighash_type \<Rightarrow> (transaction, pskt_error, nat) step"
where
  "sign_transaction_in_place cr cv rng private_key ty tx =
     thenE (forE [0..<tx_num_inputs tx] (\<lambda>i tx.
              (case sign_input cr cv (rng i) tx i private_key ty of
                 Inl _ \<Rightarrow> (Inl NoInputs, tx)
               | Inr sig \<Rightarrow> (Inr (), store_legacy_sig i sig ty tx))))
       (\<lambda>tx. (Inr (tx_num_inputs tx), tx)) tx"

section \<open>The stealth key\<close>

definition stealth_combined_key :: "'pt crypto \<Rightarrow> ('pt, 'sc) curve \<Rightarrow> xprv \<Rightarrow> bytes \<Rightarrow> (bytes \<times> bytes) option" where
  "stealth_combined_key cr cv account_key tweak =
     (if \<not> cr_scalar_ok cr (xk_key account_key) then None
      else
        let s = cv_scalar cv (xk_key account_key);
            acct_scalar = (if cr_encode cr (cv_gen cv s) ! 0 = 0x03 then cv_neg cv s else s)
        in if \<not> cr_scalar_ok cr tweak then None
           else
             let combined = cv_add cv acct_scalar (cv_scalar cv tweak);
                 enc = cr_encode cr (cv_gen cv combined)
             in if length enc \<noteq> 33 then None else Some (cv_to_bytes cv combined, enc))"

section \<open>Phase 1: where each input's key is\<close>

record 'e resolve =
  rs_idx :: "u16 list"
  rs_flags :: "u8 list"
  rs_memo :: "(bytes \<times> u16 \<times> bool) option"
  rs_ext :: 'e

text \<open>The 32 key bytes of a standard P2PK script.\<close>

definition p2pk_target :: "script_public_key \<Rightarrow> bytes option" where
  "p2pk_target spk =
     (if spk_script_len spk \<noteq> 34 \<or> spk_script spk ! 0 \<noteq> 0x20 \<or> spk_script spk ! 33 \<noteq> 0xAC then None
      else Some (slice 1 32 (spk_script spk)))"

definition input_spk :: "transaction \<Rightarrow> nat \<Rightarrow> script_public_key" where
  "input_spk tx i = utxo_spk (in_utxo (tx_inputs tx ! i))"

definition set_found :: "nat \<Rightarrow> (u16 \<times> bool) option \<Rightarrow> 'e resolve \<Rightarrow> 'e resolve" where
  "set_found i found rs =
     (case found of
        Some (idx, is_change) \<Rightarrow>
          rs\<lparr>rs_idx := (rs_idx rs)[i := idx],
             rs_flags := (rs_flags rs)[i := 1 OR push_bit 1 (if is_change then 1 else 0)]\<rparr>
      | None \<Rightarrow> rs\<lparr>rs_flags := (rs_flags rs)[i := 2]\<rparr>)"

definition is_stealth :: "(bytes \<times> bytes) option \<Rightarrow> bytes \<Rightarrow> bool" where
  "is_stealth stealth target \<longleftrightarrow> (case stealth of None \<Rightarrow> False | Some (_, pk) \<Rightarrow> slice 1 32 pk = target)"

definition resolve_input ::
  "('e \<Rightarrow> bytes \<Rightarrow> ((u16 \<times> bool) option \<times> 'e) option) \<Rightarrow> (bytes \<times> bytes) option \<Rightarrow> transaction \<Rightarrow> nat \<Rightarrow> 'e resolve \<Rightarrow> 'e resolve option"
where
  "resolve_input seek stealth tx i rs =
     (case p2pk_target (input_spk tx i) of
        None \<Rightarrow> Some rs
      | Some target \<Rightarrow>
          if is_stealth stealth target then Some (rs\<lparr>rs_flags := (rs_flags rs)[i := 2]\<rparr>)
          else
            (case (case rs_memo rs of Some (pk, hit) \<Rightarrow> if pk = target then Some hit else None | None \<Rightarrow> None) of
               Some hit \<Rightarrow> Some (set_found i (Some hit) rs)
             | None \<Rightarrow>
                 (case seek (rs_ext rs) target of
                    None \<Rightarrow> None
                  | Some (found, ext) \<Rightarrow>
                      Some (set_found i found
                        (rs\<lparr>rs_ext := ext,
                            rs_memo := (case found of Some hit \<Rightarrow> Some (target, hit) | None \<Rightarrow> rs_memo rs)\<rparr>)))))"

fun resolve_all ::
  "('e \<Rightarrow> bytes \<Rightarrow> ((u16 \<times> bool) option \<times> 'e) option) \<Rightarrow> (bytes \<times> bytes) option \<Rightarrow> transaction \<Rightarrow> nat list \<Rightarrow> 'e resolve \<Rightarrow> 'e resolve option"
where
  "resolve_all seek stealth tx [] rs = Some rs"
| "resolve_all seek stealth tx (i # is) rs =
     (case resolve_input seek stealth tx i rs of None \<Rightarrow> None | Some rs \<Rightarrow> resolve_all seek stealth tx is rs)"

section \<open>Phase 2: signing\<close>

record signing =
  sg_tx :: transaction
  sg_memo :: "(bytes \<times> bytes \<times> bytes) option"
  sg_recv :: "chain_parent option"
  sg_chg :: "chain_parent option"
  sg_count :: nat
  sg_calls :: nat

definition store_single_sig :: "nat \<Rightarrow> bytes \<Rightarrow> sighash_type \<Rightarrow> bytes \<Rightarrow> transaction \<Rightarrow> transaction" where
  "store_single_sig i sig ty pubkey =
     upd_in i (in_sig_count_update (\<lambda>_. 1)
       \<circ> in_sigs_update (\<lambda>sigs. sigs[0 := \<lparr>sig_signature = sig, sig_sighash_type = sighash_to_byte ty,
             sig_pubkey_pos = 0, sig_present = True, sig_pubkey_compressed = pubkey\<rparr>]))
     \<circ> store_legacy_sig i sig ty"

text \<open>Sign and store; a refusal of the signer ends the pass.\<close>

definition sign_and_store ::
  "'pt crypto \<Rightarrow> ('pt, 'sc) curve \<Rightarrow> (nat \<Rightarrow> bytes option) \<Rightarrow> sighash_type \<Rightarrow> sighash_reuse \<Rightarrow> nat \<Rightarrow> bytes \<Rightarrow> bytes \<Rightarrow> (signing, pskt_error, unit) step"
where
  "sign_and_store cr cv rng ty reuse i privkey pubkey sg =
     (case sign_input_cached cr cv (rng (sg_calls sg)) (sg_tx sg) i privkey ty reuse of
        Inl _ \<Rightarrow> (Inl NoInputs, sg\<lparr>sg_calls := sg_calls sg + 1\<rparr>)
      | Inr sig \<Rightarrow> (Inr (), sg\<lparr>sg_tx := store_single_sig i sig ty pubkey (sg_tx sg),
                              sg_count := sg_count sg + 1, sg_calls := sg_calls sg + 1\<rparr>))"

definition memoize_key :: "'pt crypto \<Rightarrow> xprv \<Rightarrow> u16 \<Rightarrow> bool \<Rightarrow> bytes \<Rightarrow> signing \<Rightarrow> signing" where
  "memoize_key cr account_key idx is_change target sg =
     (let slot = (if is_change then sg_chg sg else sg_recv sg);
          slot = (case slot of
                    Some chain \<Rightarrow> Some chain
                  | None \<Rightarrow> (case chain_parent_new cr account_key (if is_change then 1 else 0) of
                               Inl _ \<Rightarrow> None | Inr chain \<Rightarrow> Some chain));
          sg = (if is_change then sg\<lparr>sg_chg := slot\<rparr> else sg\<lparr>sg_recv := slot\<rparr>);
          key_result = (case slot of
                          Some chain \<Rightarrow> chain_parent_derive cr chain (ucast idx)
                        | None \<Rightarrow> if is_change then derive_change_key cr account_key idx
                                 else derive_address_key cr account_key idx)
      in case key_result of
           Inl _ \<Rightarrow> sg
         | Inr addr_key \<Rightarrow>
             (case public_key_compressed cr addr_key of
                Inl _ \<Rightarrow> sg
              | Inr pk_c \<Rightarrow> sg\<lparr>sg_memo := Some (target, xk_key addr_key, pk_c)\<rparr>))"

definition sign_resolved ::
  "'pt crypto \<Rightarrow> ('pt, 'sc) curve \<Rightarrow> (nat \<Rightarrow> bytes option) \<Rightarrow> xprv \<Rightarrow> sighash_type \<Rightarrow> sighash_reuse \<Rightarrow>
   (bytes \<times> bytes) option \<Rightarrow> u16 list \<Rightarrow> u8 list \<Rightarrow> nat \<Rightarrow> (signing, pskt_error, unit) step"
where
  "sign_resolved cr cv rng account_key ty reuse stealth idxs flags i sg =
     (if flags ! i = 0 then (Inr (), sg)
      else
        let target = slice 1 32 (spk_script (input_spk (sg_tx sg) i))
        in if flags ! i AND 1 \<noteq> 0 then
             (let is_change = (flags ! i AND 2 \<noteq> 0);
                  need_derive = (case sg_memo sg of Some (pk, _, _) \<Rightarrow> pk \<noteq> target | None \<Rightarrow> True);
                  sg = (if need_derive then memoize_key cr account_key (idxs ! i) is_change target sg else sg)
              in case sg_memo sg of
                   Some (_, privkey, pk_c) \<Rightarrow> sign_and_store cr cv rng ty reuse i privkey pk_c sg
                 | None \<Rightarrow> (Inr (), sg))
           else if flags ! i = 2 \<and> tx_has_stealth_tweak (sg_tx sg) then
             (case stealth of
                None \<Rightarrow> (Inr (), sg)
              | Some (privkey, pk) \<Rightarrow>
                  if slice 1 32 pk \<noteq> target then (Inr (), sg)
                  else sign_and_store cr cv rng ty reuse i privkey pk sg)
           else (Inr (), sg))"

text \<open>
  The result, the transaction (also when signing stops half-way) and the banks as they are left;
  \<open>None\<close> if the search for a key does not end.
\<close>

definition sign_transaction_multi_addr ::
  "'pt crypto \<Rightarrow> ('pt, 'sc) curve \<Rightarrow> (nat \<Rightarrow> bytes option) \<Rightarrow> xprv \<Rightarrow> sighash_type \<Rightarrow> transaction \<Rightarrow> ext_banks option \<Rightarrow>
   ((pskt_error + nat) \<times> transaction \<times> ext_banks option) option"
where
  "sign_transaction_multi_addr cr cv rng account_key ty tx ext =
     (let stealth = (if tx_has_stealth_tweak tx then stealth_combined_key cr cv account_key (tx_stealth_tweak tx) else None)
      in case resolve_all (find_key cr account_key) stealth tx [0..<tx_num_inputs tx]
                \<lparr>rs_idx = replicate MAX_INPUTS 0, rs_flags = replicate MAX_INPUTS 0, rs_memo = None, rs_ext = ext\<rparr> of
           None \<Rightarrow> None
         | Some rs \<Rightarrow>
             (case forE [0..<tx_num_inputs tx]
                     (sign_resolved cr cv rng account_key ty (sighash_reuse_compute tx ty) stealth (rs_idx rs) (rs_flags rs))
                     \<lparr>sg_tx = tx, sg_memo = None, sg_recv = None, sg_chg = None, sg_count = 0, sg_calls = 0\<rparr> of
                (Inl e, sg) \<Rightarrow> Some (Inl e, sg_tx sg, rs_ext rs)
              | (Inr _, sg) \<Rightarrow> Some (if sg_count sg = 0 then Inl NoInputs else Inr (sg_count sg), sg_tx sg, rs_ext rs)))"


section \<open>Resolving\<close>

text \<open>What the flags of an input say, relative to the keys of an account (\<open>key\<close>, known up to \<open>depth\<close>).\<close>

definition resolved ::
  "(bool \<Rightarrow> nat \<Rightarrow> bytes option) \<Rightarrow> (bool \<Rightarrow> nat) \<Rightarrow> (bytes \<times> bytes) option \<Rightarrow> transaction \<Rightarrow> u16 list \<Rightarrow> u8 list \<Rightarrow> nat \<Rightarrow> bool"
where
  "resolved key depth stealth tx idxs flags i \<longleftrightarrow>
     (case p2pk_target (input_spk tx i) of
        None \<Rightarrow> flags ! i = 0
      | Some t \<Rightarrow>
          flags ! i = 1 \<and> unat (idxs ! i) < depth False \<and> key False (unat (idxs ! i)) = Some t \<and> \<not> is_stealth stealth t
        \<or> flags ! i = 3 \<and> unat (idxs ! i) < depth True \<and> key True (unat (idxs ! i)) = Some t \<and> \<not> is_stealth stealth t
        \<or> flags ! i = 2 \<and> (is_stealth stealth t \<or> (\<forall>c. \<forall>j < depth c. key c j \<noteq> Some t)))"

definition resolve_ok ::
  "('e \<Rightarrow> bool) \<Rightarrow> (bool \<Rightarrow> nat \<Rightarrow> bytes option) \<Rightarrow> ('e \<Rightarrow> bool \<Rightarrow> nat) \<Rightarrow> (bool \<Rightarrow> nat) \<Rightarrow> 'e resolve \<Rightarrow> bool"
where
  "resolve_ok good key depth d rs \<longleftrightarrow>
     good (rs_ext rs) \<and> depth (rs_ext rs) = d \<and>
     length (rs_idx rs) = MAX_INPUTS \<and> length (rs_flags rs) = MAX_INPUTS \<and>
     (\<forall>pk idx c. rs_memo rs = Some (pk, idx, c) \<longrightarrow> unat idx < d c \<and> key c (unat idx) = Some pk)"

lemma set_found_fields [simp]:
  "rs_ext (set_found i found rs) = rs_ext rs" "rs_memo (set_found i found rs) = rs_memo rs"
  "length (rs_idx (set_found i found rs)) = length (rs_idx rs)"
  "length (rs_flags (set_found i found rs)) = length (rs_flags rs)"
  by (auto simp: set_found_def split: option.split)

lemma set_found_other:
  "j \<noteq> i \<Longrightarrow> rs_idx (set_found i found rs) ! j = rs_idx rs ! j"
  "j \<noteq> i \<Longrightarrow> rs_flags (set_found i found rs) ! j = rs_flags rs ! j"
  by (auto simp: set_found_def split: option.split)

lemma set_found_resolved:
  assumes "i < length (rs_idx rs)" "i < length (rs_flags rs)" "p2pk_target (input_spk tx i) = Some t" "\<not> is_stealth stealth t"
    and "case found of Some (idx, c) \<Rightarrow> unat idx < depth c \<and> key c (unat idx) = Some t | None \<Rightarrow> \<forall>c. \<forall>j < depth c. key c j \<noteq> Some t"
  shows "resolved key depth stealth tx (rs_idx (set_found i found rs)) (rs_flags (set_found i found rs)) i"
  using assms by (auto simp: resolved_def set_found_def split: option.splits)

context key_finder
begin

lemma resolve_input_ok:
  assumes "resolve_ok inv key depth d rs" "i < MAX_INPUTS"
  shows "\<exists>rs'. resolve_input find stealth tx i rs = Some rs' \<and> resolve_ok inv key depth d rs' \<and>
    (p2pk_target (input_spk tx i) \<noteq> None \<or> rs_flags rs ! i = 0 \<longrightarrow>
       resolved key d stealth tx (rs_idx rs') (rs_flags rs') i) \<and>
    (\<forall>j. j \<noteq> i \<longrightarrow> rs_idx rs' ! j = rs_idx rs ! j \<and> rs_flags rs' ! j = rs_flags rs ! j)"
proof -
  have ok: "inv (rs_ext rs)" "depth (rs_ext rs) = d" "length (rs_idx rs) = MAX_INPUTS" "length (rs_flags rs) = MAX_INPUTS"
    and memo: "\<And>pk idx c. rs_memo rs = Some (pk, idx, c) \<Longrightarrow> unat idx < d c \<and> key c (unat idx) = Some pk"
    using assms(1) by (auto simp: resolve_ok_def)
  consider (skip) "p2pk_target (input_spk tx i) = None"
    | (stealth) t where "p2pk_target (input_spk tx i) = Some t" "is_stealth stealth t"
    | (memo) t idx c where "p2pk_target (input_spk tx i) = Some t" "\<not> is_stealth stealth t" "rs_memo rs = Some (t, idx, c)"
    | (search) t where "p2pk_target (input_spk tx i) = Some t" "\<not> is_stealth stealth t"
        "\<And>hit. rs_memo rs \<noteq> Some (t, hit)"
    by (cases "p2pk_target (input_spk tx i)") auto
  then show ?thesis
  proof cases
    case skip
    then show ?thesis using assms by (auto simp: resolve_input_def resolved_def)
  next
    case stealth
    then show ?thesis using assms ok memo by (auto simp: resolve_input_def resolved_def resolve_ok_def)
  next
    case (memo t idx c)
    have "resolved key d stealth tx (rs_idx (set_found i (Some (idx, c)) rs)) (rs_flags (set_found i (Some (idx, c)) rs)) i"
      by (rule set_found_resolved) (use assms ok memo \<open>\<And>pk idx c. rs_memo rs = Some (pk, idx, c) \<Longrightarrow> unat idx < d c \<and> key c (unat idx) = Some pk\<close> in auto)
    moreover have "resolve_ok inv key depth d (set_found i (Some (idx, c)) rs)" using assms(1) by (simp add: resolve_ok_def)
    ultimately show ?thesis using memo by (auto simp: resolve_input_def set_found_other)
  next
    case (search t)
    obtain found e' where f: "find (rs_ext rs) t = Some (found, e')" "inv e'" "depth e' = depth (rs_ext rs)"
      "case found of Some (i, c) \<Rightarrow> unat i < depth (rs_ext rs) c \<and> key c (unat i) = Some t | None \<Rightarrow> \<forall>c. \<forall>i < depth (rs_ext rs) c. key c i \<noteq> Some t"
      using finds [OF ok(1), of t] by blast
    define rs' where "rs' = rs\<lparr>rs_ext := e', rs_memo := (case found of Some hit \<Rightarrow> Some (t, hit) | None \<Rightarrow> rs_memo rs)\<rparr>"
    have "resolve_input find stealth tx i rs = Some (set_found i found rs')"
      using search f(1) by (auto simp: resolve_input_def rs'_def split: option.split)
    moreover have "resolve_ok inv key depth d (set_found i found rs')"
      using f ok memo by (auto simp: resolve_ok_def rs'_def split: option.splits)
    moreover have "resolved key d stealth tx (rs_idx (set_found i found rs')) (rs_flags (set_found i found rs')) i"
      by (rule set_found_resolved) (use assms ok f search in \<open>auto simp: rs'_def\<close>)
    moreover have "rs_idx rs' = rs_idx rs" "rs_flags rs' = rs_flags rs" by (simp_all add: rs'_def)
    ultimately show ?thesis by (auto simp: set_found_other)
  qed
qed

lemma resolve_all_ok:
  assumes "distinct is" "\<forall>i \<in> set is. i < MAX_INPUTS \<and> rs_flags rs ! i = 0" "resolve_ok inv key depth d rs"
  shows "\<exists>rs'. resolve_all find stealth tx is rs = Some rs' \<and> resolve_ok inv key depth d rs' \<and>
    (\<forall>i \<in> set is. resolved key d stealth tx (rs_idx rs') (rs_flags rs') i) \<and>
    (\<forall>j. j \<notin> set is \<longrightarrow> rs_idx rs' ! j = rs_idx rs ! j \<and> rs_flags rs' ! j = rs_flags rs ! j)"
  using assms
proof (induction "is" arbitrary: rs)
  case (Cons i "is")
  obtain rs1 where r1: "resolve_input find stealth tx i rs = Some rs1" "resolve_ok inv key depth d rs1"
    "resolved key d stealth tx (rs_idx rs1) (rs_flags rs1) i"
    and other: "\<And>j. j \<noteq> i \<Longrightarrow> rs_idx rs1 ! j = rs_idx rs ! j \<and> rs_flags rs1 ! j = rs_flags rs ! j"
    using resolve_input_ok [OF Cons.prems(3), of i stealth tx] Cons.prems(2) by auto
  have "j < MAX_INPUTS \<and> rs_flags rs1 ! j = 0" if "j \<in> set is" for j
  proof -
    have "j \<noteq> i" using that Cons.prems(1) by auto
    then show ?thesis using other [of j] that Cons.prems(2) by simp
  qed
  then obtain rs2 where r2: "resolve_all find stealth tx is rs1 = Some rs2" "resolve_ok inv key depth d rs2"
    "\<forall>i \<in> set is. resolved key d stealth tx (rs_idx rs2) (rs_flags rs2) i"
    and keep: "\<And>j. j \<notin> set is \<Longrightarrow> rs_idx rs2 ! j = rs_idx rs1 ! j \<and> rs_flags rs2 ! j = rs_flags rs1 ! j"
    using Cons.IH [of rs1] Cons.prems(1) r1(2) by auto
  have "i \<notin> set is" using Cons.prems(1) by simp
  then have "resolved key d stealth tx (rs_idx rs2) (rs_flags rs2) i"
    using r1(3) keep [of i] by (simp add: resolved_def cong: option.case_cong)
  then show ?case using r1(1) r2 keep other by auto
qed simp

end


section \<open>Signing resolved inputs\<close>

text \<open>The signed form of input \<open>i\<close>: the signature fields hold a signature of the key in its P2PK script.\<close>

definition single_sig_ok ::
  "'pt crypto \<Rightarrow> ('pt, 'sc) curve \<Rightarrow> sighash_type \<Rightarrow> transaction \<Rightarrow> nat \<Rightarrow> transaction_input \<Rightarrow> bool"
where
  "single_sig_ok cr cv ty tx i inp \<longleftrightarrow>
     (\<exists>sig pk target. p2pk_target (input_spk tx i) = Some target \<and> slice 1 32 pk = target \<and> length sig = 64 \<and>
        schnorr_verify cr cv target (calculate_sighash tx i ty) sig = Inr () \<and>
        inp = tx_inputs (store_single_sig i sig ty pk tx) ! i)"

lemma unsigned_stored: "unsigned_part (store_single_sig i sig ty pk tx) = unsigned_part tx"
  unfolding store_single_sig_def store_legacy_sig_def comp_def
  by (subst unsigned_upd_in, simp add: strip_sigs_def, subst unsigned_upd_in) (simp_all add: strip_sigs_def)

lemma unsigned_same:
  assumes "unsigned_part a = unsigned_part b"
  shows "length (tx_inputs a) = length (tx_inputs b)" "tx_num_inputs a = tx_num_inputs b"
    "tx_has_stealth_tweak a = tx_has_stealth_tweak b"
    "i < length (tx_inputs b) \<Longrightarrow> input_spk a i = input_spk b i"
proof -
  show len: "length (tx_inputs a) = length (tx_inputs b)"
    using arg_cong [OF assms, of "\<lambda>t. length (tx_inputs t)"] by (simp add: unsigned_part_def)
  show "tx_num_inputs a = tx_num_inputs b" "tx_has_stealth_tweak a = tx_has_stealth_tweak b"
    using arg_cong [OF assms, of tx_num_inputs] arg_cong [OF assms, of tx_has_stealth_tweak]
    by (simp_all add: unsigned_part_def)
  assume i: "i < length (tx_inputs b)"
  have "strip_sigs (tx_inputs a ! i) = strip_sigs (tx_inputs b ! i)"
    using arg_cong [OF assms, of "\<lambda>t. tx_inputs t ! i"] i len by (simp add: unsigned_part_def)
  from arg_cong [OF this, of in_utxo] show "input_spk a i = input_spk b i" by (simp add: input_spk_def)
qed

lemma sign_cached_eq:
  assumes "unsigned_part tx' = unsigned_part tx" "i < length (tx_inputs tx)"
  shows "sign_input_cached cr cv e tx' i key ty (sighash_reuse_compute tx ty) =
    schnorr_sign cr cv e key (calculate_sighash tx i ty)"
proof -
  have "sighash_reuse_compute tx ty = sighash_reuse_compute tx' ty"
    using reuse_unsigned [of tx ty] reuse_unsigned [of tx' ty] assms(1) by simp
  moreover have "calculate_sighash tx' i ty = calculate_sighash tx i ty"
    using sighash_unsigned [of i tx ty] sighash_unsigned [of i tx' ty] assms unsigned_same(1) [OF assms(1)] by simp
  ultimately show ?thesis by (simp add: sign_input_cached_def calculate_sighash_def)
qed

lemma stored_inputs:
  assumes "i < length (tx_inputs tx)"
  shows "tx_inputs (store_single_sig i sig ty pk tx) ! j =
    (if j = i then (tx_inputs tx ! i)\<lparr>in_signature := sig, in_sig_len := 64, in_sighash_type := sighash_to_byte ty,
        in_sigs := (in_sigs (tx_inputs tx ! i))[0 := \<lparr>sig_signature = sig, sig_sighash_type = sighash_to_byte ty,
             sig_pubkey_pos = 0, sig_present = True, sig_pubkey_compressed = pk\<rparr>], in_sig_count := 1\<rparr>
     else tx_inputs tx ! j)"
  using assms by (simp add: store_single_sig_def store_legacy_sig_def upd_in_def)

definition memo_ok :: "'pt crypto \<Rightarrow> (bytes \<times> bytes \<times> bytes) option \<Rightarrow> bool" where
  "memo_ok cr m \<longleftrightarrow> (case m of None \<Rightarrow> True | Some (t, privkey, pk) \<Rightarrow>
     cr_sk_ok cr privkey \<and> pk = cr_pubkey cr privkey \<and> slice 1 32 pk = t)"

definition chains_valid :: "'pt crypto \<Rightarrow> xprv \<Rightarrow> signing \<Rightarrow> bool" where
  "chains_valid cr acct sg \<longleftrightarrow>
     (\<forall>cp. sg_recv sg = Some cp \<longrightarrow> chain_parent_new cr acct 0 = Inr cp) \<and>
     (\<forall>cp. sg_chg sg = Some cp \<longrightarrow> chain_parent_new cr acct 1 = Inr cp)"

text \<open>The state of a pass over \<open>tx\<close> in which the inputs of \<open>S\<close> have been signed.\<close>

definition pass_ok ::
  "'pt crypto \<Rightarrow> ('pt, 'sc) curve \<Rightarrow> xprv \<Rightarrow> sighash_type \<Rightarrow> transaction \<Rightarrow> nat set \<Rightarrow> signing \<Rightarrow> bool"
where
  "pass_ok cr cv acct ty tx S sg \<longleftrightarrow>
     unsigned_part (sg_tx sg) = unsigned_part tx \<and> memo_ok cr (sg_memo sg) \<and> chains_valid cr acct sg \<and>
     finite S \<and> sg_count sg = card S \<and>
     (\<forall>i. if i \<in> S then single_sig_ok cr cv ty tx i (tx_inputs (sg_tx sg) ! i) else tx_inputs (sg_tx sg) ! i = tx_inputs tx ! i)"

lemma x_only_key:
  assumes "x_only_of cr r = Some t"
  obtains k where "r = Inr k" "public_key_compressed cr k = Inr (cr_pubkey cr (xk_key k))" "cr_sk_ok cr (xk_key k)"
    "slice 1 32 (cr_pubkey cr (xk_key k)) = t"
  using assms
  by (auto simp: x_only_of_def public_key_x_only_def public_key_compressed_def tryR_def split: sum.splits if_splits)

lemma memoize_key_ok:
  assumes "chains_valid cr acct sg" "chain_key cr acct c (unat idx) = Some t"
  shows "chains_valid cr acct (memoize_key cr acct idx c t sg)"
    "\<exists>k. sg_memo (memoize_key cr acct idx c t sg) = Some (t, k, cr_pubkey cr k) \<and> cr_sk_ok cr k \<and> slice 1 32 (cr_pubkey cr k) = t"
    "sg_tx (memoize_key cr acct idx c t sg) = sg_tx sg" "sg_count (memoize_key cr acct idx c t sg) = sg_count sg"
    "sg_calls (memoize_key cr acct idx c t sg) = sg_calls sg"
proof -
  define r where "r = (if c then derive_change_key cr acct idx else derive_address_key cr acct idx)"
  have r: "x_only_of cr r = Some t" using assms(2) by (cases c) (simp_all add: r_def chain_key_def)
  obtain k where k: "r = Inr k" "public_key_compressed cr k = Inr (cr_pubkey cr (xk_key k))" "cr_sk_ok cr (xk_key k)"
    "slice 1 32 (cr_pubkey cr (xk_key k)) = t"
    by (rule x_only_key [OF r])
  have parent: "chain_parent_new cr acct (if c then 1 else 0) = Inr cp \<Longrightarrow> chain_parent_derive cr cp (ucast idx) = Inr k" for cp
    using k(1) by (auto simp: r_def address_key_chain split: if_splits)
  define slot where "slot = (case (if c then sg_chg sg else sg_recv sg) of Some chain \<Rightarrow> Some chain
    | None \<Rightarrow> (case chain_parent_new cr acct (if c then 1 else 0) of Inl _ \<Rightarrow> None | Inr chain \<Rightarrow> Some chain))"
  have slot: "slot = Some cp \<Longrightarrow> chain_parent_new cr acct (if c then 1 else 0) = Inr cp" for cp
    using assms(1) by (auto simp: slot_def chains_valid_def split: option.splits sum.splits if_splits)
  have result: "(case slot of Some chain \<Rightarrow> chain_parent_derive cr chain (ucast idx)
      | None \<Rightarrow> if c then derive_change_key cr acct idx else derive_address_key cr acct idx) = Inr k"
    using slot parent k(1) by (auto simp: r_def split: option.split)
  have m: "memoize_key cr acct idx c t sg =
      (if c then sg\<lparr>sg_chg := slot\<rparr> else sg\<lparr>sg_recv := slot\<rparr>)\<lparr>sg_memo := Some (t, xk_key k, cr_pubkey cr (xk_key k))\<rparr>"
    unfolding memoize_key_def Let_def slot_def [symmetric] result sum.case k(2) ..
  show "chains_valid cr acct (memoize_key cr acct idx c t sg)"
    unfolding m using assms(1) slot by (auto simp: chains_valid_def)
  show "\<exists>k. sg_memo (memoize_key cr acct idx c t sg) = Some (t, k, cr_pubkey cr k) \<and> cr_sk_ok cr k \<and> slice 1 32 (cr_pubkey cr k) = t"
    "sg_tx (memoize_key cr acct idx c t sg) = sg_tx sg" "sg_count (memoize_key cr acct idx c t sg) = sg_count sg"
    "sg_calls (memoize_key cr acct idx c t sg) = sg_calls sg"
    unfolding m using k(3,4) by auto
qed


lemma sign_and_store_ok:
  assumes ok: "curve_ok cr cv" "pass_ok cr cv acct ty tx S sg" and i: "i \<notin> S" "i < length (tx_inputs tx)"
    and key: "p2pk_target (input_spk tx i) = Some t" "slice 1 32 pk = t" "cr_sk_ok cr k \<Longrightarrow> slice 1 32 (cr_pubkey cr k) = t"
  shows "case sign_and_store cr cv rng ty (sighash_reuse_compute tx ty) i k pk sg of
      (Inr _, sg') \<Rightarrow> pass_ok cr cv acct ty tx (insert i S) sg'
    | (Inl e, sg') \<Rightarrow> pass_ok cr cv acct ty tx S sg' \<and> e = NoInputs \<and>
        (\<exists>n e m. schnorr_sign cr cv (rng n) k m = Inl e)"
proof -
  have un: "unsigned_part (sg_tx sg) = unsigned_part tx" using ok(2) by (simp add: pass_ok_def)
  have i': "i < length (tx_inputs (sg_tx sg))" using i(2) unsigned_same(1) [OF un] by simp
  have eq: "sign_input_cached cr cv (rng (sg_calls sg)) (sg_tx sg) i k ty (sighash_reuse_compute tx ty) =
      schnorr_sign cr cv (rng (sg_calls sg)) k (calculate_sighash tx i ty)"
    by (rule sign_cached_eq [OF un i(2)])
  show ?thesis
  proof (cases "schnorr_sign cr cv (rng (sg_calls sg)) k (calculate_sighash tx i ty)")
    case (Inl e)
    then have "\<exists>n e m. schnorr_sign cr cv (rng n) k m = Inl e" by blast
    then show ?thesis
      using ok(2) unfolding sign_and_store_def eq Inl
      by (simp add: pass_ok_def chains_valid_def)
  next
    case (Inr sig)
    note v = sign_verifies [OF ok(1) Inr]
    have same: "tx_inputs (sg_tx sg) ! i = tx_inputs tx ! i" using ok(2) i(1) by (simp add: pass_ok_def)
    define sg' where "sg' = sg\<lparr>sg_tx := store_single_sig i sig ty pk (sg_tx sg), sg_count := sg_count sg + 1, sg_calls := sg_calls sg + 1\<rparr>"
    have "tx_inputs (store_single_sig i sig ty pk (sg_tx sg)) ! i = tx_inputs (store_single_sig i sig ty pk tx) ! i"
      using i(2) i' by (simp add: stored_inputs same)
    then have signed: "single_sig_ok cr cv ty tx i (tx_inputs (sg_tx sg') ! i)"
      unfolding single_sig_ok_def sg'_def using v key by auto
    have "pass_ok cr cv acct ty tx (insert i S) sg'"
      unfolding pass_ok_def
    proof (intro conjI allI)
      show "unsigned_part (sg_tx sg') = unsigned_part tx" by (simp add: sg'_def unsigned_stored un)
      show "memo_ok cr (sg_memo sg')" "chains_valid cr acct sg'" "finite (insert i S)" "sg_count sg' = card (insert i S)"
        using ok(2) i(1) by (simp_all add: pass_ok_def sg'_def chains_valid_def)
      show "if j \<in> insert i S then single_sig_ok cr cv ty tx j (tx_inputs (sg_tx sg') ! j) else tx_inputs (sg_tx sg') ! j = tx_inputs tx ! j" for j
      proof (cases "j = i")
        case True
        then show ?thesis using signed by simp
      next
        case False
        then have "tx_inputs (sg_tx sg') ! j = tx_inputs (sg_tx sg) ! j" by (simp add: sg'_def stored_inputs i')
        moreover have "if j \<in> S then single_sig_ok cr cv ty tx j (tx_inputs (sg_tx sg) ! j) else tx_inputs (sg_tx sg) ! j = tx_inputs tx ! j"
          using ok(2) unfolding pass_ok_def by blast
        ultimately show ?thesis using False by simp
      qed
    qed
    then show ?thesis unfolding sign_and_store_def eq Inr by (simp add: sg'_def)
  qed
qed

text \<open>The inputs a pass signs: those with a key of the account, and the stealth inputs.\<close>

definition to_sign :: "(bytes \<times> bytes) option \<Rightarrow> transaction \<Rightarrow> u8 list \<Rightarrow> nat \<Rightarrow> bool" where
  "to_sign stealth tx flags i \<longleftrightarrow> flags ! i AND 1 \<noteq> 0 \<or>
     flags ! i = 2 \<and> tx_has_stealth_tweak tx \<and> is_stealth stealth (slice 1 32 (spk_script (input_spk tx i)))"

definition stealth_ok :: "'pt crypto \<Rightarrow> (bytes \<times> bytes) option \<Rightarrow> bool" where
  "stealth_ok cr st \<longleftrightarrow> (\<forall>k pk. st = Some (k, pk) \<longrightarrow> cr_sk_ok cr k \<longrightarrow> cr_pubkey cr k = pk)"

lemma sign_resolved_ok:
  assumes ok: "curve_ok cr cv" "pass_ok cr cv acct ty tx S sg" "stealth_ok cr stealth"
    and i: "i \<notin> S" "i < length (tx_inputs tx)"
    and res: "resolved (chain_key cr acct) depth stealth tx idxs flags i"
  shows "case sign_resolved cr cv rng acct ty (sighash_reuse_compute tx ty) stealth idxs flags i sg of
      (Inr _, sg') \<Rightarrow> pass_ok cr cv acct ty tx (if to_sign stealth tx flags i then insert i S else S) sg'
    | (Inl e, sg') \<Rightarrow> pass_ok cr cv acct ty tx S sg' \<and> e = NoInputs \<and>
        (\<exists>k n e m. (cr_sk_ok cr k \<or> (\<exists>pk. stealth = Some (k, pk))) \<and> schnorr_sign cr cv (rng n) k m = Inl e)"
proof -
  have un: "unsigned_part (sg_tx sg) = unsigned_part tx" using ok(2) by (simp add: pass_ok_def)
  have spk: "input_spk (sg_tx sg) i = input_spk tx i" "tx_has_stealth_tweak (sg_tx sg) = tx_has_stealth_tweak tx"
    using unsigned_same(3,4) [OF un] i(2) by simp_all
  define f where "f = flags ! i"
  define t where "t = slice 1 32 (spk_script (input_spk tx i))"
  note store = sign_and_store_ok [OF ok(1) _ i]
  consider (none) "f = 0" | (own) c where "f = (if c then 3 else 1)" "chain_key cr acct c (unat (idxs ! i)) = Some t"
      "p2pk_target (input_spk tx i) = Some t"
    | (other) "f = 2" "p2pk_target (input_spk tx i) = Some t"
  proof (cases "p2pk_target (input_spk tx i)")
    case None
    then show ?thesis using res none by (simp add: resolved_def f_def)
  next
    case (Some t')
    then have "t' = t" by (simp add: p2pk_target_def t_def split: if_splits)
    then show ?thesis using res own [of False] own [of True] other Some by (auto simp: resolved_def f_def)
  qed
  then show ?thesis
  proof cases
    case none
    then show ?thesis using ok(2) by (simp add: sign_resolved_def to_sign_def f_def)
  next
    case (own c)
    have flags: "f \<noteq> 0" "f AND 1 \<noteq> 0" "(f AND 2 \<noteq> 0) = c" using own(1) by (cases c; simp)+
    define sg1 where "sg1 = (if (case sg_memo sg of Some (pk, _, _) \<Rightarrow> pk \<noteq> t | None \<Rightarrow> True)
        then memoize_key cr acct (idxs ! i) c t sg else sg)"
    have valid: "chains_valid cr acct sg" "memo_ok cr (sg_memo sg)" using ok(2) by (simp_all add: pass_ok_def)
    have memo: "\<exists>k. sg_memo sg1 = Some (t, k, cr_pubkey cr k) \<and> cr_sk_ok cr k \<and> slice 1 32 (cr_pubkey cr k) = t"
    proof (cases "case sg_memo sg of Some (pk, _, _) \<Rightarrow> pk \<noteq> t | None \<Rightarrow> True")
      case True
      then show ?thesis using memoize_key_ok(2) [OF valid(1) own(2)] by (simp add: sg1_def)
    next
      case False
      then show ?thesis using valid(2) by (auto simp: sg1_def memo_ok_def split: option.splits)
    qed
    then obtain k where k: "sg_memo sg1 = Some (t, k, cr_pubkey cr k)" "cr_sk_ok cr k" "slice 1 32 (cr_pubkey cr k) = t" by blast
    have "pass_ok cr cv acct ty tx S sg1"
      using ok(2) k memoize_key_ok(1,3,4) [OF valid(1) own(2)] by (auto simp: pass_ok_def sg1_def memo_ok_def)
    note st = store [OF this own(3) k(3) k(3), of rng]
    have "sign_resolved cr cv rng acct ty (sighash_reuse_compute tx ty) stealth idxs flags i sg =
        sign_and_store cr cv rng ty (sighash_reuse_compute tx ty) i k (cr_pubkey cr k) sg1"
      unfolding sign_resolved_def Let_def f_def [symmetric] spk t_def [symmetric] flags(3) sg1_def [symmetric] k(1)
      using flags(1,2) by simp
    moreover have "to_sign stealth tx flags i" using flags(2) by (simp add: to_sign_def f_def)
    ultimately show ?thesis using st k(2,3) by (auto split: prod.splits sum.splits)
  next
    case other
    have flags: "f \<noteq> 0" "f AND 1 = 0" using other(1) by simp_all
    show ?thesis
    proof (cases "tx_has_stealth_tweak tx \<and> is_stealth stealth t")
      case False
      then have "sign_resolved cr cv rng acct ty (sighash_reuse_compute tx ty) stealth idxs flags i sg = (Inr (), sg)"
        unfolding sign_resolved_def Let_def f_def [symmetric] spk t_def [symmetric]
        using flags other(1) by (auto simp: is_stealth_def split: option.splits)
      moreover have "\<not> to_sign stealth tx flags i" using False flags by (auto simp: to_sign_def f_def t_def)
      ultimately show ?thesis using ok(2) by simp
    next
      case True
      then obtain k pk where st: "stealth = Some (k, pk)" "slice 1 32 pk = t" "tx_has_stealth_tweak tx"
        by (auto simp: is_stealth_def split: option.splits)
      have pub: "cr_sk_ok cr k \<Longrightarrow> slice 1 32 (cr_pubkey cr k) = t" using ok(3) st by (simp add: stealth_ok_def)
      note s = store [OF ok(2) other(2) st(2) pub, of rng]
      have "sign_resolved cr cv rng acct ty (sighash_reuse_compute tx ty) stealth idxs flags i sg =
          sign_and_store cr cv rng ty (sighash_reuse_compute tx ty) i k pk sg"
        unfolding sign_resolved_def Let_def f_def [symmetric] spk t_def [symmetric]
        using flags other(1) st by simp
      moreover have "to_sign stealth tx flags i" using True other(1) by (simp add: to_sign_def f_def t_def)
      ultimately show ?thesis using s st(1) by (auto split: prod.splits sum.splits)
    qed
  qed
qed


lemma sign_pass_ok:
  assumes ok: "curve_ok cr cv" "stealth_ok cr stealth"
  shows "pass_ok cr cv acct ty tx S sg \<Longrightarrow> distinct is \<Longrightarrow> set is \<inter> S = {} \<Longrightarrow>
    \<forall>i \<in> set is. i < length (tx_inputs tx) \<and> resolved (chain_key cr acct) depth stealth tx idxs flags i \<Longrightarrow>
    case forE is (sign_resolved cr cv rng acct ty (sighash_reuse_compute tx ty) stealth idxs flags) sg of
      (Inr _, sg') \<Rightarrow> pass_ok cr cv acct ty tx (S \<union> {i \<in> set is. to_sign stealth tx flags i}) sg'
    | (Inl e, sg') \<Rightarrow> e = NoInputs \<and> (\<exists>S'. S' \<subseteq> S \<union> set is \<and> pass_ok cr cv acct ty tx S' sg') \<and>
        (\<exists>k n e m. (cr_sk_ok cr k \<or> (\<exists>pk. stealth = Some (k, pk))) \<and> schnorr_sign cr cv (rng n) k m = Inl e)"
proof (induction "is" arbitrary: S sg)
  case Nil
  then show ?case by (simp add: ret_def)
next
  case (Cons i "is")
  let ?f = "sign_resolved cr cv rng acct ty (sighash_reuse_compute tx ty) stealth idxs flags"
  let ?S = "if to_sign stealth tx flags i then insert i S else S"
  have i: "i \<notin> S" "i < length (tx_inputs tx)" "resolved (chain_key cr acct) depth stealth tx idxs flags i"
    using Cons.prems by auto
  note step = sign_resolved_ok [OF ok(1) Cons.prems(1) ok(2) i, of rng]
  obtain r sg1 where f: "?f i sg = (r, sg1)" by (cases "?f i sg")
  show ?case
  proof (cases r)
    case (Inl e)
    then show ?thesis using step f by (auto simp: thenE_def step_simps)
  next
    case (Inr u)
    then have p1: "pass_ok cr cv acct ty tx ?S sg1" using step f by simp
    have un: "S \<union> {j \<in> set (i # is). to_sign stealth tx flags j} = ?S \<union> {j \<in> set is. to_sign stealth tx flags j}" by auto
    have run: "forE (i # is) ?f sg = forE is ?f sg1" using f Inr by (simp add: thenE_def bindE_def)
    have "distinct is" "set is \<inter> ?S = {}"
      "\<forall>j \<in> set is. j < length (tx_inputs tx) \<and> resolved (chain_key cr acct) depth stealth tx idxs flags j"
      using Cons.prems(2,3,4) by auto
    note ih = Cons.IH [OF p1 this]
    obtain r' sg2 where f': "forE is ?f sg1 = (r', sg2)" by (cases "forE is ?f sg1")
    show ?thesis
    proof (cases r')
      case (Inl e)
      have "e = NoInputs" and
        fails: "\<exists>k n e m. (cr_sk_ok cr k \<or> (\<exists>pk. stealth = Some (k, pk))) \<and> schnorr_sign cr cv (rng n) k m = Inl e"
        using ih f' Inl by simp_all
      moreover obtain S' where "S' \<subseteq> ?S \<union> set is" "pass_ok cr cv acct ty tx S' sg2" using ih f' Inl by auto
      moreover from this(1) have "S' \<subseteq> S \<union> set (i # is)" by (auto split: if_splits)
      ultimately show ?thesis unfolding run f' Inl by auto
    next
      case (Inr u)
      then show ?thesis using ih f' unfolding run un by simp
    qed
  qed
qed

lemma stealth_key_ok:
  assumes "curve_ok cr cv"
  shows "stealth_ok cr (stealth_combined_key cr cv acct tweak)"
proof -
  obtain val mul ev where sc: "scalars_ok cr cv val" and pt: "points_ok cr cv val mul ev"
    and pub: "\<forall>k. cr_sk_ok cr k \<longrightarrow> cr_pubkey cr k = cr_encode cr (cv_gen cv (cv_scalar cv k))"
    using assms unfolding curve_ok_def by blast
  have "cr_pubkey cr (cv_to_bytes cv c) = cr_encode cr (cv_gen cv c)" if "cr_sk_ok cr (cv_to_bytes cv c)" for c
  proof -
    have "val (cv_scalar cv (cv_to_bytes cv c)) = val c" using sc that by (simp add: scalars_ok_def)
    then show ?thesis using pub that pt by (simp add: points_ok_def)
  qed
  then show ?thesis by (auto simp: stealth_ok_def stealth_combined_key_def Let_def split: if_splits)
qed

section \<open>The whole pass\<close>

text \<open>The stealth key of a transaction, if it has one.\<close>

definition tx_stealth_key :: "'pt crypto \<Rightarrow> ('pt, 'sc) curve \<Rightarrow> xprv \<Rightarrow> transaction \<Rightarrow> (bytes \<times> bytes) option" where
  "tx_stealth_key cr cv acct tx =
     (if tx_has_stealth_tweak tx then stealth_combined_key cr cv acct (tx_stealth_tweak tx) else None)"

text \<open>The inputs the account can sign: those locked to a key within reach, or to the stealth key.\<close>

definition own_inputs :: "'pt crypto \<Rightarrow> ('pt, 'sc) curve \<Rightarrow> xprv \<Rightarrow> transaction \<Rightarrow> ext_banks option \<Rightarrow> nat set" where
  "own_inputs cr cv acct tx ext =
     {i. i < tx_num_inputs tx \<and>
        (\<exists>t. p2pk_target (input_spk tx i) = Some t \<and>
           (is_stealth (tx_stealth_key cr cv acct tx) t \<or> (\<exists>c. \<exists>j < reach ext c. chain_key cr acct c j = Some t)))}"

lemma to_sign_own:
  assumes "resolved (chain_key cr acct) (reach ext) (tx_stealth_key cr cv acct tx) tx idxs flags i" "i < tx_num_inputs tx"
  shows "to_sign (tx_stealth_key cr cv acct tx) tx flags i \<longleftrightarrow> i \<in> own_inputs cr cv acct tx ext"
proof (cases "p2pk_target (input_spk tx i)")
  case None
  then show ?thesis using assms by (simp add: to_sign_def own_inputs_def resolved_def)
next
  case (Some t)
  then have t: "slice 1 32 (spk_script (input_spk tx i)) = t" by (auto simp: p2pk_target_def split: if_splits)
  have "tx_has_stealth_tweak tx" if "is_stealth (tx_stealth_key cr cv acct tx) t"
    using that by (auto simp: is_stealth_def tx_stealth_key_def split: if_splits)
  then show ?thesis
    using assms Some by (auto simp: to_sign_def own_inputs_def resolved_def t [simplified])
qed

definition never_refuses :: "'pt crypto \<Rightarrow> ('pt, 'sc) curve \<Rightarrow> (nat \<Rightarrow> bytes option) \<Rightarrow> bool" where
  "never_refuses cr cv rng \<longleftrightarrow> (\<forall>n key m. \<exists>k. generate_rfc6979_nonce cr cv (rng n) key m = Inr k)"

text \<open>\<open>signed_as\<close>: the inputs of \<open>S\<close> carry their signatures, nothing else has changed.\<close>

definition signed_as ::
  "'pt crypto \<Rightarrow> ('pt, 'sc) curve \<Rightarrow> sighash_type \<Rightarrow> transaction \<Rightarrow> nat set \<Rightarrow> transaction \<Rightarrow> bool"
where
  "signed_as cr cv ty tx S tx' \<longleftrightarrow> unsigned_part tx' = unsigned_part tx \<and>
     (\<forall>i. if i \<in> S then single_sig_ok cr cv ty tx i (tx_inputs tx' ! i) else tx_inputs tx' ! i = tx_inputs tx ! i)"

lemma multi_addr_result:
  assumes "curve_ok cr cv" "ext_ok cr acct ext" "wf_transaction tx"
  shows "\<exists>r tx' ext' S. sign_transaction_multi_addr cr cv rng acct ty tx ext = Some (r, tx', ext') \<and>
    ext_ok cr acct ext' \<and> reach ext' = reach ext \<and> signed_as cr cv ty tx S tx' \<and> S \<subseteq> {..<tx_num_inputs tx} \<and>
    (case r of Inr n \<Rightarrow> S = own_inputs cr cv acct tx ext \<and> n = card S \<and> 0 < n
     | Inl e \<Rightarrow> e = NoInputs \<and> (S = {} \<and> own_inputs cr cv acct tx ext = {} \<or>
         (\<exists>k n e m. (cr_sk_ok cr k \<or> (\<exists>pk. tx_stealth_key cr cv acct tx = Some (k, pk))) \<and> schnorr_sign cr cv (rng n) k m = Inl e)))"
proof -
  let ?st = "tx_stealth_key cr cv acct tx"
  let ?is = "[0..<tx_num_inputs tx]"
  let ?rs = "\<lparr>rs_idx = replicate MAX_INPUTS 0, rs_flags = replicate MAX_INPUTS 0, rs_memo = None, rs_ext = ext\<rparr>"
  let ?sg = "\<lparr>sg_tx = tx, sg_memo = None, sg_recv = None, sg_chg = None, sg_count = 0, sg_calls = 0\<rparr>"
  have len: "length (tx_inputs tx) = MAX_INPUTS" "tx_num_inputs tx \<le> MAX_INPUTS"
    using assms(3) by (simp_all add: wf_transaction_def)
  have "resolve_ok (ext_ok cr acct) (chain_key cr acct) reach (reach ext) ?rs" using assms(2) by (simp add: resolve_ok_def)
  then obtain rs where rs: "resolve_all (find_key cr acct) ?st tx ?is ?rs = Some rs"
      "resolve_ok (ext_ok cr acct) (chain_key cr acct) reach (reach ext) rs" "\<forall>i < tx_num_inputs tx. resolved (chain_key cr acct) (reach ext) ?st tx (rs_idx rs) (rs_flags rs) i"
    using finder.resolve_all_ok [of ?is ?rs cr acct "reach ext" ?st tx] len(2) by auto
  let ?run = "forE ?is (sign_resolved cr cv rng acct ty (sighash_reuse_compute tx ty) ?st (rs_idx rs) (rs_flags rs)) ?sg"
  have st: "stealth_ok cr ?st"
    using stealth_key_ok [OF assms(1)] by (simp add: tx_stealth_key_def) (simp add: stealth_ok_def)
  have start: "pass_ok cr cv acct ty tx {} ?sg" by (simp add: pass_ok_def memo_ok_def chains_valid_def)
  have "\<forall>i \<in> set ?is. i < length (tx_inputs tx) \<and> resolved (chain_key cr acct) (reach ext) ?st tx (rs_idx rs) (rs_flags rs) i"
    using rs(3) len by auto
  note pass = sign_pass_ok [OF assms(1) st start distinct_upt _ this, of rng, simplified]
  have ext: "ext_ok cr acct (rs_ext rs)" "reach (rs_ext rs) = reach ext"
    using rs(2) by (simp_all add: resolve_ok_def)
  have own: "{i. i < tx_num_inputs tx \<and> to_sign ?st tx (rs_flags rs) i} = own_inputs cr cv acct tx ext"
  proof (intro set_eqI iffI)
    fix i assume "i \<in> own_inputs cr cv acct tx ext"
    moreover from this have "i < tx_num_inputs tx" by (simp add: own_inputs_def)
    ultimately show "i \<in> {i. i < tx_num_inputs tx \<and> to_sign ?st tx (rs_flags rs) i}"
      using to_sign_own [OF rs(3) [rule_format]] by simp
  next
    fix i assume "i \<in> {i. i < tx_num_inputs tx \<and> to_sign ?st tx (rs_flags rs) i}"
    then show "i \<in> own_inputs cr cv acct tx ext" using to_sign_own [OF rs(3) [rule_format]] by auto
  qed
  obtain r sg where run: "?run = (r, sg)" by (cases ?run)
  have result: "sign_transaction_multi_addr cr cv rng acct ty tx ext =
      Some (case r of Inl e \<Rightarrow> Inl e | Inr _ \<Rightarrow> if sg_count sg = 0 then Inl NoInputs else Inr (sg_count sg), sg_tx sg, rs_ext rs)"
    unfolding sign_transaction_multi_addr_def Let_def tx_stealth_key_def [symmetric] rs(1) option.case run
    by (cases r) simp_all
  have as: "signed_as cr cv ty tx S (sg_tx sg)" if "pass_ok cr cv acct ty tx S sg" for S
    using that by (simp add: pass_ok_def signed_as_def)
  show ?thesis
  proof (cases r)
    case (Inl e)
    then obtain S' where "S' \<subseteq> {..<tx_num_inputs tx}" "pass_ok cr cv acct ty tx S' sg" "e = NoInputs"
      "\<exists>k n e m. (cr_sk_ok cr k \<or> (\<exists>pk. ?st = Some (k, pk))) \<and> schnorr_sign cr cv (rng n) k m = Inl e"
      using pass run by (auto simp: atLeast0LessThan)
    then show ?thesis using as ext unfolding result Inl by auto
  next
    case (Inr u)
    then have p: "pass_ok cr cv acct ty tx (own_inputs cr cv acct tx ext) sg" using pass run own by simp
    moreover have "own_inputs cr cv acct tx ext \<subseteq> {..<tx_num_inputs tx}" by (auto simp: own_inputs_def)
    moreover have "sg_count sg = card (own_inputs cr cv acct tx ext)" "finite (own_inputs cr cv acct tx ext)"
      using p by (simp_all add: pass_ok_def)
    ultimately show ?thesis using as [OF p] ext unfolding result Inr
      by (cases "own_inputs cr cv acct tx ext = {}") auto
  qed
qed


section \<open>Properties\<close>

text \<open>
  C2: Signing a transaction with the keys of one account always ends, and it touches only what it
  signs: nothing outside the signature fields changes, a signed input is a P2PK input whose stored
  signature verifies under the key of its own script, every other input stays as it was, and the banks
  stay valid. The number returned is the number of signed inputs; an error leaves valid signatures only.
\<close>

theorem multi_addr_signs_own:
  assumes "curve_ok cr cv" "ext_ok cr acct ext" "wf_transaction tx"
  shows "\<exists>r tx' ext' S. sign_transaction_multi_addr cr cv rng acct ty tx ext = Some (r, tx', ext') \<and>
    ext_ok cr acct ext' \<and> S \<subseteq> {..<tx_num_inputs tx} \<and> unsigned_part tx' = unsigned_part tx \<and>
    (\<forall>i. if i \<in> S then single_sig_ok cr cv ty tx i (tx_inputs tx' ! i) else tx_inputs tx' ! i = tx_inputs tx ! i) \<and>
    (case r of Inr n \<Rightarrow> n = card S \<and> 0 < n | Inl e \<Rightarrow> e = NoInputs)"
proof -
  obtain r tx' ext' S where "sign_transaction_multi_addr cr cv rng acct ty tx ext = Some (r, tx', ext')"
    "ext_ok cr acct ext'" "signed_as cr cv ty tx S tx'" "S \<subseteq> {..<tx_num_inputs tx}"
    "case r of Inr n \<Rightarrow> S = own_inputs cr cv acct tx ext \<and> n = card S \<and> 0 < n
     | Inl e \<Rightarrow> e = NoInputs \<and> (S = {} \<and> own_inputs cr cv acct tx ext = {} \<or>
         (\<exists>k n e m. (cr_sk_ok cr k \<or> (\<exists>pk. tx_stealth_key cr cv acct tx = Some (k, pk))) \<and> schnorr_sign cr cv (rng n) k m = Inl e))"
    using multi_addr_result [OF assms, of rng ty] by blast
  moreover from this(5) have "case r of Inr n \<Rightarrow> n = card S \<and> 0 < n | Inl e \<Rightarrow> e = NoInputs" by (simp split: sum.splits)
  ultimately show ?thesis unfolding signed_as_def by blast
qed

text \<open>
  C10: Signing is complete: if the entropy source works (and no nonce is zero, nor the stealth key), the
  inputs signed are exactly those the account owns: P2PK inputs locked to a receive or change key
  within reach of the banks (of the fixed scan where there are none), or to the stealth key of the
  transaction. The result is their number, or \<open>NoInputs\<close> if there are none.
\<close>

theorem multi_addr_signs_all:
  assumes "curve_ok cr cv" "ext_ok cr acct ext" "wf_transaction tx"
    and "\<And>n key m. \<exists>k. generate_rfc6979_nonce cr cv (rng n) key m = Inr k"
    and "\<And>k pk. tx_stealth_key cr cv acct tx = Some (k, pk) \<Longrightarrow> cr_sk_ok cr k"
  shows "\<exists>tx' ext'. sign_transaction_multi_addr cr cv rng acct ty tx ext =
      Some (if own_inputs cr cv acct tx ext = {} then Inl NoInputs else Inr (card (own_inputs cr cv acct tx ext)), tx', ext') \<and>
    (\<forall>i. if i \<in> own_inputs cr cv acct tx ext then single_sig_ok cr cv ty tx i (tx_inputs tx' ! i)
         else tx_inputs tx' ! i = tx_inputs tx ! i)"
proof -
  obtain r tx' ext' S where r: "sign_transaction_multi_addr cr cv rng acct ty tx ext = Some (r, tx', ext')"
    and S: "signed_as cr cv ty tx S tx'"
    and res: "case r of Inr n \<Rightarrow> S = own_inputs cr cv acct tx ext \<and> n = card S \<and> 0 < n
     | Inl e \<Rightarrow> e = NoInputs \<and> (S = {} \<and> own_inputs cr cv acct tx ext = {} \<or>
         (\<exists>k n e m. (cr_sk_ok cr k \<or> (\<exists>pk. tx_stealth_key cr cv acct tx = Some (k, pk))) \<and> schnorr_sign cr cv (rng n) k m = Inl e))"
    using multi_addr_result [OF assms(1-3), of rng ty] by blast
  have "schnorr_sign cr cv (rng n) k m \<noteq> Inl e" if "cr_sk_ok cr k" for k n m e
    using sign_steps [OF assms(1) that, of "rng n" m] assms(4) [of n k m] by auto
  then have "r = (if own_inputs cr cv acct tx ext = {} then Inl NoInputs else Inr (card (own_inputs cr cv acct tx ext)))"
    "S = own_inputs cr cv acct tx ext"
    using res assms(5) by (auto split: sum.splits)
  then show ?thesis using r S by (auto simp: signed_as_def)
qed

subsection \<open>A sample pass\<close>

definition p2pk_tx :: "bytes \<Rightarrow> transaction" where
  "p2pk_tx t = upd_in 0
     (\<lambda>i. i\<lparr>in_utxo := (in_utxo i)\<lparr>utxo_spk :=
            \<lparr>spk_version = 0, spk_script = blit ([0x20] @ t @ [0xAC]) 0 (zeros 512), spk_script_len = 34\<rparr>\<rparr>\<rparr>)
     (transaction_new\<lparr>tx_num_inputs := 1, tx_num_outputs := 1\<rparr>)"

lemma p2pk_tx_ok:
  assumes "length t = 32"
  shows "wf_transaction (p2pk_tx t)" "p2pk_target (input_spk (p2pk_tx t) 0) = Some t" "\<not> tx_has_stealth_tweak (p2pk_tx t)"
    "tx_num_inputs (p2pk_tx t) = 1"
proof -
  have new: "wf_transaction (transaction_new\<lparr>tx_num_inputs := 1, tx_num_outputs := 1\<rparr>)"
    using wf_transaction_new by (simp add: wf_transaction_def size_limits)
  have slots: "wf_input (tx_inputs transaction_new ! 0) \<and> pool_ok 0 (tx_inputs transaction_new ! 0)"
    using wf_transaction_nth [OF wf_transaction_new, of 0] by (simp add: size_limits transaction_new_def)
  have pool: "tx_redeem_pool_used transaction_new = 0" by (simp add: transaction_new_def)
  show "wf_transaction (p2pk_tx t)"
    unfolding p2pk_tx_def
    by (rule wf_upd_in, rule new)
      (use slots assms in \<open>simp_all add: wf_input_def pool_ok_def wf_spk_def size_limits pool\<close>)
  have "slice 1 32 (blit ([0x20] @ t @ [0xAC]) 0 (zeros 512)) = t"
    using assms by (simp add: slice_def blit_def)
  moreover have "blit ([0x20] @ t @ [0xAC]) 0 (zeros 512) ! 0 = 0x20" "blit ([0x20] @ t @ [0xAC]) 0 (zeros 512) ! 33 = 0xAC"
    using assms by (simp_all add: blit_def nth_append)
  ultimately show "p2pk_target (input_spk (p2pk_tx t) 0) = Some t"
    by (simp add: p2pk_target_def input_spk_def p2pk_tx_def upd_in_def transaction_new_def size_limits)
  show "\<not> tx_has_stealth_tweak (p2pk_tx t)" "tx_num_inputs (p2pk_tx t) = 1"
    by (simp_all add: p2pk_tx_def upd_in_def transaction_new_def)
qed

lemma sample_hmac: "length k \<le> 128 \<Longrightarrow> hmac_sha512 (cr_sha512 sample_curve_crypto) k data = replicate 64 192"
  by (simp add: hmac_sha512_def Let_def sample_crypto_def sample_curve_crypto_def HMAC_BLOCK_SIZE_def)

definition sample_il :: nat where
  "sample_il = 0xC0C0C0C0C0C0C0C0C0C0C0C0C0C0C0C0C0C0C0C0C0C0C0C0C0C0C0C0C0C0C0C0"

lemma sample_il: "be_value (replicate 32 192) = sample_il"
  using be_value_replicate [of 32 192] by (simp add: sample_il_def)

lemma sample_derive:
  assumes "xprv_ok sample_curve_crypto p" "\<not> is_hardened i" "(sample_il + be_value (xk_key p)) mod secp_order \<noteq> 0"
  obtains k where "derive_child sample_curve_crypto p i = Inr k" "xprv_ok sample_curve_crypto k"
    "be_value (xk_key k) = (sample_il + be_value (xk_key p)) mod secp_order"
proof -
  define data where "data = cr_pubkey sample_curve_crypto (xk_key p) @ to_be 4 i"
  have h: "hmac_sha512 (cr_sha512 sample_curve_crypto) (xk_chain p) data = replicate 64 192"
    by (rule sample_hmac) (use assms(1) in \<open>simp add: xprv_ok_def\<close>)
  have "sample_il < secp_order" by (simp add: sample_il_def secp_order_def)
  note child = child_from_data_cases(1,2) [OF sample_curve_crypto_ok assms(1), of data, unfolded h take_replicate]
  have d: "derive_child sample_curve_crypto p i = child_from_data sample_curve_crypto p data"
    using assms(2) xprv_pubkey [OF assms(1)] by (simp add: derive_child_def data_def)
  obtain k where k: "child_from_data sample_curve_crypto p data = Inr k"
    "xk_key k = scalar_add_mod_n (replicate 32 192) (xk_key p)"
    using child(1) assms(3) \<open>sample_il < secp_order\<close> by (simp add: sample_il)
  then show ?thesis
    using that [of k] d child_ok [OF sample_curve_crypto_ok assms(1) k(1)] child(2) \<open>sample_il < secp_order\<close>
    by (simp add: sample_il)
qed

lemma sample_account:
  obtains r c t where "chain_parent_new sample_curve_crypto sample_xprv 0 = Inr r"
    "chain_parent_new sample_curve_crypto sample_xprv 1 = Inr c"
    "chain_key sample_curve_crypto sample_xprv False 0 = Some t" "length t = 32"
proof -
  have ok: "xprv_ok sample_curve_crypto sample_xprv"
    by (simp add: xprv_ok_def sample_curve_crypto_def sample_crypto_def sample_xprv_def secp_order_def)
  have key: "be_value (xk_key sample_xprv) = 1" by (simp add: sample_xprv_def)
  have nz: "(sample_il + 1) mod secp_order \<noteq> 0" "(sample_il + (sample_il + 1) mod secp_order) mod secp_order \<noteq> 0"
    by (simp_all add: sample_il_def secp_order_def)
  have nh: "\<not> is_hardened 0" "\<not> is_hardened 1" by (simp_all add: is_hardened_def HARDENED_BIT_def)
  obtain r c where r: "derive_child sample_curve_crypto sample_xprv 0 = Inr r" "xprv_ok sample_curve_crypto r"
      "be_value (xk_key r) = (sample_il + 1) mod secp_order"
    and c: "derive_child sample_curve_crypto sample_xprv 1 = Inr c" "xprv_ok sample_curve_crypto c"
    using sample_derive [OF ok nh(1)] sample_derive [OF ok nh(2)] nz(1) unfolding key by metis
  obtain k where k: "derive_child sample_curve_crypto r 0 = Inr k" "xprv_ok sample_curve_crypto k"
    using sample_derive [OF r(2) nh(1)] nz(2) unfolding r(3) by metis
  have "length (slice 1 32 (cr_pubkey sample_curve_crypto (xk_key k))) = 32"
    by (simp add: sample_curve_crypto_def sample_encode_def)
  moreover have "chain_key sample_curve_crypto sample_xprv False 0 = Some (slice 1 32 (cr_pubkey sample_curve_crypto (xk_key k)))"
    using r(1) k(1) xprv_pubkey [OF k(2)]
    by (simp add: chain_key_def derive_address_key_def x_only_of_def public_key_x_only_def)
  ultimately show ?thesis
    using that r(1) c(1) xprv_pubkey [OF r(2)] xprv_pubkey [OF c(2)] nh by (simp add: chain_parent_new_def)
qed

definition one_bank :: "ext_banks option" where
  "one_bank = Some \<lparr>eb_recv = replicate 1 (zeros 32), eb_recv_n = 0, eb_chg = [], eb_chg_n = 0\<rparr>"

lemma one_bank_ok:
  obtains t where "ext_ok sample_curve_crypto sample_xprv one_bank" "length t = 32"
    "own_inputs sample_curve_crypto sample_curve sample_xprv (p2pk_tx t) one_bank = {0}"
proof -
  obtain r c t where a: "chain_parent_new sample_curve_crypto sample_xprv 0 = Inr r"
    "chain_parent_new sample_curve_crypto sample_xprv 1 = Inr c"
    "chain_key sample_curve_crypto sample_xprv False 0 = Some t" "length t = 32"
    by (rule sample_account)
  have reach: "reach one_bank c = (if c then 0 else 1)" for c by (simp add: reach_def one_bank_def bank_size_def)
  have "ext_ok sample_curve_crypto sample_xprv one_bank"
    using a reach by (simp add: ext_ok_def chains_ok_def one_bank_def banks_ok_def bank_ok_def)
  moreover have "own_inputs sample_curve_crypto sample_curve sample_xprv (p2pk_tx t) one_bank = {0}"
    using p2pk_tx_ok [OF a(4)] a(3) by (auto simp: own_inputs_def reach)
  ultimately show ?thesis using that a(4) by blast
qed

lemma sample_never_refuses: "\<exists>k. generate_rfc6979_nonce sample_curve_crypto sample_curve (Some aux) key m = Inr k"
proof -
  have "hmac_sha512 (cr_sha512 sample_curve_crypto) k data = replicate 64 192" for k data
    by (simp add: hmac_sha512_def Let_def sample_crypto_def sample_curve_crypto_def HMAC_BLOCK_SIZE_def)
  then show ?thesis
    by (simp add: generate_rfc6979_nonce_def Let_def sample_curve_def sample_il) (simp add: sample_il_def secp_order_def)
qed

theorem multi_addr_signs_own_witness:
  "\<exists>t r tx ext. length t = 32 \<and>
     sign_transaction_multi_addr sample_curve_crypto sample_curve (\<lambda>n. None) sample_xprv ShAll (p2pk_tx t) one_bank = Some (r, tx, ext) \<and>
     unsigned_part tx = unsigned_part (p2pk_tx t)"
proof -
  obtain t where t: "ext_ok sample_curve_crypto sample_xprv one_bank" "length t = 32"
    "own_inputs sample_curve_crypto sample_curve sample_xprv (p2pk_tx t) one_bank = {0}" by (rule one_bank_ok)
  from multi_addr_signs_own [OF sample_curve_ok t(1) p2pk_tx_ok(1) [OF t(2)], of "\<lambda>n. None" ShAll] t(2) show ?thesis by blast
qed

theorem multi_addr_signs_all_witness:
  "\<exists>t tx ext. length t = 32 \<and>
     sign_transaction_multi_addr sample_curve_crypto sample_curve (\<lambda>n. Some [of_nat n]) sample_xprv ShAll (p2pk_tx t) one_bank = Some (Inr 1, tx, ext) \<and>
     single_sig_ok sample_curve_crypto sample_curve ShAll (p2pk_tx t) 0 (tx_inputs tx ! 0)"
proof -
  obtain t where t: "ext_ok sample_curve_crypto sample_xprv one_bank" "length t = 32"
    "own_inputs sample_curve_crypto sample_curve sample_xprv (p2pk_tx t) one_bank = {0}" by (rule one_bank_ok)
  have "tx_stealth_key sample_curve_crypto sample_curve sample_xprv (p2pk_tx t) = None"
    using p2pk_tx_ok(3) [OF t(2)] by (simp add: tx_stealth_key_def)
  then have "\<exists>tx' ext'. sign_transaction_multi_addr sample_curve_crypto sample_curve (\<lambda>n. Some [of_nat n]) sample_xprv ShAll (p2pk_tx t) one_bank =
      Some (Inr 1, tx', ext') \<and>
    (\<forall>i. if i = 0 then single_sig_ok sample_curve_crypto sample_curve ShAll (p2pk_tx t) i (tx_inputs tx' ! i)
         else tx_inputs tx' ! i = tx_inputs (p2pk_tx t) ! i)"
    using multi_addr_signs_all [OF sample_curve_ok t(1) p2pk_tx_ok(1) [OF t(2)], of "\<lambda>n. Some [of_nat n]" ShAll] sample_never_refuses
    by (simp add: t(3))
  then show ?thesis using t(2) by metis
qed

end
