(* ===== verification/KasSignMulti.thy ===== *)
theory KasSignMulti
  imports KasKsptSigned KasMultisig KasSigning
begin

text \<open>
  Signing with all loaded seeds (core/src/wallet/pskt.rs, \<open>sign_transaction_multisig\<close>): P2PK inputs,
  multisig inputs (the account keys, hinted or searched 45' keys, the table of 44' address keys) and
  scripts with embedded keys. \<open>None\<close> is a panic: the walk over such a script adds a pushed length of up
  to 2^32 - 1 to a 32-bit offset, and the firmware traps on overflow.
\<close>

section \<open>Loops with a break\<close>

text \<open>The flag says that the loop was left by \<open>break\<close>.\<close>

fun loop_break :: "nat list \<Rightarrow> (nat \<Rightarrow> 's \<Rightarrow> bool \<times> 's) \<Rightarrow> 's \<Rightarrow> bool \<times> 's" where
  "loop_break [] f s = (False, s)"
| "loop_break (i # is) f s = (case f i s of (True, s) \<Rightarrow> (True, s) | (False, s) \<Rightarrow> loop_break is f s)"

definition or_else :: "('s \<Rightarrow> bool \<times> 's) \<Rightarrow> ('s \<Rightarrow> bool \<times> 's) \<Rightarrow> 's \<Rightarrow> bool \<times> 's" where
  "or_else m n s = (case m s of (True, s) \<Rightarrow> (True, s) | (False, s) \<Rightarrow> n s)"

fun first_some :: "('i \<Rightarrow> 'a option) \<Rightarrow> 'i list \<Rightarrow> 'a option" where
  "first_some f [] = None"
| "first_some f (i # is) = (case f i of Some x \<Rightarrow> Some x | None \<Rightarrow> first_some f is)"

section \<open>The keys of the seeds\<close>

record seed_keys =
  sd_num :: nat
  sd_acct :: "xprv option list"
  sd_ms45 :: "xprv option list"
  sd_compressed :: "bytes option list"
  sd_xonly :: "bytes option list"

definition derive_seed_keys :: "'pt crypto \<Rightarrow> (bytes \<times> bool) list \<Rightarrow> seed_keys" where
  "derive_seed_keys cr seeds =
     (let num = min (length seeds) 8;
          key = (\<lambda>derive s. if s < num \<and> snd (seeds ! s) then ok_value (derive (fst (seeds ! s))) else None);
          acct = map (key (derive_account_key cr)) [0..<8];
          ms45 = map (key (\<lambda>seed. derive_multisig_account_key cr seed 0)) [0..<8];
          compressed = map (\<lambda>k. Option.bind k (\<lambda>acct. ok_value (public_key_compressed cr acct))) acct
      in \<lparr>sd_num = num, sd_acct = acct, sd_ms45 = ms45, sd_compressed = compressed,
          sd_xonly = map (map_option (slice 1 32)) compressed\<rparr>)"

section \<open>The state of a pass\<close>

record msign =
  mg_tx :: transaction
  mg_total :: nat
  mg_hint_key :: "(u32 \<times> u32 \<times> u32) option"
  mg_search_ms :: "multisig_info option"
  mg_cache :: "(xprv \<times> bytes) option list"
  mg_tables :: "addr_table option list"
  mg_calls :: nat

text \<open>\<open>if let Ok(sig) = sign_input(..) \{ store; break \}\<close>\<close>

definition try_sign ::
  "'pt crypto \<Rightarrow> ('pt, 'sc) curve \<Rightarrow> (nat \<Rightarrow> bytes option) \<Rightarrow> sighash_type \<Rightarrow> nat \<Rightarrow> bytes \<Rightarrow> (bytes \<Rightarrow> msign \<Rightarrow> msign) \<Rightarrow>
   msign \<Rightarrow> bool \<times> msign"
where
  "try_sign cr cv rng ty i privkey store mg =
     (case sign_input cr cv (rng (mg_calls mg)) (mg_tx mg) i privkey ty of
        Inl _ \<Rightarrow> (False, mg\<lparr>mg_calls := mg_calls mg + 1\<rparr>)
      | Inr sig \<Rightarrow> (True, store sig (mg\<lparr>mg_calls := mg_calls mg + 1\<rparr>)))"

text \<open>The fields of one signature slot; a missing public key leaves what the slot held.\<close>

definition put_sig :: "nat \<Rightarrow> bytes \<Rightarrow> sighash_type \<Rightarrow> u8 \<Rightarrow> bytes option \<Rightarrow> transaction_input \<Rightarrow> transaction_input" where
  "put_sig slot sig ty pos pk_c inp =
     inp\<lparr>in_sigs := (in_sigs inp)[slot := (in_sigs inp ! slot)\<lparr>sig_signature := sig, sig_sighash_type := sighash_to_byte ty,
       sig_pubkey_pos := pos, sig_present := True,
       sig_pubkey_compressed := (case pk_c of Some pk \<Rightarrow> pk | None \<Rightarrow> sig_pubkey_compressed (in_sigs inp ! slot))\<rparr>]\<rparr>"

definition store_in :: "nat \<Rightarrow> (transaction_input \<Rightarrow> transaction_input) \<Rightarrow> msign \<Rightarrow> msign" where
  "store_in i f mg = mg\<lparr>mg_tx := upd_in i f (mg_tx mg), mg_total := mg_total mg + 1\<rparr>"

definition legacy_fields :: "bytes \<Rightarrow> sighash_type \<Rightarrow> transaction_input \<Rightarrow> transaction_input" where
  "legacy_fields sig ty inp = inp\<lparr>in_signature := sig, in_sig_len := 64, in_sighash_type := sighash_to_byte ty\<rparr>"

text \<open>The signature of a single-key input (P2PK, or an embedded key at candidate position \<open>pos\<close>).\<close>

definition store_single :: "nat \<Rightarrow> sighash_type \<Rightarrow> u8 \<Rightarrow> bytes option \<Rightarrow> bytes \<Rightarrow> msign \<Rightarrow> msign" where
  "store_single i ty pos pk_c sig =
     store_in i (\<lambda>inp. legacy_fields sig ty ((put_sig 0 sig ty pos pk_c inp)\<lparr>in_sig_count := 1\<rparr>))"

definition store_treasury :: "nat \<Rightarrow> sighash_type \<Rightarrow> bytes option \<Rightarrow> bytes \<Rightarrow> msign \<Rightarrow> msign" where
  "store_treasury i ty pk_c sig =
     store_in i (\<lambda>inp. (put_sig 0 sig ty 0 pk_c inp)\<lparr>in_sig_count := 1, in_sighash_type := sighash_to_byte ty\<rparr>)"

text \<open>The next signature of a multisig input; nothing when all slots are used.\<close>

definition store_multi :: "nat \<Rightarrow> sighash_type \<Rightarrow> u8 \<Rightarrow> bytes option \<Rightarrow> bytes \<Rightarrow> msign \<Rightarrow> msign" where
  "store_multi i ty pos pk_c sig mg =
     (let sc = unat (in_sig_count (tx_inputs (mg_tx mg) ! i))
      in if sc < MAX_SIGS_PER_INPUT
         then store_in i (\<lambda>inp. (put_sig sc sig ty pos pk_c inp)\<lparr>in_sig_count := in_sig_count inp + 1\<rparr>) mg
         else mg)"

section \<open>Keys of one account\<close>

definition position_key :: "'pt crypto \<Rightarrow> xprv \<Rightarrow> u16 \<times> bool \<Rightarrow> xprv option" where
  "position_key cr acct = (\<lambda>(idx, is_chg).
     ok_value (if is_chg then derive_change_key cr acct idx else derive_address_key cr acct idx))"

text \<open>The address key of \<open>target\<close> by the table of seed \<open>s\<close>, which is built on first use.\<close>

definition with_table :: "'pt crypto \<Rightarrow> xprv \<Rightarrow> nat \<Rightarrow> msign \<Rightarrow> msign" where
  "with_table cr acct s mg =
     (if mg_tables mg ! s = None then mg\<lparr>mg_tables := (mg_tables mg)[s := Some (table_build cr acct)]\<rparr> else mg)"

definition table_key :: "'pt crypto \<Rightarrow> xprv \<Rightarrow> nat \<Rightarrow> bytes \<Rightarrow> msign \<Rightarrow> xprv option" where
  "table_key cr acct s target mg =
     (case mg_tables mg ! s of
        None \<Rightarrow> None
      | Some tbl \<Rightarrow> Option.bind (find_by_pubkey tbl target) (position_key cr acct))"

definition sign_by_table ::
  "'pt crypto \<Rightarrow> ('pt, 'sc) curve \<Rightarrow> (nat \<Rightarrow> bytes option) \<Rightarrow> sighash_type \<Rightarrow> xprv \<Rightarrow> nat \<Rightarrow> nat \<Rightarrow> bytes \<Rightarrow>
   (bytes option \<Rightarrow> bytes \<Rightarrow> msign \<Rightarrow> msign) \<Rightarrow> msign \<Rightarrow> bool \<times> msign"
where
  "sign_by_table cr cv rng ty acct s i target store mg =
     (let mg = with_table cr acct s mg
      in case table_key cr acct s target mg of
           None \<Rightarrow> (False, mg)
         | Some k \<Rightarrow> try_sign cr cv rng ty i (xk_key k) (store (ok_value (public_key_compressed cr k))) mg)"

section \<open>P2PK inputs\<close>

definition sign_p2pk_seed ::
  "'pt crypto \<Rightarrow> ('pt, 'sc) curve \<Rightarrow> (nat \<Rightarrow> bytes option) \<Rightarrow> sighash_type \<Rightarrow> seed_keys \<Rightarrow> nat \<Rightarrow> bytes \<Rightarrow> nat \<Rightarrow> msign \<Rightarrow> bool \<times> msign"
where
  "sign_p2pk_seed cr cv rng ty sk i target s mg =
     (case sd_acct sk ! s of
        None \<Rightarrow> (False, mg)
      | Some acct \<Rightarrow>
          (case Option.bind (find_address_index_for_pubkey cr acct target) (position_key cr acct) of
             None \<Rightarrow> (False, mg)
           | Some k \<Rightarrow> try_sign cr cv rng ty i (xk_key k)
               (store_single i ty 0 (ok_value (public_key_compressed cr k))) mg))"

definition sign_p2pk_input ::
  "'pt crypto \<Rightarrow> ('pt, 'sc) curve \<Rightarrow> (nat \<Rightarrow> bytes option) \<Rightarrow> sighash_type \<Rightarrow> seed_keys \<Rightarrow> nat \<Rightarrow> msign \<Rightarrow> msign"
where
  "sign_p2pk_input cr cv rng ty sk i mg =
     (if in_sig_len (tx_inputs (mg_tx mg) ! i) > 0 then mg
      else
        let target = slice 1 32 (spk_script (input_spk (mg_tx mg) i))
        in snd (loop_break [0..<sd_num sk] (sign_p2pk_seed cr cv rng ty sk i target) mg))"

section \<open>Multisig inputs\<close>

definition seed_positions :: "seed_keys \<Rightarrow> multisig_info \<Rightarrow> nat option list" where
  "seed_positions sk ms =
     map (\<lambda>pk. Option.bind pk (\<lambda>pk. List.find (\<lambda>p. pk = ms_pubkeys ms ! p) [0..<unat (ms_n ms)])) (sd_xonly sk)"

definition hinted_key :: "'pt crypto \<Rightarrow> ms45_hint \<Rightarrow> xprv \<Rightarrow> (xprv \<times> bytes) option" where
  "hinted_key cr h mk =
     Option.bind (ok_value (tryR (derive_child cr mk (hint_cosigner h)) (\<lambda>k.
                            tryR (derive_child cr k (hint_chain h)) (\<lambda>k. derive_child cr k (hint_index h)))))
       (\<lambda>k. map_option (Pair k) (ok_value (public_key_x_only cr k)))"

definition use_hint :: "'pt crypto \<Rightarrow> seed_keys \<Rightarrow> ms45_hint \<Rightarrow> msign \<Rightarrow> msign" where
  "use_hint cr sk h mg =
     (let key = (hint_cosigner h, hint_chain h, hint_index h)
      in if \<not> hint_present h \<or> mg_hint_key mg = Some key then mg
         else mg\<lparr>mg_cache := map (\<lambda>mk. Option.bind mk (hinted_key cr h)) (sd_ms45 sk), mg_hint_key := Some key\<rparr>)"

definition SIGN_MATCH_DEPTH_45 :: nat where "SIGN_MATCH_DEPTH_45 = 60"

text \<open>The search without a hint: the first key of the 45' account that is in the script.\<close>

definition searched_key :: "'pt crypto \<Rightarrow> multisig_info \<Rightarrow> xprv \<Rightarrow> (xprv \<times> bytes) option" where
  "searched_key cr ms mk =
     first_some (\<lambda>fam. Option.bind (ok_value (derive_child cr mk (of_nat fam))) (\<lambda>famk.
       first_some (\<lambda>chain. Option.bind (ok_value (derive_child cr famk (of_nat chain))) (\<lambda>chk.
         first_some (\<lambda>idx. Option.bind (ok_value (derive_child cr chk (of_nat idx))) (\<lambda>k.
           Option.bind (ok_value (public_key_x_only cr k)) (\<lambda>pk.
             if list_ex (\<lambda>p. ms_pubkeys ms ! p = pk) [0..<unat (ms_n ms)] then Some (k, pk) else None)))
         [0..<SIGN_MATCH_DEPTH_45]))
       [0..<2]))
     [0..<unat (ms_n ms)]"

definition hintless_search :: "'pt crypto \<Rightarrow> seed_keys \<Rightarrow> ms45_hint \<Rightarrow> multisig_info \<Rightarrow> msign \<Rightarrow> msign" where
  "hintless_search cr sk h ms mg =
     (let ck = (-1, -1, 0)
      in if hint_present h \<or> list_all (\<lambda>k. k = None) (sd_ms45 sk) then mg
         else if mg_hint_key mg = Some ck \<and> mg_search_ms mg = Some ms then mg
         else mg\<lparr>mg_cache := map (\<lambda>mk. Option.bind mk (searched_key cr ms)) (sd_ms45 sk),
                 mg_hint_key := Some ck, mg_search_ms := Some ms\<rparr>)"

text \<open>One seed at one position: the account key, else the cached 45' key, else the table of 44' keys.\<close>

definition sign_position_seed ::
  "'pt crypto \<Rightarrow> ('pt, 'sc) curve \<Rightarrow> (nat \<Rightarrow> bytes option) \<Rightarrow> sighash_type \<Rightarrow> seed_keys \<Rightarrow> multisig_info \<Rightarrow> nat \<Rightarrow> nat \<Rightarrow>
   nat \<Rightarrow> msign \<Rightarrow> bool \<times> msign"
where
  "sign_position_seed cr cv rng ty sk ms i pos s mg =
     (case sd_acct sk ! s of
        None \<Rightarrow> (False, mg)
      | Some acct \<Rightarrow>
          (let target = ms_pubkeys ms ! pos; own = seed_positions sk ms ! s
           in or_else
                (\<lambda>mg. if own = Some pos
                      then try_sign cr cv rng ty i (xk_key acct) (store_multi i ty (of_nat pos) (sd_compressed sk ! s)) mg
                      else (False, mg))
              (or_else
                (\<lambda>mg. case mg_cache mg ! s of
                        Some (k, pk) \<Rightarrow>
                          if own = None \<and> pk = target
                          then try_sign cr cv rng ty i (xk_key k)
                                 (store_multi i ty (of_nat pos) (ok_value (public_key_compressed cr k))) mg
                          else (False, mg)
                      | None \<Rightarrow> (False, mg))
                (\<lambda>mg. let hint_tried = hint_present (in_ms45_hint (tx_inputs (mg_tx mg) ! i)) \<or> mg_cache mg ! s \<noteq> None
                      in if own = None \<and> \<not> hint_tried
                         then sign_by_table cr cv rng ty acct s i target (store_multi i ty (of_nat pos)) mg
                         else (False, mg))) mg))"

definition position_signed :: "transaction_input \<Rightarrow> nat \<Rightarrow> bool" where
  "position_signed inp pos \<longleftrightarrow>
     list_ex (\<lambda>s. sig_present (in_sigs inp ! s) \<and> sig_pubkey_pos (in_sigs inp ! s) = of_nat pos) [0..<unat (in_sig_count inp)]"

definition sign_position ::
  "'pt crypto \<Rightarrow> ('pt, 'sc) curve \<Rightarrow> (nat \<Rightarrow> bytes option) \<Rightarrow> sighash_type \<Rightarrow> seed_keys \<Rightarrow> multisig_info \<Rightarrow> nat \<Rightarrow> nat \<Rightarrow> msign \<Rightarrow> msign"
where
  "sign_position cr cv rng ty sk ms i pos mg =
     (if position_signed (tx_inputs (mg_tx mg) ! i) pos then mg
      else snd (loop_break [0..<sd_num sk] (sign_position_seed cr cv rng ty sk ms i pos) mg))"

definition sign_ms_input ::
  "'pt crypto \<Rightarrow> ('pt, 'sc) curve \<Rightarrow> (nat \<Rightarrow> bytes option) \<Rightarrow> sighash_type \<Rightarrow> seed_keys \<Rightarrow> multisig_info \<Rightarrow> nat \<Rightarrow> msign \<Rightarrow> msign"
where
  "sign_ms_input cr cv rng ty sk ms i mg =
     (let h = in_ms45_hint (tx_inputs (mg_tx mg) ! i);
          mg = use_hint cr sk h mg;
          sigs_before = in_sig_count (tx_inputs (mg_tx mg) ! i);
          all_positions = fold (sign_position cr cv rng ty sk ms i) [0..<unat (ms_n ms)];
          mg = all_positions mg;
          mg = (if in_sig_count (tx_inputs (mg_tx mg) ! i) \<noteq> sigs_before then mg
                else all_positions (hintless_search cr sk h ms mg));
          inp = tx_inputs (mg_tx mg) ! i
      in if in_sig_count inp > 0 \<and> in_sig_len inp = 0 then mg\<lparr>mg_tx := sync_legacy i (mg_tx mg)\<rparr> else mg)"

section \<open>Scripts with embedded keys\<close>

text \<open>32-bit \<open>usize\<close>; \<open>None\<close> is the overflow trap.\<close>

definition usize_add :: "nat \<Rightarrow> nat \<Rightarrow> nat option" where
  "usize_add a b = (if a + b < 2 ^ 32 then Some (a + b) else None)"

definition has_checksig :: "bytes \<Rightarrow> nat \<Rightarrow> bool" where
  "has_checksig rs after \<longleftrightarrow>
     after < length rs \<and> (rs ! after = 0xAC \<or> rs ! after = 0xAD) \<or>
     after + 1 < length rs \<and> (rs ! (after + 1) = 0xAC \<or> rs ! (after + 1) = 0xAD)"

definition key_push :: "bytes \<Rightarrow> nat \<Rightarrow> bool" where
  "key_push rs off \<longleftrightarrow> rs ! off = 0x20 \<and> off + 33 \<le> length rs"

text \<open>The offset of the next opcode.\<close>

definition next_opcode :: "bytes \<Rightarrow> nat \<Rightarrow> nat option" where
  "next_opcode rs off =
     (let op = rs ! off; len = length rs
      in if key_push rs off then usize_add off 33
         else if 0x01 \<le> op \<and> op \<le> 0x4B then usize_add off (1 + unat op)
         else if op = 0x4C then
           (if off + 1 < len then usize_add off (2 + unat (rs ! (off + 1))) else usize_add off 1)
         else if op = 0x4D then
           (if off + 2 < len then usize_add off (3 + le_value (slice (off + 1) 2 rs)) else usize_add off 1)
         else if op = 0x4E then
           (if off + 4 < len then Option.bind (usize_add 5 (le_value (slice (off + 1) 4 rs))) (usize_add off)
            else usize_add off 1)
         else usize_add off 1)"

lemma next_opcode_grows: "next_opcode rs off = Some off' \<Longrightarrow> off < off'"
  by (auto simp: next_opcode_def usize_add_def Let_def word_le_nat_alt split: if_splits Option.bind_splits)

function scan_candidates :: "bytes \<Rightarrow> nat \<Rightarrow> bytes list \<Rightarrow> bytes list option" where
  "scan_candidates rs off candidates =
     (if off < length rs \<and> length candidates < 8 then
        (case next_opcode rs off of
           None \<Rightarrow> None
         | Some off' \<Rightarrow> scan_candidates rs off'
             (if key_push rs off \<and> has_checksig rs (off + 33) then candidates @ [slice (off + 1) 32 rs] else candidates))
      else Some candidates)"
  by pat_completeness auto
termination
  by (relation "measure (\<lambda>(rs, off, _). length rs - off)") (auto dest: next_opcode_grows)

declare scan_candidates.simps [simp del]

definition sign_candidate_seed ::
  "'pt crypto \<Rightarrow> ('pt, 'sc) curve \<Rightarrow> (nat \<Rightarrow> bytes option) \<Rightarrow> sighash_type \<Rightarrow> seed_keys \<Rightarrow> nat option \<Rightarrow> nat \<Rightarrow> bytes \<Rightarrow>
   (bytes option \<Rightarrow> bytes \<Rightarrow> msign \<Rightarrow> msign) \<Rightarrow> nat \<Rightarrow> msign \<Rightarrow> bool \<times> msign"
where
  "sign_candidate_seed cr cv rng ty sk active i target store s mg =
     (if active \<noteq> None \<and> active \<noteq> Some s then (False, mg)
      else
        case sd_acct sk ! s of
          None \<Rightarrow> (False, mg)
        | Some acct \<Rightarrow>
            or_else
              (\<lambda>mg. if sd_xonly sk ! s = Some target
                    then try_sign cr cv rng ty i (xk_key acct) (store (ok_value (public_key_compressed cr acct))) mg
                    else (False, mg))
              (sign_by_table cr cv rng ty acct s i target store) mg)"

definition sign_covenant_input ::
  "'pt crypto \<Rightarrow> ('pt, 'sc) curve \<Rightarrow> (nat \<Rightarrow> bytes option) \<Rightarrow> sighash_type \<Rightarrow> seed_keys \<Rightarrow> nat option \<Rightarrow> nat \<Rightarrow> msign \<Rightarrow> msign option"
where
  "sign_covenant_input cr cv rng ty sk active i mg =
     (let rs = redeem_bytes (mg_tx mg) i; inp = tx_inputs (mg_tx mg) ! i
      in case scan_candidates rs 0 [] of
           None \<Rightarrow> None
         | Some candidates \<Rightarrow>
             Some
              (if length candidates > 0 then
                 (if in_sig_count inp > 0 then mg
                  else snd (loop_break [0..<length candidates] (\<lambda>c.
                         loop_break [0..<sd_num sk]
                           (sign_candidate_seed cr cv rng ty sk active i (candidates ! c) (store_single i ty (of_nat c)))) mg))
               else if length rs \<ge> 35 \<and> rs ! 0 = 0x20 \<and> rs ! 33 = 0xAD \<and> in_sig_count inp = 0 then
                 snd (loop_break [0..<sd_num sk]
                        (sign_candidate_seed cr cv rng ty sk active i (slice 1 32 rs) (store_treasury i ty)) mg)
               else mg))"

section \<open>The pass\<close>

definition sign_multi_input ::
  "'pt crypto \<Rightarrow> ('pt, 'sc) curve \<Rightarrow> (nat \<Rightarrow> bytes option) \<Rightarrow> (bytes \<Rightarrow> bytes) \<Rightarrow> sighash_type \<Rightarrow> seed_keys \<Rightarrow> nat option \<Rightarrow>
   nat \<Rightarrow> msign \<Rightarrow> msign option"
where
  "sign_multi_input cr cv rng hash ty sk active i mg =
     (case analyze_input_script hash (mg_tx mg) i of
        (P2PK, _) \<Rightarrow> Some (sign_p2pk_input cr cv rng ty sk i mg)
      | (UnknownScript, _) \<Rightarrow> Some mg
      | (_, Some ms) \<Rightarrow> Some (sign_ms_input cr cv rng ty sk ms i mg)
      | (_, None) \<Rightarrow> sign_covenant_input cr cv rng ty sk active i mg)"

fun for_option :: "nat list \<Rightarrow> (nat \<Rightarrow> 's \<Rightarrow> 's option) \<Rightarrow> 's \<Rightarrow> 's option" where
  "for_option [] f s = Some s"
| "for_option (i # is) f s = (case f i s of None \<Rightarrow> None | Some s \<Rightarrow> for_option is f s)"

text \<open>The number of new signatures and the transaction (the function never returns an error).\<close>

definition sign_transaction_multisig ::
  "'pt crypto \<Rightarrow> ('pt, 'sc) curve \<Rightarrow> (nat \<Rightarrow> bytes option) \<Rightarrow> (bytes \<Rightarrow> bytes) \<Rightarrow> (bytes \<times> bool) list \<Rightarrow> sighash_type \<Rightarrow>
   nat option \<Rightarrow> transaction \<Rightarrow> (nat \<times> transaction) option"
where
  "sign_transaction_multisig cr cv rng hash seeds ty active tx =
     map_option (\<lambda>mg. (mg_total mg, mg_tx mg))
       (for_option [0..<tx_num_inputs tx] (sign_multi_input cr cv rng hash ty (derive_seed_keys cr seeds) active)
         \<lparr>mg_tx = tx, mg_total = 0, mg_hint_key = None, mg_search_ms = None, mg_cache = replicate 8 None,
          mg_tables = replicate 8 None, mg_calls = 0\<rparr>)"

section \<open>Loop rules\<close>

text \<open>\<open>breaks I Q\<close>: without a break the invariant still holds, with one the postcondition does.\<close>

definition breaks :: "('s \<Rightarrow> bool) \<Rightarrow> ('s \<Rightarrow> bool) \<Rightarrow> bool \<times> 's \<Rightarrow> bool" where
  "breaks I Q r \<longleftrightarrow> (if fst r then Q (snd r) else I (snd r))"

lemma breaks_loop: "I s \<Longrightarrow> (\<And>i s. i \<in> set is \<Longrightarrow> I s \<Longrightarrow> breaks I Q (f i s)) \<Longrightarrow> breaks I Q (loop_break is f s)"
proof (induction "is" arbitrary: s)
  case (Cons i "is")
  obtain b s' where f: "f i s = (b, s')" by (cases "f i s")
  have b: "breaks I Q (b, s')" using Cons.prems(2) [of i s] Cons.prems(1) f by simp
  show ?case
  proof (cases b)
    case True
    then show ?thesis using b f by (simp add: breaks_def)
  next
    case False
    then have "I s'" using b by (simp add: breaks_def)
    then have "breaks I Q (loop_break is f s')" by (rule Cons.IH) (use Cons.prems(2) in simp)
    then show ?thesis using f False by simp
  qed
qed (simp add: breaks_def)

lemma breaks_or_else: "breaks I Q (m s) \<Longrightarrow> (\<And>s. I s \<Longrightarrow> breaks I Q (n s)) \<Longrightarrow> breaks I Q (or_else m n s)"
  by (cases "m s") (auto simp: or_else_def breaks_def split: bool.split)

lemma breaks_weaken: "breaks I Q r \<Longrightarrow> (\<And>s. I s \<Longrightarrow> I' s) \<Longrightarrow> (\<And>s. Q s \<Longrightarrow> Q' s) \<Longrightarrow> breaks I' Q' r"
  by (auto simp: breaks_def split: if_splits)

lemma breaks_same: "breaks I I r \<Longrightarrow> I (snd r)"
  by (simp add: breaks_def split: if_splits)

lemma breaks_False [simp]: "breaks I Q (False, s) \<longleftrightarrow> I s"
  by (simp add: breaks_def)

section \<open>Embedded keys\<close>

lemma scan_candidates_sound:
  assumes "scan_candidates rs off cs = Some cs'"
  shows "(\<exists>new. cs' = cs @ new \<and> (\<forall>c \<in> set new. \<exists>off' \<ge> off. key_push rs off' \<and> has_checksig rs (off' + 33) \<and> c = slice (off' + 1) 32 rs)) \<and>
    (length cs \<le> 8 \<longrightarrow> length cs' \<le> 8)"
  using assms
proof (induction rs off cs rule: scan_candidates.induct)
  case (1 rs off cs)
  show ?case
  proof (cases "off < length rs \<and> length cs < 8")
    case False
    then show ?thesis using 1(2) scan_candidates.simps [of rs off cs] by auto
  next
    case True
    then obtain off' where n: "next_opcode rs off = Some off'" using 1(2) scan_candidates.simps [of rs off cs] by (auto split: option.splits)
    let ?cs = "if key_push rs off \<and> has_checksig rs (off + 33) then cs @ [slice (off + 1) 32 rs] else cs"
    have run: "scan_candidates rs off' ?cs = Some cs'"
      using 1(2) True n scan_candidates.simps [of rs off cs] by auto
    obtain new where new: "cs' = ?cs @ new"
      "\<forall>c \<in> set new. \<exists>o' \<ge> off'. key_push rs o' \<and> has_checksig rs (o' + 33) \<and> c = slice (o' + 1) 32 rs"
      and len: "length ?cs \<le> 8 \<longrightarrow> length cs' \<le> 8"
      using 1(1) [OF True n run] by blast
    have up: "\<exists>o' \<ge> off. key_push rs o' \<and> has_checksig rs (o' + 33) \<and> c = slice (o' + 1) 32 rs" if "c \<in> set new" for c
      using new(2) that next_opcode_grows [OF n] by (meson less_imp_le order_trans)
    have "length ?cs \<le> 8" using True by simp
    show ?thesis
    proof (cases "key_push rs off \<and> has_checksig rs (off + 33)")
      case yes: True
      have "\<exists>o' \<ge> off. key_push rs o' \<and> has_checksig rs (o' + 33) \<and> slice (off + 1) 32 rs = slice (o' + 1) 32 rs"
        using yes by blast
      then show ?thesis using new(1) up len \<open>length ?cs \<le> 8\<close> yes by (intro conjI exI [of _ "slice (off + 1) 32 rs # new"]) auto
    next
      case False
      then show ?thesis using new(1) up len \<open>length ?cs \<le> 8\<close> by (intro conjI exI [of _ new]) auto
    qed
  qed
qed

lemma scan_candidates_trap:
  assumes "scan_candidates rs off cs = None" "length rs < 2 ^ 31"
  shows "\<exists>o'. o' + 4 < length rs \<and> rs ! o' = 0x4E \<and> 2 ^ 32 \<le> o' + 5 + le_value (slice (o' + 1) 4 rs)"
  using assms
proof (induction rs off cs rule: scan_candidates.induct)
  case (1 rs off cs)
  have in_range: "off < length rs \<and> length cs < 8" using 1(2) scan_candidates.simps [of rs off cs] by (auto split: if_splits)
  show ?case
  proof (cases "next_opcode rs off")
    case (Some off')
    then show ?thesis using 1 in_range scan_candidates.simps [of rs off cs] by auto
  next
    case None
    have small: "unat (rs ! k) < 256" for k by (rule unat_u8_less)
    have two: "le_value (slice (off + 1) 2 rs) < 65536" if "off + 2 < length rs"
      using le_value_bound [of "slice (off + 1) 2 rs"] that by simp
    have "off < 2 ^ 31" using in_range 1(3) by simp
    then show ?thesis
      using None small [of off] small [of "off + 1"] two
      by (auto simp: next_opcode_def usize_add_def Let_def key_push_def split: if_splits Option.bind_splits)
  qed
qed

text \<open>A treasury script starts with a key push, so the first scan always finds its key.\<close>

lemma treasury_found:
  assumes "length rs \<ge> 35" "rs ! 0 = 0x20" "rs ! 33 = 0xAD" "scan_candidates rs 0 [] = Some cs"
  shows "cs \<noteq> []"
proof -
  have "key_push rs 0" "has_checksig rs 33" using assms by (simp_all add: key_push_def has_checksig_def)
  moreover from this have "next_opcode rs 0 = Some 33" by (simp add: next_opcode_def usize_add_def Let_def)
  ultimately have "scan_candidates rs 33 [slice 1 32 rs] = Some cs"
    using assms(1,4) scan_candidates.simps [of rs 0 "[]"] by (auto split: if_splits)
  then show ?thesis using scan_candidates_sound by blast
qed

section \<open>What a pass may do to an input\<close>

text \<open>The keys that an input's script asks for, by position.\<close>

definition signing_keys :: "(bytes \<Rightarrow> bytes) \<Rightarrow> transaction \<Rightarrow> nat \<Rightarrow> bytes list" where
  "signing_keys hash tx i =
     (case analyze_input_script hash tx i of
        (P2PK, _) \<Rightarrow> [slice 1 32 (spk_script (input_spk tx i))]
      | (UnknownScript, _) \<Rightarrow> []
      | (_, Some ms) \<Rightarrow> take (unat (ms_n ms)) (ms_pubkeys ms)
      | (_, None) \<Rightarrow> (case scan_candidates (redeem_bytes tx i) 0 [] of None \<Rightarrow> [] | Some cs \<Rightarrow> cs))"

definition sig_valid ::
  "'pt crypto \<Rightarrow> ('pt, 'sc) curve \<Rightarrow> (bytes \<Rightarrow> bytes) \<Rightarrow> sighash_type \<Rightarrow> transaction \<Rightarrow> nat \<Rightarrow> input_sig \<Rightarrow> bool"
where
  "sig_valid cr cv hash ty tx i e \<longleftrightarrow>
     sig_present e \<and> sig_sighash_type e = sighash_to_byte ty \<and> unat (sig_pubkey_pos e) < length (signing_keys hash tx i) \<and>
     schnorr_verify cr cv (signing_keys hash tx i ! unat (sig_pubkey_pos e)) (calculate_sighash tx i ty) (sig_signature e) = Inr ()"

text \<open>\<open>inp\<close> is input \<open>i\<close> of \<open>tx\<close> after it gained \<open>g\<close> signatures.\<close>

definition input_gain ::
  "'pt crypto \<Rightarrow> ('pt, 'sc) curve \<Rightarrow> (bytes \<Rightarrow> bytes) \<Rightarrow> sighash_type \<Rightarrow> transaction \<Rightarrow> nat \<Rightarrow> transaction_input \<Rightarrow> nat \<Rightarrow> bool"
where
  "input_gain cr cv hash ty tx i inp g \<longleftrightarrow> length (in_sigs inp) = MAX_SIGS_PER_INPUT \<and>
     (let old = tx_inputs tx ! i
      in if fst (analyze_input_script hash tx i) = P2PK then
           g = 0 \<and> inp = old \<or>
           g = 1 \<and> in_sig_len old = 0 \<and> in_sig_len inp = 64 \<and> in_sig_count inp = 1 \<and> sig_valid cr cv hash ty tx i (in_sigs inp ! 0)
         else
           unat (in_sig_count inp) = unat (in_sig_count old) + g \<and> unat (in_sig_count inp) \<le> MAX_SIGS_PER_INPUT \<and>
           (\<forall>j < unat (in_sig_count old). in_sigs inp ! j = in_sigs old ! j) \<and>
           (\<forall>j < unat (in_sig_count inp). unat (in_sig_count old) \<le> j \<longrightarrow> sig_valid cr cv hash ty tx i (in_sigs inp ! j) \<and>
              (\<forall>k < j. sig_present (in_sigs inp ! k) \<longrightarrow> sig_pubkey_pos (in_sigs inp ! k) \<noteq> sig_pubkey_pos (in_sigs inp ! j))))"

definition seeds_ok :: "'pt crypto \<Rightarrow> seed_keys \<Rightarrow> bool" where
  "seeds_ok cr sk \<longleftrightarrow> sd_num sk \<le> 8 \<and> length (sd_ms45 sk) = 8 \<and> length (sd_xonly sk) = 8 \<and>
     (\<forall>s < 8. \<forall>pk. sd_xonly sk ! s = Some pk \<longrightarrow> (\<exists>acct. sd_acct sk ! s = Some acct \<and> public_key_x_only cr acct = Inr pk))"

definition caches_ok :: "'pt crypto \<Rightarrow> seed_keys \<Rightarrow> msign \<Rightarrow> bool" where
  "caches_ok cr sk mg \<longleftrightarrow> length (mg_cache mg) = 8 \<and> length (mg_tables mg) = 8 \<and>
     (\<forall>s < 8. \<forall>k pk. mg_cache mg ! s = Some (k, pk) \<longrightarrow> public_key_x_only cr k = Inr pk) \<and>
     (\<forall>s < 8. \<forall>acct tbl. sd_acct sk ! s = Some acct \<longrightarrow> mg_tables mg ! s = Some tbl \<longrightarrow> tbl = table_build cr acct)"

definition multi_ok ::
  "'pt crypto \<Rightarrow> ('pt, 'sc) curve \<Rightarrow> (bytes \<Rightarrow> bytes) \<Rightarrow> sighash_type \<Rightarrow> transaction \<Rightarrow> seed_keys \<Rightarrow> msign \<Rightarrow> bool"
where
  "multi_ok cr cv hash ty tx sk mg \<longleftrightarrow>
     unsigned_part (mg_tx mg) = unsigned_part tx \<and> caches_ok cr sk mg \<and>
     (\<forall>i. tx_num_inputs tx \<le> i \<longrightarrow> tx_inputs (mg_tx mg) ! i = tx_inputs tx ! i) \<and>
     (\<exists>g. mg_total mg = sum g {..<tx_num_inputs tx} \<and>
        (\<forall>i < tx_num_inputs tx. input_gain cr cv hash ty tx i (tx_inputs (mg_tx mg) ! i) (g i)))"

lemma seeds_ok: "seeds_ok cr (derive_seed_keys cr seeds)"
  by (auto simp: seeds_ok_def derive_seed_keys_def Let_def public_key_x_only_def ok_value_def split: if_splits sum.splits Option.bind_splits)

lemma strip_redeem [simp]:
  "in_redeem_script_len (strip_sigs i) = in_redeem_script_len i" "in_redeem_in_pool (strip_sigs i) = in_redeem_in_pool i"
  "in_redeem_script_offset (strip_sigs i) = in_redeem_script_offset i" "in_redeem_script (strip_sigs i) = in_redeem_script i"
  "in_ms45_hint (strip_sigs i) = in_ms45_hint i"
  by (simp_all add: strip_sigs_def)

lemma unsigned_views:
  assumes "unsigned_part a = unsigned_part b" "i < length (tx_inputs b)"
  shows "redeem_bytes a i = redeem_bytes b i" "analyze_input_script hash a i = analyze_input_script hash b i"
    "calculate_sighash a i ty = calculate_sighash b i ty"
proof -
  have redeem: "redeem_bytes (unsigned_part t) i = redeem_bytes t i" if "i < length (tx_inputs t)" for t
    using that by (simp add: redeem_bytes_def unsigned_part_def Let_def)
  have "analyze_input_script hash (unsigned_part t) i = analyze_input_script hash t i" if "i < length (tx_inputs t)" for t
    using that redeem [OF that] by (simp add: analyze_input_script_def unsigned_part_def Let_def)
  then show "redeem_bytes a i = redeem_bytes b i" "analyze_input_script hash a i = analyze_input_script hash b i"
    "calculate_sighash a i ty = calculate_sighash b i ty"
    using assms unsigned_same(1) [OF assms(1)] redeem [of a] redeem [of b] sighash_unsigned [of i a ty] sighash_unsigned [of i b ty]
    by metis+
qed

lemma multi_ok_caches:
  assumes "multi_ok cr cv hash ty tx sk mg" "caches_ok cr sk mg'" "mg_tx mg' = mg_tx mg" "mg_total mg' = mg_total mg"
  shows "multi_ok cr cv hash ty tx sk mg'"
  using assms by (simp add: multi_ok_def)

lemma store_in_ok:
  assumes ok: "multi_ok cr cv hash ty tx sk mg" and i: "i < tx_num_inputs tx" "tx_num_inputs tx \<le> length (tx_inputs tx)"
    and f: "\<And>x. strip_sigs (f x) = strip_sigs x"
    and gain: "\<And>g. input_gain cr cv hash ty tx i (tx_inputs (mg_tx mg) ! i) g \<Longrightarrow>
      input_gain cr cv hash ty tx i (f (tx_inputs (mg_tx mg) ! i)) (g + 1)"
  shows "multi_ok cr cv hash ty tx sk (store_in i f mg)"
proof -
  obtain g where g: "mg_total mg = sum g {..<tx_num_inputs tx}"
    "\<forall>i < tx_num_inputs tx. input_gain cr cv hash ty tx i (tx_inputs (mg_tx mg) ! i) (g i)"
    using ok unfolding multi_ok_def by blast
  have un: "unsigned_part (mg_tx mg) = unsigned_part tx" using ok by (simp add: multi_ok_def)
  have len: "i < length (tx_inputs (mg_tx mg))" using i unsigned_same(1) [OF un] by simp
  define g' where "g' = g(i := g i + 1)"
  have "sum g' {..<tx_num_inputs tx} = sum g {..<tx_num_inputs tx} + 1"
    using i(1) by (simp add: sum.remove [of _ i] g'_def)
  then have "mg_total (store_in i f mg) = sum g' {..<tx_num_inputs tx}" using g(1) by (simp add: store_in_def)
  moreover have "input_gain cr cv hash ty tx j (tx_inputs (mg_tx (store_in i f mg)) ! j) (g' j)" if j: "j < tx_num_inputs tx" for j
  proof (cases "j = i")
    case True
    have "tx_inputs (mg_tx (store_in i f mg)) ! j = f (tx_inputs (mg_tx mg) ! i)" using True len by (simp add: store_in_def upd_in_def)
    moreover have "input_gain cr cv hash ty tx i (f (tx_inputs (mg_tx mg) ! i)) (g i + 1)" using gain g(2) i(1) by blast
    ultimately show ?thesis using True by (simp add: g'_def)
  next
    case False
    have "tx_inputs (mg_tx (store_in i f mg)) ! j = tx_inputs (mg_tx mg) ! j" using False by (simp add: store_in_def upd_in_def)
    then show ?thesis using False g(2) j by (simp add: g'_def)
  qed
  ultimately have "\<exists>g. mg_total (store_in i f mg) = sum g {..<tx_num_inputs tx} \<and>
      (\<forall>j < tx_num_inputs tx. input_gain cr cv hash ty tx j (tx_inputs (mg_tx (store_in i f mg)) ! j) (g j))"
    by blast
  moreover have "unsigned_part (mg_tx (store_in i f mg)) = unsigned_part tx" using un by (simp add: store_in_def unsigned_upd_in [OF f])
  moreover have "caches_ok cr sk (store_in i f mg)" using ok by (simp add: multi_ok_def caches_ok_def store_in_def)
  moreover have "tx_inputs (mg_tx (store_in i f mg)) ! j = tx_inputs tx ! j" if "tx_num_inputs tx \<le> j" for j
    using ok that i(1) by (simp add: multi_ok_def store_in_def upd_in_def)
  ultimately show ?thesis unfolding multi_ok_def by (intro conjI allI impI)
qed

lemma calls_ok [simp]: "multi_ok cr cv hash ty tx sk (mg\<lparr>mg_calls := n\<rparr>) = multi_ok cr cv hash ty tx sk mg"
  by (simp add: multi_ok_def caches_ok_def)

text \<open>While no signature has been made the transaction stays the same.\<close>

definition trying ::
  "'pt crypto \<Rightarrow> ('pt, 'sc) curve \<Rightarrow> (bytes \<Rightarrow> bytes) \<Rightarrow> sighash_type \<Rightarrow> transaction \<Rightarrow> seed_keys \<Rightarrow> transaction \<Rightarrow> msign \<Rightarrow> bool"
where
  "trying cr cv hash ty tx sk t mg \<longleftrightarrow> multi_ok cr cv hash ty tx sk mg \<and> mg_tx mg = t"

definition stores ::
  "'pt crypto \<Rightarrow> ('pt, 'sc) curve \<Rightarrow> (bytes \<Rightarrow> bytes) \<Rightarrow> sighash_type \<Rightarrow> transaction \<Rightarrow> seed_keys \<Rightarrow> transaction \<Rightarrow> nat \<Rightarrow> bytes \<Rightarrow>
   (bytes \<Rightarrow> msign \<Rightarrow> msign) \<Rightarrow> bool"
where
  "stores cr cv hash ty tx sk t i pk store \<longleftrightarrow>
     (\<forall>sig mg. trying cr cv hash ty tx sk t mg \<longrightarrow> schnorr_verify cr cv pk (calculate_sighash tx i ty) sig = Inr () \<longrightarrow>
        multi_ok cr cv hash ty tx sk (store sig mg))"

lemma x_only_value: "public_key_x_only cr k = Inr pk \<Longrightarrow> slice 1 32 (cr_pubkey cr (xk_key k)) = pk"
  by (auto simp: public_key_x_only_def public_key_compressed_def tryR_def split: if_splits)

lemma try_sign_ok:
  assumes "curve_ok cr cv" "trying cr cv hash ty tx sk t mg" "i < length (tx_inputs tx)"
    and "public_key_x_only cr k = Inr pk" "stores cr cv hash ty tx sk t i pk store"
  shows "breaks (trying cr cv hash ty tx sk t) (multi_ok cr cv hash ty tx sk) (try_sign cr cv rng ty i (xk_key k) store mg)"
proof -
  have un: "unsigned_part (mg_tx mg) = unsigned_part tx" using assms(2) unfolding trying_def multi_ok_def by blast
  have eq: "sign_input cr cv e (mg_tx mg) i (xk_key k) ty = schnorr_sign cr cv e (xk_key k) (calculate_sighash tx i ty)" for e
    using unsigned_views(3) [OF un assms(3)] by (simp add: sign_input_def)
  have still: "trying cr cv hash ty tx sk t (mg\<lparr>mg_calls := mg_calls mg + 1\<rparr>)"
    using assms(2) by (simp add: trying_def)
  show ?thesis
  proof (cases "schnorr_sign cr cv (rng (mg_calls mg)) (xk_key k) (calculate_sighash tx i ty)")
    case (Inl e)
    then show ?thesis using still by (simp add: try_sign_def eq)
  next
    case (Inr sig)
    have "schnorr_verify cr cv pk (calculate_sighash tx i ty) sig = Inr ()"
      using sign_verifies(3) [OF assms(1) Inr] x_only_value [OF assms(4)] by simp
    then show ?thesis using still Inr assms(5) by (simp add: try_sign_def eq stores_def breaks_def)
  qed
qed

lemma put_sig_fields [simp]:
  "in_sigs (put_sig slot sig ty pos pk_c inp) = (in_sigs inp)[slot := (in_sigs inp ! slot)\<lparr>sig_signature := sig,
     sig_sighash_type := sighash_to_byte ty, sig_pubkey_pos := pos, sig_present := True,
     sig_pubkey_compressed := (case pk_c of Some pk \<Rightarrow> pk | None \<Rightarrow> sig_pubkey_compressed (in_sigs inp ! slot))\<rparr>]"
  "in_sig_count (put_sig slot sig ty pos pk_c inp) = in_sig_count inp"
  "strip_sigs (put_sig slot sig ty pos pk_c inp) = strip_sigs inp"
  by (simp_all add: put_sig_def strip_sigs_def)

lemma multi_ok_gain:
  assumes "multi_ok cr cv hash ty tx sk mg" "i < tx_num_inputs tx"
  obtains g where "input_gain cr cv hash ty tx i (tx_inputs (mg_tx mg) ! i) g"
  using assms unfolding multi_ok_def by blast

lemma gain_multi:
  assumes keys: "pos < length (signing_keys hash tx i)" "pos < 256"
    and type: "fst (analyze_input_script hash tx i) \<noteq> P2PK"
    and verify: "schnorr_verify cr cv (signing_keys hash tx i ! pos) (calculate_sighash tx i ty) sig = Inr ()"
    and fresh: "\<not> position_signed inp pos" and room: "unat (in_sig_count inp) < MAX_SIGS_PER_INPUT"
    and gain: "input_gain cr cv hash ty tx i inp g"
  shows "input_gain cr cv hash ty tx i
    ((put_sig (unat (in_sig_count inp)) sig ty (of_nat pos) pk_c inp)\<lparr>in_sig_count := in_sig_count inp + 1\<rparr>) (g + 1)"
proof -
  let ?old = "tx_inputs tx ! i"
  define c where "c = unat (in_sig_count inp)"
  define inp' where "inp' = (put_sig c sig ty (of_nat pos) pk_c inp)\<lparr>in_sig_count := in_sig_count inp + 1\<rparr>"
  have g: "length (in_sigs inp) = MAX_SIGS_PER_INPUT" "c = unat (in_sig_count ?old) + g"
    "\<forall>j < unat (in_sig_count ?old). in_sigs inp ! j = in_sigs ?old ! j"
    "\<forall>j < c. unat (in_sig_count ?old) \<le> j \<longrightarrow> sig_valid cr cv hash ty tx i (in_sigs inp ! j) \<and>
        (\<forall>k < j. sig_present (in_sigs inp ! k) \<longrightarrow> sig_pubkey_pos (in_sigs inp ! k) \<noteq> sig_pubkey_pos (in_sigs inp ! j))"
    using gain type by (simp_all add: input_gain_def c_def Let_def)
  have c: "c < MAX_SIGS_PER_INPUT" using room by (simp add: c_def)
  have count: "unat (in_sig_count inp') = c + 1"
    using c by (simp add: inp'_def c_def unat_word_ariths size_limits)
  have same: "in_sigs inp' ! j = in_sigs inp ! j" if "j \<noteq> c" for j using that by (simp add: inp'_def)
  have pos: "unat (of_nat pos :: u8) = pos" using keys(2) by (simp add: unat_of_nat)
  have new: "sig_valid cr cv hash ty tx i (in_sigs inp' ! c)" "sig_pubkey_pos (in_sigs inp' ! c) = of_nat pos"
    using keys(1) verify c g(1) by (simp_all add: inp'_def sig_valid_def pos)
  have "sig_pubkey_pos (in_sigs inp ! k) \<noteq> of_nat pos" if "k < c" "sig_present (in_sigs inp ! k)" for k
    using fresh that by (auto simp: position_signed_def list_ex_iff c_def)
  then have dist: "\<forall>k < c. sig_present (in_sigs inp' ! k) \<longrightarrow> sig_pubkey_pos (in_sigs inp' ! k) \<noteq> sig_pubkey_pos (in_sigs inp' ! c)"
    using new(2) same by auto
  have all: "\<forall>j < c + 1. unat (in_sig_count ?old) \<le> j \<longrightarrow> sig_valid cr cv hash ty tx i (in_sigs inp' ! j) \<and>
        (\<forall>k < j. sig_present (in_sigs inp' ! k) \<longrightarrow> sig_pubkey_pos (in_sigs inp' ! k) \<noteq> sig_pubkey_pos (in_sigs inp' ! j))"
    using g(4) new(1) dist same by (auto simp: less_Suc_eq)
  have "length (in_sigs inp') = MAX_SIGS_PER_INPUT" using g(1) by (simp add: inp'_def)
  moreover have "\<forall>j < unat (in_sig_count ?old). in_sigs inp' ! j = in_sigs ?old ! j" using g(2,3) same by auto
  ultimately have "input_gain cr cv hash ty tx i inp' (g + 1)"
    using type all c g(2) unfolding input_gain_def Let_def count by simp
  then show ?thesis by (simp add: inp'_def c_def)
qed

lemma stores_multi:
  assumes i: "i < tx_num_inputs tx" "tx_num_inputs tx \<le> length (tx_inputs tx)"
    and keys: "pos < length (signing_keys hash tx i)" "pos < 256"
    and type: "fst (analyze_input_script hash tx i) \<noteq> P2PK"
    and fresh: "\<not> position_signed (tx_inputs t ! i) pos"
  shows "stores cr cv hash ty tx sk t i (signing_keys hash tx i ! pos) (store_multi i ty (of_nat pos) pk_c)"
  unfolding stores_def
proof (intro allI impI)
  fix sig mg assume a: "trying cr cv hash ty tx sk t mg"
    "schnorr_verify cr cv (signing_keys hash tx i ! pos) (calculate_sighash tx i ty) sig = Inr ()"
  have ok: "multi_ok cr cv hash ty tx sk mg" and t: "mg_tx mg = t" using a(1) by (simp_all add: trying_def)
  show "multi_ok cr cv hash ty tx sk (store_multi i ty (of_nat pos) pk_c sig mg)"
  proof (cases "unat (in_sig_count (tx_inputs t ! i)) < MAX_SIGS_PER_INPUT")
    case True
    have "multi_ok cr cv hash ty tx sk
      (store_in i (\<lambda>inp. (put_sig (unat (in_sig_count (tx_inputs t ! i))) sig ty (of_nat pos) pk_c inp)\<lparr>in_sig_count := in_sig_count inp + 1\<rparr>) mg)"
      by (rule store_in_ok [OF ok i]) (simp add: put_sig_def strip_sigs_def, use gain_multi [OF keys type a(2) fresh True] t in simp)
    then show ?thesis using True t by (simp add: store_multi_def Let_def)
  next
    case False
    then show ?thesis using ok t by (simp add: store_multi_def Let_def)
  qed
qed

lemma stores_single:
  assumes i: "i < tx_num_inputs tx" "tx_num_inputs tx \<le> length (tx_inputs tx)"
    and keys: "pos < length (signing_keys hash tx i)" "pos < 256"
    and unsigned: "if fst (analyze_input_script hash tx i) = P2PK then in_sig_len (tx_inputs t ! i) = 0 else in_sig_count (tx_inputs t ! i) = 0"
  shows "stores cr cv hash ty tx sk t i (signing_keys hash tx i ! pos) (store_single i ty (of_nat pos) pk_c)"
  unfolding stores_def
proof (intro allI impI)
  fix sig mg assume a: "trying cr cv hash ty tx sk t mg"
    "schnorr_verify cr cv (signing_keys hash tx i ! pos) (calculate_sighash tx i ty) sig = Inr ()"
  have ok: "multi_ok cr cv hash ty tx sk mg" and t: "mg_tx mg = t" using a(1) by (simp_all add: trying_def)
  have pos: "unat (of_nat pos :: u8) = pos" using keys(2) by (simp add: unat_of_nat)
  let ?f = "\<lambda>inp. legacy_fields sig ty ((put_sig 0 sig ty (of_nat pos) pk_c inp)\<lparr>in_sig_count := 1\<rparr>)"
  have valid: "sig_valid cr cv hash ty tx i (in_sigs (?f inp) ! 0)" if "length (in_sigs inp) = MAX_SIGS_PER_INPUT" for inp
    using keys(1) a(2) that by (simp add: legacy_fields_def sig_valid_def pos size_limits)
  have "input_gain cr cv hash ty tx i (?f (tx_inputs t ! i)) (g + 1)" if g: "input_gain cr cv hash ty tx i (tx_inputs t ! i) g" for g
  proof -
    have len: "length (in_sigs (tx_inputs t ! i)) = MAX_SIGS_PER_INPUT" using g by (simp add: input_gain_def)
    show ?thesis
    proof (cases "fst (analyze_input_script hash tx i) = P2PK")
      case True
      then have "g = 0" "in_sig_len (tx_inputs tx ! i) = 0" using g unsigned by (auto simp: input_gain_def)
      then show ?thesis using True len valid [OF len] by (simp add: input_gain_def legacy_fields_def)
    next
      case False
      then have "g = 0" "in_sig_count (tx_inputs tx ! i) = 0"
        using g unsigned by (simp_all add: input_gain_def Let_def unat_eq_zero)
      then show ?thesis using False len valid [OF len] by (simp add: input_gain_def legacy_fields_def Let_def size_limits)
    qed
  qed
  then show "multi_ok cr cv hash ty tx sk (store_single i ty (of_nat pos) pk_c sig mg)"
    unfolding store_single_def
    by (intro store_in_ok [OF ok i]) (simp_all add: t, simp add: legacy_fields_def put_sig_def strip_sigs_def)
qed

section \<open>Finding keys\<close>

lemma position_key_x:
  assumes "chain_key cr acct c (unat idx) = Some t" "position_key cr acct (idx, c) = Some k"
  shows "public_key_x_only cr k = Inr t"
  using assms by (auto simp: chain_key_def position_key_def x_only_of_def ok_value_def tryR_def split: sum.splits if_splits)

lemma found_by_scan:
  assumes "Option.bind (find_address_index_for_pubkey cr acct target) (position_key cr acct) = Some k"
  shows "public_key_x_only cr k = Inr target"
proof -
  obtain idx c where "find_address_index_for_pubkey cr acct target = Some (idx, c)" "position_key cr acct (idx, c) = Some k"
    using assms by (auto split: Option.bind_splits)
  then show ?thesis
    using scan_chains_sound [of cr acct SIGN_MATCH_DEPTH target idx c] position_key_x [of cr acct c idx target k]
    by (simp add: find_address_scan SIGN_MATCH_DEPTH_def)
qed

lemma with_table_ok:
  assumes "trying cr cv hash ty tx sk t mg" "sd_acct sk ! s = Some acct" "s < 8"
  shows "trying cr cv hash ty tx sk t (with_table cr acct s mg)" "mg_tables (with_table cr acct s mg) ! s = Some (table_build cr acct)"
proof -
  have ok: "caches_ok cr sk mg" using assms(1) unfolding trying_def multi_ok_def by blast
  show "mg_tables (with_table cr acct s mg) ! s = Some (table_build cr acct)"
    using ok assms(2,3) by (auto simp: with_table_def caches_ok_def)
  have "caches_ok cr sk (with_table cr acct s mg)"
    using ok assms(2,3) by (auto simp: with_table_def caches_ok_def nth_list_update)
  moreover have "mg_tx (with_table cr acct s mg) = mg_tx mg" "mg_total (with_table cr acct s mg) = mg_total mg"
    by (simp_all add: with_table_def)
  ultimately show "trying cr cv hash ty tx sk t (with_table cr acct s mg)"
    using assms(1) multi_ok_caches [of cr cv hash ty tx sk mg "with_table cr acct s mg"] by (simp add: trying_def)
qed

lemma sign_by_table_ok:
  assumes "curve_ok cr cv" "trying cr cv hash ty tx sk t mg" "i < length (tx_inputs tx)" "sd_acct sk ! s = Some acct" "s < 8"
    and "\<And>pk_c. stores cr cv hash ty tx sk t i target (store pk_c)"
  shows "breaks (trying cr cv hash ty tx sk t) (multi_ok cr cv hash ty tx sk) (sign_by_table cr cv rng ty acct s i target store mg)"
proof -
  note wt = with_table_ok [OF assms(2,4,5)]
  show ?thesis
  proof (cases "table_key cr acct s target (with_table cr acct s mg)")
    case None
    then show ?thesis using wt(1) by (simp add: sign_by_table_def)
  next
    case (Some k)
    then obtain idx c where "find_by_pubkey (table_build cr acct) target = Some (idx, c)" "position_key cr acct (idx, c) = Some k"
      using wt(2) by (auto simp: table_key_def split: Option.bind_splits)
    then have "public_key_x_only cr k = Inr target"
      using scan_chains_sound [of cr acct ADDR_SCAN_DEPTH target idx c] position_key_x [of cr acct c idx target k]
      by (simp add: table_lookup ADDR_SCAN_DEPTH_def)
    then show ?thesis
      using try_sign_ok [OF assms(1) wt(1) assms(3) _ assms(6)] Some by (simp add: sign_by_table_def)
  qed
qed

section \<open>Every kind of input\<close>

lemma ms_info:
  assumes "analyze_input_script hash tx i = (st, Some ms)"
  shows "unat (ms_n ms) \<le> 5" "length (ms_pubkeys ms) = 5" "st = P2SH \<or> st = Multisig"
proof -
  have parse: "unat (ms_n ms) \<le> 5 \<and> length (ms_pubkeys ms) = 5" if "parse_multisig_script script len = Some ms" for script len
    using that by (auto simp: parse_multisig_script_def detect_script_type_def Let_def size_limits split: if_splits)
  show "unat (ms_n ms) \<le> 5" "length (ms_pubkeys ms) = 5" "st = P2SH \<or> st = Multisig"
    using assms parse by (auto simp: analyze_input_script_def Let_def split: if_splits)
qed

lemma signing_keys_multi:
  assumes "analyze_input_script hash tx i = (st, Some ms)" "pos < unat (ms_n ms)"
  shows "signing_keys hash tx i ! pos = ms_pubkeys ms ! pos" "pos < length (signing_keys hash tx i)" "pos < 256"
    "fst (analyze_input_script hash tx i) \<noteq> P2PK"
  using assms ms_info [OF assms(1)] by (auto simp: signing_keys_def split: script_type.split)

lemma account_target:
  assumes "seeds_ok cr sk" "s < 8" "seed_positions sk ms ! s = Some pos" "sd_acct sk ! s = Some acct"
  shows "public_key_x_only cr acct = Inr (ms_pubkeys ms ! pos)"
proof -
  obtain pk where pk: "sd_xonly sk ! s = Some pk" "List.find (\<lambda>p. pk = ms_pubkeys ms ! p) [0..<unat (ms_n ms)] = Some pos"
    using assms(1-3) by (auto simp: seed_positions_def seeds_ok_def split: Option.bind_splits)
  have "pk = ms_pubkeys ms ! pos" using pk(2) by (auto simp: find_Some_iff)
  then show ?thesis using assms pk(1) by (auto simp: seeds_ok_def)
qed

lemma sign_position_seed_ok:
  assumes "curve_ok cr cv" "seeds_ok cr sk" "trying cr cv hash ty tx sk t mg" "s < sd_num sk"
    and i: "i < tx_num_inputs tx" "tx_num_inputs tx \<le> length (tx_inputs tx)"
    and ms: "analyze_input_script hash tx i = (st, Some ms)" "pos < unat (ms_n ms)"
    and fresh: "\<not> position_signed (tx_inputs t ! i) pos"
  shows "breaks (trying cr cv hash ty tx sk t) (multi_ok cr cv hash ty tx sk) (sign_position_seed cr cv rng ty sk ms i pos s mg)"
proof (cases "sd_acct sk ! s")
  case None
  then show ?thesis using assms(3) by (simp add: sign_position_seed_def)
next
  case (Some acct)
  let ?T = "trying cr cv hash ty tx sk t" and ?Q = "multi_ok cr cv hash ty tx sk"
  have s: "s < 8" using assms(2,4) by (simp add: seeds_ok_def)
  note keys = signing_keys_multi [OF ms]
  have st: "stores cr cv hash ty tx sk t i (ms_pubkeys ms ! pos) (store_multi i ty (of_nat pos) pk_c)" for pk_c
    using stores_multi [OF i keys(2,3,4) fresh, where pk_c = pk_c and ty = ty and cr = cr and cv = cv and sk = sk] by (simp add: keys(1))
  have il: "i < length (tx_inputs tx)" using i by simp
  note attempt = try_sign_ok [OF assms(1) _ il _ st]
  have account: "breaks ?T ?Q (if seed_positions sk ms ! s = Some pos
      then try_sign cr cv rng ty i (xk_key acct) (store_multi i ty (of_nat pos) (sd_compressed sk ! s)) mg else (False, mg))"
    if "?T mg" for mg
    using that attempt account_target [OF assms(2) s _ Some] by simp
  have cached: "breaks ?T ?Q (case mg_cache mg ! s of
      Some (k, pk) \<Rightarrow> if seed_positions sk ms ! s = None \<and> pk = ms_pubkeys ms ! pos
        then try_sign cr cv rng ty i (xk_key k) (store_multi i ty (of_nat pos) (ok_value (public_key_compressed cr k))) mg else (False, mg)
    | None \<Rightarrow> (False, mg))" if "?T mg" for mg
  proof -
    have "caches_ok cr sk mg" using that unfolding trying_def multi_ok_def by blast
    then show ?thesis using that s attempt by (auto simp: caches_ok_def split: option.split)
  qed
  have table: "breaks ?T ?Q (let hint_tried = hint_present (in_ms45_hint (tx_inputs (mg_tx mg) ! i)) \<or> mg_cache mg ! s \<noteq> None
      in if seed_positions sk ms ! s = None \<and> \<not> hint_tried
         then sign_by_table cr cv rng ty acct s i (ms_pubkeys ms ! pos) (store_multi i ty (of_nat pos)) mg else (False, mg))"
    if "?T mg" for mg
    using that sign_by_table_ok [OF assms(1) that il Some s st] by (simp add: Let_def)
  show ?thesis
    unfolding sign_position_seed_def Some option.case Let_def
    by (intro breaks_or_else account cached table [unfolded Let_def] assms(3))
qed

lemma sign_position_ok:
  assumes "curve_ok cr cv" "seeds_ok cr sk" "multi_ok cr cv hash ty tx sk mg"
    and i: "i < tx_num_inputs tx" "tx_num_inputs tx \<le> length (tx_inputs tx)"
    and ms: "analyze_input_script hash tx i = (st, Some ms)" "pos < unat (ms_n ms)"
  shows "multi_ok cr cv hash ty tx sk (sign_position cr cv rng ty sk ms i pos mg)"
proof (cases "position_signed (tx_inputs (mg_tx mg) ! i) pos")
  case True
  then show ?thesis using assms(3) by (simp add: sign_position_def)
next
  case False
  have start: "trying cr cv hash ty tx sk (mg_tx mg) mg" using assms(3) by (simp add: trying_def)
  have "breaks (trying cr cv hash ty tx sk (mg_tx mg)) (multi_ok cr cv hash ty tx sk)
      (loop_break [0..<sd_num sk] (sign_position_seed cr cv rng ty sk ms i pos) mg)"
    by (rule breaks_loop [where I = "trying cr cv hash ty tx sk (mg_tx mg)", OF start]) (use sign_position_seed_ok [OF assms(1,2) _ _ i ms False] in simp)
  then have "breaks (multi_ok cr cv hash ty tx sk) (multi_ok cr cv hash ty tx sk)
      (loop_break [0..<sd_num sk] (sign_position_seed cr cv rng ty sk ms i pos) mg)"
    by (rule breaks_weaken) (simp_all add: trying_def)
  then show ?thesis using False by (simp add: sign_position_def breaks_same)
qed

lemma first_some_in: "first_some f is = Some x \<Longrightarrow> \<exists>i \<in> set is. f i = Some x"
  by (induction "is") (auto split: option.splits)

lemma searched_key_x:
  assumes "searched_key cr ms mk = Some (k, pk)"
  shows "public_key_x_only cr k = Inr pk"
  using assms unfolding searched_key_def
  by (auto dest!: first_some_in simp: ok_value_def split: Option.bind_splits sum.splits if_splits)

lemma hinted_key_x: "hinted_key cr h mk = Some (k, pk) \<Longrightarrow> public_key_x_only cr k = Inr pk"
  by (auto simp: hinted_key_def ok_value_def split: Option.bind_splits sum.splits)

lemma use_hint_ok:
  assumes "multi_ok cr cv hash ty tx sk mg" "seeds_ok cr sk"
  shows "multi_ok cr cv hash ty tx sk (use_hint cr sk h mg)" "mg_tx (use_hint cr sk h mg) = mg_tx mg"
proof -
  show tx: "mg_tx (use_hint cr sk h mg) = mg_tx mg" by (simp add: use_hint_def Let_def)
  have "caches_ok cr sk mg" using assms(1) unfolding multi_ok_def by blast
  then have "caches_ok cr sk (use_hint cr sk h mg)"
    using assms(2) hinted_key_x by (auto simp: use_hint_def Let_def caches_ok_def seeds_ok_def split: Option.bind_splits)
  then show "multi_ok cr cv hash ty tx sk (use_hint cr sk h mg)"
    by (rule multi_ok_caches [OF assms(1)]) (simp_all add: use_hint_def Let_def)
qed

lemma hintless_search_ok:
  assumes "multi_ok cr cv hash ty tx sk mg" "seeds_ok cr sk"
  shows "multi_ok cr cv hash ty tx sk (hintless_search cr sk h ms mg)"
proof -
  have "caches_ok cr sk mg" using assms(1) unfolding multi_ok_def by blast
  then have "caches_ok cr sk (hintless_search cr sk h ms mg)"
    using assms(2) searched_key_x by (auto simp: hintless_search_def Let_def caches_ok_def seeds_ok_def split: Option.bind_splits)
  then show ?thesis
    by (rule multi_ok_caches [OF assms(1)]) (simp_all add: hintless_search_def Let_def)
qed

lemma sync_legacy_nth: "f (tx_inputs (sync_legacy i t) ! j) = f (tx_inputs t ! j)"
  if "\<And>inp x y z. f (inp\<lparr>in_signature := x, in_sig_len := y, in_sighash_type := z\<rparr>) = f inp" for f :: "transaction_input \<Rightarrow> 'a"
proof (cases "i < length (tx_inputs t)")
  case True
  then show ?thesis using that by (simp add: sync_legacy_def upd_in_def nth_list_update)
next
  case False
  then show ?thesis by (simp add: sync_legacy_def upd_in_def list_update_beyond)
qed

lemma sync_legacy_ok:
  assumes ok: "multi_ok cr cv hash ty tx sk mg" and i: "i < tx_num_inputs tx" "fst (analyze_input_script hash tx i) \<noteq> P2PK"
  shows "multi_ok cr cv hash ty tx sk (mg\<lparr>mg_tx := sync_legacy i (mg_tx mg)\<rparr>)"
proof -
  let ?t = "sync_legacy i (mg_tx mg)"
  obtain g where g: "mg_total mg = sum g {..<tx_num_inputs tx}"
    "\<forall>i < tx_num_inputs tx. input_gain cr cv hash ty tx i (tx_inputs (mg_tx mg) ! i) (g i)"
    using ok unfolding multi_ok_def by blast
  have "input_gain cr cv hash ty tx j (tx_inputs ?t ! j) (g j)" if "j < tx_num_inputs tx" for j
  proof (cases "j = i")
    case True
    have same: "in_sigs (tx_inputs ?t ! i) = in_sigs (tx_inputs (mg_tx mg) ! i)"
      "in_sig_count (tx_inputs ?t ! i) = in_sig_count (tx_inputs (mg_tx mg) ! i)"
      by (rule sync_legacy_nth, simp)+
    have "input_gain cr cv hash ty tx i (tx_inputs (mg_tx mg) ! i) (g i)" using g(2) i(1) by blast
    then show ?thesis unfolding True input_gain_def Let_def same if_not_P [OF i(2)] .
  next
    case False
    then show ?thesis using g(2) that by (simp add: sync_legacy_def upd_in_def)
  qed
  moreover have "unsigned_part ?t = unsigned_part tx"
    using ok unfolding sync_legacy_def by (subst unsigned_upd_in) (simp_all add: multi_ok_def strip_sigs_def)
  moreover have "tx_inputs ?t ! j = tx_inputs tx ! j" if "tx_num_inputs tx \<le> j" for j
    using ok that i(1) by (simp add: multi_ok_def sync_legacy_def upd_in_def)
  ultimately show ?thesis using ok g(1) unfolding multi_ok_def by (auto simp: caches_ok_def)
qed

lemma fold_keeps: "P s \<Longrightarrow> (\<And>x s. x \<in> set xs \<Longrightarrow> P s \<Longrightarrow> P (f x s)) \<Longrightarrow> P (fold f xs s)"
  by (induction xs arbitrary: s) auto

lemma sign_ms_input_ok:
  assumes "curve_ok cr cv" "seeds_ok cr sk" "multi_ok cr cv hash ty tx sk mg"
    and i: "i < tx_num_inputs tx" "tx_num_inputs tx \<le> length (tx_inputs tx)"
    and ms: "analyze_input_script hash tx i = (st, Some ms)"
  shows "multi_ok cr cv hash ty tx sk (sign_ms_input cr cv rng ty sk ms i mg)"
proof -
  let ?P = "multi_ok cr cv hash ty tx sk"
  have all: "?P (fold (sign_position cr cv rng ty sk ms i) [0..<unat (ms_n ms)] mg)" if "?P mg" for mg
    using that by (rule fold_keeps) (use sign_position_ok [OF assms(1,2) _ i ms] in simp)
  have "fst (analyze_input_script hash tx i) \<noteq> P2PK" using ms_info(3) [OF ms] ms by auto
  note sync = sync_legacy_ok [OF _ i(1) this]
  define mg1 where "mg1 = use_hint cr sk (in_ms45_hint (tx_inputs (mg_tx mg) ! i)) mg"
  define mg2 where "mg2 = fold (sign_position cr cv rng ty sk ms i) [0..<unat (ms_n ms)] mg1"
  define mg3 where "mg3 = (if in_sig_count (tx_inputs (mg_tx mg2) ! i) \<noteq> in_sig_count (tx_inputs (mg_tx mg1) ! i) then mg2
    else fold (sign_position cr cv rng ty sk ms i) [0..<unat (ms_n ms)]
      (hintless_search cr sk (in_ms45_hint (tx_inputs (mg_tx mg) ! i)) ms mg2))"
  have "?P mg1" unfolding mg1_def by (rule use_hint_ok(1) [OF assms(3,2)])
  then have "?P mg2" unfolding mg2_def by (rule all)
  then have "?P mg3" unfolding mg3_def by (simp add: all hintless_search_ok [OF _ assms(2)])
  then have "?P (if c then mg3\<lparr>mg_tx := sync_legacy i (mg_tx mg3)\<rparr> else mg3)" for c
    using sync [OF \<open>?P mg3\<close>] by (cases c) simp_all
  then show ?thesis unfolding sign_ms_input_def Let_def mg1_def [symmetric] mg2_def [symmetric] mg3_def [symmetric] .
qed

lemma sign_candidate_seed_ok:
  assumes "curve_ok cr cv" "seeds_ok cr sk" "trying cr cv hash ty tx sk t mg" "s < sd_num sk" "i < length (tx_inputs tx)"
    and st: "\<And>pk_c. stores cr cv hash ty tx sk t i target (store pk_c)"
  shows "breaks (trying cr cv hash ty tx sk t) (multi_ok cr cv hash ty tx sk)
    (sign_candidate_seed cr cv rng ty sk active i target store s mg)"
proof -
  let ?T = "trying cr cv hash ty tx sk t" and ?Q = "multi_ok cr cv hash ty tx sk"
  have s: "s < 8" using assms(2,4) by (simp add: seeds_ok_def)
  show ?thesis
  proof (cases "sd_acct sk ! s")
    case None
    then show ?thesis using assms(3) by (simp add: sign_candidate_seed_def)
  next
    case (Some acct)
    have own: "breaks ?T ?Q (if sd_xonly sk ! s = Some target
        then try_sign cr cv rng ty i (xk_key acct) (store (ok_value (public_key_compressed cr acct))) mg else (False, mg))"
      if "?T mg" for mg
      using that try_sign_ok [OF assms(1) that assms(5) _ st] assms(2) s Some by (auto simp: seeds_ok_def)
    have "breaks ?T ?Q (or_else (\<lambda>mg. if sd_xonly sk ! s = Some target
        then try_sign cr cv rng ty i (xk_key acct) (store (ok_value (public_key_compressed cr acct))) mg else (False, mg))
        (sign_by_table cr cv rng ty acct s i target store) mg)"
      by (intro breaks_or_else own assms(3) sign_by_table_ok [OF assms(1) _ assms(5) Some s st])
    then show ?thesis using Some assms(3) by (simp add: sign_candidate_seed_def)
  qed
qed

lemma sign_covenant_ok:
  assumes "curve_ok cr cv" "seeds_ok cr sk" and ok: "multi_ok cr cv hash ty tx sk mg"
    and i: "i < tx_num_inputs tx" "tx_num_inputs tx \<le> length (tx_inputs tx)"
    and kind: "analyze_input_script hash tx i = (st, None)" "st = P2SH \<or> st = Multisig"
    and run: "sign_covenant_input cr cv rng ty sk active i mg = Some mg'"
  shows "multi_ok cr cv hash ty tx sk mg'"
proof -
  let ?T = "trying cr cv hash ty tx sk (mg_tx mg)" and ?Q = "multi_ok cr cv hash ty tx sk"
  have un: "unsigned_part (mg_tx mg) = unsigned_part tx" using ok by (simp add: multi_ok_def)
  have il: "i < length (tx_inputs tx)" using i by simp
  define rs where "rs = redeem_bytes tx i"
  have rs: "redeem_bytes (mg_tx mg) i = rs" using unsigned_views(1) [OF un il] by (simp add: rs_def)
  obtain cs where cs: "scan_candidates rs 0 [] = Some cs" using run by (auto simp: sign_covenant_input_def rs Let_def split: option.splits)
  then have keys: "signing_keys hash tx i = cs" using kind by (auto simp: signing_keys_def rs_def)
  have len: "length cs \<le> 8" using scan_candidates_sound [OF cs] by simp
  have start: "?T mg" using ok by (simp add: trying_def)
  show ?thesis
  proof (cases "cs = []")
    case True
    then have "\<not> (length rs \<ge> 35 \<and> rs ! 0 = 0x20 \<and> rs ! 33 = 0xAD)" using treasury_found [OF _ _ _ cs] by blast
    then show ?thesis using run cs True ok by (auto simp: sign_covenant_input_def rs Let_def)
  next
    case False
    show ?thesis
    proof (cases "in_sig_count (tx_inputs (mg_tx mg) ! i) > 0")
      case True
      then show ?thesis using run cs False ok by (simp add: sign_covenant_input_def rs Let_def)
    next
      case unsigned: False
      then have zero: "in_sig_count (tx_inputs (mg_tx mg) ! i) = 0" unfolding word_neq_0_conv [symmetric] by simp
      have each: "stores cr cv hash ty tx sk (mg_tx mg) i (cs ! c) (store_single i ty (of_nat c) pk_c)" if "c < length cs" for c pk_c
        using stores_single [OF i, where pos = c and t = "mg_tx mg" and hash = hash and ty = ty and cr = cr and cv = cv and sk = sk and pk_c = pk_c]
          that len kind zero by (auto simp: keys)
      have inner: "breaks ?T ?Q (loop_break [0..<sd_num sk]
          (sign_candidate_seed cr cv rng ty sk active i (cs ! c) (store_single i ty (of_nat c))) mg1)"
        if "?T mg1" "c < length cs" for mg1 c
        by (rule breaks_loop [where I = ?T, OF that(1)]) (use sign_candidate_seed_ok [OF assms(1,2) _ _ il each [OF that(2)]] in simp)
      have "breaks ?T ?Q (loop_break [0..<length cs] (\<lambda>c. loop_break [0..<sd_num sk]
          (sign_candidate_seed cr cv rng ty sk active i (cs ! c) (store_single i ty (of_nat c)))) mg)"
        by (rule breaks_loop [where I = ?T, OF start]) (use inner in simp)
      then have "breaks ?Q ?Q (loop_break [0..<length cs] (\<lambda>c. loop_break [0..<sd_num sk]
          (sign_candidate_seed cr cv rng ty sk active i (cs ! c) (store_single i ty (of_nat c)))) mg)"
        by (rule breaks_weaken) (simp_all add: trying_def)
      then have "?Q (snd (loop_break [0..<length cs] (\<lambda>c. loop_break [0..<sd_num sk]
          (sign_candidate_seed cr cv rng ty sk active i (cs ! c) (store_single i ty (of_nat c)))) mg))"
        by (rule breaks_same)
      then show ?thesis using run cs False unsigned by (auto simp: sign_covenant_input_def rs Let_def)
    qed
  qed
qed

lemma sign_p2pk_ok:
  assumes "curve_ok cr cv" "seeds_ok cr sk" and ok: "multi_ok cr cv hash ty tx sk mg"
    and i: "i < tx_num_inputs tx" "tx_num_inputs tx \<le> length (tx_inputs tx)"
    and kind: "fst (analyze_input_script hash tx i) = P2PK"
  shows "multi_ok cr cv hash ty tx sk (sign_p2pk_input cr cv rng ty sk i mg)"
proof (cases "in_sig_len (tx_inputs (mg_tx mg) ! i) > 0")
  case True
  then show ?thesis using ok by (simp add: sign_p2pk_input_def)
next
  case False
  let ?T = "trying cr cv hash ty tx sk (mg_tx mg)" and ?Q = "multi_ok cr cv hash ty tx sk"
  have un: "unsigned_part (mg_tx mg) = unsigned_part tx" using ok by (simp add: multi_ok_def)
  have il: "i < length (tx_inputs tx)" using i by simp
  define target where "target = slice 1 32 (spk_script (input_spk tx i))"
  have target: "slice 1 32 (spk_script (input_spk (mg_tx mg) i)) = target"
    using unsigned_same(4) [OF un il] by (simp add: target_def)
  have keys: "signing_keys hash tx i = [target]"
    using kind by (auto simp: signing_keys_def target_def split: prod.splits script_type.splits)
  have "stores cr cv hash ty tx sk (mg_tx mg) i target (store_single i ty 0 pk_c)" for pk_c
    using stores_single [OF i, where pos = 0 and t = "mg_tx mg" and hash = hash and ty = ty and cr = cr and cv = cv and sk = sk and pk_c = pk_c]
      kind False by (simp add: keys flip: word_neq_0_conv)
  then have "breaks ?T ?Q (sign_p2pk_seed cr cv rng ty sk i target s mg1)" if "?T mg1" for s mg1
    using try_sign_ok [OF assms(1) that il] found_by_scan [of cr _ target] that
    by (simp add: sign_p2pk_seed_def split: option.split)
  then have "breaks ?T ?Q (loop_break [0..<sd_num sk] (sign_p2pk_seed cr cv rng ty sk i target) mg)"
    by (intro breaks_loop [where I = ?T]) (simp_all add: trying_def ok)
  then have "breaks ?Q ?Q (loop_break [0..<sd_num sk] (sign_p2pk_seed cr cv rng ty sk i target) mg)"
    by (rule breaks_weaken) (simp_all add: trying_def)
  then show ?thesis using False unfolding sign_p2pk_input_def Let_def target by (simp add: breaks_same)
qed

lemma sign_multi_input_ok:
  assumes "curve_ok cr cv" "seeds_ok cr sk" and ok: "multi_ok cr cv hash ty tx sk mg"
    and i: "i < tx_num_inputs tx" "tx_num_inputs tx \<le> length (tx_inputs tx)"
    and run: "sign_multi_input cr cv rng hash ty sk active i mg = Some mg'"
  shows "multi_ok cr cv hash ty tx sk mg'"
proof -
  have un: "unsigned_part (mg_tx mg) = unsigned_part tx" using ok by (simp add: multi_ok_def)
  have "analyze_input_script hash (mg_tx mg) i = analyze_input_script hash tx i" using unsigned_views(2) [OF un] i by simp
  note run = run [unfolded sign_multi_input_def this]
  obtain st info where a: "analyze_input_script hash tx i = (st, info)" by (cases "analyze_input_script hash tx i")
  show ?thesis
  proof (cases "st = P2PK \<or> st = UnknownScript")
    case True
    then show ?thesis using run a ok sign_p2pk_ok [OF assms(1,2) ok i] by auto
  next
    case False
    then have st: "st = P2SH \<or> st = Multisig" by (cases st) auto
    show ?thesis
    proof (cases info)
      case None
      then show ?thesis using run a st sign_covenant_ok [OF assms(1,2) ok i] by auto
    next
      case (Some ms)
      then show ?thesis using run a st sign_ms_input_ok [OF assms(1,2) ok i] by auto
    qed
  qed
qed

lemma for_option_keeps:
  "for_option is f s = Some s' \<Longrightarrow> P s \<Longrightarrow> (\<And>i s s'. i \<in> set is \<Longrightarrow> P s \<Longrightarrow> f i s = Some s' \<Longrightarrow> P s') \<Longrightarrow> P s'"
proof (induction "is" arbitrary: s)
  case (Cons i "is")
  then obtain s1 where s1: "f i s = Some s1" "for_option is f s1 = Some s'" by (auto split: option.splits)
  have "P s1" using Cons.prems(2,3) s1(1) by auto
  then show ?case using Cons.IH [OF s1(2)] Cons.prems(3) by auto
qed simp

lemma for_option_fails:
  "for_option is f s = None \<Longrightarrow> P s \<Longrightarrow> (\<And>i s s'. i \<in> set is \<Longrightarrow> P s \<Longrightarrow> f i s = Some s' \<Longrightarrow> P s') \<Longrightarrow>
   \<exists>i \<in> set is. \<exists>s. P s \<and> f i s = None"
proof (induction "is" arbitrary: s)
  case (Cons i "is")
  show ?case
  proof (cases "f i s")
    case None
    then show ?thesis using Cons.prems(2) by auto
  next
    case (Some s1)
    have "P s1" using Cons.prems(2,3) Some by auto
    then show ?thesis using Cons.IH [of s1] Cons.prems(1,3) Some by auto
  qed
qed simp


lemma pass_start:
  assumes "wf_transaction tx" "\<forall>i < tx_num_inputs tx. unat (in_sig_count (tx_inputs tx ! i)) \<le> MAX_SIGS_PER_INPUT"
  shows "multi_ok cr cv hash ty tx sk \<lparr>mg_tx = tx, mg_total = 0, mg_hint_key = None, mg_search_ms = None,
    mg_cache = replicate 8 None, mg_tables = replicate 8 None, mg_calls = 0\<rparr>"
proof -
  have "length (in_sigs (tx_inputs tx ! i)) = MAX_SIGS_PER_INPUT" if "i < tx_num_inputs tx" for i
    using assms(1) that by (auto simp: wf_transaction_def list_all_length wf_input_def)
  then have "\<forall>i < tx_num_inputs tx. input_gain cr cv hash ty tx i (tx_inputs tx ! i) 0"
    using assms(2) by (simp add: input_gain_def Let_def)
  then show ?thesis by (auto simp: multi_ok_def caches_ok_def intro!: exI [of _ "\<lambda>i. 0"])
qed

lemma multisig_parses: "detect_script_type script len = Multisig \<Longrightarrow> parse_multisig_script script len \<noteq> None"
  by (simp add: parse_multisig_script_def Let_def)

lemma sign_multi_input_none:
  assumes "multi_ok cr cv hash ty tx sk mg" "i < tx_num_inputs tx" "tx_num_inputs tx \<le> length (tx_inputs tx)"
    and "sign_multi_input cr cv rng hash ty sk active i mg = None"
  shows "analyze_input_script hash tx i = (P2SH, None) \<and> scan_candidates (redeem_bytes tx i) 0 [] = None"
proof -
  have un: "unsigned_part (mg_tx mg) = unsigned_part tx" using assms(1) by (simp add: multi_ok_def)
  have i: "i < length (tx_inputs tx)" using assms(2,3) by simp
  note v = unsigned_views(1,2) [OF un i]
  have "analyze_input_script hash tx i \<noteq> (Multisig, None)"
    using multisig_parses by (auto simp: analyze_input_script_def Let_def split: if_splits)
  then have "analyze_input_script hash tx i = (P2SH, None)" "sign_covenant_input cr cv rng ty sk active i mg = None"
    using assms(4) by (auto simp: sign_multi_input_def v split: prod.splits script_type.splits option.splits)
  then show ?thesis by (auto simp: sign_covenant_input_def Let_def v split: option.splits)
qed

lemma scan_trap_example: "scan_candidates [0x4E, 0xFF, 0xFF, 0xFF, 0xFF] 0 [] = None"
  by (subst scan_candidates.simps) (simp add: next_opcode_def key_push_def usize_add_def Let_def slice_def)

section \<open>Properties\<close>

text \<open>
  C1: Signing with the loaded seeds only adds valid signatures. Nothing outside the signature fields
  changes. A P2PK input is left alone or, if it had no signature, gets one that verifies under the key
  of its script. Every other input keeps its signatures in their slots and gains only signatures that verify
  under the key of the position they name in its script, never two for one position, up to the five
  slots. The number returned is the number of signatures gained. The pass panics only while walking the
  redeem script of a P2SH input that is not multisig.
\<close>

theorem multisig_signs_own:
  assumes "curve_ok cr cv" "wf_transaction tx"
    and "\<forall>i < tx_num_inputs tx. unat (in_sig_count (tx_inputs tx ! i)) \<le> MAX_SIGS_PER_INPUT"
  shows "case sign_transaction_multisig cr cv rng hash seeds ty active tx of
      None \<Rightarrow> \<exists>i < tx_num_inputs tx. analyze_input_script hash tx i = (P2SH, None) \<and>
        scan_candidates (redeem_bytes tx i) 0 [] = None
    | Some (n, tx') \<Rightarrow> unsigned_part tx' = unsigned_part tx \<and>
        (\<forall>i. tx_num_inputs tx \<le> i \<longrightarrow> tx_inputs tx' ! i = tx_inputs tx ! i) \<and>
        (\<exists>g. n = sum g {..<tx_num_inputs tx} \<and>
           (\<forall>i < tx_num_inputs tx. input_gain cr cv hash ty tx i (tx_inputs tx' ! i) (g i)))"
proof -
  let ?sk = "derive_seed_keys cr seeds" and ?is = "[0..<tx_num_inputs tx]"
  let ?mg = "\<lparr>mg_tx = tx, mg_total = 0, mg_hint_key = None, mg_search_ms = None, mg_cache = replicate 8 None,
    mg_tables = replicate 8 None, mg_calls = 0\<rparr>"
  let ?P = "multi_ok cr cv hash ty tx ?sk" and ?f = "sign_multi_input cr cv rng hash ty ?sk active"
  have len: "tx_num_inputs tx \<le> length (tx_inputs tx)" using assms(2) by (simp add: wf_transaction_def)
  have start: "?P ?mg" by (rule pass_start [OF assms(2,3)])
  note step = sign_multi_input_ok [OF assms(1) seeds_ok _ _ len]
  show ?thesis
  proof (cases "for_option ?is ?f ?mg")
    case None
    then obtain i mg where i: "i < tx_num_inputs tx" "?P mg" "?f i mg = None"
      using for_option_fails [of ?is ?f ?mg ?P] start step by auto
    then show ?thesis
      using None sign_multi_input_none [OF i(2,1) len i(3)] by (auto simp: sign_transaction_multisig_def)
  next
    case (Some mg)
    have "?P mg" by (rule for_option_keeps [where P = ?P, OF Some start]) (use step in auto)
    then show ?thesis using Some unfolding sign_transaction_multisig_def multi_ok_def by simp
  qed
qed

theorem multisig_signs_own_witness:
  "\<exists>n tx. sign_transaction_multisig sample_curve_crypto sample_curve (\<lambda>n. Some [of_nat n]) (\<lambda>b. replicate 32 9)
       [(replicate 64 7, True)] ShAll None (p2pk_tx (replicate 32 5)) = Some (n, tx) \<and>
     unsigned_part tx = unsigned_part (p2pk_tx (replicate 32 5))"
proof -
  let ?tx = "p2pk_tx (replicate 32 5)"
  let ?r = "sign_transaction_multisig sample_curve_crypto sample_curve (\<lambda>n. Some [of_nat n]) (\<lambda>b. replicate 32 9)
       [(replicate 64 7, True)] ShAll None ?tx"
  have ok: "wf_transaction ?tx" "tx_num_inputs ?tx = 1" by (simp_all add: p2pk_tx_ok)
  have "in_sig_count (tx_inputs ?tx ! 0) = 0"
    by (simp add: p2pk_tx_def upd_in_def transaction_new_def size_limits input_default_def input_zero_def)
  then have "\<forall>i < tx_num_inputs ?tx. unat (in_sig_count (tx_inputs ?tx ! i)) \<le> MAX_SIGS_PER_INPUT" using ok(2) by simp
  note result = multisig_signs_own [OF sample_curve_ok ok(1) this, where rng = "\<lambda>n. Some [of_nat n]" and hash = "\<lambda>b. replicate 32 9"
      and seeds = "[(replicate 64 7, True)]" and ty = ShAll and active = None]
  have "analyze_input_script (\<lambda>b. replicate 32 9) ?tx 0 \<noteq> (P2SH, None)"
    by (simp add: analyze_input_script_def p2pk_tx_def upd_in_def transaction_new_def size_limits detect_script_type_def Let_def)
  then show ?thesis using result ok(2) by (cases ?r) auto
qed

text \<open>
  The walk over a script with embedded keys ends, on any script. It returns at most eight keys, each
  the operand of a 32-byte push that a signature check follows. It panics only where a push with a
  four-byte length would carry the 32-bit offset beyond its range.
\<close>

theorem scan_candidates_spec:
  assumes "length rs < 2 ^ 31"
  shows "case scan_candidates rs 0 [] of
      Some cs \<Rightarrow> length cs \<le> 8 \<and>
        (\<forall>c \<in> set cs. \<exists>off. key_push rs off \<and> has_checksig rs (off + 33) \<and> c = slice (off + 1) 32 rs)
    | None \<Rightarrow> \<exists>off. off + 4 < length rs \<and> rs ! off = 0x4E \<and> 2 ^ 32 \<le> off + 5 + le_value (slice (off + 1) 4 rs)"
  using scan_candidates_sound [of rs 0 "[]"] scan_candidates_trap [OF _ assms, of 0 "[]"]
  by (auto split: option.split)

theorem scan_candidates_spec_witness:
  "\<exists>cs. scan_candidates (0x20 # replicate 32 5 @ [0xAC]) 0 [] = Some cs \<and> length cs \<le> 8"
proof -
  have "(0x4E :: u8) \<notin> set (0x20 # replicate 32 5 @ [0xAC])" by simp
  then have "(0x20 # replicate 32 5 @ [0xAC]) ! k \<noteq> (0x4E :: u8)" if "k + 4 < length (0x20 # replicate 32 5 @ [0xAC :: u8])" for k
    using that nth_mem [of k "0x20 # replicate 32 5 @ [0xAC :: u8]"] by auto
  then have "scan_candidates (0x20 # replicate 32 5 @ [0xAC]) 0 [] \<noteq> None"
    using scan_candidates_trap [of "0x20 # replicate 32 5 @ [0xAC]" 0 "[]"] by auto
  then show ?thesis using scan_candidates_spec [of "0x20 # replicate 32 5 @ [0xAC]"] by auto
qed

text \<open>
  C35: A crafted redeem script makes signing panic: whatever the seeds, if the first input is a P2SH input that
  commits to the five bytes \<open>OP_PUSHDATA4 FF FF FF FF\<close>, adding the pushed length overflows the 32-bit offset.
\<close>

theorem multisig_signing_traps:
  assumes "0 < tx_num_inputs tx" "analyze_input_script hash tx 0 = (P2SH, None)"
    and "redeem_bytes tx 0 = [0x4E, 0xFF, 0xFF, 0xFF, 0xFF]"
  shows "sign_transaction_multisig cr cv rng hash seeds ty active tx = None"
proof -
  have "[0..<tx_num_inputs tx] = 0 # [1..<tx_num_inputs tx]" using assms(1) by (simp add: upt_conv_Cons)
  then show ?thesis
    by (simp add: sign_transaction_multisig_def sign_multi_input_def sign_covenant_input_def assms(2,3) scan_trap_example)
qed

definition trap_tx :: transaction where
  "trap_tx = upd_in 0
     (\<lambda>i. i\<lparr>in_utxo := (in_utxo i)\<lparr>utxo_spk :=
            \<lparr>spk_version = 0, spk_script = blit (p2sh_script (replicate 32 9)) 0 (zeros 512), spk_script_len = 35\<rparr>\<rparr>,
          in_redeem_script := blit [0x4E, 0xFF, 0xFF, 0xFF, 0xFF] 0 (in_redeem_script i), in_redeem_script_len := 5\<rparr>)
     (transaction_new\<lparr>tx_num_inputs := 1, tx_num_outputs := 1\<rparr>)"

theorem multisig_signing_traps_witness:
  "sign_transaction_multisig sample_curve_crypto sample_curve (\<lambda>n. None) (\<lambda>b. replicate 32 9) [] ShAll None trap_tx = None"
proof (rule multisig_signing_traps)
  show "0 < tx_num_inputs trap_tx" by (simp add: trap_tx_def upd_in_def)
  show redeem: "redeem_bytes trap_tx 0 = [0x4E, 0xFF, 0xFF, 0xFF, 0xFF]"
    by (simp add: redeem_bytes_def trap_tx_def upd_in_def transaction_new_def size_limits input_default_def input_zero_def blit_def)
  have script: "spk_script (utxo_spk (in_utxo (tx_inputs trap_tx ! 0))) = blit (p2sh_script (replicate 32 9)) 0 (zeros 512)"
    "spk_script_len (utxo_spk (in_utxo (tx_inputs trap_tx ! 0))) = 35" "in_redeem_script_len (tx_inputs trap_tx ! 0) = 5"
    by (simp_all add: trap_tx_def upd_in_def transaction_new_def size_limits)
  have bytes: "blit (p2sh_script (replicate 32 9)) 0 (zeros 512) = p2sh_script (replicate 32 9) @ zeros 477"
    by (simp add: blit_def p2sh_script_def)
  have "detect_script_type (p2sh_script (replicate 32 9) @ zeros 477) 35 = P2SH"
    by (simp add: detect_script_type_def p2sh_script_def nth_append OP_BLAKE2B_def OP_DATA_32_def OP_EQUAL_def)
  moreover have "detect_script_type [0x4E, 0xFF, 0xFF, 0xFF, 0xFF] (length [0x4E, 0xFF, 0xFF, 0xFF, 0xFF :: u8]) = UnknownScript"
    by (simp add: detect_script_type_def)
  moreover have "slice 2 32 (p2sh_script (replicate 32 9) @ zeros 477) = replicate 32 9"
    by (simp add: slice_def p2sh_script_def)
  ultimately show "analyze_input_script (\<lambda>b. replicate 32 9) trap_tx 0 = (P2SH, None)"
    by (simp add: analyze_input_script_def Let_def script bytes redeem)
qed

end
