(* ===== verification/KasBits.thy ===== *)
theory KasBits
  imports KasPrelude
begin

text \<open>
  Strings of words as strings of bits, most significant first: what the regroupings of the address
  codecs (8 to 5 bits and back) and of the mnemonics (8 to 11 bits and back) preserve.
\<close>

section \<open>Bits of a word, most significant first\<close>

definition bits_of :: "nat \<Rightarrow> 'a::len word \<Rightarrow> bool list" where
  "bits_of k w = map (bit w) (rev [0..<k])"

fun bval :: "bool list \<Rightarrow> nat" where
  "bval [] = 0"
| "bval (b # bs) = of_bool b * 2 ^ length bs + bval bs"

definition flat :: "nat \<Rightarrow> 'a::len word list \<Rightarrow> bool list" where
  "flat k ws = concat (map (bits_of k) ws)"

lemma length_bits_of [simp]: "length (bits_of k w) = k"
  by (simp add: bits_of_def)

lemma bits_of_0 [simp]: "bits_of 0 w = []"
  by (simp add: bits_of_def)

lemma bits_of_Suc: "bits_of (Suc k) w = bit w k # bits_of k w"
  by (simp add: bits_of_def)

lemma bits_of_cong: "(\<And>i. i < k \<Longrightarrow> bit v i = bit w i) \<Longrightarrow> bits_of k v = bits_of k w"
  by (simp add: bits_of_def)

lemma bits_of_split: "bits_of (a + b) w = bits_of a (drop_bit b w) @ bits_of b w"
  by (induction a) (simp_all add: bits_of_Suc bit_drop_bit_eq add.commute)

lemma bits_of_zero: "bits_of k (0 :: 'a::len word) = replicate k False"
  by (induction k) (simp_all add: bits_of_Suc)

lemma bval_append: "bval (xs @ ys) = bval xs * 2 ^ length ys + bval ys"
  by (induction xs) (simp_all add: algebra_simps power_add)

lemma bval_bits_of: "bval (bits_of k (w :: 'a::len word)) = take_bit k (unat w)"
  by (induction k) (auto simp: bits_of_Suc take_bit_Suc_from_most bit_unsigned_iff dest: bit_imp_le_length)

lemma bits_of_inj:
  assumes "bits_of k v = bits_of k w" "unat v < 2 ^ k" "unat w < 2 ^ k"
  shows "v = (w :: 'a::len word)"
proof -
  have "take_bit k (unat v) = take_bit k (unat w)"
    using assms(1) by (simp flip: bval_bits_of)
  then show ?thesis using assms(2,3) by (simp add: word_unat_eq_iff take_bit_eq_mod)
qed

lemma flat_Nil [simp]: "flat k [] = []"
  by (simp add: flat_def)

lemma flat_Cons [simp]: "flat k (w # ws) = bits_of k w @ flat k ws"
  by (simp add: flat_def)

lemma flat_append [simp]: "flat k (vs @ ws) = flat k vs @ flat k ws"
  by (simp add: flat_def)

lemma length_flat [simp]: "length (flat k ws) = k * length ws"
  by (induction ws) simp_all

lemma flat_inj:
  assumes "flat k vs = flat k ws" "length vs = length ws"
    and "\<forall>v \<in> set vs. unat v < 2 ^ k" "\<forall>w \<in> set ws. unat w < 2 ^ k"
  shows "vs = ws"
  using assms(2,1,3,4) by (induction rule: list_induct2) (auto intro: bits_of_inj)

lemma take_flat: "take (k * n) (flat k ws) = flat k (take n ws)"
proof (induction ws arbitrary: n)
  case (Cons w ws)
  then show ?case by (cases n) simp_all
qed simp

lemma bit_small:
  assumes "unat (c :: 'a::len word) < 2 ^ k" "bit c i"
  shows "i < k"
proof -
  have "bit (take_bit k (unat c)) i"
    using assms by (simp add: take_bit_nat_eq_self bit_unsigned_iff bit_imp_le_length)
  then show ?thesis by (simp add: bit_take_bit_iff)
qed

text \<open>What one turn of a regrouping loop does to the bits: a digit enters at the low end, a digit leaves
at the high end, the last one is padded with zeros.\<close>

lemma bits_of_enter:
  assumes "r + k \<le> LENGTH('a)" "unat c < 2 ^ k"
  shows "bits_of (r + k) (push_bit k acc OR ucast (c :: u8) :: 'a::len word) = bits_of r acc @ bits_of k c"
proof -
  have hi: "\<not> bit c i" if "k \<le> i" for i
    using bit_small [OF assms(2)] that by (meson leD)
  have "bits_of r (drop_bit k (push_bit k acc OR ucast c :: 'a word)) = bits_of r acc"
    using assms(1) hi by (intro bits_of_cong) (auto simp: bit_simps)
  moreover have "bits_of k (push_bit k acc OR ucast c :: 'a word) = bits_of k c"
    using assms(1) by (intro bits_of_cong) (auto simp: bit_simps)
  ultimately show ?thesis by (simp add: bits_of_split)
qed

lemma bits_of_leave:
  assumes "k \<le> 8" "r + k \<le> LENGTH('a)"
  shows "bits_of (k + r) (acc :: 'a::len word) = bits_of k (ucast (drop_bit r acc) :: u8) @ bits_of r acc"
  unfolding bits_of_split using assms
  by (auto intro!: bits_of_cong simp: bit_simps)

lemma bval_bound: "bval bs < 2 ^ length bs"
  by (induction bs) (auto simp: of_bool_def)

lemma unat_lessI:
  assumes "\<And>i. bit w i \<Longrightarrow> i < k"
  shows "unat (w :: 'a::len word) < 2 ^ k"
proof -
  have "take_bit k w = w" using assms by (intro bit_word_eqI) (auto simp only: bit_take_bit_iff)
  then have "unat w = take_bit k (unat w)" by (metis unsigned_take_bit_eq)
  then show ?thesis by (metis take_bit_nat_less_exp)
qed

lemma bits_of_pad:
  assumes "r \<le> k" "k \<le> 8" "k \<le> LENGTH('a)"
  shows "bits_of k (ucast (push_bit (k - r) (acc :: 'a::len word)) :: u8) = bits_of r acc @ replicate (k - r) False"
proof -
  have "bits_of r (drop_bit (k - r) (ucast (push_bit (k - r) acc) :: u8)) = bits_of r acc"
    using assms by (intro bits_of_cong) (auto simp: bit_simps)
  moreover have "bits_of (k - r) (ucast (push_bit (k - r) acc) :: u8) = bits_of (k - r) (0 :: u8)"
    using assms by (intro bits_of_cong) (auto simp: bit_simps)
  ultimately show ?thesis
    using bits_of_split [of r "k - r" "ucast (push_bit (k - r) acc) :: u8"] assms(1) by (simp add: bits_of_zero)
qed

lemma bval_inj: "length xs = length ys \<Longrightarrow> bval xs = bval ys \<Longrightarrow> xs = ys"
proof (induction rule: list_induct2)
  case (Cons x xs y ys)
  have "x = y"
    using Cons.prems bval_bound [of xs] bval_bound [of ys] Cons.hyps by (cases x; cases y) auto
  then show ?case using Cons by simp
qed simp

end
