(* ===== verification/KasAddress.thy ===== *)
theory KasAddress
  imports KasBits KasBip32
begin

text \<open>
  Kaspa addresses: the encoder and the validator of the device (core/src/wallet/address.rs) and the
  encoder and decoder of the companion wallet (kassee/src/address.rs), two independent programs that
  have to agree on every address. Both regroup bytes into 5-bit digits and protect them with a
  40-bit checksum computed by a shift register; the development shows what the register detects,
  that the two regroupings and the two registers compute the same, and the round trip from a key on
  the device to the script the companion builds from the address. Byte strings stand for \<open>&str\<close>.
\<close>

lemma be_value_flat: "be_value bs = bval (flat 8 bs)"
proof (induction bs)
  case (Cons b bs)
  have "take_bit 8 (unat b) = unat b"
    using unat_u8_less [of b] by (simp add: take_bit_eq_mod)
  then show ?case
    using Cons by (simp add: be_value_Cons bval_append bval_bits_of power_mult)
qed simp

section \<open>The device: core/src/wallet/address.rs\<close>

definition CHARSET :: bytes where
  "CHARSET = map of_char ''qpzry9x8gf2tvdw0s3jn54khce6mua7l''"

definition MAX_ADDR_LEN :: nat where "MAX_ADDR_LEN = 72"

datatype address_type = P2PK_ADDR | P2PK_ECDSA_ADDR | P2SH_ADDR

text \<open>\<open>addr_type as u8\<close>\<close>

fun address_type_byte :: "address_type \<Rightarrow> u8" where
  "address_type_byte P2PK_ADDR = 0x00"
| "address_type_byte P2PK_ECDSA_ADDR = 0x01"
| "address_type_byte P2SH_ADDR = 0x08"

text \<open>\<open>while bits >= 5 \{ .. \}\<close>: \<open>out\<close> is the array's written prefix \<open>out[..pos]\<close>.\<close>

function drain_8to5 :: "u32 \<Rightarrow> nat \<Rightarrow> bytes \<Rightarrow> nat \<times> bytes" where
  "drain_8to5 acc bits out =
     (if 5 \<le> bits
      then (let bits = bits - 5 in drain_8to5 acc bits (out @ [ucast (drop_bit bits acc AND 0x1F)]))
      else (bits, out))"
  by pat_completeness auto
termination by (relation "measure (\<lambda>(_, bits, _). bits)") auto

text \<open>The result is \<open>out[..pos]\<close>; None is the panic of an index past the 56 digits of \<open>out\<close>.\<close>

definition convert_bits_8to5 :: "bytes \<Rightarrow> nat \<Rightarrow> bytes option" where
  "convert_bits_8to5 payload len =
     (let (acc, bits, out) = fold (\<lambda>i (acc, bits, out).
            (let acc = push_bit 8 acc OR ucast (payload ! i); (bits, out) = drain_8to5 acc (bits + 8) out
             in (acc, bits, out))) [0..<len] (0 :: u32, 0, []);
          out = (if 0 < bits then out @ [ucast (push_bit (5 - bits) acc AND 0x1F)] else out)
      in if length out \<le> 56 then Some out else None)"

definition GEN :: "u64 list" where
  "GEN = [0x98f2bc8e61, 0x79b76d99e2, 0xf33e5fb3c4, 0xae2eabe2a8, 0x1e4f43e470]"

definition polymod :: "bytes \<Rightarrow> nat \<Rightarrow> u64" where
  "polymod values values_len =
     fold (\<lambda>i chk. let top = drop_bit 35 chk; chk = push_bit 5 (chk AND 0x07FFFFFFFF) XOR ucast (values ! i)
                   in fold (\<lambda>j chk. if drop_bit j top AND 1 = 1 then chk XOR GEN ! j else chk) [0..<5] chk)
       [0..<values_len] 1"

definition hrp_expand :: "bytes \<Rightarrow> bytes" where
  "hrp_expand hrp = map (\<lambda>c. c AND 0x1F) hrp @ [0]"

text \<open>\<open>let mut values = [0u8; 128]\<close>, the expanded prefix and the digits copied in; the eight zeros of
the checksum positions are those of the fresh array.\<close>

definition checksum_values :: "bytes \<Rightarrow> bytes \<Rightarrow> bytes" where
  "checksum_values hrp digits =
     blit digits (length (hrp_expand hrp)) (blit (hrp_expand hrp) 0 (replicate 128 0))"

definition create_checksum :: "bytes \<Rightarrow> bytes \<Rightarrow> u64" where
  "create_checksum hrp digits =
     polymod (checksum_values hrp digits) (length (hrp_expand hrp) + length digits + 8) XOR 1"

definition KASPA_HRP :: bytes where "KASPA_HRP = map of_char ''kaspa''"
definition KASPA_PREFIX :: bytes where "KASPA_PREFIX = map of_char ''kaspa:''"

text \<open>\<open>encode_address\<close>: the buffer afterwards and the number of bytes written; None is the panic of a key
longer than the 33 bytes there is room for.\<close>

definition encode_address :: "bytes \<Rightarrow> address_type \<Rightarrow> bytes \<Rightarrow> (bytes \<times> nat) option" where
  "encode_address pubkey addr_type out =
     (if 33 < length pubkey then None
      else (let payload = blit pubkey 1 ((replicate 34 0)[0 := address_type_byte addr_type])
            in case convert_bits_8to5 payload (1 + length pubkey) of
                 None \<Rightarrow> None
               | Some data5 \<Rightarrow>
                   (let checksum = create_checksum KASPA_HRP data5;
                        text = KASPA_PREFIX @ map (\<lambda>d. CHARSET ! unat d) data5
                          @ map (\<lambda>i. CHARSET ! unat (drop_bit (5 * (7 - i)) checksum AND 0x1F)) [0..<8]
                    in if length text \<le> length out then Some (blit text 0 out, length text) else None)))"

definition encode_p2pk :: "bytes \<Rightarrow> bytes \<Rightarrow> (bytes \<times> nat) option" where
  "encode_p2pk pubkey out = encode_address pubkey P2PK_ADDR out"

definition bech32_char_to_val :: "u8 \<Rightarrow> u8" where
  "bech32_char_to_val ch =
     (if ch = of_char CHR ''q'' then 0 else if ch = of_char CHR ''p'' then 1 else if ch = of_char CHR ''z'' then 2
      else if ch = of_char CHR ''r'' then 3 else if ch = of_char CHR ''y'' then 4 else if ch = of_char CHR ''9'' then 5
      else if ch = of_char CHR ''x'' then 6 else if ch = of_char CHR ''8'' then 7 else if ch = of_char CHR ''g'' then 8
      else if ch = of_char CHR ''f'' then 9 else if ch = of_char CHR ''2'' then 10 else if ch = of_char CHR ''t'' then 11
      else if ch = of_char CHR ''v'' then 12 else if ch = of_char CHR ''d'' then 13 else if ch = of_char CHR ''w'' then 14
      else if ch = of_char CHR ''0'' then 15 else if ch = of_char CHR ''s'' then 16 else if ch = of_char CHR ''3'' then 17
      else if ch = of_char CHR ''j'' then 18 else if ch = of_char CHR ''n'' then 19 else if ch = of_char CHR ''5'' then 20
      else if ch = of_char CHR ''4'' then 21 else if ch = of_char CHR ''k'' then 22 else if ch = of_char CHR ''h'' then 23
      else if ch = of_char CHR ''c'' then 24 else if ch = of_char CHR ''e'' then 25 else if ch = of_char CHR ''6'' then 26
      else if ch = of_char CHR ''m'' then 27 else if ch = of_char CHR ''u'' then 28 else if ch = of_char CHR ''a'' then 29
      else if ch = of_char CHR ''7'' then 30 else if ch = of_char CHR ''l'' then 31 else 0xFF)"

text \<open>The decoding loop of the validator: None is one of its \<open>return false\<close>.\<close>

fun decode_digits :: "bytes \<Rightarrow> bytes \<Rightarrow> bytes option" where
  "decode_digits [] data5 = Some data5"
| "decode_digits (ch # chs) data5 =
     (let val = bech32_char_to_val ch
      in if val = 0xFF then None else if 72 \<le> length data5 then None else decode_digits chs (data5 @ [val]))"

definition validate_kaspa_address :: "bytes \<Rightarrow> bool" where
  "validate_kaspa_address addr =
     (if length addr < 10 \<or> take 6 addr \<noteq> KASPA_PREFIX then False
      else if length addr < 63 \<or> 75 < length addr then False
      else case decode_digits (drop 6 addr) [] of
             None \<Rightarrow> False
           | Some data5 \<Rightarrow> polymod (checksum_values KASPA_HRP data5) (length (hrp_expand KASPA_HRP) + length data5) = 1)"

section \<open>The companion: kassee/src/address.rs\<close>

definition REV_CHARSET :: "u8 list" where
  "REV_CHARSET = replicate 48 100
     @ [15, 100, 10, 17, 21, 20, 26, 30, 7, 5] @ replicate 39 100
     @ [29, 100, 24, 13, 25, 9, 8, 23, 100, 18, 22, 31, 27, 19, 100, 1, 0, 3, 16, 11, 28, 12, 14, 6, 4, 2]"

datatype address_error = UnknownPrefix | AddressTooShort | InvalidCharacter u8
  | ChecksumMismatch u64 u64 | PayloadTooShort nat | UnknownVersion u8

text \<open>\<open>conv8to5\<close> and \<open>conv5to8\<close> have the same loop: \<open>from\<close> bits enter with each digit, \<open>w\<close> bits leave
while there are as many. The state is (\<open>out\<close>, \<open>current_idx\<close>, \<open>buff\<close>, \<open>bits\<close>).\<close>

type_synonym conv_state = "bytes \<times> nat \<times> u16 \<times> nat"

function conv_drain :: "nat \<Rightarrow> conv_state \<Rightarrow> conv_state" where
  "conv_drain w (out, idx, buff, bits) =
     (if w \<le> bits \<and> 0 < w
      then (let bits = bits - w
            in conv_drain w (out[idx := ucast (drop_bit bits buff)], idx + 1, buff AND (push_bit bits 1 - 1), bits))
      else (out, idx, buff, bits))"
  by pat_completeness auto
termination by (relation "measure (\<lambda>(_, _, _, _, bits). bits)") auto

definition conv_push :: "nat \<Rightarrow> nat \<Rightarrow> u8 \<Rightarrow> conv_state \<Rightarrow> conv_state" where
  "conv_push from w c = (\<lambda>(out, idx, buff, bits). conv_drain w (out, idx, push_bit from buff OR ucast c, bits + from))"

definition conv8to5 :: "bytes \<Rightarrow> bytes" where
  "conv8to5 payload =
     (let padding = (if length payload mod 5 = 0 then 0 else 1);
          (five_bit, current_idx, buff, bits) =
            fold (conv_push 8 5) payload (replicate (length payload * 8 div 5 + padding) 0, 0, 0, 0)
      in if 0 < bits then five_bit[current_idx := ucast (push_bit (5 - bits) buff)] else five_bit)"

definition conv5to8 :: "bytes \<Rightarrow> bytes" where
  "conv5to8 payload = fst (fold (conv_push 5 8) payload (replicate (length payload * 5 div 8) 0, 0, 0, 0))"

definition companion_polymod :: "bytes \<Rightarrow> u64" where
  "companion_polymod values =
     fold (\<lambda>d c. let c0 = drop_bit 35 c; c = push_bit 5 (c AND 0x07ffffffff) XOR ucast d;
                     c = (if c0 AND 0x01 \<noteq> 0 then c XOR 0x98f2bc8e61 else c);
                     c = (if c0 AND 0x02 \<noteq> 0 then c XOR 0x79b76d99e2 else c);
                     c = (if c0 AND 0x04 \<noteq> 0 then c XOR 0xf33e5fb3c4 else c);
                     c = (if c0 AND 0x08 \<noteq> 0 then c XOR 0xae2eabe2a8 else c)
                  in if c0 AND 0x10 \<noteq> 0 then c XOR 0x1e4f43e470 else c) values 1 XOR 1"

definition checksum_value :: "bytes \<Rightarrow> bytes \<Rightarrow> u64" where
  "checksum_value payload prefix = companion_polymod (prefix @ [0] @ payload @ replicate 8 0)"

definition companion_encode_address :: "bytes \<Rightarrow> u8 \<Rightarrow> bytes \<Rightarrow> bytes" where
  "companion_encode_address payload version prefix =
     (let fivebit_payload = conv8to5 (version # payload); fivebit_prefix = map (\<lambda>c. c AND 0x1f) prefix;
          cs = checksum_value fivebit_payload fivebit_prefix;
          cs5 = conv8to5 (drop 3 (to_be 8 cs))
      in prefix @ [of_char CHR '':''] @ map (\<lambda>v. CHARSET ! unat v) fivebit_payload
           @ map (\<lambda>v. CHARSET ! unat v) cs5)"

definition encode_p2pk_address :: "bytes \<Rightarrow> bytes \<Rightarrow> bytes" where
  "encode_p2pk_address pubkey prefix = companion_encode_address pubkey 0x00 prefix"

definition encode_p2sh_address :: "bytes \<Rightarrow> bytes \<Rightarrow> bytes" where
  "encode_p2sh_address script_hash prefix = companion_encode_address script_hash 0x08 prefix"

fun decode_values :: "bytes \<Rightarrow> bytes \<Rightarrow> address_error + bytes" where
  "decode_values [] values5 = Inr values5"
| "decode_values (b # bs) values5 =
     (if length REV_CHARSET \<le> unat b \<or> REV_CHARSET ! unat b = 100 then Inl (InvalidCharacter b)
      else decode_values bs (values5 @ [REV_CHARSET ! unat b]))"

definition starts_with :: "bytes \<Rightarrow> bytes \<Rightarrow> bool" where
  "starts_with s prefix \<longleftrightarrow> take (length prefix) s = prefix"

definition address_prefix :: "bytes \<Rightarrow> bytes option" where
  "address_prefix addr =
     (if starts_with addr (map of_char ''kaspa:'') then Some (map of_char ''kaspa'')
      else if starts_with addr (map of_char ''kaspatest:'') then Some (map of_char ''kaspatest'')
      else if starts_with addr (map of_char ''kaspasim:'') then Some (map of_char ''kaspasim'')
      else if starts_with addr (map of_char ''kaspadev:'') then Some (map of_char ''kaspadev'')
      else None)"

definition decode_address :: "bytes \<Rightarrow> address_error + u8 \<times> bytes" where
  "decode_address addr =
     (case address_prefix addr of None \<Rightarrow> Inl UnknownPrefix
      | Some prefix \<Rightarrow>
          (let data_part = drop (length prefix + 1) addr
           in if length data_part < 9 then Inl AddressTooShort
              else tryR (decode_values data_part [])
                (\<lambda>values5. let payload5 = take (length values5 - 8) values5; checksum5 = drop (length values5 - 8) values5;
                     computed = checksum_value payload5 (map (\<lambda>c. c AND 0x1f) prefix);
                     cs8 = conv5to8 checksum5;
                     expected = of_nat (be_value (blit (take (min (length cs8) 5) cs8) 3 (replicate 8 0)))
                   in if computed \<noteq> expected then Inl (ChecksumMismatch computed expected)
                      else (let payload8 = conv5to8 payload5
                            in if length payload8 < 33 then Inl (PayloadTooShort (length payload8))
                               else Inr (payload8 ! 0, slice 1 32 payload8)))))"

definition address_to_script_pubkey :: "bytes \<Rightarrow> address_error + bytes" where
  "address_to_script_pubkey addr =
     tryR (decode_address addr)
       (\<lambda>(version, hash). if version = 0x00 then Inr ([0x20] @ hash @ [0xAC])
                          else if version = 0x08 then Inr ([0xAA, 0x20] @ hash @ [0x87])
                          else Inl (UnknownVersion version))"

section \<open>The alphabet\<close>

lemma CHARSET_list:
  "CHARSET = [0x71, 0x70, 0x7a, 0x72, 0x79, 0x39, 0x78, 0x38, 0x67, 0x66, 0x32, 0x74, 0x76, 0x64, 0x77, 0x30, 0x73, 0x33, 0x6a, 0x6e, 0x35, 0x34, 0x6b, 0x68, 0x63, 0x65, 0x36, 0x6d, 0x75, 0x61, 0x37, 0x6c]"
  by (simp add: CHARSET_def of_char_def)

lemma bech32_char_to_val_codes:
  "bech32_char_to_val ch =
     (if ch = 0x71 then 0 else if ch = 0x70 then 1 else if ch = 0x7a then 2 else if ch = 0x72 then 3 else
       if ch = 0x79 then 4 else if ch = 0x39 then 5 else if ch = 0x78 then 6 else if ch = 0x38 then 7 else
       if ch = 0x67 then 8 else if ch = 0x66 then 9 else if ch = 0x32 then 10 else if ch = 0x74 then 11 else
       if ch = 0x76 then 12 else if ch = 0x64 then 13 else if ch = 0x77 then 14 else if ch = 0x30 then 15 else
       if ch = 0x73 then 16 else if ch = 0x33 then 17 else if ch = 0x6a then 18 else if ch = 0x6e then 19 else
       if ch = 0x35 then 20 else if ch = 0x34 then 21 else if ch = 0x6b then 22 else if ch = 0x68 then 23 else
       if ch = 0x63 then 24 else if ch = 0x65 then 25 else if ch = 0x36 then 26 else if ch = 0x6d then 27 else
       if ch = 0x75 then 28 else if ch = 0x61 then 29 else if ch = 0x37 then 30 else if ch = 0x6c then 31 else
       0xFF)"
  by (simp add: bech32_char_to_val_def of_char_def)

lemma charset_values: "v < 32 \<Longrightarrow> bech32_char_to_val (CHARSET ! v) = of_nat v"
proof -
  have "\<forall>v \<in> set [0..<32]. bech32_char_to_val (CHARSET ! v) = of_nat v"
    by (simp add: CHARSET_list bech32_char_to_val_codes upt_rec del: set_upt)
  then show "v < 32 \<Longrightarrow> bech32_char_to_val (CHARSET ! v) = of_nat v" by simp
qed

lemma not_in_charset: "b \<notin> set CHARSET \<Longrightarrow> bech32_char_to_val b = 0xFF"
  by (simp add: CHARSET_list bech32_char_to_val_codes)

lemma length_CHARSET [simp]: "length CHARSET = 32"
  by (simp add: CHARSET_list)

lemma length_REV_CHARSET [simp]: "length REV_CHARSET = 123"
  by (simp add: REV_CHARSET_def)

lemma char_values:
  assumes "bech32_char_to_val b \<noteq> 0xFF"
  shows "unat (bech32_char_to_val b) < 32" "CHARSET ! unat (bech32_char_to_val b) = b"
proof -
  obtain v where "v < 32" "b = CHARSET ! v"
    using assms not_in_charset by (metis in_set_conv_nth length_CHARSET)
  then show "unat (bech32_char_to_val b) < 32" "CHARSET ! unat (bech32_char_to_val b) = b"
    by (simp_all add: charset_values unat_of_nat)
qed

lemma rev_charset_digit: "v < 32 \<Longrightarrow> unat (CHARSET ! v) < 123 \<and> REV_CHARSET ! unat (CHARSET ! v) = of_nat v"
proof -
  have "\<forall>v \<in> set [0..<32]. unat (CHARSET ! v) < 123 \<and> REV_CHARSET ! unat (CHARSET ! v) = of_nat v"
    by (simp add: CHARSET_list REV_CHARSET_def upt_rec nth_append nth_replicate del: set_upt)
  then show "v < 32 \<Longrightarrow> unat (CHARSET ! v) < 123 \<and> REV_CHARSET ! unat (CHARSET ! v) = of_nat v" by simp
qed

lemma rev_charset_other:
  assumes "n < 123" "REV_CHARSET ! n \<noteq> 100"
  shows "CHARSET ! unat (REV_CHARSET ! n) = of_nat n" "unat (REV_CHARSET ! n) < 32"
proof -
  have "(48 \<le> n \<and> n < 58) \<or> 97 \<le> n"
    using assms by (auto simp: REV_CHARSET_def nth_append nth_replicate nth_Cons' split: if_splits)
  then have "n \<in> set ([48..<58] @ [97..<123])" using assms(1) by (simp only: set_append set_upt) auto
  moreover have "\<forall>n \<in> set ([48..<58] @ [97..<123]). REV_CHARSET ! n \<noteq> 100 \<longrightarrow>
      CHARSET ! unat (REV_CHARSET ! n) = of_nat n \<and> unat (REV_CHARSET ! n) < 32"
    by (simp add: CHARSET_list REV_CHARSET_def upt_rec nth_append nth_replicate del: set_upt)
  ultimately show "CHARSET ! unat (REV_CHARSET ! n) = of_nat n" "unat (REV_CHARSET ! n) < 32"
    using assms(2) by blast+
qed

lemma char_tables:
  "bech32_char_to_val b =
     (if length REV_CHARSET \<le> unat b \<or> REV_CHARSET ! unat b = 100 then 0xFF else REV_CHARSET ! unat b)"
proof (cases "b \<in> set CHARSET")
  case True
  then obtain v where v: "v < 32" "b = CHARSET ! v" by (metis in_set_conv_nth length_CHARSET)
  then have "(of_nat v :: u8) \<noteq> 100"
    by (simp add: word_unat_eq_iff unat_of_nat)
  then show ?thesis using v charset_values [OF v(1)] rev_charset_digit [OF v(1)] by simp
next
  case False
  have "REV_CHARSET ! unat b = 100" if "unat b < 123"
  proof (rule ccontr)
    assume "REV_CHARSET ! unat b \<noteq> 100"
    from rev_charset_other [OF that this] have "CHARSET ! unat (REV_CHARSET ! unat b) = b" by simp
    with rev_charset_other(2) [OF that \<open>REV_CHARSET ! unat b \<noteq> 100\<close>] False show False
      by (metis length_CHARSET nth_mem)
  qed
  then show ?thesis using not_in_charset [OF False] by (auto simp: not_less [symmetric])
qed

section \<open>The checksum register\<close>

text \<open>One step of the register without its input, and the register over a list of digits; both programs'
\<open>polymod\<close> are this.\<close>

definition reduce :: "u64 \<Rightarrow> u64" where
  "reduce c = (if bit c 35 then 0x98f2bc8e61 else 0) XOR (if bit c 36 then 0x79b76d99e2 else 0)
     XOR (if bit c 37 then 0xf33e5fb3c4 else 0) XOR (if bit c 38 then 0xae2eabe2a8 else 0)
     XOR (if bit c 39 then 0x1e4f43e470 else 0)"

definition shift :: "u64 \<Rightarrow> u64" where
  "shift c = push_bit 5 (c AND 0x07FFFFFFFF) XOR reduce c"

definition run :: "u64 \<Rightarrow> bytes \<Rightarrow> u64" where
  "run c vs = fold (\<lambda>v c. shift c XOR ucast v) vs c"

lemma run_Nil [simp]: "run c [] = c"
  by (simp add: run_def)

lemma run_Cons: "run c (v # vs) = run (shift c XOR ucast v) vs"
  by (simp add: run_def)

lemma run_append: "run c (vs @ ws) = run (run c vs) ws"
  by (simp add: run_def)

lemma top_bit: "(drop_bit j (drop_bit 35 (c :: u64)) AND 1 = 1) = bit c (35 + j)"
  by (simp add: and_one_eq odd_iff_mod_2_eq_one bit_iff_odd_drop_bit add.commute)

lemma top_mask: "drop_bit 35 (c :: u64) AND push_bit j 1 \<noteq> 0 \<longleftrightarrow> bit c (35 + j)"
proof -
  have "drop_bit 35 c AND push_bit j 1 = (if bit c (35 + j) then push_bit j 1 else 0)"
    by (rule bit_word_eqI) (auto simp: bit_simps)
  moreover have "j < 64" if "bit c (35 + j)"
    using bit_imp_le_length [OF that] by simp
  ultimately show ?thesis by auto
qed

lemma xor_if: "(if b then c XOR g else c) = c XOR (if b then g else (0 :: u64))"
  by simp

lemma polymod_step:
  "(let top = drop_bit 35 chk; chk = push_bit 5 (chk AND 0x07FFFFFFFF) XOR ucast v
    in fold (\<lambda>j chk. if drop_bit j top AND 1 = 1 then chk XOR GEN ! j else chk) [0..<5] chk) = shift chk XOR ucast v"
proof -
  have "[0..<5] = [0, 1, 2, 3, 4 :: nat]" by (simp add: upt_rec)
  then have "(let top = drop_bit 35 chk; chk = push_bit 5 (chk AND 0x07FFFFFFFF) XOR ucast v
    in fold (\<lambda>j chk. if drop_bit j top AND 1 = 1 then chk XOR GEN ! j else chk) [0..<5] chk)
    = (((((push_bit 5 (chk AND 0x07FFFFFFFF) XOR ucast v) XOR (if bit chk 35 then GEN ! 0 else 0)) XOR (if bit chk 36 then GEN ! 1 else 0))
     XOR (if bit chk 37 then GEN ! 2 else 0)) XOR (if bit chk 38 then GEN ! 3 else 0)) XOR (if bit chk 39 then GEN ! 4 else 0)"
    by (simp only: Let_def top_bit xor_if fold_simps) simp
  then show ?thesis
    by (simp only: shift_def reduce_def GEN_def xor.assoc xor.commute xor.left_commute) (simp add: numeral_eq_Suc)
qed

lemma polymod_run: "len \<le> length values \<Longrightarrow> polymod values len = run 1 (take len values)"
proof -
  assume len: "len \<le> length values"
  have "polymod values len = fold (\<lambda>i c. shift c XOR ucast (values ! i)) [0..<len] 1"
    unfolding polymod_def polymod_step ..
  also have "\<dots> = run 1 (map ((!) values) [0..<len])"
    by (simp add: run_def fold_map comp_def)
  also have "map ((!) values) [0..<len] = take len values"
    using len by (intro nth_equalityI) simp_all
  finally show "polymod values len = run 1 (take len values)" .
qed

lemma companion_step:
  "(let c0 = drop_bit 35 c; c = push_bit 5 (c AND 0x07ffffffff) XOR ucast d;
        c = (if c0 AND 0x01 \<noteq> 0 then c XOR 0x98f2bc8e61 else c);
        c = (if c0 AND 0x02 \<noteq> 0 then c XOR 0x79b76d99e2 else c);
        c = (if c0 AND 0x04 \<noteq> 0 then c XOR 0xf33e5fb3c4 else c);
        c = (if c0 AND 0x08 \<noteq> 0 then c XOR 0xae2eabe2a8 else c)
    in if c0 AND 0x10 \<noteq> 0 then c XOR 0x1e4f43e470 else c) = shift c XOR ucast d"
proof -
  have "drop_bit 35 c AND 0x01 \<noteq> 0 \<longleftrightarrow> bit c 35" "drop_bit 35 c AND 0x02 \<noteq> 0 \<longleftrightarrow> bit c 36"
    "drop_bit 35 c AND 0x04 \<noteq> 0 \<longleftrightarrow> bit c 37" "drop_bit 35 c AND 0x08 \<noteq> 0 \<longleftrightarrow> bit c 38"
    "drop_bit 35 c AND 0x10 \<noteq> 0 \<longleftrightarrow> bit c 39"
    using top_mask [of c 0] top_mask [of c 1] top_mask [of c 2] top_mask [of c 3] top_mask [of c 4] by simp_all
  then show ?thesis
    by (simp only: Let_def xor_if shift_def reduce_def xor.assoc xor.commute xor.left_commute)
qed

lemma companion_polymod_run: "companion_polymod vs = run 1 vs XOR 1"
  by (simp only: companion_polymod_def companion_step run_def)

subsection \<open>The register is linear and loses nothing\<close>

lemma if_xor: "(if x \<noteq> y then g else 0) = (if x then g else 0) XOR (if y then g else (0 :: u64))"
  by simp

lemma reduce_xor: "reduce (a XOR b) = reduce a XOR reduce b"
  by (simp only: reduce_def bit_xor_iff if_xor xor.assoc xor.commute xor.left_commute)

lemma shift_xor: "shift (a XOR b) = shift a XOR shift b"
proof -
  have "push_bit 5 ((a XOR b) AND 0x07FFFFFFFF) = push_bit 5 (a AND 0x07FFFFFFFF) XOR push_bit 5 (b AND 0x07FFFFFFFF)"
    by (rule bit_word_eqI) (auto simp: bit_push_bit_iff bit_xor_iff bit_and_iff)
  then show ?thesis
    by (simp only: shift_def reduce_xor xor.assoc xor.commute xor.left_commute)
qed

lemma shift_0 [simp]: "shift 0 = 0"
  by (simp add: shift_def reduce_def)

lemma run_xor:
  assumes "length vs = length ws"
  shows "run (a XOR b) (map2 (XOR) vs ws) = run a vs XOR run b ws"
  using assms
proof (induction vs ws arbitrary: a b rule: list_induct2)
  case (Cons v vs w ws)
  have "ucast (v XOR w) = (ucast v XOR ucast w :: u64)"
    by (rule bit_word_eqI) (auto simp: bit_simps)
  then have "shift (a XOR b) XOR ucast (v XOR w) = (shift a XOR ucast v) XOR (shift b XOR ucast w)"
    by (simp only: shift_xor xor.assoc xor.commute xor.left_commute)
  then show ?case using Cons.IH by (simp add: run_Cons)
qed simp

lemma run_zeros_0 [simp]: "run 0 (replicate n 0) = 0"
  by (induction n) (simp_all add: run_Cons)

lemma map2_xor_zeros: "map2 (XOR) vs (replicate (length vs) (0 :: u8)) = vs"
  by (induction vs) simp_all

text \<open>The register after any digits is the register after as many zeros, and the digits' own trace.\<close>

lemma run_split: "run c vs = run c (replicate (length vs) 0) XOR run 0 vs"
  using run_xor [of vs "replicate (length vs) 0" 0 c]
  by (simp add: map2_xor_zeros [unfolded case_prod_unfold] case_prod_unfold xor.commute)

definition fits40 :: "u64 \<Rightarrow> bool" where
  "fits40 c \<longleftrightarrow> take_bit 40 c = c"

lemma fits40_0 [simp]: "fits40 0" and fits40_1 [simp]: "fits40 1"
  by (simp_all add: fits40_def)

lemma fits40_xor: "fits40 a \<Longrightarrow> fits40 b \<Longrightarrow> fits40 (a XOR b)"
  by (simp add: fits40_def take_bit_xor)

lemma fits40_digit [simp, intro]: "fits40 (ucast (v :: u8))"
  unfolding fits40_def by (rule bit_word_eqI) (auto simp: bit_simps dest: bit_imp_le_length)

lemma fits40_bits: "fits40 c \<Longrightarrow> bit c i \<Longrightarrow> i < 40"
  unfolding fits40_def by (metis bit_take_bit_iff)

lemma fits40_unat: "fits40 c \<Longrightarrow> unat c < 2 ^ 40"
  unfolding fits40_def by (metis take_bit_nat_less_exp unsigned_take_bit_eq)

lemma mask35: "0x07FFFFFFFF = (mask 35 :: u64)"
  by (simp add: mask_eq_exp_minus_1)

lemma fits40_shift: "fits40 (shift c)"
proof -
  have "fits40 (push_bit 5 (c AND 0x07FFFFFFFF))"
    unfolding fits40_def mask35 by (rule bit_word_eqI) (auto simp: bit_take_bit_iff bit_push_bit_iff bit_and_iff bit_mask_iff)
  moreover have "fits40 (if b then 0x98f2bc8e61 else 0)" "fits40 (if b then 0x79b76d99e2 else 0)"
    "fits40 (if b then 0xf33e5fb3c4 else 0)" "fits40 (if b then 0xae2eabe2a8 else 0)" "fits40 (if b then 0x1e4f43e470 else 0)" for b
    by (simp_all add: fits40_def)
  ultimately show ?thesis unfolding shift_def reduce_def by (intro fits40_xor)
qed

lemma fits40_run: "fits40 c \<Longrightarrow> fits40 (run c vs)"
  by (induction vs arbitrary: c) (simp_all add: run_Cons fits40_xor fits40_shift)

text \<open>The low five bits of the generators are the five unit vectors, so what leaves at the top is
visible at the bottom.\<close>

lemma shift_low:
  "take_bit 5 (shift c) = (if bit c 35 then 1 else 0) XOR (if bit c 36 then 2 else 0)
     XOR (if bit c 37 then 4 else 0) XOR (if bit c 38 then 8 else 0) XOR (if bit c 39 then 16 else 0)"
proof -
  have "take_bit 5 (push_bit 5 (c AND 0x07FFFFFFFF)) = 0"
    by (simp only: take_bit_push_bit take_bit_0 diff_self_eq_0 push_bit_of_0)
  moreover have g: "take_bit 5 (if p then 0x98f2bc8e61 else 0) = (if p then 1 else (0 :: u64))"
    "take_bit 5 (if p then 0x79b76d99e2 else 0) = (if p then 2 else (0 :: u64))"
    "take_bit 5 (if p then 0xf33e5fb3c4 else 0) = (if p then 4 else (0 :: u64))"
    "take_bit 5 (if p then 0xae2eabe2a8 else 0) = (if p then 8 else (0 :: u64))"
    "take_bit 5 (if p then 0x1e4f43e470 else 0) = (if p then 16 else (0 :: u64))" for p
    by simp_all
  ultimately show ?thesis
    by (simp only: shift_def reduce_def take_bit_xor g xor.left_neutral)
qed

lemma shift_eq_0:
  assumes "fits40 c" "shift c = 0"
  shows "c = 0"
proof -
  have "take_bit 5 (shift c) = 0" using assms(2) by simp
  then have top: "\<not> bit c 35" "\<not> bit c 36" "\<not> bit c 37" "\<not> bit c 38" "\<not> bit c 39"
    unfolding shift_low by (auto split: if_splits)
  have "push_bit 5 (c AND mask 35) = 0"
    using assms(2) unfolding shift_def reduce_def mask35 by (simp only: top if_False xor.right_neutral)
  note push = this
  have "\<not> bit c i" for i
  proof (cases "i < 35")
    case True
    have "bit (push_bit 5 (c AND mask 35)) (i + 5) = bit c i"
      using True by (simp add: bit_push_bit_iff bit_and_iff bit_mask_iff)
    then show ?thesis using push by simp
  next
    case False
    then have "bit c i \<Longrightarrow> i = 35 \<or> i = 36 \<or> i = 37 \<or> i = 38 \<or> i = 39"
      using fits40_bits [OF assms(1), of i] by arith
    then show ?thesis using top by auto
  qed
  then show ?thesis by (intro bit_word_eqI) simp
qed

lemma run_zeros_eq_0: "fits40 c \<Longrightarrow> run c (replicate n 0) = 0 \<Longrightarrow> c = 0"
  by (induction n arbitrary: c) (auto simp: run_Cons fits40_shift dest: shift_eq_0)

text \<open>Eight digits fit in the register: it holds them unchanged.\<close>

lemma unat_append_digit:
  assumes "unat c < 2 ^ 35" "unat v < 32"
  shows "unat (shift c XOR ucast v) = unat c * 32 + unat (v :: u8)"
proof -
  have small: "bit c i \<Longrightarrow> i < 35" for i
    by (rule bit_small [OF assms(1)])
  then have "\<not> bit c 35" "\<not> bit c 36" "\<not> bit c 37" "\<not> bit c 38" "\<not> bit c 39" by fastforce+
  moreover have "c AND mask 35 = c"
    using small by (intro bit_word_eqI) (auto simp: bit_simps)
  ultimately have "shift c = push_bit 5 c"
    unfolding shift_def reduce_def mask35 by (simp only: if_False xor.right_neutral)
  moreover have "push_bit 5 c XOR ucast v = push_bit 5 c OR ucast v"
    using bit_small [of v 5] assms(2) by (intro bit_word_eqI) (fastforce simp: bit_simps)
  ultimately have eq: "shift c XOR ucast v = push_bit 5 c OR ucast v" by simp
  have bits: "bits_of (35 + 5) (shift c XOR ucast v) = bits_of 35 c @ bits_of 5 v"
    unfolding eq by (rule bits_of_enter) (use assms in simp_all)
  have "unat (shift c XOR ucast v) = bval (bits_of 40 (shift c XOR ucast v))"
    using fits40_unat [OF fits40_xor [OF fits40_shift fits40_digit], of c v]
    by (simp add: bval_bits_of take_bit_nat_eq_self)
  also have "\<dots> = unat c * 32 + unat v"
    using bits assms by (simp add: bval_append bval_bits_of take_bit_nat_eq_self)
  finally show ?thesis .
qed

lemma run_trace:
  assumes "length vs \<le> 8" "\<forall>v \<in> set vs. unat v < 32"
  shows "unat (run 0 vs) = bval (flat 5 vs)"
  using assms
proof (induction vs rule: rev_induct)
  case (snoc v vs)
  have "bval (flat 5 vs) < 2 ^ (5 * length vs)" using bval_bound [of "flat 5 vs"] by simp
  also have "\<dots> \<le> 2 ^ 35" using snoc.prems by (intro power_increasing) auto
  finally have "unat (run 0 vs) < 2 ^ 35" using snoc by simp
  then show ?case
    using unat_append_digit [of "run 0 vs" v] snoc
    by (simp add: run_append run_Cons bval_append bval_bits_of take_bit_nat_eq_self)
qed simp

lemma bval_flat_0: "bval (flat 5 vs) = 0 \<Longrightarrow> \<forall>v \<in> set vs. unat v < 32 \<Longrightarrow> v \<in> set vs \<Longrightarrow> v = (0 :: u8)"
  by (induction vs) (auto simp: bval_append bval_bits_of take_bit_nat_eq_self unat_eq_zero)

text \<open>A difference of at most eight digits does not disappear, however many digits follow.\<close>

lemma run_burst:
  assumes "run 0 (replicate m 0 @ e @ replicate n 0) = 0" "length e \<le> 8" "\<forall>v \<in> set e. unat v < 32" "v \<in> set e"
  shows "v = 0"
proof -
  have "run (run 0 e) (replicate n 0) = 0" using assms(1) by (simp add: run_append)
  then have "run 0 e = 0" using run_zeros_eq_0 fits40_run fits40_0 by blast
  then have "bval (flat 5 e) = 0" using run_trace [OF assms(2,3)] by simp
  then show ?thesis using bval_flat_0 assms(3,4) by blast
qed

section \<open>The validator\<close>

lemma decode_digits_eq:
  "length acc + length chs \<le> 72 \<Longrightarrow> decode_digits chs acc =
     (if \<forall>ch \<in> set chs. bech32_char_to_val ch \<noteq> 0xFF then Some (acc @ map bech32_char_to_val chs) else None)"
  by (induction chs arbitrary: acc) (simp_all add: Let_def)

lemma take_checksum_values:
  assumes "length hrp + 1 + length digits + k \<le> 128"
  shows "take (length hrp + 1 + length digits + k) (checksum_values hrp digits) = hrp_expand hrp @ digits @ replicate k 0"
  using assms by (simp add: checksum_values_def blit_def hrp_expand_def min_def)

lemma length_hrp_expand [simp]: "length (hrp_expand hrp) = length hrp + 1"
  by (simp add: hrp_expand_def)

lemma length_checksum_values: "length hrp + 1 + length digits \<le> 128 \<Longrightarrow> length (checksum_values hrp digits) = 128"
  by (simp add: checksum_values_def)

lemma length_KASPA [simp]: "length KASPA_HRP = 5" "length KASPA_PREFIX = 6"
  by (simp_all add: KASPA_HRP_def KASPA_PREFIX_def)

definition address_digits :: "bytes \<Rightarrow> bytes" where
  "address_digits addr = map bech32_char_to_val (drop 6 addr)"

lemma validate_iff:
  "validate_kaspa_address addr \<longleftrightarrow> take 6 addr = KASPA_PREFIX \<and> 63 \<le> length addr \<and> length addr \<le> 75 \<and>
     (\<forall>ch \<in> set (drop 6 addr). bech32_char_to_val ch \<noteq> 0xFF) \<and> run 1 (hrp_expand KASPA_HRP @ address_digits addr) = 1"
proof -
  have "polymod (checksum_values KASPA_HRP (address_digits addr)) (6 + length (address_digits addr))
      = run 1 (hrp_expand KASPA_HRP @ address_digits addr)" if "length addr \<le> 75"
    using that take_checksum_values [of KASPA_HRP "address_digits addr" 0]
    by (subst polymod_run) (simp_all add: length_checksum_values address_digits_def)
  note poly = this
  show ?thesis
  proof (cases "63 \<le> length addr \<and> length addr \<le> 75")
    case True
    then have "decode_digits (drop 6 addr) [] = (if \<forall>ch \<in> set (drop 6 addr). bech32_char_to_val ch \<noteq> 0xFF
        then Some (address_digits addr) else None)"
      by (subst decode_digits_eq) (auto simp: address_digits_def)
    with poly True show ?thesis by (auto simp: validate_kaspa_address_def)
  qed (auto simp: validate_kaspa_address_def)
qed

lemma address_digits_small:
  assumes "\<forall>ch \<in> set (drop 6 addr). bech32_char_to_val ch \<noteq> 0xFF"
  shows "\<forall>v \<in> set (address_digits addr). unat v < 32"
  using assms char_values(1) by (auto simp: address_digits_def)

lemma xor_small:
  assumes "unat (v :: u8) < 32" "unat w < 32"
  shows "unat (v XOR w) < 32"
proof -
  have "unat (v XOR w) = take_bit 5 (unat v) XOR take_bit 5 (unat w)"
    using assms by (simp add: unsigned_xor_eq take_bit_nat_eq_self)
  then show ?thesis
    using take_bit_nat_less_exp [of 5 "unat v XOR unat w"] by (simp add: take_bit_xor)
qed

lemma windowed:
  assumes "length (d :: u8 list) = n" "\<And>j. j < n \<Longrightarrow> j < p \<or> p + 8 \<le> j \<Longrightarrow> d ! j = 0"
  shows "\<exists>m e r. d = replicate m 0 @ e @ replicate r 0 \<and> length e \<le> 8"
proof -
  have "take p d = replicate (length (take p d)) 0" "drop (p + 8) d = replicate (length (drop (p + 8) d)) 0"
    using assms by (auto intro!: nth_equalityI)
  moreover have "d = take p d @ take 8 (drop p d) @ drop (p + 8) d"
    using append_take_drop_id [of 8 "drop p d"] by (simp add: add.commute)
  ultimately have "d = replicate (length (take p d)) 0 @ take 8 (drop p d) @ replicate (length (drop (p + 8) d)) 0"
    by (simp only:)
  moreover have "length (take 8 (drop p d)) \<le> 8" by simp
  ultimately show ?thesis by (intro exI conjI)
qed

lemma xor_eq_0:
  assumes "v XOR w = 0"
  shows "v = (w :: u8)"
proof -
  have "(v XOR w) XOR w = v" by (simp only: xor.assoc xor_self_eq xor.right_neutral)
  then show ?thesis using assms by simp
qed

lemma map_val_inj:
  assumes "map bech32_char_to_val cs = map bech32_char_to_val ds"
    and "\<forall>c \<in> set cs. bech32_char_to_val c \<noteq> 0xFF" "\<forall>d \<in> set ds. bech32_char_to_val d \<noteq> 0xFF"
  shows "cs = ds"
proof -
  have "inj_on bech32_char_to_val {c. bech32_char_to_val c \<noteq> 0xFF}"
    by (rule inj_onI) (metis char_values(2) mem_Collect_eq)
  then show ?thesis
    using assms by (intro map_inj_on [OF assms(1)]) (auto intro: inj_on_subset)
qed

lemma validate_detects_burst_digits:
  assumes len: "length vs = length ws"
    and small: "\<forall>v \<in> set vs. unat v < 32" "\<forall>w \<in> set ws. unat w < 32"
    and same: "\<And>j. j < length vs \<Longrightarrow> j < p \<or> p + 8 \<le> j \<Longrightarrow> vs ! j = ws ! j"
    and regs: "run c vs = run c ws"
  shows "vs = ws"
proof -
  let ?d = "map2 (XOR) vs ws"
  have "run 0 ?d = 0" using run_xor [OF len, of c c] regs by simp
  moreover obtain m e r where d: "?d = replicate m 0 @ e @ replicate r 0" "length e \<le> 8"
    using windowed [of ?d "length vs" p] len same by auto
  moreover have "\<forall>v \<in> set ?d. unat v < 32"
    using small len by (auto intro!: xor_small dest: set_zip_leftD set_zip_rightD)
  ultimately have "\<forall>v \<in> set e. v = 0" using run_burst [of m e r] by auto
  then have "\<forall>v \<in> set ?d. v = 0" using d by auto
  then have "vs ! i XOR ws ! i = 0" if "i < length vs" for i
    using that len by (auto simp: set_zip)
  then show ?thesis using len by (intro nth_equalityI) (auto intro: xor_eq_0)
qed

section \<open>Regrouping\<close>

text \<open>The digits of a byte string: the same bits in groups of five, the last group filled with zeros.
There is one such list, so two programs that produce it agree.\<close>

definition regroups :: "bytes \<Rightarrow> bytes \<Rightarrow> bool" where
  "regroups digits bs \<longleftrightarrow> (\<forall>v \<in> set digits. unat v < 32) \<and>
     (\<exists>pad < 5. flat 5 digits = flat 8 bs @ replicate pad False)"

lemma regroups_length: "regroups digits bs \<Longrightarrow> length digits = (8 * length bs + 4) div 5"
proof -
  assume "regroups digits bs"
  then obtain pad where "pad < 5" "flat 5 digits = flat 8 bs @ replicate pad False" by (auto simp: regroups_def)
  from arg_cong [OF this(2), of length] this(1) show "length digits = (8 * length bs + 4) div 5" by simp
qed

lemma regroups_unique:
  assumes "regroups d bs" "regroups e bs"
  shows "d = e"
proof (rule flat_inj)
  show "length d = length e" using assms regroups_length by simp
  obtain m n where "flat 5 d = flat 8 bs @ replicate m False" "flat 5 e = flat 8 bs @ replicate n False"
    using assms by (auto simp: regroups_def)
  moreover have "m = n"
    using calculation [THEN arg_cong, of length] \<open>length d = length e\<close> by simp
  ultimately show "flat 5 d = flat 5 e" by simp
qed (use assms in \<open>auto simp: regroups_def\<close>)

subsection \<open>The device's loop\<close>

lemma low5: "bits_of 5 (ucast (acc AND 0x1F :: u32) :: u8) = bits_of 5 (ucast acc :: u8)"
  "unat (ucast (acc AND 0x1F :: u32) :: u8) < 32"
proof -
  have m: "0x1F = (mask 5 :: u32)" by (simp add: mask_eq_exp_minus_1)
  show "bits_of 5 (ucast (acc AND 0x1F :: u32) :: u8) = bits_of 5 (ucast acc :: u8)"
    unfolding m by (intro bits_of_cong) (auto simp: bit_simps)
  have "(ucast (acc AND 0x1F :: u32) :: u8) = take_bit 5 (ucast acc)"
    unfolding m by (intro bit_word_eqI) (auto simp: bit_simps)
  then show "unat (ucast (acc AND 0x1F :: u32) :: u8) < 32"
    using take_bit_nat_less_exp [of 5 "unat (ucast acc :: u8)"] by (simp add: unsigned_take_bit_eq)
qed

lemma drain_8to5_bits:
  assumes "drain_8to5 acc bits out = (bits', out')" "bits \<le> 32" "\<forall>v \<in> set out. unat v < 32"
  shows "flat 5 out' @ bits_of bits' acc = flat 5 out @ bits_of bits acc \<and> bits' < 5 \<and> (\<forall>v \<in> set out'. unat v < 32)"
  using assms
proof (induction acc bits out rule: drain_8to5.induct)
  case (1 acc bits out)
  show ?case
  proof (cases "5 \<le> bits")
    case True
    let ?d = "ucast (drop_bit (bits - 5) acc AND 0x1F) :: u8"
    have "bits_of bits acc = bits_of 5 ?d @ bits_of (bits - 5) acc"
      using bits_of_leave [of 5 "bits - 5" acc] True 1(3) by (simp add: low5)
    then show ?thesis using 1(1) [OF True refl] 1(2-4) True low5(2) by (simp add: Let_def)
  next
    case False
    then show ?thesis using 1(2-4) by simp
  qed
qed

declare drain_8to5.simps [simp del]

definition device_inv :: "bytes \<Rightarrow> u32 \<times> nat \<times> bytes \<Rightarrow> bool" where
  "device_inv bs = (\<lambda>(acc, bits, out).
     flat 5 out @ bits_of bits acc = flat 8 bs \<and> bits < 5 \<and> (\<forall>v \<in> set out. unat v < 32))"

lemma device_inv_fold:
  "n \<le> length payload \<Longrightarrow> device_inv (take n payload) (fold (\<lambda>i (acc, bits, out).
            (let acc = push_bit 8 acc OR ucast (payload ! i); (bits, out) = drain_8to5 acc (bits + 8) out
             in (acc, bits, out))) [0..<n] (0 :: u32, 0, []))"
proof (induction n)
  case 0
  then show ?case by (simp add: device_inv_def)
next
  case (Suc n)
  let ?step = "\<lambda>i (acc :: u32, bits, out). (let acc = push_bit 8 acc OR ucast (payload ! i); (bits, out) = drain_8to5 acc (bits + 8) out
             in (acc, bits, out))"
  obtain acc bits out where st: "fold ?step [0..<n] (0, 0, []) = (acc, bits, out)" by (rule prod_cases3)
  then have inv: "flat 5 out @ bits_of bits acc = flat 8 (take n payload)" "bits < 5" "\<forall>v \<in> set out. unat v < 32"
    using Suc by (auto simp: device_inv_def)
  let ?acc = "push_bit 8 acc OR ucast (payload ! n)"
  obtain bits' out' where dr: "drain_8to5 ?acc (bits + 8) out = (bits', out')" by fastforce
  have "bits_of (bits + 8) ?acc = bits_of bits acc @ bits_of 8 (payload ! n)"
    using inv(2) unat_u8_less [of "payload ! n"] by (intro bits_of_enter) simp_all
  then show ?case
    using drain_8to5_bits [OF dr] inv st dr Suc.prems
    by (simp add: device_inv_def Let_def take_Suc_conv_app_nth flip: append_assoc)
qed

lemma convert_bits_8to5_regroups:
  assumes "len \<le> length payload" "len \<le> 34"
  shows "\<exists>digits. convert_bits_8to5 payload len = Some digits \<and> regroups digits (take len payload)"
proof -
  obtain acc bits out where st: "fold (\<lambda>i (acc, bits, out).
            (let acc = push_bit 8 acc OR ucast (payload ! i); (bits, out) = drain_8to5 acc (bits + 8) out
             in (acc, bits, out))) [0..<len] (0 :: u32, 0, []) = (acc, bits, out)" by (rule prod_cases3)
  then have inv: "flat 5 out @ bits_of bits acc = flat 8 (take len payload)" "bits < 5" "\<forall>v \<in> set out. unat v < 32"
    using device_inv_fold [OF assms(1)] by (auto simp: device_inv_def)
  define digits where "digits = (if 0 < bits then out @ [ucast (push_bit (5 - bits) acc AND 0x1F)] else out)"
  have "bits_of 5 (ucast (push_bit (5 - bits) acc AND 0x1F) :: u8) = bits_of bits acc @ replicate (5 - bits) False"
    unfolding low5 using inv(2) by (intro bits_of_pad) simp_all
  then have "flat 5 digits = flat 8 (take len payload) @ replicate (if 0 < bits then 5 - bits else 0) False"
    using inv(1) by (auto simp: digits_def)
  then have reg: "regroups digits (take len payload)"
    using inv(3) low5(2) unfolding regroups_def digits_def by (auto intro!: exI [of _ "if 0 < bits then 5 - bits else 0"])
  then have "length digits \<le> 56" using regroups_length [OF reg] assms by simp
  then show ?thesis using reg st by (simp add: convert_bits_8to5_def digits_def)
qed

subsection \<open>The companion's loops\<close>

text \<open>\<open>conv_inv w n bs\<close>: of the bits \<open>bs\<close> taken in, whole digits of \<open>w\<close> bits stand in the first
\<open>current_idx\<close> places of the \<open>n\<close>-place output and the rest is the low end of \<open>buff\<close>.\<close>

definition conv_inv :: "nat \<Rightarrow> nat \<Rightarrow> bool list \<Rightarrow> conv_state \<Rightarrow> bool" where
  "conv_inv w n bs = (\<lambda>(out, idx, buff, bits). length out = n \<and> idx \<le> n \<and> unat buff < 2 ^ bits \<and>
     flat w (take idx out) @ bits_of bits buff = bs \<and> (\<forall>v \<in> set (take idx out). unat v < 2 ^ w))"

lemma conv_inv_idx: "conv_inv w n bs (out, idx, buff, bits) \<Longrightarrow> w * idx + bits = length bs"
  by (auto simp: conv_inv_def)

declare conv_drain.simps [simp del]

lemma conv_leave:
  assumes inv: "conv_inv w n bs (out, idx, buff, w + r)" and w: "0 < w" "w \<le> 8" "w + r \<le> 16" and room: "idx < n"
  shows "conv_inv w n bs (out[idx := ucast (drop_bit r buff)], Suc idx, buff AND (push_bit r 1 - 1), r)"
proof -
  have len: "length out = n" using inv by (simp add: conv_inv_def)
  have upd: "take (Suc idx) (out[idx := v]) = take idx out @ [v]" for v
    using room len by (simp add: take_Suc_conv_app_nth)
  have mask: "buff AND (push_bit r 1 - 1) = take_bit r buff"
    by (simp add: take_bit_eq_mask mask_eq_exp_minus_1)
  have small: "unat (take_bit r buff) < 2 ^ r"
    by (simp add: unsigned_take_bit_eq)
  have "unat (drop_bit r buff) = drop_bit r (unat buff)"
    using take_bit_nat_eq_self [of "unat buff" 16] unat_u16_less [of buff] by (simp add: unsigned_drop_bit_eq)
  also have "\<dots> = unat buff div 2 ^ r" by (rule drop_bit_eq_div)
  also have "\<dots> < 2 ^ w" using inv by (simp add: conv_inv_def less_mult_imp_div_less power_add)
  finally have digit: "unat (ucast (drop_bit r buff) :: u8) < 2 ^ w"
    by (simp add: unsigned_ucast_eq) (meson le_less_trans take_bit_nat_less_eq_self)
  have "bits_of r (take_bit r buff) = bits_of r buff" by (intro bits_of_cong) (simp add: bit_simps)
  then have "flat w (take (Suc idx) (out[idx := ucast (drop_bit r buff)])) @ bits_of r (take_bit r buff) = bs"
    using inv bits_of_leave [of w r buff] w by (simp add: upd conv_inv_def)
  then show ?thesis
    using inv digit small room unfolding conv_inv_def prod.case mask upd by simp
qed

lemma conv_drain_inv:
  assumes "conv_inv w n bs st" "0 < w" "w \<le> 8" "snd (snd (snd st)) \<le> 16" "length bs div w \<le> n"
  shows "conv_inv w n bs (conv_drain w st) \<and> snd (snd (snd (conv_drain w st))) < w"
  using assms
proof (induction w st rule: conv_drain.induct)
  case (1 w out idx buff bits)
  show ?case
  proof (cases "w \<le> bits")
    case True
    have "w * idx + bits = length bs" using 1(2) by (rule conv_inv_idx)
    then have "(idx + 1) * w \<le> length bs" using True by (simp add: algebra_simps)
    then have "idx + 1 \<le> length bs div w" using 1(3) by (simp add: less_eq_div_iff_mult_less_eq)
    then have "conv_inv w n bs (out[idx := ucast (drop_bit (bits - w) buff)], Suc idx, buff AND (push_bit (bits - w) 1 - 1), bits - w)"
      using 1(2-6) True by (intro conv_leave) auto
    then show ?thesis
      using 1(1) [OF _ refl] 1(3-6) True by (simp add: conv_drain.simps [of w out idx buff bits] Let_def)
  next
    case False
    then show ?thesis using 1(2) by (simp add: conv_drain.simps)
  qed
qed

lemma conv_push_inv:
  assumes inv: "conv_inv w n bs st" and bits: "snd (snd (snd st)) < w" and w: "w \<le> 8" "from \<le> 8" and c: "unat c < 2 ^ from"
    and room: "(length bs + from) div w \<le> n"
  shows "conv_inv w n (bs @ bits_of from c) (conv_push from w c st) \<and> snd (snd (snd (conv_push from w c st))) < w"
proof -
  obtain out idx buff r where st: "st = (out, idx, buff, r)" by (rule prod_cases4)
  let ?buff = "push_bit from buff OR ucast c"
  have enter: "bits_of (r + from) ?buff = bits_of r buff @ bits_of from c"
    using bits w c st by (intro bits_of_enter) simp_all
  have "bit ?buff i \<Longrightarrow> i < r + from" for i
    using bit_small [of buff r] bit_small [OF c] inv st
    by (fastforce simp: conv_inv_def bit_or_iff bit_push_bit_iff bit_ucast_iff)
  then have "unat ?buff < 2 ^ (r + from)" by (rule unat_lessI)
  then have "conv_inv w n (bs @ bits_of from c) (out, idx, ?buff, r + from)"
    using inv enter by (auto simp: conv_inv_def st)
  then show ?thesis
    using conv_drain_inv [of w n "bs @ bits_of from c" "(out, idx, ?buff, r + from)"] bits w room
    by (simp add: conv_push_def st)
qed

lemma conv_fold_inv:
  assumes w: "0 < w" "w \<le> 8" "from \<le> 8" and cs: "\<forall>c \<in> set cs. unat c < 2 ^ from" and room: "length cs * from div w \<le> n"
  shows "conv_inv w n (flat from cs) (fold (conv_push from w) cs (replicate n 0, 0, 0, 0)) \<and>
    snd (snd (snd (fold (conv_push from w) cs (replicate n 0, 0, 0, 0)))) < w"
  using cs room
proof (induction cs rule: rev_induct)
  case Nil
  then show ?case using w by (simp add: conv_inv_def)
next
  case (snoc c cs)
  have "length cs * from div w \<le> length (cs @ [c]) * from div w" by (intro div_le_mono) simp
  then have "length cs * from div w \<le> n" using snoc.prems by linarith
  with snoc show ?case
    using conv_push_inv [of w n "flat from cs" "fold (conv_push from w) cs (replicate n 0, 0, 0, 0)" "from" c] w
    by (simp add: mult.commute add.commute)
qed

lemma conv5to8_bits:
  assumes "\<forall>c \<in> set cs. unat c < 32"
  shows "flat 8 (conv5to8 cs) = take (8 * (length cs * 5 div 8)) (flat 5 cs)" "length (conv5to8 cs) = length cs * 5 div 8"
proof -
  let ?n = "length cs * 5 div 8"
  obtain out idx buff r where st: "fold (conv_push 5 8) cs (replicate ?n 0, 0, 0, 0) = (out, idx, buff, r)" by (rule prod_cases4)
  then have inv: "conv_inv 8 ?n (flat 5 cs) (out, idx, buff, r)" "r < 8"
    using conv_fold_inv [of 8 5 cs ?n] assms by auto
  from conv_inv_idx [OF inv(1)] inv(2) have "idx = ?n" by simp
  with inv have "flat 5 cs = flat 8 out @ bits_of r buff" "length out = ?n" by (auto simp: conv_inv_def)
  then show "flat 8 (conv5to8 cs) = take (8 * ?n) (flat 5 cs)" "length (conv5to8 cs) = ?n"
    by (simp_all add: conv5to8_def st)
qed

lemma conv8to5_regroups: "regroups (conv8to5 bs) bs"
proof -
  define n where "n = length bs * 8 div 5 + (if length bs mod 5 = 0 then 0 else 1)"
  obtain out idx buff r where st: "fold (conv_push 8 5) bs (replicate n 0, 0, 0, 0) = (out, idx, buff, r)" by (rule prod_cases4)
  then have inv: "conv_inv 5 n (flat 8 bs) (out, idx, buff, r)" "r < 5"
    using conv_fold_inv [of 5 8 bs n] unat_u8_less by (auto simp: n_def)
  have idx: "5 * idx + r = 8 * length bs" using conv_inv_idx [OF inv(1)] by simp
  have "length bs * 8 = r + 5 * idx" using idx by simp
  then have q: "idx = length bs * 8 div 5" "r = length bs * 8 mod 5" using inv(2) by simp_all
  have m: "r = 0 \<longleftrightarrow> length bs mod 5 = 0" unfolding q(2) by presburger
  define digits where "digits = (if 0 < r then out[idx := ucast (push_bit (5 - r) buff)] else out)"
  have conv: "conv8to5 bs = digits"
    unfolding conv8to5_def Let_def n_def [symmetric] st by (simp add: digits_def)
  show ?thesis
  proof (cases "0 < r")
    case True
    have "idx + 1 = n" using True m by (simp add: n_def q(1))
    then have "digits = take idx out @ [ucast (push_bit (5 - r) buff)]"
      using inv(1) True upd_conv_take_nth_drop [of idx out] by (simp add: digits_def conv_inv_def)
    moreover have "bits_of 5 (ucast (push_bit (5 - r) buff) :: u8) = bits_of r buff @ replicate (5 - r) False"
      using inv(2) by (intro bits_of_pad) simp_all
    moreover have "unat (ucast (push_bit (5 - r) buff) :: u8) < 2 ^ 5"
      using bit_small [of buff r] inv by (intro unat_lessI) (fastforce simp: bit_simps conv_inv_def)
    ultimately show ?thesis using inv True unfolding conv regroups_def
      by (auto simp: conv_inv_def intro!: exI [of _ "5 - r"] simp flip: append_assoc)
  next
    case False
    then have "idx = n" using m by (simp add: n_def q(1))
    then show ?thesis using inv False unfolding conv regroups_def
      by (auto simp: conv_inv_def digits_def intro!: exI [of _ 0])
  qed
qed

lemma conv5to8_conv8to5: "conv5to8 (conv8to5 bs) = bs"
proof (rule flat_inj)
  obtain pad where pad: "pad < 5" "flat 5 (conv8to5 bs) = flat 8 bs @ replicate pad False" "\<forall>v \<in> set (conv8to5 bs). unat v < 32"
    using conv8to5_regroups [of bs] by (auto simp: regroups_def)
  have n: "length (conv8to5 bs) * 5 div 8 = length bs"
    using arg_cong [OF pad(2), of length] pad(1) by simp
  show "flat 8 (conv5to8 (conv8to5 bs)) = flat 8 bs" "length (conv5to8 (conv8to5 bs)) = length bs"
    using conv5to8_bits [OF pad(3)] by (simp_all add: n pad(2))
qed (use unat_u8_less in auto)

section \<open>The two encoders\<close>

lemma flat_to_be: "flat 8 (to_be 8 (c :: u64)) = bits_of 64 c"
proof (rule bval_inj)
  have "be_value (to_be 8 c) = unat c"
    using le_value_le_bytes [of 8 "unat c"] unat_u64_less [of c] by (simp add: be_value_def to_be_def to_le_def)
  moreover have "take_bit 64 (unat c) = unat c" using unat_u64_less [of c] by (simp add: take_bit_nat_eq_self)
  ultimately show "bval (flat 8 (to_be 8 c)) = bval (bits_of 64 c)"
    by (simp add: bval_bits_of flip: be_value_flat)
qed simp

lemma digit5: "bits_of 5 (ucast (c AND 0x1F :: u64) :: u8) = bits_of 5 c" "unat (ucast (c AND 0x1F :: u64) :: u8) < 32"
  "unat (c AND 0x1F :: u64) = unat (ucast (c AND 0x1F :: u64) :: u8)"
proof -
  have m: "0x1F = (mask 5 :: u64)" by (simp add: mask_eq_exp_minus_1)
  show "bits_of 5 (ucast (c AND 0x1F :: u64) :: u8) = bits_of 5 c"
    unfolding m by (intro bits_of_cong) (auto simp: bit_simps)
  have "unat (c AND 0x1F :: u64) < 2 ^ 5"
    unfolding m by (rule unat_lessI) (simp add: bit_simps)
  then show "unat (c AND 0x1F :: u64) = unat (ucast (c AND 0x1F :: u64) :: u8)" "unat (ucast (c AND 0x1F :: u64) :: u8) < 32"
    by (simp_all add: unsigned_ucast_eq take_bit_nat_eq_self)
qed

definition checksum_digits :: "u64 \<Rightarrow> bytes" where
  "checksum_digits c = map (\<lambda>i. ucast (drop_bit (5 * (7 - i)) c AND 0x1F)) [0..<8]"

lemma flat_checksum_digits: "flat 5 (checksum_digits c) = bits_of 40 c"
proof -
  have "[0..<8] = [0, 1, 2, 3, 4, 5, 6, 7 :: nat]" by (simp add: upt_rec)
  then have "flat 5 (checksum_digits c) = bits_of 5 (drop_bit 35 c) @ bits_of 5 (drop_bit 30 c) @ bits_of 5 (drop_bit 25 c)
     @ bits_of 5 (drop_bit 20 c) @ bits_of 5 (drop_bit 15 c) @ bits_of 5 (drop_bit 10 c) @ bits_of 5 (drop_bit 5 c) @ bits_of 5 c"
    by (simp add: checksum_digits_def digit5)
  then show ?thesis
    using bits_of_split [of 5 35 c] bits_of_split [of 5 30 c] bits_of_split [of 5 25 c] bits_of_split [of 5 20 c]
      bits_of_split [of 5 15 c] bits_of_split [of 5 10 c] bits_of_split [of 5 5 c] by simp
qed

lemma companion_checksum_digits: "conv8to5 (drop 3 (to_be 8 c)) = checksum_digits c"
proof (rule regroups_unique [OF conv8to5_regroups])
  have "flat 8 (to_be 8 c) = flat 8 (take 3 (to_be 8 c)) @ flat 8 (drop 3 (to_be 8 c))"
    by (simp flip: flat_append)
  moreover have "bits_of (24 + 40) c = bits_of 24 (drop_bit 40 c) @ bits_of 40 c" by (rule bits_of_split)
  ultimately have "flat 8 (drop 3 (to_be 8 c)) = bits_of 40 c"
    using flat_to_be [of c] by simp
  then show "regroups (checksum_digits c) (drop 3 (to_be 8 c))"
    unfolding regroups_def flat_checksum_digits by (auto simp: checksum_digits_def digit5 intro: exI [of _ 0])
qed

text \<open>What both encoders write for digits \<open>ds\<close> under an expanded prefix \<open>h\<close>.\<close>

definition checksum_of :: "bytes \<Rightarrow> bytes \<Rightarrow> u64" where
  "checksum_of h ds = run 1 (h @ ds @ replicate 8 0) XOR 1"

definition address_text :: "bytes \<Rightarrow> bytes \<Rightarrow> bytes" where
  "address_text h ds = map (\<lambda>v. CHARSET ! unat v) (ds @ checksum_digits (checksum_of h ds))"

lemma KASPA_PREFIX_HRP: "KASPA_PREFIX = KASPA_HRP @ [of_char CHR '':'']"
  by (simp add: KASPA_PREFIX_def KASPA_HRP_def)

lemma checksum_value_of: "checksum_value ds (map (\<lambda>c. c AND 0x1f) prefix) = checksum_of (hrp_expand prefix) ds"
  by (simp add: checksum_value_def companion_polymod_run checksum_of_def hrp_expand_def)

lemma create_checksum_of: "length digits \<le> 100 \<Longrightarrow> create_checksum KASPA_HRP digits = checksum_of (hrp_expand KASPA_HRP) digits"
  unfolding create_checksum_def using take_checksum_values [of KASPA_HRP digits 8]
  by (subst polymod_run) (simp_all add: length_checksum_values checksum_of_def)

lemma companion_text:
  "companion_encode_address payload version prefix =
     prefix @ [of_char CHR '':''] @ address_text (hrp_expand prefix) (conv8to5 (version # payload))"
  by (simp add: companion_encode_address_def Let_def checksum_value_of companion_checksum_digits address_text_def)

lemma device_text:
  assumes "length pubkey \<le> 33" "length out = MAX_ADDR_LEN"
  shows "encode_address pubkey ty out = Some
    (blit (companion_encode_address pubkey (address_type_byte ty) KASPA_HRP) 0 out,
     length (companion_encode_address pubkey (address_type_byte ty) KASPA_HRP))"
proof -
  let ?payload = "blit pubkey 1 ((replicate 34 0)[0 := address_type_byte ty])"
  have pl: "take (1 + length pubkey) ?payload = address_type_byte ty # pubkey"
    using assms(1) by (simp add: blit_def numeral_eq_Suc)
  then obtain ds where ds: "convert_bits_8to5 ?payload (1 + length pubkey) = Some ds" "regroups ds (address_type_byte ty # pubkey)"
    using convert_bits_8to5_regroups [of "1 + length pubkey" ?payload] assms(1) by auto
  then have eq: "ds = conv8to5 (address_type_byte ty # pubkey)" using regroups_unique conv8to5_regroups by blast
  have len: "length ds \<le> 55" using regroups_length [OF ds(2)] assms(1) by simp
  have "KASPA_PREFIX @ map (\<lambda>d. CHARSET ! unat d) ds @ map (\<lambda>i. CHARSET ! unat (drop_bit (5 * (7 - i)) (create_checksum KASPA_HRP ds) AND 0x1F)) [0..<8]
     = companion_encode_address pubkey (address_type_byte ty) KASPA_HRP"
    using len create_checksum_of [of ds]
    by (simp add: companion_text address_text_def checksum_digits_def digit5(3) comp_def KASPA_PREFIX_HRP flip: eq)
  note companion = this [symmetric]
  have "14 + length ds \<le> length out" using len assms(2) by (simp add: MAX_ADDR_LEN_def)
  then show ?thesis using assms(1) ds(1) by (simp add: encode_address_def Let_def companion)
qed

section \<open>Decoding\<close>

lemma decode_values_Inr:
  "\<forall>ch \<in> set chs. bech32_char_to_val ch \<noteq> 0xFF \<Longrightarrow> decode_values chs acc = Inr (acc @ map bech32_char_to_val chs)"
  by (induction chs arbitrary: acc) (auto simp: char_tables split: if_splits)

lemma decode_values_Inl:
  "\<exists>ch \<in> set chs. bech32_char_to_val ch = 0xFF \<Longrightarrow> \<exists>e. decode_values chs acc = Inl e"
proof (induction chs arbitrary: acc)
  case (Cons ch chs)
  have "length REV_CHARSET \<le> unat ch \<or> REV_CHARSET ! unat ch = 100" if "bech32_char_to_val ch = 0xFF"
  proof (rule ccontr)
    assume n: "\<not> ?thesis"
    then have "unat (REV_CHARSET ! unat ch) < 32" using rev_charset_other(2) [of "unat ch"] by simp
    then show False using n that by (simp add: char_tables)
  qed
  then show ?case using Cons by auto
qed simp

lemma digits_of_text:
  assumes "\<forall>v \<in> set vs. unat v < 32"
  shows "map bech32_char_to_val (map (\<lambda>v. CHARSET ! unat v) vs) = vs"
    and "\<forall>ch \<in> set (map (\<lambda>v. CHARSET ! unat v) vs). bech32_char_to_val ch \<noteq> 0xFF"
proof -
  show eq: "map bech32_char_to_val (map (\<lambda>v. CHARSET ! unat v) vs) = vs"
    using assms by (simp add: map_idI charset_values)
  show "\<forall>ch \<in> set (map (\<lambda>v. CHARSET ! unat v) vs). bech32_char_to_val ch \<noteq> 0xFF"
    using assms by (auto simp: charset_values)
qed

text \<open>The eight checksum digits and the register: a text is valid exactly when its last eight digits
are the checksum of the others.\<close>

lemma run_checksum:
  assumes "length cs = 8"
  shows "run 1 (h @ ds @ cs) = 1 \<longleftrightarrow> checksum_of h ds = run 0 cs"
proof -
  define x where "x = run 1 (h @ ds @ replicate 8 0)"
  have "run 1 (h @ ds @ cs) = x XOR run 0 cs"
    using run_split [of "run 1 (h @ ds)" cs] assms by (simp add: run_append x_def)
  moreover have "x XOR run 0 cs = 1 \<longleftrightarrow> x XOR 1 = run 0 cs"
  proof -
    have "x XOR (x XOR v) = v" for v by (simp only: xor.assoc [symmetric] xor_self_eq xor.left_neutral)
    from this [of "run 0 cs"] this [of 1] show ?thesis by metis
  qed
  ultimately show ?thesis by (simp add: checksum_of_def x_def)
qed

lemma fits40_checksum: "fits40 (checksum_of h ds)"
  by (simp add: checksum_of_def fits40_xor fits40_run)

lemma run_checksum_digits:
  assumes "fits40 c"
  shows "run 0 (checksum_digits c) = c"
proof -
  have "unat (run 0 (checksum_digits c)) = bval (bits_of 40 c)"
    by (subst run_trace) (auto simp: checksum_digits_def digit5 flat_checksum_digits [unfolded checksum_digits_def])
  also have "\<dots> = unat c" using fits40_unat [OF assms] by (simp add: bval_bits_of take_bit_nat_eq_self)
  finally show ?thesis by (simp add: word_unat_eq_iff)
qed

lemma run_valid: "run 1 (h @ ds @ checksum_digits (checksum_of h ds)) = 1"
  by (subst run_checksum) (simp_all add: run_checksum_digits fits40_checksum, simp add: checksum_digits_def)

lemma expected_checksum:
  assumes "length cs = 8" "\<forall>c \<in> set cs. unat c < 32"
  shows "of_nat (be_value (blit (take (min (length (conv5to8 cs)) 5) (conv5to8 cs)) 3 (replicate 8 0))) = run 0 cs"
proof -
  have len: "length (conv5to8 cs) = 5" and bits: "flat 8 (conv5to8 cs) = flat 5 cs"
    using conv5to8_bits [OF assms(2)] assms(1) by simp_all
  have "blit (take (min (length (conv5to8 cs)) 5) (conv5to8 cs)) 3 (replicate 8 0) = 0 # 0 # 0 # conv5to8 cs"
    using len by (simp add: blit_def numeral_eq_Suc)
  then have "be_value (blit (take (min (length (conv5to8 cs)) 5) (conv5to8 cs)) 3 (replicate 8 0)) = unat (run 0 cs)"
    using run_trace [of cs] assms bits be_value_flat [of "conv5to8 cs"] by (simp add: be_value_Cons)
  then show ?thesis by simp
qed

lemma decode_digits_result:
  assumes pre: "address_prefix addr = Some prefix"
    and chars: "\<forall>ch \<in> set (drop (length prefix + 1) addr). bech32_char_to_val ch \<noteq> 0xFF"
    and digits: "map bech32_char_to_val (drop (length prefix + 1) addr) = ds @ cs" "length cs = 8" "ds \<noteq> []"
  shows "decode_address addr =
     (if run 1 (hrp_expand prefix @ ds @ cs) \<noteq> 1 then Inl (ChecksumMismatch (checksum_of (hrp_expand prefix) ds) (run 0 cs))
      else if length (conv5to8 ds) < 33 then Inl (PayloadTooShort (length (conv5to8 ds)))
      else Inr (conv5to8 ds ! 0, slice 1 32 (conv5to8 ds)))"
proof -
  have small: "\<forall>v \<in> set (ds @ cs). unat v < 32"
    unfolding digits(1) [symmetric] using chars char_values(1) by auto
  have "9 \<le> length (drop (length prefix + 1) addr)"
    using arg_cong [OF digits(1), of length] digits(2,3) by (cases ds) auto
  then show ?thesis
    using pre decode_values_Inr [OF chars, of "[]"] small digits
    by (simp add: decode_address_def Let_def checksum_value_of expected_checksum run_checksum)
qed

lemma address_prefix_kaspa:
  "take 6 addr = KASPA_PREFIX \<Longrightarrow> address_prefix addr = Some KASPA_HRP"
  by (simp add: address_prefix_def starts_with_def KASPA_PREFIX_def KASPA_HRP_def eval_nat_numeral)

definition NETWORK_PREFIXES :: "bytes list" where
  "NETWORK_PREFIXES = [map of_char ''kaspa'', map of_char ''kaspatest'', map of_char ''kaspasim'', map of_char ''kaspadev'']"

lemma address_prefix_of:
  "prefix \<in> set NETWORK_PREFIXES \<Longrightarrow> address_prefix (prefix @ [of_char CHR '':''] @ rest) = Some prefix"
  by (auto simp: address_prefix_def starts_with_def NETWORK_PREFIXES_def)

lemma decode_companion_text:
  assumes "prefix \<in> set NETWORK_PREFIXES" "length payload = 32"
  shows "decode_address (companion_encode_address payload version prefix) = Inr (version, payload)"
proof -
  let ?ds = "conv8to5 (version # payload)" and ?h = "hrp_expand prefix"
  let ?cs = "checksum_digits (checksum_of ?h ?ds)"
  let ?addr = "companion_encode_address payload version prefix"
  have small: "\<forall>v \<in> set (?ds @ ?cs). unat v < 32"
    using conv8to5_regroups [of "version # payload"] by (auto simp: regroups_def checksum_digits_def digit5)
  have data: "drop (length prefix + 1) ?addr = map (\<lambda>v. CHARSET ! unat v) (?ds @ ?cs)"
    by (simp add: companion_text address_text_def)
  have "decode_address ?addr =
     (if run 1 (?h @ ?ds @ ?cs) \<noteq> 1 then Inl (ChecksumMismatch (checksum_of ?h ?ds) (run 0 ?cs))
      else if length (conv5to8 ?ds) < 33 then Inl (PayloadTooShort (length (conv5to8 ?ds)))
      else Inr (conv5to8 ?ds ! 0, slice 1 32 (conv5to8 ?ds)))"
  proof (rule decode_digits_result)
    show "address_prefix ?addr = Some prefix" unfolding companion_text by (rule address_prefix_of [OF assms(1)])
    show "?ds \<noteq> []" using regroups_length [OF conv8to5_regroups [of "version # payload"]] assms(2) by auto
    show "length ?cs = 8" by (simp add: checksum_digits_def)
  qed (use digits_of_text [OF small] in \<open>simp_all only: data\<close>)
  also have "run 1 (?h @ ?ds @ ?cs) = 1" by (rule run_valid)
  finally show ?thesis using assms(2) by (simp add: conv5to8_conv8to5 slice_def)
qed

lemma companion_text_valid:
  assumes "length key = 32"
  shows "length (companion_encode_address key ver KASPA_HRP) = 67" "validate_kaspa_address (companion_encode_address key ver KASPA_HRP)"
proof -
  let ?addr = "companion_encode_address key ver KASPA_HRP"
  let ?ds = "conv8to5 (ver # key)" and ?h = "hrp_expand KASPA_HRP"
  let ?cs = "checksum_digits (checksum_of ?h ?ds)"
  show len: "length ?addr = 67"
    using regroups_length [OF conv8to5_regroups [of "ver # key"]] assms
    by (simp add: companion_text address_text_def checksum_digits_def)
  have small: "\<forall>v \<in> set (?ds @ ?cs). unat v < 32"
    using conv8to5_regroups [of "ver # key"] by (auto simp: regroups_def checksum_digits_def digit5)
  have split: "take 6 ?addr = KASPA_PREFIX" "drop 6 ?addr = map (\<lambda>v. CHARSET ! unat v) (?ds @ ?cs)"
    by (simp_all add: companion_text address_text_def KASPA_PREFIX_HRP)
  have "run 1 (?h @ ?ds @ ?cs) = 1" by (rule run_valid)
  then show "validate_kaspa_address ?addr"
    unfolding validate_iff address_digits_def split digits_of_text(1) [OF small]
    using digits_of_text(2) [OF small] len by simp
qed

text \<open>On every network, the companion decodes the address it made for a version byte and a
32-byte payload to exactly that version and payload.\<close>

theorem companion_address_roundtrip:
  assumes "prefix \<in> set NETWORK_PREFIXES" "length payload = 32"
  shows "decode_address (companion_encode_address payload version prefix) = Inr (version, payload)"
  using assms by (rule decode_companion_text)

theorem companion_address_roundtrip_witness:
  "decode_address (encode_p2sh_address (replicate 32 5) (map of_char ''kaspatest'')) = Inr (8, replicate 32 5)"
  unfolding encode_p2sh_address_def
  by (rule companion_address_roundtrip) (simp_all add: NETWORK_PREFIXES_def)

text \<open>C5: for a 32-byte key or script hash, the address the device writes is the text the companion
writes for it; the device's validator accepts it, and the companion turns it back into exactly the
pay-to-public-key (or pay-to-script-hash) script of that key.\<close>

theorem device_address_reaches_script:
  assumes "length key = 32" "length out = MAX_ADDR_LEN" "ty \<in> {P2PK_ADDR, P2SH_ADDR}"
  shows "\<exists>out' n. encode_address key ty out = Some (out', n) \<and> n = 67 \<and>
     take n out' = companion_encode_address key (address_type_byte ty) KASPA_HRP \<and>
     validate_kaspa_address (take n out') \<and>
     address_to_script_pubkey (take n out') =
       Inr (if ty = P2PK_ADDR then [0x20] @ key @ [0xAC] else [0xAA, 0x20] @ key @ [0x87])"
proof -
  let ?addr = "companion_encode_address key (address_type_byte ty) KASPA_HRP"
  have len: "length ?addr = 67" and valid: "validate_kaspa_address ?addr"
    using companion_text_valid [OF assms(1)] by simp_all
  have written: "take 67 (blit ?addr 0 out) = ?addr" using len take_blit_0 [of ?addr out] by simp
  have "decode_address ?addr = Inr (address_type_byte ty, key)"
    using assms(1) by (intro decode_companion_text) (simp_all add: NETWORK_PREFIXES_def KASPA_HRP_def)
  then show ?thesis
    using device_text [of key out ty] assms len valid written by (auto simp: address_to_script_pubkey_def)
qed

theorem device_address_reaches_script_witness:
  "\<exists>out' n. encode_address (replicate 32 7) P2SH_ADDR (replicate 72 0) = Some (out', n) \<and> n = 67 \<and>
     take n out' = companion_encode_address (replicate 32 7) 8 KASPA_HRP \<and> validate_kaspa_address (take n out') \<and>
     address_to_script_pubkey (take n out') = Inr ([0xAA, 0x20] @ replicate 32 7 @ [0x87])"
  using device_address_reaches_script [of "replicate 32 7" "replicate 72 0" P2SH_ADDR] by (simp add: MAX_ADDR_LEN_def)

text \<open>The two checkers agree: the companion accepts a mainnet address exactly when the device's
validator does and the address is long enough to hold a version byte and 32 bytes; the device also
passes texts of 63 to 66 characters with a correct checksum, which hold no key.\<close>

theorem address_checkers_agree:
  assumes "take 6 addr = KASPA_PREFIX" "63 \<le> length addr" "length addr \<le> 75"
  shows "(\<exists>v. decode_address addr = Inr v) \<longleftrightarrow> validate_kaspa_address addr \<and> 67 \<le> length addr"
proof (cases "\<forall>ch \<in> set (drop 6 addr). bech32_char_to_val ch \<noteq> 0xFF")
  case True
  define n where "n = length (address_digits addr)"
  let ?ds = "take (n - 8) (address_digits addr)" and ?cs = "drop (n - 8) (address_digits addr)"
  have n: "n = length addr - 6" by (simp add: n_def address_digits_def)
  have "decode_address addr =
     (if run 1 (hrp_expand KASPA_HRP @ ?ds @ ?cs) \<noteq> 1 then Inl (ChecksumMismatch (checksum_of (hrp_expand KASPA_HRP) ?ds) (run 0 ?cs))
      else if length (conv5to8 ?ds) < 33 then Inl (PayloadTooShort (length (conv5to8 ?ds)))
      else Inr (conv5to8 ?ds ! 0, slice 1 32 (conv5to8 ?ds)))"
  proof (rule decode_digits_result)
    show "address_prefix addr = Some KASPA_HRP" by (rule address_prefix_kaspa [OF assms(1)])
    show "map bech32_char_to_val (drop (length KASPA_HRP + 1) addr) = ?ds @ ?cs" by (simp add: address_digits_def)
    show "length ?cs = 8" "?ds \<noteq> []" using n assms(2) by (simp_all flip: n_def length_greater_0_conv)
  qed (use True in simp)
  moreover have "length (conv5to8 ?ds) < 33 \<longleftrightarrow> length addr < 67"
  proof -
    have "\<forall>v \<in> set ?ds. unat v < 32" using address_digits_small [OF True] by (meson in_set_takeD)
    then have "length (conv5to8 ?ds) = (n - 8) * 5 div 8" by (simp add: conv5to8_bits(2) n_def)
    then show ?thesis using n assms(2) by auto
  qed
  ultimately show ?thesis using True assms by (auto simp: validate_iff)
next
  case False
  then obtain e where "decode_values (drop 6 addr) [] = Inl e" using decode_values_Inl by blast
  then show ?thesis
    using False address_prefix_kaspa [OF assms(1)] assms(2) by (auto simp: decode_address_def validate_iff Let_def)
qed

definition sample_address :: bytes where
  "sample_address = companion_encode_address (replicate 32 0) 0 KASPA_HRP"

lemma sample_address_ok: "validate_kaspa_address sample_address" "length sample_address = 67" "take 6 sample_address = KASPA_PREFIX"
  using companion_text_valid [of "replicate 32 0" 0] by (simp_all add: sample_address_def validate_iff)

theorem address_checkers_agree_witness: "\<exists>v. decode_address sample_address = Inr v"
  using address_checkers_agree [of sample_address] sample_address_ok by simp

text \<open>C6: the validator detects every error that touches at most eight neighbouring characters of a
valid address (a mistyped character, two swapped ones, a garbled group), whatever they become.\<close>

theorem validate_detects_burst:
  assumes "validate_kaspa_address a" and "length b = length a" and "b \<noteq> a"
    and "\<And>i. i < length a \<Longrightarrow> i < k \<or> k + 8 \<le> i \<Longrightarrow> b ! i = a ! i"
  shows "\<not> validate_kaspa_address b"
proof
  assume "validate_kaspa_address b"
  then have b: "take 6 b = KASPA_PREFIX" "\<forall>ch \<in> set (drop 6 b). bech32_char_to_val ch \<noteq> 0xFF"
    "run 1 (hrp_expand KASPA_HRP @ address_digits b) = 1"
    unfolding validate_iff by blast+
  have a: "take 6 a = KASPA_PREFIX" "\<forall>ch \<in> set (drop 6 a). bech32_char_to_val ch \<noteq> 0xFF"
    "run 1 (hrp_expand KASPA_HRP @ address_digits a) = 1"
    using assms(1) unfolding validate_iff by blast+
  have "address_digits a = address_digits b"
  proof (rule validate_detects_burst_digits [where p = "k - 6"])
    show "run (run 1 (hrp_expand KASPA_HRP)) (address_digits a) = run (run 1 (hrp_expand KASPA_HRP)) (address_digits b)"
      using a(3) b(3) by (simp only: run_append)
    show "address_digits a ! j = address_digits b ! j"
      if "j < length (address_digits a)" "j < k - 6 \<or> k - 6 + 8 \<le> j" for j
    proof -
      have "b ! (6 + j) = a ! (6 + j)"
        using that by (intro assms(4)) (auto simp: address_digits_def)
      then show ?thesis using that assms(2) by (simp add: address_digits_def)
    qed
    show "length (address_digits a) = length (address_digits b)" by (simp add: address_digits_def assms(2))
    show "\<forall>v \<in> set (address_digits a). unat v < 32" by (rule address_digits_small [OF a(2)])
    show "\<forall>v \<in> set (address_digits b). unat v < 32" by (rule address_digits_small [OF b(2)])
  qed
  then have "drop 6 a = drop 6 b"
    unfolding address_digits_def by (rule map_val_inj [OF _ a(2) b(2)])
  then have "take 6 a @ drop 6 a = take 6 b @ drop 6 b" by (simp only: a(1) b(1))
  then show False using assms(3) by simp
qed

theorem validate_detects_burst_witness:
  "validate_kaspa_address sample_address \<and>
   \<not> validate_kaspa_address (sample_address[10 := if sample_address ! 10 = of_char CHR ''p'' then of_char CHR ''q'' else of_char CHR ''p''])"
proof
  let ?b = "sample_address[10 := if sample_address ! 10 = of_char CHR ''p'' then of_char CHR ''q'' else of_char CHR ''p'']"
  show "validate_kaspa_address sample_address" by (rule sample_address_ok)
  have differs: "?b ! 10 \<noteq> sample_address ! 10" using sample_address_ok(2) by simp
  show "\<not> validate_kaspa_address ?b"
  proof (rule validate_detects_burst [of sample_address _ 10])
    show "?b \<noteq> sample_address" using differs by (rule contrapos_nn) (rule arg_cong)
  qed (auto simp: sample_address_ok nth_list_update)
qed

end
