(* ===== verification/KasWordlist.thy ===== *)
theory KasWordlist
  imports KasPrelude
begin

text \<open>
  The BIP39 word list (core/src/wallet/bip39_wordlist.rs) and the lookups of core/src/wallet/bip39.rs over
  it: \<open>str_cmp\<close>, \<open>word_to_index\<close> (a binary search) and \<open>index_to_word\<close>. The list is written out in
  sixteen parts; that it has 2048 words in strictly ascending order of at most eight letters each is
  proved, not assumed, and it is what makes the search find every word.
\<close>

section \<open>Comparing strings\<close>

datatype ordering = Less | Equal | Greater

definition cmp :: "'a::linorder \<Rightarrow> 'a \<Rightarrow> ordering" where
  "cmp a b = (if a < b then Less else if a = b then Equal else Greater)"

text \<open>\<open>for i in 0..min_len \{ match a[i].cmp(&b[i]) \{ Equal => continue, other => return other \} \}\<close>\<close>

fun cmp_bytes :: "nat list \<Rightarrow> bytes \<Rightarrow> bytes \<Rightarrow> ordering option" where
  "cmp_bytes [] a b = None"
| "cmp_bytes (i # is) a b =
     (case cmp (a ! i) (b ! i) of Equal \<Rightarrow> cmp_bytes is a b | Less \<Rightarrow> Some Less | Greater \<Rightarrow> Some Greater)"

definition str_cmp :: "bytes \<Rightarrow> bytes \<Rightarrow> ordering" where
  "str_cmp a b =
     (let min_len = (if length a < length b then length a else length b)
      in case cmp_bytes [0..<min_len] a b of Some other \<Rightarrow> other | None \<Rightarrow> cmp (length a) (length b))"

section \<open>The list\<close>

definition words_00 :: "string list" where
  "words_00 =
     [''abandon'', ''ability'', ''able'', ''about'', ''above'', ''absent'', ''absorb'', ''abstract'',
      ''absurd'', ''abuse'', ''access'', ''accident'', ''account'', ''accuse'', ''achieve'', ''acid'',
      ''acoustic'', ''acquire'', ''across'', ''act'', ''action'', ''actor'', ''actress'', ''actual'',
      ''adapt'', ''add'', ''addict'', ''address'', ''adjust'', ''admit'', ''adult'', ''advance'',
      ''advice'', ''aerobic'', ''affair'', ''afford'', ''afraid'', ''again'', ''age'', ''agent'', ''agree'',
      ''ahead'', ''aim'', ''air'', ''airport'', ''aisle'', ''alarm'', ''album'', ''alcohol'', ''alert'',
      ''alien'', ''all'', ''alley'', ''allow'', ''almost'', ''alone'', ''alpha'', ''already'', ''also'',
      ''alter'', ''always'', ''amateur'', ''amazing'', ''among'', ''amount'', ''amused'', ''analyst'',
      ''anchor'', ''ancient'', ''anger'', ''angle'', ''angry'', ''animal'', ''ankle'', ''announce'',
      ''annual'', ''another'', ''answer'', ''antenna'', ''antique'', ''anxiety'', ''any'', ''apart'',
      ''apology'', ''appear'', ''apple'', ''approve'', ''april'', ''arch'', ''arctic'', ''area'', ''arena'',
      ''argue'', ''arm'', ''armed'', ''armor'', ''army'', ''around'', ''arrange'', ''arrest'', ''arrive'',
      ''arrow'', ''art'', ''artefact'', ''artist'', ''artwork'', ''ask'', ''aspect'', ''assault'',
      ''asset'', ''assist'', ''assume'', ''asthma'', ''athlete'', ''atom'', ''attack'', ''attend'',
      ''attitude'', ''attract'', ''auction'', ''audit'', ''august'', ''aunt'', ''author'', ''auto'',
      ''autumn'', ''average'', ''avocado'']"

definition words_01 :: "string list" where
  "words_01 =
     [''avoid'', ''awake'', ''aware'', ''away'', ''awesome'', ''awful'', ''awkward'', ''axis'', ''baby'',
      ''bachelor'', ''bacon'', ''badge'', ''bag'', ''balance'', ''balcony'', ''ball'', ''bamboo'',
      ''banana'', ''banner'', ''bar'', ''barely'', ''bargain'', ''barrel'', ''base'', ''basic'', ''basket'',
      ''battle'', ''beach'', ''bean'', ''beauty'', ''because'', ''become'', ''beef'', ''before'', ''begin'',
      ''behave'', ''behind'', ''believe'', ''below'', ''belt'', ''bench'', ''benefit'', ''best'',
      ''betray'', ''better'', ''between'', ''beyond'', ''bicycle'', ''bid'', ''bike'', ''bind'',
      ''biology'', ''bird'', ''birth'', ''bitter'', ''black'', ''blade'', ''blame'', ''blanket'', ''blast'',
      ''bleak'', ''bless'', ''blind'', ''blood'', ''blossom'', ''blouse'', ''blue'', ''blur'', ''blush'',
      ''board'', ''boat'', ''body'', ''boil'', ''bomb'', ''bone'', ''bonus'', ''book'', ''boost'',
      ''border'', ''boring'', ''borrow'', ''boss'', ''bottom'', ''bounce'', ''box'', ''boy'', ''bracket'',
      ''brain'', ''brand'', ''brass'', ''brave'', ''bread'', ''breeze'', ''brick'', ''bridge'', ''brief'',
      ''bright'', ''bring'', ''brisk'', ''broccoli'', ''broken'', ''bronze'', ''broom'', ''brother'',
      ''brown'', ''brush'', ''bubble'', ''buddy'', ''budget'', ''buffalo'', ''build'', ''bulb'', ''bulk'',
      ''bullet'', ''bundle'', ''bunker'', ''burden'', ''burger'', ''burst'', ''bus'', ''business'',
      ''busy'', ''butter'', ''buyer'', ''buzz'', ''cabbage'', ''cabin'', ''cable'']"

definition words_02 :: "string list" where
  "words_02 =
     [''cactus'', ''cage'', ''cake'', ''call'', ''calm'', ''camera'', ''camp'', ''can'', ''canal'',
      ''cancel'', ''candy'', ''cannon'', ''canoe'', ''canvas'', ''canyon'', ''capable'', ''capital'',
      ''captain'', ''car'', ''carbon'', ''card'', ''cargo'', ''carpet'', ''carry'', ''cart'', ''case'',
      ''cash'', ''casino'', ''castle'', ''casual'', ''cat'', ''catalog'', ''catch'', ''category'',
      ''cattle'', ''caught'', ''cause'', ''caution'', ''cave'', ''ceiling'', ''celery'', ''cement'',
      ''census'', ''century'', ''cereal'', ''certain'', ''chair'', ''chalk'', ''champion'', ''change'',
      ''chaos'', ''chapter'', ''charge'', ''chase'', ''chat'', ''cheap'', ''check'', ''cheese'', ''chef'',
      ''cherry'', ''chest'', ''chicken'', ''chief'', ''child'', ''chimney'', ''choice'', ''choose'',
      ''chronic'', ''chuckle'', ''chunk'', ''churn'', ''cigar'', ''cinnamon'', ''circle'', ''citizen'',
      ''city'', ''civil'', ''claim'', ''clap'', ''clarify'', ''claw'', ''clay'', ''clean'', ''clerk'',
      ''clever'', ''click'', ''client'', ''cliff'', ''climb'', ''clinic'', ''clip'', ''clock'', ''clog'',
      ''close'', ''cloth'', ''cloud'', ''clown'', ''club'', ''clump'', ''cluster'', ''clutch'', ''coach'',
      ''coast'', ''coconut'', ''code'', ''coffee'', ''coil'', ''coin'', ''collect'', ''color'', ''column'',
      ''combine'', ''come'', ''comfort'', ''comic'', ''common'', ''company'', ''concert'', ''conduct'',
      ''confirm'', ''congress'', ''connect'', ''consider'', ''control'', ''convince'', ''cook'', ''cool'',
      ''copper'']"

definition words_03 :: "string list" where
  "words_03 =
     [''copy'', ''coral'', ''core'', ''corn'', ''correct'', ''cost'', ''cotton'', ''couch'', ''country'',
      ''couple'', ''course'', ''cousin'', ''cover'', ''coyote'', ''crack'', ''cradle'', ''craft'', ''cram'',
      ''crane'', ''crash'', ''crater'', ''crawl'', ''crazy'', ''cream'', ''credit'', ''creek'', ''crew'',
      ''cricket'', ''crime'', ''crisp'', ''critic'', ''crop'', ''cross'', ''crouch'', ''crowd'',
      ''crucial'', ''cruel'', ''cruise'', ''crumble'', ''crunch'', ''crush'', ''cry'', ''crystal'',
      ''cube'', ''culture'', ''cup'', ''cupboard'', ''curious'', ''current'', ''curtain'', ''curve'',
      ''cushion'', ''custom'', ''cute'', ''cycle'', ''dad'', ''damage'', ''damp'', ''dance'', ''danger'',
      ''daring'', ''dash'', ''daughter'', ''dawn'', ''day'', ''deal'', ''debate'', ''debris'', ''decade'',
      ''december'', ''decide'', ''decline'', ''decorate'', ''decrease'', ''deer'', ''defense'', ''define'',
      ''defy'', ''degree'', ''delay'', ''deliver'', ''demand'', ''demise'', ''denial'', ''dentist'',
      ''deny'', ''depart'', ''depend'', ''deposit'', ''depth'', ''deputy'', ''derive'', ''describe'',
      ''desert'', ''design'', ''desk'', ''despair'', ''destroy'', ''detail'', ''detect'', ''develop'',
      ''device'', ''devote'', ''diagram'', ''dial'', ''diamond'', ''diary'', ''dice'', ''diesel'', ''diet'',
      ''differ'', ''digital'', ''dignity'', ''dilemma'', ''dinner'', ''dinosaur'', ''direct'', ''dirt'',
      ''disagree'', ''discover'', ''disease'', ''dish'', ''dismiss'', ''disorder'', ''display'',
      ''distance'', ''divert'', ''divide'']"

definition words_04 :: "string list" where
  "words_04 =
     [''divorce'', ''dizzy'', ''doctor'', ''document'', ''dog'', ''doll'', ''dolphin'', ''domain'',
      ''donate'', ''donkey'', ''donor'', ''door'', ''dose'', ''double'', ''dove'', ''draft'', ''dragon'',
      ''drama'', ''drastic'', ''draw'', ''dream'', ''dress'', ''drift'', ''drill'', ''drink'', ''drip'',
      ''drive'', ''drop'', ''drum'', ''dry'', ''duck'', ''dumb'', ''dune'', ''during'', ''dust'', ''dutch'',
      ''duty'', ''dwarf'', ''dynamic'', ''eager'', ''eagle'', ''early'', ''earn'', ''earth'', ''easily'',
      ''east'', ''easy'', ''echo'', ''ecology'', ''economy'', ''edge'', ''edit'', ''educate'', ''effort'',
      ''egg'', ''eight'', ''either'', ''elbow'', ''elder'', ''electric'', ''elegant'', ''element'',
      ''elephant'', ''elevator'', ''elite'', ''else'', ''embark'', ''embody'', ''embrace'', ''emerge'',
      ''emotion'', ''employ'', ''empower'', ''empty'', ''enable'', ''enact'', ''end'', ''endless'',
      ''endorse'', ''enemy'', ''energy'', ''enforce'', ''engage'', ''engine'', ''enhance'', ''enjoy'',
      ''enlist'', ''enough'', ''enrich'', ''enroll'', ''ensure'', ''enter'', ''entire'', ''entry'',
      ''envelope'', ''episode'', ''equal'', ''equip'', ''era'', ''erase'', ''erode'', ''erosion'',
      ''error'', ''erupt'', ''escape'', ''essay'', ''essence'', ''estate'', ''eternal'', ''ethics'',
      ''evidence'', ''evil'', ''evoke'', ''evolve'', ''exact'', ''example'', ''excess'', ''exchange'',
      ''excite'', ''exclude'', ''excuse'', ''execute'', ''exercise'', ''exhaust'', ''exhibit'', ''exile'',
      ''exist'', ''exit'']"

definition words_05 :: "string list" where
  "words_05 =
     [''exotic'', ''expand'', ''expect'', ''expire'', ''explain'', ''expose'', ''express'', ''extend'',
      ''extra'', ''eye'', ''eyebrow'', ''fabric'', ''face'', ''faculty'', ''fade'', ''faint'', ''faith'',
      ''fall'', ''false'', ''fame'', ''family'', ''famous'', ''fan'', ''fancy'', ''fantasy'', ''farm'',
      ''fashion'', ''fat'', ''fatal'', ''father'', ''fatigue'', ''fault'', ''favorite'', ''feature'',
      ''february'', ''federal'', ''fee'', ''feed'', ''feel'', ''female'', ''fence'', ''festival'',
      ''fetch'', ''fever'', ''few'', ''fiber'', ''fiction'', ''field'', ''figure'', ''file'', ''film'',
      ''filter'', ''final'', ''find'', ''fine'', ''finger'', ''finish'', ''fire'', ''firm'', ''first'',
      ''fiscal'', ''fish'', ''fit'', ''fitness'', ''fix'', ''flag'', ''flame'', ''flash'', ''flat'',
      ''flavor'', ''flee'', ''flight'', ''flip'', ''float'', ''flock'', ''floor'', ''flower'', ''fluid'',
      ''flush'', ''fly'', ''foam'', ''focus'', ''fog'', ''foil'', ''fold'', ''follow'', ''food'', ''foot'',
      ''force'', ''forest'', ''forget'', ''fork'', ''fortune'', ''forum'', ''forward'', ''fossil'',
      ''foster'', ''found'', ''fox'', ''fragile'', ''frame'', ''frequent'', ''fresh'', ''friend'',
      ''fringe'', ''frog'', ''front'', ''frost'', ''frown'', ''frozen'', ''fruit'', ''fuel'', ''fun'',
      ''funny'', ''furnace'', ''fury'', ''future'', ''gadget'', ''gain'', ''galaxy'', ''gallery'', ''game'',
      ''gap'', ''garage'', ''garbage'', ''garden'', ''garlic'', ''garment'']"

definition words_06 :: "string list" where
  "words_06 =
     [''gas'', ''gasp'', ''gate'', ''gather'', ''gauge'', ''gaze'', ''general'', ''genius'', ''genre'',
      ''gentle'', ''genuine'', ''gesture'', ''ghost'', ''giant'', ''gift'', ''giggle'', ''ginger'',
      ''giraffe'', ''girl'', ''give'', ''glad'', ''glance'', ''glare'', ''glass'', ''glide'', ''glimpse'',
      ''globe'', ''gloom'', ''glory'', ''glove'', ''glow'', ''glue'', ''goat'', ''goddess'', ''gold'',
      ''good'', ''goose'', ''gorilla'', ''gospel'', ''gossip'', ''govern'', ''gown'', ''grab'', ''grace'',
      ''grain'', ''grant'', ''grape'', ''grass'', ''gravity'', ''great'', ''green'', ''grid'', ''grief'',
      ''grit'', ''grocery'', ''group'', ''grow'', ''grunt'', ''guard'', ''guess'', ''guide'', ''guilt'',
      ''guitar'', ''gun'', ''gym'', ''habit'', ''hair'', ''half'', ''hammer'', ''hamster'', ''hand'',
      ''happy'', ''harbor'', ''hard'', ''harsh'', ''harvest'', ''hat'', ''have'', ''hawk'', ''hazard'',
      ''head'', ''health'', ''heart'', ''heavy'', ''hedgehog'', ''height'', ''hello'', ''helmet'', ''help'',
      ''hen'', ''hero'', ''hidden'', ''high'', ''hill'', ''hint'', ''hip'', ''hire'', ''history'',
      ''hobby'', ''hockey'', ''hold'', ''hole'', ''holiday'', ''hollow'', ''home'', ''honey'', ''hood'',
      ''hope'', ''horn'', ''horror'', ''horse'', ''hospital'', ''host'', ''hotel'', ''hour'', ''hover'',
      ''hub'', ''huge'', ''human'', ''humble'', ''humor'', ''hundred'', ''hungry'', ''hunt'', ''hurdle'',
      ''hurry'', ''hurt'', ''husband'']"

definition words_07 :: "string list" where
  "words_07 =
     [''hybrid'', ''ice'', ''icon'', ''idea'', ''identify'', ''idle'', ''ignore'', ''ill'', ''illegal'',
      ''illness'', ''image'', ''imitate'', ''immense'', ''immune'', ''impact'', ''impose'', ''improve'',
      ''impulse'', ''inch'', ''include'', ''income'', ''increase'', ''index'', ''indicate'', ''indoor'',
      ''industry'', ''infant'', ''inflict'', ''inform'', ''inhale'', ''inherit'', ''initial'', ''inject'',
      ''injury'', ''inmate'', ''inner'', ''innocent'', ''input'', ''inquiry'', ''insane'', ''insect'',
      ''inside'', ''inspire'', ''install'', ''intact'', ''interest'', ''into'', ''invest'', ''invite'',
      ''involve'', ''iron'', ''island'', ''isolate'', ''issue'', ''item'', ''ivory'', ''jacket'',
      ''jaguar'', ''jar'', ''jazz'', ''jealous'', ''jeans'', ''jelly'', ''jewel'', ''job'', ''join'',
      ''joke'', ''journey'', ''joy'', ''judge'', ''juice'', ''jump'', ''jungle'', ''junior'', ''junk'',
      ''just'', ''kangaroo'', ''keen'', ''keep'', ''ketchup'', ''key'', ''kick'', ''kid'', ''kidney'',
      ''kind'', ''kingdom'', ''kiss'', ''kit'', ''kitchen'', ''kite'', ''kitten'', ''kiwi'', ''knee'',
      ''knife'', ''knock'', ''know'', ''lab'', ''label'', ''labor'', ''ladder'', ''lady'', ''lake'',
      ''lamp'', ''language'', ''laptop'', ''large'', ''later'', ''latin'', ''laugh'', ''laundry'', ''lava'',
      ''law'', ''lawn'', ''lawsuit'', ''layer'', ''lazy'', ''leader'', ''leaf'', ''learn'', ''leave'',
      ''lecture'', ''left'', ''leg'', ''legal'', ''legend'', ''leisure'', ''lemon'', ''lend'']"

definition words_08 :: "string list" where
  "words_08 =
     [''length'', ''lens'', ''leopard'', ''lesson'', ''letter'', ''level'', ''liar'', ''liberty'',
      ''library'', ''license'', ''life'', ''lift'', ''light'', ''like'', ''limb'', ''limit'', ''link'',
      ''lion'', ''liquid'', ''list'', ''little'', ''live'', ''lizard'', ''load'', ''loan'', ''lobster'',
      ''local'', ''lock'', ''logic'', ''lonely'', ''long'', ''loop'', ''lottery'', ''loud'', ''lounge'',
      ''love'', ''loyal'', ''lucky'', ''luggage'', ''lumber'', ''lunar'', ''lunch'', ''luxury'', ''lyrics'',
      ''machine'', ''mad'', ''magic'', ''magnet'', ''maid'', ''mail'', ''main'', ''major'', ''make'',
      ''mammal'', ''man'', ''manage'', ''mandate'', ''mango'', ''mansion'', ''manual'', ''maple'',
      ''marble'', ''march'', ''margin'', ''marine'', ''market'', ''marriage'', ''mask'', ''mass'',
      ''master'', ''match'', ''material'', ''math'', ''matrix'', ''matter'', ''maximum'', ''maze'',
      ''meadow'', ''mean'', ''measure'', ''meat'', ''mechanic'', ''medal'', ''media'', ''melody'', ''melt'',
      ''member'', ''memory'', ''mention'', ''menu'', ''mercy'', ''merge'', ''merit'', ''merry'', ''mesh'',
      ''message'', ''metal'', ''method'', ''middle'', ''midnight'', ''milk'', ''million'', ''mimic'',
      ''mind'', ''minimum'', ''minor'', ''minute'', ''miracle'', ''mirror'', ''misery'', ''miss'',
      ''mistake'', ''mix'', ''mixed'', ''mixture'', ''mobile'', ''model'', ''modify'', ''mom'', ''moment'',
      ''monitor'', ''monkey'', ''monster'', ''month'', ''moon'', ''moral'', ''more'', ''morning'']"

definition words_09 :: "string list" where
  "words_09 =
     [''mosquito'', ''mother'', ''motion'', ''motor'', ''mountain'', ''mouse'', ''move'', ''movie'',
      ''much'', ''muffin'', ''mule'', ''multiply'', ''muscle'', ''museum'', ''mushroom'', ''music'',
      ''must'', ''mutual'', ''myself'', ''mystery'', ''myth'', ''naive'', ''name'', ''napkin'', ''narrow'',
      ''nasty'', ''nation'', ''nature'', ''near'', ''neck'', ''need'', ''negative'', ''neglect'',
      ''neither'', ''nephew'', ''nerve'', ''nest'', ''net'', ''network'', ''neutral'', ''never'', ''news'',
      ''next'', ''nice'', ''night'', ''noble'', ''noise'', ''nominee'', ''noodle'', ''normal'', ''north'',
      ''nose'', ''notable'', ''note'', ''nothing'', ''notice'', ''novel'', ''now'', ''nuclear'', ''number'',
      ''nurse'', ''nut'', ''oak'', ''obey'', ''object'', ''oblige'', ''obscure'', ''observe'', ''obtain'',
      ''obvious'', ''occur'', ''ocean'', ''october'', ''odor'', ''off'', ''offer'', ''office'', ''often'',
      ''oil'', ''okay'', ''old'', ''olive'', ''olympic'', ''omit'', ''once'', ''one'', ''onion'',
      ''online'', ''only'', ''open'', ''opera'', ''opinion'', ''oppose'', ''option'', ''orange'', ''orbit'',
      ''orchard'', ''order'', ''ordinary'', ''organ'', ''orient'', ''original'', ''orphan'', ''ostrich'',
      ''other'', ''outdoor'', ''outer'', ''output'', ''outside'', ''oval'', ''oven'', ''over'', ''own'',
      ''owner'', ''oxygen'', ''oyster'', ''ozone'', ''pact'', ''paddle'', ''page'', ''pair'', ''palace'',
      ''palm'', ''panda'', ''panel'', ''panic'', ''panther'', ''paper'']"

definition words_10 :: "string list" where
  "words_10 =
     [''parade'', ''parent'', ''park'', ''parrot'', ''party'', ''pass'', ''patch'', ''path'', ''patient'',
      ''patrol'', ''pattern'', ''pause'', ''pave'', ''payment'', ''peace'', ''peanut'', ''pear'',
      ''peasant'', ''pelican'', ''pen'', ''penalty'', ''pencil'', ''people'', ''pepper'', ''perfect'',
      ''permit'', ''person'', ''pet'', ''phone'', ''photo'', ''phrase'', ''physical'', ''piano'',
      ''picnic'', ''picture'', ''piece'', ''pig'', ''pigeon'', ''pill'', ''pilot'', ''pink'', ''pioneer'',
      ''pipe'', ''pistol'', ''pitch'', ''pizza'', ''place'', ''planet'', ''plastic'', ''plate'', ''play'',
      ''please'', ''pledge'', ''pluck'', ''plug'', ''plunge'', ''poem'', ''poet'', ''point'', ''polar'',
      ''pole'', ''police'', ''pond'', ''pony'', ''pool'', ''popular'', ''portion'', ''position'',
      ''possible'', ''post'', ''potato'', ''pottery'', ''poverty'', ''powder'', ''power'', ''practice'',
      ''praise'', ''predict'', ''prefer'', ''prepare'', ''present'', ''pretty'', ''prevent'', ''price'',
      ''pride'', ''primary'', ''print'', ''priority'', ''prison'', ''private'', ''prize'', ''problem'',
      ''process'', ''produce'', ''profit'', ''program'', ''project'', ''promote'', ''proof'', ''property'',
      ''prosper'', ''protect'', ''proud'', ''provide'', ''public'', ''pudding'', ''pull'', ''pulp'',
      ''pulse'', ''pumpkin'', ''punch'', ''pupil'', ''puppy'', ''purchase'', ''purity'', ''purpose'',
      ''purse'', ''push'', ''put'', ''puzzle'', ''pyramid'', ''quality'', ''quantum'', ''quarter'',
      ''question'', ''quick'', ''quit'', ''quiz'']"

definition words_11 :: "string list" where
  "words_11 =
     [''quote'', ''rabbit'', ''raccoon'', ''race'', ''rack'', ''radar'', ''radio'', ''rail'', ''rain'',
      ''raise'', ''rally'', ''ramp'', ''ranch'', ''random'', ''range'', ''rapid'', ''rare'', ''rate'',
      ''rather'', ''raven'', ''raw'', ''razor'', ''ready'', ''real'', ''reason'', ''rebel'', ''rebuild'',
      ''recall'', ''receive'', ''recipe'', ''record'', ''recycle'', ''reduce'', ''reflect'', ''reform'',
      ''refuse'', ''region'', ''regret'', ''regular'', ''reject'', ''relax'', ''release'', ''relief'',
      ''rely'', ''remain'', ''remember'', ''remind'', ''remove'', ''render'', ''renew'', ''rent'',
      ''reopen'', ''repair'', ''repeat'', ''replace'', ''report'', ''require'', ''rescue'', ''resemble'',
      ''resist'', ''resource'', ''response'', ''result'', ''retire'', ''retreat'', ''return'', ''reunion'',
      ''reveal'', ''review'', ''reward'', ''rhythm'', ''rib'', ''ribbon'', ''rice'', ''rich'', ''ride'',
      ''ridge'', ''rifle'', ''right'', ''rigid'', ''ring'', ''riot'', ''ripple'', ''risk'', ''ritual'',
      ''rival'', ''river'', ''road'', ''roast'', ''robot'', ''robust'', ''rocket'', ''romance'', ''roof'',
      ''rookie'', ''room'', ''rose'', ''rotate'', ''rough'', ''round'', ''route'', ''royal'', ''rubber'',
      ''rude'', ''rug'', ''rule'', ''run'', ''runway'', ''rural'', ''sad'', ''saddle'', ''sadness'',
      ''safe'', ''sail'', ''salad'', ''salmon'', ''salon'', ''salt'', ''salute'', ''same'', ''sample'',
      ''sand'', ''satisfy'', ''satoshi'', ''sauce'', ''sausage'', ''save'', ''say'']"

definition words_12 :: "string list" where
  "words_12 =
     [''scale'', ''scan'', ''scare'', ''scatter'', ''scene'', ''scheme'', ''school'', ''science'',
      ''scissors'', ''scorpion'', ''scout'', ''scrap'', ''screen'', ''script'', ''scrub'', ''sea'',
      ''search'', ''season'', ''seat'', ''second'', ''secret'', ''section'', ''security'', ''seed'',
      ''seek'', ''segment'', ''select'', ''sell'', ''seminar'', ''senior'', ''sense'', ''sentence'',
      ''series'', ''service'', ''session'', ''settle'', ''setup'', ''seven'', ''shadow'', ''shaft'',
      ''shallow'', ''share'', ''shed'', ''shell'', ''sheriff'', ''shield'', ''shift'', ''shine'', ''ship'',
      ''shiver'', ''shock'', ''shoe'', ''shoot'', ''shop'', ''short'', ''shoulder'', ''shove'', ''shrimp'',
      ''shrug'', ''shuffle'', ''shy'', ''sibling'', ''sick'', ''side'', ''siege'', ''sight'', ''sign'',
      ''silent'', ''silk'', ''silly'', ''silver'', ''similar'', ''simple'', ''since'', ''sing'', ''siren'',
      ''sister'', ''situate'', ''six'', ''size'', ''skate'', ''sketch'', ''ski'', ''skill'', ''skin'',
      ''skirt'', ''skull'', ''slab'', ''slam'', ''sleep'', ''slender'', ''slice'', ''slide'', ''slight'',
      ''slim'', ''slogan'', ''slot'', ''slow'', ''slush'', ''small'', ''smart'', ''smile'', ''smoke'',
      ''smooth'', ''snack'', ''snake'', ''snap'', ''sniff'', ''snow'', ''soap'', ''soccer'', ''social'',
      ''sock'', ''soda'', ''soft'', ''solar'', ''soldier'', ''solid'', ''solution'', ''solve'', ''someone'',
      ''song'', ''soon'', ''sorry'', ''sort'', ''soul'', ''sound'', ''soup'']"

definition words_13 :: "string list" where
  "words_13 =
     [''source'', ''south'', ''space'', ''spare'', ''spatial'', ''spawn'', ''speak'', ''special'',
      ''speed'', ''spell'', ''spend'', ''sphere'', ''spice'', ''spider'', ''spike'', ''spin'', ''spirit'',
      ''split'', ''spoil'', ''sponsor'', ''spoon'', ''sport'', ''spot'', ''spray'', ''spread'', ''spring'',
      ''spy'', ''square'', ''squeeze'', ''squirrel'', ''stable'', ''stadium'', ''staff'', ''stage'',
      ''stairs'', ''stamp'', ''stand'', ''start'', ''state'', ''stay'', ''steak'', ''steel'', ''stem'',
      ''step'', ''stereo'', ''stick'', ''still'', ''sting'', ''stock'', ''stomach'', ''stone'', ''stool'',
      ''story'', ''stove'', ''strategy'', ''street'', ''strike'', ''strong'', ''struggle'', ''student'',
      ''stuff'', ''stumble'', ''style'', ''subject'', ''submit'', ''subway'', ''success'', ''such'',
      ''sudden'', ''suffer'', ''sugar'', ''suggest'', ''suit'', ''summer'', ''sun'', ''sunny'', ''sunset'',
      ''super'', ''supply'', ''supreme'', ''sure'', ''surface'', ''surge'', ''surprise'', ''surround'',
      ''survey'', ''suspect'', ''sustain'', ''swallow'', ''swamp'', ''swap'', ''swarm'', ''swear'',
      ''sweet'', ''swift'', ''swim'', ''swing'', ''switch'', ''sword'', ''symbol'', ''symptom'', ''syrup'',
      ''system'', ''table'', ''tackle'', ''tag'', ''tail'', ''talent'', ''talk'', ''tank'', ''tape'',
      ''target'', ''task'', ''taste'', ''tattoo'', ''taxi'', ''teach'', ''team'', ''tell'', ''ten'',
      ''tenant'', ''tennis'', ''tent'', ''term'', ''test'', ''text'', ''thank'', ''that'']"

definition words_14 :: "string list" where
  "words_14 =
     [''theme'', ''then'', ''theory'', ''there'', ''they'', ''thing'', ''this'', ''thought'', ''three'',
      ''thrive'', ''throw'', ''thumb'', ''thunder'', ''ticket'', ''tide'', ''tiger'', ''tilt'', ''timber'',
      ''time'', ''tiny'', ''tip'', ''tired'', ''tissue'', ''title'', ''toast'', ''tobacco'', ''today'',
      ''toddler'', ''toe'', ''together'', ''toilet'', ''token'', ''tomato'', ''tomorrow'', ''tone'',
      ''tongue'', ''tonight'', ''tool'', ''tooth'', ''top'', ''topic'', ''topple'', ''torch'', ''tornado'',
      ''tortoise'', ''toss'', ''total'', ''tourist'', ''toward'', ''tower'', ''town'', ''toy'', ''track'',
      ''trade'', ''traffic'', ''tragic'', ''train'', ''transfer'', ''trap'', ''trash'', ''travel'',
      ''tray'', ''treat'', ''tree'', ''trend'', ''trial'', ''tribe'', ''trick'', ''trigger'', ''trim'',
      ''trip'', ''trophy'', ''trouble'', ''truck'', ''true'', ''truly'', ''trumpet'', ''trust'', ''truth'',
      ''try'', ''tube'', ''tuition'', ''tumble'', ''tuna'', ''tunnel'', ''turkey'', ''turn'', ''turtle'',
      ''twelve'', ''twenty'', ''twice'', ''twin'', ''twist'', ''two'', ''type'', ''typical'', ''ugly'',
      ''umbrella'', ''unable'', ''unaware'', ''uncle'', ''uncover'', ''under'', ''undo'', ''unfair'',
      ''unfold'', ''unhappy'', ''uniform'', ''unique'', ''unit'', ''universe'', ''unknown'', ''unlock'',
      ''until'', ''unusual'', ''unveil'', ''update'', ''upgrade'', ''uphold'', ''upon'', ''upper'',
      ''upset'', ''urban'', ''urge'', ''usage'', ''use'', ''used'', ''useful'']"

definition words_15 :: "string list" where
  "words_15 =
     [''useless'', ''usual'', ''utility'', ''vacant'', ''vacuum'', ''vague'', ''valid'', ''valley'',
      ''valve'', ''van'', ''vanish'', ''vapor'', ''various'', ''vast'', ''vault'', ''vehicle'', ''velvet'',
      ''vendor'', ''venture'', ''venue'', ''verb'', ''verify'', ''version'', ''very'', ''vessel'',
      ''veteran'', ''viable'', ''vibrant'', ''vicious'', ''victory'', ''video'', ''view'', ''village'',
      ''vintage'', ''violin'', ''virtual'', ''virus'', ''visa'', ''visit'', ''visual'', ''vital'',
      ''vivid'', ''vocal'', ''voice'', ''void'', ''volcano'', ''volume'', ''vote'', ''voyage'', ''wage'',
      ''wagon'', ''wait'', ''walk'', ''wall'', ''walnut'', ''want'', ''warfare'', ''warm'', ''warrior'',
      ''wash'', ''wasp'', ''waste'', ''water'', ''wave'', ''way'', ''wealth'', ''weapon'', ''wear'',
      ''weasel'', ''weather'', ''web'', ''wedding'', ''weekend'', ''weird'', ''welcome'', ''west'', ''wet'',
      ''whale'', ''what'', ''wheat'', ''wheel'', ''when'', ''where'', ''whip'', ''whisper'', ''wide'',
      ''width'', ''wife'', ''wild'', ''will'', ''win'', ''window'', ''wine'', ''wing'', ''wink'',
      ''winner'', ''winter'', ''wire'', ''wisdom'', ''wise'', ''wish'', ''witness'', ''wolf'', ''woman'',
      ''wonder'', ''wood'', ''wool'', ''word'', ''work'', ''world'', ''worry'', ''worth'', ''wrap'',
      ''wreck'', ''wrestle'', ''wrist'', ''write'', ''wrong'', ''yard'', ''year'', ''yellow'', ''you'',
      ''young'', ''youth'', ''zebra'', ''zero'', ''zone'', ''zoo'']"

definition WORDLIST :: "bytes list" where
  "WORDLIST = map (map of_char)
     (concat [words_00, words_01, words_02, words_03, words_04, words_05, words_06, words_07, words_08, words_09, words_10, words_11, words_12, words_13, words_14, words_15])"

section \<open>Lookups\<close>

datatype bip39_error = InvalidEntropyLength | InvalidMnemonicChecksum | InvalidWordCount | WordNotFound

text \<open>\<open>while low <= high \{ .. \}\<close> of \<open>word_to_index\<close>\<close>

function word_search :: "bytes \<Rightarrow> nat \<Rightarrow> nat \<Rightarrow> bip39_error + u16" where
  "word_search word low high =
     (if low \<le> high
      then (let mid = low + (high - low) div 2
            in case str_cmp word (WORDLIST ! mid) of
                 Equal \<Rightarrow> Inr (of_nat mid)
               | Less \<Rightarrow> if mid = 0 then Inl WordNotFound else word_search word low (mid - 1)
               | Greater \<Rightarrow> word_search word (mid + 1) high)
      else Inl WordNotFound)"
  by pat_completeness auto
termination by (relation "measure (\<lambda>(_, low, high). high + 1 - low)") auto

definition word_to_index :: "bytes \<Rightarrow> bip39_error + u16" where
  "word_to_index word = word_search word 0 2047"

definition index_to_word :: "u16 \<Rightarrow> bytes" where
  "index_to_word index = (if unat index < length WORDLIST then WORDLIST ! unat index else map of_char ''???'')"

section \<open>The order\<close>

fun lex_less :: "bytes \<Rightarrow> bytes \<Rightarrow> bool" where
  "lex_less [] ys \<longleftrightarrow> ys \<noteq> []"
| "lex_less (x # xs) [] \<longleftrightarrow> False"
| "lex_less (x # xs) (y # ys) \<longleftrightarrow> x < y \<or> x = y \<and> lex_less xs ys"

lemma lex_less_irrefl [simp]: "\<not> lex_less xs xs"
  by (induction xs) auto

lemma lex_less_trans: "lex_less xs ys \<Longrightarrow> lex_less ys zs \<Longrightarrow> lex_less xs zs"
proof (induction xs ys arbitrary: zs rule: lex_less.induct)
  case (1 ys)
  then show ?case by (cases ys; cases zs) auto
next
  case (3 x xs y ys)
  then show ?case by (cases zs) auto
qed simp

lemma lex_less_total: "lex_less xs ys \<or> xs = ys \<or> lex_less ys xs"
proof (induction xs ys rule: lex_less.induct)
  case (1 ys)
  then show ?case by (cases ys) auto
qed auto

lemma cmp_bytes_Cons: "cmp_bytes (map Suc is) (x # a) (y # b) = cmp_bytes is a b"
  by (induction "is") (auto split: ordering.split)

lemma str_cmp_Cons: "str_cmp (x # a) (y # b) = (case cmp x y of Equal \<Rightarrow> str_cmp a b | other \<Rightarrow> other)"
proof -
  have "[0..<Suc n] = 0 # map Suc [0..<n]" for n by (simp add: map_Suc_upt upt_conv_Cons del: upt_Suc)
  moreover have "(if Suc m < Suc n then Suc m else Suc n) = Suc (if m < n then m else n)" for m n by simp
  moreover have "cmp (Suc m) (Suc n) = cmp m n" for m n by (simp add: cmp_def)
  ultimately show ?thesis
    by (simp add: str_cmp_def Let_def cmp_bytes_Cons del: upt_Suc split: ordering.split option.split)
qed

lemma str_cmp_lex: "str_cmp a b = (if lex_less a b then Less else if a = b then Equal else Greater)"
proof (induction a b rule: lex_less.induct)
  case (1 ys)
  then show ?case by (auto simp: str_cmp_def cmp_def)
next
  case (2 x xs)
  then show ?case by (simp add: str_cmp_def cmp_def)
next
  case (3 x xs y ys)
  then show ?case by (auto simp: str_cmp_Cons cmp_def)
qed

text \<open>\<open>climbs a ws b\<close>: from \<open>a\<close> every word is larger than the one before it, the last one is \<open>b\<close>.\<close>

fun climbs :: "bytes \<Rightarrow> bytes list \<Rightarrow> bytes \<Rightarrow> bool" where
  "climbs a [] b \<longleftrightarrow> a = b"
| "climbs a (w # ws) b \<longleftrightarrow> lex_less a w \<and> climbs w ws b"

lemma climbs_append: "climbs a vs b \<Longrightarrow> climbs b ws c \<Longrightarrow> climbs a (vs @ ws) c"
  by (induction vs arbitrary: a) auto

lemma climbs_sorted: "climbs a ws b \<Longrightarrow> sorted_wrt lex_less (a # ws)"
proof (induction ws arbitrary: a)
  case (Cons w ws)
  then show ?case using lex_less_trans [of a w] by auto
qed simp

section \<open>Facts of the list, part by part\<close>

definition part_ok :: "bytes \<Rightarrow> bytes list \<Rightarrow> bytes \<Rightarrow> bool" where
  "part_ok a ws b \<longleftrightarrow> length ws = 128 \<and> climbs a ws b \<and> list_all (\<lambda>w. length w \<le> 8) ws"

lemma part_00: "part_ok (map of_char []) (map (map of_char) words_00) (map of_char ''avocado'')"
  by (simp add: part_ok_def words_00_def)

lemma part_01: "part_ok (map of_char ''avocado'') (map (map of_char) words_01) (map of_char ''cable'')"
  by (simp add: part_ok_def words_01_def)

lemma part_02: "part_ok (map of_char ''cable'') (map (map of_char) words_02) (map of_char ''copper'')"
  by (simp add: part_ok_def words_02_def)

lemma part_03: "part_ok (map of_char ''copper'') (map (map of_char) words_03) (map of_char ''divide'')"
  by (simp add: part_ok_def words_03_def)

lemma part_04: "part_ok (map of_char ''divide'') (map (map of_char) words_04) (map of_char ''exit'')"
  by (simp add: part_ok_def words_04_def)

lemma part_05: "part_ok (map of_char ''exit'') (map (map of_char) words_05) (map of_char ''garment'')"
  by (simp add: part_ok_def words_05_def)

lemma part_06: "part_ok (map of_char ''garment'') (map (map of_char) words_06) (map of_char ''husband'')"
  by (simp add: part_ok_def words_06_def)

lemma part_07: "part_ok (map of_char ''husband'') (map (map of_char) words_07) (map of_char ''lend'')"
  by (simp add: part_ok_def words_07_def)

lemma part_08: "part_ok (map of_char ''lend'') (map (map of_char) words_08) (map of_char ''morning'')"
  by (simp add: part_ok_def words_08_def)

lemma part_09: "part_ok (map of_char ''morning'') (map (map of_char) words_09) (map of_char ''paper'')"
  by (simp add: part_ok_def words_09_def)

lemma part_10: "part_ok (map of_char ''paper'') (map (map of_char) words_10) (map of_char ''quiz'')"
  by (simp add: part_ok_def words_10_def)

lemma part_11: "part_ok (map of_char ''quiz'') (map (map of_char) words_11) (map of_char ''say'')"
  by (simp add: part_ok_def words_11_def)

lemma part_12: "part_ok (map of_char ''say'') (map (map of_char) words_12) (map of_char ''soup'')"
  by (simp add: part_ok_def words_12_def)

lemma part_13: "part_ok (map of_char ''soup'') (map (map of_char) words_13) (map of_char ''that'')"
  by (simp add: part_ok_def words_13_def)

lemma part_14: "part_ok (map of_char ''that'') (map (map of_char) words_14) (map of_char ''useful'')"
  by (simp add: part_ok_def words_14_def)

lemma part_15: "part_ok (map of_char ''useful'') (map (map of_char) words_15) (map of_char ''zoo'')"
  by (simp add: part_ok_def words_15_def)

lemma part_join:
  assumes "part_ok a ws b" "climbs b vs c" "length vs = n" "list_all (\<lambda>w. length w \<le> 8) vs"
  shows "climbs a (ws @ vs) c" "length (ws @ vs) = 128 + n" "list_all (\<lambda>w. length w \<le> 8) (ws @ vs)"
  using assms climbs_append by (auto simp: part_ok_def)

lemma part_alone:
  assumes "part_ok a ws b"
  shows "climbs a ws b" "length ws = 128" "list_all (\<lambda>w. length w \<le> 8) ws"
  using assms by (simp_all add: part_ok_def)

lemma WORDLIST_parts:
  "WORDLIST = map (map of_char) words_00 @ map (map of_char) words_01 @ map (map of_char) words_02 @ map (map of_char) words_03
     @ map (map of_char) words_04 @ map (map of_char) words_05 @ map (map of_char) words_06 @ map (map of_char) words_07
     @ map (map of_char) words_08 @ map (map of_char) words_09 @ map (map of_char) words_10 @ map (map of_char) words_11
     @ map (map of_char) words_12 @ map (map of_char) words_13 @ map (map of_char) words_14 @ map (map of_char) words_15"
  by (simp add: WORDLIST_def)

lemma WORDLIST_whole:
  "climbs [] WORDLIST (map of_char ''zoo'')" "length WORDLIST = 2048" "list_all (\<lambda>w. length w \<le> 8) WORDLIST"
proof -
  note p = part_alone [OF part_15]
  note p = part_join [OF part_14 p]
  note p = part_join [OF part_13 p]
  note p = part_join [OF part_12 p]
  note p = part_join [OF part_11 p]
  note p = part_join [OF part_10 p]
  note p = part_join [OF part_09 p]
  note p = part_join [OF part_08 p]
  note p = part_join [OF part_07 p]
  note p = part_join [OF part_06 p]
  note p = part_join [OF part_05 p]
  note p = part_join [OF part_04 p]
  note p = part_join [OF part_03 p]
  note p = part_join [OF part_02 p]
  note p = part_join [OF part_01 p]
  note p = part_join [OF part_00 p]
  show "climbs [] WORDLIST (map of_char ''zoo'')" using p(1) unfolding WORDLIST_parts by simp
  show "length WORDLIST = 2048" using p(2) unfolding WORDLIST_parts by simp
  show "list_all (\<lambda>w. length w \<le> 8) WORDLIST" using p(3) unfolding WORDLIST_parts by simp
qed

lemmas length_WORDLIST [simp] = WORDLIST_whole(2)

lemma WORDLIST_sorted: "i < j \<Longrightarrow> j < 2048 \<Longrightarrow> lex_less (WORDLIST ! i) (WORDLIST ! j)"
proof -
  have "sorted_wrt lex_less WORDLIST" using climbs_sorted [OF WORDLIST_whole(1)] by simp
  then show "i < j \<Longrightarrow> j < 2048 \<Longrightarrow> lex_less (WORDLIST ! i) (WORDLIST ! j)" by (simp add: sorted_wrt_iff_nth_less)
qed

lemma WORDLIST_short: "i < 2048 \<Longrightarrow> length (WORDLIST ! i) \<le> 8"
  using WORDLIST_whole(3) by (simp add: list_all_length)

lemma WORDLIST_inj: "i < 2048 \<Longrightarrow> j < 2048 \<Longrightarrow> WORDLIST ! i = WORDLIST ! j \<Longrightarrow> i = j"
  using WORDLIST_sorted [of i j] WORDLIST_sorted [of j i] by (cases i j rule: linorder_cases) auto

section \<open>The search\<close>

declare word_search.simps [simp del]

lemma word_search_spec:
  assumes "high < 2048" "\<And>i. i < low \<Longrightarrow> lex_less (WORDLIST ! i) word"
    and "\<And>i. high < i \<Longrightarrow> i < 2048 \<Longrightarrow> lex_less word (WORDLIST ! i)" "low \<le> 2048"
  shows "(\<exists>i < 2048. word_search word low high = Inr (of_nat i) \<and> WORDLIST ! i = word) \<or>
     word_search word low high = Inl WordNotFound \<and> word \<notin> set WORDLIST"
  using assms
proof (induction word low high rule: word_search.induct)
  case (1 word low high)
  define mid where "mid = low + (high - low) div 2"
  note step = word_search.simps [of word low high, folded mid_def]
  show ?case
  proof (cases "low \<le> high")
    case False
    have "lex_less (WORDLIST ! i) word \<or> lex_less word (WORDLIST ! i)" if "i < 2048" for i
      using 1(4) [of i] 1(5) [of i] False that by (cases "i < low") auto
    then have "word \<notin> set WORDLIST" by (metis in_set_conv_nth length_WORDLIST lex_less_irrefl)
    then show ?thesis using step False by simp
  next
    case True
    then have mid: "low \<le> mid" "mid \<le> high" "mid < 2048" unfolding mid_def using 1(3) by auto
    have below: "lex_less (WORDLIST ! i) word" if "lex_less (WORDLIST ! mid) word" "i \<le> mid" for i
      using that mid(3) WORDLIST_sorted [of i mid] lex_less_trans by (cases "i = mid") auto
    have above: "lex_less word (WORDLIST ! i)" if "lex_less word (WORDLIST ! mid)" "mid \<le> i" "i < 2048" for i
      using that WORDLIST_sorted [of mid i] lex_less_trans by (cases "i = mid") auto
    consider (less) "lex_less word (WORDLIST ! mid)" | (eq) "word = WORDLIST ! mid" | (greater) "lex_less (WORDLIST ! mid) word"
      using lex_less_total by blast
    then show ?thesis
    proof cases
      case less
      show ?thesis
      proof (cases "mid = 0")
        case True
        have "word \<notin> set WORDLIST" using above [OF less] True by (fastforce simp: in_set_conv_nth)
        then show ?thesis using step \<open>low \<le> high\<close> less True by (simp add: str_cmp_lex Let_def)
      next
        case False
        have "(\<exists>i < 2048. word_search word low (mid - 1) = Inr (of_nat i) \<and> WORDLIST ! i = word) \<or>
            word_search word low (mid - 1) = Inl WordNotFound \<and> word \<notin> set WORDLIST"
          using less False mid 1(4,6) above [OF less]
          by (intro 1(1) [OF \<open>low \<le> high\<close>]) (auto simp: str_cmp_lex mid_def [symmetric])
        then show ?thesis using step \<open>low \<le> high\<close> less False by (simp add: str_cmp_lex Let_def)
      qed
    next
      case eq
      then show ?thesis using step True mid(3) by (auto simp: str_cmp_lex Let_def)
    next
      case greater
      then have ng: "\<not> lex_less word (WORDLIST ! mid)" "word \<noteq> WORDLIST ! mid"
        using lex_less_trans lex_less_irrefl by blast+
      have "(\<exists>i < 2048. word_search word (mid + 1) high = Inr (of_nat i) \<and> WORDLIST ! i = word) \<or>
            word_search word (mid + 1) high = Inl WordNotFound \<and> word \<notin> set WORDLIST"
        using greater ng mid 1(3,5) below [OF greater]
        by (intro 1(2) [OF \<open>low \<le> high\<close>]) (auto simp: str_cmp_lex mid_def [symmetric])
      then show ?thesis using step True ng by (simp add: str_cmp_lex Let_def)
    qed
  qed
qed

text \<open>The lookup of a word is the inverse of the lookup of an index: it returns exactly the index
below 2048 whose word it is, and reports an error exactly for strings that are not in the list.\<close>

theorem word_lookup_spec:
  "(word_to_index word = Inr i \<longleftrightarrow> unat i < 2048 \<and> index_to_word i = word) \<and>
   (word_to_index word = Inl e \<longleftrightarrow> e = WordNotFound \<and> word \<notin> set WORDLIST)"
proof -
  have small: "unat (of_nat j :: u16) = j" if "j < 2048" for j using that by (simp add: unat_of_nat)
  consider (found) j where "j < 2048" "word_to_index word = Inr (of_nat j)" "WORDLIST ! j = word"
    | (not) "word_to_index word = Inl WordNotFound" "word \<notin> set WORDLIST"
    using word_search_spec [of 2047 0 word] unfolding word_to_index_def by auto
  then show ?thesis
  proof cases
    case found
    then have "word \<in> set WORDLIST" using nth_mem by fastforce
    moreover have "i = of_nat j \<longleftrightarrow> unat i < 2048 \<and> index_to_word i = word"
      using found small WORDLIST_inj [of "unat i" j] by (auto simp: index_to_word_def)
    ultimately show ?thesis using found by auto
  next
    case not
    then have "\<not> (unat i < 2048 \<and> index_to_word i = word)"
      using nth_mem [of "unat i" WORDLIST] by (auto simp: index_to_word_def)
    then show ?thesis using not by auto
  qed
qed

end
