(* ===== verification/KasMnemonic.thy ===== *)
theory KasMnemonic
  imports KasWordlist KasBits KasBip32
begin

text \<open>
  Mnemonics (core/src/wallet/bip39.rs) and child mnemonics (core/src/wallet/bip85.rs): entropy to word
  indices and back with the SHA-256 checksum, the sentence of a mnemonic, PBKDF2-HMAC-SHA512 as it is
  written (both pads hashed once and resumed from the midstate) and the derivation of child entropy.
  \<open>sha256\<close> and \<open>sha512\<close> are the digests of the sha2 crate as functions of all bytes fed in; a
  hasher that was given some bytes and cloned is represented by those bytes. A mnemonic is its list of
  word indices.
\<close>

section \<open>Bits and indices\<close>

definition sha256_first_byte :: "(bytes \<Rightarrow> bytes) \<Rightarrow> bytes \<Rightarrow> u8" where
  "sha256_first_byte sha256 msg = sha256 msg ! 0"

definition extract_bits :: "bytes \<Rightarrow> nat \<Rightarrow> nat \<Rightarrow> u16" where
  "extract_bits src bit_offset num_bits =
     fold (\<lambda>i value.
       let byte_idx = (bit_offset + i) div 8;
           bit_idx = 7 - (bit_offset + i) mod 8;
           b = drop_bit bit_idx (src ! byte_idx) AND 1
       in push_bit 1 value OR ucast b) [0..<num_bits] 0"

definition write_bits :: "bytes \<Rightarrow> nat \<Rightarrow> u16 \<Rightarrow> nat \<Rightarrow> bytes" where
  "write_bits dst bit_offset value num_bits =
     fold (\<lambda>i dst.
       let b = drop_bit (num_bits - 1 - i) value AND 1;
           byte_idx = (bit_offset + i) div 8;
           bit_idx = 7 - (bit_offset + i) mod 8
       in if b = 1 then dst[byte_idx := dst ! byte_idx OR push_bit bit_idx 1] else dst) [0..<num_bits] dst"

definition entropy_to_indices_12 :: "bytes \<Rightarrow> u8 \<Rightarrow> u16 list" where
  "entropy_to_indices_12 entropy checksum_byte =
     (let combined = (blit entropy 0 (replicate 17 0))[16 := checksum_byte AND 0xF0]
      in map (\<lambda>i. extract_bits combined (i * 11) 11) [0..<12])"

definition entropy_to_indices_24 :: "bytes \<Rightarrow> u8 \<Rightarrow> u16 list" where
  "entropy_to_indices_24 entropy checksum_byte =
     (let combined = (blit entropy 0 (replicate 33 0))[32 := checksum_byte]
      in map (\<lambda>i. extract_bits combined (i * 11) 11) [0..<24])"

definition write_indices :: "u16 list \<Rightarrow> bytes \<Rightarrow> bytes" where
  "write_indices indices dst =
     fst (fold (\<lambda>idx (dst, bit_pos). (write_bits dst bit_pos idx 11, bit_pos + 11)) indices (dst, 0))"

definition indices_to_entropy_12 :: "u16 list \<Rightarrow> bytes \<times> u8" where
  "indices_to_entropy_12 indices =
     (let dst = write_indices indices (replicate 17 0) in (take 16 dst, drop_bit 4 (dst ! 16)))"

definition indices_to_entropy_24 :: "u16 list \<Rightarrow> bytes \<times> u8" where
  "indices_to_entropy_24 indices =
     (let dst = write_indices indices (replicate 33 0) in (take 32 dst, dst ! 32))"

definition mnemonic_from_entropy_12 :: "(bytes \<Rightarrow> bytes) \<Rightarrow> bytes \<Rightarrow> u16 list" where
  "mnemonic_from_entropy_12 sha256 entropy = entropy_to_indices_12 entropy (sha256_first_byte sha256 entropy)"

definition mnemonic_from_entropy_24 :: "(bytes \<Rightarrow> bytes) \<Rightarrow> bytes \<Rightarrow> u16 list" where
  "mnemonic_from_entropy_24 sha256 entropy = entropy_to_indices_24 entropy (sha256_first_byte sha256 entropy)"

definition validate_mnemonic_12 :: "(bytes \<Rightarrow> bytes) \<Rightarrow> u16 list \<Rightarrow> bip39_error + unit" where
  "validate_mnemonic_12 sha256 indices =
     (let (entropy, checksum_bits) = indices_to_entropy_12 indices;
          expected_checksum = drop_bit 4 (sha256_first_byte sha256 entropy)
      in if checksum_bits \<noteq> expected_checksum then Inl InvalidMnemonicChecksum else Inr ())"

definition validate_mnemonic_24 :: "(bytes \<Rightarrow> bytes) \<Rightarrow> u16 list \<Rightarrow> bip39_error + unit" where
  "validate_mnemonic_24 sha256 indices =
     (let (entropy, checksum_byte) = indices_to_entropy_24 indices
      in if checksum_byte \<noteq> sha256_first_byte sha256 entropy then Inl InvalidMnemonicChecksum else Inr ())"

section \<open>The sentence and the seed\<close>

text \<open>\<open>buf[pos..pos + src.len()].copy_from_slice(src); pos += src.len()\<close>; None is a panic.\<close>

definition put_slice :: "bytes \<Rightarrow> bytes \<times> nat \<Rightarrow> (bytes \<times> nat) option" where
  "put_slice src = (\<lambda>(buf, pos). if pos + length src \<le> length buf then Some (blit src pos buf, pos + length src) else None)"

fun serialize_words :: "nat \<Rightarrow> u16 list \<Rightarrow> bytes \<times> nat \<Rightarrow> (bytes \<times> nat) option" where
  "serialize_words i [] out = Some out"
| "serialize_words i (idx # indices) out =
     Option.bind (if i > 0 then put_slice [of_char CHR '' ''] out else Some out)
       (\<lambda>out. if length WORDLIST \<le> unat idx then None
              else Option.bind (put_slice (WORDLIST ! unat idx) out) (serialize_words (i + 1) indices))"

definition serialize_mnemonic_12 :: "u16 list \<Rightarrow> bytes \<Rightarrow> (bytes \<times> nat) option" where
  "serialize_mnemonic_12 indices buf = serialize_words 0 indices (buf, 0)"

definition serialize_mnemonic_24 :: "u16 list \<Rightarrow> bytes \<Rightarrow> (bytes \<times> nat) option" where
  "serialize_mnemonic_24 indices buf = serialize_words 0 indices (buf, 0)"

definition SALT_PREFIX :: bytes where "SALT_PREFIX = map of_char ''mnemonic''"

definition build_salt :: "bytes \<Rightarrow> bytes \<Rightarrow> (bytes \<times> nat) option" where
  "build_salt passphrase buf =
     (if length passphrase \<le> length buf - length SALT_PREFIX
      then Some (blit passphrase 8 (blit SALT_PREFIX 0 buf), 8 + length passphrase) else None)"

definition hmac_from_mid :: "(bytes \<Rightarrow> bytes) \<Rightarrow> bytes \<Rightarrow> bytes \<Rightarrow> bytes \<Rightarrow> bytes" where
  "hmac_from_mid sha512 inner_base outer_base msg = sha512 (outer_base @ sha512 (inner_base @ msg))"

definition pbkdf2_hmac_sha512_into :: "(bytes \<Rightarrow> bytes) \<Rightarrow> bytes \<Rightarrow> bytes \<Rightarrow> nat \<Rightarrow> bytes option" where
  "pbkdf2_hmac_sha512_into sha512 password salt iterations =
     (let k_prime = (if length password > 128 then blit (sha512 password) 0 (replicate 128 0)
                     else blit password 0 (replicate 128 0));
          ipad_key = map (\<lambda>b. b XOR 0x36) k_prime;
          opad_key = map (\<lambda>b. b XOR 0x5C) k_prime
      in if 260 < length salt + 4 then None
         else (let salt_with_index = blit (to_be 4 (1 :: u32)) (length salt) (blit salt 0 (replicate 260 0));
                   u_prev = hmac_from_mid sha512 ipad_key opad_key (take (length salt + 4) salt_with_index);
                   (u_prev, out) = fold (\<lambda>_ (u_prev, out).
                      let u_next = hmac_from_mid sha512 ipad_key opad_key u_prev
                      in (u_next, map (\<lambda>j. out ! j XOR u_next ! j) [0..<64])) [1..<iterations] (u_prev, u_prev)
               in Some out))"

definition seed_from_words :: "(bytes \<Rightarrow> bytes) \<Rightarrow> (bytes \<times> nat) option \<Rightarrow> bytes \<Rightarrow> bytes option" where
  "seed_from_words sha512 phrase passphrase =
     Option.bind phrase (\<lambda>(phrase_buf, phrase_len).
       Option.bind (build_salt passphrase (replicate 256 0)) (\<lambda>(salt_buf, salt_len).
         pbkdf2_hmac_sha512_into sha512 (take phrase_len phrase_buf) (take salt_len salt_buf) 2048))"

definition seed_from_mnemonic_12 :: "(bytes \<Rightarrow> bytes) \<Rightarrow> u16 list \<Rightarrow> bytes \<Rightarrow> bytes option" where
  "seed_from_mnemonic_12 sha512 indices passphrase =
     seed_from_words sha512 (serialize_mnemonic_12 indices (replicate 256 0)) passphrase"

definition seed_from_mnemonic_24 :: "(bytes \<Rightarrow> bytes) \<Rightarrow> u16 list \<Rightarrow> bytes \<Rightarrow> bytes option" where
  "seed_from_mnemonic_24 sha512 indices passphrase =
     seed_from_words sha512 (serialize_mnemonic_24 indices (replicate 512 0)) passphrase"

section \<open>Child mnemonics\<close>

datatype bip85_error = DerivationFailed | InvalidChildWordCount

definition BIP85_PURPOSE :: u32 where "BIP85_PURPOSE = 83696968"
definition BIP85_APP_BIP39 :: u32 where "BIP85_APP_BIP39 = 39"
definition BIP85_LANG_ENGLISH :: u32 where "BIP85_LANG_ENGLISH = 0"
definition BIP85_HMAC_KEY :: bytes where "BIP85_HMAC_KEY = map of_char ''bip-entropy-from-k''"

definition derive_bip85_entropy :: "'pt crypto \<Rightarrow> bytes \<Rightarrow> u32 \<Rightarrow> u32 \<Rightarrow> bip85_error + bytes" where
  "derive_bip85_entropy cr seed words index =
     (let path = [BIP85_PURPOSE OR HARDENED_BIT, BIP85_APP_BIP39 OR HARDENED_BIT, BIP85_LANG_ENGLISH OR HARDENED_BIT,
                  words OR HARDENED_BIT, index OR HARDENED_BIT]
      in case derive_path cr seed path of
           Inl _ \<Rightarrow> Inl DerivationFailed
         | Inr derived \<Rightarrow> Inr (hmac_sha512 (cr_sha512 cr) BIP85_HMAC_KEY (xk_key derived)))"

definition derive_mnemonic_12 :: "'pt crypto \<Rightarrow> (bytes \<Rightarrow> bytes) \<Rightarrow> bytes \<Rightarrow> u32 \<Rightarrow> bip85_error + u16 list" where
  "derive_mnemonic_12 cr sha256 seed index =
     tryR (derive_bip85_entropy cr seed 12 index)
       (\<lambda>entropy. Inr (mnemonic_from_entropy_12 sha256 (take 16 entropy)))"

definition derive_mnemonic_24 :: "'pt crypto \<Rightarrow> (bytes \<Rightarrow> bytes) \<Rightarrow> bytes \<Rightarrow> u32 \<Rightarrow> bip85_error + u16 list" where
  "derive_mnemonic_24 cr sha256 seed index =
     tryR (derive_bip85_entropy cr seed 24 index)
       (\<lambda>entropy. Inr (mnemonic_from_entropy_24 sha256 (take 32 entropy)))"

section \<open>Bit positions\<close>

lemma flat_nth: "p < 8 * length bs \<Longrightarrow> flat 8 bs ! p = bit (bs ! (p div 8)) (7 - p mod 8)" for bs :: bytes
proof (induction bs arbitrary: p)
  case (Cons b bs)
  show ?case
  proof (cases "p < 8")
    case True
    then show ?thesis by (simp add: nth_append bits_of_def rev_nth)
  next
    case False
    then have "p div 8 = Suc ((p - 8) div 8)" "p mod 8 = (p - 8) mod 8" by (simp_all add: le_div_geq le_mod_geq)
    then show ?thesis using False Cons by (simp add: nth_append)
  qed
qed simp

lemma extract_bits_flat:
  assumes "off + n \<le> 8 * length bs" "n \<le> 16"
  shows "bits_of n (extract_bits bs off n) = slice off n (flat 8 bs) \<and> unat (extract_bits bs off n) < 2 ^ n"
  using assms
proof (induction n)
  case 0
  then show ?case by (simp add: extract_bits_def slice_def)
next
  case (Suc n)
  let ?b = "drop_bit (7 - (off + n) mod 8) (bs ! ((off + n) div 8)) AND 1 :: u8"
  have b: "bits_of 1 ?b = [flat 8 bs ! (off + n)]"
    using Suc.prems by (simp add: flat_nth bits_of_def bit_simps)
  have small: "unat ?b < 2 ^ 1" by (rule unat_lessI) (simp add: bit_simps)
  have step: "extract_bits bs off (Suc n) = push_bit 1 (extract_bits bs off n) OR ucast ?b"
    by (simp add: extract_bits_def Let_def)
  have "bits_of (n + 1) (extract_bits bs off (Suc n)) = bits_of n (extract_bits bs off n) @ bits_of 1 ?b"
    unfolding step by (rule bits_of_enter) (use Suc.prems small in simp_all)
  moreover have "slice off (Suc n) (flat 8 bs) = slice off n (flat 8 bs) @ [flat 8 bs ! (off + n)]"
    using Suc.prems by (simp add: slice_def take_Suc_conv_app_nth)
  moreover have "unat (extract_bits bs off (Suc n)) < 2 ^ Suc n"
    unfolding step
  proof (rule unat_lessI)
    fix i assume "bit (push_bit 1 (extract_bits bs off n) OR ucast ?b) i"
    then have "1 \<le> i \<and> bit (extract_bits bs off n) (i - 1) \<or> bit ?b i"
      by (auto simp only: bit_or_iff bit_push_bit_iff bit_unsigned_iff)
    moreover have "unat (extract_bits bs off n) < 2 ^ n" using Suc by simp
    from bit_small [OF this, of "i - 1"] bit_small [OF small, of i] calculation
    show "i < Suc n" by auto
  qed
  ultimately show ?case using Suc b by simp
qed

lemma write_bits_flat:
  assumes "off + n \<le> 8 * length bs"
  shows "length (write_bits bs off v n) = length bs \<and> (\<forall>p < 8 * length bs. flat 8 (write_bits bs off v n) ! p =
     (flat 8 bs ! p \<or> (off \<le> p \<and> p < off + n \<and> bit v (n - 1 - (p - off)))))"
proof -
  define st where "st k = fold (\<lambda>i dst. let b = drop_bit (n - 1 - i) v AND 1; byte_idx = (off + i) div 8; bit_idx = 7 - (off + i) mod 8
       in if b = 1 then dst[byte_idx := dst ! byte_idx OR push_bit bit_idx 1] else dst) [0..<k] bs" for k
  have "length (st k) = length bs \<and> (\<forall>p < 8 * length bs. flat 8 (st k) ! p =
     (flat 8 bs ! p \<or> (off \<le> p \<and> p < off + k \<and> bit v (n - 1 - (p - off)))))" if "k \<le> n" for k
    using that
  proof (induction k)
    case 0
    then show ?case by (auto simp: st_def)
  next
    case (Suc k)
    let ?byte = "(off + k) div 8" and ?bit = "7 - (off + k) mod 8"
    have step: "st (Suc k) = (if bit v (n - 1 - k) then (st k)[?byte := st k ! ?byte OR push_bit ?bit 1] else st k)"
      by (simp add: st_def Let_def and_one_eq odd_iff_mod_2_eq_one bit_iff_odd_drop_bit)
    have len: "length (st k) = length bs" using Suc by simp
    have byte: "?byte < length bs" using Suc.prems assms by linarith
    have "flat 8 ((st k)[?byte := st k ! ?byte OR push_bit ?bit 1]) ! p = (flat 8 (st k) ! p \<or> p = off + k)"
      if p: "p < 8 * length bs" for p
    proof (cases "p div 8 = ?byte")
      case True
      have "bit (push_bit ?bit (1 :: u8)) (7 - p mod 8) \<longleftrightarrow> p mod 8 = (off + k) mod 8"
        by (auto simp: bit_simps)
      also have "\<dots> \<longleftrightarrow> p = off + k" using True by (metis div_mult_mod_eq)
      finally show ?thesis using p len byte True by (simp add: flat_nth bit_or_iff)
    next
      case False
      then have "p \<noteq> off + k" by auto
      then show ?thesis using p len False by (simp add: flat_nth)
    qed
    then show ?case using Suc step len by (auto simp: less_Suc_eq)
  qed
  from this [of n] show ?thesis by (simp add: st_def write_bits_def)
qed

lemma flat_zeros: "flat k (replicate n (0 :: 'a::len word)) = replicate (k * n) False"
  by (induction n) (simp_all add: bits_of_zero replicate_add [symmetric])

lemma write_indices_flat:
  assumes "11 * length indices \<le> 8 * N"
  shows "flat 8 (write_indices indices (replicate N 0)) = flat 11 indices @ replicate (8 * N - 11 * length indices) False"
    and "length (write_indices indices (replicate N 0)) = N"
proof -
  define st where "st idxs = fold (\<lambda>idx (dst, pos). (write_bits dst pos idx 11, pos + 11)) idxs (replicate N (0 :: u8), 0)" for idxs
  have "snd (st idxs) = 11 * length idxs \<and> length (fst (st idxs)) = N \<and>
      flat 8 (fst (st idxs)) = flat 11 idxs @ replicate (8 * N - 11 * length idxs) False"
    if "11 * length idxs \<le> 8 * N" for idxs
    using that
  proof (induction idxs rule: rev_induct)
    case Nil
    then show ?case by (simp add: st_def flat_zeros)
  next
    case (snoc v idxs)
    obtain dst pos where d: "st idxs = (dst, pos)" by fastforce
    with snoc have inv: "pos = 11 * length idxs" "length dst = N" "flat 8 dst = flat 11 idxs @ replicate (8 * N - 11 * length idxs) False"
      by auto
    have step: "st (idxs @ [v]) = (write_bits dst pos v 11, pos + 11)" using d by (simp add: st_def)
    have room: "pos + 11 \<le> 8 * length dst" using snoc.prems inv by simp
    note w = write_bits_flat [OF room, of v]
    have "flat 8 (write_bits dst pos v 11) = flat 11 (idxs @ [v]) @ replicate (8 * N - 11 * length (idxs @ [v])) False"
    proof (rule nth_equalityI)
      show "length (flat 8 (write_bits dst pos v 11)) = length (flat 11 (idxs @ [v]) @ replicate (8 * N - 11 * length (idxs @ [v])) False)"
        using w inv snoc.prems by simp
      fix p assume "p < length (flat 8 (write_bits dst pos v 11))"
      then have "p < 8 * N" using w inv by simp
      then show "flat 8 (write_bits dst pos v 11) ! p = (flat 11 (idxs @ [v]) @ replicate (8 * N - 11 * length (idxs @ [v])) False) ! p"
        using w inv snoc.prems by (auto simp: nth_append bits_of_def rev_nth)
    qed
    then show ?case using w inv step by simp
  qed
  from this [OF assms] show "flat 8 (write_indices indices (replicate N 0)) = flat 11 indices @ replicate (8 * N - 11 * length indices) False"
    "length (write_indices indices (replicate N 0)) = N"
    by (simp_all add: st_def write_indices_def)
qed

lemma extract_indices_flat:
  assumes "11 * K \<le> 8 * length c"
  shows "flat 11 (map (\<lambda>i. extract_bits c (i * 11) 11) [0..<K]) = take (11 * K) (flat 8 c)"
    and "\<forall>v \<in> set (map (\<lambda>i. extract_bits c (i * 11) 11) [0..<K]). unat v < 2048"
proof -
  have ex: "bits_of 11 (extract_bits c (i * 11) 11) = slice (i * 11) 11 (flat 8 c) \<and> unat (extract_bits c (i * 11) 11) < 2048"
    if "i < K" for i
    using extract_bits_flat [of "i * 11" 11 c] that assms by simp
  have "flat 11 (map (\<lambda>i. extract_bits c (i * 11) 11) [0..<k]) = take (11 * k) (flat 8 c)" if "k \<le> K" for k
    using that by (induction k) (simp_all add: ex slice_def take_add [symmetric] mult.commute add.commute)
  from this [of K] show "flat 11 (map (\<lambda>i. extract_bits c (i * 11) 11) [0..<K]) = take (11 * K) (flat 8 c)" by simp
  show "\<forall>v \<in> set (map (\<lambda>i. extract_bits c (i * 11) 11) [0..<K]). unat v < 2048" using ex by auto
qed

section \<open>Which mnemonics are valid\<close>

lemma indices_24:
  assumes "length entropy = 32"
  shows "indices_to_entropy_24 (entropy_to_indices_24 entropy c) = (entropy, c)"
    and "length (entropy_to_indices_24 entropy c) = 24" "\<forall>v \<in> set (entropy_to_indices_24 entropy c). unat v < 2048"
proof -
  let ?comb = "(blit entropy 0 (replicate 33 0))[32 := c]"
  have comb: "?comb = entropy @ [c]" using assms by (simp add: blit_def list_update_append)
  have def24: "entropy_to_indices_24 entropy c = map (\<lambda>i. extract_bits (entropy @ [c]) (i * 11) 11) [0..<24]"
    unfolding entropy_to_indices_24_def Let_def comb ..
  note ex = extract_indices_flat [of 24 "entropy @ [c]", folded def24]
  show len: "length (entropy_to_indices_24 entropy c) = 24" by (simp add: def24)
  show "\<forall>v \<in> set (entropy_to_indices_24 entropy c). unat v < 2048" using ex(2) assms by simp
  have "write_indices (entropy_to_indices_24 entropy c) (replicate 33 0) = entropy @ [c]"
    using write_indices_flat [of "entropy_to_indices_24 entropy c" 33] ex(1) len assms unat_u8_less
    by (intro flat_inj [of 8]) auto
  then show "indices_to_entropy_24 (entropy_to_indices_24 entropy c) = (entropy, c)"
    using assms by (simp add: indices_to_entropy_24_def Let_def nth_append)
qed

lemma entropy_24:
  assumes "length idx = 24" "\<forall>v \<in> set idx. unat v < 2048"
  shows "\<exists>entropy c. length entropy = 32 \<and> indices_to_entropy_24 idx = (entropy, c) \<and> entropy_to_indices_24 entropy c = idx"
proof -
  define w where "w = write_indices idx (replicate 33 0)"
  have w: "flat 8 w = flat 11 idx" "length w = 33"
    using write_indices_flat [of idx 33] assms(1) by (simp_all add: w_def)
  have comb: "(blit (take 32 w) 0 (replicate 33 0))[32 := w ! 32] = w"
    using w(2) by (intro nth_equalityI) (auto simp: blit_def nth_append nth_list_update less_Suc_eq)
  have "entropy_to_indices_24 (take 32 w) (w ! 32) = idx"
    unfolding entropy_to_indices_24_def Let_def comb
    using extract_indices_flat [of 24 w] w assms by (intro flat_inj [of 11]) auto
  then show ?thesis using w(2) by (intro exI [of _ "take 32 w"] exI [of _ "w ! 32"]) (simp add: indices_to_entropy_24_def Let_def w_def [symmetric])
qed

lemma nibble: "drop_bit 4 (c AND 0xF0 :: u8) = drop_bit 4 c" "bits_of 4 (c AND 0xF0 :: u8) = replicate 4 False"
proof -
  have m: "(0xF0 :: u8) = push_bit 4 (mask 4)" by (simp add: mask_eq_exp_minus_1)
  show "drop_bit 4 (c AND 0xF0 :: u8) = drop_bit 4 c" unfolding m
    by (rule bit_word_eqI) (auto simp: bit_drop_bit_eq bit_and_iff bit_push_bit_iff bit_mask_iff dest: bit_imp_le_length)
  have "bits_of 4 (c AND 0xF0 :: u8) = bits_of 4 (0 :: u8)" unfolding m
    by (intro bits_of_cong) (auto simp: bit_and_iff bit_push_bit_iff)
  then show "bits_of 4 (c AND 0xF0 :: u8) = replicate 4 False" by (simp add: bits_of_zero)
qed

lemma high_nibble_eq: "drop_bit 4 (c :: u8) = drop_bit 4 d \<Longrightarrow> c AND 0xF0 = d AND 0xF0"
proof -
  assume "drop_bit 4 c = drop_bit 4 d"
  then have "bits_of (4 + 4) (c AND 0xF0) = bits_of (4 + 4) (d AND 0xF0)" by (simp only: bits_of_split nibble)
  then show "c AND 0xF0 = d AND 0xF0" using unat_u8_less by (intro bits_of_inj [of 8]) simp_all
qed

lemma nibble_tail: "bits_of 8 (c AND 0xF0 :: u8) = bits_of 4 (drop_bit 4 c) @ replicate 4 False"
  using bits_of_split [of 4 4 "c AND 0xF0 :: u8"] by (simp only: nibble) simp

lemma indices_12:
  assumes "length entropy = 16"
  shows "indices_to_entropy_12 (entropy_to_indices_12 entropy c) = (entropy, drop_bit 4 c)"
    and "length (entropy_to_indices_12 entropy c) = 12" "\<forall>v \<in> set (entropy_to_indices_12 entropy c). unat v < 2048"
proof -
  define low where "low = c AND 0xF0"
  let ?comb = "(blit entropy 0 (replicate 17 0))[16 := low]"
  have comb: "?comb = entropy @ [low]" using assms by (simp add: blit_def list_update_append)
  have def12: "entropy_to_indices_12 entropy c = map (\<lambda>i. extract_bits (entropy @ [low]) (i * 11) 11) [0..<12]"
    unfolding entropy_to_indices_12_def Let_def low_def [symmetric] comb ..
  note ex = extract_indices_flat [of 12 "entropy @ [low]", folded def12]
  show len: "length (entropy_to_indices_12 entropy c) = 12" by (simp add: def12)
  show "\<forall>v \<in> set (entropy_to_indices_12 entropy c). unat v < 2048" using ex(2) assms by simp
  have "flat 11 (entropy_to_indices_12 entropy c) @ replicate 4 False = flat 8 (entropy @ [low])"
    using ex(1) assms by (simp add: low_def nibble_tail)
  then have "write_indices (entropy_to_indices_12 entropy c) (replicate 17 0) = entropy @ [low]"
    using write_indices_flat [of "entropy_to_indices_12 entropy c" 17] len assms unat_u8_less
    by (intro flat_inj [of 8]) auto
  then show "indices_to_entropy_12 (entropy_to_indices_12 entropy c) = (entropy, drop_bit 4 c)"
    using assms by (simp add: indices_to_entropy_12_def Let_def nth_append low_def nibble(1) del: drop_bit_and)
qed

lemma entropy_12:
  assumes "length idx = 12" "\<forall>v \<in> set idx. unat v < 2048" "drop_bit 4 c = snd (indices_to_entropy_12 idx)"
  shows "\<exists>entropy. length entropy = 16 \<and> fst (indices_to_entropy_12 idx) = entropy \<and> entropy_to_indices_12 entropy c = idx"
proof -
  define w where "w = write_indices idx (replicate 17 0)"
  have w: "flat 8 w = flat 11 idx @ replicate 4 False" "length w = 17"
    using write_indices_flat [of idx 17] assms(1) by (simp_all add: w_def)
  have c: "drop_bit 4 c = drop_bit 4 (w ! 16)" using assms(3) by (simp add: indices_to_entropy_12_def Let_def w_def)
  have parts: "w = take 16 w @ [w ! 16]" using w(2) take_Suc_conv_app_nth [of 16 w] by simp
  have "flat 8 (take 16 w) @ bits_of 8 (w ! 16) = flat 11 idx @ replicate 4 False"
    using arg_cong [OF parts, of "flat 8"] w(1) by (simp only: flat_append flat_Cons flat_Nil append_Nil2)
  moreover have "bits_of 8 (w ! 16) = bits_of 4 (drop_bit 4 (w ! 16)) @ bits_of 4 (w ! 16)"
    using bits_of_split [of 4 4 "w ! 16"] by simp
  ultimately have "(flat 8 (take 16 w) @ bits_of 4 (drop_bit 4 (w ! 16))) @ bits_of 4 (w ! 16) = flat 11 idx @ replicate 4 False"
    by (simp only: append.assoc)
  then have "bits_of 4 (w ! 16) = replicate 4 False"
    by (subst (asm) append_eq_append_conv) simp_all
  then have "bits_of 8 (w ! 16) = bits_of 8 (c AND 0xF0)"
    using c \<open>bits_of 8 (w ! 16) = _\<close> by (simp add: nibble_tail)
  then have "w ! 16 = c AND 0xF0" using unat_u8_less by (intro bits_of_inj [of 8]) simp_all
  then have comb: "(blit (take 16 w) 0 (replicate 17 0))[16 := c AND 0xF0] = w"
    using w(2) by (intro nth_equalityI) (auto simp: blit_def nth_append nth_list_update less_Suc_eq)
  have "entropy_to_indices_12 (take 16 w) c = idx"
    unfolding entropy_to_indices_12_def Let_def comb
    using extract_indices_flat [of 12 w] w assms by (intro flat_inj [of 11]) auto
  then show ?thesis using w(2) by (intro exI [of _ "take 16 w"]) (simp add: indices_to_entropy_12_def Let_def w_def [symmetric])
qed

definition word_indices :: "nat \<Rightarrow> u16 list \<Rightarrow> bool" where
  "word_indices n idx \<longleftrightarrow> length idx = n \<and> list_all (\<lambda>v. unat v < 2048) idx"

lemma mnemonic_12_valid:
  assumes "length e = 16"
  shows "word_indices 12 (mnemonic_from_entropy_12 sha256 e)" "validate_mnemonic_12 sha256 (mnemonic_from_entropy_12 sha256 e) = Inr ()"
    "fst (indices_to_entropy_12 (mnemonic_from_entropy_12 sha256 e)) = e"
  using indices_12 [OF assms, of "sha256_first_byte sha256 e"]
  by (simp_all add: mnemonic_from_entropy_12_def validate_mnemonic_12_def word_indices_def list_all_iff)

lemma mnemonic_24_valid:
  assumes "length e = 32"
  shows "word_indices 24 (mnemonic_from_entropy_24 sha256 e)" "validate_mnemonic_24 sha256 (mnemonic_from_entropy_24 sha256 e) = Inr ()"
    "fst (indices_to_entropy_24 (mnemonic_from_entropy_24 sha256 e)) = e"
  using indices_24 [OF assms, of "sha256_first_byte sha256 e"]
  by (simp_all add: mnemonic_from_entropy_24_def validate_mnemonic_24_def word_indices_def list_all_iff)

text \<open>C40: a mnemonic of 12 (24) word indices passes validation exactly when it is the mnemonic of some
16 (32) bytes of entropy, and those are the bytes recovered from it.\<close>

theorem mnemonic_valid_iff:
  "(word_indices 12 idx \<and> validate_mnemonic_12 sha256 idx = Inr () \<longleftrightarrow>
      (\<exists>e. length e = 16 \<and> mnemonic_from_entropy_12 sha256 e = idx \<and> fst (indices_to_entropy_12 idx) = e)) \<and>
   (word_indices 24 idx \<and> validate_mnemonic_24 sha256 idx = Inr () \<longleftrightarrow>
      (\<exists>e. length e = 32 \<and> mnemonic_from_entropy_24 sha256 e = idx \<and> fst (indices_to_entropy_24 idx) = e))"
proof (intro conjI iffI)
  assume a: "word_indices 12 idx \<and> validate_mnemonic_12 sha256 idx = Inr ()"
  let ?e = "fst (indices_to_entropy_12 idx)"
  have "drop_bit 4 (sha256_first_byte sha256 ?e) = snd (indices_to_entropy_12 idx)"
    using a by (auto simp: validate_mnemonic_12_def case_prod_unfold Let_def split: if_splits)
  then show "\<exists>e. length e = 16 \<and> mnemonic_from_entropy_12 sha256 e = idx \<and> fst (indices_to_entropy_12 idx) = e"
    using a entropy_12 [of idx "sha256_first_byte sha256 ?e"] by (auto simp: word_indices_def list_all_iff mnemonic_from_entropy_12_def)
next
  assume a: "word_indices 24 idx \<and> validate_mnemonic_24 sha256 idx = Inr ()"
  then obtain e c where e: "length e = 32" "indices_to_entropy_24 idx = (e, c)" "entropy_to_indices_24 e c = idx"
    using entropy_24 [of idx] by (auto simp: word_indices_def list_all_iff)
  then show "\<exists>e. length e = 32 \<and> mnemonic_from_entropy_24 sha256 e = idx \<and> fst (indices_to_entropy_24 idx) = e"
    using a by (auto simp: mnemonic_from_entropy_24_def validate_mnemonic_24_def split: if_splits)
qed (metis mnemonic_12_valid mnemonic_24_valid)+

section \<open>The seed\<close>

text \<open>What BIP39 and RFC 2898 define: the words joined by spaces, and the XOR of the HMAC iterates.\<close>

fun sentence :: "bytes list \<Rightarrow> bytes" where
  "sentence [] = []"
| "sentence [w] = w"
| "sentence (w # ws) = w @ [of_char CHR '' ''] @ sentence ws"

fun pbkdf2_iterates :: "(bytes \<Rightarrow> bytes) \<Rightarrow> nat \<Rightarrow> bytes \<Rightarrow> bytes list" where
  "pbkdf2_iterates hmac 0 u = []"
| "pbkdf2_iterates hmac (Suc c) u = u # pbkdf2_iterates hmac c (hmac u)"

definition pbkdf2 :: "(bytes \<Rightarrow> bytes) \<Rightarrow> bytes \<Rightarrow> bytes \<Rightarrow> nat \<Rightarrow> bytes" where
  "pbkdf2 sha512 password salt c =
     foldr (map2 (XOR)) (pbkdf2_iterates (hmac_sha512 sha512 password) c (hmac_sha512 sha512 password (salt @ [0, 0, 0, 1])))
       (replicate 64 0)"

text \<open>What \<open>serialize_words\<close> writes after position \<open>pos\<close>.\<close>

definition word_text :: "nat \<Rightarrow> u16 list \<Rightarrow> bytes" where
  "word_text i idx = (if i = 0 \<or> idx = [] then [] else [of_char CHR '' '']) @ sentence (map (\<lambda>v. WORDLIST ! unat v) idx)"

lemma word_text_Cons: "word_text i (v # idx) = (if i = 0 then [] else [of_char CHR '' '']) @ WORDLIST ! unat v @ word_text (Suc i) idx"
  by (cases idx) (simp_all add: word_text_def)

lemma length_word_text: "list_all (\<lambda>v. unat v < 2048) idx \<Longrightarrow> length (word_text i idx) \<le> 9 * length idx"
proof (induction idx arbitrary: i)
  case Nil
  then show ?case by (simp add: word_text_def)
next
  case (Cons v idx)
  have "length (word_text (Suc i) idx) \<le> 9 * length idx" "length (WORDLIST ! unat v) \<le> 8"
    using Cons WORDLIST_short by auto
  then show ?case by (auto simp: word_text_Cons)
qed

lemma put_slice_blit:
  "pos + length src \<le> length buf \<Longrightarrow> put_slice src (buf, pos) = Some (blit src pos buf, pos + length src)"
  by (simp add: put_slice_def)

lemma serialize_words_text:
  assumes "list_all (\<lambda>v. unat v < 2048) idx" "pos + length (word_text i idx) \<le> length buf"
  shows "serialize_words i idx (buf, pos) = Some (blit (word_text i idx) pos buf, pos + length (word_text i idx))"
  using assms
proof (induction idx arbitrary: i buf pos)
  case Nil
  then show ?case by (simp add: word_text_def)
next
  case (Cons v idx)
  let ?sp = "if i = 0 then [] else [of_char CHR '' ''] :: bytes" and ?w = "WORDLIST ! unat v"
  have sp: "(if i > 0 then put_slice [of_char CHR '' ''] (buf, pos) else Some (buf, pos)) = Some (blit ?sp pos buf, pos + length ?sp)"
    using Cons.prems(2) by (auto simp: put_slice_blit word_text_Cons)
  have room: "pos + length ?sp + length ?w + length (word_text (Suc i) idx) \<le> length buf"
    using Cons.prems(2) by (simp add: word_text_Cons)
  then have len: "length (blit ?sp pos buf) = length buf" "length (blit (?sp @ ?w) pos buf) = length buf" by auto
  have w: "put_slice ?w (blit ?sp pos buf, pos + length ?sp) = Some (blit (?sp @ ?w) pos buf, pos + length ?sp + length ?w)"
    using room len by (simp add: put_slice_blit blit_append)
  have "serialize_words (Suc i) idx (blit (?sp @ ?w) pos buf, pos + length ?sp + length ?w)
     = Some (blit (word_text (Suc i) idx) (pos + length ?sp + length ?w) (blit (?sp @ ?w) pos buf), pos + length ?sp + length ?w + length (word_text (Suc i) idx))"
    using Cons.prems(1) room len by (intro Cons.IH) auto
  moreover have "blit (word_text (Suc i) idx) (pos + length ?sp + length ?w) (blit (?sp @ ?w) pos buf) = blit ((?sp @ ?w) @ word_text (Suc i) idx) pos buf"
    using room blit_append [of pos "?sp @ ?w" "word_text (Suc i) idx" buf] by (simp add: add.assoc)
  ultimately show ?case
    using sp w Cons.prems(1) by (simp add: word_text_Cons add.assoc)
qed

lemma hmac_from_mid_eq:
  "hmac_from_mid sha512
     (map (\<lambda>b. b XOR 0x36) (if length password > 128 then blit (sha512 password) 0 (replicate 128 0) else blit password 0 (replicate 128 0)))
     (map (\<lambda>b. b XOR 0x5C) (if length password > 128 then blit (sha512 password) 0 (replicate 128 0) else blit password 0 (replicate 128 0)))
   = hmac_sha512 sha512 password"
  by (simp add: fun_eq_iff hmac_from_mid_def hmac_sha512_def Let_def HMAC_BLOCK_SIZE_def)

lemma xor_lists_assoc:
  "length a = n \<Longrightarrow> length b = n \<Longrightarrow> length c = n \<Longrightarrow> map2 (XOR) (map2 (XOR) a b) c = map2 (XOR) a (map2 (XOR) b (c :: bytes))"
  by (intro nth_equalityI) (simp_all add: xor.assoc)

lemma length_xor_iterates:
  "(\<And>x. length (h x) = 64) \<Longrightarrow> length u = 64 \<Longrightarrow> length (foldr (map2 (XOR)) (pbkdf2_iterates h n u) (replicate 64 (0 :: u8))) = 64"
  by (induction n arbitrary: u) simp_all

lemma pbkdf2_loop:
  assumes h: "\<And>x. length (h x) = 64"
  shows "length out = 64 \<Longrightarrow> snd (fold (\<lambda>_ (u_prev, out). let u_next = h u_prev in (u_next, map (\<lambda>j. out ! j XOR u_next ! j) [0..<64])) xs (u, out))
     = map2 (XOR) out (foldr (map2 (XOR)) (pbkdf2_iterates h (length xs) (h u)) (replicate 64 (0 :: u8)))"
proof (induction xs arbitrary: u out)
  case Nil
  then show ?case by (intro nth_equalityI) simp_all
next
  case (Cons x xs)
  have "map (\<lambda>j. out ! j XOR h u ! j) [0..<64] = map2 (XOR) out (h u)"
    using Cons.prems h by (intro nth_equalityI) simp_all
  then show ?case
    using Cons.IH [of "map2 (XOR) out (h u)" "h u"] Cons.prems h
    by (simp add: Let_def xor_lists_assoc [of _ 64] length_xor_iterates)
qed

lemma to_be_1: "to_be 4 (1 :: u32) = [0, 0, 0, 1]"
proof -
  have "(4 :: nat) = Suc (Suc (Suc (Suc 0)))" by simp
  then show ?thesis by (simp only: to_be_def to_le_def) simp
qed

lemma pbkdf2_into_eq:
  assumes sha: "\<forall>x. length (sha512 x) = 64" and salt: "length salt \<le> 256" and it: "0 < iterations"
  shows "pbkdf2_hmac_sha512_into sha512 password salt iterations = Some (pbkdf2 sha512 password salt iterations)"
proof -
  let ?h = "hmac_sha512 sha512 password"
  have h: "length (?h x) = 64" for x using sha by (simp add: hmac_sha512_def Let_def)
  have salted: "take (length salt + 4) (blit (to_be 4 (1 :: u32)) (length salt) (blit salt 0 (replicate 260 0))) = salt @ [0, 0, 0, 1]"
    using salt by (simp add: to_be_1 blit_def min_def)
  obtain n where n: "iterations = Suc n" using it by (cases iterations) auto
  have "pbkdf2 sha512 password salt iterations = map2 (XOR) (?h (salt @ [0, 0, 0, 1]))
     (foldr (map2 (XOR)) (pbkdf2_iterates ?h n (?h (?h (salt @ [0, 0, 0, 1])))) (replicate 64 0))"
    by (simp add: pbkdf2_def n)
  also have "\<dots> = snd (fold (\<lambda>_ (u_prev, out). let u_next = ?h u_prev in (u_next, map (\<lambda>j. out ! j XOR u_next ! j) [0..<64]))
     [1..<iterations] (?h (salt @ [0, 0, 0, 1]), ?h (salt @ [0, 0, 0, 1])))"
    using pbkdf2_loop [of ?h, OF h, of "?h (salt @ [0, 0, 0, 1])" "[1..<iterations]" "?h (salt @ [0, 0, 0, 1])"] h by (simp add: n del: upt_Suc)
  finally show ?thesis
    using salt unfolding pbkdf2_hmac_sha512_into_def Let_def hmac_from_mid_eq salted by (simp add: case_prod_unfold)
qed

lemma seed_from_words_eq:
  assumes sha: "\<forall>x. length (sha512 x) = 64"
    and phrase: "phrase = Some (blit p 0 buf, length p)" "length p \<le> length buf"
  shows "seed_from_words sha512 phrase passphrase =
     (if length passphrase \<le> 248 then Some (pbkdf2 sha512 p (SALT_PREFIX @ passphrase) 2048) else None)"
proof -
  have len: "length SALT_PREFIX = 8" by (simp add: SALT_PREFIX_def)
  have "take (8 + length passphrase) (blit passphrase 8 (blit SALT_PREFIX 0 (replicate 256 0))) = SALT_PREFIX @ passphrase"
    if "length passphrase \<le> 248"
    using that len by (simp add: blit_def)
  then show ?thesis
    using phrase pbkdf2_into_eq [OF sha, of "SALT_PREFIX @ passphrase" 2048 p] len
    by (simp add: seed_from_words_def build_salt_def)
qed

text \<open>The seed of a mnemonic of valid word indices is PBKDF2-HMAC-SHA512 with 2048 rounds of its
sentence, salted with "mnemonic" and the passphrase; the buffers always hold the sentence, and a
passphrase longer than 248 bytes is a panic, never a truncation.\<close>

theorem seed_from_mnemonic_spec:
  assumes "\<forall>x. length (sha512 x) = 64"
  shows "(word_indices 12 idx \<longrightarrow> seed_from_mnemonic_12 sha512 idx passphrase =
        (if length passphrase \<le> 248 then Some (pbkdf2 sha512 (sentence (map index_to_word idx)) (SALT_PREFIX @ passphrase) 2048) else None)) \<and>
     (word_indices 24 idx \<longrightarrow> seed_from_mnemonic_24 sha512 idx passphrase =
        (if length passphrase \<le> 248 then Some (pbkdf2 sha512 (sentence (map index_to_word idx)) (SALT_PREFIX @ passphrase) 2048) else None))"
proof -
  have "serialize_words 0 idx (buf, 0) = Some (blit (sentence (map index_to_word idx)) 0 buf, length (sentence (map index_to_word idx))) \<and>
      length (sentence (map index_to_word idx)) \<le> length buf"
    if "word_indices n idx" "9 * n \<le> length buf" for n and buf :: bytes
  proof -
    have small: "list_all (\<lambda>v. unat v < 2048) idx" using that(1) by (simp add: word_indices_def)
    have "sentence (map index_to_word idx) = word_text 0 idx"
      using small by (simp add: word_text_def index_to_word_def list_all_iff cong: map_cong)
    then show ?thesis
      using serialize_words_text [OF small, of 0 0 buf] length_word_text [OF small, of 0] that by (simp add: word_indices_def)
  qed
  from this [of 12 "replicate 256 0"] this [of 24 "replicate 512 0"] show ?thesis
    by (simp add: seed_from_mnemonic_12_def seed_from_mnemonic_24_def serialize_mnemonic_12_def serialize_mnemonic_24_def
        seed_from_words_eq [OF assms refl])
qed

theorem seed_from_mnemonic_spec_witness:
  "seed_from_mnemonic_12 (\<lambda>x. replicate 64 (of_nat (length x))) (replicate 12 7) (map of_char ''TREZOR'') =
     Some (pbkdf2 (\<lambda>x. replicate 64 (of_nat (length x))) (sentence (map index_to_word (replicate 12 7)))
       (SALT_PREFIX @ map of_char ''TREZOR'') 2048)"
  using seed_from_mnemonic_spec [of "\<lambda>x. replicate 64 (of_nat (length x))" "replicate 12 7" "map of_char ''TREZOR''"]
  by (simp add: word_indices_def list_all_iff)

section \<open>Child mnemonics\<close>

definition bip85_path :: "u32 \<Rightarrow> u32 \<Rightarrow> u32 list" where
  "bip85_path words index = [83696968 OR HARDENED_BIT, 39 OR HARDENED_BIT, HARDENED_BIT, words OR HARDENED_BIT, index OR HARDENED_BIT]"

lemma derive_bip85_entropy_Inr:
  "derive_bip85_entropy cr seed words index = Inr e \<longleftrightarrow>
     (\<exists>k. derive_path cr seed (bip85_path words index) = Inr k \<and> e = hmac_sha512 (cr_sha512 cr) BIP85_HMAC_KEY (xk_key k))"
  by (auto simp: derive_bip85_entropy_def Let_def bip85_path_def BIP85_LANG_ENGLISH_def BIP85_PURPOSE_def BIP85_APP_BIP39_def split: sum.splits)

text \<open>A child mnemonic is valid, and its entropy is the start of the BIP85 HMAC of the key at the
child's path; indices that differ only in the hardened bit name the same child.\<close>

theorem bip85_child_spec:
  assumes "\<forall>x. length (cr_sha512 cr x) = 64"
  shows "(derive_mnemonic_12 cr sha256 seed index = Inr idx \<longrightarrow>
        word_indices 12 idx \<and> validate_mnemonic_12 sha256 idx = Inr () \<and>
        (\<exists>k. derive_path cr seed (bip85_path 12 index) = Inr k \<and>
           fst (indices_to_entropy_12 idx) = take 16 (hmac_sha512 (cr_sha512 cr) BIP85_HMAC_KEY (xk_key k)))) \<and>
     (derive_mnemonic_24 cr sha256 seed index = Inr idx \<longrightarrow>
        word_indices 24 idx \<and> validate_mnemonic_24 sha256 idx = Inr () \<and>
        (\<exists>k. derive_path cr seed (bip85_path 24 index) = Inr k \<and>
           fst (indices_to_entropy_24 idx) = take 32 (hmac_sha512 (cr_sha512 cr) BIP85_HMAC_KEY (xk_key k)))) \<and>
     derive_mnemonic_12 cr sha256 seed (index XOR HARDENED_BIT) = derive_mnemonic_12 cr sha256 seed index \<and>
     derive_mnemonic_24 cr sha256 seed (index XOR HARDENED_BIT) = derive_mnemonic_24 cr sha256 seed index"
proof -
  have len: "length (hmac_sha512 (cr_sha512 cr) BIP85_HMAC_KEY k) = 64" for k
    using assms by (simp add: hmac_sha512_def Let_def)
  have same: "(index XOR HARDENED_BIT) OR HARDENED_BIT = index OR HARDENED_BIT"
    by (rule bit_word_eqI) (auto simp: bit_or_iff bit_xor_iff)
  then have wraps: "derive_bip85_entropy cr seed words (index XOR HARDENED_BIT) = derive_bip85_entropy cr seed words index" for words
    by (simp only: derive_bip85_entropy_def)
  show ?thesis
    unfolding derive_mnemonic_12_def derive_mnemonic_24_def wraps tryR_eq_Inr derive_bip85_entropy_Inr
    using mnemonic_12_valid mnemonic_24_valid len by auto
qed

text \<open>A sample in which every derived key is its parent plus one.\<close>

theorem bip85_child_spec_witness:
  "\<exists>idx. derive_mnemonic_12 counting_crypto (\<lambda>x. replicate 32 (of_nat (length x))) (replicate 64 7) 0 = Inr idx \<and>
     validate_mnemonic_12 (\<lambda>x. replicate 32 (of_nat (length x))) idx = Inr ()"
proof -
  have "list_all is_hardened (bip85_path 12 0)"
    by (simp add: bip85_path_def is_hardened_def HARDENED_BIT_def)
  then obtain k where "derive_path counting_crypto (replicate 64 7) (bip85_path 12 0) = Inr k"
    using counting_path [of "bip85_path 12 0" "replicate 64 7"] by (auto simp: bip85_path_def)
  then have "derive_bip85_entropy counting_crypto (replicate 64 7) 12 0 = Inr (hmac_sha512 (cr_sha512 counting_crypto) BIP85_HMAC_KEY (xk_key k))"
    by (simp add: derive_bip85_entropy_Inr)
  then obtain idx where "derive_mnemonic_12 counting_crypto (\<lambda>x. replicate 32 (of_nat (length x))) (replicate 64 7) 0 = Inr idx"
    by (simp add: derive_mnemonic_12_def)
  moreover have "\<forall>x. length (cr_sha512 counting_crypto x) = 64" by (simp add: counting_crypto_def)
  from bip85_child_spec [OF this, of "\<lambda>x. replicate 32 (of_nat (length x))" "replicate 64 7" 0 idx] calculation
  show ?thesis by blast
qed

end
