(* ===== verification/KasXpub.thy ===== *)
theory KasXpub
  imports KasBits KasMultisig
begin

text \<open>
  The text form of extended keys (core/src/wallet/xpub.rs) and the one-byte framing of QR payloads
  (core/src/qr/payload.rs): base58 by long division and by multiply-and-add, the four-byte checksum, the
  78-byte serialization of public and private account keys, their import from text and from raw bytes.
  \<open>sha256\<close> and \<open>ripemd160\<close> are calls of the crates of that name. An output buffer is represented by
  the part of it that was written, whose length is what the code returns; an empty result is the
  code's 0.
\<close>

section \<open>Base58\<close>

definition BASE58_ALPHABET :: bytes where
  "BASE58_ALPHABET = map of_char ''123456789ABCDEFGHJKLMNPQRSTUVWXYZabcdefghijkmnopqrstuvwxyz''"

text \<open>\<open>for i in start..len \{ let val = (remainder << 8) | buf[i]; buf[i] = val / 58; remainder = val % 58 \}\<close>\<close>

fun divide58 :: "bytes \<Rightarrow> u32 \<Rightarrow> bytes \<times> u32" where
  "divide58 [] remainder = ([], remainder)"
| "divide58 (b # bs) remainder =
     (let val = push_bit 8 remainder OR ucast b;
          (qs, remainder) = divide58 bs (val mod 58)
      in (ucast (val div 58) # qs, remainder))"

section \<open>Division and multiplication of byte strings\<close>

lemma shift_in:
  assumes "unat (r :: u32) < 2 ^ 24"
  shows "unat (push_bit 8 r OR ucast (b :: u8)) = unat r * 256 + unat b"
proof -
  have "push_bit 8 r OR ucast b = push_bit 8 r + ucast b"
    by (rule disjunctive_add_eq_or [symmetric], rule bit_word_eqI) (auto simp: bit_simps dest: bit_imp_le_length)
  moreover have "unat (push_bit 8 r) = unat r * 256" "unat (ucast b :: u32) = unat b"
    using assms unat_u8_less [of b] by (simp_all add: push_bit_eq_mult unat_word_ariths unsigned_ucast_eq take_bit_nat_eq_self)
  ultimately show ?thesis
    using assms unat_u8_less [of b] by (simp add: unat_word_ariths)
qed

lemma divide58_value:
  assumes "unat r < 58" "divide58 bs r = (qs, r')"
  shows "length qs = length bs \<and> unat r * 256 ^ length bs + be_value bs = be_value qs * 58 + unat r' \<and> unat r' < 58"
  using assms
proof (induction bs arbitrary: r qs r')
  case (Cons b bs)
  define val where "val = push_bit 8 r OR ucast b"
  have val: "unat val = unat r * 256 + unat b" unfolding val_def using Cons.prems(1) by (intro shift_in) simp
  obtain qs1 where rec: "divide58 bs (val mod 58) = (qs1, r')" and qs: "qs = ucast (val div 58) # qs1"
    using Cons.prems(2) by (auto simp: Let_def val_def split: prod.splits)
  have "unat (val mod 58) = unat val mod 58" by (simp add: unat_mod)
  then have ih: "length qs1 = length bs" "(unat val mod 58) * 256 ^ length bs + be_value bs = be_value qs1 * 58 + unat r'" "unat r' < 58"
    using Cons.IH [of "val mod 58" qs1 r'] rec by auto
  have "unat val div 58 < 256" using val Cons.prems(1) unat_u8_less [of b] by simp
  then have d: "unat (ucast (val div 58) :: u8) = unat val div 58"
    by (simp add: unsigned_ucast_eq take_bit_nat_eq_self unat_div)
  define P where "P = (256 :: nat) ^ length bs"
  define X where "X = unat val"
  have e1: "unat r * 256 ^ length (b # bs) + be_value (b # bs) = X * P + be_value bs"
    by (simp add: be_value_Cons val X_def P_def algebra_simps)
  have "(k * 58 + m) * P = k * P * 58 + m * P" for k m by (simp add: algebra_simps)
  from this [of "X div 58" "X mod 58"] have e2: "X * P = X div 58 * P * 58 + X mod 58 * P" by simp
  have e3: "be_value qs * 58 = X div 58 * P * 58 + be_value qs1 * 58"
    by (simp add: be_value_Cons qs d ih(1) X_def P_def add_mult_distrib)
  have "X mod 58 * P + be_value bs = be_value qs1 * 58 + unat r'" using ih(2) by (simp add: X_def P_def)
  then have "unat r * 256 ^ length (b # bs) + be_value (b # bs) = be_value qs * 58 + unat r'"
    using e1 e2 e3 by linarith
  then show ?case using ih(1,3) qs by simp
qed (auto simp: be_value_def)

lemma be_value_dropWhile: "be_value (dropWhile (\<lambda>b. b = 0) bs) = be_value bs"
  by (induction bs) (simp_all add: be_value_Cons)

lemma be_value_pos: "bs \<noteq> [] \<Longrightarrow> hd bs \<noteq> 0 \<Longrightarrow> 256 ^ (length bs - 1) \<le> be_value bs"
proof (cases bs)
  case (Cons b cs)
  assume "bs \<noteq> []" "hd bs \<noteq> 0"
  then have "1 \<le> unat b" using Cons by (simp add: Suc_le_eq unat_gt_0)
  then show ?thesis using Cons by (simp add: be_value_Cons trans_le_add1)
qed simp

text \<open>\<open>while start < len \{ .. \}\<close>: \<open>rest\<close> is \<open>buf[start..len]\<close>, \<open>encoded\<close> the digits so far, the lowest first.\<close>

function base58_loop :: "bytes \<Rightarrow> bytes \<Rightarrow> bytes" where
  "base58_loop rest encoded =
     (let rest = dropWhile (\<lambda>b. b = 0) rest
      in if rest = [] then encoded
         else (let (qs, remainder) = divide58 rest 0
               in base58_loop qs (encoded @ [BASE58_ALPHABET ! unat remainder])))"
  by pat_completeness auto
termination
proof (relation "measure (\<lambda>(rest, _). be_value rest)", goal_cases)
  case (2 rest encoded r qr qs rm)
  then have "divide58 r 0 = (qs, rm)" by simp
  from divide58_value [OF _ this] have "be_value r = be_value qs * 58 + unat rm" by simp
  moreover have "r \<noteq> []" "r = dropWhile (\<lambda>b. b = 0) rest" using 2 by auto
  then have "be_value rest = be_value r" "hd r \<noteq> 0" "r \<noteq> []"
    using hd_dropWhile [of "\<lambda>b. b = 0" rest] by (auto simp: be_value_dropWhile)
  moreover from this have "0 < be_value r" using be_value_pos [of r] by (metis less_le_trans zero_less_numeral zero_less_power)
  ultimately show ?case by simp
qed simp

text \<open>The code's arrays of 128 places suffice for what it encodes: 82 bytes have at most 112 digits.\<close>

definition base58_encode :: "bytes \<Rightarrow> nat \<Rightarrow> bytes" where
  "base58_encode src capacity =
     (let leading_zeros = length (takeWhile (\<lambda>b. b = 0) src);
          encoded = base58_loop (take (min (length src) 128) src) []
      in take capacity (replicate leading_zeros (of_char CHR ''1'') @ rev encoded))"

fun char_index :: "nat \<Rightarrow> bytes \<Rightarrow> u8 \<Rightarrow> u8" where
  "char_index i [] ch = 0xFF"
| "char_index i (c # cs) ch = (if c = ch then of_nat i else char_index (i + 1) cs ch)"

definition base58_char_value :: "u8 \<Rightarrow> u8" where
  "base58_char_value ch = char_index 0 BASE58_ALPHABET ch"

text \<open>\<open>for j in (0..buf_len).rev() \{ carry += buf[j] * 58; buf[j] = carry & 0xFF; carry >>= 8 \}\<close>\<close>

fun multiply58 :: "bytes \<Rightarrow> u32 \<Rightarrow> bytes \<times> u32" where
  "multiply58 [] carry = ([], carry)"
| "multiply58 (b # bs) carry =
     (let (bs, carry) = multiply58 bs carry; carry = carry + ucast b * 58
      in (ucast (carry AND 0xFF) # bs, drop_bit 8 carry))"

text \<open>\<open>while carry > 0 \{ .. \}\<close>; None is the \<open>return 0\<close> of a full buffer.\<close>

function push_carry :: "u32 \<Rightarrow> bytes \<Rightarrow> bytes option" where
  "push_carry carry buf =
     (if carry > 0 then if 128 \<le> length buf then None else push_carry (drop_bit 8 carry) (ucast (carry AND 0xFF) # buf)
      else Some buf)"
  by pat_completeness auto
termination by (relation "measure (\<lambda>(_, buf). 128 - length buf)") auto

fun decode_chars :: "bytes \<Rightarrow> bytes \<Rightarrow> bytes option" where
  "decode_chars [] buf = Some buf"
| "decode_chars (ch # input) buf =
     (let val = base58_char_value ch
      in if val = 0xFF then None
         else (let (buf, carry) = multiply58 buf (ucast val)
               in case push_carry carry buf of None \<Rightarrow> None
                | Some buf \<Rightarrow> decode_chars input (if buf = [] \<and> val > 0 then [val] else buf)))"

definition base58_decode :: "bytes \<Rightarrow> bytes" where
  "base58_decode input =
     (if input = [] then []
      else (let leading_ones = length (takeWhile (\<lambda>ch. ch = of_char CHR ''1'') input)
            in case decode_chars input [] of None \<Rightarrow> []
             | Some buf \<Rightarrow> take 128 (replicate leading_ones 0 @ buf)))"

definition sha256d :: "(bytes \<Rightarrow> bytes) \<Rightarrow> bytes \<Rightarrow> bytes" where
  "sha256d sha256 msg = sha256 (sha256 msg)"

definition base58check_encode :: "(bytes \<Rightarrow> bytes) \<Rightarrow> bytes \<Rightarrow> nat \<Rightarrow> bytes" where
  "base58check_encode sha256 payload capacity =
     (let checksum = sha256d sha256 payload; total_len = length payload + 4;
          buf = blit (take 4 checksum) (length payload) (blit payload 0 (replicate 128 0))
      in base58_encode (take total_len buf) capacity)"

definition base58check_decode :: "(bytes \<Rightarrow> bytes) \<Rightarrow> bytes \<Rightarrow> bytes" where
  "base58check_decode sha256 input =
     (let raw = base58_decode input
      in if length raw < 5 then []
         else (let payload_len = length raw - 4; checksum = sha256d sha256 (take payload_len raw)
               in if raw ! payload_len \<noteq> checksum ! 0 \<or> raw ! (payload_len + 1) \<noteq> checksum ! 1 \<or>
                     raw ! (payload_len + 2) \<noteq> checksum ! 2 \<or> raw ! (payload_len + 3) \<noteq> checksum ! 3
                  then [] else take payload_len raw))"

section \<open>The alphabet\<close>

lemma ALPHABET_list:
  "BASE58_ALPHABET = [0x31, 0x32, 0x33, 0x34, 0x35, 0x36, 0x37, 0x38, 0x39, 0x41, 0x42, 0x43, 0x44, 0x45, 0x46, 0x47, 0x48, 0x4a, 0x4b, 0x4c, 0x4d, 0x4e, 0x50, 0x51, 0x52, 0x53, 0x54, 0x55, 0x56, 0x57, 0x58, 0x59, 0x5a, 0x61, 0x62, 0x63, 0x64, 0x65, 0x66, 0x67, 0x68, 0x69, 0x6a, 0x6b, 0x6d, 0x6e, 0x6f, 0x70, 0x71, 0x72, 0x73, 0x74, 0x75, 0x76, 0x77, 0x78, 0x79, 0x7a]"
  by (simp add: BASE58_ALPHABET_def)

lemma length_ALPHABET [simp]: "length BASE58_ALPHABET = 58"
  by (simp add: ALPHABET_list)

lemma distinct_ALPHABET: "distinct BASE58_ALPHABET"
  by (simp add: ALPHABET_list)

lemma char_index_nth:
  "distinct cs \<Longrightarrow> k < length cs \<Longrightarrow> char_index i cs (cs ! k) = of_nat (i + k)"
proof (induction cs arbitrary: i k)
  case (Cons c cs)
  then show ?case by (cases k) auto
qed simp

lemma char_index_notin: "ch \<notin> set cs \<Longrightarrow> char_index i cs ch = 0xFF"
  by (induction cs arbitrary: i) auto

lemma char_value_nth: "v < 58 \<Longrightarrow> base58_char_value (BASE58_ALPHABET ! v) = of_nat v"
  using char_index_nth [OF distinct_ALPHABET, of v 0] by (simp add: base58_char_value_def)

lemma char_valueD:
  assumes "base58_char_value ch \<noteq> 0xFF"
  shows "unat (base58_char_value ch) < 58" "BASE58_ALPHABET ! unat (base58_char_value ch) = ch"
proof -
  have "ch \<in> set BASE58_ALPHABET" using assms char_index_notin unfolding base58_char_value_def by blast
  then obtain v where "v < 58" "ch = BASE58_ALPHABET ! v" by (metis in_set_conv_nth length_ALPHABET)
  then show "unat (base58_char_value ch) < 58" "BASE58_ALPHABET ! unat (base58_char_value ch) = ch"
    by (simp_all add: char_value_nth unat_of_nat)
qed

lemma char_value_one: "base58_char_value ch = 0 \<longleftrightarrow> ch = of_char CHR ''1''"
proof -
  have one: "BASE58_ALPHABET ! 0 = of_char CHR ''1''" by (simp add: ALPHABET_list)
  then have "base58_char_value (of_char CHR ''1'') = 0" using char_value_nth [of 0] by simp
  moreover have "ch = of_char CHR ''1''" if "base58_char_value ch = 0" using char_valueD(2) [of ch] that one by simp
  ultimately show ?thesis by blast
qed

section \<open>Numbers in base 58\<close>

fun value58 :: "nat list \<Rightarrow> nat" where
  "value58 [] = 0"
| "value58 (d # ds) = d * 58 ^ length ds + value58 ds"

lemma value58_append: "value58 (ds @ es) = value58 ds * 58 ^ length es + value58 es"
  by (induction ds) (simp_all add: power_add algebra_simps)

lemma value58_bound: "\<forall>d \<in> set ds. d < 58 \<Longrightarrow> value58 ds < 58 ^ length ds"
proof (induction ds)
  case (Cons d ds)
  then have "value58 ds < 58 ^ length ds" "d + 1 \<le> 58" by auto
  from this(2) have "(d + 1) * 58 ^ length ds \<le> 58 * 58 ^ length ds" by (intro mult_right_mono) auto
  then have "d * 58 ^ length ds + 58 ^ length ds \<le> 58 * 58 ^ length ds" by (simp only: add_mult_distrib mult_1)
  then show ?case using \<open>value58 ds < _\<close> unfolding value58.simps length_Cons power_Suc by linarith
qed simp

definition minimal :: "'a::zero list \<Rightarrow> bool" where
  "minimal ds \<longleftrightarrow> ds = [] \<or> hd ds \<noteq> 0"

lemma value58_pos: "ds \<noteq> [] \<Longrightarrow> minimal ds \<Longrightarrow> 58 ^ (length ds - 1) \<le> value58 ds"
  by (cases ds) (auto simp: minimal_def intro: trans_le_add1)

lemma value58_inj_length:
  "length ds = length es \<Longrightarrow> \<forall>d \<in> set ds. d < 58 \<Longrightarrow> \<forall>e \<in> set es. e < 58 \<Longrightarrow> value58 ds = value58 es \<Longrightarrow> ds = es"
proof (induction rule: list_induct2)
  case (Cons d ds e es)
  have b: "value58 ds < 58 ^ length ds" "value58 es < 58 ^ length ds"
    using value58_bound [of ds] value58_bound [of es] Cons by auto
  then have "d = (d * 58 ^ length ds + value58 ds) div 58 ^ length ds" by simp
  also have "\<dots> = (e * 58 ^ length ds + value58 es) div 58 ^ length ds" using Cons by simp
  also have "\<dots> = e" using b by simp
  finally show ?case using Cons by simp
qed simp

text \<open>Two numerals without leading zeros are equal when their values are, in both bases.\<close>

lemma shorter:
  assumes "m \<noteq> 0 \<Longrightarrow> b ^ (m - 1) \<le> v" "v < b ^ n" "1 < (b :: nat)"
  shows "m \<le> n"
proof (cases m)
  case (Suc k)
  then have "b ^ k < b ^ n" using assms(1,2) by (simp add: le_less_trans)
  then show ?thesis using Suc assms(3) by (simp add: Suc_le_eq)
qed simp

lemma same_length:
  assumes "m \<noteq> 0 \<Longrightarrow> b ^ (m - 1) \<le> v" "v < b ^ m" "n \<noteq> 0 \<Longrightarrow> b ^ (n - 1) \<le> v" "v < b ^ n" "1 < (b :: nat)"
  shows "m = n"
  using shorter [OF assms(1,4,5)] shorter [OF assms(3,2,5)] by (rule antisym)

lemma value58_inj:
  assumes "minimal ds" "minimal es" "\<forall>d \<in> set ds. d < 58" "\<forall>e \<in> set es. e < 58" "value58 ds = value58 es"
  shows "ds = es"
proof (rule value58_inj_length)
  show "length ds = length es"
    using assms value58_pos [of ds] value58_pos [of es] value58_bound [of ds] value58_bound [of es]
    by (intro same_length [of _ 58 "value58 ds"]) auto
qed (use assms in auto)

lemma be_value_inj_minimal:
  assumes "minimal bs" "minimal cs" "be_value bs = be_value cs"
  shows "bs = cs"
proof (rule be_value_inj)
  show "length bs = length cs"
    using assms be_value_pos [of bs] be_value_pos [of cs] be_value_bound [of bs] be_value_bound [of cs]
    by (intro same_length [of _ 256 "be_value bs"]) (auto simp: minimal_def)
qed (rule assms)

section \<open>Texts and byte strings\<close>

text \<open>The text of a byte string: a '1' for each leading zero, then the digits of the rest without leading zeros.\<close>

definition text_of :: "bytes \<Rightarrow> bytes \<Rightarrow> bool" where
  "text_of raw s \<longleftrightarrow> (\<exists>z ds bs. s = replicate z (of_char CHR ''1'') @ map ((!) BASE58_ALPHABET) ds \<and> raw = replicate z 0 @ bs \<and>
     minimal ds \<and> (\<forall>d \<in> set ds. d < 58) \<and> minimal bs \<and> value58 ds = be_value bs)"

lemma leading_split:
  "takeWhile (\<lambda>x. x = c) xs = replicate (length (takeWhile (\<lambda>x. x = c) xs)) c"
  by (induction xs) simp_all

lemma minimal_dropWhile: "minimal (dropWhile (\<lambda>x. x = 0) xs)"
  using hd_dropWhile [of "\<lambda>x. x = 0" xs] by (auto simp: minimal_def)

lemma leading_of_minimal:
  assumes "minimal bs"
  shows "takeWhile (\<lambda>x. x = 0) (replicate z 0 @ bs) = replicate z 0" "dropWhile (\<lambda>x. x = 0) (replicate z 0 @ bs) = bs"
proof -
  have "takeWhile (\<lambda>x. x = 0) bs = []" "dropWhile (\<lambda>x. x = 0) bs = bs"
    using assms by (cases bs; simp add: minimal_def)+
  then show "takeWhile (\<lambda>x. x = 0) (replicate z 0 @ bs) = replicate z 0" "dropWhile (\<lambda>x. x = 0) (replicate z 0 @ bs) = bs"
    by (simp_all add: takeWhile_append dropWhile_append)
qed

lemma text_of_unique:
  assumes "text_of raw s" "text_of raw t"
  shows "s = t"
proof -
  obtain z ds bs where s: "s = replicate z (of_char CHR ''1'') @ map ((!) BASE58_ALPHABET) ds" "raw = replicate z 0 @ bs"
     "minimal ds" "\<forall>d \<in> set ds. d < 58" "minimal bs" "value58 ds = be_value bs"
    using assms(1) unfolding text_of_def by blast
  obtain y es cs where t: "t = replicate y (of_char CHR ''1'') @ map ((!) BASE58_ALPHABET) es" "raw = replicate y 0 @ cs"
     "minimal es" "\<forall>e \<in> set es. e < 58" "minimal cs" "value58 es = be_value cs"
    using assms(2) unfolding text_of_def by blast
  have "replicate z (0 :: u8) = replicate y 0" "bs = cs"
    using leading_of_minimal [OF s(5), of z] leading_of_minimal [OF t(5), of y] s(2) t(2) by simp_all
  then have "z = y" "ds = es" using value58_inj [OF s(3) t(3) s(4) t(4)] s(6) t(6) by simp_all
  then show ?thesis using s(1) t(1) by simp
qed

declare base58_loop.simps [simp del]

lemma base58_loop_digits:
  "\<exists>ds. base58_loop rest encoded = encoded @ map ((!) BASE58_ALPHABET) (rev ds) \<and> minimal ds \<and> (\<forall>d \<in> set ds. d < 58) \<and>
     value58 ds = be_value rest"
proof (induction rest encoded rule: base58_loop.induct)
  case (1 rest encoded)
  define r where "r = dropWhile (\<lambda>b. b = 0) rest"
  show ?case
  proof (cases "r = []")
    case True
    then have "be_value rest = 0" using be_value_dropWhile [of rest, folded r_def] by simp
    then show ?thesis using True by (intro exI [of _ "[]"]) (simp add: base58_loop.simps [of rest] r_def minimal_def)
  next
    case False
    obtain qs m where d: "divide58 r 0 = (qs, m)" by fastforce
    from divide58_value [OF _ this] have v: "be_value r = be_value qs * 58 + unat m" "unat m < 58" by simp_all
    obtain ds where ds: "base58_loop qs (encoded @ [BASE58_ALPHABET ! unat m]) = (encoded @ [BASE58_ALPHABET ! unat m]) @ map ((!) BASE58_ALPHABET) (rev ds)"
      "minimal ds" "\<forall>d \<in> set ds. d < 58" "value58 ds = be_value qs"
      using 1 [OF r_def False refl d [symmetric] ] d by auto
    have "0 < be_value r"
      using be_value_pos [OF False] minimal_dropWhile [of rest] False by (simp add: r_def [symmetric] minimal_def) (metis gr_zeroI not_one_le_zero one_le_numeral one_le_power order_trans)
    then have "minimal (ds @ [unat m])" using ds(2,4) v(1) by (cases ds) (auto simp: minimal_def)
    then show ?thesis
      using ds v False d be_value_dropWhile [of rest]
      by (intro exI [of _ "ds @ [unat m]"]) (simp add: base58_loop.simps [of rest] r_def [symmetric] value58_append)
  qed
qed

lemma base58_encode_text:
  assumes "length raw \<le> 128"
  shows "\<exists>s. text_of raw s \<and> base58_encode raw capacity = take capacity s"
proof -
  let ?z = "length (takeWhile (\<lambda>b. b = 0) raw)" and ?bs = "dropWhile (\<lambda>b. b = 0) raw"
  obtain ds where ds: "base58_loop raw [] = map ((!) BASE58_ALPHABET) (rev ds)" "minimal ds" "\<forall>d \<in> set ds. d < 58" "value58 ds = be_value raw"
    using base58_loop_digits [of raw "[]"] by auto
  have "raw = replicate ?z 0 @ ?bs" using leading_split [of 0 raw] by (metis takeWhile_dropWhile_id)
  then have "text_of raw (replicate ?z (of_char CHR ''1'') @ map ((!) BASE58_ALPHABET) ds)"
    unfolding text_of_def using ds minimal_dropWhile be_value_dropWhile [of raw] by metis
  then show ?thesis using ds(1) assms by (auto simp: base58_encode_def Let_def rev_map)
qed

lemma low_byte32: "ucast (t AND 0xFF :: u32) = (ucast t :: u8)"
proof -
  have m: "(0xFF :: u32) = mask 8" by (simp add: mask_eq_exp_minus_1)
  show ?thesis unfolding m by (rule bit_word_eqI) (auto simp: bit_simps)
qed

lemma multiply58_value:
  assumes "unat c < 58" "multiply58 bs c = (bs', c')"
  shows "length bs' = length bs \<and> unat c' * 256 ^ length bs + be_value bs' = be_value bs * 58 + unat c \<and> unat c' < 58"
  using assms(2)
proof (induction bs arbitrary: bs' c')
  case Nil
  then show ?case using assms(1) by (auto simp: be_value_def)
next
  case (Cons b bs)
  obtain bs1 c1 where rec: "multiply58 bs c = (bs1, c1)" by fastforce
  define t where "t = c1 + ucast b * 58"
  have out: "bs' = ucast (t AND 0xFF) # bs1" "c' = drop_bit 8 t" using Cons.prems rec by (simp_all add: Let_def t_def)
  have ih: "length bs1 = length bs" "unat c1 * 256 ^ length bs + be_value bs1 = be_value bs * 58 + unat c" "unat c1 < 58"
    using Cons.IH [OF rec] by auto
  have "unat (ucast b :: u32) = unat b" using unat_u8_less [of b] by (simp add: unsigned_ucast_eq take_bit_nat_eq_self)
  then have t: "unat t = unat c1 + unat b * 58"
    unfolding t_def using ih(3) unat_u8_less [of b] by (simp add: unat_word_ariths)
  have low: "unat (ucast (t AND 0xFF) :: u8) = unat t mod 256"
    unfolding low_byte32 by (simp add: unsigned_ucast_eq take_bit_eq_mod)
  have "unat (drop_bit 8 t) = drop_bit 8 (unat t)"
    using take_bit_nat_eq_self [of "unat t" 32] unat_u32_less [of t] by (simp add: unsigned_drop_bit_eq)
  then have high: "unat c' = unat t div 256" by (simp add: out drop_bit_eq_div)
  define P where "P = (256 :: nat) ^ length bs"
  have "(k * 256 + m) * P = k * (256 * P) + m * P" for k m by (simp add: algebra_simps)
  from this [of "unat t div 256" "unat t mod 256"] have "unat t * P = unat c' * (256 * P) + unat t mod 256 * P"
    by (simp add: high)
  moreover have "unat t * P = unat c1 * P + unat b * 58 * P" by (simp add: t add_mult_distrib)
  moreover have "unat c1 * P + be_value bs1 = be_value bs * 58 + unat c" using ih(2) by (simp add: P_def)
  moreover have "unat b * 58 * P = unat b * P * 58" by simp
  ultimately have "unat c' * (256 * P) + (unat t mod 256 * P + be_value bs1) = (unat b * P + be_value bs) * 58 + unat c"
    by (simp only: add_mult_distrib)
  then have "unat c' * 256 ^ length (b # bs) + be_value bs' = be_value (b # bs) * 58 + unat c"
    by (simp add: out(1) be_value_Cons low ih(1) P_def)
  moreover have "unat c' < 58" using high t ih(3) unat_u8_less [of b] by simp
  ultimately show ?case using ih(1) out(1) by simp
qed

declare push_carry.simps [simp del]

lemma push_carry_small:
  assumes "unat c < 58"
  shows "push_carry c buf = (if c > 0 then if 128 \<le> length buf then None else Some (ucast c # buf) else Some buf)"
proof -
  have "drop_bit 8 c = 0"
    using assms by (intro bit_word_eqI) (auto simp: bit_simps dest!: bit_small [of c 6, rotated])
  then show ?thesis using low_byte32 [of c] push_carry.simps [of c buf] push_carry.simps [of 0] by simp
qed

text \<open>One character: the number is multiplied by 58 and the digit added; a full buffer is reported.\<close>

lemma absorb_char:
  assumes buf: "minimal buf" "length buf \<le> 128" and v: "unat v < 58"
    and r: "multiply58 buf (ucast (v :: u8)) = (b1, c1)" "push_carry c1 b1 = r"
  shows "case r of None \<Rightarrow> 256 ^ 128 \<le> be_value buf * 58 + unat v
     | Some b2 \<Rightarrow> (b2 = [] \<longrightarrow> v = 0) \<and> minimal b2 \<and> length b2 \<le> 128 \<and> be_value b2 = be_value buf * 58 + unat v"
proof -
  have uv: "unat (ucast v :: u32) = unat v" using unat_u8_less [of v] by (simp add: unsigned_ucast_eq take_bit_nat_eq_self)
  have m: "length b1 = length buf" "unat c1 * 256 ^ length buf + be_value b1 = be_value buf * 58 + unat v" "unat c1 < 58"
    using multiply58_value [OF _ r(1)] v uv by auto
  have uc: "unat (ucast c1 :: u8) = unat c1" using m(3) by (simp add: unsigned_ucast_eq take_bit_nat_eq_self)
  show ?thesis
  proof (cases "c1 > 0")
    case True
    then have pos: "1 \<le> unat c1" by (simp add: Suc_le_eq word_gt_0 unat_gt_0)
    show ?thesis
    proof (cases "128 \<le> length b1")
      case True
      then have "256 ^ 128 \<le> unat c1 * 256 ^ length buf" using pos m(1) buf(2) by simp
      then have "256 ^ 128 \<le> be_value buf * 58 + unat v" using m(2) by linarith
      moreover have "r = None" using True \<open>c1 > 0\<close> r(2) m(3) by (simp add: push_carry_small)
      ultimately show ?thesis by simp
    next
      case False
      have "(ucast c1 :: u8) \<noteq> 0" using uc pos by (metis not_one_le_zero unsigned_0)
      then show ?thesis using False True r(2) m uc by (auto simp: push_carry_small minimal_def be_value_Cons)
    qed
  next
    case False
    then have c0: "c1 = 0" by (simp add: word_gt_0)
    then have rs: "r = Some b1" using r(2) m(3) by (simp add: push_carry_small)
    have val: "be_value b1 = be_value buf * 58 + unat v" using m(2) c0 by simp
    have "minimal b1"
    proof (cases "buf = []")
      case True
      then show ?thesis using m(1) by (simp add: minimal_def)
    next
      case ne: False
      then have "256 ^ (length buf - 1) \<le> be_value b1"
        using be_value_pos [of buf] buf(1) val by (auto simp: minimal_def)
      moreover have "be_value b1 < 256 ^ (length buf - 1)" if "b1 \<noteq> []" "hd b1 = 0"
        using that be_value_bound [of "tl b1"] by (cases b1) (auto simp: be_value_Cons simp flip: m(1))
      ultimately show ?thesis by (auto simp: minimal_def)
    qed
    moreover have "v = 0" if "b1 = []" using val that by (simp add: be_value_def unat_eq_zero)
    ultimately show ?thesis using rs val m(1) buf(2) by simp
  qed
qed

lemma decode_chars_spec:
  assumes "minimal buf" "length buf \<le> 128"
  shows "case decode_chars input buf of
      None \<Rightarrow> (\<exists>ch \<in> set input. base58_char_value ch = 0xFF) \<or>
        256 ^ 128 \<le> be_value buf * 58 ^ length input + value58 (map (\<lambda>ch. unat (base58_char_value ch)) input)
    | Some out \<Rightarrow> (\<forall>ch \<in> set input. base58_char_value ch \<noteq> 0xFF) \<and> minimal out \<and> length out \<le> 128 \<and>
        be_value out = be_value buf * 58 ^ length input + value58 (map (\<lambda>ch. unat (base58_char_value ch)) input)"
  using assms
proof (induction input arbitrary: buf)
  case Nil
  then show ?case by simp
next
  case (Cons ch input)
  let ?v = "base58_char_value ch"
  show ?case
  proof (cases "?v = 0xFF")
    case False
    then have small: "unat ?v < 58" by (rule char_valueD)
    obtain b1 c1 where mul: "multiply58 buf (ucast ?v) = (b1, c1)" by fastforce
    let ?total = "be_value buf * 58 ^ length (ch # input) + value58 (map (\<lambda>ch. unat (base58_char_value ch)) (ch # input))"
    have total: "?total = (be_value buf * 58 + unat ?v) * 58 ^ length input + value58 (map (\<lambda>ch. unat (base58_char_value ch)) input)"
      by (simp add: algebra_simps)
    note step = absorb_char [OF Cons.prems small mul refl]
    show ?thesis
    proof (cases "push_carry c1 b1")
      case None
      then have "256 ^ 128 \<le> be_value buf * 58 + unat ?v" using step by simp
      also have "\<dots> \<le> (be_value buf * 58 + unat ?v) * 58 ^ length input" by simp
      also have "\<dots> \<le> ?total" unfolding total by simp
      finally show ?thesis using None mul False by simp
    next
      case (Some b2)
      then have b2: "b2 = [] \<longrightarrow> ?v = 0" "minimal b2" "length b2 \<le> 128" "be_value b2 = be_value buf * 58 + unat ?v"
        using step by simp_all
      then have "decode_chars (ch # input) buf = decode_chars input b2" using Some mul False by (auto simp: Let_def)
      then show ?thesis using Cons.IH [OF b2(2,3)] False unfolding total b2(4) by (auto split: option.splits)
    qed
  qed simp
qed

lemma value58_zeros: "value58 (replicate z 0 @ ds) = value58 ds"
  by (induction z) simp_all

lemma text_value:
  assumes "s = replicate z (of_char CHR ''1'') @ map ((!) BASE58_ALPHABET) ds" "minimal ds" "\<forall>d \<in> set ds. d < 58"
  shows "length (takeWhile (\<lambda>ch. ch = of_char CHR ''1'') s) = z"
    and "map (\<lambda>ch. unat (base58_char_value ch)) s = replicate z 0 @ ds"
    and "\<forall>ch \<in> set s. base58_char_value ch \<noteq> 0xFF"
proof -
  have val: "base58_char_value (BASE58_ALPHABET ! d) = of_nat d" "unat (of_nat d :: u8) = d" "(of_nat d :: u8) \<noteq> 0xFF" if "d < 58" for d
    using that by (simp_all add: char_value_nth unat_of_nat word_unat_eq_iff)
  have one: "base58_char_value (of_char CHR ''1'') = 0" by (simp add: char_value_one)
  have "BASE58_ALPHABET ! d \<noteq> of_char CHR ''1''" if "d < 58" "d \<noteq> 0" for d
    using val [OF that(1)] that(2) by (metis char_value_one unsigned_0)
  then have "takeWhile (\<lambda>ch. ch = of_char CHR ''1'') (map ((!) BASE58_ALPHABET) ds) = []"
    using assms(2,3) by (cases ds) (auto simp: minimal_def)
  then show "length (takeWhile (\<lambda>ch. ch = of_char CHR ''1'') s) = z"
    unfolding assms(1) by (simp add: takeWhile_append del: of_char_Char)
  show "map (\<lambda>ch. unat (base58_char_value ch)) s = replicate z 0 @ ds"
    using assms(3) val one unfolding assms(1) by (simp add: map_idI del: of_char_Char)
  show "\<forall>ch \<in> set s. base58_char_value ch \<noteq> 0xFF"
    using assms(3) val one unfolding assms(1) by (auto simp del: of_char_Char)
qed

lemma text_of_intro:
  assumes "\<forall>ch \<in> set s. base58_char_value ch \<noteq> 0xFF" "minimal bs"
    and "be_value bs = value58 (map (\<lambda>ch. unat (base58_char_value ch)) s)"
  shows "text_of (replicate (length (takeWhile (\<lambda>ch. ch = of_char CHR ''1'') s)) 0 @ bs) s"
proof -
  let ?one = "of_char CHR ''1'' :: u8"
  define z where "z = length (takeWhile (\<lambda>ch. ch = ?one) s)"
  define rest where "rest = dropWhile (\<lambda>ch. ch = ?one) s"
  define ds where "ds = map (\<lambda>ch. unat (base58_char_value ch)) rest"
  have s: "s = replicate z ?one @ rest"
    using leading_split [of ?one s] by (metis z_def rest_def takeWhile_dropWhile_id)
  then have valid: "\<forall>ch \<in> set rest. base58_char_value ch \<noteq> 0xFF" using assms(1) by auto
  then have rest: "rest = map ((!) BASE58_ALPHABET) ds" by (simp add: ds_def map_idI char_valueD(2))
  have "rest \<noteq> [] \<Longrightarrow> hd rest \<noteq> ?one" using hd_dropWhile [of "\<lambda>ch. ch = ?one" s] by (simp add: rest_def)
  then have "minimal ds" by (cases rest) (auto simp: ds_def minimal_def unat_eq_zero char_value_one)
  moreover have "\<forall>d \<in> set ds. d < 58" using valid char_valueD(1) by (auto simp: ds_def)
  moreover have "value58 ds = be_value bs"
    using assms(3) text_value(2) [OF s [unfolded rest] calculation] by (simp add: value58_zeros)
  ultimately show ?thesis unfolding text_of_def z_def [symmetric] using s rest assms(2) by metis
qed

lemma base58_decode_iff:
  assumes "0 < length raw" "length raw < 128"
  shows "base58_decode s = raw \<longleftrightarrow> text_of raw s"
proof
  assume d: "base58_decode s = raw"
  then have "s \<noteq> []" using assms(1) by (auto simp: base58_decode_def)
  obtain buf where buf: "decode_chars s [] = Some buf"
    using d assms(1) by (auto simp: base58_decode_def split: option.splits if_splits)
  have spec: "\<forall>ch \<in> set s. base58_char_value ch \<noteq> 0xFF" "minimal buf"
    "be_value buf = value58 (map (\<lambda>ch. unat (base58_char_value ch)) s)"
    using decode_chars_spec [of "[]" s] buf by (auto simp: minimal_def be_value_def)
  define x where "x = replicate (length (takeWhile (\<lambda>ch. ch = of_char CHR ''1'') s)) 0 @ buf"
  have "take 128 x = raw"
    using d \<open>s \<noteq> []\<close> buf by (simp add: base58_decode_def Let_def x_def del: of_char_Char)
  then have "length (take 128 x) < 128" using assms(2) by simp
  then have "length x \<le> 128" by (simp add: min_def split: if_splits)
  then have "x = raw" using \<open>take 128 x = raw\<close> by simp
  then show "text_of raw s" using text_of_intro [OF spec] by (simp only: x_def)
next
  assume "text_of raw s"
  then obtain z ds bs where s: "s = replicate z (of_char CHR ''1'') @ map ((!) BASE58_ALPHABET) ds" "raw = replicate z 0 @ bs"
     "minimal ds" "\<forall>d \<in> set ds. d < 58" "minimal bs" "value58 ds = be_value bs"
    unfolding text_of_def by blast
  note v = text_value [OF s(1,3,4)]
  have "s \<noteq> []"
  proof
    assume "s = []"
    then have "z = 0" "ds = []" using s(1) by auto
    then have "be_value bs = 0" using s(6) by simp
    then have "bs = []" using be_value_inj_minimal [OF s(5), of "[]"] by (simp add: minimal_def)
    then show False using assms(1) s(2) \<open>z = 0\<close> by simp
  qed
  have val: "value58 (map (\<lambda>ch. unat (base58_char_value ch)) s) = be_value bs"
    unfolding v(2) by (simp add: value58_zeros s(6))
  have "length bs \<le> 128" using assms(2) s(2) by simp
  then have "be_value bs < 256 ^ 128"
    using be_value_bound [of bs] power_increasing [of "length bs" 128 "256 :: nat"] by linarith
  then obtain buf where buf: "decode_chars s [] = Some buf" "minimal buf" "be_value buf = be_value bs"
    using decode_chars_spec [of "[]" s] v(3) val by (auto simp: minimal_def be_value_def split: option.splits)
  then have "buf = bs" using be_value_inj_minimal s(5) by blast
  then show "base58_decode s = raw"
    using buf(1) \<open>s \<noteq> []\<close> v(1) s(2) assms(2) by (simp add: base58_decode_def Let_def del: of_char_Char)
qed

lemma text_of_short:
  assumes "text_of raw s" "length raw \<le> 82"
  shows "length s \<le> 112"
proof (rule ccontr)
  assume long: "\<not> length s \<le> 112"
  obtain z ds bs where s: "s = replicate z (of_char CHR ''1'') @ map ((!) BASE58_ALPHABET) ds" "raw = replicate z 0 @ bs"
     "minimal ds" "\<forall>d \<in> set ds. d < 58" "minimal bs" "value58 ds = be_value bs"
    using assms(1) unfolding text_of_def by blast
  have "ds \<noteq> []"
  proof
    assume "ds = []"
    then show False using long s(1,2) assms(2) by simp
  qed
  have "58 ^ 112 \<le> (58 :: nat) ^ (z + (length ds - 1))"
    using long s(1) by (intro power_increasing) auto
  also have "\<dots> \<le> 256 ^ z * value58 ds"
    unfolding power_add by (intro mult_mono value58_pos [OF \<open>ds \<noteq> []\<close> s(3)] power_mono) simp_all
  also have "\<dots> < 256 ^ z * 256 ^ length bs" using be_value_bound [of bs] s(6) by simp
  also have "\<dots> = 256 ^ (z + length bs)" by (simp add: power_add)
  also have "\<dots> \<le> 256 ^ 82" using s(2) assms(2) by (intro power_increasing) auto
  finally show False by simp
qed

section \<open>The checksum\<close>

lemma base58check_encode_text:
  assumes "\<forall>x. length (sha256 x) = (32 :: nat)" "length payload = 78"
  shows "text_of (payload @ take 4 (sha256d sha256 payload)) (base58check_encode sha256 payload 120)"
proof -
  let ?raw = "payload @ take 4 (sha256d sha256 payload)"
  have len: "length ?raw = 82" using assms by (simp add: sha256d_def)
  have "take 82 (blit (take 4 (sha256d sha256 payload)) 78 (blit payload 0 (replicate 128 0))) = ?raw"
    using assms by (simp add: blit_def sha256d_def)
  then have enc: "base58check_encode sha256 payload 120 = base58_encode ?raw 120"
    using assms(2) by (simp add: base58check_encode_def Let_def)
  obtain t where t: "text_of ?raw t" "base58_encode ?raw 120 = take 120 t"
    using base58_encode_text [of ?raw 120] len by auto
  then have "length t \<le> 112" using text_of_short len by simp
  then show ?thesis using t enc by simp
qed

lemma checksum_iff:
  assumes "length raw = n + 4" "length c = (32 :: nat)"
  shows "raw ! n = c ! 0 \<and> raw ! (n + 1) = c ! 1 \<and> raw ! (n + 2) = c ! 2 \<and> raw ! (n + 3) = c ! 3 \<longleftrightarrow> drop n raw = take 4 c"
proof -
  have small: "i < 4 \<longleftrightarrow> i = 0 \<or> i = 1 \<or> i = 2 \<or> i = 3" for i :: nat by arith
  have "drop n raw = take 4 c \<longleftrightarrow> (\<forall>i < 4. raw ! (n + i) = c ! i)"
    using assms by (auto simp: list_eq_iff_nth_eq)
  also have "\<dots> \<longleftrightarrow> raw ! n = c ! 0 \<and> raw ! (n + 1) = c ! 1 \<and> raw ! (n + 2) = c ! 2 \<and> raw ! (n + 3) = c ! 3"
    using small by (simp add: all_conj_distrib imp_disjL del: One_nat_def)
  finally show ?thesis by simp
qed

lemma base58check_decode_iff:
  assumes sha: "\<forall>x. length (sha256 x) = (32 :: nat)" and len: "length payload = 78"
  shows "base58check_decode sha256 s = payload \<longleftrightarrow> s = base58check_encode sha256 payload 120"
proof -
  define raw where "raw = base58_decode s"
  define c where "c = sha256d sha256 payload"
  have c: "length c = 32" using sha by (simp add: c_def sha256d_def)
  have "base58check_decode sha256 s = payload \<longleftrightarrow> raw = payload @ take 4 c"
  proof
    assume d: "base58check_decode sha256 s = payload"
    then have n: "length raw = 78 + 4" and p: "take 78 raw = payload"
      using len by (auto simp: base58check_decode_def Let_def raw_def [symmetric] split: if_splits)
    have "raw ! 78 = c ! 0 \<and> raw ! (78 + 1) = c ! 1 \<and> raw ! (78 + 2) = c ! 2 \<and> raw ! (78 + 3) = c ! 3"
      using d n p len by (auto simp: base58check_decode_def Let_def raw_def [symmetric] c_def split: if_splits)
    then have "drop 78 raw = take 4 c" using checksum_iff [OF n c] by blast
    then show "raw = payload @ take 4 c" using p by (metis append_take_drop_id)
  next
    assume r: "raw = payload @ take 4 c"
    then have n: "length raw = 78 + 4" using len c by simp
    have "drop 78 raw = take 4 c" "take 78 raw = payload" using r len by simp_all
    then show "base58check_decode sha256 s = payload"
      using checksum_iff [OF n c] n by (simp add: base58check_decode_def Let_def raw_def [symmetric] c_def)
  qed
  also have "\<dots> \<longleftrightarrow> text_of (payload @ take 4 c) s"
    unfolding raw_def using len c by (intro base58_decode_iff) simp_all
  also have "\<dots> \<longleftrightarrow> s = base58check_encode sha256 payload 120"
    using base58check_encode_text [OF sha len] text_of_unique by (auto simp: c_def)
  finally show ?thesis .
qed

section \<open>Serialized keys\<close>

definition KASPA_XPUB_VERSION :: bytes where "KASPA_XPUB_VERSION = [0x03, 0x8f, 0x33, 0x2e]"
definition KASPA_XPRV_VERSION :: bytes where "KASPA_XPRV_VERSION = [0x03, 0x8f, 0x2e, 0xf4]"
definition XPUB_PAYLOAD_LEN :: nat where "XPUB_PAYLOAD_LEN = 78"
definition KPUB_MAX_LEN :: nat where "KPUB_MAX_LEN = 120"
definition XPRV_MAX_LEN :: nat where "XPRV_MAX_LEN = 120"

text \<open>The copies into \<open>[0u8; XPUB_PAYLOAD_LEN]\<close> that every serializer starts with.\<close>

definition fill_payload :: "bytes \<Rightarrow> u8 \<Rightarrow> bytes \<Rightarrow> bytes \<Rightarrow> bytes \<Rightarrow> bytes" where
  "fill_payload version depth parent_fp child_num chain_code =
     blit chain_code 13 (blit child_num 9 (blit parent_fp 5 ((blit version 0 (zeros XPUB_PAYLOAD_LEN))[4 := depth])))"

definition parent_fingerprint :: "(bytes \<Rightarrow> bytes) \<Rightarrow> (bytes \<Rightarrow> bytes) \<Rightarrow> bytes \<Rightarrow> bytes" where
  "parent_fingerprint sha256 ripemd160 parent_pubkey_compressed =
     (let h160 = ripemd160 (sha256 parent_pubkey_compressed) in [h160 ! 0, h160 ! 1, h160 ! 2, h160 ! 3])"

text \<open>\<open>[(w >> 24) as u8, (w >> 16) as u8, (w >> 8) as u8, w as u8]\<close>\<close>

definition shift_bytes :: "u32 \<Rightarrow> bytes" where
  "shift_bytes w = [ucast (drop_bit 24 w), ucast (drop_bit 16 w), ucast (drop_bit 8 w), ucast w]"

definition serialize_kpub ::
  "'pt crypto \<Rightarrow> (bytes \<Rightarrow> bytes) \<Rightarrow> (bytes \<Rightarrow> bytes) \<Rightarrow> xprv \<Rightarrow> bytes \<Rightarrow> u32 \<Rightarrow> bip32_error + bytes" where
  "serialize_kpub cr sha256 ripemd160 account_key parent_pubkey_compressed child_index =
     (let payload = fill_payload KASPA_XPUB_VERSION 3 (parent_fingerprint sha256 ripemd160 parent_pubkey_compressed)
                      (shift_bytes child_index) (xk_chain account_key)
      in tryR (public_key_compressed cr account_key) (\<lambda>pubkey.
           Inr (base58check_encode sha256 (blit pubkey 45 payload) KPUB_MAX_LEN)))"

definition serialize_kpub_from_account :: "'pt crypto \<Rightarrow> (bytes \<Rightarrow> bytes) \<Rightarrow> xprv \<Rightarrow> bip32_error + bytes" where
  "serialize_kpub_from_account cr sha256 account_key =
     (let payload = (blit KASPA_XPUB_VERSION 0 (zeros XPUB_PAYLOAD_LEN))[4 := 3, 9 := 0x80];
          payload = blit (xk_chain account_key) 13 payload
      in tryR (public_key_compressed cr account_key) (\<lambda>pubkey.
           Inr (base58check_encode sha256 (blit pubkey 45 payload) KPUB_MAX_LEN)))"

definition KASPA_PARENT_PATH :: "u32 list" where
  "KASPA_PARENT_PATH = [0x8000002C, 0x8001B207]"

definition derive_and_serialize_kpub ::
  "'pt crypto \<Rightarrow> (bytes \<Rightarrow> bytes) \<Rightarrow> (bytes \<Rightarrow> bytes) \<Rightarrow> bytes \<Rightarrow> bip32_error + bytes" where
  "derive_and_serialize_kpub cr sha256 ripemd160 seed =
     tryR (derive_path cr seed KASPA_PARENT_PATH) (\<lambda>parent_key.
     tryR (public_key_compressed cr parent_key) (\<lambda>parent_pubkey.
     tryR (derive_path cr seed KASPA_ACCOUNT_PATH) (\<lambda>account_key.
       serialize_kpub cr sha256 ripemd160 account_key parent_pubkey (KASPA_ACCOUNT_PATH ! 2))))"

definition derive_account_raw_kpub_payload ::
  "'pt crypto \<Rightarrow> (bytes \<Rightarrow> bytes) \<Rightarrow> (bytes \<Rightarrow> bytes) \<Rightarrow> bytes \<Rightarrow> bip32_error + bytes" where
  "derive_account_raw_kpub_payload cr sha256 ripemd160 seed =
     tryR (derive_path cr seed KASPA_PARENT_PATH) (\<lambda>parent_key.
     tryR (public_key_compressed cr parent_key) (\<lambda>parent_pubkey.
     tryR (derive_path cr seed KASPA_ACCOUNT_PATH) (\<lambda>account_key.
       let out = fill_payload KASPA_XPUB_VERSION 3 (parent_fingerprint sha256 ripemd160 parent_pubkey)
                   (shift_bytes (KASPA_ACCOUNT_PATH ! 2)) (xk_chain account_key)
       in tryR (public_key_compressed cr account_key) (\<lambda>pubkey. Inr (blit pubkey 45 out)))))"

definition serialize_xprv_from_account :: "(bytes \<Rightarrow> bytes) \<Rightarrow> xprv \<Rightarrow> bytes" where
  "serialize_xprv_from_account sha256 account_key =
     (let payload = (blit KASPA_XPRV_VERSION 0 (zeros XPUB_PAYLOAD_LEN))[4 := 3, 9 := 0x80];
          payload = (blit (xk_chain account_key) 13 payload)[45 := 0x00]
      in base58check_encode sha256 (blit (xk_key account_key) 46 payload) XPRV_MAX_LEN)"

definition derive_and_serialize_xprv ::
  "'pt crypto \<Rightarrow> (bytes \<Rightarrow> bytes) \<Rightarrow> (bytes \<Rightarrow> bytes) \<Rightarrow> bytes \<Rightarrow> bip32_error + bytes" where
  "derive_and_serialize_xprv cr sha256 ripemd160 seed =
     tryR (derive_path cr seed KASPA_PARENT_PATH) (\<lambda>parent_key.
     tryR (public_key_compressed cr parent_key) (\<lambda>parent_pubkey.
     tryR (derive_path cr seed KASPA_ACCOUNT_PATH) (\<lambda>account_key.
       let payload = fill_payload KASPA_XPRV_VERSION 3 (parent_fingerprint sha256 ripemd160 parent_pubkey)
                       (to_be 4 (KASPA_ACCOUNT_PATH ! 2)) (xk_chain account_key)
       in Inr (base58check_encode sha256 (blit (xk_key account_key) 46 (payload[45 := 0x00])) XPRV_MAX_LEN))))"

definition serialize_kpub_parts :: "(bytes \<Rightarrow> bytes) \<Rightarrow> kpub_parts \<Rightarrow> bytes" where
  "serialize_kpub_parts sha256 parts =
     base58check_encode sha256
       (blit (kp_pubkey parts) 45
         (fill_payload KASPA_XPUB_VERSION (kp_depth parts) (kp_parent_fp parts) (kp_child_num parts) (kp_chain_code parts)))
       KPUB_MAX_LEN"

text \<open>The literal path of the code: purpose 45, not 44.\<close>

definition derive_multisig_account_parts ::
  "'pt crypto \<Rightarrow> (bytes \<Rightarrow> bytes) \<Rightarrow> (bytes \<Rightarrow> bytes) \<Rightarrow> bytes \<Rightarrow> u32 \<Rightarrow> bip32_error + kpub_parts" where
  "derive_multisig_account_parts cr sha256 ripemd160 seed account =
     tryR (derive_path cr seed [0x8000002D, 0x8001B207]) (\<lambda>parent_key.
     tryR (public_key_compressed cr parent_key) (\<lambda>parent_pubkey.
     tryR (derive_multisig_account_key cr seed account) (\<lambda>account_key.
     tryR (to_xpub cr account_key) (\<lambda>xpub.
       Inr \<lparr>kp_depth = 3, kp_parent_fp = parent_fingerprint sha256 ripemd160 parent_pubkey,
            kp_child_num = shift_bytes (account OR 0x80000000), kp_chain_code = xp_chain xpub, kp_pubkey = xp_pubkey xpub\<rparr>))))"

definition derive_and_serialize_multisig_kpub ::
  "'pt crypto \<Rightarrow> (bytes \<Rightarrow> bytes) \<Rightarrow> (bytes \<Rightarrow> bytes) \<Rightarrow> bytes \<Rightarrow> bip32_error + bytes" where
  "derive_and_serialize_multisig_kpub cr sha256 ripemd160 seed =
     tryR (derive_multisig_account_parts cr sha256 ripemd160 seed 0) (\<lambda>parts. Inr (serialize_kpub_parts sha256 parts))"

section \<open>Import\<close>

definition kpub_ascii_to_raw :: "(bytes \<Rightarrow> bytes) \<Rightarrow> bytes \<Rightarrow> bip32_error + bytes" where
  "kpub_ascii_to_raw sha256 ascii =
     (let buf = base58check_decode sha256 ascii
      in if length buf \<noteq> XPUB_PAYLOAD_LEN then Inl InvalidKey
         else if slice 0 4 buf \<noteq> KASPA_XPUB_VERSION then Inl InvalidKey
         else Inr buf)"

definition import_xprv :: "(bytes \<Rightarrow> bytes) \<Rightarrow> bytes \<Rightarrow> bip32_error + xprv" where
  "import_xprv sha256 xprv_str =
     (let payload = base58check_decode sha256 xprv_str
      in if length payload \<noteq> XPUB_PAYLOAD_LEN then Inl InvalidKey
         else if slice 0 4 payload \<noteq> KASPA_XPRV_VERSION then Inl InvalidKey
         else if payload ! 45 \<noteq> 0x00 then Inl InvalidKey
         else Inr \<lparr>xk_key = slice 46 32 payload, xk_chain = slice 13 32 payload, xk_depth = payload ! 4\<rparr>)"

definition import_kpub :: "(bytes \<Rightarrow> bytes) \<Rightarrow> bytes \<Rightarrow> bip32_error + xpub" where
  "import_kpub sha256 kpub_str =
     (let payload = base58check_decode sha256 kpub_str
      in if length payload \<noteq> XPUB_PAYLOAD_LEN then Inl InvalidKey
         else if slice 0 4 payload \<noteq> KASPA_XPUB_VERSION then Inl InvalidKey
         else Inr \<lparr>xp_pubkey = slice 45 33 payload, xp_chain = slice 13 32 payload, xp_depth = payload ! 4\<rparr>)"

definition parse_kpub_parts :: "(bytes \<Rightarrow> bytes) \<Rightarrow> bytes \<Rightarrow> kpub_parts option" where
  "parse_kpub_parts sha256 kpub_str =
     (let payload = base58check_decode sha256 kpub_str
      in if length payload \<noteq> XPUB_PAYLOAD_LEN then None
         else if slice 0 4 payload \<noteq> KASPA_XPUB_VERSION then None
         else if payload ! 45 \<noteq> 0x02 \<and> payload ! 45 \<noteq> 0x03 then None
         else Some \<lparr>kp_depth = payload ! 4, kp_parent_fp = slice 5 4 payload, kp_child_num = slice 9 4 payload,
                    kp_chain_code = slice 13 32 payload, kp_pubkey = slice 45 33 payload\<rparr>)"

definition import_kpub_raw :: "bytes \<Rightarrow> bip32_error + xpub" where
  "import_kpub_raw payload =
     (if length payload \<noteq> XPUB_PAYLOAD_LEN then Inl InvalidKey
      else if slice 0 4 payload \<noteq> KASPA_XPUB_VERSION then Inl InvalidKey
      else Inr \<lparr>xp_pubkey = slice 45 33 payload, xp_chain = slice 13 32 payload, xp_depth = payload ! 4\<rparr>)"

section \<open>Framing of QR payloads\<close>

definition PAYLOAD_V1_RAW :: u8 where "PAYLOAD_V1_RAW = 0x01"
definition MAX_RAW_LEN :: nat where "MAX_RAW_LEN = 2953"

datatype payload_kind = Legacy bytes | V1Raw bytes

definition classify :: "bytes \<Rightarrow> payload_kind" where
  "classify blob =
     (if blob = [] then Legacy blob
      else if blob ! 0 = PAYLOAD_V1_RAW then V1Raw (drop 1 blob)
      else Legacy blob)"

text \<open>\<open>out\<close> is returned with its new contents and the number of bytes written.\<close>

definition wrap_v1_raw :: "bytes \<Rightarrow> bytes \<Rightarrow> (nat \<times> bytes) option" where
  "wrap_v1_raw payload out =
     (if length payload > MAX_RAW_LEN then None
      else (let needed = length payload + 1
            in if length out < needed then None
               else Some (needed, blit payload 1 (out[0 := PAYLOAD_V1_RAW]))))"

definition import_kpub_any :: "(bytes \<Rightarrow> bytes) \<Rightarrow> bytes \<Rightarrow> bip32_error + xpub" where
  "import_kpub_any sha256 blob =
     (case classify blob of
        V1Raw raw \<Rightarrow> import_kpub_raw raw
      | Legacy ascii \<Rightarrow> import_kpub sha256 ascii)"

definition parse_kpub_parts_any :: "(bytes \<Rightarrow> bytes) \<Rightarrow> bytes \<Rightarrow> kpub_parts option" where
  "parse_kpub_parts_any sha256 blob =
     (case classify blob of
        V1Raw raw \<Rightarrow>
          (if length raw \<noteq> XPUB_PAYLOAD_LEN \<or> slice 0 4 raw \<noteq> KASPA_XPUB_VERSION then None
           else if raw ! 45 \<noteq> 0x02 \<and> raw ! 45 \<noteq> 0x03 then None
           else Some \<lparr>kp_depth = raw ! 4, kp_parent_fp = slice 5 4 raw, kp_child_num = slice 9 4 raw,
                      kp_chain_code = slice 13 32 raw, kp_pubkey = slice 45 33 raw\<rparr>)
      | Legacy ascii \<Rightarrow> parse_kpub_parts sha256 ascii)"

section \<open>The fields of a payload\<close>

lemma first_set: "0 < n \<Longrightarrow> take (Suc 0) ((replicate n x)[0 := d]) = [d]"
  by (cases n) simp_all

lemma payload_bytes:
  assumes "length version = 4" "length fp = 4" "length child = 4" "length chain = 32" "length key = 33"
  shows "blit key 45 (fill_payload version d fp child chain) = version @ [d] @ fp @ child @ chain @ key"
  using assms by (simp add: fill_payload_def blit_def XPUB_PAYLOAD_LEN_def list_update_append first_set)

lemma payload_bytes_private:
  assumes "length version = 4" "length fp = 4" "length child = 4" "length chain = 32" "length key = 32"
  shows "blit key 46 ((fill_payload version d fp child chain)[45 := 0]) = version @ [d] @ fp @ child @ chain @ [0] @ key"
  using assms by (simp add: fill_payload_def blit_def XPUB_PAYLOAD_LEN_def list_update_append first_set)

lemma payload_split:
  assumes "length payload = 78"
  shows "slice 0 4 payload @ [payload ! 4] @ slice 5 4 payload @ slice 9 4 payload @ slice 13 32 payload @ slice 45 33 payload = payload"
proof -
  have step: "slice n k payload @ drop (n + k) payload = drop n payload" for n k
    by (simp add: slice_def) (metis append_take_drop_id add.commute drop_drop)
  have "[payload ! 4] @ drop 5 payload = drop 4 payload" using assms Cons_nth_drop_Suc [of 4 payload] by simp
  moreover have "slice 45 33 payload = drop 45 payload" using assms by (simp add: slice_def)
  ultimately show ?thesis
    using step [of 0 4] step [of 5 4] step [of 9 4] step [of 13 32] by (simp add: assms)
qed

lemma payload_fields:
  assumes "length version = 4" "length fp = 4" "length child = 4" "length chain = 32" "length key = 33"
    and "payload = version @ [d] @ fp @ child @ chain @ key"
  shows "length payload = 78" "slice 0 4 payload = version" "payload ! 4 = d" "slice 5 4 payload = fp" "slice 9 4 payload = child"
    "slice 13 32 payload = chain" "slice 45 33 payload = key" "payload ! 45 = hd key" "slice 46 32 payload = tl key"
proof -
  show "payload ! 45 = hd key" using assms by (cases key) (simp_all add: nth_append)
  show "slice 46 32 payload = tl key" using assms by (cases key) (simp_all add: slice_def)
qed (use assms in \<open>simp_all add: slice_def nth_append\<close>)

text \<open>A kpub that the readers accept: fields of their widths and a compressed public key.\<close>

definition kpub_ok :: "kpub_parts \<Rightarrow> bool" where
  "kpub_ok p \<longleftrightarrow> length (kp_parent_fp p) = 4 \<and> length (kp_child_num p) = 4 \<and> length (kp_chain_code p) = 32 \<and>
     length (kp_pubkey p) = 33 \<and> hd (kp_pubkey p) \<in> {0x02, 0x03}"

definition kpub_payload :: "kpub_parts \<Rightarrow> bytes" where
  "kpub_payload p = KASPA_XPUB_VERSION @ [kp_depth p] @ kp_parent_fp p @ kp_child_num p @ kp_chain_code p @ kp_pubkey p"

lemma length_versions [simp]: "length KASPA_XPUB_VERSION = 4" "length KASPA_XPRV_VERSION = 4"
  by (simp_all add: KASPA_XPUB_VERSION_def KASPA_XPRV_VERSION_def)

lemma serialize_parts:
  "kpub_ok p \<Longrightarrow> serialize_kpub_parts sha256 p = base58check_encode sha256 (kpub_payload p) 120"
  by (simp add: serialize_kpub_parts_def payload_bytes kpub_ok_def kpub_payload_def KPUB_MAX_LEN_def)

lemma length_kpub_payload: "kpub_ok p \<Longrightarrow> length (kpub_payload p) = 78"
  by (simp add: kpub_payload_def kpub_ok_def)

text \<open>The reader of the five fields, from a payload.\<close>

definition parts_of_payload :: "bytes \<Rightarrow> kpub_parts option" where
  "parts_of_payload payload =
     (if length payload \<noteq> XPUB_PAYLOAD_LEN then None
      else if slice 0 4 payload \<noteq> KASPA_XPUB_VERSION then None
      else if payload ! 45 \<noteq> 0x02 \<and> payload ! 45 \<noteq> 0x03 then None
      else Some \<lparr>kp_depth = payload ! 4, kp_parent_fp = slice 5 4 payload, kp_child_num = slice 9 4 payload,
                 kp_chain_code = slice 13 32 payload, kp_pubkey = slice 45 33 payload\<rparr>)"

lemma parse_kpub_parts_payload: "parse_kpub_parts sha256 s = parts_of_payload (base58check_decode sha256 s)"
  by (simp add: parse_kpub_parts_def parts_of_payload_def Let_def)

lemma parts_of_payload_iff: "parts_of_payload payload = Some p \<longleftrightarrow> kpub_ok p \<and> payload = kpub_payload p"
proof
  assume r: "parts_of_payload payload = Some p"
  then have n: "length payload = 78" and v: "slice 0 4 payload = KASPA_XPUB_VERSION"
    and h: "payload ! 45 \<in> {0x02, 0x03}"
    and p: "p = \<lparr>kp_depth = payload ! 4, kp_parent_fp = slice 5 4 payload, kp_child_num = slice 9 4 payload,
                 kp_chain_code = slice 13 32 payload, kp_pubkey = slice 45 33 payload\<rparr>"
    by (auto simp: parts_of_payload_def XPUB_PAYLOAD_LEN_def split: if_splits)
  have "hd (slice 45 33 payload) = payload ! 45" using n by (simp add: slice_def hd_drop_conv_nth)
  then show "kpub_ok p \<and> payload = kpub_payload p"
    using payload_split [OF n] n h by (simp add: p kpub_ok_def kpub_payload_def v)
next
  assume k: "kpub_ok p \<and> payload = kpub_payload p"
  note f = payload_fields [of KASPA_XPUB_VERSION "kp_parent_fp p" "kp_child_num p" "kp_chain_code p" "kp_pubkey p" payload "kp_depth p"]
  show "parts_of_payload payload = Some p"
    using f k by (auto simp: kpub_ok_def kpub_payload_def parts_of_payload_def XPUB_PAYLOAD_LEN_def)
qed

lemma decode_payload_iff:
  assumes "\<forall>x. length (sha256 x) = (32 :: nat)" "length payload = 78"
  shows "base58check_decode sha256 (base58check_encode sha256 payload 120) = payload"
  using base58check_decode_iff [OF assms] by simp

section \<open>Exports\<close>

lemma shift_bytes_be: "shift_bytes w = to_be 4 w"
proof -
  have b: "ucast (drop_bit n w) = (of_nat (unat w div 2 ^ n) :: u8)" for n
    by (simp add: word_unat_eq_iff unsigned_ucast_eq unat_of_nat unat_drop_bit_eq take_bit_eq_mod) (simp add: drop_bit_eq_div)
  have low: "(of_nat (n mod 256) :: u8) = of_nat n" for n
    by (simp add: word_unat_eq_iff unat_of_nat)
  have "le_bytes (Suc (Suc (Suc (Suc 0)))) n = [of_nat n, of_nat (n div 256), of_nat (n div 256 div 256), of_nat (n div 256 div 256 div 256)]" for n
    by (simp add: low)
  moreover have "Suc (Suc (Suc (Suc 0))) = 4" by simp
  ultimately have four: "le_bytes 4 n = [of_nat n, of_nat (n div 256), of_nat (n div 256 div 256), of_nat (n div 256 div 256 div 256)]" for n
    by (simp only:)
  show ?thesis
    using b [of 0] b [of 8] b [of 16] b [of 24]
    by (simp add: shift_bytes_def to_be_def to_le_def four flip: div_mult2_eq)
qed

text \<open>What the code relies on of the hash crates and of compressed points.\<close>

definition hashes_ok :: "'pt crypto \<Rightarrow> (bytes \<Rightarrow> bytes) \<Rightarrow> (bytes \<Rightarrow> bytes) \<Rightarrow> bool" where
  "hashes_ok cr sha256 ripemd160 \<longleftrightarrow>
     (\<forall>x. length (sha256 x) = 32) \<and> (\<forall>x. length (ripemd160 x) = 20) \<and>
     (\<forall>k. cr_sk_ok cr k \<longrightarrow> length (cr_pubkey cr k) = 33 \<and> hd (cr_pubkey cr k) \<in> {0x02, 0x03})"

lemma length_parent_fingerprint [simp]: "length (parent_fingerprint sha256 ripemd160 pk) = 4"
  by (simp add: parent_fingerprint_def Let_def)

lemma length_shift_bytes [simp]: "length (shift_bytes w) = 4"
  by (simp add: shift_bytes_def)

lemma derive_path_key:
  assumes "crypto_ok cr" "derive_path cr seed path = Inr k"
  shows "xprv_ok cr k" "unat (xk_depth k) = min 255 (length path)"
proof -
  obtain m where m: "master_key_from_seed cr seed = Inr m" "derive_steps cr m path = Inr k"
    using assms(2) by (auto simp: derive_path_def tryR_eq_Inr split: if_splits)
  then have "xprv_ok cr m" "xk_depth m = 0" using master_key_yields [OF assms(1), of seed] by simp_all
  then show "xprv_ok cr k" "unat (xk_depth k) = min 255 (length path)"
    using derive_steps_yields [OF assms(1), of m path] m(2) by simp_all
qed

lemma account_key_ok:
  assumes "crypto_ok cr" "derive_path cr seed KASPA_ACCOUNT_PATH = Inr k"
  shows "cr_sk_ok cr (xk_key k)" "length (xk_key k) = 32" "length (xk_chain k) = 32" "xk_depth k = 3"
proof -
  have "unat (xk_depth k) = unat (3 :: u8)"
    using derive_path_key(2) [OF assms] by (simp add: KASPA_ACCOUNT_PATH_def)
  then show "xk_depth k = 3" by (simp only: word_unat_eq_iff)
qed (use derive_path_key(1) [OF assms] assms(1) in \<open>auto simp: xprv_ok_def crypto_ok_def\<close>)

text \<open>The account key as the public payload and as the private one.\<close>

definition account_parts :: "'pt crypto \<Rightarrow> bytes \<Rightarrow> xprv \<Rightarrow> kpub_parts" where
  "account_parts cr fp k = \<lparr>kp_depth = 3, kp_parent_fp = fp, kp_child_num = to_be 4 (0x80000000 :: u32),
     kp_chain_code = xk_chain k, kp_pubkey = cr_pubkey cr (xk_key k)\<rparr>"

lemma account_path_last: "KASPA_ACCOUNT_PATH ! 2 = 0x80000000"
  by (simp add: KASPA_ACCOUNT_PATH_def HARDENED_BIT_def)

lemma derive_kpub_cases:
  assumes "crypto_ok cr" "hashes_ok cr sha256 ripemd160" "derive_and_serialize_kpub cr sha256 ripemd160 seed = Inr s"
  obtains k fp where "derive_path cr seed KASPA_ACCOUNT_PATH = Inr k" "kpub_ok (account_parts cr fp k)"
    "s = base58check_encode sha256 (kpub_payload (account_parts cr fp k)) 120"
    "derive_account_raw_kpub_payload cr sha256 ripemd160 seed = Inr (kpub_payload (account_parts cr fp k))"
proof -
  obtain pk pub k where d: "derive_path cr seed KASPA_PARENT_PATH = Inr pk" "public_key_compressed cr pk = Inr pub"
     "derive_path cr seed KASPA_ACCOUNT_PATH = Inr k"
     "serialize_kpub cr sha256 ripemd160 k pub (KASPA_ACCOUNT_PATH ! 2) = Inr s"
    using assms(3) by (auto simp: derive_and_serialize_kpub_def tryR_eq_Inr)
  note ok = account_key_ok [OF assms(1) d(3)]
  define fp where "fp = parent_fingerprint sha256 ripemd160 pub"
  have pub: "public_key_compressed cr k = Inr (cr_pubkey cr (xk_key k))" using ok by (simp add: public_key_compressed_def)
  have len: "length (cr_pubkey cr (xk_key k)) = 33" using assms(2) ok(1) by (simp add: hashes_ok_def)
  show ?thesis
  proof (rule that [OF d(3), of fp])
    show "kpub_ok (account_parts cr fp k)"
      using assms(2) ok by (simp add: kpub_ok_def account_parts_def fp_def hashes_ok_def)
    have bytes: "blit (cr_pubkey cr (xk_key k)) 45 (fill_payload KASPA_XPUB_VERSION 3 fp (shift_bytes (KASPA_ACCOUNT_PATH ! 2)) (xk_chain k)) =
        kpub_payload (account_parts cr fp k)"
      using len ok(3) by (simp add: payload_bytes fp_def kpub_payload_def account_parts_def shift_bytes_be account_path_last)
    show "s = base58check_encode sha256 (kpub_payload (account_parts cr fp k)) 120"
      using d(4) by (simp add: serialize_kpub_def pub KPUB_MAX_LEN_def bytes flip: fp_def)
    show "derive_account_raw_kpub_payload cr sha256 ripemd160 seed = Inr (kpub_payload (account_parts cr fp k))"
      using d(1-3) by (simp add: derive_account_raw_kpub_payload_def pub bytes flip: fp_def)
  qed
qed

lemma import_kpub_payload:
  assumes "parts_of_payload payload = Some p"
  shows "import_kpub_raw payload = Inr \<lparr>xp_pubkey = kp_pubkey p, xp_chain = kp_chain_code p, xp_depth = kp_depth p\<rparr>"
  using assms by (auto simp: parts_of_payload_def import_kpub_raw_def split: if_splits)

lemma import_kpub_decoded: "import_kpub sha256 s = import_kpub_raw (base58check_decode sha256 s)"
  by (simp add: import_kpub_def import_kpub_raw_def Let_def)

lemma import_xprv_payload:
  assumes "length fp = 4" "length child = 4" "length (xk_chain k) = 32" "length (xk_key k) = 32"
    and sha: "\<forall>x. length (sha256 x) = (32 :: nat)"
    and s: "s = base58check_encode sha256 (KASPA_XPRV_VERSION @ [xk_depth k] @ fp @ child @ xk_chain k @ [0] @ xk_key k) 120"
  shows "import_xprv sha256 s = Inr k"
proof -
  define payload where "payload = KASPA_XPRV_VERSION @ [xk_depth k] @ fp @ child @ xk_chain k @ [0] @ xk_key k"
  have "length ([0] @ xk_key k) = 33" using assms(4) by simp
  note f = payload_fields [OF length_versions(2) assms(1-3) this payload_def]
  have "length payload = 78" using assms(1-4) by (simp add: payload_def)
  then have "base58check_decode sha256 s = payload" using decode_payload_iff [OF sha] s by (simp add: payload_def)
  then show ?thesis
    using f by (simp add: import_xprv_def XPUB_PAYLOAD_LEN_def Let_def flip: payload_def)
qed

lemma derive_xprv_imports:
  assumes "crypto_ok cr" "\<forall>x. length (sha256 x) = (32 :: nat)" "derive_and_serialize_xprv cr sha256 ripemd160 seed = Inr s"
  shows "import_xprv sha256 s = derive_path cr seed KASPA_ACCOUNT_PATH"
proof -
  obtain pk pub k where d: "derive_path cr seed KASPA_PARENT_PATH = Inr pk" "public_key_compressed cr pk = Inr pub"
     "derive_path cr seed KASPA_ACCOUNT_PATH = Inr k"
     "s = base58check_encode sha256 (blit (xk_key k) 46 ((fill_payload KASPA_XPRV_VERSION 3 (parent_fingerprint sha256 ripemd160 pub)
         (to_be 4 (KASPA_ACCOUNT_PATH ! 2)) (xk_chain k))[45 := 0x00])) 120"
    using assms(3) by (auto simp: derive_and_serialize_xprv_def tryR_eq_Inr XPRV_MAX_LEN_def Let_def)
  note ok = account_key_ok [OF assms(1) d(3)]
  have "s = base58check_encode sha256 (KASPA_XPRV_VERSION @ [xk_depth k] @ parent_fingerprint sha256 ripemd160 pub @
      to_be 4 (KASPA_ACCOUNT_PATH ! 2) @ xk_chain k @ [0] @ xk_key k) 120"
    using ok d(4) by (simp add: payload_bytes_private)
  then show ?thesis unfolding d(3) using ok assms(2) by (intro import_xprv_payload) simp_all
qed

lemma derive_multisig_parts_ok:
  assumes "crypto_ok cr" "hashes_ok cr sha256 ripemd160" "derive_multisig_account_parts cr sha256 ripemd160 seed account = Inr p"
  shows "kpub_ok p" "tryR (derive_multisig_account_key cr seed account) (to_xpub cr) =
     Inr \<lparr>xp_pubkey = kp_pubkey p, xp_chain = kp_chain_code p, xp_depth = kp_depth p\<rparr>"
proof -
  obtain pub k where k: "derive_multisig_account_key cr seed account = Inr k"
     and p: "tryR (to_xpub cr k) (\<lambda>xpub. Inr \<lparr>kp_depth = 3, kp_parent_fp = parent_fingerprint sha256 ripemd160 pub,
            kp_child_num = shift_bytes (account OR 0x80000000), kp_chain_code = xp_chain xpub, kp_pubkey = xp_pubkey xpub\<rparr>) = Inr p"
    using assms(3) by (auto simp: derive_multisig_account_parts_def tryR_eq_Inr)
  note d = derive_path_key [OF assms(1) k [unfolded derive_multisig_account_key_def]]
  have "unat (xk_depth k) = unat (3 :: u8)"
    using d(2) by (simp add: KASPA_MULTISIG_ACCOUNT_PATH_def)
  then have depth: "xk_depth k = 3" by (simp only: word_unat_eq_iff)
  have sk: "cr_sk_ok cr (xk_key k)" "length (xk_chain k) = 32" using d(1) by (simp_all add: xprv_ok_def)
  have x: "to_xpub cr k = Inr \<lparr>xp_pubkey = cr_pubkey cr (xk_key k), xp_chain = xk_chain k, xp_depth = 3\<rparr>"
    using sk(1) depth by (simp add: to_xpub_def public_key_compressed_def)
  show "kpub_ok p" using p sk assms(2) by (auto simp: x kpub_ok_def hashes_ok_def)
  show "tryR (derive_multisig_account_key cr seed account) (to_xpub cr) =
     Inr \<lparr>xp_pubkey = kp_pubkey p, xp_chain = kp_chain_code p, xp_depth = kp_depth p\<rparr>"
    using p by (auto simp: k x)
qed

lemma parse_parts_iff:
  assumes "\<forall>x. length (sha256 x) = (32 :: nat)"
  shows "parse_kpub_parts sha256 s = Some p \<longleftrightarrow> kpub_ok p \<and> s = serialize_kpub_parts sha256 p"
proof -
  have "parse_kpub_parts sha256 s = Some p \<longleftrightarrow> kpub_ok p \<and> base58check_decode sha256 s = kpub_payload p"
    by (simp add: parse_kpub_parts_payload parts_of_payload_iff)
  then show ?thesis
    using base58check_decode_iff [OF assms length_kpub_payload, of p s] serialize_parts [of p sha256] by auto
qed

lemma classify_wrapped:
  assumes "wrap_v1_raw payload out = Some (n, out')"
  shows "classify (take n out') = V1Raw payload" "n = length payload + 1" "length out' = length out"
proof -
  have o: "n = length payload + 1" "length payload < length out" "out' = blit payload 1 (out[0 := PAYLOAD_V1_RAW])"
    using assms by (auto simp: wrap_v1_raw_def Let_def split: if_splits)
  have "take 1 (out[0 := PAYLOAD_V1_RAW]) = [PAYLOAD_V1_RAW]" using o(2) by (cases out) simp_all
  then have "take n out' = PAYLOAD_V1_RAW # payload" using o by (simp add: blit_def)
  then show "classify (take n out') = V1Raw payload" by (simp add: classify_def)
  show "n = length payload + 1" "length out' = length out" using o by simp_all
qed

lemma parse_any_raw: "classify blob = V1Raw raw \<Longrightarrow> parse_kpub_parts_any sha256 blob = parts_of_payload raw"
  by (simp add: parse_kpub_parts_any_def parts_of_payload_def)

text \<open>A text that carries a payload is not taken for a raw blob.\<close>

lemma classify_text:
  assumes "base58check_decode sha256 s \<noteq> []"
  shows "classify s = Legacy s"
proof (cases s)
  case (Cons ch rest)
  have "base58_char_value 1 = 0xFF"
    unfolding base58_char_value_def by (rule char_index_notin) (simp add: ALPHABET_list)
  then have "base58_decode (1 # rest) = []" by (simp add: base58_decode_def)
  then have "ch \<noteq> 1" using assms Cons by (auto simp: base58check_decode_def)
  then show ?thesis using Cons by (simp add: classify_def PAYLOAD_V1_RAW_def)
qed (simp add: classify_def)

lemma derive_steps_append:
  "derive_steps cr k (p @ q) = tryR (derive_steps cr k p) (\<lambda>k'. derive_steps cr k' q)"
  by (induction p arbitrary: k) (simp_all add: tryR_def split: sum.split)

lemma account_path_parent: "KASPA_ACCOUNT_PATH = KASPA_PARENT_PATH @ [0x80000000]"
  by (simp add: KASPA_ACCOUNT_PATH_def KASPA_PARENT_PATH_def HARDENED_BIT_def)

text \<open>The parent of the account key fails with the error of the account key, or is derived.\<close>

lemma derive_parent:
  assumes "crypto_ok cr"
  shows "case derive_path cr seed KASPA_PARENT_PATH of
      Inl e \<Rightarrow> derive_path cr seed KASPA_ACCOUNT_PATH = Inl e
    | Inr pk \<Rightarrow> \<exists>pub. public_key_compressed cr pk = Inr pub"
proof -
  have "derive_path cr seed KASPA_ACCOUNT_PATH =
      tryR (derive_path cr seed KASPA_PARENT_PATH) (\<lambda>k. derive_steps cr k [0x80000000])"
    unfolding derive_path_def account_path_parent
    by (simp add: derive_steps_append KASPA_PARENT_PATH_def tryR_def split: sum.split)
  then show ?thesis
    using xprv_pubkey derive_path_key(1) [OF assms] by (fastforce split: sum.split)
qed

lemma fill_reexport:
  assumes "length v = 4" "length chain = 32"
  shows "blit chain 13 ((blit v 0 (zeros XPUB_PAYLOAD_LEN))[4 := 3, 9 := 0x80]) = fill_payload v 3 (zeros 4) [0x80, 0, 0, 0] chain"
  using assms by (simp add: fill_payload_def blit_def XPUB_PAYLOAD_LEN_def list_update_append first_set)
    (simp add: numeral_eq_Suc)

lemma serialize_private_bytes:
  assumes "length (xk_key k) = 32" "length (xk_chain k) = 32"
  shows "serialize_xprv_from_account sha256 k =
      base58check_encode sha256 (KASPA_XPRV_VERSION @ [3] @ zeros 4 @ [0x80, 0, 0, 0] @ xk_chain k @ [0] @ xk_key k) 120"
  using assms by (simp add: serialize_xprv_from_account_def fill_reexport payload_bytes_private XPRV_MAX_LEN_def Let_def)

lemma reexport_imports:
  assumes "xprv_ok cr k" "xk_depth k = 3" "length (xk_key k) = 32" "hashes_ok cr sha256 ripemd160"
  shows "import_xprv sha256 (serialize_xprv_from_account sha256 k) = Inr k"
    "\<exists>u. serialize_kpub_from_account cr sha256 k = Inr u \<and> import_kpub sha256 u = to_xpub cr k"
proof -
  have sk: "cr_sk_ok cr (xk_key k)" "length (xk_chain k) = 32" using assms(1) by (simp_all add: xprv_ok_def)
  have sha: "\<forall>x. length (sha256 x) = 32" using assms(4) by (simp add: hashes_ok_def)
  have "serialize_xprv_from_account sha256 k =
      base58check_encode sha256 (KASPA_XPRV_VERSION @ [xk_depth k] @ zeros 4 @ [0x80, 0, 0, 0] @ xk_chain k @ [0] @ xk_key k) 120"
    using serialize_private_bytes [OF assms(3) sk(2)] assms(2) by simp
  from import_xprv_payload [OF _ _ sk(2) assms(3) sha this]
  show "import_xprv sha256 (serialize_xprv_from_account sha256 k) = Inr k" by simp
  define p where "p = \<lparr>kp_depth = 3, kp_parent_fp = zeros 4, kp_child_num = [0x80, 0, 0, 0],
     kp_chain_code = xk_chain k, kp_pubkey = cr_pubkey cr (xk_key k)\<rparr>"
  have p: "kpub_ok p" using sk assms(4) by (simp add: p_def kpub_ok_def hashes_ok_def)
  have "serialize_kpub_from_account cr sha256 k = Inr (serialize_kpub_parts sha256 p)"
    using sk fill_reexport [OF _ sk(2)]
    by (simp add: serialize_kpub_from_account_def serialize_kpub_parts_def public_key_compressed_def p_def Let_def)
  moreover have "import_kpub sha256 (serialize_kpub_parts sha256 p) = to_xpub cr k"
    using import_kpub_payload [of "kpub_payload p" p] p sk(1) assms(2) sha
    by (simp add: import_kpub_decoded serialize_parts decode_payload_iff length_kpub_payload parts_of_payload_iff
        to_xpub_def public_key_compressed_def) (simp add: p_def)
  ultimately show "\<exists>u. serialize_kpub_from_account cr sha256 k = Inr u \<and> import_kpub sha256 u = to_xpub cr k" by blast
qed

lemma derive_kpub_total:
  assumes "crypto_ok cr" "hashes_ok cr sha256 ripemd160" "derive_path cr seed KASPA_ACCOUNT_PATH = Inr k"
  shows "\<exists>s. derive_and_serialize_kpub cr sha256 ripemd160 seed = Inr s" "\<exists>t. derive_and_serialize_xprv cr sha256 ripemd160 seed = Inr t"
proof -
  obtain pk pub where "derive_path cr seed KASPA_PARENT_PATH = Inr pk" "public_key_compressed cr pk = Inr pub"
    using derive_parent [OF assms(1), of seed] assms(3) by (auto split: sum.splits)
  then show "\<exists>s. derive_and_serialize_kpub cr sha256 ripemd160 seed = Inr s" "\<exists>t. derive_and_serialize_xprv cr sha256 ripemd160 seed = Inr t"
    using assms(3) account_key_ok(1) [OF assms(1,3)]
    by (simp_all add: derive_and_serialize_kpub_def derive_and_serialize_xprv_def serialize_kpub_def public_key_compressed_def Let_def)
qed

lemma derive_kpub_error:
  assumes "crypto_ok cr" "derive_path cr seed KASPA_ACCOUNT_PATH = Inl e"
  shows "derive_and_serialize_kpub cr sha256 ripemd160 seed = Inl e" "derive_account_raw_kpub_payload cr sha256 ripemd160 seed = Inl e"
    "derive_and_serialize_xprv cr sha256 ripemd160 seed = Inl e"
  using derive_parent [OF assms(1), of seed] assms(2)
  by (auto simp: derive_and_serialize_kpub_def derive_account_raw_kpub_payload_def derive_and_serialize_xprv_def split: sum.splits)

lemma kpub_export_imports:
  assumes "crypto_ok cr" "hashes_ok cr sha256 ripemd160" "derive_and_serialize_kpub cr sha256 ripemd160 seed = Inr s"
    and k: "derive_path cr seed KASPA_ACCOUNT_PATH = Inr k"
  obtains raw where "derive_account_raw_kpub_payload cr sha256 ripemd160 seed = Inr raw" "kpub_ascii_to_raw sha256 s = Inr raw"
    "import_kpub sha256 s = to_xpub cr k" "import_kpub_raw raw = to_xpub cr k"
proof -
  have sha: "\<forall>x. length (sha256 x) = 32" using assms(2) by (simp add: hashes_ok_def)
  obtain fp where p: "kpub_ok (account_parts cr fp k)"
    "s = base58check_encode sha256 (kpub_payload (account_parts cr fp k)) 120"
    "derive_account_raw_kpub_payload cr sha256 ripemd160 seed = Inr (kpub_payload (account_parts cr fp k))"
    using derive_kpub_cases [OF assms(1-3)] k by (metis sum.inject(2))
  define raw where "raw = kpub_payload (account_parts cr fp k)"
  have d: "base58check_decode sha256 s = raw"
    using decode_payload_iff [OF sha length_kpub_payload [OF p(1)]] p(2) by (simp add: raw_def)
  have parts: "parts_of_payload raw = Some (account_parts cr fp k)" using p(1) by (simp add: parts_of_payload_iff raw_def)
  note ok = account_key_ok [OF assms(1) k]
  have x: "import_kpub_raw raw = to_xpub cr k"
    using import_kpub_payload [OF parts] ok by (simp add: account_parts_def to_xpub_def public_key_compressed_def)
  have "kpub_ascii_to_raw sha256 s = Inr raw"
    using parts by (auto simp: kpub_ascii_to_raw_def d Let_def parts_of_payload_def split: if_splits)
  then show ?thesis using that p(3) x by (simp add: import_kpub_decoded d flip: raw_def)
qed

section \<open>Prefixes\<close>

lemma value58_take: "length ds = k + n \<Longrightarrow> \<forall>d \<in> set ds. d < 58 \<Longrightarrow> value58 (take k ds) = value58 ds div 58 ^ n"
  using value58_append [of "take k ds" "drop k ds"] value58_bound [of "drop k ds"] by (simp add: in_set_dropD)

lemma be_value_append: "be_value (as @ bs) = be_value as * 256 ^ length bs + be_value bs"
  by (induction as) (simp_all add: be_value_Cons power_add algebra_simps)

lemma text_prefix:
  assumes t: "text_of raw s" and raw: "length raw = 82" "hd raw \<noteq> 0" "be_value (take 4 raw) = v"
    and range: "58 ^ 107 * w \<le> v * 256 ^ 78" "(v + 1) * 256 ^ 78 \<le> 58 ^ 107 * (w + 1)" "58 ^ 3 \<le> w" "w < 58 ^ 4"
    and w: "value58 pre = w" "length pre = 4" "\<forall>d \<in> set pre. d < 58"
  shows "length s = 111 \<and> take 4 s = map ((!) BASE58_ALPHABET) pre"
proof -
  obtain z ds bs where s: "s = replicate z (of_char CHR ''1'') @ map ((!) BASE58_ALPHABET) ds" "raw = replicate z 0 @ bs"
     "minimal ds" "\<forall>d \<in> set ds. d < 58" "minimal bs" "value58 ds = be_value bs"
    using t unfolding text_of_def by blast
  have "z = 0" using raw(2) s(2) by (cases z) simp_all
  then have bs: "bs = raw" using s(2) by simp
  have "be_value raw = v * 256 ^ 78 + be_value (drop 4 raw)"
    using be_value_append [of "take 4 raw" "drop 4 raw"] raw by simp
  moreover have "be_value (drop 4 raw) < 256 ^ 78" using be_value_bound [of "drop 4 raw"] raw(1) by simp
  ultimately have lo: "58 ^ 107 * w \<le> value58 ds" and hi: "value58 ds < 58 ^ 107 * (w + 1)"
    using range(1,2) unfolding s(6) bs add_mult_distrib by linarith+
  have "(58 :: nat) ^ 110 \<le> 58 ^ 107 * w" using mult_le_mono2 [OF range(3), of "58 ^ 107"] by (simp flip: power_add)
  moreover have "58 ^ 107 * (w + 1) \<le> (58 :: nat) ^ 111" using mult_le_mono2 [of "w + 1" "58 ^ 4" "58 ^ 107"] range(4) by (simp flip: power_add)
  ultimately have b: "58 ^ 110 \<le> value58 ds" "value58 ds < 58 ^ 111" using lo hi by linarith+
  have "ds \<noteq> []" using b(1) by auto
  have "length ds \<le> 111" using shorter [of "length ds" 58 "value58 ds" 111] value58_pos [OF _ s(3)] b(2) by auto
  moreover have "(58 :: nat) ^ 110 < 58 ^ length ds" using b(1) value58_bound [OF s(4)] by (rule le_less_trans)
  then have "110 < length ds" by (rule power_less_imp_less_exp [rotated]) simp
  ultimately have len: "length ds = 4 + 107" by simp
  have "value58 (take 4 ds) = w"
    using value58_take [OF len s(4)] lo hi by (simp add: div_nat_eqI algebra_simps)
  then have "take 4 ds = pre"
    using value58_inj_length [of "take 4 ds" pre] w len s(4) by (auto dest: in_set_takeD)
  then show ?thesis using s(1) \<open>z = 0\<close> len by (simp add: take_map)
qed

lemma kpub_text_prefix:
  assumes "text_of (KASPA_XPUB_VERSION @ rest) s" "length rest = 78"
  shows "length s = 111 \<and> take 4 s = map of_char ''kpub''"
proof -
  have "length s = 111 \<and> take 4 s = map ((!) BASE58_ALPHABET) [43, 47, 52, 34]"
    by (rule text_prefix [OF assms(1), where v = "0x038f332e" and w = 8550974])
      (simp_all add: assms(2) KASPA_XPUB_VERSION_def be_value_def)
  then show ?thesis by (simp add: ALPHABET_list)
qed

lemma kprv_text_prefix:
  assumes "text_of (KASPA_XPRV_VERSION @ rest) s" "length rest = 78"
  shows "length s = 111 \<and> take 4 s = map of_char ''kprv''"
proof -
  have "length s = 111 \<and> take 4 s = map ((!) BASE58_ALPHABET) [43, 47, 49, 53]"
    by (rule text_prefix [OF assms(1), where v = "0x038f2ef4" and w = 8550819])
      (simp_all add: assms(2) KASPA_XPRV_VERSION_def be_value_def)
  then show ?thesis by (simp add: ALPHABET_list)
qed

section \<open>Properties\<close>

text \<open>
  C33: The text form of an extended public key is canonical. A text parses to five fields exactly if it is the
  one text the serializer writes for them and the fields are of their widths with a compressed public key:
  every other text (a wrong checksum, version, length, character or a second spelling) is refused, so that
  comparing texts, as the descriptor sort does, compares keys.
\<close>

theorem kpub_text_iff:
  assumes "\<forall>x. length (sha256 x) = (32 :: nat)"
  shows "parse_kpub_parts sha256 s = Some p \<longleftrightarrow> kpub_ok p \<and> s = serialize_kpub_parts sha256 p"
  by (rule parse_parts_iff [OF assms])

definition sample_parts :: kpub_parts where
  "sample_parts = \<lparr>kp_depth = 3, kp_parent_fp = [1, 2, 3, 4], kp_child_num = [0x80, 0, 0, 0],
     kp_chain_code = replicate 32 9, kp_pubkey = 2 # replicate 32 8\<rparr>"

theorem kpub_text_iff_witness:
  "parse_kpub_parts (\<lambda>_. replicate 32 7) (serialize_kpub_parts (\<lambda>_. replicate 32 7) sample_parts) = Some sample_parts"
  using kpub_text_iff [of "\<lambda>_. replicate 32 7" "serialize_kpub_parts (\<lambda>_. replicate 32 7) sample_parts" sample_parts]
  by (simp add: sample_parts_def kpub_ok_def)

text \<open>
  C34: What the device exports imports back as the account key. For a seed whose account key derives, the kpub
  text, its raw form and the text made from a cached account key all read back as that account's public key,
  converting the text gives the raw form, and both private exports read back as the account key itself; for
  any other seed every export reports the error of the derivation.
\<close>

theorem exports_import_back:
  assumes "crypto_ok cr" "hashes_ok cr sha256 ripemd160"
  shows "case derive_account_key cr seed of
      Inl e \<Rightarrow> derive_and_serialize_kpub cr sha256 ripemd160 seed = Inl e \<and>
        derive_account_raw_kpub_payload cr sha256 ripemd160 seed = Inl e \<and> derive_and_serialize_xprv cr sha256 ripemd160 seed = Inl e
    | Inr k \<Rightarrow> (\<exists>s raw t u. derive_and_serialize_kpub cr sha256 ripemd160 seed = Inr s \<and> import_kpub sha256 s = to_xpub cr k \<and>
        derive_account_raw_kpub_payload cr sha256 ripemd160 seed = Inr raw \<and> kpub_ascii_to_raw sha256 s = Inr raw \<and>
        import_kpub_raw raw = to_xpub cr k \<and>
        derive_and_serialize_xprv cr sha256 ripemd160 seed = Inr t \<and> import_xprv sha256 t = Inr k \<and>
        import_xprv sha256 (serialize_xprv_from_account sha256 k) = Inr k \<and>
        serialize_kpub_from_account cr sha256 k = Inr u \<and> import_kpub sha256 u = to_xpub cr k)"
proof (cases "derive_path cr seed KASPA_ACCOUNT_PATH")
  case (Inl e)
  then show ?thesis using derive_kpub_error [OF assms(1) Inl] by (simp add: derive_account_key_def)
next
  case (Inr k)
  have sha: "\<forall>x. length (sha256 x) = 32" using assms(2) by (simp add: hashes_ok_def)
  note ok = account_key_ok [OF assms(1) Inr] derive_path_key(1) [OF assms(1) Inr]
  obtain s t where st: "derive_and_serialize_kpub cr sha256 ripemd160 seed = Inr s" "derive_and_serialize_xprv cr sha256 ripemd160 seed = Inr t"
    using derive_kpub_total [OF assms Inr] by blast
  obtain raw where "derive_account_raw_kpub_payload cr sha256 ripemd160 seed = Inr raw" "kpub_ascii_to_raw sha256 s = Inr raw"
    "import_kpub sha256 s = to_xpub cr k" "import_kpub_raw raw = to_xpub cr k"
    using kpub_export_imports [OF assms st(1) Inr] by blast
  moreover have "import_xprv sha256 t = Inr k" using derive_xprv_imports [OF assms(1) sha st(2)] Inr by simp
  ultimately show ?thesis
    using st reexport_imports [OF ok(5,4,2) assms(2)] by (simp add: derive_account_key_def Inr)
qed

lemma counting_hashes_ok: "hashes_ok counting_crypto (\<lambda>_. replicate 32 7) (\<lambda>_. replicate 20 5)"
  by (simp add: hashes_ok_def counting_crypto_def sample_crypto_def)

theorem exports_import_back_witness:
  "\<exists>k t. derive_account_key counting_crypto (replicate 64 7) = Inr k \<and>
     derive_and_serialize_xprv counting_crypto (\<lambda>_. replicate 32 7) (\<lambda>_. replicate 20 5) (replicate 64 7) = Inr t \<and>
     import_xprv (\<lambda>_. replicate 32 7) t = Inr k"
proof -
  have "list_all is_hardened KASPA_ACCOUNT_PATH" "length KASPA_ACCOUNT_PATH = 3" "KASPA_ACCOUNT_PATH \<noteq> []"
    by (simp_all add: KASPA_ACCOUNT_PATH_def is_hardened_def HARDENED_BIT_def)
  then obtain k where "derive_account_key counting_crypto (replicate 64 7) = Inr k"
    using counting_path [of KASPA_ACCOUNT_PATH "replicate 64 7"] by (auto simp: derive_account_key_def)
  then show ?thesis
    using exports_import_back [OF counting_crypto_ok counting_hashes_ok, of "replicate 64 7"] by auto
qed

text \<open>
  The two wire forms agree. A kpub text converted to its raw payload and framed for a QR code is 79 bytes
  and is read, by the importer and by the reader of the five fields, exactly as the text itself is, which the
  framing never takes for a raw payload.
\<close>

theorem wire_forms_agree:
  assumes "kpub_ascii_to_raw sha256 s = Inr raw" "wrap_v1_raw raw out = Some (n, out')"
  shows "n = 79 \<and> import_kpub_any sha256 (take n out') = import_kpub_any sha256 s \<and>
     parse_kpub_parts_any sha256 (take n out') = parse_kpub_parts_any sha256 s"
proof -
  have d: "base58check_decode sha256 s = raw" "length raw = 78"
    using assms(1) by (auto simp: kpub_ascii_to_raw_def Let_def XPUB_PAYLOAD_LEN_def split: if_splits)
  then have "classify s = Legacy s" by (intro classify_text [of sha256]) auto
  then show ?thesis
    using classify_wrapped [OF assms(2)] d
    by (simp add: parse_any_raw parse_kpub_parts_payload import_kpub_any_def import_kpub_decoded)
      (simp add: parse_kpub_parts_any_def parse_kpub_parts_payload)
qed

theorem wire_forms_agree_witness:
  "\<exists>raw out'. kpub_ascii_to_raw (\<lambda>_. replicate 32 7) (serialize_kpub_parts (\<lambda>_. replicate 32 7) sample_parts) = Inr raw \<and>
     wrap_v1_raw raw (zeros 80) = Some (79, out') \<and>
     parse_kpub_parts_any (\<lambda>_. replicate 32 7) (take 79 out') = Some sample_parts"
proof -
  let ?sha = "\<lambda>_ :: bytes. replicate 32 (7 :: u8)"
  define s where "s = serialize_kpub_parts ?sha sample_parts"
  have ok: "kpub_ok sample_parts" by (simp add: sample_parts_def kpub_ok_def)
  then have p: "parse_kpub_parts ?sha s = Some sample_parts" using parse_parts_iff [of ?sha s sample_parts] by (simp add: s_def)
  then obtain raw where raw: "kpub_ascii_to_raw ?sha s = Inr raw" "length raw = 78"
    by (auto simp: parse_kpub_parts_def kpub_ascii_to_raw_def Let_def XPUB_PAYLOAD_LEN_def split: if_splits)
  then obtain n out' where w: "wrap_v1_raw raw (zeros 80) = Some (n, out')" by (simp add: wrap_v1_raw_def MAX_RAW_LEN_def Let_def)
  have "base58check_decode ?sha s \<noteq> []" using raw by (auto simp: kpub_ascii_to_raw_def Let_def XPUB_PAYLOAD_LEN_def split: if_splits)
  then have "parse_kpub_parts_any ?sha s = Some sample_parts"
    using classify_text p by (simp add: parse_kpub_parts_any_def)
  then show ?thesis using wire_forms_agree [OF raw(1) w] raw(1) w by (auto simp: s_def)
qed

text \<open>The multisig export parses to the parts that a descriptor holds, the public key of the 45' account.\<close>

lemma multisig_export_imports:
  assumes "crypto_ok cr" "hashes_ok cr sha256 ripemd160" "derive_and_serialize_multisig_kpub cr sha256 ripemd160 seed = Inr s"
  shows "\<exists>p. derive_multisig_account_parts cr sha256 ripemd160 seed 0 = Inr p \<and> parse_kpub_parts sha256 s = Some p \<and>
     tryR (derive_multisig_account_key cr seed 0) (to_xpub cr) =
       Inr \<lparr>xp_pubkey = kp_pubkey p, xp_chain = kp_chain_code p, xp_depth = kp_depth p\<rparr>"
proof -
  obtain p where p: "derive_multisig_account_parts cr sha256 ripemd160 seed 0 = Inr p" "s = serialize_kpub_parts sha256 p"
    using assms(3) by (auto simp: derive_and_serialize_multisig_kpub_def tryR_eq_Inr)
  moreover have "parse_kpub_parts sha256 s = Some p"
    using parse_parts_iff [of sha256 s p] derive_multisig_parts_ok(1) [OF assms(1,2) p(1)] assms(2) p(2) by (simp add: hashes_ok_def)
  ultimately show ?thesis using derive_multisig_parts_ok(2) [OF assms(1,2) p(1)] by blast
qed

text \<open>
  Every exported key is 111 characters long, so the buffers of 120 suffice, and names its kind: a public key
  reads \<open>kpub..\<close> and a private key \<open>kprv..\<close>, whatever the key.
\<close>

theorem export_prefixes:
  assumes "\<forall>x. length (sha256 x) = (32 :: nat)" "kpub_ok p" "length (xk_key k) = 32" "length (xk_chain k) = 32"
  shows "length (serialize_kpub_parts sha256 p) = 111 \<and> take 4 (serialize_kpub_parts sha256 p) = map of_char ''kpub'' \<and>
     length (serialize_xprv_from_account sha256 k) = 111 \<and> take 4 (serialize_xprv_from_account sha256 k) = map of_char ''kprv''"
proof -
  let ?check = "\<lambda>payload. take 4 (sha256d sha256 payload)"
  have c: "length (sha256d sha256 payload) = 32" for payload using assms(1) by (simp add: sha256d_def)
  define pub where "pub = [kp_depth p] @ kp_parent_fp p @ kp_child_num p @ kp_chain_code p @ kp_pubkey p"
  define prv where "prv = [3 :: u8] @ zeros 4 @ [0x80, 0, 0, 0] @ xk_chain k @ [0] @ xk_key k"
  have len: "length pub = 74" "length prv = 74" using assms(2-4) by (simp_all add: pub_def prv_def kpub_ok_def)
  have "text_of (KASPA_XPUB_VERSION @ pub @ ?check (KASPA_XPUB_VERSION @ pub)) (serialize_kpub_parts sha256 p)"
    using base58check_encode_text [OF assms(1), of "KASPA_XPUB_VERSION @ pub"] assms(2) len
    by (simp add: serialize_parts kpub_payload_def pub_def)
  from kpub_text_prefix [OF this]
  have one: "length (serialize_kpub_parts sha256 p) = 111 \<and> take 4 (serialize_kpub_parts sha256 p) = map of_char ''kpub''"
    using len c by (simp del: of_char_Char)
  have "text_of (KASPA_XPRV_VERSION @ prv @ ?check (KASPA_XPRV_VERSION @ prv)) (serialize_xprv_from_account sha256 k)"
    using base58check_encode_text [OF assms(1), of "KASPA_XPRV_VERSION @ prv"] len
    by (simp add: serialize_private_bytes assms(3,4) prv_def)
  from kprv_text_prefix [OF this]
  have "length (serialize_xprv_from_account sha256 k) = 111 \<and> take 4 (serialize_xprv_from_account sha256 k) = map of_char ''kprv''"
    using len c by (simp del: of_char_Char)
  then show ?thesis using one by blast
qed

theorem export_prefixes_witness:
  "take 4 (serialize_kpub_parts (\<lambda>_. replicate 32 7) sample_parts) = map of_char ''kpub'' \<and>
   take 4 (serialize_xprv_from_account (\<lambda>_. replicate 32 7) sample_xprv) = map of_char ''kprv''"
  using export_prefixes [of "\<lambda>_. replicate 32 7" sample_parts sample_xprv]
  by (simp add: sample_parts_def kpub_ok_def sample_xprv_def del: of_char_Char)

end
