(* ===== verification/KasTimefmt.thy ===== *)
theory KasTimefmt
  imports KasPrelude "HOL-Library.Signed_Division"
begin

text \<open>
  Lock times for the review screen (core/src/timefmt.rs): the conversion of a day count to a calendar
  date, the fields of a millisecond timestamp and the label. The calendar is specified by what the next
  day of a date is. An \<open>i64\<close> is an integer: the day counts that a \<open>u64\<close> of milliseconds yields are far
  from its limits. Division is Rust's, which truncates.
\<close>

section \<open>The code\<close>

type_synonym i32 = "32 word"

definition LOCK_TIME_THRESHOLD :: u64 where "LOCK_TIME_THRESHOLD = 500000000000"

record civil =
  cv_year :: i32
  cv_month :: u8
  cv_day :: u8
  cv_hour :: u8
  cv_minute :: u8
  cv_second :: u8

definition civil_from_days :: "int \<Rightarrow> i32 \<times> u8 \<times> u8" where
  "civil_from_days z =
     (let z = z + 719468;
          era = (if z \<ge> 0 then z else z - 146096) sdiv 146097;
          doe = z - era * 146097;
          yoe = (doe - doe sdiv 1460 + doe sdiv 36524 - doe sdiv 146096) sdiv 365;
          y = yoe + era * 400;
          doy = doe - (365 * yoe + yoe sdiv 4 - yoe sdiv 100);
          mp = (5 * doy + 2) sdiv 153;
          d = (word_of_int (doy - (153 * mp + 2) sdiv 5 + 1) :: u8);
          m = (word_of_int (if mp < 10 then mp + 3 else mp - 9) :: u8);
          y = (if m \<le> 2 then y + 1 else y)
      in (word_of_int y, m, d))"

definition civil_from_unix_ms :: "u64 \<Rightarrow> civil" where
  "civil_from_unix_ms ms =
     (let secs = ms div 1000;
          days = sint (secs div 86400);
          sod = secs mod 86400;
          (year, month, day) = civil_from_days days
      in \<lparr>cv_year = year, cv_month = month, cv_day = day, cv_hour = ucast (sod div 3600),
          cv_minute = ucast ((sod mod 3600) div 60), cv_second = ucast (sod mod 60)\<rparr>)"

datatype lock_time = LockNone | DaaScore u64 | Timestamp civil

definition classify_lock_time :: "u64 \<Rightarrow> lock_time" where
  "classify_lock_time lock =
     (if lock = 0 then LockNone
      else if lock < LOCK_TIME_THRESHOLD then DaaScore lock
      else Timestamp (civil_from_unix_ms lock))"

text \<open>
  The writer \<open>W\<close> of the label is what it has written of its 40 bytes; \<open>write!\<close> hands it the pieces of the
  format one after the other and stops at the first that does not fit.
\<close>

definition write_str :: "bytes \<Rightarrow> bytes \<Rightarrow> bytes option" where
  "write_str s w = (if length w + length s > 40 then None else Some (w @ s))"

fun write_pieces :: "bytes list \<Rightarrow> bytes \<Rightarrow> bytes" where
  "write_pieces [] w = w"
| "write_pieces (s # pieces) w = (case write_str s w of None \<Rightarrow> w | Some w \<Rightarrow> write_pieces pieces w)"

text \<open>\<open>\{\}\<close> and \<open>\{:0width\}\<close> of a number.\<close>

fun decimal :: "nat \<Rightarrow> bytes" where
  "decimal n = (if n < 10 then [0x30 + of_nat n] else decimal (n div 10) @ [0x30 + of_nat (n mod 10)])"

definition padded :: "nat \<Rightarrow> nat \<Rightarrow> bytes" where
  "padded width n = replicate (width - length (decimal n)) 0x30 @ decimal n"

definition ascii_bytes :: "string \<Rightarrow> bytes" where
  "ascii_bytes s = map of_char s"

definition lock_time_label :: "u64 \<Rightarrow> bytes" where
  "lock_time_label lock =
     (case classify_lock_time lock of
        LockNone \<Rightarrow> []
      | DaaScore d \<Rightarrow> write_pieces [ascii_bytes ''Locked until DAA '', decimal (unat d)] []
      | Timestamp c \<Rightarrow> write_pieces
          [ascii_bytes ''Locked until '', padded 4 (nat (sint (cv_year c))), ascii_bytes ''-'', padded 2 (unat (cv_month c)),
           ascii_bytes ''-'', padded 2 (unat (cv_day c)), ascii_bytes '' '', padded 2 (unat (cv_hour c)), ascii_bytes '':'',
           padded 2 (unat (cv_minute c)), ascii_bytes '' UTC''] [])"

section \<open>The calendar\<close>

text \<open>A date is year, month and day; the next day follows from the lengths of the months.\<close>

definition leap :: "int \<Rightarrow> bool" where
  "leap y \<longleftrightarrow> 4 dvd y \<and> (\<not> 100 dvd y \<or> 400 dvd y)"

definition month_days :: "int \<Rightarrow> nat \<Rightarrow> nat" where
  "month_days y m = (if m = 2 then if leap y then 29 else 28 else if m \<in> {4, 6, 9, 11} then 30 else 31)"

fun next_day :: "int \<times> nat \<times> nat \<Rightarrow> int \<times> nat \<times> nat" where
  "next_day (y, m, d) =
     (if d < month_days y m then (y, m, d + 1)
      else if m < 12 then (y, m + 1, 1)
      else (y + 1, 1, 1))"

definition date_of :: "nat \<Rightarrow> int \<times> nat \<times> nat" where
  "date_of n = (next_day ^^ n) (1970, 1, 1)"

section \<open>Years and months that begin in March\<close>

text \<open>The day of the era at which year \<open>y\<close> of the era begins, and the day of the year at which month \<open>m\<close> begins.\<close>

definition year_start :: "nat \<Rightarrow> nat" where
  "year_start y = 365 * y + y div 4 - y div 100 + y div 400"

definition month_start :: "nat \<Rightarrow> nat" where
  "month_start m = (153 * m + 2) div 5"

text \<open>What \<open>civil_from_days\<close> computes for the day of the era.\<close>

definition era_days :: "nat \<Rightarrow> nat" where
  "era_days doe = doe - doe div 1460 + doe div 36524 - doe div 146096"

lemma days_step:
  "a' \<le> Suc a \<Longrightarrow> a \<le> d \<Longrightarrow> a' \<le> Suc d \<Longrightarrow> b \<le> b' \<Longrightarrow> d - a + b - 0 \<le> Suc d - a' + b' - (0 :: nat)"
  by linarith

lemma era_days_Suc:
  assumes "Suc d \<le> 146096"
  shows "era_days d \<le> era_days (Suc d)"
proof (cases "Suc d = 146096")
  case True
  then have "d = 146095" by simp
  then show ?thesis by (simp add: era_days_def)
next
  case False
  then have z: "d div 146096 = 0" "Suc d div 146096 = 0" using assms by simp_all
  have "Suc d div 1460 \<le> Suc (d div 1460)" by (simp add: div_Suc)
  then show ?thesis
    unfolding era_days_def z by (intro days_step div_le_dividend div_le_mono) simp_all
qed

lemma era_days_mono: "a \<le> b \<Longrightarrow> b \<le> 146096 \<Longrightarrow> era_days a \<le> era_days b"
  by (induction rule: dec_induct) (use era_days_Suc in force)+

definition year_bounds :: "nat \<Rightarrow> bool" where
  "year_bounds y \<longleftrightarrow> 365 * y \<le> era_days (year_start y) \<and> era_days (year_start (y + 1) - 1) < 365 * (y + 1)"

lemma list_all_upt: "a < b \<Longrightarrow> list_all P [a..<b] \<longleftrightarrow> P a \<and> list_all P [a + 1..<b]" "list_all P [b..<b]"
  by (simp_all add: upt_rec)

lemma year_bounds_parts:
  shows "list_all year_bounds [0..<40]"
    "list_all year_bounds [40..<80]"
    "list_all year_bounds [80..<120]"
    "list_all year_bounds [120..<160]"
    "list_all year_bounds [160..<200]"
    "list_all year_bounds [200..<240]"
    "list_all year_bounds [240..<280]"
    "list_all year_bounds [280..<320]"
    "list_all year_bounds [320..<360]"
    "list_all year_bounds [360..<400]"
  by (simp_all add: list_all_upt year_bounds_def era_days_def year_start_def)

lemma year_bounds:
  assumes "y < 400"
  shows "year_bounds y"
proof -
  have "list_all P [a..<b] \<Longrightarrow> list_all P [b..<c] \<Longrightarrow> a \<le> b \<Longrightarrow> b \<le> c \<Longrightarrow> list_all P [a..<c]" for a b c and P :: "nat \<Rightarrow> bool"
    by (metis le_Suc_ex list_all_append upt_add_eq_append)
  from this [OF this [OF this [OF this [OF this [OF this [OF this [OF this [OF this [OF year_bounds_parts(1,2)] year_bounds_parts(3)]
      year_bounds_parts(4)] year_bounds_parts(5)] year_bounds_parts(6)] year_bounds_parts(7)] year_bounds_parts(8)] year_bounds_parts(9)]
      year_bounds_parts(10)]
  have "list_all year_bounds [0..<400]" by simp
  then show ?thesis using assms by (simp add: list_all_iff)
qed

lemma year_of_day:
  assumes "y < 400" "year_start y \<le> doe" "doe < year_start (y + 1)"
  shows "era_days doe div 365 = y" "doe \<le> 146096"
proof -
  have "year_start (y + 1) \<le> year_start 400"
    unfolding year_start_def using assms(1) div_le_mono [of "y + 1" 400 4] div_le_mono [of "y + 1" 400 100] by simp
  then show b: "doe \<le> 146096" using assms(3) by (simp add: year_start_def)
  have "era_days (year_start y) \<le> era_days doe" using assms(2) b by (rule era_days_mono)
  moreover have "doe \<le> year_start (y + 1) - 1" using assms(3) by linarith
  moreover have "year_start 400 = 146097" by (simp add: year_start_def)
  then have "year_start (y + 1) - 1 \<le> 146096" using \<open>year_start (y + 1) \<le> year_start 400\<close> by linarith
  then have "era_days doe \<le> era_days (year_start (y + 1) - 1)"
    by (rule era_days_mono [OF calculation(2)])
  ultimately have "365 * y \<le> era_days doe" "era_days doe < 365 * (y + 1)"
    using year_bounds [OF assms(1)] unfolding year_bounds_def by linarith+
  then show "era_days doe div 365 = y" by (intro div_nat_eqI) (simp_all add: ac_simps)
qed

lemma month_of_day:
  assumes "month_start m \<le> doy" "doy < month_start (m + 1)"
  shows "(5 * doy + 2) div 153 = m"
proof -
  have "153 * m + 2 < 5 * doy + 5" "5 * doy + 5 \<le> 153 * (m + 1) + 2"
    using assms unfolding month_start_def by linarith+
  then show ?thesis by (intro div_nat_eqI) simp_all
qed

text \<open>The date of the \<open>k\<close>-th day of month \<open>m\<close> (March is 0) of year \<open>y\<close> of era \<open>e\<close>.\<close>

definition march_date :: "nat \<Rightarrow> nat \<Rightarrow> nat \<Rightarrow> nat \<Rightarrow> int \<times> nat \<times> nat" where
  "march_date e y m k = (int (400 * e + y) + (if m < 10 then 0 else 1), if m < 10 then m + 3 else m - 9, k + 1)"

definition year_days :: "nat \<Rightarrow> nat" where
  "year_days y = year_start (y + 1) - year_start y"

definition at_day :: "nat \<Rightarrow> nat \<Rightarrow> nat \<Rightarrow> nat \<Rightarrow> nat \<Rightarrow> bool" where
  "at_day n e y m k \<longleftrightarrow> n + 719468 = 146097 * e + year_start y + month_start m + k \<and> y < 400 \<and> m < 12 \<and>
     month_start m + k < year_days y \<and> month_start m + k < month_start (m + 1)"

lemma sdiv_int [simp]: "int a sdiv numeral b = int (a div numeral b)"
  by (simp add: signed_divide_int_def sgn_if zdiv_int)

lemma civil_at_day:
  assumes "at_day n e y m k" "march_date e y m k = (yy, mm, dd)"
  shows "civil_from_days (int n) = (word_of_int yy, of_nat mm, of_nat dd)"
proof -
  define doy where "doy = month_start m + k"
  define doe where "doe = year_start y + doy"
  have r: "n + 719468 = 146097 * e + doe" "y < 400" "m < 12" "doy < month_start (m + 1)" "month_start m \<le> doy"
    and "doy < year_days y"
    using assms(1) by (simp_all add: at_day_def doy_def doe_def)
  then have doe: "year_start y \<le> doe" "doe < year_start (y + 1)" by (simp_all add: doe_def year_days_def)
  note yr = year_of_day [OF r(2) doe]
  note mon = month_of_day [OF r(5,4)]
  have era: "(n + 719468) div 146097 = e" using r(1) yr(2) by simp
  have z: "int n + 719468 = int (n + 719468)" by simp
  have doe_eq: "int (n + 719468) - int e * 146097 = int doe" using r(1) by simp
  have "doe div 1460 \<le> doe" "doe div 146096 \<le> 1" using yr(2) div_le_mono [of doe 146096 146096] by simp_all
  moreover have "doe div 146096 \<le> doe - doe div 1460 + doe div 36524" using div_le_mono2 [of 36524 146096 doe] by simp
  ultimately have ed: "int doe - int (doe div 1460) + int (doe div 36524) - int (doe div 146096) = int (era_days doe)"
    by (simp add: era_days_def)
  have "y div 100 \<le> y div 4" by (rule div_le_mono2) simp_all
  then have ys: "365 * int y + int (y div 4) - int (y div 100) = int (year_start y)" using r(2) by (simp add: year_start_def)
  have doy_eq: "int doe - int (year_start y) = int doy" by (simp add: doe_def)
  have five: "5 * int doy + 2 = int (5 * doy + 2)" "153 * int m + 2 = int (153 * m + 2)" by simp_all
  have day: "int doy - int (month_start m) + 1 = int (k + 1)" by (simp add: doy_def)
  have month: "(if int m < 10 then int m + 3 else int m - 9) = int (if m < 10 then m + 3 else m - 9)" by simp
  define M where "M = (if m < 10 then m + 3 else m - 9)"
  have "(of_nat M :: u8) \<le> 2 \<longleftrightarrow> \<not> m < 10"
    using r(3) by (auto simp: M_def word_le_nat_alt unat_of_nat)
  then show ?thesis
    using assms(2)
    unfolding civil_from_days_def Let_def z march_date_def
    by (simp only: of_nat_0_le_iff if_True sdiv_int era doe_eq ed yr(1) ys doy_eq five mon month_start_def [symmetric] day month M_def [symmetric])
      (auto simp: M_def [symmetric])
qed

lemma year_arith:
  "B \<le> A \<Longrightarrow> b \<le> 1 \<Longrightarrow> 365 * (y + 1) + (A + a) - (B + b) + (C + c) - (365 * y + A - B + C) = 365 + a + c - (b :: nat)"
  by (auto simp: le_iff_add)

lemma leap_count:
  "n = 365 + (if a then 1 else 0) + (if c then 1 else 0) - (if b then 1 else 0) \<Longrightarrow> (b \<Longrightarrow> a) \<Longrightarrow> (c \<Longrightarrow> b) \<Longrightarrow>
     n = (if a \<and> (\<not> b \<or> c) then 366 else 365 :: nat)"
  by (cases a; cases b; cases c; simp)

lemma year_days_eq: "year_days y = (if 4 dvd y + 1 \<and> (\<not> 100 dvd y + 1 \<or> 400 dvd y + 1) then 366 else 365)"
proof -
  have d: "(y + 1) div c = y div c + (if c dvd y + 1 then 1 else 0)" for c
    by (simp add: div_Suc dvd_eq_mod_eq_0)
  have "year_days y = 365 + (if 4 dvd y + 1 then 1 else 0) + (if 400 dvd y + 1 then 1 else 0) - (if 100 dvd y + 1 then 1 else 0)"
    unfolding year_days_def year_start_def d by (rule year_arith) (simp_all add: div_le_mono2)
  moreover have "100 dvd y + 1 \<Longrightarrow> 4 dvd y + 1" "400 dvd y + 1 \<Longrightarrow> 100 dvd y + 1"
    using dvd_trans [of 4 100 "y + 1"] dvd_trans [of 100 400 "y + 1"] by simp_all
  ultimately show ?thesis by (rule leap_count)
qed

lemma year_days_cases: "365 \<le> year_days y" "year_days y \<le> 366"
  by (simp_all add: year_days_eq)

text \<open>March has month number 0: the months of a year of the era.\<close>

lemma month_starts [simp]:
  "month_start 0 = 0" "month_start (Suc 0) = 31" "month_start (Suc (Suc 0)) = 61" "month_start 2 = 61" "month_start 3 = 92" "month_start 4 = 122" "month_start 5 = 153"
  "month_start 6 = 184" "month_start 7 = 214" "month_start 8 = 245" "month_start 9 = 275" "month_start 10 = 306" "month_start 11 = 337"
  "month_start 12 = 367"
  by (simp_all add: month_start_def)

lemma month_cases:
  assumes "(m :: nat) < 12"
  obtains "m = 0" | "m = 1" | "m = 2" | "m = 3" | "m = 4" | "m = 5" | "m = 6" | "m = 7" | "m = 8" | "m = 9" | "m = 10" | "m = 11"
proof -
  from assms have "m = 0 \<or> m = 1 \<or> m = 2 \<or> m = 3 \<or> m = 4 \<or> m = 5 \<or> m = 6 \<or> m = 7 \<or> m = 8 \<or> m = 9 \<or> m = 10 \<or> m = 11"
    by arith
  then show thesis using that by blast
qed

lemma month_start_less: "month_start m < month_start (m + 1)" "m < 11 \<Longrightarrow> month_start (m + 1) \<le> 337"
  by (simp_all add: month_start_def)

lemma month_days_march:
  assumes "y < 400" "m < 12" "march_date e y m k = (yy, mm, dd)"
  shows "month_days yy mm = min (month_start (m + 1) - month_start m) (year_days y - month_start m)"
proof -
  note yd = year_days_eq [of y]
  have era: "int (400 * e + y) + 1 = int (y + 1) + 400 * int e" by simp
  have "leap (int (400 * e + y) + 1) \<longleftrightarrow> leap (int (y + 1))"
    unfolding leap_def era by (simp add: dvd_add_left_iff dvd_mult2 del: of_nat_Suc of_nat_add)
  also have "\<dots> \<longleftrightarrow> 4 dvd y + 1 \<and> (\<not> 100 dvd y + 1 \<or> 400 dvd y + 1)"
    using int_dvd_int_iff [of 4 "y + 1"] int_dvd_int_iff [of 100 "y + 1"] int_dvd_int_iff [of 400 "y + 1"]
    by (simp add: leap_def del: of_nat_Suc of_nat_add)
  finally have leap: "leap (int (400 * e + y) + 1) \<longleftrightarrow> year_days y = 366" by (simp add: yd)
  have yd2: "year_days y = 365 \<or> year_days y = 366" by (simp add: yd)
  from assms(2) show ?thesis
    by (cases rule: month_cases) (use assms(3) yd2 leap in \<open>auto simp: march_date_def month_days_def\<close>)
qed

lemma at_day_step:
  assumes "at_day n e y m k"
  shows "\<exists>e' y' m' k'. at_day (n + 1) e' y' m' k' \<and> march_date e' y' m' k' = next_day (march_date e y m k)"
proof -
  obtain yy mm dd where date: "march_date e y m k = (yy, mm, dd)" by (cases "march_date e y m k")
  have at: "n + 719468 = 146097 * e + year_start y + month_start m + k" "y < 400" "m < 12"
     "month_start m + k < year_days y" "month_start m + k < month_start (m + 1)"
    using assms by (simp_all add: at_day_def)
  note md = month_days_march [OF at(2,3) date]
  have k: "dd = k + 1" using date by (simp add: march_date_def split: if_splits)
  show ?thesis
  proof (cases "k + 1 < month_days yy mm")
    case True
    then have "k + 1 < month_start (m + 1) - month_start m" "k + 1 < year_days y - month_start m"
      using md by simp_all
    then have "month_start m + (k + 1) < month_start (m + 1)" "month_start m + (k + 1) < year_days y" by linarith+
    then have "at_day (n + 1) e y m (k + 1)" using at by (simp add: at_day_def)
    moreover have "march_date e y m (k + 1) = next_day (march_date e y m k)"
      using True k date by (simp add: march_date_def)
    ultimately show ?thesis by blast
  next
    case False
    have year: "365 \<le> year_days y" by (rule year_days_cases)
    show ?thesis
    proof (cases "m < 11")
      case True
      note ms = month_start_less [of m] month_start_less [of "m + 1"]
      have "month_start (m + 1) - month_start m \<le> k + 1" using False md ms(1,2) True year by linarith
      then have "month_start (m + 1) = month_start m + k + 1" using at(5) by linarith
      then have "at_day (n + 1) e y (m + 1) 0"
        using at ms True year by (simp add: at_day_def)
      moreover have "march_date e y (m + 1) 0 = next_day (march_date e y m k)"
      proof -
        have ym: "yy = int (400 * e + y) + (if m < 10 then 0 else 1)" "mm = (if m < 10 then m + 3 else m - 9)"
          using date by (simp_all add: march_date_def)
        have "march_date e y (m + 1) 0 = (if mm < 12 then (yy, mm + 1, 1) else (yy + 1, 1, 1))"
        proof (cases "m < 10")
          case True
          then show ?thesis unfolding ym march_date_def by (cases "m = 9") simp_all
        next
          case False
          then have "m = 10" using \<open>m < 11\<close> by simp
          then show ?thesis unfolding ym march_date_def by simp
        qed
        then show ?thesis using \<open>\<not> k + 1 < month_days yy mm\<close> k by (simp add: date)
      qed
      ultimately show ?thesis by blast
    next
      case False
      then have m: "m = 11" using at(3) by simp
      have "year_days y \<le> 366" by (rule year_days_cases)
      then have full: "337 + k + 1 = year_days y" using \<open>\<not> k + 1 < month_days yy mm\<close> md at m year
        by simp
      have next_year: "year_start y + 337 + k + 1 = year_start (y + 1)" using full year by (simp add: year_days_def)
      have rolled: "next_day (march_date e y m k) = (int (400 * e + y) + 1, 3, 1)"
        using \<open>\<not> k + 1 < month_days yy mm\<close> k date m by (auto simp: march_date_def)
      show ?thesis
      proof (cases "y = 399")
        case True
        then have "at_day (n + 1) (e + 1) 0 0 0"
          using at(1) m next_year by (simp add: at_day_def month_start_def year_start_def year_days_def)
        moreover have "march_date (e + 1) 0 0 0 = next_day (march_date e y m k)" unfolding rolled using True by (simp add: march_date_def)
        ultimately show ?thesis by blast
      next
        case False
        then have "at_day (n + 1) e (y + 1) 0 0"
          using at(1,2) m next_year year_days_cases [of "y + 1"] by (simp add: at_day_def month_start_def)
        moreover have "march_date e (y + 1) 0 0 = next_day (march_date e y m k)" unfolding rolled by (simp add: march_date_def)
        ultimately show ?thesis by blast
      qed
    qed
  qed
qed

lemma date_at_day: "\<exists>e y m k. at_day n e y m k \<and> march_date e y m k = date_of n"
proof (induction n)
  case 0
  have "at_day 0 4 369 10 0" by (simp add: at_day_def year_start_def year_days_def)
  moreover have "march_date 4 369 10 0 = date_of 0" by (simp add: march_date_def date_of_def)
  ultimately show ?case by blast
next
  case (Suc n)
  then obtain e y m k where "at_day n e y m k" "march_date e y m k = date_of n" by blast
  from at_day_step [OF this(1)] this(2) show ?case by (simp add: date_of_def)
qed

lemma civil_from_days_correct:
  "date_of n = (y, m, d) \<Longrightarrow> civil_from_days (int n) = (word_of_int y, of_nat m, of_nat d)"
  using date_at_day [of n] civil_at_day by metis

text \<open>What a date of the calendar is, and how far the year can go.\<close>

lemma date_range:
  "date_of n = (y, m, d) \<Longrightarrow> 1 \<le> m \<and> m \<le> 12 \<and> 1 \<le> d \<and> d \<le> month_days y m \<and> 1970 \<le> y \<and> y \<le> 1970 + int n"
proof (induction n arbitrary: y m d)
  case (Suc n)
  obtain y' m' d' where d: "date_of n = (y', m', d')" by (cases "date_of n")
  have "(y, m, d) = next_day (y', m', d')" using Suc.prems d by (simp add: date_of_def)
  then show ?case using Suc.IH [OF d] by (auto split: if_splits) (auto simp: month_days_def)
qed (auto simp: date_of_def month_days_def)

lemma month_days_less: "month_days y m \<le> 31"
  by (simp add: month_days_def)

lemma year_range:
  assumes "date_of n = (y, m, d)"
  shows "365 * (y - 1) \<le> int n + 719468"
proof -
  obtain e yy mm k where at: "at_day n e yy mm k" "march_date e yy mm k = (y, m, d)" using date_at_day [of n] assms by metis
  have "yy div 100 \<le> yy div 4" by (rule div_le_mono2) simp_all
  then have "365 * yy \<le> year_start yy" unfolding year_start_def by linarith
  moreover have "n + 719468 = 146097 * e + year_start yy + month_start mm + k" using at(1) by (simp add: at_day_def)
  ultimately have "365 * (400 * e + yy) \<le> n + 719468" by (simp add: add_mult_distrib2)
  moreover have "y \<le> int (400 * e + yy) + 1" using at(2) by (auto simp: march_date_def)
  ultimately show ?thesis by simp
qed

text \<open>The fields of a timestamp are those of its day and of its second in the day.\<close>

lemma sint_small: "unat (w :: u64) < 2 ^ 63 \<Longrightarrow> sint w = int (unat w)"
proof -
  assume "unat w < 2 ^ 63"
  then have "uint w < 2 ^ 63" by (simp only: uint_nat of_nat_less_numeral_power_cancel_iff)
  moreover have "- 9223372036854775808 \<le> uint w" using unsigned_greater_eq [of w, where 'a = int] by linarith
  ultimately show ?thesis by (simp add: sint_uint signed_take_bit_int_eq_self)
qed

lemma civil_fields:
  assumes "date_of (unat ms div 1000 div 86400) = (y, m, d)"
  defines "c \<equiv> civil_from_unix_ms ms" and "sod \<equiv> unat ms div 1000 mod 86400"
  shows "sint (cv_year c) = y" "unat (cv_month c) = m" "unat (cv_day c) = d"
    "unat (cv_hour c) = sod div 3600" "unat (cv_minute c) = sod mod 3600 div 60" "unat (cv_second c) = sod mod 60"
proof -
  define n where "n = unat ms div 1000 div 86400"
  have n: "n < 213503982335" using unat_u64_less [of ms] unfolding n_def by (simp add: div_less_iff_less_mult div_mult2_eq [symmetric])
  have days: "unat (ms div 1000 div 86400) = n" by (simp add: unat_div n_def)
  then have days': "sint (ms div 1000 div 86400) = int n" using n by (simp add: sint_small)
  note cv = civil_from_days_correct [OF assms(1), folded n_def]
  have r: "1970 \<le> y" "m \<le> 12" "d \<le> 31" using date_range [OF assms(1)] month_days_less [of y m] by auto
  have yb: "y < 2 ^ 31" using year_range [OF assms(1), folded n_def] n by simp
  have sod: "unat (ms div 1000 mod 86400) = sod" "sod < 86400" by (simp_all add: unat_div unat_mod sod_def)
  have c: "cv_year c = word_of_int y" "cv_month c = of_nat m" "cv_day c = of_nat d"
    "cv_hour c = ucast (ms div 1000 mod 86400 div 3600)" "cv_minute c = ucast (ms div 1000 mod 86400 mod 3600 div 60)"
    "cv_second c = ucast (ms div 1000 mod 86400 mod 60)"
    by (simp_all add: c_def civil_from_unix_ms_def Let_def days' cv)
  show "sint (cv_year c) = y"
    using r(1) yb by (simp add: c sint_uint uint_word_of_int signed_take_bit_int_eq_self)
  show "unat (cv_month c) = m" "unat (cv_day c) = d" using r by (simp_all add: c unat_of_nat)
  have t: "take_bit 8 x = x" if "x < 60" for x :: nat by (rule take_bit_nat_eq_self) (use that in simp)
  have "sod div 3600 < 60" "sod mod 3600 div 60 < 60" "sod mod 60 < 60" using sod(2) by (simp_all add: div_less_iff_less_mult)
  then show "unat (cv_hour c) = sod div 3600" "unat (cv_minute c) = sod mod 3600 div 60" "unat (cv_second c) = sod mod 60"
    by (simp_all add: c unsigned_ucast_eq t unat_div unat_mod flip: sod(1))
qed

section \<open>The label\<close>

declare decimal.simps [simp del]

lemma write_pieces_fit: "length w + length (concat pieces) \<le> 40 \<Longrightarrow> write_pieces pieces w = w @ concat pieces"
  by (induction pieces arbitrary: w) (simp_all add: write_str_def)

lemma length_decimal: "n < 10 ^ Suc k \<Longrightarrow> length (decimal n) \<le> Suc k"
proof (induction k arbitrary: n)
  case 0
  then show ?case by (simp add: decimal.simps [of n])
next
  case (Suc k)
  have "n div 10 < 10 ^ Suc k" using Suc.prems by (simp add: less_mult_imp_div_less mult.commute)
  then show ?case using Suc.IH [of "n div 10"] by (simp add: decimal.simps [of n])
qed

lemma length_padded: "n < 10 ^ k \<Longrightarrow> 0 < k \<Longrightarrow> width \<le> k \<Longrightarrow> length (padded width n) \<le> k"
  using length_decimal [of n "k - 1"] by (simp add: padded_def)

lemma length_ascii_bytes [simp]: "length (ascii_bytes s) = length s"
  by (simp add: ascii_bytes_def)

lemma year_digits:
  assumes "date_of (unat (lock :: u64) div 1000 div 86400) = (y, m, d)"
  shows "nat y < 10 ^ 9"
proof -
  have "unat lock div 1000 div 86400 < 213503982335"
    using unat_u64_less [of lock] by (simp add: div_less_iff_less_mult div_mult2_eq [symmetric])
  then show ?thesis using year_range [OF assms] by simp
qed

section \<open>Properties\<close>

text \<open>
  C31: What the review screen says about a lock time is true and complete. It is empty for no lock time; below
  the consensus threshold it is the DAA score in decimal; from the threshold on it is the UTC date and time of
  the millisecond timestamp, the date being the one reached from 1970-01-01 by counting that many days in the
  Gregorian calendar, for every 64-bit value. The text always fits the buffer of 40 bytes, so nothing is cut.
\<close>

theorem lock_time_label_spec:
  "let secs = unat lock div 1000; sod = secs mod 86400; (y, m, d) = date_of (secs div 86400);
       label =
         (if lock = 0 then []
          else if unat lock < 500000000000 then ascii_bytes ''Locked until DAA '' @ decimal (unat lock)
          else ascii_bytes ''Locked until '' @ padded 4 (nat y) @ ascii_bytes ''-'' @ padded 2 m @ ascii_bytes ''-'' @
            padded 2 d @ ascii_bytes '' '' @ padded 2 (sod div 3600) @ ascii_bytes '':'' @ padded 2 (sod mod 3600 div 60) @
            ascii_bytes '' UTC'')
   in lock_time_label lock = label \<and> length label \<le> 40"
proof -
  define sod where "sod = unat lock div 1000 mod 86400"
  obtain y m d where date: "date_of (unat lock div 1000 div 86400) = (y, m, d)" by (rule prod_cases3)
  note c = civil_fields [OF date, folded sod_def]
  have threshold: "lock < LOCK_TIME_THRESHOLD \<longleftrightarrow> unat lock < 500000000000"
    by (simp add: LOCK_TIME_THRESHOLD_def word_less_nat_alt)
  have "m \<le> 12" "d \<le> 31" using date_range [OF date] month_days_less [of y m] by auto
  moreover have "sod < 86400" by (simp add: sod_def)
  ultimately have two: "length (padded 2 m) \<le> 2" "length (padded 2 d) \<le> 2" "length (padded 2 (sod div 3600)) \<le> 2"
    "length (padded 2 (sod mod 3600 div 60)) \<le> 2"
    by (intro length_padded; simp add: div_less_iff_less_mult)+
  have year: "length (padded 4 (nat y)) \<le> 9" using year_digits [OF date] by (intro length_padded) simp_all
  have score: "length (decimal (unat lock)) \<le> Suc 11" if "unat lock < 500000000000" using that by (intro length_decimal) simp
  show ?thesis
    using two year score
    by (auto simp: date sod_def [symmetric] Let_def lock_time_label_def classify_lock_time_def threshold c write_pieces_fit
        simp del: write_pieces.simps)
qed

end
