(* ===== verification/KasVerify.thy ===== *)
theory KasVerify
  imports KasSchnorr
begin

text \<open>
  Firmware integrity: the constant-time comparisons (core/src/crypto/constant_time.rs), the flow accumulator
  (core/src/crypto/flow.rs), the verification of the mapped code at boot (bootloader/src/features/verify.rs)
  and the update records (bootloader/src/features/fw_update.rs). Flash is a function from data-bus addresses
  to bytes; the constants of a build (version, hash, size, signature, key) are a record; SHA-256 is the sha2
  crate, a parameter. Volatile accesses and fences have no effect in a sequential model; the faults
  that the accumulator is there to catch are stages left out, repeated, exchanged or replaced.
\<close>

section \<open>Constant-time comparison\<close>

definition ct_eq :: "bytes \<Rightarrow> bytes \<Rightarrow> bool" where
  "ct_eq a b =
     (if length a \<noteq> length b then False
      else fold (\<lambda>i diff. diff OR (a ! i XOR b ! i)) [0..<length a] 0 = 0)"

definition ct_is_zero :: "bytes \<Rightarrow> bool" where
  "ct_is_zero xs = (fold (\<lambda>byte acc. acc OR byte) xs 0 = 0)"

definition ct_select :: "bool \<Rightarrow> u8 \<Rightarrow> u8 \<Rightarrow> u8" where
  "ct_select condition a b =
     (let mask = - (if condition then 1 else 0) in (a AND mask) OR (b AND NOT mask))"

lemma fold_or_zero: "fold (\<lambda>x acc. acc OR f x) xs c = 0 \<longleftrightarrow> c = 0 \<and> (\<forall>x \<in> set xs. f x = (0 :: u8))"
  by (induction xs arbitrary: c) (auto simp: or_eq_0_iff)

lemma xor_cancel: "x XOR a = x XOR b \<longleftrightarrow> a = b" "a XOR x = b XOR x \<longleftrightarrow> a = b" for x a b :: "'a::len word"
  by (auto simp: bit_eq_iff bit_simps)

lemma xor_zero: "a XOR b = 0 \<longleftrightarrow> a = b" for a b :: "'a::len word"
  by (auto simp: bit_eq_iff bit_simps)

lemma ct_eq_iff: "ct_eq a b \<longleftrightarrow> a = b"
proof (cases "length a = length b")
  case True
  have "fold (\<lambda>i diff. diff OR (a ! i XOR b ! i)) [0..<length a] 0 = 0 \<longleftrightarrow> (\<forall>i \<in> set [0..<length a]. a ! i XOR b ! i = 0)"
    using fold_or_zero [of "\<lambda>i. a ! i XOR b ! i" "[0..<length a]" 0] by (simp only: simp_thms)
  also have "\<dots> \<longleftrightarrow> a = b" unfolding xor_zero using True by (auto intro: nth_equalityI)
  finally show ?thesis unfolding ct_eq_def using True by (simp only: not_True_eq_False if_False simp_thms)
qed (auto simp: ct_eq_def)

lemma ct_is_zero_iff: "ct_is_zero xs \<longleftrightarrow> (\<forall>b \<in> set xs. b = 0)"
  by (simp add: ct_is_zero_def fold_or_zero [where f = "\<lambda>x. x"])

lemma ct_select_if: "ct_select c a b = (if c then a else b)"
  by (simp add: ct_select_def)

section \<open>The flow accumulator\<close>

definition TAG_VERIFY_START :: u32 where "TAG_VERIFY_START = 0x6B530101"
definition TAG_ANTI_ROLLBACK :: u32 where "TAG_ANTI_ROLLBACK = 0x6B530102"
definition TAG_PASS_START :: u32 where "TAG_PASS_START = 0x6B530201"
definition TAG_DATA_READ :: u32 where "TAG_DATA_READ = 0x6B530202"
definition TAG_HASH :: u32 where "TAG_HASH = 0x6B530203"
definition TAG_COMPARE :: u32 where "TAG_COMPARE = 0x6B530204"

definition mix :: "u32 \<Rightarrow> u32 \<Rightarrow> u32" where
  "mix acc tag = word_rotl 7 acc XOR tag"

definition expect :: "u32 list \<Rightarrow> u32" where
  "expect tags = fold (\<lambda>tag acc. mix acc tag) tags 0"

text \<open>The static \<open>COUNTER\<close> is passed along; \<open>flow_count\<close> is a load.\<close>

definition flow_reset :: "u32 \<Rightarrow> u32" where
  "flow_reset counter = 0"

definition flow_step :: "u32 \<Rightarrow> u32 \<Rightarrow> u32" where
  "flow_step tag counter = (let prev = counter in mix prev tag)"

definition flow_count :: "u32 \<Rightarrow> u32" where
  "flow_count counter = counter"

definition flow_verify :: "u32 \<Rightarrow> u32 \<Rightarrow> bool" where
  "flow_verify expected counter =
     (let actual = flow_count counter; actual2 = flow_count counter in actual = expected \<and> actual2 = expected)"

text \<open>The counter after a reset and some stages.\<close>

definition after_stages :: "u32 list \<Rightarrow> u32 \<Rightarrow> u32" where
  "after_stages stages counter = fold flow_step stages (flow_reset counter)"

lemma after_stages_expect: "after_stages stages counter = expect stages"
  by (simp add: after_stages_def expect_def flow_reset_def flow_step_def [abs_def] mix_def [abs_def])

lemma flow_verify_iff: "flow_verify expected counter \<longleftrightarrow> counter = expected"
  by (simp add: flow_verify_def flow_count_def)

subsection \<open>What it tells apart\<close>

lemma mix_inj: "mix x t = mix y t \<longleftrightarrow> x = y"
proof
  assume "mix x t = mix y t"
  then have "word_rotl 7 x = word_rotl 7 y" by (simp add: mix_def xor_cancel)
  then show "x = y" by (metis word_rot_lr)
qed simp

lemma fold_mix_inj: "fold (\<lambda>tag acc. mix acc tag) s x = fold (\<lambda>tag acc. mix acc tag) s y \<longleftrightarrow> x = y"
  by (induction s arbitrary: x y) (simp_all add: mix_inj)

lemma expect_append: "expect (p @ s) = fold (\<lambda>tag acc. mix acc tag) s (expect p)"
  by (simp add: expect_def)

lemma expect_suffix: "expect (p @ s) = expect (q @ s) \<longleftrightarrow> expect p = expect q"
  by (simp add: expect_append fold_mix_inj)

text \<open>A block left out goes unnoticed only if the accumulator has the same value at its two ends.\<close>

lemma expect_omit: "expect (p @ m @ s) = expect (p @ s) \<longleftrightarrow> expect (p @ m) = expect p"
  using expect_suffix [of "p @ m" s p] by simp

lemma expect_replace: "expect (p @ [a] @ s) = expect (p @ [b] @ s) \<longleftrightarrow> a = b"
  using expect_suffix [of "p @ [a]" s "p @ [b]"] by (auto simp: expect_append mix_def xor_cancel)

lemma expect_exchange: "expect (p @ [a, b] @ s) = expect (p @ [b, a] @ s) \<longleftrightarrow> word_rotl 7 (a XOR b) = a XOR b"
proof -
  define x where "x = word_rotl 7 (word_rotl 7 (expect p))"
  have "expect (p @ [a, b]) = x XOR (word_rotl 7 a XOR b)" "expect (p @ [b, a]) = x XOR (word_rotl 7 b XOR a)"
    by (simp_all add: expect_append mix_def x_def word_rot_logs xor.assoc)
  then have "expect (p @ [a, b]) = expect (p @ [b, a]) \<longleftrightarrow> word_rotl 7 a XOR b = word_rotl 7 b XOR a"
    by (simp only: xor_cancel)
  also have "\<dots> \<longleftrightarrow> word_rotl 7 (a XOR b) = a XOR b"
  proof -
    have "u XOR b = v XOR a \<longleftrightarrow> u XOR v = a XOR b" for u v :: u32
      by (auto simp: bit_eq_iff bit_simps)
    then show ?thesis by (simp add: word_rot_logs)
  qed
  finally show ?thesis using expect_suffix [of "p @ [a, b]" s "p @ [b, a]"] by simp
qed

section \<open>Verification of the mapped code\<close>

datatype verification_result =
  Valid | InvalidHash | InvalidSignature | VersionTooOld | ReadError | FlowViolation | CanaryCorrupt

record firmware_info =
  version_major :: u8
  version_minor :: u8
  version_patch :: u8
  expected_hash :: bytes
  min_version :: u32

text \<open>The constants that tools/gen\_hash.rs writes to firmware\_hash.rs for a build.\<close>

record hash_file =
  FIRMWARE_SIZE :: nat
  FIRMWARE_SIGNED :: bool
  FIRMWARE_SIGNATURE :: bytes

definition IRAM_FLASH_BASE :: u32 where "IRAM_FLASH_BASE = 0x42000000"
definition DRAM_FLASH_BASE :: u32 where "DRAM_FLASH_BASE = 0x3C000000"
definition CODE_SEGMENT_MAX_SIZE :: nat where "CODE_SEGMENT_MAX_SIZE = 0x00100000"
definition CANARY_PRE_VERIFY :: u32 where "CANARY_PRE_VERIFY = 0xDEADBEEF"
definition CANARY_POST_VERIFY :: u32 where "CANARY_POST_VERIFY = 0xCAFEBABE"

definition DEV_PUBKEY :: bytes where
  "DEV_PUBKEY = [0xf5, 0x7f, 0x09, 0xaf, 0xf8, 0xd0, 0x6b, 0x3f, 0x24, 0xc8, 0xb3, 0xf9, 0xc0, 0xc9, 0x91, 0xca, 0x6b, 0x43, 0xe9, 0xa6, 0x8e, 0xf8, 0xbe, 0x3a, 0x91, 0x7b, 0x62, 0x88, 0x30, 0x80, 0xf7, 0xf3]"

definition EXPECTED_STAGES :: "u32 list" where
  "EXPECTED_STAGES =
     [TAG_VERIFY_START, TAG_ANTI_ROLLBACK,
      TAG_PASS_START, TAG_DATA_READ, TAG_HASH, TAG_COMPARE,
      TAG_PASS_START, TAG_DATA_READ, TAG_HASH, TAG_COMPARE]"

definition EXPECTED_FLOW :: u32 where "EXPECTED_FLOW = expect EXPECTED_STAGES"

definition version_as_number :: "firmware_info \<Rightarrow> u32" where
  "version_as_number fi = ucast (version_major fi) * 10000 + ucast (version_minor fi) * 100 + ucast (version_patch fi)"

text \<open>The segment's address on the data bus; None is an address outside the mapped flash.\<close>

definition code_address :: "u32 \<Rightarrow> u32 option" where
  "code_address code_start_iram =
     (if IRAM_FLASH_BASE \<le> code_start_iram \<and> code_start_iram < IRAM_FLASH_BASE + 0x02000000
      then Some (code_start_iram - IRAM_FLASH_BASE + DRAM_FLASH_BASE)
      else if DRAM_FLASH_BASE \<le> code_start_iram \<and> code_start_iram < DRAM_FLASH_BASE + 0x02000000
      then Some code_start_iram
      else None)"

definition read_word :: "(nat \<Rightarrow> u8) \<Rightarrow> nat \<Rightarrow> u32" where
  "read_word flash addr = from_le (map flash [addr..<addr + 4])"

text \<open>\<open>while offset < scan_limit\<close>: the loop breaks at the sixteenth word of erased flash in a row.\<close>

function scan_code :: "(nat \<Rightarrow> u8) \<Rightarrow> nat \<Rightarrow> nat \<Rightarrow> nat \<Rightarrow> nat \<Rightarrow> nat \<Rightarrow> nat" where
  "scan_code flash code_start scan_limit offset found consecutive_ff =
     (if offset < scan_limit then
        if read_word flash (code_start + offset) = 0xFFFFFFFF then
          if consecutive_ff + 1 \<ge> 16 then offset - (16 - 1) * 4
          else scan_code flash code_start scan_limit (offset + 4) found (consecutive_ff + 1)
        else scan_code flash code_start scan_limit (offset + 4) (offset + 4) 0
      else found)"
  by pat_completeness auto
termination by (relation "measure (\<lambda>(_, _, scan_limit, offset, _, _). scan_limit - offset)") auto

definition code_size :: "hash_file \<Rightarrow> (nat \<Rightarrow> u8) \<Rightarrow> nat \<Rightarrow> nat \<Rightarrow> nat option" where
  "code_size hf flash code_start max_size =
     (if FIRMWARE_SIZE hf > 0 \<and> FIRMWARE_SIZE hf \<le> max_size then Some (FIRMWARE_SIZE hf)
      else (let found = scan_code flash code_start (min max_size 0x00100000) 0 0 0
            in if found = 0 then None else Some ((found + 3) div 4 * 4)))"

text \<open>The hasher is what it was fed; \<open>finalize\<close> is SHA-256 of that.\<close>

function hash_chunks :: "bytes \<Rightarrow> nat \<Rightarrow> bytes \<Rightarrow> bytes" where
  "hash_chunks code off hasher =
     (if off < length code
      then (let end = min (off + 4096) (length code) in hash_chunks code end (hasher @ slice off (end - off) code))
      else hasher)"
  by pat_completeness auto
termination by (relation "measure (\<lambda>(code, off, _). length code - off)") auto

definition do_verify_mapped_code ::
  "(bytes \<Rightarrow> bytes) \<Rightarrow> hash_file \<Rightarrow> (nat \<Rightarrow> u8) \<Rightarrow> firmware_info \<Rightarrow> u32 \<Rightarrow> nat \<Rightarrow> u32 \<Rightarrow> verification_result \<times> u32"
where
  "do_verify_mapped_code sha256 hf flash fi code_start_iram max_size counter =
     (let counter = flow_step TAG_PASS_START counter
      in case code_address code_start_iram of None \<Rightarrow> (ReadError, counter)
       | Some code_start \<Rightarrow>
         (case code_size hf flash (unat code_start) max_size of None \<Rightarrow> (ReadError, counter)
          | Some code_len \<Rightarrow>
            let counter = flow_step TAG_DATA_READ counter;
                code = map flash [unat code_start..<unat code_start + code_len];
                all_00 = list_all (\<lambda>i. code ! i = 0x00) [0..<min 256 (length code)]
            in if all_00 then (ReadError, counter)
               else (let counter = flow_step TAG_HASH counter;
                         computed_hash = sha256 (hash_chunks code 0 []);
                         counter = flow_step TAG_COMPARE counter;
                         hashes_match = ct_eq computed_hash (expected_hash fi)
                     in (if hashes_match then Valid else InvalidHash, counter))))"

definition verify_signature :: "'pt crypto \<Rightarrow> ('pt, 'sc) curve \<Rightarrow> hash_file \<Rightarrow> firmware_info \<Rightarrow> verification_result" where
  "verify_signature cr cv hf fi =
     (if ct_eq DEV_PUBKEY (replicate 32 0) then InvalidSignature
      else (case schnorr_verify cr cv DEV_PUBKEY (expected_hash fi) (FIRMWARE_SIGNATURE hf) of
              Inr () \<Rightarrow> Valid
            | Inl _ \<Rightarrow> InvalidSignature))"

text \<open>\<open>production\<close> is the feature of that name.\<close>

definition verify_firmware ::
  "bool \<Rightarrow> 'pt crypto \<Rightarrow> ('pt, 'sc) curve \<Rightarrow> (bytes \<Rightarrow> bytes) \<Rightarrow> hash_file \<Rightarrow> (nat \<Rightarrow> u8) \<Rightarrow> firmware_info \<Rightarrow> u32 \<Rightarrow> nat \<Rightarrow> u32 \<Rightarrow>
     verification_result \<times> u32"
where
  "verify_firmware production cr cv sha256 hf flash fi firmware_start max_size counter =
     (let counter = flow_reset counter;
          counter = flow_step TAG_VERIFY_START counter;
          canary_pre = CANARY_PRE_VERIFY;
          current_version = version_as_number fi
      in if current_version < min_version fi then (VersionTooOld, counter)
         else (let counter = flow_step TAG_ANTI_ROLLBACK counter
          in if \<not> production then
               (if ct_eq (expected_hash fi) (replicate 32 0) then (Valid, counter)
                else (let (dev_result, counter) = do_verify_mapped_code sha256 hf flash fi firmware_start max_size counter
                      in if canary_pre \<noteq> CANARY_PRE_VERIFY then (CanaryCorrupt, counter) else (Valid, counter)))
             else if ct_eq (expected_hash fi) (replicate 32 0) then (InvalidHash, counter)
             else (let (result1, counter) = do_verify_mapped_code sha256 hf flash fi firmware_start max_size counter
               in if canary_pre \<noteq> CANARY_PRE_VERIFY then (CanaryCorrupt, counter)
                  else (let canary_mid = CANARY_POST_VERIFY;
                            (result2, counter) = do_verify_mapped_code sha256 hf flash fi firmware_start max_size counter
                    in if canary_mid \<noteq> CANARY_POST_VERIFY then (CanaryCorrupt, counter)
                       else if result1 \<noteq> Valid then (result1, counter)
                       else if result2 \<noteq> Valid then (result2, counter)
                       else if result1 \<noteq> result2 then (CanaryCorrupt, counter)
                       else if \<not> flow_verify EXPECTED_FLOW counter then (FlowViolation, counter)
                       else if \<not> FIRMWARE_SIGNED hf then (InvalidSignature, counter)
                       else if verify_signature cr cv hf fi \<noteq> Valid then (InvalidSignature, counter)
                       else (Valid, counter)))))"

section \<open>Firmware updates\<close>

definition UPDATE_MAGIC :: bytes where "UPDATE_MAGIC = [0x4B, 0x53, 0x46, 0x55]"

record firmware_update =
  fu_version :: u32
  fu_hash :: bytes
  fu_signature :: bytes
  fu_valid :: bool

definition firmware_update_empty :: firmware_update where
  "firmware_update_empty = \<lparr>fu_version = 0, fu_hash = replicate 32 0, fu_signature = replicate 64 0, fu_valid = False\<rparr>"

definition parse_update_qr :: "bytes \<Rightarrow> firmware_update option" where
  "parse_update_qr input =
     (if length input < 104 then None
      else if slice 0 4 input \<noteq> UPDATE_MAGIC then None
      else Some (firmware_update_empty\<lparr>fu_version := from_le (slice 4 4 input), fu_hash := slice 8 32 input,
                   fu_signature := slice 40 64 input\<rparr>))"

definition verify_update :: "'pt crypto \<Rightarrow> ('pt, 'sc) curve \<Rightarrow> u32 \<Rightarrow> firmware_update \<Rightarrow> bool" where
  "verify_update cr cv current_version update =
     (if fu_version update \<le> current_version then False
      else (case schnorr_verify cr cv DEV_PUBKEY (fu_hash update) (fu_signature update) of
              Inr () \<Rightarrow> True
            | Inl _ \<Rightarrow> False))"

section \<open>What verification decides\<close>

declare hash_chunks.simps [simp del] scan_code.simps [simp del]

lemma hash_chunks_spec: "hash_chunks code off h = h @ drop off code"
proof (induction code off h rule: hash_chunks.induct)
  case (1 code off h)
  define e where "e = min (off + 4096) (length code)"
  show ?case
  proof (cases "off < length code")
    case True
    then have "off \<le> e" by (simp add: e_def)
    then have "slice off (e - off) code @ drop e code = drop off code"
      using append_take_drop_id [of "e - off" "drop off code"] by (simp add: slice_def)
    then show ?thesis
      using 1 True by (simp add: hash_chunks.simps [of code off h] Let_def flip: e_def)
  qed (simp add: hash_chunks.simps [of code off h])
qed

text \<open>The bytes that are hashed; None where the code reports a read error.\<close>

definition code_segment :: "hash_file \<Rightarrow> (nat \<Rightarrow> u8) \<Rightarrow> u32 \<Rightarrow> nat \<Rightarrow> bytes option" where
  "code_segment hf flash code_start_iram max_size =
     (case code_address code_start_iram of None \<Rightarrow> None
      | Some code_start \<Rightarrow>
        (case code_size hf flash (unat code_start) max_size of None \<Rightarrow> None
         | Some code_len \<Rightarrow>
           let code = map flash [unat code_start..<unat code_start + code_len]
           in if \<forall>b \<in> set (take 256 code). b = 0 then None else Some code))"

lemma leading_zeros: "list_all (\<lambda>i. code ! i = 0) [0..<min 256 (length code)] \<longleftrightarrow> (\<forall>b \<in> set (take 256 code). b = (0 :: u8))"
  by (auto simp: list_all_iff all_set_conv_all_nth)

text \<open>A pass and the stages it records.\<close>

definition pass_stages :: "u32 list" where
  "pass_stages = [TAG_PASS_START, TAG_DATA_READ, TAG_HASH, TAG_COMPARE]"

lemma do_verify_spec:
  shows "fst (do_verify_mapped_code sha256 hf flash fi start max_size counter) =
      (case code_segment hf flash start max_size of None \<Rightarrow> ReadError
       | Some code \<Rightarrow> if sha256 code = expected_hash fi then Valid else InvalidHash)"
    "fst (do_verify_mapped_code sha256 hf flash fi start max_size counter) \<noteq> ReadError \<Longrightarrow>
      snd (do_verify_mapped_code sha256 hf flash fi start max_size counter) = fold flow_step pass_stages counter"
  by (auto simp: do_verify_mapped_code_def code_segment_def Let_def leading_zeros hash_chunks_spec ct_eq_iff pass_stages_def
      split: option.splits)

lemma expected_stages: "EXPECTED_STAGES = [TAG_VERIFY_START, TAG_ANTI_ROLLBACK] @ pass_stages @ pass_stages"
  by (simp add: EXPECTED_STAGES_def pass_stages_def)

lemma expected_flow:
  "fold flow_step pass_stages (fold flow_step pass_stages (flow_step TAG_ANTI_ROLLBACK (flow_step TAG_VERIFY_START (flow_reset counter)))) =
     EXPECTED_FLOW"
  using after_stages_expect [of EXPECTED_STAGES counter]
  by (simp add: EXPECTED_FLOW_def after_stages_def expected_stages)

lemma signature_ok:
  "verify_signature cr cv hf fi = Valid \<longleftrightarrow> schnorr_verify cr cv DEV_PUBKEY (expected_hash fi) (FIRMWARE_SIGNATURE hf) = Inr ()"
proof -
  have "hd DEV_PUBKEY \<noteq> hd (replicate 32 0)" by (simp add: DEV_PUBKEY_def)
  then have "DEV_PUBKEY \<noteq> replicate 32 0" by metis
  then show ?thesis by (auto simp: verify_signature_def ct_eq_iff split: sum.splits unit.splits)
qed

text \<open>The accumulator after each stage of a clean run.\<close>

lemma accumulators:
  shows "mix 0 TAG_VERIFY_START = 0x6B530101"
    "mix 0x6B530101 TAG_ANTI_ROLLBACK = 0xC2D381B7"
    "mix 0xC2D381B7 TAG_PASS_START = 0x0293D9E0"
    "mix 0x0293D9E0 TAG_DATA_READ = 0x22BFF203"
    "mix 0x22BFF203 TAG_HASH = 0x34AA0392"
    "mix 0x34AA0392 TAG_COMPARE = 0x3E52CB1E"
    "mix 0x3E52CB1E TAG_PASS_START = 0x42368D1E"
    "mix 0x42368D1E TAG_DATA_READ = 0x70158D23"
    "mix 0x70158D23 TAG_HASH = 0x619593BB"
    "mix 0x619593BB TAG_COMPARE = 0xA19ADFB4"
  unfolding mix_def TAG_VERIFY_START_def TAG_ANTI_ROLLBACK_def TAG_PASS_START_def TAG_DATA_READ_def TAG_HASH_def TAG_COMPARE_def
  by code_simp+

lemma checkpoints: "distinct (map (\<lambda>k. expect (take k EXPECTED_STAGES)) [0..<11])"
  by (simp add: upt_rec expect_def EXPECTED_STAGES_def accumulators)

lemma neighbours:
  "list_all (\<lambda>k. let d = EXPECTED_STAGES ! k XOR EXPECTED_STAGES ! (k + 1) in word_rotl 7 d \<noteq> d) [0..<9]"
  by code_simp

section \<open>Properties\<close>

text \<open>
  C28: What boot verification accepts, completely. A production build accepts exactly if its version is at least its
  floor, an expected hash is configured, the code segment is readable and not blank, its SHA-256 is the expected
  hash, the build is signed and the developer's signature on that hash verifies; every other case has the named
  error, the first that applies, and without faults neither the canaries nor the flow accumulator raise a false
  alarm. A development build only refuses a version below the floor.
\<close>

theorem verify_firmware_spec:
  "fst (verify_firmware production cr cv sha256 hf flash fi firmware_start max_size counter) =
     (if version_as_number fi < min_version fi then VersionTooOld
      else if \<not> production then Valid
      else if expected_hash fi = replicate 32 0 then InvalidHash
      else case code_segment hf flash firmware_start max_size of
          None \<Rightarrow> ReadError
        | Some code \<Rightarrow>
            if sha256 code \<noteq> expected_hash fi then InvalidHash
            else if FIRMWARE_SIGNED hf \<and> schnorr_verify cr cv DEV_PUBKEY (expected_hash fi) (FIRMWARE_SIGNATURE hf) = Inr () then Valid
            else InvalidSignature)"
proof -
  note spec = do_verify_spec [of sha256 hf flash fi firmware_start max_size]
  define c2 where "c2 = flow_step TAG_ANTI_ROLLBACK (flow_step TAG_VERIFY_START (flow_reset counter))"
  define c4 where "c4 = snd (do_verify_mapped_code sha256 hf flash fi firmware_start max_size c2)"
  define result where "result = (case code_segment hf flash firmware_start max_size of None \<Rightarrow> ReadError
       | Some code \<Rightarrow> if sha256 code = expected_hash fi then Valid else InvalidHash)"
  have pass: "do_verify_mapped_code sha256 hf flash fi firmware_start max_size c = (result, snd (do_verify_mapped_code sha256 hf flash fi firmware_start max_size c))" for c
    using spec(1) [of c] by (simp add: result_def prod_eq_iff)
  have run: "snd (do_verify_mapped_code sha256 hf flash fi firmware_start max_size c) = fold flow_step pass_stages c" if "result = Valid" for c
    using spec(2) [of c] pass [of c] that by (metis fst_conv verification_result.distinct(7))
  define c6 where "c6 = snd (do_verify_mapped_code sha256 hf flash fi firmware_start max_size c4)"
  have flow: "c6 = EXPECTED_FLOW" if "result = Valid"
    unfolding c6_def run [OF that] c4_def c2_def by (rule expected_flow)
  have first: "do_verify_mapped_code sha256 hf flash fi firmware_start max_size c2 = (result, c4)"
    using pass [of c2] unfolding c4_def .
  have second: "do_verify_mapped_code sha256 hf flash fi firmware_start max_size c4 = (result, c6)"
    using pass [of c4] unfolding c6_def .
  show ?thesis
    unfolding verify_firmware_def Let_def c2_def [symmetric] first prod.case second
    using flow
    by (auto simp: ct_eq_iff flow_verify_iff signature_ok result_def split: option.splits if_splits)
qed

text \<open>
  C29: The flow accumulator notices what it is there for. After a clean production run it has the expected value;
  if any one stage or any block of successive stages was left out, if two neighbouring stages ran in the other
  order, or if another tag was recorded in the place of one, it has not.
\<close>

theorem flow_detects:
  assumes "EXPECTED_STAGES = p @ m @ s" "m \<noteq> []"
  shows "flow_verify EXPECTED_FLOW (after_stages EXPECTED_STAGES counter) \<and>
     \<not> flow_verify EXPECTED_FLOW (after_stages (p @ s) counter) \<and>
     (length m = 2 \<longrightarrow> \<not> flow_verify EXPECTED_FLOW (after_stages (p @ rev m @ s) counter)) \<and>
     (\<forall>t. m \<noteq> [t] \<longrightarrow> length m = 1 \<longrightarrow> \<not> flow_verify EXPECTED_FLOW (after_stages (p @ [t] @ s) counter))"
proof (intro conjI impI allI)
  have n: "length p + length m + length s = 10" using arg_cong [OF assms(1), of length] by (simp add: EXPECTED_STAGES_def)
  show "flow_verify EXPECTED_FLOW (after_stages EXPECTED_STAGES counter)"
    by (simp add: flow_verify_iff after_stages_expect EXPECTED_FLOW_def)
  have "expect (take (length p) EXPECTED_STAGES) \<noteq> expect (take (length p + length m) EXPECTED_STAGES)"
    using distinct_conv_nth [THEN iffD1, OF checkpoints] n assms(2) by (auto simp: nth_append)
  then have "expect (p @ m) \<noteq> expect p" by (simp add: assms(1))
  then show "\<not> flow_verify EXPECTED_FLOW (after_stages (p @ s) counter)"
    unfolding flow_verify_iff after_stages_expect EXPECTED_FLOW_def assms(1) by (metis expect_omit)
  show "\<not> flow_verify EXPECTED_FLOW (after_stages (p @ rev m @ s) counter)" if two: "length m = 2"
  proof -
    obtain a b where m: "m = [a, b]" using two by (auto simp: length_Suc_conv numeral_2_eq_2)
    have "length p \<in> set [0..<9]" using n two by simp
    moreover have "EXPECTED_STAGES ! length p = a" "EXPECTED_STAGES ! (length p + 1) = b"
      by (simp_all add: assms(1) m nth_append)
    ultimately have "word_rotl 7 (a XOR b) \<noteq> a XOR b" using neighbours by (auto simp: list_all_iff Let_def)
    then show ?thesis
      unfolding flow_verify_iff after_stages_expect EXPECTED_FLOW_def assms(1) m using expect_exchange [of p a b s] by simp
  qed
  show "\<not> flow_verify EXPECTED_FLOW (after_stages (p @ [t] @ s) counter)" if t: "m \<noteq> [t]" "length m = 1" for t
  proof -
    obtain a where m: "m = [a]" using t(2) by (auto simp: length_Suc_conv)
    then show ?thesis
      unfolding flow_verify_iff after_stages_expect EXPECTED_FLOW_def assms(1) using expect_replace [of p a s t] t(1) by auto
  qed
qed

theorem flow_detects_witness:
  "\<not> flow_verify EXPECTED_FLOW (after_stages ([TAG_VERIFY_START, TAG_ANTI_ROLLBACK] @ pass_stages) 5)"
  using flow_detects [of "[TAG_VERIFY_START, TAG_ANTI_ROLLBACK] @ pass_stages" pass_stages "[]" 5]
  by (simp add: expected_stages) (simp add: pass_stages_def)

text \<open>
  C30: What an update record commits to. A record is accepted exactly if its version is above the running one and
  the developer's signature on its hash verifies. The version field is not signed: the same hash and
  signature are accepted under every higher version number, so a genuine record of an old release passes the
  rollback check once its version is raised. Bytes after the record are ignored.
\<close>

theorem update_accepted_iff:
  assumes "length digest = 32" "length signature = 64"
  shows "\<exists>update. parse_update_qr (UPDATE_MAGIC @ to_le 4 version @ digest @ signature @ rest) = Some update \<and>
     (verify_update cr cv current update \<longleftrightarrow>
        current < version \<and> schnorr_verify cr cv DEV_PUBKEY digest signature = Inr ())"
proof -
  have "length UPDATE_MAGIC = 4" by (simp add: UPDATE_MAGIC_def)
  then have "parse_update_qr (UPDATE_MAGIC @ to_le 4 version @ digest @ signature @ rest) =
      Some (firmware_update_empty\<lparr>fu_version := version, fu_hash := digest, fu_signature := signature\<rparr>)"
    using assms by (simp add: parse_update_qr_def slice_def)
  then show ?thesis by (auto simp: verify_update_def split: sum.splits unit.splits)
qed

theorem update_accepted_iff_witness:
  "\<exists>update. parse_update_qr (UPDATE_MAGIC @ to_le 4 (7 :: u32) @ replicate 32 1 @ replicate 64 2) = Some update \<and>
     (verify_update sample_curve_crypto sample_curve 6 update \<longleftrightarrow>
        schnorr_verify sample_curve_crypto sample_curve DEV_PUBKEY (replicate 32 1) (replicate 64 2) = Inr ())"
  using update_accepted_iff [of "replicate 32 1" "replicate 64 2" 7 "[]" sample_curve_crypto sample_curve 6]
  by (simp add: word_less_nat_alt)

end
