(* ===== verification/KasStegoPerm.thy ===== *)
theory KasStegoPerm
  imports KasBits
begin

text \<open>
  The keyed order in which steganography visits the coefficients of an image
  (bootloader/src/features/stego\_perm.rs): four Feistel rounds on an even number of bits, walked until the value
  falls below the number of positions. The loop of \<open>rank\<close> has no bound in the code: it is a partial function whose
  value \<open>None\<close> means that it runs forever. SHA-256 is the sha2 crate.
\<close>

section \<open>The code\<close>

definition ROUNDS :: nat where "ROUNDS = 4"

record pos_perm =
  pp_n :: u32
  pp_half_bits :: nat
  pp_mask :: u32
  pp_round_keys :: "u32 list"

text \<open>\<open>while bits < 32 && (1u32 << bits) < n\<close>\<close>

function count_bits :: "u32 \<Rightarrow> nat \<Rightarrow> nat" where
  "count_bits n bits = (if bits < 32 \<and> push_bit bits 1 < n then count_bits n (bits + 1) else bits)"
  by pat_completeness auto
termination by (relation "measure (\<lambda>(_, bits). 32 - bits)") auto

definition STEGO_PERM_TAG :: bytes where
  "STEGO_PERM_TAG = map of_char ''KasSigner-stego-perm-v1''"

definition pos_perm_new :: "(bytes \<Rightarrow> bytes) \<Rightarrow> u32 \<Rightarrow> bytes \<Rightarrow> pos_perm option" where
  "pos_perm_new sha256 n key_material =
     (if n < 2 then None
      else (let bits = count_bits n 1;
                bits = (if bits mod 2 = 1 then bits + 1 else bits)
            in if bits > 32 then None
               else (let half_bits = bits div 2;
                         d = sha256 (STEGO_PERM_TAG @ key_material);
                         round_keys = map (\<lambda>i. from_le (slice (i * 4) 4 d)) [0..<ROUNDS]
                     in Some \<lparr>pp_n = n, pp_half_bits = half_bits, pp_mask = push_bit half_bits 1 - 1,
                              pp_round_keys = round_keys\<rparr>)))"

definition perm_f :: "pos_perm \<Rightarrow> nat \<Rightarrow> u32 \<Rightarrow> u32" where
  "perm_f p round x =
     (let v = x XOR pp_round_keys p ! round;
          v = v * 0x9E3779B1;
          v = v XOR drop_bit 15 v;
          v = v * 0x85EBCA6B;
          v = v XOR drop_bit 13 v;
          v = v * 0xC2B2AE35;
          v = v XOR drop_bit 16 v
      in v AND pp_mask p)"

definition perm_round :: "pos_perm \<Rightarrow> nat \<Rightarrow> u32 \<times> u32 \<Rightarrow> u32 \<times> u32" where
  "perm_round p round = (\<lambda>(l, r). let nl = r; r = l XOR perm_f p round r; l = nl in (l, r))"

definition perm_encrypt :: "pos_perm \<Rightarrow> u32 \<Rightarrow> u32" where
  "perm_encrypt p v =
     (let (l, r) = fold (perm_round p) [0..<ROUNDS] (drop_bit (pp_half_bits p) v, v AND pp_mask p)
      in push_bit (pp_half_bits p) l OR r)"

partial_function (option) perm_walk :: "pos_perm \<Rightarrow> u32 \<Rightarrow> u32 option" where
  "perm_walk p v = (let v = perm_encrypt p v in if v < pp_n p then Some v else perm_walk p v)"

definition perm_rank :: "pos_perm \<Rightarrow> u32 \<Rightarrow> u32 option" where
  "perm_rank p pos = perm_walk p pos"

section \<open>Walking the cycles of a permutation\<close>

text \<open>
  A map that is injective on a finite set brings every element back; taking the first return into a subset is again
  injective, hence a permutation of the subset.
\<close>

lemma iterate_closed: "f ` D \<subseteq> D \<Longrightarrow> x \<in> D \<Longrightarrow> (f ^^ k) x \<in> D"
  by (induction k) auto

lemma iterate_inj:
  assumes "inj_on f D" "f ` D \<subseteq> D" "x \<in> D" "y \<in> D" "(f ^^ k) x = (f ^^ k) y"
  shows "x = y"
  using assms(5)
proof (induction k)
  case (Suc k)
  then have "f ((f ^^ k) x) = f ((f ^^ k) y)" by simp
  then have "(f ^^ k) x = (f ^^ k) y"
    using assms(1) iterate_closed [OF assms(2,3)] iterate_closed [OF assms(2,4)] by (simp add: inj_on_eq_iff)
  then show ?case by (rule Suc.IH)
qed simp

lemma iterate_split: "i \<le> j \<Longrightarrow> (f ^^ j) x = (f ^^ i) ((f ^^ (j - i)) x)"
  using funpow_add [of i "j - i" f] by simp

lemma iterate_returns:
  assumes "finite D" "inj_on f D" "f ` D \<subseteq> D" "x \<in> D"
  obtains k where "0 < k" "(f ^^ k) x = x"
proof -
  have "\<not> inj (\<lambda>k. (f ^^ k) x)"
  proof
    assume "inj (\<lambda>k. (f ^^ k) x)"
    moreover have "range (\<lambda>k. (f ^^ k) x) \<subseteq> D" using iterate_closed [OF assms(3,4)] by auto
    then have "finite (range (\<lambda>k. (f ^^ k) x))" using assms(1) finite_subset by blast
    ultimately show False using finite_imageD [of "\<lambda>k. (f ^^ k) x" UNIV] by (simp add: infinite_UNIV_nat)
  qed
  then obtain a b where "(f ^^ a) x = (f ^^ b) x" "a \<noteq> b" by (auto simp: inj_on_def)
  then have "a < b \<or> b < a" by arith
  then obtain i j where ij: "(f ^^ i) x = (f ^^ j) x" "i < j"
    using \<open>(f ^^ a) x = (f ^^ b) x\<close> by metis
  then have "(f ^^ i) x = (f ^^ i) ((f ^^ (j - i)) x)" using iterate_split [of i j f x] by simp
  then have "x = (f ^^ (j - i)) x"
    using iterate_inj [OF assms(2,3,4) iterate_closed [OF assms(3,4)]] by blast
  then show ?thesis using that [of "j - i"] ij(2) by simp
qed

definition first_return :: "('a \<Rightarrow> 'a) \<Rightarrow> 'a set \<Rightarrow> 'a \<Rightarrow> nat \<Rightarrow> bool" where
  "first_return f A x k \<longleftrightarrow> 0 < k \<and> (f ^^ k) x \<in> A \<and> (\<forall>i. 0 < i \<longrightarrow> i < k \<longrightarrow> (f ^^ i) x \<notin> A)"

lemma first_return_exists:
  assumes "finite D" "inj_on f D" "f ` D \<subseteq> D" "A \<subseteq> D" "x \<in> A"
  obtains k where "first_return f A x k"
proof -
  obtain k where "0 < k" "(f ^^ k) x = x" using iterate_returns [OF assms(1-3)] assms(4,5) by blast
  then have "\<exists>k. 0 < k \<and> (f ^^ k) x \<in> A" using assms(5) by auto
  then have "first_return f A x (LEAST k. 0 < k \<and> (f ^^ k) x \<in> A)"
    unfolding first_return_def by (metis (mono_tags, lifting) LeastI_ex not_less_Least)
  then show ?thesis by (rule that)
qed

lemma first_return_inj:
  assumes "inj_on f D" "f ` D \<subseteq> D" "A \<subseteq> D" "x \<in> A" "y \<in> A"
    and "first_return f A x i" "first_return f A y j" "(f ^^ i) x = (f ^^ j) y"
  shows "x = y"
proof -
  have le: "i' = j'" if "first_return f A x' i'" "first_return f A y' j'" "(f ^^ i') x' = (f ^^ j') y'" "x' \<in> A" "y' \<in> A" "i' \<le> j'"
    for x' y' i' j'
  proof (rule ccontr)
    assume "i' \<noteq> j'"
    have "(f ^^ i') x' = (f ^^ i') ((f ^^ (j' - i')) y')"
      using that(3) iterate_split [OF that(6), of f y'] by simp
    then have "x' = (f ^^ (j' - i')) y'"
      using iterate_inj [OF assms(1,2), of x' "(f ^^ (j' - i')) y'" i'] iterate_closed [OF assms(2), of y'] assms(3) that(4,5) by blast
    moreover have "0 < j' - i'" "j' - i' < j'" using \<open>i' \<noteq> j'\<close> that(1,6) by (auto simp: first_return_def)
    ultimately show False using that(2,4) by (auto simp: first_return_def)
  qed
  have "i = j" using le [of x i y j] le [of y j x i] assms(4-8) by (cases "i \<le> j") auto
  then show ?thesis using iterate_inj [OF assms(1,2)] assms(3-5,8) by blast
qed

section \<open>The network is a permutation\<close>

text \<open>The halves and the values of a network of \<open>2 * half\<close> bits.\<close>

definition fits :: "nat \<Rightarrow> u32 \<Rightarrow> bool" where
  "fits k v \<longleftrightarrow> (\<forall>i \<ge> k. \<not> bit v i)"

lemma mask_word: "push_bit h 1 - 1 = (mask h :: u32)"
  by (simp add: mask_eq_exp_minus_1 push_bit_eq_mult)

lemma fits_drop_bit: "fits (2 * h) v \<Longrightarrow> fits h (drop_bit h v)"
  by (simp add: fits_def bit_simps)

lemma fits_mask: "fits h (v AND mask h)"
  by (simp add: fits_def bit_simps)

lemma fits_xor: "fits h a \<Longrightarrow> fits h b \<Longrightarrow> fits h (a XOR b)"
  by (simp add: fits_def bit_simps)

lemma join_halves:
  assumes "fits h l" "fits h r" "2 * h \<le> 32"
  shows "drop_bit h (push_bit h l OR r) = l" "(push_bit h l OR r) AND mask h = r" "fits (2 * h) (push_bit h l OR r)"
proof -
  have l: "\<not> bit l i" if "h \<le> i" for i using assms(1) that by (simp add: fits_def)
  have r: "\<not> bit r i" if "h \<le> i" for i using assms(2) that by (simp add: fits_def)
  have r': "i < h" if "bit r i" for i using r [of i] that by (meson leI)
  show "drop_bit h (push_bit h l OR r) = l"
  proof (rule bit_word_eqI)
    fix n :: nat
    have "h + n < 32" if "bit l n" using l [of n] that assms(3) by linarith
    then show "bit (drop_bit h (push_bit h l OR r)) n = bit l n"
      using r [of "h + n"] by (auto simp: bit_simps)
  qed
  show "(push_bit h l OR r) AND mask h = r"
    using r' assms(3) by (intro bit_word_eqI) (auto simp: bit_simps)
  show "fits (2 * h) (push_bit h l OR r)"
    using l r by (auto simp: fits_def bit_simps)
qed

lemma split_join: "push_bit h (drop_bit h v) OR (v AND mask h) = (v :: u32)"
  by (rule bit_word_eqI) (auto simp: bit_simps)

definition pair_fits :: "nat \<Rightarrow> u32 \<times> u32 \<Rightarrow> bool" where
  "pair_fits h = (\<lambda>(l, r). fits h l \<and> fits h r)"

text \<open>The shape that \<open>pos_perm_new\<close> builds.\<close>

definition perm_ok :: "pos_perm \<Rightarrow> bool" where
  "perm_ok p \<longleftrightarrow> 2 * pp_half_bits p \<le> 32 \<and> pp_mask p = mask (pp_half_bits p) \<and> unat (pp_n p) \<le> 2 ^ (2 * pp_half_bits p)"

lemma perm_f_fits: "perm_ok p \<Longrightarrow> fits (pp_half_bits p) (perm_f p i x)"
  by (simp add: perm_f_def perm_ok_def Let_def fits_mask)

lemma rounds_fit:
  "perm_ok p \<Longrightarrow> pair_fits (pp_half_bits p) lr \<Longrightarrow> pair_fits (pp_half_bits p) (fold (perm_round p) is lr)"
proof (induction "is" arbitrary: lr)
  case (Cons i "is")
  then have "pair_fits (pp_half_bits p) (perm_round p i lr)"
    by (auto simp: perm_round_def pair_fits_def intro: fits_xor perm_f_fits)
  then show ?case using Cons by simp
qed simp

lemma xor_word_cancel: "a XOR x = b XOR x \<longleftrightarrow> a = b" for a b x :: u32
  by (auto simp: bit_eq_iff bit_simps)

lemma round_inj: "perm_round p i x = perm_round p i y \<Longrightarrow> x = y"
  by (cases x; cases y) (auto simp: perm_round_def xor_word_cancel)

lemma rounds_inj: "fold (perm_round p) is x = fold (perm_round p) is y \<Longrightarrow> x = y"
proof (induction "is" arbitrary: x y)
  case (Cons i "is")
  then have "fold (perm_round p) is (perm_round p i x) = fold (perm_round p) is (perm_round p i y)" by simp
  then have "perm_round p i x = perm_round p i y" by (rule Cons.IH)
  then show ?case by (rule round_inj)
qed simp

definition perm_domain :: "pos_perm \<Rightarrow> u32 set" where
  "perm_domain p = {v. fits (2 * pp_half_bits p) v}"

lemma encrypt_permutes:
  assumes "perm_ok p"
  shows "inj_on (perm_encrypt p) (perm_domain p)" "perm_encrypt p ` perm_domain p \<subseteq> perm_domain p"
proof -
  define h where "h = pp_half_bits p"
  define net where "net = (\<lambda>v. fold (perm_round p) [0..<ROUNDS] (drop_bit h v, v AND mask h))"
  have ok: "2 * h \<le> 32" "pp_mask p = mask h" using assms by (simp_all add: perm_ok_def h_def)
  have enc: "perm_encrypt p v = (let (l, r) = net v in push_bit h l OR r)" for v
    by (simp add: perm_encrypt_def net_def ok(2) flip: h_def)
  have net: "pair_fits h (net v)" if "v \<in> perm_domain p" for v
    using rounds_fit [OF assms, of "(drop_bit h v, v AND mask h)"] that fits_drop_bit [of h v] fits_mask [of h v]
    by (simp add: net_def perm_domain_def pair_fits_def flip: h_def)
  show "perm_encrypt p ` perm_domain p \<subseteq> perm_domain p"
  proof (rule image_subsetI)
    fix v assume v: "v \<in> perm_domain p"
    obtain l r where n: "net v = (l, r)" by (cases "net v")
    then have "fits (2 * h) (push_bit h l OR r)" using net [OF v] by (intro join_halves(3) ok(1)) (simp_all add: pair_fits_def)
    then show "perm_encrypt p v \<in> perm_domain p" by (simp add: enc n perm_domain_def flip: h_def)
  qed
  show "inj_on (perm_encrypt p) (perm_domain p)"
  proof (rule inj_onI)
    fix v w assume v: "v \<in> perm_domain p" and w: "w \<in> perm_domain p" and eq: "perm_encrypt p v = perm_encrypt p w"
    obtain l r l' r' where nv: "net v = (l, r)" and nw: "net w = (l', r')" by (metis surj_pair)
    have f: "fits h l" "fits h r" "fits h l'" "fits h r'" using net [OF v] net [OF w] nv nw by (simp_all add: pair_fits_def)
    have "push_bit h l OR r = push_bit h l' OR r'" using eq by (simp add: enc nv nw)
    from arg_cong [OF this, of "drop_bit h"] arg_cong [OF this, of "\<lambda>x. x AND mask h"]
    have "l = l'" "r = r'"
      unfolding join_halves(1,2) [OF f(1,2) ok(1)] join_halves(1,2) [OF f(3,4) ok(1)] .
    then have "net v = net w" using nv nw by simp
    then have "(drop_bit h v, v AND mask h) = (drop_bit h w, w AND mask h)" unfolding net_def by (rule rounds_inj)
    then have "drop_bit h v = drop_bit h w \<and> v AND mask h = w AND mask h" by (simp only: prod.inject)
    then have "push_bit h (drop_bit h v) OR (v AND mask h) = push_bit h (drop_bit h w) OR (w AND mask h)" by (simp only:)
    then show "v = w" by (simp only: split_join)
  qed
qed

section \<open>Building and walking\<close>

declare count_bits.simps [simp del]

lemma count_bits_enough:
  "1 \<le> bits \<Longrightarrow> bits \<le> 32 \<Longrightarrow> bits \<le> count_bits n bits \<and> count_bits n bits \<le> 32 \<and> unat n \<le> 2 ^ count_bits n bits"
proof (induction n bits rule: count_bits.induct)
  case (1 n bits)
  show ?case
  proof (cases "bits < 32 \<and> push_bit bits 1 < n")
    case True
    then show ?thesis using 1 by (simp add: count_bits.simps [of n bits])
  next
    case False
    have "unat n \<le> 2 ^ bits"
    proof (cases "bits = 32")
      case True
      then show ?thesis using unsigned_less [of n, where 'a = nat] by simp
    next
      case bits: False
      then have "n \<le> push_bit bits 1" using False 1(3) by simp
      then have "unat n \<le> unat (push_bit bits 1 :: u32)" by (simp add: word_le_nat_alt)
      also have "unat (push_bit bits 1 :: u32) = 2 ^ bits"
        using bits 1(3) by (simp only: unsigned_push_bit_eq unsigned_1) (simp add: take_bit_nat_eq_self push_bit_eq_mult)
      finally show ?thesis .
    qed
    moreover have "count_bits n bits = bits" using False by (simp only: count_bits.simps [of n bits] if_False)
    ultimately show ?thesis using 1(2,3) by simp
  qed
qed

lemma new_perm_ok:
  assumes "pos_perm_new sha256 n key = Some p"
  shows "perm_ok p" "pp_n p = n" "2 \<le> n"
proof -
  define c where "c = count_bits n 1"
  define bits where "bits = (if c mod 2 = 1 then c + 1 else c)"
  have c: "1 \<le> c" "c \<le> 32" "unat n \<le> 2 ^ c" using count_bits_enough [of 1 n] by (simp_all add: c_def)
  have b: "bits mod 2 = 0" "c \<le> bits" unfolding bits_def by presburger+
  define keys where "keys = map (\<lambda>i. from_le (slice (i * 4) 4 (sha256 (STEGO_PERM_TAG @ key))) :: u32) [0..<ROUNDS]"
  have "pos_perm_new sha256 n key = (if n < 2 then None else if bits > 32 then None
      else Some \<lparr>pp_n = n, pp_half_bits = bits div 2, pp_mask = push_bit (bits div 2) 1 - 1, pp_round_keys = keys\<rparr>)"
    unfolding pos_perm_new_def Let_def bits_def c_def keys_def by (rule refl)
  then have p: "\<not> bits > 32" "\<not> n < 2"
      "p = \<lparr>pp_n = n, pp_half_bits = bits div 2, pp_mask = push_bit (bits div 2) 1 - 1, pp_round_keys = keys\<rparr>"
    using assms by (simp_all split: if_splits)
  show "pp_n p = n" "2 \<le> n" using p(2) by (simp_all add: p(3))
  have "2 * (bits div 2) = bits" using b(1) by presburger
  moreover have "unat n \<le> 2 ^ bits" using c(3) power_increasing [OF b(2), of "2 :: nat"] by linarith
  ultimately show "perm_ok p" using p(1) unfolding p(3) perm_ok_def mask_word by simp
qed

definition positions :: "pos_perm \<Rightarrow> u32 set" where
  "positions p = {v. v < pp_n p}"

lemma positions_domain: "perm_ok p \<Longrightarrow> positions p \<subseteq> perm_domain p"
proof
  fix v assume ok: "perm_ok p" and "v \<in> positions p"
  then have "unat v < 2 ^ (2 * pp_half_bits p)" by (simp add: positions_def perm_ok_def word_less_nat_alt)
  then have "\<not> bit v i" if "2 * pp_half_bits p \<le> i" for i using bit_small [of v "2 * pp_half_bits p" i] that by linarith
  then show "v \<in> perm_domain p" by (simp add: perm_domain_def fits_def)
qed

text \<open>The walk ends at the first return.\<close>

lemma walk_returns:
  "0 < k \<Longrightarrow> (perm_encrypt p ^^ k) v \<in> positions p \<Longrightarrow> (\<forall>i. 0 < i \<longrightarrow> i < k \<longrightarrow> (perm_encrypt p ^^ i) v \<notin> positions p) \<Longrightarrow>
     perm_walk p v = Some ((perm_encrypt p ^^ k) v)"
proof (induction k arbitrary: v)
  case (Suc k)
  show ?case
  proof (cases "k = 0")
    case True
    then show ?thesis using Suc.prems(2) by (subst perm_walk.simps) (simp add: positions_def)
  next
    case False
    have "perm_encrypt p v \<notin> positions p" using Suc.prems(3) [rule_format, of 1] False by simp
    moreover have shift: "(perm_encrypt p ^^ i) (perm_encrypt p v) = (perm_encrypt p ^^ Suc i) v" for i
      by (simp only: funpow_Suc_right comp_apply)
    have "perm_walk p (perm_encrypt p v) = Some ((perm_encrypt p ^^ k) (perm_encrypt p v))"
    proof (rule Suc.IH)
      show "0 < k" using False by simp
      show "(perm_encrypt p ^^ k) (perm_encrypt p v) \<in> positions p" unfolding shift by (rule Suc.prems(2))
      show "\<forall>i. 0 < i \<longrightarrow> i < k \<longrightarrow> (perm_encrypt p ^^ i) (perm_encrypt p v) \<notin> positions p"
        unfolding shift using Suc.prems(3) by (metis Suc_less_eq zero_less_Suc)
    qed
    ultimately show ?thesis unfolding shift [symmetric] by (subst perm_walk.simps) (simp add: positions_def)
  qed
qed simp

lemma rank_first_return:
  assumes "perm_ok p" "v \<in> positions p"
  obtains k where "first_return (perm_encrypt p) (positions p) v k" "perm_rank p v = Some ((perm_encrypt p ^^ k) v)"
proof -
  note perm = encrypt_permutes [OF assms(1)]
  obtain k where k: "first_return (perm_encrypt p) (positions p) v k"
    using first_return_exists [OF _ perm positions_domain [OF assms(1)] assms(2)] by auto
  then have "perm_rank p v = Some ((perm_encrypt p ^^ k) v)"
    unfolding perm_rank_def by (intro walk_returns) (simp_all add: first_return_def)
  with k show ?thesis by (rule that)
qed

lemma rank_permutes:
  assumes "perm_ok p"
  shows "bij_betw (\<lambda>v. the (perm_rank p v)) (positions p) (positions p)" "\<forall>v \<in> positions p. perm_rank p v \<noteq> None"
proof -
  note perm = encrypt_permutes [OF assms]
  have closed: "the (perm_rank p v) \<in> positions p" if v: "v \<in> positions p" for v
    using rank_first_return [OF assms v] by (metis first_return_def option.sel)
  have "inj_on (\<lambda>v. the (perm_rank p v)) (positions p)"
  proof (rule inj_onI)
    fix v w assume v: "v \<in> positions p" and w: "w \<in> positions p" and eq: "the (perm_rank p v) = the (perm_rank p w)"
    obtain i where i: "first_return (perm_encrypt p) (positions p) v i" "perm_rank p v = Some ((perm_encrypt p ^^ i) v)"
      using rank_first_return [OF assms v] .
    obtain j where j: "first_return (perm_encrypt p) (positions p) w j" "perm_rank p w = Some ((perm_encrypt p ^^ j) w)"
      using rank_first_return [OF assms w] .
    show "v = w" using first_return_inj [OF perm positions_domain [OF assms] v w i(1) j(1)] eq i(2) j(2) by simp
  qed
  moreover have "(\<lambda>v. the (perm_rank p v)) ` positions p \<subseteq> positions p" using closed by blast
  ultimately show "bij_betw (\<lambda>v. the (perm_rank p v)) (positions p) (positions p)"
    unfolding bij_betw_def using endo_inj_surj [of "positions p"] by auto
  show "\<forall>v \<in> positions p. perm_rank p v \<noteq> None" using rank_first_return [OF assms] by (metis option.distinct(1))
qed

section \<open>Properties\<close>

text \<open>
  C32: The keyed order is a permutation and its loop ends. For every image of at least two positions, every key
  and every hash, the walk from each position returns after finitely many rounds, its rank is again below the
  number of positions, and different positions have different ranks, so every rank is taken exactly once: no
  coefficient is visited twice and none is skipped, although no table of the order is ever stored.
\<close>

theorem rank_is_permutation:
  assumes "pos_perm_new sha256 n key = Some p"
  shows "(\<forall>pos < n. perm_rank p pos \<noteq> None) \<and> bij_betw (\<lambda>pos. the (perm_rank p pos)) {pos. pos < n} {r. r < n}"
  using rank_permutes [OF new_perm_ok(1) [OF assms]] new_perm_ok(2) [OF assms] by (simp add: positions_def)

theorem rank_is_permutation_witness:
  "\<exists>p. pos_perm_new (\<lambda>_. replicate 32 7) 5 [1, 2] = Some p \<and> perm_rank p 3 \<noteq> None"
proof -
  have "count_bits 5 1 = 3"
    by (subst count_bits.simps, simp, subst count_bits.simps, simp, subst count_bits.simps, simp)
  then obtain p where p: "pos_perm_new (\<lambda>_. replicate 32 7) 5 [1, 2] = Some p"
    by (simp add: pos_perm_new_def word_less_nat_alt)
  then show ?thesis using rank_is_permutation [OF p] by (simp add: word_less_nat_alt)
qed

end
