(* ===== verification/KasDescriptor.thy ===== *)
theory KasDescriptor
  imports KasXpub
begin

text \<open>
  The text form of multisig wallets (bootloader/src/handlers/sd.rs): the writer, the two parsers (44' with keys
  in hexadecimal, 45' with kpub texts), header lines, and loading a text into a configuration. The properties:
  what is written loads as the wallet it was written from, and what loads is a well-formed wallet or changes nothing.
  \<open>sha256\<close> is the sha2 crate, inside the kpub texts.
\<close>

section \<open>Parsing\<close>

definition hex_nibble :: "u8 \<Rightarrow> u8" where
  "hex_nibble ch =
     (if of_char CHR ''0'' \<le> ch \<and> ch \<le> of_char CHR ''9'' then ch - of_char CHR ''0''
      else if of_char CHR ''a'' \<le> ch \<and> ch \<le> of_char CHR ''f'' then ch - of_char CHR ''a'' + 10
      else if of_char CHR ''A'' \<le> ch \<and> ch \<le> of_char CHR ''F'' then ch - of_char CHR ''A'' + 10
      else 0xFF)"

definition is_space :: "u8 \<Rightarrow> bool" where
  "is_space b \<longleftrightarrow> b = 10 \<or> b = 13 \<or> b = 32 \<or> b = 9"

text \<open>\<open>while end > 0 \&\& matches!(data[end - 1], ..) \{ end -= 1; \}\<close>\<close>

definition trim_end :: "bytes \<Rightarrow> bytes" where
  "trim_end data = rev (dropWhile is_space (rev data))"

text \<open>The loops over the digit pairs of a key and of a chain code.\<close>

fun hex_pairs :: "bytes \<Rightarrow> bytes option" where
  "hex_pairs (a # b # rest) =
     (let hi = hex_nibble a; lo = hex_nibble b
      in if hi = 0xFF \<or> lo = 0xFF then None
         else map_option (\<lambda>bs. (push_bit 4 hi OR lo) # bs) (hex_pairs rest))"
| "hex_pairs _ = Some []"

text \<open>One entry of a 44' descriptor: 66 digits of a compressed key, 64 of a chain code.\<close>

definition hex_entry :: "bytes \<Rightarrow> (bytes \<times> bytes) option" where
  "hex_entry hex_slice =
     (case hex_pairs (take 66 hex_slice) of None \<Rightarrow> None
      | Some pubkey \<Rightarrow>
          if pubkey ! 0 \<noteq> 0x02 \<and> pubkey ! 0 \<noteq> 0x03 then None
          else (case hex_pairs (drop 66 hex_slice) of None \<Rightarrow> None | Some chain_code \<Rightarrow> Some (pubkey, chain_code)))"

text \<open>
  The loop that both parsers have over the text behind the threshold: entries of \<open>w\<close> characters with a comma
  behind each; a comma behind the last one is skipped as well. \<open>rest\<close> is \<open>inner[pos..]\<close>.
\<close>

function entry_loop :: "nat \<Rightarrow> (bytes \<Rightarrow> 'a option) \<Rightarrow> bytes \<Rightarrow> 'a list \<Rightarrow> 'a list option" where
  "entry_loop w item rest entries =
     (if rest = [] then Some entries
      else if MAX_MULTISIG_KEYS \<le> length entries then None
      else if length rest < w then None
      else (case item (take w rest) of None \<Rightarrow> None
        | Some e \<Rightarrow>
            let entries = entries @ [e]; rest = drop w rest
            in if rest \<noteq> []
               then (if hd rest \<noteq> of_char CHR '','' then None else entry_loop w item (tl rest) entries)
               else Some entries))"
  by pat_completeness auto
termination by (relation "measure (\<lambda>(w, item, rest, entries). length rest)") auto

declare entry_loop.simps [simp del]

text \<open>An array of the fixed size with the entries in front.\<close>

definition fixed :: "'a \<Rightarrow> 'a list \<Rightarrow> 'a list" where
  "fixed zero xs = blit xs 0 (replicate MAX_MULTISIG_KEYS zero)"

text \<open>Between the prefix and the closing parenthesis: a digit, a comma, the entries.\<close>

definition split_descriptor :: "bytes \<Rightarrow> bytes \<Rightarrow> (u8 \<times> bytes) option" where
  "split_descriptor prefix data =
     (let data = trim_end data
      in if length data < length prefix + 2 \<or> take (length prefix) data \<noteq> prefix then None
         else if data ! (length data - 1) \<noteq> of_char CHR '')'' then None
         else (let inner = drop (length prefix) (take (length data - 1) data)
               in if inner = [] \<or> inner ! 0 < of_char CHR ''1'' \<or> inner ! 0 > of_char CHR ''9'' then None
                  else if length inner < 2 \<or> inner ! 1 \<noteq> of_char CHR '','' then None
                  else Some (inner ! 0 - of_char CHR ''0'', drop 2 inner)))"

definition HD_PREFIX :: bytes where "HD_PREFIX = map of_char ''multi_hd(''"
definition HD45_PREFIX :: bytes where "HD45_PREFIX = map of_char ''multi_hd45(''"
definition KPUB_STR_LEN :: nat where "KPUB_STR_LEN = 111"

definition parse_descriptor :: "bytes \<Rightarrow> (u8 \<times> u8 \<times> bytes list \<times> bytes list) option" where
  "parse_descriptor data =
     (case split_descriptor HD_PREFIX data of None \<Rightarrow> None
      | Some (m, rest) \<Rightarrow>
          (case entry_loop 130 hex_entry rest [] of None \<Rightarrow> None
           | Some entries \<Rightarrow>
               let n = (of_nat (length entries) :: u8)
               in if n = 0 \<or> m > n then None
                  else Some (m, n, fixed (zeros 33) (map fst entries), fixed (zeros 32) (map snd entries))))"

lemma comment_shorter:
  assumes "dropWhile P data \<noteq> []" "hd (dropWhile P data) = c" "c \<noteq> 10"
  shows "length (dropWhile (\<lambda>b. b \<noteq> 10) (dropWhile P data)) < length (data :: bytes)"
proof -
  obtain rest where r: "dropWhile P data = c # rest" using assms(1,2) by (cases "dropWhile P data") auto
  have "length (dropWhile (\<lambda>b. b \<noteq> 10) rest) \<le> length rest" by (rule length_dropWhile_le)
  moreover have "length (c # rest) \<le> length data" unfolding r [symmetric] by (rule length_dropWhile_le)
  ultimately show ?thesis using assms(3) by (simp add: r)
qed

text \<open>\<open>skip_header\<close>: blank space and comment lines in front.\<close>

function skip_header :: "bytes \<Rightarrow> bytes" where
  "skip_header data =
     (let rest = dropWhile is_space data
      in if rest \<noteq> [] \<and> hd rest = of_char CHR ''#'' then skip_header (dropWhile (\<lambda>b. b \<noteq> 10) rest) else rest)"
  by pat_completeness auto
termination by (relation "measure length") (auto intro: comment_shorter)

declare skip_header.simps [simp del]

text \<open>The comparison of the sort: the first of the 111 characters that differs decides.\<close>

definition text_greater :: "bytes \<Rightarrow> bytes \<Rightarrow> bool" where
  "text_greater a b =
     (case List.find (\<lambda>k. a ! k \<noteq> b ! k) [0..<KPUB_STR_LEN] of None \<Rightarrow> False | Some k \<Rightarrow> a ! k > b ! k)"

text \<open>An account key: \<open>parse_kpub_parts(entry)?\<close>, at depth 3.\<close>

definition account_kpub :: "(bytes \<Rightarrow> bytes) \<Rightarrow> bytes \<Rightarrow> kpub_parts option" where
  "account_kpub sha256 entry =
     (case parse_kpub_parts sha256 entry of None \<Rightarrow> None
      | Some p \<Rightarrow> if kp_depth p \<noteq> 3 then None else Some p)"

definition parse_descriptor_45 :: "(bytes \<Rightarrow> bytes) \<Rightarrow> bytes \<Rightarrow> (u8 \<times> u8 \<times> kpub_parts list) option" where
  "parse_descriptor_45 sha256 data =
     (case split_descriptor HD45_PREFIX (skip_header data) of None \<Rightarrow> None
      | Some (m, rest) \<Rightarrow>
          (case entry_loop KPUB_STR_LEN Some rest [] of None \<Rightarrow> None
           | Some entries \<Rightarrow>
               let n = length entries
               in if n = 0 \<or> unat m > n then None
                  else
                    (let entries = insertion_sort (\<lambda>j xs. text_greater (xs ! (j - 1)) (xs ! j)) swap_prev n entries
                     in if list_ex (\<lambda>i. entries ! (i - 1) = entries ! i) [1..<n] then None
                        else (case those (map (account_kpub sha256) entries) of None \<Rightarrow> None
                          | Some parts \<Rightarrow> Some (m, of_nat n, parts)))))"

definition looks_like_descriptor :: "bytes \<Rightarrow> bool" where
  "looks_like_descriptor data =
     (let d = skip_header data in take (length HD45_PREFIX) d = HD45_PREFIX \<or> take (length HD_PREFIX) d = HD_PREFIX)"

definition load_descriptor_into :: "(bytes \<Rightarrow> bytes) \<Rightarrow> multisig_config \<Rightarrow> bytes \<Rightarrow> bool \<times> multisig_config" where
  "load_descriptor_into sha256 cfg data =
     (let d = skip_header data
      in if take (length HD45_PREFIX) d = HD45_PREFIX
         then (case parse_descriptor_45 sha256 d of None \<Rightarrow> (False, cfg)
           | Some (m, n, parts) \<Rightarrow>
               let c = multisig_config_new
               in (True, c\<lparr>mc_v45 := True, mc_m := m, mc_n := n,
                     mc_pubkeys := blit (map kp_pubkey parts) 0 (mc_pubkeys c),
                     mc_chain_codes := blit (map kp_chain_code parts) 0 (mc_chain_codes c),
                     mc_depth := blit (map kp_depth parts) 0 (mc_depth c),
                     mc_parent_fp := blit (map kp_parent_fp parts) 0 (mc_parent_fp c),
                     mc_child_num := blit (map kp_child_num parts) 0 (mc_child_num c)\<rparr>))
         else (case parse_descriptor d of None \<Rightarrow> (False, cfg)
           | Some (m, n, pubkeys, chain_codes) \<Rightarrow>
               (True, multisig_config_new\<lparr>mc_v45 := False, mc_m := m, mc_n := n,
                        mc_pubkeys := pubkeys, mc_chain_codes := chain_codes\<rparr>)))"

section \<open>Writing\<close>

text \<open>\<open>put\<close> for each byte of a piece; the piece None is a kpub text of another length, for which 0 is returned.\<close>

fun puts :: "bytes \<Rightarrow> nat \<times> bytes \<Rightarrow> bool \<times> nat \<times> bytes" where
  "puts [] (pos, out) = (True, pos, out)"
| "puts (b # bs) (pos, out) = (if length out \<le> pos then (False, pos, out) else puts bs (pos + 1, out[pos := b]))"

fun put_pieces :: "bytes option list \<Rightarrow> nat \<times> bytes \<Rightarrow> nat \<times> bytes" where
  "put_pieces [] (pos, out) = (pos, out)"
| "put_pieces (None # _) (pos, out) = (0, out)"
| "put_pieces (Some bs # rest) (pos, out) =
     (case puts bs (pos, out) of (True, s) \<Rightarrow> put_pieces rest s | (False, _, out) \<Rightarrow> (0, out))"

definition HEX :: bytes where "HEX = map of_char ''0123456789abcdef''"

definition hex_text :: "bytes \<Rightarrow> bytes" where
  "hex_text bs = concat (map (\<lambda>v. [HEX ! unat (drop_bit 4 v), HEX ! unat (v AND 0x0f)]) bs)"

definition config_parts :: "multisig_config \<Rightarrow> nat \<Rightarrow> kpub_parts" where
  "config_parts cfg i = \<lparr>kp_depth = mc_depth cfg ! i, kp_parent_fp = mc_parent_fp cfg ! i, kp_child_num = mc_child_num cfg ! i,
     kp_chain_code = mc_chain_codes cfg ! i, kp_pubkey = mc_pubkeys cfg ! i\<rparr>"

definition header_pieces :: "multisig_config \<Rightarrow> bytes option list" where
  "header_pieces cfg =
     [Some (map of_char ''# KasSigner multisig, 45'' @ [39] @ map of_char '' coordinated, ''), Some [of_char CHR ''0'' + mc_m cfg],
      Some (map of_char ''-of-''), Some [of_char CHR ''0'' + mc_n cfg], Some [10]]"

definition kpub_piece :: "(bytes \<Rightarrow> bytes) \<Rightarrow> multisig_config \<Rightarrow> nat \<Rightarrow> bytes option list" where
  "kpub_piece sha256 cfg i =
     (let s = serialize_kpub_parts sha256 (config_parts cfg i)
      in [Some [of_char CHR '',''], if length s \<noteq> KPUB_STR_LEN then None else Some s])"

definition write_descriptor :: "(bytes \<Rightarrow> bytes) \<Rightarrow> multisig_config \<Rightarrow> bytes \<Rightarrow> bool \<Rightarrow> nat \<times> bytes" where
  "write_descriptor sha256 cfg out header =
     (if mc_m cfg = 0 \<or> mc_n cfg = 0 \<or> mc_m cfg > mc_n cfg then (0, out)
      else
        (let n = unat (mc_n cfg)
         in if MAX_MULTISIG_KEYS < n then (0, out)
            else if mc_v45 cfg
            then put_pieces ((if header then header_pieces cfg else []) @ [Some HD45_PREFIX, Some [of_char CHR ''0'' + mc_m cfg]] @
                   concat (map (kpub_piece sha256 cfg) [0..<n]) @ [Some [of_char CHR '')'']]) (0, out)
            else put_pieces ([Some HD_PREFIX, Some [of_char CHR ''0'' + mc_m cfg]] @
                   concat (map (\<lambda>i. [Some [of_char CHR '',''], Some (hex_text (mc_pubkeys cfg ! i)), Some (hex_text (mc_chain_codes cfg ! i))]) [0..<n]) @
                   [Some [of_char CHR '')'']]) (0, out)))"


section \<open>Order of texts and of keys\<close>

lemma digit_less: "x < y \<Longrightarrow> u < p \<Longrightarrow> x * p + u < y * p + v" for x y p u v :: nat
proof -
  assume "x < y" "u < p"
  from this(2) have "x * p + u < (x + 1) * p" by simp
  also have "\<dots> \<le> y * p" using \<open>x < y\<close> by (intro mult_right_mono) simp_all
  finally show "x * p + u < y * p + v" by simp
qed

lemma value58_less:
  "length ds = length es \<Longrightarrow> \<forall>d \<in> set ds. d < 58 \<Longrightarrow> \<forall>e \<in> set es. e < 58 \<Longrightarrow> value58 ds < value58 es \<longleftrightarrow> ds < es"
proof (induction rule: list_induct2)
  case (Cons d ds e es)
  have b: "value58 ds < 58 ^ length ds" "value58 es < 58 ^ length ds"
    using value58_bound [of ds] value58_bound [of es] Cons by auto
  show ?case
    using digit_less [of d e "value58 ds" "58 ^ length ds" "value58 es"] digit_less [of e d "value58 es" "58 ^ length ds" "value58 ds"] b Cons
    by (cases d e rule: linorder_cases) auto
qed simp

lemma be_value_less: "length as = length bs \<Longrightarrow> be_value as < be_value bs \<longleftrightarrow> as < bs"
proof (induction rule: list_induct2)
  case (Cons a as b bs)
  have l: "be_value as < 256 ^ length as" "be_value bs < 256 ^ length as"
    using be_value_bound [of as] be_value_bound [of bs] Cons by auto
  show ?case
    using digit_less [of "unat a" "unat b" "be_value as" "256 ^ length as" "be_value bs"]
      digit_less [of "unat b" "unat a" "be_value bs" "256 ^ length as" "be_value as"] l Cons
    by (cases a b rule: linorder_cases) (auto simp: be_value_Cons word_less_nat_alt)
qed simp

lemma sorted_ALPHABET: "sorted_wrt (<) BASE58_ALPHABET"
  by (simp add: ALPHABET_list)

lemma alphabet_less:
  assumes "length ds = length es" "\<forall>d \<in> set ds. d < 58" "\<forall>e \<in> set es. e < 58"
  shows "map ((!) BASE58_ALPHABET) ds < map ((!) BASE58_ALPHABET) es \<longleftrightarrow> ds < es"
  using assms
proof (induction rule: list_induct2)
  case (Cons d ds e es)
  have mono: "x < y \<Longrightarrow> y < 58 \<Longrightarrow> BASE58_ALPHABET ! x < BASE58_ALPHABET ! y" for x y
    using sorted_wrt_nth_less [OF sorted_ALPHABET, of x y] by simp
  have "BASE58_ALPHABET ! d < BASE58_ALPHABET ! e \<longleftrightarrow> d < e" "BASE58_ALPHABET ! d = BASE58_ALPHABET ! e \<longleftrightarrow> d = e"
    using mono [of d e] mono [of e d] Cons.prems by (cases d e rule: linorder_cases; force)+
  then show ?case using Cons by simp
qed simp

lemma append_less: "length as = length bs \<Longrightarrow> as @ xs < bs @ ys \<longleftrightarrow> as < bs \<or> as = bs \<and> xs < (ys :: 'a :: linorder list)"
  by (induction rule: list_induct2) auto

lemma text_digits:
  assumes "text_of raw s" "raw \<noteq> []" "hd raw \<noteq> 0"
  obtains ds where "s = map ((!) BASE58_ALPHABET) ds" "\<forall>d \<in> set ds. d < 58" "value58 ds = be_value raw"
proof -
  obtain z ds bs where r: "s = replicate z (of_char CHR ''1'') @ map ((!) BASE58_ALPHABET) ds" "raw = replicate z 0 @ bs"
     "\<forall>d \<in> set ds. d < 58" "value58 ds = be_value bs"
    using assms(1) unfolding text_of_def by blast
  have "z = 0" using assms(2,3) r(2) by (cases z) auto
  then show ?thesis using that [of ds] r by simp
qed

text \<open>The order of kpub texts is the order of the serialized keys.\<close>

definition kpub_entry :: "kpub_parts \<Rightarrow> bytes" where
  "kpub_entry p = [kp_depth p] @ kp_parent_fp p @ kp_child_num p @ kp_chain_code p @ kp_pubkey p"

lemma kpub_payload_entry: "kpub_payload p = KASPA_XPUB_VERSION @ kpub_entry p"
  by (simp add: kpub_payload_def kpub_entry_def)

lemma kpub_text:
  assumes "\<forall>x. length (sha256 x) = (32 :: nat)" "kpub_ok p"
  shows "text_of (kpub_payload p @ take 4 (sha256d sha256 (kpub_payload p))) (serialize_kpub_parts sha256 p)"
    "length (serialize_kpub_parts sha256 p) = 111"
proof -
  have len: "length (kpub_payload p) = 78" by (rule length_kpub_payload [OF assms(2)])
  show t: "text_of (kpub_payload p @ take 4 (sha256d sha256 (kpub_payload p))) (serialize_kpub_parts sha256 p)"
    using base58check_encode_text [OF assms(1) len] by (simp add: serialize_parts [OF assms(2)])
  then have "text_of (KASPA_XPUB_VERSION @ (kpub_entry p @ take 4 (sha256d sha256 (kpub_payload p)))) (serialize_kpub_parts sha256 p)"
    by (simp add: kpub_payload_entry)
  then show "length (serialize_kpub_parts sha256 p) = 111"
    using kpub_text_prefix [THEN conjunct1] len assms(1) by (simp add: sha256d_def kpub_payload_entry)
qed

lemma kpub_text_less:
  assumes "\<forall>x. length (sha256 x) = (32 :: nat)" "kpub_ok p" "kpub_ok q"
  shows "serialize_kpub_parts sha256 p < serialize_kpub_parts sha256 q \<longleftrightarrow> kpub_entry p < kpub_entry q"
proof -
  define raw where "raw r = kpub_payload r @ take 4 (sha256d sha256 (kpub_payload r))" for r
  have len: "length (raw r) = 82" "hd (raw r) \<noteq> 0" if "kpub_ok r" for r
    using length_kpub_payload [OF that] assms(1) by (simp_all add: raw_def sha256d_def kpub_payload_def KASPA_XPUB_VERSION_def)
  have ne: "raw r \<noteq> []" if "kpub_ok r" for r using len(1) [OF that] by auto
  obtain ds es where d: "serialize_kpub_parts sha256 p = map ((!) BASE58_ALPHABET) ds" "\<forall>d \<in> set ds. d < 58" "value58 ds = be_value (raw p)"
    and e: "serialize_kpub_parts sha256 q = map ((!) BASE58_ALPHABET) es" "\<forall>d \<in> set es. d < 58" "value58 es = be_value (raw q)"
    using text_digits [OF kpub_text(1) [OF assms(1,2), folded raw_def] ne len(2)]
      text_digits [OF kpub_text(1) [OF assms(1,3), folded raw_def] ne len(2)] assms(2,3) by metis
  have n: "length ds = length es"
    using kpub_text(2) [OF assms(1,2)] kpub_text(2) [OF assms(1,3)] d(1) e(1) by simp
  have "serialize_kpub_parts sha256 p < serialize_kpub_parts sha256 q \<longleftrightarrow> value58 ds < value58 es"
    unfolding d(1) e(1) alphabet_less [OF n d(2) e(2)] value58_less [OF n d(2) e(2)] ..
  also have "\<dots> \<longleftrightarrow> raw p < raw q" unfolding d(3) e(3) using len(1) assms(2,3) by (intro be_value_less) simp
  also have "\<dots> \<longleftrightarrow> kpub_payload p < kpub_payload q"
    unfolding raw_def using assms(2,3) by (subst append_less) (auto simp: length_kpub_payload)
  finally show ?thesis by (simp add: kpub_payload_entry append_less)
qed

section \<open>Digits\<close>

lemma HEX_digits: "k < 16 \<Longrightarrow> hex_nibble (HEX ! k) = of_nat k"
proof -
  have "list_all (\<lambda>k. hex_nibble (HEX ! k) = of_nat k) [0..<16]"
    by (simp add: HEX_def hex_nibble_def upt_rec word_le_nat_alt)
  then show "k < 16 \<Longrightarrow> hex_nibble (HEX ! k) = of_nat k" by (simp add: list_all_iff)
qed

lemma nibbles: "unat (drop_bit 4 v) < 16" "unat (v AND 0x0f) < 16" "push_bit 4 (drop_bit 4 v) OR (v AND 0x0f) = v" for v :: u8
proof -
  have "unat v < 256" using unsigned_less [of v] by simp
  then have "drop_bit 4 (unat v) < 16" by (simp add: drop_bit_eq_div less_mult_imp_div_less)
  then show "unat (drop_bit 4 v) < 16" by (simp only: unat_drop_bit_eq)
  have m: "v AND 0x0f = take_bit 4 v" using take_bit_eq_mask [of 4 v] by (simp add: mask_eq_exp_minus_1)
  show "unat (v AND 0x0f) < 16" unfolding m unsigned_take_bit_eq by (simp only: take_bit_eq_mod) simp
  show "push_bit 4 (drop_bit 4 v) OR (v AND 0x0f) = v"
    unfolding m by (rule bit_eqI) (auto simp: bit_simps)
qed

lemma hex_pairs_text: "hex_pairs (hex_text bs) = Some bs"
proof (induction bs)
  case (Cons v bs)
  have d: "hex_nibble (HEX ! unat (drop_bit 4 v)) = drop_bit 4 v" "hex_nibble (HEX ! unat (v AND 0x0f)) = v AND 0x0f"
    using HEX_digits nibbles(1,2) [of v] by simp_all
  have ff: "drop_bit 4 v \<noteq> 0xFF" "v AND 0x0f \<noteq> 0xFF" using nibbles(1,2) [of v] by (auto simp: word_less_nat_alt)
  have "hex_text (v # bs) = HEX ! unat (drop_bit 4 v) # HEX ! unat (v AND 0x0f) # hex_text bs" by (simp add: hex_text_def)
  then show ?case using d ff Cons.IH nibbles(3) [of v] by (simp add: Let_def)
qed (simp add: hex_text_def)

lemma length_hex_text [simp]: "length (hex_text bs) = 2 * length bs"
  by (induction bs) (simp_all add: hex_text_def)


section \<open>What the writer emits\<close>

lemma puts_result:
  "pos \<le> length out \<Longrightarrow> puts bs (pos, out) =
     (if pos + length bs \<le> length out then (True, pos + length bs, blit bs pos out)
      else (False, length out, blit (take (length out - pos) bs) pos out))"
proof (induction bs arbitrary: pos out)
  case (Cons b bs)
  show ?case
  proof (cases "length out \<le> pos")
    case False
    have "blit xs (Suc pos) (out[pos := b]) = blit (b # xs) pos out" for xs
      using False by (simp add: blit_def take_Suc_conv_app_nth)
    moreover have "take (length out - pos) (b # bs) = b # take (length out - Suc pos) bs"
      using False by (simp add: take_Cons')
    ultimately show ?thesis using Cons.IH [of "Suc pos" "out[pos := b]"] False by simp
  qed (use Cons.prems in simp)
qed simp

lemma put_pieces_result:
  "None \<notin> set ps \<Longrightarrow> pos + length (concat (map the ps)) \<le> length out \<Longrightarrow>
   put_pieces ps (pos, out) = (pos + length (concat (map the ps)), blit (concat (map the ps)) pos out)"
proof (induction ps arbitrary: pos out)
  case (Cons p ps)
  then obtain bs where p: "p = Some bs" by (cases p) auto
  with Cons.prems have fits: "pos + length bs \<le> length out" "pos + length bs + length (concat (map the ps)) \<le> length out"
    by simp_all
  then have "put_pieces (p # ps) (pos, out) = put_pieces ps (pos + length bs, blit bs pos out)"
    by (simp add: p puts_result)
  also have "\<dots> = (pos + length bs + length (concat (map the ps)), blit (concat (map the ps)) (pos + length bs) (blit bs pos out))"
    using Cons.prems fits by (intro Cons.IH) simp_all
  finally show ?case using fits by (simp add: p blit_append add.assoc)
qed simp

text \<open>The bytes of a descriptor, over the texts of its entries.\<close>

definition descriptor_text :: "bytes \<Rightarrow> u8 \<Rightarrow> bytes list \<Rightarrow> bytes" where
  "descriptor_text prefix m es = prefix @ [of_char CHR ''0'' + m] @ concat (map ((#) (of_char CHR '','')) es) @ [of_char CHR '')'']"

definition header_text :: "multisig_config \<Rightarrow> bytes" where
  "header_text cfg = concat (map the (header_pieces cfg))"

definition entry_texts :: "(bytes \<Rightarrow> bytes) \<Rightarrow> multisig_config \<Rightarrow> bytes list" where
  "entry_texts sha256 cfg =
     (if mc_v45 cfg then map (\<lambda>i. serialize_kpub_parts sha256 (config_parts cfg i)) [0..<unat (mc_n cfg)]
      else map (\<lambda>i. hex_text (mc_pubkeys cfg ! i) @ hex_text (mc_chain_codes cfg ! i)) [0..<unat (mc_n cfg)])"

definition whole_text :: "(bytes \<Rightarrow> bytes) \<Rightarrow> multisig_config \<Rightarrow> bool \<Rightarrow> bytes" where
  "whole_text sha256 cfg header =
     (if mc_v45 cfg \<and> header then header_text cfg else []) @
     descriptor_text (if mc_v45 cfg then HD45_PREFIX else HD_PREFIX) (mc_m cfg) (entry_texts sha256 cfg)"

text \<open>A configuration that describes a wallet.\<close>

definition wallet_config :: "multisig_config \<Rightarrow> bool" where
  "wallet_config cfg \<longleftrightarrow> wf_config cfg \<and> mc_m cfg \<noteq> 0 \<and> mc_m cfg \<le> mc_n cfg \<and>
     (if mc_v45 cfg then distinct (cosigners cfg) \<and> (\<forall>i < unat (mc_n cfg). kpub_ok (config_parts cfg i) \<and> mc_depth cfg ! i = 3)
      else (\<forall>i < unat (mc_n cfg). hd (mc_pubkeys cfg ! i) \<in> {0x02, 0x03}))"

lemma wallet_configD:
  assumes "wallet_config cfg"
  shows "wf_config cfg" "mc_m cfg \<noteq> 0" "mc_n cfg \<noteq> 0" "\<not> mc_m cfg > mc_n cfg" "0 < unat (mc_m cfg)" "unat (mc_m cfg) \<le> unat (mc_n cfg)"
    "unat (mc_n cfg) \<le> 5"
proof -
  show w: "wf_config cfg" "mc_m cfg \<noteq> 0" using assms by (simp_all add: wallet_config_def)
  have le: "mc_m cfg \<le> mc_n cfg" using assms by (simp add: wallet_config_def)
  then show "\<not> mc_m cfg > mc_n cfg" by simp
  show pos: "0 < unat (mc_m cfg)" and n: "unat (mc_m cfg) \<le> unat (mc_n cfg)"
    using w(2) le by (simp_all add: unat_gt_0 word_le_nat_alt)
  then show "mc_n cfg \<noteq> 0" by (auto simp: unat_eq_zero)
  show "unat (mc_n cfg) \<le> 5" using w(1) by (simp add: wf_config_def size_limits)
qed

lemma write_descriptor_text:
  assumes "wallet_config cfg" "\<forall>x. length (sha256 x) = (32 :: nat)" "length (whole_text sha256 cfg header) \<le> length out"
  shows "write_descriptor sha256 cfg out header = (length (whole_text sha256 cfg header), blit (whole_text sha256 cfg header) 0 out)"
proof -
  note w = wallet_configD [OF assms(1)]
  let ?n = "unat (mc_n cfg)"
  have guard: "\<not> (mc_m cfg = 0 \<or> mc_n cfg = 0 \<or> mc_m cfg > mc_n cfg)" "\<not> MAX_MULTISIG_KEYS < ?n"
    using w by (simp_all add: size_limits)
  show ?thesis
  proof (cases "mc_v45 cfg")
    case True
    let ?ps = "(if header then header_pieces cfg else []) @ [Some HD45_PREFIX, Some [of_char CHR ''0'' + mc_m cfg]] @
                   concat (map (kpub_piece sha256 cfg) [0..<?n]) @ [Some [of_char CHR '')'']]"
    have piece: "kpub_piece sha256 cfg i = [Some [of_char CHR '',''], Some (serialize_kpub_parts sha256 (config_parts cfg i))]"
      if "i < ?n" for i
      using that assms(1) True kpub_text(2) [OF assms(2), of "config_parts cfg i"]
      by (simp add: kpub_piece_def KPUB_STR_LEN_def wallet_config_def)
    have entries: "concat (map (kpub_piece sha256 cfg) [0..<?n]) =
        concat (map (\<lambda>i. [Some [of_char CHR '',''], Some (serialize_kpub_parts sha256 (config_parts cfg i))]) [0..<?n])"
      by (intro arg_cong [where f = concat] map_cong refl) (simp add: piece)
    have "None \<notin> set ?ps" unfolding entries by (auto simp: header_pieces_def)
    moreover have "concat (map the (concat (map (\<lambda>i. [Some [a], Some (f i)]) is))) = concat (map ((#) a) (map f is))"
      for a :: u8 and f and "is" :: "nat list" by (induction "is") simp_all
    then have "concat (map the ?ps) = whole_text sha256 cfg header"
      unfolding entries using True by (simp add: whole_text_def descriptor_text_def entry_texts_def header_text_def)
    ultimately show ?thesis
      using put_pieces_result [of ?ps 0 out] guard True assms(3) by (simp add: write_descriptor_def Let_def)
  next
    case False
    let ?ps = "[Some HD_PREFIX, Some [of_char CHR ''0'' + mc_m cfg]] @
                   concat (map (\<lambda>i. [Some [of_char CHR '',''], Some (hex_text (mc_pubkeys cfg ! i)), Some (hex_text (mc_chain_codes cfg ! i))]) [0..<?n]) @
                   [Some [of_char CHR '')'']]"
    have "concat (map the (concat (map (\<lambda>i. [Some [a], Some (f i), Some (g i)]) is))) = concat (map ((#) a) (map (\<lambda>i. f i @ g i) is))"
      for a :: u8 and f g and "is" :: "nat list" by (induction "is") simp_all
    then have "concat (map the ?ps) = whole_text sha256 cfg header"
      using False by (simp add: whole_text_def descriptor_text_def entry_texts_def)
    moreover have "None \<notin> set ?ps" by auto
    ultimately show ?thesis
      using put_pieces_result [of ?ps 0 out] guard False assms(3) by (simp add: write_descriptor_def Let_def)
  qed
qed

section \<open>What the parser reads back\<close>

lemma trim_end_text: "\<not> is_space b \<Longrightarrow> \<forall>x \<in> set ws. is_space x \<Longrightarrow> trim_end (xs @ [b] @ ws) = xs @ [b]"
proof -
  assume "\<not> is_space b" "\<forall>x \<in> set ws. is_space x"
  then have "dropWhile is_space (rev ws @ b # rev xs) = b # rev xs" by (subst dropWhile_append2) simp_all
  then show ?thesis by (simp add: trim_end_def)
qed

lemma skip_header_plain: "data \<noteq> [] \<Longrightarrow> \<not> is_space (hd data) \<Longrightarrow> hd data \<noteq> of_char CHR ''#'' \<Longrightarrow> skip_header data = data"
  by (cases data) (simp_all add: skip_header.simps Let_def)

lemma skip_header_comment:
  assumes "10 \<notin> set line"
  shows "skip_header (of_char CHR ''#'' # line @ 10 # data) = skip_header data"
proof -
  have "dropWhile (\<lambda>b. b \<noteq> 10) (of_char CHR ''#'' # line @ 10 # data) = 10 # data"
    using assms by (simp add: dropWhile_append3 dropWhile_eq_Nil_conv [THEN iffD2] del: dropWhile_eq_Nil_conv) (induction line; auto)
  then have "skip_header (of_char CHR ''#'' # line @ 10 # data) = skip_header (10 # data)"
    by (subst skip_header.simps) (simp add: is_space_def Let_def)
  also have "\<dots> = skip_header data"
    by (subst (1 2) skip_header.simps) (simp add: is_space_def)
  finally show ?thesis .
qed

lemma entry_loop_text:
  assumes "\<forall>e \<in> set es. length e = w \<and> item e = Some (f e)" "0 < w" "length acc + length es < MAX_MULTISIG_KEYS" "length e = w" "item e = Some (f e)"
  shows "entry_loop w item (e @ concat (map ((#) (of_char CHR '','')) es)) acc = Some (acc @ map f (e # es))"
  using assms
proof (induction es arbitrary: e acc)
  case Nil
  then show ?case by (subst entry_loop.simps) (auto simp: Let_def)
next
  case (Cons e' es)
  have "entry_loop w item (e @ concat (map ((#) (of_char CHR '','')) (e' # es))) acc =
      entry_loop w item (e' @ concat (map ((#) (of_char CHR '','')) es)) (acc @ [f e])"
    using Cons.prems by (subst entry_loop.simps) (auto simp: Let_def)
  also have "\<dots> = Some (acc @ [f e] @ map f (e' # es))" using Cons.prems Cons.IH [of "acc @ [f e]" e'] by simp
  finally show ?case by simp
qed

lemma split_descriptor_text:
  assumes "0 < unat m" "unat m \<le> 9" "\<forall>x \<in> set ws. is_space x"
  shows "split_descriptor prefix (descriptor_text prefix m (e # es) @ ws) = Some (m, e @ concat (map ((#) (of_char CHR '','')) es))"
proof -
  have digit: "of_char CHR ''1'' \<le> of_char CHR ''0'' + m" "of_char CHR ''0'' + m \<le> of_char CHR ''9''"
  proof -
    have "unat (of_char CHR ''0'' + m) = 48 + unat m" using assms(2) by (subst unat_plus_if') (simp add: of_char_of)
    then show "of_char CHR ''1'' \<le> of_char CHR ''0'' + m" "of_char CHR ''0'' + m \<le> of_char CHR ''9''"
      using assms by (simp_all add: word_le_nat_alt)
  qed
  let ?d = "descriptor_text prefix m (e # es)"
  have d: "?d = (prefix @ [of_char CHR ''0'' + m, of_char CHR '',''] @ e @ concat (map ((#) (of_char CHR '','')) es)) @ [of_char CHR '')'']"
    by (simp add: descriptor_text_def)
  have t: "trim_end (?d @ ws) = ?d"
    unfolding d append_assoc [of _ "[of_char CHR '')'']" ws] by (rule trim_end_text [OF _ assms(3)]) (simp add: is_space_def)
  show ?thesis
    unfolding split_descriptor_def t Let_def unfolding d using digit by (simp add: nth_append not_less)
qed


text \<open>The sort of the texts.\<close>

lemma text_greater_lex: "length a = 111 \<Longrightarrow> length b = 111 \<Longrightarrow> text_greater a b \<longleftrightarrow> a > b"
  using first_difference [of a b] by (simp add: text_greater_def KPUB_STR_LEN_def)

interpretation text_loop: insertion_loop "\<lambda>xs. xs" "\<lambda>j xs. text_greater (xs ! (j - 1)) (xs ! j)" swap_prev
  "\<lambda>xs. \<forall>x \<in> set xs. length x = 111"
proof unfold_locales
  fix s :: "bytes list" and j
  assume "\<forall>x \<in> set s. length x = 111" "Suc j < length s"
  then show "(\<forall>x \<in> set (swap_prev (Suc j) s). length x = 111) \<and> swap_prev (Suc j) s = swap_prev (Suc j) s"
    by (auto simp: swap_prev_def dest!: set_update_subset_insert [THEN subsetD])
qed (simp add: text_greater_lex)

lemma adjacent_repeats:
  assumes "sorted xs"
  shows "list_ex (\<lambda>i. xs ! (i - 1) = xs ! i) [1..<length xs] \<longleftrightarrow> \<not> distinct xs"
proof
  assume "list_ex (\<lambda>i. xs ! (i - 1) = xs ! i) [1..<length xs]"
  then obtain i where "1 \<le> i" "i < length xs" "xs ! (i - 1) = xs ! i" by (auto simp: list_ex_iff)
  moreover from this have "i - 1 < length xs" "i - 1 \<noteq> i" by simp_all
  ultimately show "\<not> distinct xs" using nth_eq_iff_index_eq [of xs "i - 1" i] by blast
next
  assume "\<not> distinct xs"
  then obtain i j where ij: "i < j" "j < length xs" "xs ! i = xs ! j"
    by (metis distinct_conv_nth linorder_neqE_nat)
  have "xs ! i \<le> xs ! (j - 1)" "xs ! (j - 1) \<le> xs ! j" 
    using sorted_nth_mono [OF assms, of i "j - 1"] sorted_nth_mono [OF assms, of "j - 1" j] ij by simp_all
  then have "xs ! (j - 1) = xs ! j" using ij(3) by simp
  then show "list_ex (\<lambda>i. xs ! (i - 1) = xs ! i) [1..<length xs]"
    unfolding list_ex_iff using ij by (intro bexI [of _ j]) simp_all
qed

lemma map_sort_key: "map f (sort_key f xs) = sort (map f xs)"
  by (rule properties_for_sort [symmetric]) (simp_all add: sorted_sort_key mset_map)

text \<open>The configuration that loading fills in.\<close>

definition loaded_45 :: "u8 \<Rightarrow> kpub_parts list \<Rightarrow> multisig_config" where
  "loaded_45 m parts =
     multisig_config_new\<lparr>mc_v45 := True, mc_m := m, mc_n := of_nat (length parts),
       mc_pubkeys := fixed (zeros 33) (map kp_pubkey parts), mc_chain_codes := fixed (zeros 32) (map kp_chain_code parts),
       mc_depth := fixed 0 (map kp_depth parts), mc_parent_fp := fixed (zeros 4) (map kp_parent_fp parts),
       mc_child_num := fixed (zeros 4) (map kp_child_num parts)\<rparr>"

lemma fixed_fields: "length xs \<le> 5 \<Longrightarrow> length (fixed z xs) = 5" "i < length xs \<Longrightarrow> fixed z xs ! i = xs ! i"
  by (simp_all add: fixed_def blit_def size_limits nth_append)

lemma loaded_45_wf:
  assumes "\<forall>p \<in> set parts. kpub_ok p" "length parts \<le> 5"
  shows "wf_config (loaded_45 m parts)" "cosigners (loaded_45 m parts) = map kpub_entry parts"
    "mc_n (loaded_45 m parts) = of_nat (length parts)"
proof -
  have n: "unat (of_nat (length parts) :: u8) = length parts" using assms(2) by (simp add: unat_of_nat)
  have inside: "x \<in> set (fixed z (map f parts)) \<Longrightarrow> x = z \<or> (\<exists>p \<in> set parts. x = f p)" for x z and f :: "kpub_parts \<Rightarrow> 'a"
    by (auto simp: fixed_def blit_def)
  show "wf_config (loaded_45 m parts)"
    using assms n by (auto simp: wf_config_def loaded_45_def fixed_fields size_limits multisig_config_new_def kpub_ok_def dest!: inside)
  show "cosigners (loaded_45 m parts) = map kpub_entry parts"
    by (rule nth_equalityI) (simp_all add: cosigners_def loaded_45_def n serialized_entry_def fixed_fields kpub_entry_def)
  show "mc_n (loaded_45 m parts) = of_nat (length parts)" by (simp add: loaded_45_def)
qed

lemma parse_45_result:
  assumes "split_descriptor HD45_PREFIX (skip_header data) = Some (m, rest)" "entry_loop KPUB_STR_LEN Some rest [] = Some es"
    and "\<forall>e \<in> set es. length e = 111"
  shows "parse_descriptor_45 sha256 data =
    (if es = [] \<or> length es < unat m \<or> \<not> distinct es then None
     else map_option (\<lambda>parts. (m, of_nat (length es), parts)) (those (map (account_kpub sha256) (sort es))))"
proof -
  have s: "insertion_sort (\<lambda>j xs. text_greater (xs ! (j - 1)) (xs ! j)) swap_prev (length es) es = sort es"
    using text_loop.insertion_sorts(2) [OF assms(3)] by simp
  have "list_ex (\<lambda>i. sort es ! (i - 1) = sort es ! i) [1..<length es] \<longleftrightarrow> \<not> distinct es"
    using adjacent_repeats [of "sort es"] by simp
  then show ?thesis
    by (simp add: parse_descriptor_45_def assms(1,2) s Let_def not_le map_option_case split: option.split del: One_nat_def)
qed

text \<open>The texts of keys sort as the keys do.\<close>

lemma kpub_texts_sort:
  assumes sha: "\<forall>x. length (sha256 x) = (32 :: nat)" and ps: "\<forall>p \<in> set ps. kpub_ok p"
  defines "ser \<equiv> serialize_kpub_parts sha256"
  shows "map ser (sort_key kpub_entry ps) = sort (map ser ps)" "distinct (map kpub_entry ps) \<Longrightarrow> distinct (map ser ps)"
proof -
  have less: "ser p < ser q \<longleftrightarrow> kpub_entry p < kpub_entry q" if "p \<in> set ps" "q \<in> set ps" for p q
    using kpub_text_less [OF sha] ps that unfolding ser_def by blast
  show "map ser (sort_key kpub_entry ps) = sort (map ser ps)"
  proof (rule properties_for_sort [symmetric])
    show "mset (map ser (sort_key kpub_entry ps)) = mset (map ser ps)" by (simp add: mset_map)
    have "sorted_wrt (\<lambda>p q. kpub_entry p \<le> kpub_entry q) (sort_key kpub_entry ps)"
      using sorted_sort_key [of kpub_entry ps] by (simp add: sorted_wrt_map)
    then show "sorted (map ser (sort_key kpub_entry ps))"
      unfolding sorted_wrt_map by (rule sorted_wrt_mono_rel [rotated]) (use less in \<open>force simp: not_less [symmetric]\<close>)
  qed
  assume dist: "distinct (map kpub_entry ps)"
  show "distinct (map ser ps)"
  proof -
    have "inj_on ser (set ps)"
    proof (rule inj_onI)
      fix p q assume pq: "p \<in> set ps" "q \<in> set ps" "ser p = ser q"
      then have "kpub_entry p = kpub_entry q" using less [of p q] less [of q p] by (metis less_irrefl linorder_neqE)
      then show "p = q" using dist pq(1,2) by (simp add: distinct_map inj_on_def)
    qed
    then show ?thesis using dist by (simp add: distinct_map)
  qed
qed

lemma load_45_text:
  assumes sha: "\<forall>x. length (sha256 x) = (32 :: nat)" and ps: "\<forall>p \<in> set ps. kpub_ok p \<and> kp_depth p = 3" "distinct (map kpub_entry ps)"
    and m: "0 < unat m" "unat m \<le> length ps" "length ps \<le> 5" and ws: "\<forall>x \<in> set ws. is_space x"
  shows "load_descriptor_into sha256 old (descriptor_text HD45_PREFIX m (map (serialize_kpub_parts sha256) ps) @ ws) =
    (True, loaded_45 m (sort_key kpub_entry ps))"
proof -
  let ?ser = "serialize_kpub_parts sha256"
  let ?d = "descriptor_text HD45_PREFIX m (map ?ser ps) @ ws"
  have len: "\<forall>e \<in> set (map ?ser ps). length e = 111" using kpub_text(2) [OF sha] ps by auto
  obtain e es where es: "map ?ser ps = e # es" using m(1,2) by (cases ps) auto
  have plain: "skip_header ?d = ?d"
    by (rule skip_header_plain) (simp_all add: descriptor_text_def HD45_PREFIX_def is_space_def)
  have pre: "take (length HD45_PREFIX) ?d = HD45_PREFIX" by (simp add: descriptor_text_def)
  have split: "split_descriptor HD45_PREFIX (skip_header ?d) = Some (m, e @ concat (map ((#) (of_char CHR '','')) es))"
    unfolding plain unfolding es using m ws by (intro split_descriptor_text) simp_all
  have n: "length (e # es) = length ps" unfolding es [symmetric] by simp
  have "entry_loop KPUB_STR_LEN Some (e @ concat (map ((#) (of_char CHR '','')) es)) [] = Some ([] @ map (\<lambda>x. x) (e # es))"
    using len n m(3) unfolding es by (intro entry_loop_text) (simp_all add: KPUB_STR_LEN_def size_limits)
  then have loop: "entry_loop KPUB_STR_LEN Some (e @ concat (map ((#) (of_char CHR '','')) es)) [] = Some (map ?ser ps)"
    by (simp add: es)
  have "\<forall>p \<in> set ps. kpub_ok p" using ps(1) by blast
  note sorted = kpub_texts_sort(1) [OF sha this] and dist = kpub_texts_sort(2) [OF sha this ps(2)]
  have "account_kpub sha256 (?ser p) = Some p" if "p \<in> set ps" for p
    using parse_parts_iff [OF sha, of "?ser p" p] ps(1) that by (simp add: account_kpub_def)
  then have "map (\<lambda>p. the (account_kpub sha256 (?ser p))) (sort_key kpub_entry ps) = sort_key kpub_entry ps"
    "\<forall>p \<in> set (sort_key kpub_entry ps). account_kpub sha256 (?ser p) \<noteq> None"
    by (auto intro!: map_idI)
  then have parts: "those (map (account_kpub sha256) (sort (map ?ser ps))) = Some (sort_key kpub_entry ps)"
    unfolding sorted [symmetric] map_map comp_def those_map by auto
  have "parse_descriptor_45 sha256 ?d = Some (m, of_nat (length ps), sort_key kpub_entry ps)"
    using parse_45_result [OF split loop len] dist m parts by auto
  then show ?thesis
    by (simp only: load_descriptor_into_def plain Let_def pre option.case prod.case simp_thms if_True)
      (simp add: loaded_45_def fixed_def multisig_config_new_def)
qed


definition loaded_44 :: "u8 \<Rightarrow> (bytes \<times> bytes) list \<Rightarrow> multisig_config" where
  "loaded_44 m ps =
     multisig_config_new\<lparr>mc_v45 := False, mc_m := m, mc_n := of_nat (length ps),
       mc_pubkeys := fixed (zeros 33) (map fst ps), mc_chain_codes := fixed (zeros 32) (map snd ps)\<rparr>"

lemma loaded_44_wf:
  assumes "\<forall>(pk, cc) \<in> set ps. length pk = 33 \<and> length cc = 32" "length ps \<le> 5"
  shows "wf_config (loaded_44 m ps)"
proof -
  have n: "unat (of_nat (length ps) :: u8) = length ps" using assms(2) by (simp add: unat_of_nat)
  have inside: "x \<in> set (fixed z (map f ps)) \<Longrightarrow> x = z \<or> (\<exists>p \<in> set ps. x = f p)" for x z and f :: "bytes \<times> bytes \<Rightarrow> 'a"
    by (auto simp: fixed_def blit_def)
  show ?thesis
    using assms n by (auto simp: wf_config_def loaded_44_def fixed_fields size_limits multisig_config_new_def dest!: inside)
qed

lemma parse_44_result:
  assumes "split_descriptor HD_PREFIX data = Some (m, rest)" "entry_loop 130 hex_entry rest [] = Some es"
  shows "parse_descriptor data =
    (let n = (of_nat (length es) :: u8)
     in if n = 0 \<or> m > n then None else Some (m, n, fixed (zeros 33) (map fst es), fixed (zeros 32) (map snd es)))"
  by (simp add: parse_descriptor_def assms)

lemma load_44_text:
  assumes ps: "\<forall>(pk, cc) \<in> set ps. length pk = 33 \<and> length cc = 32 \<and> hd pk \<in> {0x02, 0x03}"
    and m: "0 < unat m" "unat m \<le> length ps" "length ps \<le> 5" and ws: "\<forall>x \<in> set ws. is_space x"
  shows "load_descriptor_into sha256 old (descriptor_text HD_PREFIX m (map (\<lambda>(pk, cc). hex_text pk @ hex_text cc) ps) @ ws) =
    (True, loaded_44 m ps)"
proof -
  let ?hex = "\<lambda>(pk, cc). hex_text pk @ hex_text cc"
  let ?d = "descriptor_text HD_PREFIX m (map ?hex ps) @ ws"
  obtain e es where es: "ps = e # es" using m(1,2) by (cases ps) auto
  have plain: "skip_header ?d = ?d"
    by (rule skip_header_plain) (simp_all add: descriptor_text_def HD_PREFIX_def is_space_def)
  have pre: "take (length HD45_PREFIX) ?d \<noteq> HD45_PREFIX" by (simp add: descriptor_text_def HD_PREFIX_def HD45_PREFIX_def)
  have split: "split_descriptor HD_PREFIX ?d = Some (m, ?hex e @ concat (map ((#) (of_char CHR '','')) (map ?hex es)))"
    unfolding es list.map using m ws by (intro split_descriptor_text) simp_all
  have item: "length (?hex p) = 130 \<and> hex_entry (?hex p) = Some p" if "p \<in> set ps" for p
  proof -
    obtain pk cc where p: "p = (pk, cc)" by fastforce
    have l: "length pk = 33" "length cc = 32" "hd pk \<in> {0x02, 0x03}" using ps that p by auto
    moreover have "pk ! 0 = hd pk" using l by (cases pk) simp_all
    ultimately show ?thesis by (auto simp: p hex_entry_def hex_pairs_text)
  qed
  define reread where "reread t = the (hex_entry t)" for t
  have "entry_loop 130 hex_entry (?hex e @ concat (map ((#) (of_char CHR '','')) (map ?hex es))) [] = Some ([] @ map reread (?hex e # map ?hex es))"
    using item m(3) unfolding es by (intro entry_loop_text) (simp_all add: reread_def size_limits)
  also have "[] @ map reread (?hex e # map ?hex es) = map (reread \<circ> ?hex) ps" by (simp add: es)
  also have "map (reread \<circ> ?hex) ps = ps" by (rule map_idI) (simp add: reread_def item)
  finally have loop: "entry_loop 130 hex_entry (?hex e @ concat (map ((#) (of_char CHR '','')) (map ?hex es))) [] = Some ps" .
  have "unat (of_nat (length ps) :: u8) = length ps" using m(3) by (simp add: unat_of_nat)
  then have "(of_nat (length ps) :: u8) \<noteq> 0" "\<not> m > of_nat (length ps)"
    using m by (auto simp: word_less_nat_alt)
  then have "parse_descriptor ?d = Some (m, of_nat (length ps), fixed (zeros 33) (map fst ps), fixed (zeros 32) (map snd ps))"
    using parse_44_result [OF split loop] by (simp only: Let_def simp_thms if_False)
  then show ?thesis
    by (simp only: load_descriptor_into_def plain Let_def pre option.case prod.case simp_thms if_False loaded_44_def)
qed

section \<open>Round trip\<close>

lemma config_parts_entry: "kpub_entry (config_parts cfg i) = serialized_entry cfg i"
  by (simp add: kpub_entry_def config_parts_def serialized_entry_def)

lemma header_text_line:
  assumes "wallet_config cfg"
  shows "\<exists>line. header_text cfg = of_char CHR ''#'' # line @ [10] \<and> 10 \<notin> set line"
proof -
  note w = wallet_configD [OF assms]
  have digit: "of_char CHR ''0'' + d \<noteq> 10" if "unat d \<le> 5" for d :: u8
  proof
    assume eq: "of_char CHR ''0'' + d = 10"
    have "unat (of_char CHR ''0'' + d) = 48 + unat d" using that by (subst unat_plus_if') simp
    then show False unfolding eq by simp
  qed
  define line where "line = drop 1 (map of_char ''# KasSigner multisig, 45'') @ [39] @ map of_char '' coordinated, '' @
    [of_char CHR ''0'' + mc_m cfg] @ map of_char ''-of-'' @ [of_char CHR ''0'' + mc_n cfg]"
  have "header_text cfg = of_char CHR ''#'' # line @ [10]"
    by (simp add: header_text_def header_pieces_def line_def)
  moreover have "10 \<notin> set line" using digit [of "mc_m cfg"] digit [of "mc_n cfg"] w by (auto simp: line_def)
  ultimately show ?thesis by blast
qed

lemma skip_header_text:
  assumes "wallet_config cfg"
  shows "skip_header (header_text cfg @ data) = skip_header data" "length (header_text cfg) = 46"
proof -
  obtain line where "header_text cfg = of_char CHR ''#'' # line @ [10]" "10 \<notin> set line" using header_text_line [OF assms] by blast
  then show "skip_header (header_text cfg @ data) = skip_header data" using skip_header_comment by simp
  show "length (header_text cfg) = 46" by (simp add: header_text_def header_pieces_def)
qed

definition MAX_DESCRIPTOR_LEN :: nat where "MAX_DESCRIPTOR_LEN = 9 + 2 + MAX_MULTISIG_KEYS * 130 + (MAX_MULTISIG_KEYS - 1) + 1"
definition MAX_DESCRIPTOR_45_LEN :: nat where
  "MAX_DESCRIPTOR_45_LEN = 11 + 2 + MAX_MULTISIG_KEYS * KPUB_STR_LEN + (MAX_MULTISIG_KEYS - 1) + 1"

lemma length_descriptor_text:
  "\<forall>e \<in> set es. length e = k \<Longrightarrow> length (descriptor_text prefix m es) = length prefix + 2 + length es * (k + 1)"
  by (induction es) (simp_all add: descriptor_text_def)

lemma whole_text_length:
  assumes "wallet_config cfg" "\<forall>x. length (sha256 x) = (32 :: nat)"
  shows "length (whole_text sha256 cfg header) \<le>
    (if mc_v45 cfg then MAX_DESCRIPTOR_45_LEN + (if header then 46 else 0) else MAX_DESCRIPTOR_LEN)"
proof (cases "mc_v45 cfg")
  case True
  then have "\<forall>e \<in> set (entry_texts sha256 cfg). length e = 111"
    using assms kpub_text(2) [OF assms(2)] by (auto simp: entry_texts_def wallet_config_def)
  note len = length_descriptor_text [OF this, of HD45_PREFIX "mc_m cfg"]
  show ?thesis
    using True wallet_configD [OF assms(1)] skip_header_text(2) [OF assms(1)]
    by (simp add: whole_text_def len MAX_DESCRIPTOR_45_LEN_def size_limits KPUB_STR_LEN_def)
      (simp add: entry_texts_def HD45_PREFIX_def)
next
  case False
  then have "\<forall>e \<in> set (entry_texts sha256 cfg). length e = 130"
    using assms(1) by (auto simp: entry_texts_def wallet_config_def wf_config_def)
  note len = length_descriptor_text [OF this, of HD_PREFIX "mc_m cfg"]
  show ?thesis
    using False wallet_configD [OF assms(1)]
    by (simp add: whole_text_def len MAX_DESCRIPTOR_LEN_def size_limits)
      (simp add: entry_texts_def HD_PREFIX_def)
qed

lemma load_whole_text:
  assumes "wallet_config cfg" "\<forall>x. length (sha256 x) = (32 :: nat)" "\<forall>x \<in> set ws. is_space x"
  shows "load_descriptor_into sha256 old (whole_text sha256 cfg header @ ws) =
    (True, if mc_v45 cfg then loaded_45 (mc_m cfg) (sort_key kpub_entry (map (config_parts cfg) [0..<unat (mc_n cfg)]))
           else loaded_44 (mc_m cfg) (map (\<lambda>i. (mc_pubkeys cfg ! i, mc_chain_codes cfg ! i)) [0..<unat (mc_n cfg)]))"
proof -
  note w = wallet_configD [OF assms(1)]
  have nh: "load_descriptor_into sha256 old (whole_text sha256 cfg header @ ws) = load_descriptor_into sha256 old (whole_text sha256 cfg False @ ws)"
    using skip_header_text(1) [OF assms(1)] by (simp add: load_descriptor_into_def whole_text_def)
  show ?thesis
  proof (cases "mc_v45 cfg")
    case True
    let ?ps = "map (config_parts cfg) [0..<unat (mc_n cfg)]"
    have "\<forall>p \<in> set ?ps. kpub_ok p \<and> kp_depth p = 3" "distinct (map kpub_entry ?ps)"
      using assms(1) True by (auto simp: wallet_config_def config_parts_entry comp_def cosigners_def) (simp_all add: config_parts_def)
    from load_45_text [OF assms(2) this, of "mc_m cfg" ws old] show ?thesis
      using True w assms(3) unfolding nh by (simp add: whole_text_def entry_texts_def comp_def)
  next
    case False
    let ?ps = "map (\<lambda>i. (mc_pubkeys cfg ! i, mc_chain_codes cfg ! i)) [0..<unat (mc_n cfg)]"
    have "\<forall>(pk, cc) \<in> set ?ps. length pk = 33 \<and> length cc = 32 \<and> hd pk \<in> {0x02, 0x03}"
      using assms(1) False by (auto simp: wallet_config_def wf_config_def)
    from load_44_text [OF this, of "mc_m cfg" ws sha256 old] show ?thesis
      using False w assms(3) unfolding nh by (simp add: whole_text_def entry_texts_def comp_def)
  qed
qed

text \<open>A wallet's configuration at one of its addresses.\<close>

definition at_path :: "multisig_config \<Rightarrow> u8 \<Rightarrow> u8 \<Rightarrow> u32 \<Rightarrow> multisig_config" where
  "at_path cfg cosigner chain index = cfg\<lparr>mc_cosigner_index := cosigner, mc_chain := chain, mc_addr_index := index\<rparr>"

lemma at_path_simps [simp]:
  "wf_config (at_path cfg s c i) = wf_config cfg" "cosigners (at_path cfg s c i) = cosigners cfg"
  "mc_m (at_path cfg s c i) = mc_m cfg" "mc_n (at_path cfg s c i) = mc_n cfg" "mc_v45 (at_path cfg s c i) = mc_v45 cfg"
  "mc_pubkeys (at_path cfg s c i) = mc_pubkeys cfg" "mc_chain_codes (at_path cfg s c i) = mc_chain_codes cfg"
  "mc_cosigner_index (at_path cfg s c i) = s" "mc_chain (at_path cfg s c i) = c" "mc_addr_index (at_path cfg s c i) = i"
  by (simp_all add: at_path_def wf_config_def cosigners_def serialized_entry_def)

lemma sort_cosigners_simps:
  "mc_m (sort_cosigners cfg) = mc_m cfg" "mc_n (sort_cosigners cfg) = mc_n cfg" "mc_v45 (sort_cosigners cfg) = mc_v45 cfg"
  using sort_cosigners_fields [of cfg] by (simp_all add: wallet_fields_def)

lemma same_addresses_45:
  assumes "wf_config a" "wf_config b" "mc_v45 a" "mc_v45 b" "mc_m a = mc_m b" "mc_n a = mc_n b" "cosigners a = cosigners b"
  shows "address_script cr (at_path a s c i) = address_script cr (at_path b s c i)"
proof -
  have "address_spec cr (at_path a s c i) = address_spec cr (at_path b s c i)"
    using assms by (intro address_spec_order) (simp_all add: wallet_fields_def)
  then show ?thesis using assms by (simp add: address_script_spec)
qed

lemma same_addresses_44:
  assumes "wf_config a" "wf_config b" "\<not> mc_v45 a" "\<not> mc_v45 b" "mc_m a = mc_m b" "mc_n a = mc_n b"
    and "\<forall>k < unat (mc_n a). mc_pubkeys a ! k = mc_pubkeys b ! k \<and> mc_chain_codes a ! k = mc_chain_codes b ! k"
  shows "address_script cr (at_path a s c i) = address_script cr (at_path b s c i)"
proof -
  have eq: "mc_m a = mc_m b" "mc_n a = mc_n b" "mc_v45 a = False" "mc_v45 b = False" using assms by simp_all
  have "keys_at cr (at_path a s c i) path = keys_at cr (at_path b s c i) path" for path
    using assms by (auto simp: keys_at_def intro!: arg_cong [where f = those])
  then have "address_spec cr (at_path a s c i) = address_spec cr (at_path b s c i)"
    unfolding address_spec_def address_path_def at_path_simps eq by simp
  then show ?thesis using assms by (simp add: address_script_spec)
qed

lemma load_keeps_addresses:
  assumes "wallet_config cfg" "\<forall>x. length (sha256 x) = (32 :: nat)" "\<forall>x \<in> set ws. is_space x"
    and load: "load_descriptor_into sha256 old (whole_text sha256 cfg header @ ws) = (ok, new)"
  shows "ok \<and> wf_config new \<and> mc_v45 new = mc_v45 cfg \<and> mc_m new = mc_m cfg \<and> mc_n new = mc_n cfg \<and>
    (\<forall>s c i. address_script cr (at_path new s c i) = address_script cr (at_path (sort_cosigners cfg) s c i))"
proof -
  note w = wallet_configD [OF assms(1)]
  note l = load_whole_text [OF assms(1-3), of old header, unfolded load]
  have n: "(of_nat (unat (mc_n cfg)) :: u8) = mc_n cfg" by simp
  show ?thesis
  proof (cases "mc_v45 cfg")
    case True
    let ?ps = "sort_key kpub_entry (map (config_parts cfg) [0..<unat (mc_n cfg)])"
    have new: "ok" "new = loaded_45 (mc_m cfg) ?ps" using l True by simp_all
    have "\<forall>p \<in> set ?ps. kpub_ok p" using assms(1) True by (auto simp: wallet_config_def)
    note f = loaded_45_wf [OF this, of "mc_m cfg", folded new(2)]
    have "cosigners new = sort (cosigners cfg)"
      using f(2) w by (simp add: map_sort_key comp_def config_parts_entry cosigners_def)
    moreover have "mc_n new = mc_n cfg" using f(3) w n by simp
    moreover have "mc_v45 new" "mc_m new = mc_m cfg" by (simp_all add: new loaded_45_def)
    ultimately show ?thesis
      using f(1) w sort_cosigners_sorts [OF w(1)] True new(1)
      by (auto intro!: same_addresses_45 simp: sort_cosigners_simps)
  next
    case False
    let ?ps = "map (\<lambda>i. (mc_pubkeys cfg ! i, mc_chain_codes cfg ! i)) [0..<unat (mc_n cfg)]"
    have new: "ok" "new = loaded_44 (mc_m cfg) ?ps" using l False by simp_all
    have "\<forall>(pk, cc) \<in> set ?ps. length pk = 33 \<and> length cc = 32" using w(1,7) by (auto simp: wf_config_def)
    then have "wf_config new" using loaded_44_wf w(7) by (simp add: new)
    moreover have "mc_n new = mc_n cfg" "\<not> mc_v45 new" "mc_m new = mc_m cfg" by (simp_all add: new loaded_44_def)
    moreover have "sort_cosigners cfg = cfg" using False by (simp add: sort_cosigners_def)
    moreover have "\<forall>k < unat (mc_n cfg). mc_pubkeys new ! k = mc_pubkeys cfg ! k \<and> mc_chain_codes new ! k = mc_chain_codes cfg ! k"
      by (simp add: new loaded_44_def fixed_fields)
    ultimately show ?thesis using w(1) False new(1) by (auto intro!: same_addresses_44)
  qed
qed


section \<open>What loading accepts\<close>

lemma split_descriptor_digit:
  assumes "split_descriptor prefix data = Some (m, rest)"
  shows "0 < unat m" "unat m \<le> 9"
proof -
  obtain c where c: "of_char CHR ''1'' \<le> c" "c \<le> of_char CHR ''9''" "m = c - of_char CHR ''0''"
    using assms by (auto simp: split_descriptor_def Let_def not_less split: if_splits)
  then have "unat m = unat c - 48" "49 \<le> unat c" "unat c \<le> 57"
    by (simp_all add: word_le_nat_alt unat_sub)
  then show "0 < unat m" "unat m \<le> 9" by simp_all
qed

lemma entry_loop_yields:
  assumes "entry_loop w item rest acc = Some es" "length acc \<le> MAX_MULTISIG_KEYS"
  shows "length es \<le> MAX_MULTISIG_KEYS \<and> (\<forall>e \<in> set es - set acc. \<exists>t. length t = w \<and> item t = Some e)"
  using assms
proof (induction w item rest acc rule: entry_loop.induct)
  case (1 w item rest entries)
  note run = "1.prems"(1) [unfolded entry_loop.simps [of w item rest entries]]
  show ?case
  proof (cases "rest = []")
    case True
    then show ?thesis using run "1.prems"(2) by simp
  next
    case False
    then obtain e where e: "\<not> MAX_MULTISIG_KEYS \<le> length entries" "\<not> length rest < w" "item (take w rest) = Some e"
      using run by (auto split: if_splits option.splits)
    show ?thesis
    proof (cases "drop w rest = []")
      case True
      then have "es = entries @ [e]" using run False e by (simp add: Let_def)
      then show ?thesis using e by (auto intro!: exI [of _ "take w rest"])
    next
      case more: False
      then have "entry_loop w item (tl (drop w rest)) (entries @ [e]) = Some es" "hd (drop w rest) = of_char CHR '',''"
        using run False e by (auto simp: Let_def split: if_splits)
      then have "length es \<le> MAX_MULTISIG_KEYS \<and> (\<forall>x \<in> set es - set (entries @ [e]). \<exists>t. length t = w \<and> item t = Some x)"
        using "1.IH" [OF False e(1,2,3) refl refl more] e(1) by simp
      moreover have "length (take w rest) = w" using e(2) by simp
      ultimately show ?thesis using e(3) by auto
    qed
  qed
qed

lemma hex_pairs_length: "hex_pairs t = Some bs \<Longrightarrow> length bs = length t div 2"
  by (induction t arbitrary: bs rule: hex_pairs.induct) (auto simp: Let_def split: if_splits)

lemma hex_entry_ok: "hex_entry t = Some (pk, cc) \<Longrightarrow> length t = 130 \<Longrightarrow> length pk = 33 \<and> length cc = 32 \<and> hd pk \<in> {0x02, 0x03}"
proof -
  assume h: "hex_entry t = Some (pk, cc)" "length t = 130"
  then have "hex_pairs (take 66 t) = Some pk" "hex_pairs (drop 66 t) = Some cc" and head: "pk ! 0 = 0x02 \<or> pk ! 0 = 0x03"
    by (auto simp: hex_entry_def split: option.splits if_splits)
  then have l: "length pk = 33" "length cc = 32" using h(2) hex_pairs_length by fastforce+
  then have "pk ! 0 = hd pk" by (cases pk) simp_all
  then show "length pk = 33 \<and> length cc = 32 \<and> hd pk \<in> {0x02, 0x03}" using l head by auto
qed

lemma load_45_accepts:
  assumes sha: "\<forall>x. length (sha256 x) = (32 :: nat)" and "parse_descriptor_45 sha256 data = Some (m, n, parts)"
  shows "0 < unat m" "unat m \<le> length parts" "length parts \<le> 5" "n = of_nat (length parts)"
    "\<forall>p \<in> set parts. kpub_ok p \<and> kp_depth p = 3" "sorted (map kpub_entry parts)" "distinct (map kpub_entry parts)"
proof -
  obtain rest es where s: "split_descriptor HD45_PREFIX (skip_header data) = Some (m, rest)" "entry_loop KPUB_STR_LEN Some rest [] = Some es"
    using assms(2) by (auto simp: parse_descriptor_45_def Let_def split: option.splits)
      (auto simp: parse_descriptor_45_def Let_def split: option.splits if_splits)
  have len: "\<forall>e \<in> set es. length e = 111" "length es \<le> 5"
    using entry_loop_yields [OF s(2)] by (auto simp: KPUB_STR_LEN_def size_limits)
  note r = parse_45_result [OF s len(1), of sha256, unfolded assms(2)]
  then have c: "es \<noteq> []" "unat m \<le> length es" "distinct es" and parts: "those (map (account_kpub sha256) (sort es)) = Some parts"
    and n: "n = of_nat (length es)"
    by (cases "those (map (account_kpub sha256) (sort es))"; auto split: if_splits)+
  have "map (\<lambda>e. the (account_kpub sha256 e)) (sort es) = parts" and all: "\<forall>e \<in> set es. account_kpub sha256 e \<noteq> None"
    using parts by (auto simp: those_map split: if_splits)
  then have reread: "map (serialize_kpub_parts sha256) parts = sort es" "\<forall>p \<in> set parts. kpub_ok p \<and> kp_depth p = 3"
  proof -
    have ok: "kpub_ok p \<and> kp_depth p = 3 \<and> e = serialize_kpub_parts sha256 p" if "account_kpub sha256 e = Some p" for e p
    proof -
      have "parse_kpub_parts sha256 e = Some p" "kp_depth p = 3"
        using that by (auto simp: account_kpub_def split: option.splits if_splits)
      then show ?thesis using parse_parts_iff [OF sha, of e p] by simp
    qed
    have "serialize_kpub_parts sha256 (the (account_kpub sha256 e)) = e" if "e \<in> set es" for e
      using ok that all by fastforce
    then show "map (serialize_kpub_parts sha256) parts = sort es"
      unfolding \<open>map _ (sort es) = parts\<close> [symmetric] by (auto intro: map_idI)
    show "\<forall>p \<in> set parts. kpub_ok p \<and> kp_depth p = 3"
      unfolding \<open>map _ (sort es) = parts\<close> [symmetric] using ok all by fastforce
  qed
  have n': "length parts = length es" using arg_cong [OF reread(1), of length] by simp
  show "0 < unat m" by (rule split_descriptor_digit(1) [OF s(1)])
  show "unat m \<le> length parts" "length parts \<le> 5" "n = of_nat (length parts)" using c n n' len(2) by simp_all
  show "\<forall>p \<in> set parts. kpub_ok p \<and> kp_depth p = 3" by (rule reread(2))
  have strict: "sorted_wrt (<) (map (serialize_kpub_parts sha256) parts)"
    unfolding reread(1) using c(3) by (simp add: strict_sorted_iff)
  then have "sorted_wrt (\<lambda>p q. serialize_kpub_parts sha256 p < serialize_kpub_parts sha256 q) parts"
    by (simp add: sorted_wrt_map)
  moreover have "kpub_entry p < kpub_entry q"
    if "p \<in> set parts" "q \<in> set parts" "serialize_kpub_parts sha256 p < serialize_kpub_parts sha256 q" for p q
    using that reread(2) kpub_text_less [OF sha, of p q] by blast
  ultimately have "sorted_wrt (<) (map kpub_entry parts)"
    unfolding sorted_wrt_map by (rule sorted_wrt_mono_rel [rotated])
  then show "sorted (map kpub_entry parts)" "distinct (map kpub_entry parts)" by (simp_all add: strict_sorted_iff)
qed


lemma loaded_45_wallet:
  assumes "0 < unat m" "unat m \<le> length parts" "length parts \<le> 5" "\<forall>p \<in> set parts. kpub_ok p \<and> kp_depth p = 3"
    "distinct (map kpub_entry parts)"
  shows "wallet_config (loaded_45 m parts)"
proof -
  have ok: "\<forall>p \<in> set parts. kpub_ok p" using assms(4) by auto
  note f = loaded_45_wf [OF ok assms(3), of m]
  have n: "unat (of_nat (length parts) :: u8) = length parts" using assms(3) by (simp add: unat_of_nat)
  have parts: "config_parts (loaded_45 m parts) i = parts ! i" "mc_depth (loaded_45 m parts) ! i = kp_depth (parts ! i)" if "i < length parts" for i
    using that by (simp_all add: config_parts_def loaded_45_def fixed_fields)
  have "m \<noteq> 0" "m \<le> of_nat (length parts)" using assms(1,2) n by (auto simp: word_le_nat_alt)
  moreover have "mc_m (loaded_45 m parts) = m" "mc_v45 (loaded_45 m parts)" by (simp_all add: loaded_45_def)
  ultimately show ?thesis using f n parts assms(4,5) by (simp add: wallet_config_def)
qed

lemma loaded_44_wallet:
  assumes "0 < unat m" "unat m \<le> length ps" "length ps \<le> 5" "\<forall>(pk, cc) \<in> set ps. length pk = 33 \<and> length cc = 32 \<and> hd pk \<in> {0x02, 0x03}"
  shows "wallet_config (loaded_44 m ps)"
proof -
  have wf: "wf_config (loaded_44 m ps)" using assms(3,4) by (intro loaded_44_wf) auto
  have n: "unat (of_nat (length ps) :: u8) = length ps" using assms(3) by (simp add: unat_of_nat)
  have "hd (mc_pubkeys (loaded_44 m ps) ! i) \<in> {0x02, 0x03}" if "i < length ps" for i
    using bspec [OF assms(4) nth_mem [OF that]] that by (auto simp: loaded_44_def fixed_fields split_beta)
  moreover have "m \<noteq> 0" "m \<le> of_nat (length ps)" using assms(1,2) n by (auto simp: word_le_nat_alt)
  moreover have "mc_m (loaded_44 m ps) = m" "\<not> mc_v45 (loaded_44 m ps)" "mc_n (loaded_44 m ps) = of_nat (length ps)"
    by (simp_all add: loaded_44_def)
  ultimately show ?thesis using wf n by (simp add: wallet_config_def)
qed

lemma trim_end_prefix: "take k (trim_end d) = p \<Longrightarrow> k \<le> length (trim_end d) \<Longrightarrow> take k d = p"
proof -
  assume h: "take k (trim_end d) = p" "k \<le> length (trim_end d)"
  have "rev (takeWhile is_space (rev d) @ dropWhile is_space (rev d)) = d" by simp
  then have "d = trim_end d @ rev (takeWhile is_space (rev d))" by (simp only: trim_end_def rev_append)
  then show "take k d = p" using h by (metis take_append diff_is_0_eq take_0 append_Nil2)
qed

lemma load_accepts:
  assumes sha: "\<forall>x. length (sha256 x) = (32 :: nat)" and load: "load_descriptor_into sha256 old data = (ok, new)"
  shows "if ok then looks_like_descriptor data \<and> wallet_config new \<and> \<not> mc_active new \<and> (if mc_v45 new then sorted (cosigners new) else True)
    else new = old"
proof (cases "take (length HD45_PREFIX) (skip_header data) = HD45_PREFIX")
  case True
  show ?thesis
  proof (cases "parse_descriptor_45 sha256 (skip_header data)")
    case None
    then show ?thesis using load True by (simp add: load_descriptor_into_def)
  next
    case (Some r)
    then obtain m n parts where r: "parse_descriptor_45 sha256 (skip_header data) = Some (m, n, parts)" by (cases r) auto
    note a = load_45_accepts [OF sha r]
    have new: "ok" "new = loaded_45 m parts"
      using load True r a(4) by (simp_all add: load_descriptor_into_def loaded_45_def fixed_def multisig_config_new_def)
    have "cosigners new = map kpub_entry parts" using loaded_45_wf(2) [of parts m] a by (simp add: new)
    moreover have "\<not> mc_active new" by (simp add: new loaded_45_def multisig_config_new_def)
    ultimately show ?thesis
      using loaded_45_wallet [OF a(1-3,5,7)] a(6) new True by (simp add: looks_like_descriptor_def)
  qed
next
  case False
  show ?thesis
  proof (cases "parse_descriptor (skip_header data)")
    case None
    then show ?thesis using load False by (simp add: load_descriptor_into_def)
  next
    case (Some r)
    then obtain m rest es where s: "split_descriptor HD_PREFIX (skip_header data) = Some (m, rest)" "entry_loop 130 hex_entry rest [] = Some es"
      by (auto simp: parse_descriptor_def split: option.splits prod.splits)
    have n: "of_nat (length es) \<noteq> (0 :: u8)" "\<not> m > of_nat (length es)"
      and r: "r = (m, of_nat (length es), fixed (zeros 33) (map fst es), fixed (zeros 32) (map snd es))"
      using Some parse_44_result [OF s] by (auto simp: Let_def split: if_splits)
    have ent: "\<forall>e \<in> set es. \<exists>t. length t = 130 \<and> hex_entry t = Some e" and len: "length es \<le> 5"
      using entry_loop_yields [OF s(2)] by (auto simp: size_limits)
    then have es: "\<forall>(pk, cc) \<in> set es. length pk = 33 \<and> length cc = 32 \<and> hd pk \<in> {0x02, 0x03}" using hex_entry_ok by blast
    have "unat (of_nat (length es) :: u8) = length es" using len by (simp add: unat_of_nat)
    then have m: "unat m \<le> length es" using n(2) by (simp add: word_less_nat_alt not_less)
    have new: "ok" "new = loaded_44 m es" using load False Some r by (simp_all add: load_descriptor_into_def loaded_44_def)
    have "take (length HD_PREFIX) (trim_end (skip_header data)) = HD_PREFIX" "length HD_PREFIX \<le> length (trim_end (skip_header data))"
      using s(1) by (auto simp: split_descriptor_def Let_def split: if_splits)
    then have "take (length HD_PREFIX) (skip_header data) = HD_PREFIX" by (rule trim_end_prefix)
    then have "looks_like_descriptor data" by (simp add: looks_like_descriptor_def Let_def)
    moreover have "wallet_config new"
      unfolding new(2) by (rule loaded_44_wallet [OF split_descriptor_digit(1) [OF s(1)] m len es])
    moreover have "\<not> mc_active new" "\<not> mc_v45 new" by (simp_all add: new loaded_44_def multisig_config_new_def)
    ultimately show ?thesis using new(1) by (simp only: simp_thms if_True if_False)
  qed
qed

section \<open>Properties\<close>

text \<open>
  C17: A written descriptor restores the wallet. For a well-formed multisig wallet of either scheme the writer
  fits its text, with or without the header line, into a buffer of the documented size, and loading that text,
  even with blank space behind it, gives a configuration of the same scheme and thresholds that has, at every
  cosigner index, chain and address index, the same redeem script as the wallet that was written.
\<close>

theorem descriptor_roundtrip:
  assumes "wallet_config cfg" "\<forall>x. length (sha256 x) = (32 :: nat)" "\<forall>x \<in> set ws. is_space x"
    and "(if mc_v45 cfg then MAX_DESCRIPTOR_45_LEN + (if header then 46 else 0) else MAX_DESCRIPTOR_LEN) \<le> length out"
  shows "\<exists>len out' new. write_descriptor sha256 cfg out header = (len, out') \<and> 0 < len \<and>
    load_descriptor_into sha256 old (take len out' @ ws) = (True, new) \<and>
    mc_v45 new = mc_v45 cfg \<and> mc_m new = mc_m cfg \<and> mc_n new = mc_n cfg \<and>
    (\<forall>s c i. address_script cr (at_path new s c i) = address_script cr (at_path (sort_cosigners cfg) s c i))"
proof -
  let ?t = "whole_text sha256 cfg header"
  have fits: "length ?t \<le> length out" using whole_text_length [OF assms(1,2), of header] assms(4) by linarith
  obtain ok new where load: "load_descriptor_into sha256 old (?t @ ws) = (ok, new)" by fastforce
  have "0 < length ?t" by (simp add: whole_text_def descriptor_text_def)
  then show ?thesis
    using write_descriptor_text [OF assms(1,2) fits] load load_keeps_addresses [OF assms(1-3) load] by auto
qed

text \<open>A wallet of two cosigners, with the keys in the wrong order for the 45' scheme.\<close>

definition two_cosigners :: multisig_config where
  "two_cosigners = multisig_config_new\<lparr>mc_v45 := True, mc_m := 2, mc_n := 2,
     mc_pubkeys := fixed (zeros 33) [2 # replicate 32 8, 2 # replicate 32 7], mc_chain_codes := fixed (zeros 32) [replicate 32 9, replicate 32 6],
     mc_depth := fixed 0 [3, 3], mc_parent_fp := fixed (zeros 4) [[2, 2, 3, 4], [1, 2, 3, 4]],
     mc_child_num := fixed (zeros 4) [[0x80, 0, 0, 0], [0x80, 0, 0, 0]]\<rparr>"

lemma two_cosigners_wallet: "wallet_config two_cosigners"
proof -
  have i: "i < 2 \<longleftrightarrow> i = 0 \<or> i = (1 :: nat)" for i by auto
  have "wf_config two_cosigners"
    by (simp add: wf_config_def two_cosigners_def fixed_def blit_def size_limits multisig_config_new_def)
  moreover have "distinct (cosigners two_cosigners)"
    by (simp add: cosigners_def two_cosigners_def serialized_entry_def fixed_def blit_def upt_rec)
  moreover have "kpub_ok (config_parts two_cosigners i) \<and> mc_depth two_cosigners ! i = 3" if "i < 2" for i
    using that unfolding i by (auto simp: kpub_ok_def config_parts_def two_cosigners_def fixed_def blit_def)
  ultimately show ?thesis by (simp add: wallet_config_def two_cosigners_def)
qed

theorem descriptor_roundtrip_witness:
  "\<exists>len out' new. write_descriptor (\<lambda>_. replicate 32 7) two_cosigners (zeros 700) True = (len, out') \<and>
     load_descriptor_into (\<lambda>_. replicate 32 7) multisig_config_new (take len out' @ [10]) = (True, new) \<and> mc_m new = 2 \<and>
     address_script sample_crypto (at_path new 0 1 5) = address_script sample_crypto (at_path (sort_cosigners two_cosigners) 0 1 5)"
proof -
  have "mc_v45 two_cosigners" "mc_m two_cosigners = 2" by (simp_all add: two_cosigners_def)
  then show ?thesis
    using descriptor_roundtrip [OF two_cosigners_wallet, of "\<lambda>_. replicate 32 7" "[10]" True "zeros 700" multisig_config_new sample_crypto]
    by (auto simp: is_space_def MAX_DESCRIPTOR_45_LEN_def KPUB_STR_LEN_def size_limits)
qed

text \<open>
  C37: Loading a descriptor is all or nothing. Whatever the bytes, either the configuration is left exactly as it
  was, or the bytes look like a descriptor and the new configuration is a well-formed wallet: a threshold from
  one to the number of cosigners, at most five of them, compressed keys, and in the 45' scheme account keys of
  depth 3 in strictly increasing order.
\<close>

theorem load_descriptor_all_or_nothing:
  assumes "\<forall>x. length (sha256 x) = (32 :: nat)" "load_descriptor_into sha256 old data = (ok, new)"
  shows "if ok then looks_like_descriptor data \<and> wallet_config new \<and> \<not> mc_active new \<and> (if mc_v45 new then sorted (cosigners new) else True)
    else new = old"
  by (rule load_accepts [OF assms])


theorem load_descriptor_all_or_nothing_witness:
  "load_descriptor_into (\<lambda>_. replicate 32 7) two_cosigners [109, 117] = (False, two_cosigners) \<and>
   (\<exists>new. load_descriptor_into (\<lambda>_. replicate 32 7) multisig_config_new (whole_text (\<lambda>_. replicate 32 7) two_cosigners True) = (True, new) \<and>
      sorted (cosigners new) \<and> wallet_config new)"
proof
  have "fst (load_descriptor_into (\<lambda>_. replicate 32 7) two_cosigners [109, 117]) = False"
    by (simp add: load_descriptor_into_def skip_header.simps is_space_def HD45_PREFIX_def parse_descriptor_def
        split_descriptor_def trim_end_def HD_PREFIX_def)
  then show "load_descriptor_into (\<lambda>_. replicate 32 7) two_cosigners [109, 117] = (False, two_cosigners)"
    using load_descriptor_all_or_nothing [of "\<lambda>_. replicate 32 7" two_cosigners "[109, 117]"]
    by (cases "load_descriptor_into (\<lambda>_. replicate 32 7) two_cosigners [109, 117]") simp
next
  let ?l = "load_descriptor_into (\<lambda>_. replicate 32 7) multisig_config_new (whole_text (\<lambda>_. replicate 32 7) two_cosigners True)"
  have "mc_v45 two_cosigners" by (simp add: two_cosigners_def)
  then have "fst ?l" "mc_v45 (snd ?l)"
    using load_keeps_addresses [where cr = sample_crypto, OF two_cosigners_wallet, of "\<lambda>_. replicate 32 7" "[]" multisig_config_new True "fst ?l" "snd ?l"]
    by simp_all
  then show "\<exists>new. ?l = (True, new) \<and> sorted (cosigners new) \<and> wallet_config new"
    using load_descriptor_all_or_nothing [of "\<lambda>_. replicate 32 7" multisig_config_new
        "whole_text (\<lambda>_. replicate 32 7) two_cosigners True" "fst ?l" "snd ?l"]
    by (intro exI [of _ "snd ?l"]) (simp add: prod_eq_iff)
qed

end
