(* ===== verification/KasWallet.thy ===== *)
theory KasWallet
  imports KasXpub KasAddress
begin

text \<open>
  The companion's watch-only wallet, kassee/src/bip32.rs: an account's public key is read from its kpub text or
  raw payload, and the receive and change addresses are derived from it without any secret. The crate is built
  with overflow checks, so an overflowing addition is the error Panic. The base58 and HMAC crates and the
  decoding of public keys are parameters (\<open>wallet_crates\<close>); the curve is the crate that the device uses
  (\<open>crypto\<close> of KasBip32). The properties relate the addresses to the keys the device signs with.
\<close>

section \<open>The wallet\<close>

datatype wallet_error = NotKpub | Base58Failed | TooShort nat | BadRawLength nat | InvalidPubkey
  | HardenedFromPublic | InvalidTweak | InvalidChild | Panic

record wallet_data =
  wd_kpub :: bytes
  wd_receive :: "bytes list"
  wd_change :: "bytes list"
  wd_next_receive :: nat
  wd_next_change :: nat

record 'pt ext_pub_key =
  ek_key :: 'pt
  ek_chain_code :: bytes
  ek_depth :: u8

record 'pt wallet_crates =
  wc_b58_decode :: "bytes \<Rightarrow> bytes option"        \<comment> \<open>\<open>bs58::decode(..).with_check(None).into_vec()\<close>\<close>
  wc_b58_encode :: "bytes \<Rightarrow> bytes"               \<comment> \<open>\<open>bs58::encode(..).with_check().into_string()\<close>\<close>
  wc_hmac_sha512 :: "bytes \<Rightarrow> bytes \<Rightarrow> bytes"      \<comment> \<open>\<open>Hmac<Sha512>\<close>: key, then message\<close>
  wc_from_sec1 :: "bytes \<Rightarrow> 'pt option"           \<comment> \<open>\<open>PublicKey::from_sec1_bytes\<close>\<close>

definition from_raw_payload :: "'pt wallet_crates \<Rightarrow> bytes \<Rightarrow> wallet_error + 'pt ext_pub_key" where
  "from_raw_payload wc payload =
     (if length payload \<noteq> 78 then Inl (BadRawLength (length payload))
      else (let depth = payload ! 4; chain_code = slice 13 32 payload; key_bytes = slice 45 33 payload
            in case wc_from_sec1 wc key_bytes of None \<Rightarrow> Inl InvalidPubkey
               | Some key \<Rightarrow> Inr \<lparr>ek_key = key, ek_chain_code = chain_code, ek_depth = depth\<rparr>))"

definition from_kpub :: "'pt wallet_crates \<Rightarrow> bytes \<Rightarrow> wallet_error + 'pt ext_pub_key" where
  "from_kpub wc kpub_str =
     (if \<not> starts_with kpub_str (map of_char ''kpub'') then Inl NotKpub
      else (case wc_b58_decode wc kpub_str of None \<Rightarrow> Inl Base58Failed
        | Some decoded \<Rightarrow>
            if length decoded < 78 then Inl (TooShort (length decoded))
            else from_raw_payload wc (take 78 decoded)))"

text \<open>\<open>ExtPubKey::derive_child\<close>; the sum is \<open>parent_point.add(GENERATOR * tweak)\<close>.\<close>

definition ext_derive_child :: "'pt crypto \<Rightarrow> 'pt wallet_crates \<Rightarrow> 'pt ext_pub_key \<Rightarrow> u32 \<Rightarrow> wallet_error + 'pt ext_pub_key" where
  "ext_derive_child cr wc k index =
     (if 0x80000000 \<le> index then Inl HardenedFromPublic
      else (let parent_bytes = cr_encode cr (ek_key k);
                result = wc_hmac_sha512 wc (ek_chain_code k) (parent_bytes @ to_be 4 index);
                il = take 32 result; ir = drop 32 result
            in if \<not> cr_scalar_ok cr il then Inl InvalidTweak
               else (let child_point = cr_mul_add cr il (ek_key k)
                     in if cr_is_identity cr child_point then Inl InvalidChild
                        else if ek_depth k = 255 then Inl Panic
                        else Inr \<lparr>ek_key = child_point, ek_chain_code = ir, ek_depth = ek_depth k + 1\<rparr>)))"

definition x_only_bytes :: "'pt crypto \<Rightarrow> 'pt ext_pub_key \<Rightarrow> bytes" where
  "x_only_bytes cr k = slice 1 32 (cr_encode cr (ek_key k))"

text \<open>One round of the loops that fill the address lists.\<close>

definition child_address ::
  "'pt crypto \<Rightarrow> 'pt wallet_crates \<Rightarrow> bytes \<Rightarrow> 'pt ext_pub_key \<Rightarrow> nat \<Rightarrow> wallet_error + bytes" where
  "child_address cr wc prefix chain i =
     tryR (ext_derive_child cr wc chain (of_nat i)) (\<lambda>child. Inr (encode_p2pk_address (x_only_bytes cr child) prefix))"

definition companion_import_kpub ::
  "'pt crypto \<Rightarrow> 'pt wallet_crates \<Rightarrow> bytes \<Rightarrow> bytes \<Rightarrow> wallet_error + wallet_data" where
  "companion_import_kpub cr wc kpub_str prefix =
     tryR (from_kpub wc kpub_str) (\<lambda>xpub.
     tryR (ext_derive_child cr wc xpub 0) (\<lambda>receive_chain.
     tryR (collectR (child_address cr wc prefix receive_chain) [0..<20]) (\<lambda>receive_addresses.
     tryR (ext_derive_child cr wc xpub 1) (\<lambda>change_chain.
     tryR (collectR (child_address cr wc prefix change_chain) [0..<20]) (\<lambda>change_addresses.
       Inr \<lparr>wd_kpub = kpub_str, wd_receive = receive_addresses, wd_change = change_addresses,
            wd_next_receive = 0, wd_next_change = 0\<rparr>)))))"

definition companion_import_raw ::
  "'pt crypto \<Rightarrow> 'pt wallet_crates \<Rightarrow> bytes \<Rightarrow> bytes \<Rightarrow> wallet_error + wallet_data" where
  "companion_import_raw cr wc raw_payload prefix =
     (if length raw_payload \<noteq> 78 then Inl (BadRawLength (length raw_payload))
      else tryR (from_raw_payload wc raw_payload)
             (\<lambda>_. companion_import_kpub cr wc (wc_b58_encode wc raw_payload) prefix))"

text \<open>One of the two halves of \<open>extend_addresses\<close>; the range is over \<open>u32\<close>.\<close>

definition extend_branch ::
  "'pt crypto \<Rightarrow> 'pt wallet_crates \<Rightarrow> bytes \<Rightarrow> 'pt ext_pub_key \<Rightarrow> u32 \<Rightarrow> u32 \<Rightarrow> bytes list \<Rightarrow> wallet_error + bytes list" where
  "extend_branch cr wc prefix xpub branch extra addresses =
     (if 0 < extra
      then tryR (ext_derive_child cr wc xpub branch) (\<lambda>chain.
             let start = (of_nat (length addresses) :: u32)
             in if 2 ^ 32 \<le> unat start + unat extra then Inl Panic
                else tryR (collectR (child_address cr wc prefix chain) [unat start..<unat start + unat extra])
                       (\<lambda>more. Inr (addresses @ more)))
      else Inr addresses)"

definition extend_addresses ::
  "'pt crypto \<Rightarrow> 'pt wallet_crates \<Rightarrow> wallet_data \<Rightarrow> u32 \<Rightarrow> u32 \<Rightarrow> bytes \<Rightarrow> wallet_error + wallet_data" where
  "extend_addresses cr wc wallet extra_receive extra_change prefix =
     tryR (from_kpub wc (wd_kpub wallet)) (\<lambda>xpub.
     tryR (extend_branch cr wc prefix xpub 0 extra_receive (wd_receive wallet)) (\<lambda>receive_addresses.
     tryR (extend_branch cr wc prefix xpub 1 extra_change (wd_change wallet)) (\<lambda>change_addresses.
       Inr \<lparr>wd_kpub = wd_kpub wallet, wd_receive = receive_addresses, wd_change = change_addresses,
            wd_next_receive = wd_next_receive wallet, wd_next_change = wd_next_change wallet\<rparr>)))"


section \<open>What the crates promise\<close>

text \<open>
  HMAC and Base58Check as specified, and \<open>from_sec1_bytes\<close> as the decoding of a point other than the identity.
\<close>

definition crates_ok :: "'pt crypto \<Rightarrow> (bytes \<Rightarrow> bytes) \<Rightarrow> 'pt wallet_crates \<Rightarrow> bool" where
  "crates_ok cr sha256 wc \<longleftrightarrow>
     (\<forall>k m. wc_hmac_sha512 wc k m = hmac_sha512 (cr_sha512 cr) k m) \<and>
     (\<forall>s payload. length payload = 78 \<longrightarrow>
        (wc_b58_decode wc s = Some payload \<longleftrightarrow> text_of (payload @ take 4 (sha256d sha256 payload)) s)) \<and>
     (\<forall>payload. length payload = 78 \<longrightarrow> text_of (payload @ take 4 (sha256d sha256 payload)) (wc_b58_encode wc payload)) \<and>
     (\<forall>b. wc_from_sec1 wc b =
        (if cr_encoded_ok cr b
         then (case cr_decode cr b of None \<Rightarrow> None | Some p \<Rightarrow> if cr_is_identity cr p then None else Some p) else None))"

lemma crates_okD:
  assumes "crates_ok cr sha256 wc"
  shows "wc_hmac_sha512 wc k m = hmac_sha512 (cr_sha512 cr) k m"
    "length payload = 78 \<Longrightarrow> wc_b58_decode wc s = Some payload \<longleftrightarrow> text_of (payload @ take 4 (sha256d sha256 payload)) s"
    "length payload = 78 \<Longrightarrow> text_of (payload @ take 4 (sha256d sha256 payload)) (wc_b58_encode wc payload)"
    "wc_from_sec1 wc b = (if cr_encoded_ok cr b
       then (case cr_decode cr b of None \<Rightarrow> None | Some p \<Rightarrow> if cr_is_identity cr p then None else Some p) else None)"
  using assms unfolding crates_ok_def by blast+

text \<open>An instance, with the device's own routines as the crates.\<close>

definition sample_crates :: "'pt crypto \<Rightarrow> (bytes \<Rightarrow> bytes) \<Rightarrow> 'pt wallet_crates" where
  "sample_crates cr sha256 =
     \<lparr>wc_b58_decode = (\<lambda>s. let p = base58check_decode sha256 s in if p = [] then None else Some p),
      wc_b58_encode = (\<lambda>payload. base58check_encode sha256 payload 120),
      wc_hmac_sha512 = hmac_sha512 (cr_sha512 cr),
      wc_from_sec1 = (\<lambda>b. if cr_encoded_ok cr b
        then (case cr_decode cr b of None \<Rightarrow> None | Some p \<Rightarrow> if cr_is_identity cr p then None else Some p) else None)\<rparr>"

lemma sample_crates_ok:
  assumes "\<forall>x. length (sha256 x) = (32 :: nat)"
  shows "crates_ok cr sha256 (sample_crates cr sha256)"
proof -
  have dec: "base58check_decode sha256 s = payload \<longleftrightarrow> text_of (payload @ take 4 (sha256d sha256 payload)) s"
    if "length payload = 78" for s payload
    using base58check_decode_iff [OF assms that] base58check_encode_text [OF assms that] text_of_unique by auto
  moreover have "(let p = base58check_decode sha256 s in if p = [] then None else Some p) = Some payload \<longleftrightarrow>
      base58check_decode sha256 s = payload" if "length payload = 78" for s payload
    using that by (auto simp: Let_def)
  ultimately have "(let p = base58check_decode sha256 s in if p = [] then None else Some p) = Some payload \<longleftrightarrow>
      text_of (payload @ take 4 (sha256d sha256 payload)) s" if "length payload = 78" for s payload
    using that by blast
  then show ?thesis
    using base58check_encode_text [OF assms] unfolding crates_ok_def sample_crates_def wallet_crates.simps by blast
qed

section \<open>The companion's keys and the device's\<close>

text \<open>\<open>k\<close> is the point, and \<open>p\<close> the encoded form, of the same extended key.\<close>

definition linked :: "'pt crypto \<Rightarrow> (nat \<Rightarrow> 'pt) \<Rightarrow> 'pt ext_pub_key \<Rightarrow> xpub \<Rightarrow> bool" where
  "linked cr mul k p \<longleftrightarrow> (\<exists>x. x mod secp_order \<noteq> 0 \<and> ek_key k = mul x \<and> xp_pubkey p = cr_encode cr (mul x) \<and>
     ek_chain_code k = xp_chain p \<and> ek_depth k = xp_depth p)"

lemma linked_x_only: "linked cr mul k p \<Longrightarrow> x_only_bytes cr k = xpub_x_only p"
  by (auto simp: linked_def x_only_bytes_def xpub_x_only_def)

lemma hardened_iff: "is_hardened index \<longleftrightarrow> 0x80000000 \<le> index"
proof -
  have "index AND HARDENED_BIT \<noteq> 0 \<longleftrightarrow> bit index 31"
    using and_exp_eq_0_iff_not_bit [of index 31] by (simp add: HARDENED_BIT_def)
  also have "\<dots> \<longleftrightarrow> 2 ^ 31 \<le> unat index"
  proof -
    have "bit index 31 \<longleftrightarrow> bit (unat index) 31" by (simp add: bit_unsigned_iff)
    then have "bit index 31 \<longleftrightarrow> odd (unat index div 2 ^ 31)" by (simp only: bit_iff_odd)
    moreover have "unat index div 2 ^ 31 < 2" using unat_u32_less [of index] by (simp add: less_mult_imp_div_less)
    ultimately show ?thesis by (cases "unat index div 2 ^ 31 = 0") (auto simp: div_eq_0_iff)
  qed
  finally show ?thesis by (simp add: is_hardened_def word_le_nat_alt)
qed

lemma ext_derive_agrees:
  assumes "crypto_ok cr" "multiples_ok cr mul" "crates_ok cr sha256 wc" "linked cr mul k p" "xp_depth p \<noteq> 255"
  shows "rel_option (linked cr mul) (ok_value (ext_derive_child cr wc k index)) (ok_value (derive_child_pub cr p index))"
proof -
  obtain x where x: "x mod secp_order \<noteq> 0" "ek_key k = mul x" "xp_pubkey p = cr_encode cr (mul x)"
    "ek_chain_code k = xp_chain p" "ek_depth k = xp_depth p"
    using assms(4) by (auto simp: linked_def)
  define i where "i = hmac_sha512 (cr_sha512 cr) (xp_chain p) (cr_encode cr (mul x) @ to_be 4 index)"
  have len: "length (take 32 i) = 32" using length_hmac [OF assms(1)] by (simp add: i_def)
  have sc: "is_less_than_order (take 32 i) \<longleftrightarrow> cr_scalar_ok cr (take 32 i)"
    using len assms(1) by (simp add: is_less_than_order_iff crypto_ok_def)
  have dec: "cr_encoded_ok cr (cr_encode cr (mul x))" "cr_decode cr (cr_encode cr (mul x)) = Some (mul x)"
    using assms(2) x(1) by (simp_all add: multiples_ok_def)
  define s where "s = (be_value (take 32 i) + x) mod secp_order"
  have s: "s mod secp_order = s" by (simp add: s_def)
  have add: "cr_scalar_ok cr (take 32 i) \<Longrightarrow> cr_mul_add cr (take 32 i) (mul x) = mul s"
    and ident: "cr_is_identity cr (mul s) \<longleftrightarrow> s = 0" and enc: "s \<noteq> 0 \<Longrightarrow> length (cr_encode cr (mul s)) = 33"
    using assms(2) s by (simp_all add: multiples_ok_def s_def)
  show ?thesis
  proof (cases "is_hardened index \<or> \<not> cr_scalar_ok cr (take 32 i) \<or> s = 0")
    case True
    then have "ok_value (ext_derive_child cr wc k index) = None" "ok_value (derive_child_pub cr p index) = None"
      using sc dec add ident
      by (auto simp: ext_derive_child_def derive_child_pub_def hardened_iff crates_okD(1) [OF assms(3)] x i_def Let_def)
    then show ?thesis by simp
  next
    case False
    then have "ext_derive_child cr wc k index = Inr \<lparr>ek_key = mul s, ek_chain_code = drop 32 i, ek_depth = xp_depth p + 1\<rparr>"
      using add ident assms(5)
      by (simp add: ext_derive_child_def hardened_iff crates_okD(1) [OF assms(3)] x Let_def flip: i_def)
    moreover have "derive_child_pub cr p index =
        Inr \<lparr>xp_pubkey = cr_encode cr (mul s), xp_chain = drop 32 i, xp_depth = xp_depth p + 1\<rparr>"
      using False sc dec add ident enc assms(5)
      by (simp add: derive_child_pub_def x saturating_incr_def Let_def flip: i_def)
    moreover have "s mod secp_order \<noteq> 0" using False s by simp
    ultimately show ?thesis unfolding linked_def by auto
  qed
qed

text \<open>A path of the companion.\<close>

fun ext_path :: "'pt crypto \<Rightarrow> 'pt wallet_crates \<Rightarrow> 'pt ext_pub_key \<Rightarrow> u32 list \<Rightarrow> wallet_error + 'pt ext_pub_key" where
  "ext_path cr wc k [] = Inr k"
| "ext_path cr wc k (index # path) = tryR (ext_derive_child cr wc k index) (\<lambda>c. ext_path cr wc c path)"

lemma derive_pub_depth: "derive_child_pub cr p index = Inr c \<Longrightarrow> xp_depth c = saturating_incr (xp_depth p)"
  by (auto simp: derive_child_pub_def Let_def split: if_splits option.splits)

lemma ext_path_agrees:
  assumes "crypto_ok cr" "multiples_ok cr mul" "crates_ok cr sha256 wc" "linked cr mul k p"
    and "unat (xp_depth p) + length path \<le> 255"
  shows "rel_option (linked cr mul) (ok_value (ext_path cr wc k path)) (ok_value (pub_path cr p path))"
  using assms(4,5)
proof (induction path arbitrary: k p)
  case (Cons index path)
  have "xp_depth p \<noteq> 255" using Cons.prems(2) by auto
  then have "rel_option (linked cr mul) (ok_value (ext_derive_child cr wc k index)) (ok_value (derive_child_pub cr p index))"
    using ext_derive_agrees [OF assms(1-3) Cons.prems(1)] by simp
  then show ?case
  proof (cases rule: option.rel_cases)
    case (Some k' p')
    then have d: "ext_derive_child cr wc k index = Inr k'" "derive_child_pub cr p index = Inr p'"
      by (simp_all add: ok_value_def split: sum.splits)
    have "unat (xp_depth p') \<le> Suc (unat (xp_depth p))"
      using derive_pub_depth [OF d(2)] by (simp add: saturating_incr_value)
    then have "unat (xp_depth p') + length path \<le> 255" using Cons.prems(2) by simp
    then show ?thesis using Cons.IH [OF Some(3)] d by simp
  qed (auto simp: ok_value_def split: sum.splits)
qed simp

lemma ext_path_key:
  assumes "crypto_ok cr" "multiples_ok cr mul" "crates_ok cr sha256 wc" "linked cr mul k p"
    and "unat (xp_depth p) + length path \<le> 255"
  shows "map_option (x_only_bytes cr) (ok_value (ext_path cr wc k path)) = key_at cr path (xp_pubkey p, xp_chain p)"
  unfolding key_at_any_depth using ext_path_agrees [OF assms]
  by (cases rule: option.rel_cases) (simp_all add: linked_x_only)


section \<open>Imported wallets\<close>

lemma mul_link:
  assumes "multiples_ok cr mul" "x mod secp_order \<noteq> 0"
  shows "cr_encoded_ok cr (cr_encode cr (mul x))" "cr_decode cr (cr_encode cr (mul x)) = Some (mul x)"
    "\<not> cr_is_identity cr (mul x)"
  using assms by (simp_all add: multiples_ok_def)

lemma from_raw_linked:
  assumes "multiples_ok cr mul" "crates_ok cr sha256 wc" "kpub_ok p" "kp_pubkey p = cr_encode cr (mul x)" "x mod secp_order \<noteq> 0"
  obtains k where "from_raw_payload wc (kpub_payload p) = Inr k"
    "linked cr mul k \<lparr>xp_pubkey = kp_pubkey p, xp_chain = kp_chain_code p, xp_depth = kp_depth p\<rparr>"
proof -
  have f: "length (kpub_payload p) = 78" "kpub_payload p ! 4 = kp_depth p" "slice 13 32 (kpub_payload p) = kp_chain_code p"
    "slice 45 33 (kpub_payload p) = kp_pubkey p"
    using payload_fields [of KASPA_XPUB_VERSION "kp_parent_fp p" "kp_child_num p" "kp_chain_code p" "kp_pubkey p" "kpub_payload p" "kp_depth p"]
      assms(3) by (simp_all add: kpub_ok_def kpub_payload_def)
  have "wc_from_sec1 wc (kp_pubkey p) = Some (mul x)"
    using mul_link [OF assms(1,5)] by (simp add: crates_okD(4) [OF assms(2)] assms(4))
  then have "from_raw_payload wc (kpub_payload p) = Inr \<lparr>ek_key = mul x, ek_chain_code = kp_chain_code p, ek_depth = kp_depth p\<rparr>"
    using f by (simp add: from_raw_payload_def)
  then show ?thesis by (rule that) (use assms(4,5) in \<open>auto simp: linked_def\<close>)
qed

lemma from_kpub_text:
  assumes "\<forall>x. length (sha256 x) = (32 :: nat)" "crates_ok cr sha256 wc" "kpub_ok p"
  shows "from_kpub wc (serialize_kpub_parts sha256 p) = from_raw_payload wc (kpub_payload p)"
    "wc_b58_encode wc (kpub_payload p) = serialize_kpub_parts sha256 p"
proof -
  let ?s = "serialize_kpub_parts sha256 p"
  have len: "length (kpub_payload p) = 78" by (rule length_kpub_payload [OF assms(3)])
  have enc: "text_of (kpub_payload p @ take 4 (sha256d sha256 (kpub_payload p))) ?s"
    using base58check_encode_text [OF assms(1) len] by (simp add: serialize_parts [OF assms(3)])
  then have dec: "wc_b58_decode wc ?s = Some (kpub_payload p)"
    using crates_okD(2) [OF assms(2) len] enc by blast
  have "text_of (KASPA_XPUB_VERSION @ (drop 4 (kpub_payload p) @ take 4 (sha256d sha256 (kpub_payload p)))) ?s"
    using enc by (simp add: kpub_payload_def)
  then have "take 4 ?s = map of_char ''kpub''"
    using kpub_text_prefix [THEN conjunct2] len assms(1) by (simp add: sha256d_def)
  moreover have "length (map of_char ''kpub'' :: bytes) = 4" by simp
  ultimately have "starts_with ?s (map of_char ''kpub'')" unfolding starts_with_def by (simp only:)
  then show "from_kpub wc ?s = from_raw_payload wc (kpub_payload p)" using dec len by (simp add: from_kpub_def)
  show "wc_b58_encode wc (kpub_payload p) = ?s" by (rule text_of_unique [OF crates_okD(3) [OF assms(2) len] enc])
qed

text \<open>The addresses of a chain below a key, as the specification.\<close>

definition watched :: "'pt crypto \<Rightarrow> bytes \<Rightarrow> bytes \<times> bytes \<Rightarrow> u32 \<Rightarrow> nat \<Rightarrow> bytes option" where
  "watched cr prefix parent branch i = map_option (\<lambda>x. encode_p2pk_address x prefix) (key_at cr [branch, of_nat i] parent)"

lemma collect_watched:
  assumes "crypto_ok cr" "multiples_ok cr mul" "crates_ok cr sha256 wc" "linked cr mul k p" "unat (xp_depth p) \<le> 253" "is \<noteq> []"
  shows "ok_value (tryR (ext_derive_child cr wc k branch) (\<lambda>chain. collectR (child_address cr wc prefix chain) is)) =
     those (map (watched cr prefix (xp_pubkey p, xp_chain p) branch) is)"
proof -
  have key: "watched cr prefix (xp_pubkey p, xp_chain p) branch i =
      ok_value (tryR (ext_derive_child cr wc k branch) (\<lambda>chain. child_address cr wc prefix chain i))" for i
  proof -
    have "unat (xp_depth p) + length [branch, of_nat i] \<le> 255" using assms(5) by simp
    from ext_path_key [OF assms(1-4) this] show ?thesis
      unfolding watched_def child_address_def
      by (cases "ext_derive_child cr wc k branch") (auto simp: tryR_def split: sum.splits dest: sym)
  qed
  show ?thesis
  proof (cases "ext_derive_child cr wc k branch")
    case (Inl e)
    then show ?thesis using assms(6) by (cases "is") (simp_all add: key)
  next
    case (Inr chain)
    then have "ok_value (child_address cr wc prefix chain i) = watched cr prefix (xp_pubkey p, xp_chain p) branch i" for i
      by (simp add: key)
    then show ?thesis using Inr by (simp add: ok_value_collect)
  qed
qed

lemma import_watched:
  assumes "crypto_ok cr" "multiples_ok cr mul" "crates_ok cr sha256 wc" "from_kpub wc s = Inr k" "linked cr mul k p"
    "unat (xp_depth p) \<le> 253"
  shows "ok_value (companion_import_kpub cr wc s prefix) =
    (case (those (map (watched cr prefix (xp_pubkey p, xp_chain p) 0) [0..<20]),
           those (map (watched cr prefix (xp_pubkey p, xp_chain p) 1) [0..<20])) of
       (Some receive, Some change) \<Rightarrow>
         Some \<lparr>wd_kpub = s, wd_receive = receive, wd_change = change, wd_next_receive = 0, wd_next_change = 0\<rparr>
     | _ \<Rightarrow> None)"
proof -
  have twenty: "[0..<20] \<noteq> []" by simp
  note c = collect_watched [OF assms(1-3,5,6) twenty]
  have "ok_value (companion_import_kpub cr wc s prefix) =
    (case (ok_value (tryR (ext_derive_child cr wc k 0) (\<lambda>chain. collectR (child_address cr wc prefix chain) [0..<20])),
           ok_value (tryR (ext_derive_child cr wc k 1) (\<lambda>chain. collectR (child_address cr wc prefix chain) [0..<20]))) of
       (Some receive, Some change) \<Rightarrow>
         Some \<lparr>wd_kpub = s, wd_receive = receive, wd_change = change, wd_next_receive = 0, wd_next_change = 0\<rparr>
     | _ \<Rightarrow> None)"
    by (simp add: companion_import_kpub_def assms(4) tryR_def split: sum.split)
  then show ?thesis by (simp only: c)
qed


section \<open>Against the device\<close>

lemma device_path:
  assumes "crypto_ok cr" "xprv_ok cr acct" "\<forall>i \<in> set path. \<not> is_hardened i"
  shows "tryR (derive_steps cr acct path) (to_xpub cr) = tryR (to_xpub cr acct) (\<lambda>p. pub_path cr p path)"
  using assms(2,3)
proof (induction path arbitrary: acct)
  case (Cons index path)
  have one: "tryR (to_xpub cr acct) (\<lambda>p. derive_child_pub cr p index) = tryR (derive_child cr acct index) (to_xpub cr)"
    using Cons.prems by (intro derive_pub_consistent [OF assms(1)]) simp_all
  have "tryR (to_xpub cr acct) (\<lambda>p. pub_path cr p (index # path)) =
      tryR (tryR (to_xpub cr acct) (\<lambda>p. derive_child_pub cr p index)) (\<lambda>c. pub_path cr c path)"
    by (cases "to_xpub cr acct") simp_all
  also have "\<dots> = tryR (derive_steps cr acct (index # path)) (to_xpub cr)"
  proof (cases "derive_child cr acct index")
    case (Inr child)
    then show ?thesis
      using Cons.IH [OF derive_child_ok [OF assms(1) Cons.prems(1) Inr]] Cons.prems(2) by (simp add: one)
  qed (simp add: one)
  finally show ?case by simp
qed (simp add: tryR_def split: sum.split)

lemma x_only_of_pub: "x_only_of cr r = map_option xpub_x_only (ok_value (tryR r (to_xpub cr)))"
  by (cases r) (simp_all add: x_only_of_def public_key_x_only_def to_xpub_def xpub_x_only_def tryR_def split: sum.split)

lemma chain_key_public:
  assumes "crypto_ok cr" "xprv_ok cr acct" "i < 65536"
  shows "chain_key cr acct c i = key_at cr [if c then 1 else 0, of_nat i] (cr_pubkey cr (xk_key acct), xk_chain acct)"
proof -
  have wide: "ucast (of_nat i :: u16) = (of_nat i :: u32)" and soft: "\<not> is_hardened (of_nat i)"
    using assms(3) by (simp_all add: unsigned_of_nat take_bit_nat_eq_self hardened_iff word_le_nat_alt unat_of_nat)
  obtain p where p: "to_xpub cr acct = Inr p" "xp_pubkey p = cr_pubkey cr (xk_key acct)" "xp_chain p = xk_chain acct"
    using xprv_pubkey [OF assms(2)] by (simp add: to_xpub_def)
  have "chain_key cr acct c i = x_only_of cr (derive_steps cr acct [if c then 1 else 0, of_nat i])"
    unfolding chain_key_def derive_change_key_def derive_address_key_def
    by (simp add: wide tryR_def split: sum.split)
  also have "\<dots> = map_option xpub_x_only (ok_value (pub_path cr p [if c then 1 else 0, of_nat i]))"
    unfolding x_only_of_pub
    by (subst device_path [OF assms(1,2)]) (use soft p in \<open>simp_all\<close>)
  finally show ?thesis using key_at_any_depth [of cr "[if c then 1 else 0, of_nat i]" p] p by simp
qed

text \<open>The text of the address that the device shows for its own key at an index.\<close>

definition device_address :: "'pt crypto \<Rightarrow> xprv \<Rightarrow> bool \<Rightarrow> nat \<Rightarrow> bytes option" where
  "device_address cr acct is_change i =
     Option.bind (chain_key cr acct is_change i) (\<lambda>x. map_option (\<lambda>(out, n). take n out) (encode_p2pk x (zeros MAX_ADDR_LEN)))"

lemma key_at_length: "key_at cr path parent = Some x \<Longrightarrow> path \<noteq> [] \<Longrightarrow> length x = 32"
  by (auto simp: key_at_def xpub_x_only_def ok_value_def split: sum.splits dest!: pub_path_length)

lemma device_address_watched:
  assumes "crypto_ok cr" "xprv_ok cr acct" "i < 65536"
  shows "device_address cr acct c i = watched cr KASPA_HRP (cr_pubkey cr (xk_key acct), xk_chain acct) (if c then 1 else 0) i"
proof -
  have enc: "map_option (\<lambda>(out, n). take n out) (encode_p2pk x (zeros MAX_ADDR_LEN)) = Some (encode_p2pk_address x KASPA_HRP)"
    if "length x = 32" for x
    using that companion_text_valid(1) [OF that, of 0] take_blit_0 [of "companion_encode_address x 0 KASPA_HRP" "zeros MAX_ADDR_LEN"]
    by (simp add: encode_p2pk_def encode_p2pk_address_def device_text)
  show ?thesis
    unfolding device_address_def chain_key_public [OF assms] watched_def
    using key_at_length [of cr "[if c then 1 else 0, of_nat i]"] enc
    by (cases "key_at cr [if c then 1 else 0, of_nat i] (cr_pubkey cr (xk_key acct), xk_chain acct)") simp_all
qed

lemma import_follows_device:
  assumes "crypto_ok cr" "hashes_ok cr sha256 ripemd160" "crates_ok cr sha256 wc"
    and "derive_account_key cr seed = Inr acct" "derive_and_serialize_kpub cr sha256 ripemd160 seed = Inr s"
  shows "ok_value (companion_import_kpub cr wc s KASPA_HRP) =
    (case (those (map (device_address cr acct False) [0..<20]), those (map (device_address cr acct True) [0..<20])) of
       (Some receive, Some change) \<Rightarrow>
         Some \<lparr>wd_kpub = s, wd_receive = receive, wd_change = change, wd_next_receive = 0, wd_next_change = 0\<rparr>
     | _ \<Rightarrow> None)"
    and "\<exists>raw. derive_account_raw_kpub_payload cr sha256 ripemd160 seed = Inr raw \<and>
      companion_import_raw cr wc raw prefix = companion_import_kpub cr wc s prefix"
proof -
  obtain mul where mul: "multiples_ok cr mul" using assms(1) by (auto simp: crypto_ok_def)
  have path: "derive_path cr seed KASPA_ACCOUNT_PATH = Inr acct" using assms(4) by (simp add: derive_account_key_def)
  note ok = account_key_ok [OF assms(1) path] derive_path_key(1) [OF assms(1) path]
  obtain fp where p: "kpub_ok (account_parts cr fp acct)"
    "s = base58check_encode sha256 (kpub_payload (account_parts cr fp acct)) 120"
    "derive_account_raw_kpub_payload cr sha256 ripemd160 seed = Inr (kpub_payload (account_parts cr fp acct))"
    using derive_kpub_cases [OF assms(1,2,5)] path by (metis sum.inject(2))
  let ?p = "account_parts cr fp acct"
  have sha: "\<forall>x. length (sha256 x) = 32" using assms(2) by (simp add: hashes_ok_def)
  have s: "s = serialize_kpub_parts sha256 ?p" using p(2) by (simp add: serialize_parts [OF p(1)])
  note kp = from_kpub_text [OF sha assms(3) p(1)]
  have x: "kp_pubkey ?p = cr_encode cr (mul (be_value (xk_key acct)))" "be_value (xk_key acct) mod secp_order \<noteq> 0"
    using mul ok(1) assms(1) by (simp_all add: account_parts_def multiples_ok_def crypto_ok_def)
  obtain k where k: "from_raw_payload wc (kpub_payload ?p) = Inr k"
    "linked cr mul k \<lparr>xp_pubkey = kp_pubkey ?p, xp_chain = kp_chain_code ?p, xp_depth = kp_depth ?p\<rparr>"
    using from_raw_linked [OF mul assms(3) p(1) x] by blast
  have w: "those (map (device_address cr acct c) [0..<20]) =
      those (map (watched cr KASPA_HRP (kp_pubkey ?p, kp_chain_code ?p) (if c then 1 else 0)) [0..<20])" for c
    by (intro arg_cong [where f = those] map_cong refl)
      (simp add: device_address_watched [OF assms(1) ok(5)] account_parts_def)
  show "ok_value (companion_import_kpub cr wc s KASPA_HRP) =
    (case (those (map (device_address cr acct False) [0..<20]), those (map (device_address cr acct True) [0..<20])) of
       (Some receive, Some change) \<Rightarrow>
         Some \<lparr>wd_kpub = s, wd_receive = receive, wd_change = change, wd_next_receive = 0, wd_next_change = 0\<rparr>
     | _ \<Rightarrow> None)"
    unfolding w
    by (subst import_watched [OF assms(1) mul assms(3) _ k(2)])
      (use kp(1) k(1) s in \<open>simp_all add: account_parts_def\<close>)
  show "\<exists>raw. derive_account_raw_kpub_payload cr sha256 ripemd160 seed = Inr raw \<and>
      companion_import_raw cr wc raw prefix = companion_import_kpub cr wc s prefix"
    using p(3) k(1) length_kpub_payload [OF p(1)] kp(2) s by (simp add: companion_import_raw_def)
qed


section \<open>Extending a wallet\<close>

text \<open>A list of addresses that holds exactly those of the indices from 0 on.\<close>

definition branch_ok :: "'pt crypto \<Rightarrow> 'pt wallet_crates \<Rightarrow> bytes \<Rightarrow> 'pt ext_pub_key \<Rightarrow> u32 \<Rightarrow> bytes list \<Rightarrow> bool" where
  "branch_ok cr wc prefix xpub branch addresses \<longleftrightarrow> length addresses < 2 ^ 32 \<and>
     (\<exists>chain. ext_derive_child cr wc xpub branch = Inr chain \<and>
        collectR (child_address cr wc prefix chain) [0..<length addresses] = Inr addresses)"

definition wallet_inv :: "'pt crypto \<Rightarrow> 'pt wallet_crates \<Rightarrow> bytes \<Rightarrow> wallet_data \<Rightarrow> bool" where
  "wallet_inv cr wc prefix w \<longleftrightarrow> (\<exists>xpub. from_kpub wc (wd_kpub w) = Inr xpub \<and>
     branch_ok cr wc prefix xpub 0 (wd_receive w) \<and> branch_ok cr wc prefix xpub 1 (wd_change w))"

lemma collectR_append:
  "collectR f (is @ js) = tryR (collectR f is) (\<lambda>xs. tryR (collectR f js) (\<lambda>ys. Inr (xs @ ys)))"
proof (induction "is")
  case Nil
  show ?case by (cases "collectR f js") simp_all
next
  case (Cons i "is")
  show ?case by (cases "f i"; cases "collectR f is"; cases "collectR f js") (simp_all add: Cons.IH)
qed

lemma collectR_length: "collectR f is = Inr xs \<Longrightarrow> length xs = length is"
  by (induction "is" arbitrary: xs) (auto simp: tryR_eq_Inr)

lemma extend_branch_ok:
  assumes "branch_ok cr wc prefix xpub branch addresses" "extend_branch cr wc prefix xpub branch extra addresses = Inr new"
  shows "branch_ok cr wc prefix xpub branch new" "length new = length addresses + unat extra" "take (length addresses) new = addresses"
proof -
  obtain chain where chain: "ext_derive_child cr wc xpub branch = Inr chain"
    "collectR (child_address cr wc prefix chain) [0..<length addresses] = Inr addresses"
    and len: "length addresses < 2 ^ 32"
    using assms(1) by (auto simp: branch_ok_def)
  have start: "unat (of_nat (length addresses) :: u32) = length addresses" using len by (simp add: unat_of_nat)
  have "branch_ok cr wc prefix xpub branch new \<and> length new = length addresses + unat extra \<and> take (length addresses) new = addresses"
  proof (cases "0 < extra")
    case False
    then have "extra = 0" by (simp add: word_less_nat_alt unat_eq_zero)
    then show ?thesis using assms by (simp add: extend_branch_def)
  next
    case True
    then obtain more where more: "length addresses + unat extra < 2 ^ 32"
      "collectR (child_address cr wc prefix chain) [length addresses..<length addresses + unat extra] = Inr more"
      "new = addresses @ more"
      using assms(2) by (auto simp: extend_branch_def chain(1) start tryR_eq_Inr Let_def split: if_splits)
    have n: "length new = length addresses + unat extra" using collectR_length [OF more(2)] more(3) by simp
    have "[0..<length new] = [0..<length addresses] @ [length addresses..<length addresses + unat extra]"
      unfolding n by (rule upt_add_eq_append) simp
    then have "collectR (child_address cr wc prefix chain) [0..<length new] = Inr new"
      using chain(2) more(2,3) by (simp add: collectR_append)
    then show ?thesis using chain(1) more n by (simp add: branch_ok_def)
  qed
  then show "branch_ok cr wc prefix xpub branch new" "length new = length addresses + unat extra" "take (length addresses) new = addresses"
    by simp_all
qed

lemma import_wallet_inv:
  assumes "companion_import_kpub cr wc s prefix = Inr w"
  shows "wallet_inv cr wc prefix w" "wd_kpub w = s" "length (wd_receive w) = 20" "length (wd_change w) = 20"
proof -
  obtain xpub rc rs cc cs where i: "from_kpub wc s = Inr xpub" "ext_derive_child cr wc xpub 0 = Inr rc"
    "collectR (child_address cr wc prefix rc) [0..<20] = Inr rs" "ext_derive_child cr wc xpub 1 = Inr cc"
    "collectR (child_address cr wc prefix cc) [0..<20] = Inr cs"
    "w = \<lparr>wd_kpub = s, wd_receive = rs, wd_change = cs, wd_next_receive = 0, wd_next_change = 0\<rparr>"
    using assms by (auto simp: companion_import_kpub_def tryR_eq_Inr)
  have "length rs = 20" "length cs = 20" using collectR_length [OF i(3)] collectR_length [OF i(5)] by simp_all
  then show "wallet_inv cr wc prefix w" "wd_kpub w = s" "length (wd_receive w) = 20" "length (wd_change w) = 20"
    using i by (simp_all add: wallet_inv_def branch_ok_def)
qed

lemma extend_wallet_inv:
  assumes "wallet_inv cr wc prefix w" "extend_addresses cr wc w r c prefix = Inr w'"
  shows "wallet_inv cr wc prefix w' \<and> wd_kpub w' = wd_kpub w \<and>
    length (wd_receive w') = length (wd_receive w) + unat r \<and> take (length (wd_receive w)) (wd_receive w') = wd_receive w \<and>
    length (wd_change w') = length (wd_change w) + unat c \<and> take (length (wd_change w)) (wd_change w') = wd_change w \<and>
    wd_next_receive w' = wd_next_receive w \<and> wd_next_change w' = wd_next_change w"
proof -
  obtain xpub where x: "from_kpub wc (wd_kpub w) = Inr xpub" "branch_ok cr wc prefix xpub 0 (wd_receive w)"
    "branch_ok cr wc prefix xpub 1 (wd_change w)"
    using assms(1) by (auto simp: wallet_inv_def)
  obtain rs cs where e: "extend_branch cr wc prefix xpub 0 r (wd_receive w) = Inr rs" "extend_branch cr wc prefix xpub 1 c (wd_change w) = Inr cs"
    "w' = \<lparr>wd_kpub = wd_kpub w, wd_receive = rs, wd_change = cs, wd_next_receive = wd_next_receive w, wd_next_change = wd_next_change w\<rparr>"
    using assms(2) by (auto simp: extend_addresses_def x(1) tryR_eq_Inr)
  show ?thesis
    using x(1) extend_branch_ok [OF x(2) e(1)] extend_branch_ok [OF x(3) e(2)] by (auto simp: e(3) wallet_inv_def)
qed


section \<open>Properties\<close>

text \<open>
  C16: The companion watches exactly what the device signs for. Importing the kpub that the device exports for a
  seed yields, as its receive and change addresses, the texts the device itself shows for the keys it derives
  with the private account key at the same indices; the import fails only if one of those keys does not exist;
  and the raw form of the export imports as the same wallet.
\<close>

theorem companion_watches_device_addresses:
  assumes "crypto_ok cr" "hashes_ok cr sha256 ripemd160" "crates_ok cr sha256 wc"
    and "derive_account_key cr seed = Inr acct" "derive_and_serialize_kpub cr sha256 ripemd160 seed = Inr s"
  shows "ok_value (companion_import_kpub cr wc s KASPA_HRP) =
    (case (those (map (device_address cr acct False) [0..<20]), those (map (device_address cr acct True) [0..<20])) of
       (Some receive, Some change) \<Rightarrow>
         Some \<lparr>wd_kpub = s, wd_receive = receive, wd_change = change, wd_next_receive = 0, wd_next_change = 0\<rparr>
     | _ \<Rightarrow> None) \<and>
    (\<exists>raw. derive_account_raw_kpub_payload cr sha256 ripemd160 seed = Inr raw \<and>
       companion_import_raw cr wc raw KASPA_HRP = companion_import_kpub cr wc s KASPA_HRP)"
  using import_follows_device [OF assms] by blast

lemma counting_account: "\<exists>acct s. derive_account_key counting_crypto (replicate 64 7) = Inr acct \<and>
    derive_and_serialize_kpub counting_crypto (\<lambda>_. replicate 32 7) (\<lambda>_. replicate 20 5) (replicate 64 7) = Inr s"
proof -
  have "list_all is_hardened KASPA_ACCOUNT_PATH" "length KASPA_ACCOUNT_PATH = 3" "KASPA_ACCOUNT_PATH \<noteq> []"
    by (simp_all add: KASPA_ACCOUNT_PATH_def is_hardened_def HARDENED_BIT_def)
  then obtain k where k: "derive_path counting_crypto (replicate 64 7) KASPA_ACCOUNT_PATH = Inr k"
    using counting_path [of KASPA_ACCOUNT_PATH "replicate 64 7"] by auto
  then show ?thesis
    using derive_kpub_total [OF counting_crypto_ok counting_hashes_ok k] by (auto simp: derive_account_key_def)
qed

theorem companion_watches_device_addresses_witness:
  "\<exists>acct s raw. derive_account_key counting_crypto (replicate 64 7) = Inr acct \<and>
     derive_and_serialize_kpub counting_crypto (\<lambda>_. replicate 32 7) (\<lambda>_. replicate 20 5) (replicate 64 7) = Inr s \<and>
     companion_import_raw counting_crypto (sample_crates counting_crypto (\<lambda>_. replicate 32 7)) raw KASPA_HRP =
       companion_import_kpub counting_crypto (sample_crates counting_crypto (\<lambda>_. replicate 32 7)) s KASPA_HRP"
proof -
  obtain acct s where s: "derive_account_key counting_crypto (replicate 64 7) = Inr acct"
    "derive_and_serialize_kpub counting_crypto (\<lambda>_. replicate 32 7) (\<lambda>_. replicate 20 5) (replicate 64 7) = Inr s"
    using counting_account by blast
  have "crates_ok counting_crypto (\<lambda>_. replicate 32 7) (sample_crates counting_crypto (\<lambda>_. replicate 32 7))"
    by (rule sample_crates_ok) simp
  from companion_watches_device_addresses [OF counting_crypto_ok counting_hashes_ok this s] show ?thesis
    using s by blast
qed

text \<open>
  C36: A watch-only wallet stays complete and in order. An imported wallet holds the first twenty addresses of both
  chains of its key; extending it keeps every address already there in place and appends exactly the addresses
  of the following indices, so that the list is at all times the addresses of the indices from 0 on without a gap.
\<close>

theorem wallet_grows_without_gaps:
  assumes "companion_import_kpub cr wc s prefix = Inr w0" "wallet_inv cr wc prefix w"
    and "extend_addresses cr wc w r c prefix = Inr w'"
  shows "wallet_inv cr wc prefix w0 \<and> wd_kpub w0 = s \<and> length (wd_receive w0) = 20 \<and> length (wd_change w0) = 20 \<and>
    wallet_inv cr wc prefix w' \<and> wd_kpub w' = wd_kpub w \<and>
    length (wd_receive w') = length (wd_receive w) + unat r \<and> take (length (wd_receive w)) (wd_receive w') = wd_receive w \<and>
    length (wd_change w') = length (wd_change w) + unat c \<and> take (length (wd_change w)) (wd_change w') = wd_change w \<and>
    wd_next_receive w' = wd_next_receive w \<and> wd_next_change w' = wd_next_change w"
  using import_wallet_inv [OF assms(1)] extend_wallet_inv [OF assms(2,3)] by blast


text \<open>With \<open>counting_crypto\<close> every child's key is its parent's plus one.\<close>

definition counting_wc :: "nat wallet_crates" where
  "counting_wc = sample_crates counting_crypto (\<lambda>_. replicate 32 7)"

definition counting_parts :: kpub_parts where
  "counting_parts = \<lparr>kp_depth = 3, kp_parent_fp = [1, 2, 3, 4], kp_child_num = [0x80, 0, 0, 0],
     kp_chain_code = replicate 32 9, kp_pubkey = cr_encode counting_crypto 1\<rparr>"

lemma counting_wc_ok: "crates_ok counting_crypto (\<lambda>_. replicate 32 7) counting_wc"
  unfolding counting_wc_def by (rule sample_crates_ok) simp

lemma counting_fields:
  "cr_encoded_ok counting_crypto = (\<lambda>b. length b = 33)" "cr_decode counting_crypto = (\<lambda>b. Some (be_value (tl b)))"
  "cr_is_identity counting_crypto = (\<lambda>p. p = 0)" "cr_encode counting_crypto = (\<lambda>p. 2 # rev (le_bytes 32 p))"
  "cr_scalar_ok counting_crypto = (\<lambda>k. length k = 32 \<and> be_value k < secp_order)"
  "cr_mul_add counting_crypto = (\<lambda>s p. (be_value s + p) mod secp_order)"
  by (simp_all add: counting_crypto_def sample_crypto_def)

lemma counting_derive:
  assumes "\<not> 0x80000000 \<le> index" "ek_depth k \<noteq> 255" "ek_key k < 1000"
  shows "ext_derive_child counting_crypto counting_wc k index =
    Inr \<lparr>ek_key = ek_key k + 1, ek_chain_code = replicate 32 0, ek_depth = ek_depth k + 1\<rparr>"
proof -
  have one: "be_value (replicate 31 0 @ [1]) = 1" using be_value_small [of 31 1] by simp
  show ?thesis
    using assms crates_okD(1) [OF counting_wc_ok]
    by (simp add: ext_derive_child_def counting_hmac counting_fields one secp_order_def Let_def)
qed

lemma collectR_map: "\<forall>i \<in> set is. f i = Inr (g i) \<Longrightarrow> collectR f is = Inr (map g is)"
  by (induction "is") simp_all

lemma counting_import: "\<exists>w. companion_import_kpub counting_crypto counting_wc
    (serialize_kpub_parts (\<lambda>_. replicate 32 7) counting_parts) KASPA_HRP = Inr w"
proof -
  have ok: "kpub_ok counting_parts" by (simp add: counting_parts_def kpub_ok_def counting_fields)
  have "be_value (rev (le_bytes 32 1)) = 1" by (simp add: be_value_def le_value_le_bytes)
  then have "wc_from_sec1 counting_wc (kp_pubkey counting_parts) = Some 1"
    by (simp add: crates_okD(4) [OF counting_wc_ok] counting_parts_def counting_fields)
  then have raw: "from_raw_payload counting_wc (kpub_payload counting_parts) =
      Inr \<lparr>ek_key = 1, ek_chain_code = kp_chain_code counting_parts, ek_depth = 3\<rparr>"
    using payload_fields [of KASPA_XPUB_VERSION "kp_parent_fp counting_parts" "kp_child_num counting_parts"
        "kp_chain_code counting_parts" "kp_pubkey counting_parts" "kpub_payload counting_parts" "kp_depth counting_parts"] ok
    by (simp add: from_raw_payload_def kpub_ok_def kpub_payload_def counting_parts_def)
  then have kpub: "from_kpub counting_wc (serialize_kpub_parts (\<lambda>_. replicate 32 7) counting_parts) =
      Inr \<lparr>ek_key = 1, ek_chain_code = kp_chain_code counting_parts, ek_depth = 3\<rparr>"
    using from_kpub_text(1) [OF _ counting_wc_ok ok] by simp
  have addr: "collectR (child_address counting_crypto counting_wc KASPA_HRP \<lparr>ek_key = 2, ek_chain_code = replicate 32 0, ek_depth = 4\<rparr>) [0..<20] =
      Inr (map (\<lambda>_. encode_p2pk_address (slice 1 32 (cr_encode counting_crypto 3)) KASPA_HRP) [0..<20])"
    by (rule collectR_map) (simp add: child_address_def counting_derive x_only_bytes_def word_le_nat_alt unat_of_nat)
  have step: "ext_derive_child counting_crypto counting_wc \<lparr>ek_key = 1, ek_chain_code = kp_chain_code counting_parts, ek_depth = 3\<rparr> b =
      Inr \<lparr>ek_key = 2, ek_chain_code = replicate 32 0, ek_depth = 4\<rparr>" if "\<not> 0x80000000 \<le> b" for b
    using counting_derive [OF that] by simp
  have "\<not> 0x80000000 \<le> (0 :: u32)" "\<not> 0x80000000 \<le> (1 :: u32)" by (simp_all add: word_le_nat_alt)
  note steps = step [OF this(1)] step [OF this(2)]
  show ?thesis unfolding companion_import_kpub_def kpub tryR_simps steps addr by blast
qed

theorem wallet_grows_without_gaps_witness:
  "\<exists>w w'. companion_import_kpub counting_crypto counting_wc (serialize_kpub_parts (\<lambda>_. replicate 32 7) counting_parts) KASPA_HRP = Inr w \<and>
     extend_addresses counting_crypto counting_wc w 0 0 KASPA_HRP = Inr w' \<and> wallet_inv counting_crypto counting_wc KASPA_HRP w' \<and>
     length (wd_receive w') = 20"
proof -
  obtain w where w: "companion_import_kpub counting_crypto counting_wc (serialize_kpub_parts (\<lambda>_. replicate 32 7) counting_parts) KASPA_HRP = Inr w"
    using counting_import by blast
  note inv = import_wallet_inv [OF w]
  then obtain w' where w': "extend_addresses counting_crypto counting_wc w 0 0 KASPA_HRP = Inr w'"
    by (auto simp: wallet_inv_def extend_addresses_def extend_branch_def)
  show ?thesis using wallet_grows_without_gaps [OF w inv(1) w'] w w' by auto
qed

end
