(* ===== verification/KasCompanion.thy ===== *)
theory KasCompanion
  imports KasKspt KasWallet KasDescriptor "HOL-Library.Product_Lexorder"
begin

text \<open>
  How the companion makes transactions (kassee/src/kspt.rs, single-key part): which coins it spends, when it gives
  change, and the KSPT bytes it writes. The node's answer (\<open>fetch_all_utxos\<close>), the hex crate and the parsed
  recipients JSON are parameters. The crate is built with overflow checks: an overflowing sum is the error
  Panicked. The properties relate the bytes to the device's parser and the coins to the smallest selection.
\<close>

section \<open>Dust and storage mass\<close>

definition STORAGE_MASS_C :: u64 where "STORAGE_MASS_C = 1000000000000"
definition MAX_STANDARD_MASS :: u64 where "MAX_STANDARD_MASS = 100000"
definition DUST_THRESHOLD :: u64 where "DUST_THRESHOLD = 20000000"

definition is_dust :: "u64 \<Rightarrow> bool" where
  "is_dust amount =
     (if amount = 0 then True
      else if DUST_THRESHOLD \<le> amount then False
      else (let mass = STORAGE_MASS_C div amount in mass > MAX_STANDARD_MASS))"

definition saturating_add :: "u64 \<Rightarrow> u64 \<Rightarrow> u64" where
  "saturating_add a b = (if unat a + unat b < 2 ^ 64 then a + b else - 1)"

definition saturating_mul :: "u64 \<Rightarrow> u64 \<Rightarrow> u64" where
  "saturating_mul a b = (if unat a * unat b < 2 ^ 64 then a * b else - 1)"

definition harmonic_term :: "u64 \<times> u64 \<Rightarrow> u64" where
  "harmonic_term = (\<lambda>(amount, p). saturating_mul (saturating_mul STORAGE_MASS_C p) p div max amount 1)"

text \<open>The pluralities are summed with overflow checks; None is the panic.\<close>

definition plurality_sum :: "(u64 \<times> u64) list \<Rightarrow> u64 option" where
  "plurality_sum xs = trap_sum 0 (map snd xs)"

definition storage_mass_estimate :: "(u64 \<times> u64) list \<Rightarrow> (u64 \<times> u64) list \<Rightarrow> u64 option" where
  "storage_mass_estimate ins outs =
     Option.bind (plurality_sum outs) (\<lambda>outs_plurality.
     Option.bind (plurality_sum ins) (\<lambda>ins_plurality.
       let harmonic_outs = fold (\<lambda>x acc. saturating_add acc (harmonic_term x)) outs 0
       in if outs_plurality = 1 \<or> ins_plurality = 1 \<or> outs_plurality = 2 \<and> ins_plurality = 2
          then Some (saturating_sub harmonic_outs (fold (\<lambda>x acc. saturating_add acc (harmonic_term x)) ins 0))
          else (let sum_ins = fold (\<lambda>(a, _) acc. saturating_add acc a) ins 0;
                    mean_ins = max (sum_ins div max ins_plurality 1) 1
                in Some (saturating_sub harmonic_outs (saturating_mul ins_plurality (STORAGE_MASS_C div mean_ins))))))"

section \<open>Coins\<close>

datatype companion_error = Panicked | RpcFailed | BadAddress address_error | InsufficientFunds | AmountTooSmall
  | NoChangeAddress | BadTxId | TxIdLength nat | BadSpkHex | NoUtxos | OneUtxo | BalanceTooLow
  | IndexOutOfRange nat nat | BadRecipients | NoRecipients | TooManyRecipients | MissingAddress nat
  | MissingAmount nat | InvalidAmount nat | ZeroAmount nat | DustAmount nat

record companion_utxo =
  cu_tx_id :: bytes
  cu_index :: u32
  cu_amount :: u64
  cu_spk :: bytes
  cu_block_daa_score :: u64
  cu_covenant_id :: "bytes option"

text \<open>The hex crate: \<open>hex::decode\<close> and \<open>hex::encode\<close>.\<close>

record hex_crate =
  hx_decode :: "bytes \<Rightarrow> bytes option"
  hx_encode :: "bytes \<Rightarrow> bytes"

definition checked :: "'a option \<Rightarrow> ('a \<Rightarrow> companion_error + 'b) \<Rightarrow> companion_error + 'b" where
  "checked r f = (case r of None \<Rightarrow> Inl Panicked | Some x \<Rightarrow> f x)"

text \<open>\<open>sort_by(|a, b| b.amount.cmp(..))\<close> is stable, as \<open>sort_key\<close> is.\<close>

definition by_amount :: "companion_utxo list \<Rightarrow> companion_utxo list" where
  "by_amount = sort_key (\<lambda>u. - int (unat (cu_amount u)))"

text \<open>\<open>for utxo in all_utxos \{ total += ..; selected.push(..); if total >= needed \{ break \} \}\<close>\<close>

fun select_coins :: "u64 \<Rightarrow> companion_utxo list \<Rightarrow> companion_utxo list \<Rightarrow> u64 \<Rightarrow> companion_error + companion_utxo list \<times> u64" where
  "select_coins needed [] selected sum_so_far = Inr (selected, sum_so_far)"
| "select_coins needed (u # us) selected sum_so_far =
     checked (checked_add sum_so_far (cu_amount u)) (\<lambda>sum_so_far.
       if needed \<le> sum_so_far then Inr (selected @ [u], sum_so_far) else select_coins needed us (selected @ [u]) sum_so_far)"

definition take_coins :: "companion_utxo list \<Rightarrow> u64 \<Rightarrow> companion_error + companion_utxo list \<times> u64" where
  "take_coins all_utxos needed =
     tryR (select_coins needed (by_amount all_utxos) [] 0) (\<lambda>(selected, total).
       if total < needed then Inl InsufficientFunds else Inr (selected, total))"

definition sum_amounts :: "companion_utxo list \<Rightarrow> u64 option" where
  "sum_amounts us = trap_sum 0 (map cu_amount us)"

definition script_for :: "bytes \<Rightarrow> companion_error + bytes" where
  "script_for addr = (case address_to_script_pubkey addr of Inl e \<Rightarrow> Inl (BadAddress e) | Inr s \<Rightarrow> Inr s)"

definition absorb_dust :: "u64 \<Rightarrow> u64" where
  "absorb_dust change_amount = (if change_amount > 0 \<and> is_dust change_amount then 0 else change_amount)"

text \<open>The change output: none, or one to the wallet's next change address.\<close>

definition change_output :: "wallet_data \<Rightarrow> u64 \<Rightarrow> companion_error + (u64 \<times> bytes) list" where
  "change_output wallet final_change =
     (if final_change > 0
      then (let chg_idx = wd_next_change wallet
            in if length (wd_change wallet) \<le> chg_idx then Inl NoChangeAddress
               else tryR (script_for (wd_change wallet ! chg_idx)) (\<lambda>s. Inr [(final_change, s)]))
      else Inr [])"

section \<open>Serialization\<close>

fun mapR :: "('a \<Rightarrow> 'e + 'b) \<Rightarrow> 'a list \<Rightarrow> 'e + 'b list" where
  "mapR f [] = Inr []"
| "mapR f (x # xs) = tryR (f x) (\<lambda>y. tryR (mapR f xs) (\<lambda>ys. Inr (y # ys)))"

definition utxo_bytes :: "hex_crate \<Rightarrow> u8 \<Rightarrow> companion_utxo \<Rightarrow> companion_error + bytes" where
  "utxo_bytes hx sig_op_count utxo =
     (case hx_decode hx (cu_tx_id utxo) of None \<Rightarrow> Inl BadTxId
      | Some tx_id_bytes \<Rightarrow>
          if length tx_id_bytes \<noteq> 32 then Inl (TxIdLength (length tx_id_bytes))
          else Inr (tx_id_bytes @ to_le 4 (cu_index utxo) @ to_le 8 (cu_amount utxo) @ to_le 8 (0 :: u64) @ [sig_op_count] @
                    to_le 2 (0 :: u16) @ [of_nat (length (cu_spk utxo))] @ cu_spk utxo))"

definition output_bytes :: "u64 \<times> bytes \<Rightarrow> bytes" where
  "output_bytes = (\<lambda>(amount, script). to_le 8 amount @ to_le 2 (0 :: u16) @ [of_nat (length script)] @ script)"

definition unsigned_header :: "u8 \<Rightarrow> nat \<Rightarrow> nat \<Rightarrow> bytes" where
  "unsigned_header flags num_inputs num_outputs =
     map of_char ''KSPT'' @ [0x01] @ [flags] @ to_le 2 (0 :: u16) @ [of_nat num_inputs] @ [of_nat num_outputs] @
     to_le 8 (0 :: u64) @ zeros 20 @ to_le 8 (0 :: u64) @ to_le 2 (0 :: u16)"

definition serialize_kspt_multi :: "hex_crate \<Rightarrow> companion_utxo list \<Rightarrow> (u64 \<times> bytes) list \<Rightarrow> companion_error + bytes" where
  "serialize_kspt_multi hx selected outs =
     tryR (mapR (utxo_bytes hx 1) selected) (\<lambda>ins.
       Inr (hx_encode hx (unsigned_header 0x00 (length selected) (length outs) @ concat ins @ concat (map output_bytes outs))))"

section \<open>The commands\<close>

definition create_send_kspt ::
  "hex_crate \<Rightarrow> wallet_data \<Rightarrow> companion_error + companion_utxo list \<Rightarrow> bytes \<Rightarrow> u64 \<Rightarrow> u64 \<Rightarrow> companion_error + bytes" where
  "create_send_kspt hx wallet fetched dest_address amount_sompi network_fee =
     tryR (script_for dest_address) (\<lambda>dest_script.
     tryR fetched (\<lambda>all_utxos.
     checked (checked_add amount_sompi network_fee) (\<lambda>total_needed.
     tryR (take_coins all_utxos total_needed) (\<lambda>(selected, selected_total).
       let change_amount = selected_total - amount_sompi - network_fee
       in if amount_sompi > 0 \<and> is_dust amount_sompi then Inl AmountTooSmall
          else tryR (change_output wallet (absorb_dust change_amount)) (\<lambda>change.
                 serialize_kspt_multi hx selected ((amount_sompi, dest_script) # change))))))"

definition create_send_to_raw_spk ::
  "hex_crate \<Rightarrow> wallet_data \<Rightarrow> companion_error + companion_utxo list \<Rightarrow> bytes \<Rightarrow> u64 \<Rightarrow> u64 \<Rightarrow> companion_error + bytes" where
  "create_send_to_raw_spk hx wallet fetched spk_hex amount_sompi network_fee =
     (case hx_decode hx spk_hex of None \<Rightarrow> Inl BadSpkHex
      | Some dest_script \<Rightarrow>
          tryR fetched (\<lambda>all_utxos.
          checked (checked_add amount_sompi network_fee) (\<lambda>total_needed.
          tryR (take_coins all_utxos total_needed) (\<lambda>(selected, selected_total).
            let change_amount = selected_total - amount_sompi - network_fee
            in tryR (change_output wallet (absorb_dust change_amount)) (\<lambda>change.
                 serialize_kspt_multi hx selected ((amount_sompi, dest_script) # change))))))"

definition create_consolidate_kspt ::
  "hex_crate \<Rightarrow> wallet_data \<Rightarrow> companion_error + companion_utxo list \<Rightarrow> u64 \<Rightarrow> companion_error + bytes" where
  "create_consolidate_kspt hx wallet fetched network_fee =
     tryR fetched (\<lambda>all_utxos.
       if all_utxos = [] then Inl NoUtxos
       else if length all_utxos = 1 then Inl OneUtxo
       else (let selected = take 32 (by_amount all_utxos)
             in checked (sum_amounts selected) (\<lambda>total.
                if total \<le> network_fee then Inl BalanceTooLow
                else if wd_receive wallet = [] then Inl Panicked
                else tryR (script_for (wd_receive wallet ! 0)) (\<lambda>dest_script.
                       let send_amount = total - network_fee
                       in serialize_kspt_multi hx selected [(send_amount, dest_script)]))))"

text \<open>The order of the coin list that the web page shows.\<close>

definition as_listed :: "companion_utxo list \<Rightarrow> companion_utxo list" where
  "as_listed = sort_key (\<lambda>u. (- int (unat (cu_amount u)), cu_tx_id u, cu_index u))"

definition create_send_kspt_selected ::
  "hex_crate \<Rightarrow> wallet_data \<Rightarrow> companion_error + companion_utxo list \<Rightarrow> bytes \<Rightarrow> u64 \<Rightarrow> u64 \<Rightarrow> nat list \<Rightarrow> companion_error + bytes" where
  "create_send_kspt_selected hx wallet fetched dest_address amount_sompi network_fee utxo_indices =
     tryR (script_for dest_address) (\<lambda>dest_script.
     tryR fetched (\<lambda>all_utxos.
       let all_utxos = as_listed all_utxos
       in tryR (mapR (\<lambda>idx. if length all_utxos \<le> idx then Inl (IndexOutOfRange idx (length all_utxos)) else Inr (all_utxos ! idx)) utxo_indices)
       (\<lambda>selected.
       checked (sum_amounts selected) (\<lambda>selected_total.
       checked (checked_add amount_sompi network_fee) (\<lambda>total_needed.
         if selected_total < total_needed then Inl InsufficientFunds
         else (let change_amount = selected_total - amount_sompi - network_fee
               in tryR (change_output wallet (absorb_dust change_amount)) (\<lambda>change.
                    serialize_kspt_multi hx selected ((amount_sompi, dest_script) # change))))))))"

text \<open>\<open>str::parse::<u64>\<close>: a plus sign is allowed, then digits, and a value below the bound.\<close>

definition parse_uint :: "nat \<Rightarrow> bytes \<Rightarrow> nat option" where
  "parse_uint bits s =
     (let ds = (if s \<noteq> [] \<and> hd s = of_char CHR ''+'' then tl s else s)
      in if ds \<noteq> [] \<and> list_all is_digit ds \<and> dec_value ds < 2 ^ bits then Some (dec_value ds) else None)"

text \<open>One recipient: the JSON strings of its address and amount; recipients are numbered from 1.\<close>

definition recipient_output :: "nat \<Rightarrow> bytes option \<times> bytes option \<Rightarrow> companion_error + u64 \<times> bytes" where
  "recipient_output i r =
     (case fst r of None \<Rightarrow> Inl (MissingAddress (i + 1))
      | Some addr \<Rightarrow>
          (case snd r of None \<Rightarrow> Inl (MissingAmount (i + 1))
           | Some t \<Rightarrow>
               (case parse_uint 64 t of None \<Rightarrow> Inl (InvalidAmount (i + 1))
                | Some n \<Rightarrow>
                    let amount_sompi = (of_nat n :: u64)
                    in if amount_sompi = 0 then Inl (ZeroAmount (i + 1))
                       else if is_dust amount_sompi then Inl (DustAmount (i + 1))
                       else tryR (script_for addr) (\<lambda>script. Inr (amount_sompi, script)))))"

fun recipient_outputs :: "nat \<Rightarrow> (bytes option \<times> bytes option) list \<Rightarrow> (u64 \<times> bytes) list \<Rightarrow> u64 \<Rightarrow> companion_error + (u64 \<times> bytes) list \<times> u64" where
  "recipient_outputs i [] outs total_send = Inr (outs, total_send)"
| "recipient_outputs i (r # rs) outs total_send =
     tryR (recipient_output i r) (\<lambda>(amount, script).
     checked (checked_add total_send amount) (\<lambda>total_send.
       recipient_outputs (i + 1) rs (outs @ [(amount, script)]) total_send))"

definition create_compound_kspt ::
  "hex_crate \<Rightarrow> wallet_data \<Rightarrow> companion_error + companion_utxo list \<Rightarrow> (bytes option \<times> bytes option) list option \<Rightarrow> u64 \<Rightarrow>
   companion_error + bytes" where
  "create_compound_kspt hx wallet fetched recipients network_fee =
     (case recipients of None \<Rightarrow> Inl BadRecipients
      | Some recipients \<Rightarrow>
          if recipients = [] then Inl NoRecipients
          else if 10 < length recipients then Inl TooManyRecipients
          else tryR (recipient_outputs 0 recipients [] 0) (\<lambda>(outs, total_send).
               tryR fetched (\<lambda>all_utxos.
               checked (checked_add total_send network_fee) (\<lambda>total_needed.
               tryR (take_coins all_utxos total_needed) (\<lambda>(selected, selected_total).
                 let change_amount = selected_total - total_send - network_fee
                 in tryR (change_output wallet (absorb_dust change_amount)) (\<lambda>change.
                      serialize_kspt_multi hx selected (outs @ change)))))))"


section \<open>Dust\<close>

lemma mass_bound: "0 < n \<Longrightarrow> 100000 < 1000000000000 div n \<longleftrightarrow> n \<le> (9999900 :: nat)"
proof -
  assume n: "0 < n"
  have "100000 < 1000000000000 div n \<longleftrightarrow> 100001 \<le> 1000000000000 div n" by auto
  also have "\<dots> \<longleftrightarrow> 100001 * n \<le> 1000000000000" using n by (rule less_eq_div_iff_mult_less_eq)
  also have "\<dots> \<longleftrightarrow> n \<le> 9999900" by linarith
  finally show ?thesis .
qed

lemma over_standard_mass: "a \<noteq> 0 \<Longrightarrow> MAX_STANDARD_MASS < STORAGE_MASS_C div a \<longleftrightarrow> unat a \<le> 9999900"
  using mass_bound [of "unat a"]
  by (simp add: STORAGE_MASS_C_def MAX_STANDARD_MASS_def word_less_nat_alt unat_div unat_gt_0)

lemma is_dust_iff: "is_dust a \<longleftrightarrow> unat a \<le> 9999900"
proof (cases "a = 0")
  case False
  moreover have "DUST_THRESHOLD \<le> a \<Longrightarrow> 9999900 < unat a" by (simp add: DUST_THRESHOLD_def word_le_nat_alt)
  ultimately show ?thesis using over_standard_mass by (auto simp: is_dust_def)
qed (simp add: is_dust_def)

lemma lone_output_mass: "a \<noteq> 0 \<Longrightarrow> storage_mass_estimate [] [(a, 1)] = Some (STORAGE_MASS_C div a)"
proof -
  assume a: "a \<noteq> 0"
  then have "1 \<le> a" by (simp add: word_le_nat_alt unat_gt_0 Suc_le_eq)
  then have "max a 1 = a" by (rule max.absorb1)
  moreover have "unat (STORAGE_MASS_C div a) < 2 ^ 64" by (rule unat_u64_less)
  ultimately show ?thesis
    by (simp add: storage_mass_estimate_def plurality_sum_def checked_add_def harmonic_term_def saturating_mul_def
        saturating_add_def saturating_sub_def STORAGE_MASS_C_def)
qed

section \<open>The coins that are taken\<close>

definition value_of :: "companion_utxo list \<Rightarrow> nat" where
  "value_of us = (\<Sum>u\<leftarrow>us. unat (cu_amount u))"

lemma value_of_simps [simp]: "value_of [] = 0" "value_of (u # us) = unat (cu_amount u) + value_of us" "value_of (us @ vs) = value_of us + value_of vs"
  by (simp_all add: value_of_def)

lemma select_coins_takes:
  assumes "select_coins needed us acc t = Inr (sel, s)"
  obtains k where "k \<le> length us" "sel = acc @ take k us" "unat s = unat t + value_of (take k us)"
    "unat needed \<le> unat s \<or> k = length us" "k = 0 \<Longrightarrow> us = []"
    "\<And>j. 0 < j \<Longrightarrow> j < k \<Longrightarrow> unat t + value_of (take j us) < unat needed"
  using assms
proof (induction us arbitrary: acc t thesis)
  case Nil
  then show ?case by (intro Nil.prems(1) [of 0]) auto
next
  case (Cons u us)
  obtain t' where t': "checked_add t (cu_amount u) = Some t'" "unat t' = unat t + unat (cu_amount u)"
    using Cons.prems(2) by (auto simp: checked_def checked_add_eq split: option.splits)
  show ?case
  proof (cases "needed \<le> t'")
    case True
    then have "sel = acc @ [u]" "s = t'" using Cons.prems(2) t'(1) by (auto simp: checked_def)
    then show ?thesis using True t'(2) by (intro Cons.prems(1) [of 1]) (simp_all add: word_le_nat_alt)
  next
    case False
    then have rec: "select_coins needed us (acc @ [u]) t' = Inr (sel, s)" using Cons.prems(2) t'(1) by (simp add: checked_def)
    show ?thesis
    proof (rule Cons.IH [OF _ rec])
      fix k assume k: "k \<le> length us" "sel = (acc @ [u]) @ take k us" "unat s = unat t' + value_of (take k us)"
        "unat needed \<le> unat s \<or> k = length us" "k = 0 \<Longrightarrow> us = []"
        "\<And>j. 0 < j \<Longrightarrow> j < k \<Longrightarrow> unat t' + value_of (take j us) < unat needed"
      have "unat t + value_of (take j (u # us)) < unat needed" if "0 < j" "j < Suc k" for j
      proof (cases "j = 1")
        case True
        then show ?thesis using False t'(2) by (simp add: word_le_nat_alt)
      next
        case j: False
        define i where "i = j - 1"
        have "j = Suc i" "0 < i" "i < k" using j that by (simp_all add: i_def)
        then show ?thesis using k(6) [of i] t'(2) by simp
      qed
      then show ?thesis using k t'(2) by (intro Cons.prems(1) [of "Suc k"]) auto
    qed
  qed
qed

lemma top_values:
  fixes f :: "'a \<Rightarrow> nat"
  assumes "sorted_wrt (\<lambda>x y. f y \<le> f x) xs" "S \<subseteq># mset xs"
  shows "(\<Sum>x \<in># S. f x) \<le> sum_list (map f (take (size S) xs))"
  using assms
proof (induction xs arbitrary: S)
  case (Cons x xs)
  show ?case
  proof (cases "x \<in># S")
    case True
    define T where "T = S - {#x#}"
    have S: "S = add_mset x T" using True by (simp add: T_def)
    then have "T \<subseteq># mset xs" using Cons.prems(2) by simp
    then have "(\<Sum>y \<in># T. f y) \<le> sum_list (map f (take (size T) xs))" using Cons.prems(1) by (intro Cons.IH) simp_all
    then show ?thesis by (simp add: S)
  next
    case False
    then have sub: "S \<subseteq># mset xs" using Cons.prems(2) by (metis insert_subset_eq_iff mset.simps(2) subset_mset.le_iff_sup add_mset_diff_bothsides diff_single_trivial subset_eq_diff_conv add_mset_add_single)
    then have "(\<Sum>y \<in># S. f y) \<le> sum_list (map f (take (size S) xs))" using Cons.prems(1) by (intro Cons.IH) simp_all
    also have "\<dots> \<le> sum_list (map f (take (size S) (x # xs)))"
    proof (cases "size S")
      case (Suc n)
      have "size S \<le> length xs" using size_mset_mono [OF sub] by simp
      then have n: "n < length xs" using Suc by simp
      then have "f (xs ! n) \<le> f x" using Cons.prems(1) by simp
      then show ?thesis using n Suc by (simp add: take_Suc_conv_app_nth)
    qed simp
    finally show ?thesis .
  qed
qed simp

lemma by_amount_sorted: "sorted_wrt (\<lambda>u v. unat (cu_amount v) \<le> unat (cu_amount u)) (by_amount us)"
proof -
  have "sorted (map (\<lambda>u. - int (unat (cu_amount u))) (by_amount us))" by (simp add: by_amount_def)
  then show ?thesis by (simp add: sorted_wrt_map flip: word_le_def word_le_nat_alt)
qed

lemma mset_by_amount [simp]: "mset (by_amount us) = mset us" "length (by_amount us) = length us" "set (by_amount us) = set us"
  by (simp_all add: by_amount_def)

lemma value_of_mset: "value_of us = (\<Sum>u \<in># mset us. unat (cu_amount u))"
  by (induction us) simp_all

lemma take_coins_takes:
  assumes "take_coins us needed = Inr (sel, s)"
  obtains k where "sel = take k (by_amount us)" "k \<le> length us" "unat s = value_of sel" "unat needed \<le> value_of sel"
    "\<And>j. 0 < j \<Longrightarrow> j < k \<Longrightarrow> value_of (take j (by_amount us)) < unat needed"
proof -
  have r: "select_coins needed (by_amount us) [] 0 = Inr (sel, s)" "\<not> s < needed"
    using assms by (auto simp: take_coins_def tryR_eq_Inr split: if_splits)
  from r(1) show ?thesis
  proof (rule select_coins_takes)
    fix k assume "k \<le> length (by_amount us)" "sel = [] @ take k (by_amount us)" "unat s = unat (0 :: u64) + value_of (take k (by_amount us))"
      "\<And>j. 0 < j \<Longrightarrow> j < k \<Longrightarrow> unat (0 :: u64) + value_of (take j (by_amount us)) < unat needed"
    then show ?thesis using r(2) by (intro that [of k]) (auto simp: word_less_nat_alt not_less)
  qed
qed

lemma take_coins_fewest:
  assumes "take_coins us needed = Inr (sel, s)" "0 < needed"
  shows "mset sel \<subseteq># mset us" "unat s = value_of sel" "unat needed \<le> value_of sel"
    "S \<subseteq># mset us \<Longrightarrow> unat needed \<le> (\<Sum>u \<in># S. unat (cu_amount u)) \<Longrightarrow> length sel \<le> size S"
proof -
  obtain k where k: "sel = take k (by_amount us)" "k \<le> length us" "unat s = value_of sel" "unat needed \<le> value_of sel"
    "\<And>j. 0 < j \<Longrightarrow> j < k \<Longrightarrow> value_of (take j (by_amount us)) < unat needed"
    using take_coins_takes [OF assms(1)] by blast
  have "mset (take k (by_amount us)) \<subseteq># mset (take k (by_amount us) @ drop k (by_amount us))" unfolding mset_append by simp
  then show "mset sel \<subseteq># mset us" by (simp add: k(1))
  show "unat s = value_of sel" "unat needed \<le> value_of sel" by (fact k)+
  assume S: "S \<subseteq># mset us" "unat needed \<le> (\<Sum>u \<in># S. unat (cu_amount u))"
  show "length sel \<le> size S"
  proof (rule ccontr)
    assume "\<not> length sel \<le> size S"
    then have less: "size S < k" using k(1,2) by simp
    have "unat needed \<le> value_of (take (size S) (by_amount us))"
      using S top_values [OF by_amount_sorted, of S us] by (simp add: value_of_def)
    moreover have "0 < size S"
    proof (rule ccontr)
      assume "\<not> 0 < size S"
      then show False using S(2) assms(2) by (simp add: word_less_nat_alt)
    qed
    ultimately show False using k(5) [OF _ less] by simp
  qed
qed


section \<open>The transaction that the bytes describe\<close>

definition mk_spk :: "bytes \<Rightarrow> script_public_key" where
  "mk_spk s = \<lparr>spk_version = 0, spk_script = blit s 0 (zeros MAX_SCRIPT_SIZE), spk_script_len = length s\<rparr>"

definition mk_input :: "u8 \<Rightarrow> bytes \<Rightarrow> companion_utxo \<Rightarrow> transaction_input" where
  "mk_input sig_ops txid u =
     input_default\<lparr>in_outpoint := \<lparr>op_transaction_id = txid, op_index = cu_index u\<rparr>, in_sig_op_count := sig_ops,
       in_utxo := \<lparr>utxo_amount = cu_amount u, utxo_spk = mk_spk (cu_spk u), utxo_has_covenant = False, utxo_covenant_id = zeros 32\<rparr>\<rparr>"

definition mk_output :: "u64 \<times> bytes \<Rightarrow> transaction_output" where
  "mk_output = (\<lambda>(v, s). output_default\<lparr>out_value := v, out_spk := mk_spk s\<rparr>)"

definition make_tx :: "transaction_input list \<Rightarrow> transaction_output list \<Rightarrow> transaction" where
  "make_tx ins outs = transaction_new\<lparr>tx_num_inputs := length ins, tx_inputs := blit ins 0 (tx_inputs transaction_new),
     tx_num_outputs := length outs, tx_outputs := blit outs 0 (tx_outputs transaction_new)\<rparr>"

lemma mk_spk_wire:
  assumes "length s \<le> 254"
  shows "spk_wire (mk_spk s) = to_le 2 (0 :: u16) @ [of_nat (length s)] @ s" "wf_spk (mk_spk s)" "script_bytes (mk_spk s) = s"
proof -
  show "script_bytes (mk_spk s) = s" by (simp add: mk_spk_def script_bytes_def)
  then show "spk_wire (mk_spk s) = to_le 2 (0 :: u16) @ [of_nat (length s)] @ s" using assms by (simp add: spk_wire_def) (simp add: mk_spk_def spk_len_bytes_def)
  show "wf_spk (mk_spk s)" using assms by (simp add: wf_spk_def mk_spk_def size_limits)
qed

lemma mk_input_wire:
  assumes "length (cu_spk u) \<le> 254" "length txid = 32"
  shows "input_wire (mk_input op txid u) = txid @ to_le 4 (cu_index u) @ to_le 8 (cu_amount u) @ to_le 8 (0 :: u64) @ [op] @
      to_le 2 (0 :: u16) @ [of_nat (length (cu_spk u))] @ cu_spk u"
    "wf_input (mk_input op txid u)" "\<not> in_redeem_in_pool (mk_input op txid u)"
    "input_view (mk_input op txid u) = (\<lparr>op_transaction_id = txid, op_index = cu_index u\<rparr>, cu_amount u, 0, op, 0, cu_spk u)"
proof -
  note m = mk_spk_wire [OF assms(1)]
  show "input_wire (mk_input op txid u) = txid @ to_le 4 (cu_index u) @ to_le 8 (cu_amount u) @ to_le 8 (0 :: u64) @ [op] @
      to_le 2 (0 :: u16) @ [of_nat (length (cu_spk u))] @ cu_spk u"
    by (simp add: input_wire_def mk_input_def m input_default_def input_zero_def)
  have "wf_input input_default" by simp
  then show "wf_input (mk_input op txid u)" using assms(2) m(2) by (simp add: wf_input_def mk_input_def)
  show "\<not> in_redeem_in_pool (mk_input op txid u)" by (simp add: mk_input_def input_default_def input_zero_def)
  show "input_view (mk_input op txid u) = (\<lparr>op_transaction_id = txid, op_index = cu_index u\<rparr>, cu_amount u, 0, op, 0, cu_spk u)"
    by (simp add: input_view_def mk_input_def m(3) input_default_def input_zero_def) (simp add: mk_spk_def)
qed

lemma mk_output_wire:
  assumes "length s \<le> 254"
  shows "output_wire (mk_output (v, s)) = output_bytes (v, s)" "wf_output (mk_output (v, s))"
    "output_view (mk_output (v, s)) = (v, 0, s, None)" "\<not> out_has_covenant (mk_output (v, s))" "out_value (mk_output (v, s)) = v"
  using mk_spk_wire [OF assms]
  by (simp_all add: output_wire_def output_bytes_def wf_output_def mk_output_def output_view_def output_default_def)
    (simp add: mk_spk_def)

lemma out_value_mk_output [simp]: "out_value (mk_output x) = fst x"
  by (cases x) (simp add: mk_output_def)

lemma make_tx_fields:
  assumes "length ins \<le> MAX_INPUTS" "length outs \<le> MAX_OUTPUTS"
  shows "tx_num_inputs (make_tx ins outs) = length ins" "tx_num_outputs (make_tx ins outs) = length outs"
    "i < length ins \<Longrightarrow> tx_inputs (make_tx ins outs) ! i = ins ! i" "j < length outs \<Longrightarrow> tx_outputs (make_tx ins outs) ! j = outs ! j"
    "inputs (make_tx ins outs) = ins" "outputs (make_tx ins outs) = outs"
    "tx_fields_wire (make_tx ins outs) = to_le 8 (0 :: u64) @ zeros 20 @ to_le 8 (0 :: u64) @ to_le 2 (0 :: u16)"
    "tx_version (make_tx ins outs) = 0"
    "view (make_tx ins outs) = \<lparr>view_globals = (0, 0, zeros 20, 0, []), view_inputs = map input_view ins, view_outputs = map output_view outs\<rparr>"
proof -
  show io: "inputs (make_tx ins outs) = ins" "outputs (make_tx ins outs) = outs"
    by (simp_all add: inputs_def outputs_def make_tx_def)
  show "i < length ins \<Longrightarrow> tx_inputs (make_tx ins outs) ! i = ins ! i" "j < length outs \<Longrightarrow> tx_outputs (make_tx ins outs) ! j = outs ! j"
    by (simp_all add: make_tx_def blit_def nth_append)
  show "tx_num_inputs (make_tx ins outs) = length ins" "tx_num_outputs (make_tx ins outs) = length outs" "tx_version (make_tx ins outs) = 0"
    by (simp_all add: make_tx_def transaction_new_def)
  show "tx_fields_wire (make_tx ins outs) = to_le 8 (0 :: u64) @ zeros 20 @ to_le 8 (0 :: u64) @ to_le 2 (0 :: u16)"
    by (simp add: tx_fields_wire_def make_tx_def transaction_new_def)
  show "view (make_tx ins outs) = \<lparr>view_globals = (0, 0, zeros 20, 0, []), view_inputs = map input_view ins, view_outputs = map output_view outs\<rparr>"
    unfolding view_def io by (simp add: make_tx_def transaction_new_def)
qed

lemma make_tx_wf:
  assumes "length ins \<le> MAX_INPUTS" "length outs \<le> MAX_OUTPUTS" "\<forall>i \<in> set ins. wf_input i \<and> \<not> in_redeem_in_pool i" "\<forall>x \<in> set outs. wf_output x"
  shows "wf_transaction (make_tx ins outs)"
proof -
  have new: "wf_transaction transaction_new" by simp
  have "pool_ok n i" if "\<not> in_redeem_in_pool i" for n i using that by (simp add: pool_ok_def)
  then show ?thesis
    using assms new by (auto simp: wf_transaction_def make_tx_def list_all_iff blit_def dest!: in_set_dropD in_set_takeD)
qed

lemma concat_upt: "concat (map (\<lambda>i. f (xs ! i)) [0..<length xs]) = concat (map f xs)"
proof -
  have "map (\<lambda>i. f (xs ! i)) [0..<length xs] = map f xs" by (rule nth_equalityI) simp_all
  then show ?thesis by simp
qed

text \<open>The bytes of an unsigned transaction, with the same redeem script for every input when there is one.\<close>

lemma make_tx_wire:
  assumes "length ins \<le> MAX_INPUTS" "length outs \<le> MAX_OUTPUTS" "\<forall>x \<in> set outs. \<not> out_has_covenant x"
  shows "kspt_body_wire FORMAT_VERSION (map_option (\<lambda>r _. r) redeem) (make_tx ins outs) =
    unsigned_header (if redeem = None then 0x00 else 0x02) (length ins) (length outs) @
    concat (map (\<lambda>i. input_wire i @ (case redeem of None \<Rightarrow> [] | Some r \<Rightarrow> [of_nat (length r)] @ r)) ins) @ concat (map output_wire outs)"
proof -
  note f = make_tx_fields [OF assms(1,2)]
  have cov: "\<not> has_covenant_data (make_tx ins outs)"
    using assms(3) f(2,4) by (auto simp: has_covenant_data_def list_ex_iff)
  have "concat (map (\<lambda>i. input_wire (tx_inputs (make_tx ins outs) ! i) @ redeem_wire (map_option (\<lambda>r _. r) redeem) i) [0..<length ins]) =
      concat (map (\<lambda>i. (\<lambda>x. input_wire x @ (case redeem of None \<Rightarrow> [] | Some r \<Rightarrow> [of_nat (length r)] @ r)) (ins ! i)) [0..<length ins])"
    by (intro arg_cong [where f = concat] map_cong refl) (cases redeem; simp add: f(3))
  also have "\<dots> = concat (map (\<lambda>i. input_wire i @ (case redeem of None \<Rightarrow> [] | Some r \<Rightarrow> [of_nat (length r)] @ r)) ins)" by (rule concat_upt)
  finally have ins: "concat (map (\<lambda>i. input_wire (tx_inputs (make_tx ins outs) ! i) @ redeem_wire (map_option (\<lambda>r _. r) redeem) i) [0..<length ins]) = \<dots>" .
  have "concat (map (\<lambda>i. output_wire (tx_outputs (make_tx ins outs) ! i)) [0..<length outs]) = concat (map (\<lambda>i. output_wire (outs ! i)) [0..<length outs])"
    by (intro arg_cong [where f = concat] map_cong refl) (simp add: f(4))
  then have outs: "concat (map (\<lambda>i. output_wire (tx_outputs (make_tx ins outs) ! i)) [0..<length outs]) = concat (map output_wire outs)"
    by (simp only: concat_upt)
  show ?thesis
    unfolding kspt_body_wire_def f(1,2) ins using cov outs
    by (simp add: kspt_flags_def global_wire_def f unsigned_header_def FORMAT_VERSION_def PSKT_MAGIC_def)
qed


section \<open>What the device reads\<close>

lemma view_sompi:
  assumes "view a = view b"
  shows "fee a = fee b"
proof -
  have "map input_view (inputs a) = map input_view (inputs b)" "map output_view (outputs a) = map output_view (outputs b)"
    using assms by (simp_all add: view_def)
  then have "map (\<lambda>v. unat (fst (snd v))) (map input_view (inputs a)) = map (\<lambda>v. unat (fst (snd v))) (map input_view (inputs b))"
    "map (\<lambda>v. unat (fst v)) (map output_view (outputs a)) = map (\<lambda>v. unat (fst v)) (map output_view (outputs b))"
    by simp_all
  then have "input_sompi a = input_sompi b" "output_sompi a = output_sompi b"
    by (simp_all add: input_sompi_def output_sompi_def input_view_def output_view_def comp_def)
  then show ?thesis by (simp add: fee_eq)
qed

lemma output_total_make_tx:
  assumes "length ins \<le> MAX_INPUTS" "length outs \<le> MAX_OUTPUTS"
  shows "output_total (make_tx ins outs) (length outs) = (\<Sum>x\<leftarrow>outs. unat (out_value x))"
proof -
  have "map (\<lambda>i. unat (out_value (tx_outputs (make_tx ins outs) ! i))) [0..<length outs] = map (\<lambda>x. unat (out_value x)) outs"
    by (rule nth_equalityI) (simp_all add: make_tx_fields(4) [OF assms])
  then show ?thesis by (simp only: output_total_def)
qed

lemma device_reads:
  assumes n: "0 < length ins" "length ins \<le> MAX_INPUTS" "0 < length outs" "length outs \<le> MAX_OUTPUTS"
    and ins: "\<forall>i \<in> set ins. wf_input i \<and> \<not> in_redeem_in_pool i \<and> utxo_amount (in_utxo i) \<le> MAX_SOMPI"
    and outs: "\<forall>x \<in> set outs. wf_output x \<and> \<not> out_has_covenant x" "(\<Sum>x\<leftarrow>outs. unat (out_value x)) \<le> unat MAX_SOMPI"
    and r: "case redeem of None \<Rightarrow> True | Some r \<Rightarrow> length r \<le> 255"
  obtains tx where "parse_pskt (kspt_body_wire FORMAT_VERSION (map_option (\<lambda>r _. r) redeem) (make_tx ins outs)) t0 = (Inr (), tx)"
    "view tx = \<lparr>view_globals = (0, 0, zeros 20, 0, []), view_inputs = map input_view ins, view_outputs = map output_view outs\<rparr>"
    "\<And>r i. redeem = Some r \<Longrightarrow> i < length ins \<Longrightarrow> redeem_bytes tx i = r"
proof -
  let ?tx = "make_tx ins outs" and ?rs = "map_option (\<lambda>r _. r) redeem"
  note f = make_tx_fields [OF n(2,4)]
  have wf: "wf_transaction ?tx" using ins outs(1) n(2,4) by (intro make_tx_wf) auto
  have ok: "kspt_ok ?tx"
    using wf n f(1,2,3) ins outs(2) output_total_make_tx [OF n(2,4)]
    by (simp add: kspt_ok_def list_all_iff Suc_le_eq)
  have bind: "bindings_ok ?tx" using outs(1) f(2,4) by (simp add: bindings_ok_def list_all_iff)
  have short: "redeems_short ?rs (tx_num_inputs ?tx)" using r by (cases redeem) (simp_all add: redeems_short_def list_all_iff)
  have "parse_pskt (kspt_body_wire FORMAT_VERSION ?rs ?tx @ hints_wire []) t0 = (Inr (), fold put_hint [] (kspt_mid ?rs ?tx))"
    by (rule parse_pskt_wire [OF ok bind short]) (simp_all add: hints_ok_def)
  then have "parse_pskt (kspt_body_wire FORMAT_VERSION ?rs ?tx) t0 = (Inr (), kspt_mid ?rs ?tx)" by (simp add: hints_wire_def)
  moreover have "view (kspt_mid ?rs ?tx) = view ?tx" by (rule view_kspt_mid [OF ok])
  moreover have "redeem_bytes (kspt_mid ?rs ?tx) i = r" if "redeem = Some r" "i < length ins" for r i
  proof -
    have "tx_inputs (kspt_mid ?rs ?tx) ! i = inline_redeem r (load_input (tx_inputs ?tx ! i) input_default)"
      using that n f(1) by (simp add: kspt_mid_def fill_inputs_def fill_outputs_def loaded_input_def redeem_of_def nth_append)
    moreover have "length (in_redeem_script (load_input x input_default)) = MAX_SCRIPT_SIZE" for x
      by (simp add: load_input_def input_default_def input_zero_def)
    ultimately show ?thesis
      using assms(8) that by (simp add: redeem_bytes_def Let_def inline_redeem_def)
  qed
  ultimately show ?thesis using that f(9) by simp
qed

lemma mapR_Inr: "mapR f xs = Inr ys \<Longrightarrow> length ys = length xs \<and> (\<forall>i < length xs. f (xs ! i) = Inr (ys ! i))"
proof (induction xs arbitrary: ys)
  case (Cons x xs)
  then obtain z zs where "f x = Inr z" "mapR f xs = Inr zs" "ys = z # zs" by (auto simp: tryR_eq_Inr)
  then show ?case using Cons.IH [of zs] by (auto simp: nth_Cons split: nat.split)
qed simp

text \<open>What the device sees of a coin and of an output.\<close>

definition coin_view :: "hex_crate \<Rightarrow> u8 \<Rightarrow> companion_utxo \<Rightarrow> outpoint \<times> u64 \<times> u64 \<times> u8 \<times> u16 \<times> bytes" where
  "coin_view hx op u = (\<lparr>op_transaction_id = the (hx_decode hx (cu_tx_id u)), op_index = cu_index u\<rparr>, cu_amount u, 0, op, 0, cu_spk u)"

definition payment_view :: "u64 \<times> bytes \<Rightarrow> u64 \<times> u16 \<times> bytes \<times> (u16 \<times> bytes) option" where
  "payment_view = (\<lambda>(v, s). (v, 0, s, None))"

definition sent_view :: "hex_crate \<Rightarrow> u8 \<Rightarrow> companion_utxo list \<Rightarrow> (u64 \<times> bytes) list \<Rightarrow> tx_view" where
  "sent_view hx op sel outs =
     \<lparr>view_globals = (0, 0, zeros 20, 0, []), view_inputs = map (coin_view hx op) sel, view_outputs = map payment_view outs\<rparr>"

lemma utxo_bytes_input:
  assumes "utxo_bytes hx op u = Inr bs" "length (cu_spk u) \<le> 254"
  defines "i \<equiv> mk_input op (the (hx_decode hx (cu_tx_id u))) u"
  shows "bs = input_wire i" "wf_input i" "\<not> in_redeem_in_pool i" "input_view i = coin_view hx op u" "utxo_amount (in_utxo i) = cu_amount u"
proof -
  obtain txid where t: "hx_decode hx (cu_tx_id u) = Some txid" "length txid = 32"
    using assms(1) by (auto simp: utxo_bytes_def split: option.splits if_splits)
  then show "bs = input_wire i" "wf_input i" "\<not> in_redeem_in_pool i" "input_view i = coin_view hx op u"
    using assms(1) mk_input_wire [OF assms(2) t(2), of op] by (auto simp: utxo_bytes_def i_def coin_view_def)
  show "utxo_amount (in_utxo i) = cu_amount u" by (simp add: i_def mk_input_def)
qed

definition coin_input :: "hex_crate \<Rightarrow> u8 \<Rightarrow> companion_utxo \<Rightarrow> transaction_input" where
  "coin_input hx op u = mk_input op (the (hx_decode hx (cu_tx_id u))) u"

lemma coin_inputs:
  assumes ins: "mapR (utxo_bytes hx op) sel = Inr ins" and sel: "\<forall>u \<in> set sel. length (cu_spk u) \<le> 254 \<and> cu_amount u \<le> MAX_SOMPI"
  shows "ins = map input_wire (map (coin_input hx op) sel)"
    "\<forall>i \<in> set (map (coin_input hx op) sel). wf_input i \<and> \<not> in_redeem_in_pool i \<and> utxo_amount (in_utxo i) \<le> MAX_SOMPI"
    "map input_view (map (coin_input hx op) sel) = map (coin_view hx op) sel"
proof -
  note coin = utxo_bytes_input [folded coin_input_def]
  have each: "i < length sel \<Longrightarrow> utxo_bytes hx op (sel ! i) = Inr (ins ! i) \<and> length (cu_spk (sel ! i)) \<le> 254" for i
    using mapR_Inr [OF ins] sel by simp
  then show "ins = map input_wire (map (coin_input hx op) sel)"
    using mapR_Inr [OF ins] coin(1) by (intro nth_equalityI) simp_all
  have u: "\<exists>bs. utxo_bytes hx op u = Inr bs \<and> length (cu_spk u) \<le> 254" if "u \<in> set sel" for u
    using that each by (metis in_set_conv_nth)
  then show "\<forall>i \<in> set (map (coin_input hx op) sel). wf_input i \<and> \<not> in_redeem_in_pool i \<and> utxo_amount (in_utxo i) \<le> MAX_SOMPI"
    using coin(2,3,5) sel by fastforce
  show "map input_view (map (coin_input hx op) sel) = map (coin_view hx op) sel" using u coin(4) by fastforce
qed

lemma payment_outputs:
  assumes "\<forall>x \<in> set outs. length (snd x) \<le> 254"
  shows "\<forall>x \<in> set (map mk_output outs). wf_output x \<and> \<not> out_has_covenant x" "map output_wire (map mk_output outs) = map output_bytes outs"
    "map output_view (map mk_output outs) = map payment_view outs" "(\<Sum>x\<leftarrow>map mk_output outs. unat (out_value x)) = (\<Sum>x\<leftarrow>outs. unat (fst x))"
  using assms mk_output_wire by (auto simp: payment_view_def comp_def split_beta)

lemma serialize_reaches_device:
  assumes "serialize_kspt_multi hx sel outs = Inr t"
    and n: "0 < length sel" "length sel \<le> MAX_INPUTS" "0 < length outs" "length outs \<le> MAX_OUTPUTS"
    and sel: "\<forall>u \<in> set sel. length (cu_spk u) \<le> 254 \<and> cu_amount u \<le> MAX_SOMPI"
    and outs: "\<forall>x \<in> set outs. length (snd x) \<le> 254" "(\<Sum>x\<leftarrow>outs. unat (fst x)) \<le> unat MAX_SOMPI"
  obtains bs tx where "t = hx_encode hx bs" "parse_pskt bs t0 = (Inr (), tx)" "view tx = sent_view hx 1 sel outs"
proof -
  obtain ins where ins: "mapR (utxo_bytes hx 1) sel = Inr ins"
    and t: "t = hx_encode hx (unsigned_header 0x00 (length sel) (length outs) @ concat ins @ concat (map output_bytes outs))"
    using assms(1) by (auto simp: serialize_kspt_multi_def tryR_eq_Inr)
  let ?ins = "map (coin_input hx 1) sel" and ?outs = "map mk_output outs"
  note c = coin_inputs [OF ins sel] and o = payment_outputs [OF outs(1)]
  have wire: "kspt_body_wire FORMAT_VERSION (map_option (\<lambda>r _. r) None) (make_tx ?ins ?outs) =
      unsigned_header 0x00 (length sel) (length outs) @ concat ins @ concat (map output_bytes outs)"
    unfolding c(1) o(2) [symmetric] using make_tx_wire [of ?ins ?outs None] n o(1) by simp
  have len: "0 < length ?ins" "length ?ins \<le> MAX_INPUTS" "0 < length ?outs" "length ?outs \<le> MAX_OUTPUTS" using n by simp_all
  have total: "(\<Sum>x\<leftarrow>?outs. unat (out_value x)) \<le> unat MAX_SOMPI" unfolding o(4) by (rule outs(2))
  have short: "case None of None \<Rightarrow> True | Some r \<Rightarrow> length (r :: bytes) \<le> 255" by simp
  obtain tx where "parse_pskt (kspt_body_wire FORMAT_VERSION (map_option (\<lambda>r _. r) None) (make_tx ?ins ?outs)) t0 = (Inr (), tx)"
    "view tx = \<lparr>view_globals = (0, 0, zeros 20, 0, []), view_inputs = map input_view ?ins, view_outputs = map output_view ?outs\<rparr>"
    by (rule device_reads [OF len c(2) o(1) total short])
  then show ?thesis using t unfolding wire c(3) o(3) sent_view_def [symmetric] by (intro that)
qed

lemma script_for_length: "script_for addr = Inr s \<Longrightarrow> length s \<le> 254"
proof -
  assume "script_for addr = Inr s"
  then obtain version hash where d: "decode_address addr = Inr (version, hash)" "s = [0x20] @ hash @ [0xAC] \<or> s = [0xAA, 0x20] @ hash @ [0x87]"
    by (auto simp: script_for_def address_to_script_pubkey_def tryR_eq_Inr split: sum.splits if_splits)
  have "length hash = 32"
    using d(1) by (auto simp: decode_address_def tryR_eq_Inr Let_def not_less split: option.splits if_splits)
  then show ?thesis using d(2) by auto
qed

lemma change_output_cases:
  assumes "change_output wallet c = Inr change"
  shows "c = 0 \<and> change = [] \<or> (\<exists>s. change = [(c, s)] \<and> length s \<le> 254 \<and>
    wd_next_change wallet < length (wd_change wallet) \<and> script_for (wd_change wallet ! wd_next_change wallet) = Inr s)"
  using assms script_for_length by (auto simp: change_output_def tryR_eq_Inr Let_def word_gt_0 not_le split: if_splits)

lemma sent_fee:
  assumes "view tx = sent_view hx op sel outs" "value_of sel < 2 ^ 64" "(\<Sum>x\<leftarrow>outs. unat (fst x)) \<le> value_of sel"
  shows "fee tx = Some (of_nat (value_of sel - (\<Sum>x\<leftarrow>outs. unat (fst x))))"
proof -
  have "map input_view (inputs tx) = map (coin_view hx op) sel" "map output_view (outputs tx) = map payment_view outs"
    using assms(1) by (simp_all add: view_def sent_view_def)
  then have "map (\<lambda>v. unat (fst (snd v))) (map input_view (inputs tx)) = map (\<lambda>v. unat (fst (snd v))) (map (coin_view hx op) sel)"
    "map (\<lambda>v. unat (fst v)) (map output_view (outputs tx)) = map (\<lambda>v. unat (fst v)) (map payment_view outs)"
    by simp_all
  then have "input_sompi tx = value_of sel" "output_sompi tx = (\<Sum>x\<leftarrow>outs. unat (fst x))"
    by (simp_all add: input_sompi_def output_sompi_def input_view_def output_view_def coin_view_def payment_view_def value_of_def comp_def split_beta)
  then show ?thesis using assms(2,3) by (simp add: fee_eq)
qed

text \<open>A payment of some outputs with change that is left out when it is dust: its total and its fee.\<close>

lemma spend_fee:
  assumes coins: "value_of sel = unat taken" "unat needed \<le> unat taken" "unat needed = (\<Sum>x\<leftarrow>outs. unat (fst x)) + unat network_fee"
    and change: "(\<Sum>x\<leftarrow>change. unat (fst x)) = unat (absorb_dust (taken - needed))"
  shows "(\<Sum>x\<leftarrow>outs @ change. unat (fst x)) \<le> unat taken"
    "view tx = sent_view hx op sel (outs @ change) \<Longrightarrow>
     \<exists>f. fee tx = Some f \<and> unat network_fee \<le> unat f \<and> unat f \<le> unat network_fee + 9999900"
proof -
  define c where "c = unat taken - unat needed"
  have c: "unat (taken - needed) = c" using coins(2) by (simp add: c_def unat_sub word_le_nat_alt)
  have dust: "unat (absorb_dust (taken - needed)) = (if c \<le> 9999900 then 0 else c)"
    using c by (auto simp: absorb_dust_def is_dust_iff word_gt_0 unat_eq_zero)
  have sum: "(\<Sum>x\<leftarrow>outs @ change. unat (fst x)) = unat needed - unat network_fee + (if c \<le> 9999900 then 0 else c)"
    using coins(3) change dust by simp
  show le: "(\<Sum>x\<leftarrow>outs @ change. unat (fst x)) \<le> unat taken" unfolding sum using coins(2) by (auto simp: c_def)
  assume view: "view tx = sent_view hx op sel (outs @ change)"
  define f where "f = (of_nat (unat taken - (\<Sum>x\<leftarrow>outs @ change. unat (fst x))) :: u64)"
  have fee: "fee tx = Some f"
    using sent_fee [OF view] le coins(1) unat_u64_less [of taken] by (simp add: f_def)
  have "unat f = unat taken - (\<Sum>x\<leftarrow>outs @ change. unat (fst x))"
    unfolding f_def using unat_u64_less [of taken] by (simp add: unat_of_nat)
  also have "\<dots> = unat network_fee + (if c \<le> 9999900 then c else 0)" unfolding sum using coins(2,3) by (auto simp: c_def)
  finally show "\<exists>f. fee tx = Some f \<and> unat network_fee \<le> unat f \<and> unat f \<le> unat network_fee + 9999900"
    using fee by auto
qed

lemma spend_reaches_device:
  assumes coins: "value_of sel = unat taken" "unat needed \<le> unat taken" "unat needed = (\<Sum>x\<leftarrow>outs. unat (fst x)) + unat network_fee"
    and change: "change_output wallet (absorb_dust (taken - needed)) = Inr change"
    and ser: "serialize_kspt_multi hx sel (outs @ change) = Inr t"
    and n: "0 < length sel" "length sel \<le> MAX_INPUTS" "0 < length outs" "length outs < MAX_OUTPUTS"
    and sel: "\<forall>u \<in> set sel. length (cu_spk u) \<le> 254 \<and> cu_amount u \<le> MAX_SOMPI" and max: "unat taken \<le> unat MAX_SOMPI"
    and outs: "\<forall>x \<in> set outs. length (snd x) \<le> 254"
  obtains bs tx f where "t = hx_encode hx bs" "parse_pskt bs t0 = (Inr (), tx)" "view tx = sent_view hx 1 sel (outs @ change)"
    "fee tx = Some f" "unat network_fee \<le> unat f" "unat f \<le> unat network_fee + 9999900"
proof -
  have ch: "(\<Sum>x\<leftarrow>change. unat (fst x)) = unat (absorb_dust (taken - needed))" "length change \<le> 1"
    "\<forall>x \<in> set change. length (snd x) \<le> 254"
    using change_output_cases [OF change] by auto
  note f = spend_fee [OF coins ch(1)]
  obtain bs tx where tx: "t = hx_encode hx bs" "parse_pskt bs t0 = (Inr (), tx)" "view tx = sent_view hx 1 sel (outs @ change)"
    using serialize_reaches_device [OF ser n(1,2), of t0] n(3,4) ch(2,3) sel outs f(1) max by (auto simp: ball_Un)
  show ?thesis using that tx f(2) [OF tx(3)] by blast
qed

lemma checked_Inr: "checked r f = Inr y \<longleftrightarrow> (\<exists>x. r = Some x \<and> f x = Inr y)"
  by (auto simp: checked_def split: option.splits)

lemma take_coins_inside:
  assumes "take_coins us needed = Inr (sel, taken)" "us \<noteq> []"
  shows "sel \<noteq> []" "set sel \<subseteq> set us" "value_of sel = unat taken" "unat needed \<le> unat taken"
proof -
  obtain k where k: "sel = take k (by_amount us)" "unat taken = value_of sel" "unat needed \<le> value_of sel"
    using take_coins_takes [OF assms(1)] by blast
  show "set sel \<subseteq> set us" using set_take_subset [of k "by_amount us"] by (simp add: k(1))
  show "value_of sel = unat taken" "unat needed \<le> unat taken" using k by simp_all
  show "sel \<noteq> []"
  proof
    assume "sel = []"
    have r: "select_coins needed (by_amount us) [] 0 = Inr (sel, taken)"
      using assms(1) by (auto simp: take_coins_def tryR_eq_Inr split: if_splits)
    then show False
    proof (rule select_coins_takes)
      fix j assume "sel = [] @ take j (by_amount us)" "j = 0 \<Longrightarrow> by_amount us = []"
      moreover have "by_amount us \<noteq> []" using assms(2) by (metis length_0_conv mset_by_amount(2))
      ultimately show False using \<open>sel = []\<close> by auto
    qed
  qed
qed

lemma send_reaches_device:
  assumes "create_send_kspt hx wallet (Inr all_utxos) dest_address amount network_fee = Inr t"
    and coins: "take_coins all_utxos (amount + network_fee) = Inr (sel, taken)" "length sel \<le> MAX_INPUTS" "unat taken \<le> unat MAX_SOMPI"
    and all: "\<forall>u \<in> set all_utxos. length (cu_spk u) \<le> 254 \<and> cu_amount u \<le> MAX_SOMPI" and ne: "all_utxos \<noteq> []"
  obtains bs tx dest change f where "t = hx_encode hx bs" "script_for dest_address = Inr dest"
    "change_output wallet (absorb_dust (taken - amount - network_fee)) = Inr change"
    "parse_pskt bs t0 = (Inr (), tx)" "view tx = sent_view hx 1 sel ((amount, dest) # change)"
    "fee tx = Some f" "unat network_fee \<le> unat f" "unat f \<le> unat network_fee + 9999900"
proof -
  obtain dest needed change where d: "script_for dest_address = Inr dest" "checked_add amount network_fee = Some needed"
    "take_coins all_utxos needed = Inr (sel, taken)" "change_output wallet (absorb_dust (taken - amount - network_fee)) = Inr change"
    "serialize_kspt_multi hx sel ((amount, dest) # change) = Inr t"
  proof -
    obtain dest needed where "script_for dest_address = Inr dest" "checked_add amount network_fee = Some needed"
      using assms(1) by (auto simp: create_send_kspt_def tryR_eq_Inr checked_Inr)
    moreover from this(2) have "needed = amount + network_fee" by (simp add: checked_add_def split: if_splits)
    ultimately show ?thesis
      using assms(1) coins(1) that by (auto simp: create_send_kspt_def tryR_eq_Inr Let_def checked_Inr split: if_splits)
  qed
  have needed: "unat needed = unat amount + unat network_fee" using d(2) by (simp add: checked_add_eq)
  note k = take_coins_inside [OF d(3) ne]
  have sub: "taken - needed = taken - amount - network_fee"
    using d(2) by (auto simp: checked_add_def split: if_splits)
  show ?thesis
  proof (rule spend_reaches_device [where outs = "[(amount, dest)]" and change = change])
    show "change_output wallet (absorb_dust (taken - needed)) = Inr change" using d(4) by (simp only: sub)
    show "serialize_kspt_multi hx sel ([(amount, dest)] @ change) = Inr t" using d(5) by simp
    show "\<forall>u \<in> set sel. length (cu_spk u) \<le> 254 \<and> cu_amount u \<le> MAX_SOMPI" using all k(2) by auto
    show "\<forall>x \<in> set [(amount, dest)]. length (snd x) \<le> 254" using script_for_length [OF d(1)] by simp
    fix bs tx f assume "t = hx_encode hx bs" "parse_pskt bs t0 = (Inr (), tx)" "view tx = sent_view hx 1 sel ([(amount, dest)] @ change)"
      "fee tx = Some f" "unat network_fee \<le> unat f" "unat f \<le> unat network_fee + 9999900"
    then show ?thesis using that d(1,4) by simp
  qed (use k needed coins(2,3) in \<open>simp_all add: size_limits\<close>)
qed

lemma consolidate_reaches_device:
  assumes "create_consolidate_kspt hx wallet (Inr all_utxos) network_fee = Inr t"
    and all: "\<forall>u \<in> set all_utxos. length (cu_spk u) \<le> 254 \<and> cu_amount u \<le> MAX_SOMPI"
    and max: "value_of (take 32 (by_amount all_utxos)) \<le> unat MAX_SOMPI"
  obtains bs tx dest v where "t = hx_encode hx bs" "script_for (wd_receive wallet ! 0) = Inr dest" "parse_pskt bs t0 = (Inr (), tx)"
    "view tx = sent_view hx 1 (take 32 (by_amount all_utxos)) [(v, dest)]" "fee tx = Some network_fee"
    "unat v + unat network_fee = value_of (take 32 (by_amount all_utxos))"
proof -
  let ?sel = "take 32 (by_amount all_utxos)"
  obtain total dest where d: "sum_amounts ?sel = Some total" "\<not> total \<le> network_fee" "script_for (wd_receive wallet ! 0) = Inr dest"
    "serialize_kspt_multi hx ?sel [(total - network_fee, dest)] = Inr t" "2 \<le> length all_utxos"
  proof -
    have "2 \<le> length all_utxos"
      using assms(1) by (cases all_utxos; cases "tl all_utxos") (auto simp: create_consolidate_kspt_def tryR_eq_Inr)
    moreover from this have "take 32 (by_amount all_utxos) \<noteq> []" by (metis (no_types) list.size(3) mset_by_amount(2) not_numeral_le_zero take_eq_Nil2 zero_neq_numeral)
    ultimately show ?thesis
      using assms(1) that by (auto simp: create_consolidate_kspt_def tryR_eq_Inr checked_Inr Let_def split: if_splits)
  qed
  have total: "unat total = value_of ?sel" using d(1) by (simp add: sum_amounts_def trap_sum_eq value_of_def comp_def split: if_splits)
  define v where "v = total - network_fee"
  have v: "unat v + unat network_fee = value_of ?sel"
    unfolding v_def using d(2) total by (simp add: unat_sub word_le_nat_alt)
  have n: "0 < length ?sel" "length ?sel \<le> MAX_INPUTS" "0 < length [(v, dest)]" "length [(v, dest)] \<le> MAX_OUTPUTS"
    using d(5) by (auto simp: size_limits)
  have sel: "\<forall>u \<in> set ?sel. length (cu_spk u) \<le> 254 \<and> cu_amount u \<le> MAX_SOMPI"
    using all by (auto dest!: in_set_takeD)
  have outs: "\<forall>x \<in> set [(v, dest)]. length (snd x) \<le> 254" "(\<Sum>x\<leftarrow>[(v, dest)]. unat (fst x)) \<le> unat MAX_SOMPI"
    using script_for_length [OF d(3)] v max by simp_all
  obtain bs tx where tx: "t = hx_encode hx bs" "parse_pskt bs t0 = (Inr (), tx)" "view tx = sent_view hx 1 ?sel [(v, dest)]"
    using serialize_reaches_device [OF d(4) [folded v_def] n sel outs] by blast
  have "value_of ?sel - unat v = unat network_fee" "value_of ?sel < 2 ^ 64" using v total unat_u64_less [of total] by simp_all
  then have "fee tx = Some network_fee" using sent_fee [OF tx(3)] v by simp
  then show ?thesis using that tx d(3) v by blast
qed

section \<open>A batch of recipients\<close>

lemma recipient_outputs_length: "recipient_outputs i rs outs s = Inr (outs', s') \<Longrightarrow> length outs' = length outs + length rs"
  by (induction rs arbitrary: i outs s) (fastforce simp: tryR_eq_Inr checked_Inr)+

lemma refuses_counts:
  assumes "ni = 0 \<or> 32 < unat ni \<or> 8 < unat no"
  shows "\<exists>e \<in> {NoInputs, TooManyInputs, TooManyOutputs}.
    fst (parse_pskt (map of_char ''KSPT'' @ [0x01] @ [flags] @ to_le 2 (0 :: u16) @ [ni] @ [no] @ rest) t0) = Inl e"
proof -
  let ?data = "map of_char ''KSPT'' @ [0x01] @ [flags] @ to_le 2 (0 :: u16) @ [ni] @ [no] @ rest"
  let ?t = "transaction_new\<lparr>tx_version := 0\<rparr>"
  have counts: "\<exists>e \<in> {NoInputs, TooManyInputs, TooManyOutputs}. fst (parse_global (r, transaction_new)) = Inl e"
    if r: "unread r = to_le 2 (0 :: u16) @ [ni] @ [no] @ rest" for r
  proof -
    have "parse_global (r, transaction_new) = (thenE (fail_if (unat ni = 0) NoInputs)
        (thenE (fail_if (unat ni > MAX_INPUTS) TooManyInputs)
        (thenE (fail_if (unat no = 0) NoOutputs)
        (thenE (fail_if (unat no > MAX_OUTPUTS) TooManyOutputs)
        (thenE (upd (tx_num_inputs_update (\<lambda>_. unat ni)))
        (thenE (upd (tx_num_outputs_update (\<lambda>_. unat no)))
        (thenE parse_tx_fields (ret (unat ni, unat no))))))))) (advance 1 (advance 1 (advance 2 r)), ?t)"
      unfolding parse_global_def Let_def
      by (subst bindE_reads [OF u16_codec.reads_dec [OF TrueI] r])
        (subst thenE_def, subst bindE_Inr [where x = "()" and s' = "(advance 2 r, ?t)"], simp add: upd_def,
          subst bindE_reads [OF u8_codec.reads_dec [OF TrueI], of _ ni "[no] @ rest"], simp add: r,
          subst bindE_reads [OF u8_codec.reads_dec [OF TrueI], of _ no rest], simp_all add: r)
    then show ?thesis using assms by (auto simp: thenE_def bindE_def fail_if_def ret_def fail_def size_limits unat_eq_zero)
  qed
  let ?n = "length (PSKT_MAGIC @ [FORMAT_VERSION] @ [flags])"
  have "bindE parse_header f (reader_new ?data, transaction_new) =
      f (False, flags AND 0x02 \<noteq> 0, flags AND 0x04 \<noteq> 0) (advance ?n (reader_new ?data), transaction_new)" for f :: "bool \<times> bool \<times> bool \<Rightarrow> (bool \<times> nat \<times> nat) tx_parser"
    using bindE_reads [OF reads_parse_header [of FORMAT_VERSION flags transaction_new], of "reader_new ?data"
        "to_le 2 (0 :: u16) @ [ni] @ [no] @ rest" f]
    by (simp add: PSKT_MAGIC_def kspt_consts)
  moreover obtain e where "e \<in> {NoInputs, TooManyInputs, TooManyOutputs}"
    "fst (parse_global (advance ?n (reader_new ?data), transaction_new)) = Inl e"
  proof -
    have "unread (advance ?n (reader_new ?data)) = to_le 2 (0 :: u16) @ [ni] @ [no] @ rest" by (simp add: PSKT_MAGIC_def)
    then show ?thesis using counts that by blast
  qed
  ultimately have "fst (parse_pskt_front (reader_new ?data, transaction_new)) = Inl e"
    unfolding parse_pskt_front_def by (simp only: prod.case bindE_fst_Inl)
  then have "fst (parse_pskt_body (reader_new ?data, transaction_new)) = Inl e"
    unfolding parse_pskt_body_def by (rule bindE_fst_Inl)
  then show ?thesis using \<open>e \<in> _\<close> by (auto simp: parse_pskt_def split: prod.splits)
qed

lemma compound_outputs:
  assumes "create_compound_kspt hx wallet fetched (Some rs) network_fee = Inr t"
  obtains sel outs change where "serialize_kspt_multi hx sel (outs @ change) = Inr t" "length outs = length rs" "length change \<le> 1" "length rs \<le> 10"
proof -
  obtain outs total_send where o: "recipient_outputs 0 rs [] 0 = Inr (outs, total_send)" "length rs \<le> 10"
    using assms by (auto simp: create_compound_kspt_def tryR_eq_Inr split: if_splits)
  then obtain sel c change where "change_output wallet c = Inr change" "serialize_kspt_multi hx sel (outs @ change) = Inr t"
    using assms by (auto simp: create_compound_kspt_def tryR_eq_Inr checked_Inr Let_def split: if_splits)
  moreover from this(1) have "length change \<le> 1" using change_output_cases by fastforce
  ultimately show ?thesis using that o(2) recipient_outputs_length [OF o(1)] by simp
qed

section \<open>Properties\<close>

text \<open>The hex crate as the code relies on it: lower-case digits, as the device writes them, and their inverse.\<close>

definition hex_ok :: "hex_crate \<Rightarrow> bool" where
  "hex_ok hx \<longleftrightarrow> (\<forall>bs. hx_encode hx bs = hex_text bs \<and> hx_decode hx (hex_text bs) = Some bs)"

definition sample_hex :: hex_crate where
  "sample_hex = \<lparr>hx_decode = (\<lambda>t. if even (length t) then hex_pairs t else None), hx_encode = hex_text\<rparr>"

lemma sample_hex_ok: "hex_ok sample_hex"
  by (simp add: hex_ok_def sample_hex_def hex_pairs_text)

lemma sample_script: "script_for sample_address = Inr ([0x20] @ replicate 32 0 @ [0xAC])"
proof -
  have "decode_address sample_address = Inr (0, replicate 32 0)"
    unfolding sample_address_def by (rule decode_companion_text) (simp_all add: NETWORK_PREFIXES_def KASPA_HRP_def)
  then show ?thesis by (simp add: script_for_def address_to_script_pubkey_def)
qed

definition sample_coin :: "u64 \<Rightarrow> companion_utxo" where
  "sample_coin a = \<lparr>cu_tx_id = hex_text (replicate 32 7), cu_index = 1, cu_amount = a, cu_spk = [0x20] @ replicate 32 0 @ [0xAC],
     cu_block_daa_score = 5, cu_covenant_id = None\<rparr>"

definition sample_wallet :: wallet_data where
  "sample_wallet = \<lparr>wd_kpub = [], wd_receive = [sample_address], wd_change = [sample_address], wd_next_receive = 0, wd_next_change = 0\<rparr>"

lemma sample_coin_bytes: "\<exists>bs. utxo_bytes sample_hex op (sample_coin a) = Inr bs"
  by (simp add: utxo_bytes_def sample_coin_def sample_hex_def hex_pairs_text)

text \<open>C15: when the companion makes a payment, the device's parser accepts the bytes it wrote and sees exactly
the coins that were chosen, the payment to the script of the address that was typed and the change to the
wallet's next change address; the fee it shows is the requested one, plus the change if that was dust.\<close>

theorem companion_send_reaches_device:
  assumes "hex_ok hx" "create_send_kspt hx wallet (Inr all_utxos) dest_address amount network_fee = Inr t" "all_utxos \<noteq> []"
    and "take_coins all_utxos (amount + network_fee) = Inr (sel, taken)" "length sel \<le> MAX_INPUTS" "taken \<le> MAX_SOMPI"
    and "\<forall>u \<in> set all_utxos. length (cu_spk u) \<le> 254 \<and> cu_amount u \<le> MAX_SOMPI"
  shows "\<exists>bs tx dest change f. hx_decode hx t = Some bs \<and> script_for dest_address = Inr dest \<and>
     change_output wallet (absorb_dust (taken - amount - network_fee)) = Inr change \<and>
     parse_pskt bs t0 = (Inr (), tx) \<and> view tx = sent_view hx 1 sel ((amount, dest) # change) \<and>
     fee tx = Some f \<and> unat network_fee \<le> unat f \<and> unat f \<le> unat network_fee + 9999900"
proof -
  have "unat taken \<le> unat MAX_SOMPI" using assms(6) by (simp add: word_le_nat_alt)
  then show ?thesis
  proof (rule send_reaches_device [OF assms(2,4,5) _ assms(7,3)])
    fix bs tx dest change f
    assume "t = hx_encode hx bs" "script_for dest_address = Inr dest"
      "change_output wallet (absorb_dust (taken - amount - network_fee)) = Inr change"
      "parse_pskt bs t0 = (Inr (), tx)" "view tx = sent_view hx 1 sel ((amount, dest) # change)"
      "fee tx = Some f" "unat network_fee \<le> unat f" "unat f \<le> unat network_fee + 9999900"
    then show ?thesis using assms(1) by (intro exI [of _ bs] exI [of _ tx] exI [of _ dest] exI [of _ change] exI [of _ f]) (simp add: hex_ok_def)
  qed
qed

lemma sample_serialize: "\<exists>t. serialize_kspt_multi sample_hex (map sample_coin as) outs = Inr t"
proof -
  have "\<exists>ins. mapR (utxo_bytes sample_hex 1) (map sample_coin as) = Inr ins"
  proof (induction as)
    case (Cons a as)
    then show ?case using sample_coin_bytes [of 1 a] by auto
  qed simp
  then show ?thesis by (auto simp: serialize_kspt_multi_def)
qed

lemma sample_take: "take_coins (map sample_coin [300000000, 500000000]) 100005000 = Inr (map sample_coin [500000000], 500000000)"
  by (simp add: take_coins_def by_amount_def sample_coin_def checked_def checked_add_def)

lemma sample_send:
  "\<exists>t. create_send_kspt sample_hex sample_wallet (Inr (map sample_coin [300000000, 500000000])) sample_address 100000000 5000 = Inr t"
proof -
  have "checked_add (100000000 :: u64) 5000 = Some 100005000" by (simp add: checked_add_def)
  moreover have "\<not> is_dust 100000000" "\<not> is_dust 399995000" by (simp_all add: is_dust_iff)
  ultimately show ?thesis
    using sample_serialize [of "[500000000]"]
    by (simp add: create_send_kspt_def sample_script sample_take checked_def absorb_dust_def change_output_def sample_wallet_def
        del: list.map)
qed

theorem companion_send_reaches_device_witness:
  "\<exists>t bs tx dest change f. hx_decode sample_hex t = Some bs \<and> script_for sample_address = Inr dest \<and>
     parse_pskt bs transaction_new = (Inr (), tx) \<and>
     view tx = sent_view sample_hex 1 (map sample_coin [500000000]) ((100000000, dest) # change) \<and> fee tx = Some f \<and> unat f \<le> 10004900"
proof -
  obtain t where t: "create_send_kspt sample_hex sample_wallet (Inr (map sample_coin [300000000, 500000000])) sample_address 100000000 5000 = Inr t"
    using sample_send by blast
  have "\<exists>bs tx dest change f. hx_decode sample_hex t = Some bs \<and> script_for sample_address = Inr dest \<and>
     change_output sample_wallet (absorb_dust (500000000 - 100000000 - 5000)) = Inr change \<and>
     parse_pskt bs transaction_new = (Inr (), tx) \<and>
     view tx = sent_view sample_hex 1 (map sample_coin [500000000]) ((100000000, dest) # change) \<and>
     fee tx = Some f \<and> unat (5000 :: u64) \<le> unat f \<and> unat f \<le> unat (5000 :: u64) + 9999900"
    by (rule companion_send_reaches_device [OF sample_hex_ok t])
      (use sample_take in \<open>simp_all add: sample_coin_def size_limits MAX_SOMPI_def word_le_nat_alt\<close>)
  then show ?thesis by simp blast
qed

text \<open>C38: the coins that the companion picks for a payment are coins of the wallet, hold at least the amount
needed, and no choice of fewer coins does.\<close>

theorem companion_picks_fewest_coins:
  assumes "take_coins all_utxos needed = Inr (sel, taken)" "0 < needed"
  shows "mset sel \<subseteq># mset all_utxos \<and> unat taken = value_of sel \<and> unat needed \<le> value_of sel \<and>
    (\<forall>S. S \<subseteq># mset all_utxos \<longrightarrow> unat needed \<le> (\<Sum>u \<in># S. unat (cu_amount u)) \<longrightarrow> length sel \<le> size S)"
  using take_coins_fewest [OF assms] by blast

theorem companion_picks_fewest_coins_witness:
  "mset (map sample_coin [500000000]) \<subseteq># mset (map sample_coin [300000000, 500000000]) \<and>
   unat (500000000 :: u64) = value_of (map sample_coin [500000000]) \<and>
   length (map sample_coin [500000000]) \<le> size (mset (map sample_coin [300000000, 500000000]))"
proof -
  let ?S = "mset (map sample_coin [300000000, 500000000])"
  have "unat (100005000 :: u64) \<le> (\<Sum>u \<in># ?S. unat (cu_amount u))" by (simp add: sample_coin_def)
  then show ?thesis using companion_picks_fewest_coins [OF sample_take] by simp
qed

text \<open>The companion's dust test is the storage-mass rule: an amount is dust exactly when it is zero or a lone
output of it has more than the standard mass by the consensus formula; in amounts, up to 9,999,900 sompi.\<close>

theorem dust_is_storage_mass:
  "(is_dust a \<longleftrightarrow> a = 0 \<or> (\<exists>m. storage_mass_estimate [] [(a, 1)] = Some m \<and> MAX_STANDARD_MASS < m)) \<and>
   (is_dust a \<longleftrightarrow> unat a \<le> 9999900)"
  using lone_output_mass over_standard_mass by (cases "a = 0") (simp_all add: is_dust_iff)

text \<open>A consolidation always fits the device: at most 32 coins, the largest first, and one output to the first
receive address with their whole value less the fee, which is the fee the device shows.\<close>

theorem consolidation_reaches_device:
  assumes "hex_ok hx" "create_consolidate_kspt hx wallet (Inr all_utxos) network_fee = Inr t"
    and "\<forall>u \<in> set all_utxos. length (cu_spk u) \<le> 254 \<and> cu_amount u \<le> MAX_SOMPI"
    and "value_of (take 32 (by_amount all_utxos)) \<le> unat MAX_SOMPI"
  shows "\<exists>bs tx dest v. hx_decode hx t = Some bs \<and> script_for (wd_receive wallet ! 0) = Inr dest \<and> parse_pskt bs t0 = (Inr (), tx) \<and>
     view tx = sent_view hx 1 (take 32 (by_amount all_utxos)) [(v, dest)] \<and> fee tx = Some network_fee \<and>
     unat v + unat network_fee = value_of (take 32 (by_amount all_utxos))"
proof (rule consolidate_reaches_device [OF assms(2-4)])
  fix bs tx dest v
  assume "t = hx_encode hx bs" "script_for (wd_receive wallet ! 0) = Inr dest" "parse_pskt bs t0 = (Inr (), tx)"
    "view tx = sent_view hx 1 (take 32 (by_amount all_utxos)) [(v, dest)]" "fee tx = Some network_fee"
    "unat v + unat network_fee = value_of (take 32 (by_amount all_utxos))"
  then show ?thesis using assms(1) by (intro exI [of _ bs] exI [of _ tx] exI [of _ dest] exI [of _ v]) (simp add: hex_ok_def)
qed

lemma sample_sorted: "by_amount (map sample_coin [300000000, 500000000]) = map sample_coin [500000000, 300000000]"
  by (simp add: by_amount_def sample_coin_def)

theorem consolidation_reaches_device_witness:
  "\<exists>t bs tx dest v. create_consolidate_kspt sample_hex sample_wallet (Inr (map sample_coin [300000000, 500000000])) 5000 = Inr t \<and>
     hx_decode sample_hex t = Some bs \<and> parse_pskt bs transaction_new = (Inr (), tx) \<and>
     view tx = sent_view sample_hex 1 (map sample_coin [500000000, 300000000]) [(v, dest)] \<and> fee tx = Some 5000 \<and> unat v = 799995000"
proof -
  let ?us = "map sample_coin [300000000, 500000000]"
  have "sum_amounts (map sample_coin [500000000, 300000000]) = Some 800000000"
    by (simp add: sum_amounts_def sample_coin_def checked_add_def)
  then obtain t where t: "create_consolidate_kspt sample_hex sample_wallet (Inr ?us) 5000 = Inr t"
    using sample_serialize [of "[500000000, 300000000]"] sample_sorted
    by (auto simp: create_consolidate_kspt_def checked_def sample_wallet_def sample_script)
  have "\<exists>bs tx dest v. hx_decode sample_hex t = Some bs \<and> script_for (wd_receive sample_wallet ! 0) = Inr dest \<and>
     parse_pskt bs transaction_new = (Inr (), tx) \<and> view tx = sent_view sample_hex 1 (take 32 (by_amount ?us)) [(v, dest)] \<and>
     fee tx = Some 5000 \<and> unat v + unat (5000 :: u64) = value_of (take 32 (by_amount ?us))"
    by (rule consolidation_reaches_device [OF sample_hex_ok t])
      (use sample_sorted in \<open>simp_all add: sample_coin_def size_limits MAX_SOMPI_def word_le_nat_alt\<close>)
  moreover have "take 32 (by_amount ?us) = map sample_coin [500000000, 300000000]" unfolding sample_sorted by simp
  moreover have "value_of (map sample_coin [500000000, 300000000]) = 800000000" by (simp add: sample_coin_def)
  ultimately show ?thesis using t by (simp only:) fastforce
qed

text \<open>C39: a batch payment to nine or ten recipients, which the companion allows, is always refused by the device's
parser, whatever coins it spends.\<close>

theorem large_batch_refused:
  assumes "hex_ok hx" "create_compound_kspt hx wallet fetched (Some recipients) network_fee = Inr t" "8 < length recipients"
  shows "\<exists>bs e. hx_decode hx t = Some bs \<and> e \<in> {NoInputs, TooManyInputs, TooManyOutputs} \<and> fst (parse_pskt bs t0) = Inl e"
proof -
  obtain sel outs change where o: "serialize_kspt_multi hx sel (outs @ change) = Inr t" "length outs = length recipients" "length change \<le> 1"
    "length recipients \<le> 10"
    by (rule compound_outputs [OF assms(2)])
  then obtain rest where t: "t = hx_encode hx (map of_char ''KSPT'' @ [0x01] @ [0x00] @ to_le 2 (0 :: u16) @ [of_nat (length sel)] @
      [of_nat (length (outs @ change))] @ rest)"
    by (auto simp: serialize_kspt_multi_def tryR_eq_Inr unsigned_header_def)
  have "8 < length (outs @ change)" "length (outs @ change) < 256" using o(2-4) assms(3) by simp_all
  then have "8 < unat (of_nat (length (outs @ change)) :: u8)" by (simp add: unat_of_nat del: length_append of_nat_add)
  then obtain e where "e \<in> {NoInputs, TooManyInputs, TooManyOutputs}"
    "fst (parse_pskt (map of_char ''KSPT'' @ [0x01] @ [0x00] @ to_le 2 (0 :: u16) @ [of_nat (length sel)] @
       [of_nat (length (outs @ change))] @ rest) t0) = Inl e"
    using refuses_counts [where no = "of_nat (length (outs @ change))" and ni = "of_nat (length sel)"] by blast
  moreover have "hx_decode hx (hx_encode hx bs) = Some bs" for bs using assms(1) by (simp add: hex_ok_def)
  ultimately show ?thesis using t by blast
qed

definition sample_recipient :: "bytes option \<times> bytes option" where
  "sample_recipient = (Some sample_address, Some (map of_char ''20000000''))"

lemma sample_recipient_output: "recipient_output i sample_recipient = Inr (20000000, [0x20] @ replicate 32 0 @ [0xAC])"
proof -
  have "parse_uint 64 (map of_char ''20000000'') = Some 20000000"
    by (simp add: parse_uint_def is_digit_def dec_value_def)
  then show ?thesis by (simp add: recipient_output_def sample_recipient_def is_dust_iff sample_script)
qed

lemma sample_outputs: "unat s + 20000000 * k < 2 ^ 64 \<Longrightarrow>
  \<exists>outs s'. recipient_outputs i (replicate k sample_recipient) acc s = Inr (outs, s') \<and> unat s' = unat s + 20000000 * k"
proof (induction k arbitrary: i acc s)
  case (Suc k)
  let ?s = "s + 20000000"
  have s: "checked_add s 20000000 = Some ?s" "unat ?s = unat s + 20000000"
    using Suc.prems by (simp_all add: checked_add_def unat_word_ariths)
  then show ?case
    using Suc.IH [of ?s "i + 1" "acc @ [(20000000, [0x20] @ replicate 32 0 @ [0xAC])]"] Suc.prems
    by (simp add: sample_recipient_output checked_def add.assoc)
qed simp

lemma sample_batch: "\<exists>t. create_compound_kspt sample_hex sample_wallet (Inr [sample_coin 180005000]) (Some (replicate 9 sample_recipient)) 5000 = Inr t"
proof -
  have outs: "\<exists>outs. recipient_outputs 0 (replicate 9 sample_recipient) [] 0 = Inr (outs, 180000000)"
  proof -
    obtain outs s where s: "recipient_outputs 0 (replicate 9 sample_recipient) [] 0 = Inr (outs, s)" "unat s = 180000000"
      using sample_outputs [of 0 9 0 "[]"] by auto
    then have "unat s = unat (180000000 :: u64)" by simp
    then have "s = 180000000" by (simp only: word_unat_eq_iff)
    then show ?thesis using s(1) by blast
  qed
  have coins: "take_coins [sample_coin 180005000] 180005000 = Inr (map sample_coin [180005000], 180005000)"
    by (simp add: take_coins_def by_amount_def sample_coin_def checked_def checked_add_def)
  have needed: "checked_add (180000000 :: u64) 5000 = Some 180005000" by (simp add: checked_add_def)
  show ?thesis
    using outs coins sample_serialize [of "[180005000]"]
    by (auto simp: create_compound_kspt_def checked_def needed absorb_dust_def change_output_def)
qed

theorem large_batch_refused_witness:
  "\<exists>t bs e. create_compound_kspt sample_hex sample_wallet (Inr [sample_coin 180005000]) (Some (replicate 9 sample_recipient)) 5000 = Inr t \<and>
     hx_decode sample_hex t = Some bs \<and> fst (parse_pskt bs transaction_new) = Inl e"
  using sample_batch large_batch_refused [OF sample_hex_ok, of sample_wallet "Inr [sample_coin 180005000]" "replicate 9 sample_recipient" 5000]
  by fastforce

end
