(* ===== verification/KasCoordinator.thy ===== *)
theory KasCoordinator
  imports KasCompanion
begin

text \<open>
  The companion as coordinator of a multisig wallet (kassee/src/kspt.rs, multisig part): the descriptor parser,
  redeem scripts and addresses, the search for the indices of an address, and the KSPT payload of a payment.
  A text is the list of its bytes and is taken to be ASCII, so that \<open>trim\<close> cuts the six ASCII blanks.
  The crates are parameters: \<open>wc\<close> and \<open>cr\<close> as in KasWallet, \<open>hx\<close> as in KasCompanion, and
  \<open>b2b\<close> for blake2b\_simd with 32 bytes of output.
\<close>

section \<open>Texts\<close>

definition is_white :: "u8 \<Rightarrow> bool" where
  "is_white b \<longleftrightarrow> 9 \<le> b \<and> b \<le> 13 \<or> b = 32"

definition trim :: "bytes \<Rightarrow> bytes" where
  "trim s = rev (dropWhile is_white (rev (dropWhile is_white s)))"

text \<open>\<open>while s.starts_with('#') \{ s = match s.find('\\n') .. \}\<close>\<close>

function strip_comments :: "bytes \<Rightarrow> bytes" where
  "strip_comments s =
     (if s \<noteq> [] \<and> hd s = of_char CHR ''#''
      then (if 10 \<in> set s then strip_comments (dropWhile is_white (tl (dropWhile (\<lambda>b. b \<noteq> 10) s))) else [])
      else s)"
  by pat_completeness auto
termination
proof (relation "measure length")
  fix s :: bytes assume "s \<noteq> [] \<and> hd s = of_char CHR ''#''" "10 \<in> set s"
  have "length (dropWhile is_white (tl (dropWhile (\<lambda>b. b \<noteq> 10) s))) \<le> length (tl (dropWhile (\<lambda>b. b \<noteq> 10) s))"
    by (rule length_dropWhile_le)
  also have "\<dots> < length s"
  proof -
    have "dropWhile (\<lambda>b. b \<noteq> 10) s \<noteq> []" using \<open>10 \<in> set s\<close> by auto
    moreover have "length (dropWhile (\<lambda>b. b \<noteq> 10) s) \<le> length s" by (rule length_dropWhile_le)
    ultimately show ?thesis by (cases "dropWhile (\<lambda>b. b \<noteq> 10) s") simp_all
  qed
  finally show "(dropWhile is_white (tl (dropWhile (\<lambda>b. b \<noteq> 10) s)), s) \<in> measure length" by simp
qed simp

declare strip_comments.simps [simp del]

definition strip_header :: "bytes \<Rightarrow> bytes" where
  "strip_header desc = trim (strip_comments (trim desc))"

text \<open>\<open>split(',')\<close>\<close>

fun split_on :: "u8 \<Rightarrow> bytes \<Rightarrow> bytes list" where
  "split_on c [] = [[]]"
| "split_on c (b # bs) =
     (if b = c then [] # split_on c bs
      else (case split_on c bs of [] \<Rightarrow> [[b]] | part # parts \<Rightarrow> (b # part) # parts))"

section \<open>The descriptor\<close>

datatype multisig_error = TooFewParts | BadThreshold | DuplicateCosigner | BadCosigner wallet_error | CosignerDepth u8
  | DeriveFailed wallet_error | ThresholdRange u8 nat | XpubLength nat | BadXpubHex | BadXpubKey | KeyLength nat
  | BadKeyHex | NotDescriptor | ScriptPanic | SourceNotFound | Payment companion_error | NoMultisigCoins
  | TooManyCoins nat | ChangeElsewhere

definition lift :: "('e \<Rightarrow> multisig_error) \<Rightarrow> 'e + 'a \<Rightarrow> multisig_error + 'a" where
  "lift e r = (case r of Inl x \<Rightarrow> Inl (e x) | Inr y \<Rightarrow> Inr y)"

text \<open>The child key on a path, with \<open>?\<close> after each step.\<close>

definition child_at :: "'pt crypto \<Rightarrow> 'pt wallet_crates \<Rightarrow> 'pt ext_pub_key \<Rightarrow> u32 \<Rightarrow> multisig_error + 'pt ext_pub_key" where
  "child_at cr wc k index = lift DeriveFailed (ext_derive_child cr wc k index)"

definition cosigner_key_45 :: "'pt crypto \<Rightarrow> 'pt wallet_crates \<Rightarrow> u32 \<Rightarrow> u32 \<Rightarrow> u32 \<Rightarrow> bytes \<Rightarrow> multisig_error + bytes" where
  "cosigner_key_45 cr wc cosigner_index chain addr_index kpub_str =
     tryR (lift BadCosigner (from_kpub wc kpub_str)) (\<lambda>parent.
       if ek_depth parent \<noteq> 3 then Inl (CosignerDepth (ek_depth parent))
       else tryR (child_at cr wc parent cosigner_index) (\<lambda>family.
            tryR (child_at cr wc family chain) (\<lambda>chain_node.
            tryR (child_at cr wc chain_node addr_index) (\<lambda>addr_child. Inr (x_only_bytes cr addr_child)))))"

definition cosigner_key_44 :: "'pt crypto \<Rightarrow> 'pt wallet_crates \<Rightarrow> hex_crate \<Rightarrow> u32 \<Rightarrow> bytes \<Rightarrow> multisig_error + bytes" where
  "cosigner_key_44 cr wc hx addr_index part =
     (let xpub_hex = trim part
      in if length xpub_hex \<noteq> 130 then Inl (XpubLength (length xpub_hex))
         else (case hx_decode hx xpub_hex of None \<Rightarrow> Inl BadXpubHex
           | Some xpub_bytes \<Rightarrow>
               (case wc_from_sec1 wc (take 33 xpub_bytes) of None \<Rightarrow> Inl BadXpubKey
                | Some pubkey \<Rightarrow>
                    let parent = \<lparr>ek_key = pubkey, ek_chain_code = slice 33 32 xpub_bytes, ek_depth = 3\<rparr>
                    in tryR (child_at cr wc parent 0) (\<lambda>receive_chain.
                       tryR (child_at cr wc receive_chain addr_index) (\<lambda>addr_child. Inr (x_only_bytes cr addr_child))))))"

definition legacy_key :: "hex_crate \<Rightarrow> bytes \<Rightarrow> multisig_error + bytes" where
  "legacy_key hx part =
     (let pk_hex = trim part
      in if length pk_hex \<noteq> 64 then Inl (KeyLength (length pk_hex))
         else (case hx_decode hx pk_hex of None \<Rightarrow> Inl BadKeyHex | Some pk \<Rightarrow> Inr pk))"

definition ends_with_paren :: "bytes \<Rightarrow> bool" where
  "ends_with_paren s \<longleftrightarrow> s \<noteq> [] \<and> last s = of_char CHR '')''"

text \<open>\<open>desc[prefix.len()..desc.len() - 1].split(',')\<close>\<close>

definition descriptor_parts :: "bytes \<Rightarrow> bytes \<Rightarrow> bytes list" where
  "descriptor_parts prefix desc = split_on (of_char CHR '','') (drop (length prefix) (take (length desc - 1) desc))"

definition threshold :: "bytes \<Rightarrow> multisig_error + u8" where
  "threshold part = (case parse_uint 8 (trim part) of None \<Rightarrow> Inl BadThreshold | Some n \<Rightarrow> Inr (of_nat n))"

definition with_threshold :: "u8 \<Rightarrow> bytes list \<Rightarrow> multisig_error + u8 \<times> bytes list" where
  "with_threshold m pubkeys =
     (if m = 0 \<or> length pubkeys < unat m then Inl (ThresholdRange m (length pubkeys)) else Inr (m, pubkeys))"

definition LEGACY_PREFIX :: bytes where "LEGACY_PREFIX = map of_char ''multi(''"

definition parse_descriptor_at ::
  "'pt crypto \<Rightarrow> 'pt wallet_crates \<Rightarrow> hex_crate \<Rightarrow> bytes \<Rightarrow> u32 \<Rightarrow> u32 \<Rightarrow> u32 \<Rightarrow> multisig_error + u8 \<times> bytes list" where
  "parse_descriptor_at cr wc hx desc addr_index cosigner_index chain =
     (let desc = strip_header desc
      in if starts_with desc HD45_PREFIX \<and> ends_with_paren desc
         then (let parts = descriptor_parts HD45_PREFIX desc
               in if length parts < 2 then Inl TooFewParts
                  else tryR (threshold (parts ! 0)) (\<lambda>m.
                    let entries = sort (map trim (drop 1 parts))
                    in if list_ex (\<lambda>i. entries ! (i - 1) = entries ! i) [1..<length entries] then Inl DuplicateCosigner
                       else tryR (mapR (cosigner_key_45 cr wc cosigner_index chain addr_index) entries) (with_threshold m)))
         else if starts_with desc HD_PREFIX \<and> ends_with_paren desc
         then (let parts = descriptor_parts HD_PREFIX desc
               in if length parts < 3 then Inl TooFewParts
                  else tryR (threshold (parts ! 0)) (\<lambda>m.
                       tryR (mapR (cosigner_key_44 cr wc hx addr_index) (drop 1 parts)) (\<lambda>pubkeys.
                       tryR (with_threshold m pubkeys) (\<lambda>(m, pubkeys). Inr (m, sort pubkeys)))))
         else if starts_with desc LEGACY_PREFIX \<and> ends_with_paren desc
         then (let parts = descriptor_parts LEGACY_PREFIX desc
               in if length parts < 3 then Inl TooFewParts
                  else tryR (threshold (parts ! 0)) (\<lambda>m.
                       tryR (mapR (legacy_key hx) (drop 1 parts)) (\<lambda>pubkeys.
                       tryR (with_threshold m pubkeys) (\<lambda>(m, pubkeys). Inr (m, sort pubkeys)))))
         else Inl NotDescriptor)"

text \<open>The additions are checked; None is the panic.\<close>

definition build_redeem_script :: "u8 \<Rightarrow> bytes list \<Rightarrow> bytes option" where
  "build_redeem_script m pubkeys =
     (let n = (of_nat (length pubkeys) :: u8)
      in if 256 \<le> 0x50 + unat m \<or> 256 \<le> 0x50 + unat n then None
         else Some ([0x50 + m] @ concat (map (\<lambda>pk. [0x20] @ pk) pubkeys) @ [0x50 + n] @ [0xAE]))"

definition redeem_script_at ::
  "'pt crypto \<Rightarrow> 'pt wallet_crates \<Rightarrow> hex_crate \<Rightarrow> bytes \<Rightarrow> u32 \<Rightarrow> u32 \<Rightarrow> u32 \<Rightarrow> multisig_error + bytes \<times> nat" where
  "redeem_script_at cr wc hx desc addr_index cosigner_index chain =
     tryR (parse_descriptor_at cr wc hx desc addr_index cosigner_index chain) (\<lambda>(m, pubkeys).
       case build_redeem_script m pubkeys of None \<Rightarrow> Inl ScriptPanic | Some script \<Rightarrow> Inr (script, length pubkeys))"

definition multisig_address_at ::
  "'pt crypto \<Rightarrow> 'pt wallet_crates \<Rightarrow> hex_crate \<Rightarrow> (bytes \<Rightarrow> bytes) \<Rightarrow> bytes \<Rightarrow> u32 \<Rightarrow> u32 \<Rightarrow> u32 \<Rightarrow> multisig_error + bytes" where
  "multisig_address_at cr wc hx b2b descriptor addr_index cosigner_index chain =
     tryR (redeem_script_at cr wc hx descriptor addr_index cosigner_index chain) (\<lambda>(script, _).
       Inr (encode_p2sh_address (b2b script) (map of_char ''kaspa'')))"

text \<open>The nested loops: the first triple whose address is the given one.\<close>

fun search :: "(u32 \<times> u32 \<times> u32 \<Rightarrow> 'e + bytes) \<Rightarrow> bytes \<Rightarrow> (u32 \<times> u32 \<times> u32) list \<Rightarrow> 'e + (u32 \<times> u32 \<times> u32) option" where
  "search address_of source [] = Inr None"
| "search address_of source (t # ts) =
     tryR (address_of t) (\<lambda>derived. if derived = source then Inr (Some t) else search address_of source ts)"

definition discover_indices ::
  "'pt crypto \<Rightarrow> 'pt wallet_crates \<Rightarrow> hex_crate \<Rightarrow> (bytes \<Rightarrow> bytes) \<Rightarrow> bytes \<Rightarrow> bytes \<Rightarrow> u32 \<Rightarrow> multisig_error + u32 \<times> u32 \<times> u32" where
  "discover_indices cr wc hx b2b descriptor source_address addr_index =
     (let desc = strip_header descriptor;
          address_of = (\<lambda>(i, c, ch). multisig_address_at cr wc hx b2b desc i c ch)
      in if starts_with desc HD45_PREFIX
         then (let n_cosigners = max (count_list desc (of_char CHR '','')) 1
               in tryR (search address_of source_address
                    (concat (map (\<lambda>cos. concat (map (\<lambda>chain. map (\<lambda>try_idx. (of_nat try_idx, of_nat cos, of_nat chain)) [0..<100]) [0..<2])) [0..<n_cosigners])))
                  (\<lambda>r. case r of None \<Rightarrow> Inl SourceNotFound | Some t \<Rightarrow> Inr t))
         else if starts_with desc HD_PREFIX
         then tryR (search address_of source_address (map (\<lambda>try_idx. (of_nat try_idx, 0, 0)) [0..<100]))
                (\<lambda>r. case r of None \<Rightarrow> Inl SourceNotFound | Some t \<Rightarrow> Inr t)
         else Inr (addr_index, 0, 0))"

section \<open>A payment\<close>

definition serialize_kspt_multisig ::
  "hex_crate \<Rightarrow> companion_utxo list \<Rightarrow> (u64 \<times> bytes) list \<Rightarrow> bytes \<Rightarrow> u8 \<Rightarrow> companion_error + bytes" where
  "serialize_kspt_multisig hx selected outs redeem_script sig_op_count =
     tryR (mapR (utxo_bytes hx sig_op_count) selected) (\<lambda>ins.
       Inr (hx_encode hx (unsigned_header 0x02 (length selected) (length outs) @
              concat (map (\<lambda>i. i @ [of_nat (length redeem_script)] @ redeem_script) ins) @ concat (map output_bytes outs))))"

definition multisig_change ::
  "'pt crypto \<Rightarrow> 'pt wallet_crates \<Rightarrow> hex_crate \<Rightarrow> (bytes \<Rightarrow> bytes) \<Rightarrow> bytes \<Rightarrow> bytes \<Rightarrow> bytes \<Rightarrow> u32 \<Rightarrow> u32 \<Rightarrow> multisig_error + bytes" where
  "multisig_change cr wc hx b2b descriptor source_address change_address final_index final_cosigner =
     (if starts_with (strip_header descriptor) HD45_PREFIX
      then tryR (multisig_address_at cr wc hx b2b descriptor final_index final_cosigner 1) (\<lambda>caddr. lift Payment (script_for caddr))
      else if change_address \<noteq> source_address then Inl ChangeElsewhere
      else lift Payment (script_for change_address))"

definition create_multisig_kspt ::
  "'pt crypto \<Rightarrow> 'pt wallet_crates \<Rightarrow> hex_crate \<Rightarrow> (bytes \<Rightarrow> bytes) \<Rightarrow> multisig_error + companion_utxo list \<Rightarrow> bytes \<Rightarrow> bytes \<Rightarrow>
   bytes \<Rightarrow> u64 \<Rightarrow> u64 \<Rightarrow> bytes \<Rightarrow> u32 \<Rightarrow> multisig_error + bytes" where
  "create_multisig_kspt cr wc hx b2b fetched descriptor source_address dest_address amount_sompi network_fee change_address addr_index =
     tryR (discover_indices cr wc hx b2b descriptor source_address addr_index) (\<lambda>(final_index, final_cosigner, final_chain).
     tryR (redeem_script_at cr wc hx descriptor final_index final_cosigner final_chain) (\<lambda>(redeem_script, n_keys).
     tryR (lift Payment (script_for dest_address)) (\<lambda>dest_script.
     tryR fetched (\<lambda>utxos.
       if utxos = [] then Inl NoMultisigCoins
       else tryR (lift Payment (checked (checked_add amount_sompi network_fee) Inr)) (\<lambda>total_needed.
            tryR (lift Payment (take_coins utxos total_needed)) (\<lambda>(selected, selected_total).
              if 3 < length selected then Inl (TooManyCoins (length selected))
              else (let final_change = absorb_dust (selected_total - amount_sompi - network_fee)
                    in tryR (if final_change > 0
                             then tryR (multisig_change cr wc hx b2b descriptor source_address change_address final_index final_cosigner)
                                    (\<lambda>s. Inr [(final_change, s)])
                             else Inr [])
                       (\<lambda>change. lift Payment (serialize_kspt_multisig hx selected ((amount_sompi, dest_script) # change)
                                   redeem_script (of_nat n_keys)))))))))) "


section \<open>Reading a text\<close>

lemma split_on_plain: "c \<notin> set e \<Longrightarrow> split_on c e = [e]"
  by (induction e) auto

lemma split_on_parts: "c \<notin> set e \<Longrightarrow> \<forall>p \<in> set es. c \<notin> set p \<Longrightarrow> split_on c (e @ concat (map ((#) c) es)) = e # es"
proof (induction es arbitrary: e)
  case (Cons e' es)
  have front: "c \<notin> set e \<Longrightarrow> split_on c (e @ [c] @ x) = e # split_on c x" for e x
    by (induction e) auto
  show ?case using Cons front [of e "e' @ concat (map ((#) c) es)"] by simp
qed (simp add: split_on_plain)

lemma trim_plain: "\<forall>b \<in> set s. \<not> is_white b \<Longrightarrow> trim s = s"
proof -
  assume s: "\<forall>b \<in> set s. \<not> is_white b"
  have keep: "\<forall>b \<in> set t. \<not> is_white b \<Longrightarrow> dropWhile is_white t = t" for t by (cases t) auto
  show ?thesis using keep [of s] keep [of "rev s"] s by (simp add: trim_def)
qed

lemma trim_text:
  assumes "\<not> is_white a" "\<not> is_white b" "\<forall>x \<in> set ws. is_white x"
  shows "trim (a # xs @ [b] @ ws) = a # xs @ [b]"
proof -
  have "dropWhile is_white (rev ws @ b # rev xs @ [a]) = b # rev xs @ [a]"
    using assms(2,3) by (simp add: dropWhile_append)
  then show ?thesis using assms(1) by (simp add: trim_def)
qed

lemma is_space_white: "is_space b \<Longrightarrow> is_white b"
  by (auto simp: is_space_def is_white_def)

definition plain :: "u8 \<Rightarrow> bool" where
  "plain b \<longleftrightarrow> \<not> is_white b \<and> b \<noteq> of_char CHR '',''"

lemma plain_digits: "list_all plain BASE58_ALPHABET" "list_all plain HEX"
  by (simp_all add: ALPHABET_list HEX_def plain_def is_white_def word_le_nat_alt)

lemma plain_hex: "set (hex_text bs) \<subseteq> set HEX"
proof -
  have "length HEX = 16" by (simp add: HEX_def)
  then show ?thesis using nibbles(1,2) by (auto simp: hex_text_def)
qed

lemma map_option_as_bind: "map_option f x = Option.bind x (\<lambda>y. Some (f y))"
  by (cases x) simp_all

lemma plain_entries:
  assumes "wallet_config cfg" "\<forall>x. length (sha256 x) = (32 :: nat)" "e \<in> set (entry_texts sha256 cfg)"
  shows "\<forall>b \<in> set e. plain b"
proof (cases "mc_v45 cfg")
  case True
  then obtain i where i: "i < unat (mc_n cfg)" "e = serialize_kpub_parts sha256 (config_parts cfg i)" "kpub_ok (config_parts cfg i)"
    using assms(1,3) by (auto simp: entry_texts_def wallet_config_def)
  obtain z ds where "e = replicate z (of_char CHR ''1'') @ map ((!) BASE58_ALPHABET) ds" "\<forall>d \<in> set ds. d < 58"
    using kpub_text(1) [OF assms(2) i(3)] unfolding text_of_def i(2) by blast
  moreover have "(of_char CHR ''1'' :: u8) \<in> set BASE58_ALPHABET" by (simp add: ALPHABET_list)
  ultimately have "set e \<subseteq> set BASE58_ALPHABET" by auto
  then show ?thesis using plain_digits(1) by (auto simp: list_all_iff)
next
  case False
  have "set e \<subseteq> set HEX" using plain_hex assms(3) False by (auto simp: entry_texts_def subset_iff)
  then show ?thesis using plain_digits(2) by (auto simp: list_all_iff)
qed

lemma strip_comments_plain: "s = [] \<or> hd s \<noteq> of_char CHR ''#'' \<Longrightarrow> strip_comments s = s"
  by (subst strip_comments.simps) auto

definition own_prefix :: "multisig_config \<Rightarrow> bytes" where
  "own_prefix cfg = (if mc_v45 cfg then HD45_PREFIX else HD_PREFIX)"

lemma digit_value:
  assumes "d \<le> 9"
  shows "unat (of_char CHR ''0'' + d) = 48 + unat d" "plain (of_char CHR ''0'' + d)" "threshold [of_char CHR ''0'' + d] = Inr d"
proof -
  have d: "unat d \<le> 9" using assms by (simp add: word_le_nat_alt)
  then show v: "unat (of_char CHR ''0'' + d) = 48 + unat d" by (subst unat_plus_if') simp
  then have ne: "of_char CHR ''0'' + d \<noteq> of_char CHR '',''" "of_char CHR ''0'' + d \<noteq> of_char CHR ''+''" "of_char CHR ''0'' + d \<noteq> 32"
  proof -
    have "of_char CHR ''0'' + d \<noteq> x" if "unat x < 48" for x using v that by auto
    then show "of_char CHR ''0'' + d \<noteq> of_char CHR '',''" "of_char CHR ''0'' + d \<noteq> of_char CHR ''+''" "of_char CHR ''0'' + d \<noteq> 32"
      by simp_all
  qed
  have white: "\<not> is_white (of_char CHR ''0'' + d)" using v ne(3) by (auto simp: is_white_def word_le_nat_alt)
  then show "plain (of_char CHR ''0'' + d)" using ne(1) by (simp add: plain_def)
  have "trim [of_char CHR ''0'' + d] = [of_char CHR ''0'' + d]" using white by (intro trim_plain) simp
  moreover have "is_digit (of_char CHR ''0'' + d)" "dec_value [of_char CHR ''0'' + d] = unat d"
    using v d by (simp_all add: is_digit_def dec_value_def)
  moreover have "unat d < 2 ^ 8" using d by simp
  ultimately show "threshold [of_char CHR ''0'' + d] = Inr d"
    using ne(2) by (simp add: threshold_def parse_uint_def)
qed

text \<open>What the companion makes of a descriptor that the device wrote.\<close>

lemma strip_written:
  assumes "wallet_config cfg" "\<forall>x. length (sha256 x) = (32 :: nat)" "\<forall>x \<in> set ws. is_space x"
  shows "strip_header (whole_text sha256 cfg header @ ws) = descriptor_text (own_prefix cfg) (mc_m cfg) (entry_texts sha256 cfg)"
proof -
  let ?d = "descriptor_text (own_prefix cfg) (mc_m cfg) (entry_texts sha256 cfg)"
  have white: "\<forall>x \<in> set ws. is_white x" using assms(3) is_space_white by blast
  obtain a xs where d: "?d = a # xs @ [of_char CHR '')'']" "\<not> is_white a" "a \<noteq> of_char CHR ''#''"
    by (cases "mc_v45 cfg") (simp_all add: descriptor_text_def own_prefix_def HD45_PREFIX_def HD_PREFIX_def is_white_def word_le_nat_alt)
  have paren: "\<not> is_white (of_char CHR '')'')" by (simp add: is_white_def word_le_nat_alt)
  have trims: "trim (?d @ ws) = ?d" "trim ?d = ?d"
    using trim_text [OF d(2) paren white, of xs] trim_text [OF d(2) paren, of "[]" xs] by (simp_all add: d(1))
  have stays: "strip_comments ?d = ?d" using d by (intro strip_comments_plain) simp
  show ?thesis
  proof (cases "mc_v45 cfg \<and> header")
    case False
    then have "whole_text sha256 cfg header = ?d" by (auto simp: whole_text_def own_prefix_def)
    then show ?thesis using trims stays by (simp add: strip_header_def)
  next
    case True
    obtain line where h: "header_text cfg = of_char CHR ''#'' # line @ [10]" "10 \<notin> set line"
      using header_text_line [OF assms(1)] by blast
    have t: "whole_text sha256 cfg header @ ws = of_char CHR ''#'' # (line @ [10] @ a # xs) @ [of_char CHR '')''] @ ws"
      using True d(1) h(1) by (simp add: whole_text_def own_prefix_def)
    have "trim (whole_text sha256 cfg header @ ws) = of_char CHR ''#'' # (line @ [10] @ a # xs) @ [of_char CHR '')'']"
      unfolding t by (rule trim_text [OF _ paren white]) (simp add: is_white_def word_le_nat_alt)
    also have "\<dots> = header_text cfg @ ?d" by (simp add: h(1) d(1))
    finally have trimmed: "trim (whole_text sha256 cfg header @ ws) = header_text cfg @ ?d" .
    have "dropWhile (\<lambda>b. b \<noteq> 10) (header_text cfg @ ?d) = 10 # ?d"
      using h(2) by (simp add: h(1) dropWhile_append)
    moreover have "dropWhile is_white ?d = ?d" using d(1,2) by simp
    ultimately have "strip_comments (header_text cfg @ ?d) = strip_comments ?d"
      by (subst strip_comments.simps) (simp add: h(1))
    then show ?thesis using trims stays by (simp add: strip_header_def trimmed)
  qed
qed

lemma parts_written:
  assumes "wallet_config cfg" "\<forall>x. length (sha256 x) = (32 :: nat)"
  shows "descriptor_parts (own_prefix cfg) (descriptor_text (own_prefix cfg) (mc_m cfg) (entry_texts sha256 cfg)) =
    [of_char CHR ''0'' + mc_m cfg] # entry_texts sha256 cfg"
proof -
  have "mc_m cfg \<le> 9" using wallet_configD(6,7) [OF assms(1)] by (simp add: word_le_nat_alt)
  then have m: "of_char CHR '','' \<notin> set [of_char CHR ''0'' + mc_m cfg]" using digit_value(2) by (auto simp: plain_def)
  have "\<forall>e \<in> set (entry_texts sha256 cfg). of_char CHR '','' \<notin> set e"
    using plain_entries [OF assms] by (auto simp: plain_def)
  then show ?thesis using split_on_parts [OF m] by (simp add: descriptor_parts_def descriptor_text_def)
qed

lemma trim_written:
  assumes "wallet_config cfg" "\<forall>x. length (sha256 x) = (32 :: nat)"
  shows "map trim (entry_texts sha256 cfg) = entry_texts sha256 cfg"
  by (rule map_idI, rule trim_plain) (use plain_entries [OF assms] in \<open>simp add: plain_def\<close>)

lemma threshold_written: "wallet_config cfg \<Longrightarrow> threshold [of_char CHR ''0'' + mc_m cfg] = Inr (mc_m cfg)"
  using wallet_configD(6,7) [of cfg] by (intro digit_value(3)) (simp add: word_le_nat_alt)

lemma parse_written:
  assumes "wallet_config cfg" "\<forall>x. length (sha256 x) = (32 :: nat)" "\<forall>x \<in> set ws. is_space x"
  shows "mc_v45 cfg \<Longrightarrow> parse_descriptor_at cr wc hx (whole_text sha256 cfg header @ ws) i c ch =
      tryR (mapR (cosigner_key_45 cr wc c ch i) (map (serialize_kpub_parts sha256)
        (sort_key kpub_entry (map (config_parts cfg) [0..<unat (mc_n cfg)])))) (with_threshold (mc_m cfg))"
    "\<not> mc_v45 cfg \<Longrightarrow> mc_n cfg \<noteq> 1 \<Longrightarrow> parse_descriptor_at cr wc hx (whole_text sha256 cfg header @ ws) i c ch =
      tryR (mapR (cosigner_key_44 cr wc hx i) (entry_texts sha256 cfg)) (\<lambda>pubkeys.
        tryR (with_threshold (mc_m cfg) pubkeys) (\<lambda>(m, pubkeys). Inr (m, sort pubkeys)))"
proof -
  note w = wallet_configD [OF assms(1)]
  let ?d = "descriptor_text (own_prefix cfg) (mc_m cfg) (entry_texts sha256 cfg)"
  have paren: "ends_with_paren ?d" by (simp add: ends_with_paren_def descriptor_text_def)
  have n: "length (entry_texts sha256 cfg) = unat (mc_n cfg)" by (simp add: entry_texts_def)
  {
    assume v: "mc_v45 cfg"
    let ?ps = "map (config_parts cfg) [0..<unat (mc_n cfg)]"
    have pre: "starts_with ?d HD45_PREFIX" using v by (simp add: starts_with_def descriptor_text_def own_prefix_def)
    have ps: "\<forall>p \<in> set ?ps. kpub_ok p" "distinct (map kpub_entry ?ps)"
      using assms(1) v by (auto simp: wallet_config_def config_parts_entry comp_def cosigners_def)
    have es: "entry_texts sha256 cfg = map (serialize_kpub_parts sha256) ?ps" using v by (simp add: entry_texts_def)
    note srt = kpub_texts_sort [OF assms(2) ps(1)]
    have "list_ex (\<lambda>k. sort (entry_texts sha256 cfg) ! (k - 1) = sort (entry_texts sha256 cfg) ! k)
        [1..<length (sort (entry_texts sha256 cfg))] \<longleftrightarrow> \<not> distinct (sort (entry_texts sha256 cfg))"
      by (rule adjacent_repeats) simp
    then have dup: "\<not> list_ex (\<lambda>k. sort (entry_texts sha256 cfg) ! (k - 1) = sort (entry_texts sha256 cfg) ! k)
        [1..<length (sort (entry_texts sha256 cfg))]"
      using srt(2) [OF ps(2)] es by simp
    have tail: "drop 1 (x # xs) = xs" for x :: bytes and xs by simp
    have "parse_descriptor_at cr wc hx (whole_text sha256 cfg header @ ws) i c ch =
        tryR (mapR (cosigner_key_45 cr wc c ch i) (sort (entry_texts sha256 cfg))) (with_threshold (mc_m cfg))"
      unfolding parse_descriptor_at_def strip_written [OF assms] Let_def
      using pre paren v parts_written [OF assms(1,2)] trim_written [OF assms(1,2)] threshold_written [OF assms(1)] n w dup tail
      by (simp add: own_prefix_def del: One_nat_def)
    then show "parse_descriptor_at cr wc hx (whole_text sha256 cfg header @ ws) i c ch =
        tryR (mapR (cosigner_key_45 cr wc c ch i) (map (serialize_kpub_parts sha256) (sort_key kpub_entry ?ps))) (with_threshold (mc_m cfg))"
      using srt(1) es by simp
  }
  assume v: "\<not> mc_v45 cfg" and two: "mc_n cfg \<noteq> 1"
  have pre: "\<not> starts_with ?d HD45_PREFIX" "starts_with ?d HD_PREFIX"
    using v by (simp_all add: starts_with_def descriptor_text_def own_prefix_def HD45_PREFIX_def HD_PREFIX_def)
  have "unat (mc_n cfg) \<noteq> unat (1 :: u8)" using two by (metis word_unat_eq_iff)
  then have "2 \<le> unat (mc_n cfg)" using w(5,6) by simp
  then show "parse_descriptor_at cr wc hx (whole_text sha256 cfg header @ ws) i c ch =
      tryR (mapR (cosigner_key_44 cr wc hx i) (entry_texts sha256 cfg)) (\<lambda>pubkeys.
        tryR (with_threshold (mc_m cfg) pubkeys) (\<lambda>(m, pubkeys). Inr (m, sort pubkeys)))"
    unfolding parse_descriptor_at_def strip_written [OF assms] Let_def
    using pre paren v parts_written [OF assms(1,2)] threshold_written [OF assms(1)] n
    by (simp add: own_prefix_def)
qed

section \<open>The keys and the script\<close>

lemma ok_value_lift [simp]: "ok_value (lift e r) = ok_value r"
  by (cases r) (simp_all add: lift_def)

lemma ok_value_mapR: "ok_value (mapR f xs) = those (map (\<lambda>x. ok_value (f x)) xs)"
proof (induction xs)
  case (Cons x xs)
  then show ?case by (cases "ok_value (f x)"; cases "those (map (\<lambda>x. ok_value (f x)) xs)") (simp_all add: ok_value_tryR)
qed simp

text \<open>An account key that is a multiple of the generator, as every public key is.\<close>

lemma key_45:
  assumes "crypto_ok cr" "multiples_ok cr mul" "crates_ok cr sha256 wc" "\<forall>x. length (sha256 x) = (32 :: nat)"
    and "kpub_ok p" "kp_depth p = 3" "kp_pubkey p = cr_encode cr (mul x)" "x mod secp_order \<noteq> 0"
  shows "ok_value (cosigner_key_45 cr wc c ch i (serialize_kpub_parts sha256 p)) = key_at cr [c, ch, i] (kp_pubkey p, kp_chain_code p)"
proof -
  obtain k where k: "from_raw_payload wc (kpub_payload p) = Inr k"
    "linked cr mul k \<lparr>xp_pubkey = kp_pubkey p, xp_chain = kp_chain_code p, xp_depth = kp_depth p\<rparr>"
    by (rule from_raw_linked [OF assms(2,3,5,7,8)])
  have d: "ek_depth k = 3" using k(2) assms(6) by (auto simp: linked_def)
  have "ok_value (cosigner_key_45 cr wc c ch i (serialize_kpub_parts sha256 p)) = map_option (x_only_bytes cr) (ok_value (ext_path cr wc k [c, ch, i]))"
    using from_kpub_text(1) [OF assms(4,3,5)] k(1) d
    by (simp add: cosigner_key_45_def lift_def [of BadCosigner] child_at_def ok_value_tryR map_option_bind map_option_as_bind)
  also have "\<dots> = key_at cr [c, ch, i] (kp_pubkey p, kp_chain_code p)"
    using ext_path_key [OF assms(1-3) k(2), of "[c, ch, i]"] assms(6) by simp
  finally show ?thesis .
qed

lemma key_44:
  assumes "crypto_ok cr" "multiples_ok cr mul" "crates_ok cr sha256 wc" "hex_ok hx"
    and "length cc = 32" "pk = cr_encode cr (mul x)" "x mod secp_order \<noteq> 0"
  shows "ok_value (cosigner_key_44 cr wc hx i (hex_text pk @ hex_text cc)) = key_at cr [0, i] (pk, cc)"
proof -
  have len: "length pk = 33" using assms(2,6,7) by (simp add: multiples_ok_def)
  have t: "hex_text pk @ hex_text cc = hex_text (pk @ cc)" by (simp add: hex_text_def)
  have "trim (hex_text (pk @ cc)) = hex_text (pk @ cc)"
    using plain_hex plain_digits(2) by (intro trim_plain) (auto simp: list_all_iff plain_def subset_iff)
  moreover have "hx_decode hx (hex_text (pk @ cc)) = Some (pk @ cc)" using assms(4) by (simp add: hex_ok_def)
  moreover have "wc_from_sec1 wc pk = Some (mul x)"
    using mul_link [OF assms(2,7)] by (simp add: crates_okD(4) [OF assms(3)] assms(6))
  ultimately have "ok_value (cosigner_key_44 cr wc hx i (hex_text pk @ hex_text cc)) =
      map_option (x_only_bytes cr) (ok_value (ext_path cr wc \<lparr>ek_key = mul x, ek_chain_code = cc, ek_depth = 3\<rparr> [0, i]))"
    using len assms(5)
    by (simp add: cosigner_key_44_def t child_at_def ok_value_tryR map_option_bind map_option_as_bind slice_def)
  also have "\<dots> = key_at cr [0, i] (pk, cc)"
  proof -
    have "linked cr mul \<lparr>ek_key = mul x, ek_chain_code = cc, ek_depth = 3\<rparr> \<lparr>xp_pubkey = pk, xp_chain = cc, xp_depth = 3\<rparr>"
      using assms(6,7) by (auto simp: linked_def)
    from ext_path_key [OF assms(1-3) this, of "[0, i]"] show ?thesis by simp
  qed
  finally show ?thesis .
qed

lemma build_redeem_script_multisig:
  assumes "length keys \<le> 5" "unat m \<le> 5"
  shows "build_redeem_script m keys = Some (multisig_script (unat m) keys)"
proof -
  have "unat (of_nat (length keys) :: u8) = length keys" using assms(1) by (simp add: unat_of_nat)
  then show ?thesis
    using assms by (simp add: build_redeem_script_def multisig_script_def opcodes Let_def fun_eq_iff cong: map_cong)
qed

definition keys_on_curve :: "'pt crypto \<Rightarrow> (nat \<Rightarrow> 'pt) \<Rightarrow> multisig_config \<Rightarrow> bool" where
  "keys_on_curve cr mul cfg \<longleftrightarrow>
     (\<forall>k < unat (mc_n cfg). \<exists>x. x mod secp_order \<noteq> 0 \<and> mc_pubkeys cfg ! k = cr_encode cr (mul x))"

lemma with_threshold_written:
  assumes "wallet_config cfg" "length keys = unat (mc_n cfg)"
  shows "with_threshold (mc_m cfg) keys = Inr (mc_m cfg, keys)" "build_redeem_script (mc_m cfg) keys = Some (multisig_script (unat (mc_m cfg)) keys)"
  using wallet_configD [OF assms(1)] assms(2) by (simp_all add: with_threshold_def build_redeem_script_multisig)

lemma ok_value_Some: "ok_value r = Some x \<Longrightarrow> r = Inr x"
  by (cases r) simp_all

lemma script_written:
  assumes "crypto_ok cr" "multiples_ok cr mul" "crates_ok cr sha256 wc" "hex_ok hx"
    and cfg: "wallet_config cfg" "\<forall>x. length (sha256 x) = (32 :: nat)" "\<forall>x \<in> set ws. is_space x"
    and curve: "keys_on_curve cr mul cfg" and two: "mc_v45 cfg \<or> mc_n cfg \<noteq> 1"
    and script: "address_script cr (at_path (sort_cosigners cfg) cosigner chain idx) = Some script"
  shows "redeem_script_at cr wc hx (whole_text sha256 cfg header @ ws) idx (ucast cosigner) (ucast chain) = Inr (script, unat (mc_n cfg))"
proof -
  note w = wallet_configD [OF cfg(1)]
  let ?sorted = "at_path (sort_cosigners cfg) cosigner chain idx"
  have wf: "wf_config ?sorted" using sort_cosigners_sorts [OF w(1)] by simp
  have "address_spec cr ?sorted = Some script" using script wf by (simp add: address_script_spec)
  then obtain keys where keys: "keys_at cr ?sorted (address_path ?sorted) = Some keys"
    and s: "script = multisig_script (unat (mc_m cfg)) (if mc_v45 cfg then keys else sort keys)"
    by (auto simp: address_spec_def bind_eq_Some_conv sort_cosigners_simps split: if_splits)
  have n: "length keys = unat (mc_n cfg)"
    using keys_at_length(1) [OF keys address_path_nonempty(1)] by (simp add: sort_cosigners_simps)
  show ?thesis
  proof (cases "mc_v45 cfg")
    case True
    let ?path = "[ucast cosigner, ucast chain, idx]"
    let ?ps = "sort_key kpub_entry (map (config_parts cfg) [0..<unat (mc_n cfg)])"
    have path: "address_path ?sorted = ?path" using True by (simp add: address_path_def sort_cosigners_simps)
    have "cosigners ?sorted = sort (cosigners cfg)" using sort_cosigners_sorts [OF w(1)] True by simp
    then have entries: "cosigners ?sorted = map kpub_entry ?ps"
      by (simp add: map_sort_key comp_def config_parts_entry cosigners_def [of cfg])
    have each: "key_at cr ?path (drop 41 (kpub_entry p), slice 9 32 (kpub_entry p)) =
        ok_value (cosigner_key_45 cr wc (ucast cosigner) (ucast chain) idx (serialize_kpub_parts sha256 p))" if "p \<in> set ?ps" for p
    proof -
      obtain k where k: "k < unat (mc_n cfg)" "p = config_parts cfg k" using \<open>p \<in> set ?ps\<close> by auto
      then have p: "kpub_ok p" "kp_depth p = 3" using cfg(1) True by (auto simp: wallet_config_def) (simp add: config_parts_def)
      obtain x where x: "x mod secp_order \<noteq> 0" "kp_pubkey p = cr_encode cr (mul x)"
        using curve k by (auto simp: keys_on_curve_def config_parts_def)
      have "drop 41 (kpub_entry p) = kp_pubkey p" "slice 9 32 (kpub_entry p) = kp_chain_code p"
        using p(1) by (simp_all add: kpub_entry_def kpub_ok_def slice_def)
      then show ?thesis using key_45 [OF assms(1-3) cfg(2) p x(2,1)] by simp
    qed
    have "those (map (\<lambda>p. ok_value (cosigner_key_45 cr wc (ucast cosigner) (ucast chain) idx (serialize_kpub_parts sha256 p))) ?ps) =
        those (map (\<lambda>p. key_at cr ?path (drop 41 (kpub_entry p), slice 9 32 (kpub_entry p))) ?ps)"
      by (intro arg_cong [where f = those] map_cong refl) (simp add: each)
    also have "\<dots> = Some keys"
      using keys unfolding path keys_at_cosigners [OF wf] entries by (simp add: comp_def)
    finally have "ok_value (mapR (cosigner_key_45 cr wc (ucast cosigner) (ucast chain) idx) (map (serialize_kpub_parts sha256) ?ps)) = Some keys"
      unfolding ok_value_mapR by (simp add: comp_def)
    then have "mapR (cosigner_key_45 cr wc (ucast cosigner) (ucast chain) idx) (map (serialize_kpub_parts sha256) ?ps) = Inr keys"
      by (rule ok_value_Some)
    then show ?thesis
      using with_threshold_written [OF cfg(1) n] True s n
      by (simp add: redeem_script_at_def parse_written(1) [OF cfg True])
  next
    case False
    have same: "sort_cosigners cfg = cfg" using False by (simp add: sort_cosigners_def)
    have path: "address_path ?sorted = [0, idx]" using False by (simp add: address_path_def sort_cosigners_simps)
    have each: "key_at cr [0, idx] (mc_pubkeys cfg ! k, mc_chain_codes cfg ! k) =
        ok_value (cosigner_key_44 cr wc hx idx (hex_text (mc_pubkeys cfg ! k) @ hex_text (mc_chain_codes cfg ! k)))"
      if "k < unat (mc_n cfg)" for k
    proof -
      obtain x where x: "mc_pubkeys cfg ! k = cr_encode cr (mul x)" "x mod secp_order \<noteq> 0" using curve \<open>k < _\<close> by (auto simp: keys_on_curve_def)
      have "length (mc_chain_codes cfg ! k) = 32" using w(1) that by (simp add: wf_config_def)
      then show ?thesis using key_44 [OF assms(1-4) _ x] by simp
    qed
    have "those (map (\<lambda>k. ok_value (cosigner_key_44 cr wc hx idx (hex_text (mc_pubkeys cfg ! k) @ hex_text (mc_chain_codes cfg ! k)))) [0..<unat (mc_n cfg)]) =
        those (map (\<lambda>k. key_at cr [0, idx] (mc_pubkeys cfg ! k, mc_chain_codes cfg ! k)) [0..<unat (mc_n cfg)])"
      by (intro arg_cong [where f = those] map_cong refl) (simp add: each)
    also have "\<dots> = Some keys" using keys unfolding path unfolding same by (simp add: keys_at_def)
    finally have "ok_value (mapR (cosigner_key_44 cr wc hx idx) (entry_texts sha256 cfg)) = Some keys"
      unfolding ok_value_mapR using False by (simp add: comp_def entry_texts_def)
    then have "mapR (cosigner_key_44 cr wc hx idx) (entry_texts sha256 cfg) = Inr keys" by (rule ok_value_Some)
    moreover have "length (sort keys) = unat (mc_n cfg)" using n by simp
    ultimately show ?thesis
      using with_threshold_written(1) [OF cfg(1) n] with_threshold_written(2) [OF cfg(1), of "sort keys"] False s two
      by (simp add: redeem_script_at_def parse_written(2) [OF cfg False])
  qed
qed

section \<open>Finding an address\<close>

lemma search_found: "search f source ts = Inr (Some t) \<Longrightarrow> t \<in> set ts \<and> f t = Inr source"
  by (induction ts) (auto simp: tryR_eq_Inr split: if_splits)

lemma strip_comments_result: "strip_comments s = [] \<or> hd (strip_comments s) \<noteq> of_char CHR ''#''"
proof (induction s rule: strip_comments.induct)
  case (1 s)
  then show ?case by (subst (1 2) strip_comments.simps) auto
qed

definition tight :: "bytes \<Rightarrow> bool" where
  "tight s \<longleftrightarrow> s = [] \<or> \<not> is_white (hd s) \<and> \<not> is_white (last s)"

lemma tight_trim: "tight (trim s)" "tight s \<Longrightarrow> trim s = s"
proof -
  define t where "t = dropWhile is_white s"
  have t: "t = [] \<or> \<not> is_white (hd t)" using hd_dropWhile [of is_white s] by (auto simp: t_def)
  define u where "u = dropWhile is_white (rev t)"
  have u: "u = [] \<or> \<not> is_white (hd u)" using hd_dropWhile [of is_white "rev t"] by (auto simp: u_def)
  have "\<not> is_white (last u)" if "u \<noteq> []"
  proof -
    obtain v where "rev t = v @ u" using takeWhile_dropWhile_id [of is_white "rev t"] by (metis u_def)
    then have "last (rev t) = last u" "rev t \<noteq> []" using that by auto
    then show ?thesis using t by (auto simp: last_rev)
  qed
  then show "tight (trim s)" using u by (auto simp: tight_def trim_def hd_rev last_rev simp flip: t_def u_def)
  have keep: "v \<noteq> [] \<Longrightarrow> \<not> is_white (hd v) \<Longrightarrow> dropWhile is_white v = v" for v by (cases v) simp_all
  show "tight s \<Longrightarrow> trim s = s"
  proof (cases "s = []")
    case False
    assume "tight s"
    then have "dropWhile is_white s = s" "dropWhile is_white (rev s) = rev s"
      using False keep [of s] keep [of "rev s"] by (simp_all add: tight_def hd_rev)
    then show ?thesis by (simp only: trim_def rev_rev_ident)
  qed (simp add: trim_def)
qed

lemma tight_tl_dropWhile:
  assumes "tight s" shows "tight (dropWhile is_white (tl (dropWhile P s)))"
proof -
  let ?r = "dropWhile is_white (tl (dropWhile P s))"
  have "\<exists>pre. s = pre @ ?r"
  proof -
    obtain p1 where "s = p1 @ dropWhile P s" using takeWhile_dropWhile_id by metis
    moreover obtain p2 where "dropWhile P s = p2 @ tl (dropWhile P s)" by (cases "dropWhile P s") auto
    moreover obtain p3 where "tl (dropWhile P s) = p3 @ ?r" using takeWhile_dropWhile_id by metis
    ultimately show ?thesis by (metis append_assoc)
  qed
  then have "?r \<noteq> [] \<Longrightarrow> s \<noteq> [] \<and> last s = last ?r" by (metis append_is_Nil_conv last_appendR)
  moreover have "?r \<noteq> [] \<Longrightarrow> \<not> is_white (hd ?r)" by (rule hd_dropWhile)
  ultimately show ?thesis using assms unfolding tight_def by metis
qed

lemma tight_strip_comments: "tight s \<Longrightarrow> tight (strip_comments s)"
proof (induction s rule: strip_comments.induct)
  case (1 s)
  then show ?case using tight_tl_dropWhile [of s] by (subst strip_comments.simps) (auto simp: tight_def)
qed

lemma strip_header_twice: "strip_header (strip_header s) = strip_header s"
proof -
  let ?c = "strip_comments (trim s)"
  have "tight ?c" by (rule tight_strip_comments [OF tight_trim(1)])
  then have "strip_header s = ?c" "trim ?c = ?c" using tight_trim(2) by (simp_all add: strip_header_def)
  moreover have "strip_comments ?c = ?c" by (rule strip_comments_plain [OF strip_comments_result])
  ultimately show ?thesis by (simp add: strip_header_def [of ?c])
qed

lemma redeem_script_at_stripped: "redeem_script_at cr wc hx (strip_header d) = redeem_script_at cr wc hx d"
  by (simp add: fun_eq_iff redeem_script_at_def parse_descriptor_at_def strip_header_twice)

lemma discover_finds:
  assumes "discover_indices cr wc hx b2b descriptor source idx0 = Inr (i, c, ch)"
    and "starts_with (strip_header descriptor) HD45_PREFIX \<or> starts_with (strip_header descriptor) HD_PREFIX"
  shows "multisig_address_at cr wc hx b2b descriptor i c ch = Inr source"
proof -
  have "multisig_address_at cr wc hx b2b (strip_header descriptor) = multisig_address_at cr wc hx b2b descriptor"
    by (simp add: fun_eq_iff multisig_address_at_def redeem_script_at_stripped)
  then show ?thesis
    using assms by (auto simp: discover_indices_def Let_def tryR_eq_Inr split: if_splits option.splits dest!: search_found)
qed

section \<open>A payment reaches the device\<close>

lemma serialize_multisig_reaches_device:
  assumes "serialize_kspt_multisig hx sel outs redeem op = Inr t"
    and n: "0 < length sel" "length sel \<le> MAX_INPUTS" "0 < length outs" "length outs \<le> MAX_OUTPUTS"
    and sel: "\<forall>u \<in> set sel. length (cu_spk u) \<le> 254 \<and> cu_amount u \<le> MAX_SOMPI"
    and outs: "\<forall>x \<in> set outs. length (snd x) \<le> 254" "(\<Sum>x\<leftarrow>outs. unat (fst x)) \<le> unat MAX_SOMPI"
    and short: "length redeem \<le> 255"
  obtains bs tx where "t = hx_encode hx bs" "parse_pskt bs t0 = (Inr (), tx)" "view tx = sent_view hx op sel outs"
    "\<And>i. i < length sel \<Longrightarrow> redeem_bytes tx i = redeem"
proof -
  obtain ins where ins: "mapR (utxo_bytes hx op) sel = Inr ins"
    and t: "t = hx_encode hx (unsigned_header 0x02 (length sel) (length outs) @
      concat (map (\<lambda>i. i @ [of_nat (length redeem)] @ redeem) ins) @ concat (map output_bytes outs))"
    using assms(1) by (auto simp: serialize_kspt_multisig_def tryR_eq_Inr)
  let ?ins = "map (coin_input hx op) sel" and ?outs = "map mk_output outs"
  note c = coin_inputs [OF ins sel] and o = payment_outputs [OF outs(1)]
  have wire: "kspt_body_wire FORMAT_VERSION (map_option (\<lambda>r _. r) (Some redeem)) (make_tx ?ins ?outs) =
      unsigned_header 0x02 (length sel) (length outs) @ concat (map (\<lambda>i. i @ [of_nat (length redeem)] @ redeem) ins) @
      concat (map output_bytes outs)"
    unfolding c(1) o(2) [symmetric] using make_tx_wire [of ?ins ?outs "Some redeem"] n o(1) by (simp add: comp_def)
  have len: "0 < length ?ins" "length ?ins \<le> MAX_INPUTS" "0 < length ?outs" "length ?outs \<le> MAX_OUTPUTS" using n by simp_all
  have total: "(\<Sum>x\<leftarrow>?outs. unat (out_value x)) \<le> unat MAX_SOMPI" unfolding o(4) by (rule outs(2))
  have fits: "case Some redeem of None \<Rightarrow> True | Some r \<Rightarrow> length r \<le> 255" using short by simp
  obtain tx where "parse_pskt (kspt_body_wire FORMAT_VERSION (map_option (\<lambda>r _. r) (Some redeem)) (make_tx ?ins ?outs)) t0 = (Inr (), tx)"
    "view tx = \<lparr>view_globals = (0, 0, zeros 20, 0, []), view_inputs = map input_view ?ins, view_outputs = map output_view ?outs\<rparr>"
    "\<And>r i. Some redeem = Some r \<Longrightarrow> i < length ?ins \<Longrightarrow> redeem_bytes tx i = r"
    by (rule device_reads [OF len c(2) o(1) total fits]) blast
  moreover from this(3) have "redeem_bytes tx i = redeem" if "i < length sel" for i using that by simp
  ultimately show ?thesis using t unfolding wire c(3) o(3) sent_view_def [symmetric] by (intro that)
qed

lemma lift_Inr: "lift e r = Inr x \<longleftrightarrow> r = Inr x"
  by (cases r) (simp_all add: lift_def)

text \<open>Where the change goes.\<close>

definition change_goes_back ::
  "'pt crypto \<Rightarrow> 'pt wallet_crates \<Rightarrow> hex_crate \<Rightarrow> (bytes \<Rightarrow> bytes) \<Rightarrow> bytes \<Rightarrow> bytes \<Rightarrow> u32 \<Rightarrow> u32 \<Rightarrow> (u64 \<times> bytes) list \<Rightarrow> bool" where
  "change_goes_back cr wc hx b2b descriptor source i c change \<longleftrightarrow>
     change = [] \<or> (\<exists>v s a. change = [(v, s)] \<and> script_for a = Inr s \<and>
       (if starts_with (strip_header descriptor) HD45_PREFIX then multisig_address_at cr wc hx b2b descriptor i c 1 = Inr a else a = source))"

lemma multisig_payment:
  assumes "create_multisig_kspt cr wc hx b2b (Inr utxos) descriptor source dest amount network_fee change_address idx0 = Inr t"
    and "discover_indices cr wc hx b2b descriptor source idx0 = Inr (i, c, ch)"
    and "redeem_script_at cr wc hx descriptor i c ch = Inr (redeem, n)"
    and "take_coins utxos (amount + network_fee) = Inr (sel, taken)"
  obtains dest_script change needed where "checked_add amount network_fee = Some needed" "script_for dest = Inr dest_script" "utxos \<noteq> []"
    "length sel \<le> 3" "change_goes_back cr wc hx b2b descriptor source i c change"
    "(\<Sum>x\<leftarrow>change. unat (fst x)) = unat (absorb_dust (taken - needed))"
    "serialize_kspt_multisig hx sel ((amount, dest_script) # change) redeem (of_nat n) = Inr t"
proof -
  obtain dest_script needed where d: "checked_add amount network_fee = Some needed" "script_for dest = Inr dest_script" "utxos \<noteq> []"
    using assms(1-3) by (auto simp: create_multisig_kspt_def tryR_eq_Inr lift_Inr checked_Inr split: if_splits)
  have needed: "needed = amount + network_fee" using d(1) by (simp add: checked_add_def split: if_splits)
  define v where "v = absorb_dust (taken - amount - network_fee)"
  have v: "v = absorb_dust (taken - needed)" by (simp add: v_def needed algebra_simps)
  obtain change where change: "(if v > 0 then tryR (multisig_change cr wc hx b2b descriptor source change_address i c) (\<lambda>s. Inr [(v, s)]) else Inr []) = Inr change"
    and len: "length sel \<le> 3" and ser: "serialize_kspt_multisig hx sel ((amount, dest_script) # change) redeem (of_nat n) = Inr t"
    using assms d(2,3)
    by (auto simp: create_multisig_kspt_def tryR_eq_Inr lift_Inr checked_def d(1) Let_def v_def needed split: if_splits)
  have "change_goes_back cr wc hx b2b descriptor source i c change" "(\<Sum>x\<leftarrow>change. unat (fst x)) = unat v"
    using change by (auto simp: change_goes_back_def multisig_change_def tryR_eq_Inr lift_Inr word_gt_0 split: if_splits)
  then show ?thesis using that d len ser unfolding v by blast
qed

lemma change_goes_back_size:
  "change_goes_back cr wc hx b2b descriptor source i c change \<Longrightarrow> length change \<le> 1 \<and> (\<forall>x \<in> set change. length (snd x) \<le> 254)"
  using script_for_length by (auto simp: change_goes_back_def)

lemma multisig_payment_reaches_device:
  assumes "create_multisig_kspt cr wc hx b2b (Inr utxos) descriptor source dest amount network_fee change_address idx0 = Inr t"
    and "discover_indices cr wc hx b2b descriptor source idx0 = Inr (i, c, ch)"
    and "redeem_script_at cr wc hx descriptor i c ch = Inr (redeem, n)" "length redeem \<le> 255"
    and "take_coins utxos (amount + network_fee) = Inr (sel, taken)" "unat taken \<le> unat MAX_SOMPI"
    and all: "\<forall>u \<in> set utxos. length (cu_spk u) \<le> 254 \<and> cu_amount u \<le> MAX_SOMPI"
  obtains bs tx dest_script change f where "t = hx_encode hx bs" "script_for dest = Inr dest_script" "length sel \<le> 3"
    "change_goes_back cr wc hx b2b descriptor source i c change" "parse_pskt bs t0 = (Inr (), tx)"
    "view tx = sent_view hx (of_nat n) sel ((amount, dest_script) # change)" "\<And>k. k < length sel \<Longrightarrow> redeem_bytes tx k = redeem"
    "fee tx = Some f" "unat network_fee \<le> unat f" "unat f \<le> unat network_fee + 9999900"
proof -
  obtain dest_script change needed where d: "checked_add amount network_fee = Some needed" "script_for dest = Inr dest_script" "utxos \<noteq> []"
    "length sel \<le> 3" "change_goes_back cr wc hx b2b descriptor source i c change"
    "(\<Sum>x\<leftarrow>change. unat (fst x)) = unat (absorb_dust (taken - needed))"
    "serialize_kspt_multisig hx sel ((amount, dest_script) # change) redeem (of_nat n) = Inr t"
    by (rule multisig_payment [OF assms(1-3,5)])
  have needed: "needed = amount + network_fee" "unat needed = unat amount + unat network_fee"
    using d(1) by (simp add: checked_add_def split: if_splits) (use d(1) in \<open>simp add: checked_add_eq\<close>)
  note k = take_coins_inside [OF assms(5) d(3), folded needed(1)]
  note f = spend_fee [OF k(3,4), of "[(amount, dest_script)]" network_fee change, OF _ d(6)]
  have le: "(\<Sum>x\<leftarrow>[(amount, dest_script)] @ change. unat (fst x)) \<le> unat taken" using needed(2) by (intro f(1)) simp
  have n: "0 < length sel" "length sel \<le> MAX_INPUTS" "0 < length ((amount, dest_script) # change)"
    "length ((amount, dest_script) # change) \<le> MAX_OUTPUTS"
    using k(1) d(4) change_goes_back_size [OF d(5)] by (simp_all add: size_limits)
  have sel: "\<forall>u \<in> set sel. length (cu_spk u) \<le> 254 \<and> cu_amount u \<le> MAX_SOMPI" using all k(2) by auto
  have outs: "\<forall>x \<in> set ((amount, dest_script) # change). length (snd x) \<le> 254"
    "(\<Sum>x\<leftarrow>(amount, dest_script) # change. unat (fst x)) \<le> unat MAX_SOMPI"
    using script_for_length [OF d(2)] change_goes_back_size [OF d(5)] le assms(6) by simp_all
  obtain bs tx where tx: "t = hx_encode hx bs" "parse_pskt bs t0 = (Inr (), tx)"
    "view tx = sent_view hx (of_nat n) sel ((amount, dest_script) # change)" "\<And>k. k < length sel \<Longrightarrow> redeem_bytes tx k = redeem"
    by (rule serialize_multisig_reaches_device [OF d(7) n sel outs assms(4)]) blast
  obtain f where "fee tx = Some f" "unat network_fee \<le> unat f" "unat f \<le> unat network_fee + 9999900"
    using f(2) [of tx hx "of_nat n"] tx(3) needed(2) by auto
  then show ?thesis using that tx d(2,4,5) by blast
qed

section \<open>Properties\<close>

definition keys_are_public :: "'pt crypto \<Rightarrow> multisig_config \<Rightarrow> bool" where
  "keys_are_public cr cfg \<longleftrightarrow> (\<forall>i < unat (mc_n cfg). \<exists>k. cr_sk_ok cr k \<and> mc_pubkeys cfg ! i = cr_pubkey cr k)"

lemma public_keys_on_curve:
  assumes "crypto_ok cr" "keys_are_public cr cfg"
  obtains mul where "multiples_ok cr mul" "keys_on_curve cr mul cfg"
proof -
  obtain mul where mul: "multiples_ok cr mul" using assms(1) by (auto simp: crypto_ok_def)
  have "\<exists>x. x mod secp_order \<noteq> 0 \<and> mc_pubkeys cfg ! i = cr_encode cr (mul x)" if "i < unat (mc_n cfg)" for i
  proof -
    obtain k where k: "cr_sk_ok cr k" "mc_pubkeys cfg ! i = cr_pubkey cr k" using assms(2) \<open>i < _\<close> by (auto simp: keys_are_public_def)
    then have "be_value k mod secp_order \<noteq> 0" using assms(1) by (simp add: crypto_ok_def)
    then show ?thesis using k mul by (auto simp: multiples_ok_def)
  qed
  then show ?thesis using that mul by (simp add: keys_on_curve_def)
qed

text \<open>
  C13: The descriptor that the device writes is read by the companion as the same wallet. For a wallet of either
  scheme whose keys are public keys (in the 44' scheme with two cosigners or more), the companion computes from
  the text the device's redeem script, and its address, at every cosigner index, chain and address index at
  which the device has one.
\<close>

theorem companion_computes_device_scripts:
  assumes "crypto_ok cr" "crates_ok cr sha256 wc" "hex_ok hx" "\<forall>x. length (sha256 x) = (32 :: nat)"
    and "wallet_config cfg" "keys_are_public cr cfg" "mc_v45 cfg \<or> mc_n cfg \<noteq> 1"
    and "(if mc_v45 cfg then MAX_DESCRIPTOR_45_LEN + (if header then 46 else 0) else MAX_DESCRIPTOR_LEN) \<le> length out"
  shows "\<exists>len out'. write_descriptor sha256 cfg out header = (len, out') \<and>
    (\<forall>cosigner chain idx script. address_script cr (at_path (sort_cosigners cfg) cosigner chain idx) = Some script \<longrightarrow>
       redeem_script_at cr wc hx (take len out') idx (ucast cosigner) (ucast chain) = Inr (script, unat (mc_n cfg)) \<and>
       multisig_address_at cr wc hx b2b (take len out') idx (ucast cosigner) (ucast chain) =
         Inr (encode_p2sh_address (b2b script) (map of_char ''kaspa'')))"
proof -
  let ?t = "whole_text sha256 cfg header"
  have fits: "length ?t \<le> length out" using whole_text_length [OF assms(5,4), of header] assms(8) by linarith
  obtain mul where mul: "multiples_ok cr mul" "keys_on_curve cr mul cfg" by (rule public_keys_on_curve [OF assms(1,6)])
  have "redeem_script_at cr wc hx ?t idx (ucast cosigner) (ucast chain) = Inr (script, unat (mc_n cfg))"
    if "address_script cr (at_path (sort_cosigners cfg) cosigner chain idx) = Some script" for cosigner chain idx script
    using script_written [OF assms(1) mul(1) assms(2,3,5,4) _ mul(2) assms(7) that, of "[]" header] by simp
  then show ?thesis
    using write_descriptor_text [OF assms(5,4) fits] fits by (auto simp: multisig_address_at_def)
qed

text \<open>A wallet of two account keys, over the integers as the curve.\<close>

definition shared_config :: multisig_config where
  "shared_config = (sample_config 2 3)\<lparr>mc_depth := [3, 3, 0, 0, 0]\<rparr>"

lemma shared_config_simps:
  "mc_v45 shared_config" "mc_n shared_config = 2" "mc_m shared_config = 2" "mc_pubkeys shared_config = mc_pubkeys (sample_config 2 3)"
  "mc_chain_codes shared_config = mc_chain_codes (sample_config 2 3)"
  by (simp_all add: shared_config_def sample_config_def)

lemma two_slots: "i < 2 \<longleftrightarrow> i = 0 \<or> i = (1 :: nat)"
  by auto

lemma sample_pub_public: "k = 2 \<or> k = 3 \<Longrightarrow> \<exists>s. cr_sk_ok sample_crypto s \<and> sample_pub k = cr_pubkey sample_crypto s"
proof -
  assume k: "k = 2 \<or> k = 3"
  then have "be_value (rev (le_bytes 32 k)) = k" by (auto simp: be_value_def le_value_le_bytes)
  then show ?thesis
    using k by (intro exI [of _ "rev (le_bytes 32 k)"]) (auto simp: sample_crypto_def sample_pub_def secp_order_def)
qed

lemma sample_pub_distinct: "sample_pub 2 \<noteq> sample_pub 3"
proof
  assume "sample_pub 2 = sample_pub 3"
  then have "le_value (le_bytes 32 2) = le_value (le_bytes 32 3)" by (simp add: sample_pub_def)
  then show False by (simp add: le_value_le_bytes)
qed

lemma shared_config_wallet: "wallet_config shared_config" "keys_are_public sample_crypto shared_config"
proof -
  have "wf_config shared_config" using sample_config_wf by (simp add: shared_config_def wf_config_def size_limits)
  moreover have "distinct (cosigners shared_config)"
    using sample_pub_distinct
    by (simp add: cosigners_def shared_config_def sample_config_def multisig_config_new_def serialized_entry_def upt_two size_limits)
  moreover have "kpub_ok (config_parts shared_config i) \<and> mc_depth shared_config ! i = 3" if "i < 2" for i
    using that unfolding two_slots
    by (auto simp: kpub_ok_def config_parts_def shared_config_def sample_config_def multisig_config_new_def size_limits sample_pub_def)
  ultimately show "wallet_config shared_config" by (simp add: wallet_config_def shared_config_simps)
  have "\<exists>s. cr_sk_ok sample_crypto s \<and> mc_pubkeys shared_config ! i = cr_pubkey sample_crypto s" if "i < 2" for i
    using that sample_pub_public [of 2] sample_pub_public [of 3] unfolding two_slots
    by (auto simp: shared_config_simps(4) sample_config_def)
  then show "keys_are_public sample_crypto shared_config" by (simp add: keys_are_public_def shared_config_simps)
qed

lemma shared_script: "\<exists>script. address_script sample_crypto (at_path (sort_cosigners shared_config) 0 0 0) = Some script \<and> length script = 69"
proof -
  let ?a = "at_path (sort_cosigners shared_config) 0 0 0"
  have v: "mc_v45 shared_config" by (simp add: shared_config_simps)
  have wf: "wf_config shared_config" "wf_config ?a"
    using shared_config_wallet(1) sort_cosigners_sorts [of shared_config] by (simp_all add: wallet_config_def)
  obtain keys where "keys_at sample_crypto (sample_config 2 3) (address_path (sample_config 2 3)) = Some keys" "distinct keys"
    using sample_keys by blast
  moreover have "address_path (sample_config 2 3) = [0, 0, 0]" "address_path ?a = [0, 0, 0]"
    using v by (simp_all add: address_path_def sample_config_def multisig_config_new_def sort_cosigners_simps)
  moreover have "keys_at sample_crypto shared_config path = keys_at sample_crypto (sample_config 2 3) path" for path
    by (simp add: keys_at_def shared_config_simps) (simp add: sample_config_def)
  ultimately have keys: "keys_at sample_crypto shared_config (address_path ?a) = Some keys" "distinct keys" by simp_all
  have "mset (cosigners ?a) = mset (cosigners shared_config)" using sort_cosigners_sorts [OF wf(1)] v by simp
  then have "rel_option (\<lambda>as bs. mset as = mset bs) (keys_at sample_crypto ?a (address_path ?a))
      (keys_at sample_crypto shared_config (address_path ?a))"
    unfolding keys_at_cosigners [OF wf(1)] keys_at_cosigners [OF wf(2)] by (rule those_mset)
  then obtain ks where "keys_at sample_crypto ?a (address_path ?a) = Some ks" "distinct ks"
    using keys mset_eq_imp_distinct_iff by (auto simp: option_rel_Some2)
  then obtain script where s: "address_spec sample_crypto ?a = Some script"
    by (simp add: address_spec_def sort_cosigners_simps shared_config_simps)
  then have "length script = 69" using address_spec_length [OF s] by (simp add: sort_cosigners_simps shared_config_simps)
  then show ?thesis using s by (simp add: address_script_spec [OF wf(2)])
qed

lemma sample_hash: "\<forall>x. length ((\<lambda>_ :: bytes. replicate 32 (7 :: u8)) x) = (32 :: nat)"
  by simp

theorem companion_computes_device_scripts_witness:
  "\<exists>len out' script. write_descriptor (\<lambda>_. replicate 32 7) shared_config (zeros 700) True = (len, out') \<and>
     address_script sample_crypto (at_path (sort_cosigners shared_config) 0 0 0) = Some script \<and>
     redeem_script_at sample_crypto (sample_crates sample_crypto (\<lambda>_. replicate 32 7)) sample_hex (take len out') 0 0 0 = Inr (script, 2)"
proof -
  obtain script where s: "address_script sample_crypto (at_path (sort_cosigners shared_config) 0 0 0) = Some script"
    using shared_script by blast
  have "crates_ok sample_crypto (\<lambda>_. replicate 32 7) (sample_crates sample_crypto (\<lambda>_. replicate 32 7))"
    by (rule sample_crates_ok) simp
  then have "\<exists>len out'. write_descriptor (\<lambda>_. replicate 32 7) shared_config (zeros 700) True = (len, out') \<and>
    (\<forall>cosigner chain idx script. address_script sample_crypto (at_path (sort_cosigners shared_config) cosigner chain idx) = Some script \<longrightarrow>
       redeem_script_at sample_crypto (sample_crates sample_crypto (\<lambda>_. replicate 32 7)) sample_hex (take len out') idx (ucast cosigner) (ucast chain) =
         Inr (script, unat (mc_n shared_config)) \<and>
       multisig_address_at sample_crypto (sample_crates sample_crypto (\<lambda>_. replicate 32 7)) sample_hex (\<lambda>_. []) (take len out') idx (ucast cosigner) (ucast chain) =
         Inr (encode_p2sh_address [] (map of_char ''kaspa'')))"
    by (rule companion_computes_device_scripts [OF sample_crypto_ok _ sample_hex_ok sample_hash shared_config_wallet])
      (simp_all add: shared_config_simps MAX_DESCRIPTOR_45_LEN_def KPUB_STR_LEN_def size_limits)
  then show ?thesis using s by (fastforce simp: shared_config_simps)
qed

text \<open>
  C14: A multisig payment reaches the device with what it needs to sign. For every HD descriptor the companion
  finds the source address at the indices it uses; the device's parser accepts the bytes and sees at most three
  of the address's coins, each with the redeem script whose hash is the source address, the payment, and change
  only to the wallet (to the change chain in the 45' scheme, to the source address in the 44' scheme); the fee is
  the requested one plus change that is dust.
\<close>

theorem multisig_payment_carries_redeem_script:
  assumes "hex_ok hx" "starts_with (strip_header descriptor) HD45_PREFIX \<or> starts_with (strip_header descriptor) HD_PREFIX"
    and "create_multisig_kspt cr wc hx b2b (Inr utxos) descriptor source dest amount network_fee change_address idx0 = Inr t"
    and "discover_indices cr wc hx b2b descriptor source idx0 = Inr (i, c, ch)"
    and "redeem_script_at cr wc hx descriptor i c ch = Inr (redeem, n)" "length redeem \<le> 255"
    and "take_coins utxos (amount + network_fee) = Inr (sel, taken)" "taken \<le> MAX_SOMPI"
    and "\<forall>u \<in> set utxos. length (cu_spk u) \<le> 254 \<and> cu_amount u \<le> MAX_SOMPI"
  shows "encode_p2sh_address (b2b redeem) (map of_char ''kaspa'') = source \<and> length sel \<le> 3 \<and>
    (\<exists>bs tx dest_script change f. hx_decode hx t = Some bs \<and> script_for dest = Inr dest_script \<and>
       change_goes_back cr wc hx b2b descriptor source i c change \<and> parse_pskt bs t0 = (Inr (), tx) \<and>
       view tx = sent_view hx (of_nat n) sel ((amount, dest_script) # change) \<and> (\<forall>k < length sel. redeem_bytes tx k = redeem) \<and>
       fee tx = Some f \<and> unat network_fee \<le> unat f \<and> unat f \<le> unat network_fee + 9999900)"
proof -
  have source: "encode_p2sh_address (b2b redeem) (map of_char ''kaspa'') = source"
    using discover_finds [OF assms(4,2)] assms(5) by (simp add: multisig_address_at_def)
  have "unat taken \<le> unat MAX_SOMPI" using assms(8) by (simp only: word_le_nat_alt)
  then show ?thesis
  proof (rule multisig_payment_reaches_device [OF assms(3-7) _ assms(9)])
    fix bs tx dest_script change f
    assume "t = hx_encode hx bs" "script_for dest = Inr dest_script" "length sel \<le> 3" "change_goes_back cr wc hx b2b descriptor source i c change"
      "parse_pskt bs t0 = (Inr (), tx)" "view tx = sent_view hx (of_nat n) sel ((amount, dest_script) # change)"
      "\<And>k. k < length sel \<Longrightarrow> redeem_bytes tx k = redeem" "fee tx = Some f" "unat network_fee \<le> unat f" "unat f \<le> unat network_fee + 9999900"
    then show ?thesis
      using assms(1) source
      by (intro conjI exI [of _ bs] exI [of _ tx] exI [of _ dest_script] exI [of _ change] exI [of _ f]) (simp_all add: hex_ok_def)
  qed
qed

definition shared_text :: bytes where
  "shared_text = whole_text (\<lambda>_. replicate 32 7) shared_config True"

lemma shared_redeem:
  obtains script where "redeem_script_at sample_crypto (sample_crates sample_crypto (\<lambda>_. replicate 32 7)) sample_hex shared_text 0 0 0 = Inr (script, 2)"
    "length script = 69"
proof -
  obtain script where s: "address_script sample_crypto (at_path (sort_cosigners shared_config) 0 0 0) = Some script" "length script = 69"
    using shared_script by blast
  obtain mul where mul: "multiples_ok sample_crypto mul" "keys_on_curve sample_crypto mul shared_config"
    by (rule public_keys_on_curve [OF sample_crypto_ok shared_config_wallet(2)])
  have "crates_ok sample_crypto (\<lambda>_. replicate 32 7) (sample_crates sample_crypto (\<lambda>_. replicate 32 7))"
    by (rule sample_crates_ok) simp
  note r = script_written [OF sample_crypto_ok mul(1) this sample_hex_ok shared_config_wallet(1) sample_hash _ mul(2) _ s(1), of "[]" True]
  show ?thesis using r that s(2) by (simp add: shared_text_def shared_config_simps)
qed

lemma shared_prefix: "starts_with (strip_header shared_text) HD45_PREFIX"
  using strip_written [OF shared_config_wallet(1) sample_hash, of "[]" True]
  by (simp add: shared_text_def starts_with_def descriptor_text_def own_prefix_def shared_config_simps)

lemma shared_discover:
  assumes "multisig_address_at cr wc hx b2b shared_text 0 0 0 = Inr source"
  shows "discover_indices cr wc hx b2b shared_text source idx0 = Inr (0, 0, 0)"
proof -
  have first: "\<exists>ts. concat (map (\<lambda>cos. concat (map (\<lambda>chain. map (\<lambda>try_idx. (of_nat try_idx, of_nat cos, of_nat chain)) [0..<100]) [0..<2])) [0..<n]) =
      (0 :: u32, 0 :: u32, 0 :: u32) # ts" if "0 < n" for n
    using that by (simp add: upt_conv_Cons)
  have "multisig_address_at cr wc hx b2b (strip_header shared_text) 0 0 0 = Inr source"
    using assms by (simp add: multisig_address_at_def redeem_script_at_stripped)
  moreover have "0 < max (count_list (strip_header shared_text) (of_char CHR '','')) 1" by (simp only: less_max_iff_disj zero_less_one simp_thms)
  from first [OF this] obtain ts where "concat (map (\<lambda>cos. concat (map (\<lambda>chain. map (\<lambda>try_idx. (of_nat try_idx, of_nat cos, of_nat chain)) [0..<100]) [0..<2]))
      [0..<max (count_list (strip_header shared_text) (of_char CHR '','')) 1]) = (0 :: u32, 0 :: u32, 0 :: u32) # ts" by (elim exE)
  ultimately show ?thesis
    using shared_prefix by (simp only: discover_indices_def Let_def if_True search.simps prod.case tryR_simps option.case simp_thms)
qed

lemma sample_exact: "take_coins [sample_coin 100005000] 100005000 = Inr (map sample_coin [100005000], 100005000)"
  by (simp add: take_coins_def by_amount_def sample_coin_def checked_def checked_add_def)

theorem multisig_payment_carries_redeem_script_witness:
  "\<exists>source redeem t bs tx. create_multisig_kspt sample_crypto (sample_crates sample_crypto (\<lambda>_. replicate 32 7)) sample_hex (\<lambda>_. replicate 32 5)
       (Inr [sample_coin 100005000]) shared_text source sample_address 100000000 5000 source 0 = Inr t \<and>
     hx_decode sample_hex t = Some bs \<and> parse_pskt bs transaction_new = (Inr (), tx) \<and> redeem_bytes tx 0 = redeem \<and>
     encode_p2sh_address (replicate 32 5) (map of_char ''kaspa'') = source"
proof -
  let ?wc = "sample_crates sample_crypto (\<lambda>_. replicate 32 7)" and ?b2b = "\<lambda>_ :: bytes. replicate 32 (5 :: u8)"
  define source where "source = encode_p2sh_address (replicate 32 5) (map of_char ''kaspa'')"
  obtain redeem where r: "redeem_script_at sample_crypto ?wc sample_hex shared_text 0 0 0 = Inr (redeem, 2)" "length redeem = 69"
    by (rule shared_redeem)
  then have "multisig_address_at sample_crypto ?wc sample_hex ?b2b shared_text 0 0 0 = Inr source"
    by (simp add: multisig_address_at_def source_def)
  then have d: "discover_indices sample_crypto ?wc sample_hex ?b2b shared_text source 0 = Inr (0, 0, 0)" by (rule shared_discover)
  obtain ins where "mapR (utxo_bytes sample_hex 2) [sample_coin 100005000] = Inr ins" using sample_coin_bytes [of 2 100005000] by auto
  then obtain t where t: "create_multisig_kspt sample_crypto ?wc sample_hex ?b2b (Inr [sample_coin 100005000]) shared_text source
      sample_address 100000000 5000 source 0 = Inr t"
    using d r(1) sample_exact
    by (simp add: create_multisig_kspt_def sample_script lift_def checked_def checked_add_def absorb_dust_def serialize_kspt_multisig_def
        del: mapR.simps)
  have max: "(100005000 :: u64) \<le> MAX_SOMPI" unfolding MAX_SOMPI_def by simp
  have "encode_p2sh_address (?b2b redeem) (map of_char ''kaspa'') = source \<and> length (map sample_coin [100005000]) \<le> 3 \<and>
    (\<exists>bs tx dest_script change f. hx_decode sample_hex t = Some bs \<and> script_for sample_address = Inr dest_script \<and>
       change_goes_back sample_crypto ?wc sample_hex ?b2b shared_text source 0 0 change \<and> parse_pskt bs transaction_new = (Inr (), tx) \<and>
       view tx = sent_view sample_hex (of_nat 2) (map sample_coin [100005000]) ((100000000, dest_script) # change) \<and>
       (\<forall>k < length (map sample_coin [100005000]). redeem_bytes tx k = redeem) \<and>
       fee tx = Some f \<and> unat (5000 :: u64) \<le> unat f \<and> unat f \<le> unat (5000 :: u64) + 9999900)"
    by (rule multisig_payment_carries_redeem_script [OF sample_hex_ok _ t d r(1)])
      (use shared_prefix r(2) sample_exact max in \<open>simp_all add: sample_coin_def size_limits\<close>)
  then show ?thesis using t by (fastforce simp: source_def)
qed

end
