(* ===== verification/Spec2Isabelle.thy ===== *)
theory Spec2Isabelle
  imports KasPrelude KasWire KasTransaction KasKspt KasStatus KasKsptSigned KasBlakeSpec KasBlake2b KasSighash KasBip32 KasMultisig
    KasSchnorr KasExtBanks KasSigning KasSignMulti KasAddress KasMnemonic KasXpub KasTimefmt
    KasVerify KasStegoPerm KasDescriptor KasWallet KasCompanion KasCoordinator
begin

text \<open>
  A verification development for KasSigner, the air-gapped signing firmware for Kaspa: its core (core/src),
  everything between the bytes that a QR code brings in and the signatures that go out, the security-relevant
  parts of the firmware around it (bootloader/src), and the part of the companion wallet KasSee (kassee/src) that
  makes what the device reads: addresses, watch-only wallets, descriptors and unsigned transactions.

  \<^bold>\<open>How the parts interact.\<close> A companion wallet sends an unsigned transaction in the KSPT format
  (versions 1 and 4) or a partially signed one (2, 3 and 5). The parsers fill a fixed-size transaction,
  the screens show amounts, fee, scripts and signing status, the check for false change claims
  compares outputs with the stored multisig descriptor, and on confirmation the signing pass finds the key
  of every input among the keys derived from the account, hashes and signs it and stores the
  signature, after which the serializers write the answer. Each part is a theory.

  \<^item> KasPrelude: machine integers, little-endian bytes, slices, and the step combinators (state in,
    error or value and state out), so that what \<open>?\<close> leaves half-done stays visible.
  \<^item> KasWire: \<open>ByteReader\<close> and \<open>ByteWriter\<close> of core/src/wallet/pskt.rs; the locale \<open>wire_codec\<close> is
    the contract between a writer and the reader of its output, interpreted for every field type.
  \<^item> KasTransaction: core/src/wallet/transaction.rs without the descriptors: sighash types, scripts and
    their classification, inputs, outputs, the pool of long redeem scripts, amounts and their
    rendering; well-formedness \<open>wf_transaction\<close> and its preservation.
  \<^item> KasKspt: \<open>parse_pskt\<close>, \<open>serialize_pskt\<close>, \<open>serialize_signed_pskt\<close> and the signature response of
    pskt.rs; a byte grammar (\<open>kspt_wire\<close>) that the writer emits and the reader accepts, the round
    trip, what an accepted payload can contain, and where the format is laxer than documented.
  \<^item> KasStatus: \<open>analyze_input_script\<close>, \<open>is_fully_signed\<close>, \<open>signature_status\<close> of pskt.rs.
  \<^item> KasKsptSigned: \<open>serialize_signed_pskt_v2\<close>, \<open>parse_signed_pskt_v2\<close>, their grammar and round trip.
  \<^item> KasBlakeSpec: BLAKE2b as RFC 7693 states it, independent of the code: initial value from the square roots
    of primes, rounds as column and diagonal steps on a matrix, parameter block, list of padded blocks.
  \<^item> KasBlake2b: the BLAKE2b-256 of core/src/wallet/sighash.rs and its streaming interface; tables, mixing,
    compression and buffering refined against KasBlakeSpec (locale \<open>stream_hasher\<close> for the clients).
  \<^item> KasSighash: the signature hashes of sighash.rs against the byte lists that the consensus rules
    hash; what they commit to, and that the cached form equals the direct one.
  \<^item> KasBip32: core/src/wallet/bip32.rs and hmac.rs: scalar arithmetic on bytes, private and public
    derivation, the chain-parent shortcuts and the address searches.
  \<^item> KasMultisig: \<open>MultisigConfig\<close> and \<open>find_forged_change\<close> of transaction.rs; the two insertion sorts
    share the locale \<open>insertion_loop\<close>.
  \<^item> KasSchnorr: core/src/wallet/schnorr.rs.
  \<^item> KasExtBanks: core/src/ext.rs, the banks of derived keys; the locale \<open>key_finder\<close> is what the
    signing pass asks of a key search.
  \<^item> KasSigning: \<open>sign_transaction\<close>, \<open>sign_transaction_in_place\<close>, \<open>stealth_combined_key\<close> and
    \<open>sign_transaction_multi_addr\<close> of pskt.rs.
  \<^item> KasSignMulti: \<open>sign_transaction_multisig\<close> of pskt.rs with its caches, searches and the walk over
    redeem scripts with embedded keys.
  \<^item> KasBits: words as strings of bits, for everything that regroups bits.
  \<^item> KasAddress: core/src/wallet/address.rs and the companion's kassee/src/address.rs; the checksum
    register as a linear map, what it detects, and the agreement of the two programs.
  \<^item> KasWordlist, KasMnemonic: the BIP39 word list, the lookups, mnemonics and seeds of
    core/src/wallet/bip39.rs, and the child mnemonics of bip85.rs.
  \<^item> KasXpub: core/src/wallet/xpub.rs and core/src/qr/payload.rs: base58 with its checksum as the one
    numeral of a byte string, the exports of account keys and their import.
  \<^item> KasTimefmt: core/src/timefmt.rs, the lock time on the review screen, against the calendar that the
    lengths of the months define.
  \<^item> KasVerify: core/src/crypto, boot verification (bootloader/src/features/verify.rs) and update records
    (fw\_update.rs): what is accepted, and which faults the flow accumulator notices.
  \<^item> KasStegoPerm: bootloader/src/features/stego\_perm.rs, a Feistel network walked along its cycles.
  \<^item> KasDescriptor: the text form of multisig wallets in bootloader/src/handlers/sd.rs, writer and parsers of
    both schemes; what is written loads as the same wallet, what loads is well-formed.
  \<^item> KasWallet: kassee/src/bip32.rs, the watch-only wallet; its addresses are those of the keys that KasBip32
    derives for signing.
  \<^item> KasCompanion: kassee/src/kspt.rs, dust, coin selection and the single-key KSPT commands; the bytes go
    through the parser of KasKspt, the selection is compared with every other choice of coins.
  \<^item> KasCoordinator: kassee/src/kspt.rs, descriptors, redeem scripts and the multisig KSPT command, against
    KasDescriptor and KasMultisig.

  \<^bold>\<open>Conventions.\<close> Definitions keep the names of the code. Fixed arrays are lists whose length the
  well-formedness predicates fix; machine integers are words, so that additions wrap as in the release
  build, except where the firmware's overflow checks trap (amount sums), which is \<open>None\<close>. An error
  is \<open>Inl\<close>, with the state reached. Crates are parameters: the hash \<open>hash\<close> (blake2b\_simd), the
  records \<open>crypto\<close> and \<open>curve\<close> (k256, sha2); \<open>crypto_ok\<close> and \<open>curve_ok\<close> state their
  documented behaviour and hold for the sample instances (the integers modulo the group order). The
  entropy source is an argument. The companion's node, hex and JSON crates are parameters as well; its crate
  traps overflow, which is an error of its own there. Collision resistance is never assumed: where a property needs it,
  its statement offers the collision as the other case.

  \<^bold>\<open>Loops and bounds.\<close> All loops but two are structural or carry a measure. The search of the key
  banks and the walk of KasStegoPerm are partial functions whose value \<open>None\<close> means that they run forever; the
  first is proved never to be \<open>None\<close> for banks of at most 65535 slots (the firmware has 1000), the second never at
  all. In KasSignMulti \<open>None\<close> is a panic. No fuel is used anywhere. Capacities
  (inputs, outputs, script, payload and pool sizes) are the constants of the code.

  \<^bold>\<open>What the lemmas show.\<close> Parsers: an invariant that every step preserves also on errors (\<open>keeps\<close>),
  what success establishes (\<open>yields\<close>), and how a reader consumes a field (\<open>reads_intros\<close>). Hashes:
  refinement of the buffered hasher, then injectivity of the hashed byte layout. Derivation: byte
  arithmetic equals arithmetic modulo the order, from which the agreement of private and public
  derivation follows. Signing: a loop invariant saying which inputs are signed
  (\<open>pass_ok\<close>) or what each input has gained (\<open>multi_ok\<close>), from which safety and completeness of a pass follow.
  Companion: its keys and the device's are the same points (\<open>linked\<close>), its bytes are the
  grammar of KasKspt (\<open>make_tx_wire\<close>), so that the device's theorems apply to what it sends.

  \<^bold>\<open>Not modelled.\<close> Wiping of secrets and constant-time execution (no observable value), the boot
  self-tests, logging. The JSON format of PSKT, the encrypted storage, ECIES and FAT32 are further components of
  core that later theories can add. Of the firmware around core, screens, drivers, camera and touch handlers are
  hardware or pixel code; of the companion, the connection to the node, JSON transactions and covenants are an
  online program. The QR decoder is a port of a third-party library.
\<close>

end
